(* ===== verification/Eg_Prelude.thy ===== *)
theory Eg_Prelude
  imports Main "HOL-Library.AList" "HOL-Library.Word" "HOL-Library.Multiset" "HOL-Library.Sublist"
begin

text \<open>
  Shared vocabulary of the development.

  \<^item> Clock values: \<^verbatim>\<open>std::time::Instant\<close> and \<^verbatim>\<open>Duration\<close> are nanoseconds as \<^typ>\<open>nat\<close>;
    \<^verbatim>\<open>saturating_duration_since\<close> is truncated subtraction.
  \<^item> Machine integers keep their width (\<open>u16\<close>, \<open>u32\<close>, \<open>u64\<close>); \<^verbatim>\<open>usize\<close> counts of
    in-memory items are \<^typ>\<open>nat\<close>.
  \<^item> A Rust \<^verbatim>\<open>String\<close> is a list of Unicode scalar values (\<open>ustr\<close>); \<open>utf8_len\<close> is its byte
    length, \<open>split_bytes\<close> is \<^verbatim>\<open>str::split_at\<close> guarded by \<^verbatim>\<open>is_char_boundary\<close>.
  \<^item> A \<^verbatim>\<open>HashMap\<close> that is iterated is an association list; the list order stands for the
    (unspecified) iteration order, and no theorem depends on which order it is.
  \<^item> \<open>reachable\<close> and the locale \<open>step_invariant\<close> give every component the same invariant rule.
\<close>

section \<open>Types\<close>

type_synonym instant = nat
type_synonym duration = nat
type_synonym u16 = "16 word"
type_synonym u32 = "32 word"
type_synonym u64 = "64 word"
type_synonym uchar = nat
type_synonym ustr = "uchar list"
type_synonym peer_id = "128 word"

abbreviation nanos_per_sec :: nat where
  "nanos_per_sec \<equiv> 1000000000"

definition lit :: "string \<Rightarrow> ustr" where
  "lit s = map of_char s"

lemma lit_eq_iff [simp]: "lit s = lit t \<longleftrightarrow> s = t"
  by (simp add: lit_def inj_map_eq_map inj_on_def)

lemma lit_Nil [simp]: "lit [] = []"
  by (simp add: lit_def)

lemma lit_eq_Nil_iff [simp]: "lit s = [] \<longleftrightarrow> s = []" "[] = lit s \<longleftrightarrow> s = []"
  by (auto simp: lit_def)

lemma length_lit [simp]: "length (lit s) = length s"
  by (simp add: lit_def)

lemma distinct_lit: "distinct (lit s) \<longleftrightarrow> distinct s"
  by (simp add: lit_def distinct_map inj_on_def)

text \<open>\<^verbatim>\<open>char::is_whitespace\<close>: the Unicode property White\_Space; \<^verbatim>\<open>str::trim\<close> strips it on both sides.\<close>

definition is_whitespace :: "uchar \<Rightarrow> bool" where
  "is_whitespace c \<longleftrightarrow> 9 \<le> c \<and> c \<le> 13 \<or> c = 32 \<or> c = 133 \<or> c = 160 \<or> c = 5760 \<or> 8192 \<le> c \<and> c \<le> 8202 \<or>
     c = 8232 \<or> c = 8233 \<or> c = 8239 \<or> c = 8287 \<or> c = 12288"

definition str_trim :: "ustr \<Rightarrow> ustr" where
  "str_trim s = rev (dropWhile is_whitespace (rev (dropWhile is_whitespace s)))"

section \<open>UTF-8 lengths\<close>

definition utf8_char_len :: "uchar \<Rightarrow> nat" where
  "utf8_char_len c = (if c < 128 then 1 else if c < 2048 then 2 else if c < 65536 then 3 else 4)"

definition utf8_len :: "ustr \<Rightarrow> nat" where
  "utf8_len s = sum_list (map utf8_char_len s)"

lemma utf8_char_len_pos [simp]: "0 < utf8_char_len c"
  by (simp add: utf8_char_len_def)

lemma utf8_char_len_bounds: "1 \<le> utf8_char_len c" "utf8_char_len c \<le> 4"
  by (auto simp: utf8_char_len_def)

lemma utf8_len_simps [simp]:
  "utf8_len [] = 0"
  "utf8_len (c # s) = utf8_char_len c + utf8_len s"
  "utf8_len (s @ t) = utf8_len s + utf8_len t"
  by (simp_all add: utf8_len_def)

lemma utf8_len_eq_0_iff [simp]: "utf8_len s = 0 \<longleftrightarrow> s = []"
  by (cases s) (auto simp: utf8_char_len_def)

text \<open>\<open>split_bytes n s\<close> cuts \<open>s\<close> at byte offset \<open>n\<close>; \<open>None\<close> when the offset is past the end or
  inside a character, the two cases where \<^verbatim>\<open>split_at\<close> panics.\<close>

fun split_bytes :: "nat \<Rightarrow> ustr \<Rightarrow> (ustr \<times> ustr) option" where
  "split_bytes n [] = (if n = 0 then Some ([], []) else None)"
| "split_bytes n (c # s) =
     (if n = 0 then Some ([], c # s)
      else if utf8_char_len c \<le> n
      then map_option (\<lambda>(a, b). (c # a, b)) (split_bytes (n - utf8_char_len c) s)
      else None)"

lemma split_bytes_append [simp]: "split_bytes (utf8_len s) (s @ t) = Some (s, t)"
proof (induction s)
  case Nil
  then show ?case by (cases t) simp_all
next
  case (Cons c s)
  then show ?case by simp
qed

lemma split_bytes_0 [simp]: "split_bytes 0 s = Some ([], s)"
  by (cases s) simp_all

lemma split_bytes_Some:
  "split_bytes n s = Some (a, b) \<Longrightarrow> s = a @ b \<and> utf8_len a = n"
proof (induction n s arbitrary: a b rule: split_bytes.induct)
  case (1 n)
  then show ?case by (auto split: if_splits)
next
  case (2 n c s)
  then show ?case by (auto split: if_splits)
qed

section \<open>Association lists as hash maps\<close>

definition alist_get :: "'v \<Rightarrow> ('k \<times> 'v) list \<Rightarrow> 'k \<Rightarrow> 'v" where
  "alist_get d m k = (case map_of m k of None \<Rightarrow> d | Some v \<Rightarrow> v)"

lemma alist_get_Nil [simp]: "alist_get d [] k = d"
  by (simp add: alist_get_def)

lemma alist_get_update [simp]:
  "alist_get d (AList.update k v m) k' = (if k' = k then v else alist_get d m k')"
  by (simp add: alist_get_def update_conv')

lemma alist_get_delete [simp]:
  "alist_get d (AList.delete k m) k' = (if k' = k then d else alist_get d m k')"
  by (simp add: alist_get_def delete_conv')

lemma alist_get_not_dom: "k \<notin> fst ` set m \<Longrightarrow> alist_get d m k = d"
  by (metis alist_get_def map_of_eq_None_iff option.simps(4))

lemma alist_get_in: "alist_get d m k \<noteq> d \<Longrightarrow> (k, alist_get d m k) \<in> set m"
  by (auto simp: alist_get_def split: option.splits dest: map_of_SomeD)

lemma alist_get_of_mem:
  "distinct (map fst m) \<Longrightarrow> (k, v) \<in> set m \<Longrightarrow> alist_get d m k = v"
  by (simp add: alist_get_def)

text \<open>\<^verbatim>\<open>map.entry(k).or_default()\<close>: the entry exists afterwards.\<close>

definition entry_or_default :: "'v \<Rightarrow> 'k \<Rightarrow> ('k \<times> 'v) list \<Rightarrow> ('k \<times> 'v) list" where
  "entry_or_default d k m = AList.update k (alist_get d m k) m"

lemma alist_get_entry_or_default [simp]:
  "alist_get d (entry_or_default d k m) k' = alist_get d m k'"
  by (simp add: entry_or_default_def)

lemma distinct_entry_or_default [simp]:
  "distinct (map fst m) \<Longrightarrow> distinct (map fst (entry_or_default d k m))"
  by (simp add: entry_or_default_def distinct_update)

lemma distinct_delete_keys [simp]:
  "distinct (map fst m) \<Longrightarrow> distinct (map fst (AList.delete k m))"
  by (simp add: distinct_delete)

lemma alist_get_map_filter:
  assumes "distinct (map fst m)" "f d = d"
    and "\<And>k v. (k, v) \<in> set m \<Longrightarrow> \<not> P (k, f v) \<Longrightarrow> f v = d"
  shows "alist_get d (filter P (map (\<lambda>(k, v). (k, f v)) m)) k = f (alist_get d m k)"
  using assms
proof (induction m)
  case Nil
  then show ?case by simp
next
  case (Cons kv m)
  obtain k0 v0 where kv: "kv = (k0, v0)" by (cases kv)
  have IH: "alist_get d (filter P (map (\<lambda>(k, v). (k, f v)) m)) k = f (alist_get d m k)"
    using Cons by (auto simp: kv)
  have notin: "k0 \<notin> fst ` set (filter P (map (\<lambda>(k, v). (k, f v)) m))"
    using Cons.prems(1) by (auto simp: kv image_iff)
  have "f v0 = d" if "\<not> P (k0, f v0)"
    using Cons.prems(3) that by (auto simp: kv)
  with IH alist_get_not_dom[OF notin] show ?case
    by (auto simp: kv alist_get_def)
qed

lemma map_fst_map_snd: "map fst (map (\<lambda>(k, v). (k, f v)) m) = map fst m"
  by (induction m) auto

lemma distinct_keys_map_filter:
  "distinct (map fst m) \<Longrightarrow> distinct (map fst (filter P (map (\<lambda>(k, v). (k, f v)) m)))"
  by (rule distinct_map_filter) (simp only: map_fst_map_snd)

section \<open>Lists\<close>

lemma sorted_wrt_mono_set:
  "sorted_wrt R xs \<Longrightarrow> (\<And>x y. x \<in> set xs \<Longrightarrow> y \<in> set xs \<Longrightarrow> R x y \<Longrightarrow> S x y) \<Longrightarrow> sorted_wrt S xs"
  by (induction xs) auto

lemma length_filter_partition:
  "length (filter P xs) + length (filter (\<lambda>x. \<not> P x) xs) = length xs"
  by (induction xs) auto

lemma mset_filter_partition:
  "mset (filter P xs) + mset (filter (\<lambda>x. \<not> P x) xs) = mset xs"
  by (induction xs) auto

text \<open>\<^verbatim>\<open>iter_mut().find(P)\<close> followed by an in-place update, \<^verbatim>\<open>position(P)\<close> followed by
  \<^verbatim>\<open>remove\<close>, and \<^verbatim>\<open>min_by_key\<close> (which keeps the first of several minima).\<close>

fun update_first :: "('a \<Rightarrow> bool) \<Rightarrow> ('a \<Rightarrow> 'a) \<Rightarrow> 'a list \<Rightarrow> 'a list" where
  "update_first P f [] = []"
| "update_first P f (x # xs) = (if P x then f x # xs else x # update_first P f xs)"

fun remove_first :: "('a \<Rightarrow> bool) \<Rightarrow> 'a list \<Rightarrow> 'a list" where
  "remove_first P [] = []"
| "remove_first P (x # xs) = (if P x then xs else x # remove_first P xs)"

fun min_by_key :: "('a \<Rightarrow> 'k::linorder) \<Rightarrow> 'a list \<Rightarrow> 'a option" where
  "min_by_key f [] = None"
| "min_by_key f (x # xs) = Some (foldl (\<lambda>acc y. if f acc \<le> f y then acc else y) x xs)"

lemma update_first_cong_id: "(\<And>x. x \<in> set xs \<Longrightarrow> P x \<Longrightarrow> f x = x) \<Longrightarrow> update_first P f xs = xs"
  by (induction xs) auto

lemma update_first_none: "\<forall>x\<in>set xs. \<not> P x \<Longrightarrow> update_first P f xs = xs"
  by (induction xs) auto

lemma length_update_first [simp]: "length (update_first P f xs) = length xs"
  by (induction xs) auto

lemma map_update_first: "(\<And>x. P x \<Longrightarrow> g (f x) = g x) \<Longrightarrow> map g (update_first P f xs) = map g xs"
  by (induction xs) auto

lemma set_update_firstD: "y \<in> set (update_first P f xs) \<Longrightarrow> y \<in> set xs \<or> (\<exists>x\<in>set xs. P x \<and> y = f x)"
  by (induction xs) (auto split: if_splits)

lemma update_first_other: "y \<in> set xs \<Longrightarrow> \<not> P y \<Longrightarrow> y \<in> set (update_first P f xs)"
  by (induction xs) auto

lemma list_all2_update_first:
  "(\<And>x. R x x) \<Longrightarrow> (\<And>x. P x \<Longrightarrow> R x (f x)) \<Longrightarrow> list_all2 R xs (update_first P f xs)"
  by (induction xs) (auto intro: list_all2_refl)

lemma find_update_first:
  "find P xs = Some x \<Longrightarrow> \<exists>a b. xs = a @ x # b \<and> P x \<and> (\<forall>y\<in>set a. \<not> P y) \<and> update_first P f xs = a @ f x # b"
proof (induction xs)
  case (Cons y ys)
  show ?case
  proof (cases "P y")
    case True
    then show ?thesis using Cons.prems by (intro exI[of _ "[]"] exI[of _ ys]) auto
  next
    case False
    with Cons obtain a b where "ys = a @ x # b" "P x" "\<forall>y\<in>set a. \<not> P y" "update_first P f ys = a @ f x # b"
      by auto
    with False show ?thesis by (intro exI[of _ "y # a"] exI[of _ b]) auto
  qed
qed simp

lemma list_all2_update_found:
  assumes "find P xs = Some x" "\<And>y. R y y" "R x (f x)"
  shows "list_all2 R xs (update_first P f xs)"
proof -
  obtain a b where "xs = a @ x # b" "update_first P f xs = a @ f x # b"
    using find_update_first[OF assms(1)] by blast
  then show ?thesis
    using assms(2,3) by (auto intro!: list_all2_appendI simp: list_all2_refl)
qed

lemma remove_first_eq:
  "find P xs = Some x \<Longrightarrow> \<exists>a b. xs = a @ x # b \<and> P x \<and> (\<forall>y\<in>set a. \<not> P y) \<and> remove_first P xs = a @ b"
proof (induction xs)
  case (Cons y ys)
  show ?case
  proof (cases "P y")
    case True
    then show ?thesis using Cons.prems by (intro exI[of _ "[]"] exI[of _ ys]) auto
  next
    case False
    with Cons obtain a b where "ys = a @ x # b" "P x" "\<forall>y\<in>set a. \<not> P y" "remove_first P ys = a @ b"
      by auto
    with False show ?thesis by (intro exI[of _ "y # a"] exI[of _ b]) auto
  qed
qed simp

lemma remove_first_none: "find P xs = None \<Longrightarrow> remove_first P xs = xs"
  by (induction xs) (auto split: if_splits)

lemma subseq_remove_first: "subseq (remove_first P xs) xs"
  by (induction xs) auto

lemma count_update_first_le:
  "(\<And>x. P x \<Longrightarrow> Q (f x) \<Longrightarrow> Q x) \<Longrightarrow> length (filter Q (update_first P f xs)) \<le> length (filter Q xs)"
  by (induction xs) auto

lemma count_update_first_le_Suc:
  "length (filter Q (update_first P f xs)) \<le> Suc (length (filter Q xs))"
  by (induction xs) auto

lemma count_remove_first:
  "find P xs = Some x \<Longrightarrow> Q x \<Longrightarrow> length (filter Q xs) = Suc (length (filter Q (remove_first P xs)))"
  by (induction xs) (auto split: if_splits)

lemma find_distinct_key:
  "distinct (map f xs) \<Longrightarrow> x \<in> set xs \<Longrightarrow> find (\<lambda>y. f y = f x) xs = Some x"
  by (induction xs) (auto simp: image_iff)

lemma distinct_key_split: "distinct (map f (a @ w # b)) \<Longrightarrow> \<forall>r\<in>set (a @ b). f r \<noteq> f w"
  by (auto simp: image_iff)

lemma min_by_key_SomeD:
  assumes "min_by_key f xs = Some m"
  shows "m \<in> set xs \<and> (\<forall>y\<in>set xs. f m \<le> f y)"
proof (cases xs)
  case (Cons x ys)
  define g where "g = (\<lambda>acc y. if f acc \<le> f y then acc else y)"
  have "foldl g x ys \<in> set (x # ys) \<and> (\<forall>y\<in>set (x # ys). f (foldl g x ys) \<le> f y)" for x
  proof (induction ys arbitrary: x)
    case (Cons y ys)
    have "f (g x y) \<le> f x" "f (g x y) \<le> f y" "g x y = x \<or> g x y = y" by (auto simp: g_def)
    with Cons[of "g x y"] show ?case by (auto intro: order_trans)
  qed simp
  from this[of x] show ?thesis using assms unfolding Cons g_def[symmetric] min_by_key.simps by auto
qed (use assms in simp)

lemma min_by_key_None [simp]: "min_by_key f xs = None \<longleftrightarrow> xs = []"
  by (cases xs) auto

section \<open>Counters\<close>

lemma word_less_Suc:
  fixes n :: "'a::len word"
  assumes "n \<noteq> - 1"
  shows "n < n + 1" "x < n \<Longrightarrow> x < n + 1" "x < n + 1 \<longleftrightarrow> x \<le> n"
proof -
  have "1 + n \<noteq> 0" using assms by (metis add.commute add.inverse_unique add.inverse_inverse)
  then have "unat (n + 1) = Suc (unat n)" by (metis add.commute unatSuc)
  then show "n < n + 1" "x < n \<Longrightarrow> x < n + 1" "x < n + 1 \<longleftrightarrow> x \<le> n"
    by (auto simp: word_less_nat_alt word_le_nat_alt)
qed

lemma unat_bound: "unat (w :: 'a::len word) < 2 ^ LENGTH('a)"
  by (rule unsigned_less)

lemma unat_Suc_no_wrap:
  fixes n :: "'a::len word"
  assumes "Suc (unat n) < 2 ^ LENGTH('a)"
  shows "unat (n + 1) = Suc (unat n)" "n \<noteq> - 1"
proof -
  show *: "unat (n + 1) = Suc (unat n)"
    using assms by (simp add: unat_word_ariths)
  show "n \<noteq> - 1"
    using * by auto
qed

section \<open>Reachable states and invariants\<close>

inductive reachable :: "('s \<Rightarrow> bool) \<Rightarrow> ('s \<Rightarrow> 's \<Rightarrow> bool) \<Rightarrow> 's \<Rightarrow> bool"
  for ini :: "'s \<Rightarrow> bool" and step :: "'s \<Rightarrow> 's \<Rightarrow> bool" where
  reach_init: "ini s \<Longrightarrow> reachable ini step s"
| reach_step: "reachable ini step s \<Longrightarrow> step s t \<Longrightarrow> reachable ini step t"

text \<open>The contract between a component's steps and its invariant.\<close>

locale step_invariant =
  fixes ini :: "'s \<Rightarrow> bool"
    and step :: "'s \<Rightarrow> 's \<Rightarrow> bool"
    and inv :: "'s \<Rightarrow> bool"
  assumes inv_init: "ini s \<Longrightarrow> inv s"
    and inv_step: "inv s \<Longrightarrow> step s t \<Longrightarrow> inv t"
begin

lemma inv_reachable: "reachable ini step s \<Longrightarrow> inv s"
  by (induction rule: reachable.induct) (auto intro: inv_init inv_step)

lemma inv_star: "step\<^sup>*\<^sup>* s t \<Longrightarrow> inv s \<Longrightarrow> inv t"
  by (induction rule: rtranclp_induct) (auto intro: inv_step)

end

lemma reachable_star: "step\<^sup>*\<^sup>* s t \<Longrightarrow> reachable ini step s \<Longrightarrow> reachable ini step t"
  by (induction rule: rtranclp_induct) (auto intro: reach_step)

end
