(* ===== verification/Busy_Policy.thy ===== *)
theory Busy_Policy
  imports Eg_Prelude
begin

text \<open>
  The idle gate, \<^verbatim>\<open>crates/engram-dashboard-messaging/src/busy.rs\<close>. The turn facts live in the host
  (trait \<^verbatim>\<open>TurnFacts\<close>) and are arguments here; the policy's own state is the ledger of turns judged
  abandoned. The trait \<^verbatim>\<open>BusyGate\<close> is the locale \<open>busy_gate\<close>, interpreted on the policy and on
  \<^verbatim>\<open>AlwaysIdleGate\<close>.
\<close>

definition BUSY_MAX_TURN :: duration where
  "BUSY_MAX_TURN = 30 * 60 * nanos_per_sec"

datatype busy_reason = HaltedAfterError | InTurn | InputsPending

record turn_fact =
  tf_in_turn :: bool
  tf_last_signal :: instant
  tf_inputs_pending :: bool
  tf_last_end_failed :: bool

type_synonym incarnation = "peer_id \<times> u32"
type_synonym turn_facts = "incarnation \<Rightarrow> turn_fact option"

record busy_policy =
  bp_stale :: "(incarnation \<times> instant) list"

definition busy_policy_new :: busy_policy where
  "busy_policy_new = \<lparr>bp_stale = []\<rparr>"

text \<open>The loop of \<^verbatim>\<open>sweep_stale_busy\<close>: \<open>ledger\<close> is the old judgement, \<open>nxt\<close> the new one.\<close>

fun stale_loop :: "(incarnation \<times> instant) list \<Rightarrow> (incarnation \<times> instant) list \<Rightarrow>
    peer_id list \<Rightarrow> (incarnation \<times> instant) list \<Rightarrow> peer_id list \<times> (incarnation \<times> instant) list" where
  "stale_loop ledger [] to_wake nxt = (to_wake, nxt)"
| "stale_loop ledger ((key, seen) # rest) to_wake nxt =
     stale_loop ledger rest
       (if map_of ledger key \<noteq> Some seen \<and> fst key \<notin> set to_wake then to_wake @ [fst key] else to_wake)
       (AList.update key seen nxt)"

definition sweep_stale_busy ::
  "busy_policy \<Rightarrow> (incarnation \<times> instant) list \<Rightarrow> instant \<Rightarrow> peer_id list \<times> busy_policy" where
  "sweep_stale_busy bp in_turn_snapshot now = (
     let stale_now = filter (\<lambda>(_, seen). BUSY_MAX_TURN \<le> now - seen) in_turn_snapshot;
         (to_wake, nxt) = stale_loop (bp_stale bp) stale_now [] []
     in (to_wake, bp\<lparr>bp_stale := nxt\<rparr>))"

definition policy_busy_reason :: "turn_facts \<Rightarrow> busy_policy \<Rightarrow> peer_id \<Rightarrow> u32 \<Rightarrow> busy_reason option" where
  "policy_busy_reason facts bp pid epoch = (
     case facts (pid, epoch) of
       None \<Rightarrow> None
     | Some tf \<Rightarrow>
         if tf_last_end_failed tf then Some HaltedAfterError
         else if tf_in_turn tf \<and> map_of (bp_stale bp) (pid, epoch) \<noteq> Some (tf_last_signal tf) then Some InTurn
         else if tf_inputs_pending tf then Some InputsPending
         else None)"

definition policy_is_busy :: "turn_facts \<Rightarrow> busy_policy \<Rightarrow> peer_id \<Rightarrow> u32 \<Rightarrow> bool" where
  "policy_is_busy facts bp pid epoch \<longleftrightarrow> policy_busy_reason facts bp pid epoch \<noteq> None"

text \<open>The trait's default method and the fallback gate.\<close>

definition default_busy_reason :: "(peer_id \<Rightarrow> u32 \<Rightarrow> bool) \<Rightarrow> peer_id \<Rightarrow> u32 \<Rightarrow> busy_reason option" where
  "default_busy_reason is_busy pid epoch = (if is_busy pid epoch then Some InTurn else None)"

definition always_idle_is_busy :: "peer_id \<Rightarrow> u32 \<Rightarrow> bool" where
  "always_idle_is_busy pid epoch \<longleftrightarrow> False"

section \<open>The gate contract\<close>

locale busy_gate =
  fixes is_busy :: "peer_id \<Rightarrow> u32 \<Rightarrow> bool"
    and busy_reason :: "peer_id \<Rightarrow> u32 \<Rightarrow> busy_reason option"
  assumes busy_iff_reason: "is_busy pid epoch \<longleftrightarrow> busy_reason pid epoch \<noteq> None"
begin

lemma delivery_blocked_iff: "turn_signal \<and> busy_reason pid epoch \<noteq> None \<longleftrightarrow> turn_signal \<and> is_busy pid epoch"
  by (simp add: busy_iff_reason)

end

interpretation policy_gate: busy_gate "policy_is_busy facts bp" "policy_busy_reason facts bp" for facts bp
  by unfold_locales (simp add: policy_is_busy_def)

interpretation idle_gate: busy_gate always_idle_is_busy "default_busy_reason always_idle_is_busy"
  by unfold_locales (simp add: default_busy_reason_def)

section \<open>The sweep\<close>

lemma stale_loop_next: "snd (stale_loop ledger xs w nxt) = foldl (\<lambda>m (k, v). AList.update k v m) nxt xs"
  by (induction ledger xs w nxt rule: stale_loop.induct) auto

lemma foldl_update_distinct:
  "distinct (map fst xs) \<Longrightarrow>
   map_of (foldl (\<lambda>m (k, v). AList.update k v m) m xs) k = (case map_of xs k of None \<Rightarrow> map_of m k | Some v \<Rightarrow> Some v)"
proof (induction xs arbitrary: m)
  case (Cons x xs)
  obtain k0 v0 where x: "x = (k0, v0)" by (cases x)
  have "map_of xs k0 = None" using Cons.prems by (simp add: x map_of_eq_None_iff)
  with Cons show ?case by (auto simp: x update_conv' split: option.splits)
qed simp

lemma stale_loop_wake:
  "set (fst (stale_loop ledger xs w nxt)) = set w \<union> fst ` {k. \<exists>v. (k, v) \<in> set xs \<and> map_of ledger k \<noteq> Some v}"
proof (induction ledger xs w nxt rule: stale_loop.induct)
  case (2 ledger key seen rest to_wake nxt)
  have "{k. \<exists>v. (k, v) \<in> set ((key, seen) # rest) \<and> map_of ledger k \<noteq> Some v} =
      (if map_of ledger key \<noteq> Some seen then {key} else {}) \<union> {k. \<exists>v. (k, v) \<in> set rest \<and> map_of ledger k \<noteq> Some v}"
    by auto
  then have "fst ` {k. \<exists>v. (k, v) \<in> set ((key, seen) # rest) \<and> map_of ledger k \<noteq> Some v} =
      (if map_of ledger key \<noteq> Some seen then {fst key} else {}) \<union> fst ` {k. \<exists>v. (k, v) \<in> set rest \<and> map_of ledger k \<noteq> Some v}"
    by auto
  then show ?case using 2 by auto
qed simp

lemma stale_loop_distinct: "distinct w \<Longrightarrow> distinct (fst (stale_loop ledger xs w nxt))"
  by (induction ledger xs w nxt rule: stale_loop.induct) auto

lemma map_of_filter_distinct:
  "distinct (map fst xs) \<Longrightarrow> map_of (filter keep xs) key = Option.bind (map_of xs key) (\<lambda>at. if keep (key, at) then Some at else None)"
proof (induction xs)
  case (Cons x xs)
  obtain k0 v0 where x: "x = (k0, v0)" by (cases x)
  have "map_of xs k0 = None" using Cons.prems by (simp add: x map_of_eq_None_iff)
  with Cons show ?case by (auto simp: x)
qed simp

lemma sweep_ledger:
  assumes "distinct (map fst snap)"
  shows "map_of (bp_stale (snd (sweep_stale_busy bp snap now))) k =
     (case map_of snap k of None \<Rightarrow> None | Some seen \<Rightarrow> if BUSY_MAX_TURN \<le> now - seen then Some seen else None)"
proof -
  have "distinct (map fst (filter (\<lambda>(_, seen). BUSY_MAX_TURN \<le> now - seen) snap))"
    using assms by (rule distinct_map_filter)
  then show ?thesis
    using assms unfolding sweep_stale_busy_def
    by (simp add: Let_def case_prod_beta stale_loop_next foldl_update_distinct map_of_filter_distinct split: option.splits Option.bind_splits)
qed

section \<open>Properties\<close>

text \<open>A turn without signals for the limit no longer blocks mail, and only that: right after a
  sweep a recipient whose observed turn started and then stayed silent is busy exactly while its
  silence is below \<open>BUSY_MAX_TURN\<close> (or it halted on an error, or user input is pending, which no
  limit releases), an unobserved recipient is never busy, and a new signal makes the turn count
  again at once.\<close>

theorem busy_after_sweep:
  assumes "distinct (map fst snap)"
    and "\<forall>k f. facts k = Some f \<and> tf_in_turn f \<longrightarrow> map_of snap k = Some (tf_last_signal f)"
  shows "policy_busy_reason facts (snd (sweep_stale_busy bp snap now)) pid epoch =
    (case facts (pid, epoch) of None \<Rightarrow> None
     | Some f \<Rightarrow> if tf_last_end_failed f then Some HaltedAfterError
         else if tf_in_turn f \<and> now - tf_last_signal f < BUSY_MAX_TURN then Some InTurn
         else if tf_inputs_pending f then Some InputsPending else None) \<and>
    (\<forall>f facts'. facts' (pid, epoch) = Some f \<and> tf_in_turn f \<and> map_of snap (pid, epoch) \<noteq> Some (tf_last_signal f) \<longrightarrow>
       policy_is_busy facts' (snd (sweep_stale_busy bp snap now)) pid epoch)"
proof -
  have "policy_busy_reason facts (snd (sweep_stale_busy bp snap now)) pid epoch =
    (case facts (pid, epoch) of None \<Rightarrow> None
     | Some f \<Rightarrow> if tf_last_end_failed f then Some HaltedAfterError
         else if tf_in_turn f \<and> now - tf_last_signal f < BUSY_MAX_TURN then Some InTurn
         else if tf_inputs_pending f then Some InputsPending else None)"
  proof (cases "facts (pid, epoch)")
    case (Some f)
    show ?thesis
    proof (cases "tf_in_turn f")
      case True
      then have "map_of snap (pid, epoch) = Some (tf_last_signal f)" using assms(2) Some by blast
      then show ?thesis using Some by (auto simp: policy_busy_reason_def sweep_ledger[OF assms(1)])
    qed (simp add: policy_busy_reason_def Some)
  qed (simp add: policy_busy_reason_def)
  moreover have "policy_is_busy facts' (snd (sweep_stale_busy bp snap now)) pid epoch"
    if "facts' (pid, epoch) = Some f" "tf_in_turn f" "map_of snap (pid, epoch) \<noteq> Some (tf_last_signal f)" for f facts'
    using that by (auto simp: policy_is_busy_def policy_busy_reason_def sweep_ledger[OF assms(1)] split: option.splits if_splits)
  ultimately show ?thesis by blast
qed

theorem busy_after_sweep_witness:
  "policy_busy_reason (\<lambda>k. if k = (1, 0) then Some \<lparr>tf_in_turn = True, tf_last_signal = 5, tf_inputs_pending = False,
       tf_last_end_failed = False\<rparr> else None)
     (snd (sweep_stale_busy busy_policy_new [((1, 0), 5)] (5 + BUSY_MAX_TURN))) 1 0 = None"
  using busy_after_sweep[of "[((1, 0), 5)]" "\<lambda>k. if k = (1, 0) then Some \<lparr>tf_in_turn = True, tf_last_signal = 5,
       tf_inputs_pending = False, tf_last_end_failed = False\<rparr> else None" busy_policy_new "5 + BUSY_MAX_TURN" 1 0]
  by simp

text \<open>One doorbell per abandoned turn: a sweep wakes each owner of a newly abandoned turn once,
  and a second sweep over the same observations, at any later time, wakes nobody whose turn was
  already judged.\<close>

theorem stale_wake_once:
  assumes "distinct (map fst snap)" "now \<le> now'"
  shows "distinct (fst (sweep_stale_busy bp snap now)) \<and>
    set (fst (sweep_stale_busy bp snap now)) =
      {fst k |k seen. (k, seen) \<in> set snap \<and> BUSY_MAX_TURN \<le> now - seen \<and> map_of (bp_stale bp) k \<noteq> Some seen} \<and>
    set (fst (sweep_stale_busy (snd (sweep_stale_busy bp snap now)) snap now')) =
      {fst k |k seen. (k, seen) \<in> set snap \<and> BUSY_MAX_TURN \<le> now' - seen \<and> now - seen < BUSY_MAX_TURN}"
proof (intro conjI)
  have wake: "set (fst (sweep_stale_busy b snap t)) =
      {fst k |k seen. (k, seen) \<in> set snap \<and> BUSY_MAX_TURN \<le> t - seen \<and> map_of (bp_stale b) k \<noteq> Some seen}" for b t
    by (auto simp: sweep_stale_busy_def Let_def case_prod_beta stale_loop_wake image_iff) blast+
  show "distinct (fst (sweep_stale_busy bp snap now))"
    by (simp add: sweep_stale_busy_def Let_def case_prod_beta stale_loop_distinct)
  show "set (fst (sweep_stale_busy bp snap now)) =
      {fst k |k seen. (k, seen) \<in> set snap \<and> BUSY_MAX_TURN \<le> now - seen \<and> map_of (bp_stale bp) k \<noteq> Some seen}"
    by (rule wake)
  have "map_of (bp_stale (snd (sweep_stale_busy bp snap now))) k \<noteq> Some seen \<longleftrightarrow> now - seen < BUSY_MAX_TURN"
    if "(k, seen) \<in> set snap" for k seen
    using that assms(1) by (auto simp: sweep_ledger)
  then show "set (fst (sweep_stale_busy (snd (sweep_stale_busy bp snap now)) snap now')) =
      {fst k |k seen. (k, seen) \<in> set snap \<and> BUSY_MAX_TURN \<le> now' - seen \<and> now - seen < BUSY_MAX_TURN}"
    unfolding wake by blast
qed

theorem stale_wake_once_witness:
  "set (fst (sweep_stale_busy busy_policy_new [((1, 0), 5)] (5 + BUSY_MAX_TURN))) = {1} \<and>
   set (fst (sweep_stale_busy (snd (sweep_stale_busy busy_policy_new [((1, 0), 5)] (5 + BUSY_MAX_TURN)))
     [((1, 0), 5)] (6 + BUSY_MAX_TURN))) = {}"
  using stale_wake_once[of "[((1, 0), 5)]" "5 + BUSY_MAX_TURN" "6 + BUSY_MAX_TURN" busy_policy_new]
  by (auto simp: busy_policy_new_def)

end
