(* ===== verification/Mailbox.thy ===== *)
theory Mailbox
  imports Eg_Prelude
begin

text \<open>
  The in-memory parking store, \<^verbatim>\<open>crates/engram-dashboard-messaging/src/mailbox.rs\<close>: one FIFO
  queue per recipient id, two capacity lanes (messages bounce at 100, notices push out the
  oldest notice at 64), an in-flight count per recipient and lane for the batch a flush has
  carried out of the lock, and TTL expiry against an injected clock.

  The theory has the operations one by one, their laws (order, conservation of items, exact
  capacity prediction), the interface \<open>recipient_store\<close> that the flush of the messaging service
  relies on, and a step system that interleaves the operations the way the service's lock
  sections do, with the batches in the air as ghost state.
\<close>

section \<open>Data\<close>

definition PARK_TTL :: duration where
  "PARK_TTL = 24 * 60 * 60 * nanos_per_sec"

definition MAILBOX_CAP :: nat where
  "MAILBOX_CAP = 100"

definition NOTICE_CAP :: nat where
  "NOTICE_CAP = 64"

datatype park_kind = Message | Notice

record parked_message =
  pm_msg_id :: ustr
  pm_envelope :: ustr
  pm_kind :: park_kind
  pm_parked_at :: instant
  pm_admission_seq :: u64

definition is_expired :: "parked_message \<Rightarrow> instant \<Rightarrow> bool" where
  "is_expired m now \<longleftrightarrow> PARK_TTL \<le> now - pm_parked_at m"

datatype park_error = MailboxFull

record park_admitted =
  pa_retired :: "parked_message list"

record drain_outcome =
  do_deliverable :: "parked_message list"
  do_expired :: "parked_message list"

record expired_parked =
  ep_recipient :: peer_id
  ep_msg :: parked_message

subsection \<open>In-flight receipts\<close>

record flight_ticket =
  ft_message :: nat
  ft_notice :: nat

definition ticket_default :: flight_ticket where
  "ticket_default = \<lparr>ft_message = 0, ft_notice = 0\<rparr>"

definition ticket_is_zero :: "flight_ticket \<Rightarrow> bool" where
  "ticket_is_zero t \<longleftrightarrow> ft_message t = 0 \<and> ft_notice t = 0"

fun ticket_lane_mut :: "park_kind \<Rightarrow> (nat \<Rightarrow> nat) \<Rightarrow> flight_ticket \<Rightarrow> flight_ticket" where
  "ticket_lane_mut Message f t = t\<lparr>ft_message := f (ft_message t)\<rparr>"
| "ticket_lane_mut Notice f t = t\<lparr>ft_notice := f (ft_notice t)\<rparr>"

fun ticket_lane :: "flight_ticket \<Rightarrow> park_kind \<Rightarrow> nat" where
  "ticket_lane t Message = ft_message t"
| "ticket_lane t Notice = ft_notice t"

definition ticket_add :: "park_kind \<Rightarrow> flight_ticket \<Rightarrow> flight_ticket" where
  "ticket_add k t = ticket_lane_mut k (\<lambda>n. n + 1) t"

text \<open>\<^verbatim>\<open>FlightTicket::split\<close>: the loop threads the receipt that is left and the one split off.\<close>

fun ticket_split_loop :: "park_kind list \<Rightarrow> flight_ticket \<Rightarrow> flight_ticket \<Rightarrow> flight_ticket \<times> flight_ticket" where
  "ticket_split_loop [] self out = (self, out)"
| "ticket_split_loop (k # ks) self out =
     (if ticket_lane self k > 0
      then ticket_split_loop ks (ticket_lane_mut k (\<lambda>n. n - 1) self) (ticket_add k out)
      else ticket_split_loop ks self out)"

definition ticket_split :: "park_kind list \<Rightarrow> flight_ticket \<Rightarrow> flight_ticket \<times> flight_ticket" where
  "ticket_split ks self = ticket_split_loop ks self ticket_default"

subsection \<open>The store\<close>

record mailbox =
  mb_queues :: "(peer_id \<times> parked_message list) list"
  mb_in_flight :: "(peer_id \<times> flight_ticket) list"
  mb_next_seq :: u64

definition mailbox_new :: mailbox where
  "mailbox_new = \<lparr>mb_queues = [], mb_in_flight = [], mb_next_seq = 0\<rparr>"

abbreviation queue_of :: "mailbox \<Rightarrow> peer_id \<Rightarrow> parked_message list" where
  "queue_of mb r \<equiv> alist_get [] (mb_queues mb) r"

abbreviation flight_of :: "mailbox \<Rightarrow> peer_id \<Rightarrow> flight_ticket" where
  "flight_of mb r \<equiv> alist_get ticket_default (mb_in_flight mb) r"

definition lane_count :: "park_kind \<Rightarrow> parked_message list \<Rightarrow> nat" where
  "lane_count k q = length (filter (\<lambda>m. pm_kind m = k) q)"

section \<open>Operations\<close>

fun retire_loop ::
  "nat \<Rightarrow> (parked_message \<Rightarrow> bool) \<Rightarrow> parked_message list \<Rightarrow> parked_message list \<Rightarrow> parked_message list
    \<Rightarrow> parked_message list \<times> parked_message list" where
  "retire_loop want ev [] retired kept = (retired, kept)"
| "retire_loop want ev (m # q) retired kept =
     (if length retired < want \<and> ev m then retire_loop want ev q (retired @ [m]) kept
      else retire_loop want ev q retired (kept @ [m]))"

definition retire_oldest ::
  "parked_message list \<Rightarrow> nat \<Rightarrow> (parked_message \<Rightarrow> bool) \<Rightarrow> parked_message list \<times> parked_message list" where
  "retire_oldest q want ev = retire_loop want ev q [] []"

definition cap_of :: "park_kind \<Rightarrow> nat" where
  "cap_of k = (case k of Message \<Rightarrow> MAILBOX_CAP | Notice \<Rightarrow> NOTICE_CAP)"

text \<open>\<^verbatim>\<open>Mailbox::park\<close>. The queue entry is created before the capacity test, so the bounce branch
  returns a store whose entry exists; the admission number is taken after acceptance.\<close>

definition park :: "mailbox \<Rightarrow> peer_id \<Rightarrow> parked_message \<Rightarrow> (park_error + park_admitted) \<times> mailbox" where
  "park mb r msg = (
     let k = pm_kind msg;
         in_flight = ticket_lane (flight_of mb r) k;
         mb1 = mb\<lparr>mb_queues := entry_or_default [] r (mb_queues mb)\<rparr>;
         queue = queue_of mb1 r;
         lane_len = lane_count k queue + in_flight;
         want = (lane_len + 1) - cap_of k
     in if want > 0 \<and> k = Message then (Inl MailboxFull, mb1)
        else
          let (retired, kept) =
                (if want > 0 then retire_oldest queue want (\<lambda>m. pm_kind m = Notice) else ([], queue));
              msg' = msg\<lparr>pm_admission_seq := mb_next_seq mb1\<rparr>
          in (Inr \<lparr>pa_retired = retired\<rparr>,
              mb1\<lparr>mb_next_seq := mb_next_seq mb1 + 1,
                  mb_queues := AList.update r (kept @ [msg']) (mb_queues mb1)\<rparr>))"

definition can_admit :: "mailbox \<Rightarrow> peer_id \<Rightarrow> park_kind \<Rightarrow> bool" where
  "can_admit mb r k = (case k of
     Notice \<Rightarrow> True
   | Message \<Rightarrow> lane_count k (queue_of mb r) + ticket_lane (flight_of mb r) k < MAILBOX_CAP)"

text \<open>The two-cursor merge of \<^verbatim>\<open>restore_ordered\<close>: ties go to the restored side.\<close>

fun merge_by_seq :: "parked_message list \<Rightarrow> parked_message list \<Rightarrow> parked_message list" where
  "merge_by_seq [] remaining = remaining"
| "merge_by_seq restored [] = restored"
| "merge_by_seq (r # restored) (q # remaining) =
     (if pm_admission_seq r \<le> pm_admission_seq q
      then r # merge_by_seq restored (q # remaining)
      else q # merge_by_seq (r # restored) remaining)"

definition restore_ordered :: "mailbox \<Rightarrow> peer_id \<Rightarrow> parked_message list \<Rightarrow> mailbox" where
  "restore_ordered mb r items = (
     if items = [] then mb
     else
       let queue = queue_of mb r
       in if queue = [] then mb\<lparr>mb_queues := AList.update r items (mb_queues mb)\<rparr>
          else mb\<lparr>mb_queues := AList.update r (merge_by_seq items queue) (mb_queues mb)\<rparr>)"

fun drain_loop :: "instant \<Rightarrow> parked_message list \<Rightarrow> drain_outcome \<Rightarrow> drain_outcome" where
  "drain_loop now [] acc = acc"
| "drain_loop now (m # q) acc =
     (if is_expired m now then drain_loop now q (acc\<lparr>do_expired := do_expired acc @ [m]\<rparr>)
      else drain_loop now q (acc\<lparr>do_deliverable := do_deliverable acc @ [m]\<rparr>))"

definition drain_default :: drain_outcome where
  "drain_default = \<lparr>do_deliverable = [], do_expired = []\<rparr>"

definition drain :: "mailbox \<Rightarrow> peer_id \<Rightarrow> instant \<Rightarrow> drain_outcome \<times> mailbox" where
  "drain mb r now = (case map_of (mb_queues mb) r of
     None \<Rightarrow> (drain_default, mb)
   | Some queue \<Rightarrow>
       (drain_loop now queue drain_default, mb\<lparr>mb_queues := AList.delete r (mb_queues mb)\<rparr>))"

definition ticket_of :: "parked_message list \<Rightarrow> flight_ticket" where
  "ticket_of batch = foldl (\<lambda>t m. ticket_add (pm_kind m) t) ticket_default batch"

definition take_in_flight :: "mailbox \<Rightarrow> peer_id \<Rightarrow> parked_message list \<Rightarrow> flight_ticket \<times> mailbox" where
  "take_in_flight mb r batch = (
     let ticket = ticket_of batch
     in if ticket_is_zero ticket then (ticket, mb)
        else
          let slot = flight_of mb r;
              slot' = \<lparr>ft_message = ft_message slot + ft_message ticket,
                       ft_notice = ft_notice slot + ft_notice ticket\<rparr>
          in (ticket, mb\<lparr>mb_in_flight := AList.update r slot' (mb_in_flight mb)\<rparr>))"

definition settle_in_flight :: "mailbox \<Rightarrow> peer_id \<Rightarrow> flight_ticket \<Rightarrow> mailbox" where
  "settle_in_flight mb r ticket = (
     if ticket_is_zero ticket then mb
     else case map_of (mb_in_flight mb) r of
            None \<Rightarrow> mb
          | Some slot \<Rightarrow>
              let slot' = \<lparr>ft_message = ft_message slot - ft_message ticket,
                           ft_notice = ft_notice slot - ft_notice ticket\<rparr>
              in if ticket_is_zero slot' then mb\<lparr>mb_in_flight := AList.delete r (mb_in_flight mb)\<rparr>
                 else mb\<lparr>mb_in_flight := AList.update r slot' (mb_in_flight mb)\<rparr>)"

definition in_flight_len :: "mailbox \<Rightarrow> peer_id \<Rightarrow> nat" where
  "in_flight_len mb r = (case map_of (mb_in_flight mb) r of
     None \<Rightarrow> 0 | Some t \<Rightarrow> ft_message t + ft_notice t)"

text \<open>\<^verbatim>\<open>sweep_expired\<close> scans every queue in full and drops the queues it emptied.\<close>

definition sweep_expired :: "mailbox \<Rightarrow> instant \<Rightarrow> expired_parked list \<times> mailbox" where
  "sweep_expired mb now =
     (concat (map (\<lambda>(r, q). map (\<lambda>m. \<lparr>ep_recipient = r, ep_msg = m\<rparr>) (filter (\<lambda>m. is_expired m now) q))
                  (mb_queues mb)),
      mb\<lparr>mb_queues := filter (\<lambda>(r, q). q \<noteq> [])
          (map (\<lambda>(r, q). (r, filter (\<lambda>m. \<not> is_expired m now) q)) (mb_queues mb))\<rparr>)"

definition purge_recipient :: "mailbox \<Rightarrow> peer_id \<Rightarrow> parked_message list \<times> mailbox" where
  "purge_recipient mb r = (case map_of (mb_queues mb) r of
     None \<Rightarrow> ([], mb)
   | Some q \<Rightarrow> (q, mb\<lparr>mb_queues := AList.delete r (mb_queues mb)\<rparr>))"

definition mailbox_len :: "mailbox \<Rightarrow> peer_id \<Rightarrow> nat" where
  "mailbox_len mb r = (case map_of (mb_queues mb) r of None \<Rightarrow> 0 | Some q \<Rightarrow> length q)"

definition mailbox_msg_ids :: "mailbox \<Rightarrow> peer_id \<Rightarrow> ustr list" where
  "mailbox_msg_ids mb r = (case map_of (mb_queues mb) r of None \<Rightarrow> [] | Some q \<Rightarrow> map pm_msg_id q)"

definition mailbox_is_empty :: "mailbox \<Rightarrow> bool" where
  "mailbox_is_empty mb \<longleftrightarrow> mb_queues mb = []"

definition mailbox_total_len :: "mailbox \<Rightarrow> nat" where
  "mailbox_total_len mb = sum_list (map (\<lambda>(r, q). length q) (mb_queues mb))"

section \<open>Laws of the operations\<close>

lemma lane_count_simps [simp]:
  "lane_count k [] = 0"
  "lane_count k (m # q) = (if pm_kind m = k then 1 else 0) + lane_count k q"
  "lane_count k (q @ q') = lane_count k q + lane_count k q'"
  by (simp_all add: lane_count_def)

lemma lane_count_mset: "mset q = mset q' \<Longrightarrow> lane_count k q = lane_count k q'"
  by (metis lane_count_def mset_filter size_mset)

lemma lane_count_union: "mset q = mset a + mset b \<Longrightarrow> lane_count k q = lane_count k a + lane_count k b"
  by (metis lane_count_mset lane_count_simps(3) mset_append)

lemma lane_count_filter_partition:
  "lane_count k (filter P q) + lane_count k (filter (\<lambda>m. \<not> P m) q) = lane_count k q"
  by (induction q) auto

lemma lane_count_filter_le: "lane_count k (filter P q) \<le> lane_count k q"
  using lane_count_filter_partition[of k P q] by simp

lemma ticket_default_simps [simp]:
  "ft_message ticket_default = 0" "ft_notice ticket_default = 0"
  "ticket_lane ticket_default k = 0" "ticket_is_zero ticket_default"
  by (cases k; simp add: ticket_default_def ticket_is_zero_def)+

lemma ticket_lane_lane_mut:
  "ticket_lane (ticket_lane_mut k f t) k' = (if k' = k then f (ticket_lane t k) else ticket_lane t k')"
  by (cases k; cases k') simp_all

lemma ticket_lane_add:
  "ticket_lane (ticket_add k t) k' = ticket_lane t k' + (if k' = k then 1 else 0)"
  by (simp add: ticket_add_def ticket_lane_lane_mut)

lemma ticket_eqI: "(\<And>k. ticket_lane t k = ticket_lane u k) \<Longrightarrow> t = u"
  using ticket_lane.simps[of t] ticket_lane.simps[of u] by (cases t; cases u) (metis flight_ticket.simps(1,2))

lemma ticket_is_zero_lanes: "ticket_is_zero t \<longleftrightarrow> (\<forall>k. ticket_lane t k = 0)"
  by (metis park_kind.exhaust ticket_is_zero_def ticket_lane.simps)

lemma ticket_lane_of [simp]: "ticket_lane (ticket_of batch) k = lane_count k batch"
proof -
  have "ticket_lane (foldl (\<lambda>t m. ticket_add (pm_kind m) t) t batch) k = ticket_lane t k + lane_count k batch" for t
    by (induction batch arbitrary: t) (auto simp: ticket_lane_add)
  then show ?thesis by (simp add: ticket_of_def)
qed

lemma ft_of [simp]:
  "ft_message (ticket_of batch) = lane_count Message batch"
  "ft_notice (ticket_of batch) = lane_count Notice batch"
  by (metis ticket_lane.simps(1) ticket_lane_of) (metis ticket_lane.simps(2) ticket_lane_of)

lemma length_lanes: "length q = lane_count Message q + lane_count Notice q"
proof (induction q)
  case (Cons m q)
  then show ?case by (cases "pm_kind m") simp_all
qed simp

lemma ticket_of_is_zero [simp]: "ticket_is_zero (ticket_of batch) \<longleftrightarrow> batch = []"
  by (metis add_eq_0_iff_both_eq_0 ft_of length_0_conv length_lanes ticket_is_zero_def)

lemma ticket_of_Nil [simp]: "ticket_of [] = ticket_default"
  by (simp add: ticket_of_def)

text \<open>The receipt never hands back more than it holds, and what it hands back leaves it.\<close>

lemma ticket_split_loop_lanes:
  "ticket_split_loop ks self out = (self', out') \<Longrightarrow>
     ticket_lane out' k = ticket_lane out k + min (count_list ks k) (ticket_lane self k) \<and>
     ticket_lane self' k = ticket_lane self k - count_list ks k"
proof (induction ks arbitrary: self out)
  case (Cons x ks)
  then show ?case
    by (auto simp: ticket_lane_lane_mut ticket_lane_add split: if_splits dest!: Cons.IH)
qed auto

subsection \<open>Retiring the oldest notices\<close>

text \<open>Reference definition: remove the first \<open>n\<close> elements that satisfy \<open>P\<close>.\<close>

fun drop_first :: "nat \<Rightarrow> ('a \<Rightarrow> bool) \<Rightarrow> 'a list \<Rightarrow> 'a list" where
  "drop_first n P [] = []"
| "drop_first n P (x # xs) = (if 0 < n \<and> P x then drop_first (n - 1) P xs else x # drop_first n P xs)"

lemma retire_loop_eq:
  "retire_loop want ev q retired kept =
     (retired @ take (want - length retired) (filter ev q),
      kept @ drop_first (want - length retired) ev q)"
proof (induction q arbitrary: retired kept)
  case (Cons m q)
  show ?case
  proof (cases "length retired < want \<and> ev m")
    case True
    then obtain n where "want - length retired = Suc n"
      by (metis Suc_diff_Suc)
    moreover from this have "want - Suc (length retired) = n" by simp
    ultimately show ?thesis using True Cons.IH by simp
  next
    case False
    then show ?thesis using Cons.IH by (cases "ev m") auto
  qed
qed simp

lemma retire_oldest_eq: "retire_oldest q want ev = (take want (filter ev q), drop_first want ev q)"
  by (simp add: retire_oldest_def retire_loop_eq)

lemma filter_drop_first: "filter P (drop_first n P xs) = drop n (filter P xs)"
proof (induction xs arbitrary: n)
  case (Cons x xs)
  then show ?case by (cases n) auto
qed simp

lemma filter_not_drop_first: "(\<And>x. Q x \<Longrightarrow> \<not> P x) \<Longrightarrow> filter Q (drop_first n P xs) = filter Q xs"
  by (induction xs arbitrary: n) auto

lemma subseq_drop_first: "subseq (drop_first n P xs) xs"
  by (induction xs arbitrary: n) auto

lemma lane_count_drop_first [simp]:
  "lane_count Message (drop_first n (\<lambda>m. pm_kind m = Notice) q) = lane_count Message q"
  "lane_count Notice (drop_first n (\<lambda>m. pm_kind m = Notice) q) = lane_count Notice q - n"
  using filter_not_drop_first[of "\<lambda>m. pm_kind m = Message" "\<lambda>m. pm_kind m = Notice" n q]
  by (simp_all add: lane_count_def filter_drop_first)

lemma drop_first_0 [simp]: "drop_first 0 P xs = xs"
  by (induction xs) auto

lemma mset_drop_first: "mset (take n (filter P xs)) + mset (drop_first n P xs) = mset xs"
proof (induction xs arbitrary: n)
  case (Cons x xs)
  then show ?case by (cases n) auto
qed simp

subsection \<open>Order by admission number\<close>

abbreviation seq_asc :: "parked_message list \<Rightarrow> bool" where
  "seq_asc q \<equiv> sorted_wrt (\<lambda>a b. pm_admission_seq a < pm_admission_seq b) q"

lemma seq_asc_iff: "seq_asc q \<longleftrightarrow> sorted_wrt (<) (map pm_admission_seq q)"
  by (simp add: sorted_wrt_map)

lemma sorted_wrt_subseq: "subseq xs ys \<Longrightarrow> sorted_wrt R ys \<Longrightarrow> sorted_wrt R xs"
proof (induction rule: list_emb.induct)
  case (list_emb_Cons2 x y xs ys)
  then show ?case
    by (auto dest: list_emb_set)
qed auto

lemma mset_merge_by_seq [simp]: "mset (merge_by_seq xs ys) = mset xs + mset ys"
  by (induction xs ys rule: merge_by_seq.induct) auto

lemma set_merge_by_seq [simp]: "set (merge_by_seq xs ys) = set xs \<union> set ys"
  by (metis mset_merge_by_seq set_mset_mset set_mset_union)

lemma lane_count_merge [simp]: "lane_count k (merge_by_seq xs ys) = lane_count k xs + lane_count k ys"
  by (rule lane_count_union) simp

lemma seq_asc_merge:
  "seq_asc xs \<Longrightarrow> seq_asc ys \<Longrightarrow> \<forall>x\<in>set xs. \<forall>y\<in>set ys. pm_admission_seq x \<noteq> pm_admission_seq y \<Longrightarrow>
   seq_asc (merge_by_seq xs ys)"
proof (induction xs ys rule: merge_by_seq.induct)
  case (3 r restored q remaining)
  have ne: "pm_admission_seq r \<noteq> pm_admission_seq q" using 3(5) by auto
  show ?case
  proof (cases "pm_admission_seq r \<le> pm_admission_seq q")
    case True
    with ne have lt: "pm_admission_seq r < pm_admission_seq q" by simp
    have "seq_asc (merge_by_seq restored (q # remaining))"
      using 3(1)[OF True] 3(3-5) by auto
    moreover have "pm_admission_seq r < pm_admission_seq x" if "x \<in> set restored \<union> set (q # remaining)" for x
      using that 3(3,4) lt by (auto intro: less_trans)
    ultimately show ?thesis using True by simp
  next
    case False
    then have lt: "pm_admission_seq q < pm_admission_seq r" by simp
    have "seq_asc (merge_by_seq (r # restored) remaining)"
      using 3(2)[OF False] 3(3-5) by auto
    moreover have "pm_admission_seq q < pm_admission_seq x" if "x \<in> set (r # restored) \<union> set remaining" for x
      using that 3(3,4) lt by (auto intro: less_trans)
    ultimately show ?thesis using False by simp
  qed
qed auto

lemma seq_asc_unique:
  assumes "seq_asc xs" "seq_asc ys" "mset xs = mset ys"
  shows "xs = ys"
proof -
  have st: "set xs = set ys" using assms(3) by (metis set_mset_mset)
  have "sorted_list_of_set (pm_admission_seq ` set zs) = map pm_admission_seq zs" if "seq_asc zs" for zs
    using that sorted_list_of_set.idem_if_sorted_distinct[of "map pm_admission_seq zs"]
    by (simp add: seq_asc_iff strict_sorted_iff)
  with assms st have "map pm_admission_seq xs = map pm_admission_seq ys" by metis
  moreover have "inj_on pm_admission_seq (set xs \<union> set ys)"
    using assms(1) st by (simp add: seq_asc_iff strict_sorted_iff distinct_map)
  ultimately show ?thesis by (rule map_inj_on)
qed

subsection \<open>Effect of each operation on the queues\<close>

abbreviation lane_total :: "park_kind \<Rightarrow> mailbox \<Rightarrow> peer_id \<Rightarrow> nat" where
  "lane_total k mb r \<equiv> lane_count k (queue_of mb r) + ticket_lane (flight_of mb r) k"

definition keys_distinct :: "mailbox \<Rightarrow> bool" where
  "keys_distinct mb \<longleftrightarrow> distinct (map fst (mb_queues mb)) \<and> distinct (map fst (mb_in_flight mb))"

lemma park_full:
  "pm_kind m = Message \<Longrightarrow> MAILBOX_CAP \<le> lane_total Message mb r \<Longrightarrow>
   park mb r m = (Inl MailboxFull, mb\<lparr>mb_queues := entry_or_default [] r (mb_queues mb)\<rparr>)"
  by (simp add: park_def Let_def cap_of_def)

lemma park_accept:
  assumes "pm_kind m = Message \<longrightarrow> lane_total Message mb r < MAILBOX_CAP"
  shows "park mb r m =
    (let want = lane_total (pm_kind m) mb r + 1 - cap_of (pm_kind m);
         notice = (\<lambda>x. pm_kind x = Notice)
     in (Inr \<lparr>pa_retired = take want (filter notice (queue_of mb r))\<rparr>,
         mb\<lparr>mb_next_seq := mb_next_seq mb + 1,
            mb_queues := AList.update r (drop_first want notice (queue_of mb r) @
               [m\<lparr>pm_admission_seq := mb_next_seq mb\<rparr>]) (entry_or_default [] r (mb_queues mb))\<rparr>))"
  using assms by (cases "pm_kind m") (auto simp: park_def Let_def cap_of_def retire_oldest_eq)

lemma park_InrD:
  assumes "park mb r m = (Inr adm, mb')"
  defines "want \<equiv> lane_total (pm_kind m) mb r + 1 - cap_of (pm_kind m)"
  shows "pm_kind m = Message \<Longrightarrow> want = 0"
    and "pa_retired adm = take want (filter (\<lambda>x. pm_kind x = Notice) (queue_of mb r))"
    and "queue_of mb' r' = (if r' = r
           then drop_first want (\<lambda>x. pm_kind x = Notice) (queue_of mb r) @ [m\<lparr>pm_admission_seq := mb_next_seq mb\<rparr>]
           else queue_of mb r')"
    and "mb_in_flight mb' = mb_in_flight mb"
    and "mb_next_seq mb' = mb_next_seq mb + 1"
    and "keys_distinct mb \<Longrightarrow> keys_distinct mb'"
proof -
  have acc: "pm_kind m = Message \<longrightarrow> lane_total Message mb r < MAILBOX_CAP"
    using assms(1) park_full[of m mb r] by (cases "lane_total Message mb r < MAILBOX_CAP") auto
  show "pm_kind m = Message \<Longrightarrow> want = 0"
    using acc by (simp add: want_def cap_of_def)
  note eq = park_accept[OF acc, unfolded assms(1) Let_def, folded want_def]
  show "pa_retired adm = take want (filter (\<lambda>x. pm_kind x = Notice) (queue_of mb r))"
    "queue_of mb' r' = (if r' = r
       then drop_first want (\<lambda>x. pm_kind x = Notice) (queue_of mb r) @ [m\<lparr>pm_admission_seq := mb_next_seq mb\<rparr>]
       else queue_of mb r')"
    "mb_in_flight mb' = mb_in_flight mb" "mb_next_seq mb' = mb_next_seq mb + 1"
    using eq by simp_all
  show "keys_distinct mb \<Longrightarrow> keys_distinct mb'"
    using eq by (simp add: keys_distinct_def distinct_update)
qed

lemma park_InlD:
  assumes "park mb r m = (Inl e, mb')"
  shows "pm_kind m = Message" "MAILBOX_CAP \<le> lane_total Message mb r"
    and "mb' = mb\<lparr>mb_queues := entry_or_default [] r (mb_queues mb)\<rparr>"
proof -
  have "\<not> (pm_kind m = Message \<longrightarrow> lane_total Message mb r < MAILBOX_CAP)"
    using assms park_accept[of m mb r] by (auto simp: Let_def)
  then show "pm_kind m = Message" "MAILBOX_CAP \<le> lane_total Message mb r" by auto
  with assms show "mb' = mb\<lparr>mb_queues := entry_or_default [] r (mb_queues mb)\<rparr>"
    by (simp add: park_full)
qed

lemma can_admit_park:
  "can_admit mb r (pm_kind m) \<longleftrightarrow> (\<exists>adm mb'. park mb r m = (Inr adm, mb'))"
proof (cases "pm_kind m = Message \<longrightarrow> lane_total Message mb r < MAILBOX_CAP")
  case True
  then show ?thesis
    by (cases "pm_kind m") (auto simp: can_admit_def park_accept Let_def)
next
  case False
  then show ?thesis
    by (auto simp: can_admit_def park_full)
qed

lemma drain_loop_eq:
  "drain_loop now q acc =
     \<lparr>do_deliverable = do_deliverable acc @ filter (\<lambda>m. \<not> is_expired m now) q,
      do_expired = do_expired acc @ filter (\<lambda>m. is_expired m now) q\<rparr>"
  by (induction q arbitrary: acc) auto

lemma drain_outcome_eq:
  "do_deliverable (fst (drain mb r now)) = filter (\<lambda>m. \<not> is_expired m now) (queue_of mb r)"
  "do_expired (fst (drain mb r now)) = filter (\<lambda>m. is_expired m now) (queue_of mb r)"
  by (auto simp: drain_def drain_loop_eq drain_default_def alist_get_def split: option.splits)

lemma drain_effect [simp]:
  "queue_of (snd (drain mb r now)) r' = (if r' = r then [] else queue_of mb r')"
  "mb_in_flight (snd (drain mb r now)) = mb_in_flight mb"
  "mb_next_seq (snd (drain mb r now)) = mb_next_seq mb"
  "keys_distinct mb \<Longrightarrow> keys_distinct (snd (drain mb r now))"
  by (auto simp: drain_def keys_distinct_def alist_get_def delete_conv' split: option.splits)

lemma purge_effect [simp]:
  "fst (purge_recipient mb r) = queue_of mb r"
  "queue_of (snd (purge_recipient mb r)) r' = (if r' = r then [] else queue_of mb r')"
  "mb_in_flight (snd (purge_recipient mb r)) = mb_in_flight mb"
  "mb_next_seq (snd (purge_recipient mb r)) = mb_next_seq mb"
  "keys_distinct mb \<Longrightarrow> keys_distinct (snd (purge_recipient mb r))"
  by (auto simp: purge_recipient_def keys_distinct_def alist_get_def delete_conv' split: option.splits)

lemma merge_by_seq_Nil2 [simp]: "merge_by_seq xs [] = xs"
  by (cases xs) auto

lemma restore_effect [simp]:
  "queue_of (restore_ordered mb r items) r' =
     (if r' = r then merge_by_seq items (queue_of mb r) else queue_of mb r')"
  "mb_in_flight (restore_ordered mb r items) = mb_in_flight mb"
  "mb_next_seq (restore_ordered mb r items) = mb_next_seq mb"
  "keys_distinct mb \<Longrightarrow> keys_distinct (restore_ordered mb r items)"
  by (auto simp: restore_ordered_def Let_def keys_distinct_def distinct_update)

lemma take_effect [simp]:
  "fst (take_in_flight mb r batch) = ticket_of batch"
  "mb_queues (snd (take_in_flight mb r batch)) = mb_queues mb"
  "mb_next_seq (snd (take_in_flight mb r batch)) = mb_next_seq mb"
  "keys_distinct mb \<Longrightarrow> keys_distinct (snd (take_in_flight mb r batch))"
  by (auto simp: take_in_flight_def Let_def keys_distinct_def distinct_update)

lemma take_flight:
  "ticket_lane (flight_of (snd (take_in_flight mb r batch)) r') k =
     ticket_lane (flight_of mb r') k + (if r' = r then lane_count k batch else 0)"
  by (cases k) (auto simp: take_in_flight_def Let_def)

lemma settle_effect [simp]:
  "mb_queues (settle_in_flight mb r t) = mb_queues mb"
  "mb_next_seq (settle_in_flight mb r t) = mb_next_seq mb"
  "keys_distinct mb \<Longrightarrow> keys_distinct (settle_in_flight mb r t)"
  by (auto simp: settle_in_flight_def Let_def keys_distinct_def distinct_update split: option.splits)

lemma settle_flight:
  "ticket_lane (flight_of (settle_in_flight mb r t) r') k =
     ticket_lane (flight_of mb r') k - (if r' = r then ticket_lane t k else 0)"
  by (cases k) (auto simp: settle_in_flight_def Let_def ticket_is_zero_def alist_get_def
      update_conv' delete_conv' split: option.splits)

lemma sweep_effect [simp]:
  "keys_distinct mb \<Longrightarrow>
     queue_of (snd (sweep_expired mb now)) r = filter (\<lambda>m. \<not> is_expired m now) (queue_of mb r)"
  "mb_in_flight (snd (sweep_expired mb now)) = mb_in_flight mb"
  "mb_next_seq (snd (sweep_expired mb now)) = mb_next_seq mb"
  "keys_distinct mb \<Longrightarrow> keys_distinct (snd (sweep_expired mb now))"
proof -
  assume kd: "keys_distinct mb"
  have "alist_get [] (filter (\<lambda>(r, q). q \<noteq> []) (map (\<lambda>(r, q). (r, filter (\<lambda>m. \<not> is_expired m now) q)) (mb_queues mb))) r
      = filter (\<lambda>m. \<not> is_expired m now) (queue_of mb r)"
    by (rule alist_get_map_filter[where f = "filter (\<lambda>m. \<not> is_expired m now)"])
      (use kd in \<open>auto simp: keys_distinct_def\<close>)
  then show "queue_of (snd (sweep_expired mb now)) r = filter (\<lambda>m. \<not> is_expired m now) (queue_of mb r)"
    by (simp add: sweep_expired_def)
  show "keys_distinct (snd (sweep_expired mb now))"
    using kd by (auto simp: keys_distinct_def sweep_expired_def intro: distinct_keys_map_filter)
qed (simp_all add: sweep_expired_def)

lemma in_flight_len_lanes:
  "in_flight_len mb r = ticket_lane (flight_of mb r) Message + ticket_lane (flight_of mb r) Notice"
  by (auto simp: in_flight_len_def alist_get_def split: option.split)

section \<open>Interleaved use of the store\<close>

text \<open>
  The store under the messaging lock, with the batches that flushes hold outside the lock as
  ghost state. \<open>ms_take\<close> is one lock section of a flush: it drains a queue, puts back the part it
  cannot inject and registers the rest in flight. \<open>ms_settle\<close> and \<open>ms_restore\<close> end any part of a
  batch as delivered or as put back. Every choice (which recipient, which part, which clock
  value, in which order) is left open, so the steps cover all interleavings of flushes, sends,
  the TTL sweep and profile deletion.
\<close>

record mail_sys =
  ms_box :: mailbox
  ms_air :: "peer_id \<Rightarrow> parked_message list"

inductive mailbox_init :: "mail_sys \<Rightarrow> bool" where
  "mailbox_init \<lparr>ms_box = mailbox_new, ms_air = (\<lambda>_. [])\<rparr>"

inductive mailbox_step :: "mail_sys \<Rightarrow> mail_sys \<Rightarrow> bool" where
  ms_park: "mb_next_seq (ms_box s) \<noteq> - 1 \<Longrightarrow>
    mailbox_step s (s\<lparr>ms_box := snd (park (ms_box s) r m)\<rparr>)"
| ms_take: "drain (ms_box s) r now = (out, mb1) \<Longrightarrow>
    mb2 = restore_ordered mb1 r (filter (\<lambda>m. \<not> P m) (do_deliverable out)) \<Longrightarrow>
    batch = filter P (do_deliverable out) \<Longrightarrow>
    mailbox_step s \<lparr>ms_box = snd (take_in_flight mb2 r batch),
                    ms_air = (ms_air s)(r := merge_by_seq batch (ms_air s r))\<rparr>"
| ms_settle:
    "mailbox_step s \<lparr>ms_box = settle_in_flight (ms_box s) r (ticket_of (filter P (ms_air s r))),
                    ms_air = (ms_air s)(r := filter (\<lambda>m. \<not> P m) (ms_air s r))\<rparr>"
| ms_restore: "back = filter P (ms_air s r) \<Longrightarrow>
    mailbox_step s \<lparr>ms_box = settle_in_flight (restore_ordered (ms_box s) r back) r (ticket_of back),
                    ms_air = (ms_air s)(r := filter (\<lambda>m. \<not> P m) (ms_air s r))\<rparr>"
| ms_sweep: "mailbox_step s (s\<lparr>ms_box := snd (sweep_expired (ms_box s) now)\<rparr>)"
| ms_purge: "mailbox_step s (s\<lparr>ms_box := snd (purge_recipient (ms_box s) r)\<rparr>)"

inductive_simps mailbox_init_simps: "mailbox_init s"

text \<open>What holds of one recipient's queue \<open>q\<close> and airborne items \<open>a\<close> when the next number is \<open>n\<close>.\<close>

definition lane_inv :: "parked_message list \<Rightarrow> parked_message list \<Rightarrow> u64 \<Rightarrow> bool" where
  "lane_inv q a n \<longleftrightarrow>
     seq_asc q \<and> seq_asc a \<and> (\<forall>x\<in>set q. \<forall>y\<in>set a. pm_admission_seq x \<noteq> pm_admission_seq y) \<and>
     (\<forall>m\<in>set q \<union> set a. pm_admission_seq m < n) \<and>
     lane_count Message q + lane_count Message a \<le> MAILBOX_CAP"

definition mailbox_inv :: "mail_sys \<Rightarrow> bool" where
  "mailbox_inv s \<longleftrightarrow> keys_distinct (ms_box s) \<and>
     (\<forall>r. lane_inv (queue_of (ms_box s) r) (ms_air s r) (mb_next_seq (ms_box s)) \<and>
          flight_of (ms_box s) r = ticket_of (ms_air s r))"

lemma lane_inv_filter: "lane_inv q a n \<Longrightarrow> lane_inv (filter P q) (filter Q a) n"
  using lane_count_filter_le[of Message P q] lane_count_filter_le[of Message Q a]
  by (auto simp: lane_inv_def intro: sorted_wrt_filter)

lemma lane_inv_append:
  assumes "lane_inv q a n" "n \<noteq> - 1" "subseq k q" "pm_admission_seq m = n"
    and "lane_count Message (k @ [m]) + lane_count Message a \<le> MAILBOX_CAP"
  shows "lane_inv (k @ [m]) a (n + 1)"
proof -
  have "set k \<subseteq> set q" using assms(3) by (auto dest: list_emb_set)
  moreover have "seq_asc k" using assms(1,3) by (auto simp: lane_inv_def intro: sorted_wrt_subseq)
  ultimately show ?thesis
    using assms unfolding lane_inv_def
    by (auto simp: sorted_wrt_append word_less_Suc subset_iff intro: less_imp_le)
qed

text \<open>Moving items between the queue and the air keeps the invariant of the recipient.\<close>

lemma lane_inv_move:
  assumes "lane_inv q a n"
  shows "lane_inv (filter P q) (merge_by_seq (filter (\<lambda>m. \<not> P m) q) a) n"
    and "lane_inv (merge_by_seq (filter P a) q) (filter (\<lambda>m. \<not> P m) a) n"
proof -
  have cq: "lane_count Message (filter P q) + lane_count Message (filter (\<lambda>m. \<not> P m) q) = lane_count Message q"
   and ca: "lane_count Message (filter P a) + lane_count Message (filter (\<lambda>m. \<not> P m) a) = lane_count Message a"
    by (rule lane_count_filter_partition)+
  have inj: "inj_on pm_admission_seq (set zs)" if "seq_asc zs" for zs
    using that by (simp add: seq_asc_iff strict_sorted_iff distinct_map)
  from assms inj[of q] cq show "lane_inv (filter P q) (merge_by_seq (filter (\<lambda>m. \<not> P m) q) a) n"
    by (auto simp: lane_inv_def inj_on_def intro!: sorted_wrt_filter seq_asc_merge)
  have "\<forall>x\<in>set a. \<forall>y\<in>set q. pm_admission_seq x \<noteq> pm_admission_seq y"
    using assms unfolding lane_inv_def by metis
  with assms inj[of a] ca show "lane_inv (merge_by_seq (filter P a) q) (filter (\<lambda>m. \<not> P m) a) n"
    by (auto simp: lane_inv_def inj_on_def intro!: sorted_wrt_filter seq_asc_merge)
qed

lemma mailbox_inv_init: "mailbox_init s \<Longrightarrow> mailbox_inv s"
  by (simp add: mailbox_init_simps mailbox_inv_def mailbox_new_def keys_distinct_def lane_inv_def)

lemma mailbox_inv_park:
  assumes inv: "mailbox_inv s" and n: "mb_next_seq (ms_box s) \<noteq> - 1"
  shows "mailbox_inv (s\<lparr>ms_box := snd (park (ms_box s) r m)\<rparr>)"
proof (cases "park (ms_box s) r m")
  case (Pair res mb')
  show ?thesis
  proof (cases res)
    case (Inl e)
    with Pair inv show ?thesis
      by (auto simp: mailbox_inv_def keys_distinct_def dest!: park_InlD(3))
  next
    case (Inr adm)
    note D = park_InrD[OF Pair[unfolded Inr]]
    let ?mb = "ms_box s"
    let ?w = "lane_total (pm_kind m) ?mb r + 1 - cap_of (pm_kind m)"
    let ?k = "drop_first ?w (\<lambda>x. pm_kind x = Notice) (queue_of ?mb r)"
    let ?m = "m\<lparr>pm_admission_seq := mb_next_seq ?mb\<rparr>"
    have I: "lane_inv (queue_of ?mb r') (ms_air s r') (mb_next_seq ?mb)"
        "flight_of ?mb r' = ticket_of (ms_air s r')" "keys_distinct ?mb" for r'
      using inv by (auto simp: mailbox_inv_def)
    have kept: "lane_count Message ?k = lane_count Message (queue_of ?mb r)"
      by simp
    have "lane_count Message (?k @ [?m]) + lane_count Message (ms_air s r) \<le> MAILBOX_CAP"
      using I(1)[of r] I(2)[of r] D(1) kept
      by (cases "pm_kind m") (auto simp: lane_inv_def cap_of_def)
    then have "lane_inv (?k @ [?m]) (ms_air s r) (mb_next_seq ?mb + 1)"
      using I(1)[of r] n by (intro lane_inv_append[OF _ _ subseq_drop_first]) auto
    moreover have "lane_inv (queue_of ?mb r') (ms_air s r') (mb_next_seq ?mb + 1)" for r'
      using I(1)[of r'] n by (auto simp: lane_inv_def word_less_Suc)
    ultimately show ?thesis
      using I D(3-6) by (simp add: mailbox_inv_def Pair Inr)
  qed
qed

lemma mailbox_inv_take:
  assumes inv: "mailbox_inv s" and dr: "drain (ms_box s) r now = (out, mb1)"
    and batch_def: "batch = filter P (do_deliverable out)"
    and mb2_def: "mb2 = restore_ordered mb1 r (filter (\<lambda>m. \<not> P m) (do_deliverable out))"
  shows "mailbox_inv \<lparr>ms_box = snd (take_in_flight mb2 r batch),
                      ms_air = (ms_air s)(r := merge_by_seq batch (ms_air s r))\<rparr>"
proof -
  let ?q = "filter (\<lambda>m. \<not> is_expired m now) (queue_of (ms_box s) r)"
  have out: "do_deliverable out = ?q" and mb1: "mb1 = snd (drain (ms_box s) r now)"
    using drain_outcome_eq(1)[of "ms_box s" r now] dr by simp_all
  have I: "lane_inv (queue_of (ms_box s) r') (ms_air s r') (mb_next_seq (ms_box s))"
      "flight_of (ms_box s) r' = ticket_of (ms_air s r')" "keys_distinct (ms_box s)" for r'
    using inv by (auto simp: mailbox_inv_def)
  have "lane_inv (filter (\<lambda>m. \<not> P m) ?q) (merge_by_seq (filter P ?q) (ms_air s r)) (mb_next_seq (ms_box s))"
    using lane_inv_move(1)[OF lane_inv_filter[OF I(1)[of r], where Q = "\<lambda>_. True"], where P = "\<lambda>m. \<not> P m"]
    by simp
  moreover have "flight_of (snd (take_in_flight mb2 r batch)) r' =
      ticket_of (((ms_air s)(r := merge_by_seq batch (ms_air s r))) r')" for r'
    by (rule ticket_eqI) (use I(2)[of r'] in \<open>auto simp: take_flight mb2_def mb1\<close>)
  ultimately show ?thesis
    using I by (auto simp: mailbox_inv_def mb2_def batch_def out mb1)
qed

lemma mailbox_inv_settle:
  assumes inv: "mailbox_inv s"
    and mb: "mb_queues mb = mb_queues (ms_box s) \<or> mb = restore_ordered (ms_box s) r (filter P (ms_air s r))"
    and same: "mb_in_flight mb = mb_in_flight (ms_box s)" "mb_next_seq mb = mb_next_seq (ms_box s)"
  shows "mailbox_inv \<lparr>ms_box = settle_in_flight mb r (ticket_of (filter P (ms_air s r))),
                      ms_air = (ms_air s)(r := filter (\<lambda>m. \<not> P m) (ms_air s r))\<rparr>"
proof -
  have I: "lane_inv (queue_of (ms_box s) r') (ms_air s r') (mb_next_seq (ms_box s))"
      "flight_of (ms_box s) r' = ticket_of (ms_air s r')" "keys_distinct (ms_box s)" for r'
    using inv by (auto simp: mailbox_inv_def)
  have "lane_inv (queue_of (ms_box s) r) (filter (\<lambda>m. \<not> P m) (ms_air s r)) (mb_next_seq (ms_box s))"
    using lane_inv_filter[OF I(1)[of r], where P = "\<lambda>_. True"] by simp
  moreover note lane_inv_move(2)[OF I(1)[of r], where P = P]
  moreover have "flight_of (settle_in_flight mb r (ticket_of (filter P (ms_air s r)))) r' =
      ticket_of (((ms_air s)(r := filter (\<lambda>m. \<not> P m) (ms_air s r))) r')" for r'
  proof (rule ticket_eqI)
    fix k
    have "lane_count k (ms_air s r) - lane_count k (filter P (ms_air s r)) = lane_count k (filter (\<lambda>m. \<not> P m) (ms_air s r))"
      using lane_count_filter_partition[of k P "ms_air s r"] by simp
    then show "ticket_lane (flight_of (settle_in_flight mb r (ticket_of (filter P (ms_air s r)))) r') k =
        ticket_lane (ticket_of (((ms_air s)(r := filter (\<lambda>m. \<not> P m) (ms_air s r))) r')) k"
      using I(2)[of r'] same by (simp add: settle_flight)
  qed
  moreover have "keys_distinct mb"
    using mb I(3) same restore_effect(4)[of "ms_box s" r "filter P (ms_air s r)"]
    by (auto simp: keys_distinct_def)
  ultimately show ?thesis
    using I mb same by (auto simp: mailbox_inv_def)
qed

lemma mailbox_inv_step: "mailbox_inv s \<Longrightarrow> mailbox_step s t \<Longrightarrow> mailbox_inv t"
proof (erule mailbox_step.cases, goal_cases)
  case (1 s r m)
  then show ?case by (simp add: mailbox_inv_park)
next
  case (2 s r now out mb1 mb2 P batch)
  then show ?case using mailbox_inv_take by blast
next
  case (3 s r P)
  then show ?case by (simp add: mailbox_inv_settle)
next
  case (4 _ P s r)
  then show ?case by (simp add: mailbox_inv_settle)
next
  case (5 s now)
  have "lane_inv (filter (\<lambda>m. \<not> is_expired m now) (queue_of (ms_box s) r)) (ms_air s r) (mb_next_seq (ms_box s))" for r
    using 5 lane_inv_filter[where Q = "\<lambda>_. True" and P = "\<lambda>m. \<not> is_expired m now"]
    by (fastforce simp: mailbox_inv_def)
  with 5 show ?case by (simp add: mailbox_inv_def)
next
  case (6 s r)
  then show ?case
    using lane_inv_filter[where Q = "\<lambda>_. True" and P = "\<lambda>_. False"]
    by (fastforce simp: mailbox_inv_def)
qed

interpretation mbx: step_invariant mailbox_init mailbox_step mailbox_inv
  by unfold_locales (auto intro: mailbox_inv_init mailbox_inv_step)

abbreviation mailbox_reachable :: "mail_sys \<Rightarrow> bool" where
  "mailbox_reachable \<equiv> reachable mailbox_init mailbox_step"

section \<open>The interface a flush relies on\<close>

text \<open>
  A flush empties one queue and may put any part of what it took back. The contract is stated
  over an abstract store; the client lemmas are what the flush of the messaging service needs:
  nothing is lost, an abandoned flush leaves the queue as it was, the part that is put back
  keeps its order, and several put-backs commute.
\<close>

locale recipient_store =
  fixes contents :: "'s \<Rightarrow> peer_id \<Rightarrow> parked_message list"
    and take_all :: "'s \<Rightarrow> peer_id \<Rightarrow> instant \<Rightarrow> drain_outcome \<times> 's"
    and give_back :: "'s \<Rightarrow> peer_id \<Rightarrow> parked_message list \<Rightarrow> 's"
  assumes take_empties: "contents (snd (take_all s r now)) r' = (if r' = r then [] else contents s r')"
    and take_deliverable: "do_deliverable (fst (take_all s r now)) = filter (\<lambda>m. \<not> is_expired m now) (contents s r)"
    and take_expired: "do_expired (fst (take_all s r now)) = filter (\<lambda>m. is_expired m now) (contents s r)"
    and give_back_merges: "contents (give_back s r items) r' =
          (if r' = r then merge_by_seq items (contents s r) else contents s r')"
begin

lemma take_conserves:
  "mset (do_deliverable (fst (take_all s r now))) + mset (do_expired (fst (take_all s r now))) = mset (contents s r)"
  by (simp add: take_deliverable take_expired add.commute)

lemma put_back_rest:
  "contents (give_back (snd (take_all s r now)) r items) r' = (if r' = r then items else contents s r')"
  by (simp add: give_back_merges take_empties)

lemma abandoned_flush:
  "do_expired (fst (take_all s r now)) = [] \<Longrightarrow>
   contents (give_back (snd (take_all s r now)) r (do_deliverable (fst (take_all s r now)))) r' = contents s r'"
  by (simp add: put_back_rest take_deliverable take_expired filter_empty_conv filter_id_conv)

lemma give_back_commute:
  assumes "seq_asc (contents s r)" "seq_asc a" "seq_asc b"
    and "\<forall>x\<in>set a. \<forall>y\<in>set b. pm_admission_seq x \<noteq> pm_admission_seq y"
    and "\<forall>x\<in>set a \<union> set b. \<forall>y\<in>set (contents s r). pm_admission_seq x \<noteq> pm_admission_seq y"
  shows "contents (give_back (give_back s r a) r b) r = contents (give_back (give_back s r b) r a) r"
proof (rule seq_asc_unique)
  have "\<forall>x\<in>set b. \<forall>y\<in>set a. pm_admission_seq x \<noteq> pm_admission_seq y"
    using assms(4) by metis
  then show "seq_asc (contents (give_back (give_back s r a) r b) r)"
    "seq_asc (contents (give_back (give_back s r b) r a) r)"
    using assms by (auto simp: give_back_merges intro!: seq_asc_merge)
qed (simp add: give_back_merges ac_simps)

end

interpretation mailbox_store: recipient_store queue_of drain restore_ordered
  by unfold_locales (simp_all add: drain_outcome_eq)

section \<open>Reaching full lanes\<close>

text \<open>One round that a flush of the whole queue loses to a park: take all, park one, put all back.\<close>

abbreviation sample_msg :: "park_kind \<Rightarrow> parked_message" where
  "sample_msg k \<equiv> \<lparr>pm_msg_id = lit ''m-1'', pm_envelope = lit ''x'', pm_kind = k, pm_parked_at = 0, pm_admission_seq = 0\<rparr>"

definition stacked :: "park_kind \<Rightarrow> peer_id \<Rightarrow> nat \<Rightarrow> mail_sys \<Rightarrow> bool" where
  "stacked k r j s \<longleftrightarrow> length (queue_of (ms_box s) r) = j \<and> ms_air s r = [] \<and>
     (\<forall>m\<in>set (queue_of (ms_box s) r). pm_kind m = k \<and> pm_parked_at m = 0) \<and>
     unat (mb_next_seq (ms_box s)) = j"

lemma fresh_not_expired [simp]: "\<not> is_expired m 0"
  by (simp add: is_expired_def PARK_TTL_def)

lemma stacked_lane_count:
  "stacked k r j s \<Longrightarrow> lane_count k' (queue_of (ms_box s) r) = (if k' = k then j else 0)"
  unfolding stacked_def lane_count_def by (auto simp: filter_id_conv filter_empty_conv)

lemma take_all_step:
  assumes "mailbox_reachable s" "stacked k r j s"
  shows "\<exists>t. mailbox_reachable t \<and> queue_of (ms_box t) r = [] \<and> ms_air t r = queue_of (ms_box s) r \<and>
             mb_next_seq (ms_box t) = mb_next_seq (ms_box s) \<and>
             map_of (mb_queues (ms_box t)) r = None"
proof -
  let ?t = "\<lparr>ms_box = snd (take_in_flight (restore_ordered (snd (drain (ms_box s) r 0)) r [])
                       r (queue_of (ms_box s) r)),
             ms_air = (ms_air s)(r := merge_by_seq (queue_of (ms_box s) r) (ms_air s r))\<rparr>"
  have "mailbox_step s ?t"
    using ms_take[where s = s and r = r and now = 0 and P = "\<lambda>_. True" and out = "fst (drain (ms_box s) r 0)"]
    by (simp add: drain_outcome_eq)
  with assms(1) have "mailbox_reachable ?t" by (rule reach_step)
  moreover have "map_of (mb_queues (ms_box ?t)) r = None"
    by (auto simp: restore_ordered_def drain_def delete_conv' split: option.splits)
  ultimately show ?thesis using assms(2)
    by (intro exI[of _ ?t]) (auto simp: stacked_def restore_ordered_def)
qed

lemma stack_notices:
  assumes "j < 2 ^ 64"
  shows "\<exists>s. mailbox_reachable s \<and> stacked Notice r j s"
  using assms
proof (induction j)
  case 0
  have "mailbox_reachable \<lparr>ms_box = mailbox_new, ms_air = \<lambda>_. []\<rparr>"
    by (auto intro: reach_init mailbox_init.intros)
  then show ?case by (auto simp: stacked_def mailbox_new_def)
next
  case (Suc j)
  then obtain s where s: "mailbox_reachable s" "stacked Notice r j s" by auto
  obtain t where t: "mailbox_reachable t" "queue_of (ms_box t) r = []" "ms_air t r = queue_of (ms_box s) r"
      "mb_next_seq (ms_box t) = mb_next_seq (ms_box s)"
    using take_all_step[OF s] by blast
  have n: "unat (mb_next_seq (ms_box t)) = j" using s t by (simp add: stacked_def)
  with Suc.prems have ne: "mb_next_seq (ms_box t) \<noteq> - 1" "unat (mb_next_seq (ms_box t) + 1) = Suc j"
    using unat_Suc_no_wrap[of "mb_next_seq (ms_box t)"] by simp_all
  define u where "u = t\<lparr>ms_box := snd (park (ms_box t) r (sample_msg Notice))\<rparr>"
  have u: "mailbox_reachable u" using t(1) ms_park[OF ne(1)] unfolding u_def by (rule reach_step)
  have acc: "park (ms_box t) r (sample_msg Notice) = (Inr (projr (fst (park (ms_box t) r (sample_msg Notice)))), ms_box u)"
    by (simp add: park_accept u_def Let_def)
  note D = park_InrD[OF acc]
  define v where "v = \<lparr>ms_box = settle_in_flight (restore_ordered (ms_box u) r (ms_air u r)) r (ticket_of (ms_air u r)),
                       ms_air = (ms_air u)(r := [])\<rparr>"
  have "mailbox_step u v"
    using ms_restore[where s = u and r = r and P = "\<lambda>_. True"] by (simp add: v_def)
  with u have "mailbox_reachable v" by (rule reach_step)
  moreover have "length (merge_by_seq xs ys) = length xs + length ys" for xs ys
    by (metis mset_merge_by_seq size_mset size_union)
  then have "stacked Notice r (Suc j) v"
    using s t n D(3-5) ne by (auto simp: stacked_def v_def u_def)
  ultimately show ?case by blast
qed

lemma stack_messages:
  assumes "j \<le> MAILBOX_CAP"
  shows "\<exists>s. mailbox_reachable s \<and> stacked Message r j s"
  using assms
proof (induction j)
  case 0
  show ?case using stack_notices[of 0 r] by (auto simp: stacked_def)
next
  case (Suc j)
  then obtain s where s: "mailbox_reachable s" "stacked Message r j s" by auto
  have n: "unat (mb_next_seq (ms_box s)) = j" using s by (simp add: stacked_def)
  with Suc.prems have ne: "mb_next_seq (ms_box s) \<noteq> - 1" "unat (mb_next_seq (ms_box s) + 1) = Suc j"
    using unat_Suc_no_wrap[of "mb_next_seq (ms_box s)"] by (simp_all add: MAILBOX_CAP_def)
  define u where "u = s\<lparr>ms_box := snd (park (ms_box s) r (sample_msg Message))\<rparr>"
  have "mailbox_reachable u" using s(1) ms_park[OF ne(1)] unfolding u_def by (rule reach_step)
  have "flight_of (ms_box s) r = ticket_default"
    using mbx.inv_reachable[OF s(1)] s(2) by (simp add: mailbox_inv_def stacked_def)
  then have lt: "lane_total Message (ms_box s) r < MAILBOX_CAP"
    using Suc.prems stacked_lane_count[OF s(2)] by simp
  then have acc: "park (ms_box s) r (sample_msg Message) =
      (Inr (projr (fst (park (ms_box s) r (sample_msg Message)))), ms_box u)"
    by (simp add: park_accept u_def Let_def)
  note D = park_InrD[OF acc]
  from D(1) have "stacked Message r (Suc j) u"
    using s(2) n D(3-5) ne by (auto simp: stacked_def u_def)
  with \<open>mailbox_reachable u\<close> show ?case by blast
qed

section \<open>Properties\<close>

text \<open>C29. The message lane never exceeds its limit: in every state that any interleaving of
  sends, flushes, settlements, put-backs, sweeps and deletions can reach, the messages queued for
  a recipient plus those a flush carries outside the lock are at most \<open>MAILBOX_CAP\<close>, although
  the put-back itself does not test the limit.\<close>

theorem message_lane_bounded:
  assumes "mailbox_reachable s"
  shows "lane_count Message (queue_of (ms_box s) r) + ticket_lane (flight_of (ms_box s) r) Message \<le> MAILBOX_CAP"
  using mbx.inv_reachable[OF assms] by (simp add: mailbox_inv_def lane_inv_def)

definition two_parked :: mail_sys where
  "two_parked = \<lparr>ms_box = snd (park (snd (park mailbox_new 7 (sample_msg Message))) 7 (sample_msg Notice)),
                 ms_air = (\<lambda>_. [])\<rparr>"

lemma two_parked_reachable: "mailbox_reachable two_parked"
proof -
  let ?s0 = "\<lparr>ms_box = mailbox_new, ms_air = (\<lambda>_. [])\<rparr>"
  let ?s1 = "?s0\<lparr>ms_box := snd (park mailbox_new 7 (sample_msg Message))\<rparr>"
  have "mailbox_reachable ?s0" by (auto intro: reach_init mailbox_init.intros)
  moreover have "mailbox_step ?s0 ?s1"
    using ms_park[of ?s0 7 "sample_msg Message"] by (simp add: mailbox_new_def)
  moreover have "mailbox_step ?s1 two_parked"
    using ms_park[of ?s1 7 "sample_msg Notice"]
    by (simp add: two_parked_def park_accept mailbox_new_def MAILBOX_CAP_def Let_def)
  ultimately show ?thesis by (blast intro: reach_step)
qed

lemma two_parked_queue:
  "queue_of (ms_box two_parked) 7 = [sample_msg Message, (sample_msg Notice)\<lparr>pm_admission_seq := 1\<rparr>]"
  by (simp add: two_parked_def park_accept mailbox_new_def MAILBOX_CAP_def NOTICE_CAP_def cap_of_def Let_def)

theorem message_lane_bounded_witness:
  "lane_count Message (queue_of (ms_box two_parked) 7) + ticket_lane (flight_of (ms_box two_parked) 7) Message \<le> MAILBOX_CAP
   \<and> lane_count Message (queue_of (ms_box two_parked) 7) = 1"
  using message_lane_bounded[OF two_parked_reachable, of 7] by (simp add: two_parked_queue)

text \<open>Delivery order is admission order: in every reachable state each queue is strictly
  increasing in the admission number, so is what a drain hands out, and the numbers of queued and
  airborne items are disjoint, so that putting any airborne items back (in one or several calls)
  again gives a strictly increasing queue.\<close>

theorem queue_admission_order:
  assumes "mailbox_reachable s"
  shows "sorted_wrt (<) (map pm_admission_seq (queue_of (ms_box s) r)) \<and>
         sorted_wrt (<) (map pm_admission_seq (do_deliverable (fst (drain (ms_box s) r now)))) \<and>
         sorted_wrt (<) (map pm_admission_seq (queue_of (restore_ordered (ms_box s) r (filter P (ms_air s r))) r))"
  using mbx.inv_reachable[OF assms] lane_inv_move(2)[of "queue_of (ms_box s) r" "ms_air s r" _ P]
  by (auto simp: mailbox_inv_def lane_inv_def sorted_wrt_map drain_outcome_eq intro!: sorted_wrt_filter)

theorem queue_admission_order_witness:
  "sorted_wrt (<) (map pm_admission_seq (queue_of (ms_box two_parked) 7))
   \<and> map pm_admission_seq (queue_of (ms_box two_parked) 7) = [0, 1]"
  using queue_admission_order[OF two_parked_reachable, of 7] by (simp add: two_parked_queue)

text \<open>The in-flight count is exact: in every reachable state the count the store keeps for a
  recipient is the number of items that flushes hold outside the lock, lane by lane; in
  particular it is zero, and a new drain may start, exactly when no batch is out.\<close>

theorem in_flight_exact:
  assumes "mailbox_reachable s"
  shows "in_flight_len (ms_box s) r = length (ms_air s r) \<and>
         ticket_lane (flight_of (ms_box s) r) k = lane_count k (ms_air s r)"
  using mbx.inv_reachable[OF assms] length_lanes[of "ms_air s r"]
  by (simp add: mailbox_inv_def in_flight_len_lanes)

theorem in_flight_exact_witness: "in_flight_len (ms_box two_parked) 7 = 0"
  using in_flight_exact[OF two_parked_reachable, of 7] by (simp add: two_parked_def)

text \<open>\<open>can_admit\<close> predicts \<open>park\<close> exactly, for both kinds and every state of the store: the
  envelope's recipient list can be frozen before anything is parked.\<close>

theorem can_admit_iff_park:
  "can_admit mb r (pm_kind m) \<longleftrightarrow> (\<exists>adm mb'. park mb r m = (Inr adm, mb'))"
  by (rule can_admit_park)

text \<open>Parking loses nothing silently. An accepted item goes to the tail with the next
  admission number; what leaves the queue is returned to the caller, consists of notices only and
  is a prefix of the queued notices (the oldest ones); other queues are untouched. A bounce is a
  full message lane, keeps every queue's contents and burns no admission number.\<close>

theorem park_conserves:
  "case park mb r m of
     (Inr adm, mb') \<Rightarrow>
       mset (pa_retired adm) + mset (queue_of mb' r) =
         add_mset (m\<lparr>pm_admission_seq := mb_next_seq mb\<rparr>) (mset (queue_of mb r)) \<and>
       last (queue_of mb' r) = m\<lparr>pm_admission_seq := mb_next_seq mb\<rparr> \<and>
       prefix (pa_retired adm) (filter (\<lambda>x. pm_kind x = Notice) (queue_of mb r)) \<and>
       filter (\<lambda>x. pm_kind x = Message) (butlast (queue_of mb' r)) =
         filter (\<lambda>x. pm_kind x = Message) (queue_of mb r) \<and>
       (\<forall>r'. r' = r \<or> queue_of mb' r' = queue_of mb r')
   | (Inl MailboxFull, mb') \<Rightarrow>
       pm_kind m = Message \<and> MAILBOX_CAP \<le> lane_total Message mb r \<and>
       (\<forall>r'. queue_of mb' r' = queue_of mb r') \<and>
       mb_in_flight mb' = mb_in_flight mb \<and> mb_next_seq mb' = mb_next_seq mb"
proof (cases "park mb r m")
  case (Pair res mb')
  show ?thesis
  proof (cases res)
    case (Inl e)
    then show ?thesis using Pair park_InlD[of mb r m e mb'] by (cases e) simp
  next
    case (Inr adm)
    let ?n = "\<lambda>x. pm_kind x = Notice"
    note D = park_InrD[OF Pair[unfolded Inr]]
    have "filter (\<lambda>x. pm_kind x = Message) (drop_first w ?n q) = filter (\<lambda>x. pm_kind x = Message) q" for w q
      by (rule filter_not_drop_first) simp
    then show ?thesis
      using D(2,3) mset_drop_first[of _ ?n "queue_of mb r"]
      by (simp add: Pair Inr take_is_prefix)
  qed
qed

text \<open>The sweep is exact: it returns, under each recipient's key and oldest first, precisely
  the items whose age has reached the TTL, and leaves precisely the others, in order.\<close>

theorem sweep_exact:
  assumes "distinct (map fst (mb_queues mb))" "distinct (map fst (mb_in_flight mb))"
  shows "map ep_msg (filter (\<lambda>e. ep_recipient e = r) (fst (sweep_expired mb now))) =
           filter (\<lambda>m. PARK_TTL \<le> now - pm_parked_at m) (queue_of mb r) \<and>
         queue_of (snd (sweep_expired mb now)) r =
           filter (\<lambda>m. \<not> PARK_TTL \<le> now - pm_parked_at m) (queue_of mb r)"
proof
  have collect: "map ep_msg (filter (\<lambda>e. ep_recipient e = r)
      (concat (map (\<lambda>(r, q). map (\<lambda>m. \<lparr>ep_recipient = r, ep_msg = m\<rparr>) (f q)) m))) = f (alist_get [] m r)"
    if "distinct (map fst m)" "f [] = []" for m :: "(peer_id \<times> parked_message list) list" and f
    using that
  proof (induction m)
    case (Cons kv m)
    obtain k v where kv: "kv = (k, v)" by (cases kv)
    have *: "map ep_msg (filter (\<lambda>e. ep_recipient e = r) (map (\<lambda>m. \<lparr>ep_recipient = k, ep_msg = m\<rparr>) xs)) =
        (if k = r then xs else [])" for xs
      by (induction xs) auto
    have "alist_get [] m r = []" if "k = r"
      using that Cons.prems(1) by (intro alist_get_not_dom) (auto simp: kv)
    with * Cons show ?case by (auto simp: kv alist_get_def)
  qed simp
  show "map ep_msg (filter (\<lambda>e. ep_recipient e = r) (fst (sweep_expired mb now))) =
      filter (\<lambda>m. PARK_TTL \<le> now - pm_parked_at m) (queue_of mb r)"
    unfolding sweep_expired_def fst_conv
    by (subst collect[of _ "filter (\<lambda>m. is_expired m now)"]) (use assms in \<open>simp_all add: is_expired_def\<close>)
  show "queue_of (snd (sweep_expired mb now)) r = filter (\<lambda>m. \<not> PARK_TTL \<le> now - pm_parked_at m) (queue_of mb r)"
    using assms by (simp add: keys_distinct_def is_expired_def)
qed

theorem sweep_exact_witness:
  "map ep_msg (filter (\<lambda>e. ep_recipient e = 7) (fst (sweep_expired (ms_box two_parked) PARK_TTL))) =
     queue_of (ms_box two_parked) 7"
proof -
  have "keys_distinct (ms_box two_parked)"
    using mbx.inv_reachable[OF two_parked_reachable] by (simp add: mailbox_inv_def)
  then show ?thesis
    using sweep_exact[of "ms_box two_parked" 7 PARK_TTL]
    by (simp add: keys_distinct_def two_parked_queue)
qed

text \<open>A flush that is cut short loses nothing and keeps the order: putting the undelivered
  rest of a drained queue back leaves exactly that rest, in order; with nothing delivered and
  nothing expired the store's queues are as before; and two put-backs give the same queue in
  either order.\<close>

theorem flush_put_back:
  assumes "mailbox_reachable s"
  shows "queue_of (restore_ordered (snd (drain (ms_box s) r now)) r rest) r' =
           (if r' = r then rest else queue_of (ms_box s) r') \<and>
         (do_expired (fst (drain (ms_box s) r now)) = [] \<longrightarrow>
         queue_of (restore_ordered (snd (drain (ms_box s) r now)) r (do_deliverable (fst (drain (ms_box s) r now)))) r'
           = queue_of (ms_box s) r') \<and>
         queue_of (restore_ordered (restore_ordered (ms_box s) r (filter P (ms_air s r))) r
            (filter (\<lambda>m. \<not> P m) (ms_air s r))) r
         = queue_of (restore_ordered (restore_ordered (ms_box s) r (filter (\<lambda>m. \<not> P m) (ms_air s r))) r
            (filter P (ms_air s r))) r"
proof (intro conjI impI)
  show "queue_of (restore_ordered (snd (drain (ms_box s) r now)) r rest) r' =
      (if r' = r then rest else queue_of (ms_box s) r')"
    by (rule mailbox_store.put_back_rest)
  show "queue_of (restore_ordered (snd (drain (ms_box s) r now)) r (do_deliverable (fst (drain (ms_box s) r now)))) r'
        = queue_of (ms_box s) r'" if "do_expired (fst (drain (ms_box s) r now)) = []"
    using that by (rule mailbox_store.abandoned_flush)
  have I: "lane_inv (queue_of (ms_box s) r) (ms_air s r) (mb_next_seq (ms_box s))"
    using mbx.inv_reachable[OF assms] by (simp add: mailbox_inv_def)
  then have "inj_on pm_admission_seq (set (ms_air s r))"
    by (simp add: lane_inv_def seq_asc_iff strict_sorted_iff distinct_map)
  then have "\<forall>x\<in>set (filter P (ms_air s r)). \<forall>y\<in>set (filter (\<lambda>m. \<not> P m) (ms_air s r)).
      pm_admission_seq x \<noteq> pm_admission_seq y"
    by (auto simp: inj_on_def)
  moreover have "\<forall>x\<in>set (ms_air s r). \<forall>y\<in>set (queue_of (ms_box s) r). pm_admission_seq x \<noteq> pm_admission_seq y"
    using I unfolding lane_inv_def by metis
  ultimately show "queue_of (restore_ordered (restore_ordered (ms_box s) r (filter P (ms_air s r))) r
            (filter (\<lambda>m. \<not> P m) (ms_air s r))) r
         = queue_of (restore_ordered (restore_ordered (ms_box s) r (filter (\<lambda>m. \<not> P m) (ms_air s r))) r
            (filter P (ms_air s r))) r"
    using I by (intro mailbox_store.give_back_commute) (auto simp: lane_inv_def intro: sorted_wrt_filter)
qed

theorem flush_put_back_witness:
  "queue_of (restore_ordered (snd (drain (ms_box two_parked) 7 0)) 7
      (do_deliverable (fst (drain (ms_box two_parked) 7 0)))) 7 = queue_of (ms_box two_parked) 7"
  using flush_put_back[OF two_parked_reachable, where r = 7 and now = 0 and r' = 7] by (simp add: drain_outcome_eq)

text \<open>A receipt never hands back more than it holds: splitting moves items from the receipt
  to the split-off part lane by lane, at most as many as were asked for, and settling what was
  taken for a batch restores the in-flight counts of every recipient.\<close>

theorem receipt_accounting:
  "ticket_lane (fst (ticket_split ks t)) k + ticket_lane (snd (ticket_split ks t)) k = ticket_lane t k \<and>
   ticket_lane (snd (ticket_split ks t)) k = min (count_list ks k) (ticket_lane t k) \<and>
   ticket_lane (flight_of (settle_in_flight (snd (take_in_flight mb r batch)) r (fst (take_in_flight mb r batch))) r') k
     = ticket_lane (flight_of mb r') k"
  using ticket_split_loop_lanes[of ks t ticket_default "fst (ticket_split ks t)" "snd (ticket_split ks t)" k]
  by (simp_all add: ticket_split_def settle_flight take_flight)

text \<open>The notice lane has no fixed bound: for every number of rounds below \<open>2^64\<close> there is a
  reachable state whose queue holds that many notices for one recipient, because each round of
  ``flush takes all, a notice is parked, the flush fails and puts all back'' adds one.\<close>

theorem notice_lane_overshoot:
  assumes "n < 2 ^ 64 - NOTICE_CAP"
  shows "\<exists>s. mailbox_reachable s \<and> lane_count Notice (queue_of (ms_box s) r) = NOTICE_CAP + n"
proof -
  obtain s where "mailbox_reachable s" "stacked Notice r (NOTICE_CAP + n) s"
    using stack_notices[of "NOTICE_CAP + n" r] assms less_diff_conv2 by (auto simp: NOTICE_CAP_def)
  with stacked_lane_count[of Notice r "NOTICE_CAP + n" s Notice] show ?thesis by auto
qed

theorem notice_lane_overshoot_witness:
  "\<exists>s. mailbox_reachable s \<and> lane_count Notice (queue_of (ms_box s) 7) = 1064"
  using notice_lane_overshoot[of 1000 7] by (simp add: NOTICE_CAP_def)

text \<open>What a notice park does guarantee: afterwards the notice lane holds at most the limit,
  or one more than what is in flight when that is larger.\<close>

theorem notice_lane_after_park:
  assumes "pm_kind m = Notice"
  shows "lane_total Notice (snd (park mb r m)) r \<le> max NOTICE_CAP (ticket_lane (flight_of mb r) Notice + 1)"
proof -
  have "park mb r m = (Inr (projr (fst (park mb r m))), snd (park mb r m))"
    using assms by (simp add: park_accept Let_def)
  note D = park_InrD[OF this]
  show ?thesis using assms by (simp add: D(3,4) cap_of_def)
qed

theorem notice_lane_after_park_witness:
  "lane_total Notice (snd (park (ms_box two_parked) 7 (sample_msg Notice))) 7 \<le> 64"
  using notice_lane_after_park[of "sample_msg Notice" "ms_box two_parked" 7]
    in_flight_len_lanes[of "ms_box two_parked" 7]
    mbx.inv_reachable[OF two_parked_reachable]
  by (simp add: NOTICE_CAP_def mailbox_inv_def two_parked_def)

text \<open>A bounced park is not free of side effects: there is a reachable state with no queue for a
  recipient in which a bounced message leaves an empty queue entry behind.\<close>

theorem bounce_leaves_entry:
  "\<exists>s. mailbox_reachable s \<and> map_of (mb_queues (ms_box s)) r = None \<and>
       park (ms_box s) r (sample_msg Message) = (Inl MailboxFull, snd (park (ms_box s) r (sample_msg Message))) \<and>
       map_of (mb_queues (snd (park (ms_box s) r (sample_msg Message)))) r = Some []"
proof -
  obtain s where s: "mailbox_reachable s" "stacked Message r MAILBOX_CAP s"
    using stack_messages[of MAILBOX_CAP r] by auto
  obtain t where t: "mailbox_reachable t" "queue_of (ms_box t) r = []" "ms_air t r = queue_of (ms_box s) r"
      "map_of (mb_queues (ms_box t)) r = None"
    using take_all_step[OF s] by blast
  have "lane_total Message (ms_box t) r = MAILBOX_CAP"
    using mbx.inv_reachable[OF t(1)] stacked_lane_count[OF s(2)] t by (simp add: mailbox_inv_def)
  then have "park (ms_box t) r (sample_msg Message) =
      (Inl MailboxFull, (ms_box t)\<lparr>mb_queues := entry_or_default [] r (mb_queues (ms_box t))\<rparr>)"
    by (simp add: park_full)
  with t show ?thesis
    by (intro exI[of _ t]) (simp add: entry_or_default_def update_conv')
qed

end
