(* ===== verification/Ledger.thy ===== *)
theory Ledger
  imports Eg_Prelude
begin

text \<open>
  The message ledger, \<^verbatim>\<open>crates/engram-dashboard-messaging/src/ledger.rs\<close>: a bounded ring of
  delivery records (one per message id and recipient) whose status follows a fixed set of edges,
  and the request contracts (one per request id and recipient) with their two-phase opening:
  \<open>open_request\<close> reserves a slot and may mark a victim, \<open>commit_open\<close> or \<open>rollback_open\<close> ends the
  reservation, \<open>reclaim_abandoned_reservations\<close> ends the ones whose holder is gone.

  A \<^verbatim>\<open>Weak<()>\<close> liveness watch is an identifier; which identifiers are still alive is an
  argument of the one operation that upgrades them.
\<close>

section \<open>Data\<close>

definition HISTORY_CAPACITY :: nat where
  "HISTORY_CAPACITY = 4096"

definition MAX_OPEN_REQUESTS :: nat where
  "MAX_OPEN_REQUESTS = 512"

datatype delivery_status = Pending | Delivered | Replied | Expired | Skipped | Failed

fun can_transition_to :: "delivery_status \<Rightarrow> delivery_status \<Rightarrow> bool" where
  "can_transition_to Pending Delivered = True"
| "can_transition_to Pending Expired = True"
| "can_transition_to Pending Skipped = True"
| "can_transition_to Delivered Skipped = True"
| "can_transition_to Delivered Replied = True"
| "can_transition_to _ _ = False"

definition can_fail_by_cleanup :: "delivery_status \<Rightarrow> bool" where
  "can_fail_by_cleanup s \<longleftrightarrow> s = Pending"

record message_record =
  mr_msg_id :: ustr
  mr_from :: ustr
  mr_from_id :: peer_id
  mr_to :: ustr
  mr_to_id :: "peer_id option"
  mr_body :: ustr
  mr_status :: delivery_status
  mr_created_at :: instant
  mr_transitioned_at :: instant
  mr_expected_rows :: u16
  mr_fail_code :: "ustr option"

type_synonym contract_key = "ustr \<times> peer_id"

record request_entry =
  re_request_id :: ustr
  re_sender :: ustr
  re_sender_id :: peer_id
  re_recipient :: ustr
  re_recipient_id :: peer_id
  re_reply_by :: "(duration \<times> ustr) option"
  re_created_at :: instant
  re_closed :: bool
  re_reply_failed :: bool
  re_notified :: bool
  re_pending_retirement :: bool
  re_provisional :: bool
  re_marked_victim :: "contract_key option"
  re_reservation_token :: "nat option"

definition is_live :: "request_entry \<Rightarrow> bool" where
  "is_live r \<longleftrightarrow> \<not> re_closed r"

definition occupies_slot :: "request_entry \<Rightarrow> bool" where
  "occupies_slot r \<longleftrightarrow> (\<not> re_closed r \<or> re_provisional r) \<and> \<not> re_pending_retirement r"

datatype reply_outcome = Closed | ClosedHistoryAnomaly delivery_status | ReplyNoMatch | ReplyAlreadyClosed

datatype reply_fail_outcome = ReplyFailed | FailNoMatch | FailAlreadyClosed | GuardHeld

record requester_cleanup =
  rc_failed :: "contract_key list"
  rc_guard_held :: nat

datatype transition_error = NotFound | Illegal delivery_status delivery_status

record retired_contract =
  rt_request_id :: ustr
  rt_sender :: ustr
  rt_recipient :: ustr
  rt_recipient_id :: peer_id
  rt_age :: duration

record commit_outcome =
  co_confirmed :: bool
  co_retired :: bool

datatype open_outcome = Opened | OpenedAfterMarking retired_contract | DuplicateId | Full

datatype drop_outcome = Removed bool | DropNotFound

record due_timeout =
  dt_request_id :: ustr
  dt_sender :: ustr
  dt_sender_id :: peer_id
  dt_recipient :: ustr
  dt_recipient_id :: peer_id
  dt_reply_by_raw :: ustr

record open_request_view =
  ov_request_id :: ustr
  ov_sender :: ustr
  ov_sender_id :: peer_id
  ov_recipient :: ustr
  ov_recipient_id :: peer_id
  ov_reply_by_raw :: "ustr option"
  ov_created_at :: instant
  ov_notified :: bool

record ledger =
  lg_history :: "message_record list"
  lg_requests :: "request_entry list"
  lg_capacity :: nat
  lg_evicted_any :: bool

definition with_capacity :: "nat \<Rightarrow> ledger" where
  "with_capacity c = \<lparr>lg_history = [], lg_requests = [], lg_capacity = max c 1, lg_evicted_any = False\<rparr>"

definition ledger_new :: ledger where
  "ledger_new = with_capacity HISTORY_CAPACITY"

abbreviation re_key :: "request_entry \<Rightarrow> contract_key" where
  "re_key r \<equiv> (re_request_id r, re_recipient_id r)"

section \<open>Delivery records\<close>

text \<open>The early return of \<^verbatim>\<open>purge_finished_without_history\<close> is kept as the code has it.\<close>

definition purge_finished_without_history :: "ledger \<Rightarrow> ledger" where
  "purge_finished_without_history l = (
     if list_all (\<lambda>r. is_live r \<or> re_provisional r) (lg_requests l) then l
     else l\<lparr>lg_requests := filter (\<lambda>r. is_live r \<or> re_provisional r \<or>
              re_request_id r \<in> set (map mr_msg_id (lg_history l))) (lg_requests l)\<rparr>)"

text \<open>The eviction loop pops the front while the ring is over capacity; it reports whether it did.\<close>

fun evict_front :: "nat \<Rightarrow> message_record list \<Rightarrow> bool \<Rightarrow> message_record list \<times> bool" where
  "evict_front cap [] ev = ([], ev)"
| "evict_front cap (r # h) ev =
     (if cap < length (r # h) then evict_front cap h True else (r # h, ev))"

definition record_with_expected ::
  "ledger \<Rightarrow> ustr \<Rightarrow> ustr \<Rightarrow> peer_id \<Rightarrow> ustr \<Rightarrow> peer_id option \<Rightarrow> ustr \<Rightarrow> delivery_status \<Rightarrow> instant \<Rightarrow> u16 \<Rightarrow> ledger" where
  "record_with_expected l msg_id from from_id to to_id body status now expected_rows = (
     let rec = \<lparr>mr_msg_id = msg_id, mr_from = from, mr_from_id = from_id, mr_to = to, mr_to_id = to_id,
                mr_body = body, mr_status = status, mr_created_at = now, mr_transitioned_at = now,
                mr_expected_rows = max expected_rows 1, mr_fail_code = None\<rparr>;
         (h, evicted_now) = evict_front (lg_capacity l) (lg_history l @ [rec]) False;
         l1 = l\<lparr>lg_history := h\<rparr>
     in if evicted_now then purge_finished_without_history (l1\<lparr>lg_evicted_any := True\<rparr>) else l1)"

definition ledger_record ::
  "ledger \<Rightarrow> ustr \<Rightarrow> ustr \<Rightarrow> peer_id \<Rightarrow> ustr \<Rightarrow> peer_id option \<Rightarrow> ustr \<Rightarrow> delivery_status \<Rightarrow> instant \<Rightarrow> ledger" where
  "ledger_record l msg_id from from_id to to_id body status now =
     record_with_expected l msg_id from from_id to to_id body status now 1"

definition transition ::
  "ledger \<Rightarrow> ustr \<Rightarrow> peer_id \<Rightarrow> delivery_status \<Rightarrow> instant \<Rightarrow> (transition_error + unit) \<times> ledger" where
  "transition l msg_id to_id status now = (
     let hit = (\<lambda>r. mr_msg_id r = msg_id \<and> mr_to_id r = Some to_id)
     in case find hit (lg_history l) of
          None \<Rightarrow> (Inl NotFound, l)
        | Some rec \<Rightarrow>
            if \<not> can_transition_to (mr_status rec) status then (Inl (Illegal (mr_status rec) status), l)
            else (Inr (), l\<lparr>lg_history := update_first hit
                   (\<lambda>r. r\<lparr>mr_status := status, mr_transitioned_at := now\<rparr>) (lg_history l)\<rparr>))"

definition fail_pending ::
  "ledger \<Rightarrow> ustr \<Rightarrow> peer_id \<Rightarrow> ustr \<Rightarrow> instant \<Rightarrow> (transition_error + unit) \<times> ledger" where
  "fail_pending l msg_id to_id code now = (
     let hit = (\<lambda>r. mr_msg_id r = msg_id \<and> mr_to_id r = Some to_id)
     in case find hit (lg_history l) of
          None \<Rightarrow> (Inl NotFound, l)
        | Some rec \<Rightarrow>
            if \<not> can_fail_by_cleanup (mr_status rec) then (Inl (Illegal (mr_status rec) Failed), l)
            else (Inr (), l\<lparr>lg_history := update_first hit
                   (\<lambda>r. r\<lparr>mr_status := Failed, mr_fail_code := Some code, mr_transitioned_at := now\<rparr>)
                   (lg_history l)\<rparr>))"

section \<open>Request contracts\<close>

definition occupied_slots :: "ledger \<Rightarrow> nat" where
  "occupied_slots l = length (filter occupies_slot (lg_requests l))"

text \<open>The victim of a full table: position of the oldest entry that holds a slot, is confirmed
  and is either already notified or has no deadline.\<close>

definition retirable :: "request_entry \<Rightarrow> bool" where
  "retirable r \<longleftrightarrow> occupies_slot r \<and> \<not> re_provisional r \<and> (re_notified r \<or> re_reply_by r = None)"

definition victim_index :: "request_entry list \<Rightarrow> nat option" where
  "victim_index rs =
     min_by_key (\<lambda>i. re_created_at (rs ! i)) (filter (\<lambda>i. retirable (rs ! i)) [0..<length rs])"

definition new_entry ::
  "ustr \<Rightarrow> ustr \<Rightarrow> peer_id \<Rightarrow> ustr \<Rightarrow> peer_id \<Rightarrow> (duration \<times> ustr) option \<Rightarrow> instant \<Rightarrow> contract_key option \<Rightarrow> request_entry" where
  "new_entry request_id sender sender_id recipient recipient_id reply_by now marked =
     \<lparr>re_request_id = request_id, re_sender = sender, re_sender_id = sender_id, re_recipient = recipient,
      re_recipient_id = recipient_id, re_reply_by = reply_by, re_created_at = now, re_closed = False,
      re_reply_failed = False, re_notified = False, re_pending_retirement = False, re_provisional = True,
      re_marked_victim = marked, re_reservation_token = None\<rparr>"

definition open_request ::
  "ledger \<Rightarrow> ustr \<Rightarrow> ustr \<Rightarrow> peer_id \<Rightarrow> ustr \<Rightarrow> peer_id \<Rightarrow> (duration \<times> ustr) option \<Rightarrow> instant \<Rightarrow> open_outcome \<times> ledger" where
  "open_request l request_id sender sender_id recipient recipient_id reply_by now = (
     if list_ex (\<lambda>r. re_request_id r = request_id \<and> re_recipient_id r = recipient_id) (lg_requests l)
     then (DuplicateId, l)
     else if MAX_OPEN_REQUESTS \<le> occupied_slots l
     then case victim_index (lg_requests l) of
            None \<Rightarrow> (Full, l)
          | Some i \<Rightarrow>
              let v = lg_requests l ! i;
                  retired = \<lparr>rt_request_id = re_request_id v, rt_sender = re_sender v,
                             rt_recipient = re_recipient v, rt_recipient_id = re_recipient_id v,
                             rt_age = now - re_created_at v\<rparr>;
                  marked = (lg_requests l)[i := v\<lparr>re_pending_retirement := True\<rparr>]
              in (OpenedAfterMarking retired,
                  l\<lparr>lg_requests := marked @ [new_entry request_id sender sender_id recipient recipient_id
                     reply_by now (Some (re_key v))]\<rparr>)
     else (Opened, l\<lparr>lg_requests := lg_requests l @
             [new_entry request_id sender sender_id recipient recipient_id reply_by now None]\<rparr>))"

definition attach_reservation_liveness :: "ledger \<Rightarrow> ustr \<Rightarrow> peer_id \<Rightarrow> nat \<Rightarrow> ledger" where
  "attach_reservation_liveness l request_id recipient_id watch =
     l\<lparr>lg_requests := update_first
        (\<lambda>r. re_request_id r = request_id \<and> re_recipient_id r = recipient_id \<and> re_provisional r)
        (\<lambda>r. r\<lparr>re_reservation_token := Some watch\<rparr>) (lg_requests l)\<rparr>"

definition confirm_entry :: "request_entry \<Rightarrow> request_entry" where
  "confirm_entry e = e\<lparr>re_provisional := False, re_marked_victim := None, re_reservation_token := None\<rparr>"

definition commit_open :: "ledger \<Rightarrow> contract_key option \<Rightarrow> contract_key option \<Rightarrow> commit_outcome \<times> ledger" where
  "commit_open l provisional retired = (
     let (confirmed, l1) = (case provisional of
            None \<Rightarrow> (False, l)
          | Some key \<Rightarrow>
              (list_ex (\<lambda>r. re_key r = key) (lg_requests l),
               l\<lparr>lg_requests := update_first (\<lambda>r. re_key r = key) confirm_entry (lg_requests l)\<rparr>));
         (gone, l2) = (case retired of
            None \<Rightarrow> (False, l1)
          | Some key \<Rightarrow>
              let kept = filter (\<lambda>r. \<not> (re_key r = key \<and> re_pending_retirement r)) (lg_requests l1)
              in (length kept < length (lg_requests l1),
                  purge_finished_without_history (l1\<lparr>lg_requests := kept\<rparr>)))
     in (\<lparr>co_confirmed = confirmed, co_retired = gone\<rparr>, l2))"

definition drop_request :: "ledger \<Rightarrow> ustr \<Rightarrow> peer_id \<Rightarrow> drop_outcome \<times> ledger" where
  "drop_request l request_id recipient_id = (
     case find (\<lambda>r. re_key r = (request_id, recipient_id)) (lg_requests l) of
       None \<Rightarrow> (DropNotFound, l)
     | Some r \<Rightarrow> (Removed (re_notified r),
         l\<lparr>lg_requests := remove_first (\<lambda>r. re_key r = (request_id, recipient_id)) (lg_requests l)\<rparr>))"

definition rollback_open :: "ledger \<Rightarrow> contract_key option \<Rightarrow> contract_key option \<Rightarrow> drop_outcome option \<times> ledger" where
  "rollback_open l provisional retired = (
     let l1 = (case retired of
            None \<Rightarrow> l
          | Some key \<Rightarrow> l\<lparr>lg_requests := update_first (\<lambda>r. re_key r = key \<and> re_pending_retirement r)
              (\<lambda>e. e\<lparr>re_pending_retirement := False\<rparr>) (lg_requests l)\<rparr>)
     in case provisional of
          None \<Rightarrow> (None, l1)
        | Some (i, r) \<Rightarrow> (let (out, l2) = drop_request l1 i r in (Some out, l2)))"

definition msg_id_in_use :: "ledger \<Rightarrow> ustr \<Rightarrow> bool" where
  "msg_id_in_use l msg_id \<longleftrightarrow>
     list_ex (\<lambda>r. mr_msg_id r = msg_id) (lg_history l) \<or> list_ex (\<lambda>r. re_request_id r = msg_id) (lg_requests l)"

definition is_request_closed :: "ledger \<Rightarrow> ustr \<Rightarrow> peer_id \<Rightarrow> bool" where
  "is_request_closed l request_id recipient_id \<longleftrightarrow>
     list_ex (\<lambda>r. re_request_id r = request_id \<and> re_recipient_id r = recipient_id \<and> re_closed r) (lg_requests l)"

text \<open>\<^verbatim>\<open>match_contract_for_replier\<close> returns a position; the model returns the entry and updates it in place.\<close>

definition match_contract_for_replier :: "ledger \<Rightarrow> ustr \<Rightarrow> peer_id \<Rightarrow> request_entry option" where
  "match_contract_for_replier l in_reply_to replier_id =
     find (\<lambda>r. re_request_id r = in_reply_to \<and> re_recipient_id r = replier_id) (lg_requests l)"

definition close_on_reply :: "ledger \<Rightarrow> ustr \<Rightarrow> peer_id \<Rightarrow> instant \<Rightarrow> reply_outcome \<times> ledger" where
  "close_on_reply l in_reply_to replier_id now = (
     case match_contract_for_replier l in_reply_to replier_id of
       None \<Rightarrow> (ReplyNoMatch, l)
     | Some r \<Rightarrow>
         if re_closed r then (ReplyAlreadyClosed, l)
         else
           let l1 = l\<lparr>lg_requests := update_first
                 (\<lambda>r. re_request_id r = in_reply_to \<and> re_recipient_id r = replier_id)
                 (\<lambda>r. r\<lparr>re_closed := True\<rparr>) (lg_requests l)\<rparr>;
               (res, l2) = transition l1 in_reply_to (re_recipient_id r) Replied now;
               outcome = (case res of
                   Inr _ \<Rightarrow> Closed
                 | Inl NotFound \<Rightarrow> Closed
                 | Inl (Illegal from _) \<Rightarrow> ClosedHistoryAnomaly from)
           in (outcome, purge_finished_without_history l2))"

definition fail_entry :: "request_entry \<Rightarrow> request_entry" where
  "fail_entry r = r\<lparr>re_closed := True, re_reply_failed := True\<rparr>"

definition fail_on_undeliverable_reply :: "ledger \<Rightarrow> ustr \<Rightarrow> peer_id \<Rightarrow> reply_fail_outcome \<times> ledger" where
  "fail_on_undeliverable_reply l in_reply_to replier_id = (
     case match_contract_for_replier l in_reply_to replier_id of
       None \<Rightarrow> (FailNoMatch, l)
     | Some e \<Rightarrow>
         if re_closed e then (FailAlreadyClosed, l)
         else if re_provisional e \<or> re_pending_retirement e then (GuardHeld, l)
         else (ReplyFailed, purge_finished_without_history
                 (l\<lparr>lg_requests := update_first
                     (\<lambda>r. re_request_id r = in_reply_to \<and> re_recipient_id r = replier_id)
                     fail_entry (lg_requests l)\<rparr>)))"

fun fail_from_loop :: "peer_id \<Rightarrow> request_entry list \<Rightarrow> requester_cleanup \<Rightarrow> request_entry list \<times> requester_cleanup" where
  "fail_from_loop sender_id [] out = ([], out)"
| "fail_from_loop sender_id (r # rs) out =
     (if re_closed r \<or> re_sender_id r \<noteq> sender_id
      then let (rs', out') = fail_from_loop sender_id rs out in (r # rs', out')
      else if re_provisional r \<or> re_pending_retirement r
      then let (rs', out') = fail_from_loop sender_id rs (out\<lparr>rc_guard_held := rc_guard_held out + 1\<rparr>)
           in (r # rs', out')
      else let (rs', out') = fail_from_loop sender_id rs (out\<lparr>rc_failed := rc_failed out @ [re_key r]\<rparr>)
           in (fail_entry r # rs', out'))"

definition fail_open_requests_from :: "ledger \<Rightarrow> peer_id \<Rightarrow> requester_cleanup \<times> ledger" where
  "fail_open_requests_from l sender_id = (
     let (rs, out) = fail_from_loop sender_id (lg_requests l) \<lparr>rc_failed = [], rc_guard_held = 0\<rparr>;
         l1 = l\<lparr>lg_requests := rs\<rparr>
     in (out, if rc_failed out \<noteq> [] then purge_finished_without_history l1 else l1))"

text \<open>A reservation is abandoned when its holder attached no watch or the watch is dead.\<close>

definition abandoned :: "(nat \<Rightarrow> bool) \<Rightarrow> request_entry \<Rightarrow> bool" where
  "abandoned alive r \<longleftrightarrow> re_provisional r \<and>
     (case re_reservation_token r of None \<Rightarrow> True | Some w \<Rightarrow> \<not> alive w)"

fun reclaim_loop :: "(contract_key \<times> contract_key option) list \<Rightarrow> ledger \<Rightarrow> contract_key list \<Rightarrow> contract_key list \<times> ledger" where
  "reclaim_loop [] l acc = (acc, l)"
| "reclaim_loop ((key, victim) # rest) l acc = (
     let l1 = (case victim of
            None \<Rightarrow> l
          | Some v \<Rightarrow> l\<lparr>lg_requests := update_first (\<lambda>r. re_key r = v)
              (\<lambda>e. e\<lparr>re_pending_retirement := False\<rparr>) (lg_requests l)\<rparr>)
     in reclaim_loop rest (snd (drop_request l1 (fst key) (snd key))) (acc @ [key]))"

definition reclaim_abandoned_reservations :: "(nat \<Rightarrow> bool) \<Rightarrow> ledger \<Rightarrow> contract_key list \<times> ledger" where
  "reclaim_abandoned_reservations alive l =
     reclaim_loop (map (\<lambda>r. (re_key r, re_marked_victim r)) (filter (abandoned alive) (lg_requests l))) l []"

text \<open>The deadline test of \<^verbatim>\<open>due_timeouts\<close> is strict: \<^verbatim>\<open>now > created_at + reply_by\<close>.\<close>

definition due :: "instant \<Rightarrow> request_entry \<Rightarrow> bool" where
  "due now r \<longleftrightarrow> \<not> (re_closed r \<or> re_notified r \<or> re_provisional r) \<and>
     (case re_reply_by r of None \<Rightarrow> False | Some (d, _) \<Rightarrow> re_created_at r + d < now)"

definition due_of :: "request_entry \<Rightarrow> due_timeout" where
  "due_of r = \<lparr>dt_request_id = re_request_id r, dt_sender = re_sender r, dt_sender_id = re_sender_id r,
     dt_recipient = re_recipient r, dt_recipient_id = re_recipient_id r,
     dt_reply_by_raw = (case re_reply_by r of None \<Rightarrow> [] | Some (_, raw) \<Rightarrow> raw)\<rparr>"

fun due_loop :: "instant \<Rightarrow> request_entry list \<Rightarrow> due_timeout list \<Rightarrow> request_entry list \<times> due_timeout list" where
  "due_loop now [] acc = ([], acc)"
| "due_loop now (r # rs) acc =
     (if due now r
      then let (rs', acc') = due_loop now rs (acc @ [due_of r]) in (r\<lparr>re_notified := True\<rparr> # rs', acc')
      else let (rs', acc') = due_loop now rs acc in (r # rs', acc'))"

definition due_timeouts :: "ledger \<Rightarrow> instant \<Rightarrow> due_timeout list \<times> ledger" where
  "due_timeouts l now = (
     let (rs, out) = due_loop now (lg_requests l) [];
         l1 = l\<lparr>lg_requests := rs\<rparr>
     in (out, if out \<noteq> [] then purge_finished_without_history l1 else l1))"

section \<open>Queries\<close>

definition history_len :: "ledger \<Rightarrow> nat" where
  "history_len l = length (lg_history l)"

definition records_for :: "ledger \<Rightarrow> ustr \<Rightarrow> message_record list" where
  "records_for l msg_id = filter (\<lambda>r. mr_msg_id r = msg_id) (lg_history l)"

definition records_for_detailed :: "ledger \<Rightarrow> ustr \<Rightarrow> message_record list \<times> bool" where
  "records_for_detailed l msg_id = (
     let rows = filter (\<lambda>r. mr_msg_id r = msg_id) (lg_history l)
     in (rows, case rows of [] \<Rightarrow> False | r # _ \<Rightarrow> length rows < unat (mr_expected_rows r)))"

definition open_request_count :: "ledger \<Rightarrow> nat" where
  "open_request_count l = length (filter (\<lambda>r. \<not> re_closed r) (lg_requests l))"

definition tracking_len :: "ledger \<Rightarrow> nat" where
  "tracking_len l = length (lg_requests l)"

definition view_of :: "request_entry \<Rightarrow> open_request_view" where
  "view_of r = \<lparr>ov_request_id = re_request_id r, ov_sender = re_sender r, ov_sender_id = re_sender_id r,
     ov_recipient = re_recipient r, ov_recipient_id = re_recipient_id r,
     ov_reply_by_raw = map_option snd (re_reply_by r), ov_created_at = re_created_at r, ov_notified = re_notified r\<rparr>"

definition open_requests :: "ledger \<Rightarrow> open_request_view list" where
  "open_requests l = sort_key ov_created_at (map view_of (filter (\<lambda>r. \<not> re_closed r) (lg_requests l)))"

section \<open>Laws of the operations\<close>

lemma purge_requests:
  "lg_requests (purge_finished_without_history l) =
     filter (\<lambda>r. \<not> re_closed r \<or> re_provisional r \<or> re_request_id r \<in> mr_msg_id ` set (lg_history l)) (lg_requests l)"
  by (auto simp: purge_finished_without_history_def is_live_def list_all_iff filter_id_conv)

lemma purge_same [simp]:
  "lg_history (purge_finished_without_history l) = lg_history l"
  "lg_capacity (purge_finished_without_history l) = lg_capacity l"
  by (simp_all add: purge_finished_without_history_def)

lemma occupied_slots_same [simp]:
  "occupied_slots (l\<lparr>lg_history := h\<rparr>) = occupied_slots l"
  "occupied_slots (l\<lparr>lg_evicted_any := b\<rparr>) = occupied_slots l"
  by (simp_all add: occupied_slots_def)

lemma purge_occupied [simp]: "occupied_slots (purge_finished_without_history l) = occupied_slots l"
  unfolding occupied_slots_def purge_requests filter_filter
  by (rule arg_cong[where f = length], rule filter_cong) (auto simp: occupies_slot_def)

lemma evict_front_eq:
  "evict_front cap h ev = (drop (length h - cap) h, ev \<or> cap < length h)"
  by (induction h arbitrary: ev) (auto simp: Suc_diff_le)

lemma record_history:
  "lg_history (record_with_expected l msg_id from from_id to to_id body status now n) =
     (let h = lg_history l @ [\<lparr>mr_msg_id = msg_id, mr_from = from, mr_from_id = from_id, mr_to = to,
        mr_to_id = to_id, mr_body = body, mr_status = status, mr_created_at = now, mr_transitioned_at = now,
        mr_expected_rows = max n 1, mr_fail_code = None\<rparr>] in drop (length h - lg_capacity l) h)"
  by (simp add: record_with_expected_def evict_front_eq Let_def)

lemma record_same:
  "lg_capacity (record_with_expected l msg_id from from_id to to_id body status now n) = lg_capacity l"
  "occupied_slots (record_with_expected l msg_id from from_id to to_id body status now n) = occupied_slots l"
  "set (lg_requests (record_with_expected l msg_id from from_id to to_id body status now n)) \<subseteq> set (lg_requests l)"
  "distinct (map re_key (lg_requests l)) \<Longrightarrow>
     distinct (map re_key (lg_requests (record_with_expected l msg_id from from_id to to_id body status now n)))"
  by (auto simp: record_with_expected_def evict_front_eq Let_def purge_requests distinct_map_filter)

lemma transition_same:
  "lg_requests (snd (transition l m r st now)) = lg_requests l"
  "lg_capacity (snd (transition l m r st now)) = lg_capacity l"
  "length (lg_history (snd (transition l m r st now))) = length (lg_history l)"
  by (simp_all add: transition_def Let_def split: option.splits)

lemma fail_pending_same:
  "lg_requests (snd (fail_pending l m r c now)) = lg_requests l"
  "lg_capacity (snd (fail_pending l m r c now)) = lg_capacity l"
  "length (lg_history (snd (fail_pending l m r c now))) = length (lg_history l)"
  by (simp_all add: fail_pending_def Let_def split: option.splits)

lemma victim_index_SomeD:
  assumes "victim_index rs = Some i"
  shows "i < length rs" "retirable (rs ! i)"
    and "j < length rs \<Longrightarrow> retirable (rs ! j) \<Longrightarrow> re_created_at (rs ! i) \<le> re_created_at (rs ! j)"
  using min_by_key_SomeD[OF assms[unfolded victim_index_def]] by auto

lemma victim_index_None: "victim_index rs = None \<longleftrightarrow> (\<forall>r\<in>set rs. \<not> retirable r)"
  by (fastforce simp: victim_index_def filter_empty_conv in_set_conv_nth)

subsection \<open>The invariant\<close>

definition entry_ok :: "request_entry \<Rightarrow> bool" where
  "entry_ok r \<longleftrightarrow> \<not> (re_provisional r \<and> re_pending_retirement r) \<and>
     (re_pending_retirement r \<longrightarrow> re_notified r \<or> re_reply_by r = None)"

definition ledger_inv :: "ledger \<Rightarrow> bool" where
  "ledger_inv l \<longleftrightarrow> distinct (map re_key (lg_requests l)) \<and> (\<forall>r\<in>set (lg_requests l). entry_ok r) \<and>
     occupied_slots l \<le> MAX_OPEN_REQUESTS \<and>
     1 \<le> lg_capacity l \<and> length (lg_history l) \<le> lg_capacity l"

lemma ledger_invI_filter:
  assumes "ledger_inv l" "lg_history l' = lg_history l" "lg_capacity l' = lg_capacity l"
    and "lg_requests l' = filter P (lg_requests l)"
  shows "ledger_inv l'"
proof -
  have "length (filter occupies_slot (filter P rs)) \<le> length (filter occupies_slot rs)" for rs
    by (induction rs) auto
  then show ?thesis
    using assms by (auto simp: ledger_inv_def occupied_slots_def distinct_map_filter intro: order_trans)
qed

lemma purge_inv: "ledger_inv l \<Longrightarrow> ledger_inv (purge_finished_without_history l)"
  by (erule ledger_invI_filter) (simp_all add: purge_requests)

lemma ledger_invI_update:
  assumes "ledger_inv l" "lg_history l' = lg_history l" "lg_capacity l' = lg_capacity l"
    and "lg_requests l' = update_first P f (lg_requests l)"
    and "\<And>r. P r \<Longrightarrow> re_key (f r) = re_key r"
    and "\<And>r. P r \<Longrightarrow> entry_ok r \<Longrightarrow> entry_ok (f r)"
    and "\<And>r. P r \<Longrightarrow> occupies_slot (f r) \<Longrightarrow> occupies_slot r"
  shows "ledger_inv l'"
proof -
  have "map re_key (lg_requests l') = map re_key (lg_requests l)"
    unfolding assms(4) by (rule map_update_first) (simp add: assms(5))
  moreover have "\<forall>r\<in>set (lg_requests l'). entry_ok r"
    using assms(1,4,6) by (auto simp: ledger_inv_def dest!: set_update_firstD)
  moreover have "occupied_slots l' \<le> occupied_slots l"
    unfolding occupied_slots_def assms(4) by (rule count_update_first_le) (rule assms(7))
  ultimately show ?thesis using assms(1-3) by (simp add: ledger_inv_def)
qed

lemma open_request_inv:
  assumes "ledger_inv l"
  shows "ledger_inv (snd (open_request l i s sid rc rid rb now))"
proof -
  consider (dup) "list_ex (\<lambda>r. re_request_id r = i \<and> re_recipient_id r = rid) (lg_requests l)"
    | (room) "\<not> list_ex (\<lambda>r. re_request_id r = i \<and> re_recipient_id r = rid) (lg_requests l)" "occupied_slots l < MAX_OPEN_REQUESTS"
    | (full) "\<not> list_ex (\<lambda>r. re_request_id r = i \<and> re_recipient_id r = rid) (lg_requests l)" "MAX_OPEN_REQUESTS \<le> occupied_slots l"
    by linarith
  then show ?thesis
  proof cases
    case dup
    with assms show ?thesis by (simp add: open_request_def)
  next
    case room
    with assms show ?thesis
      by (auto simp: open_request_def ledger_inv_def new_entry_def entry_ok_def occupied_slots_def list_ex_iff image_iff)
  next
    case full
    show ?thesis
    proof (cases "victim_index (lg_requests l)")
      case None
      with full assms show ?thesis by (simp add: open_request_def)
    next
      case (Some k)
      note v = victim_index_SomeD(1,2)[OF Some]
      let ?rs = "lg_requests l" and ?v = "lg_requests l ! k"
      let ?rs' = "?rs[k := ?v\<lparr>re_pending_retirement := True\<rparr>]"
      have split: "?rs = take k ?rs @ ?v # drop (Suc k) ?rs"
        using v(1) by (rule id_take_nth_drop)
      have "map re_key ?rs' = map re_key ?rs"
        using v(1) by (simp add: map_update list_update_same_conv)
      moreover have "\<forall>r\<in>set ?rs'. entry_ok r"
        using assms v by (auto simp: ledger_inv_def retirable_def entry_ok_def dest!: set_update_subset_insert[THEN subsetD])
      moreover have "Suc (length (filter occupies_slot ?rs')) = length (filter occupies_slot ?rs)"
      proof -
        have "?rs' = take k ?rs @ ?v\<lparr>re_pending_retirement := True\<rparr> # drop (Suc k) ?rs"
          using v(1) by (simp add: upd_conv_take_nth_drop)
        moreover have "length (filter occupies_slot ?rs) =
            length (filter occupies_slot (take k ?rs)) + Suc (length (filter occupies_slot (drop (Suc k) ?rs)))"
          using v(2) by (subst split) (simp add: retirable_def)
        ultimately show ?thesis by (simp add: occupies_slot_def)
      qed
      ultimately show ?thesis
        using full Some assms
        by (auto simp: open_request_def ledger_inv_def new_entry_def entry_ok_def occupied_slots_def
            occupies_slot_def list_ex_iff image_iff Let_def)
    qed
  qed
qed

lemma commit_open_inv:
  assumes "ledger_inv l"
  shows "ledger_inv (snd (commit_open l p rt))"
proof -
  define l1 where "l1 = (case p of None \<Rightarrow> l
     | Some key \<Rightarrow> l\<lparr>lg_requests := update_first (\<lambda>r. re_key r = key) confirm_entry (lg_requests l)\<rparr>)"
  have l1: "ledger_inv l1"
  proof (cases p)
    case None
    with assms show ?thesis by (simp add: l1_def)
  next
    case (Some key)
    show ?thesis
      by (rule ledger_invI_update[OF assms, where P = "\<lambda>r. re_key r = key" and f = confirm_entry])
        (auto simp: l1_def Some confirm_entry_def entry_ok_def occupies_slot_def)
  qed
  have "snd (commit_open l p rt) = (case rt of None \<Rightarrow> l1
     | Some key \<Rightarrow> purge_finished_without_history
         (l1\<lparr>lg_requests := filter (\<lambda>r. \<not> (re_key r = key \<and> re_pending_retirement r)) (lg_requests l1)\<rparr>))"
    by (auto simp: commit_open_def l1_def Let_def split: option.splits prod.splits)
  then show ?thesis
    using l1 by (auto split: option.splits intro!: purge_inv elim!: ledger_invI_filter)
qed

lemma drop_request_requests:
  "lg_requests (snd (drop_request l i r)) = remove_first (\<lambda>e. re_key e = (i, r)) (lg_requests l)"
  "lg_history (snd (drop_request l i r)) = lg_history l"
  "lg_capacity (snd (drop_request l i r)) = lg_capacity l"
  by (auto simp: drop_request_def remove_first_none split: option.splits)

text \<open>Clearing one retirement mark and dropping one reservation never raises the slot count.\<close>

lemma unmark_and_drop:
  assumes inv: "ledger_inv l" and p: "p \<in> set (lg_requests l)" "re_provisional p"
    and l1: "l1 = l \<or> l1 = l\<lparr>lg_requests := update_first M (\<lambda>e. e\<lparr>re_pending_retirement := False\<rparr>) (lg_requests l)\<rparr>"
    and l': "l' = snd (drop_request l1 (re_request_id p) (re_recipient_id p))"
  shows "ledger_inv l'"
    and "\<And>q. q \<in> set (lg_requests l) \<Longrightarrow> re_provisional q \<Longrightarrow> re_key q \<noteq> re_key p \<Longrightarrow> q \<in> set (lg_requests l')"
proof -
  let ?f = "\<lambda>e. e\<lparr>re_pending_retirement := False\<rparr>"
  let ?rs = "lg_requests l" and ?rs1 = "lg_requests l1"
  have keep: "q \<in> set ?rs1" if "q \<in> set ?rs" "re_provisional q" for q
  proof -
    have "?f q = q" using inv that by (auto simp: ledger_inv_def entry_ok_def)
    then show ?thesis using l1 that
    proof (elim disjE)
      assume "l1 = l\<lparr>lg_requests := update_first M ?f (lg_requests l)\<rparr>"
      moreover have "q \<in> set xs \<Longrightarrow> q \<in> set (update_first M ?f xs)" for xs
        using \<open>?f q = q\<close> by (induction xs) auto
      ultimately show ?thesis using that by simp
    qed simp
  qed
  have keys: "map re_key ?rs1 = map re_key ?rs"
    using l1 map_update_first[of M "\<lambda>r. re_key r" ?f ?rs] by auto
  with inv have dist: "distinct (map re_key ?rs1)" by (simp add: ledger_inv_def)
  have ok: "\<forall>r\<in>set ?rs1. entry_ok r"
  proof -
    have "entry_ok r \<Longrightarrow> entry_ok (?f r)" for r by (simp add: entry_ok_def)
    then show ?thesis using l1 inv by (auto simp: ledger_inv_def dest!: set_update_firstD)
  qed
  have fnd: "find (\<lambda>e. re_key e = (re_request_id p, re_recipient_id p)) ?rs1 = Some p"
    using find_distinct_key[OF dist keep[OF p]] by simp
  obtain a b where ab: "?rs1 = a @ p # b" "lg_requests l' = a @ b"
    using remove_first_eq[OF fnd] unfolding l' drop_request_requests by auto
  have "occupies_slot p" using inv p by (auto simp: ledger_inv_def entry_ok_def occupies_slot_def)
  then have "length (filter occupies_slot ?rs1) = Suc (length (filter occupies_slot (lg_requests l')))"
    unfolding l' drop_request_requests by (rule count_remove_first[OF fnd])
  moreover have "length (filter occupies_slot ?rs1) \<le> Suc (length (filter occupies_slot ?rs))"
    using l1 count_update_first_le_Suc[of occupies_slot M ?f ?rs] by auto
  ultimately have "occupied_slots l' \<le> occupied_slots l" by (simp add: occupied_slots_def)
  moreover have "distinct (map re_key (lg_requests l'))"
    using dist ab by simp
  moreover have "\<forall>r\<in>set (lg_requests l'). entry_ok r"
    using ok ab by simp
  moreover have "lg_history l' = lg_history l" "lg_capacity l' = lg_capacity l"
    using l1 by (auto simp: l' drop_request_requests)
  ultimately show "ledger_inv l'" using inv by (simp add: ledger_inv_def)
  show "q \<in> set (lg_requests l')" if "q \<in> set ?rs" "re_provisional q" "re_key q \<noteq> re_key p" for q
    using keep[OF that(1,2)] that(3) ab by auto
qed

text \<open>A contract owes a deadline notice while it is open, confirmed, has a deadline and has not been
  notified.\<close>

definition owed :: "request_entry \<Rightarrow> bool" where
  "owed r \<longleftrightarrow> \<not> re_closed r \<and> \<not> re_notified r \<and> \<not> re_provisional r \<and> re_reply_by r \<noteq> None"

lemma owed_not_pending: "ledger_inv l \<Longrightarrow> e \<in> set (lg_requests l) \<Longrightarrow> owed e \<Longrightarrow> \<not> re_pending_retirement e"
  by (auto simp: ledger_inv_def entry_ok_def owed_def)

lemma update_first_fixed: "e \<in> set xs \<Longrightarrow> f e = e \<Longrightarrow> e \<in> set (update_first P f xs)"
  by (induction xs) auto

lemma remove_first_other: "e \<in> set xs \<Longrightarrow> \<not> P e \<Longrightarrow> e \<in> set (remove_first P xs)"
  by (induction xs) auto

lemma owed_drop:
  assumes "ledger_inv l" "e \<in> set (lg_requests l)" "owed e"
    and p: "p \<in> set (lg_requests l)" "re_provisional p"
    and l1: "l1 = l \<or> l1 = l\<lparr>lg_requests := update_first M (\<lambda>e. e\<lparr>re_pending_retirement := False\<rparr>) (lg_requests l)\<rparr>"
  shows "e \<in> set (lg_requests (snd (drop_request l1 (re_request_id p) (re_recipient_id p))))"
proof -
  have "re_key e \<noteq> re_key p"
  proof
    assume "re_key e = re_key p"
    moreover have "inj_on re_key (set (lg_requests l))"
      using assms(1) by (simp add: ledger_inv_def distinct_map)
    ultimately have "e = p" using assms(2) p(1) by (auto dest: inj_onD)
    with assms(3) p(2) show False by (simp add: owed_def)
  qed
  moreover have "e \<in> set (lg_requests l1)"
    using l1 assms(2) owed_not_pending[OF assms(1-3)] by (auto intro!: update_first_fixed)
  ultimately show ?thesis
    unfolding drop_request_requests by (intro remove_first_other) auto
qed

lemma rollback_open_inv:
  assumes inv: "ledger_inv l" and p: "p \<in> set (lg_requests l)" "re_provisional p"
  shows "ledger_inv (snd (rollback_open l (Some (re_key p)) rt))"
proof (cases rt)
  case None
  then show ?thesis
    using unmark_and_drop(1)[OF inv p disjI1[OF refl] refl] by (simp add: rollback_open_def case_prod_beta)
next
  case (Some key)
  then show ?thesis
    using unmark_and_drop(1)[OF inv p disjI2[OF refl] refl, where M = "\<lambda>r. re_key r = key \<and> re_pending_retirement r"]
    by (simp add: rollback_open_def Let_def case_prod_beta)
qed

lemma reclaim_loop_inv:
  assumes "ledger_inv l" "\<forall>(k, v)\<in>set items. \<exists>p\<in>set (lg_requests l). re_key p = k \<and> re_provisional p"
    and "distinct (map fst items)"
  shows "ledger_inv (snd (reclaim_loop items l acc)) \<and>
     (\<forall>e\<in>set (lg_requests l). owed e \<longrightarrow> e \<in> set (lg_requests (snd (reclaim_loop items l acc))))"
  using assms
proof (induction items arbitrary: l acc)
  case (Cons it items)
  obtain k v where it: "it = (k, v)" by (cases it)
  obtain p where p: "p \<in> set (lg_requests l)" "re_key p = k" "re_provisional p"
    using Cons.prems(2) by (auto simp: it)
  define l1 where "l1 = (case v of None \<Rightarrow> l
     | Some v \<Rightarrow> l\<lparr>lg_requests := update_first (\<lambda>r. re_key r = v)
         (\<lambda>e. e\<lparr>re_pending_retirement := False\<rparr>) (lg_requests l)\<rparr>)"
  define l' where "l' = snd (drop_request l1 (re_request_id p) (re_recipient_id p))"
  have l1: "l1 = l \<or> l1 = l\<lparr>lg_requests := update_first (\<lambda>r. re_key r = the v)
      (\<lambda>e. e\<lparr>re_pending_retirement := False\<rparr>) (lg_requests l)\<rparr>"
    by (cases v) (auto simp: l1_def)
  note U = unmark_and_drop[OF Cons.prems(1) p(1,3) l1 l'_def]
  have "\<forall>(k, v)\<in>set items. \<exists>p\<in>set (lg_requests l'). re_key p = k \<and> re_provisional p"
  proof clarify
    fix k' v'
    assume in_items: "(k', v') \<in> set items"
    then obtain q where q: "q \<in> set (lg_requests l)" "re_key q = k'" "re_provisional q"
      using Cons.prems(2) by auto
    have "k' \<noteq> k" using Cons.prems(3) in_items by (force simp: it)
    then have "q \<in> set (lg_requests l')" using U(2)[OF q(1,3)] q(2) p(2) by simp
    with q show "\<exists>p\<in>set (lg_requests l'). re_key p = k' \<and> re_provisional p" by blast
  qed
  moreover have "reclaim_loop (it # items) l acc = reclaim_loop items l' (acc @ [k])"
    using p(2) by (auto simp: it l'_def l1_def Let_def)
  moreover have "\<forall>e\<in>set (lg_requests l). owed e \<longrightarrow> e \<in> set (lg_requests l')"
    using owed_drop[OF Cons.prems(1) _ _ p(1,3) l1] by (simp add: l'_def)
  ultimately show ?case using Cons.IH[OF U(1)] Cons.prems(3) by (simp add: it)
qed simp

lemma reclaim_inv:
  assumes "ledger_inv l"
  shows "ledger_inv (snd (reclaim_abandoned_reservations alive l))"
    and "e \<in> set (lg_requests l) \<Longrightarrow> owed e \<Longrightarrow> e \<in> set (lg_requests (snd (reclaim_abandoned_reservations alive l)))"
proof -
  have "\<forall>(k, v)\<in>set (map (\<lambda>r. (re_key r, re_marked_victim r)) (filter (abandoned alive) (lg_requests l))).
      \<exists>p\<in>set (lg_requests l). re_key p = k \<and> re_provisional p"
    by (auto simp: abandoned_def)
  moreover have "distinct (map fst (map (\<lambda>r. (re_key r, re_marked_victim r)) (filter (abandoned alive) (lg_requests l))))"
    using assms by (simp add: ledger_inv_def comp_def distinct_map_filter)
  ultimately have *: "ledger_inv (snd (reclaim_abandoned_reservations alive l)) \<and>
      (\<forall>e\<in>set (lg_requests l). owed e \<longrightarrow> e \<in> set (lg_requests (snd (reclaim_abandoned_reservations alive l))))"
    unfolding reclaim_abandoned_reservations_def by (rule reclaim_loop_inv[OF assms])
  then show "ledger_inv (snd (reclaim_abandoned_reservations alive l))" by blast
  show "e \<in> set (lg_requests l) \<Longrightarrow> owed e \<Longrightarrow> e \<in> set (lg_requests (snd (reclaim_abandoned_reservations alive l)))"
    using * by blast
qed

lemma ledger_invI_map:
  assumes "ledger_inv l" "lg_history l' = lg_history l" "lg_capacity l' = lg_capacity l"
    and "lg_requests l' = map f (lg_requests l)"
    and "\<And>r. re_key (f r) = re_key r"
    and "\<And>r. entry_ok r \<Longrightarrow> entry_ok (f r)"
    and "\<And>r. occupies_slot (f r) \<Longrightarrow> occupies_slot r"
  shows "ledger_inv l'"
proof -
  have "map re_key (lg_requests l') = map re_key (lg_requests l)"
    using assms(4,5) by (simp add: comp_def)
  moreover have "length (filter occupies_slot (map f rs)) \<le> length (filter occupies_slot rs)" for rs
    by (induction rs) (use assms(7) in auto)
  then have "occupied_slots l' \<le> occupied_slots l"
    by (simp only: occupied_slots_def assms(4))
  moreover have "entry_ok r" if "r \<in> set (lg_requests l')" for r
    using that assms(1,4,6) by (auto simp: ledger_inv_def)
  ultimately show ?thesis using assms(1-3) by (simp only: ledger_inv_def) (auto intro: order_trans)
qed

definition fails_from :: "peer_id \<Rightarrow> request_entry \<Rightarrow> bool" where
  "fails_from s r \<longleftrightarrow> \<not> re_closed r \<and> re_sender_id r = s \<and> \<not> re_provisional r \<and> \<not> re_pending_retirement r"

lemma fail_from_loop_eq:
  "fail_from_loop s rs out =
     (map (\<lambda>r. if fails_from s r then fail_entry r else r) rs,
      \<lparr>rc_failed = rc_failed out @ map re_key (filter (fails_from s) rs),
       rc_guard_held = rc_guard_held out + length (filter (\<lambda>r. \<not> re_closed r \<and> re_sender_id r = s \<and>
          (re_provisional r \<or> re_pending_retirement r)) rs)\<rparr>)"
  by (induction rs arbitrary: out) (auto simp: fails_from_def)

lemma due_loop_eq:
  "due_loop now rs acc = (map (\<lambda>r. if due now r then r\<lparr>re_notified := True\<rparr> else r) rs,
                          acc @ map due_of (filter (due now) rs))"
  by (induction rs arbitrary: acc) auto

lemma due_fst: "fst (due_timeouts l now) = map due_of (filter (due now) (lg_requests l))"
  by (simp add: due_timeouts_def due_loop_eq Let_def)

lemma fail_from_inv: "ledger_inv l \<Longrightarrow> ledger_inv (snd (fail_open_requests_from l s))"
proof -
  assume inv: "ledger_inv l"
  have "ledger_inv (l\<lparr>lg_requests := map (\<lambda>r. if fails_from s r then fail_entry r else r) (lg_requests l)\<rparr>)"
    by (rule ledger_invI_map[OF inv, where f = "\<lambda>r. if fails_from s r then fail_entry r else r"])
      (auto simp: fail_entry_def entry_ok_def occupies_slot_def fails_from_def)
  then show ?thesis
    by (auto simp: fail_open_requests_from_def fail_from_loop_eq Let_def intro: purge_inv)
qed

lemma due_timeouts_inv: "ledger_inv l \<Longrightarrow> ledger_inv (snd (due_timeouts l now))"
proof -
  assume inv: "ledger_inv l"
  have "ledger_inv (l\<lparr>lg_requests := map (\<lambda>r. if due now r then r\<lparr>re_notified := True\<rparr> else r) (lg_requests l)\<rparr>)"
    by (rule ledger_invI_map[OF inv, where f = "\<lambda>r. if due now r then r\<lparr>re_notified := True\<rparr> else r"])
      (auto simp: entry_ok_def occupies_slot_def split: if_splits)
  then show ?thesis
    by (auto simp: due_timeouts_def due_loop_eq Let_def intro: purge_inv)
qed

lemma attach_inv: "ledger_inv l \<Longrightarrow> ledger_inv (attach_reservation_liveness l i r w)"
  by (rule ledger_invI_update[where f = "\<lambda>r. r\<lparr>re_reservation_token := Some w\<rparr>" and
        P = "\<lambda>e. re_request_id e = i \<and> re_recipient_id e = r \<and> re_provisional e"])
    (auto simp: attach_reservation_liveness_def entry_ok_def occupies_slot_def)

lemma transition_inv: "ledger_inv l \<Longrightarrow> ledger_inv (snd (transition l m r st now))"
  using transition_same[of l m r st now] by (simp add: ledger_inv_def occupied_slots_def)

lemma fail_pending_inv: "ledger_inv l \<Longrightarrow> ledger_inv (snd (fail_pending l m r c now))"
  using fail_pending_same[of l m r c now] by (simp add: ledger_inv_def occupied_slots_def)

lemma record_inv: "ledger_inv l \<Longrightarrow> ledger_inv (record_with_expected l m f fi t ti b st now n)"
  using record_same[of l m f fi t ti b st now n] record_history[of l m f fi t ti b st now n]
  by (auto simp: ledger_inv_def Let_def)

lemma close_on_reply_inv: "ledger_inv l \<Longrightarrow> ledger_inv (snd (close_on_reply l i r now))"
proof -
  assume inv: "ledger_inv l"
  have "ledger_inv (l\<lparr>lg_requests := update_first (\<lambda>e. re_request_id e = i \<and> re_recipient_id e = r)
      (\<lambda>e. e\<lparr>re_closed := True\<rparr>) (lg_requests l)\<rparr>)"
    by (rule ledger_invI_update[OF inv, where f = "\<lambda>e. e\<lparr>re_closed := True\<rparr>" and
          P = "\<lambda>e. re_request_id e = i \<and> re_recipient_id e = r"])
      (auto simp: entry_ok_def occupies_slot_def)
  with inv show ?thesis
    by (auto simp: close_on_reply_def Let_def case_prod_beta split: option.splits intro!: purge_inv transition_inv)
qed

lemma fail_reply_inv: "ledger_inv l \<Longrightarrow> ledger_inv (snd (fail_on_undeliverable_reply l i r))"
proof -
  assume inv: "ledger_inv l"
  have "ledger_inv (l\<lparr>lg_requests := update_first (\<lambda>e. re_request_id e = i \<and> re_recipient_id e = r)
      fail_entry (lg_requests l)\<rparr>)"
    by (rule ledger_invI_update[OF inv, where f = fail_entry and
          P = "\<lambda>e. re_request_id e = i \<and> re_recipient_id e = r"])
      (auto simp: fail_entry_def entry_ok_def occupies_slot_def)
  with inv show ?thesis
    by (auto simp: fail_on_undeliverable_reply_def split: option.splits intro!: purge_inv)
qed

section \<open>The ledger in use\<close>

text \<open>
  Every call that changes the ledger, as one operation type. A rollback is only issued by the
  holder of a reservation, so its contract is still tracked and provisional; all other calls
  are unrestricted.
\<close>

datatype ledger_op =
    Op_record ustr ustr peer_id ustr "peer_id option" ustr delivery_status instant u16
  | Op_transition ustr peer_id delivery_status instant
  | Op_fail_pending ustr peer_id ustr instant
  | Op_open ustr ustr peer_id ustr peer_id "(duration \<times> ustr) option" instant
  | Op_attach ustr peer_id nat
  | Op_commit "contract_key option" "contract_key option"
  | Op_rollback contract_key "contract_key option"
  | Op_close ustr peer_id instant
  | Op_fail_reply ustr peer_id
  | Op_fail_from peer_id
  | Op_reclaim "nat \<Rightarrow> bool"
  | Op_due instant

fun ledger_do :: "ledger_op \<Rightarrow> ledger \<Rightarrow> ledger" where
  "ledger_do (Op_record m f fi t ti b st now n) l = record_with_expected l m f fi t ti b st now n"
| "ledger_do (Op_transition m r st now) l = snd (transition l m r st now)"
| "ledger_do (Op_fail_pending m r c now) l = snd (fail_pending l m r c now)"
| "ledger_do (Op_open i s sid rc rid rb now) l = snd (open_request l i s sid rc rid rb now)"
| "ledger_do (Op_attach i r w) l = attach_reservation_liveness l i r w"
| "ledger_do (Op_commit p rt) l = snd (commit_open l p rt)"
| "ledger_do (Op_rollback p rt) l = snd (rollback_open l (Some p) rt)"
| "ledger_do (Op_close i r now) l = snd (close_on_reply l i r now)"
| "ledger_do (Op_fail_reply i r) l = snd (fail_on_undeliverable_reply l i r)"
| "ledger_do (Op_fail_from s) l = snd (fail_open_requests_from l s)"
| "ledger_do (Op_reclaim alive) l = snd (reclaim_abandoned_reservations alive l)"
| "ledger_do (Op_due now) l = snd (due_timeouts l now)"

definition op_allowed :: "ledger_op \<Rightarrow> ledger \<Rightarrow> bool" where
  "op_allowed op l \<longleftrightarrow> (case op of
     Op_rollback p rt \<Rightarrow> list_ex (\<lambda>e. re_key e = p \<and> re_provisional e) (lg_requests l)
   | _ \<Rightarrow> True)"

inductive ledger_init :: "ledger \<Rightarrow> bool" where
  "ledger_init (with_capacity c)"

inductive ledger_step :: "ledger \<Rightarrow> ledger \<Rightarrow> bool" where
  "op_allowed op l \<Longrightarrow> ledger_step l (ledger_do op l)"

inductive_cases ledger_stepE: "ledger_step l l'"

lemma ledger_do_inv: "ledger_inv l \<Longrightarrow> op_allowed op l \<Longrightarrow> ledger_inv (ledger_do op l)"
proof (cases op)
  case (Op_rollback p rt)
  assume "ledger_inv l" "op_allowed op l"
  with Op_rollback obtain e where "e \<in> set (lg_requests l)" "re_key e = p" "re_provisional e"
    by (auto simp: op_allowed_def list_ex_iff)
  with \<open>ledger_inv l\<close> Op_rollback show ?thesis using rollback_open_inv by auto
qed (simp_all add: record_inv transition_inv fail_pending_inv open_request_inv attach_inv commit_open_inv
    close_on_reply_inv fail_reply_inv fail_from_inv reclaim_inv due_timeouts_inv)

interpretation ledger_sys: step_invariant ledger_init ledger_step ledger_inv
proof unfold_locales
  show "ledger_inv s" if "ledger_init s" for s
    using that by (auto simp: ledger_init.simps with_capacity_def ledger_inv_def occupied_slots_def)
  show "ledger_inv t" if "ledger_inv s" "ledger_step s t" for s t
    using that by (auto elim!: ledger_stepE intro: ledger_do_inv)
qed

abbreviation ledger_reachable :: "ledger \<Rightarrow> bool" where
  "ledger_reachable \<equiv> reachable ledger_init ledger_step"

subsection \<open>Deadline debts\<close>

lemma owed_purge: "e \<in> set (lg_requests l) \<Longrightarrow> owed e \<Longrightarrow> e \<in> set (lg_requests (purge_finished_without_history l))"
  by (simp add: purge_requests owed_def)

lemma owed_open:
  "ledger_inv l \<Longrightarrow> e \<in> set (lg_requests l) \<Longrightarrow> owed e \<Longrightarrow> e \<in> set (lg_requests (snd (open_request l i s sid rc rid rb now)))"
proof -
  assume e: "e \<in> set (lg_requests l)" "owed e"
  have "e \<in> set ((lg_requests l)[k := x])" if "victim_index (lg_requests l) = Some k" for k x
  proof -
    have "e \<noteq> lg_requests l ! k"
      using victim_index_SomeD(2)[OF that] e(2) by (auto simp: retirable_def owed_def)
    moreover from e(1) obtain j where "j < length (lg_requests l)" "lg_requests l ! j = e"
      by (auto simp: in_set_conv_nth)
    ultimately show ?thesis
      by (metis in_set_conv_nth length_list_update nth_list_update_neq)
  qed
  with e show ?thesis
    by (auto simp: open_request_def Let_def split: option.splits)
qed

lemma owed_commit:
  assumes "ledger_inv l" "e \<in> set (lg_requests l)" "owed e"
  shows "\<exists>e'\<in>set (lg_requests (snd (commit_open l p rt))). re_key e' = re_key e \<and> owed e'"
proof -
  define l1 where "l1 = (case p of None \<Rightarrow> l
     | Some key \<Rightarrow> l\<lparr>lg_requests := update_first (\<lambda>r. re_key r = key) confirm_entry (lg_requests l)\<rparr>)"
  obtain e' where e': "e' \<in> set (lg_requests l1)" "re_key e' = re_key e" "owed e'" "\<not> re_pending_retirement e'"
  proof (cases p)
    case None
    with assms owed_not_pending[OF assms] show ?thesis by (intro that[of e]) (auto simp: l1_def)
  next
    case (Some key)
    have "confirm_entry e \<in> set (lg_requests l1) \<or> e \<in> set (lg_requests l1)"
    proof -
      have "e \<in> set xs \<Longrightarrow> confirm_entry e \<in> set (update_first (\<lambda>r. re_key r = key) confirm_entry xs) \<or>
          e \<in> set (update_first (\<lambda>r. re_key r = key) confirm_entry xs)" for xs
        by (induction xs) auto
      with assms(2) show ?thesis by (simp add: l1_def Some)
    qed
    moreover have "owed (confirm_entry e)" "re_key (confirm_entry e) = re_key e" "\<not> re_pending_retirement (confirm_entry e)"
      using assms(3) owed_not_pending[OF assms] by (auto simp: owed_def confirm_entry_def)
    ultimately show ?thesis using that assms(3) owed_not_pending[OF assms] by blast
  qed
  have "snd (commit_open l p rt) = (case rt of None \<Rightarrow> l1
     | Some key \<Rightarrow> purge_finished_without_history
         (l1\<lparr>lg_requests := filter (\<lambda>r. \<not> (re_key r = key \<and> re_pending_retirement r)) (lg_requests l1)\<rparr>))"
    by (auto simp: commit_open_def l1_def Let_def split: option.splits prod.splits)
  with e' show ?thesis
    by (intro bexI[of _ e']) (auto split: option.splits intro!: owed_purge)
qed

lemma owed_rollback:
  assumes "ledger_inv l" "e \<in> set (lg_requests l)" "owed e" "op_allowed (Op_rollback k rt) l"
  shows "e \<in> set (lg_requests (snd (rollback_open l (Some k) rt)))"
proof -
  obtain p where p: "p \<in> set (lg_requests l)" "re_provisional p" "k = re_key p"
    using assms(4) by (auto simp: op_allowed_def list_ex_iff)
  show ?thesis
    using owed_drop[OF assms(1-3) p(1,2) disjI1[OF refl]]
      owed_drop[OF assms(1-3) p(1,2) disjI2[OF refl], where M = "\<lambda>r. re_key r = the rt \<and> re_pending_retirement r"]
    by (cases rt) (simp_all add: rollback_open_def Let_def case_prod_beta p(3))
qed

lemma owed_kept:
  assumes "e \<in> set (lg_requests l)" "owed e"
  shows owed_record: "e \<in> set (lg_requests (record_with_expected l m f fi t ti b st now n))"
    and owed_attach: "e \<in> set (lg_requests (attach_reservation_liveness l i r w))"
    and owed_close: "(i, r) \<noteq> re_key e \<Longrightarrow> e \<in> set (lg_requests (snd (close_on_reply l i r now)))"
    and owed_fail_reply: "(i, r) \<noteq> re_key e \<Longrightarrow> e \<in> set (lg_requests (snd (fail_on_undeliverable_reply l i r)))"
    and owed_fail_from: "s \<noteq> re_sender_id e \<Longrightarrow> e \<in> set (lg_requests (snd (fail_open_requests_from l s)))"
proof -
  have upd: "e \<in> set (update_first P g (lg_requests l))" if "\<not> P e" for P g
    using that assms(1) by (rule update_first_other[rotated])
  show "e \<in> set (lg_requests (record_with_expected l m f fi t ti b st now n))"
    using assms by (auto simp: record_with_expected_def Let_def case_prod_beta intro!: owed_purge)
  show "e \<in> set (lg_requests (attach_reservation_liveness l i r w))"
    using upd assms(2) by (auto simp: attach_reservation_liveness_def owed_def)
  show "(i, r) \<noteq> re_key e \<Longrightarrow> e \<in> set (lg_requests (snd (close_on_reply l i r now)))"
    using upd assms by (auto simp: close_on_reply_def Let_def case_prod_beta transition_same
        split: option.splits intro!: owed_purge)
  show "(i, r) \<noteq> re_key e \<Longrightarrow> e \<in> set (lg_requests (snd (fail_on_undeliverable_reply l i r)))"
    using upd assms by (auto simp: fail_on_undeliverable_reply_def split: option.splits intro!: owed_purge)
  assume "s \<noteq> re_sender_id e"
  then have "e \<in> (\<lambda>r. if fails_from s r then fail_entry r else r) ` set (lg_requests l)"
    using assms(1) by (intro image_eqI[of _ _ e]) (auto simp: fails_from_def)
  then show "e \<in> set (lg_requests (snd (fail_open_requests_from l s)))"
    using assms(2) by (auto simp: fail_open_requests_from_def fail_from_loop_eq Let_def intro!: owed_purge)
qed

lemma owed_due:
  assumes "e \<in> set (lg_requests l)" "owed e"
  shows "if due now e then due_of e \<in> set (fst (due_timeouts l now)) \<and>
              e\<lparr>re_notified := True\<rparr> \<in> set (lg_requests (snd (due_timeouts l now)))
         else e \<in> set (lg_requests (snd (due_timeouts l now)))"
proof -
  let ?g = "\<lambda>r. if due now r then r\<lparr>re_notified := True\<rparr> else r"
  have "?g e \<in> set (lg_requests (snd (due_timeouts l now)))"
    using assms by (auto simp: due_timeouts_def due_loop_eq Let_def purge_requests owed_def)
  moreover have "due_of e \<in> set (fst (due_timeouts l now))" if "due now e"
    using that assms(1) by (auto simp: due_timeouts_def due_loop_eq Let_def)
  ultimately show ?thesis by (cases "due now e") simp_all
qed

subsection \<open>Where an entry comes from\<close>

text \<open>\<open>descends e e'\<close>: \<open>e'\<close> is the same contract as \<open>e\<close>, possibly later.\<close>

definition descends :: "request_entry \<Rightarrow> request_entry \<Rightarrow> bool" where
  "descends e e' \<longleftrightarrow> re_key e' = re_key e \<and> re_sender_id e' = re_sender_id e \<and> re_reply_by e' = re_reply_by e \<and>
     re_created_at e' = re_created_at e \<and>
     (re_notified e \<longrightarrow> re_notified e') \<and> (re_closed e \<longrightarrow> re_closed e') \<and> (re_provisional e' \<longrightarrow> re_provisional e)"

lemma descends_refl [simp]: "descends e e"
  by (simp add: descends_def)

lemma descends_trans: "descends a b \<Longrightarrow> descends b c \<Longrightarrow> descends a c"
  by (simp add: descends_def)

lemma descends_upd [simp]:
  "descends e (e\<lparr>re_pending_retirement := b\<rparr>)" "descends e (e\<lparr>re_reservation_token := t\<rparr>)"
  "descends e (e\<lparr>re_closed := True\<rparr>)" "descends e (e\<lparr>re_notified := True\<rparr>)"
  "descends e (confirm_entry e)" "descends e (fail_entry e)"
  by (simp_all add: descends_def confirm_entry_def fail_entry_def)

abbreviation all_descend :: "request_entry list \<Rightarrow> request_entry list \<Rightarrow> bool" where
  "all_descend rs rs' \<equiv> \<forall>e'\<in>set rs'. \<exists>e\<in>set rs. descends e e'"

lemma all_descend_trans: "all_descend a b \<Longrightarrow> all_descend b c \<Longrightarrow> all_descend a c"
  by (meson descends_trans)

lemma all_descend_subset: "set rs' \<subseteq> set rs \<Longrightarrow> all_descend rs rs'"
  by (meson descends_refl subsetD)

lemma all_descend_update_first:
  assumes "\<And>e. descends e (f e)"
  shows "all_descend rs (update_first P f rs)"
proof
  fix e'
  assume "e' \<in> set (update_first P f rs)"
  from set_update_firstD[OF this] assms show "\<exists>e\<in>set rs. descends e e'"
    by (auto intro: descends_refl)
qed

lemma all_descend_map: "(\<And>e. descends e (f e)) \<Longrightarrow> all_descend rs (map f rs)"
  by auto

lemma all_descend_purge: "all_descend rs (lg_requests l) \<Longrightarrow> all_descend rs (lg_requests (purge_finished_without_history l))"
  by (auto simp: purge_requests)

lemma all_descend_drop: "all_descend (lg_requests l) (lg_requests (snd (drop_request l i r)))"
proof -
  have "set (remove_first P xs) \<subseteq> set xs" for P and xs :: "request_entry list"
    by (induction xs) auto
  then show ?thesis unfolding drop_request_requests by (rule all_descend_subset)
qed

lemma all_descend_unmark_drop:
  "all_descend (lg_requests l) (lg_requests (snd (drop_request (l\<lparr>lg_requests := update_first P
      (\<lambda>e. e\<lparr>re_pending_retirement := False\<rparr>) (lg_requests l)\<rparr>) i r)))"
proof -
  let ?f = "\<lambda>e. e\<lparr>re_pending_retirement := False\<rparr>"
  let ?l1 = "l\<lparr>lg_requests := update_first P ?f (lg_requests l)\<rparr>"
  have "all_descend (lg_requests l) (update_first P ?f (lg_requests l))"
    by (rule all_descend_update_first) (rule descends_upd)
  then have "all_descend (lg_requests l) (lg_requests ?l1)" by simp
  then show ?thesis by (rule all_descend_trans) (rule all_descend_drop)
qed

lemma all_descend_reclaim: "all_descend (lg_requests l) (lg_requests (snd (reclaim_loop items l acc)))"
proof (induction items l acc rule: reclaim_loop.induct)
  case (1 l acc)
  then show ?case by (auto intro: descends_refl)
next
  case (2 key v rest l acc)
  define l1 where "l1 = (case v of None \<Rightarrow> l
     | Some v \<Rightarrow> l\<lparr>lg_requests := update_first (\<lambda>r. re_key r = v)
         (\<lambda>e. e\<lparr>re_pending_retirement := False\<rparr>) (lg_requests l)\<rparr>)"
  have "all_descend (lg_requests l) (lg_requests (snd (drop_request l1 (fst key) (snd key))))"
    by (cases v) (simp_all add: l1_def all_descend_drop all_descend_unmark_drop)
  then show ?case
    using 2[OF l1_def] all_descend_trans by (simp add: l1_def Let_def)
qed

lemma contract_origin:
  assumes "e' \<in> set (lg_requests (ledger_do op l))"
  shows "(\<exists>e\<in>set (lg_requests l). descends e e') \<or>
         (re_key e' \<notin> re_key ` set (lg_requests l) \<and> (\<exists>i s sid rc rid rb now. op = Op_open i s sid rc rid rb now))"
proof (cases op)
  case (Op_open i s sid rc rid rb now)
  have "all_descend (lg_requests l) ((lg_requests l)[k := (lg_requests l ! k)\<lparr>re_pending_retirement := True\<rparr>])" for k
  proof (cases "k < length (lg_requests l)")
    case True
    show ?thesis
    proof
      fix x
      assume "x \<in> set ((lg_requests l)[k := (lg_requests l ! k)\<lparr>re_pending_retirement := True\<rparr>])"
      then have "x = (lg_requests l ! k)\<lparr>re_pending_retirement := True\<rparr> \<or> x \<in> set (lg_requests l)"
        using set_update_subset_insert by fast
      then show "\<exists>e\<in>set (lg_requests l). descends e x"
        using nth_mem[OF True] descends_upd(1)[of "lg_requests l ! k" True] descends_refl by blast
    qed
  next
    case False
    then have eq: "(lg_requests l)[k := (lg_requests l ! k)\<lparr>re_pending_retirement := True\<rparr>] = lg_requests l"
      by (simp add: list_update_beyond)
    show ?thesis unfolding eq by (rule all_descend_subset) simp
  qed
  then show ?thesis using assms
    by (auto simp: Op_open open_request_def Let_def new_entry_def list_ex_iff split: if_splits option.splits
        intro: descends_refl)
next
  case (Op_commit p rt)
  define l1 where "l1 = (case p of None \<Rightarrow> l
     | Some key \<Rightarrow> l\<lparr>lg_requests := update_first (\<lambda>r. re_key r = key) confirm_entry (lg_requests l)\<rparr>)"
  have "all_descend (lg_requests l) (lg_requests l1)"
  proof (cases p)
    case None
    then have "l1 = l" by (simp add: l1_def)
    then show ?thesis by (simp only:) (rule all_descend_subset, rule subset_refl)
  next
    case (Some key)
    then have "lg_requests l1 = update_first (\<lambda>r. re_key r = key) confirm_entry (lg_requests l)"
      by (simp add: l1_def)
    then show ?thesis by (simp only:) (rule all_descend_update_first, rule descends_upd)
  qed
  moreover have "snd (commit_open l p rt) = (case rt of None \<Rightarrow> l1
     | Some key \<Rightarrow> purge_finished_without_history
         (l1\<lparr>lg_requests := filter (\<lambda>r. \<not> (re_key r = key \<and> re_pending_retirement r)) (lg_requests l1)\<rparr>))"
    by (auto simp: commit_open_def l1_def Let_def split: option.splits prod.splits)
  ultimately show ?thesis using assms by (auto simp: Op_commit purge_requests split: option.splits)
next
  case (Op_rollback p rt)
  have "all_descend (lg_requests l) (lg_requests (snd (rollback_open l (Some p) rt)))"
    by (cases rt; cases p) (simp_all add: rollback_open_def Let_def case_prod_beta all_descend_drop all_descend_unmark_drop)
  with assms show ?thesis by (simp add: Op_rollback)
next
  case (Op_reclaim alive)
  with assms show ?thesis using all_descend_reclaim by (simp add: reclaim_abandoned_reservations_def)
next
  case (Op_close i r now)
  have "all_descend (lg_requests l) (update_first P (\<lambda>r. r\<lparr>re_closed := True\<rparr>) (lg_requests l))" for P
    by (rule all_descend_update_first) (rule descends_upd)
  with assms show ?thesis
    by (auto simp: Op_close close_on_reply_def Let_def case_prod_beta purge_requests transition_same
        split: option.splits if_splits intro: descends_refl)
next
  case (Op_fail_reply i r)
  have "all_descend (lg_requests l) (update_first P fail_entry (lg_requests l))" for P
    by (rule all_descend_update_first) (rule descends_upd)
  with assms show ?thesis
    by (auto simp: Op_fail_reply fail_on_undeliverable_reply_def purge_requests
        split: option.splits if_splits intro: descends_refl)
next
  case (Op_attach i r w)
  have "all_descend (lg_requests l) (update_first P (\<lambda>r. r\<lparr>re_reservation_token := Some w\<rparr>) (lg_requests l))" for P
    by (rule all_descend_update_first) (rule descends_upd)
  with assms show ?thesis by (auto simp: Op_attach attach_reservation_liveness_def)
next
  case (Op_fail_from s)
  have "all_descend (lg_requests l) (map (\<lambda>r. if fails_from s r then fail_entry r else r) (lg_requests l))"
    by (rule all_descend_map) simp
  with assms show ?thesis
    by (auto simp: Op_fail_from fail_open_requests_from_def fail_from_loop_eq Let_def purge_requests split: if_splits)
next
  case (Op_due now)
  have "all_descend (lg_requests l) (map (\<lambda>r. if due now r then r\<lparr>re_notified := True\<rparr> else r) (lg_requests l))"
    by (rule all_descend_map) simp
  with assms show ?thesis
    by (auto simp: Op_due due_timeouts_def due_loop_eq Let_def purge_requests split: if_splits)
next
  case (Op_record m f fi t ti b st now n)
  with assms have "e' \<in> set (lg_requests l)" using record_same(3)[of l m f fi t ti b st now n] by auto
  then show ?thesis using descends_refl by blast
next
  case (Op_transition m r st now)
  with assms have "e' \<in> set (lg_requests l)" by (simp add: transition_same)
  then show ?thesis using descends_refl by blast
next
  case (Op_fail_pending m r c now)
  with assms have "e' \<in> set (lg_requests l)" by (simp add: fail_pending_same)
  then show ?thesis using descends_refl by blast
qed

section \<open>Properties\<close>

text \<open>C30. The contract table and the record ring stay within their limits: in every reachable ledger
  at most \<open>MAX_OPEN_REQUESTS\<close> slots are occupied, whatever the interleaving of openings that mark
  victims, commits, rollbacks, replies, clean-ups and reclaimed reservations, contract keys are
  unique, and the ring holds at most its capacity.\<close>

theorem open_slots_bounded:
  assumes "ledger_reachable l"
  shows "occupied_slots l \<le> MAX_OPEN_REQUESTS \<and> length (lg_history l) \<le> lg_capacity l \<and>
         distinct (map (\<lambda>r. (re_request_id r, re_recipient_id r)) (lg_requests l))"
  using ledger_sys.inv_reachable[OF assms] by (simp add: ledger_inv_def)

definition sample_ledger :: ledger where
  "sample_ledger = snd (commit_open (snd (open_request ledger_new (lit ''q-1'') (lit ''ann'') 1 (lit ''bob'') 2
     (Some (10, lit ''10s'')) 5)) (Some (lit ''q-1'', 2)) None)"

lemma sample_ledger_reachable: "ledger_reachable sample_ledger"
proof -
  let ?l0 = ledger_new
  let ?l1 = "ledger_do (Op_open (lit ''q-1'') (lit ''ann'') 1 (lit ''bob'') 2 (Some (10, lit ''10s'')) 5) ?l0"
  have "ledger_reachable ?l0"
    unfolding ledger_new_def by (rule reach_init) (rule ledger_init.intros)
  moreover have "ledger_step ?l0 ?l1" by (rule ledger_step.intros) (simp add: op_allowed_def)
  moreover have "ledger_step ?l1 (ledger_do (Op_commit (Some (lit ''q-1'', 2)) None) ?l1)"
    by (rule ledger_step.intros) (simp add: op_allowed_def)
  ultimately show ?thesis
    unfolding sample_ledger_def by (auto intro: reach_step)
qed

definition sample_entry :: request_entry where
  "sample_entry = confirm_entry (new_entry (lit ''q-1'') (lit ''ann'') 1 (lit ''bob'') 2 (Some (10, lit ''10s'')) 5 None)"

lemma sample_ledger_requests: "lg_requests sample_ledger = [sample_entry]"
  by (simp add: sample_ledger_def sample_entry_def ledger_new_def with_capacity_def open_request_def
      occupied_slots_def MAX_OPEN_REQUESTS_def commit_open_def new_entry_def)

theorem open_slots_bounded_witness: "occupied_slots sample_ledger \<le> 512 \<and> occupied_slots sample_ledger = 1"
  using open_slots_bounded[OF sample_ledger_reachable]
  by (simp add: MAX_OPEN_REQUESTS_def)
    (simp add: occupied_slots_def sample_ledger_requests sample_entry_def confirm_entry_def new_entry_def occupies_slot_def)

text \<open>C31. A deadline debt is never lost. While a confirmed open contract with a deadline has not been
  notified, every operation keeps it tracked and owed, except the three that settle it (a reply
  of its own recipient, the failure of such a reply, the deletion of its requester) and the
  deadline scan, which reports it in the same call that marks it notified. In particular a full
  table, a retired victim and the history ring never drop it.\<close>

theorem deadline_debt_kept:
  assumes "ledger_reachable l" "e \<in> set (lg_requests l)" "op_allowed op l"
    and "\<not> re_closed e" "\<not> re_notified e" "\<not> re_provisional e" "re_reply_by e \<noteq> None"
  shows "(\<exists>e'\<in>set (lg_requests (ledger_do op l)). re_key e' = re_key e \<and> owed e') \<or>
         (\<exists>now. op = Op_close (re_request_id e) (re_recipient_id e) now) \<or>
         op = Op_fail_reply (re_request_id e) (re_recipient_id e) \<or>
         op = Op_fail_from (re_sender_id e) \<or>
         (\<exists>now. op = Op_due now \<and> due_of e \<in> set (fst (due_timeouts l now)) \<and>
            e\<lparr>re_notified := True\<rparr> \<in> set (lg_requests (ledger_do op l)))"
proof -
  note inv = ledger_sys.inv_reachable[OF assms(1)]
  have ow: "owed e" using assms(4-7) by (simp add: owed_def)
  have kept: ?thesis if "e \<in> set (lg_requests (ledger_do op l))" using that ow by blast
  show ?thesis
  proof (cases op)
    case (Op_close i r now)
    then show ?thesis using kept owed_close[OF assms(2) ow] by (cases "(i, r) = re_key e") auto
  next
    case (Op_fail_reply i r)
    then show ?thesis using kept owed_fail_reply[OF assms(2) ow] by (cases "(i, r) = re_key e") auto
  next
    case (Op_fail_from s)
    then show ?thesis using kept owed_fail_from[OF assms(2) ow] by (cases "s = re_sender_id e") auto
  next
    case (Op_due now)
    then show ?thesis using kept owed_due[OF assms(2) ow, of now] by (cases "due now e") auto
  next
    case (Op_commit p rt)
    then show ?thesis using owed_commit[OF inv assms(2) ow] by auto
  next
    case (Op_open i s sid rc rid rb now)
    with owed_open[OF inv assms(2) ow] show ?thesis by (intro kept) simp
  next
    case (Op_rollback p rt)
    with owed_rollback[OF inv assms(2) ow] assms(3) show ?thesis by (intro kept) simp
  next
    case (Op_reclaim alive)
    with reclaim_inv(2)[OF inv assms(2) ow] show ?thesis by (intro kept) simp
  qed (use assms(2) ow in \<open>intro kept, simp add: transition_same fail_pending_same owed_record owed_attach\<close>)+
qed

theorem deadline_debt_kept_witness:
  "due_of sample_entry \<in> set (fst (due_timeouts sample_ledger 16))"
proof -
  have "sample_entry \<in> set (lg_requests sample_ledger)" by (simp add: sample_ledger_requests)
  from deadline_debt_kept[OF sample_ledger_reachable this, of "Op_due 16"]
  have "(\<exists>e'\<in>set (lg_requests (ledger_do (Op_due 16) sample_ledger)). re_key e' = re_key sample_entry \<and> owed e') \<or>
      due_of sample_entry \<in> set (fst (due_timeouts sample_ledger 16))"
    by (auto simp: op_allowed_def sample_entry_def confirm_entry_def new_entry_def)
  then show ?thesis
    by (auto simp: due_timeouts_def due_loop_eq sample_ledger_requests due_def sample_entry_def
        confirm_entry_def new_entry_def purge_requests owed_def Let_def)
qed

text \<open>Contract facts never revert: along every operation a contract that is still tracked is the
  same contract (same parties, deadline and opening time), stays closed once closed and notified
  once notified; so no deadline is reported twice and no answered contract reopens.\<close>

theorem contract_facts_monotone:
  assumes "ledger_reachable l" "e \<in> set (lg_requests l)" "e' \<in> set (lg_requests (ledger_do op l))"
    and "re_request_id e' = re_request_id e" "re_recipient_id e' = re_recipient_id e"
  shows "(re_closed e \<longrightarrow> re_closed e') \<and> (re_notified e \<longrightarrow> re_notified e') \<and>
         re_sender_id e' = re_sender_id e \<and> re_reply_by e' = re_reply_by e \<and> re_created_at e' = re_created_at e"
proof -
  have inj: "inj_on re_key (set (lg_requests l))"
    using ledger_sys.inv_reachable[OF assms(1)] by (simp add: ledger_inv_def distinct_map)
  have "re_key e' \<in> re_key ` set (lg_requests l)"
    using assms(2,4,5) by (auto intro!: image_eqI[of _ _ e])
  with contract_origin[OF assms(3)] obtain e0 where e0: "e0 \<in> set (lg_requests l)" "descends e0 e'" by blast
  then have "e0 = e" using inj assms(2,4,5) by (auto simp: descends_def dest: inj_onD)
  with e0 show ?thesis by (simp add: descends_def)
qed

theorem contract_facts_monotone_witness:
  "re_notified (sample_entry\<lparr>re_notified := True\<rparr>) \<and> re_created_at (sample_entry\<lparr>re_notified := True\<rparr>) = 5"
proof -
  have "sample_entry\<lparr>re_notified := True\<rparr> \<in> set (lg_requests (ledger_do (Op_due 16) sample_ledger))"
    by (simp add: due_timeouts_def due_loop_eq sample_ledger_requests due_def sample_entry_def
        confirm_entry_def new_entry_def purge_requests Let_def)
  with contract_facts_monotone[OF sample_ledger_reachable _ this, of sample_entry] show ?thesis
    by (simp add: sample_ledger_requests sample_entry_def confirm_entry_def new_entry_def)
qed

text \<open>The deadline scan reports exactly the confirmed open contracts whose deadline has strictly
  passed and that were not reported before, in table order; the next scan, at any time, reports
  none of them again.\<close>

theorem due_timeouts_exact:
  assumes "ledger_reachable l"
  shows "fst (due_timeouts l now) =
           map due_of (filter (\<lambda>r. \<not> re_closed r \<and> \<not> re_notified r \<and> \<not> re_provisional r \<and>
             (\<exists>d raw. re_reply_by r = Some (d, raw) \<and> now > re_created_at r + d)) (lg_requests l)) \<and>
         (\<forall>now'. (\<lambda>d. (dt_request_id d, dt_recipient_id d)) ` set (fst (due_timeouts l now)) \<inter>
                 (\<lambda>d. (dt_request_id d, dt_recipient_id d)) ` set (fst (due_timeouts (snd (due_timeouts l now)) now')) = {})"
proof
  have "due now = (\<lambda>r. \<not> re_closed r \<and> \<not> re_notified r \<and> \<not> re_provisional r \<and>
             (\<exists>d raw. re_reply_by r = Some (d, raw) \<and> now > re_created_at r + d))"
    by (auto simp: due_def fun_eq_iff split: option.splits)
  then show "fst (due_timeouts l now) =
           map due_of (filter (\<lambda>r. \<not> re_closed r \<and> \<not> re_notified r \<and> \<not> re_provisional r \<and>
             (\<exists>d raw. re_reply_by r = Some (d, raw) \<and> now > re_created_at r + d)) (lg_requests l))"
    by (simp add: due_fst)
  have inj: "inj_on re_key (set (lg_requests l))"
    using ledger_sys.inv_reachable[OF assms] by (simp add: ledger_inv_def distinct_map)
  have once: False if e: "e \<in> set (lg_requests l)" "due now e"
    and x: "x \<in> set (lg_requests (snd (due_timeouts l now)))" "due now' x" "re_key x = re_key e" for e x now'
  proof -
    obtain y where y: "y \<in> set (lg_requests l)" "x = (if due now y then y\<lparr>re_notified := True\<rparr> else y)"
      using x(1) by (auto simp: due_timeouts_def due_loop_eq Let_def purge_requests split: if_splits)
    then have "y = e" using inj e(1) x(3) by (auto dest: inj_onD split: if_splits)
    with y(2) e(2) x(2) show False by (simp add: due_def)
  qed
  show "\<forall>now'. (\<lambda>d. (dt_request_id d, dt_recipient_id d)) ` set (fst (due_timeouts l now)) \<inter>
                 (\<lambda>d. (dt_request_id d, dt_recipient_id d)) ` set (fst (due_timeouts (snd (due_timeouts l now)) now')) = {}"
  proof (intro allI equals0I)
    fix now' k
    assume "k \<in> (\<lambda>d. (dt_request_id d, dt_recipient_id d)) ` set (fst (due_timeouts l now)) \<inter>
                 (\<lambda>d. (dt_request_id d, dt_recipient_id d)) ` set (fst (due_timeouts (snd (due_timeouts l now)) now'))"
    then obtain e x where "e \<in> set (lg_requests l)" "due now e" "k = re_key e"
        "x \<in> set (lg_requests (snd (due_timeouts l now)))" "due now' x" "k = re_key x"
      unfolding due_fst by (auto simp: due_of_def)
    with once show False by metis
  qed
qed

theorem due_timeouts_exact_witness:
  "map dt_reply_by_raw (fst (due_timeouts sample_ledger 16)) = [lit ''10s''] \<and> fst (due_timeouts sample_ledger 15) = []"
  using due_timeouts_exact[OF sample_ledger_reachable, of 16] due_timeouts_exact[OF sample_ledger_reachable, of 15]
  by (simp add: sample_ledger_requests sample_entry_def confirm_entry_def new_entry_def due_of_def)

subsection \<open>Undoing a reservation\<close>

lemma open_shape:
  assumes "ledger_inv l" "open_request l i s sid rc rid rb now = (OpenedAfterMarking rt, l1)"
  shows "\<exists>a v b. lg_requests l = a @ v # b \<and> retirable v \<and> re_key v = (rt_request_id rt, rt_recipient_id rt) \<and>
     l1 = l\<lparr>lg_requests := (a @ v\<lparr>re_pending_retirement := True\<rparr> # b) @ [new_entry i s sid rc rid rb now (Some (re_key v))]\<rparr> \<and>
     (\<forall>r\<in>set (lg_requests l). re_key r \<noteq> (i, rid)) \<and> (\<forall>r\<in>set (a @ b). re_key r \<noteq> re_key v)"
proof -
  obtain k where k: "victim_index (lg_requests l) = Some k" and nodup: "\<forall>r\<in>set (lg_requests l). re_key r \<noteq> (i, rid)"
    and rt: "re_key (lg_requests l ! k) = (rt_request_id rt, rt_recipient_id rt)"
    and l1: "l1 = l\<lparr>lg_requests := (lg_requests l)[k := (lg_requests l ! k)\<lparr>re_pending_retirement := True\<rparr>] @
        [new_entry i s sid rc rid rb now (Some (re_key (lg_requests l ! k)))]\<rparr>"
    using assms(2) by (auto simp: open_request_def Let_def list_ex_iff split: if_splits option.splits)
  note v = victim_index_SomeD(1,2)[OF k]
  have split: "lg_requests l = take k (lg_requests l) @ lg_requests l ! k # drop (Suc k) (lg_requests l)"
    using v(1) by (rule id_take_nth_drop)
  have "distinct (map re_key (lg_requests l))" using assms(1) by (simp add: ledger_inv_def)
  then have "distinct (map re_key (take k (lg_requests l) @ lg_requests l ! k # drop (Suc k) (lg_requests l)))"
    unfolding split[symmetric] .
  then have "\<forall>r\<in>set (take k (lg_requests l) @ drop (Suc k) (lg_requests l)). re_key r \<noteq> re_key (lg_requests l ! k)"
    by (rule distinct_key_split)
  moreover have "l1 = l\<lparr>lg_requests := (take k (lg_requests l) @ (lg_requests l ! k)\<lparr>re_pending_retirement := True\<rparr> #
      drop (Suc k) (lg_requests l)) @ [new_entry i s sid rc rid rb now (Some (re_key (lg_requests l ! k)))]\<rparr>"
    using l1 v(1) by (simp add: upd_conv_take_nth_drop)
  ultimately show ?thesis
    using split v(2) rt nodup
    by (intro exI[of _ "take k (lg_requests l)"] exI[of _ "lg_requests l ! k"] exI[of _ "drop (Suc k) (lg_requests l)"]) simp
qed

lemma remove_first_append_last: "\<forall>x\<in>set xs. \<not> P x \<Longrightarrow> P y \<Longrightarrow> remove_first P (xs @ [y]) = xs"
  by (induction xs) auto

lemma update_first_middle: "\<forall>x\<in>set a. \<not> P x \<Longrightarrow> P y \<Longrightarrow> update_first P f (a @ y # b) = a @ f y # b"
  by (induction a) auto

text \<open>A reservation can be undone without a trace: opening a contract (marking a victim when the
  table is full) and rolling it back restores the table exactly, and committing it instead
  confirms the contract and removes exactly the victim, with the slot count back at its limit.\<close>

theorem reservation_undone:
  assumes "ledger_reachable l"
    and "open_request l i s sid rc rid rb now = (OpenedAfterMarking rt, l1)"
  shows "snd (rollback_open l1 (Some (i, rid)) (Some (rt_request_id rt, rt_recipient_id rt))) = l \<and>
         (\<exists>a v b. lg_requests l = a @ v # b \<and> re_key v = (rt_request_id rt, rt_recipient_id rt) \<and>
           (re_notified v \<or> re_reply_by v = None) \<and>
           set (lg_requests (snd (commit_open l1 (Some (i, rid)) (Some (rt_request_id rt, rt_recipient_id rt))))) \<subseteq>
             set (a @ b) \<union> {confirm_entry (new_entry i s sid rc rid rb now (Some (re_key v)))} \<and>
           occupied_slots (snd (commit_open l1 (Some (i, rid)) (Some (rt_request_id rt, rt_recipient_id rt)))) = occupied_slots l)"
proof -
  obtain a v b where sh: "lg_requests l = a @ v # b" "retirable v" "re_key v = (rt_request_id rt, rt_recipient_id rt)"
      "l1 = l\<lparr>lg_requests := (a @ v\<lparr>re_pending_retirement := True\<rparr> # b) @ [new_entry i s sid rc rid rb now (Some (re_key v))]\<rparr>"
      "\<forall>r\<in>set (lg_requests l). re_key r \<noteq> (i, rid)" "\<forall>r\<in>set (a @ b). re_key r \<noteq> re_key v"
    using open_shape[OF ledger_sys.inv_reachable[OF assms(1)] assms(2)] by blast
  let ?n = "new_entry i s sid rc rid rb now (Some (re_key v))" and ?v = "v\<lparr>re_pending_retirement := True\<rparr>"
  have new: "\<forall>r\<in>set (a @ v # b). re_key r \<noteq> (i, rid)" using sh(1,5) by simp
  have vp: "v\<lparr>re_pending_retirement := False\<rparr> = v" using sh(2) by (simp add: retirable_def occupies_slot_def)
  have nk: "re_key ?n = (i, rid)" by (simp add: new_entry_def)
  have "snd (rollback_open l1 (Some (i, rid)) (Some (re_key v))) =
      snd (drop_request (l\<lparr>lg_requests := (a @ v # b) @ [?n]\<rparr>) i rid)"
  proof -
    have "update_first (\<lambda>r. re_key r = re_key v \<and> re_pending_retirement r) (\<lambda>e. e\<lparr>re_pending_retirement := False\<rparr>)
        (a @ ?v # (b @ [?n])) = a @ v # (b @ [?n])"
      using sh(6) vp by (subst update_first_middle) auto
    then have "update_first (\<lambda>r. re_key r = re_key v \<and> re_pending_retirement r) (\<lambda>e. e\<lparr>re_pending_retirement := False\<rparr>)
        (lg_requests l1) = (a @ v # b) @ [?n]"
      by (simp add: sh(4))
    moreover have "l1\<lparr>lg_requests := X\<rparr> = l\<lparr>lg_requests := X\<rparr>" for X by (simp add: sh(4))
    ultimately show ?thesis
      unfolding rollback_open_def Let_def option.case case_prod_beta by (simp only:) simp
  qed
  also have "\<dots> = l"
  proof -
    have "find (\<lambda>r. re_key r = (i, rid)) ((a @ v # b) @ [?n]) \<noteq> None"
      using nk by (auto simp: find_None_iff)
    moreover have "remove_first (\<lambda>r. re_key r = (i, rid)) ((a @ v # b) @ [?n]) = a @ v # b"
      using new nk by (intro remove_first_append_last) auto
    ultimately show ?thesis using sh(1) by (auto simp: drop_request_def split: option.splits)
  qed
  finally have rb: "snd (rollback_open l1 (Some (i, rid)) (Some (rt_request_id rt, rt_recipient_id rt))) = l"
    using sh(3) by simp
  define kept where "kept = filter (\<lambda>r. \<not> (re_key r = re_key v \<and> re_pending_retirement r)) ((a @ ?v # b) @ [confirm_entry ?n])"
  have kept: "kept = (a @ b) @ [confirm_entry ?n]"
  proof -
    have "filter (\<lambda>r. \<not> (re_key r = re_key v \<and> re_pending_retirement r)) xs = xs" if "set xs \<subseteq> set (a @ b)" for xs
      using that sh(6) by (intro filter_True) blast
    from this[of a] this[of b] show ?thesis
      unfolding kept_def filter_append filter.simps by (simp add: confirm_entry_def new_entry_def)
  qed
  have "update_first (\<lambda>r. re_key r = (i, rid)) confirm_entry ((a @ ?v # b) @ [?n]) = (a @ ?v # b) @ [confirm_entry ?n]"
    using update_first_middle[where P = "\<lambda>r. re_key r = (i, rid)" and a = "a @ ?v # b" and y = ?n and b = "[]" and f = confirm_entry] new nk
    by simp
  then have cm: "snd (commit_open l1 (Some (i, rid)) (Some (re_key v))) =
      purge_finished_without_history (l\<lparr>lg_requests := kept\<rparr>)"
    unfolding sh(4) commit_open_def kept_def by (simp add: Let_def)
  have "occupied_slots (l\<lparr>lg_requests := kept\<rparr>) = occupied_slots l"
    using sh(2) by (auto simp: kept occupied_slots_def sh(1) retirable_def confirm_entry_def new_entry_def occupies_slot_def)
  with rb cm sh(1,2,3) show ?thesis
    by (intro conjI exI[of _ a] exI[of _ v] exI[of _ b]) (auto simp: kept purge_requests retirable_def)
qed

definition filled_entry :: "nat \<Rightarrow> request_entry" where
  "filled_entry k = confirm_entry (new_entry [k] (lit ''ann'') 1 (lit ''bob'') 2 None 5 None)"

lemma filled_reachable:
  "n \<le> MAX_OPEN_REQUESTS \<Longrightarrow> ledger_reachable (ledger_new\<lparr>lg_requests := map filled_entry [0..<n]\<rparr>)"
proof (induction n)
  case 0
  have "ledger_reachable ledger_new"
    unfolding ledger_new_def by (rule reach_init) (rule ledger_init.intros)
  then show ?case by (simp add: ledger_new_def with_capacity_def)
next
  case (Suc n)
  let ?l = "ledger_new\<lparr>lg_requests := map filled_entry [0..<n]\<rparr>"
  let ?new = "new_entry [n] (lit ''ann'') 1 (lit ''bob'') 2 None 5 None"
  let ?l1 = "ledger_do (Op_open [n] (lit ''ann'') 1 (lit ''bob'') 2 None 5) ?l"
  let ?l2 = "ledger_do (Op_commit (Some ([n], 2)) None) ?l1"
  have "occupied_slots ?l < MAX_OPEN_REQUESTS"
    using Suc.prems length_filter_le[of occupies_slot "map filled_entry [0..<n]"]
    by (simp add: occupied_slots_def)
  moreover have other: "\<forall>r\<in>set (map filled_entry [0..<n]). re_key r \<noteq> ([n], 2)"
    by (auto simp: filled_entry_def confirm_entry_def new_entry_def)
  ultimately have l1: "?l1 = ?l\<lparr>lg_requests := map filled_entry [0..<n] @ [?new]\<rparr>"
    by (auto simp: open_request_def list_ex_iff)
  have "update_first (\<lambda>r. re_key r = ([n], 2)) confirm_entry (map filled_entry [0..<n] @ ?new # []) =
      map filled_entry [0..<n] @ confirm_entry ?new # []"
    using other by (intro update_first_middle) (auto simp: new_entry_def)
  then have "?l2 = ledger_new\<lparr>lg_requests := map filled_entry [0..<Suc n]\<rparr>"
    using l1 by (simp add: commit_open_def filled_entry_def)
  moreover have "ledger_step ?l ?l1" "ledger_step ?l1 ?l2"
    by (rule ledger_step.intros, simp add: op_allowed_def)+
  then have "ledger_reachable ?l2" using Suc by (auto intro: reach_step simp del: ledger_do.simps)
  ultimately show ?case by simp
qed

theorem reservation_undone_witness:
  "\<exists>l rt l1. ledger_reachable l \<and>
     open_request l (lit ''q-9'') (lit ''ann'') 1 (lit ''bob'') 2 None 6 = (OpenedAfterMarking rt, l1) \<and> l1 \<noteq> l \<and>
     snd (rollback_open l1 (Some (lit ''q-9'', 2)) (Some (rt_request_id rt, rt_recipient_id rt))) = l"
proof -
  let ?rs = "map filled_entry [0..<MAX_OPEN_REQUESTS]"
  let ?l = "ledger_new\<lparr>lg_requests := ?rs\<rparr>"
  have ok: "retirable (filled_entry k)" "occupies_slot (filled_entry k)" "re_key (filled_entry k) \<noteq> (lit ''q-9'', 2)" for k
    by (auto simp: filled_entry_def confirm_entry_def new_entry_def retirable_def occupies_slot_def lit_def)
  have "victim_index ?rs \<noteq> None"
    using ok(1)[of 0] by (auto simp: victim_index_None MAX_OPEN_REQUESTS_def intro!: bexI[of _ 0])
  moreover have "filter occupies_slot ?rs = ?rs" using ok(2) by (auto simp: filter_id_conv)
  then have "occupied_slots ?l = MAX_OPEN_REQUESTS" by (simp add: occupied_slots_def)
  moreover have "\<not> list_ex (\<lambda>r. re_request_id r = lit ''q-9'' \<and> re_recipient_id r = 2) ?rs"
    using ok(3) by (auto simp: list_ex_iff)
  ultimately obtain rt l1 where op: "open_request ?l (lit ''q-9'') (lit ''ann'') 1 (lit ''bob'') 2 None 6 = (OpenedAfterMarking rt, l1)"
      and "length (lg_requests l1) = Suc (length ?rs)"
    by (auto simp: open_request_def Let_def)
  moreover from this have "l1 \<noteq> ?l" by auto
  moreover note fr = filled_reachable[OF order_refl]
  moreover have "snd (rollback_open l1 (Some (lit ''q-9'', 2)) (Some (rt_request_id rt, rt_recipient_id rt))) = ?l"
    using reservation_undone[OF fr op] by blast
  ultimately show ?thesis by blast
qed

subsection \<open>Status edges\<close>

definition status_edge :: "delivery_status \<Rightarrow> delivery_status \<Rightarrow> bool" where
  "status_edge a b \<longleftrightarrow> (a, b) \<in> {(Pending, Delivered), (Pending, Expired), (Pending, Skipped), (Pending, Failed),
     (Delivered, Skipped), (Delivered, Replied)}"

definition evolves :: "message_record \<Rightarrow> message_record \<Rightarrow> bool" where
  "evolves r r' \<longleftrightarrow> r' = r \<or> (status_edge (mr_status r) (mr_status r') \<and> mr_msg_id r' = mr_msg_id r \<and>
     mr_from_id r' = mr_from_id r \<and> mr_to_id r' = mr_to_id r \<and> mr_body r' = mr_body r \<and> mr_created_at r' = mr_created_at r)"

lemma can_transition_edge: "can_transition_to a b \<Longrightarrow> status_edge a b"
  by (cases a; cases b) (simp_all add: status_edge_def)

lemma transition_evolves: "list_all2 evolves (lg_history l) (lg_history (snd (transition l m r st now)))"
  by (auto simp: transition_def Let_def evolves_def can_transition_edge list.rel_refl split: option.splits
      intro!: list_all2_update_found)

lemma fail_pending_evolves: "list_all2 evolves (lg_history l) (lg_history (snd (fail_pending l m r c now)))"
  by (auto simp: fail_pending_def Let_def evolves_def can_fail_by_cleanup_def status_edge_def list.rel_refl
      split: option.splits intro!: list_all2_update_found)

lemma reclaim_loop_history: "lg_history (snd (reclaim_loop items l acc)) = lg_history l"
  by (induction items l acc rule: reclaim_loop.induct)
    (auto simp: Let_def drop_request_requests split: option.splits)

lemma other_ops_history:
  "lg_history (snd (open_request l i s sid rc rid rb now)) = lg_history l"
  "lg_history (attach_reservation_liveness l i r w) = lg_history l"
  "lg_history (snd (commit_open l p rt)) = lg_history l"
  "lg_history (snd (rollback_open l p rt)) = lg_history l"
  "lg_history (snd (fail_on_undeliverable_reply l i r)) = lg_history l"
  "lg_history (snd (fail_open_requests_from l sid)) = lg_history l"
  "lg_history (snd (reclaim_abandoned_reservations alive l)) = lg_history l"
  "lg_history (snd (due_timeouts l now)) = lg_history l"
  by (auto simp: open_request_def attach_reservation_liveness_def commit_open_def rollback_open_def
      fail_on_undeliverable_reply_def fail_open_requests_from_def reclaim_abandoned_reservations_def
      due_timeouts_def Let_def case_prod_beta drop_request_requests reclaim_loop_history split: option.splits)

text \<open>A delivery record only moves along the status graph, whatever operation runs: every record
  of the ring afterwards is the record of before in place, unchanged or moved along one edge with
  its identity, body and opening time kept, except that a recording appends one record and may
  push the oldest ones out. Replied, expired, skipped and failed records have no edge out.\<close>

theorem record_status_edges:
  "\<exists>moved new k. list_all2 evolves (lg_history l) moved \<and> length new \<le> 1 \<and>
     lg_history (ledger_do op l) = drop k (moved @ new) \<and> (k = 0 \<or> length new = 1)"
proof (cases "\<exists>m f fi t ti b st now n. op = Op_record m f fi t ti b st now n")
  case True
  then obtain r k where "lg_history (ledger_do op l) = drop k (lg_history l @ [r])"
    by (auto simp: record_history Let_def simp del: drop_append)
  moreover have "list_all2 evolves (lg_history l) (lg_history l)" by (simp add: evolves_def list.rel_refl)
  ultimately show ?thesis
    by (intro exI[of _ "lg_history l"] exI[of _ "[r]"] exI[of _ k]) simp
next
  case False
  have refl: "list_all2 evolves h h" for h by (simp add: evolves_def list.rel_refl)
  have close: "list_all2 evolves (lg_history l) (lg_history (snd (close_on_reply l i r now)))" for i r now
    using transition_evolves[of "l\<lparr>lg_requests := x\<rparr>" for x] refl
    by (auto simp: close_on_reply_def Let_def case_prod_beta split: option.splits)
  have "list_all2 evolves (lg_history l) (lg_history (ledger_do op l))"
    using False refl close by (cases op) (auto simp: transition_evolves fail_pending_evolves other_ops_history)
  then show ?thesis
    by (intro exI[of _ "lg_history (ledger_do op l)"] exI[of _ "[]"] exI[of _ 0]) simp
qed

lemma terminal_records_stay: "mr_status r \<in> {Replied, Expired, Skipped, Failed} \<Longrightarrow> evolves r r' \<Longrightarrow> r' = r"
  by (auto simp: evolves_def status_edge_def)

text \<open>A reply settles exactly the contract of its sender: with an open contract for that request
  id and replier the outcome is a closing one and afterwards no open contract with that key is
  left, while every other open contract is kept unchanged; otherwise the ledger does not change
  at all and the outcome tells whether the contract was already closed.\<close>

theorem reply_closes_own_contract:
  assumes "ledger_reachable l"
  shows "if \<exists>e\<in>set (lg_requests l). re_request_id e = i \<and> re_recipient_id e = r \<and> \<not> re_closed e
         then (fst (close_on_reply l i r now) = Closed \<or> (\<exists>st. fst (close_on_reply l i r now) = ClosedHistoryAnomaly st)) \<and>
              filter (\<lambda>e. \<not> re_closed e) (lg_requests (snd (close_on_reply l i r now))) =
                filter (\<lambda>e. \<not> re_closed e \<and> \<not> (re_request_id e = i \<and> re_recipient_id e = r)) (lg_requests l)
         else snd (close_on_reply l i r now) = l \<and>
              fst (close_on_reply l i r now) = (if is_request_closed l i r then ReplyAlreadyClosed else ReplyNoMatch)"
proof -
  let ?hit = "\<lambda>e. re_request_id e = i \<and> re_recipient_id e = r"
  let ?up = "update_first ?hit (\<lambda>e. e\<lparr>re_closed := True\<rparr>) (lg_requests l)"
  have dist: "distinct (map re_key (lg_requests l))"
    using ledger_sys.inv_reachable[OF assms] by (simp add: ledger_inv_def)
  have uniq: "match_contract_for_replier l i r = Some e" if "e \<in> set (lg_requests l)" "?hit e" for e
    using find_distinct_key[OF dist that(1)] that(2) by (simp add: match_contract_for_replier_def)
  have filt: "filter (\<lambda>e. \<not> re_closed e) (update_first ?hit (\<lambda>e. e\<lparr>re_closed := True\<rparr>) xs) =
      filter (\<lambda>e. \<not> re_closed e \<and> \<not> ?hit e) xs" if "distinct (map re_key xs)" for xs
    using that
  proof (induction xs)
    case (Cons x xs)
    have "filter (\<lambda>e. \<not> re_closed e \<and> \<not> ?hit e) xs = filter (\<lambda>e. \<not> re_closed e) xs" if "?hit x"
      using that Cons.prems by (intro filter_cong) (auto simp: image_iff)
    then show ?case using Cons by auto
  qed simp
  show ?thesis
  proof (cases "\<exists>e\<in>set (lg_requests l). ?hit e \<and> \<not> re_closed e")
    case True
    then obtain e where e: "e \<in> set (lg_requests l)" "?hit e" "\<not> re_closed e" by blast
    let ?t = "transition (l\<lparr>lg_requests := ?up\<rparr>) i r Replied now"
    have eq: "close_on_reply l i r now = ((case fst ?t of Inr _ \<Rightarrow> Closed | Inl NotFound \<Rightarrow> Closed
        | Inl (Illegal from _) \<Rightarrow> ClosedHistoryAnomaly from), purge_finished_without_history (snd ?t))"
      using uniq[OF e(1,2)] e by (simp add: close_on_reply_def Let_def case_prod_beta)
    have "filter (\<lambda>e. \<not> re_closed e) (lg_requests (purge_finished_without_history (snd ?t))) =
        filter (\<lambda>e. \<not> re_closed e) ?up"
      unfolding purge_requests filter_filter transition_same(1) by (intro filter_cong) auto
    moreover have "fst (close_on_reply l i r now) = Closed \<or> (\<exists>st. fst (close_on_reply l i r now) = ClosedHistoryAnomaly st)"
      unfolding eq by (auto split: sum.splits transition_error.splits)
    ultimately show ?thesis using True filt[OF dist] by (simp add: eq)
  next
    case False
    show ?thesis
    proof (cases "\<exists>e\<in>set (lg_requests l). ?hit e")
      case True
      then obtain e where e: "e \<in> set (lg_requests l)" "?hit e" by blast
      with False have "re_closed e" by blast
      moreover from this have "is_request_closed l i r" using e by (auto simp: is_request_closed_def list_ex_iff)
      ultimately show ?thesis using False uniq[OF e] by (simp add: close_on_reply_def)
    next
      case no: False
      then have "match_contract_for_replier l i r = None" by (auto simp: match_contract_for_replier_def find_None_iff)
      with no show ?thesis by (auto simp: close_on_reply_def is_request_closed_def list_ex_iff)
    qed
  qed
qed

theorem reply_closes_own_contract_witness:
  "fst (close_on_reply sample_ledger (lit ''q-1'') 3 9) = ReplyNoMatch \<and>
   filter (\<lambda>e. \<not> re_closed e) (lg_requests (snd (close_on_reply sample_ledger (lit ''q-1'') 2 9))) = []"
  using reply_closes_own_contract[OF sample_ledger_reachable, of "lit ''q-1''" 3 9]
    reply_closes_own_contract[OF sample_ledger_reachable, of "lit ''q-1''" 2 9]
  by (simp add: sample_ledger_requests sample_entry_def confirm_entry_def new_entry_def is_request_closed_def)

end
