(* ===== verification/Group_Source.thy ===== *)
theory Group_Source
  imports Eg_Prelude
begin

text \<open>
  Resolution of \<^verbatim>\<open>@\<close> addresses, \<^verbatim>\<open>crates/engram-dashboard-messaging/src/groups.rs\<close>. The trait
  \<^verbatim>\<open>GroupSource\<close> is the locale \<open>group_source\<close>, whose assumptions are the axes of the contract suite
  the repository keeps beside the trait; \<open>builtin_resolve\<close> is the one implementation.
\<close>

section \<open>Names\<close>

definition ALL_GROUP :: ustr where
  "ALL_GROUP = lit ''@all''"

definition HERE_GROUP :: ustr where
  "HERE_GROUP = lit ''@here''"

record group_member =
  gm_id :: peer_id
  gm_name :: ustr

record member_pools =
  mp_live :: "group_member list"
  mp_dormant :: "group_member list"

datatype group_error = InvalidName ustr | GroupNotFound ustr

abbreviation (input) at_sign :: uchar where
  "at_sign \<equiv> 64"

definition normalize_group_name :: "ustr \<Rightarrow> group_error + ustr" where
  "normalize_group_name name = (
     case str_trim name of
       [] \<Rightarrow> Inl (InvalidName name)
     | c # body \<Rightarrow>
         if c \<noteq> at_sign then Inl (InvalidName name)
         else if body = [] \<or> list_all is_whitespace body \<or> at_sign \<in> set body then Inl (InvalidName name)
         else Inr (at_sign # body))"

definition builtin_resolve :: "ustr \<Rightarrow> member_pools \<Rightarrow> group_error + group_member list" where
  "builtin_resolve name pools = (
     case normalize_group_name name of
       Inl e \<Rightarrow> Inl e
     | Inr norm \<Rightarrow>
         if norm = HERE_GROUP then Inr (mp_live pools)
         else if norm = ALL_GROUP then Inr (mp_live pools @ mp_dormant pools)
         else Inl (GroupNotFound norm))"

section \<open>Laws\<close>

lemma dropWhile_last_not: "dropWhile P xs \<noteq> [] \<Longrightarrow> \<not> P (hd (dropWhile P xs))"
  by (rule hd_dropWhile)

lemma dropWhile_rev_snoc: "\<not> P c \<Longrightarrow> dropWhile P (xs @ [c]) \<noteq> []"
  by (induction xs) auto

lemma str_trim_idem [simp]: "str_trim (str_trim s) = str_trim s"
proof -
  let ?d = "dropWhile is_whitespace"
  define a where "a = ?d s"
  define b where "b = rev (?d (rev a))"
  have "?d b = b"
  proof (cases b)
    case (Cons c cs)
    have "prefix b a"
    proof -
      have "suffix (?d (rev a)) (rev a)" by (rule suffix_dropWhile)
      then show ?thesis by (simp add: b_def suffix_to_prefix)
    qed
    with Cons obtain t where "a = c # t" by (auto simp: prefix_def)
    moreover have "a \<noteq> [] \<Longrightarrow> \<not> is_whitespace (hd a)" unfolding a_def by (rule hd_dropWhile)
    ultimately show ?thesis using Cons by simp
  qed simp
  moreover have "?d (rev b) = rev b"
    unfolding b_def by simp
  ultimately show ?thesis by (simp add: str_trim_def a_def b_def)
qed

lemma normalize_shape:
  assumes "normalize_group_name name = Inr g"
  shows "g = str_trim name \<and> (\<exists>body. g = at_sign # body \<and> body \<noteq> [] \<and> at_sign \<notin> set body \<and> \<not> list_all is_whitespace body)"
proof (cases "str_trim name")
  case (Cons c body)
  with assms show ?thesis
    by (intro conjI exI[of _ body]) (auto simp: normalize_group_name_def split: if_splits)
qed (use assms in \<open>simp add: normalize_group_name_def\<close>)

lemma normalize_idem: "normalize_group_name name = Inr g \<Longrightarrow> normalize_group_name g = Inr g"
  by (frule normalize_shape) (auto simp: normalize_group_name_def)

lemma normalize_error: "normalize_group_name name = Inl e \<Longrightarrow> e = InvalidName name"
  by (auto simp: normalize_group_name_def split: list.splits if_splits)

section \<open>The source contract\<close>

locale group_source =
  fixes resolve :: "ustr \<Rightarrow> member_pools \<Rightarrow> group_error + group_member list"
    and known :: "ustr \<Rightarrow> bool"
  assumes all_verbatim: "known ALL_GROUP \<Longrightarrow> resolve ALL_GROUP p = Inr (mp_live p @ mp_dormant p)"
    and here_live_only: "known HERE_GROUP \<Longrightarrow> resolve HERE_GROUP p = Inr (mp_live p)"
    and unknown_not_found: "normalize_group_name g = Inr n \<Longrightarrow> \<not> known n \<Longrightarrow> resolve g p = Inl (GroupNotFound n)"
    and namespace_strict: "normalize_group_name g = Inl e \<Longrightarrow> resolve g p = Inl e"
    and normalized_first: "normalize_group_name g = Inr n \<Longrightarrow> resolve g p = resolve n p"
begin

lemma vocab_split:
  "known ALL_GROUP \<Longrightarrow> known HERE_GROUP \<Longrightarrow> mp_dormant p \<noteq> [] \<Longrightarrow> resolve ALL_GROUP p \<noteq> resolve HERE_GROUP p"
  by (simp add: all_verbatim here_live_only)

lemma empty_pools_are_not_errors:
  "known ALL_GROUP \<Longrightarrow> resolve ALL_GROUP \<lparr>mp_live = [], mp_dormant = []\<rparr> = Inr []"
  "known HERE_GROUP \<Longrightarrow> resolve HERE_GROUP \<lparr>mp_live = [], mp_dormant = []\<rparr> = Inr []"
  by (simp_all add: all_verbatim here_live_only)

lemma error_names:
  "resolve g p = Inl e \<Longrightarrow> \<not> known (projr (normalize_group_name g)) \<or> isl (normalize_group_name g) \<Longrightarrow>
     e = InvalidName g \<or> (\<exists>n. normalize_group_name g = Inr n \<and> e = GroupNotFound n)"
  by (cases "normalize_group_name g") (auto simp: namespace_strict unknown_not_found dest: normalize_error)

end

interpretation builtin: group_source builtin_resolve "\<lambda>n. n = ALL_GROUP \<or> n = HERE_GROUP"
proof unfold_locales
  have words: "normalize_group_name ALL_GROUP = Inr ALL_GROUP" "normalize_group_name HERE_GROUP = Inr HERE_GROUP"
    by (simp_all add: ALL_GROUP_def HERE_GROUP_def normalize_group_name_def str_trim_def is_whitespace_def lit_def)
  have neq: "ALL_GROUP \<noteq> HERE_GROUP" by (simp add: ALL_GROUP_def HERE_GROUP_def)
  show "builtin_resolve ALL_GROUP p = Inr (mp_live p @ mp_dormant p)" for p
    using words neq by (simp add: builtin_resolve_def)
  show "builtin_resolve HERE_GROUP p = Inr (mp_live p)" for p
    using words by (simp add: builtin_resolve_def)
qed (auto simp: builtin_resolve_def dest: normalize_idem)

section \<open>Properties\<close>

text \<open>The built-in source meets its contract: the two words expand to their own pools verbatim and
  differ as soon as somebody sleeps, an unknown well-formed address is reported under its
  normalized name, a malformed one under the name as given, and normalization is a projection
  onto names with exactly one leading at-sign and a non-blank body.\<close>

theorem builtin_groups_contract:
  "builtin_resolve ALL_GROUP p = Inr (mp_live p @ mp_dormant p) \<and>
   builtin_resolve HERE_GROUP p = Inr (mp_live p) \<and>
   (case normalize_group_name g of
      Inl e \<Rightarrow> e = InvalidName g \<and> builtin_resolve g p = Inl (InvalidName g)
    | Inr n \<Rightarrow> normalize_group_name n = Inr n \<and> n = str_trim g \<and> hd n = at_sign \<and> count_list n at_sign = 1 \<and>
        builtin_resolve g p = (if n = HERE_GROUP then Inr (mp_live p)
          else if n = ALL_GROUP then Inr (mp_live p @ mp_dormant p) else Inl (GroupNotFound n)))"
proof (cases "normalize_group_name g")
  case (Inl e)
  then show ?thesis
    using builtin.all_verbatim builtin.here_live_only builtin.namespace_strict[OF Inl] normalize_error[OF Inl] by simp
next
  case (Inr n)
  obtain body where "n = at_sign # body" "at_sign \<notin> set body" "n = str_trim g"
    using normalize_shape[OF Inr] by blast
  then show ?thesis
    using builtin.all_verbatim builtin.here_live_only normalize_idem[OF Inr] Inr
    by (simp add: builtin_resolve_def count_list_0_iff)
qed

end
