(* ===== verification/Envelope.thy ===== *)
theory Envelope
  imports Eg_Prelude
begin

text \<open>
  Envelope text and message ids, \<^verbatim>\<open>crates/engram-dashboard-messaging/src/envelope.rs\<close>. The process
  environment variable \<^verbatim>\<open>ENGRAM_WRAP_FORMAT\<close> and the random number behind an id are arguments.
  A reference parser states what the receiver can read back from a rendered envelope.
\<close>

section \<open>String replacement\<close>

text \<open>\<^verbatim>\<open>str::replace\<close> with a character pattern and with a string pattern (leftmost, not overlapping).\<close>

definition replace_char :: "uchar \<Rightarrow> ustr \<Rightarrow> ustr \<Rightarrow> ustr" where
  "replace_char c by s = concat (map (\<lambda>x. if x = c then by else [x]) s)"

function replace_str :: "ustr \<Rightarrow> ustr \<Rightarrow> ustr \<Rightarrow> ustr" where
  "replace_str pat by s = (
     if s = [] \<or> pat = [] then s
     else if prefix pat s then by @ replace_str pat by (drop (length pat) s)
     else hd s # replace_str pat by (tl s))"
  by pat_completeness auto
termination by (relation "measure (\<lambda>(_, _, s). length s)") auto

declare replace_str.simps [simp del]

section \<open>Envelopes\<close>

datatype envelope_format = Xml | Colon

record envelope_fields =
  ef_id :: "ustr option"
  ef_msg_type :: "ustr option"
  ef_reply_by :: "ustr option"
  ef_in_reply_to :: "ustr option"
  ef_to :: "ustr option"

definition envelope_fields_default :: envelope_fields where
  "envelope_fields_default = \<lparr>ef_id = None, ef_msg_type = None, ef_reply_by = None, ef_in_reply_to = None, ef_to = None\<rparr>"

definition escape_xml_attr :: "ustr \<Rightarrow> ustr" where
  "escape_xml_attr s =
     replace_char 62 (lit ''&gt;'') (replace_char 60 (lit ''&lt;'')
       (replace_char 34 (lit ''&quot;'') (replace_char 38 (lit ''&amp;'') s)))"

definition escape_xml_text :: "ustr \<Rightarrow> ustr" where
  "escape_xml_text s =
     replace_char 62 (lit ''&gt;'') (replace_char 60 (lit ''&lt;'') (replace_char 38 (lit ''&amp;'') s))"

text \<open>One optional attribute, with its leading blank: \<^verbatim>\<open> name="value"\<close>.\<close>

definition render_attr :: "string \<Rightarrow> ustr option \<Rightarrow> ustr" where
  "render_attr name v = (case v of None \<Rightarrow> [] | Some x \<Rightarrow> lit '' '' @ lit name @ [61, 34] @ escape_xml_attr x @ [34])"

definition render_message_xml :: "ustr \<Rightarrow> ustr \<Rightarrow> envelope_fields \<Rightarrow> ustr" where
  "render_message_xml sender body flds =
     lit ''<message from='' @ [34] @ escape_xml_attr sender @ [34] @
     render_attr ''id'' (ef_id flds) @ render_attr ''type'' (ef_msg_type flds) @
     render_attr ''reply-by'' (ef_reply_by flds) @ render_attr ''in-reply-to'' (ef_in_reply_to flds) @
     render_attr ''to'' (ef_to flds) @ lit ''>'' @ escape_xml_text body @ lit ''</message>''"

definition wrap_notice :: "ustr \<Rightarrow> ustr" where
  "wrap_notice body = lit ''<notice>'' @ escape_xml_text body @ lit ''</notice>''"

definition apply_wrap_template :: "ustr \<Rightarrow> ustr \<Rightarrow> ustr \<Rightarrow> ustr \<Rightarrow> ustr" where
  "apply_wrap_template template sender mid body =
     replace_str (lit ''{body}'') body (replace_str (lit ''{id}'') mid (replace_str (lit ''{sender}'') sender template))"

definition wrap_message :: "ustr option \<Rightarrow> ustr \<Rightarrow> ustr \<Rightarrow> ustr \<Rightarrow> envelope_format \<Rightarrow> envelope_fields \<Rightarrow> ustr" where
  "wrap_message wrap_format_env sender mid body format flds = (
     case wrap_format_env of
       Some (c # t) \<Rightarrow> apply_wrap_template (c # t) sender mid body
     | _ \<Rightarrow> (case format of
           Colon \<Rightarrow> sender @ lit '': '' @ body
         | Xml \<Rightarrow> render_message_xml sender body flds))"

datatype entrance = Mcp | Cli | Daemon

fun entrance_as_str :: "entrance \<Rightarrow> ustr" where
  "entrance_as_str Mcp = lit ''mcp''"
| "entrance_as_str Cli = lit ''cli''"
| "entrance_as_str Daemon = lit ''daemon''"

section \<open>Message ids\<close>

definition MSG_ID_ALPHABET :: ustr where
  "MSG_ID_ALPHABET = lit ''0123456789abcdefghijklmnopqrstuvwxyz''"

definition MSG_ID_BODY_LEN :: nat where
  "MSG_ID_BODY_LEN = 8"

text \<open>The buffer is filled from its last slot to its first.\<close>

fun fill_base36 :: "nat \<Rightarrow> nat \<Rightarrow> ustr \<Rightarrow> ustr" where
  "fill_base36 0 n buf = buf"
| "fill_base36 (Suc k) n buf = fill_base36 k (n div 36) (MSG_ID_ALPHABET ! (n mod 36) # buf)"

definition new_msg_id :: "u64 \<Rightarrow> ustr" where
  "new_msg_id random = lit ''m-'' @ fill_base36 MSG_ID_BODY_LEN (unat random mod 36 ^ MSG_ID_BODY_LEN) []"

section \<open>Delivery observations\<close>

record 'sender delivery_observation =
  ob_msg_id :: ustr
  ob_to_id :: peer_id
  ob_to_name :: ustr
  ob_from :: 'sender
  ob_entrance :: entrance
  ob_bytes_requested :: nat
  ob_bytes_written :: "nat option"
  ob_msg_uuid :: "peer_id option"
  ob_to_epoch :: "u32 option"
  ob_in_reply_to :: "ustr option"
  ob_error :: "ustr option"

definition is_delivered :: "'sender delivery_observation \<Rightarrow> bool" where
  "is_delivered ob \<longleftrightarrow> ob_error ob = None \<and> ob_bytes_written ob = Some (ob_bytes_requested ob)"

section \<open>Reading an envelope back\<close>

text \<open>The reference parser: entity references back to characters, an attribute up to its closing
  quote, the body up to the next tag.\<close>

function unescape :: "ustr \<Rightarrow> ustr" where
  "unescape s = (
     if s = [] then []
     else if prefix (lit ''&amp;'') s then 38 # unescape (drop 5 s)
     else if prefix (lit ''&quot;'') s then 34 # unescape (drop 6 s)
     else if prefix (lit ''&lt;'') s then 60 # unescape (drop 4 s)
     else if prefix (lit ''&gt;'') s then 62 # unescape (drop 4 s)
     else hd s # unescape (tl s))"
  by pat_completeness auto
termination by (relation "measure length") auto

declare unescape.simps [simp del]

definition parse_attr :: "string \<Rightarrow> ustr \<Rightarrow> ustr option \<times> ustr" where
  "parse_attr name s = (
     let p = lit '' '' @ lit name @ [61, 34]
     in if prefix p s
        then (Some (unescape (takeWhile (\<lambda>c. c \<noteq> 34) (drop (length p) s))),
              tl (dropWhile (\<lambda>c. c \<noteq> 34) (drop (length p) s)))
        else (None, s))"

definition parse_message :: "ustr \<Rightarrow> (ustr \<times> ustr \<times> envelope_fields) option" where
  "parse_message s = (
     if \<not> prefix (lit ''<message'') s then None
     else
       let (sender, s1) = parse_attr ''from'' (drop 8 s);
           (i, s2) = parse_attr ''id'' s1;
           (t, s3) = parse_attr ''type'' s2;
           (rb, s4) = parse_attr ''reply-by'' s3;
           (irt, s5) = parse_attr ''in-reply-to'' s4;
           (to, s6) = parse_attr ''to'' s5
       in case sender of
            None \<Rightarrow> None
          | Some sd \<Rightarrow>
              if \<not> prefix (lit ''>'') s6 then None
              else let body = takeWhile (\<lambda>c. c \<noteq> 60) (tl s6)
                   in if tl s6 = body @ lit ''</message>''
                      then Some (sd, unescape body, \<lparr>ef_id = i, ef_msg_type = t, ef_reply_by = rb,
                             ef_in_reply_to = irt, ef_to = to\<rparr>)
                      else None)"

section \<open>Laws\<close>

lemma replace_char_concat: "replace_char c by (concat (map f s)) = concat (map (\<lambda>x. replace_char c by (f x)) s)"
  by (induction s) (simp_all add: replace_char_def)

definition text1 :: "uchar \<Rightarrow> ustr" where
  "text1 c = (if c = 38 then lit ''&amp;'' else if c = 60 then lit ''&lt;'' else if c = 62 then lit ''&gt;'' else [c])"

definition attr1 :: "uchar \<Rightarrow> ustr" where
  "attr1 c = (if c = 34 then lit ''&quot;'' else text1 c)"

lemma escape_xml_text_map: "escape_xml_text s = concat (map text1 s)"
proof -
  have "escape_xml_text s = concat (map (\<lambda>x. escape_xml_text [x]) s)"
    unfolding escape_xml_text_def by (induction s) (simp_all add: replace_char_def)
  moreover have "escape_xml_text [x] = text1 x" for x
    by (simp add: escape_xml_text_def text1_def replace_char_def lit_def)
  ultimately show ?thesis by simp
qed

lemma escape_xml_attr_map: "escape_xml_attr s = concat (map attr1 s)"
proof -
  have "escape_xml_attr s = concat (map (\<lambda>x. escape_xml_attr [x]) s)"
    unfolding escape_xml_attr_def by (induction s) (simp_all add: replace_char_def)
  moreover have "escape_xml_attr [x] = attr1 x" for x
    by (simp add: escape_xml_attr_def attr1_def text1_def replace_char_def lit_def)
  ultimately show ?thesis by simp
qed

lemma unescape_text1: "unescape (text1 c @ r) = c # unescape r"
  by (subst unescape.simps) (auto simp: text1_def lit_def prefix_def)

lemma unescape_attr1: "unescape (attr1 c @ r) = c # unescape r"
proof (cases "c = 34")
  case True
  then show ?thesis by (subst unescape.simps) (auto simp: attr1_def lit_def prefix_def)
qed (simp add: attr1_def unescape_text1)

lemma unescape_Nil [simp]: "unescape [] = []"
  by (simp add: unescape.simps)

lemma unescape_escape_attr [simp]: "unescape (escape_xml_attr s) = s"
  unfolding escape_xml_attr_map by (induction s) (simp_all add: unescape_attr1)

lemma unescape_escape_text [simp]: "unescape (escape_xml_text s) = s"
  unfolding escape_xml_text_map by (induction s) (simp_all add: unescape_text1)

lemma no_quote_in_attr: "34 \<notin> set (escape_xml_attr s)"
  unfolding escape_xml_attr_map by (induction s) (auto simp: attr1_def text1_def lit_def)

lemma no_tag_in_text: "60 \<notin> set (escape_xml_text s)"
  unfolding escape_xml_text_map by (induction s) (auto simp: text1_def lit_def)

lemma parse_attr_hit:
  assumes "p = lit '' '' @ lit name @ [61, 34]"
  shows "parse_attr name (p @ escape_xml_attr v @ 34 # t) = (Some v, t)"
proof -
  have "\<forall>c\<in>set (escape_xml_attr v). c \<noteq> 34" using no_quote_in_attr by metis
  then have "takeWhile (\<lambda>c. c \<noteq> 34) (escape_xml_attr v @ 34 # t) = escape_xml_attr v"
    "dropWhile (\<lambda>c. c \<noteq> 34) (escape_xml_attr v @ 34 # t) = 34 # t"
    by (simp_all add: takeWhile_append2 dropWhile_append2)
  then show ?thesis by (simp add: parse_attr_def Let_def assms)
qed

lemma parse_attr_some: "parse_attr name (render_attr name (Some v) @ t) = (Some v, t)"
  using parse_attr_hit[OF refl, of name v t] by (simp add: render_attr_def)

lemma parse_attr_none: "\<not> prefix (lit '' '' @ lit name @ [61, 34]) s \<Longrightarrow> parse_attr name s = (None, s)"
  by (simp add: parse_attr_def Let_def)

lemma parallel_not_prefix: "\<not> prefix p q \<Longrightarrow> \<not> prefix q p \<Longrightarrow> \<not> prefix p (q @ r)"
  by (auto simp: prefix_append)

lemma not_prefix_render:
  assumes "\<not> prefix p t" "\<not> prefix p (lit '' '' @ lit n @ [61, 34])" "\<not> prefix (lit '' '' @ lit n @ [61, 34]) p"
  shows "\<not> prefix p (render_attr n v @ t)"
proof (cases v)
  case (Some x)
  have "render_attr n v @ t = (lit '' '' @ lit n @ [61, 34]) @ (escape_xml_attr x @ 34 # t)"
    by (simp add: Some render_attr_def)
  then show ?thesis
    using parallel_not_prefix[OF assms(2,3)] by (simp only: simp_thms)
qed (simp add: assms(1) render_attr_def)

lemma parse_attr_render:
  assumes "\<not> prefix (lit '' '' @ lit n @ [61, 34]) t"
  shows "parse_attr n (render_attr n v @ t) = (v, t)"
  using assms by (cases v) (simp_all add: parse_attr_some, simp add: render_attr_def parse_attr_none)

section \<open>Properties\<close>

text \<open>C32. An XML envelope cannot be forged from inside: whatever characters the sender name, the
  attribute values and the body contain, the envelope reads back as exactly that sender, that
  body and those attributes, so two different messages never render to the same text, and a
  daemon notice never reads as a message.\<close>

theorem envelope_unforgeable:
  "parse_message (render_message_xml sender body flds) = Some (sender, body, flds) \<and>
   parse_message (wrap_notice body) = None"
proof
  let ?e = "lit ''>'' @ escape_xml_text body @ lit ''</message>''"
  let ?t5 = "render_attr ''to'' (ef_to flds) @ ?e"
  let ?t4 = "render_attr ''in-reply-to'' (ef_in_reply_to flds) @ ?t5"
  let ?t3 = "render_attr ''reply-by'' (ef_reply_by flds) @ ?t4"
  let ?t2 = "render_attr ''type'' (ef_msg_type flds) @ ?t3"
  let ?t1 = "render_attr ''id'' (ef_id flds) @ ?t2"
  have e: "\<not> prefix (lit '' '' @ x) ?e" for x by (simp add: lit_def)
  note miss = not_prefix_render e
  have a: "parse_attr ''to'' ?t5 = (ef_to flds, ?e)"
    by (rule parse_attr_render) (rule e)
  have b: "parse_attr ''in-reply-to'' ?t4 = (ef_in_reply_to flds, ?t5)"
    by (rule parse_attr_render, intro miss) (simp_all add: lit_def)
  have c: "parse_attr ''reply-by'' ?t3 = (ef_reply_by flds, ?t4)"
    by (rule parse_attr_render, intro miss) (simp_all add: lit_def)
  have d: "parse_attr ''type'' ?t2 = (ef_msg_type flds, ?t3)"
    by (rule parse_attr_render, intro miss) (simp_all add: lit_def)
  have i: "parse_attr ''id'' ?t1 = (ef_id flds, ?t2)"
    by (rule parse_attr_render, intro miss) (simp_all add: lit_def)
  have f: "parse_attr ''from'' (render_attr ''from'' (Some sender) @ ?t1) = (Some sender, ?t1)"
    by (rule parse_attr_some)
  have r: "render_message_xml sender body flds = lit ''<message'' @ render_attr ''from'' (Some sender) @ ?t1"
    by (simp add: render_message_xml_def render_attr_def lit_def)
  have "\<forall>x\<in>set (escape_xml_text body). x \<noteq> 60" using no_tag_in_text by metis
  then have body: "takeWhile (\<lambda>c. c \<noteq> 60) (escape_xml_text body @ lit ''</message>'') = escape_xml_text body" "tl ?e = escape_xml_text body @ lit ''</message>''"
    by (simp_all add: lit_def takeWhile_append2)
  have p: "prefix (lit ''>'') ?e" by simp
  have "drop 8 (lit ''<message'' @ X) = X" for X by (simp add: lit_def)
  then show "parse_message (render_message_xml sender body flds) = Some (sender, body, flds)"
    unfolding parse_message_def r by (simp only: f i d c b a Let_def prod.case body p option.case) simp
  show "parse_message (wrap_notice body) = None"
    by (simp add: parse_message_def wrap_notice_def lit_def)
qed

lemma alphabet_facts: "length MSG_ID_ALPHABET = 36" "distinct MSG_ID_ALPHABET"
  by (simp_all add: MSG_ID_ALPHABET_def distinct_lit)

lemma fill_base36_inj:
  "fill_base36 k n b = fill_base36 k m b' \<Longrightarrow> length b = length b' \<Longrightarrow> b = b' \<and> n mod 36 ^ k = m mod 36 ^ k"
proof (induction k arbitrary: n m b b')
  case (Suc k)
  have "MSG_ID_ALPHABET ! (n mod 36) # b = MSG_ID_ALPHABET ! (m mod 36) # b' \<and> n div 36 mod 36 ^ k = m div 36 mod 36 ^ k"
    using Suc.prems Suc.IH[of "n div 36" "MSG_ID_ALPHABET ! (n mod 36) # b" "m div 36" "MSG_ID_ALPHABET ! (m mod 36) # b'"]
    unfolding fill_base36.simps by (simp only: list.size)
  moreover from this have "n mod 36 = m mod 36"
    using alphabet_facts nth_eq_iff_index_eq[of MSG_ID_ALPHABET "n mod 36" "m mod 36"] by simp
  ultimately show ?case by (simp add: mod_mult2_eq)
qed simp

lemma fill_base36_shape:
  "length (fill_base36 k n b) = k + length b" "set b \<subseteq> set MSG_ID_ALPHABET \<Longrightarrow> set (fill_base36 k n b) \<subseteq> set MSG_ID_ALPHABET"
proof -
  show "length (fill_base36 k n b) = k + length b"
    by (induction k arbitrary: n b) simp_all
  show "set b \<subseteq> set MSG_ID_ALPHABET \<Longrightarrow> set (fill_base36 k n b) \<subseteq> set MSG_ID_ALPHABET"
    by (induction k arbitrary: n b) (simp_all add: alphabet_facts)
qed

text \<open>A message id is two prefix characters and eight base-36 digits, and it carries the whole
  residue of the random number: two ids are equal exactly when the numbers agree modulo
  \<open>36^8\<close>.\<close>

theorem msg_id_exact:
  "(new_msg_id a = new_msg_id b \<longleftrightarrow> unat a mod 36 ^ 8 = unat b mod 36 ^ 8) \<and>
   length (new_msg_id a) = 10 \<and> set (drop 2 (new_msg_id a)) \<subseteq> set MSG_ID_ALPHABET"
  using fill_base36_inj[of 8 "unat a mod 36 ^ 8" "[]" "unat b mod 36 ^ 8" "[]"] fill_base36_shape[where k = 8 and b = "[]"]
  by (auto simp: new_msg_id_def MSG_ID_BODY_LEN_def lit_def simp del: fill_base36.simps)

end
