(* ===== verification/Park_Payload.thy ===== *)
theory Park_Payload
  imports Envelope
begin

text \<open>
  The text a parked message carries until it is injected: \<^verbatim>\<open>ParkPayload::encode\<close> and \<^verbatim>\<open>decode\<close> of
  \<^verbatim>\<open>crates/engram-dashboard-messaging/src/service.rs\<close>, with the send metadata and the sender
  identity. Printing and parsing a UUID belong to the \<^verbatim>\<open>uuid\<close> crate and are arguments
  (\<open>show_uuid\<close>, \<open>parse_uuid\<close>). A call of \<^verbatim>\<open>split_at\<close> off a character boundary is a panic, the value
  \<open>None\<close> of \<open>payload_decode\<close>; the fallback for damaged text is an ordinary result.
\<close>

section \<open>Numbers as text\<close>

fun show_dec :: "nat \<Rightarrow> ustr" where
  "show_dec n = (if n < 10 then [48 + n] else show_dec (n div 10) @ [48 + n mod 10])"

declare show_dec.simps [simp del]

definition is_digit :: "uchar \<Rightarrow> bool" where
  "is_digit c \<longleftrightarrow> 48 \<le> c \<and> c \<le> 57"

text \<open>\<^verbatim>\<open>str::parse\<close> for an unsigned type of \<open>w\<close> bits: an optional plus sign, at least one digit, no
  overflow.\<close>

definition parse_unsigned :: "nat \<Rightarrow> ustr \<Rightarrow> nat option" where
  "parse_unsigned w s = (
     let ds = (case s of [] \<Rightarrow> [] | c # cs \<Rightarrow> if c = 43 then cs else c # cs);
         v = foldl (\<lambda>acc c. acc * 10 + (c - 48)) 0 ds
     in if ds \<noteq> [] \<and> list_all is_digit ds \<and> v < 2 ^ w then Some v else None)"

text \<open>\<^verbatim>\<open>str::splitn(k, c)\<close>: at most \<open>k\<close> pieces, the last one uncut.\<close>

fun str_splitn :: "nat \<Rightarrow> uchar \<Rightarrow> ustr \<Rightarrow> ustr list" where
  "str_splitn 0 c s = []"
| "str_splitn (Suc 0) c s = [s]"
| "str_splitn (Suc (Suc k)) c s =
     (if c \<in> set s then takeWhile (\<lambda>x. x \<noteq> c) s # str_splitn (Suc k) c (tl (dropWhile (\<lambda>x. x \<noteq> c) s)) else [s])"

section \<open>Data\<close>

record sender_identity =
  si_peer_id :: peer_id
  si_epoch :: u32

record send_meta =
  sm_request :: bool
  sm_reply_by_raw :: "ustr option"
  sm_reply_by :: "duration option"
  sm_reply_to :: "ustr option"
  sm_to_attr :: "ustr option"

definition send_meta_default :: send_meta where
  "send_meta_default = \<lparr>sm_request = False, sm_reply_by_raw = None, sm_reply_by = None, sm_reply_to = None, sm_to_attr = None\<rparr>"

definition meta_envelope_fields :: "send_meta \<Rightarrow> ustr \<Rightarrow> envelope_fields" where
  "meta_envelope_fields m mid =
     \<lparr>ef_id = (if sm_request m then Some mid else None),
      ef_msg_type = (if sm_request m then Some (lit ''request'') else None),
      ef_reply_by = (if sm_request m then sm_reply_by_raw m else None),
      ef_in_reply_to = sm_reply_to m,
      ef_to = sm_to_attr m\<rparr>"

definition PARK_PAYLOAD_VERSION :: ustr where
  "PARK_PAYLOAD_VERSION = lit ''3''"

record park_payload =
  pp_sender_name :: ustr
  pp_from :: sender_identity
  pp_entrance :: entrance
  pp_body :: ustr
  pp_meta :: send_meta

definition daemon_identity :: sender_identity where
  "daemon_identity = \<lparr>si_peer_id = 0, si_epoch = 0\<rparr>"

section \<open>Encoding\<close>

definition opt_str :: "ustr option \<Rightarrow> ustr" where
  "opt_str v = (case v of None \<Rightarrow> [] | Some s \<Rightarrow> s)"

definition some_unless_empty :: "ustr \<Rightarrow> ustr option" where
  "some_unless_empty s = (if s = [] then None else Some s)"

definition payload_encode :: "(peer_id \<Rightarrow> ustr) \<Rightarrow> park_payload \<Rightarrow> ustr" where
  "payload_encode show_uuid p = (
     let reply_by = opt_str (sm_reply_by_raw (pp_meta p));
         reply_to = opt_str (sm_reply_to (pp_meta p));
         grp = opt_str (sm_to_attr (pp_meta p));
         flags = (if sm_request (pp_meta p) then lit ''r'' else lit ''-'')
     in PARK_PAYLOAD_VERSION @ [10] @ show_dec (utf8_len (pp_sender_name p)) @ [10] @
        show_dec (utf8_len reply_by) @ [10] @ show_dec (utf8_len reply_to) @ [10] @
        show_dec (utf8_len grp) @ [10] @ show_uuid (si_peer_id (pp_from p)) @ [10] @
        show_dec (unat (si_epoch (pp_from p))) @ [10] @ entrance_as_str (pp_entrance p) @ [10] @
        flags @ [10] @ pp_sender_name p @ reply_by @ reply_to @ grp @ pp_body p)"

definition parse_entrance :: "ustr \<Rightarrow> entrance option" where
  "parse_entrance s = (if s = lit ''mcp'' then Some Mcp else if s = lit ''cli'' then Some Cli
     else if s = lit ''daemon'' then Some Daemon else None)"

definition parse_request_flag :: "ustr \<Rightarrow> bool option" where
  "parse_request_flag s = (if s = lit ''r'' then Some True else if s = lit ''-'' then Some False else None)"

definition payload_fallback :: "ustr \<Rightarrow> park_payload" where
  "payload_fallback s = \<lparr>pp_sender_name = [], pp_from = \<lparr>si_peer_id = 0, si_epoch = 0\<rparr>, pp_entrance = Cli,
     pp_body = s, pp_meta = send_meta_default\<rparr>"

definition is_char_boundary :: "nat \<Rightarrow> ustr \<Rightarrow> bool" where
  "is_char_boundary i s \<longleftrightarrow> split_bytes i s \<noteq> None"

text \<open>\<^verbatim>\<open>checked_add\<close> on \<^verbatim>\<open>usize\<close> (64 bits).\<close>

definition checked_add :: "nat \<Rightarrow> nat option \<Rightarrow> nat option" where
  "checked_add b a = (case a of None \<Rightarrow> None | Some x \<Rightarrow> if x + b < 2 ^ 64 then Some (x + b) else None)"

definition payload_split ::
  "ustr \<Rightarrow> nat \<Rightarrow> nat \<Rightarrow> nat \<Rightarrow> nat \<Rightarrow> (ustr \<times> ustr \<times> ustr \<times> ustr \<times> ustr) option" where
  "payload_split rest sender_len rb_len rt_len grp_len = (
     case split_bytes sender_len rest of None \<Rightarrow> None | Some (sender, t1) \<Rightarrow>
     case split_bytes rb_len t1 of None \<Rightarrow> None | Some (reply_by, t2) \<Rightarrow>
     case split_bytes rt_len t2 of None \<Rightarrow> None | Some (reply_to, t3) \<Rightarrow>
     case split_bytes grp_len t3 of None \<Rightarrow> None | Some (grp, body) \<Rightarrow>
       Some (sender, reply_by, reply_to, grp, body))"

definition payload_decode :: "(ustr \<Rightarrow> peer_id option) \<Rightarrow> ustr \<Rightarrow> park_payload option" where
  "payload_decode parse_uuid s = (
     case str_splitn 10 10 s of
       [ver, sender_len, rb_len, rt_len, grp_len, id_str, ep_str, ent_str, flags, rest] \<Rightarrow>
         if ver \<noteq> PARK_PAYLOAD_VERSION then Some (payload_fallback s)
         else (case (parse_entrance ent_str, parse_request_flag flags) of
           (Some ent, Some request) \<Rightarrow>
             (case (parse_unsigned 64 sender_len, parse_unsigned 64 rb_len, parse_unsigned 64 rt_len,
                    parse_unsigned 64 grp_len, parse_uuid id_str, parse_unsigned 32 ep_str) of
               (Some sl, Some rb, Some rt, Some gl, Some agent_id, Some epoch) \<Rightarrow>
                 (case checked_add gl (checked_add rt (checked_add rb (Some sl))) of
                    None \<Rightarrow> Some (payload_fallback s)
                  | Some tot \<Rightarrow>
                      if utf8_len rest < tot then Some (payload_fallback s)
                      else if \<not> is_char_boundary sl rest \<or> \<not> is_char_boundary (sl + rb) rest \<or>
                              \<not> is_char_boundary (sl + rb + rt) rest \<or> \<not> is_char_boundary (sl + rb + rt + gl) rest
                      then Some (payload_fallback s)
                      else map_option (\<lambda>(sender, reply_by, reply_to, grp, body).
                             \<lparr>pp_sender_name = sender, pp_from = \<lparr>si_peer_id = agent_id, si_epoch = of_nat epoch\<rparr>,
                              pp_entrance = ent, pp_body = body,
                              pp_meta = \<lparr>sm_request = request, sm_reply_by_raw = some_unless_empty reply_by,
                                sm_reply_by = None, sm_reply_to = some_unless_empty reply_to,
                                sm_to_attr = some_unless_empty grp\<rparr>\<rparr>)
                           (payload_split rest sl rb rt gl))
             | _ \<Rightarrow> Some (payload_fallback s))
         | _ \<Rightarrow> Some (payload_fallback s))
     | _ \<Rightarrow> Some (payload_fallback s))"

section \<open>Laws\<close>

lemma show_dec_digits: "list_all is_digit (show_dec n) \<and> show_dec n \<noteq> [] \<and> hd (show_dec n) \<noteq> 43"
proof (induction n rule: show_dec.induct)
  case (1 n)
  then show ?case by (cases "n < 10") (auto simp: show_dec.simps[of n] is_digit_def hd_append)
qed

lemma show_dec_value: "foldl (\<lambda>acc c. acc * 10 + (c - 48)) 0 (show_dec n) = n"
proof (induction n rule: show_dec.induct)
  case (1 n)
  then show ?case by (cases "n < 10") (auto simp: show_dec.simps[of n])
qed

lemma parse_show_dec: "n < 2 ^ w \<Longrightarrow> parse_unsigned w (show_dec n) = Some n"
  using show_dec_digits[of n] show_dec_value[of n]
  by (cases "show_dec n") (auto simp: parse_unsigned_def Let_def)

lemma show_dec_no_newline: "10 \<notin> set (show_dec n)"
  using show_dec_digits[of n] by (auto simp: list_all_iff is_digit_def)

lemma str_splitn_piece:
  assumes "c \<notin> set a"
  shows "str_splitn (Suc (Suc k)) c (a @ [c] @ r) = a # str_splitn (Suc k) c r"
proof -
  have "\<forall>x\<in>set a. x \<noteq> c" using assms by auto
  then have "takeWhile (\<lambda>x. x \<noteq> c) (a @ c # r) = a" "dropWhile (\<lambda>x. x \<noteq> c) (a @ c # r) = c # r"
    by (simp_all add: takeWhile_append2 dropWhile_append2)
  then show ?thesis by simp
qed

lemma str_splitn_10:
  assumes "c \<notin> set a1" "c \<notin> set a2" "c \<notin> set a3" "c \<notin> set a4" "c \<notin> set a5" "c \<notin> set a6"
    "c \<notin> set a7" "c \<notin> set a8" "c \<notin> set a9"
  shows "str_splitn 10 c (a1 @ [c] @ a2 @ [c] @ a3 @ [c] @ a4 @ [c] @ a5 @ [c] @ a6 @ [c] @ a7 @ [c] @ a8 @ [c] @ a9 @ [c] @ r)
    = [a1, a2, a3, a4, a5, a6, a7, a8, a9, r]"
proof -
  have ten: "10 = Suc (Suc (Suc (Suc (Suc (Suc (Suc (Suc (Suc (Suc 0)))))))))" by simp
  show ?thesis
    unfolding ten by (simp only: str_splitn_piece[OF assms(1)] str_splitn_piece[OF assms(2)] str_splitn_piece[OF assms(3)]
        str_splitn_piece[OF assms(4)] str_splitn_piece[OF assms(5)] str_splitn_piece[OF assms(6)]
        str_splitn_piece[OF assms(7)] str_splitn_piece[OF assms(8)] str_splitn_piece[OF assms(9)] str_splitn.simps(2))
qed

lemma split_bytes_add:
  "split_bytes (m + n) s \<noteq> None \<Longrightarrow> split_bytes m s = Some (a, b) \<Longrightarrow> split_bytes n b \<noteq> None"
proof (induction m s arbitrary: a b rule: split_bytes.induct)
  case (1 m)
  then show ?case by (auto split: if_splits)
next
  case (2 m c s)
  show ?case
  proof (cases "m = 0")
    case True
    with 2(2,3) show ?thesis by (metis add_0 split_bytes_0 option.inject prod.inject)
  next
    case False
    with 2(3) have le: "utf8_char_len c \<le> m" by (simp split: if_splits)
    with False 2(3) obtain a' where "split_bytes (m - utf8_char_len c) s = Some (a', b)"
      by auto
    moreover have "split_bytes (m - utf8_char_len c + n) s \<noteq> None"
      using 2(2) le False by (auto split: if_splits)
    ultimately show ?thesis using 2(1)[OF False le] by blast
  qed
qed

lemma payload_split_total:
  assumes "is_char_boundary sl s" "is_char_boundary (sl + rb) s" "is_char_boundary (sl + rb + rt) s"
    "is_char_boundary (sl + rb + rt + gl) s"
  shows "payload_split s sl rb rt gl \<noteq> None"
proof -
  obtain a t1 where 1: "split_bytes sl s = Some (a, t1)" using assms(1) by (auto simp: is_char_boundary_def)
  have t1: "split_bytes n t1 \<noteq> None" if "is_char_boundary (sl + n) s" for n
    using split_bytes_add[OF _ 1] that by (simp add: is_char_boundary_def)
  obtain b t2 where 2: "split_bytes rb t1 = Some (b, t2)" using t1 assms(2) by fastforce
  have t2: "split_bytes n t2 \<noteq> None" if "is_char_boundary (sl + rb + n) s" for n
    using split_bytes_add[OF _ 2] t1[of "rb + n"] that by (simp add: add.assoc)
  obtain c t3 where 3: "split_bytes rt t2 = Some (c, t3)" using t2 assms(3) by fastforce
  have "split_bytes gl t3 \<noteq> None"
    using split_bytes_add[OF _ 3] t2[of "rt + gl"] assms(4) by (simp add: add.assoc)
  then show ?thesis using 1 2 3 by (auto simp: payload_split_def split: option.splits)
qed

lemma payload_decode_some: "\<exists>p. payload_decode parse_uuid s = Some p"
  using payload_split_total
  by (auto simp: payload_decode_def split: list.splits option.splits prod.splits)

section \<open>Properties\<close>

text \<open>Decoding never panics: for every text whatsoever, and whatever the UUID parser answers,
  \<open>payload_decode\<close> returns a payload; one damaged item cannot take the rest of its batch down.\<close>

theorem payload_decode_total: "\<exists>p. payload_decode parse_uuid s = Some p"
  by (rule payload_decode_some)

text \<open>A parked message is injected with the metadata it was sent with: provided UUIDs print on one
  line and parse back, and the strings fit the address space, decoding an encoded payload gives
  it back, newlines and all, except for the parsed duration (which the ledger keeps) and for
  empty optional strings, which the entrance refuses.\<close>

theorem payload_roundtrip:
  assumes uuid: "\<And>x. parse_uuid (show_uuid x) = Some x" "\<And>x. 10 \<notin> set (show_uuid x)"
    and size: "utf8_len (pp_sender_name p) + utf8_len (opt_str (sm_reply_by_raw (pp_meta p))) +
      utf8_len (opt_str (sm_reply_to (pp_meta p))) + utf8_len (opt_str (sm_to_attr (pp_meta p))) < 2 ^ 64"
  shows "payload_decode parse_uuid (payload_encode show_uuid p) =
    Some (p\<lparr>pp_meta := (pp_meta p)\<lparr>sm_reply_by := None,
      sm_reply_by_raw := some_unless_empty (opt_str (sm_reply_by_raw (pp_meta p))),
      sm_reply_to := some_unless_empty (opt_str (sm_reply_to (pp_meta p))),
      sm_to_attr := some_unless_empty (opt_str (sm_to_attr (pp_meta p)))\<rparr>\<rparr>)"
proof -
  define sd rb rt gr where "sd = pp_sender_name p" and "rb = opt_str (sm_reply_by_raw (pp_meta p))"
    and "rt = opt_str (sm_reply_to (pp_meta p))" and "gr = opt_str (sm_to_attr (pp_meta p))"
  define ent where "ent = entrance_as_str (pp_entrance p)"
  define fl where "fl = (if sm_request (pp_meta p) then lit ''r'' else lit ''-'')"
  define rest where "rest = sd @ rb @ rt @ gr @ pp_body p"
  let ?id = "show_uuid (si_peer_id (pp_from p))" and ?ep = "show_dec (unat (si_epoch (pp_from p)))"
  have nl: "10 \<notin> set PARK_PAYLOAD_VERSION" "10 \<notin> set ent" "10 \<notin> set fl"
    by (auto simp: PARK_PAYLOAD_VERSION_def lit_def ent_def fl_def) (cases "pp_entrance p"; simp add: lit_def)
  have enc: "payload_encode show_uuid p = PARK_PAYLOAD_VERSION @ [10] @ show_dec (utf8_len sd) @ [10] @
      show_dec (utf8_len rb) @ [10] @ show_dec (utf8_len rt) @ [10] @ show_dec (utf8_len gr) @ [10] @
      ?id @ [10] @ ?ep @ [10] @ ent @ [10] @ fl @ [10] @ rest"
    by (simp only: payload_encode_def Let_def sd_def rb_def rt_def gr_def ent_def fl_def rest_def)
  have pieces: "str_splitn 10 10 (payload_encode show_uuid p) = [PARK_PAYLOAD_VERSION, show_dec (utf8_len sd),
      show_dec (utf8_len rb), show_dec (utf8_len rt), show_dec (utf8_len gr), ?id, ?ep, ent, fl, rest]"
    unfolding enc by (rule str_splitn_10) (rule nl show_dec_no_newline uuid(2))+
  have lens: "parse_unsigned 64 (show_dec (utf8_len x)) = Some (utf8_len x)" if "x \<in> {sd, rb, rt, gr}" for x
    using size that by (intro parse_show_dec) (auto simp: sd_def rb_def rt_def gr_def)
  have ep: "parse_unsigned 32 ?ep = Some (unat (si_epoch (pp_from p)))"
    using unat_bound[of "si_epoch (pp_from p)"] by (intro parse_show_dec) simp
  have names: "parse_entrance ent = Some (pp_entrance p)" "parse_request_flag fl = Some (sm_request (pp_meta p))"
    by (cases "pp_entrance p"; simp add: ent_def parse_entrance_def)
      (simp add: fl_def parse_request_flag_def)
  have add: "checked_add (utf8_len gr) (checked_add (utf8_len rt) (checked_add (utf8_len rb) (Some (utf8_len sd)))) =
      Some (utf8_len sd + utf8_len rb + utf8_len rt + utf8_len gr)"
    using size by (simp add: checked_add_def sd_def rb_def rt_def gr_def)
  have bd: "is_char_boundary (utf8_len x) rest" if "prefix x rest" for x
    using that by (auto simp: is_char_boundary_def prefix_def)
  have "is_char_boundary (utf8_len sd) rest" "is_char_boundary (utf8_len sd + utf8_len rb) rest"
    "is_char_boundary (utf8_len sd + utf8_len rb + utf8_len rt) rest"
    "is_char_boundary (utf8_len sd + utf8_len rb + utf8_len rt + utf8_len gr) rest"
    using bd[of sd] bd[of "sd @ rb"] bd[of "sd @ rb @ rt"] bd[of "sd @ rb @ rt @ gr"]
    by (simp_all add: rest_def add.assoc)
  moreover have "payload_split rest (utf8_len sd) (utf8_len rb) (utf8_len rt) (utf8_len gr) = Some (sd, rb, rt, gr, pp_body p)"
    by (simp add: payload_split_def rest_def)
  moreover have "\<not> utf8_len rest < utf8_len sd + utf8_len rb + utf8_len rt + utf8_len gr" by (simp add: rest_def)
  ultimately show ?thesis
    unfolding payload_decode_def pieces
    by (simp add: names lens ep uuid(1) add) (simp add: sd_def rb_def rt_def gr_def)
qed

definition sample_payload :: park_payload where
  "sample_payload = \<lparr>pp_sender_name = lit ''ann'', pp_from = \<lparr>si_peer_id = 7, si_epoch = 2\<rparr>, pp_entrance = Mcp,
     pp_body = [104, 10, 128512], pp_meta = \<lparr>sm_request = True, sm_reply_by_raw = Some (lit ''10m''), sm_reply_by = None,
       sm_reply_to = None, sm_to_attr = Some (lit ''@all'')\<rparr>\<rparr>"

theorem payload_roundtrip_witness:
  "payload_decode (\<lambda>s. map_option of_nat (parse_unsigned 128 s)) (payload_encode (\<lambda>x. show_dec (unat x)) sample_payload)
     = Some sample_payload"
proof -
  have 1: "map_option of_nat (parse_unsigned 128 (show_dec (unat x))) = Some x" for x :: peer_id
    using unat_bound[of x] by (simp add: parse_show_dec)
  have 2: "utf8_len (pp_sender_name sample_payload) + utf8_len (opt_str (sm_reply_by_raw (pp_meta sample_payload))) +
      utf8_len (opt_str (sm_reply_to (pp_meta sample_payload))) + utf8_len (opt_str (sm_to_attr (pp_meta sample_payload))) < 2 ^ 64"
    by (simp add: sample_payload_def opt_str_def lit_def utf8_char_len_def)
  show ?thesis
    using payload_roundtrip[where show_uuid = "\<lambda>x. show_dec (unat x)" and
        parse_uuid = "\<lambda>s. map_option of_nat (parse_unsigned 128 s)", OF 1 show_dec_no_newline 2]
    by (simp add: sample_payload_def opt_str_def some_unless_empty_def)
qed

end
