(* ===== verification/Addressing.thy ===== *)
theory Addressing
  imports Group_Source Busy_Policy "HOL-Library.List_Lexorder" Park_Payload
begin

text \<open>
  Recipient resolution of a send: \<^verbatim>\<open>resolve_addressing\<close>, \<^verbatim>\<open>resolve_token\<close>, \<^verbatim>\<open>resolve_id\<close>,
  \<^verbatim>\<open>push_recipient\<close>, \<^verbatim>\<open>build_to_attr\<close>, \<^verbatim>\<open>admission\<close> and \<^verbatim>\<open>reply_disposition\<close> of
  \<^verbatim>\<open>crates/engram-dashboard-messaging/src/service.rs\<close>, with the result vocabulary of a send. The
  UUID parser of the \<^verbatim>\<open>uuid\<close> crate is an argument. A hint text is represented by the template it is
  formatted from and the template's arguments.
\<close>

section \<open>Result vocabulary\<close>

datatype send_status = SendDelivered | SendPending | SendFailed

datatype fail_code = RecipientNotFound | RecipientAmbiguous | FailMailboxFull | RequestCapacity | RecipientDeleted

fun fail_code_as_str :: "fail_code \<Rightarrow> ustr" where
  "fail_code_as_str RecipientNotFound = lit ''RECIPIENT_NOT_FOUND''"
| "fail_code_as_str RecipientAmbiguous = lit ''RECIPIENT_AMBIGUOUS''"
| "fail_code_as_str FailMailboxFull = lit ''MAILBOX_FULL''"
| "fail_code_as_str RequestCapacity = lit ''REQUEST_CAPACITY''"
| "fail_code_as_str RecipientDeleted = lit ''RECIPIENT_DELETED''"

datatype name_layer = LiveLayer | SavedLayer

fun name_layer_label :: "name_layer \<Rightarrow> ustr" where
  "name_layer_label LiveLayer = lit ''live''"
| "name_layer_label SavedLayer = lit ''saved''"

datatype hint =
    NoSuchAgentHint ustr ustr
  | AmbiguousHint ustr nat ustr
  | CapacityHint ustr
  | MailboxFullHint ustr
  | DormantHint ustr
  | BusyHint ustr busy_reason
  | InjectFailedHint ustr ustr
  | OverlappingHint ustr
  | QueuedHint ustr
  | DeletedHint

record recipient_result =
  rr_to :: ustr
  rr_status :: send_status
  rr_code :: "fail_code option"
  rr_hint :: "hint option"

datatype send_reject = RejGroupNotFound ustr | RejGroupEmpty | RejIdCollision

section \<open>Registry snapshot\<close>

record live_agent =
  la_id :: peer_id
  la_name :: ustr
  la_epoch :: u32
  la_turn_signal :: bool

record dormant_agent =
  da_id :: peer_id
  da_name :: ustr

record addressing_sources =
  as_roster :: "live_agent list"
  as_dormant :: "dormant_agent list"

datatype resolution =
    ResLive live_agent
  | ResDormant peer_id ustr
  | ResAmbiguous nat name_layer
  | ResNotFound

record resolved_recipient =
  rv_display :: ustr
  rv_to :: resolution

definition recipient_id :: "resolved_recipient \<Rightarrow> peer_id option" where
  "recipient_id r = (case rv_to r of
     ResLive a \<Rightarrow> Some (la_id a) | ResDormant i _ \<Rightarrow> Some i | ResAmbiguous _ _ \<Rightarrow> None | ResNotFound \<Rightarrow> None)"

definition recipient_name :: "resolved_recipient \<Rightarrow> ustr" where
  "recipient_name r = (case rv_to r of
     ResLive a \<Rightarrow> la_name a | ResDormant _ n \<Rightarrow> n | ResAmbiguous _ _ \<Rightarrow> rv_display r | ResNotFound \<Rightarrow> rv_display r)"

definition same_row :: "resolved_recipient \<Rightarrow> resolved_recipient \<Rightarrow> bool" where
  "same_row a b = (case (recipient_id a, recipient_id b) of
     (Some x, Some y) \<Rightarrow> x = y | (None, None) \<Rightarrow> rv_display a = rv_display b | _ \<Rightarrow> False)"

datatype address_token = NameToken nat | GroupToken ustr "nat list"

record addressing =
  ad_recipients :: "resolved_recipient list"
  ad_tokens :: "address_token list"

section \<open>Resolution\<close>

definition resolve_id :: "peer_id \<Rightarrow> addressing_sources \<Rightarrow> resolution option" where
  "resolve_id i sources = (
     case find (\<lambda>a. la_id a = i) (as_roster sources) of
       Some a \<Rightarrow> Some (ResLive a)
     | None \<Rightarrow> map_option (\<lambda>d. ResDormant (da_id d) (da_name d)) (find (\<lambda>d. da_id d = i) (as_dormant sources)))"

definition resolve_name :: "ustr \<Rightarrow> addressing_sources \<Rightarrow> resolution" where
  "resolve_name token sources = (
     case filter (\<lambda>a. la_name a = token) (as_roster sources) of
       [a] \<Rightarrow> ResLive a
     | (a # b # rest) \<Rightarrow> ResAmbiguous (length (a # b # rest)) LiveLayer
     | [] \<Rightarrow> (case filter (\<lambda>d. da_name d = token) (as_dormant sources) of
           [] \<Rightarrow> ResNotFound
         | [d] \<Rightarrow> ResDormant (da_id d) (da_name d)
         | (d # e # rest) \<Rightarrow> ResAmbiguous (length (d # e # rest)) SavedLayer))"

definition resolve_token :: "(ustr \<Rightarrow> peer_id option) \<Rightarrow> ustr \<Rightarrow> addressing_sources \<Rightarrow> resolution" where
  "resolve_token parse_uuid token sources = (
     case parse_uuid token of
       Some i \<Rightarrow> (case resolve_id i sources of Some found \<Rightarrow> found | None \<Rightarrow> resolve_name token sources)
     | None \<Rightarrow> resolve_name token sources)"

fun position :: "('a \<Rightarrow> bool) \<Rightarrow> 'a list \<Rightarrow> nat option" where
  "position P [] = None"
| "position P (x # xs) = (if P x then Some 0 else map_option Suc (position P xs))"

definition push_recipient :: "resolved_recipient list \<Rightarrow> resolved_recipient \<Rightarrow> nat \<times> resolved_recipient list" where
  "push_recipient rs c = (case position (\<lambda>r. same_row r c) rs of
     Some pos \<Rightarrow> (pos, rs)
   | None \<Rightarrow> (length rs, rs @ [c]))"

definition group_reject :: "group_error \<Rightarrow> ustr \<Rightarrow> send_reject" where
  "group_reject e raw = (case e of GroupNotFound name \<Rightarrow> RejGroupNotFound name | InvalidName _ \<Rightarrow> RejGroupNotFound raw)"

text \<open>The token loop: group members are collected with the index of their token.\<close>

fun token_loop ::
  "(ustr \<Rightarrow> peer_id option) \<Rightarrow> (ustr \<Rightarrow> member_pools \<Rightarrow> group_error + group_member list) \<Rightarrow> addressing_sources \<Rightarrow> member_pools
    \<Rightarrow> nat \<Rightarrow> ustr list \<Rightarrow> address_token list \<Rightarrow> resolved_recipient list \<Rightarrow> (nat \<times> group_member) list
    \<Rightarrow> send_reject + (address_token list \<times> resolved_recipient list \<times> (nat \<times> group_member) list)" where
  "token_loop pu resolve sources pools i [] tokens recipients expanded = Inr (tokens, recipients, expanded)"
| "token_loop pu resolve sources pools i (raw # to) tokens recipients expanded = (
     let token = str_trim raw
     in if token \<noteq> [] \<and> hd token = at_sign
        then case normalize_group_name token of
               Inl e \<Rightarrow> Inl (group_reject e token)
             | Inr norm \<Rightarrow> (case resolve norm pools of
                   Inl e \<Rightarrow> Inl (group_reject e token)
                 | Inr members \<Rightarrow> token_loop pu resolve sources pools (Suc i) to
                     (tokens @ [GroupToken norm []]) recipients (expanded @ map (\<lambda>m. (i, m)) members))
        else let (row, recipients') = push_recipient recipients
                   \<lparr>rv_display = token, rv_to = resolve_token pu token sources\<rparr>
             in token_loop pu resolve sources pools (Suc i) to (tokens @ [NameToken row]) recipients' expanded)"

fun add_row :: "nat \<Rightarrow> address_token \<Rightarrow> address_token" where
  "add_row row (GroupToken label rows) = GroupToken label (if row \<in> set rows then rows else rows @ [row])"
| "add_row row (NameToken r) = NameToken r"

fun expand_loop ::
  "addressing_sources \<Rightarrow> (nat \<times> group_member) list \<Rightarrow> address_token list \<Rightarrow> resolved_recipient list
    \<Rightarrow> address_token list \<times> resolved_recipient list" where
  "expand_loop sources [] tokens recipients = (tokens, recipients)"
| "expand_loop sources ((i, m) # rest) tokens recipients = (
     let to = (case resolve_id (gm_id m) sources of None \<Rightarrow> ResNotFound | Some r \<Rightarrow> r);
         (row, recipients') = push_recipient recipients \<lparr>rv_display = gm_name m, rv_to = to\<rparr>
     in expand_loop sources rest (tokens[i := add_row row (tokens ! i)]) recipients')"

definition resolve_addressing ::
  "(ustr \<Rightarrow> peer_id option) \<Rightarrow> (ustr \<Rightarrow> member_pools \<Rightarrow> group_error + group_member list) \<Rightarrow> ustr list \<Rightarrow> sender_identity
    \<Rightarrow> addressing_sources \<Rightarrow> send_reject + addressing" where
  "resolve_addressing pu resolve to from sources = (
     let live_pool = map (\<lambda>a. \<lparr>gm_id = la_id a, gm_name = la_name a\<rparr>)
           (filter (\<lambda>a. la_id a \<noteq> si_peer_id from) (as_roster sources));
         dormant_pool = map (\<lambda>d. \<lparr>gm_id = da_id d, gm_name = da_name d\<rparr>)
           (filter (\<lambda>d. da_id d \<noteq> si_peer_id from) (as_dormant sources));
         pools = \<lparr>mp_live = live_pool, mp_dormant = dormant_pool\<rparr>
     in case token_loop pu resolve sources pools 0 to [] [] [] of
          Inl e \<Rightarrow> Inl e
        | Inr (tokens, recipients, expanded) \<Rightarrow>
            let sorted = sort_key (\<lambda>(i, m). gm_name m) (sort_key (\<lambda>(i, m). i) expanded);
                (tokens', recipients') = expand_loop sources sorted tokens recipients
            in if recipients' = [] then Inl RejGroupEmpty
               else Inr \<lparr>ad_recipients = recipients', ad_tokens = tokens'\<rparr>)"

section \<open>Envelope recipients and admission\<close>

fun to_attr_loop :: "addressing \<Rightarrow> bool list \<Rightarrow> address_token list \<Rightarrow> ustr list \<Rightarrow> ustr list" where
  "to_attr_loop addr admitted [] parts = parts"
| "to_attr_loop addr admitted (NameToken row # ts) parts = (
     let name = recipient_name (ad_recipients addr ! row)
     in to_attr_loop addr admitted ts (if admitted ! row \<and> name \<notin> set parts then parts @ [name] else parts))"
| "to_attr_loop addr admitted (GroupToken label rows # ts) parts =
     to_attr_loop addr admitted ts
       (if list_ex (\<lambda>r. admitted ! r) rows \<and> label \<notin> set parts then parts @ [label] else parts)"

fun str_join :: "ustr \<Rightarrow> ustr list \<Rightarrow> ustr" where
  "str_join sep [] = []"
| "str_join sep [x] = x"
| "str_join sep (x # y # xs) = x @ sep @ str_join sep (y # xs)"

definition build_to_attr :: "addressing \<Rightarrow> bool list \<Rightarrow> ustr" where
  "build_to_attr addr admitted = str_join (lit '','') (to_attr_loop addr admitted (ad_tokens addr) [])"

definition live_names_hint :: "live_agent list \<Rightarrow> ustr" where
  "live_names_hint roster = (if roster = [] then lit ''(none)'' else str_join (lit '', '') (map la_name roster))"

definition admission :: "resolved_recipient \<Rightarrow> ustr \<Rightarrow> (fail_code \<times> hint) + (peer_id \<times> bool)" where
  "admission r roster_names = (case rv_to r of
     ResLive a \<Rightarrow> Inr (la_id a, True)
   | ResDormant i _ \<Rightarrow> Inr (i, False)
   | ResAmbiguous n layer \<Rightarrow>
       Inl (RecipientAmbiguous, AmbiguousHint (rv_display r) n (name_layer_label layer))
   | ResNotFound \<Rightarrow> Inl (RecipientNotFound, NoSuchAgentHint (rv_display r) roster_names))"

datatype reply_disposition = DispAccepted | RequesterGone | DispNoOp

definition reply_disposition :: "recipient_result list \<Rightarrow> reply_disposition" where
  "reply_disposition results = (
     if list_ex (\<lambda>r. rr_status r \<noteq> SendFailed) results then DispAccepted
     else if list_ex (\<lambda>r. rr_code r = Some RecipientNotFound) results then RequesterGone
     else DispNoOp)"

section \<open>Laws of the row list\<close>

text \<open>The fold key of a row: the resolved id, or the notation of an unresolved row.\<close>

definition row_key :: "resolved_recipient \<Rightarrow> peer_id + ustr" where
  "row_key r = (case recipient_id r of Some i \<Rightarrow> Inl i | None \<Rightarrow> Inr (rv_display r))"

lemma same_row_key: "same_row a b \<longleftrightarrow> row_key a = row_key b"
  by (auto simp: same_row_def row_key_def split: option.splits)

lemma position_Some: "position P xs = Some i \<Longrightarrow> i < length xs \<and> P (xs ! i)"
  by (induction xs arbitrary: i) (auto split: if_splits)

lemma position_None: "position P xs = None \<longleftrightarrow> (\<forall>x \<in> set xs. \<not> P x)"
  by (induction xs) auto

lemma push_recipient_spec:
  assumes "push_recipient rs c = (row, rs')"
  shows "row < length rs'" "prefix rs rs'" "row_key (rs' ! row) = row_key c"
    "distinct (map row_key rs) \<Longrightarrow> distinct (map row_key rs')"
    "row_key ` set rs' = insert (row_key c) (row_key ` set rs)"
proof -
  consider (old) "position (\<lambda>r. same_row r c) rs = Some row" "rs' = rs"
    | (new) "position (\<lambda>r. same_row r c) rs = None" "row = length rs" "rs' = rs @ [c]"
    using assms by (auto simp: push_recipient_def split: option.splits)
  then have all: "row < length rs' \<and> prefix rs rs' \<and> row_key (rs' ! row) = row_key c \<and>
     (distinct (map row_key rs) \<longrightarrow> distinct (map row_key rs')) \<and>
     row_key ` set rs' = insert (row_key c) (row_key ` set rs)"
  proof cases
    case old
    then have "row < length rs" "row_key (rs ! row) = row_key c"
      using position_Some[OF old(1)] by (simp_all add: same_row_key)
    with old(2) show ?thesis by (force intro: image_eqI[of _ _ "rs ! row"])
  next
    case new
    have "row_key c \<notin> row_key ` set rs"
      using new(1) by (force simp: position_None same_row_key)
    with new(2,3) show ?thesis by auto
  qed
  then show "row < length rs'" "prefix rs rs'" "row_key (rs' ! row) = row_key c"
    "distinct (map row_key rs) \<Longrightarrow> distinct (map row_key rs')"
    "row_key ` set rs' = insert (row_key c) (row_key ` set rs)" by blast+
qed

section \<open>Laws of the two loops\<close>

definition is_group :: "ustr \<Rightarrow> bool" where
  "is_group raw \<longleftrightarrow> str_trim raw \<noteq> [] \<and> hd (str_trim raw) = at_sign"

definition named_row :: "(ustr \<Rightarrow> peer_id option) \<Rightarrow> addressing_sources \<Rightarrow> ustr \<Rightarrow> resolved_recipient" where
  "named_row pu sources raw = \<lparr>rv_display = str_trim raw, rv_to = resolve_token pu (str_trim raw) sources\<rparr>"

definition member_row :: "addressing_sources \<Rightarrow> group_member \<Rightarrow> resolved_recipient" where
  "member_row sources m = \<lparr>rv_display = gm_name m,
     rv_to = (case resolve_id (gm_id m) sources of None \<Rightarrow> ResNotFound | Some r \<Rightarrow> r)\<rparr>"

definition members_of ::
  "(ustr \<Rightarrow> member_pools \<Rightarrow> group_error + group_member list) \<Rightarrow> member_pools \<Rightarrow> ustr \<Rightarrow> group_member list" where
  "members_of resolve pools raw = (if is_group raw then
     (case normalize_group_name (str_trim raw) of Inl _ \<Rightarrow> []
      | Inr n \<Rightarrow> (case resolve n pools of Inl _ \<Rightarrow> [] | Inr ms \<Rightarrow> ms)) else [])"

definition group_fault ::
  "(ustr \<Rightarrow> member_pools \<Rightarrow> group_error + group_member list) \<Rightarrow> member_pools \<Rightarrow> ustr \<Rightarrow> send_reject option" where
  "group_fault resolve pools raw = (if is_group raw then
     (case normalize_group_name (str_trim raw) of Inl e \<Rightarrow> Some (group_reject e (str_trim raw))
      | Inr n \<Rightarrow> (case resolve n pools of Inl e \<Rightarrow> Some (group_reject e (str_trim raw)) | Inr _ \<Rightarrow> None)) else None)"

text \<open>What a token records: the row it resolved to, or the rows of the members it expanded to.\<close>

fun token_ok ::
  "(ustr \<Rightarrow> peer_id option) \<Rightarrow> addressing_sources \<Rightarrow> (ustr \<Rightarrow> group_member list) \<Rightarrow> resolved_recipient list
    \<Rightarrow> ustr \<Rightarrow> address_token \<Rightarrow> bool" where
  "token_ok pu sources mem rs raw (NameToken row) \<longleftrightarrow>
     \<not> is_group raw \<and> row < length rs \<and> row_key (rs ! row) = row_key (named_row pu sources raw)"
| "token_ok pu sources mem rs raw (GroupToken label rows) \<longleftrightarrow>
     is_group raw \<and> label = str_trim raw \<and> (\<forall>r \<in> set rows. r < length rs) \<and>
     (\<lambda>r. row_key (rs ! r)) ` set rows = (\<lambda>m. row_key (member_row sources m)) ` set (mem raw)"

lemma prefix_nth: "prefix xs ys \<Longrightarrow> i < length xs \<Longrightarrow> ys ! i = xs ! i"
  by (auto simp: prefix_def nth_append)

lemma token_ok_prefix: "token_ok pu sources mem rs raw t \<Longrightarrow> prefix rs rs' \<Longrightarrow> token_ok pu sources mem rs' raw t"
proof (cases t)
  case (GroupToken label rows)
  assume ok: "token_ok pu sources mem rs raw t" and p: "prefix rs rs'"
  have "(\<lambda>r. row_key (rs' ! r)) ` set rows = (\<lambda>r. row_key (rs ! r)) ` set rows"
    using ok p GroupToken by (intro image_cong) (auto simp: prefix_nth)
  then show ?thesis using ok p GroupToken by (auto intro: order.strict_trans2[OF _ prefix_length_le])
qed (auto simp: prefix_nth intro: order.strict_trans2[OF _ prefix_length_le])

lemma token_loop_group:
  assumes "is_group raw" "normalize_group_name (str_trim raw) = Inr n" "resolve n pools = Inr ms"
  shows "token_loop pu resolve sources pools i (raw # to) tokens rs ex =
    token_loop pu resolve sources pools (Suc i) to (tokens @ [GroupToken (str_trim raw) []]) rs (ex @ map (Pair i) (members_of resolve pools raw))"
  using assms normalize_shape[OF assms(2)] by (auto simp: is_group_def members_of_def)

lemma token_loop_name:
  assumes "\<not> is_group raw" "push_recipient rs (named_row pu sources raw) = (row, rs')"
  shows "token_loop pu resolve sources pools i (raw # to) tokens rs ex =
    token_loop pu resolve sources pools (Suc i) to (tokens @ [NameToken row]) rs' (ex @ map (Pair i) (members_of resolve pools raw))"
  using assms by (cases "str_trim raw = []") (simp_all add: is_group_def named_row_def members_of_def)

lemma token_loop_fault:
  "group_fault resolve pools raw = Some e \<Longrightarrow> token_loop pu resolve sources pools i (raw # to) tokens rs ex = Inl e"
  by (auto simp: group_fault_def is_group_def split: if_splits sum.splits)

lemma group_fault_None:
  assumes "group_fault resolve pools raw = None" "is_group raw"
  obtains n ms where "normalize_group_name (str_trim raw) = Inr n" "resolve n pools = Inr ms"
  using assms by (auto simp: group_fault_def split: sum.splits)

definition expansion ::
  "(ustr \<Rightarrow> group_member list) \<Rightarrow> nat \<Rightarrow> ustr list \<Rightarrow> (nat \<times> group_member) list" where
  "expansion mem i to = concat (map (\<lambda>(k, raw). map (Pair k) (mem raw)) (enumerate i to))"

lemma token_loop_ok:
  assumes "token_loop pu resolve sources pools i to tokens rs ex = Inr (tokens', rs', ex')"
  shows "prefix rs rs' \<and> (distinct (map row_key rs) \<longrightarrow> distinct (map row_key rs')) \<and>
    row_key ` set rs' = row_key ` set rs \<union> (\<lambda>t. row_key (named_row pu sources t)) ` {t \<in> set to. \<not> is_group t} \<and>
    ex' = ex @ expansion (members_of resolve pools) i to \<and>
    (\<exists>ts. tokens' = tokens @ ts \<and> list_all2 (token_ok pu sources (\<lambda>_. []) rs') to ts)"
  using assms
proof (induction to arbitrary: i tokens rs ex)
  case (Cons raw to)
  have fault: "group_fault resolve pools raw = None"
    using Cons.prems token_loop_fault[of resolve pools raw] by (cases "group_fault resolve pools raw") (auto simp del: token_loop.simps)
  show ?case
  proof (cases "is_group raw")
    case True
    from fault True obtain n ms where n: "normalize_group_name (str_trim raw) = Inr n" "resolve n pools = Inr ms"
      by (rule group_fault_None)
    have run: "token_loop pu resolve sources pools (Suc i) to (tokens @ [GroupToken (str_trim raw) []]) rs
        (ex @ map (Pair i) (members_of resolve pools raw)) = Inr (tokens', rs', ex')"
      using Cons.prems token_loop_group[where resolve=resolve, OF True n] by (simp del: token_loop.simps)
    from Cons.IH[OF run] True show ?thesis by (auto simp: expansion_def)
  next
    case False
    obtain row rs1 where push: "push_recipient rs (named_row pu sources raw) = (row, rs1)" by fastforce
    note P = push_recipient_spec[OF push]
    have run: "token_loop pu resolve sources pools (Suc i) to (tokens @ [NameToken row]) rs1
        (ex @ map (Pair i) (members_of resolve pools raw)) = Inr (tokens', rs', ex')"
      using Cons.prems token_loop_name[OF False push] by (simp del: token_loop.simps)
    note IH = Cons.IH[OF run]
    have here: "token_ok pu sources (\<lambda>_. []) rs' raw (NameToken row)"
      by (rule token_ok_prefix[of _ _ _ rs1]) (use P False IH in auto)
    have keys: "row_key ` set rs' = row_key ` set rs \<union> (\<lambda>t. row_key (named_row pu sources t)) ` {t \<in> set (raw # to). \<not> is_group t}"
      using IH P(5) False by auto
    from IH obtain ts where "tokens' = (tokens @ [NameToken row]) @ ts" "list_all2 (token_ok pu sources (\<lambda>_. []) rs') to ts"
      by blast
    then have toks: "\<exists>ts. tokens' = tokens @ ts \<and> list_all2 (token_ok pu sources (\<lambda>_. []) rs') (raw # to) ts"
      using here by (intro exI[of _ "NameToken row # ts"]) simp
    show ?thesis
      using IH P(2,4) keys toks by (auto simp: expansion_def intro: prefix_order.trans)
  qed
qed (simp add: expansion_def)

lemma token_loop_faults:
  "case find (\<lambda>t. group_fault resolve pools t \<noteq> None) to of
     Some t \<Rightarrow> token_loop pu resolve sources pools i to tokens rs ex = Inl (the (group_fault resolve pools t))
   | None \<Rightarrow> \<exists>r. token_loop pu resolve sources pools i to tokens rs ex = Inr r"
proof (induction to arbitrary: i tokens rs ex)
  case (Cons raw to)
  show ?case
  proof (cases "group_fault resolve pools raw")
    case None
    then have "\<exists>i' tk' rs' ex'. token_loop pu resolve sources pools i (raw # to) tokens rs ex =
        token_loop pu resolve sources pools i' to tk' rs' ex'"
      using token_loop_name[of raw rs pu sources] group_fault_None[OF None] token_loop_group[of raw]
      by (metis surj_pair)
    with Cons.IH None show ?thesis by (auto simp del: token_loop.simps split: option.splits)
  next
    case (Some e)
    then show ?thesis using token_loop_fault[OF Some] by (simp del: token_loop.simps)
  qed
qed simp

lemma add_row_ok:
  assumes ok: "token_ok pu sources (\<lambda>_. ms) rs raw t" and push: "push_recipient rs (member_row sources m) = (row, rs')"
    and grp: "is_group raw"
  shows "token_ok pu sources (\<lambda>_. m # ms) rs' raw (add_row row t)"
proof (cases t)
  case (GroupToken label rows)
  note P = push_recipient_spec[OF push]
  have "row \<in> set rows \<Longrightarrow> row_key (member_row sources m) \<in> (\<lambda>r. row_key (rs' ! r)) ` set rows"
    using P(3) by (metis image_eqI)
  with token_ok_prefix[OF ok P(2)] GroupToken P(1,3) show ?thesis by auto
qed (use ok grp in simp)

lemma expand_loop_ok:
  assumes "expand_loop sources es tokens rs = (tokens', rs')"
    and "\<forall>(k, m) \<in> set es. k < length tokens \<and> is_group (to ! k)"
    and "\<forall>k < length tokens. token_ok pu sources (\<lambda>_. ms k) rs (to ! k) (tokens ! k)"
  shows "prefix rs rs' \<and> (distinct (map row_key rs) \<longrightarrow> distinct (map row_key rs')) \<and>
    row_key ` set rs' = row_key ` set rs \<union> (\<lambda>(k, m). row_key (member_row sources m)) ` set es \<and>
    length tokens' = length tokens \<and>
    (\<forall>k < length tokens. token_ok pu sources (\<lambda>_. rev (map snd (filter (\<lambda>(j, m). j = k) es)) @ ms k) rs' (to ! k) (tokens' ! k))"
  using assms
proof (induction es arbitrary: tokens rs ms)
  case (Cons e es)
  obtain i m where e: "e = (i, m)" by fastforce
  obtain row rs1 where push: "push_recipient rs (member_row sources m) = (row, rs1)" by fastforce
  note P = push_recipient_spec[OF push]
  let ?tk = "tokens[i := add_row row (tokens ! i)]"
  let ?ms = "ms(i := m # ms i)"
  have run: "expand_loop sources es ?tk rs1 = (tokens', rs')"
    using Cons.prems(1) push by (simp add: e member_row_def)
  have i: "i < length tokens" "is_group (to ! i)" using Cons.prems(2) e by auto
  have ok: "\<forall>k < length ?tk. token_ok pu sources (\<lambda>_. ?ms k) rs1 (to ! k) (?tk ! k)"
    using Cons.prems(3) i add_row_ok[OF _ push i(2)] token_ok_prefix[OF _ P(2)] by (auto simp: nth_list_update)
  have idx: "\<forall>(k, m) \<in> set es. k < length ?tk \<and> is_group (to ! k)" using Cons.prems(2) by auto
  note IH = Cons.IH[OF run idx ok]
  show ?case
    using IH P(2,4,5) by (auto simp: e intro: prefix_order.trans split: if_splits)
qed simp

lemma set_expansion: "set (expansion mem 0 to) = {(k, m). k < length to \<and> m \<in> set (mem (to ! k))}"
  by (force simp: expansion_def enumerate_eq_zip set_zip)

lemma token_ok_cong: "set (mem raw) = set (mem' raw) \<Longrightarrow> token_ok pu sources mem rs raw t = token_ok pu sources mem' rs raw t"
  by (cases t) simp_all

definition pools_of :: "sender_identity \<Rightarrow> addressing_sources \<Rightarrow> member_pools" where
  "pools_of from sources =
     \<lparr>mp_live = map (\<lambda>a. \<lparr>gm_id = la_id a, gm_name = la_name a\<rparr>) (filter (\<lambda>a. la_id a \<noteq> si_peer_id from) (as_roster sources)),
      mp_dormant = map (\<lambda>d. \<lparr>gm_id = da_id d, gm_name = da_name d\<rparr>) (filter (\<lambda>d. da_id d \<noteq> si_peer_id from) (as_dormant sources))\<rparr>"

lemma resolve_addressing_ok:
  fixes sender :: sender_identity and sources :: addressing_sources
  defines "mem \<equiv> \<lambda>resolve. members_of resolve (pools_of sender sources)"
  assumes run: "resolve_addressing pu resolve to sender sources = Inr addr"
  shows "ad_recipients addr \<noteq> []" "distinct (map row_key (ad_recipients addr))"
    "row_key ` set (ad_recipients addr) = (\<lambda>t. row_key (named_row pu sources t)) ` {t \<in> set to. \<not> is_group t} \<union>
       (\<lambda>m. row_key (member_row sources m)) ` (\<Union>t \<in> set to. set (mem resolve t))"
    "list_all2 (token_ok pu sources (mem resolve) (ad_recipients addr)) to (ad_tokens addr)"
proof -
  obtain tk rs ex where loop: "token_loop pu resolve sources (pools_of sender sources) 0 to [] [] [] = Inr (tk, rs, ex)"
    using run by (auto simp: resolve_addressing_def pools_of_def Let_def split: sum.splits)
  define srt where "srt = sort_key (\<lambda>(i, m). gm_name m) (sort_key (\<lambda>(i, m). i) ex)"
  obtain tk' rs' where exp: "expand_loop sources srt tk rs = (tk', rs')" by fastforce
  have addr: "addr = \<lparr>ad_recipients = rs', ad_tokens = tk'\<rparr>" and ne: "rs' \<noteq> []"
    using run loop exp by (auto simp: resolve_addressing_def pools_of_def srt_def Let_def split: if_splits)
  note A = token_loop_ok[OF loop]
  have tk: "list_all2 (token_ok pu sources (\<lambda>_. []) rs) to tk" and ex: "ex = expansion (mem resolve) 0 to"
    using A by (auto simp: mem_def)
  have srt: "set srt = {(k, m). k < length to \<and> m \<in> set (mem resolve (to ! k))}"
    by (simp add: srt_def ex set_expansion)
  have grp: "m \<in> set (mem resolve t) \<Longrightarrow> is_group t" for m t
    by (cases "is_group t") (simp_all add: mem_def members_of_def)
  have len: "length tk = length to" using tk by (simp add: list_all2_lengthD)
  have idx: "\<forall>(k, m) \<in> set srt. k < length tk \<and> is_group (to ! k)" using srt len grp by auto
  have init: "\<forall>k < length tk. token_ok pu sources (\<lambda>_. []) rs (to ! k) (tk ! k)"
    using tk by (simp add: list_all2_conv_all_nth)
  note B = expand_loop_ok[where ms = "\<lambda>_. []", OF exp idx init]
  have pick: "set (map snd (filter (\<lambda>(j, m). j = k) srt)) = set (mem resolve (to ! k))" if "k < length to" for k
    using srt that by force
  have toks: "token_ok pu sources (mem resolve) rs' (to ! k) (tk' ! k)" if "k < length to" for k
    using B that len token_ok_cong[of "\<lambda>_. rev (map snd (filter (\<lambda>(j, m). j = k) srt)) @ []" "to ! k" "mem resolve"] pick[OF that]
    by auto
  have "(\<lambda>(k, m). row_key (member_row sources m)) ` set srt = (\<lambda>m. row_key (member_row sources m)) ` (\<Union>t \<in> set to. set (mem resolve t))"
    using srt by (force simp: in_set_conv_nth image_iff)
  with A B show "row_key ` set (ad_recipients addr) = (\<lambda>t. row_key (named_row pu sources t)) ` {t \<in> set to. \<not> is_group t} \<union>
       (\<lambda>m. row_key (member_row sources m)) ` (\<Union>t \<in> set to. set (mem resolve t))"
    by (simp add: addr)
  show "ad_recipients addr \<noteq> []" "distinct (map row_key (ad_recipients addr))" using ne A B by (simp_all add: addr)
  show "list_all2 (token_ok pu sources (mem resolve) (ad_recipients addr)) to (ad_tokens addr)"
    using toks B len by (simp add: list_all2_conv_all_nth addr)
qed

section \<open>The built-in words\<close>

text \<open>The agents a word expands to, without the sender.\<close>

definition word_members :: "sender_identity \<Rightarrow> addressing_sources \<Rightarrow> ustr \<Rightarrow> peer_id set" where
  "word_members from sources t = (
     if str_trim t = HERE_GROUP then la_id ` set (as_roster sources) - {si_peer_id from}
     else if str_trim t = ALL_GROUP then (la_id ` set (as_roster sources) \<union> da_id ` set (as_dormant sources)) - {si_peer_id from}
     else {})"

definition known_word :: "ustr \<Rightarrow> bool" where
  "known_word t \<longleftrightarrow> str_trim t = HERE_GROUP \<or> str_trim t = ALL_GROUP"

lemma word_is_group: "known_word t \<Longrightarrow> is_group t"
  by (auto simp: known_word_def is_group_def HERE_GROUP_def ALL_GROUP_def lit_def)

lemma words_normal: "normalize_group_name ALL_GROUP = Inr ALL_GROUP" "normalize_group_name HERE_GROUP = Inr HERE_GROUP"
  by (simp_all add: ALL_GROUP_def HERE_GROUP_def normalize_group_name_def str_trim_def is_whitespace_def lit_def)

lemma words_differ: "ALL_GROUP \<noteq> HERE_GROUP"
  by (simp add: ALL_GROUP_def HERE_GROUP_def)

lemma group_fault_builtin:
  "group_fault builtin_resolve pools t = (if is_group t \<and> \<not> known_word t then Some (RejGroupNotFound (str_trim t)) else None)"
proof (cases "is_group t \<and> \<not> known_word t")
  case True
  show ?thesis
  proof (cases "normalize_group_name (str_trim t)")
    case (Inl e)
    then show ?thesis using True normalize_error[OF Inl] by (simp add: group_fault_def group_reject_def)
  next
    case (Inr n)
    have "n = str_trim t" using normalize_shape[OF Inr] by simp
    with True Inr show ?thesis
      by (auto simp: group_fault_def builtin_resolve_def group_reject_def known_word_def dest: normalize_idem)
  qed
next
  case False
  then show ?thesis
    using words_normal builtin.all_verbatim builtin.here_live_only
    by (auto simp: group_fault_def known_word_def)
qed

lemma pool_ids:
  "gm_id ` set (mp_live (pools_of from sources)) = la_id ` set (as_roster sources) - {si_peer_id from}"
  "gm_id ` set (mp_dormant (pools_of from sources)) = da_id ` set (as_dormant sources) - {si_peer_id from}"
  by (auto simp: pools_of_def image_image)

lemma members_of_builtin:
  "gm_id ` set (members_of builtin_resolve (pools_of from sources) t) = word_members from sources t"
proof (cases "known_word t")
  case True
  then show ?thesis
    using words_normal words_differ builtin.all_verbatim builtin.here_live_only word_is_group[OF True]
    by (cases "str_trim t = HERE_GROUP")
      (simp_all add: members_of_def word_members_def known_word_def pool_ids image_Un Un_Diff)
next
  case False
  have "members_of builtin_resolve (pools_of from sources) t = []"
    using group_fault_builtin[of "pools_of from sources" t] False
    by (auto simp: group_fault_def members_of_def split: sum.splits)
  with False show ?thesis by (simp add: word_members_def known_word_def)
qed

lemma resolve_id_key: "resolve_id i sources = Some r \<Longrightarrow> row_key \<lparr>rv_display = d, rv_to = r\<rparr> = Inl i"
  by (auto simp: resolve_id_def row_key_def recipient_id_def find_Some_iff split: option.splits)

lemma resolve_id_Some: "i \<in> la_id ` set (as_roster sources) \<union> da_id ` set (as_dormant sources) \<Longrightarrow> \<exists>r. resolve_id i sources = Some r"
  by (cases "find (\<lambda>a. la_id a = i) (as_roster sources)"; cases "find (\<lambda>d. da_id d = i) (as_dormant sources)")
    (auto simp: resolve_id_def find_None_iff split: option.splits)

lemma member_row_key:
  assumes "m \<in> set (members_of builtin_resolve (pools_of from sources) t)"
  shows "row_key (member_row sources m) = Inl (gm_id m)"
proof -
  have "gm_id m \<in> word_members from sources t" using assms members_of_builtin by blast
  then obtain r where "resolve_id (gm_id m) sources = Some r"
    using resolve_id_Some[of "gm_id m" sources] by (auto simp: word_members_def split: if_splits)
  then show ?thesis by (simp add: member_row_def resolve_id_key)
qed

lemma member_keys:
  "(\<lambda>m. row_key (member_row sources m)) ` set (members_of builtin_resolve (pools_of from sources) t) = Inl ` word_members from sources t"
  unfolding members_of_builtin[symmetric] image_image by (rule image_cong[OF refl]) (rule member_row_key)

text \<open>The recipients a list of tokens names: the rows of its names and the members of its words.\<close>

definition addressed :: "(ustr \<Rightarrow> peer_id option) \<Rightarrow> ustr list \<Rightarrow> sender_identity \<Rightarrow> addressing_sources \<Rightarrow> (peer_id + ustr) set" where
  "addressed pu to from sources =
     (\<lambda>t. row_key (named_row pu sources t)) ` {t \<in> set to. \<not> is_group t} \<union> Inl ` (\<Union>t \<in> set to. word_members from sources t)"

definition token_keys ::
  "(ustr \<Rightarrow> peer_id option) \<Rightarrow> addressing_sources \<Rightarrow> sender_identity \<Rightarrow> ustr \<Rightarrow> (peer_id + ustr) set" where
  "token_keys pu sources from t = (if is_group t then Inl ` word_members from sources t else {row_key (named_row pu sources t)})"

fun token_rows :: "address_token \<Rightarrow> nat set" where
  "token_rows (NameToken row) = {row}"
| "token_rows (GroupToken label rows) = set rows"

lemma token_ok_keys:
  assumes "token_ok pu sources (members_of builtin_resolve (pools_of from sources)) rs raw t"
  shows "(\<forall>r \<in> token_rows t. r < length rs) \<and> (\<lambda>r. row_key (rs ! r)) ` token_rows t = token_keys pu sources from raw"
  using assms by (cases t) (simp_all add: token_keys_def member_keys)

lemma keys_addressed:
  "(\<lambda>m. row_key (member_row sources m)) ` (\<Union>t \<in> set to. set (members_of builtin_resolve (pools_of from sources) t)) =
     Inl ` (\<Union>t \<in> set to. word_members from sources t)"
  by (simp add: image_UN member_keys)

section \<open>Properties\<close>

definition w_bob :: live_agent where
  "w_bob = \<lparr>la_id = 1, la_name = lit ''bob'', la_epoch = 0, la_turn_signal = True\<rparr>"

definition w_sources :: addressing_sources where
  "w_sources = \<lparr>as_roster = [w_bob, w_bob\<lparr>la_id := 9, la_name := lit ''me''\<rparr>], as_dormant = [\<lparr>da_id = 2, da_name = lit ''al''\<rparr>]\<rparr>"

definition w_sender :: sender_identity where
  "w_sender = \<lparr>si_peer_id = 9, si_epoch = 0\<rparr>"

definition w_to :: "ustr list" where
  "w_to = [lit ''bob'', lit ''@all'']"

definition w_addr :: addressing where
  "w_addr = \<lparr>ad_recipients = [\<lparr>rv_display = lit ''bob'', rv_to = ResLive w_bob\<rparr>, \<lparr>rv_display = lit ''al'', rv_to = ResDormant 2 (lit ''al'')\<rparr>],
     ad_tokens = [NameToken 0, GroupToken (lit ''@all'') [1, 0]]\<rparr>"

lemma w_run: "resolve_addressing (\<lambda>_. None) builtin_resolve w_to w_sender w_sources = Inr w_addr"
proof -
  have trims: "str_trim (lit ''bob'') = lit ''bob''" "str_trim (lit ''@all'') = lit ''@all''"
    by (simp_all add: str_trim_def is_whitespace_def lit_def)
  have group: "normalize_group_name (lit ''@all'') = Inr (lit ''@all'')" 
    using words_normal by (simp add: ALL_GROUP_def)
  have resolve: "builtin_resolve (lit ''@all'') p = Inr (mp_live p @ mp_dormant p)" for p
    using builtin.all_verbatim by (simp add: ALL_GROUP_def)
  have heads: "hd (lit ''bob'') \<noteq> at_sign" "hd (lit ''@all'') = at_sign" "lit ''@all'' \<noteq> []"
    by (simp_all add: lit_def)
  have less: "\<not> lit ''bob'' \<le> lit ''al''" "lit ''al'' \<le> lit ''bob''" by (simp_all add: lit_def)
  show ?thesis
    by (simp add: resolve_addressing_def w_to_def w_sources_def w_sender_def w_addr_def w_bob_def trims group resolve heads less
      resolve_token_def resolve_name_def push_recipient_def same_row_def recipient_id_def resolve_id_def Let_def)
qed

text \<open>A resolved address list has exactly one row per addressed recipient: the rows are non-empty,
  pairwise different (same id, or same notation when unresolved), and name exactly the explicit
  targets plus the members of the words without the sender; every token records exactly the rows
  of the recipients it stands for, also when an earlier token created those rows.\<close>

theorem addressing_exact:
  assumes "resolve_addressing pu builtin_resolve to from sources = Inr addr"
  shows "ad_recipients addr \<noteq> [] \<and> distinct (map row_key (ad_recipients addr)) \<and>
    row_key ` set (ad_recipients addr) = addressed pu to from sources \<and>
    list_all2 (\<lambda>raw t. (\<forall>r \<in> token_rows t. r < length (ad_recipients addr)) \<and>
       (\<lambda>r. row_key (ad_recipients addr ! r)) ` token_rows t = token_keys pu sources from raw) to (ad_tokens addr)"
proof -
  note A = resolve_addressing_ok[OF assms]
  have "list_all2 (\<lambda>raw t. (\<forall>r \<in> token_rows t. r < length (ad_recipients addr)) \<and>
       (\<lambda>r. row_key (ad_recipients addr ! r)) ` token_rows t = token_keys pu sources from raw) to (ad_tokens addr)"
    by (rule list_all2_mono[OF A(4)]) (rule token_ok_keys)
  with A(1-3) show ?thesis unfolding keys_addressed addressed_def by blast
qed

theorem addressing_exact_witness:
  "ad_recipients w_addr \<noteq> [] \<and> distinct (map row_key (ad_recipients w_addr)) \<and>
    row_key ` set (ad_recipients w_addr) = addressed (\<lambda>_. None) w_to w_sender w_sources \<and>
    list_all2 (\<lambda>raw t. (\<forall>r \<in> token_rows t. r < length (ad_recipients w_addr)) \<and>
       (\<lambda>r. row_key (ad_recipients w_addr ! r)) ` token_rows t = token_keys (\<lambda>_. None) w_sources w_sender raw) w_to (ad_tokens w_addr)"
  by (rule addressing_exact[OF w_run])

lemma resolve_addressing_run:
  "resolve_addressing pu resolve to from sources =
     (case token_loop pu resolve sources (pools_of from sources) 0 to [] [] [] of
        Inl e \<Rightarrow> Inl e
      | Inr (tk, rs, ex) \<Rightarrow>
          (let (tk', rs') = expand_loop sources (sort_key (\<lambda>(i, m). gm_name m) (sort_key (\<lambda>(i, m). i) ex)) tk rs
           in if rs' = [] then Inl RejGroupEmpty else Inr \<lparr>ad_recipients = rs', ad_tokens = tk'\<rparr>))"
  unfolding resolve_addressing_def pools_of_def Let_def by (rule refl)

lemma expand_loop_empty: "expand_loop sources es tk rs = (tk', rs') \<Longrightarrow> rs' = [] \<longleftrightarrow> rs = [] \<and> es = []"
proof (induction es arbitrary: tk rs)
  case (Cons e es)
  obtain i m where e: "e = (i, m)" by fastforce
  obtain row rs1 where push: "push_recipient rs (member_row sources m) = (row, rs1)" by fastforce
  then have "rs1 \<noteq> []" using push_recipient_spec(1)[OF push] by auto
  moreover have "expand_loop sources es (tk[i := add_row row (tk ! i)]) rs1 = (tk', rs')"
    using Cons.prems push by (simp add: e member_row_def)
  ultimately show ?case using Cons.IH by simp
qed simp

lemma sort_key_Nil: "sort_key f xs = [] \<longleftrightarrow> xs = []"
  by (metis length_0_conv length_sort)

lemma expansion_empty: "expansion mem i to = [] \<longleftrightarrow> (\<forall>t \<in> set to. mem t = [])"
  by (induction to arbitrary: i) (auto simp: expansion_def)

text \<open>Exactly three outcomes of addressing: the first unknown or malformed \<open>@\<close> token rejects the
  whole send under its trimmed spelling; otherwise the list is rejected as empty exactly when it
  has no explicit target and nobody but the sender is behind its words; otherwise it resolves.\<close>

theorem addressing_outcomes:
  "case find (\<lambda>t. is_group t \<and> \<not> known_word t) to of
     Some t \<Rightarrow> resolve_addressing pu builtin_resolve to from sources = Inl (RejGroupNotFound (str_trim t))
   | None \<Rightarrow> if addressed pu to from sources = {}
       then resolve_addressing pu builtin_resolve to from sources = Inl RejGroupEmpty
       else isl (resolve_addressing pu builtin_resolve to from sources) = False"
proof -
  let ?p = "pools_of from sources"
  have bad: "(\<lambda>t. group_fault builtin_resolve ?p t \<noteq> None) = (\<lambda>t. is_group t \<and> \<not> known_word t)"
    by (simp add: group_fault_builtin fun_eq_iff)
  note F = token_loop_faults[where resolve = builtin_resolve and pools = ?p and to = to and pu = pu and sources = sources
      and i = 0 and tokens = "[]" and rs = "[]" and ex = "[]", unfolded bad]
  show ?thesis
  proof (cases "find (\<lambda>t. is_group t \<and> \<not> known_word t) to")
    case None
    then obtain tk rs ex where loop: "token_loop pu builtin_resolve sources ?p 0 to [] [] [] = Inr (tk, rs, ex)"
      using F by (auto simp del: token_loop.simps)
    obtain tk' rs' where exp: "expand_loop sources (sort_key (\<lambda>(i, m). gm_name m) (sort_key (\<lambda>(i, m). i) ex)) tk rs = (tk', rs')"
      by fastforce
    have "row_key ` set rs = (\<lambda>t. row_key (named_row pu sources t)) ` {t \<in> set to. \<not> is_group t}"
      and ex: "ex = expansion (members_of builtin_resolve ?p) 0 to"
      using token_loop_ok[OF loop] by auto
    moreover have "rs = [] \<longleftrightarrow> row_key ` set rs = {}" by simp
    ultimately have rs: "rs = [] \<longleftrightarrow> {t \<in> set to. \<not> is_group t} = {}" by (simp only: image_is_empty)
    have empty: "members_of builtin_resolve ?p t = [] \<longleftrightarrow> word_members from sources t = {}" for t
      unfolding members_of_builtin[symmetric] by simp
    have "rs' = [] \<longleftrightarrow> rs = [] \<and> (\<forall>t \<in> set to. word_members from sources t = {})"
      using expand_loop_empty[OF exp] by (simp add: ex expansion_empty empty sort_key_Nil)
    then have "rs' = [] \<longleftrightarrow> addressed pu to from sources = {}"
      unfolding rs addressed_def by simp
    with None loop exp show ?thesis by (simp add: resolve_addressing_run)
  next
    case (Some t)
    then have "is_group t \<and> \<not> known_word t" by (auto simp: find_Some_iff)
    with Some F show ?thesis by (simp add: resolve_addressing_run group_fault_builtin)
  qed
qed

text \<open>The value a token contributes, and the list that keeps first occurrences.\<close>

fun token_values :: "addressing \<Rightarrow> bool list \<Rightarrow> address_token \<Rightarrow> ustr list" where
  "token_values addr admitted (NameToken row) = (if admitted ! row then [recipient_name (ad_recipients addr ! row)] else [])"
| "token_values addr admitted (GroupToken label rows) = (if \<exists>r \<in> set rows. admitted ! r then [label] else [])"

definition keep_first :: "'a list \<Rightarrow> 'a list" where
  "keep_first xs = rev (remdups (rev xs))"

lemma remdups_absorb: "v \<in> set ys \<Longrightarrow> remdups (xs @ v # ys) = remdups (xs @ ys)"
  by (induction xs) auto

lemma keep_first_distinct: "distinct xs \<Longrightarrow> keep_first xs = xs"
  by (simp add: keep_first_def distinct_remdups_id)

lemma to_attr_loop_values:
  "distinct parts \<Longrightarrow> to_attr_loop addr admitted ts parts = keep_first (parts @ concat (map (token_values addr admitted) ts))"
proof (induction ts arbitrary: parts)
  case (Cons t ts)
  have absorb: "v \<in> set parts \<Longrightarrow> keep_first (parts @ v # ws) = keep_first (parts @ ws)" for v ws
    by (simp add: keep_first_def remdups_absorb)
  show ?case
    using Cons absorb by (cases t) (auto simp: list_ex_iff Let_def)
qed (simp add: keep_first_distinct)

definition accepted_value ::
  "(ustr \<Rightarrow> peer_id option) \<Rightarrow> addressing_sources \<Rightarrow> sender_identity \<Rightarrow> addressing \<Rightarrow> bool list \<Rightarrow> ustr \<Rightarrow> ustr list" where
  "accepted_value pu sources from addr admitted raw = (
     case find (\<lambda>r. admitted ! r \<and> row_key (ad_recipients addr ! r) \<in> token_keys pu sources from raw) [0..<length (ad_recipients addr)] of
       None \<Rightarrow> []
     | Some r \<Rightarrow> [if is_group raw then str_trim raw else recipient_name (ad_recipients addr ! r)])"

lemma distinct_key_row:
  "distinct (map row_key rs) \<Longrightarrow> i < length rs \<Longrightarrow> j < length rs \<Longrightarrow> row_key (rs ! i) = row_key (rs ! j) \<longleftrightarrow> i = j"
  by (metis distinct_conv_nth length_map nth_map)

lemma token_values_accepted:
  assumes ok: "token_ok pu sources (members_of builtin_resolve (pools_of from sources)) (ad_recipients addr) raw t"
    and dist: "distinct (map row_key (ad_recipients addr))"
  shows "token_values addr admitted t = accepted_value pu sources from addr admitted raw"
proof -
  let ?rs = "ad_recipients addr"
  have rows: "\<forall>r \<in> token_rows t. r < length ?rs" "(\<lambda>r. row_key (?rs ! r)) ` token_rows t = token_keys pu sources from raw"
    using token_ok_keys[OF ok] by blast+
  have hit: "row_key (?rs ! r) \<in> token_keys pu sources from raw \<longleftrightarrow> r \<in> token_rows t" if "r < length ?rs" for r
    unfolding rows(2)[symmetric] using rows(1) that distinct_key_row[OF dist] by (auto simp: image_iff)
  let ?P = "\<lambda>r. admitted ! r \<and> row_key (?rs ! r) \<in> token_keys pu sources from raw"
  show ?thesis
  proof (cases "find ?P [0..<length ?rs]")
    case None
    then have "\<forall>r \<in> token_rows t. \<not> admitted ! r" using hit rows(1) by (auto simp: find_None_iff)
    then show ?thesis using None by (cases t) (simp_all add: accepted_value_def)
  next
    case (Some r)
    then have r: "r < length ?rs" "admitted ! r" "r \<in> token_rows t"
      using hit by (auto simp: find_Some_iff)
    then show ?thesis using Some ok by (cases t) (auto simp: accepted_value_def)
  qed
qed

text \<open>The frozen recipient attribute of the envelope is the comma-joined list, in the order the
  sender wrote the tokens and each value once, of the tokens with at least one accepted recipient:
  the registry name for an explicit target, the word itself for an \<open>@\<close> address; a word whose
  members were all named before it is still listed.\<close>

theorem to_attr_lists_accepted:
  assumes "resolve_addressing pu builtin_resolve to from sources = Inr addr"
  shows "build_to_attr addr admitted = str_join (lit '','') (keep_first (concat (map (accepted_value pu sources from addr admitted) to)))"
proof -
  note A = resolve_addressing_ok[OF assms]
  have "list_all2 (\<lambda>raw t. accepted_value pu sources from addr admitted raw = token_values addr admitted t) to (ad_tokens addr)"
    by (rule list_all2_mono[OF A(4)]) (simp add: token_values_accepted[OF _ A(2)])
  then have "map (accepted_value pu sources from addr admitted) to = map (token_values addr admitted) (ad_tokens addr)"
    by (simp add: list_all2_conv_all_nth list_eq_iff_nth_eq)
  then show ?thesis by (simp add: build_to_attr_def to_attr_loop_values)
qed

theorem to_attr_lists_accepted_witness:
  "build_to_attr w_addr [True, False] = str_join (lit '','')
     (keep_first (concat (map (accepted_value (\<lambda>_. None) w_sources w_sender w_addr [True, False]) w_to)))"
  by (rule to_attr_lists_accepted[OF w_run])

end
