(* ===== verification/Messaging_State.thy ===== *)
theory Messaging_State
  imports Mailbox Ledger Addressing
begin

text \<open>
  The state under the messaging lock and the lock sections of a send,
  \<^verbatim>\<open>crates/engram-dashboard-messaging/src/service.rs\<close>: \<^verbatim>\<open>park_into\<close>, the contract reservations, the
  in-lock closing of a reply contract, the two passes of \<^verbatim>\<open>handle_send\<close> (admission and enqueue) and the
  notice path. One definition is one stretch of code that runs without releasing the lock.

  A \<^verbatim>\<open>Reservation\<close> guard is the value \<open>reservation\<close>; its liveness token is an identifier given by an
  argument. Facts that the code collects under the lock in order to log them outside are returned.
\<close>

section \<open>State\<close>

record messaging_state =
  st_mailbox :: mailbox
  st_ledger :: ledger
  st_deferred_flush :: "(peer_id \<times> peer_id list) list"
  st_in_flight_targets :: "peer_id list"
  st_deferred_by_target :: "(peer_id \<times> peer_id list) list"

definition messaging_state_new :: messaging_state where
  "messaging_state_new = \<lparr>st_mailbox = mailbox_new, st_ledger = ledger_new, st_deferred_flush = [],
     st_in_flight_targets = [], st_deferred_by_target = []\<rparr>"

record evicted_transition =
  et_msg_id :: ustr
  et_recipient :: peer_id
  et_intended :: delivery_status

definition transition_or_collect_evicted ::
  "ledger \<Rightarrow> ustr \<Rightarrow> peer_id \<Rightarrow> delivery_status \<Rightarrow> instant \<Rightarrow> evicted_transition list \<Rightarrow> ledger \<times> evicted_transition list" where
  "transition_or_collect_evicted l msg_id r intended now evicted = (
     case transition l msg_id r intended now of
       (Inl NotFound, l') \<Rightarrow> (l', evicted @ [\<lparr>et_msg_id = msg_id, et_recipient = r, et_intended = intended\<rparr>])
     | (_, l') \<Rightarrow> (l', evicted))"

section \<open>Parking\<close>

record park_side_effects =
  pe_retired_notices :: "ustr list"
  pe_retired_expired :: "ustr list"
  pe_evicted :: "evicted_transition list"

definition park_side_effects_default :: park_side_effects where
  "park_side_effects_default = \<lparr>pe_retired_notices = [], pe_retired_expired = [], pe_evicted = []\<rparr>"

record park_request =
  pq_msg_id :: ustr
  pq_sender_name :: ustr
  pq_from :: sender_identity
  pq_entrance :: entrance
  pq_recipient :: peer_id
  pq_recipient_name :: ustr
  pq_body :: ustr
  pq_kind :: park_kind
  pq_meta :: send_meta
  pq_expected_rows :: u16

definition build_parked :: "(peer_id \<Rightarrow> ustr) \<Rightarrow> park_request \<Rightarrow> park_payload \<Rightarrow> instant \<Rightarrow> u64 \<Rightarrow> parked_message" where
  "build_parked show_uuid req payload now seq = \<lparr>pm_msg_id = pq_msg_id req, pm_envelope = payload_encode show_uuid payload,
     pm_kind = pq_kind req, pm_parked_at = now, pm_admission_seq = seq\<rparr>"

fun retire_into ::
  "peer_id \<Rightarrow> instant \<Rightarrow> parked_message list \<Rightarrow> ledger \<Rightarrow> park_side_effects \<Rightarrow> ledger \<times> park_side_effects" where
  "retire_into r now [] l eff = (l, eff)"
| "retire_into r now (m # ms) l eff = (
     let expired = is_expired m now;
         intended = (if expired then Expired else Skipped);
         (l', ev) = transition_or_collect_evicted l (pm_msg_id m) r intended now (pe_evicted eff);
         eff1 = eff\<lparr>pe_evicted := ev\<rparr>;
         eff2 = (if expired then eff1\<lparr>pe_retired_expired := pe_retired_expired eff1 @ [pm_msg_id m]\<rparr>
                 else eff1\<lparr>pe_retired_notices := pe_retired_notices eff1 @ [pm_msg_id m]\<rparr>)
     in retire_into r now ms l' eff2)"

text \<open>On a bounce the early return leaves the store as \<^verbatim>\<open>park\<close> left it and writes nothing to the ledger.\<close>

definition park_into ::
  "(peer_id \<Rightarrow> ustr) \<Rightarrow> messaging_state \<Rightarrow> park_request \<Rightarrow> instant \<Rightarrow> park_side_effects
    \<Rightarrow> (park_error + unit) \<times> messaging_state \<times> park_side_effects" where
  "park_into show_uuid st req now eff = (
     let payload = \<lparr>pp_sender_name = pq_sender_name req, pp_from = pq_from req, pp_entrance = pq_entrance req,
                    pp_body = pq_body req, pp_meta = pq_meta req\<rparr>;
         parked = build_parked show_uuid req payload now 0
     in case park (st_mailbox st) (pq_recipient req) parked of
          (Inl e, mb) \<Rightarrow> (Inl e, st\<lparr>st_mailbox := mb\<rparr>, eff)
        | (Inr admitted, mb) \<Rightarrow>
            let (l, eff') = retire_into (pq_recipient req) now (pa_retired admitted) (st_ledger st) eff;
                l' = record_with_expected l (pq_msg_id req) (pq_sender_name req) (si_peer_id (pq_from req))
                       (pq_recipient_name req) (Some (pq_recipient req)) (pq_body req) Pending now (pq_expected_rows req)
            in (Inr (), st\<lparr>st_mailbox := mb, st_ledger := l'\<rparr>, eff'))"

definition NOTICE_SENDER_LABEL :: ustr where
  "NOTICE_SENDER_LABEL = lit ''engram''"

definition park_notice ::
  "(peer_id \<Rightarrow> ustr) \<Rightarrow> messaging_state \<Rightarrow> ustr \<Rightarrow> peer_id \<Rightarrow> ustr \<Rightarrow> ustr \<Rightarrow> instant \<Rightarrow> messaging_state \<times> park_side_effects" where
  "park_notice show_uuid st msg_id recipient rname body now =
     snd (park_into show_uuid st \<lparr>pq_msg_id = msg_id, pq_sender_name = NOTICE_SENDER_LABEL, pq_from = daemon_identity,
        pq_entrance = Daemon, pq_recipient = recipient, pq_recipient_name = rname, pq_body = body,
        pq_kind = Notice, pq_meta = send_meta_default, pq_expected_rows = 1\<rparr> now park_side_effects_default)"

record drawn_msg_id =
  dw_id :: ustr
  dw_collided :: "ustr option"
  dw_still_colliding :: bool

text \<open>The generator is a list of draws; the code takes one or two.\<close>

definition draw_daemon_msg_id_with :: "messaging_state \<Rightarrow> ustr \<Rightarrow> ustr \<Rightarrow> drawn_msg_id" where
  "draw_daemon_msg_id_with st draw1 draw2 = (
     if \<not> msg_id_in_use (st_ledger st) draw1
     then \<lparr>dw_id = draw1, dw_collided = None, dw_still_colliding = False\<rparr>
     else \<lparr>dw_id = draw2, dw_collided = Some draw1, dw_still_colliding = msg_id_in_use (st_ledger st) draw2\<rparr>)"

section \<open>Contract reservations\<close>

record reservation =
  rs_msg_id :: ustr
  rs_recipient_id :: peer_id
  rs_retired :: "retired_contract option"

abbreviation retired_key :: "retired_contract \<Rightarrow> contract_key" where
  "retired_key r \<equiv> (rt_request_id r, rt_recipient_id r)"

definition open_reservation ::
  "messaging_state \<Rightarrow> nat \<Rightarrow> ustr \<Rightarrow> peer_id \<Rightarrow> retired_contract option \<Rightarrow> reservation \<times> messaging_state" where
  "open_reservation st token msg_id rid retired =
     (\<lparr>rs_msg_id = msg_id, rs_recipient_id = rid, rs_retired = retired\<rparr>,
      st\<lparr>st_ledger := attach_reservation_liveness (st_ledger st) msg_id rid token\<rparr>)"

record retirement_log =
  rl_real :: "retired_contract list"
  rl_phantom :: "retired_contract list"

definition reservation_commit :: "reservation \<Rightarrow> messaging_state \<Rightarrow> retirement_log \<Rightarrow> messaging_state \<times> retirement_log" where
  "reservation_commit res st lg = (
     let (outcome, l) = commit_open (st_ledger st) (Some (rs_msg_id res, rs_recipient_id res))
                          (map_option retired_key (rs_retired res));
         lg' = (case rs_retired res of
                  None \<Rightarrow> lg
                | Some r \<Rightarrow> if co_retired outcome then lg\<lparr>rl_real := rl_real lg @ [r]\<rparr>
                            else lg\<lparr>rl_phantom := rl_phantom lg @ [r]\<rparr>)
     in (st\<lparr>st_ledger := l\<rparr>, lg'))"

definition rollback_reservation :: "messaging_state \<Rightarrow> ustr \<Rightarrow> peer_id \<Rightarrow> retired_contract option \<Rightarrow> messaging_state" where
  "rollback_reservation st msg_id rid retired =
     st\<lparr>st_ledger := snd (rollback_open (st_ledger st) (Some (msg_id, rid)) (map_option retired_key retired))\<rparr>"

definition reservation_rollback :: "reservation \<Rightarrow> messaging_state \<Rightarrow> messaging_state" where
  "reservation_rollback res st = rollback_reservation st (rs_msg_id res) (rs_recipient_id res) (rs_retired res)"

section \<open>Closing a reply contract under the lock\<close>

record reply_closing =
  cl_in_reply_to :: "ustr option"
  cl_replier_id :: peer_id
  cl_done :: "reply_outcome option"

definition close_in_lock :: "reply_closing \<Rightarrow> messaging_state \<Rightarrow> instant \<Rightarrow> reply_closing \<times> messaging_state" where
  "close_in_lock cl st now = (case cl_in_reply_to cl of
     None \<Rightarrow> (cl, st)
   | Some in_reply_to \<Rightarrow>
       if cl_done cl \<noteq> None then (cl, st)
       else let (out, l) = close_on_reply (st_ledger st) in_reply_to (cl_replier_id cl) now
            in (cl\<lparr>cl_done := Some out\<rparr>, st\<lparr>st_ledger := l\<rparr>))"

section \<open>The enqueue section of a send\<close>

text \<open>The arguments of \<^verbatim>\<open>handle_send\<close> other than the recipient tokens.\<close>

record send_args =
  sa_msg_id :: ustr
  sa_from :: sender_identity
  sa_sender_name :: ustr
  sa_body :: ustr
  sa_entrance :: entrance
  sa_meta :: send_meta

datatype recipient_plan = PlanPark peer_id bool "reservation option" | PlanFailed fail_code hint

definition record_failed ::
  "send_args \<Rightarrow> u16 \<Rightarrow> instant \<Rightarrow> resolved_recipient \<Rightarrow> peer_id option \<Rightarrow> messaging_state \<Rightarrow> messaging_state" where
  "record_failed a rows now r rid st = st\<lparr>st_ledger := record_with_expected (st_ledger st) (sa_msg_id a) (sa_sender_name a)
     (si_peer_id (sa_from a)) (recipient_name r) rid (sa_body a) Failed now rows\<rparr>"

datatype contract_step = ContractOk "reservation option" | ContractDuplicate | ContractFull

text \<open>Step 2-b: a request opens its contract before the capacity gate.\<close>

definition open_contract ::
  "(peer_id \<Rightarrow> nat) \<Rightarrow> send_args \<Rightarrow> instant \<Rightarrow> resolved_recipient \<Rightarrow> peer_id \<Rightarrow> messaging_state \<Rightarrow> contract_step \<times> messaging_state" where
  "open_contract tok a now r rid st = (
     if \<not> sm_request (sa_meta a) then (ContractOk None, st)
     else
       let reply_by = (case (sm_reply_by (sa_meta a), sm_reply_by_raw (sa_meta a)) of
                         (Some d, Some raw) \<Rightarrow> Some (d, raw) | _ \<Rightarrow> None);
           (out, l) = open_request (st_ledger st) (sa_msg_id a) (sa_sender_name a) (si_peer_id (sa_from a))
                        (recipient_name r) rid reply_by now;
           st1 = st\<lparr>st_ledger := l\<rparr>
       in case out of
            Opened \<Rightarrow> (let (res, st2) = open_reservation st1 (tok rid) (sa_msg_id a) rid None in (ContractOk (Some res), st2))
          | OpenedAfterMarking rc \<Rightarrow>
              (let (res, st2) = open_reservation st1 (tok rid) (sa_msg_id a) rid (Some rc) in (ContractOk (Some res), st2))
          | DuplicateId \<Rightarrow> (ContractDuplicate, st1)
          | Full \<Rightarrow> (ContractFull, st1))"

text \<open>The body of the pass A loop; the last component lists the names of duplicate contracts.\<close>

definition admit_one ::
  "(peer_id \<Rightarrow> nat) \<Rightarrow> send_args \<Rightarrow> u16 \<Rightarrow> ustr \<Rightarrow> instant \<Rightarrow> resolved_recipient \<Rightarrow> messaging_state
    \<Rightarrow> recipient_plan \<times> messaging_state \<times> ustr list" where
  "admit_one tok a rows roster_names now r st = (
     case admission r roster_names of
       Inl (code, h) \<Rightarrow> (PlanFailed code h, record_failed a rows now r None st, [])
     | Inr (rid, live) \<Rightarrow>
         let (cs, st1) = open_contract tok a now r rid st
         in case cs of
              ContractFull \<Rightarrow> (PlanFailed RequestCapacity (CapacityHint (rv_display r)), record_failed a rows now r (Some rid) st1, [])
            | _ \<Rightarrow>
                let contract = (case cs of ContractOk c \<Rightarrow> c | _ \<Rightarrow> None);
                    dup = (if cs = ContractDuplicate then [recipient_name r] else [])
                in if can_admit (st_mailbox st1) rid Message then (PlanPark rid live contract, st1, dup)
                   else let st2 = (case contract of None \<Rightarrow> st1 | Some res \<Rightarrow> reservation_rollback res st1)
                        in (PlanFailed FailMailboxFull (MailboxFullHint (rv_display r)),
                            record_failed a rows now r (Some rid) st2, dup))"

fun pass_a ::
  "(peer_id \<Rightarrow> nat) \<Rightarrow> send_args \<Rightarrow> u16 \<Rightarrow> ustr \<Rightarrow> instant \<Rightarrow> resolved_recipient list \<Rightarrow> messaging_state
    \<Rightarrow> recipient_plan list \<times> messaging_state \<times> ustr list" where
  "pass_a tok a rows names now [] st = ([], st, [])"
| "pass_a tok a rows names now (r # rs) st = (
     let (p, st1, d) = admit_one tok a rows names now r st;
         (ps, st2, ds) = pass_a tok a rows names now rs st1
     in (p # ps, st2, d @ ds))"

fun plan_failed :: "recipient_plan \<Rightarrow> bool" where
  "plan_failed (PlanFailed _ _) = True"
| "plan_failed (PlanPark _ _ _) = False"

definition freeze_meta :: "send_args \<Rightarrow> addressing \<Rightarrow> recipient_plan list \<Rightarrow> send_meta" where
  "freeze_meta a addr plans = (
     let admitted = map (\<lambda>p. \<not> plan_failed p) plans
     in (sa_meta a)\<lparr>sm_to_attr := (if 2 \<le> length (filter (\<lambda>ok. ok) admitted) then Some (build_to_attr addr admitted) else None)\<rparr>)"

record enqueue_acc =
  eq_effects :: park_side_effects
  eq_retirements :: retirement_log
  eq_closing :: reply_closing

text \<open>One parking target of pass B; the plan keeps no contract afterwards.\<close>

definition enqueue_one ::
  "(peer_id \<Rightarrow> ustr) \<Rightarrow> send_args \<Rightarrow> u16 \<Rightarrow> send_meta \<Rightarrow> instant \<Rightarrow> instant \<Rightarrow> resolved_recipient \<Rightarrow> recipient_plan \<Rightarrow>
    messaging_state \<Rightarrow> enqueue_acc \<Rightarrow> recipient_plan \<times> messaging_state \<times> enqueue_acc" where
  "enqueue_one show_uuid a rows meta now now2 r plan st acc = (case plan of
     PlanFailed code h \<Rightarrow> (plan, st, acc)
   | PlanPark rid live contract \<Rightarrow>
       (case park_into show_uuid st \<lparr>pq_msg_id = sa_msg_id a, pq_sender_name = sa_sender_name a, pq_from = sa_from a,
             pq_entrance = sa_entrance a, pq_recipient = rid, pq_recipient_name = recipient_name r, pq_body = sa_body a,
             pq_kind = Message, pq_meta = meta, pq_expected_rows = rows\<rparr> now (eq_effects acc) of
          (Inr _, st1, eff) \<Rightarrow>
            let (st2, lg) = (case contract of None \<Rightarrow> (st1, eq_retirements acc)
                             | Some res \<Rightarrow> reservation_commit res st1 (eq_retirements acc));
                (cl, st3) = close_in_lock (eq_closing acc) st2 now2
            in (PlanPark rid live None, st3, \<lparr>eq_effects = eff, eq_retirements = lg, eq_closing = cl\<rparr>)
        | (Inl _, st1, eff) \<Rightarrow>
            let st2 = (case contract of None \<Rightarrow> st1 | Some res \<Rightarrow> reservation_rollback res st1)
            in (PlanFailed FailMailboxFull (MailboxFullHint (rv_display r)),
                record_failed a rows now r (Some rid) st2, acc\<lparr>eq_effects := eff\<rparr>)))"

fun pass_b ::
  "(peer_id \<Rightarrow> ustr) \<Rightarrow> send_args \<Rightarrow> u16 \<Rightarrow> send_meta \<Rightarrow> instant \<Rightarrow> instant \<Rightarrow> (resolved_recipient \<times> recipient_plan) list \<Rightarrow>
    messaging_state \<Rightarrow> enqueue_acc \<Rightarrow> recipient_plan list \<times> messaging_state \<times> enqueue_acc" where
  "pass_b su a rows meta now now2 [] st acc = ([], st, acc)"
| "pass_b su a rows meta now now2 ((r, p) # rest) st acc = (
     let (p', st1, acc1) = enqueue_one su a rows meta now now2 r p st acc;
         (ps, st2, acc2) = pass_b su a rows meta now now2 rest st1 acc1
     in (p' # ps, st2, acc2))"

text \<open>\<^verbatim>\<open>u16::try_from(len).unwrap_or(u16::MAX)\<close>.\<close>

definition expected_rows_of :: "nat \<Rightarrow> u16" where
  "expected_rows_of n = (if n < 2 ^ 16 then of_nat n else 2 ^ 16 - 1)"

definition send_section ::
  "(peer_id \<Rightarrow> ustr) \<Rightarrow> (peer_id \<Rightarrow> nat) \<Rightarrow> send_args \<Rightarrow> addressing \<Rightarrow> ustr \<Rightarrow> instant \<Rightarrow> instant \<Rightarrow> messaging_state
    \<Rightarrow> (send_reject + (recipient_plan list \<times> enqueue_acc \<times> ustr list)) \<times> messaging_state" where
  "send_section su tok a addr names now now2 st = (
     if msg_id_in_use (st_ledger st) (sa_msg_id a) then (Inl RejIdCollision, st)
     else
       let rows = expected_rows_of (length (ad_recipients addr));
           (plans, st1, dups) = pass_a tok a rows names now (ad_recipients addr) st;
           meta = freeze_meta a addr plans;
           acc0 = \<lparr>eq_effects = park_side_effects_default, eq_retirements = \<lparr>rl_real = [], rl_phantom = []\<rparr>,
                   eq_closing = \<lparr>cl_in_reply_to = sm_reply_to (sa_meta a), cl_replier_id = si_peer_id (sa_from a), cl_done = None\<rparr>\<rparr>;
           (plans', st2, acc) = pass_b su a rows meta now now2 (zip (ad_recipients addr) plans) st1 acc0
       in (Inr (plans', acc, dups), st2))"

end
