(* ===== verification/Drain_Path.thy ===== *)
theory Drain_Path
  imports Messaging_State
begin

text \<open>
  The lock sections of a drain and of the maintenance entry points of
  \<^verbatim>\<open>crates/engram-dashboard-messaging/src/service.rs\<close>: the section of \<^verbatim>\<open>drain_queue\<close> that takes a batch, the
  sections that settle a delivered item or put the rest back, the release of the injection target
  and the collection of waiters, \<^verbatim>\<open>handle_profile_deleted\<close>, \<^verbatim>\<open>sweep\<close>, \<^verbatim>\<open>fail_reply_contract\<close> and the two
  queries. \<^verbatim>\<open>drain_queue\<close> and \<^verbatim>\<open>handle_send\<close> as a whole, with the ports they call between the
  sections, are in \<open>Messaging_Service\<close>.
\<close>

section \<open>Taking a batch\<close>

record drain_report =
  dr_injected :: "ustr list"
  dr_retreated :: bool
  dr_gated :: "busy_reason option"
  dr_caller_inject_error :: "ustr option"

definition drain_report_default :: drain_report where
  "drain_report_default = \<lparr>dr_injected = [], dr_retreated = False, dr_gated = None, dr_caller_inject_error = None\<rparr>"

definition gate_busy_reason :: "(peer_id \<Rightarrow> u32 \<Rightarrow> busy_reason option) \<Rightarrow> live_agent \<Rightarrow> busy_reason option" where
  "gate_busy_reason busy target = (if \<not> la_turn_signal target then None else busy (la_id target) (la_epoch target))"

text \<open>\<^verbatim>\<open>entry(key).or_default()\<close> followed by a push of an absent waiter.\<close>

definition add_waiter :: "peer_id \<Rightarrow> peer_id \<Rightarrow> (peer_id \<times> peer_id list) list \<Rightarrow> (peer_id \<times> peer_id list) list" where
  "add_waiter key w m = (
     let m1 = entry_or_default [] key m; ws = alist_get [] m1 key
     in if w \<in> set ws then m1 else AList.update key (ws @ [w]) m1)"

fun expire_into ::
  "peer_id \<Rightarrow> instant \<Rightarrow> parked_message list \<Rightarrow> ledger \<Rightarrow> evicted_transition list \<Rightarrow> ledger \<times> evicted_transition list" where
  "expire_into r now [] l ev = (l, ev)"
| "expire_into r now (m # ms) l ev = (
     let (l', ev') = transition_or_collect_evicted l (pm_msg_id m) r Expired now ev in expire_into r now ms l' ev')"

text \<open>\<open>Retreat\<close> is the deferral of step 0; \<open>Drained\<close> carries the receipt and the batch, if any.\<close>

datatype drained = Retreat | Drained flight_ticket "(live_agent \<times> parked_message list) option"

definition drain_section ::
  "(peer_id \<Rightarrow> u32 \<Rightarrow> busy_reason option) \<Rightarrow> peer_id \<Rightarrow> live_agent option \<Rightarrow> instant \<Rightarrow> messaging_state
    \<Rightarrow> drained \<times> drain_report \<times> evicted_transition list \<times> messaging_state" where
  "drain_section busy recipient target now st = (
     let report = drain_report_default
     in if 0 < in_flight_len (st_mailbox st) recipient
        then (Retreat, report\<lparr>dr_retreated := True\<rparr>, [],
              st\<lparr>st_deferred_flush := add_waiter recipient recipient (st_deferred_flush st)\<rparr>)
        else
          let (out, mb) = drain (st_mailbox st) recipient now;
              (l, ev) = expire_into recipient now (do_expired out) (st_ledger st) [];
              deliverable = do_deliverable out;
              st1 = st\<lparr>st_mailbox := mb, st_ledger := l\<rparr>;
              put_back = st1\<lparr>st_mailbox := restore_ordered mb recipient deliverable\<rparr>
          in if deliverable = [] then (Drained ticket_default None, report, ev, st1)
             else case target of
                    None \<Rightarrow> (Drained ticket_default None, report, ev, put_back)
                  | Some t \<Rightarrow>
                      if la_id t \<in> set (st_in_flight_targets st1)
                      then (Drained ticket_default None, report\<lparr>dr_retreated := True\<rparr>, ev,
                            put_back\<lparr>st_deferred_by_target := add_waiter (la_id t) recipient (st_deferred_by_target st1)\<rparr>)
                      else (case gate_busy_reason busy t of
                              Some reason \<Rightarrow> (Drained ticket_default None, report\<lparr>dr_gated := Some reason\<rparr>, ev, put_back)
                            | None \<Rightarrow>
                                let (flight, mb2) = take_in_flight mb recipient deliverable
                                in (Drained flight (Some (t, deliverable)), report, ev,
                                    st1\<lparr>st_mailbox := mb2, st_in_flight_targets := List.insert (la_id t) (st_in_flight_targets st1)\<rparr>)))"

section \<open>Settling\<close>

record flight_settle =
  fs_recipient :: peer_id
  fs_owed :: flight_ticket
  fs_targets :: "peer_id list"

definition flight_start :: "peer_id \<Rightarrow> flight_ticket \<Rightarrow> (live_agent \<times> parked_message list) option \<Rightarrow> flight_settle" where
  "flight_start recipient flight batch = \<lparr>fs_recipient = recipient, fs_owed = flight,
     fs_targets = (case batch of None \<Rightarrow> [] | Some (t, _) \<Rightarrow> [la_id t])\<rparr>"

definition settle_delivered :: "flight_settle \<Rightarrow> parked_message \<Rightarrow> instant \<Rightarrow> messaging_state \<Rightarrow> flight_settle \<times> messaging_state" where
  "settle_delivered fs m now st = (
     let (owed, settled) = ticket_split [pm_kind m] (fs_owed fs);
         l = snd (transition (st_ledger st) (pm_msg_id m) (fs_recipient fs) Delivered now)
     in (fs\<lparr>fs_owed := owed\<rparr>,
         st\<lparr>st_ledger := l, st_mailbox := settle_in_flight (st_mailbox st) (fs_recipient fs) settled\<rparr>))"

definition settle_failed :: "flight_settle \<Rightarrow> parked_message list \<Rightarrow> messaging_state \<Rightarrow> flight_settle \<times> messaging_state" where
  "settle_failed fs remaining st = (
     let (owed, settled) = ticket_split (map pm_kind remaining) (fs_owed fs)
     in (fs\<lparr>fs_owed := owed\<rparr>,
         st\<lparr>st_mailbox := settle_in_flight (restore_ordered (st_mailbox st) (fs_recipient fs) remaining) (fs_recipient fs) settled\<rparr>))"

definition release_targets :: "flight_settle \<Rightarrow> messaging_state \<Rightarrow> peer_id list \<times> flight_settle \<times> messaging_state" where
  "release_targets fs st = (
     if fs_targets fs = [] then ([], fs, st)
     else (fs_targets fs, fs\<lparr>fs_targets := []\<rparr>,
           st\<lparr>st_in_flight_targets := filter (\<lambda>t. t \<notin> set (fs_targets fs)) (st_in_flight_targets st)\<rparr>))"

definition flight_drop :: "flight_settle \<Rightarrow> messaging_state \<Rightarrow> messaging_state" where
  "flight_drop fs st = (
     if fs_targets fs = [] \<and> ticket_is_zero (fs_owed fs) then st
     else
       let st1 = st\<lparr>st_in_flight_targets := filter (\<lambda>t. t \<notin> set (fs_targets fs)) (st_in_flight_targets st)\<rparr>
       in if \<not> ticket_is_zero (fs_owed fs)
          then st1\<lparr>st_mailbox := settle_in_flight (st_mailbox st1) (fs_recipient fs) (fs_owed fs)\<rparr> else st1)"

fun merge_waiters :: "peer_id list \<Rightarrow> (peer_id \<times> peer_id list) list \<Rightarrow> peer_id list \<Rightarrow> peer_id list \<times> (peer_id \<times> peer_id list) list" where
  "merge_waiters [] m waiters = (waiters, m)"
| "merge_waiters (t # ts) m waiters =
     merge_waiters ts (AList.delete t m)
       (foldl (\<lambda>ws w. if w \<in> set ws then ws else ws @ [w]) waiters (alist_get [] m t))"

definition collect_waiters :: "peer_id \<Rightarrow> peer_id list \<Rightarrow> messaging_state \<Rightarrow> peer_id list \<times> messaging_state" where
  "collect_waiters recipient released st = (
     let (waiters, m) = merge_waiters released (st_deferred_by_target st) (alist_get [] (st_deferred_flush st) recipient)
     in (waiters, st\<lparr>st_deferred_flush := AList.delete recipient (st_deferred_flush st), st_deferred_by_target := m\<rparr>))"

section \<open>Maintenance\<close>

definition fail_reply_contract :: "messaging_state \<Rightarrow> ustr \<Rightarrow> peer_id \<Rightarrow> reply_fail_outcome \<times> messaging_state" where
  "fail_reply_contract st in_reply_to replier_id = (
     let (out, l) = fail_on_undeliverable_reply (st_ledger st) in_reply_to replier_id in (out, st\<lparr>st_ledger := l\<rparr>))"

record profile_deleted_outcome =
  po_skipped_live :: bool
  po_failed_parked :: nat
  po_failed_contracts :: nat
  po_guard_held_contracts :: nat

text \<open>The transitions of the purged items, with the evicted ones and the count of illegal ones.\<close>

fun fail_purged ::
  "peer_id \<Rightarrow> instant \<Rightarrow> parked_message list \<Rightarrow> ledger \<Rightarrow> evicted_transition list \<Rightarrow> nat \<Rightarrow> ledger \<times> evicted_transition list \<times> nat" where
  "fail_purged r now [] l ev illegal = (l, ev, illegal)"
| "fail_purged r now (m # ms) l ev illegal = (
     case fail_pending l (pm_msg_id m) r (fail_code_as_str RecipientDeleted) now of
       (Inr _, l') \<Rightarrow> fail_purged r now ms l' ev illegal
     | (Inl NotFound, l') \<Rightarrow>
         fail_purged r now ms l' (ev @ [\<lparr>et_msg_id = pm_msg_id m, et_recipient = r, et_intended = Failed\<rparr>]) illegal
     | (Inl (Illegal _ _), l') \<Rightarrow> fail_purged r now ms l' ev (illegal + 1))"

definition handle_profile_deleted ::
  "bool \<Rightarrow> peer_id \<Rightarrow> instant \<Rightarrow> messaging_state \<Rightarrow> profile_deleted_outcome \<times> messaging_state" where
  "handle_profile_deleted agent_live profile_id now st = (
     if agent_live
     then (\<lparr>po_skipped_live = True, po_failed_parked = 0, po_failed_contracts = 0, po_guard_held_contracts = 0\<rparr>, st)
     else
       let (purged, mb) = purge_recipient (st_mailbox st) profile_id;
           (l, ev, illegal) = fail_purged profile_id now purged (st_ledger st) [] 0;
           (contracts, l') = fail_open_requests_from l profile_id
       in (\<lparr>po_skipped_live = False, po_failed_parked = length purged, po_failed_contracts = length (rc_failed contracts),
            po_guard_held_contracts = rc_guard_held contracts\<rparr>,
           st\<lparr>st_mailbox := mb, st_ledger := l'\<rparr>))"

definition sweep_reclaim :: "(nat \<Rightarrow> bool) \<Rightarrow> messaging_state \<Rightarrow> contract_key list \<times> messaging_state" where
  "sweep_reclaim alive st = (let (ks, l) = reclaim_abandoned_reservations alive (st_ledger st) in (ks, st\<lparr>st_ledger := l\<rparr>))"

fun sweep_transitions ::
  "instant \<Rightarrow> expired_parked list \<Rightarrow> ledger \<Rightarrow> evicted_transition list \<Rightarrow> ledger \<times> evicted_transition list" where
  "sweep_transitions now [] l ev = (l, ev)"
| "sweep_transitions now (x # xs) l ev = (
     let (l', ev') = transition_or_collect_evicted l (pm_msg_id (ep_msg x)) (ep_recipient x) Expired now ev
     in sweep_transitions now xs l' ev')"

definition sweep_section :: "instant \<Rightarrow> messaging_state \<Rightarrow> due_timeout list \<times> evicted_transition list \<times> messaging_state" where
  "sweep_section now st = (
     let (expired, mb) = sweep_expired (st_mailbox st) now;
         (l, ev) = sweep_transitions now expired (st_ledger st) [];
         (out, l') = due_timeouts l now
     in (out, ev, st\<lparr>st_mailbox := mb, st_ledger := l'\<rparr>))"

section \<open>Queries\<close>

definition secs_since :: "instant \<Rightarrow> instant \<Rightarrow> nat" where
  "secs_since t now = (now - t) div nanos_per_sec"

fun status_label :: "delivery_status \<Rightarrow> ustr" where
  "status_label Pending = lit ''pending''"
| "status_label Delivered = lit ''delivered''"
| "status_label Replied = lit ''replied''"
| "status_label Expired = lit ''expired''"
| "status_label Skipped = lit ''skipped''"
| "status_label Failed = lit ''failed''"

record delivery_row_view =
  rw_to :: ustr
  rw_status :: ustr
  rw_age_secs :: nat
  rw_updated_secs_ago :: nat
  rw_code :: "ustr option"
  rw_hint :: "hint option"

record message_state_view =
  mv_id :: ustr
  mv_from :: ustr
  mv_awaiting_reply :: bool
  mv_may_be_truncated :: bool
  mv_rows :: "delivery_row_view list"

definition row_hint :: "ustr \<Rightarrow> hint option" where
  "row_hint code = (if code = fail_code_as_str RecipientDeleted then Some DeletedHint else None)"

definition row_view :: "instant \<Rightarrow> message_record \<Rightarrow> delivery_row_view" where
  "row_view now r = \<lparr>rw_to = mr_to r, rw_status = status_label (mr_status r), rw_age_secs = secs_since (mr_created_at r) now,
     rw_updated_secs_ago = secs_since (mr_transitioned_at r) now, rw_code = mr_fail_code r,
     rw_hint = Option.bind (mr_fail_code r) row_hint\<rparr>"

definition message_state :: "messaging_state \<Rightarrow> ustr \<Rightarrow> instant \<Rightarrow> message_state_view option" where
  "message_state st msg_id now = (
     let (records, truncated) = records_for_detailed (st_ledger st) msg_id;
         opn = find (\<lambda>r. ov_request_id r = msg_id) (open_requests (st_ledger st))
     in case records of
          [] \<Rightarrow> map_option (\<lambda>v. \<lparr>mv_id = msg_id, mv_from = ov_sender v, mv_awaiting_reply = True,
                   mv_may_be_truncated = True, mv_rows = []\<rparr>) opn
        | r # _ \<Rightarrow> Some \<lparr>mv_id = msg_id, mv_from = mr_from r, mv_awaiting_reply = (opn \<noteq> None),
                   mv_may_be_truncated = truncated, mv_rows = map (row_view now) records\<rparr>)"

datatype direction = OutboundPending | AwaitingTheirReply | ReplyOwedByMe

fun direction_as_str :: "direction \<Rightarrow> ustr" where
  "direction_as_str OutboundPending = lit ''outbound_pending''"
| "direction_as_str AwaitingTheirReply = lit ''awaiting_their_reply''"
| "direction_as_str ReplyOwedByMe = lit ''reply_owed_by_me''"

record open_item_view =
  oi_direction :: direction
  oi_id :: ustr
  oi_from :: ustr
  oi_to :: ustr
  oi_age_secs :: nat
  oi_reply_by :: "ustr option"
  oi_timed_out :: bool

definition pending_item :: "instant \<Rightarrow> message_record \<Rightarrow> open_item_view" where
  "pending_item now r = \<lparr>oi_direction = OutboundPending, oi_id = mr_msg_id r, oi_from = mr_from r, oi_to = mr_to r,
     oi_age_secs = secs_since (mr_created_at r) now, oi_reply_by = None, oi_timed_out = False\<rparr>"

definition contract_item :: "peer_id \<Rightarrow> instant \<Rightarrow> open_request_view \<Rightarrow> open_item_view option" where
  "contract_item me now v = (
     let item = (\<lambda>d. \<lparr>oi_direction = d, oi_id = ov_request_id v, oi_from = ov_sender v, oi_to = ov_recipient v,
           oi_age_secs = secs_since (ov_created_at v) now, oi_reply_by = ov_reply_by_raw v, oi_timed_out = ov_notified v\<rparr>)
     in if ov_recipient_id v = me then Some (item ReplyOwedByMe)
        else if ov_sender_id v = me then Some (item AwaitingTheirReply) else None)"

text \<open>The comparison of the final sort, as nested stable sorts from the last key to the first.\<close>

definition open_items_for :: "messaging_state \<Rightarrow> peer_id \<Rightarrow> instant \<Rightarrow> open_item_view list" where
  "open_items_for st me now = (
     let items = map (pending_item now) (filter (\<lambda>r. mr_from_id r = me \<and> mr_status r = Pending) (lg_history (st_ledger st)))
               @ List.map_filter (contract_item me now) (open_requests (st_ledger st))
     in sort_key (\<lambda>i. - int (oi_age_secs i)) (sort_key (\<lambda>i. direction_as_str (oi_direction i))
          (sort_key oi_id (sort_key oi_to items))))"

end
