(* ===== verification/Service_System.thy ===== *)
theory Service_System
  imports Drain_Path
begin

text \<open>
  The messaging service as a system of threads that interleave at lock sections. A thread that
  drains a queue holds a batch outside the lock between its sections; sends, notices, the sweep and
  profile deletion are single sections. \<open>ss_air\<close> (what is outside the lock, per queue) and \<open>ss_log\<close>
  (what was injected, per queue) are ghost state. The theory shows that the system refines the
  parking store's step system, that deliveries happen in admission order, that one drain at a time
  holds a queue and that no deferred drain is forgotten.
\<close>

section \<open>The system\<close>

datatype drain_phase =
    Idle
  | Flying flight_settle "parked_message list"
  | Landing "peer_id list" flight_settle
  | Waking peer_id "peer_id list"

record svc_sys =
  ss_st :: messaging_state
  ss_run :: "nat \<Rightarrow> drain_phase"
  ss_air :: "peer_id \<Rightarrow> parked_message list"
  ss_log :: "peer_id \<Rightarrow> parked_message list"

inductive svc_init :: "svc_sys \<Rightarrow> bool" where
  "svc_init \<lparr>ss_st = messaging_state_new, ss_run = (\<lambda>_. Idle), ss_air = (\<lambda>_. []), ss_log = (\<lambda>_. [])\<rparr>"

abbreviation batch_items :: "(live_agent \<times> parked_message list) option \<Rightarrow> parked_message list" where
  "batch_items b \<equiv> (case b of None \<Rightarrow> [] | Some (_, items) \<Rightarrow> items)"

fun phase_of :: "peer_id \<Rightarrow> drained \<Rightarrow> drain_phase" where
  "phase_of r Retreat = Idle"
| "phase_of r (Drained f b) = Flying (flight_start r f b) (batch_items b)"

fun taken :: "drained \<Rightarrow> parked_message list" where
  "taken Retreat = []"
| "taken (Drained f b) = batch_items b"

text \<open>
  The counter of admission numbers is 64 bits wide; a step that would wrap it is left out. The flag
  says whether a daemon notice may carry an id that the ledger already knows: the code redraws a
  colliding id once and then uses what it drew, and it checks the id in an earlier section than the
  one that parks the notice.
\<close>

inductive svc_step :: "bool \<Rightarrow> svc_sys \<Rightarrow> svc_sys \<Rightarrow> bool" where
  sv_send: "resolve_addressing pu builtin_resolve to (sa_from a) sources = Inr addr \<Longrightarrow>
    unat (mb_next_seq (st_mailbox (ss_st s))) + length (ad_recipients addr) < 2 ^ 64 \<Longrightarrow>
    svc_step anyid s (s\<lparr>ss_st := snd (send_section su tok a addr names now now2 (ss_st s))\<rparr>)"
| sv_notice: "anyid \<or> \<not> msg_id_in_use (st_ledger (ss_st s)) i \<Longrightarrow> mb_next_seq (st_mailbox (ss_st s)) \<noteq> - 1 \<Longrightarrow>
    svc_step anyid s (s\<lparr>ss_st := fst (park_notice su (ss_st s) i r rname body now)\<rparr>)"
| sv_drain: "ss_run s t = Idle \<Longrightarrow> (\<forall>a. target = Some a \<longrightarrow> la_id a = r) \<Longrightarrow>
    drain_section busy r target now (ss_st s) = (d, rep, ev, st') \<Longrightarrow>
    svc_step anyid s (s\<lparr>ss_st := st', ss_run := (ss_run s)(t := phase_of r d),
                  ss_air := (ss_air s)(r := taken d @ ss_air s r)\<rparr>)"
| sv_deliver: "ss_run s t = Flying fs (m # ms) \<Longrightarrow> settle_delivered fs m now (ss_st s) = (fs', st') \<Longrightarrow>
    svc_step anyid s (s\<lparr>ss_st := st', ss_run := (ss_run s)(t := Flying fs' ms),
                  ss_air := (ss_air s)(fs_recipient fs := ms),
                  ss_log := (ss_log s)(fs_recipient fs := ss_log s (fs_recipient fs) @ [m])\<rparr>)"
| sv_fail: "ss_run s t = Flying fs (m # ms) \<Longrightarrow> settle_failed fs (m # ms) (ss_st s) = (fs', st') \<Longrightarrow>
    svc_step anyid s (s\<lparr>ss_st := st', ss_run := (ss_run s)(t := Flying fs' []),
                  ss_air := (ss_air s)(fs_recipient fs := [])\<rparr>)"
| sv_release: "ss_run s t = Flying fs [] \<Longrightarrow> release_targets fs (ss_st s) = (rel, fs', st') \<Longrightarrow>
    svc_step anyid s (s\<lparr>ss_st := st', ss_run := (ss_run s)(t := Landing rel fs')\<rparr>)"
| sv_drop: "ss_run s t = Landing rel fs \<Longrightarrow>
    svc_step anyid s (s\<lparr>ss_st := flight_drop fs (ss_st s), ss_run := (ss_run s)(t := Waking (fs_recipient fs) rel)\<rparr>)"
| sv_wake: "ss_run s t = Waking r rel \<Longrightarrow>
    svc_step anyid s (s\<lparr>ss_st := snd (collect_waiters r rel (ss_st s)), ss_run := (ss_run s)(t := Idle)\<rparr>)"
| sv_delete: "svc_step anyid s (s\<lparr>ss_st := snd (handle_profile_deleted live p now (ss_st s))\<rparr>)"
| sv_reclaim: "svc_step anyid s (s\<lparr>ss_st := snd (sweep_reclaim alive (ss_st s))\<rparr>)"
| sv_sweep: "svc_step anyid s (s\<lparr>ss_st := snd (snd (sweep_section now (ss_st s)))\<rparr>)"
| sv_fail_reply: "svc_step anyid s (s\<lparr>ss_st := snd (fail_reply_contract (ss_st s) i r)\<rparr>)"

abbreviation svc_reachable :: "svc_sys \<Rightarrow> bool" where
  "svc_reachable \<equiv> reachable svc_init (svc_step True)"

abbreviation svc_reachable_fresh :: "svc_sys \<Rightarrow> bool" where
  "svc_reachable_fresh \<equiv> reachable svc_init (svc_step False)"

lemma svc_step_any: "svc_step anyid s s' \<Longrightarrow> svc_step True s s'"
  by (induction rule: svc_step.induct) (auto intro: svc_step.intros simp del: fun_upd_apply)

lemma svc_fresh_reachable: "svc_reachable_fresh s \<Longrightarrow> svc_reachable s"
  by (induction rule: reachable.induct) (blast intro: reach_init reach_step svc_step_any)+


section \<open>Effects of the sections on the store\<close>

text \<open>A number of parks in a row.\<close>

inductive parks :: "nat \<Rightarrow> mailbox \<Rightarrow> mailbox \<Rightarrow> bool" where
  parks_0: "parks 0 mb mb"
| parks_Suc: "parks n (snd (park mb r m)) mb' \<Longrightarrow> parks (Suc n) mb mb'"

lemma park_next_seq:
  "mb_next_seq (snd (park mb r m)) = mb_next_seq mb \<or> mb_next_seq (snd (park mb r m)) = mb_next_seq mb + 1"
proof (cases "park mb r m")
  case (Pair res mb')
  then show ?thesis by (cases res) (auto dest: park_InlD(3) park_InrD(5))
qed

lemma set_drop_first: "x \<in> set (drop_first n P xs) \<Longrightarrow> x \<in> set xs"
  by (induction n P xs rule: drop_first.induct) (auto split: if_splits)

lemma park_queue_new:
  assumes "x \<in> set (queue_of (snd (park mb r m)) r')"
  shows "x \<in> set (queue_of mb r') \<or> pm_admission_seq x = mb_next_seq mb"
proof (cases "park mb r m")
  case (Pair res mb')
  show ?thesis
  proof (cases res)
    case (Inl e)
    with Pair assms show ?thesis by (auto dest!: park_InlD(3))
  next
    case (Inr adm)
    with Pair assms park_InrD(3)[of mb r m adm mb' r'] show ?thesis by (auto dest: set_drop_first split: if_splits)
  qed
qed

lemma word_room:
  fixes n :: u64
  assumes "unat n + Suc k < 2 ^ 64"
  shows "n \<noteq> - 1" "unat (n + 1) + k < 2 ^ 64" "n \<le> n + 1"
  using unat_Suc_no_wrap[of n] assms by (auto simp: word_le_nat_alt)

lemma parks_store:
  assumes "parks n mb mb'" "unat (mb_next_seq mb) + n < 2 ^ 64"
  shows "mailbox_step\<^sup>*\<^sup>* \<lparr>ms_box = mb, ms_air = air\<rparr> \<lparr>ms_box = mb', ms_air = air\<rparr> \<and>
    mb_next_seq mb \<le> mb_next_seq mb' \<and>
    (\<forall>r. \<forall>x \<in> set (queue_of mb' r). x \<in> set (queue_of mb r) \<or> mb_next_seq mb \<le> pm_admission_seq x)"
  using assms
proof (induction)
  case (parks_Suc n mb r m mb')
  let ?mb = "snd (park mb r m)"
  note W = word_room[OF parks_Suc.prems]
  have room: "unat (mb_next_seq ?mb) + n < 2 ^ 64"
    using park_next_seq[of mb r m] W parks_Suc.prems by auto
  have le: "mb_next_seq mb \<le> mb_next_seq ?mb" using park_next_seq[of mb r m] W(3) by auto
  note IH = parks_Suc.IH[OF room]
  have "mailbox_step \<lparr>ms_box = mb, ms_air = air\<rparr> \<lparr>ms_box = ?mb, ms_air = air\<rparr>"
    using ms_park[of "\<lparr>ms_box = mb, ms_air = air\<rparr>" r m] W(1) by simp
  then have "mailbox_step\<^sup>*\<^sup>* \<lparr>ms_box = mb, ms_air = air\<rparr> \<lparr>ms_box = mb', ms_air = air\<rparr>"
    using IH by (meson converse_rtranclp_into_rtranclp)
  moreover have "x \<in> set (queue_of mb r') \<or> mb_next_seq mb \<le> pm_admission_seq x" if "x \<in> set (queue_of mb' r')" for r' x
  proof (cases "x \<in> set (queue_of ?mb r')")
    case True
    then show ?thesis using park_queue_new[OF True] by auto
  next
    case False
    then have "mb_next_seq ?mb \<le> pm_admission_seq x" using IH that by blast
    with le show ?thesis by (meson order_trans)
  qed
  ultimately show ?case using IH le by (auto intro: order_trans)
qed simp

text \<open>What a section leaves alone besides the store and the ledger.\<close>

definition same_drains :: "messaging_state \<Rightarrow> messaging_state \<Rightarrow> bool" where
  "same_drains st st' \<longleftrightarrow> st_deferred_flush st' = st_deferred_flush st \<and>
     st_in_flight_targets st' = st_in_flight_targets st \<and> st_deferred_by_target st' = st_deferred_by_target st"

lemma same_drains_refl [simp]: "same_drains st st"
  by (simp add: same_drains_def)

lemma same_drains_trans: "same_drains a b \<Longrightarrow> same_drains b c \<Longrightarrow> same_drains a c"
  by (simp add: same_drains_def)

lemma record_failed_frame [simp]:
  "st_mailbox (record_failed a rows now r rid st) = st_mailbox st" "same_drains st' (record_failed a rows now r rid st) = same_drains st' st"
  by (simp_all add: record_failed_def same_drains_def)

lemma reservation_frame [simp]:
  "st_mailbox (reservation_rollback res st) = st_mailbox st" "same_drains st' (reservation_rollback res st) = same_drains st' st"
  "st_mailbox (fst (reservation_commit res st lg)) = st_mailbox st" "same_drains st' (fst (reservation_commit res st lg)) = same_drains st' st"
  by (simp_all add: reservation_rollback_def rollback_reservation_def reservation_commit_def same_drains_def Let_def split: prod.split)

lemma open_contract_frame:
  "st_mailbox (snd (open_contract tok a now r rid st)) = st_mailbox st" "same_drains st (snd (open_contract tok a now r rid st))"
  by (auto simp: open_contract_def open_reservation_def same_drains_def Let_def split: prod.splits open_outcome.splits option.splits)

lemma admit_one_frame:
  "st_mailbox (fst (snd (admit_one tok a rows names now r st))) = st_mailbox st \<and> same_drains st (fst (snd (admit_one tok a rows names now r st)))"
proof (cases "admission r names")
  case (Inr x)
  obtain rid live where x: "x = (rid, live)" by fastforce
  obtain cs st1 where oc: "open_contract tok a now r rid st = (cs, st1)" by fastforce
  have "st_mailbox st1 = st_mailbox st" "same_drains st st1"
    using open_contract_frame(1)[of tok a now r rid st] open_contract_frame(2)[of st tok a now r rid] oc by simp_all
  then show ?thesis
    using Inr by (auto simp: admit_one_def Let_def x oc split: contract_step.split option.split)
qed (auto simp: admit_one_def split: prod.split)

lemma pass_a_frame:
  "st_mailbox (fst (snd (pass_a tok a rows names now rs st))) = st_mailbox st \<and> same_drains st (fst (snd (pass_a tok a rows names now rs st)))"
proof (induction rs arbitrary: st)
  case (Cons r rs)
  then show ?case using admit_one_frame[of tok a rows names now r st]
    by (auto simp: Let_def split: prod.splits) (metis fst_conv snd_conv same_drains_trans)+
qed simp

definition parked_of :: "(peer_id \<Rightarrow> ustr) \<Rightarrow> park_request \<Rightarrow> instant \<Rightarrow> parked_message" where
  "parked_of su req now = build_parked su req \<lparr>pp_sender_name = pq_sender_name req, pp_from = pq_from req,
     pp_entrance = pq_entrance req, pp_body = pq_body req, pp_meta = pq_meta req\<rparr> now 0"

lemma park_into_frame:
  assumes "park_into su st req now eff = (res, st', eff')"
  shows "st_mailbox st' = snd (park (st_mailbox st) (pq_recipient req) (parked_of su req now))" "same_drains st st'"
  using assms by (auto simp: park_into_def parked_of_def same_drains_def Let_def split: prod.splits sum.splits)

lemma close_in_lock_frame [simp]:
  "st_mailbox (snd (close_in_lock cl st now)) = st_mailbox st" "same_drains st' (snd (close_in_lock cl st now)) = same_drains st' st"
  by (auto simp: close_in_lock_def same_drains_def split: option.split prod.split)

lemma enqueue_one_store:
  assumes "enqueue_one su a rows meta now now2 r plan st acc = (plan', st', acc')"
  shows "(st_mailbox st' = st_mailbox st \<or> (\<exists>q m. st_mailbox st' = snd (park (st_mailbox st) q m))) \<and> same_drains st st'"
proof (cases plan)
  case (PlanPark rid live contract)
  let ?req = "\<lparr>pq_msg_id = sa_msg_id a, pq_sender_name = sa_sender_name a, pq_from = sa_from a,
             pq_entrance = sa_entrance a, pq_recipient = rid, pq_recipient_name = recipient_name r, pq_body = sa_body a,
             pq_kind = Message, pq_meta = meta, pq_expected_rows = rows\<rparr>"
  obtain res st1 eff where pi: "park_into su st ?req now (eq_effects acc) = (res, st1, eff)" by (metis prod_cases3)
  note F = park_into_frame[OF pi]
  have "st_mailbox st' = st_mailbox st1 \<and> same_drains st1 st'"
  proof (cases res)
    case (Inl e)
    then show ?thesis using assms PlanPark pi by (auto simp: enqueue_one_def Let_def split: option.splits)
  next
    case (Inr u)
    obtain st2 lg where c: "(case contract of None \<Rightarrow> (st1, eq_retirements acc) | Some x \<Rightarrow> reservation_commit x st1 (eq_retirements acc)) = (st2, lg)"
      by fastforce
    then have "st_mailbox st2 = st_mailbox st1 \<and> same_drains st1 st2"
      by (cases contract) (auto dest!: arg_cong[of _ _ fst])
    moreover have "st' = snd (close_in_lock (eq_closing acc) st2 now2)"
      using assms PlanPark pi Inr c by (auto simp: enqueue_one_def Let_def split: prod.splits)
    ultimately show ?thesis by simp
  qed
  then show ?thesis using F(1) same_drains_trans[OF F(2)] by auto
qed (use assms in \<open>auto simp: enqueue_one_def\<close>)

lemma pass_b_store:
  assumes "pass_b su a rows meta now now2 xs st acc = (ps, st', acc')"
  shows "(\<exists>n \<le> length xs. parks n (st_mailbox st) (st_mailbox st')) \<and> same_drains st st'"
  using assms
proof (induction xs arbitrary: st acc ps)
  case (Cons x xs)
  obtain r p where x: "x = (r, p)" by fastforce
  obtain p1 st1 acc1 where one: "enqueue_one su a rows meta now now2 r p st acc = (p1, st1, acc1)" by (metis prod_cases3)
  obtain ps2 where rest: "pass_b su a rows meta now now2 xs st1 acc1 = (ps2, st', acc')"
    using Cons.prems by (auto simp: x one Let_def split: prod.splits)
  note E = enqueue_one_store[OF one] and I = Cons.IH[OF rest]
  from I obtain n where n: "n \<le> length xs" "parks n (st_mailbox st1) (st_mailbox st')" by blast
  have "\<exists>n \<le> length (x # xs). parks n (st_mailbox st) (st_mailbox st')"
    using E n parks_Suc by (metis le_SucI length_Cons Suc_le_mono)
  with E I show ?case by (blast intro: same_drains_trans)
qed (auto intro: parks_0)

lemma send_section_store:
  shows "\<exists>n \<le> length (ad_recipients addr). parks n (st_mailbox st) (st_mailbox (snd (send_section su tok a addr names now now2 st)))"
    and "same_drains st (snd (send_section su tok a addr names now now2 st))"
proof -
  let ?rows = "expected_rows_of (length (ad_recipients addr))"
  obtain plans st1 dups where pa: "pass_a tok a ?rows names now (ad_recipients addr) st = (plans, st1, dups)" by (metis prod_cases3)
  let ?acc = "\<lparr>eq_effects = park_side_effects_default, eq_retirements = \<lparr>rl_real = [], rl_phantom = []\<rparr>,
                   eq_closing = \<lparr>cl_in_reply_to = sm_reply_to (sa_meta a), cl_replier_id = si_peer_id (sa_from a), cl_done = None\<rparr>\<rparr>"
  obtain ps st2 acc2 where pb: "pass_b su a ?rows (freeze_meta a addr plans) now now2 (zip (ad_recipients addr) plans) st1 ?acc = (ps, st2, acc2)"
    by (metis prod_cases3)
  have A: "st_mailbox st1 = st_mailbox st" "same_drains st st1"
    using pass_a_frame[of tok a ?rows names now "ad_recipients addr" st] pa by simp_all
  have B: "(\<exists>n \<le> length (ad_recipients addr). parks n (st_mailbox st1) (st_mailbox st2)) \<and> same_drains st1 st2"
    using pass_b_store[OF pb] by (metis length_zip min.cobounded1 order_trans)
  have "snd (send_section su tok a addr names now now2 st) = (if msg_id_in_use (st_ledger st) (sa_msg_id a) then st else st2)"
    by (simp add: send_section_def pa pb Let_def)
  then show "\<exists>n \<le> length (ad_recipients addr). parks n (st_mailbox st) (st_mailbox (snd (send_section su tok a addr names now now2 st)))"
    "same_drains st (snd (send_section su tok a addr names now now2 st))"
    using A B parks_0 by (auto intro: same_drains_trans)
qed

text \<open>The three ways a drain section ends.\<close>

lemma drain_section_cases:
  assumes run: "drain_section busy r target now st = (d, rep, ev, st')" and tgt: "\<forall>a. target = Some a \<longrightarrow> la_id a = r"
  obtains (retreat) "0 < in_flight_len (st_mailbox st) r" "d = Retreat"
      "st' = st\<lparr>st_deferred_flush := add_waiter r r (st_deferred_flush st)\<rparr>"
  | (keep) "in_flight_len (st_mailbox st) r = 0" "d = Drained ticket_default None"
      "st_mailbox st' = restore_ordered (snd (drain (st_mailbox st) r now)) r (do_deliverable (fst (drain (st_mailbox st) r now)))"
      "st_in_flight_targets st' = st_in_flight_targets st" "st_deferred_flush st' = st_deferred_flush st"
      "st_deferred_by_target st' = st_deferred_by_target st \<or>
       r \<in> set (st_in_flight_targets st) \<and> st_deferred_by_target st' = add_waiter r r (st_deferred_by_target st)"
      "st_ledger st' = fst (expire_into r now (do_expired (fst (drain (st_mailbox st) r now))) (st_ledger st) [])"
  | (fly) a items where "in_flight_len (st_mailbox st) r = 0" "la_id a = r" "items \<noteq> []"
      "items = do_deliverable (fst (drain (st_mailbox st) r now))" "d = Drained (ticket_of items) (Some (a, items))"
      "st_mailbox st' = snd (take_in_flight (snd (drain (st_mailbox st) r now)) r items)"
      "r \<notin> set (st_in_flight_targets st)" "st_in_flight_targets st' = List.insert r (st_in_flight_targets st)"
      "st_deferred_flush st' = st_deferred_flush st" "st_deferred_by_target st' = st_deferred_by_target st"
      "st_ledger st' = fst (expire_into r now (do_expired (fst (drain (st_mailbox st) r now))) (st_ledger st) [])"
proof (cases "0 < in_flight_len (st_mailbox st) r")
  case True
  then show ?thesis using run retreat by (auto simp: drain_section_def Let_def)
next
  case False
  obtain out mb where dr: "drain (st_mailbox st) r now = (out, mb)" by fastforce
  obtain l ev1 where ex: "expire_into r now (do_expired out) (st_ledger st) [] = (l, ev1)" by fastforce
  have restore: "restore_ordered mb r [] = mb" by (simp add: restore_ordered_def)
  have tk: "take_in_flight mb r (do_deliverable out) = (ticket_of (do_deliverable out), snd (take_in_flight mb r (do_deliverable out)))"
    by (metis prod.collapse take_effect(1))
  consider (empty) "do_deliverable out = []" | (none) "do_deliverable out \<noteq> []" "target = None"
    | (held) a where "do_deliverable out \<noteq> []" "target = Some a" "la_id a = r" "r \<in> set (st_in_flight_targets st)"
    | (busy) a reason where "do_deliverable out \<noteq> []" "target = Some a" "la_id a = r" "r \<notin> set (st_in_flight_targets st)" "gate_busy_reason busy a = Some reason"
    | (go) a where "do_deliverable out \<noteq> []" "target = Some a" "la_id a = r" "r \<notin> set (st_in_flight_targets st)" "gate_busy_reason busy a = None"
    using tgt by (cases target; cases "r \<in> set (st_in_flight_targets st)"; cases "gate_busy_reason busy (the target)") auto
  then show ?thesis
  proof cases
    case go
    show ?thesis
      by (rule fly[of a "do_deliverable out"])
        (use go False run[symmetric] tk in \<open>simp_all add: drain_section_def dr ex Let_def split: prod.splits\<close>)
  next
    case empty
    then show ?thesis by - (rule keep, use False run[symmetric] restore in \<open>simp_all add: drain_section_def dr ex Let_def\<close>)
  next
    case none
    then show ?thesis by - (rule keep, use False run[symmetric] in \<open>simp_all add: drain_section_def dr ex Let_def\<close>)
  next
    case held
    then show ?thesis by - (rule keep, use False run[symmetric] in \<open>simp_all add: drain_section_def dr ex Let_def\<close>)
  next
    case busy
    then show ?thesis by - (rule keep, use False run[symmetric] in \<open>simp_all add: drain_section_def dr ex Let_def\<close>)
  qed
qed

section \<open>The invariant\<close>

abbreviation store_of :: "svc_sys \<Rightarrow> mail_sys" where
  "store_of s \<equiv> \<lparr>ms_box = st_mailbox (ss_st s), ms_air = ss_air s\<rparr>"

definition holds_target :: "drain_phase \<Rightarrow> peer_id \<Rightarrow> bool" where
  "holds_target p r \<longleftrightarrow> (case p of Flying fs _ \<Rightarrow> r \<in> set (fs_targets fs) | _ \<Rightarrow> False)"

definition will_wake :: "drain_phase \<Rightarrow> peer_id \<Rightarrow> bool" where
  "will_wake p r \<longleftrightarrow> (case p of Idle \<Rightarrow> False | Flying fs _ \<Rightarrow> fs_recipient fs = r
     | Landing _ fs \<Rightarrow> fs_recipient fs = r | Waking q _ \<Rightarrow> q = r)"

definition will_wake_target :: "drain_phase \<Rightarrow> peer_id \<Rightarrow> bool" where
  "will_wake_target p r \<longleftrightarrow> (case p of Idle \<Rightarrow> False | Flying fs _ \<Rightarrow> r \<in> set (fs_targets fs)
     | Landing rel _ \<Rightarrow> r \<in> set rel | Waking _ rel \<Rightarrow> r \<in> set rel)"

lemmas phase_defs = holds_target_def will_wake_def will_wake_target_def

text \<open>A thread's phase against the airborne items of the queues.\<close>

definition phase_ok :: "(peer_id \<Rightarrow> parked_message list) \<Rightarrow> drain_phase \<Rightarrow> bool" where
  "phase_ok air p \<longleftrightarrow> (case p of
     Flying fs items \<Rightarrow> fs_owed fs = ticket_of items \<and> (fs_targets fs = [] \<or> fs_targets fs = [fs_recipient fs]) \<and>
       (items \<noteq> [] \<longrightarrow> fs_targets fs = [fs_recipient fs] \<and> air (fs_recipient fs) = items)
   | Landing rel fs \<Rightarrow> ticket_is_zero (fs_owed fs) \<and> fs_targets fs = []
   | _ \<Rightarrow> True)"

definition run_inv :: "svc_sys \<Rightarrow> bool" where
  "run_inv s \<longleftrightarrow> (\<forall>t. phase_ok (ss_air s) (ss_run s t)) \<and>
     (\<forall>r. r \<in> set (st_in_flight_targets (ss_st s)) \<longleftrightarrow> (\<exists>t. holds_target (ss_run s t) r)) \<and>
     (\<forall>t t' r. holds_target (ss_run s t) r \<longrightarrow> holds_target (ss_run s t') r \<longrightarrow> t = t') \<and>
     (\<forall>r. ss_air s r \<noteq> [] \<longrightarrow> (\<exists>t fs. ss_run s t = Flying fs (ss_air s r) \<and> fs_recipient fs = r))"

definition order_inv :: "svc_sys \<Rightarrow> bool" where
  "order_inv s \<longleftrightarrow> (\<forall>r. seq_asc (ss_log s r) \<and>
     (\<forall>x \<in> set (ss_log s r). pm_admission_seq x < mb_next_seq (st_mailbox (ss_st s)) \<and>
        (\<forall>y \<in> set (ss_air s r) \<union> set (queue_of (st_mailbox (ss_st s)) r). pm_admission_seq x < pm_admission_seq y)) \<and>
     (\<forall>x \<in> set (ss_air s r). \<forall>y \<in> set (queue_of (st_mailbox (ss_st s)) r). pm_admission_seq x < pm_admission_seq y))"

definition wait_inv :: "svc_sys \<Rightarrow> bool" where
  "wait_inv s \<longleftrightarrow> (\<forall>r. alist_get [] (st_deferred_flush (ss_st s)) r \<in> {[], [r]} \<and>
     alist_get [] (st_deferred_by_target (ss_st s)) r \<in> {[], [r]} \<and>
     (alist_get [] (st_deferred_flush (ss_st s)) r \<noteq> [] \<longrightarrow> (\<exists>t. will_wake (ss_run s t) r)) \<and>
     (alist_get [] (st_deferred_by_target (ss_st s)) r \<noteq> [] \<longrightarrow> (\<exists>t. will_wake_target (ss_run s t) r)))"

definition svc_inv :: "svc_sys \<Rightarrow> bool" where
  "svc_inv s \<longleftrightarrow> mailbox_inv (store_of s) \<and> run_inv s \<and> order_inv s \<and> wait_inv s"

lemma svc_inv_init: "svc_init s \<Longrightarrow> svc_inv s"
  using mailbox_inv_init[OF mailbox_init.intros]
  by (auto elim!: svc_init.cases simp: svc_inv_def run_inv_def order_inv_def wait_inv_def messaging_state_new_def phase_ok_def phase_defs)

text \<open>Sections that no drain takes part in.\<close>

lemma svc_inv_frame:
  assumes inv: "svc_inv s" and steps: "mailbox_step\<^sup>*\<^sup>* (store_of s) (store_of (s\<lparr>ss_st := st'\<rparr>))"
    and same: "same_drains (ss_st s) st'"
    and le: "mb_next_seq (st_mailbox (ss_st s)) \<le> mb_next_seq (st_mailbox st')"
    and q: "\<forall>r. \<forall>x \<in> set (queue_of (st_mailbox st') r). x \<in> set (queue_of (st_mailbox (ss_st s)) r) \<or>
       mb_next_seq (st_mailbox (ss_st s)) \<le> pm_admission_seq x"
  shows "svc_inv (s\<lparr>ss_st := st'\<rparr>)"
proof -
  have mb: "mailbox_inv (store_of (s\<lparr>ss_st := st'\<rparr>))"
    using mbx.inv_star[OF steps] inv by (simp add: svc_inv_def)
  have air: "x \<in> set (ss_air s r) \<Longrightarrow> pm_admission_seq x < mb_next_seq (st_mailbox (ss_st s))" for x r
    using inv by (auto simp: svc_inv_def mailbox_inv_def lane_inv_def)
  have old: "order_inv s" using inv by (simp add: svc_inv_def)
  have "order_inv (s\<lparr>ss_st := st'\<rparr>)"
    unfolding order_inv_def
  proof (intro allI conjI ballI)
    fix r
    show "seq_asc (ss_log (s\<lparr>ss_st := st'\<rparr>) r)" using old by (simp add: order_inv_def)
  next
    fix r x assume x: "x \<in> set (ss_log (s\<lparr>ss_st := st'\<rparr>) r)"
    then have lt: "pm_admission_seq x < mb_next_seq (st_mailbox (ss_st s))" using old by (simp add: order_inv_def)
    with le show "pm_admission_seq x < mb_next_seq (st_mailbox (ss_st (s\<lparr>ss_st := st'\<rparr>)))" by simp
    fix y assume "y \<in> set (ss_air (s\<lparr>ss_st := st'\<rparr>) r) \<union> set (queue_of (st_mailbox (ss_st (s\<lparr>ss_st := st'\<rparr>))) r)"
    then have "y \<in> set (ss_air s r) \<union> set (queue_of (st_mailbox (ss_st s)) r) \<or> mb_next_seq (st_mailbox (ss_st s)) \<le> pm_admission_seq y"
      using q by auto
    with lt x old show "pm_admission_seq x < pm_admission_seq y" unfolding order_inv_def by (auto intro: less_le_trans)
  next
    fix r x y assume x: "x \<in> set (ss_air (s\<lparr>ss_st := st'\<rparr>) r)" and y: "y \<in> set (queue_of (st_mailbox (ss_st (s\<lparr>ss_st := st'\<rparr>))) r)"
    from y have "y \<in> set (queue_of (st_mailbox (ss_st s)) r) \<or> mb_next_seq (st_mailbox (ss_st s)) \<le> pm_admission_seq y"
      using q by auto
    with x air[of x r] old show "pm_admission_seq x < pm_admission_seq y" unfolding order_inv_def by (auto intro: less_le_trans)
  qed
  with mb inv same show ?thesis
    by (auto simp: svc_inv_def run_inv_def wait_inv_def same_drains_def)
qed

section \<open>Steps of a drain\<close>

lemma alist_get_add_waiter:
  "alist_get [] (add_waiter k w m) k' = (if k' = k then (if w \<in> set (alist_get [] m k) then alist_get [] m k else alist_get [] m k @ [w])
     else alist_get [] m k')"
  by (simp add: add_waiter_def Let_def)

lemma take_nothing [simp]: "snd (take_in_flight mb r []) = mb"
  by (simp add: take_in_flight_def Let_def)

lemma restore_nothing [simp]: "restore_ordered mb r [] = mb"
  by (simp add: restore_ordered_def)

lemma count_list_kinds: "count_list (map pm_kind ms) k = lane_count k ms"
  by (induction ms) auto

lemma ticket_split_batch:
  "ticket_split [pm_kind m] (ticket_of (m # ms)) = (ticket_of ms, ticket_of [m])"
  "ticket_split (map pm_kind ms) (ticket_of ms) = (ticket_default, ticket_of ms)"
proof -
  obtain a b where ab: "ticket_split_loop [pm_kind m] (ticket_of (m # ms)) ticket_default = (a, b)" by fastforce
  have "a = ticket_of ms" "b = ticket_of [m]"
    by (rule ticket_eqI, use ticket_split_loop_lanes[OF ab] in \<open>auto simp del: ticket_of_Nil\<close>)+
  then show "ticket_split [pm_kind m] (ticket_of (m # ms)) = (ticket_of ms, ticket_of [m])"
    by (simp only: ticket_split_def ab)
  obtain c d where cd: "ticket_split_loop (map pm_kind ms) (ticket_of ms) ticket_default = (c, d)" by fastforce
  have "c = ticket_default" "d = ticket_of ms"
    by (rule ticket_eqI, use ticket_split_loop_lanes[OF cd] in \<open>simp add: count_list_kinds\<close>)+
  then show "ticket_split (map pm_kind ms) (ticket_of ms) = (ticket_default, ticket_of ms)"
    by (simp only: ticket_split_def cd)
qed

lemma air_flight:
  assumes "svc_inv s"
  shows "in_flight_len (st_mailbox (ss_st s)) r = length (ss_air s r)"
  using assms length_lanes[of "ss_air s r"] by (simp add: svc_inv_def mailbox_inv_def in_flight_len_lanes)

lemma flying_air:
  assumes "svc_inv s" "ss_run s t = Flying fs (m # ms)"
  shows "ss_air s (fs_recipient fs) = m # ms" "fs_owed fs = ticket_of (m # ms)" "fs_targets fs = [fs_recipient fs]"
proof -
  have "phase_ok (ss_air s) (ss_run s t)" using assms(1) by (simp add: svc_inv_def run_inv_def)
  then show "ss_air s (fs_recipient fs) = m # ms" "fs_owed fs = ticket_of (m # ms)" "fs_targets fs = [fs_recipient fs]"
    using assms(2) by (simp_all add: phase_ok_def)
qed

text \<open>The store's side of the drain steps.\<close>

lemma store_keep:
  "mailbox_step s \<lparr>ms_box = restore_ordered (snd (drain (ms_box s) r now)) r (do_deliverable (fst (drain (ms_box s) r now))), ms_air = ms_air s\<rparr>"
  using ms_take[where s = s and r = r and now = now and P = "\<lambda>_. False", OF prod.collapse[symmetric] refl refl] by simp

lemma store_fly:
  assumes "ms_air s r = []"
  shows "mailbox_step s \<lparr>ms_box = snd (take_in_flight (snd (drain (ms_box s) r now)) r (do_deliverable (fst (drain (ms_box s) r now)))),
     ms_air = (ms_air s)(r := do_deliverable (fst (drain (ms_box s) r now)))\<rparr>"
  using ms_take[where s = s and r = r and now = now and P = "\<lambda>_. True", OF prod.collapse[symmetric] refl refl] assms by simp

lemma seq_head_filter:
  assumes "seq_asc (m # ms)"
  shows "filter (\<lambda>x. pm_admission_seq x = pm_admission_seq m) (m # ms) = [m]"
    "filter (\<lambda>x. pm_admission_seq x \<noteq> pm_admission_seq m) (m # ms) = ms"
  using assms by (auto simp: filter_empty_conv filter_id_conv)

lemma store_deliver:
  assumes "mailbox_inv s" "ms_air s r = m # ms"
  shows "mailbox_step s \<lparr>ms_box = settle_in_flight (ms_box s) r (ticket_of [m]), ms_air = (ms_air s)(r := ms)\<rparr>"
proof -
  have "seq_asc (m # ms)" using assms by (metis mailbox_inv_def lane_inv_def)
  from seq_head_filter[OF this] show ?thesis
    using ms_settle[of s r "\<lambda>x. pm_admission_seq x = pm_admission_seq m"] unfolding assms(2) by simp
qed

lemma store_fail:
  assumes "ms_air s r = items"
  shows "mailbox_step s \<lparr>ms_box = settle_in_flight (restore_ordered (ms_box s) r items) r (ticket_of items), ms_air = (ms_air s)(r := [])\<rparr>"
  using ms_restore[of items "\<lambda>_. True" s r] assms by simp

text \<open>Invariant and refinement, step by step.\<close>

definition step_ok :: "svc_sys \<Rightarrow> svc_sys \<Rightarrow> bool" where
  "step_ok s s' \<longleftrightarrow> svc_inv s' \<and> mailbox_step\<^sup>*\<^sup>* (store_of s) (store_of s')"

lemma step_okI:
  assumes "svc_inv s" "mailbox_step\<^sup>*\<^sup>* (store_of s) (store_of s')" "run_inv s'" "order_inv s'" "wait_inv s'"
  shows "step_ok s s'"
  using assms mbx.inv_star[OF assms(2)] by (simp add: step_ok_def svc_inv_def)

lemma frame_ok:
  assumes "svc_inv s" "mailbox_step\<^sup>*\<^sup>* (store_of s) (store_of (s\<lparr>ss_st := st'\<rparr>))" "same_drains (ss_st s) st'"
    "mb_next_seq (st_mailbox (ss_st s)) \<le> mb_next_seq (st_mailbox st')"
    "\<forall>r. \<forall>x \<in> set (queue_of (st_mailbox st') r). x \<in> set (queue_of (st_mailbox (ss_st s)) r) \<or>
       mb_next_seq (st_mailbox (ss_st s)) \<le> pm_admission_seq x"
  shows "step_ok s (s\<lparr>ss_st := st'\<rparr>)"
  using svc_inv_frame[OF assms] assms(2) by (simp add: step_ok_def)

lemma parks_ok:
  assumes "svc_inv s" "parks n (st_mailbox (ss_st s)) (st_mailbox st')" "unat (mb_next_seq (st_mailbox (ss_st s))) + n < 2 ^ 64"
    "same_drains (ss_st s) st'"
  shows "step_ok s (s\<lparr>ss_st := st'\<rparr>)"
  using parks_store[OF assms(2,3), of "ss_air s"] assms(1,4) by (intro frame_ok) auto

lemma same_store_ok:
  assumes "svc_inv s" "st_mailbox st' = st_mailbox (ss_st s)" "same_drains (ss_st s) st'"
  shows "step_ok s (s\<lparr>ss_st := st'\<rparr>)"
  using assms by (intro frame_ok) auto

lemma purge_ok:
  assumes inv: "svc_inv s"
  shows "step_ok s (s\<lparr>ss_st := snd (handle_profile_deleted live p now (ss_st s))\<rparr>)"
proof (cases live)
  case True
  then show ?thesis using same_store_ok[OF inv, of "ss_st s"] by (simp add: handle_profile_deleted_def)
next
  case False
  let ?st = "snd (handle_profile_deleted live p now (ss_st s))"
  have mb: "st_mailbox ?st = snd (purge_recipient (st_mailbox (ss_st s)) p)" "same_drains (ss_st s) ?st"
    using False by (auto simp: handle_profile_deleted_def same_drains_def Let_def split: prod.splits)
  have "mailbox_step (store_of s) (store_of (s\<lparr>ss_st := ?st\<rparr>))"
    using ms_purge[of "store_of s" p] by (simp add: mb)
  then show ?thesis using mb by (intro frame_ok[OF inv]) auto
qed

lemma sweep_ok:
  assumes inv: "svc_inv s"
  shows "step_ok s (s\<lparr>ss_st := snd (snd (sweep_section now (ss_st s)))\<rparr>)"
proof -
  let ?st = "snd (snd (sweep_section now (ss_st s)))"
  have mb: "st_mailbox ?st = snd (sweep_expired (st_mailbox (ss_st s)) now)" "same_drains (ss_st s) ?st"
    by (auto simp: sweep_section_def same_drains_def Let_def split: prod.splits)
  have "mailbox_step (store_of s) (store_of (s\<lparr>ss_st := ?st\<rparr>))"
    using ms_sweep[of "store_of s" now] by (simp add: mb)
  moreover have "keys_distinct (st_mailbox (ss_st s))" using inv by (simp add: svc_inv_def mailbox_inv_def)
  ultimately show ?thesis using mb by (intro frame_ok[OF inv]) auto
qed

lemma notice_ok:
  assumes inv: "svc_inv s" and n: "mb_next_seq (st_mailbox (ss_st s)) \<noteq> - 1"
  shows "step_ok s (s\<lparr>ss_st := fst (park_notice su (ss_st s) i r rname body now)\<rparr>)"
proof -
  let ?n = "mb_next_seq (st_mailbox (ss_st s))"
  let ?req = "\<lparr>pq_msg_id = i, pq_sender_name = NOTICE_SENDER_LABEL, pq_from = daemon_identity,
        pq_entrance = Daemon, pq_recipient = r, pq_recipient_name = rname, pq_body = body,
        pq_kind = Notice, pq_meta = send_meta_default, pq_expected_rows = 1\<rparr>"
  obtain res st' eff where pi: "park_into su (ss_st s) ?req now park_side_effects_default = (res, st', eff)" by (metis prod_cases3)
  have "?n < ?n + 1" using n by (rule word_less_Suc)
  then have "Suc (unat ?n) < 2 ^ 64"
    using unat_bound[of "?n + 1"] by (simp add: word_less_nat_alt)
  moreover have "parks 1 (st_mailbox (ss_st s)) (st_mailbox st')"
    unfolding park_into_frame(1)[OF pi] by (auto intro: parks.intros)
  ultimately show ?thesis
    using parks_ok[OF inv _ _ park_into_frame(2)[OF pi], of 1] pi by (simp add: park_notice_def)
qed

lemma svc_invD:
  assumes "svc_inv s"
  shows "mailbox_inv (store_of s)" "\<And>t. phase_ok (ss_air s) (ss_run s t)"
    "\<And>r. r \<in> set (st_in_flight_targets (ss_st s)) \<longleftrightarrow> (\<exists>t. holds_target (ss_run s t) r)"
    "\<And>t t' r. holds_target (ss_run s t) r \<Longrightarrow> holds_target (ss_run s t') r \<Longrightarrow> t = t'"
    "\<And>r. ss_air s r \<noteq> [] \<Longrightarrow> \<exists>t fs. ss_run s t = Flying fs (ss_air s r) \<and> fs_recipient fs = r"
    "order_inv s" "wait_inv s"
  using assms by (auto simp: svc_inv_def run_inv_def)

lemma wait_inv_mono:
  assumes "wait_inv s"
    and "\<And>r. alist_get [] (st_deferred_flush (ss_st s')) r = [] \<or>
        alist_get [] (st_deferred_flush (ss_st s')) r = alist_get [] (st_deferred_flush (ss_st s)) r \<and>
        (\<forall>t. will_wake (ss_run s t) r \<longrightarrow> will_wake (ss_run s' t) r)"
    and "\<And>r. alist_get [] (st_deferred_by_target (ss_st s')) r = [] \<or>
        alist_get [] (st_deferred_by_target (ss_st s')) r = alist_get [] (st_deferred_by_target (ss_st s)) r \<and>
        (\<forall>t. will_wake_target (ss_run s t) r \<longrightarrow> will_wake_target (ss_run s' t) r)"
  shows "wait_inv s'"
  unfolding wait_inv_def
proof (intro allI conjI impI)
  fix r
  note W = assms(1)[unfolded wait_inv_def, rule_format, of r]
  show "alist_get [] (st_deferred_flush (ss_st s')) r \<in> {[], [r]}" "alist_get [] (st_deferred_by_target (ss_st s')) r \<in> {[], [r]}"
    using W assms(2)[of r] assms(3)[of r] by auto
  show "\<exists>t. will_wake (ss_run s' t) r" if "alist_get [] (st_deferred_flush (ss_st s')) r \<noteq> []"
    using that W assms(2)[of r] by auto
  show "\<exists>t. will_wake_target (ss_run s' t) r" if "alist_get [] (st_deferred_by_target (ss_st s')) r \<noteq> []"
    using that W assms(3)[of r] by auto
qed

lemma queue_after_drain:
  "set (queue_of (restore_ordered (snd (drain mb r now)) r (do_deliverable (fst (drain mb r now)))) r') \<subseteq> set (queue_of mb r')"
  by (auto simp: drain_outcome_eq)

lemma drain_retreat_ok:
  assumes inv: "svc_inv s" and idle: "ss_run s t = Idle"
    and retreat: "0 < in_flight_len (st_mailbox (ss_st s)) r" "d = Retreat"
      "st' = (ss_st s)\<lparr>st_deferred_flush := add_waiter r r (st_deferred_flush (ss_st s))\<rparr>"
  shows "step_ok s (s\<lparr>ss_st := st', ss_run := (ss_run s)(t := phase_of r d), ss_air := (ss_air s)(r := taken d @ ss_air s r)\<rparr>)"
    (is "step_ok s ?s'")
proof -
  note I = svc_invD[OF inv]
  have "ss_air s r \<noteq> []" using retreat(1) air_flight[OF inv, of r] by auto
  then obtain t' fs where "ss_run s t' = Flying fs (ss_air s r)" "fs_recipient fs = r" using I(5) by blast
  then have "will_wake (ss_run s t') r" by (simp add: will_wake_def)
  with I(7) have "wait_inv (s\<lparr>ss_st := st'\<rparr>)" by (auto simp: wait_inv_def retreat(3) alist_get_add_waiter)
  moreover have "?s' = s\<lparr>ss_st := st'\<rparr>" using idle by (simp add: retreat(2) fun_upd_idem)
  ultimately show ?thesis
    using inv by (auto intro!: step_okI simp: retreat(3) svc_inv_def run_inv_def order_inv_def)
qed

lemma drain_keep_ok:
  assumes inv: "svc_inv s" and idle: "ss_run s t = Idle"
    and keep: "in_flight_len (st_mailbox (ss_st s)) r = 0" "d = Drained ticket_default None"
      "st_mailbox st' = restore_ordered (snd (drain (st_mailbox (ss_st s)) r now)) r (do_deliverable (fst (drain (st_mailbox (ss_st s)) r now)))"
      "st_in_flight_targets st' = st_in_flight_targets (ss_st s)" "st_deferred_flush st' = st_deferred_flush (ss_st s)"
      "st_deferred_by_target st' = st_deferred_by_target (ss_st s) \<or>
       r \<in> set (st_in_flight_targets (ss_st s)) \<and> st_deferred_by_target st' = add_waiter r r (st_deferred_by_target (ss_st s))"
  shows "step_ok s (s\<lparr>ss_st := st', ss_run := (ss_run s)(t := phase_of r d), ss_air := (ss_air s)(r := taken d @ ss_air s r)\<rparr>)"
    (is "step_ok s ?s'")
proof -
  note I = svc_invD[OF inv]
  define s2 where s': "s2 = s\<lparr>ss_st := st', ss_run := (ss_run s)(t := Flying (flight_start r ticket_default None) [])\<rparr>"
  have eq: "?s' = s2" by (simp add: s' keep(2) fun_upd_idem)
  have hold: "holds_target (ss_run s2 t') q = holds_target (ss_run s t') q" for t' q
    using idle by (simp add: s' phase_defs flight_start_def)
  have wake: "will_wake (ss_run s t') q \<Longrightarrow> will_wake (ss_run s2 t') q" "will_wake_target (ss_run s t') q \<Longrightarrow> will_wake_target (ss_run s2 t') q" for t' q
    using idle by (auto simp: s' phase_defs)
  have by_target: "r \<in> set (st_in_flight_targets (ss_st s)) \<Longrightarrow> \<exists>t'. will_wake_target (ss_run s t') r"
    using I(3)[of r] by (auto simp: phase_defs split: drain_phase.splits)
  have "mailbox_step (store_of s) (store_of s2)"
    using store_keep[of "store_of s" r now] by (simp add: s' keep(3))
  then have "mailbox_step\<^sup>*\<^sup>* (store_of s) (store_of s2)" by simp
  moreover have "run_inv s2"
    unfolding run_inv_def hold
  proof (intro conjI allI impI)
    fix t' show "phase_ok (ss_air s2) (ss_run s2 t')" using I(2)[of t'] by (simp add: s' phase_ok_def flight_start_def)
  next
    fix q assume "ss_air s2 q \<noteq> []"
    then show "\<exists>t' fs. ss_run s2 t' = Flying fs (ss_air s2 q) \<and> fs_recipient fs = q"
      using I(5)[of q] idle by (auto simp: s') (metis drain_phase.distinct(1))+
  qed (use I(3,4) keep(4) in \<open>auto simp: s'\<close>)
  moreover have "order_inv s2"
    using I(6) queue_after_drain[of "st_mailbox (ss_st s)" r now] keep(3) by (auto simp: order_inv_def s' subset_iff)
  moreover have "wait_inv s2"
  proof (rule wait_inv_mono)
    show "wait_inv (s\<lparr>ss_st := st'\<rparr>)"
      unfolding wait_inv_def
    proof
      fix q
      show "alist_get [] (st_deferred_flush (ss_st (s\<lparr>ss_st := st'\<rparr>))) q \<in> {[], [q]} \<and>
        alist_get [] (st_deferred_by_target (ss_st (s\<lparr>ss_st := st'\<rparr>))) q \<in> {[], [q]} \<and>
        (alist_get [] (st_deferred_flush (ss_st (s\<lparr>ss_st := st'\<rparr>))) q \<noteq> [] \<longrightarrow> (\<exists>t'. will_wake (ss_run (s\<lparr>ss_st := st'\<rparr>) t') q)) \<and>
        (alist_get [] (st_deferred_by_target (ss_st (s\<lparr>ss_st := st'\<rparr>))) q \<noteq> [] \<longrightarrow> (\<exists>t'. will_wake_target (ss_run (s\<lparr>ss_st := st'\<rparr>) t') q))"
        using I(7)[unfolded wait_inv_def, rule_format, of q] keep(5,6) by_target
        by (cases "q = r") (auto simp: alist_get_add_waiter split: if_splits)
    qed
  qed (use wake in \<open>auto simp: s' simp del: fun_upd_apply\<close>)
  ultimately show ?thesis unfolding eq by (intro step_okI[OF inv])
qed

lemma drain_fly_ok:
  assumes inv: "svc_inv s" and idle: "ss_run s t = Idle"
    and fly: "in_flight_len (st_mailbox (ss_st s)) r = 0" "la_id a = r" "items \<noteq> []"
      "items = do_deliverable (fst (drain (st_mailbox (ss_st s)) r now))" "d = Drained (ticket_of items) (Some (a, items))"
      "st_mailbox st' = snd (take_in_flight (snd (drain (st_mailbox (ss_st s)) r now)) r items)"
      "r \<notin> set (st_in_flight_targets (ss_st s))" "st_in_flight_targets st' = List.insert r (st_in_flight_targets (ss_st s))"
      "st_deferred_flush st' = st_deferred_flush (ss_st s)" "st_deferred_by_target st' = st_deferred_by_target (ss_st s)"
  shows "step_ok s (s\<lparr>ss_st := st', ss_run := (ss_run s)(t := phase_of r d), ss_air := (ss_air s)(r := taken d @ ss_air s r)\<rparr>)"
    (is "step_ok s ?s'")
proof -
  note I = svc_invD[OF inv]
  have empty: "ss_air s r = []" using fly(1) air_flight[OF inv, of r] by simp
  define s2 where s': "s2 = s\<lparr>ss_st := st', ss_run := (ss_run s)(t := Flying \<lparr>fs_recipient = r, fs_owed = ticket_of items, fs_targets = [r]\<rparr> items),
      ss_air := (ss_air s)(r := items)\<rparr>"
  have eq: "?s' = s2" using fly(2) by (simp add: s' fly(5) flight_start_def empty)
  have hold: "holds_target (ss_run s2 t') q \<longleftrightarrow> (if t' = t then q = r else holds_target (ss_run s t') q)" for t' q
    by (auto simp: s' phase_defs)
  have idle_hold: "holds_target (ss_run s t') q \<Longrightarrow> t' \<noteq> t" for t' q using idle by (auto simp: phase_defs)
  have old_hold: "\<not> holds_target (ss_run s t') r" for t' using I(3)[of r] fly(7) by blast
  have wake: "will_wake (ss_run s t') q \<Longrightarrow> will_wake (ss_run s2 t') q" "will_wake_target (ss_run s t') q \<Longrightarrow> will_wake_target (ss_run s2 t') q" for t' q
    using idle by (auto simp: s' phase_defs)
  have other: "phase_ok ((ss_air s)(r := items)) (ss_run s t')" for t'
    using I(2)[of t'] old_hold[of t'] by (auto simp: phase_ok_def phase_defs split: drain_phase.splits)
  have "mailbox_step (store_of s) (store_of s2)"
    using store_fly[of "store_of s" r now] empty by (simp add: s' fly(4,6))
  then have "mailbox_step\<^sup>*\<^sup>* (store_of s) (store_of s2)" by simp
  moreover have "run_inv s2"
    unfolding run_inv_def hold
  proof (intro conjI allI impI)
    fix t' show "phase_ok (ss_air s2) (ss_run s2 t')" using other by (simp add: s' phase_ok_def)
  next
    fix q show "q \<in> set (st_in_flight_targets (ss_st s2)) \<longleftrightarrow> (\<exists>t'. if t' = t then q = r else holds_target (ss_run s t') q)"
      using I(3)[of q] fly(8) idle_hold by (auto simp: s')
  next
    fix t1 t2 q assume "if t1 = t then q = r else holds_target (ss_run s t1) q" "if t2 = t then q = r else holds_target (ss_run s t2) q"
    then show "t1 = t2" using I(4) old_hold by (auto split: if_splits)
  next
    fix q assume "ss_air s2 q \<noteq> []"
    then show "\<exists>t' fs. ss_run s2 t' = Flying fs (ss_air s2 q) \<and> fs_recipient fs = q"
      using I(5)[of q] idle by (auto simp: s') (metis drain_phase.distinct(1))+
  qed
  moreover have "order_inv s2"
  proof -
    have items: "set items \<subseteq> set (queue_of (st_mailbox (ss_st s)) r)" by (simp add: fly(4) drain_outcome_eq)
    show ?thesis
      using I(6) items unfolding order_inv_def by (auto simp: s' fly(6))
  qed
  moreover have "wait_inv s2"
    by (rule wait_inv_mono[OF I(7)]) (use fly(9,10) wake in \<open>auto simp: s' simp del: fun_upd_apply\<close>)
  ultimately show ?thesis unfolding eq by (intro step_okI[OF inv])
qed

lemma drain_ok:
  assumes inv: "svc_inv s" and idle: "ss_run s t = Idle" and tgt: "\<forall>a. target = Some a \<longrightarrow> la_id a = r"
    and run: "drain_section busy r target now (ss_st s) = (d, rep, ev, st')"
  shows "step_ok s (s\<lparr>ss_st := st', ss_run := (ss_run s)(t := phase_of r d), ss_air := (ss_air s)(r := taken d @ ss_air s r)\<rparr>)"
  using run tgt
proof (cases rule: drain_section_cases)
  case retreat
  then show ?thesis by (rule drain_retreat_ok[OF inv idle])
next
  case keep
  then show ?thesis by (intro drain_keep_ok[OF inv idle])
next
  case (fly a items)
  then show ?thesis by (intro drain_fly_ok[OF inv idle])
qed

lemma flying_unique:
  assumes "svc_inv s" "ss_run s t = Flying fs (m # ms)" "t' \<noteq> t"
  shows "phase_ok ((ss_air s)(fs_recipient fs := items)) (ss_run s t')"
proof -
  note I = svc_invD[OF assms(1)]
  have "holds_target (ss_run s t) (fs_recipient fs)" using flying_air(3)[OF assms(1,2)] assms(2) by (simp add: phase_defs)
  then have "\<not> holds_target (ss_run s t') (fs_recipient fs)" using I(4) assms(3) by blast
  then show ?thesis using I(2)[of t'] by (auto simp: phase_ok_def phase_defs split: drain_phase.splits)
qed

text \<open>A settlement shortens the batch of one flying thread.\<close>

lemma settle_run_inv:
  assumes inv: "svc_inv s" and run: "ss_run s t = Flying fs (m # ms)"
    and targets: "st_in_flight_targets st' = st_in_flight_targets (ss_st s)"
    and s': "ss_st s' = st'" "ss_run s' = (ss_run s)(t := Flying (fs\<lparr>fs_owed := ticket_of items\<rparr>) items)"
      "ss_air s' = (ss_air s)(fs_recipient fs := items)"
  shows "run_inv s'"
proof -
  note I = svc_invD[OF inv] and F = flying_air[OF inv run]
  have hold: "holds_target (ss_run s' t') q = holds_target (ss_run s t') q" for t' q
    using run by (simp add: s' phase_defs)
  show ?thesis
    unfolding run_inv_def hold
  proof (intro conjI allI impI)
    fix t' show "phase_ok (ss_air s') (ss_run s' t')"
      using flying_unique[OF inv run, of t' items] F(3) by (cases "t' = t") (simp_all add: s' phase_ok_def)
  next
    fix q assume ne: "ss_air s' q \<noteq> []"
    show "\<exists>t' fs. ss_run s' t' = Flying fs (ss_air s' q) \<and> fs_recipient fs = q"
    proof (cases "q = fs_recipient fs")
      case True
      then show ?thesis by (intro exI[of _ t]) (simp add: s')
    next
      case False
      then obtain t' fs2 where "ss_run s t' = Flying fs2 (ss_air s q)" "fs_recipient fs2 = q"
        using I(5)[of q] ne by (auto simp: s')
      with False run show ?thesis by (intro exI[of _ t'] exI[of _ fs2]) (auto simp: s')
    qed
  qed (use I(3,4) targets in \<open>auto simp: s'\<close>)
qed

lemma settle_wait_inv:
  assumes inv: "svc_inv s" and run: "ss_run s t = Flying fs (m # ms)"
    and s': "st_deferred_flush (ss_st s') = st_deferred_flush (ss_st s)" "st_deferred_by_target (ss_st s') = st_deferred_by_target (ss_st s)"
      "ss_run s' = (ss_run s)(t := Flying (fs\<lparr>fs_owed := tk\<rparr>) items)"
  shows "wait_inv s'"
  by (rule wait_inv_mono[OF svc_invD(7)[OF inv]]) (use run in \<open>auto simp: s' phase_defs\<close>)

lemma deliver_ok:
  assumes inv: "svc_inv s" and run: "ss_run s t = Flying fs (m # ms)"
    and sec: "settle_delivered fs m now (ss_st s) = (fs', st')"
  shows "step_ok s (s\<lparr>ss_st := st', ss_run := (ss_run s)(t := Flying fs' ms), ss_air := (ss_air s)(fs_recipient fs := ms),
     ss_log := (ss_log s)(fs_recipient fs := ss_log s (fs_recipient fs) @ [m])\<rparr>)" (is "step_ok s ?s'")
proof -
  let ?r = "fs_recipient fs"
  note I = svc_invD[OF inv] and F = flying_air[OF inv run]
  have fs': "fs' = fs\<lparr>fs_owed := ticket_of ms\<rparr>" and mb: "st_mailbox st' = settle_in_flight (st_mailbox (ss_st s)) ?r (ticket_of [m])"
    and same: "same_drains (ss_st s) st'"
    using sec unfolding settle_delivered_def F(2) ticket_split_batch by (auto simp: same_drains_def Let_def simp del: ticket_of_Nil)
  have "mailbox_step (store_of s) (store_of ?s')"
    using store_deliver[OF I(1), of ?r m ms] F(1) by (simp add: mb)
  moreover have "run_inv ?s'"
    using same by (intro settle_run_inv[OF inv run, of st' _ ms]) (simp_all add: same_drains_def fs')
  moreover have "wait_inv ?s'"
    using same by (intro settle_wait_inv[OF inv run, of _ "ticket_of ms" ms]) (simp_all add: same_drains_def fs')
  moreover have "order_inv ?s'"
  proof -
    have lane: "lane_inv (queue_of (st_mailbox (ss_st s)) ?r) (ss_air s ?r) (mb_next_seq (st_mailbox (ss_st s)))"
      using I(1) by (simp add: mailbox_inv_def)
    have asc: "seq_asc (m # ms)" "pm_admission_seq m < mb_next_seq (st_mailbox (ss_st s))"
      using lane F(1) by (simp_all add: lane_inv_def)
    show ?thesis
      using I(6) I(6)[unfolded order_inv_def, THEN spec, of ?r] F(1) asc unfolding order_inv_def
      by (auto simp: mb sorted_wrt_append)
  qed
  ultimately show ?thesis by (intro step_okI[OF inv]) auto
qed

lemma fail_ok:
  assumes inv: "svc_inv s" and run: "ss_run s t = Flying fs (m # ms)"
    and sec: "settle_failed fs (m # ms) (ss_st s) = (fs', st')"
  shows "step_ok s (s\<lparr>ss_st := st', ss_run := (ss_run s)(t := Flying fs' []), ss_air := (ss_air s)(fs_recipient fs := [])\<rparr>)" (is "step_ok s ?s'")
proof -
  let ?r = "fs_recipient fs"
  note I = svc_invD[OF inv] and F = flying_air[OF inv run]
  have fs': "fs' = fs\<lparr>fs_owed := ticket_of []\<rparr>"
    and mb: "st_mailbox st' = settle_in_flight (restore_ordered (st_mailbox (ss_st s)) ?r (m # ms)) ?r (ticket_of (m # ms))"
    and same: "same_drains (ss_st s) st'"
    using sec unfolding settle_failed_def F(2) ticket_split_batch by (auto simp: same_drains_def Let_def)
  have "mailbox_step (store_of s) (store_of ?s')"
    using store_fail[of "store_of s" ?r "m # ms"] F(1) by (simp add: mb)
  moreover have "run_inv ?s'"
    using same by (intro settle_run_inv[OF inv run, of st' _ "[]"]) (simp_all add: same_drains_def fs')
  moreover have "wait_inv ?s'"
    using same by (intro settle_wait_inv[OF inv run, of _ "ticket_of []" "[]"]) (simp_all add: same_drains_def fs')
  moreover have "order_inv ?s'"
    using I(6) F(1) unfolding order_inv_def by (auto simp: mb)
  ultimately show ?thesis by (intro step_okI[OF inv]) auto
qed

lemma air_thread_other:
  assumes "svc_inv s" "ss_air s q \<noteq> []" "\<And>fs m ms. ss_run s t \<noteq> Flying fs (m # ms)"
  shows "\<exists>t' fs. ((ss_run s)(t := p)) t' = Flying fs (ss_air s q) \<and> fs_recipient fs = q"
proof -
  obtain t' fs where t': "ss_run s t' = Flying fs (ss_air s q)" "fs_recipient fs = q"
    using svc_invD(5)[OF assms(1,2)] by blast
  moreover have "t' \<noteq> t" using t' assms(2,3) by (cases "ss_air s q") auto
  ultimately show ?thesis by (intro exI[of _ t'] exI[of _ fs]) simp
qed

lemma release_ok:
  assumes inv: "svc_inv s" and run: "ss_run s t = Flying fs []"
    and sec: "release_targets fs (ss_st s) = (rel, fs', st')"
  shows "step_ok s (s\<lparr>ss_st := st', ss_run := (ss_run s)(t := Landing rel fs')\<rparr>)" (is "step_ok s ?s'")
proof -
  note I = svc_invD[OF inv]
  have P: "fs_owed fs = ticket_default" using I(2)[of t] run by (simp add: phase_ok_def)
  have out: "rel = fs_targets fs" "fs' = fs\<lparr>fs_targets := []\<rparr>" "st_mailbox st' = st_mailbox (ss_st s)"
    "st_in_flight_targets st' = filter (\<lambda>x. x \<notin> set (fs_targets fs)) (st_in_flight_targets (ss_st s))"
    "st_deferred_flush st' = st_deferred_flush (ss_st s)" "st_deferred_by_target st' = st_deferred_by_target (ss_st s)"
    using sec by (auto simp: release_targets_def split: if_splits)
  have hold: "holds_target (ss_run ?s' t') q \<longleftrightarrow> t' \<noteq> t \<and> holds_target (ss_run s t') q" for t' q
    by (simp add: phase_defs)
  have mine: "holds_target (ss_run s t) q \<longleftrightarrow> q \<in> set (fs_targets fs)" for q using run by (simp add: phase_defs)
  have "run_inv ?s'"
    unfolding run_inv_def hold
  proof (intro conjI allI impI)
    fix t' show "phase_ok (ss_air ?s') (ss_run ?s' t')" using I(2)[of t'] P by (simp add: phase_ok_def out)
  next
    fix q show "q \<in> set (st_in_flight_targets (ss_st ?s')) \<longleftrightarrow> (\<exists>t'. t' \<noteq> t \<and> holds_target (ss_run s t') q)"
      using I(3)[of q] I(4)[of t q] mine[of q] by (auto simp: out)
  next
    fix q assume "ss_air ?s' q \<noteq> []"
    then show "\<exists>t' fs. ss_run ?s' t' = Flying fs (ss_air ?s' q) \<and> fs_recipient fs = q"
      using air_thread_other[OF inv, of q t] run by simp
  qed (use I(4) in blast)
  moreover have "wait_inv ?s'"
    by (rule wait_inv_mono[OF I(7)]) (use run in \<open>auto simp: out phase_defs\<close>)
  moreover have "order_inv ?s'" using I(6) by (simp add: order_inv_def out)
  ultimately show ?thesis using inv by (intro step_okI[OF inv]) (simp_all add: out)
qed

text \<open>After the release only the waiters are left to collect.\<close>

lemma landed_ok:
  assumes inv: "svc_inv s" and run: "ss_run s t = Landing rel fs \<or> ss_run s t = Waking q rel"
    and p: "p = Idle \<or> p = Waking q' rel'"
    and st: "st_mailbox st' = st_mailbox (ss_st s)" "st_in_flight_targets st' = st_in_flight_targets (ss_st s)"
    and wait: "wait_inv (s\<lparr>ss_st := st', ss_run := (ss_run s)(t := p)\<rparr>)"
  shows "step_ok s (s\<lparr>ss_st := st', ss_run := (ss_run s)(t := p)\<rparr>)" (is "step_ok s ?s'")
proof -
  note I = svc_invD[OF inv]
  have hold: "holds_target (ss_run ?s' t') x = holds_target (ss_run s t') x" for t' x
    using run p by (auto simp: phase_defs)
  have "run_inv ?s'"
    unfolding run_inv_def hold
  proof (intro conjI allI impI)
    fix t' show "phase_ok (ss_air ?s') (ss_run ?s' t')" using I(2)[of t'] p by (auto simp: phase_ok_def)
  next
    fix x assume "ss_air ?s' x \<noteq> []"
    then show "\<exists>t' fs. ss_run ?s' t' = Flying fs (ss_air ?s' x) \<and> fs_recipient fs = x"
      using air_thread_other[OF inv, of x t p] run by (auto simp del: fun_upd_apply)
  qed (use I(3,4) st in auto)
  moreover have "order_inv ?s'" using I(6) by (simp add: order_inv_def st)
  ultimately show ?thesis using wait by (intro step_okI[OF inv]) (simp_all add: st)
qed

lemma drop_ok:
  assumes inv: "svc_inv s" and run: "ss_run s t = Landing rel fs"
  shows "step_ok s (s\<lparr>ss_st := flight_drop fs (ss_st s), ss_run := (ss_run s)(t := Waking (fs_recipient fs) rel)\<rparr>)" (is "step_ok s ?s'")
proof -
  have "flight_drop fs (ss_st s) = ss_st s"
    using svc_invD(2)[OF inv, of t] run by (simp add: phase_ok_def flight_drop_def)
  moreover have "wait_inv ?s'"
    by (rule wait_inv_mono[OF svc_invD(7)[OF inv]]) (use run calculation in \<open>auto simp: phase_defs\<close>)
  ultimately show ?thesis by (intro landed_ok[OF inv]) (use run in auto)
qed

lemma merge_waiters_map: "snd (merge_waiters ts m ws) = fold AList.delete ts m"
  by (induction ts arbitrary: m ws) auto

lemma alist_get_fold_delete: "alist_get [] (fold AList.delete ts m) k = (if k \<in> set ts then [] else alist_get [] m k)"
  by (induction ts arbitrary: m) auto

lemma collect_waiters_state:
  "st_mailbox (snd (collect_waiters r rel st)) = st_mailbox st" "st_in_flight_targets (snd (collect_waiters r rel st)) = st_in_flight_targets st"
  "st_ledger (snd (collect_waiters r rel st)) = st_ledger st"
  "alist_get [] (st_deferred_flush (snd (collect_waiters r rel st))) k = (if k = r then [] else alist_get [] (st_deferred_flush st) k)"
  "alist_get [] (st_deferred_by_target (snd (collect_waiters r rel st))) k = (if k \<in> set rel then [] else alist_get [] (st_deferred_by_target st) k)"
proof -
  obtain ws m where mw: "merge_waiters rel (st_deferred_by_target st) (alist_get [] (st_deferred_flush st) r) = (ws, m)" by fastforce
  have "m = fold AList.delete rel (st_deferred_by_target st)"
    using merge_waiters_map[of rel "st_deferred_by_target st" "alist_get [] (st_deferred_flush st) r"] mw by simp
  then show "st_mailbox (snd (collect_waiters r rel st)) = st_mailbox st" "st_in_flight_targets (snd (collect_waiters r rel st)) = st_in_flight_targets st"
    "st_ledger (snd (collect_waiters r rel st)) = st_ledger st"
    "alist_get [] (st_deferred_flush (snd (collect_waiters r rel st))) k = (if k = r then [] else alist_get [] (st_deferred_flush st) k)"
    "alist_get [] (st_deferred_by_target (snd (collect_waiters r rel st))) k = (if k \<in> set rel then [] else alist_get [] (st_deferred_by_target st) k)"
    by (simp_all add: collect_waiters_def mw alist_get_fold_delete)
qed

lemma wake_ok:
  assumes inv: "svc_inv s" and run: "ss_run s t = Waking r rel"
  shows "step_ok s (s\<lparr>ss_st := snd (collect_waiters r rel (ss_st s)), ss_run := (ss_run s)(t := Idle)\<rparr>)" (is "step_ok s ?s'")
proof -
  have "wait_inv ?s'"
    by (rule wait_inv_mono[OF svc_invD(7)[OF inv]]) (use run in \<open>auto simp: collect_waiters_state phase_defs\<close>)
  then show ?thesis by (intro landed_ok[OF inv]) (use run in \<open>auto simp: collect_waiters_state\<close>)
qed

lemma svc_step_ok:
  assumes inv: "svc_inv s" and step: "svc_step anyid s s'"
  shows "step_ok s s'"
  using step
proof cases
  case (sv_send pu to a sources addr su tok names now now2)
  obtain n where n: "n \<le> length (ad_recipients addr)"
    "parks n (st_mailbox (ss_st s)) (st_mailbox (snd (send_section su tok a addr names now now2 (ss_st s))))"
    using send_section_store(1) by blast
  with sv_send(3) have "unat (mb_next_seq (st_mailbox (ss_st s))) + n < 2 ^ 64" by linarith
  with n sv_send(1) show ?thesis using parks_ok[OF inv n(2)] send_section_store(2) by simp
next
  case (sv_reclaim alive)
  then show ?thesis using same_store_ok[OF inv, of "snd (sweep_reclaim alive (ss_st s))"]
    by (simp add: sweep_reclaim_def same_drains_def split: prod.split)
next
  case (sv_fail_reply i r)
  then show ?thesis using same_store_ok[OF inv, of "snd (fail_reply_contract (ss_st s) i r)"]
    by (simp add: fail_reply_contract_def same_drains_def split: prod.split)
qed (use inv in \<open>auto intro: notice_ok drain_ok deliver_ok fail_ok release_ok drop_ok wake_ok purge_ok sweep_ok\<close>)

interpretation svc: step_invariant svc_init "svc_step True" svc_inv
  by unfold_locales (auto intro: svc_inv_init dest: svc_step_ok simp: step_ok_def)

section \<open>A run\<close>

definition w_parked :: parked_message where
  "w_parked = parked_of (\<lambda>_. []) \<lparr>pq_msg_id = lit ''n1'', pq_sender_name = NOTICE_SENDER_LABEL, pq_from = daemon_identity,
        pq_entrance = Daemon, pq_recipient = 7, pq_recipient_name = lit ''bob'', pq_body = [],
        pq_kind = Notice, pq_meta = send_meta_default, pq_expected_rows = 1\<rparr> 0"

definition w_box :: mailbox where
  "w_box = \<lparr>mb_queues = [(7, [w_parked])], mb_in_flight = [], mb_next_seq = 1\<rparr>"

definition w_st1 :: messaging_state where
  "w_st1 = fst (park_notice (\<lambda>_. []) messaging_state_new (lit ''n1'') 7 (lit ''bob'') [] 0)"

definition w_agent :: live_agent where
  "w_agent = \<lparr>la_id = 7, la_name = lit ''bob'', la_epoch = 0, la_turn_signal = False\<rparr>"

definition w_st2 :: messaging_state where
  "w_st2 = w_st1\<lparr>st_mailbox := \<lparr>mb_queues = [], mb_in_flight = [(7, ticket_of [w_parked])], mb_next_seq = 1\<rparr>, st_in_flight_targets := [7]\<rparr>"

definition w_fs :: flight_settle where
  "w_fs = \<lparr>fs_recipient = 7, fs_owed = ticket_of [w_parked], fs_targets = [7]\<rparr>"

definition w_sys1 :: svc_sys where
  "w_sys1 = \<lparr>ss_st = w_st1, ss_run = (\<lambda>_. Idle), ss_air = (\<lambda>_. []), ss_log = (\<lambda>_. [])\<rparr>"

definition w_sys2 :: svc_sys where
  "w_sys2 = \<lparr>ss_st = w_st2, ss_run = (\<lambda>_. Idle)(0 := Flying w_fs [w_parked]), ss_air = (\<lambda>_. [])(7 := [w_parked]), ss_log = (\<lambda>_. [])\<rparr>"

definition w_sys3 :: svc_sys where
  "w_sys3 = \<lparr>ss_st = snd (settle_delivered w_fs w_parked 0 w_st2), ss_run = (\<lambda>_. Idle)(0 := Flying (fst (settle_delivered w_fs w_parked 0 w_st2)) []),
     ss_air = (\<lambda>_. []), ss_log = (\<lambda>_. [])(7 := [w_parked])\<rparr>"

lemma w_parked_fields: "pm_kind w_parked = Notice" "pm_admission_seq w_parked = 0" "\<not> is_expired w_parked 0" "pm_msg_id w_parked = lit ''n1''"
  by (simp_all add: w_parked_def parked_of_def build_parked_def is_expired_def PARK_TTL_def)

lemma w_st1_frame:
  "st_mailbox w_st1 = w_box" "st_in_flight_targets w_st1 = []" "st_deferred_flush w_st1 = []" "st_deferred_by_target w_st1 = []"
proof -
  let ?req = "\<lparr>pq_msg_id = lit ''n1'', pq_sender_name = NOTICE_SENDER_LABEL, pq_from = daemon_identity,
        pq_entrance = Daemon, pq_recipient = 7, pq_recipient_name = lit ''bob'', pq_body = [],
        pq_kind = Notice, pq_meta = send_meta_default, pq_expected_rows = 1\<rparr>"
  obtain res st eff where pi: "park_into (\<lambda>_. []) messaging_state_new ?req 0 park_side_effects_default = (res, st, eff)" by (metis prod_cases3)
  then have st: "w_st1 = st" by (simp add: w_st1_def park_notice_def)
  note F = park_into_frame[OF pi, folded w_parked_def]
  have "w_parked\<lparr>pm_admission_seq := 0\<rparr> = w_parked" using w_parked_fields(2) by simp
  then show "st_mailbox w_st1 = w_box"
    using F(1) by (simp add: st park_accept w_parked_fields messaging_state_new_def mailbox_new_def w_box_def
      entry_or_default_def cap_of_def NOTICE_CAP_def Let_def)
  show "st_in_flight_targets w_st1 = []" "st_deferred_flush w_st1 = []" "st_deferred_by_target w_st1 = []"
    using F(2) by (simp_all add: st same_drains_def messaging_state_new_def)
qed

lemma w_reach1: "svc_reachable w_sys1"
proof -
  let ?s0 = "\<lparr>ss_st = messaging_state_new, ss_run = (\<lambda>_. Idle), ss_air = (\<lambda>_. []), ss_log = (\<lambda>_. [])\<rparr>"
  have "svc_step True ?s0 (?s0\<lparr>ss_st := fst (park_notice (\<lambda>_. []) (ss_st ?s0) (lit ''n1'') 7 (lit ''bob'') [] 0)\<rparr>)"
    by (rule sv_notice) (simp_all add: messaging_state_new_def mailbox_new_def ledger_new_def with_capacity_def msg_id_in_use_def)
  then have "svc_step True ?s0 w_sys1" by (simp add: w_sys1_def w_st1_def)
  then show ?thesis by (blast intro: reach_init reach_step svc_init.intros)
qed

lemma w_drain: "drain_section (\<lambda>_ _. None) 7 (Some w_agent) 0 w_st1 = (Drained (ticket_of [w_parked]) (Some (w_agent, [w_parked])), drain_report_default, [], w_st2)"
  by (simp add: drain_section_def w_st1_frame w_box_def in_flight_len_def drain_def w_parked_fields drain_default_def
    w_agent_def gate_busy_reason_def take_in_flight_def Let_def alist_get_def w_st2_def)

lemma w_reach2: "svc_reachable w_sys2"
proof -
  have d: "drain_section (\<lambda>_ _. None) 7 (Some w_agent) 0 (ss_st w_sys1) =
      (Drained (ticket_of [w_parked]) (Some (w_agent, [w_parked])), drain_report_default, [], w_st2)"
    by (simp add: w_sys1_def w_drain)
  have "svc_step True w_sys1 w_sys2"
    using sv_drain[where t = 0, OF _ _ d] by (simp add: w_sys1_def w_sys2_def w_agent_def flight_start_def w_fs_def)
  then show ?thesis by (blast intro: reach_step w_reach1)
qed

lemma w_reach3: "svc_reachable w_sys3"
proof -
  have "svc_step True w_sys2 w_sys3"
    using sv_deliver[of w_sys2 0 w_fs w_parked "[]" 0, OF _ prod.collapse[symmetric]]
    by (simp add: w_sys2_def w_sys3_def w_fs_def fun_upd_idem)
  then show ?thesis by (blast intro: reach_step w_reach2)
qed

section \<open>Properties\<close>

lemma store_reachable: "svc_reachable s \<Longrightarrow> mailbox_reachable (store_of s)"
proof (induction rule: reachable.induct)
  case (reach_init s)
  then show ?case
    using reachable.reach_init[where ini = mailbox_init, OF mailbox_init.intros] by (auto elim!: svc_init.cases simp: messaging_state_new_def)
next
  case (reach_step s t)
  then show ?case
    using svc_step_ok[OF svc.inv_reachable] reachable_star by (metis step_ok_def)
qed

text \<open>C2. The service refines the parking store: under any interleaving of the lock sections of
  sends, notices, drains, the sweep and profile deletion, every section is a sequence of steps of
  the store's own system (with the batches outside the lock as its airborne items), so every
  property of the store's reachable states holds of the service; in particular the message lane of
  a recipient, queued or in flight, never exceeds its limit.\<close>

theorem service_refines_store:
  assumes "svc_reachable s"
  shows "mailbox_reachable (store_of s) \<and> (svc_step True s s' \<longrightarrow> mailbox_step\<^sup>*\<^sup>* (store_of s) (store_of s')) \<and>
    lane_count Message (queue_of (st_mailbox (ss_st s)) r) + lane_count Message (ss_air s r) \<le> MAILBOX_CAP"
proof -
  have inv: "svc_inv s" by (rule svc.inv_reachable[OF assms])
  have "lane_count Message (queue_of (st_mailbox (ss_st s)) r) + lane_count Message (ss_air s r) \<le> MAILBOX_CAP"
    using inv by (simp add: svc_inv_def mailbox_inv_def lane_inv_def)
  then show ?thesis using store_reachable[OF assms] svc_step_ok[OF inv, of True s'] by (auto simp: step_ok_def)
qed

theorem service_refines_store_witness:
  "mailbox_reachable (store_of w_sys2) \<and> lane_count Message (queue_of (st_mailbox (ss_st w_sys2)) 7) + lane_count Message (ss_air w_sys2 7) \<le> MAILBOX_CAP \<and>
   ss_air w_sys2 7 = [w_parked]"
  using service_refines_store[OF w_reach2, where r = 7] by (simp add: w_sys2_def)

text \<open>C1. Letters reach a recipient in the order they were enqueued: whatever threads send, drain,
  fail and retry concurrently, the admission numbers of the items injected for a queue are strictly
  increasing, and everything already injected was enqueued before everything that is still queued
  or held by a drain.\<close>

theorem delivery_in_admission_order:
  assumes "svc_reachable s"
  shows "sorted_wrt (<) (map pm_admission_seq (ss_log s r)) \<and>
    (\<forall>x \<in> set (ss_log s r). \<forall>y \<in> set (ss_air s r) \<union> set (queue_of (st_mailbox (ss_st s)) r). pm_admission_seq x < pm_admission_seq y)"
  using svc_invD(6)[OF svc.inv_reachable[OF assms]] by (auto simp: order_inv_def sorted_wrt_map)

theorem delivery_in_admission_order_witness:
  "sorted_wrt (<) (map pm_admission_seq (ss_log w_sys3 7)) \<and> ss_log w_sys3 7 = [w_parked]"
  using delivery_in_admission_order[OF w_reach3, of 7] by (simp add: w_sys3_def)

text \<open>C28. One drain per queue: two threads never hold items of the same queue, the set of injection
  targets is exactly what the flying drains hold, each by one thread, and when no drain is running
  nothing is held: no target stays registered and no recipient has a count in flight.\<close>

theorem one_drain_per_queue:
  assumes "svc_reachable s"
  shows "(ss_run s t = Flying fs (m # ms) \<longrightarrow> ss_run s t' = Flying fs' (m' # ms') \<longrightarrow> fs_recipient fs = fs_recipient fs' \<longrightarrow> t = t') \<and>
    (r \<in> set (st_in_flight_targets (ss_st s)) \<longleftrightarrow> (\<exists>!t. holds_target (ss_run s t) r)) \<and>
    ((\<forall>t. ss_run s t = Idle) \<longrightarrow> st_in_flight_targets (ss_st s) = [] \<and> in_flight_len (st_mailbox (ss_st s)) r = 0)"
proof -
  have inv: "svc_inv s" by (rule svc.inv_reachable[OF assms])
  note I = svc_invD[OF inv]
  have hold: "ss_run s t = Flying fs (m # ms) \<Longrightarrow> holds_target (ss_run s t) (fs_recipient fs)" for t fs m ms
    using flying_air(3)[OF inv] by (simp add: phase_defs)
  have one: "ss_run s t = Flying fs (m # ms) \<longrightarrow> ss_run s t' = Flying fs' (m' # ms') \<longrightarrow> fs_recipient fs = fs_recipient fs' \<longrightarrow> t = t'"
    using I(4) hold by metis
  have quiet: "st_in_flight_targets (ss_st s) = [] \<and> in_flight_len (st_mailbox (ss_st s)) r = 0" if "\<forall>t. ss_run s t = Idle"
  proof -
    have "\<not> holds_target (ss_run s t) q" for t q using that by (simp add: phase_defs)
    then have "q \<notin> set (st_in_flight_targets (ss_st s))" for q using I(3)[of q] by simp
    then have "st_in_flight_targets (ss_st s) = []" by (metis hd_in_set)
    moreover have "ss_air s r = []" using I(5)[of r] that by auto
    ultimately show ?thesis using air_flight[OF inv, of r] by simp
  qed
  show ?thesis using one quiet I(3)[of r] I(4) by blast
qed

theorem one_drain_per_queue_witness:
  "7 \<in> set (st_in_flight_targets (ss_st w_sys2)) \<and> (\<exists>!t. holds_target (ss_run w_sys2 t) 7)"
proof -
  have "7 \<in> set (st_in_flight_targets (ss_st w_sys2))" by (simp add: w_sys2_def w_st2_def)
  then show ?thesis using one_drain_per_queue[OF w_reach2, where r = 7] by blast
qed

lemma fold_push_set: "set (foldl (\<lambda>ws w. if w \<in> set ws then ws else ws @ [w]) acc xs) = set acc \<union> set xs"
  by (induction xs arbitrary: acc) auto

lemma merge_waiters_set:
  "distinct ts \<Longrightarrow> set (fst (merge_waiters ts m ws)) = set ws \<union> (\<Union>t \<in> set ts. set (alist_get [] m t))"
proof (induction ts arbitrary: m ws)
  case (Cons t ts)
  have "(\<Union>x \<in> set ts. set (alist_get [] (AList.delete t m) x)) = (\<Union>x \<in> set ts. set (alist_get [] m x))"
    using Cons.prems by (auto split: if_splits)
  with Cons show ?case by (auto simp: fold_push_set)
qed simp

text \<open>C27. No wake-up is lost: whenever a drain has backed off and left itself as a waiter (of the
  queue or of the injection target), some running drain has not yet collected the waiters under
  that key, and the collection hands every waiter of the queue and of the released targets to the
  doorbell; a waiter is always the queue's own id.\<close>

theorem no_lost_wakeup:
  assumes "svc_reachable s"
  shows "(r' \<in> set (alist_get [] (st_deferred_flush (ss_st s)) r) \<longrightarrow> r' = r \<and> (\<exists>t. will_wake (ss_run s t) r)) \<and>
    (r' \<in> set (alist_get [] (st_deferred_by_target (ss_st s)) r) \<longrightarrow> r' = r \<and> (\<exists>t. will_wake_target (ss_run s t) r)) \<and>
    set (fst (collect_waiters q [] (ss_st s))) = set (alist_get [] (st_deferred_flush (ss_st s)) q) \<and>
    set (fst (collect_waiters q [r] (ss_st s))) =
      set (alist_get [] (st_deferred_flush (ss_st s)) q) \<union> set (alist_get [] (st_deferred_by_target (ss_st s)) r)"
proof -
  note W = svc_invD(7)[OF svc.inv_reachable[OF assms], unfolded wait_inv_def, THEN spec, of r]
  have collect: "distinct rel \<Longrightarrow> set (fst (collect_waiters q rel (ss_st s))) = set (alist_get [] (st_deferred_flush (ss_st s)) q) \<union>
      (\<Union>t \<in> set rel. set (alist_get [] (st_deferred_by_target (ss_st s)) t))" for rel
    using merge_waiters_set[of rel "st_deferred_by_target (ss_st s)" "alist_get [] (st_deferred_flush (ss_st s)) q"]
    by (simp add: collect_waiters_def case_prod_beta)
  from W collect[of "[]"] collect[of "[r]"] show ?thesis by auto
qed

definition w_sys4 :: svc_sys where
  "w_sys4 = w_sys2\<lparr>ss_st := w_st2\<lparr>st_deferred_flush := [(7, [7])]\<rparr>\<rparr>"

lemma w_reach4: "svc_reachable w_sys4"
proof -
  have d: "drain_section (\<lambda>_ _. None) 7 (Some w_agent) 0 (ss_st w_sys2) =
     (Retreat, drain_report_default\<lparr>dr_retreated := True\<rparr>, [], w_st2\<lparr>st_deferred_flush := [(7, [7])]\<rparr>)"
    by (simp add: drain_section_def w_sys2_def w_st2_def w_st1_frame in_flight_len_def w_parked_fields add_waiter_def
      entry_or_default_def alist_get_def Let_def)
  have "svc_step True w_sys2 w_sys4"
    using sv_drain[where t = 1, OF _ _ d] by (simp add: w_sys4_def w_sys2_def w_agent_def fun_upd_idem)
  then show ?thesis by (blast intro: reach_step w_reach2)
qed

theorem no_lost_wakeup_witness:
  "7 \<in> set (alist_get [] (st_deferred_flush (ss_st w_sys4)) 7) \<and> (\<exists>t. will_wake (ss_run w_sys4 t) 7)"
  using no_lost_wakeup[OF w_reach4, of 7 7] by (simp add: w_sys4_def alist_get_def)

end
