(* ===== verification/Messaging_Service.thy ===== *)
theory Messaging_Service
  imports Service_System
begin

text \<open>
  The entry points of the messaging service as whole runs on one thread,
  \<^verbatim>\<open>crates/engram-dashboard-messaging/src/service.rs\<close>: \<^verbatim>\<open>drain_queue\<close> with the injections between its lock
  sections, \<^verbatim>\<open>flush_for_agent\<close>, \<^verbatim>\<open>handle_send\<close>, \<^verbatim>\<open>deliver_notice\<close> and \<^verbatim>\<open>sweep\<close>.

  The host behind \<^verbatim>\<open>DeliveryPort\<close> and \<^verbatim>\<open>ControlPlanePort\<close>, the clock and the random generator are the
  fields of \<open>svc_env\<close>, functions of a host state of any type that an injection may change. Without a
  doorbell a drain flushes its waiters inline, which is a recursion; \<open>drain_queue\<close> carries fuel for it,
  and \<open>None\<close> means that the fuel ran out or that decoding a parked payload panicked. Three units of fuel
  are enough in every reachable state.
\<close>

section \<open>The host\<close>

record inject_receipt =
  ir_bytes_requested :: nat
  ir_bytes_written :: nat
  ir_msg_uuid :: peer_id
  ir_epoch :: u32

text \<open>The index of \<open>ev_now\<close> tells apart the clock readings between two host calls.\<close>

record 'p svc_env =
  ev_inject :: "peer_id \<Rightarrow> ustr \<Rightarrow> 'p \<Rightarrow> (ustr + inject_receipt) \<times> 'p"
  ev_live_agents :: "'p \<Rightarrow> live_agent list"
  ev_sources :: "'p \<Rightarrow> addressing_sources"
  ev_is_live :: "'p \<Rightarrow> peer_id \<Rightarrow> bool"
  ev_format :: "'p \<Rightarrow> envelope_format"
  ev_wrap_format_env :: "ustr option"
  ev_busy :: "'p \<Rightarrow> peer_id \<Rightarrow> u32 \<Rightarrow> busy_reason option"
  ev_now :: "nat \<Rightarrow> 'p \<Rightarrow> instant"
  ev_draw :: "nat \<Rightarrow> 'p \<Rightarrow> ustr"
  ev_wired :: bool
  ev_show_uuid :: "peer_id \<Rightarrow> ustr"
  ev_parse_uuid :: "ustr \<Rightarrow> peer_id option"

record 'p svc_world =
  sw_st :: messaging_state
  sw_port :: 'p
  sw_doorbell :: "peer_id list"
  sw_obs :: "sender_identity delivery_observation list"

section \<open>Draining a queue\<close>

definition wrap_now :: "'p svc_env \<Rightarrow> 'p \<Rightarrow> ustr \<Rightarrow> ustr \<Rightarrow> ustr \<Rightarrow> envelope_fields \<Rightarrow> ustr" where
  "wrap_now ev p sender msg_id body flds = wrap_message (ev_wrap_format_env ev) sender msg_id body (ev_format ev p) flds"

definition observe_success ::
  "ustr \<Rightarrow> live_agent \<Rightarrow> sender_identity \<Rightarrow> entrance \<Rightarrow> inject_receipt \<Rightarrow> ustr option \<Rightarrow> sender_identity delivery_observation" where
  "observe_success msg_id target sender ent outcome in_reply_to =
     \<lparr>ob_msg_id = msg_id, ob_to_id = la_id target, ob_to_name = la_name target, ob_from = sender, ob_entrance = ent,
      ob_bytes_requested = ir_bytes_requested outcome, ob_bytes_written = Some (ir_bytes_written outcome),
      ob_msg_uuid = Some (ir_msg_uuid outcome), ob_to_epoch = Some (ir_epoch outcome), ob_in_reply_to = in_reply_to, ob_error = None\<rparr>"

definition observe_failure ::
  "ustr \<Rightarrow> live_agent \<Rightarrow> sender_identity \<Rightarrow> entrance \<Rightarrow> ustr \<Rightarrow> ustr \<Rightarrow> ustr option \<Rightarrow> sender_identity delivery_observation" where
  "observe_failure msg_id target sender ent wrapped err in_reply_to =
     \<lparr>ob_msg_id = msg_id, ob_to_id = la_id target, ob_to_name = la_name target, ob_from = sender, ob_entrance = ent,
      ob_bytes_requested = utf8_len wrapped, ob_bytes_written = None,
      ob_msg_uuid = None, ob_to_epoch = None, ob_in_reply_to = in_reply_to, ob_error = Some err\<rparr>"

text \<open>The envelope of a parked item, assembled at injection time.\<close>

definition wrap_parked :: "'p svc_env \<Rightarrow> 'p \<Rightarrow> parked_message \<Rightarrow> park_payload \<Rightarrow> ustr" where
  "wrap_parked ev p m payload = (case pm_kind m of
     Notice \<Rightarrow> wrap_notice (pp_body payload)
   | Message \<Rightarrow> wrap_now ev p (pp_sender_name payload) (pm_msg_id m) (pp_body payload)
                  (meta_envelope_fields (pp_meta payload) (pm_msg_id m)))"

fun deliver_loop ::
  "'p svc_env \<Rightarrow> live_agent \<Rightarrow> parked_message list \<Rightarrow> flight_settle \<Rightarrow> drain_report \<Rightarrow> 'p svc_world
    \<Rightarrow> (flight_settle \<times> drain_report \<times> 'p svc_world) option" where
  "deliver_loop ev target [] fs rep w = Some (fs, rep, w)"
| "deliver_loop ev target (m # ms) fs rep w = (
     case payload_decode (ev_parse_uuid ev) (pm_envelope m) of
       None \<Rightarrow> None
     | Some payload \<Rightarrow>
         let wrapped = wrap_parked ev (sw_port w) m payload;
             (res, p) = ev_inject ev (la_id target) wrapped (sw_port w)
         in case res of
              Inr outcome \<Rightarrow>
                let (fs', st) = settle_delivered fs m (ev_now ev 1 p) (sw_st w);
                    ob = observe_success (pm_msg_id m) target (pp_from payload) (pp_entrance payload) outcome (sm_reply_to (pp_meta payload))
                in deliver_loop ev target ms fs' (rep\<lparr>dr_injected := dr_injected rep @ [pm_msg_id m]\<rparr>)
                     (w\<lparr>sw_st := st, sw_port := p, sw_obs := sw_obs w @ [ob]\<rparr>)
            | Inl e \<Rightarrow>
                let (fs', st) = settle_failed fs (m # ms) (sw_st w);
                    ob = observe_failure (pm_msg_id m) target (pp_from payload) (pp_entrance payload) wrapped e (sm_reply_to (pp_meta payload))
                in Some (fs', rep\<lparr>dr_caller_inject_error := Some e\<rparr>, w\<lparr>sw_st := st, sw_port := p, sw_obs := sw_obs w @ [ob]\<rparr>))"

definition request_flush :: "(peer_id \<Rightarrow> 'p svc_world \<Rightarrow> 'p svc_world option) \<Rightarrow> 'p svc_env \<Rightarrow> peer_id \<Rightarrow> 'p svc_world \<Rightarrow> 'p svc_world option" where
  "request_flush flush ev i w = (if ev_wired ev then Some (w\<lparr>sw_doorbell := sw_doorbell w @ [i]\<rparr>) else flush i w)"

text \<open>A list of ids, one after the other; \<open>None\<close> as soon as one does not return.\<close>

fun each_id :: "(peer_id \<Rightarrow> 'p svc_world \<Rightarrow> 'p svc_world option) \<Rightarrow> peer_id list \<Rightarrow> 'p svc_world \<Rightarrow> 'p svc_world option" where
  "each_id f [] w = Some w"
| "each_id f (i # is) w = Option.bind (f i w) (each_id f is)"

definition drain_once ::
  "(peer_id \<Rightarrow> 'p svc_world \<Rightarrow> 'p svc_world option) \<Rightarrow> 'p svc_env \<Rightarrow> peer_id \<Rightarrow> live_agent list option \<Rightarrow> 'p svc_world
    \<Rightarrow> (drain_report \<times> 'p svc_world) option" where
  "drain_once flush ev recipient snapshot w = (
     let roster = (case snapshot of Some r \<Rightarrow> r | None \<Rightarrow> ev_live_agents ev (sw_port w));
         target = find (\<lambda>a. la_id a = recipient) roster;
         (d, rep, evicted, st) = drain_section (ev_busy ev (sw_port w)) recipient target (ev_now ev 0 (sw_port w)) (sw_st w);
         w0 = w\<lparr>sw_st := st\<rparr>
     in case d of
          Retreat \<Rightarrow> Some (rep, w0)
        | Drained flight batch \<Rightarrow>
            (case (case batch of None \<Rightarrow> Some (flight_start recipient flight None, rep, w0)
                   | Some (t, items) \<Rightarrow> deliver_loop ev t items (flight_start recipient flight batch) rep w0) of
               None \<Rightarrow> None
             | Some (fs, rep1, w1) \<Rightarrow>
                 let (released, fs2, st2) = release_targets fs (sw_st w1);
                     st3 = flight_drop fs2 st2;
                     (waiters, st4) = collect_waiters recipient released st3
                 in map_option (Pair rep1) (each_id (request_flush flush ev) waiters (w1\<lparr>sw_st := st4\<rparr>))))"

definition flush_with ::
  "(peer_id \<Rightarrow> live_agent list option \<Rightarrow> 'p svc_world \<Rightarrow> (drain_report \<times> 'p svc_world) option) \<Rightarrow> peer_id \<Rightarrow> 'p svc_world \<Rightarrow> 'p svc_world option" where
  "flush_with run i w = (if 0 < mailbox_len (st_mailbox (sw_st w)) i then map_option snd (run i None w) else Some w)"

fun drain_queue :: "nat \<Rightarrow> 'p svc_env \<Rightarrow> peer_id \<Rightarrow> live_agent list option \<Rightarrow> 'p svc_world \<Rightarrow> (drain_report \<times> 'p svc_world) option" where
  "drain_queue 0 ev r snapshot w = None"
| "drain_queue (Suc n) ev r snapshot w = drain_once (flush_with (drain_queue n ev)) ev r snapshot w"

definition flush_for :: "nat \<Rightarrow> 'p svc_env \<Rightarrow> peer_id \<Rightarrow> 'p svc_world \<Rightarrow> 'p svc_world option" where
  "flush_for n ev recipient w = map_option snd (drain_queue n ev recipient None w)"

definition flush_for_agent :: "nat \<Rightarrow> 'p svc_env \<Rightarrow> peer_id \<Rightarrow> 'p svc_world \<Rightarrow> 'p svc_world option" where
  "flush_for_agent n ev to_id w = flush_with (drain_queue n ev) to_id w"

section \<open>Sending\<close>

definition ring_or_defer :: "'p svc_env \<Rightarrow> peer_id \<Rightarrow> peer_id list \<Rightarrow> 'p svc_world \<Rightarrow> peer_id list \<times> 'p svc_world" where
  "ring_or_defer ev i deferred w =
     (if ev_wired ev then (deferred, w\<lparr>sw_doorbell := sw_doorbell w @ [i]\<rparr>) else (deferred @ [i], w))"

definition pending_hint :: "ustr \<Rightarrow> drain_report \<Rightarrow> hint" where
  "pending_hint display report = (
     if dr_retreated report then OverlappingHint display
     else case dr_caller_inject_error report of
            Some err \<Rightarrow> InjectFailedHint display err
          | None \<Rightarrow> (case dr_gated report of Some reason \<Rightarrow> BusyHint display reason | None \<Rightarrow> QueuedHint display))"

text \<open>The result row of one plan; a live recipient's queue is drained here.\<close>

definition settle_plan ::
  "nat \<Rightarrow> 'p svc_env \<Rightarrow> ustr \<Rightarrow> live_agent list \<Rightarrow> ustr \<Rightarrow> recipient_plan \<Rightarrow> peer_id list \<Rightarrow> 'p svc_world
    \<Rightarrow> (recipient_result \<times> peer_id list \<times> 'p svc_world) option" where
  "settle_plan n ev msg_id roster display plan deferred w = (case plan of
     PlanFailed code h \<Rightarrow>
       Some (\<lparr>rr_to = display, rr_status = SendFailed, rr_code = Some code, rr_hint = Some h\<rparr>, deferred, w)
   | PlanPark rid live _ \<Rightarrow>
       if \<not> live then Some (\<lparr>rr_to = display, rr_status = SendPending, rr_code = None, rr_hint = Some (DormantHint display)\<rparr>, deferred, w)
       else (case drain_queue n ev rid (Some roster) w of
               None \<Rightarrow> None
             | Some (report, w1) \<Rightarrow>
                 if msg_id \<in> set (dr_injected report)
                 then Some (\<lparr>rr_to = display, rr_status = SendDelivered, rr_code = None, rr_hint = None\<rparr>, deferred, w1)
                 else
                   let (deferred', w2) = (if \<not> dr_retreated report \<and> dr_caller_inject_error report = None
                                          then ring_or_defer ev rid deferred w1 else (deferred, w1))
                   in Some (\<lparr>rr_to = display, rr_status = SendPending, rr_code = None, rr_hint = Some (pending_hint display report)\<rparr>,
                            deferred', w2)))"

fun settle_plans ::
  "nat \<Rightarrow> 'p svc_env \<Rightarrow> ustr \<Rightarrow> live_agent list \<Rightarrow> (ustr \<times> recipient_plan) list \<Rightarrow> peer_id list \<Rightarrow> 'p svc_world
    \<Rightarrow> (recipient_result list \<times> peer_id list \<times> 'p svc_world) option" where
  "settle_plans n ev msg_id roster [] deferred w = Some ([], deferred, w)"
| "settle_plans n ev msg_id roster ((display, plan) # rest) deferred w = (
     case settle_plan n ev msg_id roster display plan deferred w of
       None \<Rightarrow> None
     | Some (row, deferred1, w1) \<Rightarrow>
         map_option (\<lambda>(rows, deferred2, w2). (row # rows, deferred2, w2)) (settle_plans n ev msg_id roster rest deferred1 w1))"

definition close_reply ::
  "send_args \<Rightarrow> reply_closing \<Rightarrow> recipient_result list \<Rightarrow> 'p svc_world \<Rightarrow> 'p svc_world" where
  "close_reply a closing results w = (case sm_reply_to (sa_meta a) of
     None \<Rightarrow> w
   | Some in_reply_to \<Rightarrow>
       (case (cl_done closing, reply_disposition results) of
          (None, RequesterGone) \<Rightarrow> w\<lparr>sw_st := snd (fail_reply_contract (sw_st w) in_reply_to (si_peer_id (sa_from a)))\<rparr>
        | _ \<Rightarrow> w))"

definition handle_send ::
  "nat \<Rightarrow> 'p svc_env \<Rightarrow> (peer_id \<Rightarrow> nat) \<Rightarrow> send_args \<Rightarrow> ustr list \<Rightarrow> 'p svc_world
    \<Rightarrow> ((send_reject + recipient_result list) \<times> 'p svc_world) option" where
  "handle_send n ev tok a to w = (
     let sources = ev_sources ev (sw_port w)
     in case resolve_addressing (ev_parse_uuid ev) builtin_resolve to (sa_from a) sources of
          Inl e \<Rightarrow> Some (Inl e, w)
        | Inr addr \<Rightarrow>
            (case send_section (ev_show_uuid ev) tok a addr (live_names_hint (as_roster sources))
                    (ev_now ev 0 (sw_port w)) (ev_now ev 1 (sw_port w)) (sw_st w) of
               (Inl e, st) \<Rightarrow> Some (Inl e, w\<lparr>sw_st := st\<rparr>)
             | (Inr (plans, acc, dups), st) \<Rightarrow>
                 (case settle_plans n ev (sa_msg_id a) (as_roster sources) (zip (map rv_display (ad_recipients addr)) plans) [] (w\<lparr>sw_st := st\<rparr>) of
                    None \<Rightarrow> None
                  | Some (results, deferred, w1) \<Rightarrow>
                      map_option (\<lambda>w2. (Inr results, close_reply a (eq_closing acc) results w2))
                        (each_id (flush_for_agent n ev) deferred w1))))"

section \<open>Maintenance\<close>

text \<open>The text of the overdue notice; the literal parts are the code points of the source's string.\<close>

definition overdue_body :: "due_timeout \<Rightarrow> ustr" where
  "overdue_body d = lit ''[engram] '' @ [50836, 52397, 32] @ dt_request_id d @ [32, 44592, 54620, 40] @ dt_reply_by_raw d @
     [41, 32, 52488, 44284, 32, 8212, 32] @ dt_recipient d @ [32, 54924, 49888, 32, 50630, 51020]"

definition deliver_notice :: "nat \<Rightarrow> 'p svc_env \<Rightarrow> due_timeout \<Rightarrow> 'p svc_world \<Rightarrow> 'p svc_world option" where
  "deliver_notice n ev d w = (
     if is_request_closed (st_ledger (sw_st w)) (dt_request_id d) (dt_recipient_id d) then Some w
     else
       let drawn = draw_daemon_msg_id_with (sw_st w) (ev_draw ev 0 (sw_port w)) (ev_draw ev 1 (sw_port w));
           st = fst (park_notice (ev_show_uuid ev) (sw_st w) (dw_id drawn) (dt_sender_id d) (dt_sender d) (overdue_body d) (ev_now ev 0 (sw_port w)))
       in request_flush (flush_for_agent n ev) ev (dt_sender_id d) (w\<lparr>sw_st := st\<rparr>))"

fun deliver_notices :: "nat \<Rightarrow> 'p svc_env \<Rightarrow> due_timeout list \<Rightarrow> 'p svc_world \<Rightarrow> 'p svc_world option" where
  "deliver_notices n ev [] w = Some w"
| "deliver_notices n ev (d # ds) w = Option.bind (deliver_notice n ev d w) (deliver_notices n ev ds)"

definition sweep :: "nat \<Rightarrow> 'p svc_env \<Rightarrow> (nat \<Rightarrow> bool) \<Rightarrow> instant \<Rightarrow> 'p svc_world \<Rightarrow> 'p svc_world option" where
  "sweep n ev alive now w = (
     let (reclaimed, st1) = sweep_reclaim alive (sw_st w);
         (out, evicted, st2) = sweep_section now st1
     in deliver_notices n ev out (w\<lparr>sw_st := st2\<rparr>))"

definition profile_deleted :: "'p svc_env \<Rightarrow> peer_id \<Rightarrow> 'p svc_world \<Rightarrow> profile_deleted_outcome \<times> 'p svc_world" where
  "profile_deleted ev profile_id w = (
     let (out, st) = handle_profile_deleted (ev_is_live ev (sw_port w) profile_id) profile_id (ev_now ev 0 (sw_port w)) (sw_st w)
     in (out, w\<lparr>sw_st := st\<rparr>))"

section \<open>Runs of the step system\<close>

text \<open>
  \<open>runs w w'\<close>: an idle thread can take the state of \<open>w\<close> to that of \<open>w'\<close> by lock sections of the step
  system, whatever the other threads hold meanwhile, and is idle again afterwards.
\<close>

definition runs :: "'p svc_world \<Rightarrow> 'p svc_world \<Rightarrow> bool" where
  "runs w w' \<longleftrightarrow> (\<forall>s t. ss_st s = sw_st w \<longrightarrow> ss_run s t = Idle \<longrightarrow>
     (\<exists>s'. (svc_step True)\<^sup>*\<^sup>* s s' \<and> ss_st s' = sw_st w' \<and> ss_run s' = ss_run s))"

lemma runs_same: "sw_st w' = sw_st w \<Longrightarrow> runs w w'"
  unfolding runs_def by (metis rtranclp.rtrancl_refl)

lemma runs_trans:
  assumes "runs a b" "runs b c"
  shows "runs a c"
  unfolding runs_def
proof (intro allI impI)
  fix s :: svc_sys and t assume s: "ss_st s = sw_st a" "ss_run s t = Idle"
  from assms(1) s obtain s1 where s1: "(svc_step True)\<^sup>*\<^sup>* s s1" "ss_st s1 = sw_st b" "ss_run s1 = ss_run s"
    unfolding runs_def by blast
  from s(2) s1(3) have "ss_run s1 t = Idle" by simp
  with assms(2) s1(2) obtain s2 where "(svc_step True)\<^sup>*\<^sup>* s1 s2" "ss_st s2 = sw_st c" "ss_run s2 = ss_run s1"
    unfolding runs_def by blast
  with s1 show "\<exists>s'. (svc_step True)\<^sup>*\<^sup>* s s' \<and> ss_st s' = sw_st c \<and> ss_run s' = ss_run s"
    by (metis rtranclp_trans)
qed

lemma runs_section:
  assumes "\<And>s. ss_st s = sw_st w \<Longrightarrow> svc_step True s (s\<lparr>ss_st := sw_st w'\<rparr>)"
  shows "runs w w'"
  unfolding runs_def
proof (intro allI impI)
  fix s :: svc_sys and t assume "ss_st s = sw_st w"
  then show "\<exists>s'. (svc_step True)\<^sup>*\<^sup>* s s' \<and> ss_st s' = sw_st w' \<and> ss_run s' = ss_run s"
    using assms by (intro exI[of _ "s\<lparr>ss_st := sw_st w'\<rparr>"]) auto
qed

lemma each_id_runs:
  "each_id f is w = Some w' \<Longrightarrow> (\<And>i u u'. f i u = Some u' \<Longrightarrow> runs u u') \<Longrightarrow> runs w w'"
proof (induction "is" arbitrary: w)
  case (Cons i "is")
  then obtain u where "f i w = Some u" "each_id f is u = Some w'" by (auto split: Option.bind_splits)
  with Cons show ?case by (metis runs_trans)
qed (simp add: runs_same)

lemma request_flush_runs:
  "request_flush flush ev i w = Some w' \<Longrightarrow> (\<And>u u'. flush i u = Some u' \<Longrightarrow> runs u u') \<Longrightarrow> runs w w'"
  by (auto simp: request_flush_def intro: runs_same split: if_splits)

text \<open>One round of the delivery loop: the injection failed and the rest went back, or it succeeded.\<close>

lemma deliver_loop_round:
  assumes "deliver_loop ev a (m # ms) fs rep w = Some (fs', rep', w')"
  obtains (failed) e st p obs where "settle_failed fs (m # ms) (sw_st w) = (fs', st)"
      "rep' = rep\<lparr>dr_caller_inject_error := Some e\<rparr>" "w' = w\<lparr>sw_st := st, sw_port := p, sw_obs := sw_obs w @ [obs]\<rparr>"
      "ob_msg_id obs = pm_msg_id m \<and> ob_error obs \<noteq> None"
  | (went) f1 now st p obs where "settle_delivered fs m now (sw_st w) = (f1, st)"
      "deliver_loop ev a ms f1 (rep\<lparr>dr_injected := dr_injected rep @ [pm_msg_id m]\<rparr>)
         (w\<lparr>sw_st := st, sw_port := p, sw_obs := sw_obs w @ [obs]\<rparr>) = Some (fs', rep', w')"
      "ob_msg_id obs = pm_msg_id m \<and> ob_to_id obs = la_id a \<and> ob_error obs = None"
proof -
  obtain payload where dec: "payload_decode (ev_parse_uuid ev) (pm_envelope m) = Some payload" using assms by (auto split: option.splits)
  obtain res p where inj: "ev_inject ev (la_id a) (wrap_parked ev (sw_port w) m payload) (sw_port w) = (res, p)" by fastforce
  show ?thesis
  proof (cases res)
    case (Inl e)
    obtain f1 st where sf: "settle_failed fs (m # ms) (sw_st w) = (f1, st)" by fastforce
    show ?thesis
      by (rule failed[where e = e and p = p]) (use assms dec inj Inl sf in \<open>auto simp: Let_def observe_failure_def\<close>)
  next
    case (Inr outcome)
    obtain f1 st where sd: "settle_delivered fs m (ev_now ev 1 p) (sw_st w) = (f1, st)" by fastforce
    show ?thesis
      by (rule went[OF sd]) (use assms dec inj Inr sd in \<open>auto simp: Let_def observe_success_def\<close>)
  qed
qed

lemma deliver_loop_run:
  assumes "deliver_loop ev a items fs rep w = Some (fs', rep', w')" "ss_run s t = Flying fs items" "ss_st s = sw_st w"
  shows "\<exists>s'. (svc_step True)\<^sup>*\<^sup>* s s' \<and> ss_st s' = sw_st w' \<and> ss_run s' = (ss_run s)(t := Flying fs' [])"
  using assms
proof (induction items arbitrary: fs rep w s)
  case Nil
  then show ?case by (intro exI[of _ s]) auto
next
  case (Cons m ms)
  from Cons.prems(1) show ?case
  proof (cases rule: deliver_loop_round)
    case (failed e st p obs)
    then have "settle_failed fs (m # ms) (ss_st s) = (fs', st)" using Cons.prems(3) by simp
    from sv_fail[OF Cons.prems(2) this, of True] show ?thesis
      by (intro exI conjI r_into_rtranclp) (auto simp: failed)
  next
    case (went f1 now st p obs)
    let ?s1 = "s\<lparr>ss_st := st, ss_run := (ss_run s)(t := Flying f1 ms), ss_air := (ss_air s)(fs_recipient fs := ms),
                  ss_log := (ss_log s)(fs_recipient fs := ss_log s (fs_recipient fs) @ [m])\<rparr>"
    have step: "svc_step True s ?s1" using sv_deliver[OF Cons.prems(2)] went(1) Cons.prems(3) by simp
    have "ss_run ?s1 t = Flying f1 ms" by simp
    from Cons.IH[OF went(2) this]
    obtain s' where "(svc_step True)\<^sup>*\<^sup>* ?s1 s'" "ss_st s' = sw_st w'" "ss_run s' = (ss_run s)(t := Flying fs' [])"
      by (auto simp del: fun_upd_apply)
    then show ?thesis using step by (intro exI[of _ s']) (auto intro: converse_rtranclp_into_rtranclp)
  qed
qed

text \<open>The three last sections of a drain, and the drain as a whole.\<close>

lemma landing_run:
  assumes "ss_run s t = Flying fs []" "release_targets fs (ss_st s) = (rel, fs2, st2)" "collect_waiters (fs_recipient fs2) rel (flight_drop fs2 st2) = (ws, st4)"
  shows "\<exists>s'. (svc_step True)\<^sup>*\<^sup>* s s' \<and> ss_st s' = st4 \<and> ss_run s' = (ss_run s)(t := Idle)"
proof -
  let ?s1 = "s\<lparr>ss_st := st2, ss_run := (ss_run s)(t := Landing rel fs2)\<rparr>"
  let ?s2 = "?s1\<lparr>ss_st := flight_drop fs2 (ss_st ?s1), ss_run := (ss_run ?s1)(t := Waking (fs_recipient fs2) rel)\<rparr>"
  let ?s3 = "?s2\<lparr>ss_st := snd (collect_waiters (fs_recipient fs2) rel (ss_st ?s2)), ss_run := (ss_run ?s2)(t := Idle)\<rparr>"
  have "svc_step True s ?s1" by (rule sv_release[OF assms(1,2)])
  moreover have "svc_step True ?s1 ?s2" by (rule sv_drop) simp
  moreover have "svc_step True ?s2 ?s3" by (rule sv_wake) simp
  ultimately have "(svc_step True)\<^sup>*\<^sup>* s ?s3" by (meson converse_rtranclp_into_rtranclp r_into_rtranclp)
  then show ?thesis using assms(3) by (intro exI[of _ ?s3]) simp
qed

lemma release_recipient: "release_targets fs st = (rel, fs2, st2) \<Longrightarrow> fs_recipient fs2 = fs_recipient fs"
  by (auto simp: release_targets_def split: if_splits)

lemma settle_recipient:
  "settle_failed fs ms st = (fs', st') \<Longrightarrow> fs_recipient fs' = fs_recipient fs"
  "settle_delivered fs m now st = (fs', st') \<Longrightarrow> fs_recipient fs' = fs_recipient fs"
  by (auto simp: settle_failed_def settle_delivered_def Let_def split: prod.splits)

lemma deliver_recipient:
  "deliver_loop ev a items fs rep w = Some (fs', rep', w') \<Longrightarrow> fs_recipient fs' = fs_recipient fs"
proof (induction items arbitrary: fs rep w)
  case (Cons m ms)
  from Cons.prems show ?case by (cases rule: deliver_loop_round) (use Cons.IH in \<open>auto dest: settle_recipient\<close>)
qed simp

text \<open>What a drain did when it returned: it backed off, or it delivered and landed.\<close>

lemma drain_once_cases:
  assumes "drain_once flush ev r snapshot w = Some (rep', w')"
  obtains (retreat) target rep evd st where "target = find (\<lambda>a. la_id a = r) (case snapshot of Some x \<Rightarrow> x | None \<Rightarrow> ev_live_agents ev (sw_port w))"
      "drain_section (ev_busy ev (sw_port w)) r target (ev_now ev 0 (sw_port w)) (sw_st w) = (Retreat, rep, evd, st)"
      "rep' = rep" "w' = w\<lparr>sw_st := st\<rparr>"
  | (landed) target flight batch rep evd st a fs w1 rel fs2 st2 ws st4
    where "target = find (\<lambda>a. la_id a = r) (case snapshot of Some x \<Rightarrow> x | None \<Rightarrow> ev_live_agents ev (sw_port w))"
      "drain_section (ev_busy ev (sw_port w)) r target (ev_now ev 0 (sw_port w)) (sw_st w) = (Drained flight batch, rep, evd, st)"
      "deliver_loop ev a (batch_items batch) (flight_start r flight batch) rep (w\<lparr>sw_st := st\<rparr>) = Some (fs, rep', w1)"
      "release_targets fs (sw_st w1) = (rel, fs2, st2)" "collect_waiters r rel (flight_drop fs2 st2) = (ws, st4)"
      "each_id (request_flush flush ev) ws (w1\<lparr>sw_st := st4\<rparr>) = Some w'" "\<forall>x. batch = Some x \<longrightarrow> fst x = a"
proof -
  let ?t = "find (\<lambda>a. la_id a = r) (case snapshot of Some x \<Rightarrow> x | None \<Rightarrow> ev_live_agents ev (sw_port w))"
  obtain d rep evd st where ds: "drain_section (ev_busy ev (sw_port w)) r ?t (ev_now ev 0 (sw_port w)) (sw_st w) = (d, rep, evd, st)"
    by (metis prod_cases4)
  show ?thesis
  proof (cases d)
    case Retreat
    show ?thesis by (rule retreat[OF refl ds[unfolded Retreat]]) (use assms ds Retreat in \<open>auto simp: drain_once_def Let_def\<close>)
  next
    case (Drained flight batch)
    let ?run = "case batch of None \<Rightarrow> Some (flight_start r flight None, rep, w\<lparr>sw_st := st\<rparr>)
      | Some (t, items) \<Rightarrow> deliver_loop ev t items (flight_start r flight batch) rep (w\<lparr>sw_st := st\<rparr>)"
    obtain fs rep1 w1 where run: "?run = Some (fs, rep1, w1)"
      using assms ds Drained by (auto simp: drain_once_def Let_def split: option.splits prod.splits)
    obtain rel fs2 st2 where rel: "release_targets fs (sw_st w1) = (rel, fs2, st2)" by (metis prod_cases3)
    obtain ws st4 where col: "collect_waiters r rel (flight_drop fs2 st2) = (ws, st4)" by fastforce
    have tail: "rep' = rep1" "each_id (request_flush flush ev) ws (w1\<lparr>sw_st := st4\<rparr>) = Some w'"
      using assms ds Drained run rel col by (auto simp: drain_once_def Let_def)
    have "deliver_loop ev (case batch of None \<Rightarrow> undefined | Some (t, _) \<Rightarrow> t) (batch_items batch) (flight_start r flight batch) rep (w\<lparr>sw_st := st\<rparr>) =
        Some (fs, rep', w1)"
      using run by (simp add: tail(1) split: option.splits prod.splits)
    from landed[OF refl ds[unfolded Drained] this rel col tail(2)] show ?thesis by auto
  qed
qed

lemma find_target: "find (\<lambda>a. la_id a = r) xs = Some a \<Longrightarrow> la_id a = r"
  by (auto simp: find_Some_iff)

lemma drain_once_runs:
  assumes run: "drain_once flush ev r snapshot w = Some (rep', w')" and flush: "\<And>i u u'. flush i u = Some u' \<Longrightarrow> runs u u'"
  shows "runs w w'"
proof -
  have drain: "svc_step True s (s\<lparr>ss_st := st, ss_run := (ss_run s)(t := phase_of r d), ss_air := (ss_air s)(r := taken d @ ss_air s r)\<rparr>)"
    if "drain_section busy r (find (\<lambda>a. la_id a = r) xs) now (sw_st w) = (d, rep, evd, st)" "ss_st s = sw_st w" "ss_run s t = Idle" for s t busy xs now d rep evd st
    by (rule sv_drain[OF that(3) _ that(1)[folded that(2)]]) (use find_target in blast)
  from run show ?thesis
  proof (cases rule: drain_once_cases)
    case (retreat target rep evd st)
    show ?thesis
      unfolding runs_def
    proof (intro allI impI)
      fix s :: svc_sys and t assume s: "ss_st s = sw_st w" "ss_run s t = Idle"
      from drain[OF retreat(2)[unfolded retreat(1)] s] show "\<exists>s'. (svc_step True)\<^sup>*\<^sup>* s s' \<and> ss_st s' = sw_st w' \<and> ss_run s' = ss_run s"
        using s(2) by (intro exI[of _ "s\<lparr>ss_st := st\<rparr>"]) (auto simp: retreat(4) fun_upd_idem)
    qed
  next
    case (landed target flight batch rep evd st a fs w1 rel fs2 st2 ws st4)
    have rcp: "fs_recipient fs2 = r"
      using release_recipient[OF landed(4)] deliver_recipient[OF landed(3)] by (simp add: flight_start_def)
    have "runs w (w1\<lparr>sw_st := st4\<rparr>)"
      unfolding runs_def
    proof (intro allI impI)
      fix s :: svc_sys and t assume s: "ss_st s = sw_st w" "ss_run s t = Idle"
      let ?s1 = "s\<lparr>ss_st := st, ss_run := (ss_run s)(t := Flying (flight_start r flight batch) (batch_items batch)),
          ss_air := (ss_air s)(r := batch_items batch @ ss_air s r)\<rparr>"
      have st1: "svc_step True s ?s1" using drain[OF landed(2)[unfolded landed(1)] s] by simp
      obtain s2 where s2: "(svc_step True)\<^sup>*\<^sup>* ?s1 s2" "ss_st s2 = sw_st w1" "ss_run s2 = (ss_run ?s1)(t := Flying fs [])"
        using deliver_loop_run[OF landed(3), of ?s1 t] by auto
      obtain s3 where s3: "(svc_step True)\<^sup>*\<^sup>* s2 s3" "ss_st s3 = st4" "ss_run s3 = (ss_run s2)(t := Idle)"
        using landing_run[of s2 t fs rel fs2 st2 ws st4] s2(2,3) landed(4,5) rcp by auto
      have "(svc_step True)\<^sup>*\<^sup>* s s3" using st1 s2(1) s3(1) by (meson converse_rtranclp_into_rtranclp rtranclp_trans)
      then show "\<exists>s'. (svc_step True)\<^sup>*\<^sup>* s s' \<and> ss_st s' = sw_st (w1\<lparr>sw_st := st4\<rparr>) \<and> ss_run s' = ss_run s"
        using s(2) s2(3) s3 by (intro exI[of _ s3]) (auto simp: fun_upd_idem)
    qed
    moreover have "runs (w1\<lparr>sw_st := st4\<rparr>) w'"
      by (rule each_id_runs[OF landed(6)]) (rule request_flush_runs, assumption, rule flush)
    ultimately show ?thesis by (rule runs_trans)
  qed
qed

lemma flush_with_runs:
  "flush_with run i w = Some w' \<Longrightarrow> (\<And>r sn u rep u'. run r sn u = Some (rep, u') \<Longrightarrow> runs u u') \<Longrightarrow> runs w w'"
  by (auto simp: flush_with_def intro: runs_same split: if_splits)

lemma drain_queue_runs: "drain_queue n ev r snapshot w = Some (rep, w') \<Longrightarrow> runs w w'"
proof (induction n arbitrary: r snapshot w rep w')
  case (Suc n)
  show ?case
    by (rule drain_once_runs[OF Suc.prems[unfolded drain_queue.simps]]) (rule flush_with_runs, assumption, rule Suc.IH)
qed simp

section \<open>Enough fuel\<close>

text \<open>The only waiter under a key is the key itself, once, as \<open>wait_inv\<close> has it in every reachable state.\<close>

definition own_waiters :: "messaging_state \<Rightarrow> bool" where
  "own_waiters st \<longleftrightarrow> (\<forall>r. alist_get [] (st_deferred_flush st) r \<in> {[], [r]} \<and> alist_get [] (st_deferred_by_target st) r \<in> {[], [r]})"

text \<open>The depth of inline flushing that the waiters of a queue can cause.\<close>

definition fuel_needed :: "messaging_state \<Rightarrow> peer_id \<Rightarrow> nat" where
  "fuel_needed st r = (if alist_get [] (st_deferred_flush st) r \<noteq> [] then 3
     else if alist_get [] (st_deferred_by_target st) r \<noteq> [] then 2 else 1)"

lemma settle_waiters:
  "settle_failed fs ms st = (fs', st') \<Longrightarrow> st_deferred_flush st' = st_deferred_flush st \<and> st_deferred_by_target st' = st_deferred_by_target st \<and> fs_targets fs' = fs_targets fs"
  "settle_delivered fs m now st = (fs', st') \<Longrightarrow> st_deferred_flush st' = st_deferred_flush st \<and> st_deferred_by_target st' = st_deferred_by_target st \<and> fs_targets fs' = fs_targets fs"
  by (auto simp: settle_failed_def settle_delivered_def Let_def split: prod.splits)

lemma deliver_loop_returns: "\<exists>fs' rep' w'. deliver_loop ev a items fs rep w = Some (fs', rep', w') \<and>
   st_deferred_flush (sw_st w') = st_deferred_flush (sw_st w) \<and> st_deferred_by_target (sw_st w') = st_deferred_by_target (sw_st w) \<and>
   fs_targets fs' = fs_targets fs"
proof (induction items arbitrary: fs rep w)
  case (Cons m ms)
  obtain payload where dec: "payload_decode (ev_parse_uuid ev) (pm_envelope m) = Some payload"
    using payload_decode_some by blast
  obtain res p where inj: "ev_inject ev (la_id a) (wrap_parked ev (sw_port w) m payload) (sw_port w) = (res, p)" by fastforce
  show ?case
  proof (cases res)
    case (Inl e)
    obtain f1 st where sf: "settle_failed fs (m # ms) (sw_st w) = (f1, st)" by fastforce
    then show ?thesis using dec inj Inl settle_waiters(1)[OF sf] by (simp add: Let_def)
  next
    case (Inr outcome)
    obtain f1 st where sd: "settle_delivered fs m (ev_now ev 1 p) (sw_st w) = (f1, st)" by fastforce
    let ?ob = "observe_success (pm_msg_id m) a (pp_from payload) (pp_entrance payload) outcome (sm_reply_to (pp_meta payload))"
    show ?thesis
      using dec inj Inr sd settle_waiters(2)[OF sd]
        Cons.IH[of f1 "rep\<lparr>dr_injected := dr_injected rep @ [pm_msg_id m]\<rparr>" "w\<lparr>sw_st := st, sw_port := p, sw_obs := sw_obs w @ [?ob]\<rparr>"]
      by (simp add: Let_def)
  qed
qed simp

lemma own_waitersD:
  "own_waiters st \<Longrightarrow> alist_get [] (st_deferred_flush st) r = [] \<or> alist_get [] (st_deferred_flush st) r = [r]"
  "own_waiters st \<Longrightarrow> alist_get [] (st_deferred_by_target st) r = [] \<or> alist_get [] (st_deferred_by_target st) r = [r]"
  by (auto simp: own_waiters_def)

lemma own_waiters_add: "own_waiters st \<Longrightarrow> own_waiters (st\<lparr>st_deferred_flush := add_waiter r r (st_deferred_flush st)\<rparr>)"
  "own_waiters st \<Longrightarrow> st_deferred_flush st' = st_deferred_flush st \<Longrightarrow>
     st_deferred_by_target st' = add_waiter r r (st_deferred_by_target st) \<Longrightarrow> own_waiters st'"
  by (auto simp: own_waiters_def alist_get_add_waiter)

lemma own_waiters_same:
  "own_waiters st \<Longrightarrow> st_deferred_flush st' = st_deferred_flush st \<Longrightarrow> st_deferred_by_target st' = st_deferred_by_target st \<Longrightarrow> own_waiters st'"
  by (simp add: own_waiters_def)

lemma release_drop_waiters:
  assumes "release_targets fs st = (rel, fs2, st2)"
  shows "rel = fs_targets fs" "st_deferred_flush (flight_drop fs2 st2) = st_deferred_flush st"
    "st_deferred_by_target (flight_drop fs2 st2) = st_deferred_by_target st"
  using assms by (auto simp: release_targets_def flight_drop_def Let_def split: if_splits)

text \<open>Collecting for a queue that released nothing or itself.\<close>

lemma collect_own:
  assumes "own_waiters st" "rel = [] \<or> rel = [r]" "collect_waiters r rel st = (ws, st')"
  shows "own_waiters st'" "ws = [] \<or> ws = [r]"
    "ws \<noteq> [] \<Longrightarrow> alist_get [] (st_deferred_flush st) r \<noteq> [] \<or> rel = [r] \<and> alist_get [] (st_deferred_by_target st) r \<noteq> []"
    "alist_get [] (st_deferred_flush st') r = []" "rel = [r] \<Longrightarrow> alist_get [] (st_deferred_by_target st') r = []"
proof -
  have C: "alist_get [] (st_deferred_flush st') k = (if k = r then [] else alist_get [] (st_deferred_flush st) k)"
    "alist_get [] (st_deferred_by_target st') k = (if k \<in> set rel then [] else alist_get [] (st_deferred_by_target st) k)" for k
    using collect_waiters_state(4,5)[of r rel st k] assms(3) by simp_all
  show "own_waiters st'" using assms(1) by (auto simp: own_waiters_def C)
  show "alist_get [] (st_deferred_flush st') r = []" by (simp add: C)
  show "alist_get [] (st_deferred_by_target st') r = []" if "rel = [r]" using that by (simp add: C)
  have "ws = alist_get [] (st_deferred_flush st) r \<or> (rel = [r] \<and> alist_get [] (st_deferred_by_target st) r = [r] \<and> ws = [r])"
    using assms(2,3) own_waitersD[OF assms(1), of r] by (auto simp: collect_waiters_def split: prod.splits)
  then show "ws = [] \<or> ws = [r]"
    "ws \<noteq> [] \<Longrightarrow> alist_get [] (st_deferred_flush st) r \<noteq> [] \<or> rel = [r] \<and> alist_get [] (st_deferred_by_target st) r \<noteq> []"
    using own_waitersD(1)[OF assms(1), of r] by auto
qed

text \<open>What the taking section does to the waiters and which target it takes.\<close>

lemma drain_section_waiters:
  assumes ds: "drain_section busy r target now st = (Drained flight batch, rep, evd, st')" and tgt: "\<forall>a. target = Some a \<longrightarrow> la_id a = r"
    and own: "own_waiters st"
  shows "own_waiters st'" "st_deferred_flush st' = st_deferred_flush st"
    "fs_targets (flight_start r flight batch) = [] \<or>
     fs_targets (flight_start r flight batch) = [r] \<and> st_deferred_by_target st' = st_deferred_by_target st"
proof -
  have "own_waiters st' \<and> st_deferred_flush st' = st_deferred_flush st \<and> (fs_targets (flight_start r flight batch) = [] \<or>
     fs_targets (flight_start r flight batch) = [r] \<and> st_deferred_by_target st' = st_deferred_by_target st)"
    using ds tgt
  proof (cases rule: drain_section_cases)
    case keep
    from keep(6) own_waiters_same[OF own keep(5)] own_waiters_add(2)[OF own keep(5)] have "own_waiters st'" by blast
    with keep show ?thesis by (simp add: flight_start_def)
  next
    case (fly a items)
    then show ?thesis using own_waiters_same[OF own] by (simp add: flight_start_def)
  qed simp
  then show "own_waiters st'" "st_deferred_flush st' = st_deferred_flush st"
    "fs_targets (flight_start r flight batch) = [] \<or>
     fs_targets (flight_start r flight batch) = [r] \<and> st_deferred_by_target st' = st_deferred_by_target st"
    by blast+
qed

lemma drain_retreat_waiters:
  assumes ds: "drain_section busy r target now st = (Retreat, rep, evd, st')" and tgt: "\<forall>a. target = Some a \<longrightarrow> la_id a = r"
    and own: "own_waiters st"
  shows "own_waiters st'"
  using ds tgt by (cases rule: drain_section_cases) (auto intro: own_waiters_add own)

lemma drain_once_returns:
  assumes own: "own_waiters (sw_st w)"
    and flush: "\<And>u. own_waiters (sw_st u) \<Longrightarrow> fuel_needed (sw_st u) r < fuel_needed (sw_st w) r \<Longrightarrow>
      \<exists>u'. flush r u = Some u' \<and> own_waiters (sw_st u')"
  shows "\<exists>rep w'. drain_once flush ev r snapshot w = Some (rep, w') \<and> own_waiters (sw_st w')"
proof -
  let ?t = "find (\<lambda>a. la_id a = r) (case snapshot of Some x \<Rightarrow> x | None \<Rightarrow> ev_live_agents ev (sw_port w))"
  have tgt: "\<forall>a. ?t = Some a \<longrightarrow> la_id a = r" using find_target by blast
  obtain d rep evd st where ds: "drain_section (ev_busy ev (sw_port w)) r ?t (ev_now ev 0 (sw_port w)) (sw_st w) = (d, rep, evd, st)"
    by (metis prod_cases4)
  show ?thesis
  proof (cases d)
    case Retreat
    then show ?thesis using ds drain_retreat_waiters[OF ds[unfolded Retreat] tgt own] by (simp add: drain_once_def Let_def)
  next
    case (Drained flight batch)
    note D = drain_section_waiters[OF ds[unfolded Drained] tgt own]
    let ?fs = "flight_start r flight batch"
    obtain a where a: "(case batch of None \<Rightarrow> Some (flight_start r flight None, rep, w\<lparr>sw_st := st\<rparr>)
        | Some (t, items) \<Rightarrow> deliver_loop ev t items ?fs rep (w\<lparr>sw_st := st\<rparr>)) = deliver_loop ev a (batch_items batch) ?fs rep (w\<lparr>sw_st := st\<rparr>)"
      by (cases batch) auto
    obtain fs rep1 w1 where dl: "deliver_loop ev a (batch_items batch) ?fs rep (w\<lparr>sw_st := st\<rparr>) = Some (fs, rep1, w1)"
      and dw: "st_deferred_flush (sw_st w1) = st_deferred_flush st" "st_deferred_by_target (sw_st w1) = st_deferred_by_target st" "fs_targets fs = fs_targets ?fs"
      using deliver_loop_returns[of ev a "batch_items batch" ?fs rep "w\<lparr>sw_st := st\<rparr>"] by auto
    obtain rel fs2 st2 where rel: "release_targets fs (sw_st w1) = (rel, fs2, st2)" by (metis prod_cases3)
    note R = release_drop_waiters[OF rel]
    obtain ws st4 where col: "collect_waiters r rel (flight_drop fs2 st2) = (ws, st4)" by fastforce
    have own3: "own_waiters (flight_drop fs2 st2)" using D(1) R(2,3) dw(1,2) by (auto intro: own_waiters_same)
    have rel': "rel = [] \<or> rel = [r]" using R(1) dw(3) D(3) by auto
    note C = collect_own[OF own3 rel' col]
    let ?w4 = "w1\<lparr>sw_st := st4\<rparr>"
    have eq: "drain_once flush ev r snapshot w = map_option (Pair rep1) (each_id (request_flush flush ev) ws ?w4)"
      using ds by (simp add: drain_once_def Let_def Drained a dl rel col)
    have less: "fuel_needed st4 r < fuel_needed (sw_st w) r" if "ws \<noteq> []"
      using C(3)[OF that] C(4,5) R(1,2,3) dw D(2,3) by (auto simp: fuel_needed_def)
    have "\<exists>w'. each_id (request_flush flush ev) ws ?w4 = Some w' \<and> own_waiters (sw_st w')"
      using C(1,2) less flush[of ?w4] by (auto simp: request_flush_def)
    then show ?thesis using eq by auto
  qed
qed

lemma drain_queue_returns:
  "own_waiters (sw_st w) \<Longrightarrow> fuel_needed (sw_st w) r \<le> n \<Longrightarrow>
     \<exists>rep w'. drain_queue n ev r snapshot w = Some (rep, w') \<and> own_waiters (sw_st w')"
proof (induction n arbitrary: snapshot w)
  case 0
  then show ?case by (simp add: fuel_needed_def split: if_splits)
next
  case (Suc n)
  have "\<exists>u'. flush_with (drain_queue n ev) r u = Some u' \<and> own_waiters (sw_st u')"
    if "own_waiters (sw_st u)" "fuel_needed (sw_st u) r < fuel_needed (sw_st w) r" for u
    using Suc.IH[OF that(1)] that Suc.prems(2) by (fastforce simp: flush_with_def)
  then show ?case using drain_once_returns[OF Suc.prems(1)] by simp
qed

lemma drain_queue_3: "own_waiters (sw_st w) \<Longrightarrow> \<exists>rep w'. drain_queue 3 ev r snapshot w = Some (rep, w') \<and> own_waiters (sw_st w')"
  by (rule drain_queue_returns) (simp_all add: fuel_needed_def)

lemma flush_for_agent_3: "own_waiters (sw_st w) \<Longrightarrow> \<exists>w'. flush_for_agent 3 ev r w = Some w' \<and> own_waiters (sw_st w')"
  using drain_queue_3[of w ev r None] by (auto simp: flush_for_agent_def flush_with_def)

lemma each_id_returns:
  assumes "\<And>i u. own_waiters (sw_st u) \<Longrightarrow> \<exists>u'. f i u = Some u' \<and> own_waiters (sw_st u')"
  shows "own_waiters (sw_st w) \<Longrightarrow> \<exists>w'. each_id f is w = Some w' \<and> own_waiters (sw_st w')"
proof (induction "is" arbitrary: w)
  case (Cons i "is")
  with assms[of w i] show ?case by auto
qed simp

lemma settle_plan_returns:
  assumes "own_waiters (sw_st w)"
  shows "\<exists>row deferred' w'. settle_plan 3 ev msg_id roster display plan deferred w = Some (row, deferred', w') \<and> own_waiters (sw_st w')"
proof (cases plan)
  case (PlanPark rid live c)
  obtain rep w1 where d: "drain_queue 3 ev rid (Some roster) w = Some (rep, w1)" "own_waiters (sw_st w1)"
    using drain_queue_3[OF assms] by blast
  then show ?thesis using assms PlanPark
    by (auto simp: settle_plan_def ring_or_defer_def)
qed (use assms in \<open>simp add: settle_plan_def\<close>)

lemma settle_plans_returns:
  "own_waiters (sw_st w) \<Longrightarrow>
     \<exists>rows deferred' w'. settle_plans 3 ev msg_id roster xs deferred w = Some (rows, deferred', w') \<and> own_waiters (sw_st w')"
proof (induction xs arbitrary: deferred w)
  case (Cons x xs)
  obtain display plan where x: "x = (display, plan)" by fastforce
  obtain row d1 w1 where 1: "settle_plan 3 ev msg_id roster display plan deferred w = Some (row, d1, w1)" "own_waiters (sw_st w1)"
    using settle_plan_returns[OF Cons.prems] by blast
  with Cons.IH[OF 1(2), of d1] show ?case by (auto simp: x)
qed simp

lemma same_drains_own: "same_drains st st' \<Longrightarrow> own_waiters st \<Longrightarrow> own_waiters st'"
  by (auto simp: same_drains_def intro: own_waiters_same)

lemma close_reply_runs: "runs w (close_reply a cl results w)" "own_waiters (sw_st w) \<Longrightarrow> own_waiters (sw_st (close_reply a cl results w))"
proof -
  have "runs w (w\<lparr>sw_st := snd (fail_reply_contract (sw_st w) i r)\<rparr>)" for i r
  proof (rule runs_section)
    fix s :: svc_sys assume s: "ss_st s = sw_st w"
    show "svc_step True s (s\<lparr>ss_st := sw_st (w\<lparr>sw_st := snd (fail_reply_contract (sw_st w) i r)\<rparr>)\<rparr>)"
      using sv_fail_reply[of True s i r] by (simp add: s)
  qed
  then show "runs w (close_reply a cl results w)"
    by (auto simp: close_reply_def runs_same split: option.split reply_disposition.split)
  show "own_waiters (sw_st (close_reply a cl results w))" if "own_waiters (sw_st w)"
    using that by (auto simp: close_reply_def own_waiters_def fail_reply_contract_def split: option.split reply_disposition.split prod.split)
qed

lemma settle_plan_runs:
  assumes "settle_plan n ev msg_id roster display plan deferred w = Some (row, deferred', w')"
  shows "runs w w'"
proof (cases plan)
  case (PlanPark rid live c)
  show ?thesis
  proof (cases live)
    case True
    then obtain rep w1 where d: "drain_queue n ev rid (Some roster) w = Some (rep, w1)" "sw_st w' = sw_st w1"
      using assms PlanPark by (auto simp: settle_plan_def ring_or_defer_def Let_def split: option.splits if_splits)
    then show ?thesis using drain_queue_runs[OF d(1)] runs_trans runs_same[of w' w1] by blast
  qed (use assms PlanPark in \<open>simp add: settle_plan_def runs_same\<close>)
qed (use assms in \<open>simp add: settle_plan_def runs_same\<close>)

lemma settle_plans_runs:
  "settle_plans n ev msg_id roster xs deferred w = Some (rows, deferred', w') \<Longrightarrow> runs w w'"
proof (induction xs arbitrary: deferred w rows)
  case (Cons x xs)
  obtain display plan where x: "x = (display, plan)" by fastforce
  obtain row d1 w1 rows1 where 1: "settle_plan n ev msg_id roster display plan deferred w = Some (row, d1, w1)"
      "settle_plans n ev msg_id roster xs d1 w1 = Some (rows1, deferred', w')"
    using Cons.prems by (auto simp: x split: option.splits)
  show ?case by (rule runs_trans[OF settle_plan_runs[OF 1(1)] Cons.IH[OF 1(2)]])
qed (simp add: runs_same)

lemma flush_for_agent_runs: "flush_for_agent n ev i w = Some w' \<Longrightarrow> runs w w'"
  unfolding flush_for_agent_def by (rule flush_with_runs) (auto intro: drain_queue_runs)

text \<open>Room for the admission numbers of a send.\<close>

definition send_room :: "'p svc_env \<Rightarrow> send_args \<Rightarrow> ustr list \<Rightarrow> 'p svc_world \<Rightarrow> bool" where
  "send_room ev a to w \<longleftrightarrow>
     (case resolve_addressing (ev_parse_uuid ev) builtin_resolve to (sa_from a) (ev_sources ev (sw_port w)) of
        Inl _ \<Rightarrow> True | Inr addr \<Rightarrow> unat (mb_next_seq (st_mailbox (sw_st w))) + length (ad_recipients addr) < 2 ^ 64)"

lemma handle_send_run:
  assumes own: "own_waiters (sw_st w)" and room: "send_room ev a to w"
  shows "\<exists>res w'. handle_send 3 ev tok a to w = Some (res, w') \<and> runs w w' \<and> own_waiters (sw_st w')"
proof (cases "resolve_addressing (ev_parse_uuid ev) builtin_resolve to (sa_from a) (ev_sources ev (sw_port w))")
  case (Inl e)
  then show ?thesis using own by (simp add: handle_send_def runs_same)
next
  case (Inr addr)
  let ?roster = "as_roster (ev_sources ev (sw_port w))"
  obtain out st where ss: "send_section (ev_show_uuid ev) tok a addr (live_names_hint ?roster)
      (ev_now ev 0 (sw_port w)) (ev_now ev 1 (sw_port w)) (sw_st w) = (out, st)" by fastforce
  have sec: "runs w (w\<lparr>sw_st := st\<rparr>)"
  proof (rule runs_section)
    fix s :: svc_sys assume s: "ss_st s = sw_st w"
    show "svc_step True s (s\<lparr>ss_st := sw_st (w\<lparr>sw_st := st\<rparr>)\<rparr>)"
      using sv_send[OF Inr, of s True "ev_show_uuid ev" tok "live_names_hint ?roster" "ev_now ev 0 (sw_port w)" "ev_now ev 1 (sw_port w)"] room ss
      by (simp add: s send_room_def Inr)
  qed
  have own1: "own_waiters st" using same_drains_own[OF send_section_store(2) own] ss by (metis snd_conv)
  show ?thesis
  proof (cases out)
    case (Inl e)
    then show ?thesis using Inr ss own1 sec by (simp add: handle_send_def)
  next
    case (Inr x)
    obtain plans acc dups where x: "x = (plans, acc, dups)" by (metis prod_cases3)
    let ?xs = "zip (map rv_display (ad_recipients addr)) plans"
    obtain rows def w1 where 1: "settle_plans 3 ev (sa_msg_id a) ?roster ?xs [] (w\<lparr>sw_st := st\<rparr>) = Some (rows, def, w1)" "own_waiters (sw_st w1)"
      using settle_plans_returns[of "w\<lparr>sw_st := st\<rparr>"] own1 by fastforce
    obtain w2 where 2: "each_id (flush_for_agent 3 ev) def w1 = Some w2" "own_waiters (sw_st w2)"
      using each_id_returns[of "flush_for_agent 3 ev", OF flush_for_agent_3 1(2)] by blast
    let ?w3 = "close_reply a (eq_closing acc) rows w2"
    have "handle_send 3 ev tok a to w = Some (Inr rows, ?w3)"
      using \<open>resolve_addressing _ _ _ _ _ = Inr addr\<close> ss Inr x 1(1) 2(1) by (simp add: handle_send_def Let_def)
    moreover have "runs w ?w3"
      using runs_trans[OF sec runs_trans[OF settle_plans_runs[OF 1(1)] runs_trans[OF each_id_runs[OF 2(1)] close_reply_runs(1)]]]
        flush_for_agent_runs by blast
    ultimately show ?thesis using close_reply_runs(2)[OF 2(2)] by blast
  qed
qed

text \<open>The sweep: each overdue contract parks at most one notice.\<close>

abbreviation next_seq :: "'p svc_world \<Rightarrow> u64" where
  "next_seq w \<equiv> mb_next_seq (st_mailbox (sw_st w))"

lemma deliver_loop_seq: "deliver_loop ev a items fs rep w = Some (fs', rep', w') \<Longrightarrow> next_seq w' = next_seq w"
proof (induction items arbitrary: fs rep w)
  case (Cons m ms)
  from Cons.prems show ?case
  proof (cases rule: deliver_loop_round)
    case (failed e st p obs)
    then show ?thesis by (auto simp: settle_failed_def Let_def split: prod.splits)
  next
    case (went f1 now st p obs)
    then have "mb_next_seq (st_mailbox st) = next_seq w" by (auto simp: settle_delivered_def Let_def split: prod.splits)
    with Cons.IH[OF went(2)] show ?thesis by simp
  qed
qed simp

lemma drain_section_seq:
  "drain_section busy r target now st = (d, rep, evd, st') \<Longrightarrow> \<forall>a. target = Some a \<longrightarrow> la_id a = r \<Longrightarrow>
     mb_next_seq (st_mailbox st') = mb_next_seq (st_mailbox st)"
  by (elim drain_section_cases) simp_all

lemma release_drop_seq:
  "release_targets fs st = (rel, fs2, st2) \<Longrightarrow> mb_next_seq (st_mailbox (flight_drop fs2 st2)) = mb_next_seq (st_mailbox st)"
  by (auto simp: release_targets_def flight_drop_def Let_def split: if_splits)

lemma each_id_seq:
  "each_id f is w = Some w' \<Longrightarrow> (\<And>i u u'. f i u = Some u' \<Longrightarrow> next_seq u' = next_seq u) \<Longrightarrow> next_seq w' = next_seq w"
  by (induction "is" arbitrary: w) (auto split: Option.bind_splits)

lemma drain_queue_seq: "drain_queue n ev r snapshot w = Some (rep, w') \<Longrightarrow> next_seq w' = next_seq w"
proof (induction n arbitrary: r snapshot w rep w')
  case (Suc n)
  have tgt: "\<forall>a. find (\<lambda>a. la_id a = r) xs = Some a \<longrightarrow> la_id a = r" for xs using find_target by blast
  have fl: "request_flush (flush_with (drain_queue n ev)) ev i u = Some u' \<Longrightarrow> next_seq u' = next_seq u" for i u u'
    using Suc.IH by (auto simp: request_flush_def flush_with_def split: if_splits)
  from Suc.prems[unfolded drain_queue.simps] show ?case
  proof (cases rule: drain_once_cases)
    case (retreat target rep evd st)
    then show ?thesis using drain_section_seq[OF retreat(2)[unfolded retreat(1)] tgt] by simp
  next
    case (landed target flight batch rep evd st a fs w1 rel fs2 st2 ws st4)
    have "next_seq (w1\<lparr>sw_st := st4\<rparr>) = next_seq w"
      using collect_waiters_state(1)[of r rel "flight_drop fs2 st2"] landed(5) release_drop_seq[OF landed(4)] deliver_loop_seq[OF landed(3)]
        drain_section_seq[OF landed(2)[unfolded landed(1)] tgt] by simp
    with each_id_seq[OF landed(6) fl] show ?thesis by simp
  qed
qed simp

lemma flush_for_agent_seq: "flush_for_agent n ev i w = Some w' \<Longrightarrow> next_seq w' = next_seq w"
  by (auto simp: flush_for_agent_def flush_with_def split: if_splits dest: drain_queue_seq)

lemma park_notice_frame:
  "same_drains st (fst (park_notice su st i r rname body now))"
  "\<exists>x. st_mailbox (fst (park_notice su st i r rname body now)) = snd (park (st_mailbox st) r x)"
proof -
  obtain res st' eff where pi: "park_into su st \<lparr>pq_msg_id = i, pq_sender_name = NOTICE_SENDER_LABEL, pq_from = daemon_identity,
        pq_entrance = Daemon, pq_recipient = r, pq_recipient_name = rname, pq_body = body,
        pq_kind = Notice, pq_meta = send_meta_default, pq_expected_rows = 1\<rparr> now park_side_effects_default = (res, st', eff)"
    by (metis prod_cases3)
  from park_into_frame[OF pi] show "same_drains st (fst (park_notice su st i r rname body now))"
    "\<exists>x. st_mailbox (fst (park_notice su st i r rname body now)) = snd (park (st_mailbox st) r x)"
    by (auto simp: park_notice_def pi)
qed

lemma unat_plus_1_le: "unat (n + 1 :: 'a::len word) \<le> Suc (unat n)"
  by (simp add: unat_word_ariths)

lemma park_notice_seq:
  "unat (mb_next_seq (st_mailbox (fst (park_notice su st i r rname body now)))) \<le> Suc (unat (mb_next_seq (st_mailbox st)))"
  using park_notice_frame(2)[of su st i r rname body now] park_next_seq[of "st_mailbox st" r] unat_plus_1_le
  by (metis le_Suc_eq order_refl)

lemma deliver_notice_run:
  assumes own: "own_waiters (sw_st w)" and room: "next_seq w \<noteq> - 1"
  shows "\<exists>w'. deliver_notice 3 ev d w = Some w' \<and> runs w w' \<and> own_waiters (sw_st w') \<and> unat (next_seq w') \<le> Suc (unat (next_seq w))"
proof (cases "is_request_closed (st_ledger (sw_st w)) (dt_request_id d) (dt_recipient_id d)")
  case True
  then show ?thesis using own by (simp add: deliver_notice_def runs_same)
next
  case False
  let ?i = "dw_id (draw_daemon_msg_id_with (sw_st w) (ev_draw ev 0 (sw_port w)) (ev_draw ev 1 (sw_port w)))"
  let ?st = "fst (park_notice (ev_show_uuid ev) (sw_st w) ?i (dt_sender_id d) (dt_sender d) (overdue_body d) (ev_now ev 0 (sw_port w)))"
  let ?w1 = "w\<lparr>sw_st := ?st\<rparr>"
  have sec: "runs w ?w1"
  proof (rule runs_section)
    fix s :: svc_sys assume s: "ss_st s = sw_st w"
    show "svc_step True s (s\<lparr>ss_st := sw_st ?w1\<rparr>)"
      using sv_notice[where anyid = True and s = s and i = ?i and su = "ev_show_uuid ev" and r = "dt_sender_id d" and rname = "dt_sender d" and
          body = "overdue_body d" and now = "ev_now ev 0 (sw_port w)"] room by (simp add: s)
  qed
  have own1: "own_waiters ?st"
    by (rule same_drains_own[OF park_notice_frame(1) own])
  have seq: "unat (next_seq ?w1) \<le> Suc (unat (next_seq w))" using park_notice_seq by simp
  obtain w2 where w2: "flush_for_agent 3 ev (dt_sender_id d) ?w1 = Some w2" "own_waiters (sw_st w2)"
    using flush_for_agent_3[of ?w1] own1 by auto
  note flush_for_agent_seq[OF w2(1)]
  with False w2 own1 seq show ?thesis
    using runs_trans[OF sec flush_for_agent_runs[OF w2(1)]] runs_trans[OF sec runs_same]
    by (auto simp: deliver_notice_def request_flush_def Let_def)
qed

lemma deliver_notices_run:
  "own_waiters (sw_st w) \<Longrightarrow> unat (next_seq w) + length ds < 2 ^ 64 \<Longrightarrow>
     \<exists>w'. deliver_notices 3 ev ds w = Some w' \<and> runs w w' \<and> own_waiters (sw_st w')"
proof (induction ds arbitrary: w)
  case (Cons d ds)
  note W = word_room[of "next_seq w" "length ds"]
  obtain w1 where 1: "deliver_notice 3 ev d w = Some w1" "runs w w1" "own_waiters (sw_st w1)" "unat (next_seq w1) \<le> Suc (unat (next_seq w))"
    using deliver_notice_run[OF Cons.prems(1)] W(1) Cons.prems(2) by fastforce
  from Cons.IH[OF 1(3)] 1(4) Cons.prems(2) obtain w' where "deliver_notices 3 ev ds w1 = Some w'" "runs w1 w'" "own_waiters (sw_st w')" by auto
  with 1 runs_trans show ?case by auto
qed (simp add: runs_same)

lemma transition_requests: "lg_requests (fst (transition_or_collect_evicted l m r st now ev)) = lg_requests l"
  using transition_same(1)[of l m r st now]
  by (auto simp: transition_or_collect_evicted_def split: prod.splits sum.splits transition_error.splits)

lemma sweep_transitions_requests: "lg_requests (fst (sweep_transitions now xs l ev)) = lg_requests l"
proof (induction xs arbitrary: l ev)
  case (Cons x xs)
  show ?case
    using transition_requests[of l "pm_msg_id (ep_msg x)" "ep_recipient x" Expired now ev] Cons
    by (cases "transition_or_collect_evicted l (pm_msg_id (ep_msg x)) (ep_recipient x) Expired now ev") simp
qed simp

lemma reclaim_loop_requests: "length (lg_requests (snd (reclaim_loop items l acc))) \<le> length (lg_requests l)"
proof (induction items l acc rule: reclaim_loop.induct)
  case (2 key victim items l acc)
  define l1 where "l1 = (case victim of None \<Rightarrow> l | Some v \<Rightarrow> l\<lparr>lg_requests := update_first (\<lambda>r. re_key r = v)
              (\<lambda>e. e\<lparr>re_pending_retirement := False\<rparr>) (lg_requests l)\<rparr>)"
  have "length (lg_requests l1) = length (lg_requests l)" by (simp add: l1_def split: option.splits)
  then have "length (lg_requests (snd (drop_request l1 (fst key) (snd key)))) \<le> length (lg_requests l)"
    using list_emb_length[OF subseq_remove_first[of "\<lambda>e. re_key e = (fst key, snd key)" "lg_requests l1"]]
    by (simp add: drop_request_requests)
  with 2[OF l1_def] show ?case by (simp add: l1_def[symmetric] Let_def)
qed simp

lemma sweep_due_length:
  assumes "sweep_reclaim alive st = (ks, st1)" "sweep_section now st1 = (out, evd, st2)"
  shows "length out \<le> length (lg_requests (st_ledger st))"
proof -
  obtain exd mb where se: "sweep_expired (st_mailbox st1) now = (exd, mb)" by fastforce
  obtain l ev where st: "sweep_transitions now exd (st_ledger st1) [] = (l, ev)" by fastforce
  have "out = fst (due_timeouts l now)" using assms(2) se st by (auto simp: sweep_section_def split: prod.splits)
  then have "length out \<le> length (lg_requests l)" by (simp add: due_fst)
  also have "\<dots> = length (lg_requests (st_ledger st1))"
    using sweep_transitions_requests[of now exd "st_ledger st1" "[]"] st by simp
  also have "\<dots> \<le> length (lg_requests (st_ledger st))"
    using assms(1) reclaim_loop_requests[of "map (\<lambda>r. (re_key r, re_marked_victim r)) (filter (abandoned alive) (lg_requests (st_ledger st)))" "st_ledger st" "[]"]
    by (auto simp: sweep_reclaim_def reclaim_abandoned_reservations_def split: prod.splits)
  finally show ?thesis .
qed

lemma sweep_run:
  assumes own: "own_waiters (sw_st w)" and room: "unat (next_seq w) + length (lg_requests (st_ledger (sw_st w))) < 2 ^ 64"
  shows "\<exists>w'. sweep 3 ev alive now w = Some w' \<and> runs w w' \<and> own_waiters (sw_st w')"
proof -
  obtain ks st1 where rc: "sweep_reclaim alive (sw_st w) = (ks, st1)" by fastforce
  obtain out evd st2 where sw: "sweep_section now st1 = (out, evd, st2)" by (metis prod_cases3)
  have one: "runs w (w\<lparr>sw_st := st1\<rparr>)"
  proof (rule runs_section)
    fix s :: svc_sys assume s: "ss_st s = sw_st w"
    show "svc_step True s (s\<lparr>ss_st := sw_st (w\<lparr>sw_st := st1\<rparr>)\<rparr>)" using sv_reclaim[of True s alive] rc by (simp add: s)
  qed
  have two: "runs (w\<lparr>sw_st := st1\<rparr>) (w\<lparr>sw_st := st2\<rparr>)"
  proof (rule runs_section)
    fix s :: svc_sys assume s: "ss_st s = sw_st (w\<lparr>sw_st := st1\<rparr>)"
    show "svc_step True s (s\<lparr>ss_st := sw_st (w\<lparr>sw_st := st2\<rparr>)\<rparr>)" using sv_sweep[of True s now] sw by (simp add: s)
  qed
  have own2: "own_waiters st2" and seq: "next_seq (w\<lparr>sw_st := st2\<rparr>) = next_seq w"
    using own rc sw by (auto simp: sweep_reclaim_def sweep_section_def Let_def own_waiters_def split: prod.splits dest!: arg_cong[of _ _ snd])
  have "length out \<le> length (lg_requests (st_ledger (sw_st w)))"
    using rc sw sweep_due_length by blast
  with room own2 seq deliver_notices_run[of "w\<lparr>sw_st := st2\<rparr>" out ev]
  obtain w' where "deliver_notices 3 ev out (w\<lparr>sw_st := st2\<rparr>) = Some w'" "runs (w\<lparr>sw_st := st2\<rparr>) w'" "own_waiters (sw_st w')" by auto
  with one two rc sw show ?thesis by (auto simp: sweep_def intro: runs_trans)
qed

section \<open>A drain loses nothing\<close>

text \<open>The delivery loop on an otherwise empty queue: a prefix is injected, the rest is the queue.\<close>

definition prefix_sent :: "nat \<Rightarrow> parked_message list \<Rightarrow> peer_id \<Rightarrow> drain_report \<Rightarrow> 'p svc_world \<Rightarrow> drain_report \<Rightarrow> 'p svc_world \<Rightarrow> bool" where
  "prefix_sent k items r rep w rep' w' \<longleftrightarrow> k \<le> length items \<and>
    dr_injected rep' = dr_injected rep @ map pm_msg_id (take k items) \<and>
    (\<forall>q. queue_of (st_mailbox (sw_st w')) q = (if q = r then drop k items else queue_of (st_mailbox (sw_st w)) q)) \<and>
    (dr_caller_inject_error rep' = None \<longleftrightarrow> k = length items) \<and>
    map ob_msg_id (filter (\<lambda>ob. ob_error ob = None) (sw_obs w')) =
      map ob_msg_id (filter (\<lambda>ob. ob_error ob = None) (sw_obs w)) @ map pm_msg_id (take k items)"

lemma deliver_loop_effect:
  assumes "deliver_loop ev a items fs rep w = Some (fs', rep', w')" "queue_of (st_mailbox (sw_st w)) (fs_recipient fs) = []"
    "dr_caller_inject_error rep = None"
  shows "\<exists>k. prefix_sent k items (fs_recipient fs) rep w rep' w'"
  using assms
proof (induction items arbitrary: fs rep w)
  case (Cons m ms)
  from Cons.prems(1) show ?case
  proof (cases rule: deliver_loop_round)
    case (failed e st p obs)
    then show ?thesis using Cons.prems(2)
      by (intro exI[of _ 0]) (auto simp: prefix_sent_def settle_failed_def Let_def split: prod.splits)
  next
    case (went f1 now st p obs)
    let ?rep = "rep\<lparr>dr_injected := dr_injected rep @ [pm_msg_id m]\<rparr>"
    let ?w1 = "w\<lparr>sw_st := st, sw_port := p, sw_obs := sw_obs w @ [obs]\<rparr>"
    have q: "queue_of (st_mailbox st) r = queue_of (st_mailbox (sw_st w)) r" for r
      using went(1) by (auto simp: settle_delivered_def Let_def split: prod.splits)
    note rcp = settle_recipient(2)[OF went(1)]
    have "queue_of (st_mailbox (sw_st ?w1)) (fs_recipient f1) = []" using Cons.prems(2) q rcp by simp
    from Cons.IH[OF went(2) this] Cons.prems(3) obtain k where k: "prefix_sent k ms (fs_recipient fs) ?rep ?w1 rep' w'"
      unfolding rcp by auto
    have "prefix_sent (Suc k) (m # ms) (fs_recipient fs) rep w rep' w'"
      using k went(3) by (simp add: prefix_sent_def q)
    then show ?thesis by blast
  qed
qed (simp add: prefix_sent_def)

lemma drain_section_report:
  assumes "drain_section busy r target now st = (Drained flight batch, rep, evd, st')"
  shows "dr_injected rep = [] \<and> dr_caller_inject_error rep = None"
    "batch = None \<Longrightarrow> filter (\<lambda>m. \<not> is_expired m now) (queue_of (st_mailbox st) r) = [] \<or> target = None \<or> dr_retreated rep \<or> dr_gated rep \<noteq> None"
proof -
  obtain out mb where dr: "drain (st_mailbox st) r now = (out, mb)" by fastforce
  obtain l ev1 where ex: "expire_into r now (do_expired out) (st_ledger st) [] = (l, ev1)" by fastforce
  obtain fl mb2 where tk: "take_in_flight mb r (do_deliverable out) = (fl, mb2)" by fastforce
  have out: "do_deliverable out = filter (\<lambda>m. \<not> is_expired m now) (queue_of (st_mailbox st) r)"
    using drain_outcome_eq(1)[of "st_mailbox st" r now] dr by simp
  show "dr_injected rep = [] \<and> dr_caller_inject_error rep = None"
    using assms by (auto simp: drain_section_def dr ex tk Let_def drain_report_default_def split: if_splits option.splits)
  show "filter (\<lambda>m. \<not> is_expired m now) (queue_of (st_mailbox st) r) = [] \<or> target = None \<or> dr_retreated rep \<or> dr_gated rep \<noteq> None"
    if "batch = None"
    using assms that unfolding out[symmetric]
    by (auto simp: drain_section_def dr ex tk Let_def drain_report_default_def split: if_splits option.splits)
qed

lemma landing_queues:
  assumes "release_targets fs st = (rel, fs2, st2)" "collect_waiters r rel (flight_drop fs2 st2) = (ws, st4)"
  shows "queue_of (st_mailbox st4) q = queue_of (st_mailbox st) q"
proof -
  have "mb_queues (st_mailbox (flight_drop fs2 st2)) = mb_queues (st_mailbox st)"
    using assms(1) by (auto simp: release_targets_def flight_drop_def Let_def split: if_splits)
  then show ?thesis using collect_waiters_state(1)[of r rel "flight_drop fs2 st2"] assms(2) by simp
qed

lemma rings_queues:
  "each_id (request_flush flush ev) ws w = Some w' \<Longrightarrow> ev_wired ev \<Longrightarrow> sw_st w' = sw_st w \<and> sw_obs w' = sw_obs w"
proof (induction ws arbitrary: w)
  case (Cons i ws)
  have "request_flush flush ev i w = Some (w\<lparr>sw_doorbell := sw_doorbell w @ [i]\<rparr>)" using Cons.prems(2) by (simp add: request_flush_def)
  with Cons.prems(1) have "each_id (request_flush flush ev) ws (w\<lparr>sw_doorbell := sw_doorbell w @ [i]\<rparr>) = Some w'" by simp
  from Cons.IH[OF this Cons.prems(2)] show ?case by simp
qed simp

section \<open>Properties\<close>

lemma reachable_own_waiters: "svc_reachable s \<Longrightarrow> own_waiters (ss_st s)"
  using svc_invD(7)[OF svc.inv_reachable] by (fastforce simp: own_waiters_def wait_inv_def)

lemma runs_of: "runs w w' \<Longrightarrow> ss_st s = sw_st w \<Longrightarrow> ss_run s t = Idle \<Longrightarrow>
   \<exists>s'. (svc_step True)\<^sup>*\<^sup>* s s' \<and> ss_st s' = sw_st w' \<and> ss_run s' = ss_run s"
  unfolding runs_def by blast

text \<open>C3. The entry points always return, and what they do is a run of the step system: called on an
  idle thread in any reachable state, whatever the other threads hold and whatever the host answers,
  a send, a flush and the sweep finish within three nested inline flushes, and their whole effect on
  the shared state is a sequence of the lock sections for which the interleaving theorems are proved.\<close>

theorem entry_points_return:
  assumes "svc_reachable s" "ss_run s t = Idle" "ss_st s = sw_st w"
  shows "(send_room ev a to w \<longrightarrow> (\<exists>res w' s'. handle_send 3 ev tok a to w = Some (res, w') \<and>
       (svc_step True)\<^sup>*\<^sup>* s s' \<and> ss_st s' = sw_st w' \<and> ss_run s' = ss_run s)) \<and>
    (\<exists>rep w' s'. drain_queue 3 ev r snapshot w = Some (rep, w') \<and>
       (svc_step True)\<^sup>*\<^sup>* s s' \<and> ss_st s' = sw_st w' \<and> ss_run s' = ss_run s) \<and>
    (unat (next_seq w) + length (lg_requests (st_ledger (sw_st w))) < 2 ^ 64 \<longrightarrow>
       (\<exists>w' s'. sweep 3 ev alive now w = Some w' \<and> (svc_step True)\<^sup>*\<^sup>* s s' \<and> ss_st s' = sw_st w' \<and> ss_run s' = ss_run s))"
proof -
  have own: "own_waiters (sw_st w)" using reachable_own_waiters[OF assms(1)] assms(3) by simp
  note go = runs_of[OF _ assms(3,2)]
  have 1: "\<exists>res w' s'. handle_send 3 ev tok a to w = Some (res, w') \<and> (svc_step True)\<^sup>*\<^sup>* s s' \<and> ss_st s' = sw_st w' \<and> ss_run s' = ss_run s"
    if "send_room ev a to w" using handle_send_run[OF own that, of tok] go by blast
  obtain rep w' where d: "drain_queue 3 ev r snapshot w = Some (rep, w')" using drain_queue_3[OF own] by blast
  have 3: "\<exists>w' s'. sweep 3 ev alive now w = Some w' \<and> (svc_step True)\<^sup>*\<^sup>* s s' \<and> ss_st s' = sw_st w' \<and> ss_run s' = ss_run s"
    if "unat (next_seq w) + length (lg_requests (st_ledger (sw_st w))) < 2 ^ 64" using sweep_run[OF own that, of ev alive now] go by blast
  show ?thesis using 1 3 d go[OF drain_queue_runs[OF d]] by blast
qed

definition w_env :: "unit svc_env" where
  "w_env = \<lparr>ev_inject = (\<lambda>_ msg p. (Inr \<lparr>ir_bytes_requested = utf8_len msg, ir_bytes_written = utf8_len msg, ir_msg_uuid = 0, ir_epoch = 0\<rparr>, p)),
     ev_live_agents = (\<lambda>_. [w_agent]), ev_sources = (\<lambda>_. \<lparr>as_roster = [w_agent], as_dormant = []\<rparr>), ev_is_live = (\<lambda>_ _. True),
     ev_format = (\<lambda>_. Xml), ev_wrap_format_env = None, ev_busy = (\<lambda>_ _ _. None), ev_now = (\<lambda>_ _. 0), ev_draw = (\<lambda>_ _. lit ''n2''),
     ev_wired = True, ev_show_uuid = (\<lambda>_. []), ev_parse_uuid = (\<lambda>_. None)\<rparr>"

definition w_world :: "unit svc_world" where
  "w_world = \<lparr>sw_st = w_st1, sw_port = (), sw_doorbell = [], sw_obs = []\<rparr>"

theorem entry_points_return_witness:
  "\<exists>rep w' s'. drain_queue 3 w_env 7 None w_world = Some (rep, w') \<and> (svc_step True)\<^sup>*\<^sup>* w_sys1 s' \<and> ss_st s' = sw_st w'"
  using entry_points_return[OF w_reach1, of 0 w_world w_env _ _ _ 7 None] by (force simp: w_sys1_def w_world_def)

text \<open>C4. A drain loses nothing and reorders nothing: with the doorbell wired and nothing of the queue in
  flight, it injects a prefix of the unexpired items in queue order, reports exactly their ids (and
  records one successful observation for each), leaves exactly the rest in the queue in order and no
  other queue changes; if anything is left, the report says why, or the recipient has no live agent.\<close>

theorem drain_lossless:
  fixes w :: "'p svc_world"
  defines "alive \<equiv> \<lambda>ev (w :: 'p svc_world) r. filter (\<lambda>m. \<not> is_expired m (ev_now ev 0 (sw_port w))) (queue_of (st_mailbox (sw_st w)) r)"
  assumes "drain_queue n ev r snapshot w = Some (rep, w')" "ev_wired ev" "in_flight_len (st_mailbox (sw_st w)) r = 0"
  shows "\<exists>k \<le> length (alive ev w r). dr_injected rep = map pm_msg_id (take k (alive ev w r)) \<and>
    (\<forall>q. queue_of (st_mailbox (sw_st w')) q = (if q = r then drop k (alive ev w r) else queue_of (st_mailbox (sw_st w)) q)) \<and>
    map ob_msg_id (filter (\<lambda>ob. ob_error ob = None) (sw_obs w')) =
      map ob_msg_id (filter (\<lambda>ob. ob_error ob = None) (sw_obs w)) @ dr_injected rep \<and>
    (k < length (alive ev w r) \<longrightarrow> dr_caller_inject_error rep \<noteq> None \<or> dr_retreated rep \<or> dr_gated rep \<noteq> None \<or>
       find (\<lambda>a. la_id a = r) (case snapshot of Some x \<Rightarrow> x | None \<Rightarrow> ev_live_agents ev (sw_port w)) = None)"
proof -
  obtain n' where n: "n = Suc n'" using assms(2) by (cases n) auto
  have tgt: "\<forall>a. find (\<lambda>a. la_id a = r) xs = Some a \<longrightarrow> la_id a = r" for xs using find_target by blast
  from assms(2)[unfolded n drain_queue.simps] show ?thesis
  proof (cases rule: drain_once_cases)
    case (retreat target rep0 evd st)
    from retreat(2)[unfolded retreat(1)] tgt have "0 < in_flight_len (st_mailbox (sw_st w)) r"
      by (cases rule: drain_section_cases) auto
    with assms(4) show ?thesis by simp
  next
    case (landed target flight batch rep0 evd st a fs w1 rel fs2 st2 ws st4)
    note R = drain_section_report[OF landed(2)] and Q = landing_queues[OF landed(4,5)] and K = rings_queues[OF landed(6) assms(3)]
    from landed(2)[unfolded landed(1)] tgt show ?thesis
    proof (cases rule: drain_section_cases)
      case keep
      then have w1: "w1 = w\<lparr>sw_st := st\<rparr>" "rep = rep0" and b: "batch = None" using landed(3) by auto
      have "queue_of (st_mailbox (sw_st w')) q = (if q = r then alive ev w r else queue_of (st_mailbox (sw_st w)) q)" for q
        using K Q[of q] w1 keep(3) by (simp add: alive_def drain_outcome_eq)
      then show ?thesis using R(1) R(2)[OF b] landed(1) K w1 by (intro exI[of _ 0]) (auto simp: alive_def)
    next
      case (fly t items)
      have q: "queue_of (st_mailbox st) q = (if q = r then [] else queue_of (st_mailbox (sw_st w)) q)" for q using fly(6) by simp
      have items: "items = alive ev w r" using fly(4) by (simp add: alive_def drain_outcome_eq)
      have e: "queue_of (st_mailbox (sw_st (w\<lparr>sw_st := st\<rparr>))) (fs_recipient (flight_start r flight batch)) = []" "dr_caller_inject_error rep0 = None"
        using q R(1) by (simp_all add: flight_start_def)
      from deliver_loop_effect[OF landed(3) e] obtain k where k: "prefix_sent k items r rep0 (w\<lparr>sw_st := st\<rparr>) rep w1"
        using fly(5) by (auto simp: flight_start_def)
      from k have "queue_of (st_mailbox (sw_st w1)) q = (if q = r then drop k items else queue_of (st_mailbox (sw_st w)) q)" for q
        using q by (simp add: prefix_sent_def)
      with k R(1) K Q show ?thesis unfolding items[symmetric] by (intro exI[of _ k]) (simp add: prefix_sent_def)
    qed simp
  qed
qed

theorem drain_lossless_witness:
  "\<exists>rep w'. drain_queue 3 w_env 7 None w_world = Some (rep, w') \<and>
     (\<exists>k \<le> 1. dr_injected rep = map pm_msg_id (take k [w_parked]) \<and> queue_of (st_mailbox (sw_st w')) 7 = drop k [w_parked])"
proof -
  obtain rep w' where d: "drain_queue 3 w_env 7 None w_world = Some (rep, w')"
    using drain_queue_3[of w_world w_env 7 None] reachable_own_waiters[OF w_reach1] by (auto simp: w_sys1_def w_world_def)
  from drain_lossless[OF d] show ?thesis
    using d by (auto simp: w_env_def w_world_def w_st1_frame w_box_def w_parked_fields in_flight_len_def alist_get_def)
qed

end
