(* ===== verification/Send_Outcome.thy ===== *)
theory Send_Outcome
  imports Messaging_Service
begin

text \<open>
  What a send promises, \<^verbatim>\<open>handle_send\<close> of \<^verbatim>\<open>crates/engram-dashboard-messaging/src/service.rs\<close>: the
  admission of every recipient is decided once, in pass A, and pass B cannot fail; exactly the accepted
  recipients get exactly one copy; the branches that the code logs as wiring faults (a duplicate
  contract, a bounce in pass B, an accepted reply whose contract was not closed in the lock) are never
  taken; the result rows tell the sender what happened to each recipient.
\<close>

section \<open>Contract keys through a send\<close>

abbreviation contract_keys :: "ledger \<Rightarrow> contract_key set" where
  "contract_keys l \<equiv> re_key ` set (lg_requests l)"

lemma keys_record: "contract_keys (record_with_expected l m f fi t ti b st now n) \<subseteq> contract_keys l"
  using record_same(3) by blast

lemma keys_update_first:
  assumes "\<And>e. re_key (f e) = re_key e"
  shows "re_key ` set (update_first P f xs) = re_key ` set xs"
proof -
  have "map re_key (update_first P f xs) = map re_key xs" by (rule map_update_first) (rule assms)
  from arg_cong[OF this, of set] show ?thesis by (simp only: set_map)
qed

lemma keys_attach: "contract_keys (attach_reservation_liveness l i r w) = contract_keys l"
  by (simp add: attach_reservation_liveness_def keys_update_first)

lemma keys_open: "contract_keys (snd (open_request l i s sid rc rid rb now)) \<subseteq> insert (i, rid) (contract_keys l)"
proof -
  have mark: "re_key ` set ((lg_requests l)[k := (lg_requests l ! k)\<lparr>re_pending_retirement := True\<rparr>]) \<subseteq> contract_keys l" for k
  proof (cases "k < length (lg_requests l)")
    case True
    then show ?thesis using set_update_subset_insert[of "lg_requests l" k] by fastforce
  qed (simp add: list_update_beyond)
  show ?thesis
    using mark by (auto simp: open_request_def Let_def new_entry_def split: option.splits)
qed

lemma set_remove_first_subset: "set (remove_first P xs) \<subseteq> set xs"
  by (induction xs) auto

lemma keys_rollback: "contract_keys (snd (rollback_open l p rt)) \<subseteq> contract_keys l"
proof -
  have drop: "contract_keys (snd (drop_request l' i r)) \<subseteq> contract_keys l'" for l' i r
    using set_remove_first_subset[of "\<lambda>e. re_key e = (i, r)" "lg_requests l'"] by (auto simp: drop_request_requests)
  let ?l1 = "case rt of None \<Rightarrow> l | Some key \<Rightarrow> l\<lparr>lg_requests := update_first (\<lambda>r. re_key r = key \<and> re_pending_retirement r)
              (\<lambda>e. e\<lparr>re_pending_retirement := False\<rparr>) (lg_requests l)\<rparr>"
  have "contract_keys ?l1 = contract_keys l" by (simp add: keys_update_first split: option.split)
  then show ?thesis using drop[of ?l1]
    by (auto simp: rollback_open_def Let_def case_prod_beta split: option.splits)
qed

lemma open_duplicate: "open_request l i s sid rc rid rb now = (DuplicateId, l') \<Longrightarrow> (i, rid) \<in> contract_keys l"
  by (auto simp: open_request_def Let_def list_ex_iff split: if_splits option.splits)

section \<open>Pass A\<close>

lemma admission_key: "admission r names = Inr (rid, live) \<Longrightarrow> row_key r = Inl rid"
  by (auto simp: admission_def row_key_def recipient_id_def split: resolution.splits)

text \<open>The verdict of pass A on one row, from the state at the start of the send.\<close>

definition plan_ok :: "send_args \<Rightarrow> ustr \<Rightarrow> mailbox \<Rightarrow> resolved_recipient \<Rightarrow> recipient_plan \<Rightarrow> bool" where
  "plan_ok a names mb r p \<longleftrightarrow> (case admission r names of
     Inl (c, h) \<Rightarrow> p = PlanFailed c h
   | Inr (rid, live) \<Rightarrow>
       (\<exists>c. p = PlanPark rid live c \<and> can_admit mb rid Message) \<or>
       p = PlanFailed FailMailboxFull (MailboxFullHint (rv_display r)) \<and> \<not> can_admit mb rid Message \<or>
       p = PlanFailed RequestCapacity (CapacityHint (rv_display r)) \<and> sm_request (sa_meta a))"

text \<open>The contracts with this message id belong to rows already seen.\<close>

definition ids_seen :: "ustr \<Rightarrow> (peer_id + ustr) set \<Rightarrow> messaging_state \<Rightarrow> bool" where
  "ids_seen m S st \<longleftrightarrow> (\<forall>r. (m, r) \<in> contract_keys (st_ledger st) \<longrightarrow> Inl r \<in> S)"

lemma ids_seen_mono: "ids_seen m S st \<Longrightarrow> contract_keys (st_ledger st') \<subseteq> contract_keys (st_ledger st) \<Longrightarrow> S \<subseteq> S' \<Longrightarrow> ids_seen m S' st'"
  unfolding ids_seen_def by blast

lemma open_contract_ok:
  assumes "open_contract tok a now r rid st = (cs, st1)" "ids_seen (sa_msg_id a) S st" "Inl rid \<notin> S"
  shows "cs \<noteq> ContractDuplicate" "ids_seen (sa_msg_id a) (insert (Inl rid) S) st1" "cs = ContractFull \<Longrightarrow> sm_request (sa_meta a)"
proof -
  let ?rb = "case (sm_reply_by (sa_meta a), sm_reply_by_raw (sa_meta a)) of (Some d, Some raw) \<Rightarrow> Some (d, raw) | _ \<Rightarrow> None"
  obtain out l where op: "open_request (st_ledger st) (sa_msg_id a) (sa_sender_name a) (si_peer_id (sa_from a)) (recipient_name r) rid ?rb now = (out, l)"
    by fastforce
  have nd: "out \<noteq> DuplicateId" using open_duplicate[of "st_ledger st" "sa_msg_id a"] op assms(2,3) by (auto simp: ids_seen_def)
  have k: "contract_keys l \<subseteq> insert (sa_msg_id a, rid) (contract_keys (st_ledger st))"
    using keys_open[of "st_ledger st" "sa_msg_id a" "sa_sender_name a" "si_peer_id (sa_from a)" "recipient_name r" rid ?rb now] op by simp
  show "cs \<noteq> ContractDuplicate" "cs = ContractFull \<Longrightarrow> sm_request (sa_meta a)"
    using assms(1) op nd by (auto simp: open_contract_def Let_def open_reservation_def split: if_splits open_outcome.splits)
  have "st_ledger st1 = l \<or> st_ledger st1 = attach_reservation_liveness l (sa_msg_id a) rid (tok rid) \<or> st_ledger st1 = st_ledger st"
    using assms(1) op by (cases out) (auto simp: open_contract_def Let_def open_reservation_def split: if_splits)
  with k keys_attach[of l "sa_msg_id a" rid "tok rid"] have "contract_keys (st_ledger st1) \<subseteq> insert (sa_msg_id a, rid) (contract_keys (st_ledger st))" by (elim disjE) (simp_all only: subset_insertI)
  with assms(2) show "ids_seen (sa_msg_id a) (insert (Inl rid) S) st1" unfolding ids_seen_def by blast
qed

lemma record_failed_seen: "ids_seen m S st \<Longrightarrow> ids_seen m S (record_failed a rows now r rid st)"
  by (rule ids_seen_mono) (auto simp: record_failed_def intro: keys_record[THEN subsetD])

lemma rollback_seen: "ids_seen m S st \<Longrightarrow> ids_seen m S (reservation_rollback res st)"
  by (rule ids_seen_mono) (auto simp: reservation_rollback_def rollback_reservation_def intro: keys_rollback[THEN subsetD])

lemma admit_one_ok:
  assumes run: "admit_one tok a rows names now r st = (p, st1, d)" and seen: "ids_seen (sa_msg_id a) S st" and new: "row_key r \<notin> S"
  shows "plan_ok a names (st_mailbox st) r p \<and> d = [] \<and> ids_seen (sa_msg_id a) (insert (row_key r) S) st1"
proof (cases "admission r names")
  case (Inl x)
  have "ids_seen (sa_msg_id a) (insert (row_key r) S) (record_failed a rows now r None st)"
    by (rule ids_seen_mono[OF record_failed_seen[OF seen] subset_refl]) blast
  then show ?thesis using run Inl by (auto simp: admit_one_def plan_ok_def split: prod.splits)
next
  case (Inr x)
  obtain rid live where x: "x = (rid, live)" by fastforce
  note key = admission_key[OF Inr[unfolded x]]
  obtain cs st2 where oc: "open_contract tok a now r rid st = (cs, st2)" by fastforce
  note O = open_contract_ok[OF oc seen new[unfolded key]]
  have mb: "st_mailbox st2 = st_mailbox st" using open_contract_frame(1)[of tok a now r rid st] oc by simp
  show ?thesis
  proof (cases cs)
    case (ContractOk c)
    then show ?thesis using run Inr x oc O(2) mb key
      by (auto simp: admit_one_def plan_ok_def Let_def split: if_splits option.splits intro!: record_failed_seen rollback_seen)
  next
    case ContractFull
    then show ?thesis using run Inr x oc O(2,3) key
      by (auto simp: admit_one_def plan_ok_def Let_def intro!: record_failed_seen)
  qed (use O(1) in simp)
qed

lemma pass_a_ok:
  assumes "pass_a tok a rows names now rs st = (ps, st1, ds)" "ids_seen (sa_msg_id a) S st"
    "distinct (map row_key rs)" "row_key ` set rs \<inter> S = {}"
  shows "list_all2 (plan_ok a names (st_mailbox st)) rs ps \<and> ds = []"
  using assms
proof (induction rs arbitrary: st S ps st1 ds)
  case (Cons r rs)
  obtain p st2 d where one: "admit_one tok a rows names now r st = (p, st2, d)" by (metis prod_cases3)
  obtain ps' ds' where rest: "pass_a tok a rows names now rs st2 = (ps', st1, ds')" and eq: "ps = p # ps'" "ds = d @ ds'"
    using Cons.prems(1) one by (auto simp: Let_def split: prod.splits)
  from admit_one_ok[OF one Cons.prems(2)] Cons.prems(4)
  have A: "plan_ok a names (st_mailbox st) r p" "d = []" "ids_seen (sa_msg_id a) (insert (row_key r) S) st2" by auto
  have "st_mailbox st2 = st_mailbox st" using admit_one_frame[of tok a rows names now r st] one by simp
  with Cons.IH[OF rest A(3)] Cons.prems(3,4) A eq show ?case by auto
qed simp

section \<open>Pass B\<close>

fun settled_plan :: "recipient_plan \<Rightarrow> recipient_plan" where
  "settled_plan (PlanPark rid live c) = PlanPark rid live None"
| "settled_plan (PlanFailed c h) = PlanFailed c h"

definition accepted_ids :: "recipient_plan list \<Rightarrow> peer_id list" where
  "accepted_ids ps = List.map_filter (\<lambda>p. case p of PlanPark rid _ _ \<Rightarrow> Some rid | PlanFailed _ _ \<Rightarrow> None) ps"

lemma accepted_ids_simps [simp]:
  "accepted_ids [] = []" "accepted_ids (PlanPark rid live c # ps) = rid # accepted_ids ps" "accepted_ids (PlanFailed c' h # ps) = accepted_ids ps"
  by (simp_all add: accepted_ids_def map_filter_simps)

abbreviation queued_ids :: "messaging_state \<Rightarrow> peer_id \<Rightarrow> ustr list" where
  "queued_ids st r \<equiv> map pm_msg_id (queue_of (st_mailbox st) r)"

lemma park_message:
  assumes "pm_kind m = Message" "can_admit mb r Message"
  obtains adm mb' where "park mb r m = (Inr adm, mb')" "\<And>q. queue_of mb' q = (if q = r then queue_of mb r @ [m\<lparr>pm_admission_seq := mb_next_seq mb\<rparr>] else queue_of mb q)"
    "mb_in_flight mb' = mb_in_flight mb"
proof -
  from can_admit_park[of mb r m] assms obtain adm mb' where p: "park mb r m = (Inr adm, mb')" by auto
  note D = park_InrD[OF p]
  show ?thesis by (rule that[OF p]) (use D(1,3,4) assms(1) in auto)
qed

lemma park_into_accept:
  assumes "park (st_mailbox st) (pq_recipient req) (parked_of su req now) = (Inr adm, mb)"
  shows "\<exists>st' eff'. park_into su st req now eff = (Inr (), st', eff') \<and> st_mailbox st' = mb"
  using assms by (simp add: park_into_def parked_of_def Let_def split: prod.split)

lemma close_in_lock_done:
  "cl_in_reply_to (fst (close_in_lock cl st now)) = cl_in_reply_to cl"
  "cl_done (fst (close_in_lock cl st now)) \<noteq> None \<longleftrightarrow> cl_done cl \<noteq> None \<or> cl_in_reply_to cl \<noteq> None"
  by (auto simp: close_in_lock_def split: option.splits prod.splits)

lemma enqueue_one_ok:
  assumes run: "enqueue_one su a rows meta now now2 r (PlanPark rid live c) st acc = (p, st', acc')" and ok: "can_admit (st_mailbox st) rid Message"
  shows "p = PlanPark rid live None"
    "queued_ids st' q = queued_ids st q @ (if q = rid then [sa_msg_id a] else [])"
    "q \<noteq> rid \<Longrightarrow> can_admit (st_mailbox st') q Message = can_admit (st_mailbox st) q Message"
    "cl_in_reply_to (eq_closing acc') = cl_in_reply_to (eq_closing acc)"
    "cl_done (eq_closing acc') \<noteq> None \<longleftrightarrow> cl_done (eq_closing acc) \<noteq> None \<or> cl_in_reply_to (eq_closing acc) \<noteq> None"
proof -
  let ?req = "\<lparr>pq_msg_id = sa_msg_id a, pq_sender_name = sa_sender_name a, pq_from = sa_from a,
             pq_entrance = sa_entrance a, pq_recipient = rid, pq_recipient_name = recipient_name r, pq_body = sa_body a,
             pq_kind = Message, pq_meta = meta, pq_expected_rows = rows\<rparr>"
  have item: "pm_kind (parked_of su ?req now) = Message" "pm_msg_id (parked_of su ?req now) = sa_msg_id a"
    by (simp_all add: parked_of_def build_parked_def)
  obtain adm mb where pk: "park (st_mailbox st) rid (parked_of su ?req now) = (Inr adm, mb)"
    and q: "\<And>q. queue_of mb q = (if q = rid then queue_of (st_mailbox st) rid @ [(parked_of su ?req now)\<lparr>pm_admission_seq := mb_next_seq (st_mailbox st)\<rparr>] else queue_of (st_mailbox st) q)"
    and fl: "mb_in_flight mb = mb_in_flight (st_mailbox st)"
    by (rule park_message[OF item(1) ok]) blast
  obtain res st1 eff where pi: "park_into su st ?req now (eq_effects acc) = (res, st1, eff)" by (metis prod_cases3)
  have res: "res = Inr ()" and mb1: "st_mailbox st1 = mb"
    using park_into_accept[of st ?req su now adm mb "eq_effects acc"] pk pi by auto
  obtain st2 lg where c: "(case c of None \<Rightarrow> (st1, eq_retirements acc) | Some x \<Rightarrow> reservation_commit x st1 (eq_retirements acc)) = (st2, lg)"
    by fastforce
  have mb2: "st_mailbox st2 = mb" using c mb1 by (cases c) (auto dest!: arg_cong[of _ _ fst])
  obtain cl st3 where cl: "close_in_lock (eq_closing acc) st2 now2 = (cl, st3)" by fastforce
  have out: "p = PlanPark rid live None" "st' = st3" "eq_closing acc' = cl"
    using run pi res c cl by (auto simp: enqueue_one_def Let_def)
  have mb3: "st_mailbox st' = mb" using close_in_lock_frame(1)[of "eq_closing acc" st2 now2] cl mb2 out(2) by simp
  show "p = PlanPark rid live None" by (rule out(1))
  show "queued_ids st' q = queued_ids st q @ (if q = rid then [sa_msg_id a] else [])" by (simp add: mb3 q item)
  show "can_admit (st_mailbox st') q Message = can_admit (st_mailbox st) q Message" if "q \<noteq> rid"
    using that by (simp add: can_admit_def mb3 q fl)
  show "cl_in_reply_to (eq_closing acc') = cl_in_reply_to (eq_closing acc)"
    "cl_done (eq_closing acc') \<noteq> None \<longleftrightarrow> cl_done (eq_closing acc) \<noteq> None \<or> cl_in_reply_to (eq_closing acc) \<noteq> None"
    using close_in_lock_done[of "eq_closing acc" st2 now2] cl out(3) by simp_all
qed

lemma pass_b_ok:
  assumes "pass_b su a rows meta now now2 (zip rs ps) st acc = (ps', st', acc')" "length rs = length ps"
    "distinct (accepted_ids ps)" "\<forall>rid \<in> set (accepted_ids ps). can_admit (st_mailbox st) rid Message"
  shows "ps' = map settled_plan ps \<and>
    (\<forall>q. queued_ids st' q = queued_ids st q @ (if q \<in> set (accepted_ids ps) then [sa_msg_id a] else [])) \<and>
    (cl_done (eq_closing acc') \<noteq> None \<longleftrightarrow> cl_done (eq_closing acc) \<noteq> None \<or> cl_in_reply_to (eq_closing acc) \<noteq> None \<and> accepted_ids ps \<noteq> [])"
  using assms
proof (induction ps arbitrary: rs st acc ps')
  case (Cons p ps)
  obtain r rs1 where rs: "rs = r # rs1" using Cons.prems(2) by (cases rs) auto
  obtain p1 st1 acc1 where one: "enqueue_one su a rows meta now now2 r p st acc = (p1, st1, acc1)" by (metis prod_cases3)
  obtain ps2 where rest: "pass_b su a rows meta now now2 (zip rs1 ps) st1 acc1 = (ps2, st', acc')" and eq: "ps' = p1 # ps2"
    using Cons.prems(1) by (auto simp: rs one Let_def split: prod.splits)
  show ?case
  proof (cases p)
    case (PlanPark rid live c)
    have ok: "can_admit (st_mailbox st) rid Message" using Cons.prems(4) PlanPark by simp
    note E = enqueue_one_ok[OF one[unfolded PlanPark] ok]
    have "\<forall>q \<in> set (accepted_ids ps). can_admit (st_mailbox st1) q Message"
    proof
      fix q assume q: "q \<in> set (accepted_ids ps)"
      with Cons.prems(3) PlanPark have "q \<noteq> rid" by auto
      with E(3) q Cons.prems(4) PlanPark show "can_admit (st_mailbox st1) q Message" by simp
    qed
    from Cons.IH[OF rest _ _ this] Cons.prems(2,3) PlanPark rs have I: "ps2 = map settled_plan ps"
      "\<forall>q. queued_ids st' q = queued_ids st1 q @ (if q \<in> set (accepted_ids ps) then [sa_msg_id a] else [])"
      "cl_done (eq_closing acc') \<noteq> None \<longleftrightarrow> cl_done (eq_closing acc1) \<noteq> None \<or> cl_in_reply_to (eq_closing acc1) \<noteq> None \<and> accepted_ids ps \<noteq> []"
      by simp_all
    have "queued_ids st' q = queued_ids st q @ (if q \<in> set (accepted_ids (p # ps)) then [sa_msg_id a] else [])" for q
      using I(2) E(2)[of q] Cons.prems(3) PlanPark by (cases "q = rid") simp_all
    then show ?thesis using I(1,3) E(1,4,5) PlanPark eq by auto
  next
    case (PlanFailed code h)
    with one have "p1 = p" "st1 = st" "acc1 = acc" by (simp_all add: enqueue_one_def)
    with Cons.IH[OF rest] Cons.prems PlanFailed rs eq show ?thesis by simp
  qed
qed simp

section \<open>The section as a whole\<close>

lemma plan_ok_accepted:
  assumes "list_all2 (plan_ok a names mb) rs ps"
  shows "set (map Inl (accepted_ids ps)) \<subseteq> row_key ` set rs" "\<forall>rid \<in> set (accepted_ids ps). can_admit mb rid Message"
    "distinct (map row_key rs) \<Longrightarrow> distinct (accepted_ids ps)"
proof -
  have one: "row_key r = Inl rid \<and> can_admit mb rid Message" if "plan_ok a names mb r (PlanPark rid live c)" for r rid live c
    using that admission_key[of r names] by (auto simp: plan_ok_def split: sum.splits prod.splits)
  have "set (map Inl (accepted_ids ps)) \<subseteq> row_key ` set rs \<and> (\<forall>rid \<in> set (accepted_ids ps). can_admit mb rid Message) \<and>
      (distinct (map row_key rs) \<longrightarrow> distinct (accepted_ids ps))"
    using assms
  proof (induction rs ps rule: list_all2_induct)
    case (Cons r rs p ps)
    show ?case
    proof (cases p)
      case (PlanPark rid live c)
      note O = one[OF Cons(1)[unfolded PlanPark]]
      have "rid \<notin> set (accepted_ids ps)" if "row_key r \<notin> row_key ` set rs" using that O Cons(3) by auto
      then show ?thesis using O Cons(3) PlanPark by auto
    next
      case (PlanFailed code h)
      then show ?thesis using Cons(3) by auto
    qed
  qed simp
  then show "set (map Inl (accepted_ids ps)) \<subseteq> row_key ` set rs" "\<forall>rid \<in> set (accepted_ids ps). can_admit mb rid Message"
    "distinct (map row_key rs) \<Longrightarrow> distinct (accepted_ids ps)" by blast+
qed

lemma accepted_settled [simp]: "accepted_ids (map settled_plan ps) = accepted_ids ps"
proof (induction ps)
  case (Cons p ps)
  then show ?case by (cases p) simp_all
qed simp

lemma plan_ok_settled: "plan_ok a names mb r p \<Longrightarrow> plan_ok a names mb r (settled_plan p)"
  by (cases p) (auto simp: plan_ok_def split: sum.splits prod.splits)

lemma send_section_ok:
  assumes addr: "resolve_addressing pu builtin_resolve to (sa_from a) sources = Inr addr"
    and fresh: "\<not> msg_id_in_use (st_ledger st) (sa_msg_id a)"
  shows "\<exists>ps acc st'. send_section su tok a addr names now now2 st = (Inr (ps, acc, []), st') \<and>
    list_all2 (plan_ok a names (st_mailbox st)) (ad_recipients addr) ps \<and> distinct (accepted_ids ps) \<and>
    (\<forall>q. queued_ids st' q = queued_ids st q @ (if q \<in> set (accepted_ids ps) then [sa_msg_id a] else [])) \<and>
    (cl_done (eq_closing acc) \<noteq> None \<longleftrightarrow> sm_reply_to (sa_meta a) \<noteq> None \<and> accepted_ids ps \<noteq> [])"
proof -
  let ?rs = "ad_recipients addr"
  let ?rows = "expected_rows_of (length ?rs)"
  note D = resolve_addressing_ok(2)[OF addr]
  obtain ps st1 ds where pa: "pass_a tok a ?rows names now ?rs st = (ps, st1, ds)" by (metis prod_cases3)
  have "ids_seen (sa_msg_id a) {} st" using fresh by (auto simp: ids_seen_def msg_id_in_use_def list_ex_iff)
  from pass_a_ok[OF pa this D] have A: "list_all2 (plan_ok a names (st_mailbox st)) ?rs ps" "ds = []" by simp_all
  have mb: "st_mailbox st1 = st_mailbox st" using pass_a_frame[of tok a ?rows names now ?rs st] pa by simp
  note P = plan_ok_accepted[OF A(1)]
  let ?acc = "\<lparr>eq_effects = park_side_effects_default, eq_retirements = \<lparr>rl_real = [], rl_phantom = []\<rparr>,
                   eq_closing = \<lparr>cl_in_reply_to = sm_reply_to (sa_meta a), cl_replier_id = si_peer_id (sa_from a), cl_done = None\<rparr>\<rparr>"
  obtain ps' st2 acc where pb: "pass_b su a ?rows (freeze_meta a addr ps) now now2 (zip ?rs ps) st1 ?acc = (ps', st2, acc)"
    by (metis prod_cases3)
  from pass_b_ok[OF pb list_all2_lengthD[OF A(1)] P(3)[OF D]] P(2)
  have B: "ps' = map settled_plan ps" "\<forall>q. queued_ids st2 q = queued_ids st1 q @ (if q \<in> set (accepted_ids ps) then [sa_msg_id a] else [])"
    "cl_done (eq_closing acc) \<noteq> None \<longleftrightarrow> sm_reply_to (sa_meta a) \<noteq> None \<and> accepted_ids ps \<noteq> []"
    by (simp_all add: mb)
  have "send_section su tok a addr names now now2 st = (Inr (ps', acc, []), st2)"
    using fresh by (simp add: send_section_def pa pb Let_def A(2))
  moreover have "list_all2 (plan_ok a names (st_mailbox st)) ?rs ps'"
    unfolding B(1) list.rel_map by (rule list_all2_mono[OF A(1)]) (rule plan_ok_settled)
  ultimately show ?thesis using B P(3)[OF D] mb by (intro exI[of _ ps'] exI[of _ acc] exI[of _ st2]) simp
qed

section \<open>What a call observed\<close>

text \<open>A successful injection of a message id into a session, recorded since \<open>w\<close>.\<close>

definition saw :: "'p svc_world \<Rightarrow> 'p svc_world \<Rightarrow> ustr \<Rightarrow> peer_id \<Rightarrow> bool" where
  "saw w w' i r \<longleftrightarrow> (\<exists>ob \<in> set (drop (length (sw_obs w)) (sw_obs w')). ob_msg_id ob = i \<and> ob_to_id ob = r \<and> ob_error ob = None)"

abbreviation obs_grow :: "'p svc_world \<Rightarrow> 'p svc_world \<Rightarrow> bool" where
  "obs_grow w w' \<equiv> prefix (sw_obs w) (sw_obs w')"

lemma saw_grow:
  "obs_grow w w1 \<Longrightarrow> obs_grow w1 w2 \<Longrightarrow> saw w w1 i r \<or> saw w1 w2 i r \<Longrightarrow> saw w w2 i r"
  by (auto simp: saw_def prefix_def)

lemma deliver_loop_saw:
  "deliver_loop ev a items fs rep w = Some (fs', rep', w') \<Longrightarrow> obs_grow w w' \<and> (\<forall>i \<in> set (dr_injected rep'). i \<in> set (dr_injected rep) \<or> saw w w' i (la_id a))"
proof (induction items arbitrary: fs rep w)
  case (Cons m ms)
  from Cons.prems show ?case
  proof (cases rule: deliver_loop_round)
    case (failed e st p obs)
    then show ?thesis by simp
  next
    case (went f1 now st p obs)
    let ?w1 = "w\<lparr>sw_st := st, sw_port := p, sw_obs := sw_obs w @ [obs]\<rparr>"
    have "obs_grow w ?w1" "saw w ?w1 (pm_msg_id m) (la_id a)" using went(3) by (simp_all add: saw_def)
    with Cons.IH[OF went(2)] show ?thesis using saw_grow[of w ?w1 w'] by (auto dest: append_prefixD)
  qed
qed simp

lemma each_id_grow:
  "each_id f is w = Some w' \<Longrightarrow> (\<And>i u u'. f i u = Some u' \<Longrightarrow> obs_grow u u') \<Longrightarrow> obs_grow w w'"
proof (induction "is" arbitrary: w)
  case (Cons i "is")
  then obtain u where "f i w = Some u" "each_id f is u = Some w'" by (auto split: Option.bind_splits)
  with Cons show ?case by (metis prefix_order.trans)
qed simp

lemma drain_queue_saw:
  "drain_queue n ev r snapshot w = Some (rep, w') \<Longrightarrow> obs_grow w w' \<and> (\<forall>i \<in> set (dr_injected rep). saw w w' i r)"
proof (induction n arbitrary: r snapshot w rep w')
  case (Suc n)
  have fl: "request_flush (flush_with (drain_queue n ev)) ev i u = Some u' \<Longrightarrow> obs_grow u u'" for i u u'
    using Suc.IH by (auto simp: request_flush_def flush_with_def split: if_splits)
  from Suc.prems[unfolded drain_queue.simps] show ?case
  proof (cases rule: drain_once_cases)
    case (retreat target rep0 evd st)
    then have "dr_injected rep0 = []"
      by (auto simp: drain_section_def Let_def drain_report_default_def split: if_splits prod.splits option.splits)
    with retreat show ?thesis by simp
  next
    case (landed target flight batch rep0 evd st a fs w1 rel fs2 st2 ws st4)
    have tgt: "\<forall>b. target = Some b \<longrightarrow> la_id b = r" unfolding landed(1) by (auto dest: find_target)
    from drain_section_report(1)[OF landed(2)] have r0: "dr_injected rep0 = []" by simp
    have a: "la_id a = r \<or> batch_items batch = []"
      using landed(2) tgt by (cases rule: drain_section_cases) (use landed(7) in auto)
    have D: "obs_grow w w1" "\<forall>i \<in> set (dr_injected rep). saw w w1 i r"
      using deliver_loop_saw[OF landed(3)] landed(3) a r0 by (auto simp: saw_def)
    have "obs_grow w1 w'" using each_id_grow[OF landed(6) fl] by simp
    with D show ?thesis using saw_grow[of w w1 w'] prefix_order.trans by blast
  qed
qed simp

section \<open>The result rows\<close>

definition row_ok :: "send_args \<Rightarrow> ustr \<Rightarrow> mailbox \<Rightarrow> 'p svc_world \<Rightarrow> 'p svc_world \<Rightarrow> resolved_recipient \<Rightarrow> recipient_result \<Rightarrow> bool" where
  "row_ok a names mb w w' r row \<longleftrightarrow> rr_to row = rv_display r \<and> (case admission r names of
     Inl (c, h) \<Rightarrow> rr_status row = SendFailed \<and> rr_code row = Some c \<and> rr_hint row = Some h
   | Inr (rid, live) \<Rightarrow>
       rr_status row = SendFailed \<and> rr_code row = Some FailMailboxFull \<and> \<not> can_admit mb rid Message \<or>
       rr_status row = SendFailed \<and> rr_code row = Some RequestCapacity \<and> sm_request (sa_meta a) \<or>
       rr_status row = SendPending \<and> rr_code row = None \<and> rr_hint row \<noteq> None \<and> can_admit mb rid Message \<or>
       rr_status row = SendDelivered \<and> rr_code row = None \<and> live \<and> can_admit mb rid Message \<and> saw w w' (sa_msg_id a) rid)"

lemma row_ok_grow: "row_ok a names mb w w1 r row \<Longrightarrow> obs_grow w w1 \<Longrightarrow> obs_grow w1 w2 \<Longrightarrow> row_ok a names mb w w2 r row"
  using saw_grow[of w w1 w2] by (auto simp: row_ok_def split: sum.splits prod.splits)

lemma settle_plan_row:
  assumes "settle_plan n ev (sa_msg_id a) roster (rv_display r) p deferred w = Some (row, deferred', w')" "plan_ok a names mb r p"
  shows "row_ok a names mb w w' r row" "obs_grow w w'" "rr_status row = SendFailed \<longleftrightarrow> plan_failed p"
proof -
  have "row_ok a names mb w w' r row \<and> obs_grow w w' \<and> (rr_status row = SendFailed \<longleftrightarrow> plan_failed p)"
  proof (cases p)
    case (PlanFailed c h)
    then show ?thesis using assms by (auto simp: settle_plan_def plan_ok_def row_ok_def split: sum.splits prod.splits)
  next
    case (PlanPark rid live c)
    have ad: "admission r names = Inr (rid, live)" "can_admit mb rid Message"
      using assms(2) PlanPark by (auto simp: plan_ok_def split: sum.splits prod.splits)
    show ?thesis
    proof (cases live)
      case False
      then show ?thesis using assms(1) PlanPark ad by (auto simp: settle_plan_def row_ok_def)
    next
      case True
      then obtain rep w1 where d: "drain_queue n ev rid (Some roster) w = Some (rep, w1)"
        using assms(1) PlanPark by (auto simp: settle_plan_def split: option.splits)
      note D = drain_queue_saw[OF d]
      show ?thesis
      proof (cases "sa_msg_id a \<in> set (dr_injected rep)")
        case inj: True
        with True have "row = \<lparr>rr_to = rv_display r, rr_status = SendDelivered, rr_code = None, rr_hint = None\<rparr>" "w' = w1"
          using assms(1) PlanPark d by (simp_all add: settle_plan_def)
        then show ?thesis using D inj ad True PlanPark by (simp add: row_ok_def)
      next
        case False
        with True obtain h where "row = \<lparr>rr_to = rv_display r, rr_status = SendPending, rr_code = None, rr_hint = Some h\<rparr>" "sw_obs w' = sw_obs w1"
          using assms(1) PlanPark d by (auto simp: settle_plan_def ring_or_defer_def Let_def split: if_splits)
        then show ?thesis using D ad PlanPark by (simp add: row_ok_def)
      qed
    qed
  qed
  then show "row_ok a names mb w w' r row" "obs_grow w w'" "rr_status row = SendFailed \<longleftrightarrow> plan_failed p" by blast+
qed

lemma row_ok_earlier:
  assumes "row_ok a names mb w1 w' r row" "obs_grow w w1" "obs_grow w1 w'"
  shows "row_ok a names mb w w' r row"
  using assms saw_grow[of w w1 w'] by (auto simp: row_ok_def split: sum.splits prod.splits)

lemma settle_plans_rows:
  assumes "settle_plans n ev (sa_msg_id a) roster (zip (map rv_display rs) ps) deferred w = Some (rows, deferred', w')"
    "list_all2 (plan_ok a names mb) rs ps"
  shows "list_all2 (row_ok a names mb w w') rs rows \<and> obs_grow w w' \<and> list_all2 (\<lambda>row p. rr_status row = SendFailed \<longleftrightarrow> plan_failed p) rows ps"
  using assms(2,1)
proof (induction rs ps arbitrary: deferred w rows rule: list_all2_induct)
  case (Cons r rs p ps)
  obtain row d1 w1 where one: "settle_plan n ev (sa_msg_id a) roster (rv_display r) p deferred w = Some (row, d1, w1)"
    using Cons.prems by (auto split: option.splits)
  obtain rows1 where rest: "settle_plans n ev (sa_msg_id a) roster (zip (map rv_display rs) ps) d1 w1 = Some (rows1, deferred', w')" and eq: "rows = row # rows1"
    using Cons.prems one by auto
  note P = settle_plan_row[OF one Cons(1)] and I = Cons(3)[OF rest]
  have "list_all2 (row_ok a names mb w w') rs rows1"
    by (rule list_all2_mono[OF conjunct1[OF I]]) (use row_ok_earlier P(2) I in blast)
  then show ?case using P I eq row_ok_grow[OF P(1,2)] prefix_order.trans by auto
qed simp

lemma flush_grow: "each_id (flush_for_agent n ev) ids w = Some w' \<Longrightarrow> obs_grow w w'"
  by (rule each_id_grow) (auto simp: flush_for_agent_def flush_with_def split: if_splits dest: drain_queue_saw)

lemma accepted_rows:
  "list_all2 (\<lambda>row p. rr_status row = SendFailed \<longleftrightarrow> plan_failed p) rows ps \<Longrightarrow>
     reply_disposition rows = DispAccepted \<longleftrightarrow> accepted_ids ps \<noteq> []"
proof (induction rows ps rule: list_all2_induct)
  case (Cons row rows p ps)
  then show ?case by (cases p) (auto simp: reply_disposition_def split: if_splits)
qed (simp add: reply_disposition_def)

lemma close_reply_obs: "sw_obs (close_reply a cl rows w) = sw_obs w"
  by (cases "cl_done cl"; cases "reply_disposition rows") (auto simp: close_reply_def split: option.split)

section \<open>Properties\<close>

definition w_args :: send_args where
  "w_args = \<lparr>sa_msg_id = lit ''m-1'', sa_from = w_sender, sa_sender_name = lit ''ann'', sa_body = lit ''hi'', sa_entrance = Mcp, sa_meta = send_meta_default\<rparr>"

text \<open>C6. The rows of the answer are truthful: a send that resolves its address and carries a fresh id is
  never refused as a whole; it answers one row per resolved recipient, in order and under the notation
  written; an unreachable recipient fails with its own code; \<open>failed\<close> for a reachable one means its
  mailbox was full or no contract could be opened; and \<open>delivered\<close> is said only when this very call
  recorded a successful injection of this very message into that recipient's session.\<close>

theorem send_rows_truthful:
  assumes "resolve_addressing (ev_parse_uuid ev) builtin_resolve to (sa_from a) (ev_sources ev (sw_port w)) = Inr addr"
    "\<not> msg_id_in_use (st_ledger (sw_st w)) (sa_msg_id a)" "handle_send n ev tok a to w = Some (res, w')"
  shows "\<exists>rows. res = Inr rows \<and>
    list_all2 (row_ok a (live_names_hint (as_roster (ev_sources ev (sw_port w)))) (st_mailbox (sw_st w)) w w') (ad_recipients addr) rows"
proof -
  let ?roster = "as_roster (ev_sources ev (sw_port w))"
  let ?names = "live_names_hint ?roster"
  obtain ps acc st where ss: "send_section (ev_show_uuid ev) tok a addr ?names (ev_now ev 0 (sw_port w)) (ev_now ev 1 (sw_port w)) (sw_st w) = (Inr (ps, acc, []), st)"
      and ok: "list_all2 (plan_ok a ?names (st_mailbox (sw_st w))) (ad_recipients addr) ps"
    using send_section_ok[OF assms(1,2)] by blast
  obtain rows def w1 w2 where 1: "settle_plans n ev (sa_msg_id a) ?roster (zip (map rv_display (ad_recipients addr)) ps) [] (w\<lparr>sw_st := st\<rparr>) = Some (rows, def, w1)"
      and 2: "each_id (flush_for_agent n ev) def w1 = Some w2" and out: "res = Inr rows" "w' = close_reply a (eq_closing acc) rows w2"
    using assms(1,3) ss by (auto simp: handle_send_def Let_def split: option.splits)
  from settle_plans_rows[OF 1 ok] have R: "list_all2 (row_ok a ?names (st_mailbox (sw_st w)) (w\<lparr>sw_st := st\<rparr>) w1) (ad_recipients addr) rows"
    "obs_grow (w\<lparr>sw_st := st\<rparr>) w1" by blast+
  have "sw_obs w' = sw_obs w2" unfolding out(2) by (rule close_reply_obs)
  then have g: "obs_grow w1 w'" using flush_grow[OF 2] by simp
  have "list_all2 (row_ok a ?names (st_mailbox (sw_st w)) w w') (ad_recipients addr) rows"
  proof (rule list_all2_mono[OF R(1)])
    fix r row assume "row_ok a ?names (st_mailbox (sw_st w)) (w\<lparr>sw_st := st\<rparr>) w1 r row"
    from row_ok_grow[OF this R(2) g] show "row_ok a ?names (st_mailbox (sw_st w)) w w' r row"
      using row_ok_earlier[of a ?names _ "w\<lparr>sw_st := st\<rparr>" w' r row w] prefix_order.trans[OF R(2) g] by simp
  qed
  then show ?thesis using out(1) by blast
qed

definition w_env2 :: "unit svc_env" where
  "w_env2 = w_env\<lparr>ev_sources := \<lambda>_. w_sources\<rparr>"

definition w_world0 :: "unit svc_world" where
  "w_world0 = \<lparr>sw_st = messaging_state_new, sw_port = (), sw_doorbell = [], sw_obs = []\<rparr>"

lemma w_addr_resolved: "resolve_addressing (ev_parse_uuid w_env2) builtin_resolve w_to (sa_from w_args) (ev_sources w_env2 (sw_port w_world0)) = Inr w_addr"
  using w_run by (simp add: w_env2_def w_env_def w_args_def)

theorem send_rows_truthful_witness:
  "\<exists>rows w'. handle_send 3 w_env2 (\<lambda>_. 0) w_args w_to w_world0 = Some (Inr rows, w') \<and>
     list_all2 (row_ok w_args (live_names_hint (as_roster w_sources)) mailbox_new w_world0 w') (ad_recipients w_addr) rows"
proof -
  have "own_waiters (sw_st w_world0)" by (simp add: w_world0_def own_waiters_def messaging_state_new_def)
  moreover have "send_room w_env2 w_args w_to w_world0"
    unfolding send_room_def w_addr_resolved by (simp add: w_world0_def messaging_state_new_def mailbox_new_def w_addr_def)
  ultimately obtain res w' where h: "handle_send 3 w_env2 (\<lambda>_. 0) w_args w_to w_world0 = Some (res, w')"
    using handle_send_run by blast
  have "\<not> msg_id_in_use (st_ledger (sw_st w_world0)) (sa_msg_id w_args)"
    by (simp add: w_world0_def messaging_state_new_def ledger_new_def with_capacity_def msg_id_in_use_def)
  from send_rows_truthful[OF w_addr_resolved this h] h show ?thesis
    by (auto simp: w_env2_def w_world0_def messaging_state_new_def)
qed

end
