(* ===== verification/Service_Ledger.thy ===== *)
theory Service_Ledger
  imports Send_Outcome
begin

text \<open>
  The ledger as the messaging service uses it. Every lock section runs the ledger through its own
  steps, so what holds of every reachable ledger holds of the ledger inside the service; and a section
  that opens contract reservations ends them before it releases the lock, so outside the lock no
  contract is provisional and none is marked for retirement.
\<close>

section \<open>Provisional and marked contracts\<close>

definition provs :: "request_entry list \<Rightarrow> contract_key set" where
  "provs rs = re_key ` {e \<in> set rs. re_provisional e}"

definition marks :: "request_entry list \<Rightarrow> contract_key set" where
  "marks rs = re_key ` {e \<in> set rs. re_pending_retirement e}"

lemma marks_simps [simp]:
  "provs [] = {}" "marks [] = {}" "provs (a @ b) = provs a \<union> provs b" "marks (a @ b) = marks a \<union> marks b"
  "provs (e # rs) = (if re_provisional e then {re_key e} else {}) \<union> provs rs"
  "marks (e # rs) = (if re_pending_retirement e then {re_key e} else {}) \<union> marks rs"
  by (auto simp: provs_def marks_def)

lemma marks_keys: "k \<in> provs rs \<Longrightarrow> k \<in> set (map re_key rs)" "k \<in> marks rs \<Longrightarrow> k \<in> set (map re_key rs)"
  by (auto simp: provs_def marks_def)

text \<open>A calm change keeps the reservations and adds no retirement mark.\<close>

definition calm :: "request_entry list \<Rightarrow> request_entry list \<Rightarrow> bool" where
  "calm rs rs' \<longleftrightarrow> provs rs' = provs rs \<and> marks rs' \<subseteq> marks rs"

lemma calm_refl [simp]: "calm rs rs"
  by (simp add: calm_def)

lemma calm_trans: "calm a b \<Longrightarrow> calm b c \<Longrightarrow> calm a c"
  by (auto simp: calm_def)

definition keeps_marks :: "(request_entry \<Rightarrow> request_entry) \<Rightarrow> bool" where
  "keeps_marks f \<longleftrightarrow> (\<forall>e. re_key (f e) = re_key e \<and> re_provisional (f e) = re_provisional e \<and>
     re_pending_retirement (f e) = re_pending_retirement e)"

lemma keeps_marks_simps [simp]:
  "keeps_marks (\<lambda>e. e\<lparr>re_reservation_token := x\<rparr>)" "keeps_marks (\<lambda>e. e\<lparr>re_closed := c\<rparr>)"
  "keeps_marks (\<lambda>e. e\<lparr>re_notified := c\<rparr>)" "keeps_marks fail_entry"
  by (simp_all add: keeps_marks_def fail_entry_def)

lemma keeps_marks_if: "keeps_marks f \<Longrightarrow> keeps_marks (\<lambda>e. if P e then f e else e)"
  by (simp add: keeps_marks_def)

lemma calm_map: "keeps_marks f \<Longrightarrow> calm rs (map f rs)"
  by (induction rs) (auto simp: calm_def keeps_marks_def)

lemma calm_update: "keeps_marks f \<Longrightarrow> calm rs (update_first P f rs)"
  by (induction rs) (auto simp: calm_def keeps_marks_def)

lemma calm_purge: "calm (lg_requests l) (lg_requests (purge_finished_without_history l))"
  unfolding purge_requests by (auto simp: calm_def provs_def marks_def)

lemma calm_purged: "calm rs (lg_requests l) \<Longrightarrow> calm rs (lg_requests (purge_finished_without_history l))"
  by (rule calm_trans[OF _ calm_purge])

lemma calm_record: "calm (lg_requests l) (lg_requests (record_with_expected l m f fi t ti b st now n))"
proof -
  have "calm (lg_requests l) (lg_requests (purge_finished_without_history (l\<lparr>lg_history := h, lg_evicted_any := ev\<rparr>)))" for h ev
    by (rule calm_purged) simp
  then show ?thesis by (auto simp: record_with_expected_def Let_def split: prod.splits)
qed

lemma calm_close: "calm (lg_requests l) (lg_requests (snd (close_on_reply l i r now)))"
  by (auto simp: close_on_reply_def Let_def case_prod_beta transition_same calm_update split: option.splits
      intro!: calm_purged)

lemma calm_fail_reply: "calm (lg_requests l) (lg_requests (snd (fail_on_undeliverable_reply l i r)))"
  by (auto simp: fail_on_undeliverable_reply_def calm_update split: option.splits intro!: calm_purged)

lemma calm_fail_from: "calm (lg_requests l) (lg_requests (snd (fail_open_requests_from l s)))"
  by (auto simp: fail_open_requests_from_def fail_from_loop_eq Let_def keeps_marks_if calm_map intro!: calm_purged)

lemma calm_due: "calm (lg_requests l) (lg_requests (snd (due_timeouts l now)))"
  by (auto simp: due_timeouts_def due_loop_eq Let_def keeps_marks_if calm_map intro!: calm_purged)

lemma calm_attach: "calm (lg_requests l) (lg_requests (attach_reservation_liveness l i r w))"
  by (simp add: attach_reservation_liveness_def calm_update)

section \<open>Runs of the ledger inside a section\<close>

definition quiet :: "ledger \<Rightarrow> ledger \<Rightarrow> bool" where
  "quiet l l' \<longleftrightarrow> ledger_step\<^sup>*\<^sup>* l l' \<and> calm (lg_requests l) (lg_requests l')"

lemma quiet_refl [simp]: "quiet l l"
  by (simp add: quiet_def)

lemma quiet_trans: "quiet a b \<Longrightarrow> quiet b c \<Longrightarrow> quiet a c"
  unfolding quiet_def by (meson calm_trans rtranclp_trans)

lemma ledger_stepI: "op_allowed op l \<Longrightarrow> ledger_do op l = l' \<Longrightarrow> ledger_step l l'"
  using ledger_step.intros by blast

lemma quietI: "op_allowed op l \<Longrightarrow> ledger_do op l = l' \<Longrightarrow> calm (lg_requests l) (lg_requests l') \<Longrightarrow> quiet l l'"
  unfolding quiet_def by (blast intro: ledger_stepI)

lemma quiet_ops:
  "quiet l (record_with_expected l m f fi t ti b st now n)"
  "quiet l (snd (transition l m r st now))"
  "quiet l (snd (fail_pending l m r c now))"
  "quiet l (attach_reservation_liveness l i r w)"
  "quiet l (snd (close_on_reply l i r now))"
  "quiet l (snd (fail_on_undeliverable_reply l i r))"
  "quiet l (snd (fail_open_requests_from l s))"
  "quiet l (snd (due_timeouts l now))"
proof -
  show "quiet l (record_with_expected l m f fi t ti b st now n)"
    by (rule quietI[of "Op_record m f fi t ti b st now n"]) (simp_all add: op_allowed_def calm_record)
  show "quiet l (snd (transition l m r st now))"
    by (rule quietI[of "Op_transition m r st now"]) (simp_all add: op_allowed_def transition_same)
  show "quiet l (snd (fail_pending l m r c now))"
    by (rule quietI[of "Op_fail_pending m r c now"]) (simp_all add: op_allowed_def fail_pending_same)
  show "quiet l (attach_reservation_liveness l i r w)"
    by (rule quietI[of "Op_attach i r w"]) (simp_all add: op_allowed_def calm_attach)
  show "quiet l (snd (close_on_reply l i r now))"
    by (rule quietI[of "Op_close i r now"]) (simp_all add: op_allowed_def calm_close)
  show "quiet l (snd (fail_on_undeliverable_reply l i r))"
    by (rule quietI[of "Op_fail_reply i r"]) (simp_all add: op_allowed_def calm_fail_reply)
  show "quiet l (snd (fail_open_requests_from l s))"
    by (rule quietI[of "Op_fail_from s"]) (simp_all add: op_allowed_def calm_fail_from)
  show "quiet l (snd (due_timeouts l now))"
    by (rule quietI[of "Op_due now"]) (simp_all add: op_allowed_def calm_due)
qed

lemma quiet_collect: "quiet l (fst (transition_or_collect_evicted l m r st now ev))"
  using quiet_ops(2)[of l m r st now]
  by (auto simp: transition_or_collect_evicted_def split: prod.splits sum.splits transition_error.splits)

lemma quiet_retire: "quiet l (fst (retire_into r now ms l eff))"
proof (induction ms arbitrary: l eff)
  case (Cons m ms)
  show ?case
    by (auto simp: Let_def split: prod.splits intro: quiet_trans Cons.IH dest: arg_cong[of _ _ fst]
        intro!: quiet_trans[OF quiet_collect[of l "pm_msg_id m" r "if is_expired m now then Expired else Skipped" now "pe_evicted eff"]])
qed simp

lemma quiet_expire: "quiet l (fst (expire_into r now ms l ev))"
proof (induction ms arbitrary: l ev)
  case (Cons m ms)
  show ?case
    by (auto simp: Let_def split: prod.splits intro!: quiet_trans[OF quiet_collect[of l "pm_msg_id m" r Expired now ev]] Cons.IH
        dest!: arg_cong[of _ _ fst])
qed simp

lemma quiet_sweep_transitions: "quiet l (fst (sweep_transitions now xs l ev))"
proof (induction xs arbitrary: l ev)
  case (Cons x xs)
  show ?case
    by (auto simp: Let_def split: prod.splits dest!: arg_cong[of _ _ fst]
        intro!: quiet_trans[OF quiet_collect[of l "pm_msg_id (ep_msg x)" "ep_recipient x" Expired now ev]] Cons.IH)
qed simp

lemma quiet_fail_purged: "quiet l (fst (fail_purged r now ms l ev n))"
proof (induction ms arbitrary: l ev n)
  case (Cons m ms)
  have "quiet l l'" if "fail_pending l (pm_msg_id m) r (fail_code_as_str RecipientDeleted) now = (x, l')" for x l'
    using quiet_ops(3)[of l "pm_msg_id m" r "fail_code_as_str RecipientDeleted" now] that by simp
  then show ?case
    by (auto split: prod.splits sum.splits transition_error.splits intro!: quiet_trans[OF _ Cons.IH])
qed simp

lemma fail_purged_requests: "lg_requests (fst (fail_purged r now ms l ev n)) = lg_requests l"
proof (induction ms arbitrary: l ev n)
  case (Cons m ms)
  have "lg_requests l' = lg_requests l" if "fail_pending l (pm_msg_id m) r (fail_code_as_str RecipientDeleted) now = (x, l')" for x l'
    using fail_pending_same(1)[of l "pm_msg_id m" r "fail_code_as_str RecipientDeleted" now] that by simp
  then show ?case by (auto split: prod.splits sum.splits transition_error.splits simp: Cons.IH)
qed simp

lemma quiet_park_into: "quiet (st_ledger st) (st_ledger (fst (snd (park_into su st req now eff))))"
proof -
  have "quiet (st_ledger st) (record_with_expected l m f fi t ti b s now n)"
    if "retire_into (pq_recipient req) now ms (st_ledger st) eff = (l, eff')" for l eff' ms m f fi t ti b s n
    using quiet_trans[OF quiet_retire[of "st_ledger st" "pq_recipient req" now ms eff] quiet_ops(1)] that by simp
  then show ?thesis
    by (auto simp: park_into_def Let_def split: prod.splits sum.splits)
qed

lemma quiet_record_failed: "quiet (st_ledger st) (st_ledger (record_failed a rows now r rid st))"
  by (simp add: record_failed_def quiet_ops)

lemma quiet_close_in_lock: "quiet (st_ledger st) (st_ledger (snd (close_in_lock cl st now)))"
  using quiet_ops(5) by (auto simp: close_in_lock_def case_prod_beta split: option.splits)

section \<open>Open reservations\<close>

abbreviation res_key :: "reservation \<Rightarrow> contract_key" where
  "res_key res \<equiv> (rs_msg_id res, rs_recipient_id res)"

definition res_marks :: "reservation list \<Rightarrow> contract_key set" where
  "res_marks R = (\<Union>res \<in> set R. set_option (map_option retired_key (rs_retired res)))"

lemma res_marks_simps [simp]:
  "res_marks [] = {}" "res_marks (R @ S) = res_marks R \<union> res_marks S"
  "res_marks (res # R) = set_option (map_option retired_key (rs_retired res)) \<union> res_marks R"
  by (auto simp: res_marks_def)

text \<open>The guards a section holds are exactly the provisional contracts, and every retirement mark
  belongs to one of them.\<close>

definition covers :: "reservation list \<Rightarrow> ledger \<Rightarrow> bool" where
  "covers R l \<longleftrightarrow> ledger_inv l \<and> distinct (map res_key R) \<and> provs (lg_requests l) = set (map res_key R) \<and>
     marks (lg_requests l) \<subseteq> res_marks R"

definition moves :: "reservation list \<Rightarrow> ledger \<Rightarrow> reservation list \<Rightarrow> ledger \<Rightarrow> bool" where
  "moves R l R' l' \<longleftrightarrow> ledger_step\<^sup>*\<^sup>* l l' \<and> covers R' l'"

lemma moves_quiet: "covers R l \<Longrightarrow> quiet l l' \<Longrightarrow> moves R l R l'"
  unfolding moves_def covers_def quiet_def calm_def by (auto intro: ledger_sys.inv_star)

lemma moves_trans: "moves R l R' l' \<Longrightarrow> moves R' l' R'' l'' \<Longrightarrow> moves R l R'' l''"
  by (auto simp: moves_def)

lemma moves_covers: "moves R l R' l' \<Longrightarrow> covers R' l'"
  by (simp add: moves_def)

text \<open>Opening a contract adds one guard.\<close>

lemma moves_open:
  assumes "covers R l" "open_request l i s sid rc rid rb now = (out, l1)"
    and "out = Opened \<and> rt = None \<or> (\<exists>x. out = OpenedAfterMarking x \<and> rt = Some x)"
  shows "moves R l (R @ [\<lparr>rs_msg_id = i, rs_recipient_id = rid, rs_retired = rt\<rparr>]) l1"
proof -
  have inv: "ledger_inv l" using assms(1) by (simp add: covers_def)
  have step: "ledger_step l l1"
    by (rule ledger_stepI[of "Op_open i s sid rc rid rb now"]) (simp_all add: op_allowed_def assms(2))
  have "provs (lg_requests l1) = insert (i, rid) (provs (lg_requests l)) \<and> (i, rid) \<notin> provs (lg_requests l) \<and>
      marks (lg_requests l1) \<subseteq> marks (lg_requests l) \<union> set_option (map_option retired_key rt)"
    using assms(3)
  proof (elim disjE exE conjE)
    assume "out = Opened" "rt = None"
    with assms(2) have "(i, rid) \<notin> set (map re_key (lg_requests l)) \<and> l1 = l\<lparr>lg_requests := lg_requests l @ [new_entry i s sid rc rid rb now None]\<rparr>"
      by (auto simp: open_request_def Let_def list_ex_iff split: if_splits option.splits)
    with \<open>rt = None\<close> show ?thesis by (auto simp: new_entry_def dest: marks_keys)
  next
    fix x assume x: "out = OpenedAfterMarking x" "rt = Some x"
    obtain a v b where sh: "lg_requests l = a @ v # b" "retirable v" "re_key v = retired_key x"
      "l1 = l\<lparr>lg_requests := (a @ v\<lparr>re_pending_retirement := True\<rparr> # b) @ [new_entry i s sid rc rid rb now (Some (re_key v))]\<rparr>"
      "\<forall>r\<in>set (lg_requests l). re_key r \<noteq> (i, rid)"
      using open_shape[OF inv assms(2)[unfolded x(1)]] by blast
    have "(i, rid) \<notin> provs (lg_requests l)" using sh(5) by (auto simp: provs_def)
    then show ?thesis
      unfolding sh(4) using sh(1-3) x(2) by (auto simp: new_entry_def retirable_def)
  qed
  then show ?thesis
    using assms(1) step ledger_sys.inv_step[OF inv step]
    by (auto simp: moves_def covers_def)
qed

text \<open>Ending a reservation removes its guard, whichever way it ends.\<close>

lemma provs_confirm:
  assumes "distinct (map re_key rs)"
  shows "provs (update_first (\<lambda>e. re_key e = k) confirm_entry rs) = provs rs - {k}"
    and "marks (update_first (\<lambda>e. re_key e = k) confirm_entry rs) = marks rs"
  using assms by (induction rs) (auto simp: confirm_entry_def dest: marks_keys)

lemma marks_strike: "marks (filter (\<lambda>r. \<not> (re_key r = k \<and> re_pending_retirement r)) rs) \<subseteq> marks rs - {k}"
  by (auto simp: marks_def)

lemma provs_strike:
  "\<forall>e \<in> set rs. entry_ok e \<Longrightarrow> provs (filter (\<lambda>r. \<not> (re_key r = k \<and> re_pending_retirement r)) rs) = provs rs"
  by (force simp: provs_def entry_ok_def)

lemma marks_clear:
  assumes "distinct (map re_key rs)"
  shows "marks (update_first (\<lambda>r. re_key r = k \<and> re_pending_retirement r) (\<lambda>e. e\<lparr>re_pending_retirement := False\<rparr>) rs) \<subseteq> marks rs - {k}"
    and "provs (update_first (\<lambda>r. re_key r = k \<and> re_pending_retirement r) (\<lambda>e. e\<lparr>re_pending_retirement := False\<rparr>) rs) = provs rs"
  using assms by (induction rs) (auto dest: marks_keys)

lemma provs_drop:
  assumes "distinct (map re_key rs)"
  shows "provs (remove_first (\<lambda>e. re_key e = k) rs) = provs rs - {k}"
    and "marks (remove_first (\<lambda>e. re_key e = k) rs) \<subseteq> marks rs"
  using assms by (induction rs) (auto dest: marks_keys)

lemma commit_ends:
  assumes "ledger_inv l"
  shows "provs (lg_requests (snd (commit_open l (Some k) rt))) = provs (lg_requests l) - {k}"
    and "marks (lg_requests (snd (commit_open l (Some k) rt))) \<subseteq> marks (lg_requests l) - set_option rt"
proof -
  have dist: "distinct (map re_key (lg_requests l))" and ok: "\<forall>e \<in> set (lg_requests l). entry_ok e"
    using assms by (simp_all add: ledger_inv_def)
  let ?rs = "update_first (\<lambda>e. re_key e = k) confirm_entry (lg_requests l)"
  have ok': "\<forall>e \<in> set ?rs. entry_ok e"
    using ok by (auto simp: entry_ok_def confirm_entry_def dest!: set_update_firstD)
  note conf = provs_confirm[OF dist, of k]
  have "provs (lg_requests (snd (commit_open l (Some k) rt))) = provs (lg_requests l) - {k} \<and>
    marks (lg_requests (snd (commit_open l (Some k) rt))) \<subseteq> marks (lg_requests l) - set_option rt"
  proof (cases rt)
    case None
    then show ?thesis using conf by (simp add: commit_open_def Let_def)
  next
    case (Some v)
    let ?l = "l\<lparr>lg_requests := filter (\<lambda>r. \<not> (re_key r = v \<and> re_pending_retirement r)) ?rs\<rparr>"
    have "snd (commit_open l (Some k) rt) = purge_finished_without_history ?l"
      unfolding commit_open_def Some Let_def option.case case_prod_conv snd_conv by simp
    moreover have "provs (lg_requests ?l) = provs (lg_requests l) - {k}" "marks (lg_requests ?l) \<subseteq> marks (lg_requests l) - {v}"
      using provs_strike[OF ok', of v] marks_strike[of v ?rs] conf by simp_all
    ultimately show ?thesis using calm_purge[of ?l] Some by (auto simp: calm_def)
  qed
  then show "provs (lg_requests (snd (commit_open l (Some k) rt))) = provs (lg_requests l) - {k}"
    "marks (lg_requests (snd (commit_open l (Some k) rt))) \<subseteq> marks (lg_requests l) - set_option rt" by simp_all
qed

lemma rollback_ends:
  assumes "ledger_inv l"
  shows "provs (lg_requests (snd (rollback_open l (Some k) rt))) = provs (lg_requests l) - {k}"
    and "marks (lg_requests (snd (rollback_open l (Some k) rt))) \<subseteq> marks (lg_requests l) - set_option rt"
proof -
  let ?f = "\<lambda>e. e\<lparr>re_pending_retirement := False\<rparr>"
  define rs where "rs = (case rt of None \<Rightarrow> lg_requests l
    | Some v \<Rightarrow> update_first (\<lambda>r. re_key r = v \<and> re_pending_retirement r) ?f (lg_requests l))"
  have dist: "distinct (map re_key (lg_requests l))" using assms by (simp add: ledger_inv_def)
  have "map re_key rs = map re_key (lg_requests l)"
    unfolding rs_def by (cases rt) (auto intro: map_update_first)
  then have d: "distinct (map re_key rs)" using dist by simp
  have "lg_requests (snd (rollback_open l (Some k) rt)) = remove_first (\<lambda>e. re_key e = k) rs"
    by (cases k; cases rt) (simp_all add: rollback_open_def Let_def case_prod_beta drop_request_requests rs_def)
  moreover have "provs rs = provs (lg_requests l)" "marks rs \<subseteq> marks (lg_requests l) - set_option rt"
    using marks_clear[OF dist] unfolding rs_def by (cases rt; simp)+
  ultimately show "provs (lg_requests (snd (rollback_open l (Some k) rt))) = provs (lg_requests l) - {k}"
    "marks (lg_requests (snd (rollback_open l (Some k) rt))) \<subseteq> marks (lg_requests l) - set_option rt"
    using provs_drop[OF d, of k] by auto
qed

lemma reservation_ends:
  assumes "covers (R @ res # S) l"
  shows "moves (R @ res # S) l (R @ S) (snd (commit_open l (Some (res_key res)) (map_option retired_key (rs_retired res))))"
    and "moves (R @ res # S) l (R @ S) (snd (rollback_open l (Some (res_key res)) (map_option retired_key (rs_retired res))))"
proof -
  let ?k = "res_key res" and ?rt = "map_option retired_key (rs_retired res)"
  have inv: "ledger_inv l" using assms by (simp add: covers_def)
  have ends: "moves (R @ res # S) l (R @ S) l'"
    if "ledger_step l l'" "provs (lg_requests l') = provs (lg_requests l) - {?k}"
       "marks (lg_requests l') \<subseteq> marks (lg_requests l) - set_option ?rt" for l'
    using assms that ledger_sys.inv_step[OF inv that(1)] by (auto simp: moves_def covers_def)
  have "ledger_step l (snd (commit_open l (Some ?k) ?rt))"
    by (rule ledger_stepI[of "Op_commit (Some ?k) ?rt"]) (simp_all add: op_allowed_def)
  then show "moves (R @ res # S) l (R @ S) (snd (commit_open l (Some ?k) ?rt))"
    by (rule ends) (rule commit_ends[OF inv])+
  have "?k \<in> provs (lg_requests l)" using assms by (auto simp: covers_def)
  then have "op_allowed (Op_rollback ?k ?rt) l" by (auto simp: op_allowed_def list_ex_iff provs_def)
  then have "ledger_step l (snd (rollback_open l (Some ?k) ?rt))" by (rule ledger_stepI) simp
  then show "moves (R @ res # S) l (R @ S) (snd (rollback_open l (Some ?k) ?rt))"
    by (rule ends) (rule rollback_ends[OF inv])+
qed

section \<open>The send section\<close>

primrec opt_list :: "'a option \<Rightarrow> 'a list" where
  "opt_list None = []"
| "opt_list (Some x) = [x]"

fun plan_res :: "recipient_plan \<Rightarrow> reservation list" where
  "plan_res (PlanPark rid live c) = opt_list c"
| "plan_res (PlanFailed code h) = []"

fun step_res :: "contract_step \<Rightarrow> reservation list" where
  "step_res (ContractOk c) = opt_list c"
| "step_res ContractDuplicate = []"
| "step_res ContractFull = []"

lemma moves_quiet_then: "moves R l R' l' \<Longrightarrow> quiet l' l'' \<Longrightarrow> moves R l R' l''"
  by (blast intro: moves_trans moves_quiet moves_covers)

lemma moves_contract:
  assumes "covers R (st_ledger st)" "open_contract tok a now r rid st = (cs, st1)"
  shows "moves R (st_ledger st) (R @ step_res cs) (st_ledger st1)"
proof -
  have same: "moves R l R l" if "covers R l" for l using that by (simp add: moves_def)
  show ?thesis
  proof (cases "sm_request (sa_meta a)")
    case False
    with assms same[OF assms(1)] show ?thesis by (auto simp: open_contract_def)
  next
    case True
    define rb where "rb = (case (sm_reply_by (sa_meta a), sm_reply_by_raw (sa_meta a)) of (Some d, Some raw) \<Rightarrow> Some (d, raw) | _ \<Rightarrow> None)"
    obtain out l1 where o: "open_request (st_ledger st) (sa_msg_id a) (sa_sender_name a) (si_peer_id (sa_from a))
        (recipient_name r) rid rb now = (out, l1)" by fastforce
    note op = moves_quiet_then[OF moves_open[OF assms(1) o] quiet_ops(4)]
    have "l1 = st_ledger st" if "out = DuplicateId \<or> out = Full"
      using o that by (auto simp: open_request_def Let_def split: if_splits option.splits)
    with assms(2) True o op same[OF assms(1)] show ?thesis
      by (cases out) (auto simp: open_contract_def rb_def open_reservation_def)
  qed
qed

lemma moves_rollback:
  assumes "moves Q l (R @ opt_list c @ S) (st_ledger st)"
  shows "moves Q l (R @ S) (st_ledger (case c of None \<Rightarrow> st | Some res \<Rightarrow> reservation_rollback res st))"
  using assms reservation_ends(2)[OF moves_covers, of Q l R _ S "st_ledger st"]
  by (auto simp: reservation_rollback_def rollback_reservation_def split: option.split intro: moves_trans)

lemma moves_commit:
  assumes "moves Q l (R @ opt_list c @ S) (st_ledger st)"
  shows "moves Q l (R @ S) (st_ledger (fst (case c of None \<Rightarrow> (st, lg) | Some res \<Rightarrow> reservation_commit res st lg)))"
  using assms reservation_ends(1)[OF moves_covers, of Q l R _ S "st_ledger st"]
  by (auto simp: reservation_commit_def Let_def case_prod_beta split: option.split intro: moves_trans)

lemma moves_admit:
  assumes "covers R (st_ledger st)" "admit_one tok a rows names now r st = (p, st1, d)"
  shows "moves R (st_ledger st) (R @ plan_res p) (st_ledger st1)"
proof (cases "admission r names")
  case (Inl e)
  then show ?thesis
    using assms moves_quiet[OF assms(1) quiet_record_failed]
    by (auto simp: admit_one_def split: prod.splits)
next
  case (Inr x)
  obtain rid live where x: "x = (rid, live)" by (cases x)
  obtain cs st2 where oc: "open_contract tok a now r rid st = (cs, st2)" by fastforce
  note mc = moves_contract[OF assms(1) oc]
  have undo: "moves R (st_ledger st) R (st_ledger (record_failed a rows now r i
      (case c of None \<Rightarrow> st2 | Some res \<Rightarrow> reservation_rollback res st2)))"
    if "cs = ContractOk c" for c i
    using moves_rollback[of R "st_ledger st" R c "[]" st2] mc that by (auto intro: moves_quiet_then quiet_record_failed)
  show ?thesis
    using assms(2) mc undo moves_quiet_then[OF mc quiet_record_failed]
    by (cases cs) (auto simp: admit_one_def Inr x oc Let_def split: if_splits)
qed

abbreviation plans_res :: "recipient_plan list \<Rightarrow> reservation list" where
  "plans_res ps \<equiv> concat (map plan_res ps)"

lemma pass_a_length: "pass_a tok a rows names now rs st = (ps, st1, ds) \<Longrightarrow> length ps = length rs"
  by (induction rs arbitrary: st ps st1 ds) (fastforce simp: Let_def split: prod.splits)+

lemma moves_pass_a:
  "covers R (st_ledger st) \<Longrightarrow> pass_a tok a rows names now rs st = (ps, st1, ds) \<Longrightarrow>
     moves R (st_ledger st) (R @ plans_res ps) (st_ledger st1)"
proof (induction rs arbitrary: R st ps st1 ds)
  case Nil
  then show ?case by (simp add: moves_def)
next
  case (Cons r rs)
  obtain p s1 d where a: "admit_one tok a rows names now r st = (p, s1, d)" by (metis prod_cases3)
  obtain ps' s2 ds' where b: "pass_a tok a rows names now rs s1 = (ps', s2, ds')" by (metis prod_cases3)
  note m = moves_admit[OF Cons.prems(1) a]
  from moves_trans[OF m Cons.IH[OF moves_covers[OF m] b]] Cons.prems(2) a b show ?case by auto
qed

lemma moves_enqueue:
  assumes "covers (plan_res p @ S) (st_ledger st)" "enqueue_one su a rows meta now now2 r p st acc = (p', st1, acc')"
  shows "moves (plan_res p @ S) (st_ledger st) S (st_ledger st1)"
proof (cases p)
  case (PlanFailed c h)
  then show ?thesis using assms by (simp add: enqueue_one_def moves_def)
next
  case (PlanPark rid live contract)
  let ?rq = "\<lparr>pq_msg_id = sa_msg_id a, pq_sender_name = sa_sender_name a, pq_from = sa_from a,
             pq_entrance = sa_entrance a, pq_recipient = rid, pq_recipient_name = recipient_name r, pq_body = sa_body a,
             pq_kind = Message, pq_meta = meta, pq_expected_rows = rows\<rparr>"
  obtain out s1 eff where pk: "park_into su st ?rq now (eq_effects acc) = (out, s1, eff)" by (metis prod_cases3)
  have m: "moves (plan_res p @ S) (st_ledger st) (plan_res p @ S) (st_ledger s1)"
    using moves_quiet[OF assms(1) quiet_park_into[of st su ?rq now "eq_effects acc"]] pk by simp
  have ended: "moves (plan_res p @ S) (st_ledger st) S (st_ledger (case contract of None \<Rightarrow> s1 | Some res \<Rightarrow> reservation_rollback res s1))"
    "moves (plan_res p @ S) (st_ledger st) S (st_ledger (fst (case contract of None \<Rightarrow> (s1, eq_retirements acc)
        | Some res \<Rightarrow> reservation_commit res s1 (eq_retirements acc))))"
    using m moves_rollback[of _ _ "[]"] moves_commit[of _ _ "[]"] by (simp_all add: PlanPark)
  show ?thesis
  proof (cases out)
    case (Inl e)
    then show ?thesis
      using assms(2) moves_quiet_then[OF ended(1) quiet_record_failed] pk
      by (auto simp: enqueue_one_def PlanPark Let_def)
  next
    case (Inr u)
    then show ?thesis
      using assms(2) moves_quiet_then[OF ended(2) quiet_close_in_lock] pk
      by (cases contract) (auto simp: enqueue_one_def PlanPark Let_def case_prod_beta)
  qed
qed

lemma moves_pass_b:
  "covers (plans_res (map snd rps)) (st_ledger st) \<Longrightarrow> pass_b su a rows meta now now2 rps st acc = (ps, st1, acc') \<Longrightarrow>
     moves (plans_res (map snd rps)) (st_ledger st) [] (st_ledger st1)"
proof (induction rps arbitrary: st acc ps st1 acc')
  case Nil
  then show ?case by (simp add: moves_def)
next
  case (Cons rp rps)
  obtain r p where rp: "rp = (r, p)" by (cases rp)
  obtain p' s1 acc1 where a: "enqueue_one su a rows meta now now2 r p st acc = (p', s1, acc1)" by (metis prod_cases3)
  obtain ps' s2 acc2 where b: "pass_b su a rows meta now now2 rps s1 acc1 = (ps', s2, acc2)" by (metis prod_cases3)
  have m: "moves (plan_res p @ plans_res (map snd rps)) (st_ledger st) (plans_res (map snd rps)) (st_ledger s1)"
    using Cons.prems(1) by (intro moves_enqueue[OF _ a]) (simp add: rp)
  from moves_trans[OF m Cons.IH[OF moves_covers[OF m] b]] Cons.prems(2) a b show ?case by (simp add: rp)
qed

section \<open>The ledger of the service\<close>

text \<open>What one lock section does to the ledger between two states without guards.\<close>

abbreviation ledger_of :: "svc_sys \<Rightarrow> ledger" where
  "ledger_of s \<equiv> st_ledger (ss_st s)"

lemma send_ledger:
  assumes "covers [] (st_ledger st)" 
  shows "moves [] (st_ledger st) [] (st_ledger (snd (send_section su tok a addr names now now2 st)))"
proof (cases "msg_id_in_use (st_ledger st) (sa_msg_id a)")
  case True
  with assms show ?thesis by (simp add: send_section_def moves_def)
next
  case False
  define rows where "rows = expected_rows_of (length (ad_recipients addr))"
  obtain ps st1 ds where a: "pass_a tok a rows names now (ad_recipients addr) st = (ps, st1, ds)" by (metis prod_cases3)
  note m = moves_pass_a[OF assms a, simplified]
  have len: "length ps = length (ad_recipients addr)"
    using a by (rule pass_a_length)
  have m': "moves (plans_res ps) (st_ledger st1) [] (st_ledger st2)"
    if "pass_b su a rows meta now now2 (zip (ad_recipients addr) ps) st1 acc0 = (ps', st2, acc)" for ps' st2 acc acc0 meta
    using moves_pass_b[OF _ that] moves_covers[OF m] len by simp
  show ?thesis
    using False moves_trans[OF m m'] by (auto simp: send_section_def Let_def rows_def[symmetric] a split: prod.splits)
qed

lemma drain_ledger: "drain_section busy r target now st = (d, rep, ev, st') \<Longrightarrow> quiet (st_ledger st) (st_ledger st')"
  using quiet_expire[of "st_ledger st" r now "do_expired (fst (drain (st_mailbox st) r now))" "[]"]
  by (auto simp: drain_section_def Let_def split: prod.splits if_splits option.splits)

lemma flight_ledger:
  "settle_delivered fs m now st = (fs', st') \<Longrightarrow> quiet (st_ledger st) (st_ledger st')"
  "settle_failed fs ms st = (fs', st') \<Longrightarrow> st_ledger st' = st_ledger st"
  "release_targets fs st = (rel, fs', st') \<Longrightarrow> st_ledger st' = st_ledger st"
  "st_ledger (flight_drop fs st) = st_ledger st"
  "st_ledger (snd (collect_waiters r ts st)) = st_ledger st"
  by (auto simp: settle_delivered_def settle_failed_def release_targets_def flight_drop_def collect_waiters_def Let_def
      quiet_ops split: prod.splits if_splits)

lemma maintenance_ledger:
  "quiet (st_ledger st) (st_ledger (fst (park_notice su st i r rname body now)))"
  "quiet (st_ledger st) (st_ledger (snd (handle_profile_deleted live p now st)))"
  "quiet (st_ledger st) (st_ledger (snd (snd (sweep_section now st))))"
  "quiet (st_ledger st) (st_ledger (snd (fail_reply_contract st j q)))"
proof -
  show "quiet (st_ledger st) (st_ledger (fst (park_notice su st i r rname body now)))"
    by (simp add: park_notice_def quiet_park_into)
  show "quiet (st_ledger st) (st_ledger (snd (handle_profile_deleted live p now st)))"
    using quiet_trans[OF quiet_fail_purged quiet_ops(7), of "st_ledger st" p now _ "[]" 0 p]
    by (auto simp: handle_profile_deleted_def Let_def case_prod_beta)
  show "quiet (st_ledger st) (st_ledger (snd (snd (sweep_section now st))))"
    using quiet_trans[OF quiet_sweep_transitions quiet_ops(8), of "st_ledger st" now _ "[]" now]
    by (auto simp: sweep_section_def Let_def case_prod_beta)
  show "quiet (st_ledger st) (st_ledger (snd (fail_reply_contract st j q)))"
    by (simp add: fail_reply_contract_def case_prod_beta quiet_ops)
qed

lemma reclaim_nothing:
  assumes "covers [] (st_ledger st)"
  shows "sweep_reclaim alive st = ([], st)"
proof -
  have "filter (abandoned alive) (lg_requests (st_ledger st)) = []"
    using assms by (auto simp: covers_def provs_def filter_empty_conv abandoned_def)
  then show ?thesis by (simp add: sweep_reclaim_def reclaim_abandoned_reservations_def)
qed

definition ledger_settled :: "svc_sys \<Rightarrow> bool" where
  "ledger_settled s \<longleftrightarrow> ledger_reachable (ledger_of s) \<and> covers [] (ledger_of s)"

lemma step_ledger:
  assumes "svc_step anyid s t" "covers [] (ledger_of s)"
  shows "moves [] (ledger_of s) [] (ledger_of t)"
  using assms(1)
proof cases
  case (sv_send pu to a sources addr su tok names now now2)
  then show ?thesis using send_ledger[OF assms(2)] by simp
qed (auto intro!: moves_quiet[OF assms(2)] simp: reclaim_nothing[OF assms(2)] flight_ledger maintenance_ledger
      dest: flight_ledger(1,2,3) drain_ledger)

interpretation svc_ledger: step_invariant svc_init "svc_step True" ledger_settled
proof unfold_locales
  fix s :: svc_sys
  assume "svc_init s"
  moreover have "ledger_init ledger_new" unfolding ledger_new_def by (rule ledger_init.intros)
  ultimately show "ledger_settled s"
    by (auto simp: ledger_settled_def svc_init.simps messaging_state_new_def covers_def reach_init ledger_sys.inv_init)
      (simp_all add: ledger_new_def with_capacity_def)
next
  fix s t :: svc_sys
  assume "ledger_settled s" "svc_step True s t"
  then show "ledger_settled t"
    using step_ledger[of True s t] by (auto simp: ledger_settled_def moves_def intro: reachable_star)
qed

text \<open>C20. Whatever the threads of the service do, outside the lock no request contract is provisional or
  marked for retirement, so the recovery scan of the sweep reclaims nothing and neither a failed
  reply nor a profile deletion ever meets a contract that a send in progress guards; and the ledger
  is one its own operations can reach, so its bounds on slots and history hold of the service.\<close>

theorem service_settles_reservations:
  assumes "svc_reachable s"
  shows "ledger_reachable (st_ledger (ss_st s)) \<and> occupied_slots (st_ledger (ss_st s)) \<le> MAX_OPEN_REQUESTS \<and>
     (\<forall>e \<in> set (lg_requests (st_ledger (ss_st s))). \<not> re_provisional e \<and> \<not> re_pending_retirement e) \<and>
     sweep_reclaim alive (ss_st s) = ([], ss_st s) \<and>
     fst (fail_reply_contract (ss_st s) i r) \<noteq> GuardHeld \<and>
     po_guard_held_contracts (fst (handle_profile_deleted live p now (ss_st s))) = 0"
proof -
  have c: "covers [] (ledger_of s)" and lr: "ledger_reachable (ledger_of s)"
    using svc_ledger.inv_reachable[OF assms] by (simp_all add: ledger_settled_def)
  then have clean: "\<forall>e \<in> set (lg_requests (ledger_of s)). \<not> re_provisional e \<and> \<not> re_pending_retirement e"
    by (auto simp: covers_def provs_def marks_def)
  have "occupied_slots (ledger_of s) \<le> MAX_OPEN_REQUESTS" using c by (simp add: covers_def ledger_inv_def)
  moreover have "fst (fail_reply_contract (ss_st s) i r) \<noteq> GuardHeld"
    using clean by (auto simp: fail_reply_contract_def fail_on_undeliverable_reply_def match_contract_for_replier_def case_prod_beta
        split: option.split dest!: find_Some_iff[THEN iffD1] nth_mem)
  moreover have "po_guard_held_contracts (fst (handle_profile_deleted live p now (ss_st s))) = 0"
    using clean
    by (auto simp: handle_profile_deleted_def Let_def case_prod_beta fail_open_requests_from_def fail_from_loop_eq
        fail_purged_requests filter_empty_conv)
  ultimately show ?thesis using lr clean reclaim_nothing[OF c] by blast
qed

definition w_request :: send_args where
  "w_request = w_args\<lparr>sa_meta := (sa_meta w_args)\<lparr>sm_request := True\<rparr>\<rparr>"

definition w_requested :: messaging_state where
  "w_requested = snd (send_section (\<lambda>_. []) (\<lambda>_. 0) w_request w_addr [] 0 0 messaging_state_new)"

theorem service_settles_reservations_witness:
  "occupied_slots (st_ledger w_requested) \<le> MAX_OPEN_REQUESTS \<and> sweep_reclaim (\<lambda>_. False) w_requested = ([], w_requested)"
proof -
  let ?s0 = "\<lparr>ss_st = messaging_state_new, ss_run = (\<lambda>_. Idle), ss_air = (\<lambda>_. []), ss_log = (\<lambda>_. [])\<rparr>"
  have "resolve_addressing (\<lambda>_. None) builtin_resolve w_to (sa_from w_request) w_sources = Inr w_addr"
    using w_run by (simp add: w_request_def w_args_def)
  then have "svc_step True ?s0 (?s0\<lparr>ss_st := w_requested\<rparr>)"
    using sv_send[where s = ?s0 and a = w_request and addr = w_addr and anyid = True]
    by (simp add: w_requested_def messaging_state_new_def mailbox_new_def w_addr_def)
  then have "svc_reachable (?s0\<lparr>ss_st := w_requested\<rparr>)"
    by (blast intro: reach_step reach_init svc_init.intros)
  from service_settles_reservations[OF this, of "\<lambda>_. False"] show ?thesis by simp
qed

end
