(* ===== verification/Send_Contracts.thy ===== *)
theory Send_Contracts
  imports Send_Outcome
begin

text \<open>
  The contracts of a send, \<^verbatim>\<open>handle_send\<close> of \<^verbatim>\<open>crates/engram-dashboard-messaging/src/service.rs\<close>: how many
  requests the ledger can still take at the start of the section, what that makes of every row of pass A,
  and what the section does to the contract that a reply answers.
\<close>

section \<open>Room for requests\<close>

text \<open>A request takes a free slot, or the slot of a contract that may be retired for it. Contracts opened in
  the same section are provisional and no such slot.\<close>

definition contract_room :: "ledger \<Rightarrow> nat" where
  "contract_room l = (MAX_OPEN_REQUESTS - occupied_slots l) + length (filter retirable (lg_requests l))"

text \<open>The verdicts on the rows, one after the other, from the room at the start: a refused entrance, then no
  room for a request, then a full mailbox; only an accepted request takes room.\<close>

fun row_verdicts :: "send_args \<Rightarrow> ustr \<Rightarrow> mailbox \<Rightarrow> nat \<Rightarrow> resolved_recipient list \<Rightarrow> recipient_plan list" where
  "row_verdicts a names mb room [] = []"
| "row_verdicts a names mb room (r # rs) = (case admission r names of
     Inl (c, h) \<Rightarrow> PlanFailed c h # row_verdicts a names mb room rs
   | Inr (rid, live) \<Rightarrow>
       if sm_request (sa_meta a) \<and> room = 0
       then PlanFailed RequestCapacity (CapacityHint (rv_display r)) # row_verdicts a names mb room rs
       else if \<not> can_admit mb rid Message
       then PlanFailed FailMailboxFull (MailboxFullHint (rv_display r)) # row_verdicts a names mb room rs
       else PlanPark rid live None # row_verdicts a names mb (if sm_request (sa_meta a) then room - 1 else room) rs)"

lemma purge_retirable: "filter retirable (lg_requests (purge_finished_without_history l)) = filter retirable (lg_requests l)"
  unfolding purge_requests filter_filter by (intro filter_cong) (auto simp: retirable_def occupies_slot_def)

lemma record_room: "contract_room (record_with_expected l m f fi t ti b st now n) = contract_room l"
proof -
  have "filter retirable (lg_requests (record_with_expected l m f fi t ti b st now n)) = filter retirable (lg_requests l)"
    using purge_retirable[of "l\<lparr>lg_history := h, lg_evicted_any := True\<rparr>" for h]
    by (simp add: record_with_expected_def evict_front_eq Let_def)
  then show ?thesis by (simp add: contract_room_def record_same(2))
qed

text \<open>What opening leaves behind: the old entries with at most one of them marked, and the new one at the end.\<close>

definition opened_at :: "ledger \<Rightarrow> contract_key \<Rightarrow> contract_key option \<Rightarrow> ledger \<Rightarrow> bool" where
  "opened_at l key victim l' \<longleftrightarrow> (\<forall>r \<in> set (lg_requests l). re_key r \<noteq> key) \<and>
     (\<exists>n. re_key n = key \<and> re_provisional n \<and> \<not> re_closed n \<and> \<not> re_pending_retirement n \<and> (case victim of
        None \<Rightarrow> occupied_slots l < MAX_OPEN_REQUESTS \<and> l' = l\<lparr>lg_requests := lg_requests l @ [n]\<rparr>
      | Some k \<Rightarrow> MAX_OPEN_REQUESTS \<le> occupied_slots l \<and> (\<exists>b v c. lg_requests l = b @ v # c \<and> retirable v \<and> re_key v = k \<and>
          (\<forall>r \<in> set (b @ c). re_key r \<noteq> k) \<and> l' = l\<lparr>lg_requests := (b @ v\<lparr>re_pending_retirement := True\<rparr> # c) @ [n]\<rparr>)))"

lemma opened_room: "opened_at l key victim l' \<Longrightarrow> Suc (contract_room l') = contract_room l"
  by (cases victim) (auto simp: opened_at_def contract_room_def occupied_slots_def retirable_def occupies_slot_def)

lemma opened_rollback:
  assumes "opened_at l (i, rid) victim l'"
  shows "snd (rollback_open l' (Some (i, rid)) victim) = l"
proof -
  have fnd: "find (\<lambda>e. re_key e = (i, rid)) (xs @ [n]) \<noteq> None" if "re_key n = (i, rid)" for xs n
    using that by (auto simp: find_None_iff)
  show ?thesis
  proof (cases victim)
    case None
    then obtain n where n: "re_key n = (i, rid)" "l' = l\<lparr>lg_requests := lg_requests l @ [n]\<rparr>" and new: "\<forall>r \<in> set (lg_requests l). re_key r \<noteq> (i, rid)"
      using assms by (auto simp: opened_at_def)
    then show ?thesis using fnd[of n "lg_requests l"] remove_first_append_last[of "lg_requests l" "\<lambda>e. re_key e = (i, rid)" n] None
      by (auto simp: rollback_open_def drop_request_def split: option.splits)
  next
    case (Some k)
    then obtain n b v c where n: "re_key n = (i, rid)" "l' = l\<lparr>lg_requests := (b @ v\<lparr>re_pending_retirement := True\<rparr> # c) @ [n]\<rparr>"
      and v: "lg_requests l = b @ v # c" "retirable v" "re_key v = k" "\<forall>r \<in> set (b @ c). re_key r \<noteq> k"
      and new: "\<forall>r \<in> set (lg_requests l). re_key r \<noteq> (i, rid)"
      using assms by (auto simp: opened_at_def)
    have vp: "v\<lparr>re_pending_retirement := False\<rparr> = v" using v(2) by (simp add: retirable_def occupies_slot_def)
    have "update_first (\<lambda>r. re_key r = k \<and> re_pending_retirement r) (\<lambda>e. e\<lparr>re_pending_retirement := False\<rparr>)
        (b @ v\<lparr>re_pending_retirement := True\<rparr> # (c @ [n])) = b @ v # (c @ [n])"
      using v(3,4) vp by (subst update_first_middle) auto
    then have u: "update_first (\<lambda>r. re_key r = k \<and> re_pending_retirement r) (\<lambda>e. e\<lparr>re_pending_retirement := False\<rparr>) (lg_requests l') = lg_requests l @ [n]"
      by (simp add: n(2) v(1))
    have "snd (rollback_open l' (Some (i, rid)) victim) = snd (drop_request (l\<lparr>lg_requests := lg_requests l @ [n]\<rparr>) i rid)"
      unfolding rollback_open_def Some Let_def option.case case_prod_beta u by (simp add: n(2))
    also have "\<dots> = l"
      using fnd[of n "lg_requests l"] new remove_first_append_last[of "lg_requests l" "\<lambda>e. re_key e = (i, rid)" n] n(1)
      by (auto simp: drop_request_def split: option.splits)
    finally show ?thesis .
  qed
qed

lemma update_first_last: "\<forall>x \<in> set xs. \<not> P x \<Longrightarrow> P y \<Longrightarrow> update_first P f (xs @ [y]) = xs @ [f y]"
  by (induction xs) auto

text \<open>The watch that is attached next changes the new entry only.\<close>

lemma opened_attach: "opened_at l (i, rid) victim l' \<Longrightarrow> opened_at l (i, rid) victim (attach_reservation_liveness l' i rid tok)"
proof -
  assume op: "opened_at l (i, rid) victim l'"
  then obtain n where n: "re_key n = (i, rid)" "re_provisional n" "\<not> re_closed n" "\<not> re_pending_retirement n"
    and new: "\<forall>r \<in> set (lg_requests l). re_key r \<noteq> (i, rid)"
    and shape: "case victim of None \<Rightarrow> occupied_slots l < MAX_OPEN_REQUESTS \<and> l' = l\<lparr>lg_requests := lg_requests l @ [n]\<rparr>
      | Some k \<Rightarrow> MAX_OPEN_REQUESTS \<le> occupied_slots l \<and> (\<exists>b v c. lg_requests l = b @ v # c \<and> retirable v \<and> re_key v = k \<and>
          (\<forall>r \<in> set (b @ c). re_key r \<noteq> k) \<and> l' = l\<lparr>lg_requests := (b @ v\<lparr>re_pending_retirement := True\<rparr> # c) @ [n]\<rparr>)"
    unfolding opened_at_def by blast
  let ?n = "n\<lparr>re_reservation_token := Some tok\<rparr>"
  have att: "attach_reservation_liveness (l\<lparr>lg_requests := old @ [n]\<rparr>) i rid tok = l\<lparr>lg_requests := old @ [?n]\<rparr>"
    if "\<forall>r \<in> set old. re_key r \<noteq> (i, rid)" for old
  proof -
    have "update_first (\<lambda>r. re_request_id r = i \<and> re_recipient_id r = rid \<and> re_provisional r) (\<lambda>r. r\<lparr>re_reservation_token := Some tok\<rparr>) (old @ [n]) = old @ [?n]"
      using n that by (intro update_first_last) auto
    then show ?thesis by (simp add: attach_reservation_liveness_def)
  qed
  have "case victim of None \<Rightarrow> occupied_slots l < MAX_OPEN_REQUESTS \<and> attach_reservation_liveness l' i rid tok = l\<lparr>lg_requests := lg_requests l @ [?n]\<rparr>
      | Some k \<Rightarrow> MAX_OPEN_REQUESTS \<le> occupied_slots l \<and> (\<exists>b v c. lg_requests l = b @ v # c \<and> retirable v \<and> re_key v = k \<and>
          (\<forall>r \<in> set (b @ c). re_key r \<noteq> k) \<and> attach_reservation_liveness l' i rid tok = l\<lparr>lg_requests := (b @ v\<lparr>re_pending_retirement := True\<rparr> # c) @ [?n]\<rparr>)"
  proof (cases victim)
    case None
    then show ?thesis using shape att[OF new] by simp
  next
    case (Some k)
    then obtain b v c where v: "lg_requests l = b @ v # c" "retirable v" "re_key v = k" "\<forall>r \<in> set (b @ c). re_key r \<noteq> k"
      "l' = l\<lparr>lg_requests := (b @ v\<lparr>re_pending_retirement := True\<rparr> # c) @ [n]\<rparr>" "MAX_OPEN_REQUESTS \<le> occupied_slots l"
      using shape by auto
    have "\<forall>r \<in> set (b @ v\<lparr>re_pending_retirement := True\<rparr> # c). re_key r \<noteq> (i, rid)" using new v(1) by auto
    from att[OF this] have "attach_reservation_liveness l' i rid tok = l\<lparr>lg_requests := (b @ v\<lparr>re_pending_retirement := True\<rparr> # c) @ [?n]\<rparr>"
      by (simp only: v(5))
    then show ?thesis unfolding Some option.case using v(1-4,6) by (intro conjI exI[of _ b] exI[of _ v] exI[of _ c]) (simp_all only:)
  qed
  then show ?thesis using n new unfolding opened_at_def by (intro conjI exI[of _ ?n]) simp_all
qed

lemma open_request_cases:
  assumes inv: "ledger_inv l" and new: "(i, rid) \<notin> contract_keys l"
  shows "if contract_room l = 0 then open_request l i s sid rc rid rb now = (Full, l)
    else \<exists>out victim l'. open_request l i s sid rc rid rb now = (out, l') \<and> opened_at l (i, rid) victim l' \<and>
      (case victim of None \<Rightarrow> out = Opened | Some k \<Rightarrow> \<exists>rt. out = OpenedAfterMarking rt \<and> retired_key rt = k)"
proof -
  have nodup: "\<not> list_ex (\<lambda>r. re_request_id r = i \<and> re_recipient_id r = rid) (lg_requests l)" and fresh: "\<forall>r \<in> set (lg_requests l). re_key r \<noteq> (i, rid)"
    using new by (auto simp: list_ex_iff image_iff)
  have entry: "re_key (new_entry i s sid rc rid rb now v) = (i, rid)" "re_provisional (new_entry i s sid rc rid rb now v)"
    "\<not> re_closed (new_entry i s sid rc rid rb now v)" "\<not> re_pending_retirement (new_entry i s sid rc rid rb now v)" for v
    by (simp_all add: new_entry_def)
  show ?thesis
  proof (cases "occupied_slots l < MAX_OPEN_REQUESTS")
    case True
    then have "open_request l i s sid rc rid rb now = (Opened, l\<lparr>lg_requests := lg_requests l @ [new_entry i s sid rc rid rb now None]\<rparr>)"
      using nodup by (simp add: open_request_def)
    moreover have "opened_at l (i, rid) None (l\<lparr>lg_requests := lg_requests l @ [new_entry i s sid rc rid rb now None]\<rparr>)"
      using True fresh entry unfolding opened_at_def by (intro conjI exI[of _ "new_entry i s sid rc rid rb now None"]) simp_all
    moreover have "contract_room l \<noteq> 0" using True by (simp add: contract_room_def)
    ultimately show ?thesis by force
  next
    case full: False
    show ?thesis
    proof (cases "victim_index (lg_requests l)")
      case None
      then have "contract_room l = 0" using full unfolding victim_index_None by (simp add: contract_room_def filter_False)
      then show ?thesis using None full nodup by (simp add: open_request_def)
    next
      case (Some k)
      have "contract_room l \<noteq> 0"
        using victim_index_SomeD(1,2)[OF Some] by (auto simp: contract_room_def filter_empty_conv)
      moreover obtain rt l' where op: "open_request l i s sid rc rid rb now = (OpenedAfterMarking rt, l')"
        using Some full nodup by (simp add: open_request_def Let_def)
      moreover have "opened_at l (i, rid) (Some (retired_key rt)) l'"
      proof -
        obtain b v c where "lg_requests l = b @ v # c" "retirable v" "re_key v = retired_key rt"
          "l' = l\<lparr>lg_requests := (b @ v\<lparr>re_pending_retirement := True\<rparr> # c) @ [new_entry i s sid rc rid rb now (Some (re_key v))]\<rparr>"
          "\<forall>r \<in> set (b @ c). re_key r \<noteq> re_key v"
          using open_shape[OF inv op] by blast
        then show ?thesis using full fresh entry unfolding opened_at_def option.case
          by (intro conjI exI[of _ "new_entry i s sid rc rid rb now (Some (re_key v))"] exI[of _ b] exI[of _ v] exI[of _ c]) auto
      qed
      ultimately show ?thesis by force
    qed
  qed
qed

lemma open_contract_cases:
  assumes inv: "ledger_inv (st_ledger st)" and new: "(sa_msg_id a, rid) \<notin> contract_keys (st_ledger st)" and req: "sm_request (sa_meta a)"
  shows "if contract_room (st_ledger st) = 0 then open_contract tok a now r rid st = (ContractFull, st)
    else \<exists>res l'. open_contract tok a now r rid st = (ContractOk (Some res), st\<lparr>st_ledger := l'\<rparr>) \<and>
      rs_msg_id res = sa_msg_id a \<and> rs_recipient_id res = rid \<and>
      opened_at (st_ledger st) (sa_msg_id a, rid) (map_option retired_key (rs_retired res)) l' \<and> ledger_inv l'"
proof -
  let ?rb = "case (sm_reply_by (sa_meta a), sm_reply_by_raw (sa_meta a)) of (Some d, Some raw) \<Rightarrow> Some (d, raw) | _ \<Rightarrow> None"
  let ?open = "open_request (st_ledger st) (sa_msg_id a) (sa_sender_name a) (si_peer_id (sa_from a)) (recipient_name r) rid ?rb now"
  note C = open_request_cases[OF inv new, of "sa_sender_name a" "si_peer_id (sa_from a)" "recipient_name r" ?rb now]
  show ?thesis
  proof (cases "contract_room (st_ledger st) = 0")
    case True
    then have "?open = (Full, st_ledger st)" using C by simp
    then show ?thesis using True req by (simp add: open_contract_def Let_def)
  next
    case False
    then obtain out victim l' where op: "?open = (out, l')" "opened_at (st_ledger st) (sa_msg_id a, rid) victim l'"
      and v: "case victim of None \<Rightarrow> out = Opened | Some k \<Rightarrow> \<exists>rt. out = OpenedAfterMarking rt \<and> retired_key rt = k"
      using C by auto
    have "ledger_inv l'" using open_request_inv[OF inv] op(1) by (metis snd_conv)
    then have inv': "ledger_inv (attach_reservation_liveness l' (sa_msg_id a) rid (tok rid))" by (rule attach_inv)
    obtain rt where rt: "out = (case rt of None \<Rightarrow> Opened | Some x \<Rightarrow> OpenedAfterMarking x)" "victim = map_option retired_key rt"
    proof (cases victim)
      case None
      then show thesis using v that[of None] by simp
    next
      case (Some k)
      then obtain x where "out = OpenedAfterMarking x" "retired_key x = k" using v by auto
      then show thesis using Some that[of "Some x"] by simp
    qed
    have "open_contract tok a now r rid st = (ContractOk (Some \<lparr>rs_msg_id = sa_msg_id a, rs_recipient_id = rid, rs_retired = rt\<rparr>),
        st\<lparr>st_ledger := attach_reservation_liveness l' (sa_msg_id a) rid (tok rid)\<rparr>)"
      using op(1) req rt(1) by (cases rt) (simp_all add: open_contract_def Let_def open_reservation_def)
    then show ?thesis using False op(2) inv' rt(2) opened_attach[of "st_ledger st"] by (simp only: if_False) force
  qed
qed

section \<open>Pass A\<close>

lemma record_failed_ledger:
  "ledger_inv (st_ledger st) \<Longrightarrow> ledger_inv (st_ledger (record_failed a rows now r rid st))"
  "contract_room (st_ledger (record_failed a rows now r rid st)) = contract_room (st_ledger st)"
  by (simp_all add: record_failed_def record_inv record_room)

text \<open>An open contract under a key.\<close>

definition open_key :: "contract_key \<Rightarrow> ledger \<Rightarrow> bool" where
  "open_key k l \<longleftrightarrow> (\<exists>e \<in> set (lg_requests l). re_key e = k \<and> \<not> re_closed e)"

lemma purge_open [simp]: "open_key k (purge_finished_without_history l) = open_key k l"
  by (auto simp: open_key_def purge_requests)

lemma record_open [simp]: "open_key k (record_with_expected l m f fi t ti b st now n) = open_key k l"
proof -
  have "open_key k (l\<lparr>lg_history := h\<rparr>) = open_key k l" "open_key k (l\<lparr>lg_history := h, lg_evicted_any := True\<rparr>) = open_key k l" for h
    by (simp_all add: open_key_def)
  then show ?thesis by (simp add: record_with_expected_def evict_front_eq Let_def)
qed

lemma opened_open: "opened_at l key victim l' \<Longrightarrow> fst k \<noteq> fst key \<Longrightarrow> open_key k l' = open_key k l"
  by (cases victim) (auto simp: opened_at_def open_key_def)

lemma admit_one_verdict:
  assumes run: "admit_one tok a rows names now r st = (p, st1, d)" and inv: "ledger_inv (st_ledger st)"
    and seen: "ids_seen (sa_msg_id a) S st" and new: "row_key r \<notin> S"
  shows "ledger_inv (st_ledger st1)" "fst k \<noteq> sa_msg_id a \<Longrightarrow> open_key k (st_ledger st1) = open_key k (st_ledger st)"
    "settled_plan p # row_verdicts a names (st_mailbox st) (contract_room (st_ledger st1)) rs =
       row_verdicts a names (st_mailbox st) (contract_room (st_ledger st)) (r # rs)"
proof -
  let ?l = "st_ledger st"
  have "ledger_inv (st_ledger st1) \<and> (fst k \<noteq> sa_msg_id a \<longrightarrow> open_key k (st_ledger st1) = open_key k ?l) \<and>
      settled_plan p # row_verdicts a names (st_mailbox st) (contract_room (st_ledger st1)) rs =
        row_verdicts a names (st_mailbox st) (contract_room ?l) (r # rs)"
  proof (cases "admission r names")
    case (Inl x)
    then show ?thesis using run inv by (cases x) (auto simp: admit_one_def record_failed_def record_inv record_room)
  next
    case (Inr x)
    obtain rid live where x: "x = (rid, live)" by fastforce
    have fresh: "(sa_msg_id a, rid) \<notin> contract_keys ?l"
      using seen new admission_key[OF Inr[unfolded x]] by (auto simp: ids_seen_def)
    show ?thesis
    proof (cases "sm_request (sa_meta a)")
      case False
      then have "open_contract tok a now r rid st = (ContractOk None, st)" by (simp add: open_contract_def)
      then show ?thesis using run inv Inr x False
        by (auto simp: admit_one_def Let_def record_failed_def record_inv record_room split: if_splits)
    next
      case req: True
      note C = open_contract_cases[OF inv fresh req, of tok now r]
      show ?thesis
      proof (cases "contract_room ?l = 0")
        case True
        then have "open_contract tok a now r rid st = (ContractFull, st)" using C by simp
        then show ?thesis using run inv Inr x req True by (auto simp: admit_one_def Let_def record_failed_def record_inv record_room)
      next
        case False
        then obtain res l' where oc: "open_contract tok a now r rid st = (ContractOk (Some res), st\<lparr>st_ledger := l'\<rparr>)"
          and res: "rs_msg_id res = sa_msg_id a" "rs_recipient_id res = rid"
          and op: "opened_at ?l (sa_msg_id a, rid) (map_option retired_key (rs_retired res)) l'" and inv': "ledger_inv l'" using C by auto
        have room: "contract_room l' = contract_room ?l - 1" using opened_room[OF op] by simp
        have undone: "reservation_rollback res (st\<lparr>st_ledger := l'\<rparr>) = st"
          using opened_rollback[OF op] res by (simp add: reservation_rollback_def rollback_reservation_def)
        show ?thesis
        proof (cases "can_admit (st_mailbox st) rid Message")
          case True
          then show ?thesis using run Inr x oc inv' room req False opened_open[OF op, of k] by (auto simp: admit_one_def Let_def)
        next
          case full: False
          then show ?thesis using run Inr x oc undone inv req False
            by (auto simp: admit_one_def Let_def record_failed_def record_inv record_room)
        qed
      qed
    qed
  qed
  then show "ledger_inv (st_ledger st1)" "fst k \<noteq> sa_msg_id a \<Longrightarrow> open_key k (st_ledger st1) = open_key k ?l"
    "settled_plan p # row_verdicts a names (st_mailbox st) (contract_room (st_ledger st1)) rs =
       row_verdicts a names (st_mailbox st) (contract_room ?l) (r # rs)" by blast+
qed

lemma pass_a_verdicts:
  assumes "pass_a tok a rows names now rs st = (ps, st1, ds)" "ledger_inv (st_ledger st)" "ids_seen (sa_msg_id a) S st"
    "distinct (map row_key rs)" "row_key ` set rs \<inter> S = {}"
  shows "map settled_plan ps = row_verdicts a names (st_mailbox st) (contract_room (st_ledger st)) rs \<and> ledger_inv (st_ledger st1) \<and>
    (\<forall>k. fst k \<noteq> sa_msg_id a \<longrightarrow> open_key k (st_ledger st1) = open_key k (st_ledger st))"
  using assms
proof (induction rs arbitrary: st S ps st1 ds)
  case (Cons r rs)
  obtain p st2 d where one: "admit_one tok a rows names now r st = (p, st2, d)" by (metis prod_cases3)
  obtain ps' ds' where rest: "pass_a tok a rows names now rs st2 = (ps', st1, ds')" and eq: "ps = p # ps'"
    using Cons.prems(1) one by (auto simp: Let_def split: prod.splits)
  have fresh: "row_key r \<notin> S" using Cons.prems(5) by auto
  note A = admit_one_verdict[OF one Cons.prems(2,3) fresh]
  have "ids_seen (sa_msg_id a) (insert (row_key r) S) st2" using admit_one_ok[OF one Cons.prems(3) fresh] by blast
  moreover have "st_mailbox st2 = st_mailbox st" using admit_one_frame[of tok a rows names now r st] one by simp
  ultimately show ?case using Cons.IH[OF rest A(1)] Cons.prems(4,5) A(2) A(3)[of rs] eq by auto
qed simp

lemma no_request_no_contract:
  "\<not> sm_request (sa_meta a) \<Longrightarrow> pass_a tok a rows names now rs st = (ps, st1, ds) \<Longrightarrow> map settled_plan ps = ps"
proof (induction rs arbitrary: st ps st1 ds)
  case (Cons r rs)
  obtain p st2 d where one: "admit_one tok a rows names now r st = (p, st2, d)" by (metis prod_cases3)
  have "settled_plan p = p"
    using one Cons.prems(1) by (auto simp: admit_one_def open_contract_def Let_def split: sum.splits prod.splits if_splits)
  then show ?case using Cons one by (auto simp: Let_def split: prod.splits)
qed simp

section \<open>The contract that a reply answers\<close>

definition closes :: "reply_outcome \<Rightarrow> bool" where
  "closes out \<longleftrightarrow> (case out of Closed \<Rightarrow> True | ClosedHistoryAnomaly _ \<Rightarrow> True | _ \<Rightarrow> False)"

lemma close_on_reply_open:
  assumes inv: "ledger_inv l"
  shows "\<not> open_key (i, r) (snd (close_on_reply l i r now))" "open_key k (snd (close_on_reply l i r now)) \<Longrightarrow> open_key k l"
    "closes (fst (close_on_reply l i r now)) = open_key (i, r) l"
proof -
  have dist: "distinct (map re_key (lg_requests l))" using inv by (simp add: ledger_inv_def)
  let ?hit = "\<lambda>e. re_request_id e = i \<and> re_recipient_id e = r"
  let ?up = "l\<lparr>lg_requests := update_first ?hit (\<lambda>e. e\<lparr>re_closed := True\<rparr>) (lg_requests l)\<rparr>"
  have "\<not> open_key (i, r) (snd (close_on_reply l i r now)) \<and> (open_key k (snd (close_on_reply l i r now)) \<longrightarrow> open_key k l) \<and>
      closes (fst (close_on_reply l i r now)) = open_key (i, r) l"
  proof (cases "match_contract_for_replier l i r")
    case None
    then have "close_on_reply l i r now = (ReplyNoMatch, l)" by (simp add: close_on_reply_def)
    moreover have "\<not> open_key (i, r) l" using None by (auto simp: match_contract_for_replier_def find_None_iff open_key_def)
    ultimately show ?thesis by (simp add: closes_def)
  next
    case (Some e)
    then obtain b c where e': "lg_requests l = b @ e # c" "?hit e" and upd: "lg_requests ?up = b @ e\<lparr>re_closed := True\<rparr> # c"
      using find_update_first[of ?hit "lg_requests l" e, where f="\<lambda>e. e\<lparr>re_closed := True\<rparr>"] by (auto simp: match_contract_for_replier_def)
    then have e: "e \<in> set (lg_requests l)" "?hit e" by simp_all
    have uniq: "e' = e" if "e' \<in> set (lg_requests l)" "?hit e'" for e'
      using dist e that by (auto simp: distinct_map dest!: inj_onD)
    show ?thesis
    proof (cases "re_closed e")
      case True
      then have "close_on_reply l i r now = (ReplyAlreadyClosed, l)" using Some by (simp add: close_on_reply_def)
      moreover have "\<not> open_key (i, r) l" using uniq True by (auto simp: open_key_def)
      ultimately show ?thesis by (simp add: closes_def)
    next
      case False
      let ?t = "transition ?up i r Replied now"
      have eq: "close_on_reply l i r now = ((case fst ?t of Inr _ \<Rightarrow> Closed | Inl NotFound \<Rightarrow> Closed
          | Inl (Illegal from _) \<Rightarrow> ClosedHistoryAnomaly from), purge_finished_without_history (snd ?t))"
        using Some e(2) False by (simp add: close_on_reply_def Let_def case_prod_beta)
      have up: "open_key k (snd (close_on_reply l i r now)) \<longleftrightarrow> open_key k ?up" for k
        unfolding eq snd_conv purge_open by (simp add: open_key_def transition_same(1))
      have shut: "\<not> open_key (i, r) ?up"
      proof -
        have "\<forall>x \<in> set (b @ c). re_key x \<noteq> re_key e" using dist unfolding e'(1) by (rule distinct_key_split)
        then show ?thesis using e'(2) unfolding open_key_def upd by auto
      qed
      moreover have "open_key k l" if "open_key k ?up" for k
        using that by (auto simp: open_key_def dest!: set_update_firstD)
      moreover have "closes (fst (close_on_reply l i r now))" unfolding eq by (auto simp: closes_def split: sum.split transition_error.split)
      moreover have "open_key (i, r) l" using e False by (auto simp: open_key_def)
      ultimately show ?thesis unfolding up by blast
    qed
  qed
  then show "\<not> open_key (i, r) (snd (close_on_reply l i r now))" "open_key k (snd (close_on_reply l i r now)) \<Longrightarrow> open_key k l"
    "closes (fst (close_on_reply l i r now)) = open_key (i, r) l" by blast+
qed

section \<open>Pass B\<close>

lemma retire_into_ledger:
  "lg_requests (fst (retire_into r now ms l eff)) = lg_requests l \<and> (ledger_inv l \<longrightarrow> ledger_inv (fst (retire_into r now ms l eff)))"
proof (induction ms arbitrary: l eff)
  case (Cons m ms)
  let ?t = "transition l (pm_msg_id m) r (if is_expired m now then Expired else Skipped) now"
  have "fst (transition_or_collect_evicted l (pm_msg_id m) r (if is_expired m now then Expired else Skipped) now ev) = snd ?t" for ev
    by (auto simp: transition_or_collect_evicted_def split: prod.splits sum.splits transition_error.splits)
  moreover have "lg_requests (snd ?t) = lg_requests l" "ledger_inv l \<Longrightarrow> ledger_inv (snd ?t)" by (simp_all add: transition_same(1) transition_inv)
  ultimately show ?case using Cons by (simp add: Let_def case_prod_beta)
qed simp

lemma park_into_ledger:
  "park_into su st req now eff = (res, st', eff') \<Longrightarrow> open_key k (st_ledger st') = open_key k (st_ledger st)"
  "park_into su st req now eff = (res, st', eff') \<Longrightarrow> ledger_inv (st_ledger st) \<Longrightarrow> ledger_inv (st_ledger st')"
proof -
  have keep: "open_key k (fst (retire_into r now ms l eff)) = open_key k l" for r ms l by (simp add: open_key_def retire_into_ledger)
  show "park_into su st req now eff = (res, st', eff') \<Longrightarrow> open_key k (st_ledger st') = open_key k (st_ledger st)"
    using keep by (auto simp: park_into_def Let_def case_prod_beta split: prod.splits sum.splits)
  show "park_into su st req now eff = (res, st', eff') \<Longrightarrow> ledger_inv (st_ledger st) \<Longrightarrow> ledger_inv (st_ledger st')"
    using retire_into_ledger by (auto simp: park_into_def Let_def case_prod_beta record_inv split: prod.splits sum.splits)
qed

lemma commit_open_key: "open_key k (snd (commit_open l p rt)) \<Longrightarrow> open_key k l"
proof -
  define l1 where "l1 = (case p of None \<Rightarrow> l | Some key \<Rightarrow> l\<lparr>lg_requests := update_first (\<lambda>r. re_key r = key) confirm_entry (lg_requests l)\<rparr>)"
  have 1: "open_key k l" if "open_key k l1"
    using that by (cases p) (auto simp: l1_def open_key_def confirm_entry_def dest!: set_update_firstD)
  assume "open_key k (snd (commit_open l p rt))"
  moreover have "snd (commit_open l p rt) = (case rt of None \<Rightarrow> l1
     | Some key \<Rightarrow> purge_finished_without_history
         (l1\<lparr>lg_requests := filter (\<lambda>r. \<not> (re_key r = key \<and> re_pending_retirement r)) (lg_requests l1)\<rparr>))"
    by (auto simp: commit_open_def l1_def Let_def split: option.splits prod.splits)
  moreover have "open_key k l1" if "open_key k (l1\<lparr>lg_requests := filter P (lg_requests l1)\<rparr>)" for P using that by (auto simp: open_key_def)
  ultimately show "open_key k l" using 1 by (cases rt) auto
qed

lemma reservation_commit_ledger:
  "ledger_inv (st_ledger st) \<Longrightarrow> ledger_inv (st_ledger (fst (reservation_commit res st lg)))"
  "open_key k (st_ledger (fst (reservation_commit res st lg))) \<Longrightarrow> open_key k (st_ledger st)"
  using commit_open_inv[of "st_ledger st"] commit_open_key[of k "st_ledger st"]
  by (auto simp: reservation_commit_def Let_def case_prod_beta)

text \<open>The closing as pass B goes: nothing closed yet and the contract as it was, or closed, by an outcome that
  says whether it was open. A request may give up the very contract it answers to make room.\<close>

definition closing_ok :: "bool \<Rightarrow> bool \<Rightarrow> reply_closing \<Rightarrow> ledger \<Rightarrow> bool" where
  "closing_ok request was_open cl l \<longleftrightarrow> (case cl_in_reply_to cl of
     None \<Rightarrow> cl_done cl = None
   | Some i \<Rightarrow> (case cl_done cl of
       None \<Rightarrow> (open_key (i, cl_replier_id cl) l \<longrightarrow> was_open) \<and> (\<not> request \<longrightarrow> open_key (i, cl_replier_id cl) l = was_open)
     | Some out \<Rightarrow> \<not> open_key (i, cl_replier_id cl) l \<and> (closes out \<longrightarrow> was_open) \<and> (\<not> request \<longrightarrow> closes out = was_open)))"

lemma close_in_lock_ok:
  assumes "close_in_lock cl st now = (cl', st')" "ledger_inv (st_ledger st)" "closing_ok request was_open cl (st_ledger st)"
  shows "closing_ok request was_open cl' (st_ledger st')" "ledger_inv (st_ledger st')"
  using assms close_on_reply_open[OF assms(2)] close_on_reply_inv[OF assms(2)]
  by (auto simp: close_in_lock_def closing_ok_def split: option.splits prod.splits) (metis fst_conv snd_conv)+

lemma closing_ok_shrink:
  assumes cl: "closing_ok request was_open cl l" and less: "\<And>k. open_key k l' \<Longrightarrow> open_key k l"
    and same: "\<And>k. \<not> request \<Longrightarrow> open_key k l' = open_key k l"
  shows "closing_ok request was_open cl l'"
proof (cases "cl_in_reply_to cl")
  case (Some i)
  then show ?thesis using cl less[of "(i, cl_replier_id cl)"] same[of "(i, cl_replier_id cl)"]
    unfolding closing_ok_def by (cases "cl_done cl") (simp_all, blast+)
qed (use cl in \<open>simp add: closing_ok_def\<close>)

lemma close_in_lock_same:
  "close_in_lock cl st now = (cl', st') \<Longrightarrow> cl_in_reply_to cl' = cl_in_reply_to cl \<and> cl_replier_id cl' = cl_replier_id cl"
  by (auto simp: close_in_lock_def split: option.splits prod.splits if_splits)

lemma enqueue_one_closing:
  assumes run: "enqueue_one su a rows meta now now2 r (PlanPark rid live c) st acc = (p, st', acc')" and ok: "can_admit (st_mailbox st) rid Message"
    and inv: "ledger_inv (st_ledger st)" and cl: "closing_ok request was_open (eq_closing acc) (st_ledger st)" and c: "\<not> request \<Longrightarrow> c = None"
  shows "ledger_inv (st_ledger st') \<and> closing_ok request was_open (eq_closing acc') (st_ledger st') \<and>
    cl_in_reply_to (eq_closing acc') = cl_in_reply_to (eq_closing acc) \<and> cl_replier_id (eq_closing acc') = cl_replier_id (eq_closing acc)"
proof -
  let ?req = "\<lparr>pq_msg_id = sa_msg_id a, pq_sender_name = sa_sender_name a, pq_from = sa_from a,
             pq_entrance = sa_entrance a, pq_recipient = rid, pq_recipient_name = recipient_name r, pq_body = sa_body a,
             pq_kind = Message, pq_meta = meta, pq_expected_rows = rows\<rparr>"
  obtain res st1 eff where pi: "park_into su st ?req now (eq_effects acc) = (res, st1, eff)" by (metis prod_cases3)
  have "p = PlanPark rid live None" by (rule enqueue_one_ok(1)[OF run ok])
  then have res: "res = Inr ()" using run pi by (cases res) (auto simp: enqueue_one_def Let_def split: option.splits prod.splits)
  obtain st2 lg where co: "(case c of None \<Rightarrow> (st1, eq_retirements acc) | Some x \<Rightarrow> reservation_commit x st1 (eq_retirements acc)) = (st2, lg)"
    by fastforce
  obtain cl' st3 where cl': "close_in_lock (eq_closing acc) st2 now2 = (cl', st3)" by fastforce
  have out: "st' = st3" "eq_closing acc' = cl'" using run pi res co cl' by (auto simp: enqueue_one_def Let_def)
  have st2: "st2 = (case c of None \<Rightarrow> st1 | Some x \<Rightarrow> fst (reservation_commit x st1 (eq_retirements acc)))"
    using co by (cases c) (simp_all add: fst_def)
  have inv2: "ledger_inv (st_ledger st2)"
    using park_into_ledger(2)[OF pi inv] reservation_commit_ledger(1)[of st1] by (simp add: st2 split: option.split)
  have shrink: "open_key k (st_ledger st)" if "open_key k (st_ledger st2)" for k
  proof -
    have "open_key k (st_ledger st1)"
      using that reservation_commit_ledger(2)[of k _ st1 "eq_retirements acc"] by (simp add: st2 split: option.splits)
    then show ?thesis using park_into_ledger(1)[OF pi] by simp
  qed
  have "open_key k (st_ledger st2) = open_key k (st_ledger st)" if "\<not> request" for k
    using c[OF that] co park_into_ledger(1)[OF pi] by auto
  then have "closing_ok request was_open (eq_closing acc) (st_ledger st2)" using closing_ok_shrink[OF cl shrink] by blast
  from close_in_lock_ok[OF cl' inv2 this] show ?thesis using close_in_lock_same[OF cl'] by (simp add: out)
qed

lemma pass_b_closing:
  assumes "pass_b su a rows meta now now2 (zip rs ps) st acc = (ps', st', acc')" "length rs = length ps"
    "distinct (accepted_ids ps)" "\<forall>rid \<in> set (accepted_ids ps). can_admit (st_mailbox st) rid Message"
    "ledger_inv (st_ledger st)" "closing_ok request was_open (eq_closing acc) (st_ledger st)" "\<not> request \<longrightarrow> map settled_plan ps = ps"
  shows "closing_ok request was_open (eq_closing acc') (st_ledger st') \<and> cl_in_reply_to (eq_closing acc') = cl_in_reply_to (eq_closing acc) \<and>
    cl_replier_id (eq_closing acc') = cl_replier_id (eq_closing acc) \<and> (accepted_ids ps = [] \<longrightarrow> st' = st)"
  using assms
proof (induction ps arbitrary: rs st acc ps')
  case (Cons p ps)
  obtain r rs1 where rs: "rs = r # rs1" using Cons.prems(2) by (cases rs) auto
  obtain p1 st1 acc1 where one: "enqueue_one su a rows meta now now2 r p st acc = (p1, st1, acc1)" by (metis prod_cases3)
  obtain ps2 where rest: "pass_b su a rows meta now now2 (zip rs1 ps) st1 acc1 = (ps2, st', acc')" and eq: "ps' = p1 # ps2"
    using Cons.prems(1) by (auto simp: rs one Let_def split: prod.splits)
  show ?case
  proof (cases p)
    case (PlanPark rid live c)
    have ok: "can_admit (st_mailbox st) rid Message" using Cons.prems(4) PlanPark by simp
    note E = enqueue_one_ok(3)[OF one[unfolded PlanPark] ok]
    have c: "\<not> request \<Longrightarrow> c = None" using Cons.prems(7) PlanPark by simp
    have "\<forall>q \<in> set (accepted_ids ps). can_admit (st_mailbox st1) q Message"
    proof
      fix q assume q: "q \<in> set (accepted_ids ps)"
      with Cons.prems(3) PlanPark have "q \<noteq> rid" by auto
      with E q Cons.prems(4) PlanPark show "can_admit (st_mailbox st1) q Message" by simp
    qed
    then show ?thesis
      using Cons.IH[OF rest] Cons.prems(2,3,7) PlanPark rs enqueue_one_closing[OF one[unfolded PlanPark] ok Cons.prems(5,6) c] by simp
  next
    case (PlanFailed code h)
    with one have "p1 = p" "st1 = st" "acc1 = acc" by (simp_all add: enqueue_one_def)
    with Cons.IH[OF rest] Cons.prems PlanFailed rs show ?thesis by simp
  qed
qed simp

section \<open>The section of a send\<close>

lemma send_section_exact:
  assumes addr: "resolve_addressing pu builtin_resolve to (sa_from a) sources = Inr addr"
    and fresh: "\<not> msg_id_in_use (st_ledger st) (sa_msg_id a)" and inv: "ledger_inv (st_ledger st)" and own: "sm_reply_to (sa_meta a) \<noteq> Some (sa_msg_id a)"
  defines "key \<equiv> \<lambda>i. (i, si_peer_id (sa_from a))"
  shows "\<exists>ps acc st'. send_section su tok a addr names now now2 st = (Inr (ps, acc, []), st') \<and>
    ps = row_verdicts a names (st_mailbox st) (contract_room (st_ledger st)) (ad_recipients addr) \<and>
    cl_in_reply_to (eq_closing acc) = sm_reply_to (sa_meta a) \<and> cl_replier_id (eq_closing acc) = si_peer_id (sa_from a) \<and>
    closing_ok (sm_request (sa_meta a)) (\<exists>i. sm_reply_to (sa_meta a) = Some i \<and> open_key (key i) (st_ledger st)) (eq_closing acc) (st_ledger st') \<and>
    (accepted_ids ps = [] \<longrightarrow> (\<forall>i. sm_reply_to (sa_meta a) = Some i \<longrightarrow> open_key (key i) (st_ledger st') = open_key (key i) (st_ledger st)))"
proof -
  let ?rs = "ad_recipients addr" and ?request = "sm_request (sa_meta a)"
  let ?rows = "expected_rows_of (length ?rs)" and ?was = "\<exists>i. sm_reply_to (sa_meta a) = Some i \<and> open_key (key i) (st_ledger st)"
  note D = resolve_addressing_ok(2)[OF addr]
  obtain ps st1 ds where pa: "pass_a tok a ?rows names now ?rs st = (ps, st1, ds)" by (metis prod_cases3)
  have seen: "ids_seen (sa_msg_id a) {} st" using fresh by (auto simp: ids_seen_def msg_id_in_use_def list_ex_iff)
  from pass_a_ok[OF pa seen D] have A: "list_all2 (plan_ok a names (st_mailbox st)) ?rs ps" "ds = []" by simp_all
  note P = plan_ok_accepted[OF A(1)]
  from pass_a_verdicts[OF pa inv seen D] have V: "map settled_plan ps = row_verdicts a names (st_mailbox st) (contract_room (st_ledger st)) ?rs"
    "ledger_inv (st_ledger st1)" and V3: "\<forall>k. fst k \<noteq> sa_msg_id a \<longrightarrow> open_key k (st_ledger st1) = open_key k (st_ledger st)" by blast+
  let ?acc = "\<lparr>eq_effects = park_side_effects_default, eq_retirements = \<lparr>rl_real = [], rl_phantom = []\<rparr>,
                   eq_closing = \<lparr>cl_in_reply_to = sm_reply_to (sa_meta a), cl_replier_id = si_peer_id (sa_from a), cl_done = None\<rparr>\<rparr>"
  have same: "open_key (key i) (st_ledger st1) = open_key (key i) (st_ledger st)" if "sm_reply_to (sa_meta a) = Some i" for i
    using V3[rule_format, of "key i"] own that by (auto simp: key_def)
  have start: "closing_ok ?request ?was (eq_closing ?acc) (st_ledger st1)"
    using same by (auto simp: closing_ok_def key_def split: option.split)
  have mb: "st_mailbox st1 = st_mailbox st" using pass_a_frame[of tok a ?rows names now ?rs st] pa by simp
  obtain ps' st2 acc where pb: "pass_b su a ?rows (freeze_meta a addr ps) now now2 (zip ?rs ps) st1 ?acc = (ps', st2, acc)"
    by (metis prod_cases3)
  have ps': "ps' = map settled_plan ps" using pass_b_ok[OF pb list_all2_lengthD[OF A(1)] P(3)[OF D]] P(2) by (simp add: mb)
  have nc: "\<not> ?request \<longrightarrow> map settled_plan ps = ps" using no_request_no_contract[OF _ pa] by blast
  have B: "closing_ok ?request ?was (eq_closing acc) (st_ledger st2)" "cl_in_reply_to (eq_closing acc) = sm_reply_to (sa_meta a)"
    "cl_replier_id (eq_closing acc) = si_peer_id (sa_from a)" "accepted_ids ps = [] \<longrightarrow> st2 = st1"
    using pass_b_closing[OF pb list_all2_lengthD[OF A(1)] P(3)[OF D] _ V(2) start nc] P(2) by (simp_all add: mb)
  have "send_section su tok a addr names now now2 st = (Inr (ps', acc, []), st2)"
    using fresh by (simp add: send_section_def pa pb Let_def A(2))
  moreover have "accepted_ids ps' = accepted_ids ps" by (simp add: ps')
  ultimately show ?thesis using B V(1) ps' same by (intro exI[of _ ps'] exI[of _ acc] exI[of _ st2]) auto
qed

text \<open>C5. One section decides and enqueues a send. For a fresh id, a message that does not answer itself and a ledger its own operations can
  reach (as that of the service is, by \<^verbatim>\<open>service_settles_reservations\<close>), the plans are exactly the verdicts that the entrance
  rules, the mailbox and the ledger give at the start of the section: a refused entrance fails with its own code; a request row
  fails for capacity exactly when the requests accepted before it have used up the free slots and the retirable contracts; a row
  whose mailbox is full fails for that; every other row parks. Exactly the accepted recipients, pairwise different, get exactly
  one copy at the tail of their queue; pass B bounces nothing and no contract is opened twice. The contract that a reply answers
  has no open entry in the ledger at the end of this very section when somebody accepted the reply, and the outcome reports it
  closed only if it was open at the start (exactly if it was, for a send that is no request itself: a request may retire it to
  make room); when nobody accepted, nothing is reported and the contract is open exactly if it was.\<close>

theorem send_admits_exactly:
  assumes "resolve_addressing pu builtin_resolve to (sa_from a) sources = Inr addr" "\<not> msg_id_in_use (st_ledger st) (sa_msg_id a)"
    and "ledger_reachable (st_ledger st)" "sm_reply_to (sa_meta a) \<noteq> Some (sa_msg_id a)"
  shows "\<exists>ps acc st'. send_section su tok a addr names now now2 st = (Inr (ps, acc, []), st') \<and>
    ps = row_verdicts a names (st_mailbox st) (contract_room (st_ledger st)) (ad_recipients addr) \<and> distinct (accepted_ids ps) \<and>
    (\<forall>q. queued_ids st' q = queued_ids st q @ (if q \<in> set (accepted_ids ps) then [sa_msg_id a] else [])) \<and>
    (case sm_reply_to (sa_meta a) of
       None \<Rightarrow> cl_done (eq_closing acc) = None
     | Some i \<Rightarrow>
         (let was_open = open_key (i, si_peer_id (sa_from a)) (st_ledger st);
              is_open = open_key (i, si_peer_id (sa_from a)) (st_ledger st')
          in case cl_done (eq_closing acc) of
               None \<Rightarrow> accepted_ids ps = [] \<and> is_open = was_open
             | Some out \<Rightarrow> accepted_ids ps \<noteq> [] \<and> \<not> is_open \<and> (closes out \<longrightarrow> was_open) \<and>
                 (\<not> sm_request (sa_meta a) \<longrightarrow> closes out = was_open)))"
proof -
  obtain ps acc st' where s: "send_section su tok a addr names now now2 st = (Inr (ps, acc, []), st')"
    and old: "distinct (accepted_ids ps)" "\<forall>q. queued_ids st' q = queued_ids st q @ (if q \<in> set (accepted_ids ps) then [sa_msg_id a] else [])"
      "cl_done (eq_closing acc) \<noteq> None \<longleftrightarrow> sm_reply_to (sa_meta a) \<noteq> None \<and> accepted_ids ps \<noteq> []"
    using send_section_ok[OF assms(1,2)] by blast
  have "ps = row_verdicts a names (st_mailbox st) (contract_room (st_ledger st)) (ad_recipients addr) \<and>
    cl_in_reply_to (eq_closing acc) = sm_reply_to (sa_meta a) \<and> cl_replier_id (eq_closing acc) = si_peer_id (sa_from a) \<and>
    closing_ok (sm_request (sa_meta a)) (\<exists>i. sm_reply_to (sa_meta a) = Some i \<and> open_key (i, si_peer_id (sa_from a)) (st_ledger st))
      (eq_closing acc) (st_ledger st') \<and>
    (accepted_ids ps = [] \<longrightarrow> (\<forall>i. sm_reply_to (sa_meta a) = Some i \<longrightarrow>
       open_key (i, si_peer_id (sa_from a)) (st_ledger st') = open_key (i, si_peer_id (sa_from a)) (st_ledger st)))"
    using send_section_exact[OF assms(1,2) ledger_sys.inv_reachable[OF assms(3)] assms(4), of su tok names now now2] s by auto
  then show ?thesis using s old by (intro exI[of _ ps] exI[of _ acc] exI[of _ st'])
      (auto simp: closing_ok_def Let_def split: option.splits)
qed

theorem send_admits_exactly_witness:
  "\<exists>ps acc st'. send_section (\<lambda>_. []) (\<lambda>_. 0) w_args w_addr [] 0 0 messaging_state_new = (Inr (ps, acc, []), st') \<and>
     ps = row_verdicts w_args [] mailbox_new (contract_room ledger_new) (ad_recipients w_addr) \<and> cl_done (eq_closing acc) = None"
proof -
  have "ledger_reachable (st_ledger messaging_state_new)"
    using reach_init[of ledger_init ledger_new] ledger_init.intros[of HISTORY_CAPACITY] by (simp add: messaging_state_new_def ledger_new_def)
  then show ?thesis
    using send_admits_exactly[of "\<lambda>_. None" w_to w_args w_sources w_addr messaging_state_new "\<lambda>_. []" "\<lambda>_. 0" "[]" 0 0] w_run
    by (auto simp: w_args_def messaging_state_new_def ledger_new_def with_capacity_def msg_id_in_use_def send_meta_default_def)
qed

end
