(* ===== verification/Mask_Reason.thy ===== *)
theory Mask_Reason
  imports Eg_Prelude
begin

text \<open>
  Masking of text that a peer supplied, \<^verbatim>\<open>crates/engram-dashboard-transport/src/mask.rs\<close>: characters that
  hide or break lines are erased and the rest is cut to a number of bytes at a character boundary.
  A character is its Unicode scalar value.
\<close>

section \<open>Definitions\<close>

definition REASON_MAX_BYTES :: nat where
  "REASON_MAX_BYTES = 256"

definition ELLIPSIS :: uchar where
  "ELLIPSIS = 0x2026"

definition is_control :: "uchar \<Rightarrow> bool" where
  "is_control c \<longleftrightarrow> c \<le> 0x1F \<or> 0x7F \<le> c \<and> c \<le> 0x9F"

definition hides :: "uchar \<Rightarrow> bool" where
  "hides c \<longleftrightarrow> is_control c \<or> c \<in> {0x00AD, 0x034F, 0x061C, 0x3164, 0xFEFF, 0xFFA0} \<or>
     0x115F \<le> c \<and> c \<le> 0x1160 \<or> 0x17B4 \<le> c \<and> c \<le> 0x17B5 \<or> 0x180B \<le> c \<and> c \<le> 0x180F \<or>
     0x200B \<le> c \<and> c \<le> 0x200F \<or> 0x2028 \<le> c \<and> c \<le> 0x202E \<or> 0x2060 \<le> c \<and> c \<le> 0x206F \<or>
     0xFE00 \<le> c \<and> c \<le> 0xFE0F \<or> 0xFFF0 \<le> c \<and> c \<le> 0xFFFB \<or> 0x1BCA0 \<le> c \<and> c \<le> 0x1BCA3 \<or>
     0x1D173 \<le> c \<and> c \<le> 0x1D17A \<or> 0xE0000 \<le> c \<and> c \<le> 0xE0FFF"

text \<open>\<^verbatim>\<open>floor_char_boundary\<close> followed by \<^verbatim>\<open>truncate\<close>: the longest prefix of whole characters that fits.\<close>

fun truncate_floor :: "nat \<Rightarrow> ustr \<Rightarrow> ustr" where
  "truncate_floor n [] = []"
| "truncate_floor n (c # s) = (if utf8_char_len c \<le> n then c # truncate_floor (n - utf8_char_len c) s else [])"

definition mask_reason :: "ustr \<Rightarrow> ustr" where
  "mask_reason txt = (
     let out = filter (\<lambda>c. \<not> hides c) txt
     in if REASON_MAX_BYTES < utf8_len out
        then truncate_floor (REASON_MAX_BYTES - utf8_char_len ELLIPSIS) out @ [ELLIPSIS] else out)"

section \<open>Laws\<close>

lemma truncate_floor_len: "utf8_len (truncate_floor n s) \<le> n"
  by (induction n s rule: truncate_floor.induct) auto

lemma truncate_floor_prefix: "prefix (truncate_floor n s) s"
  by (induction n s rule: truncate_floor.induct) auto

lemma truncate_floor_tight:
  "n < utf8_len s \<Longrightarrow> n < utf8_len (truncate_floor n s) + 4"
proof (induction n s rule: truncate_floor.induct)
  case (2 n c s)
  show ?case
  proof (cases "utf8_char_len c \<le> n")
    case True
    with 2 show ?thesis by (simp add: less_diff_conv2 add.commute)
  next
    case False
    with utf8_char_len_bounds(2)[of c] show ?thesis by simp
  qed
qed simp

text \<open>Masked text is safe to carry in an event: no hiding or control character is left, it is at
  most 256 bytes, masking it again changes nothing, visible text that fits is kept as it is, and text
  that does not fit is a prefix of its visible characters (short of the limit by less than one
  character and the mark) followed by an ellipsis.\<close>

theorem mask_reason_exact:
  "filter hides (mask_reason t) = [] \<and> utf8_len (mask_reason t) \<le> REASON_MAX_BYTES \<and>
   mask_reason (mask_reason t) = mask_reason t \<and>
   (if utf8_len (filter (\<lambda>c. \<not> hides c) t) \<le> REASON_MAX_BYTES then mask_reason t = filter (\<lambda>c. \<not> hides c) t
    else \<exists>p. mask_reason t = p @ [ELLIPSIS] \<and> prefix p (filter (\<lambda>c. \<not> hides c) t) \<and> REASON_MAX_BYTES < utf8_len p + 7)"
proof -
  let ?v = "filter (\<lambda>c. \<not> hides c) t"
  let ?p = "truncate_floor (REASON_MAX_BYTES - utf8_char_len ELLIPSIS) ?v"
  have e: "\<not> hides ELLIPSIS" "utf8_char_len ELLIPSIS = 3"
    by (simp_all add: ELLIPSIS_def hides_def is_control_def utf8_char_len_def)
  have p: "prefix ?p ?v" "utf8_len ?p \<le> REASON_MAX_BYTES - 3"
    using truncate_floor_prefix truncate_floor_len[of "REASON_MAX_BYTES - 3" ?v] e by simp_all
  have vis: "\<forall>c \<in> set (mask_reason t). \<not> hides c"
    using e set_mono_prefix[OF p(1)] by (auto simp: mask_reason_def Let_def)
  have len: "utf8_len (mask_reason t) \<le> REASON_MAX_BYTES"
    using p(2) e by (auto simp: mask_reason_def Let_def REASON_MAX_BYTES_def)
  have "filter (\<lambda>c. \<not> hides c) (mask_reason t) = mask_reason t" using vis by (simp add: filter_id_conv)
  then have idem: "mask_reason (mask_reason t) = mask_reason t" using len by (simp add: mask_reason_def[of "mask_reason t"])
  have "REASON_MAX_BYTES < utf8_len ?p + 7" if "\<not> utf8_len ?v \<le> REASON_MAX_BYTES"
    using truncate_floor_tight[of "REASON_MAX_BYTES - 3" ?v] that e by (simp add: REASON_MAX_BYTES_def)
  then have "if utf8_len ?v \<le> REASON_MAX_BYTES then mask_reason t = ?v
      else mask_reason t = ?p @ [ELLIPSIS] \<and> REASON_MAX_BYTES < utf8_len ?p + 7"
    by (simp add: mask_reason_def[of t])
  then have "if utf8_len ?v \<le> REASON_MAX_BYTES then mask_reason t = ?v
      else \<exists>p. mask_reason t = p @ [ELLIPSIS] \<and> prefix p ?v \<and> REASON_MAX_BYTES < utf8_len p + 7"
    using p(1) by metis
  moreover have "filter hides (mask_reason t) = []" using vis by (simp add: filter_empty_conv)
  ultimately show ?thesis using len idem by blast
qed

end
