(* ===== verification/Conn_Policy.thy ===== *)
theory Conn_Policy
  imports Eg_Prelude
begin

text \<open>
  The policy of one connection, \<^verbatim>\<open>crates/engram-dashboard-transport/src/policy.rs\<close>: its fields, its defaults
  and the check a consumer runs on a policy it read. The two floating-point fields of the reconnect
  policy are present as the outcome of the tests \<^verbatim>\<open>check\<close> makes on them and as the delay function they
  define (retry number and jitter draw in millionths to a wait); nothing depends on its values.
\<close>

definition millis :: "nat \<Rightarrow> duration" where
  "millis n = n * 1000000"

definition MIN_BACKOFF :: duration where
  "MIN_BACKOFF = millis 1"

datatype queue_full_policy = FullDisconnect | DropAndReport

datatype decode_failure_policy = DropFrame | DecodeDisconnect

record reconnect_policy =
  rp_max_attempts :: u32
  rp_base :: duration
  rp_cap :: duration
  rp_multiplier_sane :: bool
  rp_jitter_sane :: bool
  rp_delay :: "u32 \<Rightarrow> u64 \<Rightarrow> duration"

definition reconnect_default :: "(u32 \<Rightarrow> u64 \<Rightarrow> duration) \<Rightarrow> reconnect_policy" where
  "reconnect_default delay = \<lparr>rp_max_attempts = 3, rp_base = millis 500, rp_cap = 10 * nanos_per_sec,
     rp_multiplier_sane = True, rp_jitter_sane = True, rp_delay = delay\<rparr>"

record conn_policy =
  cp_request_timeout :: duration
  cp_connect_timeout :: duration
  cp_write_deadline :: duration
  cp_ping_interval :: duration
  cp_idle_timeout :: duration
  cp_live_dwell :: duration
  cp_reconnect :: reconnect_policy
  cp_outbound_queue :: nat
  cp_inbound_queue :: nat
  cp_frame_buffer :: nat
  cp_full_queue :: queue_full_policy
  cp_decode_failure :: decode_failure_policy
  cp_retired_tags :: nat
  cp_max_streams :: nat
  cp_resume_timeout :: duration
  cp_resume_buffer :: nat
  cp_flush_timeout :: duration

definition policy_default :: "(u32 \<Rightarrow> u64 \<Rightarrow> duration) \<Rightarrow> conn_policy" where
  "policy_default delay = \<lparr>
     cp_request_timeout = 8 * nanos_per_sec,
     cp_connect_timeout = 10 * nanos_per_sec,
     cp_write_deadline = 5 * nanos_per_sec,
     cp_ping_interval = 20 * nanos_per_sec,
     cp_idle_timeout = 50 * nanos_per_sec,
     cp_live_dwell = 30 * nanos_per_sec,
     cp_reconnect = reconnect_default delay,
     cp_outbound_queue = 512,
     cp_inbound_queue = 512,
     cp_frame_buffer = 512,
     cp_full_queue = FullDisconnect,
     cp_decode_failure = DropFrame,
     cp_retired_tags = 256,
     cp_max_streams = 1024,
     cp_resume_timeout = 2 * nanos_per_sec,
     cp_resume_buffer = 256,
     cp_flush_timeout = 2 * nanos_per_sec\<rparr>"

text \<open>The item that is off, in the order the code tests them.\<close>

datatype policy_fault = WriteNotBelowPing | IdleNotAbovePing | ZeroQueue | ZeroStreams | ZeroFlush
  | BaseBelowFloor | CapBelowBase | BadMultiplier | BadJitter

definition policy_check :: "conn_policy \<Rightarrow> policy_fault + unit" where
  "policy_check p = (
     if cp_ping_interval p \<le> cp_write_deadline p then Inl WriteNotBelowPing
     else if cp_idle_timeout p \<le> cp_ping_interval p then Inl IdleNotAbovePing
     else if cp_outbound_queue p = 0 \<or> cp_inbound_queue p = 0 \<or> cp_frame_buffer p = 0 then Inl ZeroQueue
     else if cp_max_streams p = 0 \<or> cp_resume_buffer p = 0 then Inl ZeroStreams
     else if cp_flush_timeout p = 0 then Inl ZeroFlush
     else if rp_base (cp_reconnect p) < MIN_BACKOFF then Inl BaseBelowFloor
     else if rp_cap (cp_reconnect p) < rp_base (cp_reconnect p) then Inl CapBelowBase
     else if \<not> rp_multiplier_sane (cp_reconnect p) then Inl BadMultiplier
     else if \<not> rp_jitter_sane (cp_reconnect p) then Inl BadJitter
     else Inr ())"

lemma default_checks: "policy_check (policy_default delay) = Inr ()"
  by (simp add: policy_check_def policy_default_def reconnect_default_def MIN_BACKOFF_def millis_def)

lemma checked_ping: "policy_check p = Inr () \<Longrightarrow> cp_write_deadline p < cp_ping_interval p \<and> cp_ping_interval p < cp_idle_timeout p"
  by (simp add: policy_check_def split: if_splits)

end
