(* ===== verification/Conn_Machine.thy ===== *)
theory Conn_Machine
  imports Mask_Reason Conn_Policy
begin

text \<open>
  The state machine of one connection, \<^verbatim>\<open>crates/engram-dashboard-transport/src/machine.rs\<close>, with the close
  codes of \<^verbatim>\<open>frame.rs\<close>. The machine is pure: it takes the time and an input and returns a list of actions.
\<close>

unbundle bit_operations_syntax

section \<open>Vocabulary\<close>

type_synonym generation = u64
type_synonym close_code = u16

definition GOING_AWAY :: close_code where "GOING_AWAY = 4000"
definition HANDSHAKE_REJECTED :: close_code where "HANDSHAKE_REJECTED = 4001"
definition KEEPALIVE_TIMEOUT :: close_code where "KEEPALIVE_TIMEOUT = 4002"
definition WRITE_DEADLINE :: close_code where "WRITE_DEADLINE = 4003"
definition QUEUE_FULL :: close_code where "QUEUE_FULL = 4004"

datatype reject_kind = Terminal | Retryable

datatype gave_up_reason = GaveUpRejected | BudgetExhausted

datatype peer_state = PsIdle | Dialing | Handshaking | Live | Backoff | GaveUp gave_up_reason | PsClosed

fun conn_is_live :: "peer_state \<Rightarrow> bool" where
  "conn_is_live Live = True"
| "conn_is_live _ = False"

fun conn_is_terminal :: "peer_state \<Rightarrow> bool" where
  "conn_is_terminal (GaveUp _) = True"
| "conn_is_terminal PsClosed = True"
| "conn_is_terminal _ = False"

datatype disconnect_cause = PeerClosed | ReadFailed | WriteFailed | IdleTimeout | WriteDeadline | SlowQueue | Explicit

fun cause_close_code :: "disconnect_cause \<Rightarrow> close_code" where
  "cause_close_code IdleTimeout = KEEPALIVE_TIMEOUT"
| "cause_close_code WriteDeadline = WRITE_DEADLINE"
| "cause_close_code SlowQueue = QUEUE_FULL"
| "cause_close_code _ = GOING_AWAY"

datatype connect_failure = Unreachable ustr | FailRejected reject_kind close_code ustr

fun masked :: "connect_failure \<Rightarrow> connect_failure" where
  "masked (FailRejected kind code reason) = FailRejected kind code (mask_reason reason)"
| "masked (Unreachable msg) = Unreachable (mask_reason msg)"

datatype conn_input = Start | Dialed | Connected generation | ConnectFailed connect_failure
  | LinkLost disconnect_cause | BackoffElapsed | ReconnectNow | Close

datatype machine_event = EvConnected generation | EvDisconnected generation disconnect_cause
  | EvConnectFailed u32 u32 connect_failure "duration option" | EvRejected close_code ustr | EvGaveUp gave_up_reason

datatype conn_action = ActDial instant | ActHandshake instant | DropLink close_code | Wait instant
  | FailPending disconnect_cause | Emit machine_event

record machine =
  mc_state :: peer_state
  mc_generation :: u64
  mc_retries :: u32
  mc_flaps :: u32
  mc_policy :: conn_policy
  mc_connect_deadline :: instant
  mc_live_since :: "instant option"
  mc_epoch :: instant
  mc_jitter_seed :: u64

section \<open>Transitions\<close>

definition machine_new :: "conn_policy \<Rightarrow> u64 \<Rightarrow> instant \<Rightarrow> u64 \<Rightarrow> machine" where
  "machine_new policy seed created floor = \<lparr>mc_state = PsIdle, mc_generation = floor, mc_retries = 0, mc_flaps = 0,
     mc_policy = policy, mc_connect_deadline = created, mc_live_since = None, mc_epoch = created, mc_jitter_seed = seed\<rparr>"

definition saturating_inc :: "u32 \<Rightarrow> u32" where
  "saturating_inc n = (if n = - 1 then n else n + 1)"

definition conn_dial :: "instant \<Rightarrow> machine \<Rightarrow> conn_action list \<times> machine" where
  "conn_dial now m = (
     let deadline = now + cp_connect_timeout (mc_policy m)
     in ([ActDial deadline], m\<lparr>mc_state := Dialing, mc_connect_deadline := deadline\<rparr>))"

text \<open>The jitter draw; the code divides it by a million.\<close>

definition jitter_nudge :: "instant \<Rightarrow> machine \<Rightarrow> u64" where
  "jitter_nudge now m = (
     let nanos = of_nat ((now - mc_epoch m) mod nanos_per_sec) :: u64;
         mixed = (nanos XOR word_rotl 17 (mc_jitter_seed m)) XOR (mc_generation m * 0x9E3779B97F4A7C15)
     in mixed mod 1000000)"

definition schedule_retry :: "instant \<Rightarrow> connect_failure option \<Rightarrow> machine \<Rightarrow> conn_action list \<times> machine" where
  "schedule_retry now cause m = (
     let cap = rp_max_attempts (cp_reconnect (mc_policy m))
     in if cap \<le> mc_retries m \<or> cap \<le> mc_flaps m
        then ((case cause of None \<Rightarrow> [] | Some c \<Rightarrow> [Emit (EvConnectFailed (mc_retries m) cap c None)]) @ [Emit (EvGaveUp BudgetExhausted)],
              m\<lparr>mc_state := GaveUp BudgetExhausted\<rparr>)
        else
          let delay = rp_delay (cp_reconnect (mc_policy m)) (mc_retries m) (jitter_nudge now m);
              attempt = mc_retries m + 1
          in ((case cause of None \<Rightarrow> [] | Some c \<Rightarrow> [Emit (EvConnectFailed attempt cap c (Some delay))]) @ [Wait (now + delay)],
              m\<lparr>mc_retries := attempt, mc_state := Backoff\<rparr>))"

definition on_connect_failed :: "instant \<Rightarrow> connect_failure \<Rightarrow> machine \<Rightarrow> conn_action list \<times> machine" where
  "on_connect_failed now cause m = (case cause of
     FailRejected Terminal code reason \<Rightarrow>
       ([FailPending PeerClosed, Emit (EvRejected code (mask_reason reason)), Emit (EvGaveUp GaveUpRejected), DropLink HANDSHAKE_REJECTED],
        m\<lparr>mc_state := GaveUp GaveUpRejected, mc_live_since := None\<rparr>)
   | retry \<Rightarrow>
       (let (acts, m') = schedule_retry now (Some (masked retry)) m in (DropLink GOING_AWAY # acts, m')))"

text \<open>\<open>Close\<close> and \<open>ReconnectNow\<close> report a connection that was live and drop the link.\<close>

definition cut_actions :: "machine \<Rightarrow> conn_action list" where
  "cut_actions m = [FailPending Explicit] @
     (if conn_is_live (mc_state m) then [Emit (EvDisconnected (mc_generation m) Explicit)] else []) @ [DropLink GOING_AWAY]"

definition note_dwell :: "instant \<Rightarrow> machine \<Rightarrow> machine" where
  "note_dwell now m = (
     let m1 = m\<lparr>mc_live_since := None\<rparr>
     in case mc_live_since m of
          None \<Rightarrow> m1
        | Some since \<Rightarrow>
            if cp_live_dwell (mc_policy m) \<le> now - since then m1\<lparr>mc_flaps := 0\<rparr>
            else m1\<lparr>mc_flaps := saturating_inc (mc_flaps m)\<rparr>)"

definition on_input :: "instant \<Rightarrow> conn_input \<Rightarrow> machine \<Rightarrow> conn_action list \<times> machine" where
  "on_input now inp m = (
     if mc_state m = PsClosed then ([], m)
     else case inp of
       Close \<Rightarrow> (cut_actions m, m\<lparr>mc_state := PsClosed, mc_live_since := None\<rparr>)
     | Start \<Rightarrow> (if mc_state m = PsIdle then conn_dial now (m\<lparr>mc_retries := 0, mc_flaps := 0\<rparr>) else ([], m))
     | ReconnectNow \<Rightarrow>
         (let (acts, m') = conn_dial now (m\<lparr>mc_retries := 0, mc_flaps := 0, mc_live_since := None\<rparr>) in (cut_actions m @ acts, m'))
     | BackoffElapsed \<Rightarrow> (if mc_state m = Backoff then conn_dial now m else ([], m))
     | Dialed \<Rightarrow> (if mc_state m = Dialing then ([ActHandshake (mc_connect_deadline m)], m\<lparr>mc_state := Handshaking\<rparr>) else ([], m))
     | Connected g \<Rightarrow>
         (if mc_state m = Handshaking
          then ([Emit (EvConnected g)], m\<lparr>mc_retries := 0, mc_live_since := Some now, mc_generation := g, mc_state := Live\<rparr>) else ([], m))
     | ConnectFailed cause \<Rightarrow>
         (if mc_state m = Dialing \<or> mc_state m = Handshaking then on_connect_failed now cause m else ([], m))
     | LinkLost cause \<Rightarrow>
         (if mc_state m = Live
          then (let (acts, m') = schedule_retry now None (note_dwell now m)
                in ([FailPending cause, Emit (EvDisconnected (mc_generation m) cause), DropLink (cause_close_code cause)] @ acts, m'))
          else ([], m)))"

section \<open>Runs\<close>

text \<open>The machine fed with a sequence of timed inputs.\<close>

fun conn_run :: "(instant \<times> conn_input) list \<Rightarrow> machine \<Rightarrow> conn_action list \<times> machine" where
  "conn_run [] m = ([], m)"
| "conn_run ((now, inp) # rest) m = (
     let (acts, m1) = on_input now inp m; (acts', m2) = conn_run rest m1 in (acts @ acts', m2))"

text \<open>The sessions a consumer sees: the state is the generation reported as connected and not yet as
  disconnected; \<open>None\<close> is a report that does not fit.\<close>

fun sessions :: "u64 option \<Rightarrow> conn_action list \<Rightarrow> u64 option option" where
  "sessions s [] = Some s"
| "sessions s (Emit (EvConnected g) # acts) = (if s = None then sessions (Some g) acts else None)"
| "sessions s (Emit (EvDisconnected g c) # acts) = (if s = Some g then sessions None acts else None)"
| "sessions s (_ # acts) = sessions s acts"

definition open_session :: "machine \<Rightarrow> u64 option" where
  "open_session m = (if mc_state m = Live then Some (mc_generation m) else None)"

abbreviation max_attempts :: "machine \<Rightarrow> nat" where
  "max_attempts m \<equiv> unat (rp_max_attempts (cp_reconnect (mc_policy m)))"

definition machine_inv :: "machine \<Rightarrow> bool" where
  "machine_inv m \<longleftrightarrow> (mc_live_since m \<noteq> None \<longleftrightarrow> mc_state m = Live) \<and> (mc_state m = Live \<longrightarrow> mc_retries m = 0) \<and> unat (mc_retries m) \<le> max_attempts m \<and>
     unat (mc_flaps m) \<le> max 1 (max_attempts m) \<and> (conn_is_terminal (mc_state m) \<or> unat (mc_flaps m) < max 1 (max_attempts m))"

lemma sessions_append: "sessions s (a @ b) = Option.bind (sessions s a) (\<lambda>s'. sessions s' b)"
  by (induction s a rule: sessions.induct) auto

lemma retry_sessions: "sessions s (fst (schedule_retry now c m)) = Some s"
  by (auto simp: schedule_retry_def Let_def split: option.splits)

lemma retry_state:
  "mc_policy (snd (schedule_retry now c m)) = mc_policy m"
  "mc_live_since (snd (schedule_retry now c m)) = mc_live_since m"
  "mc_flaps (snd (schedule_retry now c m)) = mc_flaps m"
  "mc_state (snd (schedule_retry now c m)) \<in> {Backoff, GaveUp BudgetExhausted}"
  by (auto simp: schedule_retry_def Let_def)

lemma retry_budget:
  "mc_state (snd (schedule_retry now c m)) = Backoff \<Longrightarrow>
     unat (mc_retries (snd (schedule_retry now c m))) = Suc (unat (mc_retries m)) \<and>
     Suc (unat (mc_retries m)) \<le> max_attempts m \<and> unat (mc_flaps m) < max_attempts m"
  "mc_state (snd (schedule_retry now c m)) \<noteq> Backoff \<Longrightarrow> mc_retries (snd (schedule_retry now c m)) = mc_retries m"
proof -
  let ?cap = "rp_max_attempts (cp_reconnect (mc_policy m))"
  have "unat (mc_retries m + 1) = Suc (unat (mc_retries m))" if "mc_retries m < ?cap"
    using that unat_bound[of ?cap] by (intro unat_Suc_no_wrap) (simp add: word_less_nat_alt)
  then show "mc_state (snd (schedule_retry now c m)) = Backoff \<Longrightarrow>
     unat (mc_retries (snd (schedule_retry now c m))) = Suc (unat (mc_retries m)) \<and>
     Suc (unat (mc_retries m)) \<le> max_attempts m \<and> unat (mc_flaps m) < max_attempts m"
    by (auto simp: schedule_retry_def Let_def word_less_nat_alt word_le_nat_alt not_le split: if_splits)
qed (auto simp: schedule_retry_def Let_def split: if_splits)

lemma dwell_flaps:
  "unat (mc_flaps (note_dwell now m)) \<le> Suc (unat (mc_flaps m))"
  "mc_live_since (note_dwell now m) = None" "mc_policy (note_dwell now m) = mc_policy m"
  "mc_retries (note_dwell now m) = mc_retries m"
proof -
  have "unat (saturating_inc n) \<le> Suc (unat n)" for n
    by (cases "n = - 1") (simp_all add: saturating_inc_def unat_word_ariths(1))
  then show "unat (mc_flaps (note_dwell now m)) \<le> Suc (unat (mc_flaps m))"
    by (simp add: note_dwell_def Let_def split: option.splits)
qed (simp_all add: note_dwell_def Let_def split: option.splits)

lemma cut_sessions: "sessions (open_session m) (cut_actions m) = Some None"
  by (cases "mc_state m") (auto simp: cut_actions_def open_session_def)

lemma failed_sessions: "sessions s (fst (on_connect_failed now c m)) = Some s"
  using retry_sessions[of s now _ m]
  by (auto simp: on_connect_failed_def case_prod_beta split: connect_failure.splits reject_kind.splits)

lemma failed_state:
  "mc_policy (snd (on_connect_failed now c m)) = mc_policy m"
  "mc_state (snd (on_connect_failed now c m)) \<in> {Backoff, GaveUp BudgetExhausted, GaveUp GaveUpRejected}"
  using retry_state[of now _ m]
  by (auto simp: on_connect_failed_def case_prod_beta split: connect_failure.splits reject_kind.splits)

lemma step_sessions:
  "sessions (open_session m) (fst (on_input now inp m)) = Some (open_session (snd (on_input now inp m)))"
proof (cases "mc_state m = PsClosed")
  case True
  then show ?thesis by (simp add: on_input_def)
next
  case False
  have nl: "open_session (snd (schedule_retry now c x)) = None" for c x
    using retry_state(4)[of now c x] by (auto simp: open_session_def)
  show ?thesis
  proof (cases inp)
    case (ConnectFailed c)
    then show ?thesis using False failed_state(2)[of now c m] failed_sessions[of None now c m] by (auto simp: on_input_def open_session_def)
  next
    case (LinkLost c)
    then show ?thesis
      using False nl[of None "note_dwell now m"] retry_sessions[of None now None "note_dwell now m"]
      by (simp add: on_input_def case_prod_beta) (auto simp: open_session_def)
  qed (use False cut_sessions[of m] in \<open>auto simp: on_input_def conn_dial_def Let_def sessions_append open_session_def\<close>)
qed

lemma retry_inv:
  assumes "mc_live_since m = None" "unat (mc_retries m) \<le> max_attempts m" "unat (mc_flaps m) \<le> max 1 (max_attempts m)"
  shows "machine_inv (snd (schedule_retry now c m))"
proof (cases "mc_state (snd (schedule_retry now c m)) = Backoff")
  case True
  then show ?thesis using assms retry_budget(1)[OF True] by (simp add: machine_inv_def retry_state)
next
  case False
  then have "mc_state (snd (schedule_retry now c m)) = GaveUp BudgetExhausted" using retry_state(4)[of now c m] by simp
  then show ?thesis using assms retry_budget(2)[OF False] by (simp add: machine_inv_def retry_state)
qed

lemma step_inv:
  assumes "machine_inv m"
  shows "machine_inv (snd (on_input now inp m))" "mc_policy (snd (on_input now inp m)) = mc_policy m"
proof -
  have "machine_inv (snd (on_input now inp m)) \<and> mc_policy (snd (on_input now inp m)) = mc_policy m"
  proof (cases "mc_state m = PsClosed")
    case True
    with assms show ?thesis by (simp add: on_input_def)
  next
    case False
    show ?thesis
    proof (cases inp)
      case (ConnectFailed c)
      have "machine_inv (snd (schedule_retry now d m))" if "mc_state m = Dialing \<or> mc_state m = Handshaking" for d
        using assms that by (intro retry_inv) (auto simp: machine_inv_def)
      with ConnectFailed False assms show ?thesis
        by (auto simp: on_input_def on_connect_failed_def case_prod_beta machine_inv_def retry_state
            split: connect_failure.splits reject_kind.splits)
    next
      case (LinkLost c)
      have "machine_inv (snd (schedule_retry now None (note_dwell now m)))" if "mc_state m = Live"
        using assms that dwell_flaps[of now m] by (intro retry_inv) (auto simp: machine_inv_def)
      with LinkLost False assms show ?thesis
        by (auto simp: on_input_def case_prod_beta retry_state dwell_flaps)
    qed (use False assms in \<open>auto simp: on_input_def conn_dial_def Let_def machine_inv_def\<close>)
  qed
  then show "machine_inv (snd (on_input now inp m))" "mc_policy (snd (on_input now inp m)) = mc_policy m" by simp_all
qed

lemma run_inv:
  "machine_inv m \<Longrightarrow> machine_inv (snd (conn_run ins m)) \<and> mc_policy (snd (conn_run ins m)) = mc_policy m \<and>
     sessions (open_session m) (fst (conn_run ins m)) = Some (open_session (snd (conn_run ins m)))"
proof (induction ins arbitrary: m)
  case (Cons x ins)
  obtain now inp where x: "x = (now, inp)" by (cases x)
  show ?case
    using Cons.IH[OF step_inv(1)[OF Cons.prems, of now inp]] step_inv(2)[OF Cons.prems, of now inp] step_sessions[of m now inp]
    by (simp add: x Let_def case_prod_beta sessions_append)
qed simp

lemma new_inv: "machine_inv (machine_new policy seed created floor)"
  by (simp add: machine_inv_def machine_new_def)

section \<open>The reconnect budget\<close>

fun is_dial :: "conn_action \<Rightarrow> bool" where
  "is_dial (ActDial _) = True"
| "is_dial _ = False"

abbreviation dials :: "conn_action list \<Rightarrow> nat" where
  "dials acts \<equiv> length (filter is_dial acts)"

text \<open>Nobody asks for a reconnect, and every connection that is lost is lost before it has lasted
  \<^verbatim>\<open>live_dwell\<close>.\<close>

definition unattended :: "instant \<Rightarrow> conn_input \<Rightarrow> machine \<Rightarrow> bool" where
  "unattended now inp m \<longleftrightarrow> inp \<noteq> ReconnectNow \<and>
     (\<forall>c since. inp = LinkLost c \<longrightarrow> mc_live_since m = Some since \<longrightarrow> now - since < cp_live_dwell (mc_policy m))"

fun run_unattended :: "(instant \<times> conn_input) list \<Rightarrow> machine \<Rightarrow> bool" where
  "run_unattended [] m = True"
| "run_unattended ((now, inp) # rest) m = (unattended now inp m \<and> run_unattended rest (snd (on_input now inp m)))"

text \<open>How many dials a machine can still make without help.\<close>

definition dial_budget :: "machine \<Rightarrow> nat" where
  "dial_budget m = (
     let n = max_attempts m; base = (n - 1 - unat (mc_flaps m)) * n; tries = n - unat (mc_retries m)
     in case mc_state m of PsIdle \<Rightarrow> n * n + 1 | Dialing \<Rightarrow> base + tries | Handshaking \<Rightarrow> base + tries | Live \<Rightarrow> base
        | Backoff \<Rightarrow> base + tries + 1 | _ \<Rightarrow> 0)"

lemma dial_budget_ends:
  "conn_is_terminal (mc_state m) \<Longrightarrow> dial_budget m = 0"
  "dial_budget (machine_new policy seed created floor) =
     unat (rp_max_attempts (cp_reconnect policy)) * unat (rp_max_attempts (cp_reconnect policy)) + 1"
  by (cases "mc_state m") (simp_all add: dial_budget_def machine_new_def Let_def)

lemma retry_dials: "dials (fst (schedule_retry now c m)) = 0"
  by (auto simp: schedule_retry_def Let_def split: option.splits)

lemma retry_dial_budget:
  "dial_budget (snd (schedule_retry now c m)) \<le> (max_attempts m - 1 - unat (mc_flaps m)) * max_attempts m + (max_attempts m - unat (mc_retries m))"
proof (cases "mc_state (snd (schedule_retry now c m)) = Backoff")
  case True
  note b = retry_budget(1)[OF True]
  then have "Suc (unat (mc_retries m)) \<le> max_attempts m" by simp
  then obtain k where "max_attempts m = Suc (unat (mc_retries m)) + k" using le_Suc_ex by blast
  with True b show ?thesis by (simp add: dial_budget_def retry_state Let_def)
next
  case False
  then show ?thesis using retry_state(4)[of now c m] by (simp add: dial_budget_def)
qed

lemma lost_dial_budget:
  assumes "machine_inv m" "mc_state m = Live" "unattended now (LinkLost c) m"
  shows "dial_budget (snd (schedule_retry now None (note_dwell now m))) \<le> dial_budget m"
proof -
  let ?n = "max_attempts m" and ?m = "note_dwell now m"
  obtain since where s: "mc_live_since m = Some since" using assms(1,2) by (auto simp: machine_inv_def)
  have f: "unat (mc_flaps m) < max 1 ?n" and r: "mc_retries m = 0" using assms(1,2) by (auto simp: machine_inv_def)
  have "unat (mc_flaps m) < 2 ^ LENGTH(32) - 1"
    using f unat_bound[of "rp_max_attempts (cp_reconnect (mc_policy m))"] by simp
  then have "unat (mc_flaps ?m) = Suc (unat (mc_flaps m))"
    using assms(3) s unat_Suc_no_wrap[of "mc_flaps m"]
    by (auto simp: note_dwell_def Let_def unattended_def saturating_inc_def)
  then show ?thesis
  proof (cases "mc_state (snd (schedule_retry now None ?m)) = Backoff")
    case True
    from retry_budget(1)[OF True] have b: "Suc (unat (mc_flaps m)) < ?n"
      using \<open>unat (mc_flaps ?m) = Suc (unat (mc_flaps m))\<close> by (simp add: dwell_flaps)
    then obtain k where k: "?n = Suc (Suc (unat (mc_flaps m) + k))" using less_iff_Suc_add by auto
    show ?thesis
      using retry_budget(1)[OF True] \<open>unat (mc_flaps ?m) = Suc (unat (mc_flaps m))\<close> assms(2) r
      by (simp add: dial_budget_def retry_state dwell_flaps Let_def True k)
  next
    case False
    then show ?thesis using retry_state(4)[of now None ?m] by (simp add: dial_budget_def)
  qed
qed

lemma step_dials:
  assumes "machine_inv m" "unattended now inp m"
  shows "dials (fst (on_input now inp m)) + dial_budget (snd (on_input now inp m)) \<le> dial_budget m"
proof (cases "mc_state m = PsClosed")
  case True
  then show ?thesis by (simp add: on_input_def)
next
  case False
  have cut: "dials (cut_actions m) = 0" by (simp add: cut_actions_def)
  have full: "(n - 1) * n + n = n * n" for n :: nat by (cases n) auto
  show ?thesis
  proof (cases inp)
    case (ConnectFailed c)
    then show ?thesis
      using False retry_dials[of now _ m] retry_dial_budget[of now _ m]
      by (auto simp: on_input_def on_connect_failed_def case_prod_beta dial_budget_def[of m] dial_budget_def[of "m\<lparr>mc_state := GaveUp GaveUpRejected, mc_live_since := None\<rparr>"] Let_def
          split: connect_failure.splits reject_kind.splits)
  next
    case (LinkLost c)
    then show ?thesis
      using False lost_dial_budget[OF assms(1)] assms(2) retry_dials[of now None "note_dwell now m"]
      by (auto simp: on_input_def case_prod_beta)
  next
    case (Connected g)
    then show ?thesis using False by (cases "mc_state m = Handshaking") (simp_all add: on_input_def, simp add: dial_budget_def Let_def)
  next
    case Start
    then show ?thesis
      using False full by (cases "mc_state m = PsIdle") (simp_all add: on_input_def, simp add: conn_dial_def dial_budget_def Let_def)
  qed (use False assms(2) cut in \<open>auto simp: on_input_def conn_dial_def dial_budget_def unattended_def Let_def split: peer_state.splits\<close>)
qed

lemma run_dials:
  "machine_inv m \<Longrightarrow> run_unattended ins m \<Longrightarrow> dials (fst (conn_run ins m)) + dial_budget (snd (conn_run ins m)) \<le> dial_budget m"
proof (induction ins arbitrary: m)
  case (Cons x ins)
  obtain now inp where x: "x = (now, inp)" by (cases x)
  show ?case
    using Cons.IH[OF step_inv(1)[OF Cons.prems(1), of now inp]] Cons.prems(2) step_dials[OF Cons.prems(1), of now inp]
    by (simp add: x Let_def case_prod_beta)
qed simp

section \<open>Properties\<close>

text \<open>C33. What a machine reports is a well-formed sequence of sessions: whatever inputs arrive and in
  whatever order, every connection it announces is followed by exactly one disconnect report of the
  same generation before the next one is announced, a session is open exactly while the machine is
  live, and neither budget counter passes its limit.\<close>

theorem sessions_well_formed:
  fixes ins policy seed created floor
  defines "r \<equiv> conn_run ins (machine_new policy seed created floor)"
  shows "sessions None (fst r) = Some (if mc_state (snd r) = Live then Some (mc_generation (snd r)) else None) \<and>
     (mc_live_since (snd r) \<noteq> None \<longleftrightarrow> mc_state (snd r) = Live) \<and>
     unat (mc_retries (snd r)) \<le> unat (rp_max_attempts (cp_reconnect policy)) \<and>
     unat (mc_flaps (snd r)) \<le> max 1 (unat (rp_max_attempts (cp_reconnect policy)))"
  using run_inv[OF new_inv, of ins policy seed created floor]
  unfolding r_def[symmetric] by (auto simp: machine_inv_def open_session_def machine_new_def)

text \<open>C34. An unattended machine stops dialing: as long as nobody asks for a reconnect and no connection
  lasts \<^verbatim>\<open>live_dwell\<close>, it dials at most \<open>n * n + 1\<close> times in its whole life, where \<open>n\<close> is the number of
  retries the policy allows, whichever way the attempts fail and however often it connects in between;
  once it has given up or closed it never dials again unless asked.\<close>

theorem unattended_gives_up:
  assumes "run_unattended ins (machine_new policy seed created floor)"
  shows "length (filter is_dial (fst (conn_run ins (machine_new policy seed created floor)))) \<le>
       unat (rp_max_attempts (cp_reconnect policy)) * unat (rp_max_attempts (cp_reconnect policy)) + 1 \<and>
     (conn_is_terminal (mc_state (snd (conn_run ins (machine_new policy seed created floor)))) \<longrightarrow>
       run_unattended later (snd (conn_run ins (machine_new policy seed created floor))) \<longrightarrow>
       filter is_dial (fst (conn_run later (snd (conn_run ins (machine_new policy seed created floor))))) = [])"
proof -
  let ?m0 = "machine_new policy seed created floor"
  let ?m = "snd (conn_run ins ?m0)"
  have "dials (fst (conn_run later ?m)) = 0" if "conn_is_terminal (mc_state ?m)" "run_unattended later ?m"
  proof -
    from dial_budget_ends(1)[OF that(1)] run_dials[OF _ that(2)] run_inv[OF new_inv, of ins policy seed created floor] show ?thesis by simp
  qed
  then show ?thesis using run_dials[OF new_inv assms] by (auto simp: dial_budget_ends(2))
qed

definition w_conn_policy :: conn_policy where
  "w_conn_policy = (policy_default (\<lambda>_ _. 5))\<lparr>cp_live_dwell := 30, cp_reconnect := (reconnect_default (\<lambda>_ _. 5))\<lparr>rp_max_attempts := 1\<rparr>\<rparr>"

definition w_conn_inputs :: "(instant \<times> conn_input) list" where
  "w_conn_inputs = [(0, Start), (1, ConnectFailed (Unreachable [])), (6, BackoffElapsed), (7, Dialed), (8, Connected 1), (9, LinkLost ReadFailed)]"

theorem unattended_gives_up_witness:
  "length (filter is_dial (fst (conn_run w_conn_inputs (machine_new w_conn_policy 0 0 0)))) \<le> 2 \<and>
   filter is_dial (fst (conn_run [(20, BackoffElapsed)] (snd (conn_run w_conn_inputs (machine_new w_conn_policy 0 0 0))))) = []"
proof -
  have u: "run_unattended w_conn_inputs (machine_new w_conn_policy 0 0 0)"
    "mc_state (snd (conn_run w_conn_inputs (machine_new w_conn_policy 0 0 0))) = GaveUp BudgetExhausted"
    by (simp_all add: w_conn_inputs_def w_conn_policy_def policy_default_def reconnect_default_def machine_new_def on_input_def conn_dial_def on_connect_failed_def
        schedule_retry_def note_dwell_def saturating_inc_def unattended_def Let_def)
  then show ?thesis
    using unattended_gives_up[OF u(1), of "[(20, BackoffElapsed)]"] by (simp add: w_conn_policy_def policy_default_def reconnect_default_def unattended_def)
qed

end
