(* ===== verification/Pending_Table.thy ===== *)
theory Pending_Table
  imports Eg_Prelude
begin

text \<open>
  Request and response correlation, \<^verbatim>\<open>crates/engram-dashboard-transport/src/pending.rs\<close>: the table of
  waiting requests and the bounded ring of retired numbers. Tags and waking handles are type
  variables, as in the code. A waking handle that an operation returns is one its caller wakes.
\<close>

section \<open>The ring of retired numbers\<close>

record 't retired_ring =
  rr_order :: "'t list"
  rr_set :: "'t set"
  rr_cap :: nat

definition ring_new :: "nat \<Rightarrow> 't retired_ring" where
  "ring_new cap = \<lparr>rr_order = [], rr_set = {}, rr_cap = cap\<rparr>"

fun ring_trim :: "nat \<Rightarrow> 't list \<Rightarrow> 't set \<Rightarrow> 't list \<times> 't set" where
  "ring_trim cap [] s = ([], s)"
| "ring_trim cap (old # order) s = (if cap < length (old # order) then ring_trim cap order (s - {old}) else (old # order, s))"

definition ring_insert :: "'t \<Rightarrow> 't retired_ring \<Rightarrow> 't retired_ring" where
  "ring_insert tag r = (
     if rr_cap r = 0 \<or> tag \<in> rr_set r then r
     else let (order, s) = ring_trim (rr_cap r) (rr_order r @ [tag]) (insert tag (rr_set r)) in r\<lparr>rr_order := order, rr_set := s\<rparr>)"

definition ring_contains :: "'t \<Rightarrow> 't retired_ring \<Rightarrow> bool" where
  "ring_contains tag r \<longleftrightarrow> tag \<in> rr_set r"

definition ring_len :: "'t retired_ring \<Rightarrow> nat" where
  "ring_len r = length (rr_order r)"

section \<open>The table\<close>

datatype 's insert_result = Placed | Collided 's 's | Retired 's

record 's waiter =
  wt_slot :: 's
  wt_deadline :: instant

record ('t, 's) pending =
  pn_waiting :: "('t \<times> 's waiter) list"
  pn_retired :: "'t retired_ring"

definition pending_new :: "nat \<Rightarrow> ('t, 's) pending" where
  "pending_new retired_cap = \<lparr>pn_waiting = [], pn_retired = ring_new retired_cap\<rparr>"

definition pending_insert :: "'t \<Rightarrow> 's \<Rightarrow> instant \<Rightarrow> ('t, 's) pending \<Rightarrow> 's insert_result \<times> ('t, 's) pending" where
  "pending_insert tag slot deadline p = (
     if ring_contains tag (pn_retired p) then (Retired slot, p)
     else case map_of (pn_waiting p) tag of
            Some old \<Rightarrow> (Collided (wt_slot old) slot,
              p\<lparr>pn_waiting := AList.delete tag (pn_waiting p), pn_retired := ring_insert tag (pn_retired p)\<rparr>)
          | None \<Rightarrow> (Placed, p\<lparr>pn_waiting := AList.update tag \<lparr>wt_slot = slot, wt_deadline = deadline\<rparr> (pn_waiting p)\<rparr>))"

definition pending_take :: "'t \<Rightarrow> ('t, 's) pending \<Rightarrow> 's option \<times> ('t, 's) pending" where
  "pending_take tag p = (map_option wt_slot (map_of (pn_waiting p) tag), p\<lparr>pn_waiting := AList.delete tag (pn_waiting p)\<rparr>)"

fun expire_tags :: "'t list \<Rightarrow> ('t, 's) pending \<Rightarrow> ('t \<times> 's) list \<times> ('t, 's) pending" where
  "expire_tags [] p = ([], p)"
| "expire_tags (tag # tags) p = (case map_of (pn_waiting p) tag of
     None \<Rightarrow> expire_tags tags p
   | Some w \<Rightarrow>
       let (out, p') = expire_tags tags (p\<lparr>pn_waiting := AList.delete tag (pn_waiting p), pn_retired := ring_insert tag (pn_retired p)\<rparr>)
       in ((tag, wt_slot w) # out, p'))"

definition pending_expire :: "instant \<Rightarrow> ('t, 's) pending \<Rightarrow> ('t \<times> 's) list \<times> ('t, 's) pending" where
  "pending_expire now p = expire_tags (map fst (filter (\<lambda>(_, w). wt_deadline w \<le> now) (pn_waiting p))) p"

definition pending_drain :: "('t, 's) pending \<Rightarrow> ('t \<times> 's) list \<times> ('t, 's) pending" where
  "pending_drain p = (map (\<lambda>(t, w). (t, wt_slot w)) (pn_waiting p), p\<lparr>pn_waiting := []\<rparr>)"

definition next_deadline :: "('t, 's) pending \<Rightarrow> instant option" where
  "next_deadline p = (case map (\<lambda>(_, w). wt_deadline w) (pn_waiting p) of [] \<Rightarrow> None | ds \<Rightarrow> Some (min_list ds))"

definition pending_contains :: "'t \<Rightarrow> ('t, 's) pending \<Rightarrow> bool" where
  "pending_contains tag p \<longleftrightarrow> tag \<in> fst ` set (pn_waiting p)"

definition pending_len :: "('t, 's) pending \<Rightarrow> nat" where
  "pending_len p = length (pn_waiting p)"

definition retired_len :: "('t, 's) pending \<Rightarrow> nat" where
  "retired_len p = ring_len (pn_retired p)"

section \<open>Laws of the ring\<close>

definition ring_ok :: "'t retired_ring \<Rightarrow> bool" where
  "ring_ok r \<longleftrightarrow> distinct (rr_order r) \<and> rr_set r = set (rr_order r) \<and> length (rr_order r) \<le> rr_cap r"

lemma ring_trim_eq:
  "distinct order \<Longrightarrow> ring_trim cap order (set order) = (drop (length order - cap) order, set (drop (length order - cap) order))"
proof (induction order)
  case (Cons x order)
  have "set (x # order) - {x} = set order" using Cons.prems by auto
  with Cons show ?case by (auto simp: Suc_diff_le)
qed simp

lemma ring_insert_order:
  assumes "ring_ok r"
  shows "ring_ok (ring_insert tag r)" "rr_cap (ring_insert tag r) = rr_cap r"
    "rr_set (ring_insert tag r) \<subseteq> insert tag (rr_set r)"
    "rr_order (ring_insert tag r) = (if rr_cap r = 0 \<or> tag \<in> set (rr_order r) then rr_order r
       else drop (Suc (length (rr_order r)) - rr_cap r) (rr_order r @ [tag]))"
proof -
  let ?o = "rr_order r @ [tag]"
  have trim: "ring_trim (rr_cap r) ?o (insert tag (rr_set r)) = (drop (length ?o - rr_cap r) ?o, set (drop (length ?o - rr_cap r) ?o))"
    if "tag \<notin> rr_set r"
    using ring_trim_eq[of ?o "rr_cap r"] assms that by (simp add: ring_ok_def)
  have "set (drop n ?o) \<subseteq> insert tag (rr_set r)" for n using set_drop_subset[of n ?o] assms by (auto simp: ring_ok_def)
  then show "rr_set (ring_insert tag r) \<subseteq> insert tag (rr_set r)" using trim by (auto simp: ring_insert_def)
  have "distinct (drop n ?o)" if "tag \<notin> set (rr_order r)" for n using assms that by (intro distinct_drop) (simp add: ring_ok_def)
  then show "ring_ok (ring_insert tag r)" using assms trim by (auto simp: ring_insert_def ring_ok_def dest: in_set_dropD)
  show "rr_cap (ring_insert tag r) = rr_cap r" by (simp add: ring_insert_def case_prod_beta)
  show "rr_order (ring_insert tag r) = (if rr_cap r = 0 \<or> tag \<in> set (rr_order r) then rr_order r
       else drop (Suc (length (rr_order r)) - rr_cap r) (rr_order r @ [tag]))"
    using assms trim by (auto simp: ring_insert_def ring_ok_def)
qed

section \<open>Laws of the table\<close>

abbreviation pn_tags :: "('t, 's) pending \<Rightarrow> 't set" where
  "pn_tags p \<equiv> fst ` set (pn_waiting p)"

definition pending_inv :: "('t, 's) pending \<Rightarrow> bool" where
  "pending_inv p \<longleftrightarrow> distinct (map fst (pn_waiting p)) \<and> ring_ok (pn_retired p) \<and> pn_tags p \<inter> rr_set (pn_retired p) = {}"

definition slots :: "('t, 's) pending \<Rightarrow> 's multiset" where
  "slots p = mset (map (\<lambda>(_, w). wt_slot w) (pn_waiting p))"

lemma alist_delete_filter: "AList.delete k m = filter (\<lambda>(t, _). t \<noteq> k) m"
  unfolding AList.delete_eq by (rule filter_cong) auto

lemma tags_delete: "fst ` set (AList.delete k m) = fst ` set m - {k}"
  by (force simp: alist_delete_filter)

lemma alist_update_new: "map_of m k = None \<Longrightarrow> AList.update k v m = m @ [(k, v)]"
  by (induction m) (auto split: if_splits)

lemma mset_delete:
  "distinct (map fst m) \<Longrightarrow> map_of m k = Some w \<Longrightarrow> mset m = add_mset (k, w) (mset (AList.delete k m))"
proof (induction m)
  case (Cons kv m)
  then show ?case
  proof (cases "fst kv = k")
    case True
    then have "AList.delete k m = m" using Cons.prems(1) by (intro delete_id) auto
    with True Cons.prems show ?thesis by (cases kv) auto
  next
    case False
    with Cons show ?thesis by (cases kv) auto
  qed
qed simp

lemma slots_delete:
  assumes "distinct (map fst (pn_waiting p))" "map_of (pn_waiting p) tag = Some w"
  shows "slots p = add_mset (wt_slot w) (slots (p\<lparr>pn_waiting := AList.delete tag (pn_waiting p)\<rparr>))"
  unfolding slots_def mset_map mset_delete[OF assms] by simp

lemma drop_tag_inv:
  assumes "pending_inv p"
  shows "pending_inv (p\<lparr>pn_waiting := AList.delete tag (pn_waiting p)\<rparr>)"
    "pending_inv (p\<lparr>pn_waiting := AList.delete tag (pn_waiting p), pn_retired := ring_insert tag (pn_retired p)\<rparr>)"
  using assms ring_insert_order(1,3)[of "pn_retired p" tag]
  unfolding pending_inv_def by (simp_all add: tags_delete distinct_delete) blast+

lemma insert_laws:
  assumes "pending_inv p" "pending_insert tag slot deadline p = (res, p')"
  shows "pending_inv p'" "add_mset slot (slots p) = (case res of Placed \<Rightarrow> {#} | Collided d r \<Rightarrow> {#d, r#} | Retired r \<Rightarrow> {#r#}) + slots p'"
proof -
  have dist: "distinct (map fst (pn_waiting p))" using assms(1) by (simp add: pending_inv_def)
  have new: "AList.update tag w (pn_waiting p) = pn_waiting p @ [(tag, w)]" if "map_of (pn_waiting p) tag = None" for w
    using that by (rule alist_update_new)
  consider "ring_contains tag (pn_retired p)" | "\<not> ring_contains tag (pn_retired p)" "map_of (pn_waiting p) tag = None"
    | old where "\<not> ring_contains tag (pn_retired p)" "map_of (pn_waiting p) tag = Some old" by fastforce
  then show "pending_inv p'"
  proof cases
    case 2
    then have "p' = p\<lparr>pn_waiting := AList.update tag \<lparr>wt_slot = slot, wt_deadline = deadline\<rparr> (pn_waiting p)\<rparr>"
      using assms(2) by (simp add: pending_insert_def)
    with 2 assms(1) show ?thesis by (simp add: pending_inv_def ring_contains_def dom_update distinct_update)
  qed (use assms drop_tag_inv(2)[OF assms(1), of tag] in \<open>auto simp: pending_insert_def\<close>)
  show "add_mset slot (slots p) = (case res of Placed \<Rightarrow> {#} | Collided d r \<Rightarrow> {#d, r#} | Retired r \<Rightarrow> {#r#}) + slots p'"
    using assms(2) new slots_delete[OF dist, of tag]
    by (auto simp: pending_insert_def slots_def split: if_splits option.splits)
qed

lemma expire_tags_laws:
  assumes "pending_inv p" "expire_tags tags p = (out, p')"
  shows "pending_inv p' \<and> slots p = mset (map snd out) + slots p' \<and>
     (distinct tags \<longrightarrow> set tags \<subseteq> pn_tags p \<longrightarrow> map fst out = tags) \<and>
     pn_waiting p' = filter (\<lambda>(t, _). t \<notin> set tags) (pn_waiting p)"
  using assms
proof (induction tags arbitrary: p out)
  case Nil
  then show ?case by (auto simp: filter_id_conv)
next
  case (Cons tag tags)
  have dist: "distinct (map fst (pn_waiting p))" using Cons.prems(1) by (simp add: pending_inv_def)
  show ?case
  proof (cases "map_of (pn_waiting p) tag")
    case None
    then have "tag \<notin> pn_tags p" by (simp add: map_of_eq_None_iff)
    moreover then have "filter (\<lambda>(t, _). t \<notin> set (tag # tags)) (pn_waiting p) = filter (\<lambda>(t, _). t \<notin> set tags) (pn_waiting p)"
      by (intro filter_cong) force+
    ultimately show ?thesis using Cons.IH[of p out] Cons.prems None by auto
  next
    case (Some w)
    define q where "q = p\<lparr>pn_waiting := AList.delete tag (pn_waiting p), pn_retired := ring_insert tag (pn_retired p)\<rparr>"
    obtain out' where o: "expire_tags tags q = (out', p')" "out = (tag, wt_slot w) # out'"
      using Cons.prems(2) Some by (auto simp: q_def Let_def split: prod.splits)
    have IH: "pending_inv p' \<and> slots q = mset (map snd out') + slots p' \<and>
       (distinct tags \<longrightarrow> set tags \<subseteq> pn_tags q \<longrightarrow> map fst out' = tags) \<and>
       pn_waiting p' = filter (\<lambda>(t, _). t \<notin> set tags) (pn_waiting q)"
      using Cons.IH[OF _ o(1)] drop_tag_inv(2)[OF Cons.prems(1)] by (simp add: q_def)
    have "slots p = add_mset (wt_slot w) (slots q)"
      using slots_delete[OF dist Some] by (simp add: q_def slots_def)
    moreover have "filter (\<lambda>(t, _). t \<notin> set tags) (pn_waiting q) = filter (\<lambda>(t, _). t \<notin> set (tag # tags)) (pn_waiting p)"
      by (simp add: q_def alist_delete_filter) (intro filter_cong, auto)
    moreover have "set tags \<subseteq> pn_tags q" if "tag \<notin> set tags" "set tags \<subseteq> pn_tags p"
      using that by (auto simp: q_def tags_delete)
    ultimately show ?thesis using IH o(2) by auto
  qed
qed

lemma due_deadlines:
  assumes "distinct (map fst m)"
  shows "filter (\<lambda>(t, _). t \<notin> set (map fst (filter (\<lambda>(_, w). wt_deadline w \<le> now) m))) m = filter (\<lambda>(_, w). now < wt_deadline w) m"
proof (rule filter_cong[OF refl])
  fix x assume x: "x \<in> set m"
  obtain t w where tw: "x = (t, w)" by (cases x)
  have "t \<in> set (map fst (filter (\<lambda>(_, w). wt_deadline w \<le> now) m)) \<longleftrightarrow> wt_deadline w \<le> now"
  proof
    assume "t \<in> set (map fst (filter (\<lambda>(_, w). wt_deadline w \<le> now) m))"
    then obtain w' where "(t, w') \<in> set m" "wt_deadline w' \<le> now" by auto
    moreover have "w' = w" using calculation(1) x assms by (metis tw eq_key_imp_eq_value)
    ultimately show "wt_deadline w \<le> now" by simp
  qed (use x tw in force)
  then show "(case x of (t, _) \<Rightarrow> t \<notin> set (map fst (filter (\<lambda>(_, w). wt_deadline w \<le> now) m))) = (case x of (_, w) \<Rightarrow> now < wt_deadline w)"
    by (auto simp: tw)
qed

lemma expire_laws:
  assumes "pending_inv p"
  shows "pending_inv (snd (pending_expire now p))" "slots p = mset (map snd (fst (pending_expire now p))) + slots (snd (pending_expire now p))"
    "map fst (fst (pending_expire now p)) = map fst (filter (\<lambda>(_, w). wt_deadline w \<le> now) (pn_waiting p))"
    "pn_waiting (snd (pending_expire now p)) = filter (\<lambda>(_, w). now < wt_deadline w) (pn_waiting p)"
proof -
  let ?due = "map fst (filter (\<lambda>(_, w). wt_deadline w \<le> now) (pn_waiting p))"
  have dist: "distinct (map fst (pn_waiting p))" using assms by (simp add: pending_inv_def)
  have "set ?due \<subseteq> pn_tags p" "distinct ?due" using dist by (auto simp: distinct_map_filter)
  then show "pending_inv (snd (pending_expire now p))" "slots p = mset (map snd (fst (pending_expire now p))) + slots (snd (pending_expire now p))"
    "map fst (fst (pending_expire now p)) = ?due"
    "pn_waiting (snd (pending_expire now p)) = filter (\<lambda>(_, w). now < wt_deadline w) (pn_waiting p)"
    using expire_tags_laws[OF assms, of ?due "fst (pending_expire now p)" "snd (pending_expire now p)"] due_deadlines[OF dist, of now]
    by (simp_all add: pending_expire_def)
qed

lemma take_laws:
  assumes "pending_inv p"
  shows "pending_inv (snd (pending_take tag p))"
    "slots p = (case fst (pending_take tag p) of None \<Rightarrow> {#} | Some x \<Rightarrow> {#x#}) + slots (snd (pending_take tag p))"
proof -
  show "pending_inv (snd (pending_take tag p))" using drop_tag_inv(1)[OF assms] by (simp add: pending_take_def)
  have "distinct (map fst (pn_waiting p))" using assms by (simp add: pending_inv_def)
  from slots_delete[OF this, of tag]
  show "slots p = (case fst (pending_take tag p) of None \<Rightarrow> {#} | Some x \<Rightarrow> {#x#}) + slots (snd (pending_take tag p))"
    by (cases "map_of (pn_waiting p) tag") (simp_all add: pending_take_def, simp add: map_of_eq_None_iff)
qed

lemma drain_laws:
  "pending_inv p \<Longrightarrow> pending_inv (snd (pending_drain p))" "slots p = mset (map snd (fst (pending_drain p))) + slots (snd (pending_drain p))"
  by (auto simp: pending_drain_def pending_inv_def slots_def intro!: image_mset_cong)

section \<open>The table in use\<close>

datatype ('t, 's) table_op = OpRequest 't 's instant | OpReply 't | OpExpire instant | OpDisconnect

text \<open>The handles an operation hands back to be woken.\<close>

fun table_do :: "('t, 's) table_op \<Rightarrow> ('t, 's) pending \<Rightarrow> 's list \<times> ('t, 's) pending" where
  "table_do (OpRequest tag slot deadline) p = (
     let (res, p') = pending_insert tag slot deadline p
     in ((case res of Placed \<Rightarrow> [] | Collided d r \<Rightarrow> [d, r] | Retired r \<Rightarrow> [r]), p'))"
| "table_do (OpReply tag) p = (let (res, p') = pending_take tag p in ((case res of None \<Rightarrow> [] | Some x \<Rightarrow> [x]), p'))"
| "table_do (OpExpire now) p = (let (out, p') = pending_expire now p in (map snd out, p'))"
| "table_do OpDisconnect p = (let (out, p') = pending_drain p in (map snd out, p'))"

fun table_run :: "('t, 's) table_op list \<Rightarrow> ('t, 's) pending \<Rightarrow> 's list \<times> ('t, 's) pending" where
  "table_run [] p = ([], p)"
| "table_run (op # ops) p = (let (woken, p1) = table_do op p; (later, p2) = table_run ops p1 in (woken @ later, p2))"

fun requested :: "('t, 's) table_op list \<Rightarrow> 's list" where
  "requested [] = []"
| "requested (OpRequest tag slot deadline # ops) = slot # requested ops"
| "requested (_ # ops) = requested ops"

lemma table_step:
  assumes "pending_inv p"
  shows "pending_inv (snd (table_do op p))" "mset (requested [op]) + slots p = mset (fst (table_do op p)) + slots (snd (table_do op p))"
proof -
  have "pending_inv (snd (table_do op p)) \<and> mset (requested [op]) + slots p = mset (fst (table_do op p)) + slots (snd (table_do op p))"
  proof (cases op)
    case (OpRequest tag slot deadline)
    obtain res p' where "pending_insert tag slot deadline p = (res, p')" by fastforce
    with insert_laws[OF assms this] OpRequest show ?thesis by (cases res) simp_all
  next
    case (OpReply tag)
    with take_laws[OF assms, of tag] show ?thesis by (cases "fst (pending_take tag p)") (simp_all add: case_prod_beta)
  next
    case (OpExpire now)
    with expire_laws(1,2)[OF assms, of now] show ?thesis by (simp add: case_prod_beta)
  next
    case OpDisconnect
    with drain_laws(1)[OF assms] drain_laws(2)[of p] show ?thesis by (simp add: case_prod_beta)
  qed
  then show "pending_inv (snd (table_do op p))" "mset (requested [op]) + slots p = mset (fst (table_do op p)) + slots (snd (table_do op p))"
    by simp_all
qed

lemma table_run_laws:
  "pending_inv p \<Longrightarrow> pending_inv (snd (table_run ops p)) \<and> mset (requested ops) + slots p = mset (fst (table_run ops p)) + slots (snd (table_run ops p))"
proof (induction ops arbitrary: p)
  case (Cons op ops)
  have "mset (requested (op # ops)) = mset (requested [op]) + mset (requested ops)" by (cases op) auto
  with Cons.IH[OF table_step(1)[OF Cons.prems, of op]] table_step(2)[OF Cons.prems, of op] show ?case
    by (simp add: Let_def case_prod_beta) (metis (no_types, lifting) union_assoc union_commute)
qed simp

lemma ring_insert_cap [simp]: "rr_cap (ring_insert tag r) = rr_cap r"
  by (simp add: ring_insert_def case_prod_beta)

lemma expire_tags_cap: "rr_cap (pn_retired (snd (expire_tags tags p))) = rr_cap (pn_retired p)"
  by (induction tags p rule: expire_tags.induct) (auto simp: Let_def case_prod_beta split: option.splits)

lemma table_cap: "rr_cap (pn_retired (snd (table_run ops p))) = rr_cap (pn_retired p)"
proof (induction ops arbitrary: p)
  case (Cons op ops)
  have "rr_cap (pn_retired (snd (table_do op p))) = rr_cap (pn_retired p)"
    by (cases op) (auto simp: Let_def case_prod_beta pending_insert_def pending_take_def pending_expire_def pending_drain_def
        expire_tags_cap split: option.splits)
  with Cons show ?case by (simp add: Let_def case_prod_beta)
qed simp

lemma new_table_inv: "pending_inv (pending_new cap)"
  by (simp add: pending_inv_def pending_new_def ring_new_def ring_ok_def)

lemma table_run_append:
  "table_run (a @ b) p = (let (w1, p1) = table_run a p; (w2, p2) = table_run b p1 in (w1 @ w2, p2))"
  by (induction a arbitrary: p) (simp_all add: Let_def case_prod_beta)

lemma min_list_props: "xs \<noteq> [] \<Longrightarrow> min_list xs \<in> set xs \<and> (\<forall>x \<in> set xs. min_list xs \<le> x)" for xs :: "nat list"
  by (simp add: min_list_Min)

lemma next_deadline_cases:
  "next_deadline p = None \<longleftrightarrow> pn_waiting p = []"
  "next_deadline p = Some d \<Longrightarrow> (\<exists>x \<in> set (pn_waiting p). wt_deadline (snd x) = d) \<and> (\<forall>x \<in> set (pn_waiting p). d \<le> wt_deadline (snd x))"
proof -
  let ?ds = "map (\<lambda>(_, w). wt_deadline w) (pn_waiting p)"
  show "next_deadline p = None \<longleftrightarrow> pn_waiting p = []" by (cases "pn_waiting p") (auto simp: next_deadline_def)
  assume "next_deadline p = Some d"
  then have "?ds \<noteq> []" "d = min_list ?ds" by (cases "pn_waiting p"; simp add: next_deadline_def)+
  with min_list_props[OF this(1)] show "(\<exists>x \<in> set (pn_waiting p). wt_deadline (snd x) = d) \<and> (\<forall>x \<in> set (pn_waiting p). d \<le> wt_deadline (snd x))"
    by force
qed

section \<open>Properties\<close>

text \<open>C35. Every request is answered exactly once: over any sequence of requests, replies, expiries and
  disconnects, the handles given to the table are, with multiplicity, the handles handed back so far
  together with those still waiting, and a final disconnect hands back all that remain.\<close>

theorem pending_exactly_once:
  "mset (requested ops) = mset (fst (table_run ops (pending_new cap))) +
     mset (map (\<lambda>(_, w). wt_slot w) (pn_waiting (snd (table_run ops (pending_new cap))))) \<and>
   mset (fst (table_run (ops @ [OpDisconnect]) (pending_new cap))) = mset (requested ops)"
proof -
  let ?p = "snd (table_run ops (pending_new cap))"
  have run: "mset (requested ops) = mset (fst (table_run ops (pending_new cap))) + slots ?p"
    using table_run_laws[OF new_table_inv, of ops cap] by (simp add: slots_def pending_new_def)
  have "slots (snd (pending_drain ?p)) = {#}" by (simp add: slots_def pending_drain_def)
  then have "mset (fst (table_run [OpDisconnect] ?p)) = slots ?p"
    using drain_laws(2)[of ?p] by (simp add: case_prod_beta)
  with run show ?thesis by (simp add: table_run_append Let_def case_prod_beta slots_def)
qed

text \<open>Numbers are correlated safely and deadlines are exact: in any table that arises in use the
  waiting numbers are distinct, none of them is retired and at most \<open>cap\<close> retired numbers are
  remembered; a reply hands back the handle waiting under its number, if any, and no other; an expiry
  hands back exactly the requests whose deadline has come; and the advertised next deadline is the first
  moment at which an expiry hands back anything.\<close>

theorem pending_timer_exact:
  fixes ops :: "('t, 's) table_op list" and cap :: nat
  defines "p \<equiv> snd (table_run ops (pending_new cap))"
  shows "distinct (map fst (pn_waiting p)) \<and> fst ` set (pn_waiting p) \<inter> rr_set (pn_retired p) = {} \<and> retired_len p \<le> cap \<and>
     (fst (pending_take tag p) = map_option wt_slot (map_of (pn_waiting p) tag) \<and>
      pn_waiting (snd (pending_take tag p)) = filter (\<lambda>(t, _). t \<noteq> tag) (pn_waiting p)) \<and>
     (map fst (fst (pending_expire now p)) = map fst (filter (\<lambda>(_, w). wt_deadline w \<le> now) (pn_waiting p)) \<and>
      pn_waiting (snd (pending_expire now p)) = filter (\<lambda>(_, w). now < wt_deadline w) (pn_waiting p)) \<and>
     (fst (pending_expire now p) \<noteq> [] \<longleftrightarrow> (\<exists>d \<le> now. next_deadline p = Some d))"
proof -
  have inv: "pending_inv p" "rr_cap (pn_retired p) = cap"
    using table_run_laws[OF new_table_inv, of ops cap] table_cap[of ops "pending_new cap"]
    by (simp_all add: p_def pending_new_def ring_new_def)
  note E = expire_laws(3,4)[OF inv(1), of now]
  have "fst (pending_expire now p) \<noteq> [] \<longleftrightarrow> (\<exists>x \<in> set (pn_waiting p). wt_deadline (snd x) \<le> now)"
    using arg_cong[OF E(1), of "\<lambda>xs. xs = []"] by (auto simp: filter_empty_conv case_prod_beta)
  also have "\<dots> \<longleftrightarrow> (\<exists>d \<le> now. next_deadline p = Some d)"
  proof (cases "next_deadline p")
    case None
    then show ?thesis using next_deadline_cases(1)[of p] by simp
  next
    case (Some d)
    then show ?thesis using next_deadline_cases(2)[OF Some] by (metis option.inject order_trans)
  qed
  finally show ?thesis
    using inv E by (auto simp: pending_inv_def ring_ok_def retired_len_def ring_len_def pending_take_def alist_delete_filter)
qed

end
