(* ===== verification/Stream_Track.thy ===== *)
theory Stream_Track
  imports Eg_Prelude
begin

text \<open>
  The tracking of incoming streams, \<^verbatim>\<open>crates/engram-dashboard-transport/src/stream.rs\<close>: comparison of
  incarnations, removal of duplicates, detection of holes, the window that holds pieces while a
  re-request is unanswered, and the bound on the number of streams. Keys and pieces are type
  variables, as in the code; a \<^verbatim>\<open>BTreeMap\<close> is an association list kept sorted by its key.
\<close>

section \<open>State\<close>

record 'k stream_mark =
  sk_key :: 'k
  sk_generation :: u32
  sk_seq :: u64

datatype 'm verdict = Deliver 'm | Duplicate | GenerationChanged u32 u32 'm nat | Gap u64 u64 u64 | Held u64
  | Truncated u64 "'m list"

fun into_delivered :: "'m verdict \<Rightarrow> 'm list" where
  "into_delivered (Deliver m) = [m]"
| "into_delivered (GenerationChanged f t m d) = [m]"
| "into_delivered (Truncated v ms) = ms"
| "into_delivered _ = []"

record ('k, 'm) truncation =
  tr_key :: 'k
  tr_generation :: u32
  tr_oldest_valid :: u64
  tr_flushed :: "'m list"

record ('k, 'm) evicted_stream =
  es_key :: 'k
  es_generation :: u32
  es_last_seq :: u64
  es_flushed :: "'m list"
  es_oldest_valid :: "u64 option"

record 'm resume =
  ru_after :: u64
  ru_asked_at :: instant
  ru_held :: "(u64 \<times> 'm) list"

record 'm track =
  tk_generation :: u32
  tk_last_seq :: u64
  tk_resume :: "'m resume option"

record ('k, 'm) streams =
  sx_seen :: "('k \<times> 'm track) list"
  sx_order :: "'k list"
  sx_max_streams :: nat
  sx_resume_buffer :: nat
  sx_resume_timeout :: duration
  sx_evicted :: "('k, 'm) evicted_stream list"

definition streams_new :: "nat \<Rightarrow> nat \<Rightarrow> duration \<Rightarrow> ('k, 'm) streams" where
  "streams_new max_streams resume_buffer timeout = \<lparr>sx_seen = [], sx_order = [], sx_max_streams = max max_streams 1,
     sx_resume_buffer = max resume_buffer 1, sx_resume_timeout = timeout, sx_evicted = []\<rparr>"

section \<open>Operations\<close>

fun btree_insert :: "u64 \<Rightarrow> 'm \<Rightarrow> (u64 \<times> 'm) list \<Rightarrow> (u64 \<times> 'm) list" where
  "btree_insert k v [] = [(k, v)]"
| "btree_insert k v ((k', v') # h) = (if k < k' then (k, v) # (k', v') # h else if k = k' then (k, v) # h else (k', v') # btree_insert k v h)"

definition first_key :: "(u64 \<times> 'm) list \<Rightarrow> u64 option" where
  "first_key h = (case h of [] \<Rightarrow> None | x # _ \<Rightarrow> Some (fst x))"

definition last_key :: "(u64 \<times> 'm) list \<Rightarrow> u64 option" where
  "last_key h = (if h = [] then None else Some (fst (List.last h)))"

definition drain_held :: "'m track \<Rightarrow> ('m list \<times> u64 option \<times> u64 option) \<times> 'm track" where
  "drain_held t = (case tk_resume t of
     Some r \<Rightarrow> ((map snd (ru_held r), first_key (ru_held r), last_key (ru_held r)), t\<lparr>tk_resume := None\<rparr>)
   | None \<Rightarrow> (([], None, None), t))"

definition touch :: "'k \<Rightarrow> 'k list \<Rightarrow> 'k list" where
  "touch key order = (if key \<in> set order then remove1 key order @ [key] else order)"

fun make_room :: "nat \<Rightarrow> 'k list \<Rightarrow> ('k \<times> 'm track) list \<Rightarrow> ('k, 'm) evicted_stream list
    \<Rightarrow> 'k list \<times> ('k \<times> 'm track) list \<times> ('k, 'm) evicted_stream list" where
  "make_room mx [] seen ev = ([], seen, ev)"
| "make_room mx (victim # order) seen ev = (
     if mx \<le> length (victim # order)
     then case map_of seen victim of
            None \<Rightarrow> make_room mx order seen ev
          | Some t \<Rightarrow>
              let ((flushed, oldest, _), _) = drain_held t
              in make_room mx order (AList.delete victim seen)
                   (ev @ [\<lparr>es_key = victim, es_generation = tk_generation t, es_last_seq = tk_last_seq t,
                           es_flushed = flushed, es_oldest_valid = oldest\<rparr>])
     else (victim # order, seen, ev))"

definition admit :: "'k stream_mark \<Rightarrow> ('k, 'm) streams \<Rightarrow> ('k, 'm) streams" where
  "admit mark s = (
     let (order, seen, ev) = make_room (sx_max_streams s) (sx_order s) (sx_seen s) (sx_evicted s)
     in s\<lparr>sx_order := order @ [sk_key mark],
          sx_seen := AList.update (sk_key mark) \<lparr>tk_generation = sk_generation mark, tk_last_seq = sk_seq mark, tk_resume = None\<rparr> seen,
          sx_evicted := ev\<rparr>)"

text \<open>The decision on one piece of a stream that is already tracked.\<close>

definition observe_track ::
  "nat \<Rightarrow> duration \<Rightarrow> u32 \<Rightarrow> u64 \<Rightarrow> 'm \<Rightarrow> instant \<Rightarrow> bool \<Rightarrow> 'm track \<Rightarrow> 'm verdict \<times> 'm track" where
  "observe_track buffer timeout gen seq msg now over_cap t = (
     if tk_generation t \<noteq> gen
     then let ((stale, _), t1) = drain_held t
          in (GenerationChanged (tk_generation t) gen msg (length stale), t1\<lparr>tk_generation := gen, tk_last_seq := seq\<rparr>)
     else if seq \<le> tk_last_seq t then (Duplicate, t)
     else if seq = tk_last_seq t + 1 then (Deliver msg, t\<lparr>tk_last_seq := seq, tk_resume := None\<rparr>)
     else case tk_resume t of
            None \<Rightarrow>
              if over_cap then (Truncated seq [msg], t\<lparr>tk_last_seq := seq\<rparr>)
              else (Gap (tk_last_seq t + 1) seq (tk_last_seq t),
                    t\<lparr>tk_resume := Some \<lparr>ru_after = tk_last_seq t, ru_asked_at = now, ru_held = btree_insert seq msg []\<rparr>\<rparr>)
          | Some r \<Rightarrow>
              if seq \<in> fst ` set (ru_held r) then (Duplicate, t)
              else
                let held = btree_insert seq msg (ru_held r);
                    t1 = t\<lparr>tk_resume := Some (r\<lparr>ru_held := held\<rparr>)\<rparr>;
                    expired = timeout \<le> now - ru_asked_at r;
                    full = buffer \<le> length held \<or> over_cap
                in if \<not> expired \<and> \<not> full then (Held (ru_after r), t1)
                   else let ((flushed, oldest, newest), t2) = drain_held t1
                        in (Truncated (the oldest) flushed, t2\<lparr>tk_last_seq := the newest\<rparr>))"

definition observe_capped :: "'k stream_mark \<Rightarrow> 'm \<Rightarrow> instant \<Rightarrow> bool \<Rightarrow> ('k, 'm) streams \<Rightarrow> 'm verdict \<times> ('k, 'm) streams" where
  "observe_capped mark msg now over_cap s = (case map_of (sx_seen s) (sk_key mark) of
     None \<Rightarrow> (Deliver msg, admit mark s)
   | Some t \<Rightarrow>
       let (v, t') = observe_track (sx_resume_buffer s) (sx_resume_timeout s) (sk_generation mark) (sk_seq mark) msg now over_cap t
       in (v, s\<lparr>sx_order := touch (sk_key mark) (sx_order s), sx_seen := AList.update (sk_key mark) t' (sx_seen s)\<rparr>))"

definition observe :: "'k stream_mark \<Rightarrow> 'm \<Rightarrow> instant \<Rightarrow> ('k, 'm) streams \<Rightarrow> 'm verdict \<times> ('k, 'm) streams" where
  "observe mark msg now s = observe_capped mark msg now False s"

definition collapse :: "'k \<Rightarrow> ('k, 'm) streams \<Rightarrow> ('k, 'm) truncation option \<times> ('k, 'm) streams" where
  "collapse key s = (case map_of (sx_seen s) key of
     None \<Rightarrow> (None, s)
   | Some t \<Rightarrow>
       let ((flushed, oldest, newest), t1) = drain_held t
       in case (oldest, newest) of
            (Some o', Some n) \<Rightarrow>
              (Some \<lparr>tr_key = key, tr_generation = tk_generation t, tr_oldest_valid = o', tr_flushed = flushed\<rparr>,
               s\<lparr>sx_seen := AList.update key (t1\<lparr>tk_last_seq := max (tk_last_seq t1) n\<rparr>) (sx_seen s)\<rparr>)
          | _ \<Rightarrow> (None, s\<lparr>sx_seen := AList.update key t1 (sx_seen s)\<rparr>))"

fun collapse_all :: "'k list \<Rightarrow> ('k, 'm) streams \<Rightarrow> ('k, 'm) truncation list \<times> ('k, 'm) streams" where
  "collapse_all [] s = ([], s)"
| "collapse_all (key # keys) s = (
     let (x, s1) = collapse key s; (out, s2) = collapse_all keys s1
     in ((case x of None \<Rightarrow> out | Some t \<Rightarrow> t # out), s2))"

definition resume_due :: "duration \<Rightarrow> instant \<Rightarrow> 'm track \<Rightarrow> bool" where
  "resume_due timeout now t \<longleftrightarrow> (case tk_resume t of None \<Rightarrow> False | Some r \<Rightarrow> timeout \<le> now - ru_asked_at r)"

definition expire_resumes :: "instant \<Rightarrow> ('k, 'm) streams \<Rightarrow> ('k, 'm) truncation list \<times> ('k, 'm) streams" where
  "expire_resumes now s = collapse_all (map fst (filter (\<lambda>(_, t). resume_due (sx_resume_timeout s) now t) (sx_seen s))) s"

definition close_resumes :: "('k, 'm) streams \<Rightarrow> ('k, 'm) truncation list \<times> ('k, 'm) streams" where
  "close_resumes s = collapse_all
     (filter (\<lambda>k. case map_of (sx_seen s) k of None \<Rightarrow> False | Some t \<Rightarrow> tk_resume t \<noteq> None) (sx_order s)) s"

definition next_resume_deadline :: "('k, 'm) streams \<Rightarrow> instant option" where
  "next_resume_deadline s = (
     case List.map_filter (\<lambda>(_, t). map_option (\<lambda>r. ru_asked_at r + sx_resume_timeout s) (tk_resume t)) (sx_seen s) of
       [] \<Rightarrow> None | ds \<Rightarrow> Some (min_list ds))"

definition drain_evicted :: "('k, 'm) streams \<Rightarrow> ('k, 'm) evicted_stream list \<times> ('k, 'm) streams" where
  "drain_evicted s = (sx_evicted s, s\<lparr>sx_evicted := []\<rparr>)"

definition pending_resumes :: "('k, 'm) streams \<Rightarrow> ('k \<times> u64) list" where
  "pending_resumes s = List.map_filter (\<lambda>k. case map_of (sx_seen s) k of
     None \<Rightarrow> None | Some t \<Rightarrow> map_option (\<lambda>r. (k, ru_after r)) (tk_resume t)) (sx_order s)"

definition map_asked :: "(instant \<Rightarrow> instant) \<Rightarrow> ('k, 'm) streams \<Rightarrow> ('k, 'm) streams" where
  "map_asked f s = s\<lparr>sx_seen := map (\<lambda>(k, t). (k, t\<lparr>tk_resume := map_option (\<lambda>r. r\<lparr>ru_asked_at := f (ru_asked_at r)\<rparr>) (tk_resume t)\<rparr>)) (sx_seen s)\<rparr>"

definition rearm_resumes :: "instant \<Rightarrow> ('k, 'm) streams \<Rightarrow> ('k, 'm) streams" where
  "rearm_resumes now s = map_asked (\<lambda>_. now) s"

definition shift_resumes :: "duration \<Rightarrow> ('k, 'm) streams \<Rightarrow> ('k, 'm) streams" where
  "shift_resumes d s = map_asked (\<lambda>t. t + d) s"

definition stream_last_seq :: "'k \<Rightarrow> ('k, 'm) streams \<Rightarrow> u64 option" where
  "stream_last_seq key s = map_option tk_last_seq (map_of (sx_seen s) key)"

definition stream_generation :: "'k \<Rightarrow> ('k, 'm) streams \<Rightarrow> u32 option" where
  "stream_generation key s = map_option tk_generation (map_of (sx_seen s) key)"

definition forget :: "'k \<Rightarrow> ('k, 'm) streams \<Rightarrow> ('k, 'm) streams" where
  "forget key s = (if map_of (sx_seen s) key = None then s
     else s\<lparr>sx_seen := AList.delete key (sx_seen s), sx_order := filter (\<lambda>k. k \<noteq> key) (sx_order s)\<rparr>)"

section \<open>Laws of one track\<close>

lemma btree_insert_set: "k \<notin> fst ` set h \<Longrightarrow> set (btree_insert k v h) = insert (k, v) (set h)"
  by (induction k v h rule: btree_insert.induct) auto

lemma btree_insert_length: "k \<notin> fst ` set h \<Longrightarrow> length (btree_insert k v h) = Suc (length h)"
  by (induction k v h rule: btree_insert.induct) auto

lemma btree_insert_sorted: "sorted_wrt (<) (map fst h) \<Longrightarrow> sorted_wrt (<) (map fst (btree_insert k v h))"
proof (induction k v h rule: btree_insert.induct)
  case (2 k v k' v' h)
  have "fst x = k \<or> fst x \<in> fst ` set h" if "x \<in> set (btree_insert k v h)" for x
    using that by (induction k v h rule: btree_insert.induct) (auto split: if_splits)
  with 2 show ?case by fastforce
qed simp

lemma btree_insert_subseq: "k \<notin> fst ` set h \<Longrightarrow> subseq h (btree_insert k v h)"
  by (induction k v h rule: btree_insert.induct) auto

lemma btree_insert_nonempty [simp]: "btree_insert k v h \<noteq> []"
  by (cases h) (auto split: if_splits)

definition window_ok :: "nat \<Rightarrow> 'm track \<Rightarrow> bool" where
  "window_ok buffer t \<longleftrightarrow> (case tk_resume t of
     None \<Rightarrow> True
   | Some r \<Rightarrow> ru_after r = tk_last_seq t \<and> ru_held r \<noteq> [] \<and> sorted_wrt (<) (map fst (ru_held r)) \<and>
       (\<forall>x \<in> set (ru_held r). tk_last_seq t < fst x) \<and> length (ru_held r) \<le> max 1 buffer)"

text \<open>Every held piece carries its own number.\<close>

definition numbered :: "('m \<Rightarrow> u64) \<Rightarrow> 'm track \<Rightarrow> bool" where
  "numbered num t \<longleftrightarrow> (case tk_resume t of None \<Rightarrow> True | Some r \<Rightarrow> \<forall>x \<in> set (ru_held r). num (snd x) = fst x)"

text \<open>What a decision may deliver: numbers above the last one, in order, ending at the new last one.\<close>

definition advances :: "('m \<Rightarrow> u64) \<Rightarrow> u64 \<Rightarrow> 'm list \<Rightarrow> u64 \<Rightarrow> bool" where
  "advances num low ms to \<longleftrightarrow> sorted_wrt (<) (map num ms) \<and> (\<forall>m \<in> set ms. low < num m) \<and>
     to = (if ms = [] then low else num (List.last ms))"

lemma advances_Nil [simp]: "advances num a [] b \<longleftrightarrow> b = a"
  by (auto simp: advances_def)

lemma advances_single [simp]: "advances num a [m] b \<longleftrightarrow> a < num m \<and> b = num m"
  by (auto simp: advances_def)

lemma flush_advances:
  assumes "window_ok buffer t" "numbered num t" "tk_resume t = Some r"
  shows "advances num (tk_last_seq t) (map snd (ru_held r)) (the (last_key (ru_held r)))"
    and "first_key (ru_held r) = Some (num (hd (map snd (ru_held r))))"
    and "tk_last_seq t < the (last_key (ru_held r))"
proof -
  have w: "ru_held r \<noteq> []" "sorted_wrt (<) (map fst (ru_held r))" "\<forall>x \<in> set (ru_held r). tk_last_seq t < fst x"
    using assms(1,3) by (simp_all add: window_ok_def)
  have n: "\<forall>x \<in> set (ru_held r). num (snd x) = fst x" using assms(2,3) by (simp add: numbered_def)
  then have eq: "map num (map snd (ru_held r)) = map fst (ru_held r)" by simp
  show "advances num (tk_last_seq t) (map snd (ru_held r)) (the (last_key (ru_held r)))"
    unfolding advances_def eq using w n by (auto simp: last_key_def last_map)
  show "first_key (ru_held r) = Some (num (hd (map snd (ru_held r))))"
    using w(1) n by (cases "ru_held r") (auto simp: first_key_def)
  show "tk_last_seq t < the (last_key (ru_held r))" using w by (simp add: last_key_def)
qed

lemma drain_held_eq:
  "drain_held t = (case tk_resume t of Some r \<Rightarrow> ((map snd (ru_held r), first_key (ru_held r), last_key (ru_held r)), t\<lparr>tk_resume := None\<rparr>)
     | None \<Rightarrow> (([], None, None), t\<lparr>tk_resume := None\<rparr>))"
  by (auto simp: drain_held_def split: option.splits)

text \<open>The cases of a decision on a tracked stream.\<close>

lemma observe_track_cases:
  assumes "observe_track buffer timeout gen seq msg now over t = (v, t')"
  obtains (changed) "tk_generation t \<noteq> gen" "v = GenerationChanged (tk_generation t) gen msg (case tk_resume t of None \<Rightarrow> 0 | Some r \<Rightarrow> length (ru_held r))"
      "t' = t\<lparr>tk_generation := gen, tk_last_seq := seq, tk_resume := None\<rparr>"
    | (dup) "tk_generation t = gen" "v = Duplicate" "t' = t" "seq \<le> tk_last_seq t \<or> (\<exists>r. tk_resume t = Some r \<and> seq \<in> fst ` set (ru_held r))"
    | (direct) "tk_generation t = gen" "tk_last_seq t < seq" "seq = tk_last_seq t + 1" "v = Deliver msg" "t' = t\<lparr>tk_last_seq := seq, tk_resume := None\<rparr>"
    | (skip) "tk_generation t = gen" "tk_last_seq t < seq" "tk_resume t = None" "v = Truncated seq [msg]" "t' = t\<lparr>tk_last_seq := seq\<rparr>"
    | (gap) "tk_generation t = gen" "tk_last_seq t < seq" "tk_resume t = None" "v = Gap (tk_last_seq t + 1) seq (tk_last_seq t)"
      "t' = t\<lparr>tk_resume := Some \<lparr>ru_after = tk_last_seq t, ru_asked_at = now, ru_held = [(seq, msg)]\<rparr>\<rparr>"
    | (held) r where "tk_generation t = gen" "tk_last_seq t < seq" "tk_resume t = Some r" "seq \<notin> fst ` set (ru_held r)" "v = Held (ru_after r)"
      "t' = t\<lparr>tk_resume := Some (r\<lparr>ru_held := btree_insert seq msg (ru_held r)\<rparr>)\<rparr>" "length (btree_insert seq msg (ru_held r)) < buffer"
    | (flush) r where "tk_generation t = gen" "tk_last_seq t < seq" "tk_resume t = Some r" "seq \<notin> fst ` set (ru_held r)"
      "v = Truncated (the (first_key (btree_insert seq msg (ru_held r)))) (map snd (btree_insert seq msg (ru_held r)))"
      "t' = t\<lparr>tk_resume := None, tk_last_seq := the (last_key (btree_insert seq msg (ru_held r)))\<rparr>"
proof -
  consider (c) "tk_generation t \<noteq> gen" | (d) "tk_generation t = gen" "seq \<le> tk_last_seq t"
    | (n) "tk_generation t = gen" "\<not> seq \<le> tk_last_seq t" "seq = tk_last_seq t + 1"
    | (w) "tk_generation t = gen" "\<not> seq \<le> tk_last_seq t" "seq \<noteq> tk_last_seq t + 1" by blast
  then show thesis
  proof cases
    case c
    with assms show thesis by (intro changed) (auto simp: observe_track_def drain_held_eq split: option.splits)
  next
    case d
    with assms show thesis by (intro dup) (auto simp: observe_track_def)
  next
    case n
    with assms show thesis by (intro direct) (auto simp: observe_track_def)
  next
    case w
    show thesis
    proof (cases "tk_resume t")
      case None
      show thesis
      proof (cases over)
        case True
        with assms w None show thesis by (intro skip) (auto simp: observe_track_def)
      next
        case False
        with assms w None show thesis by (intro gap) (auto simp: observe_track_def)
      qed
    next
      case (Some r)
      let ?h = "btree_insert seq msg (ru_held r)"
      show thesis
      proof (cases "seq \<in> fst ` set (ru_held r)")
        case True
        with assms w Some show thesis by (intro dup) (auto simp: observe_track_def)
      next
        case new: False
        show thesis
        proof (cases "\<not> timeout \<le> now - ru_asked_at r \<and> \<not> (buffer \<le> length ?h \<or> over)")
          case True
          with assms w Some new show thesis by (intro held[of r]) (auto simp: observe_track_def Let_def)
        next
          case False
          from assms w Some new have "(v, t') = (Truncated (the (first_key ?h)) (map snd ?h), t\<lparr>tk_resume := None, tk_last_seq := the (last_key ?h)\<rparr>)"
            unfolding observe_track_def drain_held_def Let_def using False by (simp split: if_splits)
          with w Some new show thesis by (intro flush[of r]) auto
        qed
      qed
    qed
  qed
qed

lemma grown_window:
  assumes "window_ok buffer t" "tk_resume t = Some r" "tk_last_seq t < seq" "seq \<notin> fst ` set (ru_held r)"
    and "length (btree_insert seq msg (ru_held r)) \<le> max 1 n"
  shows "window_ok n (t\<lparr>tk_resume := Some (r\<lparr>ru_held := btree_insert seq msg (ru_held r)\<rparr>)\<rparr>)"
  using assms btree_insert_sorted[of "ru_held r" seq msg] btree_insert_set[OF assms(4), of msg]
  by (simp add: window_ok_def)

lemma grown_numbered:
  assumes "numbered num t" "tk_resume t = Some r" "seq \<notin> fst ` set (ru_held r)" "num msg = seq"
  shows "numbered num (t\<lparr>tk_resume := Some (r\<lparr>ru_held := btree_insert seq msg (ru_held r)\<rparr>)\<rparr>)"
  using assms btree_insert_set[OF assms(3), of msg] by (simp add: numbered_def)

lemma observe_track_step:
  assumes ok: "window_ok buffer t" and num: "numbered num t" "num msg = seq"
    and obs: "observe_track buffer timeout gen seq msg now over t = (v, t')"
  shows "window_ok buffer t'" "numbered num t'" "tk_generation t' = gen"
    and "tk_generation t = gen \<Longrightarrow> advances num (tk_last_seq t) (into_delivered v) (tk_last_seq t')"
    and "tk_generation t \<noteq> gen \<Longrightarrow> into_delivered v = [msg] \<and> tk_last_seq t' = seq"
    and "v = Truncated ov ms \<Longrightarrow> ms \<noteq> [] \<and> ov = num (hd ms)"
proof -
  have *: "window_ok buffer t' \<and> numbered num t' \<and> tk_generation t' = gen \<and>
      (if tk_generation t = gen then advances num (tk_last_seq t) (into_delivered v) (tk_last_seq t') else into_delivered v = [msg] \<and> tk_last_seq t' = seq) \<and>
      (\<forall>ov ms. v = Truncated ov ms \<longrightarrow> ms \<noteq> [] \<and> ov = num (hd ms))"
    using obs
  proof (cases rule: observe_track_cases)
    case (held r)
    with grown_window[OF ok held(3,2,4), of msg buffer] grown_numbered[OF num(1) held(3,4) num(2)] show ?thesis by simp
  next
    case (flush r)
    let ?h = "btree_insert seq msg (ru_held r)" and ?t = "t\<lparr>tk_resume := Some (r\<lparr>ru_held := btree_insert seq msg (ru_held r)\<rparr>)\<rparr>"
    have "window_ok (length ?h) ?t" by (rule grown_window[OF ok flush(3,2,4)]) simp
    from flush_advances[OF this grown_numbered[OF num(1) flush(3,4) num(2)]]
    have "advances num (tk_last_seq t) (map snd ?h) (the (last_key ?h))" "first_key ?h = Some (num (hd (map snd ?h)))" by simp_all
    with flush show ?thesis by (simp add: window_ok_def numbered_def)
  qed (use ok num in \<open>auto simp: window_ok_def numbered_def\<close>)
  then show "window_ok buffer t'" "numbered num t'" "tk_generation t' = gen" by blast+
  show "tk_generation t = gen \<Longrightarrow> advances num (tk_last_seq t) (into_delivered v) (tk_last_seq t')"
    "tk_generation t \<noteq> gen \<Longrightarrow> into_delivered v = [msg] \<and> tk_last_seq t' = seq" "v = Truncated ov ms \<Longrightarrow> ms \<noteq> [] \<and> ov = num (hd ms)"
    using * by simp_all
qed

text \<open>The fate of a held piece when its stream is observed.\<close>

lemma observe_track_window:
  assumes "window_ok buffer t" "tk_resume t = Some r" "observe_track buffer timeout gen seq msg now over t = (v, t')"
  shows "(\<exists>r'. tk_resume t' = Some r' \<and> ru_after r' = ru_after r \<and> subseq (ru_held r) (ru_held r')) \<or>
     (\<exists>ov ms. v = Truncated ov ms \<and> subseq (map snd (ru_held r)) ms) \<or>
     (v = Deliver msg \<and> seq = ru_after r + 1 \<and> gen = tk_generation t) \<or>
     (v = GenerationChanged (tk_generation t) gen msg (length (ru_held r)) \<and> gen \<noteq> tk_generation t)"
  using assms(3)
proof (cases rule: observe_track_cases)
  case (held r')
  then show ?thesis using assms(2) btree_insert_subseq[OF held(4)] by auto
next
  case (flush r')
  then show ?thesis using assms(2) subseq_map[OF btree_insert_subseq[OF flush(4)]] by auto
qed (use assms(1,2) in \<open>auto simp: window_ok_def\<close>)

section \<open>Laws of the collection\<close>

definition streams_inv :: "('m \<Rightarrow> u64) \<Rightarrow> ('k, 'm) streams \<Rightarrow> bool" where
  "streams_inv num s \<longleftrightarrow> distinct (sx_order s) \<and> dom (map_of (sx_seen s)) = set (sx_order s) \<and> distinct (map fst (sx_seen s)) \<and>
     1 \<le> sx_max_streams s \<and> length (sx_order s) \<le> sx_max_streams s \<and>
     (\<forall>k t. map_of (sx_seen s) k = Some t \<longrightarrow> window_ok (sx_resume_buffer s) t \<and> numbered num t)"

lemma streams_invD:
  assumes "streams_inv num s"
  shows "distinct (sx_order s)" "distinct (map fst (sx_seen s))" "set (sx_order s) = fst ` set (sx_seen s)"
    and "map_of (sx_seen s) k = Some t \<Longrightarrow> window_ok (sx_resume_buffer s) t \<and> numbered num t"
    and "length (sx_order s) \<le> sx_max_streams s"
  using assms by (simp_all add: streams_inv_def flip: dom_map_of_conv_image_fst)

lemma streams_inv_evicted [simp]: "streams_inv num (s\<lparr>sx_evicted := e\<rparr>) \<longleftrightarrow> streams_inv num s"
  unfolding streams_inv_def by simp

lemma touch_laws [simp]: "distinct order \<Longrightarrow> distinct (touch k order)" "set (touch k order) = set order" "length (touch k order) = length order"
proof -
  show "distinct order \<Longrightarrow> distinct (touch k order)" by (auto simp: touch_def)
  show "set (touch k order) = set order" by (auto simp: touch_def notin_set_remove1 dest: set_remove1_subset[THEN subsetD] in_set_remove1[THEN iffD2])
  show "length (touch k order) = length order" using length_pos_if_in_set[of k order] by (auto simp: touch_def length_remove1)
qed

definition evicted_as :: "'k \<Rightarrow> 'm track \<Rightarrow> ('k, 'm) evicted_stream \<Rightarrow> bool" where
  "evicted_as k t e \<longleftrightarrow> es_key e = k \<and> es_generation e = tk_generation t \<and> es_last_seq e = tk_last_seq t \<and>
     es_flushed e = (case tk_resume t of None \<Rightarrow> [] | Some r \<Rightarrow> map snd (ru_held r)) \<and>
     es_oldest_valid e = (case tk_resume t of None \<Rightarrow> None | Some r \<Rightarrow> first_key (ru_held r))"

lemma make_room_laws:
  assumes "distinct order" "dom (map_of seen) = set order" "distinct (map fst seen)" "1 \<le> mx"
    and "make_room mx order seen ev = (order', seen', ev')"
  shows "suffix order' order \<and> length order' < mx \<and> dom (map_of seen') = set order' \<and> distinct (map fst seen') \<and>
    (\<forall>k \<in> set order'. map_of seen' k = map_of seen k) \<and> set ev \<subseteq> set ev' \<and>
    (\<forall>k t. map_of seen k = Some t \<longrightarrow> k \<notin> set order' \<longrightarrow> (\<exists>e \<in> set ev'. evicted_as k t e))"
  using assms
proof (induction order arbitrary: seen ev)
  case Nil
  then show ?case by auto
next
  case (Cons v order)
  show ?case
  proof (cases "mx \<le> length (v # order)")
    case False
    then show ?thesis using Cons.prems by auto
  next
    case True
    obtain t where t: "map_of seen v = Some t" using Cons.prems(2) by force
    define e where "e = \<lparr>es_key = v, es_generation = tk_generation t, es_last_seq = tk_last_seq t,
      es_flushed = fst (fst (drain_held t)), es_oldest_valid = fst (snd (fst (drain_held t)))\<rparr>"
    have e: "evicted_as v t e" by (simp add: evicted_as_def e_def drain_held_eq split: option.splits)
    have go: "make_room mx order (AList.delete v seen) (ev @ [e]) = (order', seen', ev')"
      using Cons.prems(5) True t by (simp add: e_def case_prod_beta)
    have d: "dom (map_of (AList.delete v seen)) = set order" using Cons.prems(1,2) by (auto simp: delete_conv')
    have IH: "suffix order' order \<and> length order' < mx \<and> dom (map_of seen') = set order' \<and> distinct (map fst seen') \<and>
      (\<forall>k \<in> set order'. map_of seen' k = map_of (AList.delete v seen) k) \<and> set (ev @ [e]) \<subseteq> set ev' \<and>
      (\<forall>k t. map_of (AList.delete v seen) k = Some t \<longrightarrow> k \<notin> set order' \<longrightarrow> (\<exists>e \<in> set ev'. evicted_as k t e))"
      by (rule Cons.IH) (use Cons.prems d go in \<open>simp_all add: distinct_delete\<close>)
    have "v \<notin> set order'" using IH Cons.prems(1) by (auto dest: set_mono_suffix)
    moreover have "\<exists>e \<in> set ev'. evicted_as k t' e" if "map_of seen k = Some t'" "k \<notin> set order'" for k t'
      using that IH e t by (cases "k = v") auto
    moreover have "\<forall>k \<in> set order'. map_of (AList.delete v seen) k = map_of seen k"
      using \<open>v \<notin> set order'\<close> by (auto simp: delete_conv')
    ultimately show ?thesis using IH by (simp add: suffix_ConsI)
  qed
qed

lemma admit_laws:
  assumes "streams_inv num s" "map_of (sx_seen s) (sk_key mark) = None"
  shows "streams_inv num (admit mark s)"
    and "map_of (sx_seen (admit mark s)) (sk_key mark) = Some \<lparr>tk_generation = sk_generation mark, tk_last_seq = sk_seq mark, tk_resume = None\<rparr>"
    and "k \<noteq> sk_key mark \<Longrightarrow> map_of (sx_seen s) k = Some t \<Longrightarrow>
      map_of (sx_seen (admit mark s)) k = Some t \<or> map_of (sx_seen (admit mark s)) k = None \<and> (\<exists>e \<in> set (sx_evicted (admit mark s)). evicted_as k t e)"
    and "k \<noteq> sk_key mark \<Longrightarrow> map_of (sx_seen s) k = None \<Longrightarrow> map_of (sx_seen (admit mark s)) k = None"
proof -
  obtain order seen ev where m: "make_room (sx_max_streams s) (sx_order s) (sx_seen s) (sx_evicted s) = (order, seen, ev)" by (metis prod_cases3)
  have i: "distinct (sx_order s)" "dom (map_of (sx_seen s)) = set (sx_order s)" "distinct (map fst (sx_seen s))" "1 \<le> sx_max_streams s"
    using assms(1) by (simp_all add: streams_inv_def)
  note L = make_room_laws[OF i m]
  have nin: "sk_key mark \<notin> set order" using L assms(2) i(2) by (metis domIff set_mono_suffix subsetD)
  have seen: "map_of seen k = (if k \<in> set order then map_of (sx_seen s) k else None)" for k using L by (cases "k \<in> set order") auto
  have a: "admit mark s = s\<lparr>sx_order := order @ [sk_key mark],
      sx_seen := AList.update (sk_key mark) \<lparr>tk_generation = sk_generation mark, tk_last_seq = sk_seq mark, tk_resume = None\<rparr> seen, sx_evicted := ev\<rparr>"
    by (simp add: admit_def m)
  show "streams_inv num (admit mark s)"
    using assms(1) L nin i(1) unfolding a streams_inv_def
    by (auto simp: update_conv' distinct_update seen window_ok_def[of _ "\<lparr>tk_generation = _, tk_last_seq = _, tk_resume = None\<rparr>"] numbered_def[of _ "\<lparr>tk_generation = _, tk_last_seq = _, tk_resume = None\<rparr>"] suffix_def split: if_splits)
  show "map_of (sx_seen (admit mark s)) (sk_key mark) = Some \<lparr>tk_generation = sk_generation mark, tk_last_seq = sk_seq mark, tk_resume = None\<rparr>"
    by (simp add: a update_conv')
  show "k \<noteq> sk_key mark \<Longrightarrow> map_of (sx_seen s) k = Some t \<Longrightarrow>
      map_of (sx_seen (admit mark s)) k = Some t \<or> map_of (sx_seen (admit mark s)) k = None \<and> (\<exists>e \<in> set (sx_evicted (admit mark s)). evicted_as k t e)"
    using L by (simp add: a update_conv' seen)
  show "k \<noteq> sk_key mark \<Longrightarrow> map_of (sx_seen s) k = None \<Longrightarrow> map_of (sx_seen (admit mark s)) k = None"
    by (simp add: a update_conv' seen)
qed

text \<open>How one operation may change one stream, given what it delivers for it.\<close>

definition stream_moves :: "('m \<Rightarrow> u64) \<Rightarrow> 'm track option \<Rightarrow> 'm list \<Rightarrow> 'm track option \<Rightarrow> bool" where
  "stream_moves num x ms y \<longleftrightarrow> (case y of
     None \<Rightarrow> ms = []
   | Some t' \<Rightarrow> if (case x of None \<Rightarrow> False | Some t \<Rightarrow> tk_generation t = tk_generation t')
       then advances num (tk_last_seq (the x)) ms (tk_last_seq t') else map num ms = [tk_last_seq t'])"

lemma stream_moves_same [simp]: "stream_moves num x [] x"
  by (auto simp: stream_moves_def split: option.splits)

lemma observe_laws:
  assumes "streams_inv num s" "num msg = sk_seq mark" "observe_capped mark msg now over s = (v, s')"
  shows "streams_inv num s'" "stream_moves num (map_of (sx_seen s) k) (if k = sk_key mark then into_delivered v else []) (map_of (sx_seen s') k)"
proof -
  have "streams_inv num s' \<and> stream_moves num (map_of (sx_seen s) k) (if k = sk_key mark then into_delivered v else []) (map_of (sx_seen s') k)"
  proof (cases "map_of (sx_seen s) (sk_key mark)")
    case None
    then have o: "v = Deliver msg" "s' = admit mark s" using assms(3) by (simp_all add: observe_capped_def)
    note A = admit_laws[OF assms(1) None]
    have "stream_moves num (map_of (sx_seen s) k) [] (map_of (sx_seen s') k)" if "k \<noteq> sk_key mark"
      using A(3,4)[OF that] o by (cases "map_of (sx_seen s) k") (auto simp: stream_moves_def split: option.splits)
    with A(1,2) o None assms(2) show ?thesis by (auto simp: stream_moves_def)
  next
    case (Some t)
    then obtain t' where o: "observe_track (sx_resume_buffer s) (sx_resume_timeout s) (sk_generation mark) (sk_seq mark) msg now over t = (v, t')"
      "s' = s\<lparr>sx_order := touch (sk_key mark) (sx_order s), sx_seen := AList.update (sk_key mark) t' (sx_seen s)\<rparr>"
      using assms(3) by (auto simp: observe_capped_def split: prod.splits)
    have t: "window_ok (sx_resume_buffer s) t" "numbered num t" using assms(1) Some by (auto simp: streams_inv_def)
    note S = observe_track_step[OF t assms(2) o(1)]
    have "dom (map_of (AList.update (sk_key mark) t' (sx_seen s))) = set (sx_order s)"
      using assms(1) Some by (auto simp: streams_inv_def update_conv')
    then have "streams_inv num s'"
      using assms(1) S(1,2) unfolding o(2) streams_inv_def by (auto simp: distinct_update update_conv' split: if_splits)
    moreover have "stream_moves num (Some t) (into_delivered v) (Some t')"
      using S(3-5) assms(2) by (auto simp: stream_moves_def)
    ultimately show ?thesis using Some by (simp add: o(2) update_conv')
  qed
  then show "streams_inv num s'" "stream_moves num (map_of (sx_seen s) k) (if k = sk_key mark then into_delivered v else []) (map_of (sx_seen s') k)"
    by simp_all
qed

lemma streams_inv_update:
  assumes "streams_inv num s" "map_of (sx_seen s) key = Some t" "window_ok (sx_resume_buffer s) t'" "numbered num t'"
  shows "streams_inv num (s\<lparr>sx_seen := AList.update key t' (sx_seen s)\<rparr>)"
proof -
  have "dom (map_of (AList.update key t' (sx_seen s))) = set (sx_order s)"
    using assms(1,2) by (auto simp: streams_inv_def update_conv')
  then show ?thesis using assms unfolding streams_inv_def by (auto simp: distinct_update update_conv' split: if_splits)
qed

text \<open>Closing a window delivers exactly what it held.\<close>

definition held_pieces :: "'m track \<Rightarrow> 'm list" where
  "held_pieces t = (case tk_resume t of None \<Rightarrow> [] | Some r \<Rightarrow> map snd (ru_held r))"

definition closed_track :: "'m track \<Rightarrow> 'm track" where
  "closed_track t = (case tk_resume t of None \<Rightarrow> t | Some r \<Rightarrow> t\<lparr>tk_resume := None, tk_last_seq := the (last_key (ru_held r))\<rparr>)"

lemma closed_track_simps [simp]:
  "tk_resume (closed_track t) = None" "tk_generation (closed_track t) = tk_generation t"
  "closed_track (closed_track t) = closed_track t" "held_pieces (closed_track t) = []"
  "window_ok buffer (closed_track t)" "numbered num (closed_track t)" "tk_resume t = None \<Longrightarrow> closed_track t = t"
  by (auto simp: closed_track_def held_pieces_def window_ok_def numbered_def split: option.splits)

lemma closed_advances:
  assumes "window_ok buffer t" "numbered num t"
  shows "advances num (tk_last_seq t) (held_pieces t) (tk_last_seq (closed_track t))"
  using flush_advances(1)[OF assms] by (auto simp: closed_track_def held_pieces_def split: option.splits)

lemma collapse_laws:
  assumes "streams_inv num s" "collapse key s = (x, s')"
  shows "streams_inv num s'"
    and "map_of (sx_seen s') k = (if k = key then map_option closed_track (map_of (sx_seen s) k) else map_of (sx_seen s) k)"
    and "(case x of None \<Rightarrow> [] | Some tr \<Rightarrow> tr_flushed tr) = (case map_of (sx_seen s) key of None \<Rightarrow> [] | Some t \<Rightarrow> held_pieces t)"
    and "x = Some tr \<Longrightarrow> tr_key tr = key \<and> tr_flushed tr \<noteq> [] \<and> tr_oldest_valid tr = num (hd (tr_flushed tr)) \<and> stream_generation key s = Some (tr_generation tr)"
proof -
  have "streams_inv num s' \<and> (\<forall>k. map_of (sx_seen s') k = (if k = key then map_option closed_track (map_of (sx_seen s) k) else map_of (sx_seen s) k)) \<and>
    (case x of None \<Rightarrow> [] | Some tr \<Rightarrow> tr_flushed tr) = (case map_of (sx_seen s) key of None \<Rightarrow> [] | Some t \<Rightarrow> held_pieces t) \<and>
    (\<forall>tr. x = Some tr \<longrightarrow> tr_key tr = key \<and> tr_flushed tr \<noteq> [] \<and> tr_oldest_valid tr = num (hd (tr_flushed tr)) \<and> stream_generation key s = Some (tr_generation tr))"
  proof (cases "map_of (sx_seen s) key")
    case None
    then show ?thesis using assms by (auto simp: collapse_def)
  next
    case (Some t)
    have t: "window_ok (sx_resume_buffer s) t" "numbered num t" using assms(1) Some by (auto simp: streams_inv_def)
    show ?thesis
    proof (cases "tk_resume t")
      case None
      then have "x = None" "s' = s\<lparr>sx_seen := AList.update key t (sx_seen s)\<rparr>"
        using assms(2) Some by (auto simp: collapse_def drain_held_def)
      then show ?thesis using assms(1) Some None by (simp add: update_triv held_pieces_def)
    next
      case r: (Some r)
      note F = flush_advances[OF t r]
      have ne: "ru_held r \<noteq> []" using t(1) r by (simp add: window_ok_def)
      then have lk: "last_key (ru_held r) = Some (the (last_key (ru_held r)))" by (simp add: last_key_def)
      have o: "x = Some \<lparr>tr_key = key, tr_generation = tk_generation t, tr_oldest_valid = num (hd (map snd (ru_held r))), tr_flushed = map snd (ru_held r)\<rparr>"
        "s' = s\<lparr>sx_seen := AList.update key (closed_track t) (sx_seen s)\<rparr>"
        using assms(2) Some r F(2,3) lk by (auto simp: collapse_def drain_held_eq closed_track_def max_def split: option.splits if_splits)
      have "streams_inv num s'" unfolding o(2) by (rule streams_inv_update[OF assms(1) Some]) simp_all
      then show ?thesis using o Some r ne by (simp add: update_conv' held_pieces_def stream_generation_def)
    qed
  qed
  then show "streams_inv num s'" "map_of (sx_seen s') k = (if k = key then map_option closed_track (map_of (sx_seen s) k) else map_of (sx_seen s) k)"
    "(case x of None \<Rightarrow> [] | Some tr \<Rightarrow> tr_flushed tr) = (case map_of (sx_seen s) key of None \<Rightarrow> [] | Some t \<Rightarrow> held_pieces t)"
    "x = Some tr \<Longrightarrow> tr_key tr = key \<and> tr_flushed tr \<noteq> [] \<and> tr_oldest_valid tr = num (hd (tr_flushed tr)) \<and> stream_generation key s = Some (tr_generation tr)"
    by blast+
qed

section \<open>Streams in use\<close>

datatype ('k, 'm) stream_op = SObserve "'k stream_mark" 'm instant bool | SExpire instant | SCloseAll
  | SRearm instant | SShift duration | SForget 'k | SCollectEvicted

definition flushes :: "('k, 'm) truncation list \<Rightarrow> ('k \<times> 'm list) list" where
  "flushes trs = map (\<lambda>t. (tr_key t, tr_flushed t)) trs"

text \<open>One call, with the pieces it delivers per stream. The pieces of a stream that was evicted are
  reported by \<open>drain_evicted\<close>.\<close>

fun stream_do :: "('k, 'm) stream_op \<Rightarrow> ('k, 'm) streams \<Rightarrow> ('k \<times> 'm list) list \<times> ('k, 'm) streams" where
  "stream_do (SObserve mark msg now over) s = (let (v, s') = observe_capped mark msg now over s in ([(sk_key mark, into_delivered v)], s'))"
| "stream_do (SExpire now) s = (let (out, s') = expire_resumes now s in (flushes out, s'))"
| "stream_do SCloseAll s = (let (out, s') = close_resumes s in (flushes out, s'))"
| "stream_do (SRearm now) s = ([], rearm_resumes now s)"
| "stream_do (SShift d) s = ([], shift_resumes d s)"
| "stream_do (SForget k) s = ([], forget k s)"
| "stream_do SCollectEvicted s = ([], snd (drain_evicted s))"

definition delivered_for :: "'k \<Rightarrow> ('k \<times> 'm list) list \<Rightarrow> 'm list" where
  "delivered_for k outs = concat (map snd (filter (\<lambda>(k', _). k' = k) outs))"

lemma delivered_for_simps [simp]:
  "delivered_for k [] = []" "delivered_for k ((k', ms) # outs) = (if k' = k then ms else []) @ delivered_for k outs"
  by (simp_all add: delivered_for_def)

lemma collapse_all_laws:
  assumes "streams_inv num s" "collapse_all keys s = (out, s')"
  shows "streams_inv num s' \<and>
    map_of (sx_seen s') k = (if k \<in> set keys then map_option closed_track (map_of (sx_seen s) k) else map_of (sx_seen s) k) \<and>
    delivered_for k (flushes out) = (if k \<in> set keys then case map_of (sx_seen s) k of None \<Rightarrow> [] | Some t \<Rightarrow> held_pieces t else [])"
  using assms
proof (induction keys arbitrary: s out)
  case Nil
  then show ?case by (simp add: flushes_def)
next
  case (Cons key keys)
  obtain x s1 where c: "collapse key s = (x, s1)" by fastforce
  obtain out1 where r: "collapse_all keys s1 = (out1, s')" "out = (case x of None \<Rightarrow> out1 | Some t \<Rightarrow> t # out1)"
    using Cons.prems(2) c by (auto simp: Let_def split: prod.splits)
  note L = collapse_laws[OF Cons.prems(1) c]
  have "delivered_for k (flushes out) = (if k = key then case map_of (sx_seen s) key of None \<Rightarrow> [] | Some t \<Rightarrow> held_pieces t else []) @ delivered_for k (flushes out1)"
    using L(3,4) by (cases x) (auto simp: r(2) flushes_def)
  then show ?case
    using Cons.IH[OF L(1) r(1)] L(2)[of k] by (auto split: option.splits)
qed

lemma collapse_all_moves:
  assumes "streams_inv num s" "collapse_all keys s = (out, s')"
  shows "stream_moves num (map_of (sx_seen s) k) (delivered_for k (flushes out)) (map_of (sx_seen s') k)"
proof (cases "map_of (sx_seen s) k")
  case None
  then show ?thesis using collapse_all_laws[OF assms, of k] by (simp add: stream_moves_def)
next
  case (Some t)
  then have "window_ok (sx_resume_buffer s) t" "numbered num t" using assms(1) by (auto simp: streams_inv_def)
  from closed_advances[OF this] show ?thesis
    using collapse_all_laws[OF assms, of k] Some by (simp add: stream_moves_def)
qed

lemma map_asked_laws:
  assumes "streams_inv num s"
  shows "streams_inv num (map_asked f s)" "stream_moves num (map_of (sx_seen s) k) [] (map_of (sx_seen (map_asked f s)) k)"
    "map_of (sx_seen (map_asked f s)) k = map_option (\<lambda>t. t\<lparr>tk_resume := map_option (\<lambda>r. r\<lparr>ru_asked_at := f (ru_asked_at r)\<rparr>) (tk_resume t)\<rparr>) (map_of (sx_seen s) k)"
proof -
  let ?g = "\<lambda>t. t\<lparr>tk_resume := map_option (\<lambda>r. r\<lparr>ru_asked_at := f (ru_asked_at r)\<rparr>) (tk_resume t)\<rparr>"
  have m: "map_of (sx_seen (map_asked f s)) k = map_option ?g (map_of (sx_seen s) k)" for k by (simp add: map_asked_def map_of_map)
  have "window_ok b (?g t) = window_ok b t" "numbered num (?g t) = numbered num t" for b t
    by (auto simp: window_ok_def numbered_def split: option.splits)
  moreover have "dom (map_of (sx_seen (map_asked f s))) = dom (map_of (sx_seen s))" by (auto simp: m)
  moreover have "map fst (sx_seen (map_asked f s)) = map fst (sx_seen s)" by (auto simp: map_asked_def)
  ultimately show "streams_inv num (map_asked f s)"
    using assms m by (auto simp: streams_inv_def map_asked_def simp del: map_map)
  show "stream_moves num (map_of (sx_seen s) k) [] (map_of (sx_seen (map_asked f s)) k)"
    by (auto simp: m stream_moves_def split: option.splits)
  show "map_of (sx_seen (map_asked f s)) k = map_option ?g (map_of (sx_seen s) k)" by (rule m)
qed

fun carries :: "('m \<Rightarrow> u64) \<Rightarrow> ('k, 'm) stream_op \<Rightarrow> bool" where
  "carries num (SObserve mark msg now over) = (num msg = sk_seq mark)"
| "carries num _ = True"

lemma forget_laws:
  assumes "streams_inv num s"
  shows "streams_inv num (forget j s)" "stream_moves num (map_of (sx_seen s) k) [] (map_of (sx_seen (forget j s)) k)"
proof -
  have f: "map_of (sx_seen (forget j s)) = (map_of (sx_seen s))(j := None)" by (auto simp: forget_def delete_conv')
  have "length (filter (\<lambda>k. k \<noteq> j) (sx_order s)) \<le> sx_max_streams s"
    using assms length_filter_le[of "\<lambda>k. k \<noteq> j" "sx_order s"] unfolding streams_inv_def by linarith
  moreover have "set (filter (\<lambda>k. k \<noteq> j) (sx_order s)) = dom (map_of (AList.delete j (sx_seen s)))"
    using assms by (auto simp: streams_inv_def delete_conv')
  moreover have "\<forall>k t. map_of (sx_seen (forget j s)) k = Some t \<longrightarrow> window_ok (sx_resume_buffer s) t \<and> numbered num t"
    unfolding f using streams_invD(4)[OF assms] by simp
  ultimately show "streams_inv num (forget j s)"
    using assms streams_invD(1,2,3)[OF assms] unfolding streams_inv_def[of num "forget j s"]
    by (auto simp: forget_def distinct_delete streams_inv_def[of num s] simp del: map_of_eq_Some_iff)
  show "stream_moves num (map_of (sx_seen s) k) [] (map_of (sx_seen (forget j s)) k)"
    by (cases "k = j") (simp_all add: f, simp add: stream_moves_def)
qed

lemma stream_step:
  assumes "streams_inv num s" "carries num op" "stream_do op s = (out, s')"
  shows "streams_inv num s'" "stream_moves num (map_of (sx_seen s) k) (delivered_for k out) (map_of (sx_seen s') k)"
proof -
  have "streams_inv num s' \<and> stream_moves num (map_of (sx_seen s) k) (delivered_for k out) (map_of (sx_seen s') k)"
  proof (cases op)
    case (SObserve mark msg now over)
    obtain v t where o: "observe_capped mark msg now over s = (v, t)" by fastforce
    with SObserve assms(3) have "out = [(sk_key mark, into_delivered v)]" "s' = t" by simp_all
    with observe_laws(1)[OF assms(1) _ o] observe_laws(2)[OF assms(1) _ o, of k] assms(2) SObserve show ?thesis by (auto split: if_splits)
  next
    case (SExpire now)
    then obtain trs where "expire_resumes now s = (trs, s')" "out = flushes trs" using assms(3) by (auto split: prod.splits)
    with collapse_all_laws[OF assms(1)] collapse_all_moves[OF assms(1)] show ?thesis unfolding expire_resumes_def by blast
  next
    case SCloseAll
    then obtain trs where "close_resumes s = (trs, s')" "out = flushes trs" using assms(3) by (auto split: prod.splits)
    with collapse_all_laws[OF assms(1)] collapse_all_moves[OF assms(1)] show ?thesis unfolding close_resumes_def by blast
  next
    case (SForget j)
    with assms(3) have "out = []" "s' = forget j s" by simp_all
    with forget_laws[OF assms(1)] show ?thesis by simp
  next
    case SCollectEvicted
    with assms(1,3) show ?thesis by (auto simp: drain_evicted_def)
  qed (use assms map_asked_laws[OF assms(1)] in \<open>auto simp: rearm_resumes_def shift_resumes_def\<close>)
  then show "streams_inv num s'" "stream_moves num (map_of (sx_seen s) k) (delivered_for k out) (map_of (sx_seen s') k)" by simp_all
qed

text \<open>
  A run with a record, per stream, of the numbers delivered for its present incarnation: the record
  starts anew when the stream is first seen, seen again after it was forgotten, or seen in another
  incarnation.
\<close>

definition log_step :: "('m \<Rightarrow> u64) \<Rightarrow> ('k, 'm) streams \<Rightarrow> ('k \<times> 'm list) list \<Rightarrow> ('k, 'm) streams \<Rightarrow> ('k \<Rightarrow> u64 list) \<Rightarrow> 'k \<Rightarrow> u64 list" where
  "log_step num s out s' lg k = (
     if stream_generation k s \<noteq> None \<and> stream_generation k s' = stream_generation k s
     then lg k @ map num (delivered_for k out) else map num (delivered_for k out))"

fun stream_run :: "('m \<Rightarrow> u64) \<Rightarrow> ('k, 'm) stream_op list \<Rightarrow> ('k, 'm) streams \<times> ('k \<Rightarrow> u64 list) \<Rightarrow> ('k, 'm) streams \<times> ('k \<Rightarrow> u64 list)" where
  "stream_run num [] x = x"
| "stream_run num (op # ops) x = (let (out, s') = stream_do op (fst x) in stream_run num ops (s', log_step num (fst x) out s' (snd x)))"

definition log_inv :: "('k, 'm) streams \<Rightarrow> ('k \<Rightarrow> u64 list) \<Rightarrow> bool" where
  "log_inv s lg \<longleftrightarrow> (\<forall>k t. map_of (sx_seen s) k = Some t \<longrightarrow> lg k \<noteq> [] \<and> sorted_wrt (<) (lg k) \<and> List.last (lg k) = tk_last_seq t)"

lemma log_extend:
  assumes "xs \<noteq> []" "sorted_wrt (<) xs" "advances num (List.last xs) ms b"
  shows "sorted_wrt (<) (xs @ map num ms)" "List.last (xs @ map num ms) = b"
proof -
  have "x \<le> List.last xs" if "x \<in> set xs" for x
  proof -
    have "sorted_wrt (<) (butlast xs @ [List.last xs])" using assms(1,2) by simp
    moreover have "x \<in> set (butlast xs @ [List.last xs])" using assms(1) that by simp
    ultimately show ?thesis by (auto simp: sorted_wrt_append)
  qed
  then show "sorted_wrt (<) (xs @ map num ms)"
    using assms(2,3) by (auto simp: advances_def sorted_wrt_append intro: le_less_trans)
  show "List.last (xs @ map num ms) = b" using assms(3) by (auto simp: advances_def last_map)
qed

lemma log_step_inv:
  assumes "log_inv s lg" "\<And>k. stream_moves num (map_of (sx_seen s) k) (delivered_for k out) (map_of (sx_seen s') k)"
  shows "log_inv s' (log_step num s out s' lg)"
  unfolding log_inv_def
proof (intro allI impI)
  fix k t' assume t': "map_of (sx_seen s') k = Some t'"
  note m = assms(2)[of k, unfolded t']
  show "log_step num s out s' lg k \<noteq> [] \<and> sorted_wrt (<) (log_step num s out s' lg k) \<and> List.last (log_step num s out s' lg k) = tk_last_seq t'"
  proof (cases "\<exists>t. map_of (sx_seen s) k = Some t \<and> tk_generation t = tk_generation t'")
    case True
    then obtain t where t: "map_of (sx_seen s) k = Some t" "tk_generation t = tk_generation t'" by blast
    then have l: "lg k \<noteq> []" "sorted_wrt (<) (lg k)" "List.last (lg k) = tk_last_seq t" using assms(1) by (auto simp: log_inv_def)
    have "advances num (List.last (lg k)) (delivered_for k out) (tk_last_seq t')" using m t l(3) by (simp add: stream_moves_def)
    from log_extend[OF l(1,2) this] l(1) t t' show ?thesis by (simp add: log_step_def stream_generation_def)
  next
    case False
    then have "map num (delivered_for k out) = [tk_last_seq t']" using m by (auto simp: stream_moves_def split: option.splits if_splits)
    with False t' show ?thesis by (auto simp: log_step_def stream_generation_def)
  qed
qed

lemma stream_run_inv:
  "streams_inv num (fst x) \<Longrightarrow> log_inv (fst x) (snd x) \<Longrightarrow> \<forall>op \<in> set ops. carries num op \<Longrightarrow>
     streams_inv num (fst (stream_run num ops x)) \<and> log_inv (fst (stream_run num ops x)) (snd (stream_run num ops x))"
proof (induction ops arbitrary: x)
  case (Cons op ops)
  obtain out s' where d: "stream_do op (fst x) = (out, s')" by fastforce
  have "carries num op" using Cons.prems(3) by simp
  note S = stream_step[OF Cons.prems(1) this d]
  from Cons.IH[of "(s', log_step num (fst x) out s' (snd x))"] Cons.prems(3) S(1) log_step_inv[OF Cons.prems(2) S(2)] d show ?case by simp
qed simp

lemma new_streams_inv: "streams_inv num (streams_new mx buf timeout)" "log_inv (streams_new mx buf timeout) lg"
  by (simp_all add: streams_inv_def streams_new_def log_inv_def)

definition streams_after :: "nat \<Rightarrow> nat \<Rightarrow> duration \<Rightarrow> ('m \<Rightarrow> u64) \<Rightarrow> ('k, 'm) stream_op list \<Rightarrow> ('k, 'm) streams \<times> ('k \<Rightarrow> u64 list)" where
  "streams_after mx buf timeout num ops = stream_run num ops (streams_new mx buf timeout, \<lambda>_. [])"

lemma limits_fixed:
  "sx_max_streams (snd (stream_do op s)) = sx_max_streams s" "sx_resume_buffer (snd (stream_do op s)) = sx_resume_buffer s"
proof -
  have c: "sx_max_streams (snd (collapse_all ks t)) = sx_max_streams t" "sx_resume_buffer (snd (collapse_all ks t)) = sx_resume_buffer t" for ks and t :: "('a, 'b) streams"
    by (induction ks arbitrary: t) (auto simp: Let_def case_prod_beta collapse_def split: option.splits prod.splits)
  show "sx_max_streams (snd (stream_do op s)) = sx_max_streams s" "sx_resume_buffer (snd (stream_do op s)) = sx_resume_buffer s"
    by (cases op; auto simp: Let_def case_prod_beta observe_capped_def admit_def expire_resumes_def close_resumes_def c rearm_resumes_def
        shift_resumes_def map_asked_def forget_def drain_evicted_def split: option.splits)+
qed

lemma run_limits:
  "sx_max_streams (fst (stream_run num ops x)) = sx_max_streams (fst x) \<and> sx_resume_buffer (fst (stream_run num ops x)) = sx_resume_buffer (fst x)"
  by (induction ops arbitrary: x) (simp_all add: Let_def case_prod_beta limits_fixed)

section \<open>Properties\<close>

text \<open>C36. Delivery is in order and memory is bounded: however the pieces of many streams arrive, for every
  tracked stream the numbers delivered for its present incarnation are strictly increasing and end at
  the recorded last number (so nothing is delivered twice or out of order); at most
  \<open>max_streams\<close> streams are tracked, and an open window holds at most \<open>resume_buffer\<close> pieces, each with
  a number above the last delivered one.\<close>

theorem stream_in_order:
  assumes "\<forall>op \<in> set ops. carries num op"
    and "map_of (sx_seen (fst (streams_after mx buf timeout num ops))) k = Some t"
  shows "sorted_wrt (<) (snd (streams_after mx buf timeout num ops) k) \<and> snd (streams_after mx buf timeout num ops) k \<noteq> [] \<and>
     List.last (snd (streams_after mx buf timeout num ops) k) = tk_last_seq t \<and>
     length (sx_order (fst (streams_after mx buf timeout num ops))) \<le> max mx 1 \<and>
     set (sx_order (fst (streams_after mx buf timeout num ops))) = fst ` set (sx_seen (fst (streams_after mx buf timeout num ops))) \<and>
     (\<forall>r. tk_resume t = Some r \<longrightarrow> ru_after r = tk_last_seq t \<and> 0 < length (ru_held r) \<and> length (ru_held r) \<le> max buf 1 \<and>
        (\<forall>x \<in> set (ru_held r). tk_last_seq t < fst x))"
proof -
  let ?x = "streams_after mx buf timeout num ops"
  have x: "streams_inv num (fst ?x)" "log_inv (fst ?x) (snd ?x)"
    using stream_run_inv[of num "(streams_new mx buf timeout, \<lambda>_. [])" ops] assms(1) by (simp_all add: streams_after_def new_streams_inv)
  have lim: "sx_max_streams (fst ?x) = max mx 1" "sx_resume_buffer (fst ?x) = max buf 1"
    using run_limits[of num ops "(streams_new mx buf timeout, \<lambda>_. [])"] by (simp_all add: streams_after_def streams_new_def)
  have "window_ok (max buf 1) t" using streams_invD(4)[OF x(1) assms(2)] lim(2) by simp
  moreover have "sorted_wrt (<) (snd ?x k) \<and> snd ?x k \<noteq> [] \<and> List.last (snd ?x k) = tk_last_seq t"
    using x(2)[unfolded log_inv_def, rule_format, OF assms(2)] by simp
  ultimately show ?thesis
    using streams_invD(3,5)[OF x(1)] lim(1) by (simp add: window_ok_def split: option.splits)
qed

definition w_stream_ops :: "(nat, u64) stream_op list" where
  "w_stream_ops = (let mk = (\<lambda>n. SObserve \<lparr>sk_key = 7, sk_generation = 1, sk_seq = n\<rparr> n 0 False) in [mk 5, mk 8, mk 9, SExpire 100])"

theorem stream_in_order_witness:
  "sorted_wrt (<) (snd (streams_after 2 4 10 (\<lambda>m. m) w_stream_ops) 7) \<and> List.last (snd (streams_after 2 4 10 (\<lambda>m. m) w_stream_ops) 7) = 9"
proof -
  have "map_of (sx_seen (fst (streams_after 2 4 10 (\<lambda>m. m) w_stream_ops))) 7 = Some \<lparr>tk_generation = 1, tk_last_seq = 9, tk_resume = None\<rparr>"
    by (simp add: streams_after_def w_stream_ops_def streams_new_def observe_capped_def admit_def observe_track_def expire_resumes_def
        resume_due_def collapse_def drain_held_def first_key_def last_key_def max_def)
  from stream_in_order[OF _ this] show ?thesis by (simp add: w_stream_ops_def Let_def)
qed

lemma window_fate_collapse:
  assumes "streams_inv num s" "map_of (sx_seen s) k = Some t" "tk_resume t = Some r" "collapse_all keys s = (out, s')"
  shows "map_of (sx_seen s') k = Some t \<or> delivered_for k (flushes out) = map snd (ru_held r)"
  using collapse_all_laws[OF assms(1,4), of k] assms(2,3) by (auto simp: held_pieces_def)

text \<open>C37. Nothing held is lost silently: when a stream has pieces waiting behind a hole, any call either
  keeps all of them waiting for the same answer, or delivers all of them in their order, or is the
  arrival of the very piece that was asked for (after which the peer replays the rest), or is a change
  of incarnation that reports how many were discarded, or evicts the stream and reports all of them with
  the first number still valid, or is the consumer's own request to forget the stream.\<close>

theorem held_never_lost:
  assumes "\<forall>op \<in> set ops. carries num op" "carries num op"
    and "map_of (sx_seen (fst (streams_after mx buf timeout num ops))) k = Some t" "tk_resume t = Some r"
    and "stream_do op (fst (streams_after mx buf timeout num ops)) = (out, s')"
  shows "(\<exists>t' r'. map_of (sx_seen s') k = Some t' \<and> tk_resume t' = Some r' \<and> ru_after r' = ru_after r \<and> subseq (ru_held r) (ru_held r')) \<or>
    subseq (map snd (ru_held r)) (delivered_for k out) \<or>
    (\<exists>mark msg now over. op = SObserve mark msg now over \<and> sk_key mark = k \<and> sk_generation mark = tk_generation t \<and> sk_seq mark = ru_after r + 1) \<or>
    (\<exists>mark msg now over. op = SObserve mark msg now over \<and> sk_key mark = k \<and>
       fst (observe_capped mark msg now over (fst (streams_after mx buf timeout num ops))) =
         GenerationChanged (tk_generation t) (sk_generation mark) msg (length (ru_held r))) \<or>
    (\<exists>e \<in> set (sx_evicted s'). es_key e = k \<and> es_flushed e = map snd (ru_held r) \<and> es_oldest_valid e = Some (fst (hd (ru_held r)))) \<or>
    op = SForget k"
proof -
  let ?s = "fst (streams_after mx buf timeout num ops)"
  have inv: "streams_inv num ?s"
    using stream_run_inv[of num "(streams_new mx buf timeout, \<lambda>_. [])" ops] assms(1) by (simp_all add: streams_after_def new_streams_inv)
  have w: "window_ok (sx_resume_buffer ?s) t" using streams_invD(4)[OF inv assms(3)] by simp
  note st = assms(3,4)
  show ?thesis
  proof (cases op)
    case (SObserve mark msg now over)
    obtain v where o: "observe_capped mark msg now over ?s = (v, s')" "out = [(sk_key mark, into_delivered v)]"
      using assms(5) SObserve by (auto split: prod.splits)
    show ?thesis
    proof (cases "sk_key mark = k")
      case True
      then obtain t' where t': "observe_track (sx_resume_buffer ?s) (sx_resume_timeout ?s) (sk_generation mark) (sk_seq mark) msg now over t = (v, t')"
        "s' = ?s\<lparr>sx_order := touch k (sx_order ?s), sx_seen := AList.update k t' (sx_seen ?s)\<rparr>"
        using o(1) st(1) by (auto simp: observe_capped_def split: prod.splits)
      from observe_track_window[OF w st(2) t'(1)] show ?thesis
        using True SObserve o t'(2) by (auto simp: update_conv')
    next
      case False
      have "map_of (sx_seen s') k = Some t \<or> (\<exists>e \<in> set (sx_evicted s'). evicted_as k t e)"
      proof (cases "map_of (sx_seen ?s) (sk_key mark)")
        case None
        then show ?thesis using admit_laws(3)[OF inv None _ st(1)] False o(1) by (auto simp: observe_capped_def)
      next
        case (Some u)
        then show ?thesis using False o(1) st(1) by (auto simp: observe_capped_def update_conv' split: prod.splits)
      qed
      moreover have "first_key (ru_held r) = Some (fst (hd (ru_held r)))" using w st(2) by (cases "ru_held r") (auto simp: window_ok_def first_key_def)
      ultimately show ?thesis using st(2) by (auto simp: evicted_as_def)
    qed
  next
    case (SExpire now)
    then show ?thesis using window_fate_collapse[OF inv st] assms(5) st(2) by (fastforce simp: expire_resumes_def split: prod.splits)
  next
    case SCloseAll
    then show ?thesis using window_fate_collapse[OF inv st] assms(5) st(2) by (fastforce simp: close_resumes_def split: prod.splits)
  next
    case (SForget j)
    then show ?thesis using assms(5) st by (auto simp: forget_def delete_conv')
  qed (use assms(5) st map_asked_laws(3)[OF inv, of _ k] in \<open>auto simp: rearm_resumes_def shift_resumes_def drain_evicted_def\<close>)
qed

theorem held_never_lost_witness:
  "\<exists>t r out s'. map_of (sx_seen (fst (streams_after 2 4 10 (\<lambda>m. m) (take 3 w_stream_ops)))) 7 = Some t \<and> tk_resume t = Some r \<and>
     map snd (ru_held r) = [8, 9] \<and> stream_do (SExpire 100) (fst (streams_after 2 4 10 (\<lambda>m. m) (take 3 w_stream_ops))) = (out, s') \<and>
     subseq (map snd (ru_held r)) (delivered_for 7 out)"
proof -
  let ?s = "fst (streams_after 2 4 10 (\<lambda>m. m) (take 3 w_stream_ops))"
  have t: "map_of (sx_seen ?s) 7 = Some \<lparr>tk_generation = 1, tk_last_seq = 5, tk_resume = Some \<lparr>ru_after = 5, ru_asked_at = 0, ru_held = [(8, 8), (9, 9)]\<rparr>\<rparr>"
    by (simp add: streams_after_def w_stream_ops_def streams_new_def observe_capped_def admit_def observe_track_def)
  have e: "snd (stream_do (SExpire 100) ?s) = ?s\<lparr>sx_seen := [(7, \<lparr>tk_generation = 1, tk_last_seq = 9, tk_resume = None\<rparr>)]\<rparr>" "sx_evicted ?s = []"
    by (simp_all add: streams_after_def w_stream_ops_def streams_new_def observe_capped_def admit_def observe_track_def expire_resumes_def
        resume_due_def collapse_def drain_held_def first_key_def last_key_def max_def)
  obtain out s' where o: "stream_do (SExpire 100) ?s = (out, s')" by fastforce
  from held_never_lost[OF _ _ t _ o] have "subseq [8, 9] (delivered_for 7 out)"
    using e o by (auto simp: w_stream_ops_def Let_def)
  then show ?thesis using t o by auto
qed

end
