(* ===== verification/Byte_Budget.thy ===== *)
theory Byte_Budget
  imports Eg_Prelude
begin

text \<open>
  The tally of received bytes, \<^verbatim>\<open>crates/engram-dashboard-transport/src/budget.rs\<close>: shares that travel with
  the items, the read gate, the window cap and the record of how long the gate was closed. The lock
  makes every call one step; the two wake-up handles are the returned flag that the gate opened.
  Byte counts are natural numbers; the subtractions of the code are written as they are, and the
  invariant shows that none of them goes below zero.
\<close>

section \<open>Definitions\<close>

definition budget_split :: "nat \<Rightarrow> nat \<times> nat" where
  "budget_split budget = (let read = (if budget div 2 = 0 then 1 else budget div 2) in (read, budget - read))"

record gate_closed =
  gc_total :: duration
  gc_from :: "instant option"
  gc_until :: "instant option"

definition gate_closed_default :: gate_closed where
  "gate_closed_default = \<lparr>gc_total = 0, gc_from = None, gc_until = None\<rparr>"

definition closed_add :: "instant \<Rightarrow> instant \<Rightarrow> gate_closed \<Rightarrow> gate_closed" where
  "closed_add start stop c = \<lparr>gc_total = gc_total c + (stop - start),
     gc_from = (case gc_from c of None \<Rightarrow> Some start | Some f \<Rightarrow> Some f), gc_until = Some stop\<rparr>"

record byte_ledger =
  bl_level :: nat
  bl_held :: nat
  bl_streams :: bool
  bl_shut_at :: "instant option"
  bl_closed :: gate_closed
  bl_budget :: nat

record shut_report =
  sh_since :: "instant option"
  sh_closed :: gate_closed

definition byte_ledger_new :: "nat \<Rightarrow> byte_ledger" where
  "byte_ledger_new budget = \<lparr>bl_level = 0, bl_held = 0, bl_streams = False, bl_shut_at = None, bl_closed = gate_closed_default, bl_budget = budget\<rparr>"

definition budget_caps :: "byte_ledger \<Rightarrow> nat \<times> nat" where
  "budget_caps l = (if bl_streams l then budget_split (bl_budget l) else (max (bl_budget l) 1, 0))"

definition gate_over :: "byte_ledger \<Rightarrow> bool" where
  "gate_over l \<longleftrightarrow> bl_shut_at l \<noteq> None"

definition take_shut :: "byte_ledger \<Rightarrow> shut_report \<times> byte_ledger" where
  "take_shut l = (\<lparr>sh_since = bl_shut_at l, sh_closed = bl_closed l\<rparr>, l\<lparr>bl_closed := gate_closed_default\<rparr>)"

definition budget_update :: "instant \<Rightarrow> (byte_ledger \<Rightarrow> byte_ledger) \<Rightarrow> byte_ledger \<Rightarrow> bool \<times> byte_ledger" where
  "budget_update now change l = (
     let c = change l; shut = (fst (budget_caps c) \<le> bl_level c - bl_held c)
     in case (bl_shut_at c, shut) of
          (None, True) \<Rightarrow> (False, c\<lparr>bl_shut_at := Some now\<rparr>)
        | (Some since, False) \<Rightarrow> (True, c\<lparr>bl_shut_at := None, bl_closed := closed_add since now (bl_closed c)\<rparr>)
        | _ \<Rightarrow> (False, c))"

definition use_streams :: "instant \<Rightarrow> byte_ledger \<Rightarrow> bool \<times> byte_ledger" where
  "use_streams now l = budget_update now (\<lambda>c. c\<lparr>bl_streams := True\<rparr>) l"

definition window_fits :: "nat \<Rightarrow> byte_ledger \<Rightarrow> bool" where
  "window_fits bytes l \<longleftrightarrow> bl_held l + bytes \<le> snd (budget_caps l)"

record byte_charge =
  ch_counted :: bool
  ch_bytes :: nat
  ch_held :: bool

definition charge_none :: byte_charge where
  "charge_none = \<lparr>ch_counted = False, ch_bytes = 0, ch_held = False\<rparr>"

definition ledger_charge :: "instant \<Rightarrow> nat \<Rightarrow> byte_ledger \<Rightarrow> byte_charge \<times> bool \<times> byte_ledger" where
  "ledger_charge now bytes l = (
     if bytes = 0 then (charge_none, False, l)
     else let (opened, l') = budget_update now (\<lambda>c. c\<lparr>bl_level := bl_level c + bytes\<rparr>) l
          in (\<lparr>ch_counted = True, ch_bytes = bytes, ch_held = False\<rparr>, opened, l'))"

definition charge_hold :: "instant \<Rightarrow> byte_charge \<Rightarrow> byte_ledger \<Rightarrow> byte_charge \<times> bool \<times> byte_ledger" where
  "charge_hold now ch l = (
     if ch_counted ch \<and> \<not> ch_held ch
     then let (opened, l') = budget_update now (\<lambda>c. c\<lparr>bl_held := bl_held c + ch_bytes ch\<rparr>) l in (ch\<lparr>ch_held := True\<rparr>, opened, l')
     else (ch, False, l))"

definition charge_unhold :: "instant \<Rightarrow> byte_charge \<Rightarrow> byte_ledger \<Rightarrow> byte_charge \<times> bool \<times> byte_ledger" where
  "charge_unhold now ch l = (
     if ch_counted ch \<and> ch_held ch
     then let (opened, l') = budget_update now (\<lambda>c. c\<lparr>bl_held := bl_held c - ch_bytes ch\<rparr>) l in (ch\<lparr>ch_held := False\<rparr>, opened, l')
     else (ch, False, l))"

definition charge_drop :: "instant \<Rightarrow> byte_charge \<Rightarrow> byte_ledger \<Rightarrow> bool \<times> byte_ledger" where
  "charge_drop now ch l = (
     if ch_counted ch
     then budget_update now (\<lambda>c. let c1 = c\<lparr>bl_level := bl_level c - ch_bytes ch\<rparr>
                             in if ch_held ch then c1\<lparr>bl_held := bl_held c1 - ch_bytes ch\<rparr> else c1) l
     else (False, l))"

section \<open>The tally in use\<close>

text \<open>
  One reader, one supervisor and one receiver share the tally. The reader looks at the gate and then
  reads one frame of at most \<open>m\<close> bytes; the supervisor holds a piece only when the window cap allows
  it, releases pieces and drops shares; the receiver drops shares. The outstanding shares are the list
  \<open>by_items\<close>; \<open>by_armed\<close> says that the reader has seen the gate open and has not read yet; \<open>by_wall\<close> is the
  clock, and \<open>by_dark\<close> records how long the gate has been closed since the supervisor last asked, a
  closure in progress counted from its start.
\<close>

record byte_sys =
  by_ledger :: byte_ledger
  by_items :: "byte_charge list"
  by_armed :: bool
  by_wall :: instant
  by_dark :: duration

inductive byte_init :: "nat \<Rightarrow> byte_sys \<Rightarrow> bool" where
  "byte_init b \<lparr>by_ledger = byte_ledger_new b, by_items = [], by_armed = False, by_wall = t, by_dark = 0\<rparr>"

inductive byte_step :: "nat \<Rightarrow> byte_sys \<Rightarrow> byte_sys \<Rightarrow> bool" where
  by_tick: "byte_step m s (s\<lparr>by_wall := by_wall s + d, by_dark := by_dark s + (if gate_over (by_ledger s) then d else 0)\<rparr>)"
| by_look: "\<not> gate_over (by_ledger s) \<Longrightarrow> byte_step m s (s\<lparr>by_armed := True\<rparr>)"
| by_read: "by_armed s \<Longrightarrow> n \<le> m \<Longrightarrow> ledger_charge (by_wall s) n (by_ledger s) = (ch, opened, l) \<Longrightarrow>
    byte_step m s (s\<lparr>by_ledger := l, by_items := by_items s @ [ch], by_armed := False\<rparr>)"
| by_use: "use_streams (by_wall s) (by_ledger s) = (opened, l) \<Longrightarrow> byte_step m s (s\<lparr>by_ledger := l\<rparr>)"
| by_hold: "i < length (by_items s) \<Longrightarrow> window_fits (ch_bytes (by_items s ! i)) (by_ledger s) \<Longrightarrow>
    charge_hold (by_wall s) (by_items s ! i) (by_ledger s) = (ch, opened, l) \<Longrightarrow>
    byte_step m s (s\<lparr>by_ledger := l, by_items := (by_items s)[i := ch]\<rparr>)"
| by_unhold: "i < length (by_items s) \<Longrightarrow> charge_unhold (by_wall s) (by_items s ! i) (by_ledger s) = (ch, opened, l) \<Longrightarrow>
    byte_step m s (s\<lparr>by_ledger := l, by_items := (by_items s)[i := ch]\<rparr>)"
| by_drop: "by_items s = a @ ch # b \<Longrightarrow> charge_drop (by_wall s) ch (by_ledger s) = (opened, l) \<Longrightarrow>
    byte_step m s (s\<lparr>by_ledger := l, by_items := a @ b\<rparr>)"
| by_ask: "take_shut (by_ledger s) = (rep, l) \<Longrightarrow>
    byte_step m s (s\<lparr>by_ledger := l, by_dark := (case sh_since rep of None \<Rightarrow> 0 | Some t \<Rightarrow> by_wall s - t)\<rparr>)"

section \<open>Laws\<close>

lemma split_sum: "fst (budget_split b) + snd (budget_split b) = max b 1" "0 < fst (budget_split b)" "fst (budget_split b) \<le> max b 1"
  by (auto simp: budget_split_def Let_def max_def)

definition dark_of :: "instant \<Rightarrow> byte_ledger \<Rightarrow> duration" where
  "dark_of now l = gc_total (bl_closed l) + (case bl_shut_at l of None \<Rightarrow> 0 | Some t \<Rightarrow> now - t)"

lemma update_laws:
  fixes l change now
  defines "c \<equiv> change l" and "l' \<equiv> snd (budget_update now change l)"
  shows "bl_level l' = bl_level c" "bl_held l' = bl_held c" "bl_streams l' = bl_streams c" "bl_budget l' = bl_budget c"
    and "gate_over l' \<longleftrightarrow> fst (budget_caps c) \<le> bl_level c - bl_held c" "budget_caps l' = budget_caps c"
    and "bl_shut_at c = bl_shut_at l \<Longrightarrow> bl_closed c = bl_closed l \<Longrightarrow> dark_of now l' = dark_of now l"
    and "bl_shut_at c = bl_shut_at l \<Longrightarrow> (\<forall>t. bl_shut_at l = Some t \<longrightarrow> t \<le> now) \<Longrightarrow> (\<forall>t. bl_shut_at l' = Some t \<longrightarrow> t \<le> now)"
proof -
  have *: "l' = (if bl_shut_at c = None \<and> fst (budget_caps c) \<le> bl_level c - bl_held c then c\<lparr>bl_shut_at := Some now\<rparr>
     else if bl_shut_at c \<noteq> None \<and> \<not> fst (budget_caps c) \<le> bl_level c - bl_held c
     then c\<lparr>bl_shut_at := None, bl_closed := closed_add (the (bl_shut_at c)) now (bl_closed c)\<rparr> else c)"
    unfolding l'_def c_def budget_update_def Let_def by (cases "bl_shut_at (change l)") (auto split: bool.splits)
  show "bl_level l' = bl_level c" "bl_held l' = bl_held c" "bl_streams l' = bl_streams c" "bl_budget l' = bl_budget c"
    "gate_over l' \<longleftrightarrow> fst (budget_caps c) \<le> bl_level c - bl_held c" "budget_caps l' = budget_caps c"
    unfolding * by (auto simp: gate_over_def budget_caps_def)
  show "bl_shut_at c = bl_shut_at l \<Longrightarrow> bl_closed c = bl_closed l \<Longrightarrow> dark_of now l' = dark_of now l"
    unfolding * by (auto simp: dark_of_def closed_add_def)
  show "bl_shut_at c = bl_shut_at l \<Longrightarrow> (\<forall>t. bl_shut_at l = Some t \<longrightarrow> t \<le> now) \<Longrightarrow> (\<forall>t. bl_shut_at l' = Some t \<longrightarrow> t \<le> now)"
    unfolding * by auto
qed

definition items_bytes :: "byte_charge list \<Rightarrow> nat" where
  "items_bytes xs = sum_list (map ch_bytes xs)"

definition items_held :: "byte_charge list \<Rightarrow> nat" where
  "items_held xs = sum_list (map (\<lambda>c. if ch_held c then ch_bytes c else 0) xs)"

definition charge_ok :: "byte_charge \<Rightarrow> bool" where
  "charge_ok c \<longleftrightarrow> (\<not> ch_counted c \<longrightarrow> ch_bytes c = 0 \<and> \<not> ch_held c)"

definition byte_inv :: "nat \<Rightarrow> nat \<Rightarrow> byte_sys \<Rightarrow> bool" where
  "byte_inv b m s \<longleftrightarrow> bl_budget (by_ledger s) = b \<and> list_all charge_ok (by_items s) \<and>
     bl_level (by_ledger s) = items_bytes (by_items s) \<and> bl_held (by_ledger s) = items_held (by_items s) \<and>
     (gate_over (by_ledger s) \<longleftrightarrow> fst (budget_caps (by_ledger s)) \<le> bl_level (by_ledger s) - bl_held (by_ledger s)) \<and>
     bl_held (by_ledger s) \<le> snd (budget_caps (by_ledger s)) \<and> bl_level (by_ledger s) < max b 1 + m \<and>
     (by_armed s \<longrightarrow> bl_level (by_ledger s) < max b 1) \<and>
     (\<forall>t. bl_shut_at (by_ledger s) = Some t \<longrightarrow> t \<le> by_wall s) \<and> dark_of (by_wall s) (by_ledger s) = by_dark s"

lemma items_simps [simp]:
  "items_bytes [] = 0" "items_bytes (c # xs) = ch_bytes c + items_bytes xs" "items_bytes (xs @ ys) = items_bytes xs + items_bytes ys"
  "items_held [] = 0" "items_held (c # xs) = (if ch_held c then ch_bytes c else 0) + items_held xs" "items_held (xs @ ys) = items_held xs + items_held ys"
  by (simp_all add: items_bytes_def items_held_def)

lemma items_held_le: "items_held xs \<le> items_bytes xs"
  by (induction xs) auto

lemma items_at:
  assumes "i < length xs"
  obtains a b where "xs = a @ xs ! i # b" "\<And>c. xs[i := c] = a @ c # b"
  using id_take_nth_drop[OF assms] upd_conv_take_nth_drop[OF assms] by metis

lemma caps_sum: "fst (budget_caps l) + snd (budget_caps l) = max (bl_budget l) 1" "0 < fst (budget_caps l)"
  using split_sum[of "bl_budget l"] by (auto simp: budget_caps_def)

text \<open>Every call on the tally keeps the invariant when it keeps the sums and does not raise the level above
  what the reader may add.\<close>

lemma byte_inv_update:
  assumes inv: "byte_inv b m s" and u: "budget_update (by_wall s) change (by_ledger s) = (opened, l)"
    and frame: "bl_shut_at (change (by_ledger s)) = bl_shut_at (by_ledger s)" "bl_closed (change (by_ledger s)) = bl_closed (by_ledger s)"
      "bl_budget (change (by_ledger s)) = b"
    and items: "list_all charge_ok xs" "bl_level (change (by_ledger s)) = items_bytes xs" "bl_held (change (by_ledger s)) = items_held xs"
    and bounds: "items_held xs \<le> snd (budget_caps (change (by_ledger s)))" "items_bytes xs < max b 1 + m" "armed \<longrightarrow> items_bytes xs < max b 1"
  shows "byte_inv b m (s\<lparr>by_ledger := l, by_items := xs, by_armed := armed\<rparr>)"
proof -
  have l: "l = snd (budget_update (by_wall s) change (by_ledger s))" using u by simp
  note U = update_laws[where now = "by_wall s" and change = change and l = "by_ledger s", folded l]
  have "\<forall>t. bl_shut_at (by_ledger s) = Some t \<longrightarrow> t \<le> by_wall s" "dark_of (by_wall s) (by_ledger s) = by_dark s"
    using inv by (simp_all add: byte_inv_def)
  with U frame items bounds show ?thesis by (simp add: byte_inv_def)
qed

lemma byte_inv_same: "byte_inv b m s \<Longrightarrow> byte_inv b m (s\<lparr>by_ledger := by_ledger s, by_items := by_items s\<rparr>)"
  by simp

lemma hold_inv:
  assumes inv: "byte_inv b m s" and at: "by_items s = a @ c # z" and fits: "window_fits (ch_bytes c) (by_ledger s)"
    and h: "charge_hold (by_wall s) c (by_ledger s) = (ch, opened, l)"
  shows "byte_inv b m (s\<lparr>by_ledger := l, by_items := a @ ch # z\<rparr>)"
proof (cases "ch_counted c \<and> \<not> ch_held c")
  case False
  then have "ch = c" "l = by_ledger s" using h by (auto simp: charge_hold_def)
  with byte_inv_same[OF inv] at show ?thesis by simp
next
  case True
  then have u: "budget_update (by_wall s) (\<lambda>c'. c'\<lparr>bl_held := bl_held c' + ch_bytes c\<rparr>) (by_ledger s) = (opened, l)" "ch = c\<lparr>ch_held := True\<rparr>"
    using h by (auto simp: charge_hold_def split: prod.splits)
  have "byte_inv b m (s\<lparr>by_ledger := l, by_items := a @ ch # z, by_armed := by_armed s\<rparr>)"
    by (rule byte_inv_update[OF inv u(1)])
      (use inv fits u(2) True at in \<open>auto simp: byte_inv_def charge_ok_def window_fits_def budget_caps_def\<close>)
  then show ?thesis by simp
qed

lemma unhold_inv:
  assumes inv: "byte_inv b m s" and at: "by_items s = a @ c # z"
    and h: "charge_unhold (by_wall s) c (by_ledger s) = (ch, opened, l)"
  shows "byte_inv b m (s\<lparr>by_ledger := l, by_items := a @ ch # z\<rparr>)"
proof (cases "ch_counted c \<and> ch_held c")
  case False
  then have "ch = c" "l = by_ledger s" using h by (auto simp: charge_unhold_def)
  with byte_inv_same[OF inv] at show ?thesis by simp
next
  case True
  then have u: "budget_update (by_wall s) (\<lambda>c'. c'\<lparr>bl_held := bl_held c' - ch_bytes c\<rparr>) (by_ledger s) = (opened, l)" "ch = c\<lparr>ch_held := False\<rparr>"
    using h by (auto simp: charge_unhold_def split: prod.splits)
  have "byte_inv b m (s\<lparr>by_ledger := l, by_items := a @ ch # z, by_armed := by_armed s\<rparr>)"
    by (rule byte_inv_update[OF inv u(1)])
      (use inv u(2) True at in \<open>auto simp: byte_inv_def charge_ok_def budget_caps_def\<close>)
  then show ?thesis by simp
qed

lemma drop_inv:
  assumes inv: "byte_inv b m s" and at: "by_items s = a @ c # z" and h: "charge_drop (by_wall s) c (by_ledger s) = (opened, l)"
  shows "byte_inv b m (s\<lparr>by_ledger := l, by_items := a @ z\<rparr>)"
proof (cases "ch_counted c")
  case False
  then have "l = by_ledger s" using h by (auto simp: charge_drop_def)
  with inv at False show ?thesis by (auto simp: byte_inv_def charge_ok_def)
next
  case True
  then have u: "budget_update (by_wall s) (\<lambda>c'. let c1 = c'\<lparr>bl_level := bl_level c' - ch_bytes c\<rparr>
      in if ch_held c then c1\<lparr>bl_held := bl_held c1 - ch_bytes c\<rparr> else c1) (by_ledger s) = (opened, l)"
    using h by (simp add: charge_drop_def)
  have "byte_inv b m (s\<lparr>by_ledger := l, by_items := a @ z, by_armed := by_armed s\<rparr>)"
    by (rule byte_inv_update[OF inv u])
      (use inv True at in \<open>auto simp: byte_inv_def charge_ok_def budget_caps_def Let_def\<close>)
  then show ?thesis by simp
qed

lemma read_inv:
  assumes inv: "byte_inv b m s" and armed: "by_armed s" "n \<le> m" and h: "ledger_charge (by_wall s) n (by_ledger s) = (ch, opened, l)"
  shows "byte_inv b m (s\<lparr>by_ledger := l, by_items := by_items s @ [ch], by_armed := False\<rparr>)"
proof (cases "n = 0")
  case True
  with h inv show ?thesis by (auto simp: ledger_charge_def byte_inv_def charge_none_def charge_ok_def)
next
  case False
  then have u: "budget_update (by_wall s) (\<lambda>c. c\<lparr>bl_level := bl_level c + n\<rparr>) (by_ledger s) = (opened, l)" "ch = \<lparr>ch_counted = True, ch_bytes = n, ch_held = False\<rparr>"
    using h by (auto simp: ledger_charge_def split: prod.splits)
  show ?thesis
    by (rule byte_inv_update[OF inv u(1)]) (use inv armed u(2) in \<open>auto simp: byte_inv_def charge_ok_def budget_caps_def\<close>)
qed

lemma byte_step_inv:
  assumes inv: "byte_inv b m s" and step: "byte_step m s s'"
  shows "byte_inv b m s'"
  using step
proof cases
  case (by_tick d)
  with inv show ?thesis
    by (auto simp: byte_inv_def dark_of_def gate_over_def split: option.splits intro: trans_le_add1)
next
  case by_look
  have "bl_level (by_ledger s) < max b 1"
    using inv by_look(2) caps_sum(1)[of "by_ledger s"] unfolding byte_inv_def by linarith
  with by_look inv show ?thesis by (auto simp: byte_inv_def)
next
  case (by_read n ch opened l)
  then show ?thesis using read_inv[OF inv] by simp
next
  case (by_use opened l)
  have "byte_inv b m (s\<lparr>by_ledger := l, by_items := by_items s, by_armed := by_armed s\<rparr>)"
  proof (rule byte_inv_update[OF inv by_use(2)[unfolded use_streams_def]])
    show "items_held (by_items s) \<le> snd (budget_caps ((by_ledger s)\<lparr>bl_streams := True\<rparr>))"
      using inv by (cases "bl_streams (by_ledger s)") (auto simp: byte_inv_def budget_caps_def)
  qed (use inv in \<open>auto simp: byte_inv_def\<close>)
  with by_use(1) show ?thesis by simp
next
  case (by_hold i ch opened l)
  then show ?thesis using hold_inv[OF inv] items_at[OF by_hold(2)] by metis
next
  case (by_unhold i ch opened l)
  then show ?thesis using unhold_inv[OF inv] items_at[OF by_unhold(2)] by metis
next
  case (by_drop a ch z opened l)
  then show ?thesis using drop_inv[OF inv] by simp
next
  case (by_ask rep l)
  then have "l = (by_ledger s)\<lparr>bl_closed := gate_closed_default\<rparr>" "sh_since rep = bl_shut_at (by_ledger s)"
    by (auto simp: take_shut_def)
  moreover have "budget_caps ((by_ledger s)\<lparr>bl_closed := gate_closed_default\<rparr>) = budget_caps (by_ledger s)" by (simp add: budget_caps_def)
  ultimately show ?thesis
    using inv unfolding by_ask(1) byte_inv_def by (simp add: dark_of_def gate_closed_default_def gate_over_def) metis
qed

interpretation byte_sys: step_invariant "byte_init b" "byte_step m" "byte_inv b m" for b m
proof unfold_locales
  show "byte_inv b m s" if "byte_init b s" for s
    using that by (auto simp: byte_init.simps byte_inv_def byte_ledger_new_def gate_over_def budget_caps_def dark_of_def gate_closed_default_def)
qed (rule byte_step_inv)

section \<open>Properties\<close>

text \<open>The received-bytes budget holds: in every state that reader, supervisor and receiver can reach,
  the tally is exactly the bytes of the outstanding items and the window share exactly those held by
  the resume window; the tally stays below the budget plus one message and the window share within its
  cap; the gate is shut exactly when the unheld bytes fill the read share, so it is open whenever nothing
  is outstanding; and the recorded closed time is the time the gate was really closed.\<close>

theorem byte_budget_ceiling:
  assumes "reachable (byte_init b) (byte_step m) s"
  shows "bl_level (by_ledger s) = sum_list (map ch_bytes (by_items s)) \<and>
     bl_held (by_ledger s) = sum_list (map ch_bytes (filter ch_held (by_items s))) \<and>
     bl_level (by_ledger s) < max b 1 + m \<and> bl_held (by_ledger s) \<le> snd (budget_caps (by_ledger s)) \<and>
     (gate_over (by_ledger s) \<longleftrightarrow> fst (budget_caps (by_ledger s)) \<le> bl_level (by_ledger s) - bl_held (by_ledger s)) \<and>
     (by_items s = [] \<longrightarrow> \<not> gate_over (by_ledger s)) \<and>
     gc_total (bl_closed (by_ledger s)) + (case bl_shut_at (by_ledger s) of None \<Rightarrow> 0 | Some t \<Rightarrow> by_wall s - t) = by_dark s"
proof -
  have inv: "byte_inv b m s" using byte_sys.inv_reachable[OF assms] .
  have "items_held xs = sum_list (map ch_bytes (filter ch_held xs))" for xs by (induction xs) auto
  moreover have "\<not> gate_over (by_ledger s)" if "by_items s = []"
    using inv that caps_sum(2)[of "by_ledger s"] by (simp add: byte_inv_def)
  ultimately show ?thesis using inv by (simp add: byte_inv_def items_bytes_def dark_of_def)
qed

theorem byte_budget_ceiling_witness:
  "\<exists>s. reachable (byte_init 4) (byte_step 10) s \<and> by_items s = [\<lparr>ch_counted = True, ch_bytes = 9, ch_held = False\<rparr>] \<and>
     gate_over (by_ledger s) \<and> bl_level (by_ledger s) < 14"
proof -
  let ?s0 = "\<lparr>by_ledger = byte_ledger_new 4, by_items = [], by_armed = False, by_wall = 3, by_dark = 0\<rparr>"
  let ?l = "(byte_ledger_new 4)\<lparr>bl_level := 9, bl_shut_at := Some 3\<rparr>"
  let ?s2 = "?s0\<lparr>by_armed := False, by_ledger := ?l, by_items := [\<lparr>ch_counted = True, ch_bytes = 9, ch_held = False\<rparr>]\<rparr>"
  have "byte_step 10 ?s0 (?s0\<lparr>by_armed := True\<rparr>)" by (rule by_look) (simp add: gate_over_def byte_ledger_new_def)
  moreover have "byte_step 10 (?s0\<lparr>by_armed := True\<rparr>) ?s2"
  proof -
    have "ledger_charge 3 9 (byte_ledger_new 4) = (\<lparr>ch_counted = True, ch_bytes = 9, ch_held = False\<rparr>, False, ?l)"
      by (simp add: ledger_charge_def budget_update_def byte_ledger_new_def budget_caps_def)
    from by_read[of "?s0\<lparr>by_armed := True\<rparr>" 9 10, OF _ _ this[THEN trans[rotated]]] show ?thesis by simp
  qed
  ultimately have "reachable (byte_init 4) (byte_step 10) ?s2" by (blast intro: reach_step reach_init byte_init.intros)
  from this byte_budget_ceiling[OF this] show ?thesis by (intro exI[of _ ?s2]) (simp add: gate_over_def)
qed

end
