(* ===== verification/Peer_Core.thy ===== *)
theory Peer_Core
  imports Conn_Machine Pending_Table Stream_Track Byte_Budget
begin

text \<open>
  The synchronous core of one peer, \<^verbatim>\<open>crates/engram-dashboard-transport/src/peer.rs\<close>: the handle's entry points and
  the supervisor's handlers, over the connection machine, the pending table, the stream ledger and the
  byte tally. What the code awaits is an argument: \<open>en_lane n\<close> is the answer of the n-th attempt to
  load an item into the line of the receiver, \<open>en_write n\<close> the end of the n-th guarded write
  (\<open>None\<close> when it went out), and the answer of the outbound queue is an argument of the handle's entry
  points. The vocabulary of the consumer (\<^verbatim>\<open>wire.rs\<close>) is a record of functions. One handler reads the clock
  once; the identifier of the peer, the same in every event, is left out. The fields below the second
  group record what left the supervisor: items loaded into the line, answers given to requests, frames
  written and closes attempted.
\<close>

section \<open>Vocabulary\<close>

datatype frame = Text ustr | Binary "8 word list" | Keepalive

fun payload_len :: "frame \<Rightarrow> nat" where
  "payload_len (Text text) = utf8_len text"
| "payload_len (Binary bytes) = length bytes"
| "payload_len Keepalive = 0"

record close_frame =
  cl_code :: close_code
  cl_reason :: ustr

datatype request_error = TimedOut duration | ReqDisconnected generation disconnect_cause bool | ReqQueueFull
  | Superseded | NotARequest | TagRetired

datatype send_error = SeQueueFull | SeDisconnected | SeClosed

datatype send_result = SendOk | SendFull | SendClosed

record ('o, 'i, 't, 'k) wire =
  wi_encode :: "'o \<Rightarrow> frame"
  wi_decode :: "frame \<Rightarrow> string + 'i"
  wi_request_tag :: "'o \<Rightarrow> 't option"
  wi_reply_tag :: "'i \<Rightarrow> 't option"
  wi_stream_mark :: "'i \<Rightarrow> 'k stream_mark option"
  wi_resume_request :: "'k \<Rightarrow> u64 option \<Rightarrow> 'o"

record ('o, 'i, 't, 'k) peer_env =
  en_wire :: "('o, 'i, 't, 'k) wire"
  en_lane :: "nat \<Rightarrow> send_result"
  en_write :: "nat \<Rightarrow> conn_input option"

datatype ('t, 'k) transport_event = TeConnected generation | TeDisconnected generation disconnect_cause
  | TeConnectFailed u32 u32 connect_failure "duration option" | TeRejected close_code ustr | TeGaveUp gave_up_reason
  | TeClosed generation disconnect_cause | StreamGap 'k u32 u64 u64 "u64 option" | StreamTruncated 'k u32 u64
  | StreamGenerationChanged 'k u32 u32 nat | StreamForgotten 'k u32 u64 | RequestTimedOut 't duration
  | UnmatchedReply 't | TeDropped nat | DecodeFailed generation string | AmbiguousRole

datatype ('i, 't, 'k) incoming = InMessage generation 'i | InEvent "('t, 'k) transport_event"

record 'x charged =
  cg_item :: 'x
  cg_charge :: byte_charge

definition bare :: "'x \<Rightarrow> 'x charged" where
  "bare x = \<lparr>cg_item = x, cg_charge = charge_none\<rparr>"

record 'i received =
  rc_msg :: 'i
  rc_charge :: byte_charge
  rc_generation :: generation

datatype ('o, 'k, 'r) peer_op = OpRequest 'o 'r | OpNotify 'o | OpRaw frame | OpResume 'k "u64 option" | OpClose
  | OpDropLink disconnect_cause

record ('o, 'k, 'r) peer_cmd =
  pc_generation :: generation
  pc_op :: "('o, 'k, 'r) peer_op"

datatype ctl = CtlReconnect | CtlClose

datatype link_msg = LinkFrame frame byte_charge | LinkClosed | LinkFailed

fun cause_code :: "disconnect_cause \<Rightarrow> 8 word" where
  "cause_code PeerClosed = 0"
| "cause_code ReadFailed = 1"
| "cause_code IdleTimeout = 2"
| "cause_code WriteDeadline = 3"
| "cause_code SlowQueue = 4"
| "cause_code Explicit = 5"
| "cause_code WriteFailed = 6"

definition cause_from_code :: "8 word \<Rightarrow> disconnect_cause" where
  "cause_from_code code = (if code = 0 then PeerClosed else if code = 1 then ReadFailed else if code = 2 then IdleTimeout
     else if code = 3 then WriteDeadline else if code = 4 then SlowQueue else if code = 5 then Explicit else WriteFailed)"

section \<open>Turns of the operating loop\<close>

definition FRAME_BURST :: nat where
  "FRAME_BURST = 32"

datatype turn = TimerTurn | Outbound nat | WaitTurn

definition next_turn :: "instant \<Rightarrow> instant \<Rightarrow> nat \<Rightarrow> nat \<Rightarrow> nat \<Rightarrow> turn" where
  "next_turn now wake frames_in_row outbound_len outbound_cap = (
     if wake \<le> now then TimerTurn
     else if outbound_len = 0 then WaitTurn
     else if outbound_cap \<le> outbound_len * 2 \<or> FRAME_BURST \<le> frames_in_row then Outbound outbound_len
     else WaitTurn)"

section \<open>State\<close>

record ('o, 'i, 't, 'k, 'r) supervisor =
  sv_policy :: conn_policy
  sv_accepted :: bool
  sv_machine :: machine
  sv_pending :: "('t, 'r) pending"
  sv_streams :: "('k, 'i received) streams"
  sv_data :: "('o, 'k, 'r) peer_cmd list"
  sv_ctl :: "ctl list"
  sv_pub_state :: peer_state
  sv_pub_generation :: generation
  sv_overflow :: nat
  sv_overflow_generation :: generation
  sv_refused :: nat
  sv_last_cause :: "8 word"
  sv_close_requested :: bool
  sv_goodbye :: "close_frame option"
  sv_flush_deadline :: "instant option"
  sv_link :: bool
  sv_frames :: "link_msg list option"
  sv_fresh_link :: bool
  sv_consumer_gone :: bool
  sv_order :: "('i, 't, 'k) incoming charged list"
  sv_order_since :: instant
  sv_ledger :: byte_ledger
  sv_paused :: bool
  sv_paused_since :: instant
  sv_last_rx :: instant
  sv_last_ping :: instant
  sv_dropped_out :: nat
  sv_end_cause :: disconnect_cause
  sv_sends :: nat
  sv_writes :: nat
  sv_lane :: "('i, 't, 'k) incoming charged list"
  sv_answers :: "('r \<times> (request_error + 'i)) list"
  sv_written :: "frame list"
  sv_closes :: "close_frame list"

definition new_peer :: "conn_policy \<Rightarrow> bool \<Rightarrow> u64 \<Rightarrow> instant \<Rightarrow> u64 \<Rightarrow> nat \<Rightarrow> ('o, 'i, 't, 'k, 'r) supervisor" where
  "new_peer policy accepted seed now floor budget = \<lparr>
     sv_policy = policy, sv_accepted = accepted, sv_machine = machine_new policy seed now floor,
     sv_pending = pending_new (cp_retired_tags policy),
     sv_streams = streams_new (cp_max_streams policy) (cp_resume_buffer policy) (cp_resume_timeout policy),
     sv_data = [], sv_ctl = [], sv_pub_state = PsIdle, sv_pub_generation = floor, sv_overflow = 0, sv_overflow_generation = 0,
     sv_refused = 0, sv_last_cause = cause_code WriteFailed, sv_close_requested = False, sv_goodbye = None,
     sv_flush_deadline = None, sv_link = accepted, sv_frames = None, sv_fresh_link = False, sv_consumer_gone = False,
     sv_order = [], sv_order_since = now, sv_ledger = byte_ledger_new budget, sv_paused = False, sv_paused_since = now,
     sv_last_rx = now, sv_last_ping = now, sv_dropped_out = 0, sv_end_cause = Explicit,
     sv_sends = 0, sv_writes = 0, sv_lane = [], sv_answers = [], sv_written = [], sv_closes = []\<rparr>"

section \<open>Sending upward\<close>

definition drop_charges :: "instant \<Rightarrow> byte_charge list \<Rightarrow> byte_ledger \<Rightarrow> byte_ledger" where
  "drop_charges now cs l = fold (\<lambda>c l. snd (charge_drop now c l)) cs l"

text \<open>Loading from the front as far as the line takes: whether the receiver is there, the number of
  attempts so far, what was loaded, what was lost with the receiver and what stays.\<close>

fun lane_flush :: "(nat \<Rightarrow> send_result) \<Rightarrow> nat \<Rightarrow> 'x list \<Rightarrow> bool \<times> nat \<times> 'x list \<times> 'x list \<times> 'x list" where
  "lane_flush lane n [] = (True, n, [], [], [])"
| "lane_flush lane n (x # xs) = (case lane n of
     SendOk \<Rightarrow> (let (opn, n', sent, lost, keep) = lane_flush lane (Suc n) xs in (opn, n', x # sent, lost, keep))
   | SendFull \<Rightarrow> (True, Suc n, [], [], x # xs)
   | SendClosed \<Rightarrow> (False, Suc n, [], x # xs, []))"

definition note_room :: "bool \<Rightarrow> ('o, 'i, 't, 'k, 'r) supervisor \<Rightarrow> ('o, 'i, 't, 'k, 'r) supervisor" where
  "note_room opn sv = (if opn then sv else sv\<lparr>sv_consumer_gone := True\<rparr>)"

definition load_order :: "('o, 'i, 't, 'k) peer_env \<Rightarrow> instant \<Rightarrow> ('i, 't, 'k) incoming charged list \<Rightarrow> ('o, 'i, 't, 'k, 'r) supervisor
    \<Rightarrow> bool \<times> ('o, 'i, 't, 'k, 'r) supervisor" where
  "load_order env now items sv = (
     let (opn, n, sent, lost, keep) = lane_flush (en_lane env) (sv_sends sv) items
     in (opn, sv\<lparr>sv_order := keep, sv_sends := n, sv_lane := sv_lane sv @ sent,
                 sv_ledger := drop_charges now (map cg_charge lost) (sv_ledger sv)\<rparr>))"

definition put :: "('o, 'i, 't, 'k) peer_env \<Rightarrow> instant \<Rightarrow> ('i, 't, 'k) incoming charged \<Rightarrow> ('o, 'i, 't, 'k, 'r) supervisor
    \<Rightarrow> ('o, 'i, 't, 'k, 'r) supervisor" where
  "put env now item sv = (
     if sv_consumer_gone sv then sv\<lparr>sv_ledger := drop_charges now [cg_charge item] (sv_ledger sv)\<rparr>
     else
       let (opn, sv1) = load_order env now (sv_order sv @ [item]) sv;
           sv2 = (if sv_order sv = [] \<and> sv_order sv1 \<noteq> [] then sv1\<lparr>sv_order_since := now\<rparr> else sv1)
       in note_room opn sv2)"

text \<open>Waiting for room: the line has given one place, or the receiver is gone.\<close>

definition drain_order :: "('o, 'i, 't, 'k) peer_env \<Rightarrow> instant \<Rightarrow> bool \<Rightarrow> ('o, 'i, 't, 'k, 'r) supervisor \<Rightarrow> ('o, 'i, 't, 'k, 'r) supervisor" where
  "drain_order env now reserved sv = (
     if \<not> reserved
     then note_room False (sv\<lparr>sv_order := [], sv_ledger := drop_charges now (map cg_charge (sv_order sv)) (sv_ledger sv)\<rparr>)
     else case sv_order sv of
            [] \<Rightarrow> sv
          | x # xs \<Rightarrow> (let (opn, sv1) = load_order env now xs (sv\<lparr>sv_lane := sv_lane sv @ [x]\<rparr>) in note_room opn sv1))"

definition emit :: "('o, 'i, 't, 'k) peer_env \<Rightarrow> instant \<Rightarrow> ('t, 'k) transport_event \<Rightarrow> ('o, 'i, 't, 'k, 'r) supervisor
    \<Rightarrow> ('o, 'i, 't, 'k, 'r) supervisor" where
  "emit env now event sv = put env now (bare (InEvent event)) sv"

definition deliver :: "('o, 'i, 't, 'k) peer_env \<Rightarrow> instant \<Rightarrow> 'i received \<Rightarrow> ('o, 'i, 't, 'k, 'r) supervisor \<Rightarrow> ('o, 'i, 't, 'k, 'r) supervisor" where
  "deliver env now msg sv = (
     let (charge, _, l) = charge_unhold now (rc_charge msg) (sv_ledger sv)
     in put env now \<lparr>cg_item = InMessage (rc_generation msg) (rc_msg msg), cg_charge = charge\<rparr> (sv\<lparr>sv_ledger := l\<rparr>))"

fun emit_machine :: "('o, 'i, 't, 'k) peer_env \<Rightarrow> instant \<Rightarrow> machine_event \<Rightarrow> ('o, 'i, 't, 'k, 'r) supervisor
    \<Rightarrow> ('o, 'i, 't, 'k, 'r) supervisor" where
  "emit_machine env now (EvConnected g) sv = emit env now (TeConnected g) sv"
| "emit_machine env now (EvDisconnected g cause) sv = emit env now (TeDisconnected g cause) (sv\<lparr>sv_last_cause := cause_code cause\<rparr>)"
| "emit_machine env now (EvConnectFailed attempt cap cause retry_in) sv = emit env now (TeConnectFailed attempt cap cause retry_in) sv"
| "emit_machine env now (EvRejected code reason) sv = emit env now (TeRejected code reason) sv"
| "emit_machine env now (EvGaveUp reason) sv = emit env now (TeGaveUp reason) sv"

text \<open>The count of a loss report that is still at the end of the ordering area.\<close>

definition held_report :: "('i, 't, 'k) incoming charged list \<Rightarrow> nat option" where
  "held_report order = (if order = [] then None else case cg_item (List.last order) of InEvent (TeDropped held) \<Rightarrow> Some held | _ \<Rightarrow> None)"

definition report_drops :: "('o, 'i, 't, 'k) peer_env \<Rightarrow> instant \<Rightarrow> ('o, 'i, 't, 'k, 'r) supervisor \<Rightarrow> ('o, 'i, 't, 'k, 'r) supervisor" where
  "report_drops env now sv = (
     let n = sv_dropped_out sv; sv1 = sv\<lparr>sv_dropped_out := 0\<rparr>
     in if n = 0 then sv1
        else case held_report (sv_order sv1) of
               Some held \<Rightarrow> sv1\<lparr>sv_order := butlast (sv_order sv1) @ [(List.last (sv_order sv1))\<lparr>cg_item := InEvent (TeDropped (held + n))\<rparr>]\<rparr>
             | None \<Rightarrow> emit env now (TeDropped n) sv1)"

definition drain_overflow :: "('o, 'i, 't, 'k) peer_env \<Rightarrow> instant \<Rightarrow> ('o, 'i, 't, 'k, 'r) supervisor
    \<Rightarrow> conn_input option \<times> ('o, 'i, 't, 'k, 'r) supervisor" where
  "drain_overflow env now sv = (
     let sv1 = sv\<lparr>sv_dropped_out := sv_dropped_out sv + sv_refused sv, sv_refused := 0\<rparr>;
         full = sv_overflow sv1;
         sv2 = sv1\<lparr>sv_overflow := 0\<rparr>
     in if full = 0 then (None, sv2)
        else
          let sv3 = report_drops env now (sv2\<lparr>sv_dropped_out := sv_dropped_out sv2 + full\<rparr>)
          in if sv_overflow_generation sv3 \<noteq> mc_generation (sv_machine sv3) then (None, sv3)
             else case cp_full_queue (sv_policy sv3) of
                    FullDisconnect \<Rightarrow> (Some (LinkLost SlowQueue), sv3)
                  | DropAndReport \<Rightarrow> (None, sv3))"

section \<open>Requests, streams and frames\<close>

definition flushing :: "('o, 'i, 't, 'k, 'r) supervisor \<Rightarrow> bool" where
  "flushing sv \<longleftrightarrow> sv_goodbye sv \<noteq> None"

definition note_flush :: "instant \<Rightarrow> ('o, 'i, 't, 'k, 'r) supervisor \<Rightarrow> ('o, 'i, 't, 'k, 'r) supervisor" where
  "note_flush now sv = (if sv_flush_deadline sv = None \<and> flushing sv
     then sv\<lparr>sv_flush_deadline := Some (now + cp_flush_timeout (sv_policy sv))\<rparr> else sv)"

definition answer :: "'r \<Rightarrow> request_error + 'i \<Rightarrow> ('o, 'i, 't, 'k, 'r) supervisor \<Rightarrow> ('o, 'i, 't, 'k, 'r) supervisor" where
  "answer slot res sv = sv\<lparr>sv_answers := sv_answers sv @ [(slot, res)]\<rparr>"

definition reject_command :: "('o, 'k, 'r) peer_cmd \<Rightarrow> ('o, 'i, 't, 'k, 'r) supervisor \<Rightarrow> ('o, 'i, 't, 'k, 'r) supervisor" where
  "reject_command cmd sv = (case pc_op cmd of
     OpRequest _ reply \<Rightarrow> answer reply (Inl (ReqDisconnected (pc_generation cmd) (cause_from_code (sv_last_cause sv)) False)) sv
   | OpNotify _ \<Rightarrow> sv\<lparr>sv_dropped_out := sv_dropped_out sv + 1\<rparr>
   | OpRaw _ \<Rightarrow> sv\<lparr>sv_dropped_out := sv_dropped_out sv + 1\<rparr>
   | OpResume _ _ \<Rightarrow> sv\<lparr>sv_dropped_out := sv_dropped_out sv + 1\<rparr>
   | OpClose \<Rightarrow> sv
   | OpDropLink _ \<Rightarrow> sv)"

definition reject_all :: "('o, 'i, 't, 'k, 'r) supervisor \<Rightarrow> ('o, 'i, 't, 'k, 'r) supervisor" where
  "reject_all sv = fold reject_command (sv_data sv) (sv\<lparr>sv_data := []\<rparr>)"

definition peer_fail_pending :: "disconnect_cause \<Rightarrow> ('o, 'i, 't, 'k, 'r) supervisor \<Rightarrow> ('o, 'i, 't, 'k, 'r) supervisor" where
  "peer_fail_pending cause sv = (
     let (waiters, table) = pending_drain (sv_pending sv);
         sv1 = sv\<lparr>sv_last_cause := cause_code cause, sv_pending := table\<rparr>
     in reject_all (fold (\<lambda>(_, slot). answer slot (Inl (ReqDisconnected (mc_generation (sv_machine sv)) cause True))) waiters sv1))"

definition guard_write :: "('o, 'i, 't, 'k) peer_env \<Rightarrow> instant \<Rightarrow> ('o, 'i, 't, 'k, 'r) supervisor
    \<Rightarrow> conn_input option \<times> ('o, 'i, 't, 'k, 'r) supervisor" where
  "guard_write env now sv = (
     if \<not> sv_link sv then (Some (LinkLost WriteFailed), sv)
     else
       let sv1 = note_flush now sv
       in if (case sv_flush_deadline sv1 of None \<Rightarrow> False | Some d \<Rightarrow> d \<le> now) then (Some Close, sv1)
          else (en_write env (sv_writes sv1), sv1\<lparr>sv_writes := sv_writes sv1 + 1\<rparr>))"

definition write_frame :: "('o, 'i, 't, 'k) peer_env \<Rightarrow> instant \<Rightarrow> frame \<Rightarrow> ('o, 'i, 't, 'k, 'r) supervisor
    \<Rightarrow> conn_input option \<times> ('o, 'i, 't, 'k, 'r) supervisor" where
  "write_frame env now frame sv = (
     let (res, sv1) = guard_write env now sv
     in (res, if res = None then sv1\<lparr>sv_written := sv_written sv1 @ [frame]\<rparr> else sv1))"

definition write_or_count :: "('o, 'i, 't, 'k) peer_env \<Rightarrow> instant \<Rightarrow> frame \<Rightarrow> ('o, 'i, 't, 'k, 'r) supervisor
    \<Rightarrow> conn_input option \<times> ('o, 'i, 't, 'k, 'r) supervisor" where
  "write_or_count env now frame sv = (
     let (res, sv1) = write_frame env now frame sv
     in (res, if res = None then sv1 else sv1\<lparr>sv_dropped_out := sv_dropped_out sv1 + 1\<rparr>))"

definition on_request :: "('o, 'i, 't, 'k) peer_env \<Rightarrow> instant \<Rightarrow> 'o \<Rightarrow> 'r \<Rightarrow> ('o, 'i, 't, 'k, 'r) supervisor
    \<Rightarrow> conn_input option \<times> ('o, 'i, 't, 'k, 'r) supervisor" where
  "on_request env now out reply sv = (case wi_request_tag (en_wire env) out of
     None \<Rightarrow> (None, answer reply (Inl NotARequest) sv)
   | Some tag \<Rightarrow>
       let (res, table) = pending_insert tag reply (now + cp_request_timeout (sv_policy sv)) (sv_pending sv);
           sv1 = sv\<lparr>sv_pending := table\<rparr>
       in case res of
            Retired slot \<Rightarrow> (None, answer slot (Inl TagRetired) sv1)
          | Collided displaced rejected \<Rightarrow> (None, answer rejected (Inl TagRetired) (answer displaced (Inl Superseded) sv1))
          | Placed \<Rightarrow> write_frame env now (wi_encode (en_wire env) out) sv1)"

definition on_cmd :: "('o, 'i, 't, 'k) peer_env \<Rightarrow> instant \<Rightarrow> ('o, 'k, 'r) peer_cmd \<Rightarrow> ('o, 'i, 't, 'k, 'r) supervisor
    \<Rightarrow> conn_input option \<times> ('o, 'i, 't, 'k, 'r) supervisor" where
  "on_cmd env now cmd sv = (
     if pc_op cmd \<noteq> OpClose \<and> pc_generation cmd \<noteq> mc_generation (sv_machine sv) then (None, reject_command cmd sv)
     else case pc_op cmd of
       OpRaw frame \<Rightarrow> write_or_count env now frame sv
     | OpNotify out \<Rightarrow> write_or_count env now (wi_encode (en_wire env) out) sv
     | OpResume key after \<Rightarrow> write_frame env now (wi_encode (en_wire env) (wi_resume_request (en_wire env) key after)) sv
     | OpClose \<Rightarrow> (Some Close, sv)
     | OpDropLink cause \<Rightarrow> (Some (LinkLost cause), sv)
     | OpRequest out reply \<Rightarrow> on_request env now out reply sv)"

definition resume_clock :: "instant \<Rightarrow> ('o, 'i, 't, 'k, 'r) supervisor \<Rightarrow> instant" where
  "resume_clock now sv = (if sv_paused sv then sv_paused_since sv else now)"

definition deliver_all :: "('o, 'i, 't, 'k) peer_env \<Rightarrow> instant \<Rightarrow> 'i received list \<Rightarrow> ('o, 'i, 't, 'k, 'r) supervisor
    \<Rightarrow> ('o, 'i, 't, 'k, 'r) supervisor" where
  "deliver_all env now msgs sv = fold (deliver env now) msgs sv"

definition flush_eviction :: "('o, 'i, 't, 'k) peer_env \<Rightarrow> instant \<Rightarrow> ('k, 'i received) evicted_stream \<Rightarrow> ('o, 'i, 't, 'k, 'r) supervisor
    \<Rightarrow> ('o, 'i, 't, 'k, 'r) supervisor" where
  "flush_eviction env now e sv = (
     let sv1 = emit env now (StreamForgotten (es_key e) (es_generation e) (es_last_seq e)) sv;
         sv2 = (case es_oldest_valid e of None \<Rightarrow> sv1
                | Some v \<Rightarrow> emit env now (StreamTruncated (es_key e) (es_generation e) v) sv1)
     in deliver_all env now (es_flushed e) sv2)"

definition flush_evictions :: "('o, 'i, 't, 'k) peer_env \<Rightarrow> instant \<Rightarrow> ('o, 'i, 't, 'k, 'r) supervisor \<Rightarrow> ('o, 'i, 't, 'k, 'r) supervisor" where
  "flush_evictions env now sv = (
     let (evicted, st) = drain_evicted (sv_streams sv) in fold (flush_eviction env now) evicted (sv\<lparr>sv_streams := st\<rparr>))"

definition hand_over_truncation :: "('o, 'i, 't, 'k) peer_env \<Rightarrow> instant \<Rightarrow> ('k, 'i received) truncation \<Rightarrow> ('o, 'i, 't, 'k, 'r) supervisor
    \<Rightarrow> ('o, 'i, 't, 'k, 'r) supervisor" where
  "hand_over_truncation env now t sv =
     deliver_all env now (tr_flushed t) (emit env now (StreamTruncated (tr_key t) (tr_generation t) (tr_oldest_valid t)) sv)"

definition hand_over_truncations :: "('o, 'i, 't, 'k) peer_env \<Rightarrow> instant \<Rightarrow> ('k, 'i received) truncation list
    \<Rightarrow> ('o, 'i, 't, 'k, 'r) supervisor \<Rightarrow> ('o, 'i, 't, 'k, 'r) supervisor" where
  "hand_over_truncations env now ts sv = fold (hand_over_truncation env now) ts sv"

text \<open>What an arriving piece leaves behind to be dropped: a duplicate drops itself, an answered or renewed
  stream drops what its window held.\<close>

definition held_of :: "'k \<Rightarrow> ('k, 'm) streams \<Rightarrow> 'm list" where
  "held_of key st = (case map_of (sx_seen st) key of None \<Rightarrow> [] | Some t \<Rightarrow> (case tk_resume t of None \<Rightarrow> [] | Some r \<Rightarrow> map snd (ru_held r)))"

fun discarded_pieces :: "'m verdict \<Rightarrow> 'm \<Rightarrow> 'm list \<Rightarrow> 'm list" where
  "discarded_pieces Duplicate msg held = [msg]"
| "discarded_pieces (Deliver _) msg held = held"
| "discarded_pieces (GenerationChanged _ _ _ _) msg held = held"
| "discarded_pieces _ msg held = []"

text \<open>\<^verbatim>\<open>held_mut\<close> hands out one held piece to be changed in place.\<close>

definition held_mut :: "'k \<Rightarrow> u64 \<Rightarrow> ('m \<Rightarrow> 'm) \<Rightarrow> ('k, 'm) streams \<Rightarrow> ('k, 'm) streams" where
  "held_mut key seq f st = (case map_of (sx_seen st) key of None \<Rightarrow> st | Some t \<Rightarrow> (case tk_resume t of None \<Rightarrow> st | Some r \<Rightarrow>
     st\<lparr>sx_seen := AList.update key (t\<lparr>tk_resume := Some (r\<lparr>ru_held := map (\<lambda>(q, m). (q, if q = seq then f m else m)) (ru_held r)\<rparr>)\<rparr>) (sx_seen st)\<rparr>))"

definition held_get :: "'k \<Rightarrow> u64 \<Rightarrow> ('k, 'm) streams \<Rightarrow> 'm option" where
  "held_get key seq st = (case map_of (sx_seen st) key of None \<Rightarrow> None | Some t \<Rightarrow> (case tk_resume t of None \<Rightarrow> None | Some r \<Rightarrow> map_of (ru_held r) seq))"

definition hold_piece :: "instant \<Rightarrow> 'k stream_mark \<Rightarrow> ('o, 'i, 't, 'k, 'r) supervisor \<Rightarrow> ('o, 'i, 't, 'k, 'r) supervisor" where
  "hold_piece now mark sv = (case held_get (sk_key mark) (sk_seq mark) (sv_streams sv) of
     None \<Rightarrow> sv
   | Some piece \<Rightarrow>
       let (charge, _, l) = charge_hold now (rc_charge piece) (sv_ledger sv)
       in sv\<lparr>sv_ledger := l, sv_streams := held_mut (sk_key mark) (sk_seq mark) (\<lambda>m. m\<lparr>rc_charge := charge\<rparr>) (sv_streams sv)\<rparr>)"

fun verdict_event :: "'k stream_mark \<Rightarrow> 'm verdict \<Rightarrow> ('t, 'k) transport_event option" where
  "verdict_event mark (GenerationChanged g h _ n) = Some (StreamGenerationChanged (sk_key mark) g h n)"
| "verdict_event mark (Gap expected got resume_from) =
     Some (StreamGap (sk_key mark) (sk_generation mark) expected got (Some resume_from))"
| "verdict_event mark (Truncated v _) = Some (StreamTruncated (sk_key mark) (sk_generation mark) v)"
| "verdict_event mark _ = None"

definition route_piece :: "('o, 'i, 't, 'k) peer_env \<Rightarrow> instant \<Rightarrow> 'k stream_mark \<Rightarrow> 'i received \<Rightarrow> ('o, 'i, 't, 'k, 'r) supervisor
    \<Rightarrow> frame option \<times> ('o, 'i, 't, 'k, 'r) supervisor" where
  "route_piece env now mark msg sv = (
     let sv1 = sv\<lparr>sv_ledger := snd (use_streams now (sv_ledger sv))\<rparr>;
         over_cap = (\<not> window_fits (ch_bytes (rc_charge msg)) (sv_ledger sv1));
         held = held_of (sk_key mark) (sv_streams sv1);
         (v, st) = observe_capped mark msg (resume_clock now sv1) over_cap (sv_streams sv1);
         sv2 = sv1\<lparr>sv_streams := st, sv_ledger := drop_charges now (map rc_charge (discarded_pieces v msg held)) (sv_ledger sv1)\<rparr>;
         sv3 = (case v of Gap _ _ _ \<Rightarrow> hold_piece now mark sv2 | Held _ \<Rightarrow> hold_piece now mark sv2 | _ \<Rightarrow> sv2);
         sv4 = (case verdict_event mark v of None \<Rightarrow> sv3 | Some event \<Rightarrow> emit env now event sv3);
         sv5 = flush_evictions env now (deliver_all env now (into_delivered v) sv4)
     in ((case v of Gap _ _ after \<Rightarrow> Some (wi_encode (en_wire env) (wi_resume_request (en_wire env) (sk_key mark) (Some after))) | _ \<Rightarrow> None), sv5))"

definition route_reply :: "('o, 'i, 't, 'k) peer_env \<Rightarrow> instant \<Rightarrow> 't \<Rightarrow> 'i \<Rightarrow> byte_charge \<Rightarrow> ('o, 'i, 't, 'k, 'r) supervisor
    \<Rightarrow> ('o, 'i, 't, 'k, 'r) supervisor" where
  "route_reply env now tag msg charge sv = (
     let (found, table) = pending_take tag (sv_pending sv);
         sv1 = sv\<lparr>sv_pending := table\<rparr>;
         sv2 = (case found of
                  Some slot \<Rightarrow> answer slot (Inr msg) sv1
                | None \<Rightarrow> if ring_contains tag (pn_retired (sv_pending sv1)) then sv1 else emit env now (UnmatchedReply tag) sv1)
     in sv2\<lparr>sv_ledger := drop_charges now [charge] (sv_ledger sv2)\<rparr>)"

definition route :: "('o, 'i, 't, 'k) peer_env \<Rightarrow> instant \<Rightarrow> 'i \<Rightarrow> byte_charge \<Rightarrow> ('o, 'i, 't, 'k, 'r) supervisor
    \<Rightarrow> frame option \<times> ('o, 'i, 't, 'k, 'r) supervisor" where
  "route env now msg charge sv = (
     let reply = wi_reply_tag (en_wire env) msg; mark = wi_stream_mark (en_wire env) msg;
         sv1 = (if reply \<noteq> None \<and> mark \<noteq> None then emit env now AmbiguousRole sv else sv);
         msg' = \<lparr>rc_msg = msg, rc_charge = charge, rc_generation = mc_generation (sv_machine sv)\<rparr>
     in case reply of
          Some tag \<Rightarrow> (None, route_reply env now tag msg charge sv1)
        | None \<Rightarrow> (case mark of None \<Rightarrow> (None, deliver env now msg' sv1) | Some mk \<Rightarrow> route_piece env now mk msg' sv1))"

definition on_frame :: "('o, 'i, 't, 'k) peer_env \<Rightarrow> instant \<Rightarrow> frame \<Rightarrow> byte_charge \<Rightarrow> ('o, 'i, 't, 'k, 'r) supervisor
    \<Rightarrow> (conn_input + frame option) \<times> ('o, 'i, 't, 'k, 'r) supervisor" where
  "on_frame env now frame charge sv = (
     if frame = Keepalive then (Inr None, sv\<lparr>sv_last_rx := now, sv_ledger := drop_charges now [charge] (sv_ledger sv)\<rparr>)
     else case wi_decode (en_wire env) frame of
       Inr msg \<Rightarrow> (let (resume, sv1) = route env now msg charge (sv\<lparr>sv_last_rx := now\<rparr>) in (Inr resume, sv1))
     | Inl reason \<Rightarrow>
         let sv1 = emit env now (DecodeFailed (mc_generation (sv_machine sv)) reason) sv;
             sv2 = sv1\<lparr>sv_ledger := drop_charges now [charge] (sv_ledger sv1)\<rparr>
         in (case cp_decode_failure (sv_policy sv2) of DropFrame \<Rightarrow> Inr None | DecodeDisconnect \<Rightarrow> Inl (LinkLost ReadFailed), sv2))"

section \<open>Timers\<close>

definition wake_at :: "('o, 'i, 't, 'k, 'r) supervisor \<Rightarrow> instant" where
  "wake_at sv = (
     let w1 = sv_last_ping sv + cp_ping_interval (sv_policy sv);
         w2 = (if sv_paused sv then w1 else min w1 (sv_last_rx sv + cp_idle_timeout (sv_policy sv)));
         w3 = (case next_deadline (sv_pending sv) of None \<Rightarrow> w2 | Some d \<Rightarrow> min w2 d);
         w4 = (if sv_paused sv then w3 else case next_resume_deadline (sv_streams sv) of None \<Rightarrow> w3 | Some d \<Rightarrow> min w3 d)
     in case sv_flush_deadline sv of None \<Rightarrow> w4 | Some d \<Rightarrow> min w4 d)"

definition pause_began :: "instant option \<Rightarrow> instant option \<Rightarrow> instant option" where
  "pause_began order gate = (case order of
     None \<Rightarrow> gate
   | Some x \<Rightarrow> (case gate of None \<Rightarrow> Some x | Some g \<Rightarrow> Some (min x g)))"

definition track_pause :: "instant \<Rightarrow> ('o, 'i, 't, 'k, 'r) supervisor \<Rightarrow> ('o, 'i, 't, 'k, 'r) supervisor" where
  "track_pause now sv = (
     let (shut, l) = take_shut (sv_ledger sv);
         sv1 = sv\<lparr>sv_ledger := l\<rparr>;
         began = pause_began (if sv_order sv = [] then None else Some (sv_order_since sv)) (sh_since shut);
         closed = sh_closed shut;
         unseen = (if gc_until closed \<noteq> None
                   then sv1\<lparr>sv_last_rx := now, sv_streams := shift_resumes (gc_total closed) (sv_streams sv1)\<rparr> else sv1);
         sv2 = (if sv_paused sv
                then (case began of
                        None \<Rightarrow> sv1\<lparr>sv_last_rx := now, sv_streams := shift_resumes (now - sv_paused_since sv1) (sv_streams sv1)\<rparr>
                      | Some _ \<Rightarrow> sv1)
                else (case began of
                        None \<Rightarrow> unseen
                      | Some b \<Rightarrow>
                          if (case gc_until closed of None \<Rightarrow> False | Some u \<Rightarrow> b < u)
                          then sv1\<lparr>sv_paused_since := min (case gc_from closed of None \<Rightarrow> b | Some f \<Rightarrow> min f b) now\<rparr>
                          else unseen\<lparr>sv_paused_since := min b now\<rparr>))
     in sv2\<lparr>sv_paused := (began \<noteq> None)\<rparr>)"

definition time_out :: "('o, 'i, 't, 'k) peer_env \<Rightarrow> instant \<Rightarrow> 't \<times> 'r \<Rightarrow> ('o, 'i, 't, 'k, 'r) supervisor \<Rightarrow> ('o, 'i, 't, 'k, 'r) supervisor" where
  "time_out env now x sv = (
     let after = cp_request_timeout (sv_policy sv)
     in emit env now (RequestTimedOut (fst x) after) (answer (snd x) (Inl (TimedOut after)) sv))"

definition expire_requests :: "('o, 'i, 't, 'k) peer_env \<Rightarrow> instant \<Rightarrow> ('o, 'i, 't, 'k, 'r) supervisor \<Rightarrow> ('o, 'i, 't, 'k, 'r) supervisor" where
  "expire_requests env now sv = (
     let (expired, table) = pending_expire now (sv_pending sv) in fold (time_out env now) expired (sv\<lparr>sv_pending := table\<rparr>))"

definition expire_windows :: "('o, 'i, 't, 'k) peer_env \<Rightarrow> instant \<Rightarrow> ('o, 'i, 't, 'k, 'r) supervisor \<Rightarrow> ('o, 'i, 't, 'k, 'r) supervisor" where
  "expire_windows env now sv = (
     if sv_paused sv then sv
     else let (collapsed, st) = expire_resumes now (sv_streams sv) in hand_over_truncations env now collapsed (sv\<lparr>sv_streams := st\<rparr>))"

definition on_timer :: "('o, 'i, 't, 'k) peer_env \<Rightarrow> instant \<Rightarrow> ('o, 'i, 't, 'k, 'r) supervisor
    \<Rightarrow> conn_input option \<times> ('o, 'i, 't, 'k, 'r) supervisor" where
  "on_timer env now sv = (
     if (case sv_flush_deadline sv of None \<Rightarrow> False | Some d \<Rightarrow> d \<le> now) then (Some Close, sv)
     else
       let sv1 = track_pause now sv
       in if \<not> sv_paused sv1 \<and> cp_idle_timeout (sv_policy sv1) \<le> now - sv_last_rx sv1 then (Some (LinkLost IdleTimeout), sv1)
          else
            let sv2 = expire_windows env now (expire_requests env now sv1)
            in if cp_ping_interval (sv_policy sv2) \<le> now - sv_last_ping sv2 then guard_write env now (sv2\<lparr>sv_last_ping := now\<rparr>)
               else (None, sv2))"

fun reissue_loop :: "('o, 'i, 't, 'k) peer_env \<Rightarrow> instant \<Rightarrow> ('k \<times> u64) list \<Rightarrow> ('o, 'i, 't, 'k, 'r) supervisor
    \<Rightarrow> conn_input option \<times> ('o, 'i, 't, 'k, 'r) supervisor" where
  "reissue_loop env now [] sv = (None, sv\<lparr>sv_streams := rearm_resumes (resume_clock now sv) (sv_streams sv)\<rparr>)"
| "reissue_loop env now ((key, after) # rest) sv = (
     case write_frame env now (wi_encode (en_wire env) (wi_resume_request (en_wire env) key (Some after))) sv of
       (Some inp, sv1) \<Rightarrow> (Some inp, sv1)
     | (None, sv1) \<Rightarrow> reissue_loop env now rest sv1)"

definition reissue_resumes :: "('o, 'i, 't, 'k) peer_env \<Rightarrow> instant \<Rightarrow> ('o, 'i, 't, 'k, 'r) supervisor
    \<Rightarrow> conn_input option \<times> ('o, 'i, 't, 'k, 'r) supervisor" where
  "reissue_resumes env now sv = (case pending_resumes (sv_streams sv) of [] \<Rightarrow> (None, sv) | outstanding \<Rightarrow> reissue_loop env now outstanding sv)"

section \<open>Driving the machine\<close>

definition publish :: "('o, 'i, 't, 'k, 'r) supervisor \<Rightarrow> ('o, 'i, 't, 'k, 'r) supervisor" where
  "publish sv = sv\<lparr>sv_pub_generation := mc_generation (sv_machine sv), sv_pub_state := mc_state (sv_machine sv)\<rparr>"

fun kept_on_close :: "bool \<Rightarrow> conn_action \<Rightarrow> bool" where
  "kept_on_close accepted (Wait _) = False"
| "kept_on_close accepted (Emit (EvGaveUp _)) = False"
| "kept_on_close accepted (Emit (EvConnectFailed _ _ _ _)) = False"
| "kept_on_close accepted (Emit (EvRejected _ _)) = (\<not> accepted)"
| "kept_on_close accepted _ = True"

definition fold_into_close :: "instant \<Rightarrow> conn_action list \<Rightarrow> ('o, 'i, 't, 'k, 'r) supervisor
    \<Rightarrow> conn_action list \<times> ('o, 'i, 't, 'k, 'r) supervisor" where
  "fold_into_close now acts sv = (
     let (more_acts, m) = on_input now Close (sv_machine sv)
     in (filter (kept_on_close (sv_accepted sv)) acts @ more_acts, sv\<lparr>sv_machine := m\<rparr>))"

fun link_charge :: "link_msg \<Rightarrow> byte_charge" where
  "link_charge (LinkFrame _ c) = c"
| "link_charge _ = charge_none"

definition drop_link :: "instant \<Rightarrow> close_code \<Rightarrow> ('o, 'i, 't, 'k, 'r) supervisor \<Rightarrow> ('o, 'i, 't, 'k, 'r) supervisor" where
  "drop_link now code sv = (
     let sv1 = note_flush now sv;
         lost = (cause_from_code (sv_last_cause sv1) \<noteq> Explicit);
         closing = (case sv_goodbye sv1 of
             Some goodbye \<Rightarrow> if lost then \<lparr>cl_code = code, cl_reason = lit ''closing''\<rparr> else goodbye
           | None \<Rightarrow> \<lparr>cl_code = code, cl_reason = lit ''closing''\<rparr>);
         sv2 = (if sv_link sv1 then sv1\<lparr>sv_link := False, sv_closes := sv_closes sv1 @ [closing]\<rparr> else sv1);
         ahead = (case sv_frames sv2 of None \<Rightarrow> [] | Some ms \<Rightarrow> ms)
     in sv2\<lparr>sv_frames := None, sv_fresh_link := False, sv_ledger := drop_charges now (map link_charge ahead) (sv_ledger sv2)\<rparr>)"

datatype follow = FollowDial instant | FollowHandshake instant | FollowWait instant

fun apply_act :: "('o, 'i, 't, 'k) peer_env \<Rightarrow> instant \<Rightarrow> conn_action \<Rightarrow> follow option \<times> ('o, 'i, 't, 'k, 'r) supervisor
    \<Rightarrow> follow option \<times> ('o, 'i, 't, 'k, 'r) supervisor" where
  "apply_act env now (Emit event) (f, sv) = (f,
     if flushing sv \<and> (case event of EvGaveUp _ \<Rightarrow> True | EvConnectFailed _ _ _ _ \<Rightarrow> True | _ \<Rightarrow> False) then sv else emit_machine env now event sv)"
| "apply_act env now (FailPending cause) (f, sv) = (f, peer_fail_pending cause sv)"
| "apply_act env now (DropLink code) (f, sv) = (f, drop_link now code sv)"
| "apply_act env now (ActDial deadline) (f, sv) = (Some (FollowDial deadline), sv)"
| "apply_act env now (ActHandshake deadline) (f, sv) = (Some (FollowHandshake deadline), sv)"
| "apply_act env now (Wait until) (f, sv) = (Some (FollowWait until), sv)"

definition apply_acts :: "('o, 'i, 't, 'k) peer_env \<Rightarrow> instant \<Rightarrow> conn_action list \<Rightarrow> ('o, 'i, 't, 'k, 'r) supervisor
    \<Rightarrow> follow option \<times> ('o, 'i, 't, 'k, 'r) supervisor" where
  "apply_acts env now acts sv = fold (apply_act env now) acts (None, sv)"

text \<open>One round of the main loop: the input is fed to the machine, its actions are folded into a close where
  no further dial is allowed, the state is published and the actions are carried out.\<close>

definition round_end_cause :: "conn_input \<Rightarrow> ('o, 'i, 't, 'k, 'r) supervisor \<Rightarrow> disconnect_cause" where
  "round_end_cause inp sv = (case inp of LinkLost cause \<Rightarrow> if sv_accepted sv then cause else sv_end_cause sv | _ \<Rightarrow> sv_end_cause sv)"

definition run_round :: "('o, 'i, 't, 'k) peer_env \<Rightarrow> instant \<Rightarrow> conn_input \<Rightarrow> ('o, 'i, 't, 'k, 'r) supervisor
    \<Rightarrow> follow option \<times> ('o, 'i, 't, 'k, 'r) supervisor" where
  "run_round env now inp sv = (
     let (acts, m) = on_input now inp (sv_machine sv);
         sv1 = sv\<lparr>sv_end_cause := round_end_cause inp sv, sv_machine := m\<rparr>;
         fold_close = ((flushing sv1 \<or> sv_accepted sv1) \<and> (case mc_state m of Backoff \<Rightarrow> True | GaveUp _ \<Rightarrow> True | _ \<Rightarrow> False));
         (acts2, sv2) = (if fold_close then fold_into_close now acts sv1 else (acts, sv1));
         (f, sv3) = apply_acts env now acts2 (publish sv2)
     in (f, publish sv3))"

fun drain_ctl :: "bool \<Rightarrow> ctl option \<Rightarrow> ctl list \<Rightarrow> ctl option \<times> ctl list" where
  "drain_ctl fl seen [] = (seen, [])"
| "drain_ctl fl seen (CtlClose # rest) = (Some CtlClose, rest)"
| "drain_ctl fl seen (CtlReconnect # rest) = drain_ctl fl (if fl then seen else Some CtlReconnect) rest"

definition attach_reader :: "instant \<Rightarrow> ('o, 'i, 't, 'k, 'r) supervisor \<Rightarrow> ('o, 'i, 't, 'k, 'r) supervisor" where
  "attach_reader now sv = (
     let ahead = (case sv_frames sv of None \<Rightarrow> [] | Some ms \<Rightarrow> ms)
     in sv\<lparr>sv_frames := Some [], sv_fresh_link := True, sv_last_rx := now, sv_last_ping := now,
           sv_ledger := drop_charges now (map link_charge ahead) (sv_ledger sv)\<rparr>)"

definition is_read_end :: "disconnect_cause \<Rightarrow> bool" where
  "is_read_end cause \<longleftrightarrow> cause = PeerClosed \<or> cause = ReadFailed"

definition earlier_end :: "conn_input \<Rightarrow> disconnect_cause option \<Rightarrow> conn_input" where
  "earlier_end inp read_end = (case inp of
     LinkLost ours \<Rightarrow> (case read_end of Some theirs \<Rightarrow> if is_read_end ours then inp else LinkLost theirs | None \<Rightarrow> inp)
   | _ \<Rightarrow> inp)"

fun salvage_loop :: "('o, 'i, 't, 'k) peer_env \<Rightarrow> instant \<Rightarrow> link_msg list \<Rightarrow> disconnect_cause option \<Rightarrow> ('o, 'i, 't, 'k, 'r) supervisor
    \<Rightarrow> disconnect_cause option \<times> ('o, 'i, 't, 'k, 'r) supervisor" where
  "salvage_loop env now [] ended sv = (ended, sv)"
| "salvage_loop env now (LinkFrame frame charge # rest) ended sv = (
     let (res, sv1) = on_frame env now frame charge sv
     in salvage_loop env now rest
          (case ended of Some c \<Rightarrow> Some c | None \<Rightarrow> (case res of Inl (LinkLost cause) \<Rightarrow> Some cause | _ \<Rightarrow> None)) sv1)"
| "salvage_loop env now (LinkClosed # rest) ended sv = (Some (case ended of Some c \<Rightarrow> c | None \<Rightarrow> PeerClosed),
     sv\<lparr>sv_ledger := drop_charges now (map link_charge rest) (sv_ledger sv)\<rparr>)"
| "salvage_loop env now (LinkFailed # rest) ended sv = (Some (case ended of Some c \<Rightarrow> c | None \<Rightarrow> ReadFailed),
     sv\<lparr>sv_ledger := drop_charges now (map link_charge rest) (sv_ledger sv)\<rparr>)"

definition salvage_read_ahead :: "('o, 'i, 't, 'k) peer_env \<Rightarrow> instant \<Rightarrow> ('o, 'i, 't, 'k, 'r) supervisor
    \<Rightarrow> disconnect_cause option \<times> ('o, 'i, 't, 'k, 'r) supervisor" where
  "salvage_read_ahead env now sv = (case sv_frames sv of
     None \<Rightarrow> (None, sv)
   | Some frames \<Rightarrow> salvage_loop env now frames None (sv\<lparr>sv_frames := None\<rparr>))"

text \<open>\<^verbatim>\<open>teardown\<close> up to its last wait, which is \<open>drain_order\<close> repeated or the loss of the rest.\<close>

definition teardown :: "('o, 'i, 't, 'k) peer_env \<Rightarrow> instant \<Rightarrow> ('o, 'i, 't, 'k, 'r) supervisor \<Rightarrow> ('o, 'i, 't, 'k, 'r) supervisor" where
  "teardown env now sv = (
     let cause = sv_end_cause sv;
         sv1 = reject_all (peer_fail_pending cause (drop_link now GOING_AWAY sv));
         (open_windows, st) = close_resumes (sv_streams sv1);
         sv2 = hand_over_truncations env now open_windows (sv1\<lparr>sv_streams := st\<rparr>);
         sv3 = report_drops env now sv2
     in emit env now (TeClosed (mc_generation (sv_machine sv3)) cause) sv3)"

section \<open>The handle\<close>

definition bound_to :: "generation \<Rightarrow> ('o, 'i, 't, 'k, 'r) supervisor \<Rightarrow> bool" where
  "bound_to g sv \<longleftrightarrow> conn_is_live (sv_pub_state sv) \<and> sv_pub_generation sv = g"

definition count_overflow :: "generation \<Rightarrow> ('o, 'i, 't, 'k, 'r) supervisor \<Rightarrow> ('o, 'i, 't, 'k, 'r) supervisor" where
  "count_overflow g sv = sv\<lparr>sv_overflow_generation := max (sv_overflow_generation sv) g, sv_overflow := sv_overflow sv + 1\<rparr>"

definition refuse :: "('o, 'i, 't, 'k, 'r) supervisor \<Rightarrow> ('o, 'i, 't, 'k, 'r) supervisor" where
  "refuse sv = sv\<lparr>sv_refused := sv_refused sv + 1\<rparr>"

definition push_cmd :: "('o, 'k, 'r) peer_cmd \<Rightarrow> send_result \<Rightarrow> ('o, 'i, 't, 'k, 'r) supervisor
    \<Rightarrow> (send_error + unit) \<times> ('o, 'i, 't, 'k, 'r) supervisor" where
  "push_cmd cmd res sv = (case res of
     SendOk \<Rightarrow> (Inr (), sv\<lparr>sv_data := sv_data sv @ [cmd]\<rparr>)
   | SendFull \<Rightarrow> (Inl SeQueueFull, count_overflow (pc_generation cmd) sv)
   | SendClosed \<Rightarrow> (Inl SeClosed, sv))"

definition handle_disconnected :: "generation \<Rightarrow> bool \<Rightarrow> ('o, 'i, 't, 'k, 'r) supervisor \<Rightarrow> request_error" where
  "handle_disconnected g sent sv = ReqDisconnected g (cause_from_code (sv_last_cause sv)) sent"

text \<open>The error the caller gets at once, or \<open>None\<close> when the request was queued and its slot will be answered.\<close>

definition request_in :: "generation \<Rightarrow> 'o \<Rightarrow> 'r \<Rightarrow> send_result \<Rightarrow> ('o, 'i, 't, 'k, 'r) supervisor
    \<Rightarrow> request_error option \<times> ('o, 'i, 't, 'k, 'r) supervisor" where
  "request_in g out slot res sv = (
     if flushing sv then (Some (ReqDisconnected g Explicit False), sv)
     else if \<not> bound_to g sv then (Some (handle_disconnected g False sv), sv)
     else case res of
       SendOk \<Rightarrow> (None, sv\<lparr>sv_data := sv_data sv @ [\<lparr>pc_generation = g, pc_op = OpRequest out slot\<rparr>]\<rparr>)
     | SendFull \<Rightarrow> (Some ReqQueueFull, count_overflow g sv)
     | SendClosed \<Rightarrow> (Some (handle_disconnected g False sv), sv))"

definition notify_in :: "generation \<Rightarrow> 'o \<Rightarrow> send_result \<Rightarrow> ('o, 'i, 't, 'k, 'r) supervisor
    \<Rightarrow> (send_error + unit) \<times> ('o, 'i, 't, 'k, 'r) supervisor" where
  "notify_in g out res sv = (
     if flushing sv then (Inl SeClosed, sv)
     else if \<not> bound_to g sv then (Inl SeDisconnected, sv)
     else push_cmd \<lparr>pc_generation = g, pc_op = OpNotify out\<rparr> res sv)"

definition resume_stream :: "'k \<Rightarrow> u64 option \<Rightarrow> send_result \<Rightarrow> ('o, 'i, 't, 'k, 'r) supervisor \<Rightarrow> generation \<times> ('o, 'i, 't, 'k, 'r) supervisor" where
  "resume_stream key after res sv = (
     let g = sv_pub_generation sv
     in (g, if flushing sv then sv
            else if bound_to g sv then snd (push_cmd \<lparr>pc_generation = g, pc_op = OpResume key after\<rparr> res sv)
            else refuse sv))"

definition send_frame :: "frame \<Rightarrow> send_result \<Rightarrow> ('o, 'i, 't, 'k, 'r) supervisor
    \<Rightarrow> (send_error + unit) \<times> ('o, 'i, 't, 'k, 'r) supervisor" where
  "send_frame frame res sv = (
     if flushing sv then (Inl SeClosed, sv)
     else
       let g = sv_pub_generation sv
       in if \<not> bound_to g sv then (Inl SeDisconnected, if sv_close_requested sv then sv else refuse sv)
          else push_cmd \<lparr>pc_generation = g, pc_op = OpRaw frame\<rparr> res sv)"

definition drop_link_in :: "generation \<Rightarrow> disconnect_cause \<Rightarrow> send_result \<Rightarrow> ('o, 'i, 't, 'k, 'r) supervisor \<Rightarrow> ('o, 'i, 't, 'k, 'r) supervisor" where
  "drop_link_in g cause res sv = (
     if flushing sv \<or> \<not> bound_to g sv then sv
     else snd (push_cmd \<lparr>pc_generation = g, pc_op = OpDropLink cause\<rparr> res sv))"

definition reconnect_now :: "('o, 'i, 't, 'k, 'r) supervisor \<Rightarrow> ('o, 'i, 't, 'k, 'r) supervisor" where
  "reconnect_now sv = (if flushing sv \<or> sv_accepted sv then sv else sv\<lparr>sv_ctl := sv_ctl sv @ [CtlReconnect]\<rparr>)"

definition close_peer :: "('o, 'i, 't, 'k, 'r) supervisor \<Rightarrow> ('o, 'i, 't, 'k, 'r) supervisor" where
  "close_peer sv = sv\<lparr>sv_close_requested := True, sv_ctl := sv_ctl sv @ [CtlClose]\<rparr>"

definition close_after_flush :: "close_frame \<Rightarrow> send_result \<Rightarrow> ('o, 'i, 't, 'k, 'r) supervisor \<Rightarrow> ('o, 'i, 't, 'k, 'r) supervisor" where
  "close_after_flush closing res sv = (
     if sv_goodbye sv \<noteq> None then sv
     else
       let sv1 = sv\<lparr>sv_goodbye := Some closing, sv_close_requested := True\<rparr>
       in case res of
            SendOk \<Rightarrow> sv1\<lparr>sv_data := sv_data sv1 @ [\<lparr>pc_generation = sv_pub_generation sv1, pc_op = OpClose\<rparr>]\<rparr>
          | SendFull \<Rightarrow> sv1\<lparr>sv_ctl := sv_ctl sv1 @ [CtlClose]\<rparr>
          | SendClosed \<Rightarrow> sv1)"

end
