(* ===== verification/Peer_System.thy ===== *)
theory Peer_System
  imports Peer_Core
begin

text \<open>
  Laws of the peer supervisor of \<open>Peer_Core\<close>, and the system it forms with its handle, the reader and
  the receiver: every request that was queued is answered exactly once, and a timer that has been
  served asks to be woken strictly later.
\<close>

section \<open>What the upward path touches\<close>

text \<open>Everything that goes up to the receiver changes the ordering area, the line, the tally and the
  record that the receiver is gone. \<open>below\<close> is the rest of the state.\<close>

definition below :: "('o, 'i, 't, 'k, 'r) supervisor \<Rightarrow> ('o, 'i, 't, 'k, 'r) supervisor" where
  "below sv = sv\<lparr>sv_order := [], sv_order_since := 0, sv_sends := 0, sv_lane := [], sv_ledger := byte_ledger_new 0, sv_consumer_gone := False\<rparr>"

lemma belowD:
  assumes "below sv' = below sv"
  shows "sv_policy sv' = sv_policy sv" "sv_accepted sv' = sv_accepted sv" "sv_machine sv' = sv_machine sv"
    "sv_pending sv' = sv_pending sv" "sv_streams sv' = sv_streams sv" "sv_data sv' = sv_data sv"
    "sv_last_cause sv' = sv_last_cause sv" "sv_goodbye sv' = sv_goodbye sv" "sv_flush_deadline sv' = sv_flush_deadline sv"
    "sv_link sv' = sv_link sv" "sv_frames sv' = sv_frames sv" "sv_paused sv' = sv_paused sv" "sv_paused_since sv' = sv_paused_since sv"
    "sv_last_rx sv' = sv_last_rx sv" "sv_last_ping sv' = sv_last_ping sv" "sv_dropped_out sv' = sv_dropped_out sv"
    "sv_end_cause sv' = sv_end_cause sv" "sv_answers sv' = sv_answers sv" "sv_written sv' = sv_written sv"
proof -
  show "sv_policy sv' = sv_policy sv" "sv_accepted sv' = sv_accepted sv" "sv_machine sv' = sv_machine sv"
    "sv_pending sv' = sv_pending sv" "sv_streams sv' = sv_streams sv" "sv_data sv' = sv_data sv"
    "sv_last_cause sv' = sv_last_cause sv" "sv_goodbye sv' = sv_goodbye sv" "sv_flush_deadline sv' = sv_flush_deadline sv"
    "sv_link sv' = sv_link sv" "sv_frames sv' = sv_frames sv" "sv_paused sv' = sv_paused sv" "sv_paused_since sv' = sv_paused_since sv"
    "sv_last_rx sv' = sv_last_rx sv" "sv_last_ping sv' = sv_last_ping sv" "sv_dropped_out sv' = sv_dropped_out sv"
    "sv_end_cause sv' = sv_end_cause sv" "sv_answers sv' = sv_answers sv" "sv_written sv' = sv_written sv"
    using arg_cong[OF assms, of sv_policy] arg_cong[OF assms, of sv_accepted] arg_cong[OF assms, of sv_machine]
      arg_cong[OF assms, of sv_pending] arg_cong[OF assms, of sv_streams] arg_cong[OF assms, of sv_data]
      arg_cong[OF assms, of sv_last_cause] arg_cong[OF assms, of sv_goodbye] arg_cong[OF assms, of sv_flush_deadline]
      arg_cong[OF assms, of sv_link] arg_cong[OF assms, of sv_frames] arg_cong[OF assms, of sv_paused] arg_cong[OF assms, of sv_paused_since]
      arg_cong[OF assms, of sv_last_rx] arg_cong[OF assms, of sv_last_ping] arg_cong[OF assms, of sv_dropped_out]
      arg_cong[OF assms, of sv_end_cause] arg_cong[OF assms, of sv_answers] arg_cong[OF assms, of sv_written]
    by (simp_all add: below_def)
qed

lemma below_fields [simp]:
  "below (sv\<lparr>sv_ledger := l\<rparr>) = below sv" "below (sv\<lparr>sv_order := ord\<rparr>) = below sv" "below (sv\<lparr>sv_lane := lane\<rparr>) = below sv"
  "below (sv\<lparr>sv_sends := n\<rparr>) = below sv" "below (sv\<lparr>sv_order_since := t\<rparr>) = below sv" "below (sv\<lparr>sv_consumer_gone := b\<rparr>) = below sv"
  by (simp_all add: below_def)

lemma below_note_room [simp]: "below (note_room opn sv) = below sv"
  by (simp add: note_room_def)

lemma below_load [simp]: "below (snd (load_order env now items sv)) = below sv"
  by (simp add: load_order_def case_prod_beta Let_def)

lemma below_put [simp]: "below (put env now x sv) = below sv"
  by (simp add: put_def case_prod_beta Let_def)

lemma below_emit [simp]: "below (emit env now e sv) = below sv"
  by (simp add: emit_def)

lemma below_deliver [simp]: "below (deliver env now m sv) = below sv"
  by (simp add: deliver_def case_prod_beta)

lemma below_fold: "(\<And>x sv. below (f x sv) = below sv) \<Longrightarrow> below (fold f xs sv) = below sv"
  by (induction xs arbitrary: sv) simp_all

lemma below_deliver_all [simp]: "below (deliver_all env now ms sv) = below sv"
  unfolding deliver_all_def by (rule below_fold) simp

lemma below_eviction [simp]: "below (flush_eviction env now e sv) = below sv"
  by (simp add: flush_eviction_def Let_def split: option.splits)

lemma below_hand_over [simp]: "below (hand_over_truncations env now ts sv) = below sv"
  unfolding hand_over_truncations_def by (rule below_fold) (simp add: hand_over_truncation_def)

lemma below_drain_order [simp]: "below (drain_order env now reserved sv) = below sv"
  by (simp add: drain_order_def case_prod_beta split: list.splits)

lemmas upward_keeps [simp] =
  belowD[OF below_put] belowD[OF below_emit] belowD[OF below_deliver] belowD[OF below_deliver_all] belowD[OF below_hand_over]
  belowD[OF below_drain_order] belowD[OF below_eviction]

section \<open>Requests\<close>

fun cmd_slots :: "('o, 'k, 'r) peer_op \<Rightarrow> 'r list" where
  "cmd_slots (OpRequest _ slot) = [slot]"
| "cmd_slots _ = []"

definition queued :: "('o, 'i, 't, 'k, 'r) supervisor \<Rightarrow> 'r multiset" where
  "queued sv = mset (concat (map (\<lambda>c. cmd_slots (pc_op c)) (sv_data sv)))"

definition answered :: "('o, 'i, 't, 'k, 'r) supervisor \<Rightarrow> 'r multiset" where
  "answered sv = mset (map fst (sv_answers sv))"

text \<open>The slots a state accounts for.\<close>

definition accounted :: "('o, 'i, 't, 'k, 'r) supervisor \<Rightarrow> 'r multiset" where
  "accounted sv = answered sv + slots (sv_pending sv) + queued sv"

text \<open>The part of the state requests live in; a handler that keeps it keeps every request.\<close>

definition req_part :: "('o, 'i, 't, 'k, 'r) supervisor \<Rightarrow> ('r \<times> (request_error + 'i)) list \<times> ('t, 'r) pending \<times> ('o, 'k, 'r) peer_cmd list" where
  "req_part sv = (sv_answers sv, sv_pending sv, sv_data sv)"

lemma req_part_below: "below sv' = below sv \<Longrightarrow> req_part sv' = req_part sv"
  using belowD[of sv' sv] by (simp add: req_part_def)

lemma req_part_accounted: "req_part sv' = req_part sv \<Longrightarrow> accounted sv' = accounted sv"
  by (simp add: req_part_def accounted_def answered_def queued_def)

lemma answer_req [simp]:
  "answered (answer slot r sv) = add_mset slot (answered sv)" "sv_pending (answer slot r sv) = sv_pending sv" "queued (answer slot r sv) = queued sv"
  "sv_data (answer slot r sv) = sv_data sv"
  by (simp_all add: answer_def answered_def queued_def)

lemma reject_req [simp]:
  "answered (reject_command c sv) = mset (cmd_slots (pc_op c)) + answered sv" "sv_pending (reject_command c sv) = sv_pending sv"
  "queued (reject_command c sv) = queued sv" "sv_data (reject_command c sv) = sv_data sv"
  by (simp_all add: reject_command_def answered_def queued_def answer_def split: peer_op.splits)

lemma reject_fold:
  "answered (fold reject_command cs sv) = mset (concat (map (\<lambda>c. cmd_slots (pc_op c)) cs)) + answered sv
    \<and> sv_pending (fold reject_command cs sv) = sv_pending sv \<and> sv_data (fold reject_command cs sv) = sv_data sv"
  by (induction cs arbitrary: sv) simp_all

lemma reject_all_req:
  "answered (reject_all sv) = queued sv + answered sv" "sv_pending (reject_all sv) = sv_pending sv" "sv_data (reject_all sv) = []"
    "queued (reject_all sv) = {#}"
  using reject_fold[of "sv_data sv" "sv\<lparr>sv_data := []\<rparr>"] by (simp_all add: reject_all_def queued_def answered_def)

lemma answer_fold:
  fixes f :: "'t \<times> 'r \<Rightarrow> ('o, 'i, 't, 'k, 'r) supervisor \<Rightarrow> ('o, 'i, 't, 'k, 'r) supervisor"
  assumes "\<And>x sv. answered (f x sv) = add_mset (snd x) (answered sv)" "\<And>x sv. sv_pending (f x sv) = sv_pending sv" "\<And>x sv. sv_data (f x sv) = sv_data sv"
  shows "answered (fold f xs sv) = mset (map snd xs) + answered sv \<and> sv_pending (fold f xs sv) = sv_pending sv \<and> sv_data (fold f xs sv) = sv_data sv"
  by (induction xs arbitrary: sv) (simp_all add: assms)

lemma fail_pending_req:
  assumes "pending_inv (sv_pending sv)"
  shows "accounted (peer_fail_pending cause sv) = accounted sv" "pending_inv (sv_pending (peer_fail_pending cause sv))"
    "slots (sv_pending (peer_fail_pending cause sv)) = {#}" "sv_data (peer_fail_pending cause sv) = []"
proof -
  let ?d = "pending_drain (sv_pending sv)" and ?sv1 = "sv\<lparr>sv_last_cause := cause_code cause, sv_pending := snd (pending_drain (sv_pending sv))\<rparr>"
  let ?f = "\<lambda>(_, slot). answer slot (Inl (ReqDisconnected (mc_generation (sv_machine sv)) cause True))"
  have F: "peer_fail_pending cause sv = reject_all (fold ?f (fst ?d) ?sv1)" by (simp add: peer_fail_pending_def case_prod_beta Let_def)
  have A: "answered (fold ?f (fst ?d) ?sv1) = mset (map snd (fst ?d)) + answered ?sv1 \<and>
      sv_pending (fold ?f (fst ?d) ?sv1) = sv_pending ?sv1 \<and> sv_data (fold ?f (fst ?d) ?sv1) = sv_data ?sv1"
    by (rule answer_fold) (simp_all add: case_prod_beta)
  have D: "slots (snd ?d) = {#}" by (simp add: pending_drain_def slots_def)
  show "slots (sv_pending (peer_fail_pending cause sv)) = {#}" "sv_data (peer_fail_pending cause sv) = []"
    using A D by (simp_all add: F reject_all_req)
  show "pending_inv (sv_pending (peer_fail_pending cause sv))"
    using A drain_laws(1)[OF assms] by (simp add: F reject_all_req)
  show "accounted (peer_fail_pending cause sv) = accounted sv"
    using A D drain_laws(2)[of "sv_pending sv"] by (simp add: F accounted_def reject_all_req) (simp add: queued_def answered_def ac_simps)
qed

lemma note_flush_req [simp]: "req_part (note_flush now sv) = req_part sv"
  by (simp add: note_flush_def req_part_def)

lemma guard_req: "req_part (snd (guard_write env now sv)) = req_part sv"
  using note_flush_req[of now sv] by (simp add: guard_write_def Let_def req_part_def)

lemma write_req: "req_part (snd (write_frame env now f sv)) = req_part sv" "req_part (snd (write_or_count env now f sv)) = req_part sv"
  using guard_req[of env now sv] by (simp_all add: write_frame_def write_or_count_def case_prod_beta req_part_def)

text \<open>A handler keeps the requests: it moves slots between the queue, the table and the answers only.\<close>

definition keeps :: "'r multiset \<Rightarrow> ('o, 'i, 't, 'k, 'r) supervisor \<Rightarrow> ('o, 'i, 't, 'k, 'r) supervisor \<Rightarrow> bool" where
  "keeps new sv sv' \<longleftrightarrow> (pending_inv (sv_pending sv) \<longrightarrow> pending_inv (sv_pending sv') \<and> accounted sv' = new + accounted sv)"

lemma keeps_part: "req_part sv' = req_part sv \<Longrightarrow> keeps {#} sv sv'"
  using req_part_accounted[of sv' sv] by (simp add: keeps_def req_part_def)

lemma keeps_below: "below sv' = below sv \<Longrightarrow> keeps {#} sv sv'"
  by (rule keeps_part[OF req_part_below])

lemma keeps_trans: "keeps a x y \<Longrightarrow> keeps b y z \<Longrightarrow> keeps (a + b) x z"
  by (auto simp: keeps_def ac_simps)

lemma keeps_refl [simp]: "keeps {#} sv sv"
  by (simp add: keeps_def)

lemma keeps_then: "keeps a x y \<Longrightarrow> keeps {#} y z \<Longrightarrow> keeps a x z"
  using keeps_trans[of a x y "{#}" z] by simp

lemma keeps_fold: "(\<And>x sv. keeps {#} sv (f x sv)) \<Longrightarrow> keeps {#} sv (fold f xs sv)"
  by (induction xs arbitrary: sv) (auto intro: keeps_then)

lemma keeps_emit [simp]: "keeps {#} sv (emit env now e sv)"
  by (rule keeps_below) simp

lemma keeps_fail_pending [simp]: "keeps {#} sv (peer_fail_pending cause sv)"
  using fail_pending_req[of sv cause] by (simp add: keeps_def)

lemma keeps_reject [simp]: "keeps (mset (cmd_slots (pc_op c))) sv (reject_command c sv)"
  by (simp add: keeps_def accounted_def)

lemma keeps_reject_all [simp]: "keeps {#} sv (reject_all sv)"
  by (simp add: keeps_def accounted_def reject_all_req)

lemma below_report: "below (report_drops env now sv) = below (sv\<lparr>sv_dropped_out := 0\<rparr>)"
  by (auto simp: report_drops_def Let_def split: option.splits)

lemmas report_keeps = belowD[OF below_report]

lemma report_req [simp]: "req_part (report_drops env now sv) = req_part sv"
  using req_part_below[OF below_report[of env now sv]] by (simp add: req_part_def)

lemma keeps_report [simp]: "keeps {#} sv (report_drops env now sv)"
  by (rule keeps_part) simp

lemma keeps_overflow [simp]:
  fixes sv :: "('o, 'i, 't, 'k, 'r) supervisor"
  shows "keeps {#} sv (snd (drain_overflow env now sv))"
proof -
  have "keeps {#} sv (report_drops env now sv')" if "req_part sv' = req_part sv" for sv' :: "('o, 'i, 't, 'k, 'r) supervisor"
    by (rule keeps_then[OF keeps_part[OF that] keeps_report])
  then show ?thesis
    by (auto simp: drain_overflow_def Let_def req_part_def intro: keeps_part split: queue_full_policy.splits)
qed

lemma keeps_write [simp]:
  "keeps {#} sv (snd (write_frame env now f sv))" "keeps {#} sv (snd (write_or_count env now f sv))" "keeps {#} sv (snd (guard_write env now sv))"
  by (rule keeps_part, rule write_req | rule keeps_part, rule guard_req)+

lemma keeps_request: "keeps {#slot#} sv (snd (on_request env now out slot sv))"
proof (cases "wi_request_tag (en_wire env) out")
  case None
  then show ?thesis by (simp add: on_request_def keeps_def accounted_def)
next
  case (Some tag)
  obtain res table where ins: "pending_insert tag slot (now + cp_request_timeout (sv_policy sv)) (sv_pending sv) = (res, table)" by fastforce
  let ?sv1 = "sv\<lparr>sv_pending := table\<rparr>"
  have acc: "accounted ?sv1 = answered sv + slots table + queued sv" by (simp add: accounted_def answered_def queued_def)
  have "keeps {#slot#} sv ?sv1" if "res = Placed"
    using insert_laws[OF _ ins] that acc by (simp add: keeps_def accounted_def[of sv])
  then show ?thesis
    using Some ins insert_laws[OF _ ins] acc keeps_write(1)[of ?sv1 env now "wi_encode (en_wire env) out"]
    by (cases res) (auto simp: on_request_def keeps_def accounted_def[of sv] accounted_def[of "answer _ _ _"] answered_def[of "_\<lparr>sv_pending := _\<rparr>"]
        queued_def[of "_\<lparr>sv_pending := _\<rparr>"] answered_def[of sv] queued_def[of sv])
qed

lemma keeps_cmd: "keeps (mset (cmd_slots (pc_op cmd))) sv (snd (on_cmd env now cmd sv))"
proof (cases "pc_op cmd \<noteq> OpClose \<and> pc_generation cmd \<noteq> mc_generation (sv_machine sv)")
  case True
  then show ?thesis by (simp add: on_cmd_def)
next
  case False
  then show ?thesis using keeps_request[of _ sv env now] by (cases "pc_op cmd") (auto simp: on_cmd_def)
qed

lemma keeps_clock: "keeps {#} sv (sv\<lparr>sv_streams := st, sv_ledger := l, sv_last_rx := t, sv_paused_since := u, sv_paused := b\<rparr>)"
  by (rule keeps_part) (simp add: req_part_def)

lemma keeps_streams [simp]: "keeps {#} sv (sv\<lparr>sv_streams := st\<rparr>)" "keeps {#} sv (sv\<lparr>sv_ledger := l\<rparr>)" "keeps {#} sv (sv\<lparr>sv_last_rx := t\<rparr>)"
  "keeps {#} sv (sv\<lparr>sv_streams := st, sv_ledger := l\<rparr>)" "keeps {#} sv (sv\<lparr>sv_frames := fr\<rparr>)" "keeps {#} sv (sv\<lparr>sv_last_ping := t\<rparr>)"
  "keeps {#} sv (sv\<lparr>sv_ctl := cs\<rparr>)" "keeps {#} sv (sv\<lparr>sv_last_cause := cc\<rparr>)"
  by (rule keeps_part, simp add: req_part_def)+

lemma keeps_hand_over [simp]: "keeps {#} sv (hand_over_truncations env now ts sv)" "keeps {#} sv (deliver_all env now ms sv)" "keeps {#} sv (deliver env now m sv)"
  "keeps {#} sv (flush_eviction env now e sv)" "keeps {#} sv (drain_order env now b sv)"
  by (rule keeps_below, simp)+

lemma keeps_evictions [simp]: "keeps {#} sv (flush_evictions env now sv)"
  unfolding flush_evictions_def by (auto simp: case_prod_beta intro: keeps_then[OF keeps_streams(1) keeps_fold])

lemma keeps_hold [simp]: "keeps {#} sv (hold_piece now mark sv)"
  by (rule keeps_part) (simp add: hold_piece_def req_part_def case_prod_beta split: option.splits)

lemma keeps_piece [simp]:
  fixes sv :: "('o, 'i, 't, 'k, 'r) supervisor"
  shows "keeps {#} sv (snd (route_piece env now mark msg sv))"
proof -
  obtain v st where o: "observe_capped mark msg (resume_clock now (sv\<lparr>sv_ledger := snd (use_streams now (sv_ledger sv))\<rparr>))
      (\<not> window_fits (ch_bytes (rc_charge msg)) (snd (use_streams now (sv_ledger sv)))) (sv_streams sv) = (v, st)" by fastforce
  have held: "keeps {#} sv (case v of Gap _ _ _ \<Rightarrow> hold_piece now mark sv' | Held _ \<Rightarrow> hold_piece now mark sv' | _ \<Rightarrow> sv')"
    if "keeps {#} sv sv'" for sv' :: "('o, 'i, 't, 'k, 'r) supervisor"
    using that by (cases v) (auto intro: keeps_then)
  have ev: "keeps {#} sv (case verdict_event mark v of None \<Rightarrow> sv' | Some event \<Rightarrow> emit env now event sv')"
    if "keeps {#} sv sv'" for sv' :: "('o, 'i, 't, 'k, 'r) supervisor"
    using that by (auto split: option.splits intro: keeps_then)
  show ?thesis
    unfolding route_piece_def Let_def by (simp add: o) (intro keeps_then[OF _ keeps_evictions] keeps_then[OF _ keeps_hand_over(2)] ev held, simp)
qed

lemma keeps_reply [simp]: "keeps {#} sv (route_reply env now tag msg charge sv)"
proof -
  obtain found table where t: "pending_take tag (sv_pending sv) = (found, table)" by fastforce
  let ?sv1 = "sv\<lparr>sv_pending := table\<rparr>"
  let ?sv2 = "case found of Some slot \<Rightarrow> answer slot (Inr msg) ?sv1
    | None \<Rightarrow> if ring_contains tag (pn_retired (sv_pending ?sv1)) then ?sv1 else emit env now (UnmatchedReply tag) ?sv1"
  have e: "keeps {#} ?sv1 (emit env now (UnmatchedReply tag) ?sv1)" by simp
  have "keeps {#} sv ?sv2"
    using take_laws[of "sv_pending sv" tag] t e
    by (auto simp: keeps_def accounted_def answered_def queued_def answer_def split: option.splits)
  moreover have "route_reply env now tag msg charge sv = ?sv2\<lparr>sv_ledger := drop_charges now [charge] (sv_ledger ?sv2)\<rparr>"
    by (simp only: route_reply_def t Let_def prod.case)
  ultimately show ?thesis using keeps_then[OF _ keeps_streams(2)] by metis
qed

lemma keeps_route [simp]: "keeps {#} sv (snd (route env now msg charge sv))"
  using keeps_then[OF keeps_emit[of sv env now AmbiguousRole] keeps_reply]
  by (auto simp: route_def Let_def split: option.splits)

lemma keeps_frame [simp]:
  fixes sv :: "('o, 'i, 't, 'k, 'r) supervisor"
  shows "keeps {#} sv (snd (on_frame env now frame charge sv))"
proof -
  have d: "keeps {#} sv (x\<lparr>sv_ledger := l\<rparr>)" if "keeps {#} sv x" for x :: "('o, 'i, 't, 'k, 'r) supervisor" and l
    by (rule keeps_then[OF that]) simp
  have "keeps {#} sv (sv\<lparr>sv_last_rx := now, sv_ledger := l\<rparr>)" for l by (rule d) simp
  moreover have "keeps {#} sv (snd (route env now m charge (sv\<lparr>sv_last_rx := now\<rparr>)))" for m
    by (rule keeps_then[OF keeps_streams(3) keeps_route])
  ultimately show ?thesis using d[OF keeps_emit] by (auto simp: on_frame_def Let_def case_prod_beta split: sum.splits)
qed

lemma keeps_salvage [simp]: "keeps {#} sv (snd (salvage_loop env now frames ended sv))"
proof (induction env now frames ended sv rule: salvage_loop.induct)
  case (2 env now frame charge rest ended sv)
  obtain res y where "on_frame env now frame charge sv = (res, y)" by fastforce
  with 2 keeps_frame[of sv env now frame charge] show ?case by (auto intro: keeps_then)
qed simp_all

lemma keeps_salvage_ahead [simp]: "keeps {#} sv (snd (salvage_read_ahead env now sv))"
  using keeps_then[OF keeps_streams(5) keeps_salvage] by (auto simp: salvage_read_ahead_def split: option.splits)

lemma keeps_pause [simp]: "keeps {#} sv (track_pause now sv)"
  by (rule keeps_part) (simp add: track_pause_def req_part_def case_prod_beta Let_def split: option.splits)

lemma keeps_expire [simp]:
  fixes sv :: "('o, 'i, 't, 'k, 'r) supervisor"
  shows "keeps {#} sv (expire_requests env now sv)"
proof -
  let ?e = "pending_expire now (sv_pending sv)"
  let ?sv1 = "sv\<lparr>sv_pending := snd ?e\<rparr>"
  have one: "answered (time_out env now x sv) = add_mset (snd x) (answered sv)" "sv_pending (time_out env now x sv) = sv_pending sv"
    "sv_data (time_out env now x sv) = sv_data sv" for x and sv :: "('o, 'i, 't, 'k, 'r) supervisor"
    by (simp_all add: time_out_def Let_def answered_def answer_def)
  have "answered (fold (time_out env now) (fst ?e) ?sv1) = mset (map snd (fst ?e)) + answered ?sv1 \<and>
      sv_pending (fold (time_out env now) (fst ?e) ?sv1) = sv_pending ?sv1 \<and> sv_data (fold (time_out env now) (fst ?e) ?sv1) = sv_data ?sv1"
    by (rule answer_fold) (simp_all add: one)
  then show ?thesis
    using expire_laws(1,2)[of "sv_pending sv" now]
    by (simp add: expire_requests_def case_prod_beta keeps_def accounted_def queued_def) (simp add: answered_def ac_simps)
qed

lemma keeps_windows [simp]: "keeps {#} sv (expire_windows env now sv)"
  using keeps_then[OF keeps_streams(1) keeps_hand_over(1)] by (auto simp: expire_windows_def case_prod_beta)

lemma keeps_timer [simp]: "keeps {#} sv (snd (on_timer env now sv))"
proof -
  let ?sv1 = "track_pause now sv" and ?sv2 = "expire_windows env now (expire_requests env now (track_pause now sv))"
  have 1: "keeps {#} sv ?sv2" by (rule keeps_then[OF keeps_then[OF keeps_pause keeps_expire] keeps_windows])
  have "keeps {#} sv (snd (guard_write env now (?sv2\<lparr>sv_last_ping := now\<rparr>)))"
    by (rule keeps_then[OF keeps_then[OF 1 keeps_streams(6)] keeps_write(3)])
  with 1 show ?thesis unfolding on_timer_def Let_def by simp
qed

lemma keeps_reissue [simp]:
  fixes sv :: "('o, 'i, 't, 'k, 'r) supervisor"
  shows "keeps {#} sv (snd (reissue_resumes env now sv))"
proof -
  have "keeps {#} sv (snd (reissue_loop env now xs sv))" for xs and sv :: "('o, 'i, 't, 'k, 'r) supervisor"
  proof (induction env now xs sv rule: reissue_loop.induct)
    case (2 env now key after rest sv)
    let ?f = "wi_encode (en_wire env) (wi_resume_request (en_wire env) key (Some after))"
    obtain res y where w: "write_frame env now ?f sv = (res, y)" by fastforce
    have "keeps {#} sv y" using keeps_write(1)[of sv env now ?f, unfolded w] by simp
    with 2 w show ?case by (cases res) (auto intro: keeps_then)
  qed simp
  then show ?thesis by (simp add: reissue_resumes_def split: list.splits)
qed

lemma keeps_drop_link [simp]: "keeps {#} sv (drop_link now code sv)"
  using note_flush_req[of now sv] by (intro keeps_part) (simp add: drop_link_def Let_def req_part_def)

lemma keeps_act: "keeps {#} sv (snd (apply_act env now act (f, sv)))"
proof (cases act)
  case (Emit e)
  have "keeps {#} sv (emit_machine env now e sv)"
    using keeps_then[OF keeps_streams(8) keeps_emit] by (cases e) auto
  with Emit show ?thesis by simp
qed simp_all

lemma keeps_acts: "keeps {#} sv (snd (apply_acts env now acts sv))"
proof -
  have "keeps {#} sv (snd (fold (apply_act env now) acts (f, sv)))" for f
  proof (induction acts arbitrary: f sv)
    case (Cons act acts)
    obtain g sv1 where "apply_act env now act (f, sv) = (g, sv1)" by fastforce
    with Cons.IH[of sv1 g] keeps_act[of sv env now act f] show ?case by (auto intro: keeps_then)
  qed simp
  then show ?thesis by (simp add: apply_acts_def)
qed

lemma keeps_round [simp]:
  fixes sv :: "('o, 'i, 't, 'k, 'r) supervisor"
  shows "keeps {#} sv (snd (run_round env now inp sv))"
proof -
  have p: "keeps {#} x (publish y)" if "keeps {#} x y" for x y :: "('o, 'i, 't, 'k, 'r) supervisor"
    using that by (simp add: publish_def keeps_def accounted_def answered_def queued_def)
  have m: "keeps {#} sv (publish (sv\<lparr>sv_end_cause := c, sv_machine := m\<rparr>))" "keeps {#} sv (publish (sv\<lparr>sv_end_cause := c, sv_machine := n, sv_machine := m\<rparr>))" for c m n
    by (simp_all add: publish_def keeps_def accounted_def answered_def queued_def)
  show ?thesis
    unfolding run_round_def Let_def case_prod_beta fold_into_close_def
    by (auto intro!: p keeps_then[OF m(1) keeps_acts] keeps_then[OF m(2) keeps_acts])
qed

lemma keeps_teardown [simp]: "keeps {#} sv (teardown env now sv)"
proof -
  let ?sv1 = "reject_all (peer_fail_pending (sv_end_cause sv) (drop_link now GOING_AWAY sv))"
  have "keeps {#} sv ?sv1" by (rule keeps_then[OF keeps_then[OF keeps_drop_link keeps_fail_pending] keeps_reject_all])
  then have "keeps {#} sv (report_drops env now (hand_over_truncations env now a (?sv1\<lparr>sv_streams := b\<rparr>)))" for a b
    by (intro keeps_then[OF _ keeps_report] keeps_then[OF _ keeps_hand_over(1)] keeps_then[OF _ keeps_streams(1)])
  then show ?thesis unfolding teardown_def Let_def case_prod_beta by (rule keeps_then[OF _ keeps_emit])
qed

section \<open>The system\<close>

text \<open>
  One step of the peer as a whole: an entry point of the handle, the reader, the receiver, or one of the
  branches of the supervisor's loops. \<open>SvTurn\<close> is the head of a turn of the operating loop, \<open>SvCommand\<close>
  and \<open>SvReject\<close> take the next command during and outside operation, \<open>SvFrame\<close> the next message of the
  read-ahead queue, \<open>SvRound\<close> feeds an input to the machine, \<open>SvLoseOrder\<close> is the end of the last wait
  of teardown.
\<close>

datatype ('o, 'k, 'r) peer_step = HRequest generation 'o 'r send_result | HNotify generation 'o send_result
  | HResume 'k "u64 option" send_result | HFrame frame send_result | HDropLink generation disconnect_cause send_result
  | HReconnect | HClose | HCloseAfterFlush close_frame send_result
  | RdFrame instant frame | RdClosed | RdFailed | RxTake instant
  | SvTurn instant | SvCommand instant | SvReject | SvFrame instant | SvTimer instant | SvRoom instant bool | SvReissue instant
  | SvSalvage instant | SvAttach instant | SvRound instant conn_input | SvTeardown instant | SvLoseOrder instant

definition read_msg :: "link_msg \<Rightarrow> byte_ledger \<Rightarrow> ('o, 'i, 't, 'k, 'r) supervisor \<Rightarrow> ('o, 'i, 't, 'k, 'r) supervisor" where
  "read_msg msg l sv = (case sv_frames sv of None \<Rightarrow> sv | Some ms \<Rightarrow> sv\<lparr>sv_frames := Some (ms @ [msg]), sv_ledger := l\<rparr>)"

definition turn_head :: "('o, 'i, 't, 'k) peer_env \<Rightarrow> instant \<Rightarrow> ('o, 'i, 't, 'k, 'r) supervisor \<Rightarrow> ('o, 'i, 't, 'k, 'r) supervisor" where
  "turn_head env now sv = report_drops env now (snd (drain_overflow env now (note_flush now (track_pause now sv))))"

definition frame_turn :: "('o, 'i, 't, 'k) peer_env \<Rightarrow> instant \<Rightarrow> frame \<Rightarrow> byte_charge \<Rightarrow> ('o, 'i, 't, 'k, 'r) supervisor
    \<Rightarrow> conn_input option \<times> ('o, 'i, 't, 'k, 'r) supervisor" where
  "frame_turn env now frame charge sv = (case on_frame env now frame charge sv of
     (Inr (Some resume), sv1) \<Rightarrow> write_frame env now resume sv1
   | (Inr None, sv1) \<Rightarrow> (None, sv1)
   | (Inl inp, sv1) \<Rightarrow> (Some inp, sv1))"

fun peer_do :: "('o, 'i, 't, 'k) peer_env \<Rightarrow> ('o, 'k, 'r) peer_step \<Rightarrow> ('o, 'i, 't, 'k, 'r) supervisor \<Rightarrow> ('o, 'i, 't, 'k, 'r) supervisor" where
  "peer_do env (HRequest g out slot res) sv = snd (request_in g out slot res sv)"
| "peer_do env (HNotify g out res) sv = snd (notify_in g out res sv)"
| "peer_do env (HResume key after res) sv = snd (resume_stream key after res sv)"
| "peer_do env (HFrame frame res) sv = snd (send_frame frame res sv)"
| "peer_do env (HDropLink g cause res) sv = drop_link_in g cause res sv"
| "peer_do env HReconnect sv = reconnect_now sv"
| "peer_do env HClose sv = close_peer sv"
| "peer_do env (HCloseAfterFlush closing res) sv = close_after_flush closing res sv"
| "peer_do env (RdFrame now frame) sv = (
     let (charge, _, l) = ledger_charge now (payload_len frame) (sv_ledger sv) in read_msg (LinkFrame frame charge) l sv)"
| "peer_do env RdClosed sv = read_msg LinkClosed (sv_ledger sv) sv"
| "peer_do env RdFailed sv = read_msg LinkFailed (sv_ledger sv) sv"
| "peer_do env (RxTake now) sv = (case sv_lane sv of [] \<Rightarrow> sv
     | x # xs \<Rightarrow> sv\<lparr>sv_lane := xs, sv_ledger := drop_charges now [cg_charge x] (sv_ledger sv)\<rparr>)"
| "peer_do env (SvTurn now) sv = turn_head env now sv"
| "peer_do env (SvCommand now) sv = (case sv_data sv of [] \<Rightarrow> sv | c # cs \<Rightarrow> snd (on_cmd env now c (sv\<lparr>sv_data := cs\<rparr>)))"
| "peer_do env SvReject sv = (case sv_data sv of [] \<Rightarrow> sv | c # cs \<Rightarrow> reject_command c (sv\<lparr>sv_data := cs\<rparr>))"
| "peer_do env (SvFrame now) sv = (case sv_frames sv of
     Some (LinkFrame frame charge # ms) \<Rightarrow> snd (frame_turn env now frame charge (sv\<lparr>sv_frames := Some ms\<rparr>)) | _ \<Rightarrow> sv)"
| "peer_do env (SvTimer now) sv = snd (on_timer env now sv)"
| "peer_do env (SvRoom now reserved) sv = drain_order env now reserved sv"
| "peer_do env (SvReissue now) sv = snd (reissue_resumes env now (sv\<lparr>sv_fresh_link := False\<rparr>))"
| "peer_do env (SvSalvage now) sv = snd (salvage_read_ahead env now sv)"
| "peer_do env (SvAttach now) sv = attach_reader now (sv\<lparr>sv_link := True\<rparr>)"
| "peer_do env (SvRound now inp) sv = snd (run_round env now inp sv)"
| "peer_do env (SvTeardown now) sv = teardown env now sv"
| "peer_do env (SvLoseOrder now) sv = sv\<lparr>sv_order := [], sv_ledger := drop_charges now (map cg_charge (sv_order sv)) (sv_ledger sv)\<rparr>"

definition peer_run :: "('o, 'i, 't, 'k) peer_env \<Rightarrow> ('o, 'k, 'r) peer_step list \<Rightarrow> ('o, 'i, 't, 'k, 'r) supervisor \<Rightarrow> ('o, 'i, 't, 'k, 'r) supervisor" where
  "peer_run env steps sv = fold (peer_do env) steps sv"

text \<open>The slots of the requests the handle accepted on the way.\<close>

fun taken_slot :: "('o, 'k, 'r) peer_step \<Rightarrow> ('o, 'i, 't, 'k, 'r) supervisor \<Rightarrow> 'r list" where
  "taken_slot (HRequest g out slot res) sv = (if fst (request_in g out slot res sv) = None then [slot] else [])"
| "taken_slot _ sv = []"

fun taken_slots :: "('o, 'i, 't, 'k) peer_env \<Rightarrow> ('o, 'k, 'r) peer_step list \<Rightarrow> ('o, 'i, 't, 'k, 'r) supervisor \<Rightarrow> 'r list" where
  "taken_slots env [] sv = []"
| "taken_slots env (st # steps) sv = taken_slot st sv @ taken_slots env steps (peer_do env st sv)"

lemma teardown_req: "req_part (teardown env now sv) = req_part (reject_all (peer_fail_pending (sv_end_cause sv) (drop_link now GOING_AWAY sv)))"
  by (simp add: teardown_def Let_def case_prod_beta req_part_def report_keeps)

lemma keeps_push: "cmd_slots (pc_op cmd) = [] \<Longrightarrow> keeps {#} sv (snd (push_cmd cmd res sv))"
  by (simp add: push_cmd_def count_overflow_def keeps_def accounted_def answered_def queued_def split: send_result.splits)

lemma keeps_take: "sv_data sv = c # cs \<Longrightarrow> keeps (mset (cmd_slots (pc_op c))) (sv\<lparr>sv_data := cs\<rparr>) y \<Longrightarrow> keeps {#} sv y"
  by (auto simp: keeps_def accounted_def answered_def queued_def)

lemma keeps_frame_turn: "keeps {#} sv (snd (frame_turn env now frame charge sv))"
proof -
  obtain res sv1 where f: "on_frame env now frame charge sv = (res, sv1)" by fastforce
  have "keeps {#} sv sv1" using keeps_frame[of sv env now frame charge, unfolded f] by simp
  then show ?thesis using keeps_then[OF _ keeps_write(1)] by (auto simp: frame_turn_def f split: sum.splits option.splits)
qed

lemma keeps_step: "keeps (mset (taken_slot st sv)) sv (peer_do env st sv)"
proof (cases st)
  case (HRequest g out slot res)
  then show ?thesis
    by (simp add: request_in_def count_overflow_def keeps_def accounted_def answered_def queued_def split: send_result.splits)
next
  case (SvTurn now)
  have "keeps {#} sv (note_flush now (track_pause now sv))" by (rule keeps_then[OF keeps_pause keeps_part[OF note_flush_req]])
  with SvTurn show ?thesis by (simp add: turn_head_def) (rule keeps_then[OF keeps_then[OF _ keeps_overflow] keeps_report])
next
  case (SvCommand now)
  then show ?thesis by (cases "sv_data sv") (auto intro: keeps_take[OF _ keeps_cmd])
next
  case SvReject
  then show ?thesis by (cases "sv_data sv") (auto intro: keeps_take[OF _ keeps_reject])
next
  case (SvFrame now)
  then show ?thesis
    by (auto split: option.splits list.splits link_msg.splits intro: keeps_then[OF keeps_streams(5) keeps_frame_turn])
next
  case (SvReissue now)
  then show ?thesis
    using keeps_then[OF keeps_part keeps_reissue, of "sv\<lparr>sv_fresh_link := False\<rparr>" sv] by (simp add: req_part_def)
next
  case (HNotify g out res)
  then show ?thesis by (simp add: notify_in_def keeps_push)
next
  case (HResume key after res)
  then show ?thesis
    by (simp add: resume_stream_def keeps_push Let_def) (simp add: refuse_def keeps_def accounted_def answered_def queued_def)
next
  case (HFrame frame res)
  then show ?thesis
    by (simp add: send_frame_def keeps_push Let_def) (simp add: refuse_def keeps_def accounted_def answered_def queued_def)
next
  case (HDropLink g cause res)
  then show ?thesis by (simp add: drop_link_in_def keeps_push)
next
  case (HCloseAfterFlush closing res)
  then show ?thesis
    by (simp add: close_after_flush_def keeps_def accounted_def answered_def queued_def Let_def split: send_result.splits)
qed (auto intro!: keeps_part simp: req_part_def reconnect_now_def close_peer_def read_msg_def attach_reader_def case_prod_beta
      split: option.splits list.splits)

lemma keeps_run: "keeps (mset (taken_slots env steps sv)) sv (peer_run env steps sv)"
proof (induction steps arbitrary: sv)
  case (Cons st steps)
  then show ?case using keeps_trans[OF keeps_step Cons.IH] by (simp add: peer_run_def)
qed (simp add: peer_run_def)

lemma new_peer_req: "pending_inv (sv_pending (new_peer policy accepted seed now floor budget))"
  "accounted (new_peer policy accepted seed now floor budget) = {#}"
  by (simp_all add: new_peer_def new_table_inv accounted_def answered_def queued_def slots_def) (simp add: pending_new_def)

text \<open>C7. Every request is answered exactly once. However the entry points of the handle, the reader, the
  receiver and the branches of the supervisor interleave, and whatever the line, the writes and the
  outbound queue answer, the slots of the requests the handle accepted are, with multiplicity, those
  already answered, those in the pending table and those still in the outbound queue; once the
  supervisor has been torn down every one of them has been answered.\<close>

theorem requests_answered_once:
  fixes env :: "('o, 'i, 't, 'k) peer_env" and steps :: "('o, 'k, 'r) peer_step list" and policy accepted seed now floor budget
  defines "sv0 \<equiv> new_peer policy accepted seed now floor budget"
  shows "mset (taken_slots env steps sv0) = mset (map fst (sv_answers (peer_run env steps sv0))) +
      mset (map (\<lambda>(_, w). wt_slot w) (pn_waiting (sv_pending (peer_run env steps sv0)))) +
      mset (concat (map (\<lambda>c. cmd_slots (pc_op c)) (sv_data (peer_run env steps sv0)))) \<and>
    mset (map fst (sv_answers (peer_run env (steps @ [SvTeardown later]) sv0))) = mset (taken_slots env steps sv0)"
proof -
  let ?sv = "peer_run env steps sv0"
  have k: "pending_inv (sv_pending ?sv)" "accounted ?sv = mset (taken_slots env steps sv0)"
    using keeps_run[of env steps sv0] by (simp_all add: keeps_def sv0_def new_peer_req)
  let ?f = "peer_fail_pending (sv_end_cause ?sv) (drop_link later GOING_AWAY ?sv)"
  have d: "pending_inv (sv_pending (drop_link later GOING_AWAY ?sv))" using keeps_drop_link[of ?sv later GOING_AWAY] k(1) by (simp add: keeps_def)
  have "req_part (teardown env later ?sv) = req_part (reject_all ?f)" by (rule teardown_req)
  then have "slots (sv_pending (teardown env later ?sv)) = {#}" "queued (teardown env later ?sv) = {#}"
    using fail_pending_req(3)[OF d, of "sv_end_cause ?sv"] by (simp_all add: req_part_def queued_def reject_all_req)
  moreover have "accounted (teardown env later ?sv) = accounted ?sv" using keeps_teardown[of ?sv env later] k(1) by (simp add: keeps_def)
  ultimately have "answered (teardown env later ?sv) = mset (taken_slots env steps sv0)" using k(2) by (simp add: accounted_def)
  then show ?thesis using k(2) by (simp add: peer_run_def accounted_def answered_def queued_def slots_def)
qed

section \<open>Timers\<close>

lemma fold_time_out:
  fixes sv :: "('o, 'i, 't, 'k, 'r) supervisor"
  shows "sv_last_ping (fold (time_out env now) xs sv) = sv_last_ping sv \<and> sv_policy (fold (time_out env now) xs sv) = sv_policy sv \<and>
    sv_last_rx (fold (time_out env now) xs sv) = sv_last_rx sv \<and> sv_paused (fold (time_out env now) xs sv) = sv_paused sv \<and>
    sv_flush_deadline (fold (time_out env now) xs sv) = sv_flush_deadline sv \<and> sv_streams (fold (time_out env now) xs sv) = sv_streams sv \<and>
    sv_goodbye (fold (time_out env now) xs sv) = sv_goodbye sv \<and> sv_pending (fold (time_out env now) xs sv) = sv_pending sv \<and>
    sv_frames (fold (time_out env now) xs sv) = sv_frames sv"
  by (induction xs arbitrary: sv) (simp_all add: time_out_def answer_def Let_def)

lemma expire_fields:
  "sv_last_ping (expire_requests env now sv) = sv_last_ping sv" "sv_policy (expire_requests env now sv) = sv_policy sv"
  "sv_last_rx (expire_requests env now sv) = sv_last_rx sv" "sv_paused (expire_requests env now sv) = sv_paused sv"
  "sv_flush_deadline (expire_requests env now sv) = sv_flush_deadline sv" "sv_streams (expire_requests env now sv) = sv_streams sv"
  "sv_goodbye (expire_requests env now sv) = sv_goodbye sv" "sv_pending (expire_requests env now sv) = snd (pending_expire now (sv_pending sv))"
  "sv_frames (expire_requests env now sv) = sv_frames sv"
  by (simp_all add: expire_requests_def case_prod_beta fold_time_out)

lemma window_fields:
  "sv_last_ping (expire_windows env now sv) = sv_last_ping sv" "sv_policy (expire_windows env now sv) = sv_policy sv"
  "sv_last_rx (expire_windows env now sv) = sv_last_rx sv" "sv_paused (expire_windows env now sv) = sv_paused sv"
  "sv_flush_deadline (expire_windows env now sv) = sv_flush_deadline sv" "sv_pending (expire_windows env now sv) = sv_pending sv"
  "sv_goodbye (expire_windows env now sv) = sv_goodbye sv"
  "\<not> sv_paused sv \<Longrightarrow> sv_streams (expire_windows env now sv) = snd (expire_resumes now (sv_streams sv))"
  by (simp_all add: expire_windows_def case_prod_beta)

text \<open>Keys of the stream ledger are distinct; the windows that survive an expiry are not due.\<close>

abbreviation keys_ok :: "('k, 'm) streams \<Rightarrow> bool" where
  "keys_ok st \<equiv> distinct (map fst (sx_seen st))"

lemma collapse_seen:
  assumes "keys_ok s"
  shows "keys_ok (snd (collapse key s)) \<and> sx_resume_timeout (snd (collapse key s)) = sx_resume_timeout s \<and>
    (\<forall>x \<in> set (sx_seen (snd (collapse key s))). tk_resume (snd x) \<noteq> None \<longrightarrow> x \<in> set (sx_seen s) \<and> fst x \<noteq> key)"
proof (cases "map_of (sx_seen s) key")
  case None
  then have "key \<notin> fst ` set (sx_seen s)" by (simp add: map_of_eq_None_iff)
  with None assms show ?thesis by (force simp: collapse_def)
next
  case (Some t)
  have upd: "\<exists>t1. sx_seen (snd (collapse key s)) = AList.update key t1 (sx_seen s) \<and> tk_resume t1 = None \<and>
      sx_resume_timeout (snd (collapse key s)) = sx_resume_timeout s"
    using Some by (auto simp: collapse_def drain_held_def Let_def split: option.splits)
  then obtain t1 where t1: "sx_seen (snd (collapse key s)) = AList.update key t1 (sx_seen s)" "tk_resume t1 = None"
      "sx_resume_timeout (snd (collapse key s)) = sx_resume_timeout s" by blast
  have d: "distinct (map fst (AList.update key t1 (sx_seen s)))" using assms by (simp add: distinct_update)
  have "x \<in> set (sx_seen s) \<and> fst x \<noteq> key" if m: "x \<in> set (AList.update key t1 (sx_seen s))" and r: "tk_resume (snd x) \<noteq> None" for x
  proof -
    have m1: "map_of (AList.update key t1 (sx_seen s)) (fst x) = Some (snd x)" using m d by simp
    then have n: "fst x \<noteq> key" using r t1(2) by (auto simp: update_conv')
    then have "map_of (sx_seen s) (fst x) = Some (snd x)" using m1 by (simp add: update_conv')
    from map_of_SomeD[OF this] n show ?thesis by simp
  qed
  then show ?thesis using t1(1,3) d by simp
qed

lemma collapse_all_seen:
  "keys_ok s \<Longrightarrow> keys_ok (snd (collapse_all keys s)) \<and> sx_resume_timeout (snd (collapse_all keys s)) = sx_resume_timeout s \<and>
    (\<forall>x \<in> set (sx_seen (snd (collapse_all keys s))). tk_resume (snd x) \<noteq> None \<longrightarrow> x \<in> set (sx_seen s) \<and> fst x \<notin> set keys)"
proof (induction keys arbitrary: s)
  case (Cons key keys)
  let ?s1 = "snd (collapse key s)"
  note c = collapse_seen[OF Cons.prems, of key]
  note IH = Cons.IH[of ?s1]
  have "snd (collapse_all (key # keys) s) = snd (collapse_all keys ?s1)" by (simp add: case_prod_beta Let_def)
  with c IH show ?case by auto
qed simp

lemma next_resume_cases:
  "next_resume_deadline s = Some d \<Longrightarrow> \<exists>x \<in> set (sx_seen s). \<exists>r. tk_resume (snd x) = Some r \<and> d = ru_asked_at r + sx_resume_timeout s"
proof -
  let ?ds = "List.map_filter (\<lambda>(_, t). map_option (\<lambda>r. ru_asked_at r + sx_resume_timeout s) (tk_resume t)) (sx_seen s)"
  assume "next_resume_deadline s = Some d"
  then have "?ds \<noteq> []" "d = min_list ?ds" by (cases ?ds; simp add: next_resume_deadline_def)+
  then have "d \<in> set ?ds" using min_list_props by blast
  then show ?thesis by (force simp: List.map_filter_def)
qed

lemma expired_windows_later:
  assumes "keys_ok s" "next_resume_deadline (snd (expire_resumes now s)) = Some d"
  shows "now < d"
proof -
  let ?keys = "map fst (filter (\<lambda>(_, t). resume_due (sx_resume_timeout s) now t) (sx_seen s))"
  note c = collapse_all_seen[OF assms(1), of ?keys]
  have e: "expire_resumes now s = collapse_all ?keys s" by (simp add: expire_resumes_def)
  obtain x r where x: "x \<in> set (sx_seen (snd (collapse_all ?keys s)))" "tk_resume (snd x) = Some r"
      "d = ru_asked_at r + sx_resume_timeout (snd (collapse_all ?keys s))"
    using next_resume_cases[OF assms(2)[unfolded e]] by blast
  have "x \<in> set (sx_seen s)" "fst x \<notin> set ?keys" using c x(1,2) by blast+
  moreover obtain k t where "x = (k, t)" by fastforce
  ultimately have "\<not> resume_due (sx_resume_timeout s) now (snd x)" by force
  with x(2,3) c show ?thesis by (simp add: resume_due_def)
qed

lemma expired_requests_later:
  assumes "pending_inv p" "next_deadline (snd (pending_expire now p)) = Some d"
  shows "now < d"
  using next_deadline_cases(2)[OF assms(2)] expire_laws(4)[OF assms(1), of now] by auto

lemma pause_keeps:
  "sv_policy (track_pause now sv) = sv_policy sv" "sv_pending (track_pause now sv) = sv_pending sv"
  "sv_flush_deadline (track_pause now sv) = sv_flush_deadline sv" "sv_last_ping (track_pause now sv) = sv_last_ping sv"
  "sv_goodbye (track_pause now sv) = sv_goodbye sv"
  by (simp_all add: track_pause_def case_prod_beta Let_def split: option.splits)

lemma shift_keys: "keys_ok (shift_resumes d st) = keys_ok st"
proof -
  have "map fst (sx_seen (shift_resumes d st)) = map fst (sx_seen st)" by (simp add: shift_resumes_def map_asked_def case_prod_beta)
  then show ?thesis by simp
qed

lemma pause_keys: "keys_ok (sv_streams (track_pause now sv)) = keys_ok (sv_streams sv)"
  by (simp add: track_pause_def case_prod_beta Let_def shift_keys split: option.splits)

lemma guard_none:
  assumes "guard_write env now sv = (None, sv')"
  shows "sv_last_ping sv' = sv_last_ping sv" "sv_policy sv' = sv_policy sv" "sv_last_rx sv' = sv_last_rx sv" "sv_paused sv' = sv_paused sv"
    "sv_streams sv' = sv_streams sv" "sv_pending sv' = sv_pending sv" "sv_flush_deadline sv' \<noteq> None \<Longrightarrow> now < the (sv_flush_deadline sv')"
  using assms by (auto simp: guard_write_def note_flush_def Let_def split: if_splits option.splits)

lemma wake_later:
  assumes "now < sv_last_ping sv + cp_ping_interval (sv_policy sv)"
    and "\<not> sv_paused sv \<Longrightarrow> now < sv_last_rx sv + cp_idle_timeout (sv_policy sv)"
    and "\<And>d. next_deadline (sv_pending sv) = Some d \<Longrightarrow> now < d"
    and "\<And>d. \<not> sv_paused sv \<Longrightarrow> next_resume_deadline (sv_streams sv) = Some d \<Longrightarrow> now < d"
    and "sv_flush_deadline sv \<noteq> None \<Longrightarrow> now < the (sv_flush_deadline sv)"
  shows "now < wake_at sv"
  using assms by (auto simp: wake_at_def Let_def split: option.splits)

lemma timer_later:
  assumes keys: "keys_ok (sv_streams sv)" and pend: "pending_inv (sv_pending sv)" and ping: "0 < cp_ping_interval (sv_policy sv)"
    and none: "on_timer env now sv = (None, sv')"
  shows "now < wake_at sv'"
proof -
  let ?sv1 = "track_pause now sv"
  let ?sv2 = "expire_windows env now (expire_requests env now ?sv1)"
  note f = expire_fields window_fields(1-7) pause_keeps
  have fl: "sv_flush_deadline sv \<noteq> None \<Longrightarrow> now < the (sv_flush_deadline sv)" and
    idle: "\<not> sv_paused ?sv1 \<Longrightarrow> now - sv_last_rx ?sv1 < cp_idle_timeout (sv_policy sv)"
    using none by (auto simp: on_timer_def Let_def pause_keeps split: if_splits option.splits)
  have p: "next_deadline (sv_pending ?sv2) = Some d \<Longrightarrow> now < d" for d
    using expired_requests_later[OF pend] by (simp add: f)
  have w: "\<not> sv_paused ?sv1 \<Longrightarrow> next_resume_deadline (sv_streams ?sv2) = Some d \<Longrightarrow> now < d" for d
    using expired_windows_later[of "sv_streams ?sv1"] keys by (simp add: f window_fields(8) pause_keys)
  show ?thesis
  proof (cases "cp_ping_interval (sv_policy sv) \<le> now - sv_last_ping sv")
    case True
    then have g: "guard_write env now (?sv2\<lparr>sv_last_ping := now\<rparr>) = (None, sv')"
      using none by (auto simp: on_timer_def Let_def f split: if_splits)
    note gn = guard_none[OF g]
    show ?thesis
    proof (rule wake_later)
      show "sv_flush_deadline sv' \<noteq> None \<Longrightarrow> now < the (sv_flush_deadline sv')" by (rule gn(7))
    qed (use gn p w idle ping in \<open>auto simp: f\<close>)
  next
    case False
    then have "sv' = ?sv2" using none by (auto simp: on_timer_def Let_def f split: if_splits)
    then show ?thesis by (intro wake_later) (use p w idle fl False in \<open>auto simp: f\<close>)
  qed
qed

end
