(* ===== verification/Peer_Bytes.thy ===== *)
theory Peer_Bytes
  imports Peer_System
begin

text \<open>
  The supervisor of \<open>Peer_Core\<close> and the byte tally of \<open>Byte_Budget\<close> together: every share of the tally is
  held by exactly one item of the peer (read ahead, in a resume window, in the ordering area or in the
  line), through every handler, so the tally is exact and the bounds of the budget hold for the whole
  peer.
\<close>

section \<open>The tally and a bag of shares\<close>

definition bag_bytes :: "byte_charge multiset \<Rightarrow> nat" where
  "bag_bytes xs = sum_mset (image_mset ch_bytes xs)"

definition bag_held :: "byte_charge multiset \<Rightarrow> nat" where
  "bag_held xs = sum_mset (image_mset (\<lambda>c. if ch_held c then ch_bytes c else 0) xs)"

lemma bag_simps [simp]:
  "bag_bytes {#} = 0" "bag_bytes (add_mset c xs) = ch_bytes c + bag_bytes xs" "bag_bytes (xs + ys) = bag_bytes xs + bag_bytes ys"
  "bag_held {#} = 0" "bag_held (add_mset c xs) = (if ch_held c then ch_bytes c else 0) + bag_held xs" "bag_held (xs + ys) = bag_held xs + bag_held ys"
  by (simp_all add: bag_bytes_def bag_held_def)

lemma bag_held_le: "bag_held xs \<le> bag_bytes xs"
  by (induction xs) auto

text \<open>\<open>n\<close> bounds the level; it is what the reader may have brought it to.\<close>

definition tally_ok :: "nat \<Rightarrow> nat \<Rightarrow> byte_charge multiset \<Rightarrow> byte_ledger \<Rightarrow> bool" where
  "tally_ok b n xs l \<longleftrightarrow> bl_budget l = b \<and> (\<forall>c \<in># xs. charge_ok c) \<and> bl_level l = bag_bytes xs \<and> bl_held l = bag_held xs \<and>
     (gate_over l \<longleftrightarrow> fst (budget_caps l) \<le> bl_level l - bl_held l) \<and> bl_held l \<le> snd (budget_caps l) \<and> bl_level l < n"

lemma tally_update:
  assumes "budget_update now change l = (opened, l')"
    and "bl_budget (change l) = b" "bl_level (change l) = bag_bytes xs" "bl_held (change l) = bag_held xs" "\<forall>c \<in># xs. charge_ok c"
    and "bag_held xs \<le> snd (budget_caps (change l))" "bag_bytes xs < n"
  shows "tally_ok b n xs l'"
proof -
  have l': "l' = snd (budget_update now change l)" using assms(1) by simp
  note U = update_laws[where now = now and change = change and l = l, folded l']
  show ?thesis using assms U by (simp add: tally_ok_def)
qed

lemma tally_none [simp]: "tally_ok b n (add_mset charge_none xs) l \<longleftrightarrow> tally_ok b n xs l"
  by (auto simp: tally_ok_def charge_none_def charge_ok_def)

lemma tally_drop:
  assumes "tally_ok b n (add_mset c xs) l"
  shows "tally_ok b n xs (snd (charge_drop now c l))"
proof (cases "ch_counted c")
  case True
  obtain opened l' where u: "budget_update now (\<lambda>c'. let c1 = c'\<lparr>bl_level := bl_level c' - ch_bytes c\<rparr>
      in if ch_held c then c1\<lparr>bl_held := bl_held c1 - ch_bytes c\<rparr> else c1) l = (opened, l')" by fastforce
  have "tally_ok b n xs l'"
    by (rule tally_update[OF u]) (use assms in \<open>auto simp: tally_ok_def Let_def budget_caps_def\<close>)
  with True u show ?thesis by (simp add: charge_drop_def)
next
  case False
  then show ?thesis using assms by (auto simp: charge_drop_def tally_ok_def charge_ok_def)
qed

lemma tally_drops: "tally_ok b n (mset cs + xs) l \<Longrightarrow> tally_ok b n xs (drop_charges now cs l)"
  unfolding drop_charges_def by (induction cs arbitrary: l) (auto intro: tally_drop)

lemma tally_unhold:
  assumes "tally_ok b n (add_mset c xs) l" "charge_unhold now c l = (c', opened, l')"
  shows "tally_ok b n (add_mset c' xs) l'" "\<not> ch_held c'"
proof -
  have "tally_ok b n (add_mset c' xs) l' \<and> \<not> ch_held c'"
  proof (cases "ch_counted c \<and> ch_held c")
    case True
    then have u: "budget_update now (\<lambda>x. x\<lparr>bl_held := bl_held x - ch_bytes c\<rparr>) l = (opened, l')" "c' = c\<lparr>ch_held := False\<rparr>"
      using assms(2) by (auto simp: charge_unhold_def split: prod.splits)
    have "tally_ok b n (add_mset c' xs) l'"
      by (rule tally_update[OF u(1)]) (use assms(1) True u(2) in \<open>auto simp: tally_ok_def budget_caps_def charge_ok_def\<close>)
    with u(2) show ?thesis by simp
  next
    case False
    then have "c' = c" "l' = l" using assms(2) by (auto simp: charge_unhold_def)
    with assms(1) False show ?thesis by (auto simp: tally_ok_def charge_ok_def)
  qed
  then show "tally_ok b n (add_mset c' xs) l'" "\<not> ch_held c'" by simp_all
qed

lemma tally_hold:
  assumes "tally_ok b n (add_mset c xs) l" "window_fits (ch_bytes c) l" "charge_hold now c l = (c', opened, l')"
  shows "tally_ok b n (add_mset c' xs) l'"
proof (cases "ch_counted c \<and> \<not> ch_held c")
  case True
  then have u: "budget_update now (\<lambda>x. x\<lparr>bl_held := bl_held x + ch_bytes c\<rparr>) l = (opened, l')" "c' = c\<lparr>ch_held := True\<rparr>"
    using assms(3) by (auto simp: charge_hold_def split: prod.splits)
  show ?thesis
    by (rule tally_update[OF u(1)]) (use assms(1,2) True u(2) in \<open>auto simp: tally_ok_def budget_caps_def charge_ok_def window_fits_def\<close>)
next
  case False
  then have "c' = c" "l' = l" using assms(3) by (auto simp: charge_hold_def)
  with assms(1) show ?thesis by simp
qed

lemma tally_streams:
  assumes "tally_ok b n xs l"
  shows "tally_ok b n xs (snd (use_streams now l))"
proof -
  obtain opened l' where u: "budget_update now (\<lambda>c. c\<lparr>bl_streams := True\<rparr>) l = (opened, l')" by fastforce
  have "tally_ok b n xs l'"
    by (rule tally_update[OF u]) (use assms in \<open>cases "bl_streams l"; auto simp: tally_ok_def budget_caps_def\<close>)+
  with u show ?thesis by (simp add: use_streams_def)
qed

lemma tally_shut: "tally_ok b n xs l \<Longrightarrow> tally_ok b n xs (snd (take_shut l))"
  by (cases "bl_streams l") (auto simp: tally_ok_def take_shut_def budget_caps_def gate_over_def)

lemma tally_charge:
  assumes "tally_ok b n xs l" "ledger_charge now bytes l = (c, opened, l')" "bl_level l + bytes < n'" "n \<le> n'"
  shows "tally_ok b n' (add_mset c xs) l'"
proof (cases "bytes = 0")
  case True
  then show ?thesis using assms by (auto simp: ledger_charge_def tally_ok_def charge_none_def charge_ok_def)
next
  case False
  then have u: "budget_update now (\<lambda>x. x\<lparr>bl_level := bl_level x + bytes\<rparr>) l = (opened, l')"
    "c = \<lparr>ch_counted = True, ch_bytes = bytes, ch_held = False\<rparr>"
    using assms(2) by (auto simp: ledger_charge_def split: prod.splits)
  show ?thesis
    by (rule tally_update[OF u(1)]) (use assms(1,3) u(2) in \<open>auto simp: tally_ok_def budget_caps_def charge_ok_def\<close>)
qed

section \<open>Pieces in the stream ledger\<close>

definition pieces :: "('k, 'm) streams \<Rightarrow> 'm multiset" where
  "pieces st = mset (concat (map (\<lambda>(_, t). held_pieces t) (sx_seen st)))"

definition evicted_pieces :: "('k, 'm) streams \<Rightarrow> 'm multiset" where
  "evicted_pieces st = mset (concat (map es_flushed (sx_evicted st)))"

definition seen_pieces :: "('k \<times> 'm track) list \<Rightarrow> 'm multiset" where
  "seen_pieces seen = mset (concat (map (\<lambda>(_, t). held_pieces t) seen))"

lemma seen_update:
  assumes "distinct (map fst seen)"
  shows "seen_pieces (AList.update k t seen) + mset (case map_of seen k of None \<Rightarrow> [] | Some u \<Rightarrow> held_pieces u) = seen_pieces seen + mset (held_pieces t)"
  using assms
proof (induction seen)
  case (Cons x seen)
  obtain q u where x: "x = (q, u)" by fastforce
  show ?case
  proof (cases "q = k")
    case True
    then show ?thesis by (simp add: x seen_pieces_def ac_simps)
  next
    case False
    with Cons show ?thesis by (simp add: x seen_pieces_def ac_simps)
  qed
qed (simp add: seen_pieces_def)

lemma seen_delete:
  assumes "distinct (map fst seen)"
  shows "seen_pieces (AList.delete k seen) + mset (case map_of seen k of None \<Rightarrow> [] | Some u \<Rightarrow> held_pieces u) = seen_pieces seen"
  using assms
proof (induction seen)
  case (Cons x seen)
  obtain q u where x: "x = (q, u)" by fastforce
  show ?case
  proof (cases "q = k")
    case True
    then have "k \<notin> fst ` set seen" using Cons.prems x by auto
    then have "AList.delete k seen = seen" by (simp add: delete_id)
    then show ?thesis using True by (simp add: x seen_pieces_def ac_simps)
  next
    case False
    with Cons show ?thesis by (simp add: x seen_pieces_def ac_simps)
  qed
qed (simp add: seen_pieces_def)

lemma make_room_pieces:
  assumes "distinct (map fst seen)" "make_room mx order seen ev = (order', seen', ev')"
  shows "distinct (map fst seen') \<and> seen_pieces seen + mset (concat (map es_flushed ev)) = seen_pieces seen' + mset (concat (map es_flushed ev'))
    \<and> (k \<notin> fst ` set seen \<longrightarrow> k \<notin> fst ` set seen')"
  using assms
proof (induction mx order seen ev rule: make_room.induct)
  case (2 mx victim order seen ev)
  show ?case
  proof (cases "mx \<le> length (victim # order)")
    case True
    show ?thesis
    proof (cases "map_of seen victim")
      case None
      with 2(1)[OF True None] 2(3,4) True show ?thesis by simp
    next
      case (Some t)
      have h: "held_pieces t = fst (fst (drain_held t))" by (simp add: held_pieces_def drain_held_def split: option.splits)
      have d: "distinct (map fst (AList.delete victim seen))" using 2(3) by (simp add: distinct_delete)
      have "k \<notin> fst ` set seen \<longrightarrow> k \<notin> fst ` set (AList.delete victim seen)" by (auto simp: AList.delete_eq)
      with 2(2)[OF True Some _ _ _ _ d] 2(4) True Some seen_delete[OF 2(3), of victim, symmetric] show ?thesis
        by (auto simp: h ac_simps split: prod.splits)
    qed
  next
    case False
    with 2 show ?thesis by auto
  qed
qed auto

lemma admit_pieces:
  assumes "keys_ok st" "sk_key mark \<notin> fst ` set (sx_seen st)"
  shows "keys_ok (admit mark st) \<and> pieces (admit mark st) + evicted_pieces (admit mark st) = pieces st + evicted_pieces st"
proof -
  obtain order seen ev where r: "make_room (sx_max_streams st) (sx_order st) (sx_seen st) (sx_evicted st) = (order, seen, ev)"
    by (metis prod_cases3)
  let ?t = "\<lparr>tk_generation = sk_generation mark, tk_last_seq = sk_seq mark, tk_resume = None\<rparr> :: 'b track"
  note m = make_room_pieces[OF assms(1) r, of "sk_key mark"]
  have "map_of seen (sk_key mark) = None" using m assms(2) by (simp add: map_of_eq_None_iff)
  then have "seen_pieces (AList.update (sk_key mark) ?t seen) = seen_pieces seen"
    using seen_update[of seen "sk_key mark" ?t] m by (simp add: held_pieces_def)
  with m show ?thesis by (simp add: admit_def r pieces_def evicted_pieces_def distinct_update) (simp add: seen_pieces_def)
qed

lemma btree_insert_mset: "k \<notin> fst ` set h \<Longrightarrow> mset (btree_insert k v h) = add_mset (k, v) (mset h)"
  by (induction k v h rule: btree_insert.induct) auto

lemma observe_track_pieces:
  assumes "observe_track buffer timeout gen seq msg now over t = (v, t')"
  shows "add_mset msg (mset (held_pieces t)) = mset (held_pieces t') + mset (into_delivered v) + mset (discarded_pieces v msg (held_pieces t))"
    and "(case v of Gap _ _ _ \<Rightarrow> True | Held _ \<Rightarrow> True | _ \<Rightarrow> False) \<Longrightarrow> \<not> over \<and>
      (\<exists>r h. tk_resume t' = Some r \<and> ru_held r = h \<and> mset h = add_mset (seq, msg) (mset (case tk_resume t of None \<Rightarrow> [] | Some q \<Rightarrow> ru_held q)) \<and>
        seq \<notin> fst ` set (case tk_resume t of None \<Rightarrow> [] | Some q \<Rightarrow> ru_held q))"
proof -
  have "add_mset msg (mset (held_pieces t)) = mset (held_pieces t') + mset (into_delivered v) + mset (discarded_pieces v msg (held_pieces t)) \<and>
    ((case v of Gap _ _ _ \<Rightarrow> True | Held _ \<Rightarrow> True | _ \<Rightarrow> False) \<longrightarrow> \<not> over \<and>
      (\<exists>r h. tk_resume t' = Some r \<and> ru_held r = h \<and> mset h = add_mset (seq, msg) (mset (case tk_resume t of None \<Rightarrow> [] | Some q \<Rightarrow> ru_held q)) \<and>
        seq \<notin> fst ` set (case tk_resume t of None \<Rightarrow> [] | Some q \<Rightarrow> ru_held q)))"
  proof (cases "tk_resume t")
    case None
    then show ?thesis using assms
      by (auto simp: observe_track_def drain_held_def held_pieces_def split: if_splits)
  next
    case (Some r)
    let ?h = "btree_insert seq msg (ru_held r)"
    have b: "seq \<notin> fst ` set (ru_held r) \<Longrightarrow> mset (map snd ?h) = add_mset msg (mset (map snd (ru_held r)))"
      using btree_insert_mset[of seq "ru_held r" msg] by simp
    consider "tk_generation t \<noteq> gen" | "tk_generation t = gen" "seq \<le> tk_last_seq t" | "tk_generation t = gen" "\<not> seq \<le> tk_last_seq t" "seq = tk_last_seq t + 1"
      | "tk_generation t = gen" "\<not> seq \<le> tk_last_seq t" "seq \<noteq> tk_last_seq t + 1" "seq \<in> fst ` set (ru_held r)"
      | "tk_generation t = gen" "\<not> seq \<le> tk_last_seq t" "seq \<noteq> tk_last_seq t + 1" "seq \<notin> fst ` set (ru_held r)" by blast
    then show ?thesis
    proof cases
      case 5
      then show ?thesis using assms Some b btree_insert_mset[of seq "ru_held r" msg]
        by (auto simp: observe_track_def drain_held_def held_pieces_def Let_def split: if_splits)
    qed (use assms Some in \<open>auto simp: observe_track_def drain_held_def held_pieces_def\<close>)
  qed
  then show "add_mset msg (mset (held_pieces t)) = mset (held_pieces t') + mset (into_delivered v) + mset (discarded_pieces v msg (held_pieces t))"
    "(case v of Gap _ _ _ \<Rightarrow> True | Held _ \<Rightarrow> True | _ \<Rightarrow> False) \<Longrightarrow> \<not> over \<and>
      (\<exists>r h. tk_resume t' = Some r \<and> ru_held r = h \<and> mset h = add_mset (seq, msg) (mset (case tk_resume t of None \<Rightarrow> [] | Some q \<Rightarrow> ru_held q)) \<and>
        seq \<notin> fst ` set (case tk_resume t of None \<Rightarrow> [] | Some q \<Rightarrow> ru_held q))" by blast+
qed

definition window_pieces :: "'k \<Rightarrow> ('k, 'm) streams \<Rightarrow> 'm multiset" where
  "window_pieces k st = mset (held_of k st)"

lemma held_of_track: "held_of k st = (case map_of (sx_seen st) k of None \<Rightarrow> [] | Some t \<Rightarrow> held_pieces t)"
  by (simp add: held_of_def held_pieces_def split: option.splits)

lemma pieces_seen: "pieces st = seen_pieces (sx_seen st)"
  by (simp add: pieces_def seen_pieces_def)

text \<open>Every piece given to the ledger is still held, handed up, evicted or discarded.\<close>

lemma observe_pieces:
  assumes "keys_ok st" "observe_capped mark msg now over st = (v, st')"
  shows "keys_ok st'" and "add_mset msg (pieces st) + evicted_pieces st =
    pieces st' + evicted_pieces st' + mset (into_delivered v) + mset (discarded_pieces v msg (held_of (sk_key mark) st))"
proof -
  have "keys_ok st' \<and> add_mset msg (pieces st) + evicted_pieces st =
    pieces st' + evicted_pieces st' + mset (into_delivered v) + mset (discarded_pieces v msg (held_of (sk_key mark) st))"
  proof (cases "map_of (sx_seen st) (sk_key mark)")
    case None
    then have "v = Deliver msg" "st' = admit mark st" "held_of (sk_key mark) st = []"
      using assms(2) by (simp_all add: observe_capped_def held_of_def)
    then show ?thesis using admit_pieces[OF assms(1)] None by (simp add: map_of_eq_None_iff)
  next
    case (Some t)
    obtain t' where t': "observe_track (sx_resume_buffer st) (sx_resume_timeout st) (sk_generation mark) (sk_seq mark) msg now over t = (v, t')"
      "st' = st\<lparr>sx_order := touch (sk_key mark) (sx_order st), sx_seen := AList.update (sk_key mark) t' (sx_seen st)\<rparr>"
      using assms(2) Some by (auto simp: observe_capped_def split: prod.splits)
    have h: "held_of (sk_key mark) st = held_pieces t" using Some by (simp add: held_of_track)
    note o = observe_track_pieces(1)[OF t'(1)]
    have u: "pieces st' + mset (held_pieces t) = pieces st + mset (held_pieces t')"
      using seen_update[OF assms(1), of "sk_key mark" t'] Some by (simp add: pieces_seen t'(2))
    have "pieces st + add_mset msg (mset (held_pieces t)) = pieces st' + mset (held_pieces t) + mset (into_delivered v) + mset (discarded_pieces v msg (held_pieces t))"
      using u o by (simp add: ac_simps)
    then have "add_mset msg (pieces st) = pieces st' + mset (into_delivered v) + mset (discarded_pieces v msg (held_pieces t))"
      by (simp add: ac_simps)
    moreover have "keys_ok st'" using assms(1) by (simp add: t'(2) distinct_update)
    moreover have "evicted_pieces st' = evicted_pieces st" by (simp add: t'(2) evicted_pieces_def)
    ultimately show ?thesis using h by (simp add: ac_simps)
  qed
  then show "keys_ok st'" "add_mset msg (pieces st) + evicted_pieces st =
    pieces st' + evicted_pieces st' + mset (into_delivered v) + mset (discarded_pieces v msg (held_of (sk_key mark) st))" by simp_all
qed

lemma collapse_pieces:
  assumes "keys_ok st"
  shows "pieces st = pieces (snd (collapse key st)) + mset (case fst (collapse key st) of None \<Rightarrow> [] | Some t \<Rightarrow> tr_flushed t)"
    "sx_evicted (snd (collapse key st)) = sx_evicted st"
proof -
  have "pieces st = pieces (snd (collapse key st)) + mset (case fst (collapse key st) of None \<Rightarrow> [] | Some t \<Rightarrow> tr_flushed t) \<and>
    sx_evicted (snd (collapse key st)) = sx_evicted st"
  proof (cases "map_of (sx_seen st) key")
    case None
    then show ?thesis by (simp add: collapse_def)
  next
    case (Some t)
    have u: "seen_pieces (AList.update key t1 (sx_seen st)) + mset (held_pieces t) = seen_pieces (sx_seen st)" if "tk_resume t1 = None" for t1
      using seen_update[OF assms, of key t1] Some that by (simp add: held_pieces_def)
    show ?thesis
    proof (cases "tk_resume t")
      case None
      with Some u[of t] show ?thesis by (simp add: collapse_def drain_held_def pieces_seen held_pieces_def)
    next
      case r: (Some r)
      show ?thesis
      proof (cases "ru_held r")
        case Nil
        with Some r u[of "t\<lparr>tk_resume := None\<rparr>"] show ?thesis
          by (simp add: collapse_def drain_held_def pieces_seen held_pieces_def first_key_def)
      next
        case (Cons x xs)
        with Some r u show ?thesis
          by (simp add: collapse_def drain_held_def pieces_seen held_pieces_def first_key_def last_key_def)
      qed
    qed
  qed
  then show "pieces st = pieces (snd (collapse key st)) + mset (case fst (collapse key st) of None \<Rightarrow> [] | Some t \<Rightarrow> tr_flushed t)"
    "sx_evicted (snd (collapse key st)) = sx_evicted st" by simp_all
qed

lemma collapse_all_pieces:
  "keys_ok st \<Longrightarrow> pieces st = pieces (snd (collapse_all keys st)) + mset (concat (map tr_flushed (fst (collapse_all keys st))))
    \<and> sx_evicted (snd (collapse_all keys st)) = sx_evicted st"
proof (induction keys arbitrary: st)
  case (Cons key keys)
  let ?st1 = "snd (collapse key st)"
  have "keys_ok ?st1" using collapse_seen[OF Cons.prems, of key] by simp
  with Cons.IH[of ?st1] collapse_pieces[OF Cons.prems, of key] show ?case
    by (cases "fst (collapse key st)") (simp_all add: case_prod_beta Let_def ac_simps)
qed simp

lemma shift_pieces:
  fixes st :: "('k, 'm) streams"
  shows "pieces (map_asked f st) = pieces st" "evicted_pieces (map_asked f st) = evicted_pieces st" "keys_ok (map_asked f st) = keys_ok st"
proof -
  have "held_pieces (t\<lparr>tk_resume := map_option (\<lambda>r. r\<lparr>ru_asked_at := f (ru_asked_at r)\<rparr>) (tk_resume t)\<rparr>) = held_pieces t" for t :: "'m track"
    by (simp add: held_pieces_def split: option.splits)
  then show "pieces (map_asked f st) = pieces st" by (simp add: pieces_def map_asked_def case_prod_unfold comp_def)
  show "evicted_pieces (map_asked f st) = evicted_pieces st" by (simp add: evicted_pieces_def map_asked_def)
  have "map fst (sx_seen (map_asked f st)) = map fst (sx_seen st)" by (simp add: map_asked_def case_prod_beta)
  then show "keys_ok (map_asked f st) = keys_ok st" by simp
qed

section \<open>The shares of a peer\<close>

definition frames_of :: "('o, 'i, 't, 'k, 'r) supervisor \<Rightarrow> link_msg list" where
  "frames_of sv = (case sv_frames sv of None \<Rightarrow> [] | Some ms \<Rightarrow> ms)"

definition held_by :: "('o, 'i, 't, 'k, 'r) supervisor \<Rightarrow> byte_charge multiset" where
  "held_by sv = mset (map cg_charge (sv_order sv)) + mset (map cg_charge (sv_lane sv)) +
     image_mset rc_charge (pieces (sv_streams sv) + evicted_pieces (sv_streams sv)) + mset (map link_charge (frames_of sv))"

text \<open>\<open>xs\<close> are the shares a handler has in its hands.\<close>

definition peer_tally :: "nat \<Rightarrow> nat \<Rightarrow> byte_charge multiset \<Rightarrow> ('o, 'i, 't, 'k, 'r) supervisor \<Rightarrow> bool" where
  "peer_tally b n xs sv \<longleftrightarrow> keys_ok (sv_streams sv) \<and> tally_ok b n (xs + held_by sv) (sv_ledger sv)"

text \<open>The part of the state the tally speaks of.\<close>

definition tally_part :: "('o, 'i, 't, 'k, 'r) supervisor \<Rightarrow> _" where
  "tally_part sv = (sv_order sv, sv_lane sv, sv_streams sv, sv_frames sv, sv_ledger sv)"

lemma tally_part_eq: "tally_part sv' = tally_part sv \<Longrightarrow> peer_tally b n xs sv' = peer_tally b n xs sv"
  by (simp add: tally_part_def peer_tally_def held_by_def frames_of_def)

lemma lane_flush_mset: "lane_flush lane k items = (opn, k', sent, lost, keep) \<Longrightarrow> mset items = mset sent + mset lost + mset keep"
  by (induction lane k items arbitrary: opn k' sent lost keep rule: lane_flush.induct) (auto split: send_result.splits prod.splits)

lemma load_tally:
  assumes "peer_tally b n xs (sv\<lparr>sv_order := items\<rparr>)"
  shows "peer_tally b n xs (snd (load_order env now items sv))"
proof -
  obtain opn k sent lost keep where f: "lane_flush (en_lane env) (sv_sends sv) items = (opn, k, sent, lost, keep)" by (metis prod_cases5)
  have m: "image_mset cg_charge (mset items) = image_mset cg_charge (mset sent) + image_mset cg_charge (mset lost) + image_mset cg_charge (mset keep)"
    using arg_cong[OF lane_flush_mset[OF f], of "image_mset cg_charge"] by simp
  let ?sv = "sv\<lparr>sv_order := keep, sv_sends := k, sv_lane := sv_lane sv @ sent, sv_ledger := drop_charges now (map cg_charge lost) (sv_ledger sv)\<rparr>"
  have "tally_ok b n (mset (map cg_charge lost) + (xs + held_by ?sv)) (sv_ledger sv)"
    using assms m by (simp add: peer_tally_def held_by_def frames_of_def ac_simps)
  then have "tally_ok b n (xs + held_by ?sv) (sv_ledger ?sv)" by (simp add: tally_drops)
  then show ?thesis using assms by (simp add: load_order_def f peer_tally_def Let_def)
qed

lemma note_room_tally [simp]: "peer_tally b n xs (note_room opn sv) = peer_tally b n xs sv"
  by (rule tally_part_eq) (simp add: note_room_def tally_part_def)

lemma put_tally:
  assumes "peer_tally b n (add_mset (cg_charge x) xs) sv"
  shows "peer_tally b n xs (put env now x sv)"
proof (cases "sv_consumer_gone sv")
  case True
  have "tally_ok b n (mset [cg_charge x] + (xs + held_by sv)) (sv_ledger sv)" using assms by (simp add: peer_tally_def)
  from tally_drops[OF this, of now] show ?thesis
    using assms True by (simp add: put_def peer_tally_def held_by_def frames_of_def)
next
  case False
  obtain opn sv1 where l: "load_order env now (sv_order sv @ [x]) sv = (opn, sv1)" by fastforce
  have "peer_tally b n xs (sv\<lparr>sv_order := sv_order sv @ [x]\<rparr>)" using assms by (simp add: peer_tally_def held_by_def frames_of_def)
  from load_tally[OF this, of env now] have 1: "peer_tally b n xs sv1" by (simp add: l)
  then have 2: "peer_tally b n xs (sv1\<lparr>sv_order_since := now\<rparr>)" by (simp add: peer_tally_def held_by_def frames_of_def)
  show ?thesis unfolding put_def l Let_def prod.case using False 1 2 by simp
qed

lemma emit_tally: "peer_tally b n xs sv \<Longrightarrow> peer_tally b n xs (emit env now e sv)"
  unfolding emit_def by (rule put_tally) (simp add: bare_def peer_tally_def)

lemma deliver_tally:
  assumes "peer_tally b n (add_mset (rc_charge m) xs) sv"
  shows "peer_tally b n xs (deliver env now m sv)"
proof -
  obtain c opened l where u: "charge_unhold now (rc_charge m) (sv_ledger sv) = (c, opened, l)" by (metis prod_cases3)
  have "tally_ok b n (add_mset (rc_charge m) (xs + held_by sv)) (sv_ledger sv)" using assms by (simp add: peer_tally_def)
  from tally_unhold(1)[OF this u] have "peer_tally b n (add_mset c xs) (sv\<lparr>sv_ledger := l\<rparr>)"
    using assms by (simp add: peer_tally_def held_by_def frames_of_def)
  then show ?thesis by (simp add: deliver_def u put_tally)
qed

lemma deliver_all_tally: "peer_tally b n (mset (map rc_charge ms) + xs) sv \<Longrightarrow> peer_tally b n xs (deliver_all env now ms sv)"
  unfolding deliver_all_def by (induction ms arbitrary: sv) (simp_all add: deliver_tally)

lemma eviction_tally: "peer_tally b n (mset (map rc_charge (es_flushed e)) + xs) sv \<Longrightarrow> peer_tally b n xs (flush_eviction env now e sv)"
  unfolding flush_eviction_def Let_def by (auto split: option.splits intro!: deliver_all_tally emit_tally)

lemma evictions_tally:
  fixes sv :: "('o, 'i, 't, 'k, 'r) supervisor"
  assumes "peer_tally b n xs sv"
  shows "peer_tally b n xs (flush_evictions env now sv)"
proof -
  have f: "peer_tally b n (mset (map rc_charge (concat (map es_flushed es))) + xs) sv \<Longrightarrow> peer_tally b n xs (fold (flush_eviction env now) es sv)"
    for es and sv :: "('o, 'i, 't, 'k, 'r) supervisor"
    by (induction es arbitrary: sv) (simp_all add: eviction_tally ac_simps)
  show ?thesis unfolding flush_evictions_def drain_evicted_def prod.case Let_def
    by (rule f) (use assms in \<open>simp add: peer_tally_def held_by_def frames_of_def evicted_pieces_def pieces_def ac_simps\<close>)
qed

lemma hand_over_tally:
  "peer_tally b n (mset (map rc_charge (concat (map tr_flushed ts))) + xs) sv \<Longrightarrow> peer_tally b n xs (hand_over_truncations env now ts sv)"
  unfolding hand_over_truncations_def
  by (induction ts arbitrary: sv) (simp_all add: hand_over_truncation_def deliver_all_tally emit_tally ac_simps)

lemma held_mut_pieces:
  assumes "keys_ok st" "map_of (sx_seen st) key = Some t" "tk_resume t = Some r"
    and m: "mset (ru_held r) = add_mset (seq, msg) M" "seq \<notin> fst ` set_mset M"
  shows "held_get key seq st = Some msg" "keys_ok (held_mut key seq f st)" "evicted_pieces (held_mut key seq f st) = evicted_pieces st"
    "\<exists>P. pieces st = add_mset msg P \<and> pieces (held_mut key seq f st) = add_mset (f msg) P"
proof -
  let ?g = "\<lambda>(q, x). (q, if q = seq then f x else x)"
  let ?t = "t\<lparr>tk_resume := Some (r\<lparr>ru_held := map ?g (ru_held r)\<rparr>)\<rparr>"
  have hm: "held_mut key seq f st = st\<lparr>sx_seen := AList.update key ?t (sx_seen st)\<rparr>" using assms(2,3) by (simp add: held_mut_def)
  have in_set: "(seq, x) \<in> set (ru_held r) \<longleftrightarrow> x = msg" for x
  proof -
    have "(seq, x) \<in> set (ru_held r) \<longleftrightarrow> (seq, x) \<in># add_mset (seq, msg) M" using arg_cong[OF m(1), of set_mset] by auto
    then show ?thesis using m(2) by force
  qed
  then obtain y where y: "map_of (ru_held r) seq = Some y" by (metis weak_map_of_SomeI)
  then have "y = msg" using in_set map_of_SomeD by metis
  with y assms(2,3) show "held_get key seq st = Some msg" by (simp add: held_get_def)
  show "keys_ok (held_mut key seq f st)" using assms(1) by (simp add: hm distinct_update)
  show "evicted_pieces (held_mut key seq f st) = evicted_pieces st" by (simp add: hm evicted_pieces_def)
  have gM: "image_mset ?g M = M"
  proof -
    have "image_mset ?g M = image_mset (\<lambda>x. x) M" by (rule image_mset_cong) (use m(2) in force)
    then show ?thesis by simp
  qed
  have h1: "mset (held_pieces t) = add_mset msg (image_mset snd M)" using assms(3) m(1) by (simp add: held_pieces_def)
  have h2: "mset (held_pieces ?t) = add_mset (f msg) (image_mset snd M)"
  proof -
    have "held_pieces ?t = map snd (map ?g (ru_held r))" by (simp add: held_pieces_def)
    then have "mset (held_pieces ?t) = image_mset snd (image_mset ?g (mset (ru_held r)))" by (simp only: mset_map)
    then show ?thesis using m(1) gM by simp
  qed
  have u: "pieces (held_mut key seq f st) + mset (held_pieces t) = pieces st + mset (held_pieces ?t)"
    using seen_update[OF assms(1), of key ?t] assms(2) by (simp add: hm pieces_seen)
  have "mset (held_pieces t) \<subseteq># pieces st" using seen_delete[OF assms(1), of key] assms(2) by (metis mset_subset_eq_add_right option.simps(5) pieces_seen)
  then obtain Q where Q: "pieces st = mset (held_pieces t) + Q" by (metis subset_mset.le_iff_add)
  have "pieces st = add_mset msg (image_mset snd M + Q) \<and> pieces (held_mut key seq f st) = add_mset (f msg) (image_mset snd M + Q)"
    using u Q h1 h2 by simp
  then show "\<exists>P. pieces st = add_mset msg P \<and> pieces (held_mut key seq f st) = add_mset (f msg) P" by blast
qed

lemma observe_held:
  assumes "observe_capped mark msg now over st = (v, st')" "case v of Gap _ _ _ \<Rightarrow> True | Held _ \<Rightarrow> True | _ \<Rightarrow> False"
  obtains t r M where "\<not> over" "map_of (sx_seen st') (sk_key mark) = Some t" "tk_resume t = Some r"
    "mset (ru_held r) = add_mset (sk_seq mark, msg) M" "sk_seq mark \<notin> fst ` set_mset M"
proof (cases "map_of (sx_seen st) (sk_key mark)")
  case None
  then show ?thesis using assms by (auto simp: observe_capped_def)
next
  case (Some t)
  let ?h = "case tk_resume t of None \<Rightarrow> [] | Some q \<Rightarrow> ru_held q"
  obtain t' where t': "observe_track (sx_resume_buffer st) (sx_resume_timeout st) (sk_generation mark) (sk_seq mark) msg now over t = (v, t')"
    "map_of (sx_seen st') (sk_key mark) = Some t'"
    using assms(1) Some by (auto simp: observe_capped_def update_conv' split: prod.splits)
  from observe_track_pieces(2)[OF t'(1) assms(2)] obtain r where
    r: "\<not> over" "tk_resume t' = Some r" "mset (ru_held r) = add_mset (sk_seq mark, msg) (mset ?h)" "sk_seq mark \<notin> fst ` set ?h" by blast
  have "sk_seq mark \<notin> fst ` set_mset (mset ?h)" using r(4) by simp
  from that[OF r(1) t'(2) r(2,3) this] show ?thesis .
qed

lemma hold_tally:
  assumes "peer_tally b n xs sv" "window_fits (ch_bytes (rc_charge msg)) (sv_ledger sv)"
    and "map_of (sx_seen (sv_streams sv)) (sk_key mark) = Some t" "tk_resume t = Some r"
    "mset (ru_held r) = add_mset (sk_seq mark, msg) M" "sk_seq mark \<notin> fst ` set_mset M"
  shows "peer_tally b n xs (hold_piece now mark sv)"
proof -
  obtain c opened l where h: "charge_hold now (rc_charge msg) (sv_ledger sv) = (c, opened, l)" by (metis prod_cases3)
  let ?f = "\<lambda>m :: 'b received. m\<lparr>rc_charge := c\<rparr>"
  have k: "keys_ok (sv_streams sv)" using assms(1) by (simp add: peer_tally_def)
  note H = held_mut_pieces[OF k assms(3-6)]
  obtain P where P: "pieces (sv_streams sv) = add_mset msg P" "pieces (held_mut (sk_key mark) (sk_seq mark) ?f (sv_streams sv)) = add_mset (?f msg) P"
    using H(4)[of ?f] by blast
  let ?sv = "sv\<lparr>sv_ledger := l, sv_streams := held_mut (sk_key mark) (sk_seq mark) ?f (sv_streams sv)\<rparr>"
  let ?R = "xs + (mset (map cg_charge (sv_order sv)) + mset (map cg_charge (sv_lane sv)) + image_mset rc_charge (P + evicted_pieces (sv_streams sv)) +
      mset (map link_charge (frames_of sv)))"
  have "tally_ok b n (add_mset (rc_charge msg) ?R) (sv_ledger sv)" using assms(1) P(1) by (simp add: peer_tally_def held_by_def ac_simps)
  from tally_hold[OF this assms(2) h] have "tally_ok b n (add_mset c ?R) l" .
  then have "peer_tally b n xs ?sv" using H(2)[of ?f] H(3)[of ?f] P(2) by (simp add: peer_tally_def held_by_def frames_of_def ac_simps)
  then show ?thesis by (simp add: hold_piece_def H(1) h)
qed

lemma piece_tally:
  fixes sv :: "('o, 'i, 't, 'k, 'r) supervisor"
  assumes "peer_tally b n (add_mset (rc_charge msg) xs) sv"
  shows "peer_tally b n xs (snd (route_piece env now mark msg sv))"
proof -
  let ?l1 = "snd (use_streams now (sv_ledger sv))"
  let ?sv1 = "sv\<lparr>sv_ledger := ?l1\<rparr>"
  let ?over = "\<not> window_fits (ch_bytes (rc_charge msg)) ?l1"
  obtain v st where o: "observe_capped mark msg (resume_clock now ?sv1) ?over (sv_streams sv) = (v, st)" by fastforce
  let ?dis = "discarded_pieces v msg (held_of (sk_key mark) (sv_streams sv))"
  let ?sv2 = "sv\<lparr>sv_streams := st, sv_ledger := drop_charges now (map rc_charge ?dis) ?l1\<rparr>"
  let ?sv3 = "case v of Gap _ _ _ \<Rightarrow> hold_piece now mark ?sv2 | Held _ \<Rightarrow> hold_piece now mark ?sv2 | _ \<Rightarrow> ?sv2"
  let ?del = "mset (map rc_charge (into_delivered v)) + xs"
  have k: "keys_ok (sv_streams sv)" using assms by (simp add: peer_tally_def)
  note O = observe_pieces[OF k o]
  have O': "add_mset (rc_charge msg) (image_mset rc_charge (pieces (sv_streams sv)) + image_mset rc_charge (evicted_pieces (sv_streams sv))) =
     image_mset rc_charge (pieces st) + image_mset rc_charge (evicted_pieces st) + mset (map rc_charge (into_delivered v)) + mset (map rc_charge ?dis)"
    using arg_cong[OF O(2), of "image_mset rc_charge"] by simp
  have "tally_ok b n (add_mset (rc_charge msg) xs + held_by sv) ?l1"
    using assms unfolding peer_tally_def by (blast intro: tally_streams)
  moreover have "add_mset (rc_charge msg) xs + held_by sv = mset (map rc_charge ?dis) + (?del + held_by ?sv2)"
    using O' by (simp add: held_by_def frames_of_def ac_simps)
  ultimately have "tally_ok b n (mset (map rc_charge ?dis) + (?del + held_by ?sv2)) ?l1" by metis
  from tally_drops[OF this, of now] have t2: "peer_tally b n ?del ?sv2" using O(1) by (simp add: peer_tally_def)
  have t3: "peer_tally b n ?del ?sv3"
  proof (cases "case v of Gap _ _ _ \<Rightarrow> True | Held _ \<Rightarrow> True | _ \<Rightarrow> False")
    case True
    then have d: "?dis = []" by (cases v) auto
    obtain t r M where h: "\<not> ?over" "map_of (sx_seen st) (sk_key mark) = Some t" "tk_resume t = Some r"
      "mset (ru_held r) = add_mset (sk_seq mark, msg) M" "sk_seq mark \<notin> fst ` set_mset M" using observe_held[OF o True] by blast
    have "peer_tally b n ?del (hold_piece now mark ?sv2)"
      by (rule hold_tally[OF t2]) (use h d in \<open>simp_all add: drop_charges_def\<close>)
    with True show ?thesis by (cases v) auto
  next
    case False
    with t2 show ?thesis by (cases v) auto
  qed
  have t4: "peer_tally b n ?del (case verdict_event mark v of None \<Rightarrow> ?sv3 | Some event \<Rightarrow> emit env now event ?sv3)"
    by (cases "verdict_event mark v :: ('t, 'k) transport_event option") (use t3 emit_tally[OF t3] in simp_all)
  have "snd (route_piece env now mark msg sv) = flush_evictions env now (deliver_all env now (into_delivered v)
      (case verdict_event mark v of None \<Rightarrow> ?sv3 | Some event \<Rightarrow> emit env now event ?sv3))"
    by (cases v) (simp_all add: route_piece_def o)
  then show ?thesis using evictions_tally[OF deliver_all_tally[OF t4]] by simp
qed

lemma drop_tally: "peer_tally b n (mset cs + xs) sv \<Longrightarrow> peer_tally b n xs (sv\<lparr>sv_ledger := drop_charges now cs (sv_ledger sv)\<rparr>)"
  using tally_drops[of b n cs "xs + held_by sv" "sv_ledger sv" now]
  by (simp add: peer_tally_def held_by_def frames_of_def ac_simps)

lemma reply_tally:
  assumes "peer_tally b n (add_mset charge xs) sv"
  shows "peer_tally b n xs (route_reply env now tag msg charge sv)"
proof -
  obtain found table where t: "pending_take tag (sv_pending sv) = (found, table)" by fastforce
  have p: "peer_tally b n (add_mset charge xs) (sv\<lparr>sv_pending := table\<rparr>)" using assms by (simp add: peer_tally_def held_by_def frames_of_def)
  have a: "peer_tally b n (add_mset charge xs) (answer slot r (sv\<lparr>sv_pending := table\<rparr>))" for slot r
    using assms by (simp add: peer_tally_def held_by_def frames_of_def answer_def)
  have "peer_tally b n (mset [charge] + xs) (case found of Some slot \<Rightarrow> answer slot (Inr msg) (sv\<lparr>sv_pending := table\<rparr>)
      | None \<Rightarrow> if ring_contains tag (pn_retired (sv_pending (sv\<lparr>sv_pending := table\<rparr>))) then sv\<lparr>sv_pending := table\<rparr>
                else emit env now (UnmatchedReply tag) (sv\<lparr>sv_pending := table\<rparr>))"
    using p a emit_tally[OF p] by (auto split: option.splits)
  from drop_tally[OF this, of now] show ?thesis by (simp only: route_reply_def t Let_def prod.case)
qed

lemma route_tally:
  assumes "peer_tally b n (add_mset charge xs) sv"
  shows "peer_tally b n xs (snd (route env now msg charge sv))"
  using assms emit_tally[OF assms, of env now AmbiguousRole]
  by (auto simp: route_def Let_def intro: reply_tally deliver_tally piece_tally split: option.splits)

lemma frame_tally:
  assumes "peer_tally b n (add_mset charge xs) sv"
  shows "peer_tally b n xs (snd (on_frame env now frame charge sv))"
proof -
  have r: "peer_tally b n (add_mset charge xs) (sv\<lparr>sv_last_rx := now\<rparr>)" using assms by (simp add: peer_tally_def held_by_def frames_of_def)
  have k: "peer_tally b n xs (sv\<lparr>sv_last_rx := now, sv_ledger := drop_charges now [charge] (sv_ledger sv)\<rparr>)"
    using drop_tally[of b n "[charge]" xs "sv\<lparr>sv_last_rx := now\<rparr>" now] r by simp
  have e: "peer_tally b n (mset [charge] + xs) (emit env now (DecodeFailed (mc_generation (sv_machine sv)) reason) sv)" for reason
    using emit_tally[OF assms] by simp
  show ?thesis using k route_tally[OF r] drop_tally[OF e]
    by (simp add: on_frame_def Let_def case_prod_beta split: sum.splits)
qed

lemma salvage_tally:
  "peer_tally b n (mset (map link_charge ms) + xs) sv \<Longrightarrow> peer_tally b n xs (snd (salvage_loop env now ms ended sv))"
proof (induction env now ms ended sv rule: salvage_loop.induct)
  case (2 env now frame charge rest ended sv)
  obtain res y where f: "on_frame env now frame charge sv = (res, y)" by fastforce
  have "peer_tally b n (add_mset charge (mset (map link_charge rest) + xs)) sv" using 2(2) by (simp add: ac_simps)
  from frame_tally[OF this, of env now frame] 2(1) f show ?case by auto
next
  case (3 env now rest ended sv)
  then have "peer_tally b n (mset (map link_charge rest) + xs) sv" by (simp add: peer_tally_def)
  then show ?case by (simp add: drop_tally)
next
  case (4 env now rest ended sv)
  then have "peer_tally b n (mset (map link_charge rest) + xs) sv" by (simp add: peer_tally_def)
  then show ?case by (simp add: drop_tally)
qed simp

lemma note_flush_tally [simp]: "peer_tally b n xs (note_flush now sv) = peer_tally b n xs sv"
  by (rule tally_part_eq) (simp add: note_flush_def tally_part_def)

lemma guard_part [simp]: "tally_part (snd (guard_write env now sv)) = tally_part sv"
  by (simp add: guard_write_def note_flush_def tally_part_def Let_def)

lemma write_part [simp]: "tally_part (snd (write_frame env now f sv)) = tally_part sv" "tally_part (snd (write_or_count env now f sv)) = tally_part sv"
  using guard_part[of env now sv] by (simp_all add: write_frame_def write_or_count_def case_prod_beta tally_part_def)

lemma reject_part [simp]: "tally_part (reject_command c sv) = tally_part sv"
  by (simp add: reject_command_def tally_part_def answer_def split: peer_op.splits)

lemma fold_part: "(\<And>x sv. tally_part (f x sv) = tally_part sv) \<Longrightarrow> tally_part (fold f xs sv) = tally_part sv"
  by (induction xs arbitrary: sv) simp_all

lemma reject_all_part [simp]: "tally_part (reject_all sv) = tally_part sv"
proof -
  have "tally_part (fold reject_command (sv_data sv) (sv\<lparr>sv_data := []\<rparr>)) = tally_part (sv\<lparr>sv_data := []\<rparr>)" by (rule fold_part) simp
  then show ?thesis by (simp add: reject_all_def tally_part_def)
qed

lemma fail_pending_part [simp]:
  fixes sv :: "('o, 'i, 't, 'k, 'r) supervisor"
  shows "tally_part (peer_fail_pending cause sv) = tally_part sv"
proof -
  have f: "tally_part (fold (\<lambda>(_, slot). answer slot r) ws sv') = tally_part sv'" for r and ws :: "('t \<times> 'r) list" and sv' :: "('o, 'i, 't, 'k, 'r) supervisor"
    by (rule fold_part) (simp add: case_prod_beta answer_def tally_part_def)
  show ?thesis unfolding peer_fail_pending_def Let_def case_prod_beta[of _ "pending_drain (sv_pending sv)"]
    by (simp add: f) (simp add: tally_part_def)
qed

lemma request_part: "tally_part (snd (on_request env now out slot sv)) = tally_part sv"
proof -
  have p: "tally_part (sv\<lparr>sv_pending := table\<rparr>) = tally_part sv" for table by (simp add: tally_part_def)
  have a: "tally_part (answer s r sv') = tally_part sv'" for s r sv' by (simp add: answer_def tally_part_def)
  show ?thesis by (simp add: on_request_def case_prod_beta Let_def p a split: option.splits insert_result.splits)
qed

lemma cmd_part: "tally_part (snd (on_cmd env now cmd sv)) = tally_part sv"
  by (simp add: on_cmd_def request_part split: peer_op.splits)

text \<open>The rest of the supervisor.\<close>

lemma streams_tally:
  assumes "peer_tally b n xs sv" "keys_ok st" "pieces (sv_streams sv) = pieces st + mset ms" "evicted_pieces st = evicted_pieces (sv_streams sv)"
  shows "peer_tally b n (mset (map rc_charge ms) + xs) (sv\<lparr>sv_streams := st\<rparr>)"
  using assms by (simp add: peer_tally_def held_by_def frames_of_def ac_simps)

lemma collapse_tally:
  assumes "peer_tally b n xs sv" "collapse_all keys (sv_streams sv) = (ts, st)"
  shows "peer_tally b n xs (hand_over_truncations env now ts (sv\<lparr>sv_streams := st\<rparr>))"
proof (rule hand_over_tally, rule streams_tally[OF assms(1)])
  have k: "keys_ok (sv_streams sv)" using assms(1) by (simp add: peer_tally_def)
  show "keys_ok st" using collapse_all_seen[OF k, of keys] by (simp add: assms(2))
  show "pieces (sv_streams sv) = pieces st + mset (concat (map tr_flushed ts))" "evicted_pieces st = evicted_pieces (sv_streams sv)"
    using collapse_all_pieces[OF k, of keys] by (simp_all add: assms(2) evicted_pieces_def)
qed

lemma report_tally:
  assumes "peer_tally b n xs sv"
  shows "peer_tally b n xs (report_drops env now sv)"
proof -
  have z: "peer_tally b n xs (sv\<lparr>sv_dropped_out := 0\<rparr>)" using assms by (simp add: peer_tally_def held_by_def frames_of_def)
  have "map cg_charge (butlast (sv_order sv) @ [(List.last (sv_order sv))\<lparr>cg_item := e\<rparr>]) = map cg_charge (sv_order sv)"
    if "sv_order sv \<noteq> []" for e
    using arg_cong[OF append_butlast_last_id[OF that], of "map cg_charge"] by simp
  then have "peer_tally b n xs (sv\<lparr>sv_dropped_out := 0, sv_order := butlast (sv_order sv) @ [(List.last (sv_order sv))\<lparr>cg_item := e\<rparr>]\<rparr>)"
    if "sv_order sv \<noteq> []" for e
    using assms that by (simp add: peer_tally_def held_by_def frames_of_def flip: mset_map)
  then show ?thesis using z emit_tally[OF z]
    by (auto simp: report_drops_def held_report_def Let_def split: option.splits if_splits)
qed

lemma overflow_tally:
  assumes "peer_tally b n xs sv"
  shows "peer_tally b n xs (snd (drain_overflow env now sv))"
proof -
  have "peer_tally b n xs (sv\<lparr>sv_dropped_out := d, sv_refused := r, sv_overflow := o'\<rparr>)"
    "peer_tally b n xs (sv\<lparr>sv_refused := r, sv_overflow := o', sv_dropped_out := d\<rparr>)" for d r o'
    using assms by (simp_all add: peer_tally_def held_by_def frames_of_def)
  then show ?thesis by (auto simp: drain_overflow_def Let_def intro!: report_tally split: queue_full_policy.splits)
qed

lemma pause_tally:
  assumes "peer_tally b n xs sv"
  shows "peer_tally b n xs (track_pause now sv)"
proof -
  obtain shut l where t: "take_shut (sv_ledger sv) = (shut, l)" by fastforce
  have "tally_ok b n (xs + held_by sv) l" using tally_shut[of b n "xs + held_by sv" "sv_ledger sv"] assms by (simp add: t peer_tally_def)
  then show ?thesis using assms
    by (auto simp: track_pause_def t Let_def peer_tally_def held_by_def frames_of_def shift_resumes_def shift_pieces split: option.splits)
qed

lemma time_out_tally: "peer_tally b n xs sv \<Longrightarrow> peer_tally b n xs (fold (time_out env now) ys sv)"
proof (induction ys arbitrary: sv)
  case (Cons y ys)
  have "peer_tally b n xs (answer s r sv)" for s r using Cons.prems by (simp add: peer_tally_def held_by_def frames_of_def answer_def)
  then have "peer_tally b n xs (time_out env now y sv)" by (simp add: time_out_def Let_def emit_tally)
  from Cons.IH[OF this] show ?case by simp
qed simp

lemma requests_tally: "peer_tally b n xs sv \<Longrightarrow> peer_tally b n xs (expire_requests env now sv)"
  unfolding expire_requests_def case_prod_beta Let_def
  by (rule time_out_tally) (simp add: peer_tally_def held_by_def frames_of_def)

lemma windows_tally: "peer_tally b n xs sv \<Longrightarrow> peer_tally b n xs (expire_windows env now sv)"
  by (auto simp: expire_windows_def expire_resumes_def intro: collapse_tally split: prod.splits)

lemma timer_tally:
  assumes "peer_tally b n xs sv"
  shows "peer_tally b n xs (snd (on_timer env now sv))"
proof -
  note p = pause_tally[OF assms, of now]
  note w = windows_tally[OF requests_tally[OF p], of env now env now]
  have "peer_tally b n xs (snd (guard_write env now ((expire_windows env now (expire_requests env now (track_pause now sv)))\<lparr>sv_last_ping := now\<rparr>)))"
    using w by (subst tally_part_eq[OF guard_part]) (simp add: peer_tally_def held_by_def frames_of_def)
  then show ?thesis using assms p w by (simp add: on_timer_def Let_def split: option.splits)
qed

lemma reissue_tally:
  "peer_tally b n xs sv \<Longrightarrow> peer_tally b n xs (snd (reissue_loop env now ks sv))"
proof (induction env now ks sv rule: reissue_loop.induct)
  case (1 env now sv)
  then show ?case by (simp add: peer_tally_def held_by_def frames_of_def rearm_resumes_def shift_pieces)
next
  case (2 env now key after rest sv)
  let ?w = "write_frame env now (wi_encode (en_wire env) (wi_resume_request (en_wire env) key (Some after))) sv"
  have "peer_tally b n xs (snd ?w)" using 2(2) tally_part_eq[OF write_part(1)] by blast
  with 2(1)[of None "snd ?w"] show ?case by (cases ?w) (auto split: option.splits)
qed

lemma drop_link_tally:
  assumes "peer_tally b n xs sv"
  shows "peer_tally b n xs (drop_link now code sv)"
proof -
  let ?cs = "map link_charge (frames_of sv)"
  have "tally_ok b n (mset ?cs + (xs + held_by (sv\<lparr>sv_frames := None\<rparr>))) (sv_ledger sv)"
    using assms by (simp add: peer_tally_def held_by_def frames_of_def ac_simps)
  from tally_drops[OF this, of now] show ?thesis using assms
    by (auto simp: drop_link_def Let_def peer_tally_def held_by_def frames_of_def note_flush_def split: option.splits)
qed

lemma machine_tally:
  assumes "peer_tally b n xs sv"
  shows "peer_tally b n xs (emit_machine env now e sv)"
proof -
  have "peer_tally b n xs (sv\<lparr>sv_last_cause := c\<rparr>)" for c using assms by (simp add: peer_tally_def held_by_def frames_of_def)
  then show ?thesis using assms by (cases e) (simp_all add: emit_tally)
qed

lemma act_tally: "peer_tally b n xs (snd x) \<Longrightarrow> peer_tally b n xs (snd (apply_act env now a x))"
  by (cases x; cases a) (simp_all add: machine_tally drop_link_tally tally_part_eq[OF fail_pending_part])

lemma acts_tally: "peer_tally b n xs sv \<Longrightarrow> peer_tally b n xs (snd (apply_acts env now acts sv))"
proof -
  have "peer_tally b n xs (snd x) \<Longrightarrow> peer_tally b n xs (snd (fold (apply_act env now) acts x))" for x :: "follow option \<times> ('a, 'b, 'c, 'd, 'e) supervisor" and env
    by (induction acts arbitrary: x) (simp_all add: act_tally)
  from this[of "(None, sv)"] show "peer_tally b n xs sv \<Longrightarrow> ?thesis" by (simp add: apply_acts_def)
qed

lemma round_tally:
  assumes "peer_tally b n xs sv"
  shows "peer_tally b n xs (snd (run_round env now inp sv))"
proof -
  have p: "tally_part (publish y) = tally_part y" for y :: "('a, 'b, 'c, 'd, 'e) supervisor" by (simp add: publish_def tally_part_def)
  show ?thesis using assms
    by (auto simp: run_round_def fold_into_close_def Let_def tally_part_eq[OF p] case_prod_beta intro!: acts_tally)
      (simp_all add: peer_tally_def held_by_def frames_of_def)
qed

lemma teardown_tally:
  assumes "peer_tally b n xs sv"
  shows "peer_tally b n xs (teardown env now sv)"
proof -
  let ?sv1 = "reject_all (peer_fail_pending (sv_end_cause sv) (drop_link now GOING_AWAY sv))"
  have "peer_tally b n xs ?sv1"
    using drop_link_tally[OF assms] by (simp add: tally_part_eq[OF reject_all_part] tally_part_eq[OF fail_pending_part])
  then show ?thesis
    by (auto simp: teardown_def Let_def close_resumes_def intro!: emit_tally report_tally collapse_tally split: prod.splits)
qed

lemma salvage_all_tally:
  assumes "peer_tally b n xs sv"
  shows "peer_tally b n xs (snd (salvage_read_ahead env now sv))"
proof (cases "sv_frames sv")
  case (Some ms)
  have "peer_tally b n (mset (map link_charge ms) + xs) (sv\<lparr>sv_frames := None\<rparr>)"
    using assms Some by (simp add: peer_tally_def held_by_def frames_of_def ac_simps)
  then show ?thesis by (simp add: salvage_read_ahead_def Some salvage_tally)
qed (use assms in \<open>simp add: salvage_read_ahead_def\<close>)

lemma room_tally:
  assumes "peer_tally b n xs sv"
  shows "peer_tally b n xs (drain_order env now reserved sv)"
proof (cases reserved)
  case True
  have "peer_tally b n xs (snd (load_order env now ys (sv\<lparr>sv_lane := sv_lane sv @ [y]\<rparr>)))" if "sv_order sv = y # ys" for y ys
    by (rule load_tally) (use assms that in \<open>simp add: peer_tally_def held_by_def frames_of_def ac_simps\<close>)
  with True assms show ?thesis by (simp add: drain_order_def case_prod_beta split: list.splits)
next
  case False
  have "peer_tally b n (mset (map cg_charge (sv_order sv)) + xs) (sv\<lparr>sv_order := []\<rparr>)"
    using assms by (simp add: peer_tally_def held_by_def frames_of_def ac_simps)
  from drop_tally[OF this, of now] False show ?thesis by (simp add: drain_order_def)
qed

lemma lose_tally:
  assumes "peer_tally b n xs sv"
  shows "peer_tally b n xs (sv\<lparr>sv_order := [], sv_ledger := drop_charges now (map cg_charge (sv_order sv)) (sv_ledger sv)\<rparr>)"
  using room_tally[OF assms, of env now False] by (simp add: drain_order_def)

lemma take_tally:
  assumes "peer_tally b n xs sv" "sv_lane sv = y # ys"
  shows "peer_tally b n xs (sv\<lparr>sv_lane := ys, sv_ledger := drop_charges now [cg_charge y] (sv_ledger sv)\<rparr>)"
proof -
  have "peer_tally b n (mset [cg_charge y] + xs) (sv\<lparr>sv_lane := ys\<rparr>)" using assms by (simp add: peer_tally_def held_by_def frames_of_def ac_simps)
  from drop_tally[OF this, of now] show ?thesis by simp
qed

lemma frame_turn_tally:
  assumes "peer_tally b n xs sv" "sv_frames sv = Some (LinkFrame frame charge # ms)"
  shows "peer_tally b n xs (snd (frame_turn env now frame charge (sv\<lparr>sv_frames := Some ms\<rparr>)))"
proof -
  obtain res y where f: "on_frame env now frame charge (sv\<lparr>sv_frames := Some ms\<rparr>) = (res, y)" by fastforce
  have "peer_tally b n (add_mset charge xs) (sv\<lparr>sv_frames := Some ms\<rparr>)"
    using assms by (simp add: peer_tally_def held_by_def frames_of_def ac_simps)
  from frame_tally[OF this, of env now frame] have "peer_tally b n xs y" by (simp add: f)
  then show ?thesis by (auto simp: frame_turn_def f tally_part_eq[OF write_part(1)] split: sum.splits option.splits)
qed

lemma handle_part:
  "tally_part (snd (request_in g out slot res sv)) = tally_part sv" "tally_part (snd (notify_in g out res sv)) = tally_part sv"
  "tally_part (snd (resume_stream key after res sv)) = tally_part sv" "tally_part (snd (send_frame frame res sv)) = tally_part sv"
  "tally_part (drop_link_in g cause res sv) = tally_part sv" "tally_part (reconnect_now sv) = tally_part sv" "tally_part (close_peer sv) = tally_part sv"
  "tally_part (close_after_flush closing res sv) = tally_part sv"
  by (simp_all add: request_in_def notify_in_def resume_stream_def send_frame_def drop_link_in_def reconnect_now_def close_peer_def close_after_flush_def
      push_cmd_def count_overflow_def refuse_def tally_part_def Let_def split: send_result.splits)

lemma attach_tally:
  assumes "peer_tally b n xs sv"
  shows "peer_tally b n xs (attach_reader now (sv\<lparr>sv_link := True\<rparr>))"
proof -
  let ?cs = "map link_charge (frames_of sv)"
  have "tally_ok b n (mset ?cs + (xs + held_by (sv\<lparr>sv_frames := None\<rparr>))) (sv_ledger sv)"
    using assms by (simp add: peer_tally_def held_by_def frames_of_def ac_simps)
  from tally_drops[OF this, of now] show ?thesis using assms
    by (simp add: attach_reader_def Let_def peer_tally_def held_by_def frames_of_def)
qed

section \<open>The peer as a system\<close>

fun is_read :: "('o, 'k, 'r) peer_step \<Rightarrow> bool" where
  "is_read (RdFrame _ _) = True"
| "is_read _ = False"

lemma end_read_tally: "peer_tally b n {#} sv \<Longrightarrow> link_charge msg = charge_none \<Longrightarrow> peer_tally b n {#} (read_msg msg (sv_ledger sv) sv)"
  by (simp add: read_msg_def peer_tally_def held_by_def frames_of_def split: option.splits)

lemma step_tally:
  assumes "peer_tally b n {#} sv" "\<not> is_read st"
  shows "peer_tally b n {#} (peer_do env st sv)"
proof (cases st)
  case (SvTurn now)
  then show ?thesis using assms by (simp add: turn_head_def report_tally overflow_tally pause_tally)
next
  case (SvCommand now)
  have "peer_tally b n {#} (sv\<lparr>sv_data := cs\<rparr>)" for cs using assms(1) by (simp add: peer_tally_def held_by_def frames_of_def)
  then show ?thesis using SvCommand assms by (simp add: tally_part_eq[OF cmd_part] split: list.splits)
next
  case SvReject
  have "peer_tally b n {#} (sv\<lparr>sv_data := cs\<rparr>)" for cs using assms(1) by (simp add: peer_tally_def held_by_def frames_of_def)
  then show ?thesis using SvReject assms by (simp add: tally_part_eq[OF reject_part] split: list.splits)
next
  case (SvFrame now)
  then show ?thesis using assms frame_turn_tally[OF assms(1)] by (simp split: option.splits list.splits link_msg.splits)
next
  case (SvReissue now)
  have "peer_tally b n {#} (sv\<lparr>sv_fresh_link := False\<rparr>)" using assms(1) by (simp add: peer_tally_def held_by_def frames_of_def)
  then show ?thesis using SvReissue by (simp add: reissue_resumes_def reissue_tally split: list.splits)
next
  case (SvAttach now)
  then show ?thesis using attach_tally[OF assms(1)] by simp
next
  case (RxTake now)
  then show ?thesis using assms take_tally[OF assms(1)] by (simp split: list.splits)
qed (use assms in \<open>simp_all add: tally_part_eq[OF handle_part(1)] tally_part_eq[OF handle_part(2)] tally_part_eq[OF handle_part(3)]
      tally_part_eq[OF handle_part(4)] tally_part_eq[OF handle_part(5)] tally_part_eq[OF handle_part(6)] tally_part_eq[OF handle_part(7)]
      tally_part_eq[OF handle_part(8)] end_read_tally timer_tally room_tally salvage_all_tally round_tally teardown_tally lose_tally\<close>)

lemma tally_mono: "peer_tally b n xs sv \<Longrightarrow> n \<le> n' \<Longrightarrow> peer_tally b n' xs sv"
  by (auto simp: peer_tally_def tally_ok_def)

lemma read_tally:
  assumes "peer_tally b n {#} sv" "bl_level (sv_ledger sv) + payload_len frame < n'" "n \<le> n'"
  shows "peer_tally b n' {#} (peer_do env (RdFrame now frame) sv)"
proof -
  obtain c opened l where u: "ledger_charge now (payload_len frame) (sv_ledger sv) = (c, opened, l)" by (metis prod_cases3)
  have "tally_ok b n (held_by sv) (sv_ledger sv)" using assms(1) by (simp add: peer_tally_def)
  from tally_charge[OF this u assms(2,3)] have "tally_ok b n' (add_mset c (held_by sv)) l" .
  moreover have "peer_tally b n' {#} sv" using tally_mono[OF assms(1,3)] .
  ultimately show ?thesis using assms(1) by (simp add: u read_msg_def peer_tally_def held_by_def frames_of_def split: option.splits)
qed

lemma new_peer_tally: "peer_tally budget (max budget 1) {#} (new_peer policy accepted seed now floor budget)"
  by (simp add: peer_tally_def tally_ok_def new_peer_def streams_new_def held_by_def pieces_def evicted_pieces_def frames_of_def byte_ledger_new_def gate_over_def budget_caps_def)

lemma run_tally:
  assumes "peer_tally b n {#} sv"
  shows "\<exists>n'. peer_tally b n' {#} (peer_run env steps sv)"
  using assms
proof (induction steps arbitrary: sv n)
  case (Cons st steps)
  show ?case
  proof (cases "is_read st")
    case True
    then obtain now frame where st: "st = RdFrame now frame" by (cases st) auto
    from read_tally[OF Cons.prems, of frame "Suc (n + bl_level (sv_ledger sv) + payload_len frame)"] Cons.IH show ?thesis
      unfolding st peer_run_def by force
  next
    case False
    from Cons.IH[OF step_tally[OF Cons.prems False]] show ?thesis by (simp add: peer_run_def)
  qed
qed (auto simp: peer_run_def)

text \<open>The discipline of the reader (\<^verbatim>\<open>read_link\<close>): before every frame it has seen the gate open since its last one; \<open>m\<close> bounds
  the payload of a frame.\<close>

fun reader_gated :: "nat \<Rightarrow> ('o, 'i, 't, 'k) peer_env \<Rightarrow> bool \<Rightarrow> ('o, 'k, 'r) peer_step list \<Rightarrow> ('o, 'i, 't, 'k, 'r) supervisor \<Rightarrow> bool" where
  "reader_gated m env seen [] sv = True"
| "reader_gated m env seen (st # steps) sv = (
     let seen' = (seen \<or> \<not> gate_over (sv_ledger sv)); sv' = peer_do env st sv
     in case st of
          RdFrame now frame \<Rightarrow> seen' \<and> payload_len frame \<le> m \<and> reader_gated m env False steps sv'
        | _ \<Rightarrow> reader_gated m env seen' steps sv')"

lemma gate_open_level:
  assumes "peer_tally b n xs sv" "\<not> gate_over (sv_ledger sv)"
  shows "peer_tally b (max b 1) xs sv"
proof -
  let ?l = "sv_ledger sv"
  have t: "tally_ok b n (xs + held_by sv) ?l" using assms(1) by (simp add: peer_tally_def)
  have "bl_level ?l - bl_held ?l < fst (budget_caps ?l)" "bl_held ?l \<le> snd (budget_caps ?l)" using t assms(2) by (auto simp: tally_ok_def)
  moreover have "fst (budget_caps ?l) + snd (budget_caps ?l) = max b 1" using caps_sum(1)[of ?l] t by (simp add: tally_ok_def)
  moreover have "bl_held ?l \<le> bl_level ?l" using t bag_held_le[of "xs + held_by sv"] by (simp add: tally_ok_def)
  ultimately have "bl_level ?l < max b 1" by linarith
  then show ?thesis using assms(1) t by (simp add: peer_tally_def tally_ok_def)
qed

lemma gated_run:
  assumes "peer_tally b (max b 1 + m) {#} sv" "seen \<Longrightarrow> peer_tally b (max b 1) {#} sv" "reader_gated m env seen steps sv"
  shows "peer_tally b (max b 1 + m) {#} (peer_run env steps sv)"
  using assms
proof (induction steps arbitrary: sv seen)
  case (Cons st steps)
  let ?seen = "seen \<or> \<not> gate_over (sv_ledger sv)"
  have low: "peer_tally b (max b 1) {#} sv" if ?seen using that Cons.prems(2) gate_open_level[OF Cons.prems(1)] by blast
  show ?case
  proof (cases "is_read st")
    case True
    then obtain now frame where st: "st = RdFrame now frame" by (cases st) auto
    have g: ?seen "payload_len frame \<le> m" "reader_gated m env False steps (peer_do env st sv)" using Cons.prems(3) by (simp_all add: st Let_def)
    have "bl_level (sv_ledger sv) + payload_len frame < max b 1 + m" using low[OF g(1)] g(2) by (simp add: peer_tally_def tally_ok_def)
    from Cons.IH[OF read_tally[OF Cons.prems(1) this] _ g(3)[unfolded st]] show ?thesis by (simp add: peer_run_def st)
  next
    case False
    then have g: "reader_gated m env ?seen steps (peer_do env st sv)" using Cons.prems(3) by (cases st) (simp_all add: Let_def)
    from Cons.IH[OF step_tally[OF Cons.prems(1) False] _ g] step_tally[OF low False] show ?thesis by (simp add: peer_run_def)
  qed
qed (simp add: peer_run_def)

text \<open>C9. The tally of received bytes is exact for the whole peer. However the entry points of the handle, the
  reader, the receiver and the branches of the supervisor interleave, the level of the tally is the
  sum of the bytes of the shares held by read-ahead frames, resume windows, evicted streams, the
  ordering area and the line; the window share is the part of them held by windows and stays within its cap;
  and the gate is shut exactly when the rest fills the read share.\<close>

theorem peer_bytes_exact:
  fixes env :: "('o, 'i, 't, 'k) peer_env" and steps :: "('o, 'k, 'r) peer_step list" and policy accepted seed now floor budget
  defines "sv \<equiv> peer_run env steps (new_peer policy accepted seed now floor budget)"
  shows "bl_level (sv_ledger sv) = bag_bytes (held_by sv) \<and> bl_held (sv_ledger sv) = bag_held (held_by sv) \<and>
    bl_held (sv_ledger sv) \<le> snd (budget_caps (sv_ledger sv)) \<and>
    (gate_over (sv_ledger sv) \<longleftrightarrow> fst (budget_caps (sv_ledger sv)) \<le> bl_level (sv_ledger sv) - bl_held (sv_ledger sv))"
proof -
  obtain n where "peer_tally budget n {#} sv" unfolding sv_def using run_tally[OF new_peer_tally] by blast
  then show ?thesis by (simp add: peer_tally_def tally_ok_def)
qed

text \<open>C8. Memory held for one peer is bounded. If the reader reads a frame only after it has seen the gate open
  since its previous frame and no frame is longer than \<open>m\<close>, then through every interleaving of the handle,
  the reader, the receiver and the supervisor, read-ahead frames, resume windows, the ordering area
  and the line together hold less than the budget plus one frame.\<close>

theorem peer_bytes_bounded:
  assumes "reader_gated m env False steps (new_peer policy accepted seed now floor budget)"
  shows "bag_bytes (held_by (peer_run env steps (new_peer policy accepted seed now floor budget))) < max budget 1 + m"
proof -
  let ?sv0 = "new_peer policy accepted seed now floor budget"
  have "peer_tally budget (max budget 1 + m) {#} ?sv0" by (rule tally_mono[OF new_peer_tally]) simp
  from gated_run[OF this _ assms] show ?thesis by (simp add: peer_tally_def tally_ok_def)
qed

text \<open>A concrete peer: the budget is 3, a frame of 5 bytes is read, shuts the gate and is waiting in the read-ahead
  queue; what it holds is below 3 + 5.\<close>

definition idle_wire :: "(nat, nat, nat, nat) wire" where
  "idle_wire = \<lparr>wi_encode = (\<lambda>_. Keepalive), wi_decode = (\<lambda>_. Inr 0), wi_request_tag = (\<lambda>_. None), wi_reply_tag = (\<lambda>_. None),
     wi_stream_mark = (\<lambda>_. None), wi_resume_request = (\<lambda>_ _. 0)\<rparr>"

definition idle_env :: "(nat, nat, nat, nat) peer_env" where
  "idle_env = \<lparr>en_wire = idle_wire, en_lane = (\<lambda>_. SendOk), en_write = (\<lambda>_. None)\<rparr>"

definition idle_peer :: "(nat, nat, nat, nat, nat) supervisor" where
  "idle_peer = new_peer (policy_default (\<lambda>_ _. 0)) True 1 0 0 3"

theorem peer_bytes_bounded_witness:
  "gate_over (sv_ledger (peer_run idle_env [SvAttach 1, RdFrame 2 (Binary [0, 0, 0, 0, 0])] idle_peer)) \<and>
   bag_bytes (held_by (peer_run idle_env [SvAttach 1, RdFrame 2 (Binary [0, 0, 0, 0, 0])] idle_peer)) < 8"
proof -
  let ?steps = "[SvAttach 1, RdFrame 2 (Binary [0, 0, 0, 0, 0])] :: (nat, nat, nat) peer_step list"
  have "reader_gated 5 idle_env False ?steps idle_peer"
    by (simp add: idle_peer_def new_peer_def Let_def attach_reader_def drop_charges_def gate_over_def byte_ledger_new_def)
  from peer_bytes_bounded[OF this[unfolded idle_peer_def]] show ?thesis
    by (simp add: idle_peer_def peer_run_def) (simp add: new_peer_def Let_def attach_reader_def drop_charges_def gate_over_def byte_ledger_new_def
        ledger_charge_def budget_update_def budget_caps_def read_msg_def)
qed

section \<open>Timers of the running peer\<close>

lemma policy_fold: "(\<And>x sv. sv_policy (f x sv) = sv_policy sv) \<Longrightarrow> sv_policy (fold f xs sv) = sv_policy sv"
  by (induction xs arbitrary: sv) simp_all

lemma policy_flush [simp]: "sv_policy (note_flush now sv) = sv_policy sv"
  by (simp add: note_flush_def)

lemma policy_write [simp]:
  "sv_policy (snd (guard_write env now sv)) = sv_policy sv" "sv_policy (snd (write_frame env now f sv)) = sv_policy sv"
  "sv_policy (snd (write_or_count env now f sv)) = sv_policy sv"
  by (simp_all add: write_frame_def write_or_count_def case_prod_beta guard_write_def Let_def)

lemma policy_answer [simp]: "sv_policy (answer s r sv) = sv_policy sv" "sv_policy (reject_command c sv) = sv_policy sv"
  by (simp_all add: answer_def reject_command_def split: peer_op.splits)

lemma policy_reject_all [simp]: "sv_policy (reject_all sv) = sv_policy sv"
  unfolding reject_all_def by (subst policy_fold) simp_all

lemma policy_fail [simp]: "sv_policy (peer_fail_pending cause sv) = sv_policy sv"
  unfolding peer_fail_pending_def Let_def case_prod_beta policy_reject_all by (subst policy_fold) simp_all

lemma policy_cmd [simp]: "sv_policy (snd (on_cmd env now cmd sv)) = sv_policy sv"
  by (simp add: on_cmd_def on_request_def case_prod_beta Let_def split: peer_op.splits option.splits insert_result.splits)

lemma policy_evictions [simp]: "sv_policy (flush_evictions env now sv) = sv_policy sv"
  unfolding flush_evictions_def case_prod_beta Let_def by (subst policy_fold) simp_all

lemma policy_hold [simp]: "sv_policy (hold_piece now mark sv) = sv_policy sv"
  by (simp add: hold_piece_def case_prod_beta split: option.splits)

lemma policy_frame [simp]: "sv_policy (snd (on_frame env now frame charge sv)) = sv_policy sv"
  by (simp add: on_frame_def route_def route_piece_def route_reply_def case_prod_beta Let_def split: sum.splits option.splits verdict.splits)

lemma policy_salvage [simp]: "sv_policy (snd (salvage_loop env now ms ended sv)) = sv_policy sv"
proof (induction env now ms ended sv rule: salvage_loop.induct)
  case (2 env now frame charge rest ended sv)
  obtain res y where f: "on_frame env now frame charge sv = (res, y)" by fastforce
  then show ?case using 2 policy_frame[of env now frame charge sv] by simp
qed simp_all

lemma policy_reissue [simp]: "sv_policy (snd (reissue_loop env now ks sv)) = sv_policy sv"
proof (induction env now ks sv rule: reissue_loop.induct)
  case (2 env now key after rest sv)
  obtain res y where w: "write_frame env now (wi_encode (en_wire env) (wi_resume_request (en_wire env) key (Some after))) sv = (res, y)" by fastforce
  then have "sv_policy y = sv_policy sv" by (metis policy_write(2) snd_conv)
  with 2 w show ?case by (simp split: option.splits)
qed simp

lemma policy_acts [simp]: "sv_policy (snd (apply_acts env now acts sv)) = sv_policy sv"
proof -
  have one: "sv_policy (snd (apply_act env now a x)) = sv_policy (snd x)" for a x
  proof (cases x; cases a)
    fix e f sv assume "x = (f, sv)" "a = Emit e"
    then show ?thesis by (cases e) simp_all
  qed (simp_all add: drop_link_def Let_def)
  have "sv_policy (snd (fold (apply_act env now) acts x)) = sv_policy (snd x)" for x
    by (induction acts arbitrary: x) (simp_all add: one)
  from this[of "(None, sv)"] show ?thesis by (simp add: apply_acts_def)
qed

lemma policy_step: "sv_policy (peer_do env st sv) = sv_policy sv"
proof (cases st)
  case (SvTeardown now)
  then show ?thesis by (simp add: teardown_def case_prod_beta Let_def drop_link_def report_keeps)
next
  case (SvTurn now)
  then show ?thesis by (simp add: turn_head_def drain_overflow_def report_keeps pause_keeps Let_def split: queue_full_policy.splits)
next
  case (SvFrame now)
  have "sv_policy (snd (frame_turn env now frame charge y)) = sv_policy y" for frame charge and y :: "('a, 'b, 'c, 'd, 'e) supervisor"
  proof -
    obtain res z where f: "on_frame env now frame charge y = (res, z)" by fastforce
    with policy_frame[of env now frame charge y] show ?thesis by (simp add: frame_turn_def split: sum.splits option.splits)
  qed
  with SvFrame show ?thesis by (simp split: option.splits list.splits link_msg.splits)
qed (simp_all add: request_in_def notify_in_def resume_stream_def send_frame_def drop_link_in_def reconnect_now_def close_peer_def close_after_flush_def
      push_cmd_def count_overflow_def refuse_def read_msg_def attach_reader_def on_timer_def expire_fields window_fields pause_keeps reissue_resumes_def
      salvage_read_ahead_def run_round_def fold_into_close_def publish_def case_prod_beta Let_def split: send_result.splits option.splits list.splits)

lemma policy_run: "sv_policy (peer_run env steps sv) = sv_policy sv"
  unfolding peer_run_def by (rule policy_fold) (rule policy_step)

text \<open>C10. The operating loop cannot spin on its timers. In every state the peer can reach under a policy that passed
  its check, serving the timer either ends the round or leaves the next wake-up strictly in the
  future, so the next turn at that instant is not a timer turn.\<close>

theorem timer_progress:
  assumes "policy_check policy = Inr ()"
    and "on_timer env' at_time (peer_run env steps (new_peer policy accepted seed now floor budget)) = (None, sv')"
  shows "at_time < wake_at sv' \<and> next_turn at_time (wake_at sv') in_row out_len out_cap \<noteq> TimerTurn"
proof -
  let ?fresh = "new_peer policy accepted seed now floor budget"
  let ?sv = "peer_run env steps ?fresh"
  obtain n where "peer_tally budget n {#} ?sv" using run_tally[OF new_peer_tally] by blast
  then have "keys_ok (sv_streams ?sv)" by (simp add: peer_tally_def)
  moreover have "pending_inv (sv_pending ?sv)" using keeps_run[of env steps ?fresh] by (simp add: keeps_def new_peer_req)
  moreover have "0 < cp_ping_interval (sv_policy ?sv)" using checked_ping[OF assms(1)] by (simp add: policy_run) (simp add: new_peer_def)
  ultimately have "at_time < wake_at sv'" using timer_later[OF _ _ _ assms(2)] by blast
  then show ?thesis by (simp add: next_turn_def)
qed

theorem timer_progress_witness:
  "fst (on_timer idle_env 21000000000 (peer_run idle_env [SvAttach 0] idle_peer)) = None \<and>
   21000000000 < wake_at (snd (on_timer idle_env 21000000000 (peer_run idle_env [SvAttach 0] idle_peer)))"
proof -
  let ?sv = "peer_run idle_env [SvAttach 0] idle_peer :: (nat, nat, nat, nat, nat) supervisor"
  note fresh = peer_run_def idle_peer_def new_peer_def attach_reader_def drop_charges_def
  have pause: "track_pause 21000000000 ?sv = ?sv"
    by (simp add: fresh track_pause_def take_shut_def byte_ledger_new_def pause_began_def gate_closed_default_def)
  have expire: "expire_windows idle_env 21000000000 (expire_requests idle_env 21000000000 ?sv) = ?sv"
    by (simp add: fresh expire_requests_def pending_expire_def pending_new_def expire_windows_def expire_resumes_def streams_new_def hand_over_truncations_def)
  have "fst (guard_write idle_env 21000000000 (?sv\<lparr>sv_last_ping := 21000000000\<rparr>)) = None"
    by (simp add: fresh guard_write_def note_flush_def flushing_def idle_env_def)
  moreover have "sv_flush_deadline ?sv = None" "sv_last_rx ?sv = 0" "sv_last_ping ?sv = 0" "\<not> sv_paused ?sv" "sv_policy ?sv = policy_default (\<lambda>_ _. 0)" by (simp_all add: fresh)
  ultimately have n: "fst (on_timer idle_env 21000000000 ?sv) = None"
    by (simp add: on_timer_def pause expire Let_def policy_default_def)
  have "on_timer idle_env 21000000000 ?sv = (None, snd (on_timer idle_env 21000000000 ?sv))" using n by (simp add: prod_eq_iff)
  from timer_progress[OF default_checks this[unfolded idle_peer_def], where in_row = 0 and out_len = 0 and out_cap = 0] n
  show ?thesis by (simp add: idle_peer_def)
qed

end
