(* ===== verification/Layout_Tree.thy ===== *)
theory Layout_Tree
  imports Eg_Prelude "HOL-Library.Sublist"
begin

text \<open>
  The layout tree of the dashboard shell, \<^verbatim>\<open>src-tauri/src/layout/tree.rs\<close> and the node types of
  \<^verbatim>\<open>src-tauri/src/layout/types.rs\<close>. A split ratio is a value the tree only stores, so its type is a
  variable; the identifiers the code draws at random are arguments. A mutating function returns its
  result together with the new tree.
\<close>

section \<open>Nodes\<close>

type_synonym uuid = "128 word"

datatype split_dir = LeftRight | TopBottom

datatype slot_content = Empty | Agent ustr | AgentList | PresetPalette | Usage bool bool

fun content_is_empty :: "slot_content \<Rightarrow> bool" where
  "content_is_empty Empty = True"
| "content_is_empty _ = False"

fun content_agent_id :: "slot_content \<Rightarrow> ustr option" where
  "content_agent_id (Agent a) = Some a"
| "content_agent_id _ = None"

datatype 'r layout_node = Slot uuid slot_content | Split uuid split_dir 'r "'r layout_node" "'r layout_node"

definition new_empty_slot :: "uuid \<Rightarrow> 'r layout_node" where
  "new_empty_slot fresh = Slot fresh Empty"

record 'r split_info =
  si_id :: uuid
  si_dir :: split_dir
  si_ratio :: 'r
  si_a_slots :: "uuid list"
  si_b_slots :: "uuid list"

section \<open>Operations\<close>

fun find_slot :: "'r layout_node \<Rightarrow> uuid \<Rightarrow> slot_content option" where
  "find_slot (Slot i c) slot_id = (if i = slot_id then Some c else None)"
| "find_slot (Split i d r a b) slot_id = (case find_slot a slot_id of Some c \<Rightarrow> Some c | None \<Rightarrow> find_slot b slot_id)"

definition contains_slot :: "'r layout_node \<Rightarrow> uuid \<Rightarrow> bool" where
  "contains_slot t slot_id \<longleftrightarrow> find_slot t slot_id \<noteq> None"

fun first_slot_id :: "'r layout_node \<Rightarrow> uuid" where
  "first_slot_id (Slot i c) = i"
| "first_slot_id (Split i d r a b) = first_slot_id a"

fun first_empty_slot_id :: "'r layout_node \<Rightarrow> uuid option" where
  "first_empty_slot_id (Slot i c) = (if content_is_empty c then Some i else None)"
| "first_empty_slot_id (Split i d r a b) = (case first_empty_slot_id a of Some x \<Rightarrow> Some x | None \<Rightarrow> first_empty_slot_id b)"

text \<open>\<open>half\<close> is \<^verbatim>\<open>SPLIT_RATIO\<close>; \<open>nslot\<close> and \<open>nsplit\<close> are the identifiers drawn for the new slot and split.\<close>

fun split_in_tree :: "'r \<Rightarrow> uuid \<Rightarrow> uuid \<Rightarrow> 'r layout_node \<Rightarrow> uuid \<Rightarrow> split_dir \<Rightarrow> uuid option \<times> 'r layout_node" where
  "split_in_tree half nslot nsplit (Slot i c) slot_id dir =
     (if i = slot_id then (Some nslot, Split nsplit dir half (Slot i c) (new_empty_slot nslot)) else (None, Slot i c))"
| "split_in_tree half nslot nsplit (Split i d r a b) slot_id dir = (
     case split_in_tree half nslot nsplit a slot_id dir of
       (Some found, a') \<Rightarrow> (Some found, Split i d r a' b)
     | (None, a') \<Rightarrow> (let (res, b') = split_in_tree half nslot nsplit b slot_id dir in (res, Split i d r a' b')))"

fun set_ratio_in_tree :: "'r layout_node \<Rightarrow> uuid \<Rightarrow> 'r \<Rightarrow> bool \<times> 'r layout_node" where
  "set_ratio_in_tree (Slot i c) split_id ratio = (False, Slot i c)"
| "set_ratio_in_tree (Split i d r a b) split_id ratio = (
     if i = split_id then (True, Split i d ratio a b)
     else case set_ratio_in_tree a split_id ratio of
            (True, a') \<Rightarrow> (True, Split i d r a' b)
          | (False, a') \<Rightarrow> (let (res, b') = set_ratio_in_tree b split_id ratio in (res, Split i d r a' b')))"

fun split_ratio :: "'r layout_node \<Rightarrow> uuid \<Rightarrow> 'r option" where
  "split_ratio (Slot i c) split_id = None"
| "split_ratio (Split i d r a b) split_id =
     (if i = split_id then Some r else case split_ratio a split_id of Some x \<Rightarrow> Some x | None \<Rightarrow> split_ratio b split_id)"

fun slot_ids :: "'r layout_node \<Rightarrow> uuid list" where
  "slot_ids (Slot i c) = [i]"
| "slot_ids (Split i d r a b) = slot_ids a @ slot_ids b"

fun list_splits :: "'r layout_node \<Rightarrow> 'r split_info list" where
  "list_splits (Slot i c) = []"
| "list_splits (Split i d r a b) =
     \<lparr>si_id = i, si_dir = d, si_ratio = r, si_a_slots = slot_ids a, si_b_slots = slot_ids b\<rparr> # list_splits a @ list_splits b"

fun is_slot :: "uuid \<Rightarrow> 'r layout_node \<Rightarrow> bool" where
  "is_slot slot_id (Slot i c) = (i = slot_id)"
| "is_slot slot_id (Split _ _ _ _ _) = False"

fun close_in_tree :: "uuid \<Rightarrow> 'r layout_node \<Rightarrow> uuid \<Rightarrow> bool \<times> 'r layout_node" where
  "close_in_tree fresh (Slot i c) slot_id = (if i = slot_id then (True, new_empty_slot fresh) else (False, Slot i c))"
| "close_in_tree fresh (Split i d r a b) slot_id = (
     if is_slot slot_id a then (True, b)
     else if is_slot slot_id b then (True, a)
     else case close_in_tree fresh a slot_id of
            (True, a') \<Rightarrow> (True, Split i d r a' b)
          | (False, a') \<Rightarrow> (let (res, b') = close_in_tree fresh b slot_id in (res, Split i d r a' b')))"

fun set_in_tree :: "'r layout_node \<Rightarrow> uuid \<Rightarrow> slot_content \<Rightarrow> bool \<times> 'r layout_node" where
  "set_in_tree (Slot i c) slot_id content = (if i = slot_id then (True, Slot i content) else (False, Slot i c))"
| "set_in_tree (Split i d r a b) slot_id content = (
     if contains_slot a slot_id then (let (res, a') = set_in_tree a slot_id content in (res, Split i d r a' b))
     else (let (res, b') = set_in_tree b slot_id content in (res, Split i d r a b')))"

section \<open>Laws\<close>

fun split_ids :: "'r layout_node \<Rightarrow> uuid list" where
  "split_ids (Slot i c) = []"
| "split_ids (Split i d r a b) = i # split_ids a @ split_ids b"

definition tree_ok :: "'r layout_node \<Rightarrow> bool" where
  "tree_ok t \<longleftrightarrow> distinct (slot_ids t) \<and> distinct (split_ids t)"

lemma contains_iff: "contains_slot t s \<longleftrightarrow> s \<in> set (slot_ids t)"
  unfolding contains_slot_def by (induction t s rule: find_slot.induct) (auto split: option.splits)

lemma find_slot_None: "find_slot t s = None \<longleftrightarrow> s \<notin> set (slot_ids t)"
  using contains_iff[of t s] by (auto simp: contains_slot_def)

lemma slot_ids_nonempty [simp]: "slot_ids t \<noteq> []"
  by (induction t) auto

lemma first_slot: "first_slot_id t = hd (slot_ids t)"
  by (induction t) auto

lemma list_splits_ids: "map si_id (list_splits t) = split_ids t"
  by (induction t) auto

lemma slots_splits: "length (slot_ids t) = Suc (length (list_splits t))"
  by (induction t) auto

lemma first_empty: "first_empty_slot_id t = find (\<lambda>s. find_slot t s = Some Empty) (slot_ids t)" if "distinct (slot_ids t)"
  using that
proof (induction t)
  case (Slot i c)
  then show ?case by (cases c) auto
next
  case (Split i d r a b)
  have left: "find_slot (Split i d r a b) s = find_slot a s" if "s \<in> set (slot_ids a)" for s
    using that find_slot_None[of a s] by (auto split: option.splits)
  have right: "find_slot (Split i d r a b) s = find_slot b s" if "s \<in> set (slot_ids b)" for s
  proof -
    have "s \<notin> set (slot_ids a)" using that Split.prems by auto
    then show ?thesis by (simp add: find_slot_None[symmetric])
  qed
  have "find (\<lambda>s. find_slot (Split i d r a b) s = Some Empty) (slot_ids a) = first_empty_slot_id a"
    using Split left by (auto intro: find_cong)
  moreover have "find (\<lambda>s. find_slot (Split i d r a b) s = Some Empty) (slot_ids b) = first_empty_slot_id b"
    using Split right by (auto intro: find_cong)
  moreover have "find P (xs @ ys) = (case find P xs of None \<Rightarrow> find P ys | Some x \<Rightarrow> Some x)" for P and xs ys :: "uuid list"
    by (induction xs) auto
  ultimately show ?case by (simp del: find_slot.simps add: option.case_eq_if)
qed


subsection \<open>Splitting\<close>

text \<open>Where an identifier sits in a list of distinct identifiers, and what replaces it.\<close>

definition subst_id :: "uuid \<Rightarrow> uuid list \<Rightarrow> uuid list \<Rightarrow> uuid list" where
  "subst_id s new xs = concat (map (\<lambda>x. if x = s then new else [x]) xs)"

lemma subst_id_append [simp]: "subst_id s new (xs @ ys) = subst_id s new xs @ subst_id s new ys"
  by (simp add: subst_id_def)

lemma subst_id_fresh [simp]: "s \<notin> set xs \<Longrightarrow> subst_id s new xs = xs"
  by (induction xs) (auto simp: subst_id_def)

lemma subst_id_single [simp]: "subst_id s new [x] = (if x = s then new else [x])"
  by (simp add: subst_id_def)

lemma subst_id_Nil: "subst_id s [] xs = filter (\<lambda>x. x \<noteq> s) xs"
  by (induction xs) (auto simp: subst_id_def)

lemma split_miss: "s \<notin> set (slot_ids t) \<Longrightarrow> split_in_tree h n m t s d = (None, t)"
  by (induction t) auto

lemma split_hit:
  assumes "s \<in> set (slot_ids t)" "distinct (slot_ids t)"
  shows "\<exists>t'. split_in_tree h n m t s d = (Some n, t') \<and> slot_ids t' = subst_id s [s, n] (slot_ids t)
    \<and> set (split_ids t') = insert m (set (split_ids t)) \<and> length (split_ids t') = Suc (length (split_ids t))"
  using assms
proof (induction t)
  case (Split i d' r a b)
  show ?case
  proof (cases "s \<in> set (slot_ids a)")
    case True
    then have "s \<notin> set (slot_ids b)" using Split.prems by auto
    with True Split show ?thesis by auto
  next
    case False
    with Split show ?thesis by (auto simp: split_miss)
  qed
qed (auto simp: new_empty_slot_def)

lemma find_split_node:
  assumes "distinct (slot_ids (Split i d r a b))"
  shows "find_slot (Split i d r a b) = find_slot b ++ find_slot a"
  by (rule ext) (simp add: map_add_def split: option.splits)

lemma find_slot_dom: "dom (find_slot t) = set (slot_ids t)"
  by (auto simp: dom_def find_slot_None)

lemma split_find:
  assumes "s \<in> set (slot_ids t)" "distinct (slot_ids t)" "n \<notin> set (slot_ids t)"
  shows "find_slot (snd (split_in_tree h n m t s d)) = (find_slot t)(n \<mapsto> Empty)"
  using assms
proof (induction t)
  case (Slot i c)
  then show ?case by (auto simp: new_empty_slot_def)
next
  case (Split i d' r a b)
  have na: "find_slot a n = None" and nb: "find_slot b n = None" using Split.prems by (auto simp: find_slot_None)
  show ?case
  proof (cases "s \<in> set (slot_ids a)")
    case True
    with Split split_hit[of s a h n m d] na nb show ?thesis by (auto simp: fun_eq_iff split: option.splits)
  next
    case False
    with Split split_hit[of s b h n m d] split_miss[of s a h n m d] na nb show ?thesis
      by (auto simp: fun_eq_iff split: option.splits)
  qed
qed

lemma split_distinct_ids:
  assumes "s \<in> set (slot_ids t)" "distinct (slot_ids t)" "m \<notin> set (split_ids t)" "distinct (split_ids t)"
  shows "distinct (split_ids (snd (split_in_tree h n m t s d)))"
proof -
  obtain t' where t': "split_in_tree h n m t s d = (Some n, t')" "set (split_ids t') = insert m (set (split_ids t))"
    "length (split_ids t') = Suc (length (split_ids t))" using split_hit[OF assms(1,2)] by blast
  have "card (set (split_ids t')) = length (split_ids t')"
    using t' assms(3,4) by (simp add: distinct_card)
  then show ?thesis using t' by (simp add: card_distinct)
qed

lemma distinct_subst_id:
  assumes "distinct xs" "n \<notin> set xs"
  shows "distinct (subst_id s [s, n] xs)"
  using assms by (induction xs) (auto simp: subst_id_def split: if_splits)

subsection \<open>Closing\<close>

lemma is_slot_ids: "is_slot s t \<Longrightarrow> slot_ids t = [s]"
  by (cases t) auto

lemma not_slot_nonempty: "\<lbrakk>s \<in> set (slot_ids t); \<not> is_slot s t; distinct (slot_ids t)\<rbrakk> \<Longrightarrow> slot_ids t \<noteq> [s]"
  by (cases t) (auto simp: append_eq_Cons_conv)

lemma close_miss: "s \<notin> set (slot_ids t) \<Longrightarrow> close_in_tree f t s = (False, t)"
proof (induction t)
  case (Split i d r a b)
  then show ?case using is_slot_ids[of s a] is_slot_ids[of s b] by auto
qed auto

text \<open>What a successful close leaves: the other slots with their contents, and no new split.\<close>

definition closes_to :: "uuid \<Rightarrow> 'r layout_node \<Rightarrow> 'r layout_node \<Rightarrow> bool" where
  "closes_to s t t' \<longleftrightarrow> slot_ids t' = filter (\<lambda>x. x \<noteq> s) (slot_ids t)
     \<and> find_slot t' = (find_slot t)(s := None) \<and> subseq (split_ids t') (split_ids t)"

lemma filter_absent: "s \<notin> set xs \<Longrightarrow> filter (\<lambda>x. x \<noteq> s) xs = xs"
  by (induction xs) auto

lemma closes_to_parts:
  assumes "s \<notin> set (slot_ids b)" "closes_to s a a'"
  shows "closes_to s (Split i d r a b) (Split i d r a' b)" "closes_to s (Split i d r b a) (Split i d r b a')"
  using assms find_slot_None[of b s]
  by (auto simp: closes_to_def filter_absent fun_eq_iff list_emb_append_mono split: option.splits)

lemma closes_to_sibling:
  assumes "s \<notin> set (slot_ids b)" "is_slot s a"
  shows "closes_to s (Split i d r a b) b" "closes_to s (Split i d r b a) b"
proof -
  obtain c where "a = Slot s c" using assms(2) by (cases a) auto
  then show "closes_to s (Split i d r a b) b" "closes_to s (Split i d r b a) b"
    using assms(1) find_slot_None[of b s] by (auto simp: closes_to_def filter_absent fun_eq_iff split: option.splits)
qed

lemma close_hit:
  assumes "s \<in> set (slot_ids t)" "distinct (slot_ids t)" "slot_ids t \<noteq> [s]"
  shows "\<exists>t'. close_in_tree f t s = (True, t') \<and> closes_to s t t'"
  using assms
proof (induction t)
  case (Slot i c)
  then show ?case by simp
next
  case (Split i d r a b)
  show ?case
  proof (cases "s \<in> set (slot_ids a)")
    case sa: True
    then have nb: "s \<notin> set (slot_ids b)" using Split.prems by auto
    then have bs: "\<not> is_slot s b" using is_slot_ids by fastforce
    show ?thesis
    proof (cases "is_slot s a")
      case False
      obtain a' where "close_in_tree f a s = (True, a')" "closes_to s a a'"
        using Split.IH(1)[OF sa] Split.prems(2) not_slot_nonempty[OF sa False] by auto
      then show ?thesis using False bs closes_to_parts(1)[OF nb] by simp
    qed (use closes_to_sibling(1)[OF nb] in simp)
  next
    case na: False
    then have sb: "s \<in> set (slot_ids b)" using Split.prems by auto
    have as: "\<not> is_slot s a" using is_slot_ids na by fastforce
    show ?thesis
    proof (cases "is_slot s b")
      case False
      obtain b' where "close_in_tree f b s = (True, b')" "closes_to s b b'"
        using Split.IH(2)[OF sb] Split.prems(2) not_slot_nonempty[OF sb False] by auto
      then show ?thesis using False as closes_to_parts(2)[OF na] close_miss[OF na] by simp
    qed (use closes_to_sibling(2)[OF na] as in simp)
  qed
qed

lemma close_last: "slot_ids t = [s] \<Longrightarrow> close_in_tree f t s = (True, new_empty_slot f)"
  by (cases t) (auto simp: append_eq_Cons_conv)

lemma split_close:
  assumes "s \<in> set (slot_ids t)" "distinct (slot_ids t)" "n \<notin> set (slot_ids t)"
  shows "close_in_tree f (snd (split_in_tree h n m t s d)) n = (True, t)"
  using assms
proof (induction t)
  case (Slot i c)
  then show ?case by (auto simp: new_empty_slot_def)
next
  case (Split i d' r a b)
  have no_slot: "\<not> is_slot n t" if "slot_ids t = subst_id s [s, n] (slot_ids u)" "s \<in> set (slot_ids u)" for t u :: "'a layout_node"
  proof
    assume "is_slot n t"
    then have "subst_id s [s, n] (slot_ids u) = [n]" using is_slot_ids that(1) by metis
    moreover have "s \<in> set (subst_id s [s, n] (slot_ids u))" using that(2) by (auto simp: subst_id_def)
    ultimately show False using Split.prems(1,3) by auto
  qed
  have na: "\<not> is_slot n a" "close_in_tree f a n = (False, a)" and nb: "\<not> is_slot n b" "close_in_tree f b n = (False, b)"
    using Split.prems(3) is_slot_ids[of n] close_miss[of n] by fastforce+
  show ?case
  proof (cases "s \<in> set (slot_ids a)")
    case True
    with Split split_hit[of s a h n m d] no_slot[OF _ True] nb show ?thesis by auto
  next
    case False
    with Split split_hit[of s b h n m d] split_miss[of s a h n m d] no_slot[of _ b] na show ?thesis by auto
  qed
qed

lemma subseq_distinct: "\<lbrakk>subseq xs ys; distinct ys\<rbrakk> \<Longrightarrow> distinct xs"
  by (induction rule: list_emb.induct) (auto dest: list_emb_set)

subsection \<open>Contents and ratios\<close>

lemma set_miss: "s \<notin> set (slot_ids t) \<Longrightarrow> set_in_tree t s c = (False, t)"
  by (induction t) (auto simp: contains_iff)

lemma set_hit:
  assumes "s \<in> set (slot_ids t)"
  shows "\<exists>t'. set_in_tree t s c = (True, t') \<and> slot_ids t' = slot_ids t \<and> list_splits t' = list_splits t
    \<and> find_slot t' = (find_slot t)(s \<mapsto> c)"
  using assms
proof (induction t)
  case (Split i d r a b)
  show ?case
  proof (cases "s \<in> set (slot_ids a)")
    case True
    with Split.IH(1) show ?thesis by (auto simp: contains_iff fun_eq_iff)
  next
    case False
    then have "find_slot a s = None" "s \<in> set (slot_ids b)" using Split.prems by (auto simp: find_slot_None)
    with False Split.IH(2) show ?thesis by (auto simp: contains_iff fun_eq_iff split: option.splits)
  qed
qed auto

lemma ratio_dom: "split_ratio t m = None \<longleftrightarrow> m \<notin> set (split_ids t)"
  by (induction t) (auto split: option.splits)

lemma ratio_miss: "m \<notin> set (split_ids t) \<Longrightarrow> set_ratio_in_tree t m x = (False, t)"
  by (induction t) auto

lemma ratio_hit:
  assumes "m \<in> set (split_ids t)"
  shows "\<exists>t'. set_ratio_in_tree t m x = (True, t') \<and> slot_ids t' = slot_ids t \<and> split_ids t' = split_ids t
    \<and> find_slot t' = find_slot t \<and> split_ratio t' = (split_ratio t)(m \<mapsto> x)"
  using assms
proof (induction t)
  case (Split i d r a b)
  show ?case
  proof (cases "i = m \<or> m \<in> set (split_ids a)")
    case True
    with Split.IH(1) show ?thesis by (auto simp: fun_eq_iff split: option.splits)
  next
    case False
    then have "split_ratio a m = None" "m \<in> set (split_ids b)" using Split.prems by (auto simp: ratio_dom)
    with False Split.IH(2) show ?thesis by (auto simp: ratio_miss fun_eq_iff split: option.splits)
  qed
qed auto

section \<open>Properties\<close>

lemma tree_ok_split:
  assumes "tree_ok t" "n \<notin> set (slot_ids t)" "m \<notin> set (split_ids t)"
  shows "tree_ok (snd (split_in_tree h n m t s d))"
proof (cases "s \<in> set (slot_ids t)")
  case True
  then show ?thesis
    using assms split_hit[OF True, of h n m d] split_distinct_ids[OF True, of m h n d] distinct_subst_id[of "slot_ids t" n s]
    by (auto simp: tree_ok_def)
qed (simp add: assms(1) split_miss)

lemma tree_ok_close:
  assumes "tree_ok t"
  shows "tree_ok (snd (close_in_tree f t s))"
proof (cases "s \<in> set (slot_ids t)")
  case True
  show ?thesis
  proof (cases "slot_ids t = [s]")
    case False
    then obtain t' where "close_in_tree f t s = (True, t')" "closes_to s t t'"
      using close_hit[OF True] assms by (auto simp: tree_ok_def)
    then show ?thesis using assms by (auto simp: tree_ok_def closes_to_def dest: subseq_distinct)
  qed (simp add: close_last tree_ok_def new_empty_slot_def)
qed (simp add: assms(1) close_miss)

lemma tree_ok_set: "tree_ok t \<Longrightarrow> tree_ok (snd (set_in_tree t s c))"
  using set_miss[of s t c] set_hit[of s t c]
  by (cases "s \<in> set (slot_ids t)") (auto simp: tree_ok_def list_splits_ids[symmetric])

lemma tree_ok_ratio: "tree_ok t \<Longrightarrow> tree_ok (snd (set_ratio_in_tree t m x))"
  using ratio_miss[of m t x] ratio_hit[of m t x]
  by (cases "m \<in> set (split_ids t)") (auto simp: tree_ok_def)

text \<open>C38. The layout tree keeps its type: starting from a tree in which no two slots and no two splits
  share an identifier, splitting with identifiers that are not in use, closing, replacing a content
  and moving a boundary all give such a tree again, and every tree lists exactly one slot more than
  it lists splits, so it is never without a slot.\<close>

theorem layout_tree_typed:
  assumes "tree_ok t" "nslot \<notin> set (slot_ids t)" "nsplit \<notin> set (split_ids t)"
  shows "tree_ok (snd (split_in_tree half nslot nsplit t s d)) \<and> tree_ok (snd (close_in_tree fresh t s))
    \<and> tree_ok (snd (set_in_tree t s c)) \<and> tree_ok (snd (set_ratio_in_tree t m x))
    \<and> length (slot_ids t) = Suc (length (list_splits t)) \<and> first_slot_id t = hd (slot_ids t)"
  by (simp add: assms tree_ok_split tree_ok_close tree_ok_set tree_ok_ratio slots_splits first_slot)

theorem layout_tree_typed_witness:
  "tree_ok (Slot 1 Empty :: nat layout_node) \<and> tree_ok (snd (split_in_tree 50 2 3 (Slot 1 Empty :: nat layout_node) 1 LeftRight))"
  using layout_tree_typed[of "Slot 1 Empty :: nat layout_node" 2 3 50 1 LeftRight] by (simp add: tree_ok_def)

text \<open>What the operations of the layout tree do, in a tree with distinct slots. A split of a present
  slot answers the new slot, which stands right after its origin, is empty, and nothing else changed;
  a close answers whether the slot was there, removes exactly it and keeps every other slot with its
  content, and the only slot is replaced by a fresh empty one; a replaced content and a moved boundary
  change that one lookup and no other; an absent identifier changes nothing. The first empty slot is
  the first in reading order whose content is empty.\<close>

theorem layout_ops_exact:
  assumes "distinct (slot_ids t)" "nslot \<notin> set (slot_ids t)"
  shows
   "(case split_in_tree half nslot nsplit t s d of (res, t') \<Rightarrow>
       if s \<in> set (slot_ids t)
       then res = Some nslot \<and> slot_ids t' = concat (map (\<lambda>x. if x = s then [s, nslot] else [x]) (slot_ids t))
            \<and> find_slot t' = (find_slot t)(nslot \<mapsto> Empty)
       else res = None \<and> t' = t)
    \<and> (case close_in_tree fresh t s of (res, t') \<Rightarrow>
       if s \<notin> set (slot_ids t) then \<not> res \<and> t' = t
       else if slot_ids t = [s] then res \<and> t' = Slot fresh Empty
       else res \<and> slot_ids t' = filter (\<lambda>x. x \<noteq> s) (slot_ids t) \<and> find_slot t' = (find_slot t)(s := None))
    \<and> (case set_in_tree t s c of (res, t') \<Rightarrow>
       if s \<in> set (slot_ids t)
       then res \<and> slot_ids t' = slot_ids t \<and> list_splits t' = list_splits t \<and> find_slot t' = (find_slot t)(s \<mapsto> c)
       else \<not> res \<and> t' = t)
    \<and> (case set_ratio_in_tree t m x of (res, t') \<Rightarrow>
       if m \<in> set (map si_id (list_splits t))
       then res \<and> slot_ids t' = slot_ids t \<and> find_slot t' = find_slot t \<and> split_ratio t' = (split_ratio t)(m \<mapsto> x)
       else \<not> res \<and> t' = t)
    \<and> first_empty_slot_id t = find (\<lambda>i. find_slot t i = Some Empty) (slot_ids t)"
proof (intro conjI)
  show "case split_in_tree half nslot nsplit t s d of (res, t') \<Rightarrow>
       if s \<in> set (slot_ids t)
       then res = Some nslot \<and> slot_ids t' = concat (map (\<lambda>x. if x = s then [s, nslot] else [x]) (slot_ids t))
            \<and> find_slot t' = (find_slot t)(nslot \<mapsto> Empty)
       else res = None \<and> t' = t"
    using split_hit[of s t half nslot nsplit d] split_find[of s t nslot half nsplit d] split_miss[of s t half nslot nsplit d] assms
    by (auto simp: subst_id_def)
  show "case close_in_tree fresh t s of (res, t') \<Rightarrow>
       if s \<notin> set (slot_ids t) then \<not> res \<and> t' = t
       else if slot_ids t = [s] then res \<and> t' = Slot fresh Empty
       else res \<and> slot_ids t' = filter (\<lambda>x. x \<noteq> s) (slot_ids t) \<and> find_slot t' = (find_slot t)(s := None)"
    using close_miss[of s t fresh] close_last[of t s fresh] close_hit[of s t fresh] assms
    by (auto simp: closes_to_def new_empty_slot_def)
  show "case set_in_tree t s c of (res, t') \<Rightarrow>
       if s \<in> set (slot_ids t)
       then res \<and> slot_ids t' = slot_ids t \<and> list_splits t' = list_splits t \<and> find_slot t' = (find_slot t)(s \<mapsto> c)
       else \<not> res \<and> t' = t"
    using set_miss[of s t c] set_hit[of s t c] by auto
  show "case set_ratio_in_tree t m x of (res, t') \<Rightarrow>
       if m \<in> set (map si_id (list_splits t))
       then res \<and> slot_ids t' = slot_ids t \<and> find_slot t' = find_slot t \<and> split_ratio t' = (split_ratio t)(m \<mapsto> x)
       else \<not> res \<and> t' = t"
    using ratio_miss[of m t x] ratio_hit[of m t x] by (auto simp: list_splits_ids)
qed (rule first_empty[OF assms(1)])

theorem layout_ops_exact_witness:
  "fst (split_in_tree 50 2 3 (Slot 1 AgentList :: nat layout_node) 1 LeftRight) = Some 2
    \<and> slot_ids (snd (split_in_tree 50 2 3 (Slot 1 AgentList :: nat layout_node) 1 LeftRight)) = [1, 2]"
  using layout_ops_exact[of "Slot 1 AgentList :: nat layout_node" 2 50 3 1 LeftRight] by (simp add: new_empty_slot_def)

text \<open>Closing a slot undoes the split that made it: whatever the direction, the ratio and the
  identifiers drawn, splitting a slot of a tree with distinct slots and closing the new slot gives
  back exactly the tree before, ratios, directions and contents included.\<close>

theorem split_then_close:
  assumes "distinct (slot_ids t)" "s \<in> set (slot_ids t)" "nslot \<notin> set (slot_ids t)"
  shows "close_in_tree fresh (snd (split_in_tree half nslot nsplit t s d)) nslot = (True, t)"
  using split_close[OF assms(2,1,3)] .

theorem split_then_close_witness:
  "close_in_tree 9 (snd (split_in_tree 50 2 3 (Slot 1 AgentList :: nat layout_node) 1 TopBottom)) 2 = (True, Slot 1 AgentList)"
  using split_then_close[of "Slot 1 AgentList :: nat layout_node" 1 2] by simp

end
