(* ===== verification/Layout_Geometry.thy ===== *)
theory Layout_Geometry
  imports Layout_Tree Complex_Main
begin

text \<open>
  The rectangles of a layout tree, \<^verbatim>\<open>src-tauri/src/layout/geometry.rs\<close>, and the docking of one tree into
  another, \<^verbatim>\<open>src-tauri/src/layout/dock.rs\<close>. Coordinates are values of a linear order; the floating-point
  arithmetic of the code is the record \<open>metric\<close>: the unit interval, the boundary of a split, the limits and clamps
  of a ratio. What is proved uses of the arithmetic that a boundary lies within its interval
  (\<open>boundary_within\<close>), and nothing else.
\<close>

section \<open>Arithmetic\<close>

record ('f, 'r) metric =
  mt_zero :: 'f
  mt_one :: 'f
  mt_boundary :: "'f \<Rightarrow> 'f \<Rightarrow> 'r \<Rightarrow> 'f"
  mt_half :: 'r
  mt_rest :: "'r \<Rightarrow> 'r"
  mt_clamp :: "'r \<Rightarrow> 'r"
  mt_finite :: "'r \<Rightarrow> bool"
  mt_share_ok :: "'r \<Rightarrow> bool"
  mt_px_clamp :: "nat \<Rightarrow> nat \<Rightarrow> 'f \<Rightarrow> 'f \<Rightarrow> 'r \<Rightarrow> 'r option"

section \<open>Rectangles\<close>

record 'f rect =
  rx0 :: 'f
  ry0 :: 'f
  rx1 :: 'f
  ry1 :: 'f

record 'f slot_rect =
  sr_id :: uuid
  sr_rect :: "'f rect"

record 'f split_rect =
  pr_id :: uuid
  pr_dir :: split_dir
  pr_rect :: "'f rect"
  pr_at :: 'f

record 'f layout_geometry =
  ge_slots :: "'f slot_rect list"
  ge_splits :: "'f split_rect list"

fun walk :: "('f, 'r) metric \<Rightarrow> 'r layout_node \<Rightarrow> 'f rect \<Rightarrow> 'f layout_geometry \<Rightarrow> 'f layout_geometry" where
  "walk mt (Slot i c) r out = out\<lparr>ge_slots := ge_slots out @ [\<lparr>sr_id = i, sr_rect = r\<rparr>]\<rparr>"
| "walk mt (Split i dir ratio a b) r out = (
     let (brd, ra, rb) = (case dir of
           LeftRight \<Rightarrow> (let brd = mt_boundary mt (rx0 r) (rx1 r) ratio in (brd, r\<lparr>rx1 := brd\<rparr>, r\<lparr>rx0 := brd\<rparr>))
         | TopBottom \<Rightarrow> (let brd = mt_boundary mt (ry0 r) (ry1 r) ratio in (brd, r\<lparr>ry1 := brd\<rparr>, r\<lparr>ry0 := brd\<rparr>)));
         out1 = out\<lparr>ge_splits := ge_splits out @ [\<lparr>pr_id = i, pr_dir = dir, pr_rect = r, pr_at = brd\<rparr>]\<rparr>
     in walk mt b rb (walk mt a ra out1))"

definition unit_rect :: "('f, 'r) metric \<Rightarrow> 'f rect" where
  "unit_rect mt = \<lparr>rx0 = mt_zero mt, ry0 = mt_zero mt, rx1 = mt_one mt, ry1 = mt_one mt\<rparr>"

definition compute :: "('f, 'r) metric \<Rightarrow> 'r layout_node \<Rightarrow> 'f layout_geometry" where
  "compute mt node = walk mt node (unit_rect mt) \<lparr>ge_slots = [], ge_splits = []\<rparr>"

definition has_area :: "'f::linorder slot_rect \<Rightarrow> bool" where
  "has_area s \<longleftrightarrow> rx0 (sr_rect s) < rx1 (sr_rect s) \<and> ry0 (sr_rect s) < ry1 (sr_rect s)"

section \<open>Docking\<close>

datatype dock_side = DockLeft | DockRight | DockTop | DockBottom

datatype dock_anchor = AnchorSlot uuid | AnchorOuter

datatype dock_tree_error = DtSlotNotFound uuid | DtSlotIdOverlap | DtZeroArea

fun side_shape :: "dock_side \<Rightarrow> split_dir \<times> bool" where
  "side_shape DockLeft = (LeftRight, True)"
| "side_shape DockRight = (LeftRight, False)"
| "side_shape DockTop = (TopBottom, True)"
| "side_shape DockBottom = (TopBottom, False)"

text \<open>\<^verbatim>\<open>slot_node_mut\<close> with the write through the reference it hands out.\<close>

fun slot_node_mut :: "uuid \<Rightarrow> ('r layout_node \<Rightarrow> 'r layout_node) \<Rightarrow> 'r layout_node \<Rightarrow> 'r layout_node option" where
  "slot_node_mut slot_id f (Slot i c) = (if i = slot_id then Some (f (Slot i c)) else None)"
| "slot_node_mut slot_id f (Split i d r a b) = (case slot_node_mut slot_id f a of
     Some a' \<Rightarrow> Some (Split i d r a' b)
   | None \<Rightarrow> map_option (\<lambda>b'. Split i d r a b') (slot_node_mut slot_id f b))"

definition dock_wrap :: "('f, 'r) metric \<Rightarrow> uuid \<Rightarrow> dock_side \<Rightarrow> 'r layout_node \<Rightarrow> 'r \<Rightarrow> 'r layout_node \<Rightarrow> 'r layout_node" where
  "dock_wrap mt nsplit side incoming share original = (
     let (dir, new_is_a) = side_shape side
     in if new_is_a then Split nsplit dir share incoming original else Split nsplit dir (mt_rest mt share) original incoming)"

definition docked_tree :: "('f::linorder, 'r) metric \<Rightarrow> uuid \<Rightarrow> 'r layout_node \<Rightarrow> dock_anchor \<Rightarrow> dock_side \<Rightarrow> 'r layout_node \<Rightarrow> 'r
    \<Rightarrow> dock_tree_error + 'r layout_node" where
  "docked_tree mt nsplit target anchor side incoming share = (
     let wrap = dock_wrap mt nsplit side incoming share
     in case (case anchor of AnchorOuter \<Rightarrow> Some (wrap target) | AnchorSlot s \<Rightarrow> slot_node_mut s wrap target) of
          None \<Rightarrow> Inl (DtSlotNotFound (case anchor of AnchorSlot s \<Rightarrow> s | AnchorOuter \<Rightarrow> 0))
        | Some res \<Rightarrow>
            if list_ex (\<lambda>s. s \<in> set (slot_ids target)) (slot_ids incoming) then Inl DtSlotIdOverlap
            else
              let had_area = map sr_id (filter has_area (ge_slots (compute mt target) @ ge_slots (compute mt incoming)))
              in if list_ex (\<lambda>r. \<not> has_area r \<and> sr_id r \<in> set had_area) (ge_slots (compute mt res)) then Inl DtZeroArea
                 else Inr res)"

text \<open>\<^verbatim>\<open>incoming_rect\<close>: the box around the given slots of a result.\<close>

fun incoming_loop :: "'f::linorder layout_geometry \<Rightarrow> uuid list \<Rightarrow> 'f rect option \<Rightarrow> 'f rect option" where
  "incoming_loop g [] out = out"
| "incoming_loop g (i # is) out = (case find (\<lambda>s. sr_id s = i) (ge_slots g) of
     None \<Rightarrow> None
   | Some s \<Rightarrow> incoming_loop g is (Some (case out of
         None \<Rightarrow> sr_rect s
       | Some acc \<Rightarrow> \<lparr>rx0 = min (rx0 acc) (rx0 (sr_rect s)), ry0 = min (ry0 acc) (ry0 (sr_rect s)),
                       rx1 = max (rx1 acc) (rx1 (sr_rect s)), ry1 = max (ry1 acc) (ry1 (sr_rect s))\<rparr>)))"

definition incoming_rect :: "'f::linorder layout_geometry \<Rightarrow> uuid list \<Rightarrow> 'f rect option" where
  "incoming_rect g slots = incoming_loop g slots None"

section \<open>Laws of the geometry\<close>

text \<open>\<open>rects mt t r\<close> are the slots of the tree inside \<open>r\<close>; \<open>walk\<close> appends them.\<close>

fun halves :: "('f, 'r) metric \<Rightarrow> split_dir \<Rightarrow> 'r \<Rightarrow> 'f rect \<Rightarrow> 'f rect \<times> 'f rect" where
  "halves mt LeftRight ratio r = (let brd = mt_boundary mt (rx0 r) (rx1 r) ratio in (r\<lparr>rx1 := brd\<rparr>, r\<lparr>rx0 := brd\<rparr>))"
| "halves mt TopBottom ratio r = (let brd = mt_boundary mt (ry0 r) (ry1 r) ratio in (r\<lparr>ry1 := brd\<rparr>, r\<lparr>ry0 := brd\<rparr>))"

fun rects :: "('f, 'r) metric \<Rightarrow> 'r layout_node \<Rightarrow> 'f rect \<Rightarrow> 'f slot_rect list" where
  "rects mt (Slot i c) r = [\<lparr>sr_id = i, sr_rect = r\<rparr>]"
| "rects mt (Split i dir ratio a b) r = rects mt a (fst (halves mt dir ratio r)) @ rects mt b (snd (halves mt dir ratio r))"

lemma walk_slots: "ge_slots (walk mt t r out) = ge_slots out @ rects mt t r"
proof (induction t arbitrary: r out)
  case (Split i d ratio a b)
  then show ?case by (cases d) (simp_all add: Let_def)
qed simp

lemma walk_splits: "map pr_id (ge_splits (walk mt t r out)) = map pr_id (ge_splits out) @ split_ids t"
proof (induction t arbitrary: r out)
  case (Split i d ratio a b)
  then show ?case by (cases d) (simp_all add: Let_def)
qed simp

lemma compute_slots: "ge_slots (compute mt t) = rects mt t (unit_rect mt)"
  by (simp add: compute_def walk_slots)

lemma rects_ids: "map sr_id (rects mt t r) = slot_ids t"
  by (induction t arbitrary: r) simp_all

text \<open>What the arithmetic promises: a boundary lies within its interval.\<close>

definition boundary_within :: "('f::linorder, 'r) metric \<Rightarrow> bool" where
  "boundary_within mt \<longleftrightarrow> mt_zero mt \<le> mt_one mt \<and> (\<forall>lo hi r. lo \<le> hi \<longrightarrow> lo \<le> mt_boundary mt lo hi r \<and> mt_boundary mt lo hi r \<le> hi)"

text \<open>A rectangle owns the points of its half-open box.\<close>

definition owns :: "'f::linorder \<times> 'f \<Rightarrow> 'f rect \<Rightarrow> bool" where
  "owns p r \<longleftrightarrow> rx0 r \<le> fst p \<and> fst p < rx1 r \<and> ry0 r \<le> snd p \<and> snd p < ry1 r"

definition proper :: "'f::linorder rect \<Rightarrow> bool" where
  "proper r \<longleftrightarrow> rx0 r \<le> rx1 r \<and> ry0 r \<le> ry1 r"

definition inside :: "'f::linorder rect \<Rightarrow> 'f rect \<Rightarrow> bool" where
  "inside s r \<longleftrightarrow> rx0 r \<le> rx0 s \<and> rx1 s \<le> rx1 r \<and> ry0 r \<le> ry0 s \<and> ry1 s \<le> ry1 r"

lemma halves_laws:
  assumes "boundary_within mt" "proper r" "halves mt dir ratio r = (ra, rb)"
  shows "proper ra" "proper rb" "inside ra r" "inside rb r" "owns p r \<longleftrightarrow> owns p ra \<noteq> owns p rb" "\<not> (owns p ra \<and> owns p rb)"
proof -
  have "lo \<le> hi \<Longrightarrow> lo \<le> mt_boundary mt lo hi q \<and> mt_boundary mt lo hi q \<le> hi" for lo hi q using assms(1) by (simp add: boundary_within_def)
  then have b: "rx0 r \<le> mt_boundary mt (rx0 r) (rx1 r) ratio \<and> mt_boundary mt (rx0 r) (rx1 r) ratio \<le> rx1 r"
    "ry0 r \<le> mt_boundary mt (ry0 r) (ry1 r) ratio \<and> mt_boundary mt (ry0 r) (ry1 r) ratio \<le> ry1 r"
    using assms(2) by (simp_all add: proper_def)
  show "proper ra" "proper rb" "inside ra r" "inside rb r" "owns p r \<longleftrightarrow> owns p ra \<noteq> owns p rb" "\<not> (owns p ra \<and> owns p rb)"
    using b assms(2,3) by (cases dir; force simp: Let_def proper_def inside_def owns_def)+
qed

lemma rects_tile:
  assumes "boundary_within mt" "proper r"
  shows "length (filter (\<lambda>s. owns p (sr_rect s)) (rects mt t r)) = (if owns p r then 1 else 0) \<and>
    (\<forall>s \<in> set (rects mt t r). proper (sr_rect s) \<and> inside (sr_rect s) r)"
  using assms(2)
proof (induction t arbitrary: r)
  case (Split i d ratio a b)
  obtain ra rb where h: "halves mt d ratio r = (ra, rb)" by fastforce
  note H = halves_laws[OF assms(1) Split.prems h]
  have inside_trans: "inside x ra \<or> inside x rb \<Longrightarrow> inside x r" for x using H(3,4) by (auto simp: inside_def)
  show ?case using Split.IH(1)[OF H(1)] Split.IH(2)[OF H(2)] H(5,6)[of p] inside_trans by (auto simp: h)
qed (auto simp: inside_def proper_def)

section \<open>Laws of docking\<close>

lemma node_mut_None: "slot_node_mut s f t = None \<longleftrightarrow> s \<notin> set (slot_ids t)"
  by (induction t) (auto split: option.splits)

text \<open>What a wrapped anchor does to the slots: the new tree goes before or after it.\<close>

definition dock_ids :: "dock_side \<Rightarrow> uuid list \<Rightarrow> uuid list \<Rightarrow> uuid list" where
  "dock_ids side new old = (if snd (side_shape side) then new @ old else old @ new)"

lemma wrap_ids: "slot_ids (dock_wrap mt n side inc share t) = dock_ids side (slot_ids inc) (slot_ids t)"
  by (cases side) (simp_all add: dock_wrap_def dock_ids_def)

lemma wrap_splits: "mset (split_ids (dock_wrap mt n side inc share t)) = add_mset n (mset (split_ids inc) + mset (split_ids t))"
  by (cases side) (simp_all add: dock_wrap_def)

lemma wrap_find:
  assumes "set (slot_ids inc) \<inter> set (slot_ids t) = {}"
  shows "find_slot (dock_wrap mt n side inc share t) x = (case find_slot t x of Some c \<Rightarrow> Some c | None \<Rightarrow> find_slot inc x)"
proof -
  have "find_slot t x = None \<or> find_slot inc x = None" using assms by (auto simp: find_slot_None)
  then show ?thesis by (cases side) (auto simp: dock_wrap_def split: option.splits)
qed

lemma node_mut_laws:
  assumes "slot_node_mut s f t = Some t'" "distinct (slot_ids t)"
    and "\<And>c. slot_ids (f (Slot s c)) = new" "\<And>c. mset (split_ids (f (Slot s c))) = ms"
    and "\<And>c x. find_slot (f (Slot s c)) x = (if s = x then Some c else g x)"
    and "\<And>x. x \<in> set (slot_ids t) \<Longrightarrow> g x = None"
  shows "slot_ids t' = subst_id s new (slot_ids t) \<and> mset (split_ids t') = ms + mset (split_ids (t :: 'r layout_node)) \<and>
    find_slot t' x = (case find_slot t x of Some c \<Rightarrow> Some c | None \<Rightarrow> g x)"
  using assms(1,2,6)
proof (induction t arbitrary: t')
  case (Slot i c)
  then show ?case using assms(3-5) by (auto split: if_splits)
next
  case (Split i d r a b)
  show ?case
  proof (cases "slot_node_mut s f a")
    case None
    then obtain b' where b': "slot_node_mut s f b = Some b'" "t' = Split i d r a b'" using Split.prems(1) by auto
    have "s \<notin> set (slot_ids a)" using None by (simp add: node_mut_None)
    with Split.IH(2)[OF b'(1)] Split.prems(2,3) b'(2) show ?thesis by (auto split: option.splits)
  next
    case (Some a')
    then have t': "t' = Split i d r a' b" using Split.prems(1) by simp
    have "s \<in> set (slot_ids a)" using Some node_mut_None[of s f a] by auto
    then have "s \<notin> set (slot_ids b)" using Split.prems(2) by auto
    moreover have "g x = None \<or> find_slot b x = None" using Split.prems(3)[of x] by (auto simp: find_slot_None)
    ultimately show ?thesis using Split.IH(1)[OF Some] Split.prems(2,3) t' by (auto split: option.splits)
  qed
qed

lemma docked_laws:
  assumes "docked_tree mt n target anchor side inc share = Inr t'" "distinct (slot_ids target)"
  shows "set (slot_ids inc) \<inter> set (slot_ids target) = {}"
    "slot_ids t' = (case anchor of AnchorOuter \<Rightarrow> dock_ids side (slot_ids inc) (slot_ids target)
      | AnchorSlot s \<Rightarrow> subst_id s (dock_ids side (slot_ids inc) [s]) (slot_ids target))"
    "find_slot t' x = (case find_slot target x of Some c \<Rightarrow> Some c | None \<Rightarrow> find_slot inc x)"
    "mset (split_ids t') = add_mset n (mset (split_ids inc) + mset (split_ids target))"
    "case anchor of AnchorSlot s \<Rightarrow> s \<in> set (slot_ids target) | AnchorOuter \<Rightarrow> True"
proof -
  let ?wrap = "dock_wrap mt n side inc share"
  have t': "(case anchor of AnchorOuter \<Rightarrow> Some (?wrap target) | AnchorSlot s \<Rightarrow> slot_node_mut s ?wrap target) = Some t'"
    and disj: "set (slot_ids inc) \<inter> set (slot_ids target) = {}"
    using assms(1) by (auto simp: docked_tree_def Let_def list_ex_iff split: option.splits if_splits)
  show "set (slot_ids inc) \<inter> set (slot_ids target) = {}" by (rule disj)
  have "slot_ids t' = (case anchor of AnchorOuter \<Rightarrow> dock_ids side (slot_ids inc) (slot_ids target)
      | AnchorSlot s \<Rightarrow> subst_id s (dock_ids side (slot_ids inc) [s]) (slot_ids target)) \<and>
    find_slot t' x = (case find_slot target x of Some c \<Rightarrow> Some c | None \<Rightarrow> find_slot inc x) \<and>
    mset (split_ids t') = add_mset n (mset (split_ids inc) + mset (split_ids target)) \<and>
    (case anchor of AnchorSlot s \<Rightarrow> s \<in> set (slot_ids target) | AnchorOuter \<Rightarrow> True)"
  proof (cases anchor)
    case (AnchorSlot s)
    then have m: "slot_node_mut s ?wrap target = Some t'" using t' by simp
    have s: "s \<in> set (slot_ids target)" using m node_mut_None[of s ?wrap target] by auto
    have "slot_ids t' = subst_id s (dock_ids side (slot_ids inc) [s]) (slot_ids target) \<and>
      mset (split_ids t') = add_mset n (mset (split_ids inc)) + mset (split_ids target) \<and>
      find_slot t' x = (case find_slot target x of Some c \<Rightarrow> Some c | None \<Rightarrow> find_slot inc x)"
    proof (rule node_mut_laws[OF m assms(2)])
      show "find_slot (?wrap (Slot s c)) x = (if s = x then Some c else find_slot inc x)" for c x
        by (subst wrap_find) (use disj s in auto)
      show "find_slot inc x = None" if "x \<in> set (slot_ids target)" for x using disj that by (auto simp: find_slot_None)
    qed (simp_all add: wrap_ids wrap_splits)
    with s AnchorSlot show ?thesis by simp
  next
    case AnchorOuter
    then show ?thesis using t' wrap_find[OF disj] by (auto simp: wrap_ids wrap_splits)
  qed
  then show "slot_ids t' = (case anchor of AnchorOuter \<Rightarrow> dock_ids side (slot_ids inc) (slot_ids target)
      | AnchorSlot s \<Rightarrow> subst_id s (dock_ids side (slot_ids inc) [s]) (slot_ids target))"
    "find_slot t' x = (case find_slot target x of Some c \<Rightarrow> Some c | None \<Rightarrow> find_slot inc x)"
    "mset (split_ids t') = add_mset n (mset (split_ids inc) + mset (split_ids target))"
    "case anchor of AnchorSlot s \<Rightarrow> s \<in> set (slot_ids target) | AnchorOuter \<Rightarrow> True" by simp_all
qed

lemma distinct_subst_block:
  assumes "distinct xs" "distinct new" "set new \<inter> set xs \<subseteq> {s}"
  shows "distinct (subst_id s new xs)"
  using assms(1,3)
proof (induction xs)
  case (Cons x xs)
  have "set (subst_id s new xs) \<subseteq> set new \<union> set xs" by (auto simp: subst_id_def split: if_splits)
  moreover have "s \<notin> set xs \<Longrightarrow> subst_id s new xs = xs" by simp
  ultimately show ?case using Cons assms(2) subst_id_append[of s new "[x]" xs] by (cases "x = s") auto
qed (simp add: subst_id_def)

lemma docked_area:
  assumes "docked_tree mt n target anchor side inc share = Inr t'" "r \<in> set (ge_slots (compute mt t'))"
    and "\<exists>q \<in> set (ge_slots (compute mt target) @ ge_slots (compute mt inc)). sr_id q = sr_id r \<and> has_area q"
  shows "has_area r"
proof -
  let ?had = "map sr_id (filter has_area (ge_slots (compute mt target) @ ge_slots (compute mt inc)))"
  have "\<not> list_ex (\<lambda>r. \<not> has_area r \<and> sr_id r \<in> set ?had) (ge_slots (compute mt t'))"
    using assms(1) by (simp add: docked_tree_def Let_def split: option.splits if_splits)
  moreover have "sr_id r \<in> set ?had"
  proof -
    obtain q where q: "q \<in> set (ge_slots (compute mt target) @ ge_slots (compute mt inc))" "sr_id q = sr_id r" "has_area q" using assms(3) by blast
    then have "q \<in> set (filter has_area (ge_slots (compute mt target) @ ge_slots (compute mt inc)))" by simp
    then have "sr_id q \<in> set ?had" unfolding set_map by (rule imageI)
    with q(2) show ?thesis by simp
  qed
  ultimately show ?thesis using assms(2) unfolding list_ex_iff by blast
qed

section \<open>Properties\<close>

text \<open>The arithmetic on exact fractions, for the examples.\<close>

definition rat_metric :: "(rat, rat) metric" where
  "rat_metric = \<lparr>mt_zero = 0, mt_one = 1, mt_boundary = (\<lambda>lo hi r. lo + (hi - lo) * max (1 / 100) (min (99 / 100) r)), mt_half = 1 / 2,
     mt_rest = (\<lambda>r. 1 - r), mt_clamp = (\<lambda>r. max (1 / 100) (min (99 / 100) r)), mt_finite = (\<lambda>_. True),
     mt_share_ok = (\<lambda>r. 1 / 100 \<le> r \<and> r \<le> 1 / 2), mt_px_clamp = (\<lambda>_ _ _ _ r. Some r)\<rparr>"

lemma rat_within: "boundary_within rat_metric"
proof -
  have "lo \<le> lo + (hi - lo) * t \<and> lo + (hi - lo) * t \<le> hi" if "lo \<le> hi" "0 \<le> t" "t \<le> 1" for lo hi t :: rat
  proof -
    have "(hi - lo) * t \<le> (hi - lo) * 1" by (rule mult_left_mono) (use that in simp_all)
    moreover have "0 \<le> (hi - lo) * t" using that by simp
    ultimately show ?thesis by simp
  qed
  then show ?thesis by (simp add: boundary_within_def rat_metric_def)
qed

text \<open>The rectangles of a layout tile its area: they come in tree order, one per slot and one per split, each lies
  inside the unit square, and every point of the square belongs to exactly one slot, at any depth. Used of the
  floating-point arithmetic is only that a boundary lies within its interval.\<close>

theorem layout_tiles:
  assumes "boundary_within mt"
  shows "map sr_id (ge_slots (compute mt t)) = slot_ids t \<and> map pr_id (ge_splits (compute mt t)) = split_ids t \<and>
    length (filter (\<lambda>s. owns p (sr_rect s)) (ge_slots (compute mt t))) = (if owns p (unit_rect mt) then 1 else 0) \<and>
    list_all (\<lambda>s. proper (sr_rect s) \<and> inside (sr_rect s) (unit_rect mt)) (ge_slots (compute mt t))"
proof -
  have "proper (unit_rect mt)" using assms by (simp add: proper_def unit_rect_def boundary_within_def)
  from rects_tile[OF assms this] show ?thesis
    by (simp add: compute_slots rects_ids list_all_iff) (simp add: compute_def walk_splits)
qed

theorem layout_tiles_witness:
  "boundary_within rat_metric \<and>
   length (filter (\<lambda>s. owns (1 / 4, 3 / 4) (sr_rect s))
     (ge_slots (compute rat_metric (Split 9 LeftRight (1 / 2) (Slot 1 Empty) (Split 8 TopBottom (1 / 3) (Slot 2 Empty) (Slot 3 Empty)))))) = 1"
  using layout_tiles[OF rat_within, of "Split 9 LeftRight (1 / 2) (Slot 1 Empty) (Split 8 TopBottom (1 / 3) (Slot 2 Empty) (Slot 3 Empty))" "(1 / 4, 3 / 4)"] rat_within
  by (simp add: owns_def unit_rect_def rat_metric_def)

text \<open>Docking a layout into another: an accepted dock keeps every slot of both with its content and inserts
  the moved slots as one block beside the anchor, on the asked side; slots stay distinct; exactly one split is
  new; and no slot that had an area loses it. A dock is accepted only when the anchor exists and the trees share
  no slot.\<close>

theorem dock_inserts_block:
  assumes "docked_tree mt n target anchor side inc share = Inr t'" "distinct (slot_ids target)" "distinct (slot_ids inc)"
  shows "find_slot t' = (\<lambda>x. case find_slot target x of Some c \<Rightarrow> Some c | None \<Rightarrow> find_slot inc x) \<and> distinct (slot_ids t') \<and>
    slot_ids t' = (case anchor of AnchorOuter \<Rightarrow> dock_ids side (slot_ids inc) (slot_ids target)
      | AnchorSlot s \<Rightarrow> subst_id s (dock_ids side (slot_ids inc) [s]) (slot_ids target)) \<and>
    mset (split_ids t') = add_mset n (mset (split_ids inc) + mset (split_ids target)) \<and>
    set (slot_ids inc) \<inter> set (slot_ids target) = {} \<and>
    sr_id ` {r \<in> set (ge_slots (compute mt t')). \<not> has_area r} \<inter>
      sr_id ` {q \<in> set (ge_slots (compute mt target) @ ge_slots (compute mt inc)). has_area q} = {}"
proof -
  note D = docked_laws[OF assms(1,2)]
  have "distinct (slot_ids t')"
  proof (cases anchor)
    case (AnchorSlot s)
    then have "s \<in> set (slot_ids target)" using D(5) by simp
    have ids: "slot_ids t' = subst_id s (dock_ids side (slot_ids inc) [s]) (slot_ids target)" using AnchorSlot D(2) by simp
    have "distinct (dock_ids side (slot_ids inc) [s])" "set (dock_ids side (slot_ids inc) [s]) \<inter> set (slot_ids target) \<subseteq> {s}"
      using \<open>s \<in> set (slot_ids target)\<close> D(1) assms(3) by (auto simp: dock_ids_def)
    then show ?thesis unfolding ids by (rule distinct_subst_block[OF assms(2)])
  qed (use D(1,2) assms(2,3) in \<open>auto simp: dock_ids_def\<close>)
  moreover have "sr_id ` {r \<in> set (ge_slots (compute mt t')). \<not> has_area r} \<inter>
      sr_id ` {q \<in> set (ge_slots (compute mt target) @ ge_slots (compute mt inc)). has_area q} = {}"
  proof (rule Int_emptyI)
    fix i
    assume "i \<in> sr_id ` {r \<in> set (ge_slots (compute mt t')). \<not> has_area r}"
    then obtain r where r: "i = sr_id r" "r \<in> set (ge_slots (compute mt t'))" "\<not> has_area r" by blast
    assume "i \<in> sr_id ` {q \<in> set (ge_slots (compute mt target) @ ge_slots (compute mt inc)). has_area q}"
    then obtain q where q: "i = sr_id q" "q \<in> set (ge_slots (compute mt target) @ ge_slots (compute mt inc))" "has_area q" by blast
    have "\<exists>q \<in> set (ge_slots (compute mt target) @ ge_slots (compute mt inc)). sr_id q = sr_id r \<and> has_area q"
      by (rule bexI[OF _ q(2)]) (use q(1,3) r(1) in simp)
    from docked_area[OF assms(1) r(2) this] r(3) show False by simp
  qed
  moreover have "find_slot t' = (\<lambda>x. case find_slot target x of Some c \<Rightarrow> Some c | None \<Rightarrow> find_slot inc x)" by (rule ext) (rule D(3))
  ultimately show ?thesis using D(1,2,4) by (intro conjI)
qed

theorem dock_inserts_block_witness:
  "\<exists>t'. docked_tree rat_metric 7 (Split 9 LeftRight (1 / 2) (Slot 1 Empty) (Slot 2 AgentList)) (AnchorSlot 2) DockTop (Slot 3 PresetPalette) (1 / 3) = Inr t' \<and>
     slot_ids t' = [1, 3, 2] \<and> find_slot t' 3 = Some PresetPalette"
proof -
  let ?t = "Split 9 LeftRight (1 / 2) (Slot 1 Empty) (Slot 2 AgentList)" and ?i = "Slot 3 PresetPalette"
  let ?r = "Split 9 LeftRight (1 / 2) (Slot 1 Empty) (Split 7 TopBottom (1 / 3) ?i (Slot 2 AgentList))"
  have d: "docked_tree rat_metric 7 ?t (AnchorSlot 2) DockTop ?i (1 / 3) = Inr ?r"
    by (simp add: docked_tree_def dock_wrap_def compute_def has_area_def unit_rect_def rat_metric_def Let_def)
  from dock_inserts_block[OF d] have "slot_ids ?r = [1, 3, 2]" "find_slot ?r 3 = Some PresetPalette" by simp_all
  with d show ?thesis by blast
qed

end
