(* ===== verification/Window_Number.thy ===== *)
theory Window_Number
  imports Eg_Prelude
begin

text \<open>
  Window numbers, \<^verbatim>\<open>src-tauri/src/layout/numbering.rs\<close>: the smallest free number, the reading of one saved
  number and the repair of a list of saved numbers. Numbers are \<^typ>\<open>nat\<close>: \<open>smallest_free_exact\<close> bounds the one
  that is given by the number of those held, so the \<^verbatim>\<open>u32\<close> of the code is left only with as many windows.
  The \<^verbatim>\<open>BTreeSet\<close> of the code is iterated in increasing order without repetition.
\<close>

section \<open>Numbers\<close>

definition MAIN_WINDOW_NUMBER :: nat where
  "MAIN_WINDOW_NUMBER = 1"

definition MAX_SAVED_NUMBER :: nat where
  "MAX_SAVED_NUMBER = 999"

definition in_saved_range :: "nat \<Rightarrow> bool" where
  "in_saved_range n \<longleftrightarrow> 1 \<le> n \<and> n \<le> MAX_SAVED_NUMBER"

fun free_loop :: "nat \<Rightarrow> nat list \<Rightarrow> nat" where
  "free_loop want [] = want"
| "free_loop want (n # ns) = (if n \<noteq> want then want else free_loop (want + 1) ns)"

definition smallest_free :: "nat list \<Rightarrow> nat" where
  "smallest_free held = free_loop (MAIN_WINDOW_NUMBER + 1) (filter (\<lambda>n. MAIN_WINDOW_NUMBER + 1 \<le> n) (sort (remdups held)))"

text \<open>The argument is what \<^verbatim>\<open>Value::as_u64\<close> reads from the saved field.\<close>

definition saved_number :: "nat option \<Rightarrow> nat option" where
  "saved_number raw = (case raw of None \<Rightarrow> None | Some n \<Rightarrow> if n < 2 ^ 32 \<and> in_saved_range n then Some n else None)"

fun keep_loop :: "nat list \<Rightarrow> nat option list \<Rightarrow> nat option list \<times> nat list" where
  "keep_loop taken [] = ([], taken)"
| "keep_loop taken (s # ss) = (case s of
     None \<Rightarrow> (let (ks, t) = keep_loop taken ss in (None # ks, t))
   | Some n \<Rightarrow>
       if in_saved_range n \<and> n \<noteq> MAIN_WINDOW_NUMBER \<and> n \<notin> set taken
       then (let (ks, t) = keep_loop (n # taken) ss in (Some n # ks, t))
       else (let (ks, t) = keep_loop taken ss in (None # ks, t)))"

fun fill_loop :: "nat list \<Rightarrow> nat option list \<Rightarrow> nat list" where
  "fill_loop taken [] = []"
| "fill_loop taken (Some n # ks) = n # fill_loop taken ks"
| "fill_loop taken (None # ks) = (let n = smallest_free taken in n # fill_loop (n # taken) ks)"

definition resolve_saved :: "nat option list \<Rightarrow> nat list \<Rightarrow> nat list" where
  "resolve_saved saved held = (let (kept, taken) = keep_loop held saved in fill_loop taken kept)"

section \<open>Laws\<close>

lemma free_loop_least:
  assumes "sorted ns" "distinct ns" "\<forall>n \<in> set ns. want \<le> n"
  shows "want \<le> free_loop want ns \<and> free_loop want ns \<notin> set ns \<and> {want..<free_loop want ns} \<subseteq> set ns \<and> free_loop want ns \<le> want + length ns"
  using assms
proof (induction want ns rule: free_loop.induct)
  case (2 want n ns)
  show ?case
  proof (cases "n = want")
    case True
    have "want + 1 \<le> m" if "m \<in> set ns" for m
    proof -
      have "want \<le> m" "m \<noteq> want" using 2(3,4) True that by auto
      then show ?thesis by simp
    qed
    with 2(1) 2(2,3) True have IH: "want + 1 \<le> free_loop (want + 1) ns" "free_loop (want + 1) ns \<notin> set ns"
      "{want + 1..<free_loop (want + 1) ns} \<subseteq> set ns" "free_loop (want + 1) ns \<le> want + 1 + length ns" by simp_all
    have "{want..<free_loop (want + 1) ns} = insert want {want + 1..<free_loop (want + 1) ns}" using IH(1) by auto
    with IH True show ?thesis by auto
  next
    case False
    with 2(2-4) show ?thesis by force
  qed
qed simp

lemma smallest_free_exact:
  "2 \<le> smallest_free held" "smallest_free held \<notin> set held" "\<And>n. 2 \<le> n \<Longrightarrow> n < smallest_free held \<Longrightarrow> n \<in> set held"
  "smallest_free held \<le> 2 + length held"
proof -
  let ?ns = "filter (\<lambda>n. 2 \<le> n) (sort (remdups held))"
  have s: "smallest_free held = free_loop 2 ?ns" by (simp add: smallest_free_def MAIN_WINDOW_NUMBER_def numeral_2_eq_2)
  have "length ?ns \<le> length held" by (metis length_filter_le length_remdups_leq length_sort order_trans)
  moreover have F: "2 \<le> free_loop 2 ?ns \<and> free_loop 2 ?ns \<notin> set ?ns \<and> {2..<free_loop 2 ?ns} \<subseteq> set ?ns \<and> free_loop 2 ?ns \<le> 2 + length ?ns"
    by (rule free_loop_least) (simp_all add: sorted_filter[where f = "\<lambda>x. x", simplified])
  ultimately show "2 \<le> smallest_free held" "smallest_free held \<notin> set held" "smallest_free held \<le> 2 + length held" by (auto simp: s)
  show "n \<in> set held" if "2 \<le> n" "n < smallest_free held" for n
    using F that by (auto simp: s subset_iff)
qed

lemma keep_laws:
  assumes "keep_loop taken saved = (kept, taken')"
  shows "length kept = length saved \<and> set taken' = set taken \<union> {n. Some n \<in> set kept} \<and>
    distinct (List.map_filter (\<lambda>x. x) kept) \<and> (\<forall>n. Some n \<in> set kept \<longrightarrow> n \<notin> set taken \<and> 2 \<le> n)"
  using assms
proof (induction taken saved arbitrary: kept taken' rule: keep_loop.induct)
  case (2 taken s ss)
  show ?case
  proof (cases "\<exists>n. s = Some n \<and> in_saved_range n \<and> n \<noteq> MAIN_WINDOW_NUMBER \<and> n \<notin> set taken")
    case True
    then obtain n where n: "s = Some n" "in_saved_range n" "n \<noteq> MAIN_WINDOW_NUMBER" "n \<notin> set taken" by blast
    then obtain ks where k: "keep_loop (n # taken) ss = (ks, taken')" "kept = Some n # ks" using 2(4) by (auto split: prod.splits)
    have "2 \<le> n" using n(2,3) by (auto simp: in_saved_range_def MAIN_WINDOW_NUMBER_def)
    moreover have "n \<notin> set (List.map_filter (\<lambda>x. x) ks)" using 2(2)[OF n(1) _ k(1)] n by (auto simp: List.map_filter_def)
    ultimately show ?thesis using 2(2)[OF n(1) _ k(1)] n k(2) by (auto simp: List.map_filter_simps)
  next
    case False
    then obtain ks where k: "keep_loop taken ss = (ks, taken')" "kept = None # ks" using 2(4) by (auto split: prod.splits option.splits if_splits)
    have "length ks = length ss \<and> set taken' = set taken \<union> {n. Some n \<in> set ks} \<and>
      distinct (List.map_filter (\<lambda>x. x) ks) \<and> (\<forall>n. Some n \<in> set ks \<longrightarrow> n \<notin> set taken \<and> 2 \<le> n)"
    proof (cases s)
      case None
      then show ?thesis using 2(1)[OF None k(1)] by simp
    next
      case (Some n)
      then have "\<not> (in_saved_range n \<and> n \<noteq> MAIN_WINDOW_NUMBER \<and> n \<notin> set taken)" using False by blast
      from 2(3)[OF Some this k(1)] show ?thesis .
    qed
    with k(2) show ?thesis by (simp add: List.map_filter_simps)
  qed
qed (simp add: List.map_filter_simps)

lemma keep_first:
  assumes "keep_loop taken saved = (kept, taken')" "i < length saved"
  shows "kept ! i = (case saved ! i of None \<Rightarrow> None
    | Some n \<Rightarrow> if in_saved_range n \<and> n \<noteq> MAIN_WINDOW_NUMBER \<and> n \<notin> set taken \<and> Some n \<notin> set (take i saved) then Some n else None)"
  using assms
proof (induction taken saved arbitrary: kept taken' i rule: keep_loop.induct)
  case (2 taken s ss)
  show ?case
  proof (cases i)
    case 0
    then show ?thesis using 2(4) by (auto split: prod.splits option.splits if_splits)
  next
    case (Suc j)
    with 2 show ?thesis
      by (cases s) (auto split: prod.splits if_splits option.splits)
  qed
qed simp

lemma fill_laws:
  assumes "distinct (List.map_filter (\<lambda>x. x) kept)" "\<forall>n. Some n \<in> set kept \<longrightarrow> n \<in> set taken \<and> 2 \<le> n"
  shows "length (fill_loop taken kept) = length kept \<and> distinct (fill_loop taken kept) \<and>
    (\<forall>n \<in> set (fill_loop taken kept). 2 \<le> n \<and> (n \<in> set taken \<longrightarrow> Some n \<in> set kept)) \<and>
    (\<forall>i < length kept. \<forall>n. kept ! i = Some n \<longrightarrow> fill_loop taken kept ! i = n)"
  using assms
proof (induction taken kept rule: fill_loop.induct)
  case (2 taken n ks)
  have "n \<notin> set (fill_loop taken ks)"
  proof
    assume m: "n \<in> set (fill_loop taken ks)"
    have "Some n \<in> set ks" using 2 m by (auto simp: List.map_filter_simps)
    then show False using 2(2) by (force simp: List.map_filter_simps List.map_filter_def)
  qed
  with 2 show ?case by (auto simp: List.map_filter_simps nth_Cons split: nat.splits)
next
  case (3 taken ks)
  let ?n = "smallest_free taken"
  have n: "?n \<notin> set taken" "2 \<le> ?n" using smallest_free_exact by blast+
  have IH: "length (fill_loop (?n # taken) ks) = length ks \<and> distinct (fill_loop (?n # taken) ks) \<and>
    (\<forall>n \<in> set (fill_loop (?n # taken) ks). 2 \<le> n \<and> (n \<in> set (?n # taken) \<longrightarrow> Some n \<in> set ks)) \<and>
    (\<forall>i < length ks. \<forall>n. ks ! i = Some n \<longrightarrow> fill_loop (?n # taken) ks ! i = n)"
    by (rule 3(1)) (use 3(2,3) in \<open>auto simp: List.map_filter_simps\<close>)
  have "?n \<notin> set (fill_loop (?n # taken) ks)" using IH n(1) 3(3) by auto
  with IH n show ?case by (auto simp: Let_def nth_Cons split: nat.splits)
qed (simp add: List.map_filter_simps)

lemma resolve_laws:
  fixes saved held
  defines "numbers \<equiv> resolve_saved saved held"
  shows "length numbers = length saved" "distinct numbers" "set numbers \<inter> set held = {}" "\<forall>n \<in> set numbers. 2 \<le> n"
    "\<And>i n. i < length saved \<Longrightarrow> saved ! i = Some n \<Longrightarrow> 2 \<le> n \<Longrightarrow> n \<le> MAX_SAVED_NUMBER \<Longrightarrow> n \<notin> set held \<Longrightarrow> Some n \<notin> set (take i saved)
      \<Longrightarrow> numbers ! i = n"
proof -
  obtain kept taken where k: "keep_loop held saved = (kept, taken)" by fastforce
  note K = keep_laws[OF k]
  have F: "length (fill_loop taken kept) = length kept \<and> distinct (fill_loop taken kept) \<and>
    (\<forall>n \<in> set (fill_loop taken kept). 2 \<le> n \<and> (n \<in> set taken \<longrightarrow> Some n \<in> set kept)) \<and>
    (\<forall>i < length kept. \<forall>n. kept ! i = Some n \<longrightarrow> fill_loop taken kept ! i = n)"
    by (rule fill_laws) (use K in auto)
  have n: "numbers = fill_loop taken kept" by (simp add: numbers_def resolve_saved_def k)
  show "length numbers = length saved" "distinct numbers" "\<forall>n \<in> set numbers. 2 \<le> n" using F K by (simp_all add: n)
  show "set numbers \<inter> set held = {}" using F K by (auto simp: n)
  show "numbers ! i = m" if "i < length saved" "saved ! i = Some m" "2 \<le> m" "m \<le> MAX_SAVED_NUMBER" "m \<notin> set held" "Some m \<notin> set (take i saved)" for i m
    using F K keep_first[OF k that(1)] that by (simp add: n in_saved_range_def MAIN_WINDOW_NUMBER_def)
qed

section \<open>Properties\<close>

text \<open>Repairing saved window numbers: every window gets a number, no two the same, none that another window
  holds and never the one of the main window; a window keeps the number it was saved with whenever that is
  usable, and only the first of several windows saved with the same number keeps it; a number that is given anew
  is the smallest that is free.\<close>

theorem saved_numbers_repaired:
  "length (resolve_saved saved held) = length saved \<and> distinct (resolve_saved saved held) \<and>
   set (resolve_saved saved held) \<inter> set (MAIN_WINDOW_NUMBER # held) = {} \<and>
   {i. i < length saved \<and> (\<exists>n. saved ! i = Some n \<and> 2 \<le> n \<and> n \<le> MAX_SAVED_NUMBER \<and> n \<notin> set held \<and> Some n \<notin> set (take i saved))}
     \<subseteq> {i. saved ! i = Some (resolve_saved saved held ! i)} \<and>
   smallest_free held \<notin> set held \<and> {2..<smallest_free held} \<subseteq> set held \<and> smallest_free held \<in> {2..2 + length held}"
proof -
  have "MAIN_WINDOW_NUMBER \<notin> set (resolve_saved saved held)" using resolve_laws(4)[where saved = saved and held = held] by (auto simp: MAIN_WINDOW_NUMBER_def)
  then show ?thesis using resolve_laws[where saved = saved and held = held] smallest_free_exact[where held = held] by auto
qed

end
