(* ===== verification/View_Model.thy ===== *)
theory View_Model
  imports Layout_Geometry Window_Number "HOL-Library.List_Lexorder"
begin

text \<open>
  The layout authority of the shell, \<^verbatim>\<open>src-tauri/src/layout/manager.rs\<close>: windows that own tabs, the views they
  show, the numbers of live and closing windows, the side table of slot contents this version cannot read, and
  every operation on them; the visible tab names of \<^verbatim>\<open>src-tauri/src/layout/tab_name.rs\<close>.

  An operation returns its result and the new state, also when the result is an error. Identifiers the code draws
  at random (\<open>nview\<close>, \<open>nslot\<close>, \<open>nsplit\<close>, \<open>nwin\<close>) are arguments. Floating-point numbers are values of the type \<open>'f\<close>,
  the arithmetic on them is the record \<open>metric\<close> of \<open>Layout_Geometry\<close>; a JSON object is a value of the type \<open>'j\<close>.
  A hash map is an association list.
\<close>

section \<open>Types\<close>

type_synonym view_id = uuid
type_synonym window_label = ustr

definition MAIN_WINDOW_LABEL :: window_label where
  "MAIN_WINDOW_LABEL = lit ''main''"

datatype tab_name = TabAuto | TabNamed ustr

definition tab_named :: "ustr \<Rightarrow> tab_name option" where
  "tab_named name = (if str_trim name \<noteq> [] then Some (TabNamed name) else None)"

fun tab_is_named :: "tab_name \<Rightarrow> bool" where
  "tab_is_named (TabNamed _) = True"
| "tab_is_named TabAuto = False"

record 'f view =
  vw_id :: view_id
  vw_name :: tab_name
  vw_layout :: "'f layout_node"
  vw_focused :: "uuid option"

datatype layout_error = ViewNotFound uuid | SlotNotFound uuid | WindowNotFound window_label | WindowClosed window_label
  | MainNotClosable | InvalidMetrics | SplitNotFound uuid | InvalidRatio | SplitTooDeep | EmptyName

datatype split_ratio_outcome = Applied | Unchanged | TooSmall

record 'f split_ratio_result =
  rr_ratio :: 'f
  rr_outcome :: split_ratio_outcome

record canvas_px =
  cv_w :: nat
  cv_h :: nat

record 'f ui_metrics =
  um_insets :: "'f list"
  um_min_pane :: nat

datatype ui_theme = Dark | Light | EInk

record 'f window_bounds =
  wb_x :: 'f
  wb_y :: 'f
  wb_w :: 'f
  wb_h :: 'f

record 'f window_placement =
  wp_minimized :: bool
  wp_maximized :: bool
  wp_bounds :: "'f window_bounds option"

record 'f window_attrs =
  wa_theme :: "ui_theme option"
  wa_bounds :: "'f window_bounds option"
  wa_maximized :: bool

definition attrs_default :: "'f window_attrs" where
  "attrs_default = \<lparr>wa_theme = None, wa_bounds = None, wa_maximized = False\<rparr>"

type_synonym 'f placement_memo = "('f window_bounds \<times> 'f window_bounds option) option"

definition observe_attrs :: "'f window_placement \<Rightarrow> 'f placement_memo \<Rightarrow> 'f window_attrs \<Rightarrow> bool \<times> 'f placement_memo \<times> 'f window_attrs" where
  "observe_attrs seen memo attrs = (
     let (memo', attrs') =
       (if wp_minimized seen then (None, attrs)
        else
          let a1 = attrs\<lparr>wa_maximized := wp_maximized seen\<rparr>
          in if wp_maximized seen
             then (None, case memo of
                     Some (written, prior) \<Rightarrow> (case wp_bounds seen of
                         Some now \<Rightarrow> if written = now then a1\<lparr>wa_bounds := prior\<rparr> else a1
                       | None \<Rightarrow> a1)
                   | None \<Rightarrow> a1)
             else (case wp_bounds seen of
                     Some bounds \<Rightarrow> (Some (bounds, wa_bounds a1), a1\<lparr>wa_bounds := Some bounds\<rparr>)
                   | None \<Rightarrow> (None, a1)))
     in (attrs' \<noteq> attrs, memo', attrs'))"

record 'f window_tabs =
  wt_tabs :: "view_id list"
  wt_active :: view_id
  wt_canvas :: "canvas_px option"
  wt_metrics :: "'f ui_metrics option"
  wt_window_id :: ustr
  wt_number :: nat
  wt_attrs :: "'f window_attrs"
  wt_memo :: "'f placement_memo"

definition window_new :: "ustr \<Rightarrow> nat \<Rightarrow> 'f window_attrs \<Rightarrow> view_id list \<Rightarrow> view_id \<Rightarrow> 'f window_tabs" where
  "window_new wid num attrs tabs active = \<lparr>wt_tabs = tabs, wt_active = active, wt_canvas = None, wt_metrics = None,
     wt_window_id = wid, wt_number = num, wt_attrs = attrs, wt_memo = None\<rparr>"

definition window_new_main :: "'f window_attrs \<Rightarrow> view_id list \<Rightarrow> view_id \<Rightarrow> 'f window_tabs" where
  "window_new_main attrs tabs active = window_new MAIN_WINDOW_LABEL MAIN_WINDOW_NUMBER attrs tabs active"

definition window_new_popout :: "ustr \<Rightarrow> nat \<Rightarrow> view_id \<Rightarrow> 'f window_tabs" where
  "window_new_popout nwin num v = window_new nwin num attrs_default [v] v"

datatype os_window = OsAlive | OsGone

record closing_window =
  co_window_id :: ustr
  co_number :: nat

record 'f restored_window =
  rw_attrs :: "'f window_attrs"
  rw_tabs :: "'f view list"
  rw_active :: "view_id option"
  rw_number :: "nat option"

record ('f, 'j) view_manager =
  vm_views :: "(view_id \<times> 'f view) list"
  vm_owner :: "(view_id \<times> window_label) list"
  vm_windows :: "(window_label \<times> 'f window_tabs) list"
  vm_version :: u64
  vm_attrs_rev :: u64
  vm_unknown :: "(view_id \<times> (uuid \<times> 'j) list) list"
  vm_closed_labels :: "window_label list"
  vm_closing :: "(window_label \<times> closing_window) list"
  vm_agent_names :: "(ustr \<times> ustr) list"

type_synonym ('f, 'j, 'a) vm_result = "(layout_error + 'a) \<times> ('f, 'j) view_manager"

abbreviation find_view :: "('f, 'j) view_manager \<Rightarrow> view_id \<Rightarrow> 'f view option" where
  "find_view vm \<equiv> map_of (vm_views vm)"

abbreviation find_window :: "('f, 'j) view_manager \<Rightarrow> window_label \<Rightarrow> 'f window_tabs option" where
  "find_window vm \<equiv> map_of (vm_windows vm)"

section \<open>Window entries\<close>

definition vm_blank :: "('f, 'j) view_manager" where
  "vm_blank = \<lparr>vm_views = [], vm_owner = [], vm_windows = [], vm_version = 0, vm_attrs_rev = 0, vm_unknown = [], vm_closed_labels = [],
     vm_closing = [], vm_agent_names = []\<rparr>"

definition held_numbers :: "('f, 'j) view_manager \<Rightarrow> nat list" where
  "held_numbers vm = map (\<lambda>(_, w). wt_number w) (vm_windows vm) @ map (\<lambda>(_, c). co_number c) (vm_closing vm)"

definition insert_window_entry :: "window_label \<Rightarrow> 'f window_tabs \<Rightarrow> ('f, 'j) view_manager \<Rightarrow> ('f, 'j) view_manager" where
  "insert_window_entry label entry vm = vm\<lparr>vm_windows := AList.update label entry (vm_windows vm)\<rparr>"

definition insert_new_popout :: "ustr \<Rightarrow> window_label \<Rightarrow> view_id \<Rightarrow> ('f, 'j) view_manager \<Rightarrow> ('f, 'j) view_manager" where
  "insert_new_popout nwin label v vm = insert_window_entry label (window_new_popout nwin (smallest_free (held_numbers vm)) v) vm"

definition retire_window_entry :: "window_label \<Rightarrow> os_window \<Rightarrow> ('f, 'j) view_manager \<Rightarrow> 'f window_tabs option \<times> ('f, 'j) view_manager" where
  "retire_window_entry label os vm = (case find_window vm label of
     None \<Rightarrow> (None, vm)
   | Some entry \<Rightarrow>
       let vm1 = vm\<lparr>vm_windows := AList.delete label (vm_windows vm)\<rparr>
       in (Some entry, if os = OsAlive
             then vm1\<lparr>vm_closing := AList.update label \<lparr>co_window_id = wt_window_id entry, co_number = wt_number entry\<rparr> (vm_closing vm1)\<rparr>
             else vm1))"

definition release_closing :: "window_label \<Rightarrow> ('f, 'j) view_manager \<Rightarrow> bool \<times> ('f, 'j) view_manager" where
  "release_closing label vm = (map_of (vm_closing vm) label \<noteq> None, vm\<lparr>vm_closing := AList.delete label (vm_closing vm)\<rparr>)"

definition closing_label_for :: "(ustr \<Rightarrow> uuid option) \<Rightarrow> ustr \<Rightarrow> ('f, 'j) view_manager \<Rightarrow> window_label option" where
  "closing_label_for parse wid vm = (case find (\<lambda>(_, c). co_window_id c = wid) (vm_closing vm) of
     Some (label, _) \<Rightarrow> Some label
   | None \<Rightarrow> (case parse wid of
         None \<Rightarrow> None
       | Some i \<Rightarrow> map_option fst (find (\<lambda>(_, c). parse (co_window_id c) = Some i) (vm_closing vm))))"

section \<open>Helpers\<close>

definition fixup_focus :: "'f view \<Rightarrow> 'f view" where
  "fixup_focus v = (
     if (case vw_focused v of None \<Rightarrow> False | Some f \<Rightarrow> contains_slot (vw_layout v) f) then v
     else v\<lparr>vw_focused := Some (first_slot_id (vw_layout v))\<rparr>)"

definition bump_version :: "('f, 'j) view_manager \<Rightarrow> ('f, 'j) view_manager" where
  "bump_version vm = vm\<lparr>vm_version := vm_version vm + 1\<rparr>"

definition put_view :: "'f view \<Rightarrow> view_id \<Rightarrow> ('f, 'j) view_manager \<Rightarrow> ('f, 'j) view_manager" where
  "put_view v i vm = vm\<lparr>vm_views := AList.update i v (vm_views vm)\<rparr>"

definition set_owner :: "view_id \<Rightarrow> window_label \<Rightarrow> ('f, 'j) view_manager \<Rightarrow> ('f, 'j) view_manager" where
  "set_owner v label vm = vm\<lparr>vm_owner := AList.update v label (vm_owner vm)\<rparr>"

definition map_window :: "window_label \<Rightarrow> ('f window_tabs \<Rightarrow> 'f window_tabs) \<Rightarrow> ('f, 'j) view_manager \<Rightarrow> ('f, 'j) view_manager" where
  "map_window label f vm = (case find_window vm label of None \<Rightarrow> vm | Some w \<Rightarrow> vm\<lparr>vm_windows := AList.update label (f w) (vm_windows vm)\<rparr>)"

definition unknown_content :: "view_id \<Rightarrow> uuid \<Rightarrow> ('f, 'j) view_manager \<Rightarrow> 'j option" where
  "unknown_content v s vm = (case map_of (vm_unknown vm) v of None \<Rightarrow> None | Some slots \<Rightarrow> map_of slots s)"

definition remember_unknown :: "view_id \<Rightarrow> uuid \<Rightarrow> 'j \<Rightarrow> ('f, 'j) view_manager \<Rightarrow> ('f, 'j) view_manager" where
  "remember_unknown v s raw vm = vm\<lparr>vm_unknown := AList.update v (AList.update s raw (alist_get [] (vm_unknown vm) v)) (vm_unknown vm)\<rparr>"

definition forget_unknown :: "view_id \<Rightarrow> uuid \<Rightarrow> ('f, 'j) view_manager \<Rightarrow> ('f, 'j) view_manager" where
  "forget_unknown v s vm = (case map_of (vm_unknown vm) v of
     None \<Rightarrow> vm
   | Some slots \<Rightarrow>
       let slots' = AList.delete s slots
       in vm\<lparr>vm_unknown := (if slots' = [] then AList.delete v (vm_unknown vm) else AList.update v slots' (vm_unknown vm))\<rparr>)"

definition remove_view :: "view_id \<Rightarrow> ('f, 'j) view_manager \<Rightarrow> ('f, 'j) view_manager" where
  "remove_view v vm = vm\<lparr>vm_views := AList.delete v (vm_views vm), vm_owner := AList.delete v (vm_owner vm), vm_unknown := AList.delete v (vm_unknown vm)\<rparr>"

definition make_view :: "view_id \<Rightarrow> uuid \<Rightarrow> ('f, 'j) view_manager \<Rightarrow> ('f, 'j) view_manager" where
  "make_view nview nslot vm = (
     let first_slot = new_empty_slot nslot
     in put_view \<lparr>vw_id = nview, vw_name = TabAuto, vw_layout = first_slot, vw_focused = Some (first_slot_id first_slot)\<rparr> nview vm)"

definition write_slot_content :: "view_id \<Rightarrow> uuid \<Rightarrow> slot_content \<Rightarrow> ('f, 'j) view_manager \<Rightarrow> ('f, 'j, unit) vm_result" where
  "write_slot_content i s content vm = (case find_view vm i of
     None \<Rightarrow> (Inl (ViewNotFound i), vm)
   | Some v \<Rightarrow> (case set_in_tree (vw_layout v) s content of
         (True, layout) \<Rightarrow> (Inr (), forget_unknown i s (put_view (v\<lparr>vw_layout := layout\<rparr>) i vm))
       | (False, layout) \<Rightarrow> (Inl (SlotNotFound s), put_view (v\<lparr>vw_layout := layout\<rparr>) i vm)))"

section \<open>Construction\<close>

definition vm_new :: "view_id \<Rightarrow> uuid \<Rightarrow> ('f, 'j) view_manager" where
  "vm_new nview nslot = insert_window_entry MAIN_WINDOW_LABEL (window_new_main attrs_default [nview] nview)
     (set_owner nview MAIN_WINDOW_LABEL (make_view nview nslot vm_blank))"

fun adopt_loop :: "window_label \<Rightarrow> 'f view list \<Rightarrow> ('f, 'j) view_manager \<Rightarrow> bool \<times> ('f, 'j) view_manager" where
  "adopt_loop label [] vm = (True, vm)"
| "adopt_loop label (v # vs) vm = (
     if find_view vm (vw_id v) \<noteq> None then (False, vm)
     else adopt_loop label vs (put_view (fixup_focus v) (vw_id v) (set_owner (vw_id v) label vm)))"

definition adopt_tabs :: "window_label \<Rightarrow> 'f view list \<Rightarrow> view_id option \<Rightarrow> ('f, 'j) view_manager
    \<Rightarrow> (view_id list \<times> view_id) option \<times> ('f, 'j) view_manager" where
  "adopt_tabs label tabs active vm = (
     let ids = map vw_id tabs
     in case active of
          None \<Rightarrow> (None, vm)
        | Some act \<Rightarrow>
            if act \<notin> set ids then (None, vm)
            else (case adopt_loop label tabs vm of (True, vm') \<Rightarrow> (Some (ids, act), vm') | (False, vm') \<Rightarrow> (None, vm')))"

fun restore_popouts :: "(window_label \<times> ustr \<times> 'f restored_window) list \<Rightarrow> nat list \<Rightarrow> ('f, 'j) view_manager \<Rightarrow> ('f, 'j) view_manager option" where
  "restore_popouts [] numbers vm = Some vm"
| "restore_popouts (p # ps) [] vm = Some vm"
| "restore_popouts ((label, wid, w) # ps) (num # numbers) vm = (
     if find_window vm label \<noteq> None then None
     else if rw_tabs w = [] then None
     else case adopt_tabs label (rw_tabs w) (rw_active w) vm of
            (None, _) \<Rightarrow> None
          | (Some (tabs, active), vm') \<Rightarrow> restore_popouts ps numbers (insert_window_entry label (window_new wid num (rw_attrs w) tabs active) vm'))"

definition from_restored :: "view_id \<Rightarrow> uuid \<Rightarrow> 'f restored_window \<Rightarrow> (window_label \<times> ustr \<times> 'f restored_window) list
    \<Rightarrow> ('f, 'j) view_manager option" where
  "from_restored nview nslot main popouts = (
     let main_window = (if rw_tabs main = []
           then Some (window_new_main (rw_attrs main) [nview] nview, set_owner nview MAIN_WINDOW_LABEL (make_view nview nslot vm_blank))
           else (case adopt_tabs MAIN_WINDOW_LABEL (rw_tabs main) (rw_active main) vm_blank of
                   (None, _) \<Rightarrow> None
                 | (Some (tabs, active), vm) \<Rightarrow> Some (window_new_main (rw_attrs main) tabs active, vm)))
     in case main_window of
          None \<Rightarrow> None
        | Some (w, vm) \<Rightarrow> restore_popouts popouts (resolve_saved (map (\<lambda>(_, _, p). rw_number p) popouts) [MAIN_WINDOW_NUMBER])
            (insert_window_entry MAIN_WINDOW_LABEL w vm))"

section \<open>Names\<close>

datatype shell_word = WordEmptySlot | WordAgentUnknown | WordAgentTree | WordPresets | WordUsage | WordForeign

text \<open>The Korean words, by their code points.\<close>

fun shell_word_text :: "shell_word \<Rightarrow> ustr" where
  "shell_word_text WordEmptySlot = [48712, 32, 52856]"
| "shell_word_text WordAgentUnknown = [50640, 51060, 51204, 53944]"
| "shell_word_text WordAgentTree = [50640, 51060, 51204, 53944, 32, 53944, 47532]"
| "shell_word_text WordPresets = [54532, 47532, 49483]"
| "shell_word_text WordUsage = [49324, 50857, 47049]"
| "shell_word_text WordForeign = [50508, 32, 49688, 32, 50630, 45716, 32, 45236, 50857]"

definition is_word :: "ustr \<Rightarrow> bool" where
  "is_word text \<longleftrightarrow> list_ex (\<lambda>w. shell_word_text w = text) [WordEmptySlot, WordAgentUnknown, WordAgentTree, WordPresets, WordUsage, WordForeign]"

fun slot_label :: "slot_content \<Rightarrow> (ustr \<Rightarrow> ustr option) \<Rightarrow> ustr" where
  "slot_label Empty agent = shell_word_text WordEmptySlot"
| "slot_label (Agent a) agent = (case agent a of
     Some name \<Rightarrow> if str_trim name \<noteq> [] then name else shell_word_text WordAgentUnknown
   | None \<Rightarrow> shell_word_text WordAgentUnknown)"
| "slot_label AgentList agent = shell_word_text WordAgentTree"
| "slot_label PresetPalette agent = shell_word_text WordPresets"
| "slot_label (Usage _ _) agent = shell_word_text WordUsage"

definition effective_tab_name :: "('f, 'j) view_manager \<Rightarrow> 'f view \<Rightarrow> ustr" where
  "effective_tab_name vm v = (case vw_name v of
     TabNamed name \<Rightarrow> name
   | TabAuto \<Rightarrow>
       let s = (case vw_focused v of
                  Some f \<Rightarrow> if contains_slot (vw_layout v) f then f else first_slot_id (vw_layout v)
                | None \<Rightarrow> first_slot_id (vw_layout v))
       in if unknown_content (vw_id v) s vm \<noteq> None then shell_word_text WordForeign
          else case find_slot (vw_layout v) s of
                 Some content \<Rightarrow> slot_label content (map_of (vm_agent_names vm))
               | None \<Rightarrow> shell_word_text WordEmptySlot)"

definition update_agent_names :: "(ustr \<times> ustr) list \<Rightarrow> ('f, 'j) view_manager \<Rightarrow> window_label list \<times> ('f, 'j) view_manager" where
  "update_agent_names names vm = (
     let before = concat (map (\<lambda>(label, w). List.map_filter (\<lambda>i. case find_view vm i of
             Some v \<Rightarrow> if tab_is_named (vw_name v) then None else Some (label, vw_id v, effective_tab_name vm v)
           | None \<Rightarrow> None) (wt_tabs w)) (vm_windows vm));
         vm1 = vm\<lparr>vm_agent_names := fold (\<lambda>(a, name) m. AList.update a name m) names (vm_agent_names vm)\<rparr>;
         changed = map fst (filter (\<lambda>(_, i, old). case find_view vm1 i of Some v \<Rightarrow> effective_tab_name vm1 v \<noteq> old | None \<Rightarrow> False) before);
         labels = remdups (sort changed)
     in (labels, if labels \<noteq> [] then bump_version vm1 else vm1))"

definition seed_agent_names :: "(ustr \<times> ustr) list \<Rightarrow> ('f, 'j) view_manager \<Rightarrow> ('f, 'j) view_manager" where
  "seed_agent_names names vm = vm\<lparr>vm_agent_names :=
     fold (\<lambda>(a, name) m. if map_of m a = None then AList.update a name m else m) names (vm_agent_names vm)\<rparr>"

section \<open>Queries\<close>

record view_meta =
  ve_id :: view_id
  ve_name :: ustr
  ve_named :: bool

record window_tabs_snapshot =
  ws_label :: window_label
  ws_window_id :: ustr
  ws_number :: nat
  ws_tabs :: "view_meta list"
  ws_active :: view_id
  ws_version :: u64

definition list_tabs :: "window_label \<Rightarrow> ('f, 'j) view_manager \<Rightarrow> layout_error + window_tabs_snapshot" where
  "list_tabs label vm = (case find_window vm label of
     None \<Rightarrow> Inl (WindowNotFound label)
   | Some w \<Rightarrow> Inr \<lparr>ws_label = label, ws_window_id = wt_window_id w, ws_number = wt_number w,
         ws_tabs = List.map_filter (\<lambda>i. map_option (\<lambda>v. \<lparr>ve_id = vw_id v, ve_name = effective_tab_name vm v, ve_named = tab_is_named (vw_name v)\<rparr>)
             (find_view vm i)) (wt_tabs w),
         ws_active = wt_active w, ws_version = vm_version vm\<rparr>)"

definition list_windows :: "('f, 'j) view_manager \<Rightarrow> window_label list" where
  "list_windows vm = map fst (vm_windows vm)"

definition foreign_slots :: "'f view \<Rightarrow> ('f, 'j) view_manager \<Rightarrow> uuid list" where
  "foreign_slots v vm = (case map_of (vm_unknown vm) (vw_id v) of
     None \<Rightarrow> []
   | Some slots \<Rightarrow> filter (\<lambda>s. map_of slots s \<noteq> None) (slot_ids (vw_layout v)))"

definition slot_agent :: "view_id \<Rightarrow> uuid \<Rightarrow> ('f, 'j) view_manager \<Rightarrow> layout_error + ustr option" where
  "slot_agent i s vm = (case find_view vm i of
     None \<Rightarrow> Inl (ViewNotFound i)
   | Some v \<Rightarrow> (case find_slot (vw_layout v) s of None \<Rightarrow> Inl (SlotNotFound s) | Some content \<Rightarrow> Inr (content_agent_id content)))"

definition free_in :: "'f view \<Rightarrow> uuid \<Rightarrow> ('f, 'j) view_manager \<Rightarrow> bool option" where
  "free_in v s vm = (case find_slot (vw_layout v) s of
     None \<Rightarrow> None
   | Some content \<Rightarrow> Some (content_is_empty content \<and> unknown_content (vw_id v) s vm = None))"

definition slot_is_free :: "view_id \<Rightarrow> uuid \<Rightarrow> ('f, 'j) view_manager \<Rightarrow> layout_error + bool" where
  "slot_is_free i s vm = (case find_view vm i of
     None \<Rightarrow> Inl (ViewNotFound i)
   | Some v \<Rightarrow> (case free_in v s vm of None \<Rightarrow> Inl (SlotNotFound s) | Some b \<Rightarrow> Inr b))"

datatype spawn_slot_error = SpSlotOccupied uuid | SpSlotNotFound uuid | SpNoEmptySlot | SpViewNotFound uuid

definition resolve_spawn_slot :: "view_id \<Rightarrow> uuid option \<Rightarrow> ('f, 'j) view_manager \<Rightarrow> spawn_slot_error + uuid" where
  "resolve_spawn_slot i slot vm = (case find_view vm i of
     None \<Rightarrow> Inl (SpViewNotFound i)
   | Some v \<Rightarrow> (case slot of
         Some target \<Rightarrow> (case free_in v target vm of
             Some True \<Rightarrow> Inr target
           | Some False \<Rightarrow> Inl (SpSlotOccupied target)
           | None \<Rightarrow> Inl (SpSlotNotFound target))
       | None \<Rightarrow> (case find (\<lambda>s. free_in v s vm = Some True) (slot_ids (vw_layout v)) of
             Some s \<Rightarrow> Inr s
           | None \<Rightarrow> Inl SpNoEmptySlot)))"

definition owner_of :: "view_id \<Rightarrow> ('f, 'j) view_manager \<Rightarrow> window_label option" where
  "owner_of v vm = map_of (vm_owner vm) v"

definition view_list_splits :: "view_id \<Rightarrow> ('f, 'j) view_manager \<Rightarrow> layout_error + 'f split_info list" where
  "view_list_splits i vm = (case find_view vm i of None \<Rightarrow> Inl (ViewNotFound i) | Some v \<Rightarrow> Inr (list_splits (vw_layout v)))"

definition view_slot_content :: "view_id \<Rightarrow> uuid \<Rightarrow> ('f, 'j) view_manager \<Rightarrow> layout_error + slot_content" where
  "view_slot_content i s vm = (case find_view vm i of
     None \<Rightarrow> Inl (ViewNotFound i)
   | Some v \<Rightarrow> (case find_slot (vw_layout v) s of None \<Rightarrow> Inl (SlotNotFound s) | Some content \<Rightarrow> Inr content))"

definition px_context :: "view_id \<Rightarrow> ('f, 'j) view_manager \<Rightarrow> layout_error + (canvas_px \<times> 'f ui_metrics) option" where
  "px_context v vm = (
     if find_view vm v = None then Inl (ViewNotFound v)
     else Inr (case map_of (vm_owner vm) v of
         None \<Rightarrow> None
       | Some label \<Rightarrow> (case find_window vm label of
             None \<Rightarrow> None
           | Some w \<Rightarrow> (case (wt_canvas w, wt_metrics w) of (Some c, Some m) \<Rightarrow> Some (c, m) | _ \<Rightarrow> None))))"

definition window_attrs_of :: "window_label \<Rightarrow> ('f, 'j) view_manager \<Rightarrow> layout_error + 'f window_attrs" where
  "window_attrs_of label vm = (case find_window vm label of None \<Rightarrow> Inl (WindowNotFound label) | Some w \<Rightarrow> Inr (wt_attrs w))"

section \<open>Tabs and windows\<close>

text \<open>\<^verbatim>\<open>succession\<close>: the right neighbour of a tab that leaves, else the left one.\<close>

fun succession_from :: "view_id option \<Rightarrow> view_id list \<Rightarrow> view_id \<Rightarrow> view_id option" where
  "succession_from left [] removed = None"
| "succession_from left (t # ts) removed = (
     if t = removed then (case ts of r # _ \<Rightarrow> Some r | [] \<Rightarrow> left) else succession_from (Some t) ts removed)"

definition succession :: "view_id list \<Rightarrow> view_id \<Rightarrow> view_id option" where
  "succession tabs removed = succession_from None tabs removed"

datatype pulled = Stayed | PopoutRemoved | MainEmptied

definition pull_tab :: "window_label \<Rightarrow> view_id \<Rightarrow> view_id option \<Rightarrow> ('f, 'j) view_manager \<Rightarrow> pulled \<times> ('f, 'j) view_manager" where
  "pull_tab label v successor vm = (case find_window vm label of
     None \<Rightarrow> (Stayed, vm)
   | Some w \<Rightarrow>
       if v \<notin> set (wt_tabs w) then (Stayed, vm)
       else
         let heir = succession (wt_tabs w) v;
             tabs = remove1 v (wt_tabs w);
             chosen = (case successor of Some s \<Rightarrow> if s \<in> set tabs then Some s else heir | None \<Rightarrow> heir);
             active = (if wt_active w = v then (case chosen of Some h \<Rightarrow> h | None \<Rightarrow> wt_active w) else wt_active w);
             vm1 = vm\<lparr>vm_windows := AList.update label (w\<lparr>wt_tabs := tabs, wt_active := active\<rparr>) (vm_windows vm)\<rparr>
         in if tabs \<noteq> [] then (Stayed, vm1)
            else if label = MAIN_WINDOW_LABEL then (MainEmptied, vm1)
            else (PopoutRemoved, snd (retire_window_entry label OsAlive vm1)))"

definition refill_main :: "view_id \<Rightarrow> uuid \<Rightarrow> ('f, 'j) view_manager \<Rightarrow> ('f, 'j) view_manager" where
  "refill_main nview nslot vm = map_window MAIN_WINDOW_LABEL (\<lambda>w. w\<lparr>wt_tabs := wt_tabs w @ [nview], wt_active := nview\<rparr>)
     (set_owner nview MAIN_WINDOW_LABEL (make_view nview nslot vm))"

definition create_tab :: "view_id \<Rightarrow> uuid \<Rightarrow> window_label \<Rightarrow> ustr option \<Rightarrow> ('f, 'j) view_manager \<Rightarrow> ('f, 'j, view_id) vm_result" where
  "create_tab nview nslot label name vm = (
     if find_window vm label = None then (Inl (WindowNotFound label), vm)
     else case (case name of Some n \<Rightarrow> tab_named n | None \<Rightarrow> Some TabAuto) of
            None \<Rightarrow> (Inl EmptyName, vm)
          | Some tn \<Rightarrow>
              let vm1 = make_view nview nslot vm;
                  vm2 = (case find_view vm1 nview of None \<Rightarrow> vm1 | Some v \<Rightarrow> put_view (v\<lparr>vw_name := tn\<rparr>) nview vm1);
                  vm3 = map_window label (\<lambda>w. w\<lparr>wt_tabs := wt_tabs w @ [nview], wt_active := nview\<rparr>) (set_owner nview label vm2)
              in (Inr nview, bump_version vm3))"

definition create_window :: "view_id \<Rightarrow> uuid \<Rightarrow> ustr \<Rightarrow> window_label \<Rightarrow> ('f, 'j) view_manager \<Rightarrow> ('f, 'j, view_id) vm_result" where
  "create_window nview nslot nwin label vm = (
     if label \<in> set (vm_closed_labels vm) then (Inl (WindowClosed label), vm)
     else if find_window vm label \<noteq> None then (Inl (WindowNotFound label), vm)
     else (Inr nview, bump_version (insert_new_popout nwin label nview (set_owner nview label (make_view nview nslot vm)))))"

definition switch_tab :: "window_label \<Rightarrow> view_id \<Rightarrow> ('f, 'j) view_manager \<Rightarrow> ('f, 'j, unit) vm_result" where
  "switch_tab label v vm = (case find_window vm label of
     None \<Rightarrow> (Inl (WindowNotFound label), vm)
   | Some w \<Rightarrow>
       if v \<notin> set (wt_tabs w) then (Inl (ViewNotFound v), vm)
       else (Inr (), bump_version (map_window label (\<lambda>w. w\<lparr>wt_active := v\<rparr>) vm)))"

definition switch_tab_if :: "window_label \<Rightarrow> view_id \<Rightarrow> view_id \<Rightarrow> ('f, 'j) view_manager \<Rightarrow> ('f, 'j, bool) vm_result" where
  "switch_tab_if label v expect vm = (case find_window vm label of
     None \<Rightarrow> (Inl (WindowNotFound label), vm)
   | Some w \<Rightarrow>
       if v \<notin> set (wt_tabs w) then (Inl (ViewNotFound v), vm)
       else if wt_active w \<noteq> expect then (Inr False, vm)
       else (case switch_tab label v vm of (Inl e, vm') \<Rightarrow> (Inl e, vm') | (Inr _, vm') \<Rightarrow> (Inr True, vm')))"

datatype close_tab_outcome = CtStayed | CtWindowClosed

definition close_tab :: "view_id \<Rightarrow> uuid \<Rightarrow> window_label \<Rightarrow> view_id \<Rightarrow> ('f, 'j) view_manager \<Rightarrow> ('f, 'j, close_tab_outcome) vm_result" where
  "close_tab nview nslot label v vm = (case find_window vm label of
     None \<Rightarrow> (Inl (WindowNotFound label), vm)
   | Some w \<Rightarrow>
       if v \<notin> set (wt_tabs w) then (Inl (ViewNotFound v), vm)
       else (case pull_tab label v None (remove_view v vm) of
               (Stayed, vm1) \<Rightarrow> (Inr CtStayed, bump_version vm1)
             | (PopoutRemoved, vm1) \<Rightarrow> (Inr CtWindowClosed, bump_version vm1)
             | (MainEmptied, vm1) \<Rightarrow> (Inr CtStayed, bump_version (refill_main nview nslot vm1))))"

definition remove_window :: "window_label \<Rightarrow> os_window \<Rightarrow> ('f, 'j) view_manager \<Rightarrow> ('f, 'j, view_id list) vm_result" where
  "remove_window label os vm = (
     if label = MAIN_WINDOW_LABEL then (Inl MainNotClosable, vm)
     else case retire_window_entry label os vm of
            (None, vm1) \<Rightarrow> (Inl (WindowNotFound label), vm1)
          | (Some w, vm1) \<Rightarrow> (Inr (wt_tabs w), bump_version (fold remove_view (wt_tabs w) vm1)))"

definition close_window :: "window_label \<Rightarrow> ('f, 'j) view_manager \<Rightarrow> ('f, 'j, view_id list) vm_result" where
  "close_window label vm = remove_window label OsAlive vm"

definition drop_window_gone :: "window_label \<Rightarrow> ('f, 'j) view_manager \<Rightarrow> ('f, 'j, view_id list) vm_result" where
  "drop_window_gone label vm = remove_window label OsGone vm"

section \<open>Slots\<close>

definition split_slot :: "('f::linorder, 'f) metric \<Rightarrow> uuid \<Rightarrow> uuid \<Rightarrow> view_id \<Rightarrow> uuid \<Rightarrow> split_dir \<Rightarrow> ('f, 'j) view_manager \<Rightarrow> ('f, 'j, uuid) vm_result" where
  "split_slot mt nslot nsplit i s dir vm = (case find_view vm i of
     None \<Rightarrow> (Inl (ViewNotFound i), vm)
   | Some v \<Rightarrow>
       if (case find (\<lambda>r. sr_id r = s) (ge_slots (compute mt (vw_layout v))) of
             None \<Rightarrow> False
           | Some r \<Rightarrow>
               \<not> has_area r \<or>
               (let (lo, hi) = (case dir of LeftRight \<Rightarrow> (rx0 (sr_rect r), rx1 (sr_rect r)) | TopBottom \<Rightarrow> (ry0 (sr_rect r), ry1 (sr_rect r)));
                    brd = mt_boundary mt lo hi (mt_half mt)
                in \<not> (lo < brd \<and> brd < hi)))
       then (Inl SplitTooDeep, vm)
       else (case split_in_tree (mt_half mt) nslot nsplit (vw_layout v) s dir of
               (Some new_id, layout) \<Rightarrow> (Inr new_id, bump_version (put_view (v\<lparr>vw_layout := layout, vw_focused := Some new_id\<rparr>) i vm))
             | (None, layout) \<Rightarrow> (Inl (SlotNotFound s), put_view (v\<lparr>vw_layout := layout\<rparr>) i vm)))"

definition set_split_ratio :: "('f::linorder, 'f) metric \<Rightarrow> view_id \<Rightarrow> uuid \<Rightarrow> 'f \<Rightarrow> ('f, 'j) view_manager \<Rightarrow> ('f, 'j, 'f split_ratio_result) vm_result" where
  "set_split_ratio mt i split_id ratio vm = (
     if \<not> mt_finite mt ratio then (Inl InvalidRatio, vm)
     else case px_context i vm of
       Inl e \<Rightarrow> (Inl e, vm)
     | Inr px \<Rightarrow> (case find_view vm i of
         None \<Rightarrow> (Inl (ViewNotFound i), vm)
       | Some v \<Rightarrow> (case split_ratio (vw_layout v) split_id of
           None \<Rightarrow> (Inl (SplitNotFound split_id), vm)
         | Some current \<Rightarrow>
             let before = compute mt (vw_layout v)
             in case find (\<lambda>p. pr_id p = split_id) (ge_splits before) of
                  None \<Rightarrow> (Inl (SplitNotFound split_id), vm)
                | Some p \<Rightarrow>
                    let untouched = \<lparr>rr_ratio = current, rr_outcome = TooSmall\<rparr>;
                        limited = (case px of
                            None \<Rightarrow> Some (mt_clamp mt ratio)
                          | Some (canvas, metrics) \<Rightarrow> (case pr_dir p of
                                LeftRight \<Rightarrow> mt_px_clamp mt (cv_w canvas) (um_min_pane metrics) (rx0 (pr_rect p)) (rx1 (pr_rect p)) (mt_clamp mt ratio)
                              | TopBottom \<Rightarrow> mt_px_clamp mt (cv_h canvas) (um_min_pane metrics) (ry0 (pr_rect p)) (ry1 (pr_rect p)) (mt_clamp mt ratio)))
                    in case limited of
                         None \<Rightarrow> (Inr untouched, vm)
                       | Some wanted \<Rightarrow>
                           let candidate = snd (set_ratio_in_tree (vw_layout v) split_id wanted);
                               after = compute mt candidate
                           in if list_ex (\<lambda>(b, a). has_area b \<and> \<not> has_area a) (zip (ge_slots before) (ge_slots after)) then (Inr untouched, vm)
                              else if wanted = current then (Inr \<lparr>rr_ratio = wanted, rr_outcome = Unchanged\<rparr>, vm)
                              else (Inr \<lparr>rr_ratio = wanted, rr_outcome = Applied\<rparr>, bump_version (put_view (v\<lparr>vw_layout := candidate\<rparr>) i vm)))))"

definition set_focused_slot :: "view_id \<Rightarrow> uuid \<Rightarrow> ('f, 'j) view_manager \<Rightarrow> ('f, 'j, unit) vm_result" where
  "set_focused_slot i s vm = (case find_view vm i of
     None \<Rightarrow> (Inl (ViewNotFound i), vm)
   | Some v \<Rightarrow>
       if \<not> contains_slot (vw_layout v) s then (Inl (SlotNotFound s), vm)
       else (Inr (), bump_version (put_view (v\<lparr>vw_focused := Some s\<rparr>) i vm)))"

definition rename_tab :: "view_id \<Rightarrow> ustr \<Rightarrow> ('f, 'j) view_manager \<Rightarrow> ('f, 'j, unit) vm_result" where
  "rename_tab i name vm = (case find_view vm i of
     None \<Rightarrow> (Inl (ViewNotFound i), vm)
   | Some v \<Rightarrow> (case tab_named name of
         None \<Rightarrow> (Inl EmptyName, vm)
       | Some tn \<Rightarrow> (Inr (), bump_version (put_view (v\<lparr>vw_name := tn\<rparr>) i vm))))"

definition close_slot :: "uuid \<Rightarrow> view_id \<Rightarrow> uuid \<Rightarrow> ('f, 'j) view_manager \<Rightarrow> ('f, 'j, unit) vm_result" where
  "close_slot nslot i s vm = (case find_view vm i of
     None \<Rightarrow> (Inl (ViewNotFound i), vm)
   | Some v \<Rightarrow> (case close_in_tree nslot (vw_layout v) s of
         (False, layout) \<Rightarrow> (Inl (SlotNotFound s), put_view (v\<lparr>vw_layout := layout\<rparr>) i vm)
       | (True, layout) \<Rightarrow> (Inr (), bump_version (forget_unknown i s (put_view (fixup_focus (v\<lparr>vw_layout := layout\<rparr>)) i vm)))))"

definition set_slot_content :: "view_id \<Rightarrow> uuid \<Rightarrow> slot_content \<Rightarrow> ('f, 'j) view_manager \<Rightarrow> ('f, 'j, unit) vm_result" where
  "set_slot_content i s content vm = (case write_slot_content i s content vm of
     (Inl e, vm1) \<Rightarrow> (Inl e, vm1)
   | (Inr _, vm1) \<Rightarrow> (Inr (), bump_version vm1))"

definition assign_agent :: "view_id \<Rightarrow> uuid \<Rightarrow> ustr \<Rightarrow> ('f, 'j) view_manager \<Rightarrow> ('f, 'j, unit) vm_result" where
  "assign_agent i s agent_id vm = (case write_slot_content i s (Agent agent_id) vm of
     (Inl e, vm1) \<Rightarrow> (Inl e, vm1)
   | (Inr _, vm1) \<Rightarrow> (Inr (), bump_version vm1))"

definition set_unknown_content :: "view_id \<Rightarrow> uuid \<Rightarrow> 'j \<Rightarrow> ('f, 'j) view_manager \<Rightarrow> ('f, 'j, unit) vm_result" where
  "set_unknown_content i s raw vm = (case write_slot_content i s Empty vm of
     (Inl e, vm1) \<Rightarrow> (Inl e, vm1)
   | (Inr _, vm1) \<Rightarrow> (Inr (), bump_version (remember_unknown i s raw vm1)))"

section \<open>Moving a slot to a window of its own\<close>

definition prepare_detached_view :: "view_id \<Rightarrow> uuid \<Rightarrow> view_id \<Rightarrow> uuid \<Rightarrow> ('f, 'j) view_manager \<Rightarrow> ('f, 'j, view_id \<times> slot_content) vm_result" where
  "prepare_detached_view nview nslot src_view src_slot vm = (case view_slot_content src_view src_slot vm of
     Inl e \<Rightarrow> (Inl e, vm)
   | Inr content \<Rightarrow>
       let carried = unknown_content src_view src_slot vm;
           vm1 = make_view nview nslot vm;
           s = (case find_view vm1 nview of None \<Rightarrow> nslot | Some v \<Rightarrow> first_slot_id (vw_layout v));
           vm2 = snd (write_slot_content nview s content vm1);
           vm3 = (case carried of None \<Rightarrow> vm2 | Some raw \<Rightarrow> remember_unknown nview s raw vm2)
       in (Inr (nview, content), bump_version vm3))"

definition drop_detached_view :: "view_id \<Rightarrow> ('f, 'j) view_manager \<Rightarrow> ('f, 'j) view_manager" where
  "drop_detached_view v vm = bump_version (remove_view v vm)"

definition insert_tab_into :: "window_label \<Rightarrow> view_id \<Rightarrow> ('f, 'j) view_manager \<Rightarrow> ('f, 'j, unit) vm_result" where
  "insert_tab_into to_window v vm = (
     if find_window vm to_window = None then (Inl (WindowNotFound to_window), vm)
     else if find_view vm v = None then (Inl (ViewNotFound v), vm)
     else (Inr (), bump_version (map_window to_window (\<lambda>w. w\<lparr>wt_tabs := wt_tabs w @ [v], wt_active := v\<rparr>) (set_owner v to_window vm))))"

definition attach_view_as_new_window :: "ustr \<Rightarrow> window_label \<Rightarrow> view_id \<Rightarrow> ('f, 'j) view_manager \<Rightarrow> ('f, 'j, unit) vm_result" where
  "attach_view_as_new_window nwin label v vm = (
     if label \<in> set (vm_closed_labels vm) then (Inl (WindowClosed label), vm)
     else if find_window vm label \<noteq> None then (Inl (WindowNotFound label), vm)
     else if find_view vm v = None then (Inl (ViewNotFound v), vm)
     else (Inr (), bump_version (insert_new_popout nwin label v (set_owner v label vm))))"

end
