(* ===== verification/View_Dock.thy ===== *)
theory View_Dock
  imports View_Model Park_Payload
begin

text \<open>
  The rest of \<^verbatim>\<open>src-tauri/src/layout/manager.rs\<close>: docking a tab into another one, into a tab bar or into a window of
  its own, the tombstones of closed windows, taking over a restored layout, the attributes and measurements of a
  window; the window title of \<^verbatim>\<open>src-tauri/src/layout/tab_name.rs\<close>.

  A read by index (\<^verbatim>\<open>self.views[&view]\<close>) is \<open>the\<close> of the lookup: the code reads so only what \<open>tab_window\<close> has found.
\<close>

section \<open>Types\<close>

datatype 'f dock_to = Seam view_id dock_anchor dock_side 'f
  | TabBar window_label "nat option" "view_id option"
  | NewWindow window_label

record dock_move =
  dm_successor :: "view_id option"
  dm_successor_window :: "window_label option"

definition successor_in :: "dock_move \<Rightarrow> window_label \<Rightarrow> view_id option" where
  "successor_in mv source = (case dm_successor_window mv of
     None \<Rightarrow> dm_successor mv
   | Some window \<Rightarrow> if window = source then dm_successor mv else None)"

datatype focus_policy = Keep | Reveal

record docked =
  dk_window :: window_label
  dk_slot_ids :: "uuid list"
  dk_source_window :: window_label
  dk_emptied :: "window_label option"
  dk_main_refilled :: "view_id option"

datatype 'f new_window_plan = Reuse window_label | CreateSized "('f \<times> 'f) option"

datatype 'f dock_error = DkTabNotFound uuid | DkWindowNotFound window_label | DkSlotNotFound uuid | DkSlotNotInTab uuid uuid | DkSelfTarget
  | DkZeroArea | DkInvalidShare 'f | DkWindowClosed window_label | DkWindowExists window_label | DkSlotIdOverlap | DkWindowOpen ustr

datatype 'f dock_plan = PlanSeam view_id window_label "'f layout_node" | PlanTabBar window_label "view_id list" | PlanNewWindow window_label

record pulled_dock =
  pd_emptied :: "window_label option"
  pd_main_refilled :: "view_id option"

section \<open>Docking\<close>

definition tab_window :: "view_id \<Rightarrow> ('f, 'j) view_manager \<Rightarrow> window_label option" where
  "tab_window v vm = (
     if find_view vm v = None then None
     else case map_of (vm_owner vm) v of
            None \<Rightarrow> None
          | Some label \<Rightarrow> (case find_window vm label of
                None \<Rightarrow> None
              | Some w \<Rightarrow> if v \<in> set (wt_tabs w) then Some label else None))"

text \<open>Judgements 2 to 4 of \<^verbatim>\<open>check_dock\<close>: the window the tab goes to.\<close>

fun dock_target :: "view_id \<Rightarrow> 'f dock_to \<Rightarrow> ('f, 'j) view_manager \<Rightarrow> 'f dock_error + window_label" where
  "dock_target v (Seam target anchor side share) vm = (case tab_window target vm of
     None \<Rightarrow> Inl (DkTabNotFound target)
   | Some label \<Rightarrow>
       if label \<in> set (vm_closed_labels vm) then Inl (DkTabNotFound target)
       else if target = v then Inl DkSelfTarget
       else (case anchor of
               AnchorOuter \<Rightarrow> Inr label
             | AnchorSlot s \<Rightarrow>
                 if contains_slot (vw_layout (the (find_view vm target))) s then Inr label
                 else if list_ex (\<lambda>(_, w). contains_slot (vw_layout w) s) (vm_views vm) then Inl (DkSlotNotInTab s target)
                 else Inl (DkSlotNotFound s)))"
| "dock_target v (TabBar window index after) vm = (
     if find_window vm window = None \<or> window \<in> set (vm_closed_labels vm) then Inl (DkWindowNotFound window)
     else case after of
            None \<Rightarrow> Inr window
          | Some a \<Rightarrow>
              if a = v then Inl DkSelfTarget
              else if a \<notin> set (wt_tabs (the (find_window vm window))) then Inl (DkTabNotFound a)
              else Inr window)"
| "dock_target v (NewWindow label) vm = (
     if label \<in> set (vm_closed_labels vm) then Inl (DkWindowClosed label)
     else if find_window vm label \<noteq> None then Inl (DkWindowExists label)
     else Inr label)"

definition insert_nth :: "nat \<Rightarrow> 'a \<Rightarrow> 'a list \<Rightarrow> 'a list" where
  "insert_nth n x xs = take n xs @ x # drop n xs"

fun list_position :: "'a \<Rightarrow> 'a list \<Rightarrow> nat option" where
  "list_position x [] = None"
| "list_position x (y # ys) = (if y = x then Some 0 else map_option Suc (list_position x ys))"

fun dock_plan_for :: "('f::linorder, 'f) metric \<Rightarrow> uuid \<Rightarrow> view_id \<Rightarrow> 'f dock_to \<Rightarrow> window_label \<Rightarrow> ('f, 'j) view_manager
    \<Rightarrow> 'f dock_error + 'f dock_plan" where
  "dock_plan_for mt nsplit v (Seam target anchor side share) target_window vm = (
     if \<not> (mt_finite mt share \<and> mt_share_ok mt share) then Inl (DkInvalidShare share)
     else case docked_tree mt nsplit (vw_layout (the (find_view vm target))) anchor side (vw_layout (the (find_view vm v))) share of
            Inl (DtSlotNotFound s) \<Rightarrow> Inl (DkSlotNotFound s)
          | Inl DtSlotIdOverlap \<Rightarrow> Inl DkSlotIdOverlap
          | Inl DtZeroArea \<Rightarrow> Inl DkZeroArea
          | Inr layout \<Rightarrow> Inr (PlanSeam target target_window layout))"
| "dock_plan_for mt nsplit v (TabBar window index after) target_window vm = (
     let tabs = filter (\<lambda>t. t \<noteq> v) (wt_tabs (the (find_window vm target_window)));
         pos = (case (case after of None \<Rightarrow> None | Some a \<Rightarrow> list_position a tabs) of
                  Some anchor \<Rightarrow> anchor + 1
                | None \<Rightarrow> min (case index of Some i \<Rightarrow> i | None \<Rightarrow> length tabs) (length tabs))
     in Inr (PlanTabBar target_window (insert_nth pos v tabs)))"
| "dock_plan_for mt nsplit v (NewWindow label) target_window vm = Inr (PlanNewWindow target_window)"

definition check_dock :: "('f::linorder, 'f) metric \<Rightarrow> uuid \<Rightarrow> view_id \<Rightarrow> 'f dock_to \<Rightarrow> ('f, 'j) view_manager
    \<Rightarrow> 'f dock_error + (window_label \<times> 'f dock_plan)" where
  "check_dock mt nsplit v dest vm = (case tab_window v vm of
     None \<Rightarrow> Inl (DkTabNotFound v)
   | Some source_window \<Rightarrow> (case dock_target v dest vm of
         Inl e \<Rightarrow> Inl e
       | Inr target_window \<Rightarrow> (case dock_plan_for mt nsplit v dest target_window vm of
             Inl e \<Rightarrow> Inl e
           | Inr plan \<Rightarrow> Inr (source_window, plan))))"

definition pull_docked_tab :: "view_id \<Rightarrow> uuid \<Rightarrow> window_label \<Rightarrow> view_id \<Rightarrow> view_id option \<Rightarrow> ('f, 'j) view_manager
    \<Rightarrow> pulled_dock \<times> ('f, 'j) view_manager" where
  "pull_docked_tab nview nslot label v successor vm = (case pull_tab label v successor vm of
     (Stayed, vm1) \<Rightarrow> (\<lparr>pd_emptied = None, pd_main_refilled = None\<rparr>, vm1)
   | (PopoutRemoved, vm1) \<Rightarrow> (\<lparr>pd_emptied = Some label, pd_main_refilled = None\<rparr>, vm1)
   | (MainEmptied, vm1) \<Rightarrow> (\<lparr>pd_emptied = None, pd_main_refilled = Some nview\<rparr>, refill_main nview nslot vm1))"

definition map_extend :: "('k \<times> 'v) list \<Rightarrow> ('k \<times> 'v) list \<Rightarrow> ('k \<times> 'v) list" where
  "map_extend new m = fold (\<lambda>(k, v). AList.update k v) new m"

definition move_unknown :: "view_id \<Rightarrow> view_id \<Rightarrow> ('f, 'j) view_manager \<Rightarrow> ('f, 'j) view_manager" where
  "move_unknown v target vm = (case map_of (vm_unknown vm) v of
     None \<Rightarrow> vm
   | Some slots \<Rightarrow>
       let rest = AList.delete v (vm_unknown vm)
       in vm\<lparr>vm_unknown := AList.update target (map_extend slots (alist_get [] rest target)) rest\<rparr>)"

definition activate :: "window_label \<Rightarrow> view_id \<Rightarrow> ('f, 'j) view_manager \<Rightarrow> ('f, 'j) view_manager" where
  "activate label v vm = map_window label (\<lambda>w. w\<lparr>wt_active := v\<rparr>) vm"

definition apply_seam :: "view_id \<Rightarrow> uuid \<Rightarrow> view_id \<Rightarrow> focus_policy \<Rightarrow> dock_move \<Rightarrow> window_label \<Rightarrow> view_id \<Rightarrow> window_label \<Rightarrow> 'f layout_node
    \<Rightarrow> ('f, 'j) view_manager \<Rightarrow> pulled_dock \<times> ('f, 'j) view_manager" where
  "apply_seam nview nslot v focus mv source_window target target_window layout vm = (
     let first = first_slot_id (vw_layout (the (find_view vm v)));
         source_was_visible = (target_window = source_window \<and> wt_active (the (find_window vm target_window)) = v);
         vm1 = move_unknown v target vm;
         (pulled, vm2) = pull_docked_tab nview nslot source_window v (successor_in mv source_window) vm1;
         vm3 = remove_view v vm2;
         vm4 = (case find_view vm3 target of
                  None \<Rightarrow> vm3
                | Some t \<Rightarrow> put_view (let t1 = t\<lparr>vw_layout := layout\<rparr> in if focus = Reveal then t1\<lparr>vw_focused := Some first\<rparr> else t1) target vm3)
     in (pulled, if focus = Reveal \<or> source_was_visible then activate target_window target vm4 else vm4))"

definition apply_tab_bar :: "view_id \<Rightarrow> uuid \<Rightarrow> view_id \<Rightarrow> focus_policy \<Rightarrow> dock_move \<Rightarrow> window_label \<Rightarrow> window_label \<Rightarrow> view_id list
    \<Rightarrow> ('f, 'j) view_manager \<Rightarrow> pulled_dock \<times> ('f, 'j) view_manager" where
  "apply_tab_bar nview nslot v focus mv source_window window tabs vm = (
     let (pulled, vm1) = (if window = source_window then (\<lparr>pd_emptied = None, pd_main_refilled = None\<rparr>, vm)
           else pull_docked_tab nview nslot source_window v (successor_in mv source_window) vm)
     in (pulled, map_window window (\<lambda>w. let w1 = w\<lparr>wt_tabs := tabs\<rparr> in if focus = Reveal then w1\<lparr>wt_active := v\<rparr> else w1) (set_owner v window vm1)))"

definition apply_new_window :: "view_id \<Rightarrow> uuid \<Rightarrow> ustr \<Rightarrow> view_id \<Rightarrow> dock_move \<Rightarrow> window_label \<Rightarrow> window_label \<Rightarrow> ('f, 'j) view_manager
    \<Rightarrow> pulled_dock \<times> ('f, 'j) view_manager" where
  "apply_new_window nview nslot nwin v mv source_window label vm = (
     let (pulled, vm1) = pull_docked_tab nview nslot source_window v (successor_in mv source_window) vm
     in (pulled, insert_new_popout nwin label v (set_owner v label vm1)))"

record fresh_ids =
  fi_view :: view_id
  fi_slot :: uuid
  fi_split :: uuid
  fi_win :: ustr

definition dock :: "('f::linorder, 'f) metric \<Rightarrow> fresh_ids \<Rightarrow> view_id \<Rightarrow> 'f dock_to \<Rightarrow> focus_policy \<Rightarrow> dock_move \<Rightarrow> ('f, 'j) view_manager
    \<Rightarrow> ('f dock_error + docked) \<times> ('f, 'j) view_manager" where
  "dock mt ids v dest focus mv vm = (case check_dock mt (fi_split ids) v dest vm of
     Inl e \<Rightarrow> (Inl e, vm)
   | Inr (source_window, plan) \<Rightarrow>
       let slots = slot_ids (vw_layout (the (find_view vm v)));
           answer = (\<lambda>window pulled. \<lparr>dk_window = window, dk_slot_ids = slots, dk_source_window = source_window,
                       dk_emptied = pd_emptied pulled, dk_main_refilled = pd_main_refilled pulled\<rparr>)
       in case plan of
            PlanSeam target target_window layout \<Rightarrow>
              let (pulled, vm1) = apply_seam (fi_view ids) (fi_slot ids) v focus mv source_window target target_window layout vm
              in (Inr (answer target_window pulled), bump_version vm1)
          | PlanTabBar window tabs \<Rightarrow>
              let current = the (find_window vm window)
              in if tabs = wt_tabs current \<and> (focus \<noteq> Reveal \<or> wt_active current = v)
                 then (Inr (answer window \<lparr>pd_emptied = None, pd_main_refilled = None\<rparr>), vm)
                 else let (pulled, vm1) = apply_tab_bar (fi_view ids) (fi_slot ids) v focus mv source_window window tabs vm
                      in (Inr (answer window pulled), bump_version vm1)
          | PlanNewWindow label \<Rightarrow>
              let (pulled, vm1) = apply_new_window (fi_view ids) (fi_slot ids) (fi_win ids) v mv source_window label vm
              in (Inr (answer label pulled), bump_version vm1))"

definition plan_new_window :: "view_id \<Rightarrow> ('f, 'j) view_manager \<Rightarrow> 'f dock_error + 'f new_window_plan" where
  "plan_new_window v vm = (case tab_window v vm of
     None \<Rightarrow> Inl (DkTabNotFound v)
   | Some source_window \<Rightarrow>
       let source = the (find_window vm source_window)
       in if source_window = MAIN_WINDOW_LABEL then Inr (CreateSized None)
          else if length (wt_tabs source) = 1 then Inr (Reuse source_window)
          else Inr (CreateSized (map_option (\<lambda>b. (wb_w b, wb_h b)) (wa_bounds (wt_attrs source)))))"

definition mark_closed :: "window_label \<Rightarrow> ('f, 'j) view_manager \<Rightarrow> ('f, 'j) view_manager" where
  "mark_closed label vm = vm\<lparr>vm_closed_labels := List.insert label (vm_closed_labels vm)\<rparr>"

section \<open>Taking over a restored layout\<close>

definition owned_views :: "('f, 'j) view_manager \<Rightarrow> view_id list" where
  "owned_views vm = concat (map (\<lambda>(_, w). wt_tabs w) (vm_windows vm))"

definition take_main :: "'f window_tabs \<Rightarrow> 'f window_tabs \<Rightarrow> 'f window_tabs" where
  "take_main main live = live\<lparr>wt_tabs := wt_tabs main, wt_active := wt_active main, wt_attrs := wt_attrs main, wt_memo := None\<rparr>"

fun insert_popouts :: "(window_label \<times> 'f window_tabs) list \<Rightarrow> nat list \<Rightarrow> ('f, 'j) view_manager \<Rightarrow> ('f, 'j) view_manager" where
  "insert_popouts ((label, w) # ps) (n # ns) vm = insert_popouts ps ns (insert_window_entry label (w\<lparr>wt_number := n\<rparr>) vm)"
| "insert_popouts _ _ vm = vm"

definition adopt_restored :: "('f, 'j) view_manager \<Rightarrow> ('f, 'j) view_manager \<Rightarrow> ('f, 'j, window_label list) vm_result" where
  "adopt_restored restored vm = (case find_window restored MAIN_WINDOW_LABEL of
     None \<Rightarrow> (Inl (WindowNotFound MAIN_WINDOW_LABEL), vm)
   | Some main \<Rightarrow>
       let windows = AList.delete MAIN_WINDOW_LABEL (vm_windows restored)
       in if find_window vm MAIN_WINDOW_LABEL = None then (Inl (WindowNotFound MAIN_WINDOW_LABEL), vm)
          else case find (\<lambda>l. find_window vm l \<noteq> None) (map fst windows) of
            Some label \<Rightarrow> (Inl (WindowNotFound label), vm)
          | None \<Rightarrow>
              let owned = owned_views vm
              in case find (\<lambda>v. find_view vm v \<noteq> None \<and> v \<notin> set owned) (map fst (vm_views restored)) of
                   Some v \<Rightarrow> (Inl (ViewNotFound v), vm)
                 | None \<Rightarrow>
                     let vm1 = fold remove_view owned vm;
                         removed = sort (filter (\<lambda>l. l \<noteq> MAIN_WINDOW_LABEL) (map fst (vm_windows vm1)));
                         vm2 = fold (\<lambda>l m. snd (retire_window_entry l OsGone m)) removed vm1;
                         vm3 = map_window MAIN_WINDOW_LABEL (take_main main) (vm2\<lparr>vm_closing := []\<rparr>);
                         vm4 = vm3\<lparr>vm_views := map_extend (vm_views restored) (vm_views vm3),
                                   vm_owner := map_extend (vm_owner restored) (vm_owner vm3),
                                   vm_unknown := map_extend (vm_unknown restored) (vm_unknown vm3)\<rparr>;
                         vm5 = seed_agent_names (vm_agent_names restored) vm4;
                         popouts = sort_key (\<lambda>(_, w). wt_number w) windows;
                         numbers = resolve_saved (map (\<lambda>(_, w). Some (wt_number w)) popouts) (held_numbers vm5);
                         vm6 = bump_version (insert_popouts popouts numbers vm5)
                     in (Inr removed, vm6\<lparr>vm_attrs_rev := vm_attrs_rev vm6 + 1\<rparr>))"

section \<open>Attributes and measurements\<close>

definition update_attrs :: "window_label \<Rightarrow> ('f window_attrs \<Rightarrow> bool \<times> 'f window_attrs) \<Rightarrow> ('f, 'j) view_manager \<Rightarrow> ('f, 'j, unit) vm_result" where
  "update_attrs label change vm = (case find_window vm label of
     None \<Rightarrow> (Inl (WindowNotFound label), vm)
   | Some w \<Rightarrow>
       let (changed, attrs) = change (wt_attrs w);
           vm1 = vm\<lparr>vm_windows := AList.update label (w\<lparr>wt_attrs := attrs\<rparr>) (vm_windows vm)\<rparr>
       in (Inr (), if changed then vm1\<lparr>vm_attrs_rev := vm_attrs_rev vm1 + 1\<rparr> else vm1))"

definition attrs_set_theme :: "ui_theme option \<Rightarrow> 'f window_attrs \<Rightarrow> bool \<times> 'f window_attrs" where
  "attrs_set_theme theme attrs = (wa_theme attrs \<noteq> theme, attrs\<lparr>wa_theme := theme\<rparr>)"

definition set_window_theme :: "window_label \<Rightarrow> ui_theme option \<Rightarrow> ('f, 'j) view_manager \<Rightarrow> ('f, 'j, unit) vm_result" where
  "set_window_theme label theme vm = update_attrs label (attrs_set_theme theme) vm"

definition set_window_maximized :: "window_label \<Rightarrow> bool \<Rightarrow> ('f, 'j) view_manager \<Rightarrow> ('f, 'j, unit) vm_result" where
  "set_window_maximized label maximized vm =
     update_attrs label (\<lambda>attrs. (wa_maximized attrs \<noteq> maximized, attrs\<lparr>wa_maximized := maximized\<rparr>)) vm"

definition observe_window_placement :: "window_label \<Rightarrow> 'f window_placement \<Rightarrow> ('f, 'j) view_manager \<Rightarrow> ('f, 'j, unit) vm_result" where
  "observe_window_placement label seen vm = (case find_window vm label of
     None \<Rightarrow> (Inl (WindowNotFound label), vm)
   | Some w \<Rightarrow>
       let (changed, memo, attrs) = observe_attrs seen (wt_memo w) (wt_attrs w);
           vm1 = vm\<lparr>vm_windows := AList.update label (w\<lparr>wt_attrs := attrs, wt_memo := memo\<rparr>) (vm_windows vm)\<rparr>
       in (Inr (), if changed then vm1\<lparr>vm_attrs_rev := vm_attrs_rev vm1 + 1\<rparr> else vm1))"

definition reported_canvas :: "nat \<Rightarrow> nat \<Rightarrow> canvas_px option" where
  "reported_canvas w h = (if w \<noteq> 0 \<and> h \<noteq> 0 then Some \<lparr>cv_w = w, cv_h = h\<rparr> else None)"

definition set_window_canvas :: "window_label \<Rightarrow> nat \<Rightarrow> nat \<Rightarrow> ('f, 'j) view_manager \<Rightarrow> ('f, 'j, unit) vm_result" where
  "set_window_canvas label w h vm = (case find_window vm label of
     None \<Rightarrow> (Inl (WindowNotFound label), vm)
   | Some wt \<Rightarrow> (Inr (), case reported_canvas w h of
         None \<Rightarrow> vm
       | Some canvas \<Rightarrow> vm\<lparr>vm_windows := AList.update label (wt\<lparr>wt_canvas := Some canvas\<rparr>) (vm_windows vm)\<rparr>))"

definition MIN_PANE_PX_MAX :: nat where
  "MIN_PANE_PX_MAX = 1000"

text \<open>\<open>inset_ok\<close> says that a number lies in \<^verbatim>\<open>0.0..=INSET_MAX_PX\<close>.\<close>

definition check_metrics :: "('f \<Rightarrow> bool) \<Rightarrow> 'f ui_metrics \<Rightarrow> layout_error + unit" where
  "check_metrics inset_ok m = (
     if list_ex (\<lambda>v. \<not> inset_ok v) (um_insets m) then Inl InvalidMetrics
     else if \<not> (1 \<le> um_min_pane m \<and> um_min_pane m \<le> MIN_PANE_PX_MAX) then Inl InvalidMetrics
     else Inr ())"

definition set_ui_metrics :: "('f \<Rightarrow> bool) \<Rightarrow> window_label \<Rightarrow> 'f ui_metrics \<Rightarrow> ('f, 'j) view_manager \<Rightarrow> ('f, 'j, unit) vm_result" where
  "set_ui_metrics inset_ok label m vm = (case find_window vm label of
     None \<Rightarrow> (Inl (WindowNotFound label), vm)
   | Some wt \<Rightarrow> (case check_metrics inset_ok m of
         Inl e \<Rightarrow> (Inl e, vm)
       | Inr _ \<Rightarrow> (Inr (), vm\<lparr>vm_windows := AList.update label (wt\<lparr>wt_metrics := Some m\<rparr>) (vm_windows vm)\<rparr>)))"

section \<open>Window titles\<close>

definition PRODUCT :: ustr where
  "PRODUCT = lit ''Engram''"

fun window_title :: "ustr option \<Rightarrow> nat option \<Rightarrow> ustr" where
  "window_title (Some tab) (Some n) = tab @ lit '' - '' @ PRODUCT @ lit '':'' @ show_dec n"
| "window_title None (Some n) = PRODUCT @ lit '':'' @ show_dec n"
| "window_title _ None = PRODUCT"

end
