(* ===== verification/View_Own.thy ===== *)
theory View_Own
  imports View_Dock
begin

text \<open>
  Which window owns which tab, and which window holds which number. \<open>own_ok\<close> says it over four maps: the owner of a
  view, the entry of a window, the record of a closing window, and the set of views. The lemmas of the first section
  are the moves of a tab on these maps; the second section shows what the helpers of the layout authority do to them.
\<close>

section \<open>Ownership over maps\<close>

definition window_ok :: "'f window_tabs \<Rightarrow> bool" where
  "window_ok w \<longleftrightarrow> distinct (wt_tabs w) \<and> wt_active w \<in> set (wt_tabs w)"

definition tabs_owned :: "(view_id \<rightharpoonup> window_label) \<Rightarrow> (window_label \<rightharpoonup> 'f window_tabs) \<Rightarrow> bool" where
  "tabs_owned ow wi \<longleftrightarrow> (\<forall>v L. ow v = Some L \<longleftrightarrow> (\<exists>w. wi L = Some w \<and> v \<in> set (wt_tabs w)))"

text \<open>The number a label holds, as a live window or as a closing one.\<close>

definition held :: "(window_label \<rightharpoonup> 'f window_tabs) \<Rightarrow> (window_label \<rightharpoonup> closing_window) \<Rightarrow> window_label \<rightharpoonup> nat" where
  "held wi cl L = (case wi L of Some w \<Rightarrow> Some (wt_number w) | None \<Rightarrow> map_option co_number (cl L))"

definition held_ok :: "(window_label \<rightharpoonup> nat) \<Rightarrow> bool" where
  "held_ok h \<longleftrightarrow> (\<forall>L n. h L = Some n \<longrightarrow> (if L = MAIN_WINDOW_LABEL then n = MAIN_WINDOW_NUMBER else MAIN_WINDOW_NUMBER < n)) \<and>
     (\<forall>L L' n. h L = Some n \<longrightarrow> h L' = Some n \<longrightarrow> L = L')"

definition numbers_ok :: "(window_label \<rightharpoonup> 'f window_tabs) \<Rightarrow> (window_label \<rightharpoonup> closing_window) \<Rightarrow> bool" where
  "numbers_ok wi cl \<longleftrightarrow> held_ok (held wi cl) \<and> dom wi \<inter> dom cl = {}"

definition own_ok :: "(view_id \<rightharpoonup> window_label) \<Rightarrow> (window_label \<rightharpoonup> 'f window_tabs) \<Rightarrow> (window_label \<rightharpoonup> closing_window) \<Rightarrow> view_id set \<Rightarrow> bool" where
  "own_ok ow wi cl vs \<longleftrightarrow> tabs_owned ow wi \<and> (\<forall>L w. wi L = Some w \<longrightarrow> window_ok w) \<and> numbers_ok wi cl \<and>
     wi MAIN_WINDOW_LABEL \<noteq> None \<and> dom ow \<subseteq> vs"

lemma own_okD:
  assumes "own_ok ow wi cl vs"
  shows "ow v = Some L \<longleftrightarrow> (\<exists>w. wi L = Some w \<and> v \<in> set (wt_tabs w))" "wi L = Some w \<Longrightarrow> window_ok w" "numbers_ok wi cl"
    "\<exists>w. wi MAIN_WINDOW_LABEL = Some w" "dom ow \<subseteq> vs"
  using assms unfolding own_ok_def tabs_owned_def by blast+

lemma tabs_ownedI:
  "\<lbrakk>\<And>v L. ow v = Some L \<Longrightarrow> \<exists>w. wi L = Some w \<and> v \<in> set (wt_tabs w); \<And>v L w. wi L = Some w \<Longrightarrow> v \<in> set (wt_tabs w) \<Longrightarrow> ow v = Some L\<rbrakk>
   \<Longrightarrow> tabs_owned ow wi"
  unfolding tabs_owned_def by blast

lemma tabs_ownedD:
  assumes "tabs_owned ow wi"
  shows "ow v = Some L \<Longrightarrow> \<exists>w. wi L = Some w \<and> v \<in> set (wt_tabs w)" "wi L = Some w \<Longrightarrow> v \<in> set (wt_tabs w) \<Longrightarrow> ow v = Some L"
  using assms unfolding tabs_owned_def by blast+

lemma one_owner: "\<lbrakk>tabs_owned ow wi; wi L = Some w; v \<in> set (wt_tabs w); wi L' = Some u; v \<in> set (wt_tabs u)\<rbrakk> \<Longrightarrow> L' = L"
  unfolding tabs_owned_def by (metis option.inject)

lemma own_ok_views: "\<lbrakk>own_ok ow wi cl vs; vs \<subseteq> vs'\<rbrakk> \<Longrightarrow> own_ok ow wi cl vs'"
  by (auto simp: own_ok_def)

lemma own_ok_drop_view: "\<lbrakk>own_ok ow wi cl vs; ow v = None\<rbrakk> \<Longrightarrow> own_ok ow wi cl (vs - {v})"
  unfolding own_ok_def subset_Diff_insert by (metis domIff Diff_empty)

text \<open>A window changes and keeps its tabs and number.\<close>

lemma held_ok_drop: "held_ok h \<Longrightarrow> held_ok (h(L := None))"
  unfolding held_ok_def by simp

lemma held_ok_new: "\<lbrakk>held_ok h; L \<noteq> MAIN_WINDOW_LABEL; MAIN_WINDOW_NUMBER < n; n \<notin> ran h\<rbrakk> \<Longrightarrow> held_ok (h(L \<mapsto> n))"
  unfolding held_ok_def ran_def by (simp split: if_splits) metis

lemma held_simps:
  "wi L = Some w \<Longrightarrow> wt_number w' = wt_number w \<Longrightarrow> held (wi(L \<mapsto> w')) cl = held wi cl"
  "held (wi(L \<mapsto> u)) cl = (held wi cl)(L \<mapsto> wt_number u)"
  "cl L = None \<Longrightarrow> held (wi(L := None)) cl = (held wi cl)(L := None)"
  "wi L = None \<Longrightarrow> held wi (cl(L := None)) = (held wi cl)(L := None)"
  "wi L = Some w \<Longrightarrow> co_number c = wt_number w \<Longrightarrow> held (wi(L := None)) (cl(L \<mapsto> c)) = held wi cl"
  by (simp_all add: held_def fun_eq_iff split: option.split)

lemma numbers_keep: "\<lbrakk>numbers_ok wi cl; wi L = Some w; wt_number w' = wt_number w\<rbrakk> \<Longrightarrow> numbers_ok (wi(L \<mapsto> w')) cl"
  by (auto simp: numbers_ok_def held_simps(1) simp del: fun_upd_apply)

lemma tabs_keep: "\<lbrakk>tabs_owned ow wi; wi L = Some w; set (wt_tabs w') = set (wt_tabs w)\<rbrakk> \<Longrightarrow> tabs_owned ow (wi(L \<mapsto> w'))"
  unfolding tabs_owned_def by auto

lemma own_keep:
  assumes "own_ok ow wi cl vs" "wi L = Some w" "set (wt_tabs w') = set (wt_tabs w)" "window_ok w'" "wt_number w' = wt_number w"
  shows "own_ok ow (wi(L \<mapsto> w')) cl vs"
proof -
  have "tabs_owned ow (wi(L \<mapsto> w'))" by (rule tabs_keep[of _ _ _ w]) (use assms own_ok_def in blast)+
  moreover have "numbers_ok (wi(L \<mapsto> w')) cl" by (rule numbers_keep[of _ _ _ w]) (use assms own_ok_def in blast)+
  ultimately show ?thesis using assms unfolding own_ok_def by auto
qed

text \<open>A view without an owner becomes a tab of a window.\<close>

lemma tabs_add:
  assumes "tabs_owned ow wi" "wi L = Some w" "set (wt_tabs w') = insert v (set (wt_tabs w))" "ow v = None"
  shows "tabs_owned (ow(v \<mapsto> L)) (wi(L \<mapsto> w'))"
proof -
  have "\<And>L' u. wi L' = Some u \<Longrightarrow> v \<notin> set (wt_tabs u)" using assms(1,4) unfolding tabs_owned_def by (metis option.distinct(1))
  then show ?thesis using assms unfolding tabs_owned_def by auto
qed

lemma own_add:
  assumes "own_ok ow wi cl vs" "wi L = Some w" "ow v = None" "v \<in> vs"
    and "set (wt_tabs w') = insert v (set (wt_tabs w))" "window_ok w'" "wt_number w' = wt_number w"
  shows "own_ok (ow(v \<mapsto> L)) (wi(L \<mapsto> w')) cl vs"
proof -
  have "tabs_owned (ow(v \<mapsto> L)) (wi(L \<mapsto> w'))" by (rule tabs_add[of _ _ _ w]) (use assms own_ok_def in blast)+
  moreover have "numbers_ok (wi(L \<mapsto> w')) cl" by (rule numbers_keep[of _ _ _ w]) (use assms own_ok_def in blast)+
  ultimately show ?thesis using assms unfolding own_ok_def by auto
qed

text \<open>A view without an owner becomes the tab of a new window, under a number nobody holds.\<close>

lemma numbers_new:
  "\<lbrakk>numbers_ok wi cl; cl L = None; L \<noteq> MAIN_WINDOW_LABEL; MAIN_WINDOW_NUMBER < wt_number w; wt_number w \<notin> ran (held wi cl)\<rbrakk>
   \<Longrightarrow> numbers_ok (wi(L \<mapsto> w)) cl"
  by (auto simp: numbers_ok_def held_simps(2) held_ok_new simp del: fun_upd_apply)

lemma numbers_retire:
  assumes "numbers_ok wi cl" "wi L = Some w" "cl' = cl \<or> (\<exists>c. cl' = cl(L \<mapsto> c) \<and> co_number c = wt_number w)"
  shows "numbers_ok (wi(L := None)) cl'"
proof -
  have c: "cl L = None" using assms(1,2) by (auto simp: numbers_ok_def)
  have "held_ok (held (wi(L := None)) cl')"
    using assms(3) by (elim disjE exE conjE) (use assms(1,2) c in \<open>simp_all add: numbers_ok_def held_simps(3,5) held_ok_drop\<close>)
  moreover have "dom (wi(L := None)) \<inter> dom cl' = {}"
    using assms(3) by (elim disjE exE conjE) (use assms(1) in \<open>auto simp: numbers_ok_def simp del: fun_upd_apply\<close>)
  ultimately show ?thesis by (simp add: numbers_ok_def)
qed

lemma numbers_release: "numbers_ok wi (cl(L := None))" if "numbers_ok wi cl"
proof (cases "cl L = None")
  case False
  then have "wi L = None" using that by (auto simp: numbers_ok_def)
  then show ?thesis using that by (simp add: numbers_ok_def held_simps(4) held_ok_drop) blast
qed (use that in \<open>simp add: fun_upd_idem\<close>)

lemma own_new:
  assumes "own_ok ow wi cl vs" "wi L = None" "cl L = None" "ow v = None" "v \<in> vs" "wt_tabs w = [v]" "wt_active w = v"
    and "MAIN_WINDOW_NUMBER < wt_number w" "wt_number w \<notin> ran (held wi cl)"
  shows "own_ok (ow(v \<mapsto> L)) (wi(L \<mapsto> w)) cl vs"
proof -
  have 1: "\<And>L' u. wi L' = Some u \<Longrightarrow> v \<notin> set (wt_tabs u)" "\<And>u. ow u \<noteq> Some L"
    using assms(1,2,4) own_okD(1)[OF assms(1)] by (metis option.distinct(1))+
  have "tabs_owned (ow(v \<mapsto> L)) (wi(L \<mapsto> w))"
    using assms(1,2,6) 1 unfolding own_ok_def tabs_owned_def by auto
  moreover have "numbers_ok (wi(L \<mapsto> w)) cl"
  proof (rule numbers_new)
    show "L \<noteq> MAIN_WINDOW_LABEL" using assms(1,2) by (auto simp: own_ok_def)
  qed (use assms own_okD(3) in auto)
  ultimately show ?thesis using assms(1,5,6,7) by (auto simp: own_ok_def window_ok_def)
qed

text \<open>A tab leaves a window that keeps others.\<close>

lemma tabs_drop:
  assumes "tabs_owned ow wi" "wi L = Some w" "set (wt_tabs w') = set (wt_tabs w) - {v}" "v \<in> set (wt_tabs w)"
  shows "tabs_owned (ow(v := None)) (wi(L \<mapsto> w'))"
proof (rule tabs_ownedI)
  show "\<exists>u. (wi(L \<mapsto> w')) L' = Some u \<and> x \<in> set (wt_tabs u)" if "(ow(v := None)) x = Some L'" for x L'
  proof -
    have x: "x \<noteq> v" "ow x = Some L'" using that by (auto split: if_splits)
    from tabs_ownedD(1)[OF assms(1) x(2)] obtain u where "wi L' = Some u" "x \<in> set (wt_tabs u)" by blast
    with x(1) assms(2,3) show ?thesis by (cases "L' = L") auto
  qed
  show "(ow(v := None)) x = Some L'" if "(wi(L \<mapsto> w')) L' = Some u" "x \<in> set (wt_tabs u)" for x L' u
  proof (cases "L' = L")
    case True
    then show ?thesis using that assms(3) tabs_ownedD(2)[OF assms(1,2), of x] by auto
  next
    case False
    then have "wi L' = Some u" using that by simp
    then show ?thesis using that False tabs_ownedD(2)[OF assms(1), of L' u x] one_owner[OF assms(1,2,4), of L' u] by auto
  qed
qed

lemma own_drop:
  assumes "own_ok ow wi cl vs" "wi L = Some w" "v \<in> set (wt_tabs w)"
    and "set (wt_tabs w') = set (wt_tabs w) - {v}" "window_ok w'" "wt_number w' = wt_number w"
  shows "own_ok (ow(v := None)) (wi(L \<mapsto> w')) cl vs"
proof -
  have "tabs_owned (ow(v := None)) (wi(L \<mapsto> w'))" by (rule tabs_drop[of _ _ _ w]) (use assms own_ok_def in blast)+
  moreover have "numbers_ok (wi(L \<mapsto> w')) cl" by (rule numbers_keep[of _ _ _ w]) (use assms own_ok_def in blast)+
  ultimately show ?thesis using assms unfolding own_ok_def by auto
qed

text \<open>A window goes with all its tabs; its number is held on while the system window is still there.\<close>

lemma own_retire:
  assumes "own_ok ow wi cl vs" "wi L = Some w" "L \<noteq> MAIN_WINDOW_LABEL"
    and "cl' = cl \<or> (\<exists>c. cl' = cl(L \<mapsto> c) \<and> co_number c = wt_number w)"
  shows "own_ok (ow |` (- set (wt_tabs w))) (wi(L := None)) cl' vs"
proof -
  have "tabs_owned (ow |` (- set (wt_tabs w))) (wi(L := None))"
  proof -
    have t: "tabs_owned ow wi" using assms(1) by (simp add: own_ok_def)
    show ?thesis
    proof (rule tabs_ownedI)
      show "\<exists>u. (wi(L := None)) L' = Some u \<and> x \<in> set (wt_tabs u)" if "(ow |` (- set (wt_tabs w))) x = Some L'" for x L'
      proof -
        have x: "x \<notin> set (wt_tabs w)" "ow x = Some L'" using that by (auto simp: restrict_map_def split: if_splits)
        from tabs_ownedD(1)[OF t x(2)] obtain u where "wi L' = Some u" "x \<in> set (wt_tabs u)" by blast
        with x(1) assms(2) show ?thesis by (cases "L' = L") auto
      qed
      show "(ow |` (- set (wt_tabs w))) x = Some L'" if "(wi(L := None)) L' = Some u" "x \<in> set (wt_tabs u)" for x L' u
        using that tabs_ownedD(2)[OF t] one_owner[OF t assms(2)] by (auto simp: restrict_map_def split: if_splits)
    qed
  qed
  moreover have "numbers_ok (wi(L := None)) cl'" by (rule numbers_retire[OF own_okD(3)[OF assms(1)] assms(2,4)])
  ultimately show ?thesis using assms(1,3) by (auto simp: own_ok_def restrict_map_def split: if_splits)
qed

lemma own_release: "own_ok ow wi cl vs \<Longrightarrow> own_ok ow wi (cl(L := None)) vs"
  by (simp add: own_ok_def numbers_release)

section \<open>Ownership in the layout authority\<close>

abbreviation owner_map :: "('f, 'j) view_manager \<Rightarrow> view_id \<rightharpoonup> window_label" where
  "owner_map vm \<equiv> map_of (vm_owner vm)"

abbreviation closing_map :: "('f, 'j) view_manager \<Rightarrow> window_label \<rightharpoonup> closing_window" where
  "closing_map vm \<equiv> map_of (vm_closing vm)"

definition vm_own :: "('f, 'j) view_manager \<Rightarrow> bool" where
  "vm_own vm \<longleftrightarrow> own_ok (owner_map vm) (find_window vm) (closing_map vm) (dom (find_view vm))"

text \<open>The same with one view that is between two windows.\<close>

definition vm_own_but :: "view_id \<Rightarrow> ('f, 'j) view_manager \<Rightarrow> bool" where
  "vm_own_but v vm \<longleftrightarrow> own_ok ((owner_map vm)(v := None)) (find_window vm) (closing_map vm) (dom (find_view vm))"

lemmas alist_maps = update_conv' delete_conv'

lemmas vm_basics = put_view_def set_owner_def bump_version_def remember_unknown_def remove_view_def insert_window_entry_def

lemma map_window_simps [simp]:
  "vm_views (map_window L f vm) = vm_views vm" "vm_owner (map_window L f vm) = vm_owner vm"
  "vm_closing (map_window L f vm) = vm_closing vm" "vm_unknown (map_window L f vm) = vm_unknown vm"
  "vm_version (map_window L f vm) = vm_version vm" "vm_closed_labels (map_window L f vm) = vm_closed_labels vm"
  "find_window vm L = Some w \<Longrightarrow> find_window (map_window L f vm) = (find_window vm)(L \<mapsto> f w)"
  by (auto simp: map_window_def alist_maps split: option.splits)

lemma forget_unknown_simps [simp]:
  "vm_views (forget_unknown v s vm) = vm_views vm" "vm_owner (forget_unknown v s vm) = vm_owner vm"
  "vm_closing (forget_unknown v s vm) = vm_closing vm" "vm_windows (forget_unknown v s vm) = vm_windows vm"
  "vm_version (forget_unknown v s vm) = vm_version vm" "vm_closed_labels (forget_unknown v s vm) = vm_closed_labels vm"
  by (auto simp: forget_unknown_def Let_def split: option.splits)

lemma vm_own_frame:
  assumes "vm_own vm" "vm_owner vm' = vm_owner vm" "vm_windows vm' = vm_windows vm" "vm_closing vm' = vm_closing vm"
    "dom (find_view vm) \<subseteq> dom (find_view vm')"
  shows "vm_own vm'"
  using own_ok_views[OF assms(1)[unfolded vm_own_def] assms(5)] assms(2-4) by (simp add: vm_own_def)

lemma vm_own_bump [simp]: "vm_own (bump_version vm) = vm_own vm" "vm_own_but v (bump_version vm) = vm_own_but v vm"
  by (simp_all add: vm_own_def vm_own_but_def bump_version_def)

lemma vm_own_put [intro]: "vm_own vm \<Longrightarrow> vm_own (put_view x v vm)"
  by (erule vm_own_frame) (auto simp: put_view_def alist_maps)

lemma vm_own_unknown [intro]:
  "vm_own vm \<Longrightarrow> vm_own (forget_unknown v s vm)" "vm_own vm \<Longrightarrow> vm_own (remember_unknown v s raw vm)"
  by (auto elim!: vm_own_frame simp: remember_unknown_def)

lemma vm_own_make [intro]: "vm_own vm \<Longrightarrow> vm_own (make_view nview nslot vm)"
  by (simp add: make_view_def Let_def vm_own_put)

lemma vm_ownD:
  assumes "vm_own vm"
  shows "owner_map vm v = Some L \<longleftrightarrow> (\<exists>w. find_window vm L = Some w \<and> v \<in> set (wt_tabs w))"
    "find_window vm L = Some w \<Longrightarrow> window_ok w" "owner_map vm v = Some L \<Longrightarrow> find_view vm v \<noteq> None"
    "\<exists>w. find_window vm MAIN_WINDOW_LABEL = Some w" "find_view vm v = None \<Longrightarrow> owner_map vm v = None"
proof -
  note D = own_okD[OF assms[unfolded vm_own_def]]
  show "owner_map vm v = Some L \<longleftrightarrow> (\<exists>w. find_window vm L = Some w \<and> v \<in> set (wt_tabs w))" "find_window vm L = Some w \<Longrightarrow> window_ok w"
    "\<exists>w. find_window vm MAIN_WINDOW_LABEL = Some w" by (rule D, rule D(2), assumption, rule D)
  show "owner_map vm v = Some L \<Longrightarrow> find_view vm v \<noteq> None" "find_view vm v = None \<Longrightarrow> owner_map vm v = None"
    using D(5) by (auto simp: domIff)
qed

lemma vm_own_but_fresh: "vm_own_but v vm \<longleftrightarrow> vm_own vm" if "owner_map vm v = None"
  using that by (simp add: vm_own_def vm_own_but_def fun_upd_idem)

lemma vm_own_remove: "vm_own_but v vm \<Longrightarrow> vm_own (remove_view v vm)"
  using own_ok_drop_view[of "(owner_map vm)(v := None)" "find_window vm" "closing_map vm" "dom (find_view vm)" v]
  by (simp add: vm_own_def vm_own_but_def remove_view_def alist_maps)

text \<open>A window entry changes without its tabs.\<close>

lemma vm_own_window:
  assumes "vm_own vm" "find_window vm L = Some w" "set (wt_tabs w') = set (wt_tabs w)" "window_ok w'" "wt_number w' = wt_number w"
  shows "vm_own (vm\<lparr>vm_windows := AList.update L w' (vm_windows vm)\<rparr>)"
  using own_keep[OF assms(1)[unfolded vm_own_def] assms(2-5)] by (simp add: vm_own_def alist_maps)

text \<open>A view without an owner enters a window, or a new one.\<close>

lemma vm_own_enter:
  assumes "vm_own_but v vm" "find_window vm L = Some w" "find_view vm v \<noteq> None"
    and "set (wt_tabs (f w)) = insert v (set (wt_tabs w))" "window_ok (f w)" "wt_number (f w) = wt_number w"
  shows "vm_own (map_window L f (set_owner v L vm))"
proof -
  have "own_ok (((owner_map vm)(v := None))(v \<mapsto> L)) ((find_window vm)(L \<mapsto> f w)) (closing_map vm) (dom (find_view vm))"
    by (rule own_add[OF assms(1)[unfolded vm_own_but_def] assms(2) _ _ assms(4-6)]) (use assms(3) in auto)
  then show ?thesis using assms(2) by (simp add: vm_own_def set_owner_def alist_maps)
qed

lemma held_ran: "n \<in> ran (held (find_window vm) (closing_map vm)) \<Longrightarrow> n \<in> set (held_numbers vm)"
proof -
  assume "n \<in> ran (held (find_window vm) (closing_map vm))"
  then obtain L where L: "held (find_window vm) (closing_map vm) L = Some n" by (auto simp: ran_def)
  show ?thesis
  proof (cases "find_window vm L")
    case None
    then obtain c where "closing_map vm L = Some c" "co_number c = n" using L by (auto simp: held_def)
    then show ?thesis by (force simp: held_numbers_def dest: map_of_SomeD)
  next
    case (Some w)
    then show ?thesis using L by (force simp: held_def held_numbers_def dest: map_of_SomeD)
  qed
qed

lemma vm_own_popout:
  assumes "vm_own_but v vm" "find_window vm L = None" "closing_map vm L = None" "find_view vm v \<noteq> None"
  shows "vm_own (insert_new_popout nwin L v (set_owner v L vm))"
proof -
  let ?n = "smallest_free (held_numbers vm)"
  have n: "?n \<notin> set (held_numbers vm)" "MAIN_WINDOW_NUMBER < ?n" using smallest_free_exact[where held = "held_numbers vm"] by (auto simp: MAIN_WINDOW_NUMBER_def)
  have h: "held_numbers (set_owner v L vm) = held_numbers vm" by (simp add: held_numbers_def set_owner_def)
  have "own_ok (((owner_map vm)(v := None))(v \<mapsto> L)) ((find_window vm)(L \<mapsto> window_new_popout nwin ?n v)) (closing_map vm) (dom (find_view vm))"
    by (rule own_new[OF assms(1)[unfolded vm_own_but_def] assms(2,3)])
      (use assms(4) n held_ran[of ?n vm] in \<open>auto simp: window_new_popout_def window_new_def\<close>)
  then show ?thesis by (simp add: vm_own_def insert_new_popout_def insert_window_entry_def h) (simp add: set_owner_def alist_maps)
qed

section \<open>A tab leaves its window\<close>

lemma succession_from_split:
  "v \<notin> set xs \<Longrightarrow> succession_from l (xs @ v # ys) v = (case ys of r # _ \<Rightarrow> Some r | [] \<Rightarrow> if xs = [] then l else Some (last xs))"
  by (induction xs arbitrary: l) (auto split: list.splits)

lemma succession_split:
  "v \<notin> set xs \<Longrightarrow> succession (xs @ v # ys) v = (case ys of r # _ \<Rightarrow> Some r | [] \<Rightarrow> if xs = [] then None else Some (last xs))"
  by (simp add: succession_def succession_from_split)

lemma succession_some:
  assumes "v \<in> set tabs" "remove1 v tabs \<noteq> []" "distinct tabs"
  obtains h where "succession tabs v = Some h" "h \<in> set (remove1 v tabs)"
proof -
  obtain xs ys where t: "tabs = xs @ v # ys" "v \<notin> set xs" using split_list_first[OF assms(1)] by blast
  then have "remove1 v tabs = xs @ ys" by (simp add: remove1_append)
  then show thesis using that t assms(2) by (cases ys) (auto simp: succession_split split: if_splits)
qed

text \<open>The active tab after \<open>v\<close> has left.\<close>

definition heir_of :: "'f window_tabs \<Rightarrow> view_id \<Rightarrow> view_id option \<Rightarrow> view_id" where
  "heir_of w v successor = (
     if wt_active w \<noteq> v then wt_active w
     else case successor of
            Some s \<Rightarrow> if s \<in> set (remove1 v (wt_tabs w)) then s else the (succession (wt_tabs w) v)
          | None \<Rightarrow> the (succession (wt_tabs w) v))"

lemma heir_in:
  assumes "window_ok w" "v \<in> set (wt_tabs w)" "remove1 v (wt_tabs w) \<noteq> []"
  shows "heir_of w v s \<in> set (remove1 v (wt_tabs w))"
proof -
  obtain h where "succession (wt_tabs w) v = Some h" "h \<in> set (remove1 v (wt_tabs w))"
    using succession_some[OF assms(2,3)] assms(1) by (auto simp: window_ok_def)
  then show ?thesis using assms(1) by (auto simp: heir_of_def window_ok_def split: option.splits)
qed

lemma pull_stay:
  assumes "find_window vm L = Some w" "v \<in> set (wt_tabs w)" "window_ok w" "remove1 v (wt_tabs w) \<noteq> []"
  shows "pull_tab L v s vm =
    (Stayed, vm\<lparr>vm_windows := AList.update L (w\<lparr>wt_tabs := remove1 v (wt_tabs w), wt_active := heir_of w v s\<rparr>) (vm_windows vm)\<rparr>)"
proof -
  obtain h where h: "succession (wt_tabs w) v = Some h" "h \<in> set (remove1 v (wt_tabs w))"
    using succession_some[OF assms(2,4)] assms(3) by (auto simp: window_ok_def)
  then show ?thesis using assms(1,2,4) by (cases s) (auto simp: pull_tab_def heir_of_def Let_def)
qed

lemma only_tab: "\<lbrakk>window_ok w; v \<in> set (wt_tabs w); remove1 v (wt_tabs w) = []\<rbrakk> \<Longrightarrow> wt_tabs w = [v] \<and> wt_active w = v"
  by (cases "wt_tabs w") (auto simp: window_ok_def split: if_splits)

lemma pull_last_popout:
  assumes "find_window vm L = Some w" "wt_tabs w = [v]" "wt_active w = v" "L \<noteq> MAIN_WINDOW_LABEL"
  shows "pull_tab L v s vm = (PopoutRemoved, vm\<lparr>vm_windows := AList.delete L (vm_windows vm),
     vm_closing := AList.update L \<lparr>co_window_id = wt_window_id w, co_number = wt_number w\<rparr> (vm_closing vm)\<rparr>)"
  using assms by (simp add: pull_tab_def retire_window_entry_def succession_def Let_def alist_maps delete_update_same split: option.splits)

lemma pull_last_main:
  assumes "find_window vm MAIN_WINDOW_LABEL = Some w" "wt_tabs w = [v]" "wt_active w = v"
  shows "pull_tab MAIN_WINDOW_LABEL v s vm = (MainEmptied, vm\<lparr>vm_windows := AList.update MAIN_WINDOW_LABEL (w\<lparr>wt_tabs := [], wt_active := v\<rparr>) (vm_windows vm)\<rparr>)"
  using assms by (simp add: pull_tab_def succession_def split: option.splits)

text \<open>What \<open>pull_docked_tab\<close> does, on each of the three ways a tab leaves.\<close>

lemma pull_docked_stay:
  "\<lbrakk>find_window vm L = Some w; v \<in> set (wt_tabs w); window_ok w; remove1 v (wt_tabs w) \<noteq> []\<rbrakk> \<Longrightarrow>
   pull_docked_tab nv ns L v s vm = (\<lparr>pd_emptied = None, pd_main_refilled = None\<rparr>,
     vm\<lparr>vm_windows := AList.update L (w\<lparr>wt_tabs := remove1 v (wt_tabs w), wt_active := heir_of w v s\<rparr>) (vm_windows vm)\<rparr>)"
  by (simp add: pull_docked_tab_def pull_stay)

lemma pull_docked_popout:
  "\<lbrakk>find_window vm L = Some w; wt_tabs w = [v]; wt_active w = v; L \<noteq> MAIN_WINDOW_LABEL\<rbrakk> \<Longrightarrow>
   pull_docked_tab nv ns L v s vm = (\<lparr>pd_emptied = Some L, pd_main_refilled = None\<rparr>, vm\<lparr>vm_windows := AList.delete L (vm_windows vm),
     vm_closing := AList.update L \<lparr>co_window_id = wt_window_id w, co_number = wt_number w\<rparr> (vm_closing vm)\<rparr>)"
  by (simp add: pull_docked_tab_def pull_last_popout)

lemma pull_docked_main:
  assumes "find_window vm MAIN_WINDOW_LABEL = Some w" "wt_tabs w = [v]" "wt_active w = v"
  shows "pull_docked_tab nv ns MAIN_WINDOW_LABEL v s vm = (\<lparr>pd_emptied = None, pd_main_refilled = Some nv\<rparr>,
     (make_view nv ns vm)\<lparr>vm_owner := AList.update nv MAIN_WINDOW_LABEL (vm_owner vm),
       vm_windows := AList.update MAIN_WINDOW_LABEL (w\<lparr>wt_tabs := [nv], wt_active := nv\<rparr>) (vm_windows vm)\<rparr>)"
  using assms by (simp add: pull_docked_tab_def pull_last_main refill_main_def map_window_def make_view_def set_owner_def put_view_def Let_def
      alist_maps)

text \<open>Either way the tab is nobody's afterwards, and no other window has changed.\<close>

lemma pull_docked_own:
  assumes own: "vm_own vm" and L: "owner_map vm v = Some L" and nv: "find_view vm nv = None"
  shows "vm_own_but v (snd (pull_docked_tab nv ns L v s vm))"
    "L' \<noteq> L \<Longrightarrow> find_window (snd (pull_docked_tab nv ns L v s vm)) L' = find_window vm L'"
    "L' \<noteq> L \<Longrightarrow> closing_map (snd (pull_docked_tab nv ns L v s vm)) L' = closing_map vm L'"
    "u \<noteq> nv \<Longrightarrow> find_view (snd (pull_docked_tab nv ns L v s vm)) u = find_view vm u"
    "vm_unknown (snd (pull_docked_tab nv ns L v s vm)) = vm_unknown vm"
    "u \<noteq> nv \<Longrightarrow> owner_map (snd (pull_docked_tab nv ns L v s vm)) u = owner_map vm u"
proof -
  obtain w where w: "find_window vm L = Some w" "v \<in> set (wt_tabs w)" using vm_ownD(1)[OF own] L by blast
  have wok: "window_ok w" by (rule vm_ownD(2)[OF own w(1)])
  note ok = own[unfolded vm_own_def]
  consider (stay) "remove1 v (wt_tabs w) \<noteq> []" | (pop) "wt_tabs w = [v]" "wt_active w = v" "L \<noteq> MAIN_WINDOW_LABEL"
    | (main) "wt_tabs w = [v]" "wt_active w = v" "L = MAIN_WINDOW_LABEL"
    using only_tab[OF wok w(2)] by blast
  then have "vm_own_but v (snd (pull_docked_tab nv ns L v s vm)) \<and>
    (L' \<noteq> L \<longrightarrow> find_window (snd (pull_docked_tab nv ns L v s vm)) L' = find_window vm L') \<and>
    (L' \<noteq> L \<longrightarrow> closing_map (snd (pull_docked_tab nv ns L v s vm)) L' = closing_map vm L') \<and>
    (u \<noteq> nv \<longrightarrow> find_view (snd (pull_docked_tab nv ns L v s vm)) u = find_view vm u) \<and>
    vm_unknown (snd (pull_docked_tab nv ns L v s vm)) = vm_unknown vm \<and>
    (u \<noteq> nv \<longrightarrow> owner_map (snd (pull_docked_tab nv ns L v s vm)) u = owner_map vm u)"
  proof cases
    case stay
    have "own_ok ((owner_map vm)(v := None)) ((find_window vm)(L \<mapsto> w\<lparr>wt_tabs := remove1 v (wt_tabs w), wt_active := heir_of w v s\<rparr>))
        (closing_map vm) (dom (find_view vm))"
      by (rule own_drop[OF ok w]) (use wok heir_in[OF wok w(2) stay] in \<open>auto simp: window_ok_def\<close>)
    then show ?thesis by (simp add: pull_docked_stay[OF w wok stay] vm_own_but_def alist_maps)
  next
    case pop
    let ?c = "\<lparr>co_window_id = wt_window_id w, co_number = wt_number w\<rparr>"
    have "own_ok (owner_map vm |` (- set (wt_tabs w))) ((find_window vm)(L := None)) ((closing_map vm)(L \<mapsto> ?c)) (dom (find_view vm))"
      by (rule own_retire[OF ok w(1) pop(3)]) auto
    moreover have "owner_map vm |` (- set (wt_tabs w)) = (owner_map vm)(v := None)" using pop(1) by (auto simp: restrict_map_def fun_eq_iff)
    ultimately show ?thesis by (simp add: pull_docked_popout[OF w(1) pop] vm_own_but_def alist_maps)
  next
    case main
    let ?w1 = "w\<lparr>wt_tabs := [v, nv], wt_active := nv\<rparr>" and ?w2 = "w\<lparr>wt_tabs := [nv], wt_active := nv\<rparr>" and ?vs = "insert nv (dom (find_view vm))"
    have nov: "nv \<noteq> v" "owner_map vm nv = None" using vm_ownD(3)[OF own L] nv vm_ownD(5)[OF own nv] by auto
    have "own_ok ((owner_map vm)(nv \<mapsto> L)) ((find_window vm)(L \<mapsto> ?w1)) (closing_map vm) ?vs"
      by (rule own_add[OF own_ok_views[OF ok] w(1)]) (use nov main(1) in \<open>auto simp: window_ok_def\<close>)
    then have "own_ok (((owner_map vm)(nv \<mapsto> L))(v := None)) (((find_window vm)(L \<mapsto> ?w1))(L \<mapsto> ?w2)) (closing_map vm) ?vs"
      by (rule own_drop[where w = ?w1]) (use nov in \<open>auto simp: window_ok_def\<close>)
    then show ?thesis using main
      by (simp add: pull_docked_main[OF w(1)[unfolded main(3)] main(1,2)] vm_own_but_def alist_maps make_view_def put_view_def Let_def)
  qed
  then show "vm_own_but v (snd (pull_docked_tab nv ns L v s vm))"
    "L' \<noteq> L \<Longrightarrow> find_window (snd (pull_docked_tab nv ns L v s vm)) L' = find_window vm L'"
    "L' \<noteq> L \<Longrightarrow> closing_map (snd (pull_docked_tab nv ns L v s vm)) L' = closing_map vm L'"
    "u \<noteq> nv \<Longrightarrow> find_view (snd (pull_docked_tab nv ns L v s vm)) u = find_view vm u"
    "vm_unknown (snd (pull_docked_tab nv ns L v s vm)) = vm_unknown vm"
    "u \<noteq> nv \<Longrightarrow> owner_map (snd (pull_docked_tab nv ns L v s vm)) u = owner_map vm u" by blast+
qed

section \<open>Every operation keeps the ownership\<close>

lemma tab_window_owner: "tab_window v vm = owner_map vm v" if own: "vm_own vm"
proof (cases "owner_map vm v")
  case (Some L)
  then obtain w where "find_window vm L = Some w" "v \<in> set (wt_tabs w)" using vm_ownD(1)[OF own] by blast
  then show ?thesis using Some vm_ownD(3)[OF own Some] by (auto simp: tab_window_def)
qed (simp add: tab_window_def)

lemma make_view_simps [simp]:
  "vm_owner (make_view nv ns vm) = vm_owner vm" "vm_windows (make_view nv ns vm) = vm_windows vm" "vm_closing (make_view nv ns vm) = vm_closing vm"
  "find_view (make_view nv ns vm) =
     (find_view vm)(nv \<mapsto> \<lparr>vw_id = nv, vw_name = TabAuto, vw_layout = new_empty_slot ns, vw_focused = Some ns\<rparr>)" "vm_closed_labels (make_view nv ns vm) = vm_closed_labels vm" "vm_version (make_view nv ns vm) = vm_version vm"
  "vm_unknown (make_view nv ns vm) = vm_unknown vm"
  by (simp_all add: make_view_def put_view_def alist_maps Let_def new_empty_slot_def)

lemma create_tab_own: "vm_own (snd (create_tab nv ns L name vm))" if own: "vm_own vm" and nv: "find_view vm nv = None"
proof (cases "find_window vm L")
  case (Some w)
  have m: "vm_own (put_view x nv (make_view nv ns vm))" for x using own by blast
  have o: "owner_map (put_view x nv (make_view nv ns vm)) nv = None" for x
    using vm_ownD(5)[OF own nv] by (simp add: make_view_def put_view_def Let_def)
  have w: "find_window (put_view x nv (make_view nv ns vm)) L = Some w" for x using Some by (simp add: make_view_def put_view_def Let_def)
  have n: "nv \<notin> set (wt_tabs w)" using vm_ownD(1)[OF own, of nv L] vm_ownD(5)[OF own nv] Some by auto
  have "vm_own (map_window L (\<lambda>w. w\<lparr>wt_tabs := wt_tabs w @ [nv], wt_active := nv\<rparr>) (set_owner nv L (put_view x nv (make_view nv ns vm))))" for x
  proof (rule vm_own_enter[where w = w])
    show "vm_own_but nv (put_view x nv (make_view nv ns vm))" using m by (simp add: vm_own_but_fresh[OF o])
  qed (use w vm_ownD(2)[OF own Some] n in \<open>auto simp: window_ok_def put_view_def alist_maps\<close>)
  then show ?thesis using own Some by (simp add: create_tab_def Let_def split: option.splits)
qed (simp add: create_tab_def own)

lemma create_window_own:
  "\<lbrakk>vm_own vm; find_view vm nv = None; closing_map vm L = None\<rbrakk> \<Longrightarrow> vm_own (snd (create_window nv ns nwin L vm))"
  by (auto simp: create_window_def vm_own_but_fresh vm_own_make vm_ownD(5) intro!: vm_own_popout)

lemma attach_own:
  "\<lbrakk>vm_own vm; owner_map vm v = None; closing_map vm L = None\<rbrakk> \<Longrightarrow> vm_own (snd (attach_view_as_new_window nwin L v vm))"
  by (auto simp: attach_view_as_new_window_def vm_own_but_fresh intro!: vm_own_popout)

lemma insert_tab_own: "vm_own (snd (insert_tab_into L v vm))" if own: "vm_own vm" and v: "owner_map vm v = None"
proof (cases "find_window vm L = None \<or> find_view vm v = None")
  case False
  then obtain w where w: "find_window vm L = Some w" by auto
  have n: "v \<notin> set (wt_tabs w)" using vm_ownD(1)[OF own, of v L] v w by auto
  have "vm_own (map_window L (\<lambda>w. w\<lparr>wt_tabs := wt_tabs w @ [v], wt_active := v\<rparr>) (set_owner v L vm))"
    by (rule vm_own_enter[OF _ w]) (use own v w n vm_ownD(2)[OF own w] False in \<open>auto simp: vm_own_but_fresh[OF v] window_ok_def\<close>)
  then show ?thesis using False by (auto simp: insert_tab_into_def)
qed (auto simp: insert_tab_into_def own)

lemma map_window_own:
  assumes "vm_own vm" "\<And>w. find_window vm L = Some w \<Longrightarrow> set (wt_tabs (f w)) = set (wt_tabs w) \<and> window_ok (f w) \<and> wt_number (f w) = wt_number w"
  shows "vm_own (map_window L f vm)"
  using assms vm_own_window[OF assms(1)] by (auto simp: map_window_def split: option.splits)

lemma switch_own: "vm_own (snd (switch_tab L v vm))" "vm_own (snd (switch_tab_if L v e vm))" if own: "vm_own vm"
proof -
  show 1: "vm_own (snd (switch_tab L v vm))"
    using own vm_ownD(2)[OF own] by (auto simp: switch_tab_def window_ok_def split: option.splits intro!: map_window_own)
  show "vm_own (snd (switch_tab_if L v e vm))"
    using own 1 by (auto simp: switch_tab_if_def split: option.splits sum.splits prod.splits)
qed

text \<open>\<^verbatim>\<open>close_tab\<close> is the departure of a docked tab, with the view dropped.\<close>

lemma pull_remove: "pull_tab L v s (remove_view v vm) = map_prod id (remove_view v) (pull_tab L v s vm)"
  by (cases "find_window vm L") (simp_all add: pull_tab_def remove_view_def retire_window_entry_def Let_def alist_maps)

lemma refill_remove: "nv \<noteq> v \<Longrightarrow> refill_main nv ns (remove_view v vm) = remove_view v (refill_main nv ns vm)"
  by (simp add: refill_main_def remove_view_def map_window_def make_view_def put_view_def set_owner_def Let_def delete_update split: option.split)

lemma close_tab_pull:
  assumes "find_window vm L = Some w" "v \<in> set (wt_tabs w)" "nv \<noteq> v"
  shows "close_tab nv ns L v vm = (
     let (pd, vm1) = pull_docked_tab nv ns L v None vm
     in (Inr (if pd_emptied pd = None then CtStayed else CtWindowClosed), bump_version (remove_view v vm1)))"
  using assms by (simp add: close_tab_def pull_remove pull_docked_tab_def refill_remove Let_def split: prod.splits pulled.splits) (auto split: prod.splits)

lemma close_tab_own: "vm_own (snd (close_tab nv ns L v vm))" if own: "vm_own vm" and nv: "find_view vm nv = None"
proof (cases "\<exists>w. find_window vm L = Some w \<and> v \<in> set (wt_tabs w)")
  case True
  then obtain w where w: "find_window vm L = Some w" "v \<in> set (wt_tabs w)" by blast
  then have o: "owner_map vm v = Some L" using vm_ownD(1)[OF own] by blast
  then have "nv \<noteq> v" using vm_ownD(3)[OF own o] nv by auto
  then show ?thesis using vm_own_remove[OF pull_docked_own(1)[OF own o nv, of ns None]]
    by (simp add: close_tab_pull[OF w] case_prod_beta)
qed (use own in \<open>auto simp: close_tab_def split: option.splits\<close>)

lemma remove_views_simps:
  "vm_windows (fold remove_view vs vm) = vm_windows vm" "vm_closing (fold remove_view vs vm) = vm_closing vm"
  "owner_map (fold remove_view vs vm) = owner_map vm |` (- set vs)" "find_view (fold remove_view vs vm) = find_view vm |` (- set vs)"
  "map_of (vm_unknown (fold remove_view vs vm)) = map_of (vm_unknown vm) |` (- set vs)" "vm_closed_labels (fold remove_view vs vm) = vm_closed_labels vm"
  "vm_version (fold remove_view vs vm) = vm_version vm"
  by (induction vs arbitrary: vm) (auto simp: remove_view_def alist_maps restrict_map_def fun_eq_iff)

lemma remove_window_own: "vm_own (snd (remove_window L os vm))" if own: "vm_own vm"
proof (cases "L = MAIN_WINDOW_LABEL \<or> find_window vm L = None")
  case False
  then obtain w where w: "find_window vm L = Some w" and L: "L \<noteq> MAIN_WINDOW_LABEL" by auto
  obtain vm1 where r: "retire_window_entry L os vm = (Some w, vm1)" and s: "vm_views vm1 = vm_views vm" "vm_owner vm1 = vm_owner vm"
    "find_window vm1 = (find_window vm)(L := None)"
    "closing_map vm1 = closing_map vm \<or> (\<exists>c. closing_map vm1 = (closing_map vm)(L \<mapsto> c) \<and> co_number c = wt_number w)"
  proof
    show "retire_window_entry L os vm = (Some w, snd (retire_window_entry L os vm))" using w by (simp add: retire_window_entry_def Let_def)
    show "closing_map (snd (retire_window_entry L os vm)) = closing_map vm \<or>
      (\<exists>c. closing_map (snd (retire_window_entry L os vm)) = (closing_map vm)(L \<mapsto> c) \<and> co_number c = wt_number w)"
      using w by (cases os) (auto simp: retire_window_entry_def alist_maps Let_def intro: exI[of _ "\<lparr>co_window_id = wt_window_id w, co_number = wt_number w\<rparr>"])
  qed (use w in \<open>simp_all add: retire_window_entry_def alist_maps Let_def\<close>)
  have "own_ok (owner_map vm |` (- set (wt_tabs w))) ((find_window vm)(L := None)) (closing_map vm1) (dom (find_view vm))"
    by (rule own_retire[OF own[unfolded vm_own_def] w L s(4)])
  then have "own_ok (owner_map vm |` (- set (wt_tabs w))) ((find_window vm)(L := None)) (closing_map vm1) (dom (find_view vm) - set (wt_tabs w))"
    unfolding own_ok_def by auto
  then have "vm_own (fold remove_view (wt_tabs w) vm1)" using s by (simp add: vm_own_def remove_views_simps Diff_eq)
  then show ?thesis using r L by (simp add: remove_window_def)
qed (auto simp: remove_window_def retire_window_entry_def own)

lemma release_own: "vm_own vm \<Longrightarrow> vm_own (snd (release_closing L vm))"
  by (simp add: release_closing_def vm_own_def alist_maps own_release)

lemma write_slot_own: "vm_own vm \<Longrightarrow> vm_own (snd (write_slot_content i s c vm))"
  by (auto simp: write_slot_content_def split: option.splits prod.splits bool.splits)

lemma write_slot_own_eq: "write_slot_content i s c vm = (r, vm') \<Longrightarrow> vm_own vm \<Longrightarrow> vm_own vm'"
  by (drule write_slot_own[of vm i s c]) simp

lemma slot_ops_own:
  assumes "vm_own vm"
  shows "vm_own (snd (split_slot mt ns np i s dir vm))" "vm_own (snd (set_split_ratio mt i m r vm))" "vm_own (snd (set_focused_slot i s vm))"
    "vm_own (snd (rename_tab i name vm))" "vm_own (snd (close_slot ns i s vm))" "vm_own (snd (set_slot_content i s c vm))"
    "vm_own (snd (assign_agent i s a vm))" "vm_own (snd (set_unknown_content i s raw vm))"
  using assms write_slot_own_eq[OF _ assms]
  by (auto simp: split_slot_def set_split_ratio_def set_focused_slot_def rename_tab_def close_slot_def set_slot_content_def assign_agent_def
      set_unknown_content_def Let_def split: option.splits prod.splits bool.splits sum.splits split_dir.splits)

lemma detach_own: "vm_own (snd (prepare_detached_view nv ns i s vm))" if "vm_own vm"
proof -
  have "vm_own (snd (write_slot_content nv x c (make_view nv ns vm)))" for x c using write_slot_own that by blast
  then show ?thesis using that by (auto simp: prepare_detached_view_def Let_def split: sum.splits option.splits)
qed

lemma drop_detached_own: "\<lbrakk>vm_own vm; owner_map vm v = None\<rbrakk> \<Longrightarrow> vm_own (drop_detached_view v vm)"
  by (simp add: drop_detached_view_def vm_own_remove vm_own_but_fresh)

lemma attrs_own:
  assumes "vm_own vm"
  shows "vm_own (snd (update_attrs L ch vm))" "vm_own (snd (observe_window_placement L seen vm))" "vm_own (snd (set_window_canvas L cw h vm))"
    "vm_own (snd (set_ui_metrics ok L m vm))"
proof -
  have f: "vm_own (vm\<lparr>vm_windows := AList.update L w' (vm_windows vm), vm_attrs_rev := n\<rparr>)" "vm_own (vm\<lparr>vm_windows := AList.update L w' (vm_windows vm)\<rparr>)"
    if "find_window vm L = Some w" "wt_tabs w' = wt_tabs w" "wt_active w' = wt_active w" "wt_number w' = wt_number w" for w w' n
  proof -
    show 1: "vm_own (vm\<lparr>vm_windows := AList.update L w' (vm_windows vm)\<rparr>)"
      by (rule vm_own_window[OF assms that(1)]) (use that vm_ownD(2)[OF assms that(1)] in \<open>auto simp: window_ok_def\<close>)
    show "vm_own (vm\<lparr>vm_windows := AList.update L w' (vm_windows vm), vm_attrs_rev := n\<rparr>)" by (rule vm_own_frame[OF 1]) simp_all
  qed
  show "vm_own (snd (update_attrs L ch vm))" "vm_own (snd (observe_window_placement L seen vm))" "vm_own (snd (set_window_canvas L cw h vm))"
    "vm_own (snd (set_ui_metrics ok L m vm))"
    using assms by (auto simp: update_attrs_def observe_window_placement_def set_window_canvas_def set_ui_metrics_def Let_def
        split: option.splits prod.splits sum.splits intro: f)
qed

text \<open>Docking.\<close>

lemma insert_nth_laws [simp]: "set (insert_nth n x xs) = insert x (set xs)" "distinct (insert_nth n x xs) \<longleftrightarrow> x \<notin> set xs \<and> distinct xs"
proof -
  have "mset (insert_nth n x xs) = mset (x # xs)" by (simp add: insert_nth_def) (metis append_take_drop_id mset_append)
  then show "set (insert_nth n x xs) = insert x (set xs)" "distinct (insert_nth n x xs) \<longleftrightarrow> x \<notin> set xs \<and> distinct xs"
    by (metis list.simps(15) mset_eq_setD, metis distinct.simps(2) mset_eq_imp_distinct_iff)
qed

lemma move_unknown_simps [simp]:
  "vm_views (move_unknown v t vm) = vm_views vm" "vm_owner (move_unknown v t vm) = vm_owner vm" "vm_windows (move_unknown v t vm) = vm_windows vm"
  "vm_closing (move_unknown v t vm) = vm_closing vm" "vm_version (move_unknown v t vm) = vm_version vm"
  by (auto simp: move_unknown_def Let_def split: option.splits)

lemma seam_own:
  assumes own: "vm_own vm" and v: "owner_map vm v = Some L" and t: "owner_map vm t = Some T" "t \<noteq> v" and nv: "find_view vm nv = None"
  shows "vm_own (snd (apply_seam nv ns v focus mv L t T layout vm))"
proof -
  let ?vm1 = "move_unknown v t vm"
  obtain pd vm2 where p: "pull_docked_tab nv ns L v (successor_in mv L) ?vm1 = (pd, vm2)" by fastforce
  have own1: "vm_own ?vm1" by (rule vm_own_frame[OF own]) simp_all
  have tn: "t \<noteq> nv" using vm_ownD(3)[OF own t(1)] nv by auto
  note P = pull_docked_own[OF own1, where ns = ns and s = "successor_in mv L", simplified, OF v nv, unfolded p snd_conv]
  let ?vm4 = "case find_view (remove_view v vm2) t of None \<Rightarrow> remove_view v vm2 | Some x \<Rightarrow> put_view (let x1 = x\<lparr>vw_layout := layout\<rparr> in
       if focus = Reveal then x1\<lparr>vw_focused := Some (first_slot_id (vw_layout (the (find_view vm v))))\<rparr> else x1) t (remove_view v vm2)"
  have own4: "vm_own ?vm4" using vm_own_remove[OF P(1)] by (auto split: option.split)
  have "owner_map ?vm4 t = Some T" using P(6)[OF tn] t by (auto simp: remove_view_def put_view_def alist_maps split: option.splits)
  then have "\<exists>w. find_window ?vm4 T = Some w \<and> t \<in> set (wt_tabs w)" using vm_ownD(1)[OF own4] by blast
  then have "vm_own (activate T t ?vm4)" unfolding activate_def by (intro map_window_own[OF own4]) (use vm_ownD(2)[OF own4] in \<open>auto simp: window_ok_def\<close>)
  then show ?thesis using own4 p by (auto simp: apply_seam_def Let_def)
qed

lemma tab_bar_own:
  assumes own: "vm_own vm" and v: "owner_map vm v = Some L" and T: "find_window vm T = Some w" and nv: "find_view vm nv = None"
    and tabs: "set tabs = insert v (set (wt_tabs w))" "distinct tabs"
  shows "vm_own (snd (apply_tab_bar nv ns v focus mv L T tabs vm))"
proof -
  let ?f = "\<lambda>w. let w1 = w\<lparr>wt_tabs := tabs\<rparr> in if focus = Reveal then w1\<lparr>wt_active := v\<rparr> else w1"
  have fok: "window_ok (?f w)" "wt_number (?f w) = wt_number w" using vm_ownD(2)[OF own T] tabs by (auto simp: window_ok_def Let_def)
  have ft: "wt_tabs (?f w) = tabs" by (simp add: Let_def)
  show ?thesis
  proof (cases "T = L")
    case True
    then have "v \<in> set (wt_tabs w)" using vm_ownD(1)[OF own, of v L] v T by auto
    then have "vm_own (map_window T ?f vm)" using fok tabs T ft by (intro map_window_own[OF own]) auto
    moreover have "set_owner v L vm = vm" using v by (simp add: set_owner_def update_triv)
    ultimately show ?thesis using True by (simp add: apply_tab_bar_def)
  next
    case False
    obtain pd vm1 where p: "pull_docked_tab nv ns L v (successor_in mv L) vm = (pd, vm1)" by fastforce
    note P = pull_docked_own[OF own v nv, where ns = ns and s = "successor_in mv L", unfolded p snd_conv]
    have "v \<noteq> nv" using vm_ownD(3)[OF own v] nv by auto
    then have "vm_own (map_window T ?f (set_owner v T vm1))"
      by (intro vm_own_enter[OF P(1)]) (use False T P(2)[of T] P(4)[of v] vm_ownD(3)[OF own v] fok tabs ft in auto)
    then show ?thesis using False p by (simp add: apply_tab_bar_def)
  qed
qed

lemma new_window_own:
  assumes own: "vm_own vm" and v: "owner_map vm v = Some L" and T: "find_window vm T = None" "closing_map vm T = None" and nv: "find_view vm nv = None"
  shows "vm_own (snd (apply_new_window nv ns nwin v mv L T vm))"
proof -
  obtain pd vm1 where p: "pull_docked_tab nv ns L v (successor_in mv L) vm = (pd, vm1)" by fastforce
  note P = pull_docked_own[OF own v nv, where ns = ns and s = "successor_in mv L", unfolded p snd_conv]
  have "T \<noteq> L" using T(1) vm_ownD(1)[OF own, of v L] v by auto
  moreover have "v \<noteq> nv" using vm_ownD(3)[OF own v] nv by auto
  ultimately have "vm_own (insert_new_popout nwin T v (set_owner v T vm1))"
    by (intro vm_own_popout[OF P(1)]) (use T P(2)[of T] P(3)[of T] P(4)[of v] vm_ownD(3)[OF own v] in auto)
  then show ?thesis using p by (simp add: apply_new_window_def)
qed

lemma dock_own:
  fixes mt :: "('f::linorder, 'f) metric"
  assumes own: "vm_own vm" and nv: "find_view vm (fi_view ids) = None" and lab: "\<And>label. dest = NewWindow label \<Longrightarrow> closing_map vm label = None"
  shows "vm_own (snd (dock mt ids v dest focus mv vm))"
proof (cases "check_dock mt (fi_split ids) v dest vm")
  case (Inr r)
  then obtain L T plan where r: "r = (L, plan)" and L: "owner_map vm v = Some L" and T: "dock_target v dest vm = Inr T"
    and plan: "dock_plan_for mt (fi_split ids) v dest T vm = Inr plan"
    by (auto simp: check_dock_def tab_window_owner[OF own] split: option.splits sum.splits)
  note c = Inr[unfolded r]
  show ?thesis
  proof (cases dest)
    case (Seam t anchor side share)
    then obtain layout where "plan = PlanSeam t T layout" using plan by (auto split: if_splits sum.splits dock_tree_error.splits)
    moreover have "owner_map vm t = Some T" "t \<noteq> v" using T Seam by (auto simp: tab_window_owner[OF own] split: option.splits if_splits dock_anchor.splits)
    ultimately show ?thesis using seam_own[OF own L _ _ nv] by (simp add: dock_def c case_prod_beta Let_def)
  next
    case (TabBar win index after)
    obtain w where w: "find_window vm win = Some w" "T = win" using T TabBar by (auto split: if_splits option.splits)
    let ?pos = "case (case after of None \<Rightarrow> None | Some a \<Rightarrow> list_position a (filter (\<lambda>t. t \<noteq> v) (wt_tabs w))) of Some anchor \<Rightarrow> anchor + 1
        | None \<Rightarrow> min (case index of Some i \<Rightarrow> i | None \<Rightarrow> length (filter (\<lambda>t. t \<noteq> v) (wt_tabs w))) (length (filter (\<lambda>t. t \<noteq> v) (wt_tabs w)))"
    have "plan = PlanTabBar win (insert_nth ?pos v (filter (\<lambda>t. t \<noteq> v) (wt_tabs w)))" using plan TabBar w by (simp add: Let_def)
    moreover have "vm_own (snd (apply_tab_bar (fi_view ids) (fi_slot ids) v focus mv L win (insert_nth ?pos v (filter (\<lambda>t. t \<noteq> v) (wt_tabs w))) vm))"
      by (rule tab_bar_own[OF own L w(1) nv]) (use vm_ownD(2)[OF own w(1)] in \<open>auto simp: window_ok_def\<close>)
    ultimately show ?thesis using own by (simp add: dock_def c case_prod_beta Let_def)
  next
    case (NewWindow label)
    then have "find_window vm label = None" "T = label" "plan = PlanNewWindow label" using T plan by (auto split: if_splits)
    then show ?thesis using new_window_own[OF own L _ lab[OF NewWindow] nv] by (simp add: dock_def c case_prod_beta Let_def)
  qed
qed (simp add: dock_def own)

end
