(* ===== verification/View_Adopt.thy ===== *)
theory View_Adopt
  imports View_Own
begin

text \<open>
  Ownership and numbers when a whole layout is taken over: the empty layout, a layout read back from disk
  (\<^verbatim>\<open>from_restored\<close>) and one adopted while the program runs (\<^verbatim>\<open>adopt_restored\<close>).
\<close>

definition keys_ok :: "('f, 'j) view_manager \<Rightarrow> bool" where
  "keys_ok vm \<longleftrightarrow> distinct (map fst (vm_views vm)) \<and> distinct (map fst (vm_owner vm)) \<and> distinct (map fst (vm_windows vm)) \<and>
     distinct (map fst (vm_unknown vm)) \<and> distinct (map fst (vm_closing vm))"

section \<open>Maps\<close>

lemma map_extend_Cons: "map_extend ((k, v) # new) m = map_extend new (AList.update k v m)"
  by (simp add: map_extend_def)

lemma map_extend_map: "distinct (map fst new) \<Longrightarrow> map_of (map_extend new m) = map_of m ++ map_of new"
proof (induction new arbitrary: m)
  case (Cons p new)
  obtain k v where p: "p = (k, v)" by fastforce
  have "map_of new k = None" using Cons.prems p by (simp add: map_of_eq_None_iff)
  then have "map_of m ++ ((map_of new)(k \<mapsto> v)) = (map_of m)(k \<mapsto> v) ++ map_of new"
    by (auto simp: fun_eq_iff map_add_def split: option.splits)
  moreover have "map_of (map_extend (p # new) m) = (map_of m)(k \<mapsto> v) ++ map_of new" using Cons p by (simp add: map_extend_Cons alist_maps)
  moreover have "map_of (p # new) = (map_of new)(k \<mapsto> v)" using p by (simp add: fun_eq_iff)
  ultimately show ?case by (simp only:)
qed (simp add: map_extend_def)

lemma map_extend_keys: "distinct (map fst m) \<Longrightarrow> distinct (map fst (map_extend new m))"
  by (induction new arbitrary: m) (auto simp: map_extend_def distinct_update)

lemma sort_key_map_of: "distinct (map fst xs) \<Longrightarrow> map_of (sort_key f xs) = map_of xs \<and> distinct (map fst (sort_key f xs))"
proof -
  assume d: "distinct (map fst xs)"
  have m: "mset (map fst (sort_key f xs)) = mset (map fst xs)" by (metis mset_map mset_sort)
  then have d2: "distinct (map fst (sort_key f xs))" using d by (metis mset_eq_imp_distinct_iff)
  show ?thesis using d2 map_of_inject_set[OF d2 d] by (simp only: set_sort simp_thms)
qed

section \<open>Renumbered windows\<close>

definition renumbered :: "(window_label \<times> 'f window_tabs) list \<Rightarrow> nat list \<Rightarrow> (window_label \<times> 'f window_tabs) list" where
  "renumbered ps ns = map2 (\<lambda>(L, w) n. (L, w\<lparr>wt_number := n\<rparr>)) ps ns"

lemma renumbered_keys: "length ns = length ps \<Longrightarrow> map fst (renumbered ps ns) = map fst ps"
  by (induction ps ns rule: list_induct2') (auto simp: renumbered_def)

lemma renumbered_Some:
  assumes "length ns = length ps" "distinct (map fst ps)"
  shows "map_of (renumbered ps ns) L = Some u \<longleftrightarrow> (\<exists>i w. i < length ps \<and> ps ! i = (L, w) \<and> u = w\<lparr>wt_number := ns ! i\<rparr>)"
proof -
  have d: "distinct (map fst (renumbered ps ns))" using assms by (simp add: renumbered_keys)
  have "map_of (renumbered ps ns) L = Some u \<longleftrightarrow> (L, u) \<in> set (renumbered ps ns)" using map_of_eq_Some_iff[OF d] .
  also have "\<dots> \<longleftrightarrow> (\<exists>i w. i < length ps \<and> ps ! i = (L, w) \<and> u = w\<lparr>wt_number := ns ! i\<rparr>)"
  proof -
    have n: "renumbered ps ns ! i = (fst (ps ! i), (snd (ps ! i))\<lparr>wt_number := ns ! i\<rparr>)" if "i < length ps" for i
      using that assms(1) by (simp add: renumbered_def case_prod_beta)
    have "length (renumbered ps ns) = length ps" using assms(1) by (simp add: renumbered_def)
    then show ?thesis unfolding in_set_conv_nth using n by (metis fst_conv prod.collapse snd_conv)
  qed
  finally show ?thesis .
qed

lemma insert_popouts_simps [simp]:
  "vm_views (insert_popouts ps ns vm) = vm_views vm" "vm_owner (insert_popouts ps ns vm) = vm_owner vm"
  "vm_closing (insert_popouts ps ns vm) = vm_closing vm" "vm_unknown (insert_popouts ps ns vm) = vm_unknown vm"
  "vm_version (insert_popouts ps ns vm) = vm_version vm" "vm_attrs_rev (insert_popouts ps ns vm) = vm_attrs_rev vm"
  by (induction ps ns vm rule: insert_popouts.induct) (auto simp: insert_window_entry_def)

lemma insert_popouts_windows: "length ns = length ps \<Longrightarrow> vm_windows (insert_popouts ps ns vm) = map_extend (renumbered ps ns) (vm_windows vm)"
  by (induction ps ns vm rule: insert_popouts.induct) (auto simp: insert_window_entry_def renumbered_def map_extend_def)

lemma held_none: "held wi Map.empty L = Some n \<longleftrightarrow> (\<exists>u. wi L = Some u \<and> wt_number u = n)"
  by (simp add: held_def split: option.split)

lemma renumbered_own:
  fixes wi :: "window_label \<rightharpoonup> 'f window_tabs"
  assumes tabs: "tabs_owned ow wi'" and ok: "\<And>L w. wi' L = Some w \<Longrightarrow> window_ok w" and vs: "dom ow \<subseteq> vs"
    and len: "length ns = length ps" and ps: "distinct (map fst ps)" "map_of ps = wi'(MAIN_WINDOW_LABEL := None)"
    and ns: "distinct ns" "\<forall>n \<in> set ns. 2 \<le> n"
    and main: "wi' MAIN_WINDOW_LABEL = Some m" "wt_tabs m' = wt_tabs m" "wt_active m' = wt_active m" "wt_number m' = MAIN_WINDOW_NUMBER"
  shows "own_ok ow ([MAIN_WINDOW_LABEL \<mapsto> m'] ++ map_of (renumbered ps ns)) Map.empty vs"
proof -
  let ?wi = "[MAIN_WINDOW_LABEL \<mapsto> m'] ++ map_of (renumbered ps ns)"
  have i: "i < length ps \<Longrightarrow> ps ! i = (L, w) \<Longrightarrow> L \<noteq> MAIN_WINDOW_LABEL \<and> wi' L = Some w" for i L w
    using map_of_is_SomeI[OF ps(1), of L w] nth_mem[of i ps] ps(2) by (auto split: if_splits)
  have W: "?wi L = Some u \<longleftrightarrow> (L = MAIN_WINDOW_LABEL \<and> u = m') \<or> (\<exists>i w. i < length ps \<and> ps ! i = (L, w) \<and> u = w\<lparr>wt_number := ns ! i\<rparr>)" for L u
    using renumbered_Some[OF len ps(1), of L] i by (auto simp: map_add_Some_iff) (metis not_None_eq)+
  have ex: "\<exists>i. i < length ps \<and> ps ! i = (L, w)" if "wi' L = Some w" "L \<noteq> MAIN_WINDOW_LABEL" for L w
  proof -
    have "map_of ps L = Some w" using that by (simp add: ps(2))
    then show ?thesis by (metis in_set_conv_nth map_of_SomeD)
  qed
  have shape: "\<exists>w. wi' L = Some w \<and> wt_tabs u = wt_tabs w \<and> wt_active u = wt_active w" if "?wi L = Some u" for L u
    using that i main by (auto simp: W)
  have again: "\<exists>u. ?wi L = Some u \<and> wt_tabs u = wt_tabs w" if "wi' L = Some w" for L w
    using that ex[OF that] main unfolding W by (cases "L = MAIN_WINDOW_LABEL") fastforce+
  have "tabs_owned ow ?wi"
  proof (rule tabs_ownedI)
    show "\<exists>u. ?wi L = Some u \<and> v \<in> set (wt_tabs u)" if "ow v = Some L" for v L
      using tabs_ownedD(1)[OF tabs that] again[of L] by (metis (no_types, lifting))
    show "ow v = Some L" if "?wi L = Some u" "v \<in> set (wt_tabs u)" for v L u
      using shape[OF that(1)] that(2) tabs_ownedD(2)[OF tabs] by auto
  qed
  moreover have "window_ok u" if "?wi L = Some u" for L u using shape[OF that] ok by (auto simp: window_ok_def)
  moreover have "held_ok (held ?wi Map.empty)"
  proof -
    have h: "held ?wi Map.empty L = Some n \<longleftrightarrow> (L = MAIN_WINDOW_LABEL \<and> n = MAIN_WINDOW_NUMBER) \<or> (\<exists>i w. i < length ps \<and> ps ! i = (L, w) \<and> n = ns ! i)" for L n
      unfolding held_none W using main(4) by (auto intro: exI[of _ m']) (metis (no_types, lifting) window_tabs.select_convs(6) window_tabs.surjective window_tabs.update_convs(6))
    have two: "MAIN_WINDOW_NUMBER < ns ! i" if "i < length ps" for i
    proof -
      have "2 \<le> ns ! i" using ns(2) that by (simp add: len[symmetric])
      then show ?thesis by (simp add: MAIN_WINDOW_NUMBER_def)
    qed
    have inj: "i < length ps \<Longrightarrow> j < length ps \<Longrightarrow> ns ! i = ns ! j \<longleftrightarrow> i = j" for i j using ns(1) len by (simp add: nth_eq_iff_index_eq)
    show ?thesis unfolding held_ok_def h using i two inj by (auto split: if_splits) (metis less_irrefl fst_conv)+
  qed
  ultimately show ?thesis using vs by (auto simp: own_ok_def numbers_ok_def map_add_Some_iff)
qed

section \<open>Adopting a layout at run time\<close>

lemma retire_fold_simps:
  "find_window (fold (\<lambda>l m. snd (retire_window_entry l OsGone m)) ls vm) = find_window vm |` (- set ls)"
  "vm_views (fold (\<lambda>l m. snd (retire_window_entry l OsGone m)) ls vm) = vm_views vm"
  "vm_owner (fold (\<lambda>l m. snd (retire_window_entry l OsGone m)) ls vm) = vm_owner vm"
  "vm_unknown (fold (\<lambda>l m. snd (retire_window_entry l OsGone m)) ls vm) = vm_unknown vm"
  "vm_version (fold (\<lambda>l m. snd (retire_window_entry l OsGone m)) ls vm) = vm_version vm"
  by (induction ls arbitrary: vm)
    (auto simp: retire_window_entry_def Let_def alist_maps restrict_map_def fun_eq_iff split: option.splits)

lemma retire_fold_keys:
  "distinct (map fst (vm_windows vm)) \<Longrightarrow> distinct (map fst (vm_windows (fold (\<lambda>l m. snd (retire_window_entry l OsGone m)) ls vm)))"
  by (induction ls arbitrary: vm) (auto simp: retire_window_entry_def Let_def distinct_delete split: option.splits)

lemma seed_simps [simp]:
  "vm_views (seed_agent_names xs vm) = vm_views vm" "vm_owner (seed_agent_names xs vm) = vm_owner vm" "vm_windows (seed_agent_names xs vm) = vm_windows vm"
  "vm_closing (seed_agent_names xs vm) = vm_closing vm" "vm_unknown (seed_agent_names xs vm) = vm_unknown vm"
  "vm_version (seed_agent_names xs vm) = vm_version vm" "vm_attrs_rev (seed_agent_names xs vm) = vm_attrs_rev vm"
  by (simp_all add: seed_agent_names_def)

lemma owned_views_set: "set (owned_views vm) = dom (owner_map vm)" if own: "vm_own vm" and "distinct (map fst (vm_windows vm))"
proof -
  have "v \<in> set (owned_views vm) \<longleftrightarrow> (\<exists>L w. find_window vm L = Some w \<and> v \<in> set (wt_tabs w))" for v
    using that(2) by (auto simp: owned_views_def map_of_eq_Some_iff)
  then show ?thesis using vm_ownD(1)[OF own] by (auto simp: dom_def)
qed

text \<open>What a successful adoption leaves, read as maps.\<close>

lemma adopt_maps:
  assumes own: "vm_own vm" and keys: "keys_ok vm" "keys_ok restored" and r: "adopt_restored restored vm = (Inr removed, vm')"
  obtains main live ps ns where "find_window restored MAIN_WINDOW_LABEL = Some main" "find_window vm MAIN_WINDOW_LABEL = Some live"
    "distinct (map fst ps)" "map_of ps = (find_window restored)(MAIN_WINDOW_LABEL := None)" "length ns = length ps" "distinct ns" "\<forall>n \<in> set ns. 2 \<le> n"
    "find_window vm' = [MAIN_WINDOW_LABEL \<mapsto> take_main main live] ++ map_of (renumbered ps ns)"
    "closing_map vm' = Map.empty" "owner_map vm' = owner_map restored"
    "find_view vm' = (find_view vm |` (- dom (owner_map vm))) ++ find_view restored"
    "map_of (vm_unknown vm') = (map_of (vm_unknown vm) |` (- dom (owner_map vm))) ++ map_of (vm_unknown restored)"
    "vm_version vm' = vm_version vm + 1" "dom (find_view restored) \<inter> dom (find_view vm) \<subseteq> dom (owner_map vm)"
proof -
  let ?owned = "owned_views vm" and ?windows = "AList.delete MAIN_WINDOW_LABEL (vm_windows restored)"
  from r obtain main where main: "find_window restored MAIN_WINDOW_LABEL = Some main" by (auto simp: adopt_restored_def split: option.splits)
  from r main obtain live where live: "find_window vm MAIN_WINDOW_LABEL = Some live" by (auto simp: adopt_restored_def Let_def split: if_splits)
  from r main live have f1: "find (\<lambda>l. find_window vm l \<noteq> None) (map fst ?windows) = None" by (auto simp: adopt_restored_def Let_def split: option.splits)
  from r main live f1 have f2: "find (\<lambda>v. find_view vm v \<noteq> None \<and> v \<notin> set ?owned) (map fst (vm_views restored)) = None"
    by (auto simp: adopt_restored_def Let_def split: option.splits)
  define vm1 where "vm1 = fold remove_view ?owned vm"
  define rem where "rem = sort (filter (\<lambda>l. l \<noteq> MAIN_WINDOW_LABEL) (map fst (vm_windows vm1)))"
  define vm2 where "vm2 = fold (\<lambda>l m. snd (retire_window_entry l OsGone m)) rem vm1"
  define vm3 where "vm3 = map_window MAIN_WINDOW_LABEL (take_main main) (vm2\<lparr>vm_closing := []\<rparr>)"
  define vm4 where "vm4 = vm3\<lparr>vm_views := map_extend (vm_views restored) (vm_views vm3), vm_owner := map_extend (vm_owner restored) (vm_owner vm3),
     vm_unknown := map_extend (vm_unknown restored) (vm_unknown vm3)\<rparr>"
  define vm5 where "vm5 = seed_agent_names (vm_agent_names restored) vm4"
  define ps where "ps = sort_key (\<lambda>(_, w). wt_number w) ?windows"
  define ns where "ns = resolve_saved (map (\<lambda>(_, w). Some (wt_number w)) ps) (held_numbers vm5)"
  have vm': "vm' = (let vm6 = bump_version (insert_popouts ps ns vm5) in vm6\<lparr>vm_attrs_rev := vm_attrs_rev vm6 + 1\<rparr>)"
  proof -
    have "adopt_restored restored vm = (Inr rem, let vm6 = bump_version (insert_popouts ps ns vm5) in vm6\<lparr>vm_attrs_rev := vm_attrs_rev vm6 + 1\<rparr>)"
      using main live f1 f2 by (simp add: adopt_restored_def Let_def vm1_def rem_def vm2_def vm3_def vm4_def vm5_def ps_def ns_def)
    then show ?thesis using r by simp
  qed
  have owned: "set ?owned = dom (owner_map vm)" by (rule owned_views_set[OF own]) (use keys in \<open>simp add: keys_ok_def\<close>)
  have "distinct (map fst ?windows)" using keys(2) by (simp add: keys_ok_def distinct_delete)
  then have ps: "distinct (map fst ps)" "map_of ps = (find_window restored)(MAIN_WINDOW_LABEL := None)"
    using sort_key_map_of[of ?windows] by (auto simp: ps_def alist_maps)
  have ns: "length ns = length ps" "distinct ns" "\<forall>n \<in> set ns. 2 \<le> n"
    using resolve_laws(1,2,4)[where saved = "map (\<lambda>(_, w). Some (wt_number w)) ps" and held = "held_numbers vm5"] by (simp_all add: ns_def)
  have w2: "find_window vm2 = [MAIN_WINDOW_LABEL \<mapsto> live]"
  proof -
    have "set rem = dom (find_window vm) - {MAIN_WINDOW_LABEL}" by (auto simp: rem_def vm1_def remove_views_simps dom_map_of_conv_image_fst)
    then show ?thesis using live by (auto simp: vm2_def retire_fold_simps vm1_def remove_views_simps restrict_map_def fun_eq_iff domIff)
  qed
  have w3: "find_window vm3 = [MAIN_WINDOW_LABEL \<mapsto> take_main main live]" using map_window_simps(7)[of "vm2\<lparr>vm_closing := []\<rparr>" MAIN_WINDOW_LABEL live "take_main main"]
    by (simp add: vm3_def w2)
  have o3: "owner_map vm3 = Map.empty" by (auto simp: vm3_def vm2_def retire_fold_simps vm1_def remove_views_simps owned restrict_map_def fun_eq_iff domIff)
  have v3: "find_view vm3 = find_view vm |` (- dom (owner_map vm))" "map_of (vm_unknown vm3) = map_of (vm_unknown vm) |` (- dom (owner_map vm))" "vm_version vm3 = vm_version vm"
    by (simp_all add: vm3_def vm2_def retire_fold_simps vm1_def remove_views_simps owned)
  show thesis
  proof
    show "find_window vm' = [MAIN_WINDOW_LABEL \<mapsto> take_main main live] ++ map_of (renumbered ps ns)"
      using ns(1) w3 by (simp add: vm' Let_def bump_version_def insert_popouts_windows map_extend_map renumbered_keys ps(1) vm5_def vm4_def)
    show "closing_map vm' = Map.empty" by (simp add: vm' Let_def bump_version_def vm5_def vm4_def vm3_def)
    show "owner_map vm' = owner_map restored" using keys(2) by (simp add: vm' Let_def bump_version_def vm5_def vm4_def map_extend_map keys_ok_def o3)
    show "find_view vm' = (find_view vm |` (- dom (owner_map vm))) ++ find_view restored"
      using keys(2) by (simp add: vm' Let_def bump_version_def vm5_def vm4_def map_extend_map keys_ok_def v3)
    show "map_of (vm_unknown vm') = (map_of (vm_unknown vm) |` (- dom (owner_map vm))) ++ map_of (vm_unknown restored)"
      using keys(2) by (simp add: vm' Let_def bump_version_def vm5_def vm4_def map_extend_map keys_ok_def v3)
    show "vm_version vm' = vm_version vm + 1" by (simp add: vm' Let_def bump_version_def vm5_def vm4_def v3)
    show "dom (find_view restored) \<inter> dom (find_view vm) \<subseteq> dom (owner_map vm)"
      using f2 owned by (auto simp: find_None_iff dom_map_of_conv_image_fst[of "vm_views restored"])
  qed (use main live ps ns in auto)
qed

lemma adopt_own:
  assumes "vm_own vm" "keys_ok vm" "keys_ok restored" "vm_own restored"
  shows "vm_own (snd (adopt_restored restored vm))"
proof (cases "fst (adopt_restored restored vm)")
  case (Inl e)
  then have "snd (adopt_restored restored vm) = vm" by (auto simp: adopt_restored_def Let_def split: option.splits if_splits)
  then show ?thesis using assms(1) by simp
next
  case (Inr removed)
  then have r: "adopt_restored restored vm = (Inr removed, snd (adopt_restored restored vm))" by (metis prod.collapse)
  show ?thesis
  proof (rule adopt_maps[OF assms(1-3) r])
    fix main live ps ns
    let ?vm' = "snd (adopt_restored restored vm)"
    assume A: "find_window restored MAIN_WINDOW_LABEL = Some main" "find_window vm MAIN_WINDOW_LABEL = Some live"
      "distinct (map fst ps)" "map_of ps = (find_window restored)(MAIN_WINDOW_LABEL := None)" "length ns = length ps" "distinct ns" "\<forall>n \<in> set ns. 2 \<le> n"
      "find_window ?vm' = [MAIN_WINDOW_LABEL \<mapsto> take_main main live] ++ map_of (renumbered ps ns)"
      "closing_map ?vm' = Map.empty" "owner_map ?vm' = owner_map restored" "find_view ?vm' = (find_view vm |` (- dom (owner_map vm))) ++ find_view restored"
      "map_of (vm_unknown ?vm') = (map_of (vm_unknown vm) |` (- dom (owner_map vm))) ++ map_of (vm_unknown restored)"
      "vm_version ?vm' = vm_version vm + 1" "dom (find_view restored) \<inter> dom (find_view vm) \<subseteq> dom (owner_map vm)"
    note R = own_okD[OF assms(4)[unfolded vm_own_def]]
    have n: "wt_number live = MAIN_WINDOW_NUMBER"
      using own_okD(3)[OF assms(1)[unfolded vm_own_def]] A(2) by (auto simp: numbers_ok_def held_ok_def held_def split: option.splits)
    have "own_ok (owner_map restored) ([MAIN_WINDOW_LABEL \<mapsto> take_main main live] ++ map_of (renumbered ps ns)) Map.empty (dom (find_view ?vm'))"
      by (rule renumbered_own[OF _ R(2) _ A(5,3,4,6,7) A(1)])
        (use assms(4) R(5) n in \<open>auto simp: vm_own_def own_ok_def take_main_def A(11)\<close>)
    then show "vm_own ?vm'" by (simp add: vm_own_def A(8-10))
  qed
qed

section \<open>A new layout, and one read back from disk\<close>

lemma own_main_only:
  assumes "distinct ids" "act \<in> set ids" "wt_tabs w = ids" "wt_active w = act" "wt_number w = MAIN_WINDOW_NUMBER" "set ids \<subseteq> vs"
  shows "own_ok (\<lambda>v. if v \<in> set ids then Some MAIN_WINDOW_LABEL else None) [MAIN_WINDOW_LABEL \<mapsto> w] Map.empty vs"
  using assms by (auto simp: own_ok_def tabs_owned_def window_ok_def numbers_ok_def held_ok_def held_def split: if_splits)

lemma own_new_many:
  assumes ok: "own_ok ow wi cl vs" and L: "wi L = None" "cl L = None" and ids: "\<And>v. v \<in> set ids \<Longrightarrow> ow v = None" "distinct ids"
    and w: "wt_tabs w = ids" "wt_active w \<in> set ids" "MAIN_WINDOW_NUMBER < wt_number w" "wt_number w \<notin> ran (held wi cl)"
  shows "own_ok (\<lambda>v. if v \<in> set ids then Some L else ow v) (wi(L \<mapsto> w)) cl (vs \<union> set ids)"
proof -
  have t: "tabs_owned ow wi" using ok by (simp add: own_ok_def)
  have "tabs_owned (\<lambda>v. if v \<in> set ids then Some L else ow v) (wi(L \<mapsto> w))"
  proof (rule tabs_ownedI)
    show "\<exists>u. (wi(L \<mapsto> w)) L' = Some u \<and> v \<in> set (wt_tabs u)" if "(if v \<in> set ids then Some L else ow v) = Some L'" for v L'
      using that tabs_ownedD(1)[OF t, of v L'] L w(1) by (auto split: if_splits)
    show "(if v \<in> set ids then Some L else ow v) = Some L'" if "(wi(L \<mapsto> w)) L' = Some u" "v \<in> set (wt_tabs u)" for v L' u
    proof (cases "L' = L")
      case False
      then have "ow v = Some L'" using that tabs_ownedD(2)[OF t] by simp
      then show ?thesis using ids(1)[of v] by (cases "v \<in> set ids") auto
    qed (use that w(1) in auto)
  qed
  moreover have "numbers_ok (wi(L \<mapsto> w)) cl"
    by (rule numbers_new[OF own_okD(3)[OF ok] L(2) _ w(3,4)]) (use own_okD(4)[OF ok] L(1) in auto)
  ultimately show ?thesis using ok w ids(2) by (auto simp: own_ok_def window_ok_def dom_def split: if_splits)
qed

lemma adopt_loop_maps:
  assumes "adopt_loop L xs vm = (True, vm')"
  shows "distinct (map vw_id xs)" "\<And>v. v \<in> vw_id ` set xs \<Longrightarrow> find_view vm v = None"
    "find_view vm' = find_view vm ++ map_of (map (\<lambda>x. (vw_id x, fixup_focus x)) xs)"
    "owner_map vm' = (\<lambda>v. if v \<in> vw_id ` set xs then Some L else owner_map vm v)"
    "vm_windows vm' = vm_windows vm" "vm_closing vm' = vm_closing vm" "vm_unknown vm' = vm_unknown vm"
proof -
  have "distinct (map vw_id xs) \<and> (\<forall>v. v \<in> vw_id ` set xs \<longrightarrow> find_view vm v = None) \<and>
    find_view vm' = find_view vm ++ map_of (map (\<lambda>x. (vw_id x, fixup_focus x)) xs) \<and>
    owner_map vm' = (\<lambda>v. if v \<in> vw_id ` set xs then Some L else owner_map vm v) \<and>
    vm_windows vm' = vm_windows vm \<and> vm_closing vm' = vm_closing vm \<and> vm_unknown vm' = vm_unknown vm"
    using assms
  proof (induction xs arbitrary: vm)
    case (Cons x xs)
    let ?vm1 = "put_view (fixup_focus x) (vw_id x) (set_owner (vw_id x) L vm)"
    have n: "find_view vm (vw_id x) = None" and r: "adopt_loop L xs ?vm1 = (True, vm')" using Cons.prems by (auto split: if_splits)
    have s: "find_view ?vm1 = (find_view vm)(vw_id x \<mapsto> fixup_focus x)" "owner_map ?vm1 = (owner_map vm)(vw_id x \<mapsto> L)"
      "vm_windows ?vm1 = vm_windows vm" "vm_closing ?vm1 = vm_closing vm" "vm_unknown ?vm1 = vm_unknown vm"
      by (simp_all add: put_view_def set_owner_def alist_maps)
    note IH = Cons.IH[OF r]
    have x: "vw_id x \<notin> vw_id ` set xs" using IH s(1) by auto
    have "map_of (map (\<lambda>x. (vw_id x, fixup_focus x)) xs) (vw_id x) = None" using x by (auto simp: map_of_eq_None_iff)
    then have "(find_view vm)(vw_id x \<mapsto> fixup_focus x) ++ map_of (map (\<lambda>x. (vw_id x, fixup_focus x)) xs)
        = find_view vm ++ map_of (map (\<lambda>x. (vw_id x, fixup_focus x)) (x # xs))"
      by (auto simp: fun_eq_iff map_add_def split: option.splits)
    then have 1: "find_view vm' = find_view vm ++ map_of (map (\<lambda>x. (vw_id x, fixup_focus x)) (x # xs))" using IH s(1) by (simp only:)
    have 2: "owner_map vm' = (\<lambda>v. if v \<in> vw_id ` set (x # xs) then Some L else owner_map vm v)" using IH by (auto simp: s(2) fun_eq_iff)
    have 3: "\<forall>v. v \<in> vw_id ` set (x # xs) \<longrightarrow> find_view vm v = None" using IH n x by (auto simp: s(1) split: if_splits)
    have 4: "distinct (map vw_id (x # xs))" "vm_windows vm' = vm_windows vm" "vm_closing vm' = vm_closing vm" "vm_unknown vm' = vm_unknown vm"
      using IH x s(3-5) by simp_all
    show ?case by (intro conjI) (rule 4 1 2 3)+
  qed auto
  note A = this
  show "find_view vm v = None" if "v \<in> vw_id ` set xs" for v using A that by (elim conjE allE[of _ v]) simp
  show "distinct (map vw_id xs)" "find_view vm' = find_view vm ++ map_of (map (\<lambda>x. (vw_id x, fixup_focus x)) xs)"
    "owner_map vm' = (\<lambda>v. if v \<in> vw_id ` set xs then Some L else owner_map vm v)"
    "vm_windows vm' = vm_windows vm" "vm_closing vm' = vm_closing vm" "vm_unknown vm' = vm_unknown vm"
    by (simp_all only: A)
qed

lemma adopt_tabs_Some: "adopt_tabs L xs act vm = (Some (tabs, active), vm') \<longleftrightarrow>
    tabs = map vw_id xs \<and> act = Some active \<and> active \<in> vw_id ` set xs \<and> adopt_loop L xs vm = (True, vm')"
  by (auto simp: adopt_tabs_def Let_def split: option.splits if_splits prod.splits bool.splits)

lemma adopt_dom: "dom (map_of (map (\<lambda>x. (vw_id x, f x)) xs)) \<union> dom m = dom m \<union> vw_id ` set xs"
  by (simp add: dom_map_of_conv_image_fst image_image Un_commute)

lemma restore_popouts_own:
  assumes "vm_own vm" "vm_closing vm = []" "distinct ns" "\<forall>n \<in> set ns. 2 \<le> n" "set ns \<inter> ran (held (find_window vm) Map.empty) = {}"
    and "restore_popouts ps ns vm = Some vm'"
  shows "vm_own vm'"
  using assms
proof (induction ps ns vm rule: restore_popouts.induct)
  case (3 L wid w ps n ns vm)
  have L: "find_window vm L = None" using "3.prems"(6) by (auto split: if_splits)
  obtain active vm1 where a: "adopt_tabs L (rw_tabs w) (rw_active w) vm = (Some (map vw_id (rw_tabs w), active), vm1)" "active \<in> vw_id ` set (rw_tabs w)"
    and l: "adopt_loop L (rw_tabs w) vm = (True, vm1)"
    using "3.prems"(6) by (auto simp: adopt_tabs_Some split: if_splits option.splits prod.splits)
  let ?e = "window_new wid n (rw_attrs w) (map vw_id (rw_tabs w)) active"
  let ?vm2 = "insert_window_entry L ?e vm1"
  note M = adopt_loop_maps[OF l]
  have r: "restore_popouts ps ns ?vm2 = Some vm'" using "3.prems"(6) a by (auto split: if_splits)
  have e: "wt_number ?e = n" "wt_tabs ?e = map vw_id (rw_tabs w)" "wt_active ?e = active" by (simp_all add: window_new_def)
  have cl: "closing_map vm = Map.empty" using "3.prems"(2) by simp
  have "own_ok (\<lambda>v. if v \<in> set (map vw_id (rw_tabs w)) then Some L else owner_map vm v) ((find_window vm)(L \<mapsto> ?e)) (closing_map vm)
      (dom (find_view vm) \<union> set (map vw_id (rw_tabs w)))"
  proof (rule own_new_many[OF "3.prems"(1)[unfolded vm_own_def] L])
    show "wt_number ?e \<notin> ran (held (find_window vm) (closing_map vm))" using "3.prems"(5) e by (simp add: cl)
    show "MAIN_WINDOW_NUMBER < wt_number ?e" using "3.prems"(4) e by (simp add: MAIN_WINDOW_NUMBER_def)
    show "owner_map vm v = None" if "v \<in> set (map vw_id (rw_tabs w))" for v using vm_ownD(5)[OF "3.prems"(1)] M(2) that by auto
  qed (use e a M(1) in \<open>simp_all add: cl\<close>)
  then have own2: "vm_own ?vm2" by (simp add: vm_own_def insert_window_entry_def M alist_maps adopt_dom)
  have h: "held (find_window ?vm2) Map.empty = (held (find_window vm) Map.empty)(L \<mapsto> n)"
    by (simp add: insert_window_entry_def M alist_maps held_simps(2) e)
  have "ran (held (find_window ?vm2) Map.empty) \<subseteq> insert n (ran (held (find_window vm) Map.empty))" unfolding h by (auto simp: ran_def)
  then have d: "set ns \<inter> ran (held (find_window ?vm2) Map.empty) = {}" using "3.prems"(3,5) by auto
  have c: "find_window vm L = None" "rw_tabs w \<noteq> []" using L a(2) by auto
  show ?case
    by (rule "3.IH"[OF _ c(2) a(1)[symmetric] refl refl own2 _ _ _ d r]) (use c(1) "3.prems"(2,3,4) in \<open>simp_all add: insert_window_entry_def M\<close>)
qed auto

lemma vm_new_own: "vm_own (vm_new nv ns)"
  using own_main_only[of "[nv]" nv "window_new_main attrs_default [nv] nv" "{nv}"]
  by (simp add: vm_own_def vm_new_def insert_window_entry_def set_owner_def make_view_def put_view_def vm_blank_def window_new_main_def window_new_def
      Let_def fun_upd_def dom_def cong: if_cong)

lemma from_restored_own: "vm_own vm'" if r: "from_restored nv ns main popouts = Some (vm' :: ('f, 'j) view_manager)"
proof -
  let ?ns = "resolve_saved (map (\<lambda>(_, _, p). rw_number p) popouts) [MAIN_WINDOW_NUMBER]"
  note RL = resolve_laws[where saved = "map (\<lambda>(_, _, p). rw_number p) popouts" and held = "[MAIN_WINDOW_NUMBER]"]
  have step: "vm_own vm'" if "vm_own vm1" "vm_closing vm1 = []" "dom (find_window vm1) = {MAIN_WINDOW_LABEL}" "restore_popouts popouts ?ns vm1 = Some vm'"
    for vm1 :: "('f, 'j) view_manager"
  proof (rule restore_popouts_own[OF that(1,2) RL(2,4) _ that(4)])
    have "held (find_window vm1) Map.empty L = Some n \<Longrightarrow> n = MAIN_WINDOW_NUMBER" for L n
      using own_okD(3)[OF that(1)[unfolded vm_own_def]] that(2,3)
      by (auto simp: numbers_ok_def held_ok_def held_none split: if_splits) (metis domI singletonD)
    then have "ran (held (find_window vm1) Map.empty) \<subseteq> {MAIN_WINDOW_NUMBER}" by (auto simp: ran_def)
    then show "set ?ns \<inter> ran (held (find_window vm1) Map.empty) = {}" using RL(3) by auto
  qed
  show "vm_own vm'"
  proof (cases "rw_tabs main = []")
    case True
    let ?vm1 = "insert_window_entry MAIN_WINDOW_LABEL (window_new_main (rw_attrs main) [nv] nv) (set_owner nv MAIN_WINDOW_LABEL (make_view nv ns vm_blank)) :: ('f, 'j) view_manager"
    have "vm_own ?vm1" using own_main_only[of "[nv]" nv "window_new_main (rw_attrs main) [nv] nv" "{nv}"]
      by (simp add: vm_own_def insert_window_entry_def set_owner_def make_view_def put_view_def vm_blank_def window_new_main_def window_new_def
        Let_def fun_upd_def dom_def cong: if_cong)
    then show ?thesis by (rule step) (use r True in \<open>auto simp: from_restored_def insert_window_entry_def set_owner_def make_view_def put_view_def vm_blank_def Let_def\<close>)
  next
    case False
    then obtain active vm0 where a: "adopt_loop MAIN_WINDOW_LABEL (rw_tabs main) (vm_blank :: ('f, 'j) view_manager) = (True, vm0)" "active \<in> vw_id ` set (rw_tabs main)"
      and r': "restore_popouts popouts ?ns (insert_window_entry MAIN_WINDOW_LABEL (window_new_main (rw_attrs main) (map vw_id (rw_tabs main)) active) vm0) = Some vm'"
      using r by (auto simp: from_restored_def Let_def adopt_tabs_Some split: option.splits prod.splits)
    note M = adopt_loop_maps[OF a(1)]
    let ?vm1 = "insert_window_entry MAIN_WINDOW_LABEL (window_new_main (rw_attrs main) (map vw_id (rw_tabs main)) active) vm0"
    have "own_ok (\<lambda>v. if v \<in> set (map vw_id (rw_tabs main)) then Some MAIN_WINDOW_LABEL else None)
        [MAIN_WINDOW_LABEL \<mapsto> window_new_main (rw_attrs main) (map vw_id (rw_tabs main)) active] Map.empty (vw_id ` set (rw_tabs main))"
      by (rule own_main_only) (use M(1) a(2) in \<open>auto simp: window_new_main_def window_new_def\<close>)
    moreover have "dom (find_view vm0) = vw_id ` set (rw_tabs main)" by (auto simp: M(3) vm_blank_def dom_map_of_conv_image_fst image_image)
    ultimately have "vm_own ?vm1" by (simp add: vm_own_def insert_window_entry_def M vm_blank_def alist_maps cong: if_cong)
    then show ?thesis by (rule step) (use r' M in \<open>auto simp: insert_window_entry_def alist_maps vm_blank_def\<close>)
  qed
qed

end
