(* ===== verification/View_Trees.thy ===== *)
theory View_Trees
  imports View_Adopt
begin

text \<open>
  What holds of the views: each carries its own identifier, its tree uses an identifier once and its focus is one of
  its slots; no two views share a slot or a split; a content kept aside because this version cannot read it belongs to
  a slot of an existing view that reads as empty.
\<close>

section \<open>Views over maps\<close>

abbreviation slots_of :: "'f view \<Rightarrow> uuid set" where
  "slots_of x \<equiv> set (slot_ids (vw_layout x))"

abbreviation splits_of :: "'f view \<Rightarrow> uuid set" where
  "splits_of x \<equiv> set (split_ids (vw_layout x))"

definition view_shape :: "view_id \<Rightarrow> 'f view \<Rightarrow> bool" where
  "view_shape v x \<longleftrightarrow> vw_id x = v \<and> tree_ok (vw_layout x) \<and> (\<exists>s \<in> slots_of x. vw_focused x = Some s)"

definition apart :: "'f view \<Rightarrow> 'f view \<Rightarrow> bool" where
  "apart x y \<longleftrightarrow> slots_of x \<inter> slots_of y = {} \<and> splits_of x \<inter> splits_of y = {}"

definition raw_ok :: "'f view \<Rightarrow> (uuid \<times> 'j) list \<Rightarrow> bool" where
  "raw_ok x sl \<longleftrightarrow> sl \<noteq> [] \<and> distinct (map fst sl) \<and> (\<forall>s \<in> fst ` set sl. find_slot (vw_layout x) s = Some Empty)"

definition views_ok :: "(view_id \<rightharpoonup> 'f view) \<Rightarrow> (view_id \<rightharpoonup> (uuid \<times> 'j) list) \<Rightarrow> bool" where
  "views_ok fv un \<longleftrightarrow> (\<forall>v x. fv v = Some x \<longrightarrow> view_shape v x) \<and> (\<forall>v x u y. fv v = Some x \<longrightarrow> fv u = Some y \<longrightarrow> u \<noteq> v \<longrightarrow> apart x y) \<and>
     (\<forall>v sl. un v = Some sl \<longrightarrow> (\<exists>x. fv v = Some x \<and> raw_ok x sl))"

lemma apart_sym: "apart x y \<longleftrightarrow> apart y x"
  by (auto simp: apart_def)

lemma views_okD:
  assumes "views_ok fv un"
  shows "fv v = Some x \<Longrightarrow> view_shape v x" "\<lbrakk>fv v = Some x; fv u = Some y; u \<noteq> v\<rbrakk> \<Longrightarrow> apart x y"
    "un v = Some sl \<Longrightarrow> \<exists>x. fv v = Some x \<and> raw_ok x sl" "fv v = None \<Longrightarrow> un v = None"
  using assms unfolding views_ok_def by (blast, blast, blast, metis not_None_eq)

lemma views_put:
  assumes "views_ok fv un" "view_shape v x'" "\<And>u y. fv u = Some y \<Longrightarrow> u \<noteq> v \<Longrightarrow> apart x' y"
    "\<And>u. u \<noteq> v \<Longrightarrow> un' u = un u" "\<And>sl. un' v = Some sl \<Longrightarrow> raw_ok x' sl"
  shows "views_ok (fv(v \<mapsto> x')) un'"
  unfolding views_ok_def
proof (intro conjI allI impI)
  show "view_shape u y" if "(fv(v \<mapsto> x')) u = Some y" for u y using that assms(2) views_okD(1)[OF assms(1)] by (auto split: if_splits)
  show "apart y z" if "(fv(v \<mapsto> x')) u = Some y" "(fv(v \<mapsto> x')) t = Some z" "t \<noteq> u" for u y t z
    using that assms(3)[of u y] assms(3)[of t z] views_okD(2)[OF assms(1), of u y t z] apart_sym[of y z] by (auto split: if_splits)
  show "\<exists>y. (fv(v \<mapsto> x')) u = Some y \<and> raw_ok y sl" if "un' u = Some sl" for u sl
    using that assms(4)[of u] assms(5)[of sl] views_okD(3)[OF assms(1), of u sl] by (cases "u = v") auto
qed

lemma views_drop: "views_ok fv un \<Longrightarrow> views_ok (fv |` A) (un |` A)"
  unfolding views_ok_def restrict_map_def by (simp split: if_splits)

text \<open>An identifier nobody uses.\<close>

definition new_ids :: "uuid \<Rightarrow> uuid \<Rightarrow> (view_id \<rightharpoonup> 'f view) \<Rightarrow> bool" where
  "new_ids n m fv \<longleftrightarrow> (\<forall>u y. fv u = Some y \<longrightarrow> n \<notin> slots_of y \<and> m \<notin> splits_of y)"

lemma apart_grow:
  assumes "apart x y" "n \<notin> slots_of y" "m \<notin> splits_of y" "slots_of x' \<subseteq> insert n (slots_of x)" "splits_of x' \<subseteq> insert m (splits_of x)"
  shows "apart x' y"
  using assms unfolding apart_def by blast

lemma views_change:
  assumes ok: "views_ok fv un" and x: "fv v = Some x" and new: "new_ids n m fv"
    and x': "view_shape v x'" "slots_of x' \<subseteq> insert n (slots_of x)" "splits_of x' \<subseteq> insert m (splits_of x)"
    and un': "\<And>u. u \<noteq> v \<Longrightarrow> un' u = un u" "\<And>sl. un' v = Some sl \<Longrightarrow> raw_ok x' sl"
  shows "views_ok (fv(v \<mapsto> x')) un'"
proof (rule views_put[OF ok x'(1) _ un'])
  show "apart x' y" if "fv u = Some y" "u \<noteq> v" for u y
    by (rule apart_grow[OF views_okD(2)[OF ok x that] _ _ x'(2,3)]) (use new that(1) in \<open>auto simp: new_ids_def\<close>)
qed simp_all

lemma views_within:
  assumes ok: "views_ok fv un" and x: "fv v = Some x" and x': "view_shape v x'" "slots_of x' \<subseteq> slots_of x" "splits_of x' \<subseteq> splits_of x"
    and un': "\<And>u. u \<noteq> v \<Longrightarrow> un' u = un u" "\<And>sl. un' v = Some sl \<Longrightarrow> raw_ok x' sl"
  shows "views_ok (fv(v \<mapsto> x')) un'"
proof (rule views_put[OF ok x'(1) _ un'])
  show "apart x' y" if "fv u = Some y" "u \<noteq> v" for u y
    using views_okD(2)[OF ok x that] x'(2,3) unfolding apart_def by blast
qed simp_all

section \<open>Views in the layout authority\<close>

abbreviation unknown_map :: "('f, 'j) view_manager \<Rightarrow> view_id \<rightharpoonup> (uuid \<times> 'j) list" where
  "unknown_map vm \<equiv> map_of (vm_unknown vm)"

definition vm_views_ok :: "('f, 'j) view_manager \<Rightarrow> bool" where
  "vm_views_ok vm \<longleftrightarrow> views_ok (find_view vm) (unknown_map vm)"

lemma vm_views_frame: "\<lbrakk>vm_views_ok vm; vm_views vm' = vm_views vm; vm_unknown vm' = vm_unknown vm\<rbrakk> \<Longrightarrow> vm_views_ok vm'"
  by (simp add: vm_views_ok_def)

lemma vm_views_simps [simp]:
  "vm_views_ok (bump_version vm) = vm_views_ok vm" "vm_views_ok (set_owner v L vm) = vm_views_ok vm"
  "vm_views_ok (map_window L f vm) = vm_views_ok vm" "vm_views_ok (insert_new_popout nwin L v vm) = vm_views_ok vm"
  "vm_views_ok (activate L v vm) = vm_views_ok vm"
  by (simp_all add: vm_views_ok_def bump_version_def set_owner_def insert_new_popout_def insert_window_entry_def activate_def)

lemma remove_view_trees: "vm_views_ok vm \<Longrightarrow> vm_views_ok (remove_view v vm)"
  using views_drop[of "find_view vm" "unknown_map vm" "- {v}"]
  by (simp add: vm_views_ok_def remove_view_def alist_maps restrict_complement_singleton_eq)

lemma make_view_trees:
  assumes "vm_views_ok vm" "find_view vm nv = None" "new_ids ns m (find_view vm)"
  shows "vm_views_ok (make_view nv ns vm)"
proof -
  let ?x = "\<lparr>vw_id = nv, vw_name = TabAuto, vw_layout = new_empty_slot ns, vw_focused = Some ns\<rparr>"
  have "views_ok ((find_view vm)(nv \<mapsto> ?x)) (unknown_map vm)"
    by (rule views_put[OF assms(1)[unfolded vm_views_ok_def]])
      (use assms views_okD(4)[OF assms(1)[unfolded vm_views_ok_def] assms(2)]
        in \<open>auto simp: view_shape_def tree_ok_def new_empty_slot_def apart_def new_ids_def\<close>)
  then show ?thesis by (simp add: vm_views_ok_def)
qed

text \<open>A view changes and its tree does not.\<close>

lemma put_same_tree:
  assumes "vm_views_ok vm" "find_view vm v = Some x" "view_shape v x'" "vw_layout x' = vw_layout x"
  shows "vm_views_ok (put_view x' v vm)"
proof -
  have "views_ok ((find_view vm)(v \<mapsto> x')) (unknown_map vm)"
  proof (rule views_within[OF assms(1)[unfolded vm_views_ok_def] assms(2,3)])
    show "raw_ok x' sl" if "unknown_map vm v = Some sl" for sl
      using views_okD(3)[OF assms(1)[unfolded vm_views_ok_def] that] assms(2,4) by (auto simp: raw_ok_def)
  qed (use assms(4) in auto)
  then show ?thesis by (simp add: vm_views_ok_def put_view_def alist_maps)
qed

section \<open>Contents kept aside\<close>

lemma forget_map:
  "unknown_map (forget_unknown v s vm) u = (if u = v then case unknown_map vm v of None \<Rightarrow> None
     | Some sl \<Rightarrow> if AList.delete s sl = [] then None else Some (AList.delete s sl) else unknown_map vm u)"
  by (auto simp: forget_unknown_def Let_def alist_maps split: option.splits)

lemma remember_map:
  "unknown_map (remember_unknown v s raw vm) = (unknown_map vm)(v \<mapsto> AList.update s raw (alist_get [] (vm_unknown vm) v))"
  by (simp add: remember_unknown_def alist_maps)

lemma alist_get_map: "alist_get d m k = (case map_of m k of None \<Rightarrow> d | Some x \<Rightarrow> x)"
  by (simp add: alist_get_def)

lemma raw_ok_delete:
  "\<lbrakk>raw_ok x l; AList.delete s l \<noteq> []; \<And>k. k \<noteq> s \<Longrightarrow> find_slot (vw_layout x) k = Some Empty \<Longrightarrow> find_slot (vw_layout x') k = Some Empty\<rbrakk>
   \<Longrightarrow> raw_ok x' (AList.delete s l)"
  by (auto simp: raw_ok_def AList.delete_eq distinct_map_filter)

text \<open>A content is written: the tree changes in that slot only, and what was kept aside for it is forgotten.\<close>

lemma write_hit:
  assumes ok: "vm_views_ok vm" and x: "find_view vm v = Some x" and s: "s \<in> slots_of x"
  obtains t where "write_slot_content v s c vm = (Inr (), forget_unknown v s (put_view (x\<lparr>vw_layout := t\<rparr>) v vm))"
    "slot_ids t = slot_ids (vw_layout x)" "split_ids t = split_ids (vw_layout x)" "find_slot t = (find_slot (vw_layout x))(s \<mapsto> c)"
    "vm_views_ok (forget_unknown v s (put_view (x\<lparr>vw_layout := t\<rparr>) v vm))"
proof -
  from set_hit[OF s, of c] obtain t where t: "set_in_tree (vw_layout x) s c = (True, t)" "slot_ids t = slot_ids (vw_layout x)"
    "list_splits t = list_splits (vw_layout x)" "find_slot t = (find_slot (vw_layout x))(s \<mapsto> c)" by blast
  have sp: "split_ids t = split_ids (vw_layout x)" using t(3) list_splits_ids by metis
  let ?vm' = "forget_unknown v s (put_view (x\<lparr>vw_layout := t\<rparr>) v vm)"
  have shape: "view_shape v x" by (rule views_okD(1)[OF ok[unfolded vm_views_ok_def] x])
  have "views_ok ((find_view vm)(v \<mapsto> x\<lparr>vw_layout := t\<rparr>)) (unknown_map ?vm')"
  proof (rule views_within[OF ok[unfolded vm_views_ok_def] x])
    show "view_shape v (x\<lparr>vw_layout := t\<rparr>)" using shape t(2) sp by (simp add: view_shape_def tree_ok_def)
    show "raw_ok (x\<lparr>vw_layout := t\<rparr>) sl" if "unknown_map ?vm' v = Some sl" for sl
    proof -
      obtain sl0 where "unknown_map vm v = Some sl0" "sl = AList.delete s sl0" "sl \<noteq> []"
      proof (cases "unknown_map vm v")
        case (Some l)
        then show ?thesis using that \<open>unknown_map ?vm' v = Some sl\<close> by (cases "AList.delete s l = []") (simp_all add: forget_map put_view_def)
      qed (use \<open>unknown_map ?vm' v = Some sl\<close> in \<open>simp add: forget_map put_view_def\<close>)
      then show ?thesis using views_okD(3)[OF ok[unfolded vm_views_ok_def], of v sl0] x t(4) by (auto intro!: raw_ok_delete[of x])
    qed
  qed (use t(2) sp in \<open>auto simp: forget_map put_view_def\<close>)
  then have "vm_views_ok ?vm'" by (simp add: vm_views_ok_def put_view_def alist_maps)
  with t sp x show thesis by (intro that[of t]) (simp_all add: write_slot_content_def)
qed

lemma write_miss:
  "(\<And>x. find_view vm v = Some x \<Longrightarrow> s \<notin> slots_of x) \<Longrightarrow>
   write_slot_content v s c vm = (Inl (case find_view vm v of None \<Rightarrow> ViewNotFound v | Some _ \<Rightarrow> SlotNotFound s), vm)"
  by (cases "find_view vm v") (simp_all add: write_slot_content_def set_miss put_view_def update_triv)

lemma write_trees: "vm_views_ok (snd (write_slot_content v s c vm))" if ok: "vm_views_ok vm"
proof (cases "\<exists>x. find_view vm v = Some x \<and> s \<in> slots_of x")
  case True
  then obtain x where x: "find_view vm v = Some x" "s \<in> slots_of x" by blast
  show ?thesis by (rule write_hit[OF ok x, of c]) simp
next
  case False
  then have "write_slot_content v s c vm = (Inl (case find_view vm v of None \<Rightarrow> ViewNotFound v | Some _ \<Rightarrow> SlotNotFound s), vm)"
    by (intro write_miss) blast
  with ok show ?thesis by simp
qed

lemma remember_trees:
  assumes ok: "vm_views_ok vm" and x: "find_view vm v = Some x" "find_slot (vw_layout x) s = Some Empty"
  shows "vm_views_ok (remember_unknown v s raw vm)"
proof -
  have "views_ok ((find_view vm)(v \<mapsto> x)) (unknown_map (remember_unknown v s raw vm))"
  proof (rule views_within[OF ok[unfolded vm_views_ok_def] x(1)])
    show "view_shape v x" by (rule views_okD(1)[OF ok[unfolded vm_views_ok_def] x(1)])
    show "raw_ok x sl" if "unknown_map (remember_unknown v s raw vm) v = Some sl" for sl
    proof -
      have sl: "sl = AList.update s raw (case unknown_map vm v of None \<Rightarrow> [] | Some l \<Rightarrow> l)" using that by (simp add: remember_map alist_get_map)
      have "find_slot (vw_layout x) k = Some Empty" if "k \<in> fst ` set (case unknown_map vm v of None \<Rightarrow> [] | Some l \<Rightarrow> l)" for k
        using that views_okD(3)[OF ok[unfolded vm_views_ok_def], of v] x(1) by (cases "unknown_map vm v") (auto simp: raw_ok_def)
      moreover have "distinct (map fst (case unknown_map vm v of None \<Rightarrow> [] | Some l \<Rightarrow> l))"
        using views_okD(3)[OF ok[unfolded vm_views_ok_def], of v] by (cases "unknown_map vm v") (auto simp: raw_ok_def)
      ultimately show ?thesis using x(2) by (auto simp: raw_ok_def sl dom_update distinct_update)
    qed
  qed (simp_all add: remember_map)
  then show ?thesis using x(1) by (simp add: vm_views_ok_def remember_unknown_def fun_upd_idem)
qed

section \<open>Operations on slots\<close>

lemma put_grow:
  assumes ok: "vm_views_ok vm" and x: "find_view vm v = Some x" and new: "new_ids n m (find_view vm)"
    and x': "view_shape v x'" "slots_of x' \<subseteq> insert n (slots_of x)" "splits_of x' \<subseteq> insert m (splits_of x)"
    and keep: "\<And>s. find_slot (vw_layout x) s = Some Empty \<Longrightarrow> find_slot (vw_layout x') s = Some Empty"
  shows "vm_views_ok (put_view x' v vm)"
proof -
  have "views_ok ((find_view vm)(v \<mapsto> x')) (unknown_map vm)"
  proof (rule views_change[OF ok[unfolded vm_views_ok_def] x new x'])
    show "raw_ok x' sl" if "unknown_map vm v = Some sl" for sl
      using views_okD(3)[OF ok[unfolded vm_views_ok_def] that] x keep by (auto simp: raw_ok_def)
  qed simp
  then show ?thesis by (simp add: vm_views_ok_def put_view_def alist_maps)
qed

lemma shape_parts:
  assumes "vm_views_ok vm" "find_view vm v = Some x"
  shows "view_shape v x" "vw_id x = v" "tree_ok (vw_layout x)" "distinct (slot_ids (vw_layout x))"
  using views_okD(1)[OF assms(1)[unfolded vm_views_ok_def] assms(2)] by (auto simp: view_shape_def tree_ok_def)

lemma split_slot_trees:
  assumes ok: "vm_views_ok vm" and new: "new_ids ns np (find_view vm)"
  shows "vm_views_ok (snd (split_slot mt ns np v s dir vm))"
proof (cases "find_view vm v")
  case (Some x)
  note S = shape_parts[OF ok Some]
  have n: "ns \<notin> slots_of x" "np \<notin> splits_of x" using new Some by (auto simp: new_ids_def)
  show ?thesis
  proof (cases "s \<in> slots_of x")
    case True
    obtain t where t: "split_in_tree (mt_half mt) ns np (vw_layout x) s dir = (Some ns, t)" "slot_ids t = subst_id s [s, ns] (slot_ids (vw_layout x))"
      "set (split_ids t) = insert np (splits_of x)" using split_hit[OF True S(4)] by blast
    have ids: "set (slot_ids t) = insert ns (slots_of x)" using True t(2) by (auto simp: subst_id_def split: if_splits)
    have "tree_ok t" using tree_ok_split[OF S(3) n, of "mt_half mt" s dir] t(1) by simp
    then have "vm_views_ok (put_view (x\<lparr>vw_layout := t, vw_focused := Some ns\<rparr>) v vm)"
      using split_find[OF True S(4) n(1), of "mt_half mt" np dir] S(2) t ids
      by (intro put_grow[OF ok Some new]) (auto simp: view_shape_def)
    then show ?thesis using ok Some t(1) by (simp add: split_slot_def)
  next
    case False
    then show ?thesis using ok Some by (simp add: split_slot_def split_miss put_view_def update_triv)
  qed
qed (simp add: split_slot_def ok)

lemma set_ratio_trees: "vm_views_ok (snd (set_split_ratio mt v m r vm))" if ok: "vm_views_ok vm"
proof (cases "find_view vm v")
  case (Some x)
  note S = shape_parts[OF ok Some]
  have "vm_views_ok (put_view (x\<lparr>vw_layout := snd (set_ratio_in_tree (vw_layout x) m w)\<rparr>) v vm)" for w
  proof (cases "m \<in> splits_of x")
    case True
    obtain t where t: "set_ratio_in_tree (vw_layout x) m w = (True, t)" "slot_ids t = slot_ids (vw_layout x)"
      "split_ids t = split_ids (vw_layout x)" "find_slot t = find_slot (vw_layout x)" using ratio_hit[OF True, of w] by blast
    have "views_ok ((find_view vm)(v \<mapsto> x\<lparr>vw_layout := t\<rparr>)) (unknown_map vm)"
      by (rule views_within[OF ok[unfolded vm_views_ok_def] Some])
        (use S(1) t views_okD(3)[OF ok[unfolded vm_views_ok_def], of v] Some in \<open>auto simp: view_shape_def tree_ok_def raw_ok_def\<close>)
    then show ?thesis using t(1) by (simp add: vm_views_ok_def put_view_def alist_maps)
  qed (use ok Some in \<open>simp add: ratio_miss put_view_def update_triv\<close>)
  then show ?thesis using ok Some by (simp add: set_split_ratio_def Let_def split: sum.splits option.splits)
qed (auto simp: set_split_ratio_def ok split: sum.splits)

lemma fixup_shape: "vw_id x = v \<Longrightarrow> tree_ok (vw_layout x) \<Longrightarrow> view_shape v (fixup_focus x)" "vw_layout (fixup_focus x) = vw_layout x"
  "vw_id (fixup_focus x) = vw_id x"
proof -
  have "first_slot_id (vw_layout x) \<in> slots_of x" by (simp add: first_slot)
  then show "vw_id x = v \<Longrightarrow> tree_ok (vw_layout x) \<Longrightarrow> view_shape v (fixup_focus x)" "vw_layout (fixup_focus x) = vw_layout x"
    "vw_id (fixup_focus x) = vw_id x"
    by (auto simp: fixup_focus_def view_shape_def contains_iff split: option.splits)
qed

lemma apart_fixup [simp]: "apart (fixup_focus x) y = apart x y"
  by (simp add: apart_def fixup_shape)

lemma close_slot_trees:
  assumes ok: "vm_views_ok vm" and new: "new_ids ns np (find_view vm)"
  shows "vm_views_ok (snd (close_slot ns v s vm))"
proof (cases "\<exists>x. find_view vm v = Some x \<and> s \<in> slots_of x")
  case True
  then obtain x where x: "find_view vm v = Some x" "s \<in> slots_of x" by blast
  note S = shape_parts[OF ok x(1)]
  obtain t where t: "close_in_tree ns (vw_layout x) s = (True, t)"
    and ids: "set (slot_ids t) \<subseteq> insert ns (slots_of x)" "set (split_ids t) \<subseteq> insert np (splits_of x)"
    and keep: "\<And>k. k \<noteq> s \<Longrightarrow> find_slot (vw_layout x) k = Some Empty \<Longrightarrow> find_slot t k = Some Empty"
  proof (cases "slot_ids (vw_layout x) = [s]")
    case True
    show thesis
    proof (rule that[of "new_empty_slot ns"])
      show "find_slot (new_empty_slot ns :: 'a layout_node) k = Some Empty" if "k \<noteq> s" "find_slot (vw_layout x) k = Some Empty" for k
        using that True find_slot_None[of "vw_layout x" k] by auto
    qed (use close_last[OF True, of ns] in \<open>simp_all add: new_empty_slot_def\<close>)
  next
    case False
    obtain t where "close_in_tree ns (vw_layout x) s = (True, t)" "closes_to s (vw_layout x) t" using close_hit[OF x(2) S(4) False, of ns] by blast
    then show thesis by (intro that[of t]) (auto simp: closes_to_def dest: list_emb_set)
  qed
  let ?x' = "fixup_focus (x\<lparr>vw_layout := t\<rparr>)"
  let ?vm' = "forget_unknown v s (put_view ?x' v vm)"
  have "tree_ok t" using tree_ok_close[OF S(3), of ns s] t by simp
  then have shape: "view_shape v ?x'" using S(2) by (intro fixup_shape(1)) simp_all
  have "views_ok ((find_view vm)(v \<mapsto> ?x')) (unknown_map ?vm')"
  proof (rule views_change[OF ok[unfolded vm_views_ok_def] x(1) new shape])
    show "raw_ok ?x' sl" if sl: "unknown_map ?vm' v = Some sl" for sl
    proof (cases "unknown_map vm v")
      case (Some l)
      then have "sl = AList.delete s l" "sl \<noteq> []" using sl by (cases "AList.delete s l = []"; simp add: forget_map put_view_def)+
      then show ?thesis using views_okD(3)[OF ok[unfolded vm_views_ok_def] Some] x(1) keep by (auto intro!: raw_ok_delete[of x] simp: fixup_shape)
    qed (use sl in \<open>simp add: forget_map put_view_def\<close>)
  qed (use ids in \<open>auto simp: fixup_shape forget_map put_view_def\<close>)
  then have "vm_views_ok ?vm'" by (simp add: vm_views_ok_def put_view_def alist_maps)
  then show ?thesis using x(1) t by (simp add: close_slot_def)
next
  case False
  then show ?thesis using ok by (cases "find_view vm v") (simp_all add: close_slot_def close_miss put_view_def update_triv)
qed

lemma slot_ops_trees:
  assumes ok: "vm_views_ok vm"
  shows "vm_views_ok (snd (set_focused_slot v s vm))" "vm_views_ok (snd (rename_tab v name vm))" "vm_views_ok (snd (set_slot_content v s c vm))"
    "vm_views_ok (snd (assign_agent v s a vm))"
proof -
  have w: "vm_views_ok vm'" if "write_slot_content v s c' vm = (r, vm')" for c' r vm' using write_trees[OF ok, of v s c'] that by simp
  show "vm_views_ok (snd (set_slot_content v s c vm))" "vm_views_ok (snd (assign_agent v s a vm))"
    using w by (auto simp: set_slot_content_def assign_agent_def split: prod.splits sum.splits)
  show "vm_views_ok (snd (set_focused_slot v s vm))" "vm_views_ok (snd (rename_tab v name vm))"
    using ok shape_parts[OF ok]
    by (auto simp: set_focused_slot_def rename_tab_def contains_iff view_shape_def split: option.splits intro!: put_same_tree)
qed

lemma set_unknown_trees: "vm_views_ok (snd (set_unknown_content v s raw vm))" if ok: "vm_views_ok vm"
proof (cases "\<exists>x. find_view vm v = Some x \<and> s \<in> slots_of x")
  case True
  then obtain x where x: "find_view vm v = Some x" "s \<in> slots_of x" by blast
  show ?thesis
  proof (rule write_hit[OF ok x, of Empty])
    fix t
    let ?vm1 = "forget_unknown v s (put_view (x\<lparr>vw_layout := t\<rparr>) v vm)"
    assume t: "write_slot_content v s Empty vm = (Inr (), ?vm1)" "slot_ids t = slot_ids (vw_layout x)"
      "split_ids t = split_ids (vw_layout x)" "find_slot t = (find_slot (vw_layout x))(s \<mapsto> Empty)" "vm_views_ok ?vm1"
    have "vm_views_ok (remember_unknown v s raw ?vm1)"
      by (rule remember_trees[OF t(5), of _ "x\<lparr>vw_layout := t\<rparr>"]) (simp_all add: put_view_def alist_maps t(4))
    then show ?thesis by (simp add: set_unknown_content_def t(1))
  qed
next
  case False
  then have "write_slot_content v s Empty vm = (Inl (case find_view vm v of None \<Rightarrow> ViewNotFound v | Some _ \<Rightarrow> SlotNotFound s), vm)"
    by (intro write_miss) blast
  with ok show ?thesis by (simp add: set_unknown_content_def)
qed

section \<open>Operations on tabs and windows\<close>

lemma create_trees:
  assumes ok: "vm_views_ok vm" and nv: "find_view vm nv = None" and new: "new_ids ns np (find_view vm)"
  shows "vm_views_ok (snd (create_tab nv ns L name vm))" "vm_views_ok (snd (create_window nv ns nwin L vm))"
    "vm_views_ok (snd (prepare_detached_view nv ns v s vm))"
proof -
  note M = make_view_trees[OF ok nv new]
  have x: "find_view (make_view nv ns vm) nv = Some \<lparr>vw_id = nv, vw_name = TabAuto, vw_layout = new_empty_slot ns, vw_focused = Some ns\<rparr>" by simp
  have "vm_views_ok (put_view (\<lparr>vw_id = nv, vw_name = TabAuto, vw_layout = new_empty_slot ns, vw_focused = Some ns\<rparr>\<lparr>vw_name := tn\<rparr>) nv (make_view nv ns vm))" for tn
    by (rule put_same_tree[OF M x]) (use shape_parts(1)[OF M x] in \<open>auto simp: view_shape_def\<close>)
  then show "vm_views_ok (snd (create_tab nv ns L name vm))" using ok by (simp add: create_tab_def Let_def split: option.splits)
  show "vm_views_ok (snd (create_window nv ns nwin L vm))" using ok M by (simp add: create_window_def)
  show "vm_views_ok (snd (prepare_detached_view nv ns v s vm))"
  proof (cases "view_slot_content v s vm")
    case (Inr c)
    have f: "first_slot_id (new_empty_slot ns :: 'a layout_node) = ns" by (simp add: new_empty_slot_def)
    show ?thesis
    proof (rule write_hit[OF M x, of ns c])
      show "ns \<in> slots_of \<lparr>vw_id = nv, vw_name = TabAuto, vw_layout = new_empty_slot ns, vw_focused = Some ns\<rparr>" by (simp add: new_empty_slot_def)
      fix t :: "'a layout_node"
      let ?x = "\<lparr>vw_id = nv, vw_name = TabAuto, vw_layout = new_empty_slot ns, vw_focused = Some ns\<rparr>\<lparr>vw_layout := t\<rparr>"
      let ?vm1 = "forget_unknown nv ns (put_view ?x nv (make_view nv ns vm))"
      assume w: "write_slot_content nv ns c (make_view nv ns vm) = (Inr (), ?vm1)"
        and t: "find_slot t = (find_slot (vw_layout \<lparr>vw_id = nv, vw_name = TabAuto, vw_layout = new_empty_slot ns, vw_focused = Some ns\<rparr>))(ns \<mapsto> c)"
        and o: "vm_views_ok ?vm1"
      have "vm_views_ok (remember_unknown nv ns raw ?vm1)" if raw: "unknown_content v s vm = Some raw" for raw
      proof (rule remember_trees[OF o, of _ ?x])
        obtain sl where sl: "unknown_map vm v = Some sl" "map_of sl s = Some raw" using raw by (auto simp: unknown_content_def split: option.splits)
        then obtain y where y: "find_view vm v = Some y" "raw_ok y sl" using views_okD(3)[OF ok[unfolded vm_views_ok_def]] by blast
        then have "find_slot (vw_layout y) s = Some Empty" using sl(2) by (force simp: raw_ok_def dest: map_of_SomeD)
        then show "find_slot (vw_layout ?x) ns = Some Empty" using Inr y(1) t by (simp add: view_slot_content_def)
      qed (simp add: put_view_def alist_maps)
      then show ?thesis using Inr w o by (simp add: prepare_detached_view_def Let_def f split: option.split)
    qed
  qed (simp add: prepare_detached_view_def ok)
qed

lemma window_ops_trees:
  assumes ok: "vm_views_ok vm"
  shows "vm_views_ok (snd (insert_tab_into L v vm))" "vm_views_ok (snd (attach_view_as_new_window nwin L v vm))" "vm_views_ok (snd (switch_tab L v vm))"
    "vm_views_ok (snd (switch_tab_if L v e vm))" "vm_views_ok (drop_detached_view v vm)" "vm_views_ok (snd (release_closing L vm))"
    "vm_views_ok (snd (update_attrs L ch vm))" "vm_views_ok (snd (observe_window_placement L seen vm))" "vm_views_ok (snd (set_window_canvas L cw h vm))"
    "vm_views_ok (snd (set_ui_metrics mok L m vm))"
proof -
  show 1: "vm_views_ok (snd (switch_tab L v vm))" using ok by (simp add: switch_tab_def split: option.splits)
  show "vm_views_ok (snd (switch_tab_if L v e vm))" using ok 1 by (auto simp: switch_tab_if_def split: option.splits prod.splits sum.splits)
  show "vm_views_ok (snd (insert_tab_into L v vm))" "vm_views_ok (snd (attach_view_as_new_window nwin L v vm))" "vm_views_ok (drop_detached_view v vm)"
    "vm_views_ok (snd (release_closing L vm))" "vm_views_ok (snd (update_attrs L ch vm))" "vm_views_ok (snd (observe_window_placement L seen vm))"
    "vm_views_ok (snd (set_window_canvas L cw h vm))" "vm_views_ok (snd (set_ui_metrics mok L m vm))"
    using ok remove_view_trees[OF ok, of v]
    by (auto simp: insert_tab_into_def attach_view_as_new_window_def drop_detached_view_def release_closing_def update_attrs_def
        observe_window_placement_def set_window_canvas_def set_ui_metrics_def Let_def split: option.splits prod.splits sum.splits
        elim!: vm_views_frame[of vm])
qed

lemma remove_window_trees: "vm_views_ok (snd (remove_window L os vm))" if ok: "vm_views_ok vm"
proof -
  have f: "vm_views_ok (fold remove_view vs vm')" if "vm_views_ok vm'" for vs and vm' :: "('a, 'b) view_manager"
    using that by (induction vs arbitrary: vm') (auto simp: remove_view_trees)
  have "vm_views_ok (snd (retire_window_entry L os vm))" by (rule vm_views_frame[OF ok]) (auto simp: retire_window_entry_def Let_def split: option.splits)
  then show ?thesis using ok f by (auto simp: remove_window_def split: prod.splits option.splits)
qed

lemma pull_docked_trees:
  assumes ok: "vm_views_ok vm" and own: "vm_own vm" and L: "owner_map vm v = Some L" and nv: "find_view vm nv = None" and new: "new_ids ns np (find_view vm)"
  shows "vm_views_ok (snd (pull_docked_tab nv ns L v s vm))"
proof -
  obtain w where w: "find_window vm L = Some w" "v \<in> set (wt_tabs w)" using vm_ownD(1)[OF own] L by blast
  have wok: "window_ok w" by (rule vm_ownD(2)[OF own w(1)])
  consider (stay) "remove1 v (wt_tabs w) \<noteq> []" | (pop) "wt_tabs w = [v]" "wt_active w = v" "L \<noteq> MAIN_WINDOW_LABEL"
    | (main) "wt_tabs w = [v]" "wt_active w = v" "L = MAIN_WINDOW_LABEL"
    using only_tab[OF wok w(2)] by blast
  then show ?thesis
  proof cases
    case stay
    then show ?thesis using ok by (simp add: pull_docked_stay[OF w wok] vm_views_ok_def)
  next
    case pop
    then show ?thesis using ok by (simp add: pull_docked_popout[OF w(1) pop] vm_views_ok_def)
  next
    case main
    then show ?thesis using make_view_trees[OF ok nv new]
      by (simp add: pull_docked_main[OF w(1)[unfolded main(3)] main(1,2)] vm_views_ok_def)
  qed
qed

lemma close_tab_trees:
  assumes "vm_views_ok vm" "vm_own vm" "find_view vm nv = None" "new_ids ns np (find_view vm)"
  shows "vm_views_ok (snd (close_tab nv ns L v vm))"
proof (cases "\<exists>w. find_window vm L = Some w \<and> v \<in> set (wt_tabs w)")
  case True
  then obtain w where w: "find_window vm L = Some w" "v \<in> set (wt_tabs w)" by blast
  then have o: "owner_map vm v = Some L" using vm_ownD(1)[OF assms(2)] by blast
  then have "nv \<noteq> v" using vm_ownD(3)[OF assms(2) o] assms(3) by auto
  then show ?thesis using remove_view_trees[OF pull_docked_trees[OF assms(1,2) o assms(3,4), of None]]
    by (simp add: close_tab_pull[OF w] case_prod_beta)
qed (use assms(1) in \<open>auto simp: close_tab_def split: option.splits\<close>)

section \<open>Docking\<close>

lemma move_unknown_map:
  "unknown_map (move_unknown v t vm) u = (case unknown_map vm v of
     None \<Rightarrow> unknown_map vm u
   | Some sl \<Rightarrow> if u = t then Some (map_extend sl (if t = v then [] else case unknown_map vm t of None \<Rightarrow> [] | Some l \<Rightarrow> l))
       else if u = v then None else unknown_map vm u)"
  by (auto simp: move_unknown_def Let_def alist_maps alist_get_map split: option.splits)

lemma map_extend_set: "fst ` set (map_extend new m) = fst ` set new \<union> fst ` set m"
proof (induction new arbitrary: m)
  case (Cons p new)
  obtain k v where "p = (k, v)" by fastforce
  then show ?case using Cons[of "AList.update k v m"] by (simp add: map_extend_Cons dom_update)
qed (simp add: map_extend_def)

lemma map_extend_nonempty: "new \<noteq> [] \<Longrightarrow> map_extend new m \<noteq> []"
  using map_extend_set[of new m] by (cases new) auto

text \<open>The tree a tab is docked into: the slots and splits of both trees and one new split, every content as it was.\<close>

lemma docked_view:
  assumes ok: "vm_views_ok vm" and new: "new_ids ns np (find_view vm)" and xt: "find_view vm t = Some x" and xv: "find_view vm v = Some y" "t \<noteq> v"
    and d: "docked_tree mt np (vw_layout x) anchor side (vw_layout y) share = Inr layout"
  shows "tree_ok layout" "set (slot_ids layout) = slots_of x \<union> slots_of y" "set (split_ids layout) = insert np (splits_of x \<union> splits_of y)"
    "find_slot layout k = (case find_slot (vw_layout x) k of Some c \<Rightarrow> Some c | None \<Rightarrow> find_slot (vw_layout y) k)"
proof -
  note Sx = shape_parts[OF ok xt] and Sy = shape_parts[OF ok xv(1)]
  note D = docked_laws[OF d Sx(4)]
  have ap: "apart x y" using views_okD(2)[OF ok[unfolded vm_views_ok_def] xt xv(1)] xv(2) by simp
  have np: "np \<notin> splits_of x" "np \<notin> splits_of y" using new xt xv(1) by (auto simp: new_ids_def)
  have disj: "slots_of y \<inter> slots_of x = {}" by (rule D(1))
  show "find_slot layout k = (case find_slot (vw_layout x) k of Some c \<Rightarrow> Some c | None \<Rightarrow> find_slot (vw_layout y) k)" by (rule D(3))
  have "dom (find_slot layout) = dom (find_slot (vw_layout x)) \<union> dom (find_slot (vw_layout y))"
    by (auto simp: D(3) dom_def split: option.splits)
  then show "set (slot_ids layout) = slots_of x \<union> slots_of y" by (simp add: find_slot_dom)
  show "set (split_ids layout) = insert np (splits_of x \<union> splits_of y)" using arg_cong[OF D(4), of set_mset] by auto
  have "distinct (slot_ids layout)"
  proof (cases anchor)
    case (AnchorSlot a)
    then show ?thesis using D(2,5) disj Sx(4) Sy(4)
      by (cases "snd (side_shape side)") (auto simp: dock_ids_def intro!: distinct_subst_block)
  qed (use D(2) disj Sx(4) Sy(4) in \<open>auto simp: dock_ids_def\<close>)
  moreover have "distinct (split_ids layout)"
  proof -
    have "mset (split_ids layout) = mset (np # split_ids (vw_layout y) @ split_ids (vw_layout x))" by (simp add: D(4))
    moreover have "distinct (np # split_ids (vw_layout y) @ split_ids (vw_layout x))"
      using np ap Sx(3) Sy(3) by (auto simp: tree_ok_def apart_def)
    ultimately show ?thesis by (metis mset_eq_imp_distinct_iff)
  qed
  ultimately show "tree_ok layout" by (simp add: tree_ok_def)
qed

text \<open>The views after a docking at a seam: the target has the joined tree and what was kept aside for both, the
  docked view is gone.\<close>

lemma seam_views:
  assumes ok: "views_ok fv un" and xt: "fv t = Some x" and xv: "fv v = Some y" "t \<noteq> v"
    and x': "view_shape t x'" "slots_of x' \<subseteq> slots_of x \<union> slots_of y" "splits_of x' \<subseteq> insert np (splits_of x \<union> splits_of y)"
    and np: "\<And>u z. fv u = Some z \<Longrightarrow> np \<notin> splits_of z"
    and keep: "\<And>s. find_slot (vw_layout x) s = Some Empty \<or> find_slot (vw_layout y) s = Some Empty \<Longrightarrow> find_slot (vw_layout x') s = Some Empty"
    and un': "\<And>u. u \<noteq> t \<Longrightarrow> u \<noteq> v \<Longrightarrow> un' u = un u" "un' v = None"
      "\<And>sl. un' t = Some sl \<Longrightarrow> sl \<noteq> [] \<and> distinct (map fst sl) \<and> fst ` set sl \<subseteq> (\<Union>l \<in> ran (un |` {t, v}). fst ` set l)"
  shows "views_ok ((fv(v := None))(t \<mapsto> x')) un'"
proof (rule views_put[where un = "un |` (- {v})"])
  show "views_ok (fv(v := None)) (un |` (- {v}))" using views_drop[OF ok, of "- {v}"] by (simp add: restrict_complement_singleton_eq)
  show "apart x' z" if "(fv(v := None)) u = Some z" "u \<noteq> t" for u z
  proof -
    have z: "fv u = Some z" "u \<noteq> v" using that(1) by (auto split: if_splits)
    have "apart x z" "apart y z" using views_okD(2)[OF ok xt z(1) that(2)] views_okD(2)[OF ok xv(1) z] by simp_all
    then show ?thesis using x'(2,3) np[OF z(1)] unfolding apart_def by blast
  qed
  show "raw_ok x' sl" if "un' t = Some sl" for sl
  proof -
    have "find_slot (vw_layout x') s = Some Empty" if s: "s \<in> fst ` set sl" for s
    proof -
      from un'(3)[OF \<open>un' t = Some sl\<close>] s obtain l where l: "l \<in> ran (un |` {t, v})" "s \<in> fst ` set l" by blast
      then have "un t = Some l \<or> un v = Some l" by (auto simp: ran_def restrict_map_def split: if_splits)
      then have "find_slot (vw_layout x) s = Some Empty \<or> find_slot (vw_layout y) s = Some Empty"
        using views_okD(3)[OF ok, of t l] views_okD(3)[OF ok, of v l] xt xv(1) l(2) by (auto simp: raw_ok_def)
      then show ?thesis by (rule keep)
    qed
    with un'(3)[OF that] show ?thesis by (simp add: raw_ok_def)
  qed
  show "un' u = (un |` (- {v})) u" if "u \<noteq> t" for u using that un'(1,2) by (cases "u = v") auto
qed (rule x'(1))

lemma moved_unknown:
  assumes ok: "vm_views_ok vm" and tv: "t \<noteq> v" and sl: "((unknown_map (move_unknown v t vm))(v := None)) t = Some sl"
  shows "sl \<noteq> [] \<and> distinct (map fst sl) \<and> fst ` set sl \<subseteq> (\<Union>l \<in> ran (unknown_map vm |` {t, v}). fst ` set l)"
proof -
  have r: "\<And>u l. u \<in> {t, v} \<Longrightarrow> unknown_map vm u = Some l \<Longrightarrow> l \<in> ran (unknown_map vm |` {t, v}) \<and> l \<noteq> [] \<and> distinct (map fst l)"
    using views_okD(3)[OF ok[unfolded vm_views_ok_def]] by (fastforce simp: ran_def restrict_map_def raw_ok_def)
  show ?thesis
  proof (cases "unknown_map vm v")
    case None
    then have "unknown_map vm t = Some sl" using sl tv by (simp add: move_unknown_map)
    then show ?thesis using r[of t sl] by blast
  next
    case (Some l)
    then have "sl = map_extend l (case unknown_map vm t of None \<Rightarrow> [] | Some l' \<Rightarrow> l')" using sl tv by (simp add: move_unknown_map)
    then show ?thesis using r[OF _ Some] r[of t] map_extend_nonempty[of l] by (auto simp: map_extend_set map_extend_keys split: option.splits)
  qed
qed

lemma pull_docked_unknown:
  "pull_docked_tab nv ns L v s (vm\<lparr>vm_unknown := u\<rparr>) = map_prod id (\<lambda>m. m\<lparr>vm_unknown := u\<rparr>) (pull_docked_tab nv ns L v s vm)"
proof -
  have "pull_tab L v s (vm\<lparr>vm_unknown := u\<rparr>) = map_prod id (\<lambda>m. m\<lparr>vm_unknown := u\<rparr>) (pull_tab L v s vm)"
    by (cases "find_window vm L") (simp_all add: pull_tab_def retire_window_entry_def Let_def alist_maps)
  moreover have "refill_main nv ns (m\<lparr>vm_unknown := u\<rparr>) = (refill_main nv ns m)\<lparr>vm_unknown := u\<rparr>" for m :: "('a, 'b) view_manager"
    by (simp add: refill_main_def map_window_def make_view_def put_view_def set_owner_def Let_def split: option.split)
  ultimately show ?thesis by (simp add: pull_docked_tab_def split: prod.split pulled.split)
qed

lemma move_unknown_upd: "vm\<lparr>vm_unknown := vm_unknown (move_unknown v t vm)\<rparr> = move_unknown v t vm"
  by (simp add: move_unknown_def Let_def split: option.split)

lemma pulled_new:
  assumes own: "vm_own vm" and L: "owner_map vm v = Some L" and nv: "find_view vm nv = None"
    and z: "find_view (snd (pull_docked_tab nv ns L v s vm)) nv = Some z"
  shows "vw_layout z = new_empty_slot ns"
proof -
  obtain w where w: "find_window vm L = Some w" "v \<in> set (wt_tabs w)" using vm_ownD(1)[OF own] L by blast
  have wok: "window_ok w" by (rule vm_ownD(2)[OF own w(1)])
  consider (stay) "remove1 v (wt_tabs w) \<noteq> []" | (pop) "wt_tabs w = [v]" "wt_active w = v" "L \<noteq> MAIN_WINDOW_LABEL"
    | (main) "wt_tabs w = [v]" "wt_active w = v" "L = MAIN_WINDOW_LABEL"
    using only_tab[OF wok w(2)] by blast
  then show ?thesis
  proof cases
    case stay
    then show ?thesis using z nv by (simp add: pull_docked_stay[OF w wok])
  next
    case pop
    then show ?thesis using z nv by (simp add: pull_docked_popout[OF w(1) pop])
  next
    case main
    then show ?thesis using z by (auto simp: pull_docked_main[OF w(1)[unfolded main(3)] main(1,2)])
  qed
qed

lemma seam_trees:
  assumes ok: "vm_views_ok vm" and own: "vm_own vm" and v: "owner_map vm v = Some L" and t: "owner_map vm t = Some T" "t \<noteq> v"
    and nv: "find_view vm nv = None" and new: "new_ids ns np (find_view vm)" and y: "find_view vm v = Some y" and x: "find_view vm t = Some x"
    and d: "docked_tree mt np (vw_layout x) anchor side (vw_layout y) share = Inr layout"
  shows "vm_views_ok (snd (apply_seam nv ns v focus mv L t T layout vm))"
proof -
  let ?vm1 = "move_unknown v t vm"
  obtain pd vm2 where p: "pull_docked_tab nv ns L v (successor_in mv L) vm = (pd, vm2)" by fastforce
  note P = pull_docked_own[OF own v nv, where ns = ns and s = "successor_in mv L", unfolded p snd_conv]
  have ok2: "views_ok (find_view vm2) (unknown_map vm)"
    using pull_docked_trees[OF ok own v nv new, of "successor_in mv L"] P(5) by (simp add: p vm_views_ok_def)
  have p1: "pull_docked_tab nv ns L v (successor_in mv L) ?vm1 = (pd, vm2\<lparr>vm_unknown := vm_unknown ?vm1\<rparr>)"
    using pull_docked_unknown[where vm = vm and u = "vm_unknown ?vm1" and nv = nv and ns = ns and L = L and v = v and s = "successor_in mv L"] p by (simp add: move_unknown_upd)
  have n: "t \<noteq> nv" "v \<noteq> nv" using x y nv by auto
  let ?f = "first_slot_id (vw_layout (the (find_view vm v)))"
  let ?x' = "let x1 = x\<lparr>vw_layout := layout\<rparr> in if focus = Reveal then x1\<lparr>vw_focused := Some ?f\<rparr> else x1"
  note D = docked_view[OF ok new x y t(2) d]
  have lay: "vw_layout ?x' = layout" "vw_id ?x' = vw_id x" by (simp_all add: Let_def)
  have foc: "?f \<in> slots_of y" using y by (simp add: first_slot)
  have shape: "view_shape t ?x'" using shape_parts(1)[OF ok x] D(1,2) foc by (auto simp: view_shape_def Let_def)
  have np2: "np \<notin> splits_of z" if "find_view vm2 u = Some z" for u z
  proof (cases "u = nv")
    case True
    then show ?thesis using pulled_new[OF own v nv, of ns "successor_in mv L"] that p by (auto simp: new_empty_slot_def)
  qed (use that P(4) new in \<open>auto simp: new_ids_def\<close>)
  have "views_ok (((find_view vm2)(v := None))(t \<mapsto> ?x')) ((unknown_map ?vm1)(v := None))"
  proof (rule seam_views[OF ok2, of t x v y])
    show "find_view vm2 t = Some x" "find_view vm2 v = Some y" using P(4) n x y by auto
    show "find_slot (vw_layout ?x') s = Some Empty" if "find_slot (vw_layout x) s = Some Empty \<or> find_slot (vw_layout y) s = Some Empty" for s
    proof -
      have "find_slot (vw_layout x) s = None" if "find_slot (vw_layout y) s = Some Empty"
        using that docked_laws(1)[OF d shape_parts(4)[OF ok x]] find_slot_None[of "vw_layout x" s] find_slot_None[of "vw_layout y" s] by auto
      then show ?thesis using that unfolding lay by (auto simp: D(4) split: option.splits)
    qed
    show "sl \<noteq> [] \<and> distinct (map fst sl) \<and> fst ` set sl \<subseteq> (\<Union>l \<in> ran (unknown_map vm |` {t, v}). fst ` set l)" if "((unknown_map ?vm1)(v := None)) t = Some sl" for sl
      by (rule moved_unknown[OF ok t(2) that])
    show "((unknown_map ?vm1)(v := None)) u = unknown_map vm u" if "u \<noteq> t" "u \<noteq> v" for u
      using that by (simp add: move_unknown_map split: option.split)
    show "view_shape t ?x'" by (rule shape)
  qed (use t(2) D lay np2 in auto)
  then show ?thesis using P(4)[of t] n(1) x t(2)
    by (cases "focus = Reveal") (simp_all add: apply_seam_def p1 Let_def case_prod_beta vm_views_ok_def remove_view_def put_view_def alist_maps activate_def)
qed

lemma other_docks_trees:
  assumes ok: "vm_views_ok vm" and own: "vm_own vm" and v: "owner_map vm v = Some L" and nv: "find_view vm nv = None" and new: "new_ids ns np (find_view vm)"
  shows "vm_views_ok (snd (apply_tab_bar nv ns v focus mv L T tabs vm))" "vm_views_ok (snd (apply_new_window nv ns nwin v mv L T vm))"
  using ok pull_docked_trees[OF ok own v nv new, of "successor_in mv L"]
  by (simp_all add: apply_tab_bar_def apply_new_window_def case_prod_beta Let_def)

lemma dock_trees:
  fixes mt :: "('f::linorder, 'f) metric"
  assumes ok: "vm_views_ok vm" and own: "vm_own vm" and nv: "find_view vm (fi_view ids) = None" and new: "new_ids (fi_slot ids) (fi_split ids) (find_view vm)"
  shows "vm_views_ok (snd (dock mt ids v dest focus mv vm))"
proof (cases "check_dock mt (fi_split ids) v dest vm")
  case (Inr r)
  then obtain L T plan where r: "r = (L, plan)" and L: "owner_map vm v = Some L" and T: "dock_target v dest vm = Inr T"
    and plan: "dock_plan_for mt (fi_split ids) v dest T vm = Inr plan"
    by (auto simp: check_dock_def tab_window_owner[OF own] split: option.splits sum.splits)
  note c = Inr[unfolded r]
  note O = other_docks_trees[OF ok own L nv new]
  show ?thesis
  proof (cases dest)
    case (Seam t anchor side share)
    have t: "owner_map vm t = Some T" "t \<noteq> v" using T Seam by (auto simp: tab_window_owner[OF own] split: option.splits if_splits dock_anchor.splits)
    obtain x y where xy: "find_view vm t = Some x" "find_view vm v = Some y" using vm_ownD(3)[OF own t(1)] vm_ownD(3)[OF own L] by auto
    obtain layout where p: "plan = PlanSeam t T layout" and d: "docked_tree mt (fi_split ids) (vw_layout x) anchor side (vw_layout y) share = Inr layout"
      using plan Seam xy by (auto split: if_splits sum.splits dock_tree_error.splits)
    show ?thesis using seam_trees[OF ok own L t nv new xy(2,1) d] by (simp add: dock_def c p case_prod_beta Let_def)
  next
    case (TabBar win index after)
    then obtain tabs where p: "plan = PlanTabBar T tabs" using plan by (auto simp: Let_def)
    show ?thesis using O(1) ok by (simp add: dock_def c p case_prod_beta Let_def)
  next
    case (NewWindow label)
    then have p: "plan = PlanNewWindow T" using plan by simp
    show ?thesis using O(2) ok by (simp add: dock_def c p case_prod_beta Let_def)
  qed
qed (simp add: dock_def ok)

section \<open>Whole layouts\<close>

lemma views_merge:
  assumes "views_ok f1 u1" "views_ok f2 u2" "dom f1 \<inter> dom f2 = {}" "\<And>v x u y. f1 v = Some x \<Longrightarrow> f2 u = Some y \<Longrightarrow> apart x y"
  shows "views_ok (f1 ++ f2) (u1 ++ u2)"
  unfolding views_ok_def
proof (intro conjI allI impI)
  show "view_shape v x" if "(f1 ++ f2) v = Some x" for v x using that views_okD(1)[OF assms(1)] views_okD(1)[OF assms(2)] by (auto simp: map_add_Some_iff)
  show "apart x y" if "(f1 ++ f2) v = Some x" "(f1 ++ f2) u = Some y" "u \<noteq> v" for v x u y
    using that views_okD(2)[OF assms(1), of v x u y] views_okD(2)[OF assms(2), of v x u y] assms(4)[of v x u y] assms(4)[of u y v x] apart_sym[of x y]
    by (auto simp: map_add_Some_iff)
  show "\<exists>x. (f1 ++ f2) v = Some x \<and> raw_ok x sl" if sl: "(u1 ++ u2) v = Some sl" for v sl
  proof (cases "u2 v")
    case None
    then obtain x where "f1 v = Some x" "raw_ok x sl" using sl views_okD(3)[OF assms(1)] by (auto simp: map_add_Some_iff)
    then show ?thesis using assms(3) by (auto simp: map_add_Some_iff domIff)
  next
    case (Some l)
    then show ?thesis using sl views_okD(3)[OF assms(2), of v l] by (auto simp: map_add_Some_iff)
  qed
qed

lemma adopt_trees:
  assumes own: "vm_own vm" and keys: "keys_ok vm" "keys_ok restored" and ok: "vm_views_ok vm" "vm_views_ok restored"
    and apart: "\<And>v x u y. \<lbrakk>find_view vm v = Some x; owner_map vm v = None; find_view restored u = Some y\<rbrakk> \<Longrightarrow> apart x y"
  shows "vm_views_ok (snd (adopt_restored restored vm))"
proof (cases "fst (adopt_restored restored vm)")
  case (Inl e)
  then have "snd (adopt_restored restored vm) = vm" by (auto simp: adopt_restored_def Let_def split: option.splits if_splits)
  then show ?thesis using ok(1) by simp
next
  case (Inr removed)
  let ?vm' = "snd (adopt_restored restored vm)"
  have r: "adopt_restored restored vm = (Inr removed, ?vm')" using Inr by (metis prod.collapse)
  obtain f: "find_view ?vm' = (find_view vm |` (- dom (owner_map vm))) ++ find_view restored"
      "unknown_map ?vm' = (unknown_map vm |` (- dom (owner_map vm))) ++ unknown_map restored"
      "dom (find_view restored) \<inter> dom (find_view vm) \<subseteq> dom (owner_map vm)"
    by (rule adopt_maps[OF own keys r]) blast
  have "views_ok ((find_view vm |` (- dom (owner_map vm))) ++ find_view restored) ((unknown_map vm |` (- dom (owner_map vm))) ++ unknown_map restored)"
    by (rule views_merge[OF views_drop[OF ok(1)[unfolded vm_views_ok_def]] ok(2)[unfolded vm_views_ok_def]])
      (use f(3) apart in \<open>auto simp: restrict_map_def domIff split: if_splits\<close>)
  then show ?thesis by (simp add: vm_views_ok_def f)
qed

text \<open>The views of a layout read back from disk.\<close>

definition restored_views :: "'f restored_window \<Rightarrow> (window_label \<times> ustr \<times> 'f restored_window) list \<Rightarrow> 'f view list" where
  "restored_views main popouts = concat (map rw_tabs (main # map (\<lambda>(_, _, w). w) popouts))"

definition readable :: "'f view list \<Rightarrow> bool" where
  "readable xs \<longleftrightarrow> list_all (\<lambda>x. tree_ok (vw_layout x)) xs \<and> distinct (concat (map (\<lambda>x. slot_ids (vw_layout x)) xs)) \<and>
     distinct (concat (map (\<lambda>x. split_ids (vw_layout x)) xs))"

lemma adopt_loop_trees:
  assumes "vm_views_ok vm" "adopt_loop L xs vm = (True, vm')" "readable xs"
    and "\<And>v x y. find_view vm v = Some x \<Longrightarrow> y \<in> set xs \<Longrightarrow> apart x y"
  shows "vm_views_ok vm'"
  using assms
proof (induction xs arbitrary: vm)
  case (Cons y ys)
  let ?vm1 = "put_view (fixup_focus y) (vw_id y) (set_owner (vw_id y) L vm)"
  have n: "find_view vm (vw_id y) = None" and r: "adopt_loop L ys ?vm1 = (True, vm')" using Cons.prems(2) by (auto split: if_splits)
  have ap: "apart y z" if "z \<in> set ys" for z using Cons.prems(3) that by (auto simp: readable_def apart_def)
  have "views_ok ((find_view vm)(vw_id y \<mapsto> fixup_focus y)) (unknown_map vm)"
  proof (rule views_put[OF Cons.prems(1)[unfolded vm_views_ok_def]])
    show "view_shape (vw_id y) (fixup_focus y)" using Cons.prems(3) by (intro fixup_shape(1)) (auto simp: readable_def)
    show "apart (fixup_focus y) z" if "find_view vm u = Some z" for u z
      using Cons.prems(4)[OF that, of y] apart_sym by (auto simp: apart_def fixup_shape)
    show "raw_ok (fixup_focus y) sl" if "unknown_map vm (vw_id y) = Some sl" for sl
      using that views_okD(4)[OF Cons.prems(1)[unfolded vm_views_ok_def] n] by simp
  qed simp
  then have "vm_views_ok ?vm1" by (simp add: vm_views_ok_def put_view_def set_owner_def alist_maps)
  moreover have "apart x z" if "find_view ?vm1 v = Some x" "z \<in> set ys" for v x z
    using that Cons.prems(4)[of v x z] ap[OF that(2)] by (auto simp: put_view_def set_owner_def alist_maps apart_def fixup_shape split: if_splits)
  moreover have "readable ys" using Cons.prems(3) by (auto simp: readable_def)
  ultimately show ?case using Cons.IH[OF _ r] by blast
qed simp

lemma adopt_loop_origin:
  assumes "adopt_loop L xs vm = (True, vm')" "find_view vm' v = Some x"
  shows "find_view vm v = Some x \<or> (\<exists>y \<in> set xs. x = fixup_focus y)"
proof -
  have "find_view vm v = Some x \<or> map_of (map (\<lambda>x. (vw_id x, fixup_focus x)) xs) v = Some x"
    using assms(2) unfolding adopt_loop_maps(3)[OF assms(1)] by (auto simp: map_add_Some_iff)
  then show ?thesis by (auto dest!: map_of_SomeD)
qed

lemma readable_append: "readable (xs @ ys) \<longleftrightarrow> readable xs \<and> readable ys \<and> (\<forall>x \<in> set xs. \<forall>y \<in> set ys. apart x y)"
  by (auto simp: readable_def apart_def)

lemma restore_popouts_trees:
  assumes "vm_views_ok vm" "restore_popouts ps ns vm = Some vm'" "readable (concat (map (\<lambda>(_, _, w). rw_tabs w) ps))"
    and "\<And>v x y. find_view vm v = Some x \<Longrightarrow> y \<in> set (concat (map (\<lambda>(_, _, w). rw_tabs w) ps)) \<Longrightarrow> apart x y"
  shows "vm_views_ok vm'"
  using assms
proof (induction ps ns vm rule: restore_popouts.induct)
  case (3 L wid w ps n ns vm)
  have L: "find_window vm L = None" "rw_tabs w \<noteq> []" using "3.prems"(2) by (auto split: if_splits)
  obtain active vm1 where a: "adopt_tabs L (rw_tabs w) (rw_active w) vm = (Some (map vw_id (rw_tabs w), active), vm1)"
    and l: "adopt_loop L (rw_tabs w) vm = (True, vm1)"
    using "3.prems"(2) by (auto simp: adopt_tabs_Some split: if_splits option.splits prod.splits)
  let ?vm2 = "insert_window_entry L (window_new wid n (rw_attrs w) (map vw_id (rw_tabs w)) active) vm1"
  have r: "restore_popouts ps ns ?vm2 = Some vm'" using "3.prems"(2) a by (auto split: if_splits)
  have rd: "readable (rw_tabs w)" "readable (concat (map (\<lambda>(_, _, w). rw_tabs w) ps))"
    "\<And>x y. x \<in> set (rw_tabs w) \<Longrightarrow> y \<in> set (concat (map (\<lambda>(_, _, w). rw_tabs w) ps)) \<Longrightarrow> apart x y"
    using "3.prems"(3) by (auto simp: readable_append)
  have "vm_views_ok vm1" by (rule adopt_loop_trees[OF "3.prems"(1) l rd(1)]) (use "3.prems"(4) in auto)
  then have ok2: "vm_views_ok ?vm2" by (simp add: vm_views_ok_def insert_window_entry_def)
  have ap: "apart x y" if "find_view ?vm2 v = Some x" "y \<in> set (concat (map (\<lambda>(_, _, w). rw_tabs w) ps))" for v x y
  proof -
    have "find_view vm1 v = Some x" using that(1) by (simp add: insert_window_entry_def)
    from adopt_loop_origin[OF l this] show ?thesis
      using "3.prems"(4)[of v x y] rd(3)[OF _ that(2)] that(2) by auto
  qed
  show ?case by (rule "3.IH"[OF _ L(2) a[symmetric] refl refl ok2 r rd(2) ap]) (use L in simp_all)
qed auto

lemma vm_new_trees: "vm_views_ok (vm_new nv ns)"
  by (auto simp: vm_views_ok_def views_ok_def vm_new_def insert_window_entry_def set_owner_def make_view_def put_view_def vm_blank_def Let_def
      view_shape_def tree_ok_def new_empty_slot_def split: if_splits)

lemma from_restored_trees:
  assumes r: "from_restored nv ns main popouts = Some (vm' :: ('f, 'j) view_manager)" and rd: "readable (restored_views main popouts)"
    and ns: "\<forall>x \<in> set (restored_views main popouts). ns \<notin> slots_of x"
  shows "vm_views_ok vm'"
proof -
  let ?rest = "concat (map (\<lambda>(_, _, w). rw_tabs w) popouts)"
  have v: "restored_views main popouts = rw_tabs main @ ?rest" by (simp add: restored_views_def) (induction popouts; auto)
  have R: "readable (rw_tabs main)" "readable ?rest" "\<And>x y. x \<in> set (rw_tabs main) \<Longrightarrow> y \<in> set ?rest \<Longrightarrow> apart x y"
    using rd unfolding v readable_append by blast+
  have nil: "vm_views_ok (vm_blank :: ('f, 'j) view_manager)" by (simp add: vm_views_ok_def views_ok_def vm_blank_def)
  show ?thesis
  proof (cases "rw_tabs main = []")
    case True
    let ?vm1 = "insert_window_entry MAIN_WINDOW_LABEL (window_new_main (rw_attrs main) [nv] nv) (set_owner nv MAIN_WINDOW_LABEL (make_view nv ns vm_blank)) :: ('f, 'j) view_manager"
    have "vm_views_ok (make_view nv ns (vm_blank :: ('f, 'j) view_manager))" by (rule make_view_trees[OF nil]) (simp_all add: vm_blank_def new_ids_def)
    then have "vm_views_ok ?vm1" by (simp add: vm_views_ok_def insert_window_entry_def set_owner_def)
    then show ?thesis
      by (rule restore_popouts_trees[OF _ _ R(2)])
        (use r True ns v in \<open>auto simp: from_restored_def Let_def insert_window_entry_def set_owner_def vm_blank_def apart_def new_empty_slot_def split: if_splits\<close>)
  next
    case False
    then obtain active vm0 where a: "adopt_loop MAIN_WINDOW_LABEL (rw_tabs main) (vm_blank :: ('f, 'j) view_manager) = (True, vm0)"
      and r': "restore_popouts popouts (resolve_saved (map (\<lambda>(_, _, p). rw_number p) popouts) [MAIN_WINDOW_NUMBER])
        (insert_window_entry MAIN_WINDOW_LABEL (window_new_main (rw_attrs main) (map vw_id (rw_tabs main)) active) vm0) = Some vm'"
      using r by (auto simp: from_restored_def Let_def adopt_tabs_Some split: option.splits prod.splits)
    have "vm_views_ok vm0" by (rule adopt_loop_trees[OF nil a R(1)]) (simp add: vm_blank_def)
    then have "vm_views_ok (insert_window_entry MAIN_WINDOW_LABEL (window_new_main (rw_attrs main) (map vw_id (rw_tabs main)) active) vm0)"
      by (simp add: vm_views_ok_def insert_window_entry_def)
    then show ?thesis
    proof (rule restore_popouts_trees[OF _ r' R(2)])
      fix v x y
      assume "find_view (insert_window_entry MAIN_WINDOW_LABEL (window_new_main (rw_attrs main) (map vw_id (rw_tabs main)) active) vm0) v = Some x"
        and y: "y \<in> set ?rest"
      then have "find_view vm0 v = Some x" by (simp add: insert_window_entry_def)
      from adopt_loop_origin[OF a this] show "apart x y" using R(3)[OF _ y] by (auto simp: vm_blank_def)
    qed
  qed
qed

end
