(* ===== verification/View_System.thy ===== *)
theory View_System
  imports View_Trees
begin

text \<open>
  The layout authority as one system: every public operation of \<^verbatim>\<open>src-tauri/src/layout/manager.rs\<close> that may change
  the state is a value of \<open>layout_op\<close>, run by \<open>run_op\<close>; the states it can reach from a new layout or from one read
  back from disk; and the properties that hold in all of them.

  \<open>op_pre\<close> is what the callers see to: an identifier drawn at random is not in use, the label of a new window is not
  the one of a closing window, the two-phase move of a slot ends with the view it began with, and an adopted layout is
  itself sound and shares no identifier with the views that stay.
\<close>

section \<open>Operations\<close>

datatype ('f, 'j) layout_op =
    LoCreateTab window_label "ustr option" | LoCreateWindow window_label | LoSwitchTab window_label view_id
  | LoSwitchTabIf window_label view_id view_id | LoCloseTab window_label view_id | LoCloseWindow window_label
  | LoDropWindow window_label | LoReleaseClosing window_label | LoSplitSlot view_id uuid split_dir
  | LoSetRatio view_id uuid 'f | LoFocusSlot view_id uuid | LoRenameTab view_id ustr | LoCloseSlot view_id uuid
  | LoAssignAgent view_id uuid ustr | LoSetContent view_id uuid slot_content | LoSetUnknown view_id uuid 'j
  | LoPrepareDetached view_id uuid | LoDropDetached view_id | LoInsertTab window_label view_id
  | LoAttachWindow window_label view_id | LoDock view_id "'f dock_to" focus_policy dock_move | LoMarkClosed window_label
  | LoAdopt "('f, 'j) view_manager" | LoAgentNames "(ustr \<times> ustr) list" | LoSeedNames "(ustr \<times> ustr) list"
  | LoSetTheme window_label "ui_theme option" | LoSetMaximized window_label bool
  | LoObservePlacement window_label "'f window_placement" | LoSetCanvas window_label nat nat
  | LoSetMetrics window_label "'f ui_metrics"

fun outcome :: "('e + 'a) \<times> 's \<Rightarrow> bool \<times> 's" where
  "outcome (Inl e, s) = (False, s)"
| "outcome (Inr a, s) = (True, s)"

fun run_op :: "('f::linorder, 'f) metric \<Rightarrow> ('f \<Rightarrow> bool) \<Rightarrow> fresh_ids \<Rightarrow> ('f, 'j) layout_op \<Rightarrow> ('f, 'j) view_manager \<Rightarrow> bool \<times> ('f, 'j) view_manager" where
  "run_op mt io ids (LoCreateTab L name) vm = outcome (create_tab (fi_view ids) (fi_slot ids) L name vm)"
| "run_op mt io ids (LoCreateWindow L) vm = outcome (create_window (fi_view ids) (fi_slot ids) (fi_win ids) L vm)"
| "run_op mt io ids (LoSwitchTab L v) vm = outcome (switch_tab L v vm)"
| "run_op mt io ids (LoSwitchTabIf L v e) vm = outcome (switch_tab_if L v e vm)"
| "run_op mt io ids (LoCloseTab L v) vm = outcome (close_tab (fi_view ids) (fi_slot ids) L v vm)"
| "run_op mt io ids (LoCloseWindow L) vm = outcome (close_window L vm)"
| "run_op mt io ids (LoDropWindow L) vm = outcome (drop_window_gone L vm)"
| "run_op mt io ids (LoReleaseClosing L) vm = (True, snd (release_closing L vm))"
| "run_op mt io ids (LoSplitSlot v s dir) vm = outcome (split_slot mt (fi_slot ids) (fi_split ids) v s dir vm)"
| "run_op mt io ids (LoSetRatio v m r) vm = outcome (set_split_ratio mt v m r vm)"
| "run_op mt io ids (LoFocusSlot v s) vm = outcome (set_focused_slot v s vm)"
| "run_op mt io ids (LoRenameTab v name) vm = outcome (rename_tab v name vm)"
| "run_op mt io ids (LoCloseSlot v s) vm = outcome (close_slot (fi_slot ids) v s vm)"
| "run_op mt io ids (LoAssignAgent v s a) vm = outcome (assign_agent v s a vm)"
| "run_op mt io ids (LoSetContent v s c) vm = outcome (set_slot_content v s c vm)"
| "run_op mt io ids (LoSetUnknown v s raw) vm = outcome (set_unknown_content v s raw vm)"
| "run_op mt io ids (LoPrepareDetached v s) vm = outcome (prepare_detached_view (fi_view ids) (fi_slot ids) v s vm)"
| "run_op mt io ids (LoDropDetached v) vm = (True, drop_detached_view v vm)"
| "run_op mt io ids (LoInsertTab L v) vm = outcome (insert_tab_into L v vm)"
| "run_op mt io ids (LoAttachWindow L v) vm = outcome (attach_view_as_new_window (fi_win ids) L v vm)"
| "run_op mt io ids (LoDock v dest focus mv) vm = outcome (dock mt ids v dest focus mv vm)"
| "run_op mt io ids (LoMarkClosed L) vm = (True, mark_closed L vm)"
| "run_op mt io ids (LoAdopt restored) vm = outcome (adopt_restored restored vm)"
| "run_op mt io ids (LoAgentNames names) vm = (True, snd (update_agent_names names vm))"
| "run_op mt io ids (LoSeedNames names) vm = (True, seed_agent_names names vm)"
| "run_op mt io ids (LoSetTheme L theme) vm = outcome (set_window_theme L theme vm)"
| "run_op mt io ids (LoSetMaximized L m) vm = outcome (set_window_maximized L m vm)"
| "run_op mt io ids (LoObservePlacement L seen) vm = outcome (observe_window_placement L seen vm)"
| "run_op mt io ids (LoSetCanvas L w h) vm = outcome (set_window_canvas L w h vm)"
| "run_op mt io ids (LoSetMetrics L m) vm = outcome (set_ui_metrics io L m vm)"

lemma outcome_parts: "snd (outcome r) = snd r" "fst (outcome r) \<longleftrightarrow> \<not> isl (fst r)"
  by (cases r rule: outcome.cases; simp)+

section \<open>The invariant\<close>

definition vm_inv :: "('f, 'j) view_manager \<Rightarrow> bool" where
  "vm_inv vm \<longleftrightarrow> keys_ok vm \<and> vm_own vm \<and> vm_views_ok vm"

definition fresh_for :: "fresh_ids \<Rightarrow> ('f, 'j) view_manager \<Rightarrow> bool" where
  "fresh_for ids vm \<longleftrightarrow> find_view vm (fi_view ids) = None \<and> new_ids (fi_slot ids) (fi_split ids) (find_view vm)"

fun op_pre :: "('f, 'j) layout_op \<Rightarrow> ('f, 'j) view_manager \<Rightarrow> bool" where
  "op_pre (LoCreateWindow L) vm = (closing_map vm L = None)"
| "op_pre (LoAttachWindow L v) vm = (closing_map vm L = None \<and> owner_map vm v = None)"
| "op_pre (LoInsertTab L v) vm = (owner_map vm v = None)"
| "op_pre (LoDropDetached v) vm = (owner_map vm v = None)"
| "op_pre (LoDock v (NewWindow L) focus mv) vm = (closing_map vm L = None)"
| "op_pre (LoAdopt restored) vm = (vm_inv restored \<and>
     (\<forall>v x u y. find_view vm v = Some x \<longrightarrow> owner_map vm v = None \<longrightarrow> find_view restored u = Some y \<longrightarrow> apart x y))"
| "op_pre _ vm = True"

subsection \<open>Keys\<close>

lemma keys_prims [simp, intro]:
  assumes "keys_ok vm"
  shows "keys_ok (put_view x v vm)" "keys_ok (set_owner v L vm)" "keys_ok (map_window L f vm)" "keys_ok (forget_unknown v s vm)"
    "keys_ok (remember_unknown v s raw vm)" "keys_ok (remove_view v vm)" "keys_ok (bump_version vm)" "keys_ok (insert_window_entry L w vm)"
    "keys_ok (snd (retire_window_entry L os vm))" "keys_ok (snd (release_closing L vm))" "keys_ok (make_view nv ns vm)"
    "keys_ok (insert_new_popout nwin L v vm)" "keys_ok (activate L v vm)" "keys_ok (move_unknown v t vm)"
    "keys_ok (vm\<lparr>vm_windows := AList.update L w (vm_windows vm)\<rparr>)"
  using assms
  by (auto simp: keys_ok_def put_view_def set_owner_def map_window_def forget_unknown_def remember_unknown_def remove_view_def bump_version_def
      insert_window_entry_def retire_window_entry_def release_closing_def make_view_def insert_new_popout_def activate_def move_unknown_def Let_def
      distinct_update distinct_delete split: option.splits)

lemma keys_more [simp]:
  "keys_ok (vm\<lparr>vm_attrs_rev := n\<rparr>) = keys_ok vm" "keys_ok (mark_closed L vm) = keys_ok vm" "keys_ok (seed_agent_names xs vm) = keys_ok vm"
  "keys_ok (snd (update_agent_names xs vm)) = keys_ok vm"
  by (simp_all add: keys_ok_def mark_closed_def seed_agent_names_def update_agent_names_def Let_def bump_version_def)

lemma pull_keys: "keys_ok vm \<Longrightarrow> keys_ok (snd (pull_docked_tab nv ns L v s vm))" "keys_ok vm \<Longrightarrow> keys_ok (snd (pull_tab L v s vm))"
proof -
  show 1: "keys_ok vm \<Longrightarrow> keys_ok (snd (pull_tab L v s vm))" for vm :: "('a, 'b) view_manager"
    by (auto simp: pull_tab_def Let_def split: option.split)
  show "keys_ok vm \<Longrightarrow> keys_ok (snd (pull_docked_tab nv ns L v s vm))"
    using 1[of vm] by (auto simp: pull_docked_tab_def refill_main_def split: prod.splits pulled.splits)
qed

lemma write_keys: "keys_ok vm \<Longrightarrow> keys_ok (snd (write_slot_content v s c vm))"
  by (auto simp: write_slot_content_def split: option.splits prod.splits bool.splits)

lemma fold_keys: "keys_ok vm \<Longrightarrow> keys_ok (fold remove_view vs vm)" "keys_ok vm \<Longrightarrow> keys_ok (fold (\<lambda>l m. snd (retire_window_entry l OsGone m)) ls vm)"
  by (induction vs arbitrary: vm, auto) (induction ls arbitrary: vm, auto)

lemma insert_popouts_keys: "keys_ok vm \<Longrightarrow> keys_ok (insert_popouts ps ns vm)"
  by (induction ps ns vm rule: insert_popouts.induct) auto

lemma adopt_keys: "keys_ok (snd (adopt_restored restored vm))" if "keys_ok vm"
proof -
  have e: "keys_ok (m\<lparr>vm_views := map_extend a (vm_views k), vm_owner := map_extend b (vm_owner k), vm_unknown := map_extend c (vm_unknown k)\<rparr>)"
    if "keys_ok m" "keys_ok k" for a b c and m k :: "('a, 'b) view_manager" using that by (simp add: keys_ok_def map_extend_keys)
  have z: "keys_ok (m\<lparr>vm_closing := []\<rparr>)" if "keys_ok m" for m :: "('a, 'b) view_manager" using that by (simp add: keys_ok_def)
  show ?thesis using that
    by (auto simp: adopt_restored_def Let_def split: option.splits intro!: insert_popouts_keys e z fold_keys keys_prims(3,7))
qed

lemma dock_keys: "keys_ok (snd (dock mt ids v dest focus mv vm))" if k: "keys_ok vm"
proof -
  have "keys_ok (snd (apply_seam nv ns v focus mv L t T lay vm))" for nv ns L t T lay
    using pull_keys(1)[OF keys_prims(14)[OF k]] by (auto simp: apply_seam_def Let_def case_prod_beta split: option.split)
  moreover have "keys_ok (snd (apply_tab_bar nv ns v focus mv L T tabs vm))" "keys_ok (snd (apply_new_window nv ns nwin v mv L T vm))" for nv ns nwin L T tabs
    using pull_keys(1)[OF k] k by (auto simp: apply_tab_bar_def apply_new_window_def Let_def case_prod_beta)
  ultimately show ?thesis using k by (auto simp: dock_def Let_def case_prod_beta split: sum.split dock_plan.split)
qed

lemma slot_ops_keys:
  assumes k: "keys_ok vm"
  shows "keys_ok (snd (split_slot mt ns np v s dir vm))" "keys_ok (snd (set_split_ratio mt v m r vm))" "keys_ok (snd (set_focused_slot v s vm))"
    "keys_ok (snd (rename_tab v name vm))" "keys_ok (snd (close_slot ns v s vm))" "keys_ok (snd (set_slot_content v s c vm))"
    "keys_ok (snd (assign_agent v s a vm))" "keys_ok (snd (set_unknown_content v s raw vm))"
proof -
  have w: "keys_ok vm'" if "write_slot_content v s c' vm = (e, vm')" for c' e vm' using write_keys[OF k, of v s c'] that by simp
  show "keys_ok (snd (set_slot_content v s c vm))" "keys_ok (snd (assign_agent v s a vm))" "keys_ok (snd (set_unknown_content v s raw vm))"
    using w by (auto simp: set_slot_content_def assign_agent_def set_unknown_content_def split: prod.splits sum.splits)
  show "keys_ok (snd (split_slot mt ns np v s dir vm))" "keys_ok (snd (set_focused_slot v s vm))"
    "keys_ok (snd (rename_tab v name vm))" "keys_ok (snd (close_slot ns v s vm))"
    using k by (auto simp: split_slot_def set_focused_slot_def rename_tab_def close_slot_def split: option.splits prod.splits bool.splits)
  show "keys_ok (snd (set_split_ratio mt v m r vm))" using k by (auto simp: set_split_ratio_def Let_def split: option.splits sum.splits)
qed

lemma tab_ops_keys:
  assumes k: "keys_ok vm"
  shows "keys_ok (snd (create_tab nv ns L name vm))" "keys_ok (snd (create_window nv ns nwin L vm))" "keys_ok (snd (switch_tab L v vm))"
    "keys_ok (snd (switch_tab_if L v e vm))" "keys_ok (snd (close_tab nv ns L v vm))" "keys_ok (snd (remove_window L os vm))"
    "keys_ok (snd (prepare_detached_view nv ns v s vm))" "keys_ok (drop_detached_view v vm)" "keys_ok (snd (insert_tab_into L v vm))"
    "keys_ok (snd (attach_view_as_new_window nwin L v vm))"
proof -
  show "keys_ok (snd (create_tab nv ns L name vm))" using k by (auto simp: create_tab_def Let_def split: option.splits)
  show "keys_ok (snd (create_window nv ns nwin L vm))" "keys_ok (drop_detached_view v vm)" "keys_ok (snd (insert_tab_into L v vm))"
    "keys_ok (snd (attach_view_as_new_window nwin L v vm))"
    using k by (auto simp: create_window_def drop_detached_view_def insert_tab_into_def attach_view_as_new_window_def)
  show 1: "keys_ok (snd (switch_tab L v vm))" using k by (auto simp: switch_tab_def split: option.splits)
  show "keys_ok (snd (switch_tab_if L v e vm))" using k 1 by (auto simp: switch_tab_if_def split: option.splits prod.splits sum.splits)
  show "keys_ok (snd (close_tab nv ns L v vm))"
    using k pull_keys(2)[OF keys_prims(6)[OF k], of L v None v] by (auto simp: close_tab_def refill_main_def split: option.splits prod.splits pulled.splits)
  show "keys_ok (snd (remove_window L os vm))"
  proof -
    have "keys_ok m" if "retire_window_entry L os vm = (e, m)" for e m using keys_prims(9)[OF k, of L os] unfolding that by simp
    then show ?thesis using k by (auto simp: remove_window_def fold_keys(1) split: prod.splits option.splits)
  qed
  show "keys_ok (snd (prepare_detached_view nv ns v s vm))"
    using k write_keys[OF keys_prims(11)[OF k]] by (auto simp: prepare_detached_view_def Let_def split: sum.splits option.splits)
qed

lemma attrs_keys:
  assumes k: "keys_ok vm"
  shows "keys_ok (snd (update_attrs L ch vm))" "keys_ok (snd (observe_window_placement L seen vm))" "keys_ok (snd (set_window_canvas L cw h vm))"
    "keys_ok (snd (set_ui_metrics mok L m vm))"
  using k by (auto simp: update_attrs_def observe_window_placement_def set_window_canvas_def set_ui_metrics_def Let_def
      split: option.splits prod.splits sum.splits)

subsection \<open>Every operation keeps the invariant\<close>

lemmas inv_own = create_tab_own create_window_own switch_own close_tab_own remove_window_own release_own slot_ops_own detach_own drop_detached_own
  insert_tab_own attach_own attrs_own

lemmas inv_trees = create_trees window_ops_trees remove_window_trees close_tab_trees split_slot_trees set_ratio_trees slot_ops_trees close_slot_trees
  set_unknown_trees

lemmas inv_keys = tab_ops_keys slot_ops_keys attrs_keys keys_prims(10)

lemma names_own_trees:
  "vm_own (seed_agent_names xs vm) = vm_own vm" "vm_views_ok (seed_agent_names xs vm) = vm_views_ok vm"
  "vm_own (snd (update_agent_names xs vm)) = vm_own vm" "vm_views_ok (snd (update_agent_names xs vm)) = vm_views_ok vm"
  "vm_own (mark_closed L vm) = vm_own vm" "vm_views_ok (mark_closed L vm) = vm_views_ok vm"
  by (simp_all add: vm_own_def vm_views_ok_def seed_agent_names_def update_agent_names_def mark_closed_def bump_version_def Let_def)

lemma run_op_inv:
  fixes mt :: "('f::linorder, 'f) metric"
  assumes inv: "vm_inv vm" and fresh: "fresh_for ids vm" and pre: "op_pre op vm"
  shows "vm_inv (snd (run_op mt io ids op vm))"
proof -
  have k: "keys_ok vm" and o: "vm_own vm" and t: "vm_views_ok vm" using inv by (auto simp: vm_inv_def)
  have f: "find_view vm (fi_view ids) = None" "new_ids (fi_slot ids) (fi_split ids) (find_view vm)" using fresh by (auto simp: fresh_for_def)
  show ?thesis
  proof (cases op)
    case (LoDock v dest focus mv)
    have "vm_own (snd (dock mt ids v dest focus mv vm))" by (rule dock_own[OF o f(1)]) (use pre LoDock in simp)
    then show ?thesis using dock_keys[OF k] dock_trees[OF t o f] LoDock by (simp add: vm_inv_def outcome_parts)
  next
    case (LoAdopt restored)
    then have "vm_inv restored" and ap: "\<And>v x u y. \<lbrakk>find_view vm v = Some x; owner_map vm v = None; find_view restored u = Some y\<rbrakk> \<Longrightarrow> apart x y"
      using pre by auto
    then have r: "keys_ok restored" "vm_own restored" "vm_views_ok restored" by (auto simp: vm_inv_def)
    show ?thesis using adopt_keys[OF k] adopt_own[OF o k r(1,2)] adopt_trees[OF o k r(1) t r(3) ap] LoAdopt by (simp add: vm_inv_def outcome_parts)
  qed (use k o t f pre in \<open>simp_all add: vm_inv_def outcome_parts inv_own inv_trees inv_keys names_own_trees close_window_def drop_window_gone_def
      set_window_theme_def set_window_maximized_def\<close>)
qed

section \<open>Errors\<close>

lemma tree_none:
  "split_in_tree h n m t s d = (None, t') \<Longrightarrow> t' = t" "close_in_tree f t s = (False, t') \<Longrightarrow> t' = t" "set_in_tree t s c = (False, t') \<Longrightarrow> t' = t"
proof -
  show "split_in_tree h n m t s d = (None, t') \<Longrightarrow> t' = t"
    by (induction t arbitrary: t') (auto split: if_splits prod.splits option.splits)
  show "close_in_tree f t s = (False, t') \<Longrightarrow> t' = t"
    by (induction t arbitrary: t') (auto split: if_splits prod.splits bool.splits)
  show "set_in_tree t s c = (False, t') \<Longrightarrow> t' = t"
    by (induction t arbitrary: t') (auto split: if_splits prod.splits)
qed

lemma put_same: "find_view vm v = Some x \<Longrightarrow> put_view x v vm = vm"
  by (simp add: put_view_def update_triv)

lemma write_error: "write_slot_content v s c vm = (Inl e, vm') \<Longrightarrow> vm' = vm"
  by (auto simp: write_slot_content_def put_same split: option.splits prod.splits bool.splits dest!: tree_none)

text \<open>\<^verbatim>\<open>split_slot\<close> with its area check left open.\<close>

lemma split_slot_cases:
  "split_slot mt ns np v s dir vm = (Inl SplitTooDeep, vm) \<or> split_slot mt ns np v s dir vm = (Inl (ViewNotFound v), vm) \<or>
   split_slot mt ns np v s dir vm = (Inl (SlotNotFound s), vm) \<or>
   (\<exists>x n t. find_view vm v = Some x \<and> split_in_tree (mt_half mt) ns np (vw_layout x) s dir = (Some n, t) \<and>
      split_slot mt ns np v s dir vm = (Inr n, bump_version (put_view (x\<lparr>vw_layout := t, vw_focused := Some n\<rparr>) v vm)))"
proof (cases "find_view vm v")
  case (Some x)
  obtain G where G: "split_slot mt ns np v s dir vm = (if G then (Inl SplitTooDeep, vm) else case split_in_tree (mt_half mt) ns np (vw_layout x) s dir of
      (Some n, t) \<Rightarrow> (Inr n, bump_version (put_view (x\<lparr>vw_layout := t, vw_focused := Some n\<rparr>) v vm))
    | (None, t) \<Rightarrow> (Inl (SlotNotFound s), put_view (x\<lparr>vw_layout := t\<rparr>) v vm))"
    using Some unfolding split_slot_def by simp
  show ?thesis
  proof (cases "split_in_tree (mt_half mt) ns np (vw_layout x) s dir")
    case (Pair r t)
    then show ?thesis using G Some tree_none(1)[of "mt_half mt" ns np "vw_layout x" s dir t] by (cases G; cases r) (auto simp: put_same)
  qed
qed (simp add: split_slot_def)

lemma run_op_error:
  fixes mt :: "('f::linorder, 'f) metric"
  assumes "\<not> fst (run_op mt io ids op vm)"
  shows "snd (run_op mt io ids op vm) = vm"
proof -
  have split: "isl (fst (split_slot mt ns np v s dir vm)) \<Longrightarrow> snd (split_slot mt ns np v s dir vm) = vm" for ns np v s dir
    using split_slot_cases[of mt ns np v s dir vm] by auto
  have slot: "isl (fst (close_slot ns v s vm)) \<Longrightarrow> snd (close_slot ns v s vm) = vm"
    "isl (fst (set_slot_content v s c vm)) \<Longrightarrow> snd (set_slot_content v s c vm) = vm"
    "isl (fst (assign_agent v s a vm)) \<Longrightarrow> snd (assign_agent v s a vm) = vm"
    "isl (fst (set_unknown_content v s raw vm)) \<Longrightarrow> snd (set_unknown_content v s raw vm) = vm" for ns v s c a raw
    by (auto simp: close_slot_def set_slot_content_def assign_agent_def set_unknown_content_def put_same
        split: option.splits prod.splits bool.splits sum.splits if_splits dest!: tree_none write_error)
  have rest: "isl (fst (set_split_ratio mt v m r vm)) \<Longrightarrow> snd (set_split_ratio mt v m r vm) = vm"
    "isl (fst (dock mt ids v dest focus mv vm)) \<Longrightarrow> snd (dock mt ids v dest focus mv vm) = vm"
    "isl (fst (adopt_restored restored vm)) \<Longrightarrow> snd (adopt_restored restored vm) = vm"
    "isl (fst (close_tab nv ns L v vm)) \<Longrightarrow> snd (close_tab nv ns L v vm) = vm"
    "isl (fst (remove_window L os vm)) \<Longrightarrow> snd (remove_window L os vm) = vm"
    "isl (fst (switch_tab_if L v e vm)) \<Longrightarrow> snd (switch_tab_if L v e vm) = vm" for v m r dest focus mv restored nv ns L os e
    by (auto simp: set_split_ratio_def dock_def adopt_restored_def close_tab_def remove_window_def retire_window_entry_def switch_tab_if_def switch_tab_def
        Let_def split: option.splits sum.splits prod.splits if_splits dock_plan.splits pulled.splits)
  show ?thesis using assms
    by (cases op) (auto simp: outcome_parts split slot rest close_window_def drop_window_gone_def create_tab_def create_window_def switch_tab_def set_focused_slot_def
        rename_tab_def prepare_detached_view_def insert_tab_into_def attach_view_as_new_window_def set_window_theme_def set_window_maximized_def
        update_attrs_def observe_window_placement_def set_window_canvas_def set_ui_metrics_def Let_def split: option.splits sum.splits prod.splits if_splits)
qed

end
