(* ===== verification/View_Props.thy ===== *)
theory View_Props
  imports View_System
begin

text \<open>
  The properties of the layout authority: what holds in every state it can reach, what a failed operation leaves, what
  the version number counts, and what docking and closing do exactly.
\<close>

section \<open>The version number\<close>

text \<open>What the version number stands for: the views, who owns them, the contents kept aside, and of every window its
  tabs, its active tab, its number and its lasting identifier.\<close>

definition window_face :: "'f window_tabs \<Rightarrow> view_id list \<times> view_id \<times> nat \<times> ustr" where
  "window_face w = (wt_tabs w, wt_active w, wt_number w, wt_window_id w)"

definition layout_face :: "('f, 'j) view_manager \<Rightarrow> _" where
  "layout_face vm = (vm_views vm, vm_owner vm, vm_unknown vm, map (map_prod id window_face) (vm_windows vm))"

lemma face_update: "map_of al L = Some w \<Longrightarrow> window_face w' = window_face w \<Longrightarrow>
    map (map_prod id window_face) (AList.update L w' al) = map (map_prod id window_face) al"
  by (induction al) (auto split: if_splits)

definition counted :: "('f, 'j) view_manager \<Rightarrow> ('f, 'j) view_manager \<Rightarrow> bool" where
  "counted vm vm' \<longleftrightarrow> (vm_version vm' = vm_version vm \<and> layout_face vm' = layout_face vm) \<or> vm_version vm' = vm_version vm + 1"

lemma version_prims [simp]:
  "vm_version (put_view x v vm) = vm_version vm" "vm_version (set_owner v L vm) = vm_version vm" "vm_version (remember_unknown v s raw vm) = vm_version vm"
  "vm_version (remove_view v vm) = vm_version vm" "vm_version (bump_version vm) = vm_version vm + 1" "vm_version (insert_window_entry L w vm) = vm_version vm"
  "vm_version (snd (retire_window_entry L os vm)) = vm_version vm" "vm_version (insert_new_popout nwin L v vm) = vm_version vm"
  "vm_version (activate L v vm) = vm_version vm" "vm_version (refill_main nv ns vm) = vm_version vm" "vm_version (snd (pull_tab L v succ vm)) = vm_version vm"
  "vm_version (snd (pull_docked_tab nv ns L v succ vm)) = vm_version vm" "vm_version (snd (write_slot_content v s c vm)) = vm_version vm"
proof -
  show r: "vm_version (refill_main nv ns vm) = vm_version vm" for vm :: "('a, 'b) view_manager"
    by (simp add: refill_main_def set_owner_def)
  show p: "vm_version (snd (pull_tab L v succ vm)) = vm_version vm" for vm :: "('a, 'b) view_manager"
    by (auto simp: pull_tab_def retire_window_entry_def Let_def split: option.split)
  show "vm_version (snd (pull_docked_tab nv ns L v succ vm)) = vm_version vm"
    using p[of vm] r by (auto simp: pull_docked_tab_def split: prod.splits pulled.splits)
qed (auto simp: put_view_def set_owner_def remember_unknown_def remove_view_def bump_version_def insert_window_entry_def retire_window_entry_def
    insert_new_popout_def activate_def write_slot_content_def Let_def split: option.splits prod.splits bool.splits)

lemma counted_refl [simp]: "counted vm vm"
  by (simp add: counted_def)

lemma counted_bump: "vm_version vm' = vm_version vm \<Longrightarrow> counted vm (bump_version vm')"
  by (simp add: counted_def)

lemma dock_counted: "counted vm (snd (dock mt ids v dest focus mv vm))"
proof -
  have "vm_version (snd (apply_seam nv ns v focus mv L t T lay vm)) = vm_version vm" "vm_version (snd (apply_tab_bar nv ns v focus mv L T tabs vm)) = vm_version vm"
    "vm_version (snd (apply_new_window nv ns nwin v mv L T vm)) = vm_version vm" for nv ns nwin L t T lay tabs
    by (auto simp: apply_seam_def apply_tab_bar_def apply_new_window_def Let_def case_prod_beta split: option.split)
  then show ?thesis by (auto simp: dock_def Let_def case_prod_beta counted_bump split: sum.split dock_plan.split)
qed

lemma window_counted:
  assumes "find_window vm L = Some w" "window_face w' = window_face w"
  shows "counted vm (vm\<lparr>vm_windows := AList.update L w' (vm_windows vm)\<rparr>)" "counted vm (vm\<lparr>vm_windows := AList.update L w' (vm_windows vm), vm_attrs_rev := n\<rparr>)"
  using face_update[OF assms] by (simp_all add: counted_def layout_face_def)

lemma attrs_counted:
  "counted vm (snd (update_attrs L ch vm))" "counted vm (snd (observe_window_placement L seen vm))" "counted vm (snd (set_window_canvas L cw h vm))"
  "counted vm (snd (set_ui_metrics mok L m vm))"
  by (auto simp: update_attrs_def observe_window_placement_def set_window_canvas_def set_ui_metrics_def Let_def window_face_def
      split: option.splits prod.splits sum.splits intro: window_counted)

lemma slot_ops_counted:
  "counted vm (snd (split_slot mt ns np v s dir vm))" "counted vm (snd (set_split_ratio mt v m r vm))" "counted vm (snd (close_slot ns v s vm))"
  "counted vm (snd (set_slot_content v s c vm))" "counted vm (snd (assign_agent v s a vm))" "counted vm (snd (set_unknown_content v s raw vm))"
proof -
  show "counted vm (snd (split_slot mt ns np v s dir vm))" using split_slot_cases[of mt ns np v s dir vm] by (auto simp: counted_bump)
  show "counted vm (snd (set_split_ratio mt v m r vm))" by (auto simp: set_split_ratio_def Let_def counted_bump split: option.splits sum.splits)
  show "counted vm (snd (close_slot ns v s vm))"
    by (auto simp: close_slot_def put_same counted_bump split: option.splits prod.splits bool.splits dest!: tree_none)
  have w: "vm_version vm' = vm_version vm" if "write_slot_content v s c' vm = (e, vm')" for c' e vm' using version_prims(13)[of v s c' vm] that by simp
  show "counted vm (snd (set_slot_content v s c vm))" "counted vm (snd (assign_agent v s a vm))" "counted vm (snd (set_unknown_content v s raw vm))"
    using w by (auto simp: set_slot_content_def assign_agent_def set_unknown_content_def intro!: counted_bump split: prod.splits sum.splits dest: write_error)
qed

lemma quiet_counted:
  "counted vm (snd (release_closing L vm))" "counted vm (mark_closed L vm)" "counted vm (seed_agent_names xs vm)"
  by (simp_all add: counted_def layout_face_def release_closing_def mark_closed_def seed_agent_names_def)

lemma fold_version [simp]: "vm_version (fold remove_view vs vm) = vm_version vm"
  by (rule remove_views_simps(7))

lemma remove_window_counted: "counted vm (snd (remove_window L os vm))"
proof -
  have "vm_version m = vm_version vm" if "retire_window_entry L os vm = (e, m)" for e m using version_prims(7)[of L os vm] that by simp
  then show ?thesis by (auto simp: remove_window_def retire_window_entry_def Let_def split: prod.splits option.splits intro!: counted_bump)
qed

lemma run_op_counted: "counted vm (snd (run_op mt io ids op vm))"
proof (cases op)
  case (LoAdopt restored)
  have "vm_version (insert_popouts ps ns (seed_agent_names xs m)) = vm_version m" for ps ns xs and m :: "('a, 'b) view_manager" by simp
  then show ?thesis using LoAdopt
    by (auto simp: outcome_parts adopt_restored_def Let_def counted_def bump_version_def retire_fold_simps split: option.splits)
next
  case (LoAgentNames names)
  then show ?thesis by (simp add: update_agent_names_def Let_def counted_def bump_version_def layout_face_def)
next
  case (LoCloseTab L v)
  have "vm_version m = vm_version vm" if "pull_tab L v None (remove_view v vm) = (p, m)" for p m
    using version_prims(11)[of L v None "remove_view v vm"] that by simp
  then show ?thesis using LoCloseTab
    by (auto simp: outcome_parts close_tab_def split: option.splits prod.splits pulled.splits intro!: counted_bump)
next
  case (LoSwitchTabIf L v e)
  have "counted vm (snd (switch_tab L v vm))" by (auto simp: switch_tab_def split: option.splits intro!: counted_bump)
  then show ?thesis using LoSwitchTabIf by (auto simp: outcome_parts switch_tab_if_def split: option.splits prod.splits sum.splits)
qed (auto simp: outcome_parts dock_counted attrs_counted slot_ops_counted quiet_counted remove_window_counted create_tab_def create_window_def switch_tab_def
    close_window_def drop_window_gone_def set_focused_slot_def rename_tab_def prepare_detached_view_def drop_detached_view_def insert_tab_into_def
    attach_view_as_new_window_def set_window_theme_def set_window_maximized_def Let_def intro!: counted_bump split: option.splits sum.splits)

section \<open>Reachable layouts\<close>

inductive layout_init :: "('f, 'j) view_manager \<Rightarrow> bool" where
  init_new: "layout_init (vm_new nv ns)"
| init_restored: "\<lbrakk>from_restored nv ns main popouts = Some vm; readable (restored_views main popouts);
     \<forall>x \<in> set (restored_views main popouts). ns \<notin> slots_of x\<rbrakk> \<Longrightarrow> layout_init vm"

inductive layout_step :: "('f::linorder, 'f) metric \<Rightarrow> ('f \<Rightarrow> bool) \<Rightarrow> ('f, 'j) view_manager \<Rightarrow> ('f, 'j) view_manager \<Rightarrow> bool"
  for mt :: "('f::linorder, 'f) metric" and io :: "'f \<Rightarrow> bool" where
  layout_run: "\<lbrakk>fresh_for ids vm; op_pre op vm\<rbrakk> \<Longrightarrow> layout_step mt io vm (snd (run_op mt io ids op vm))"

inductive_cases layout_stepE: "layout_step mt io vm vm'"

lemma restore_keys: "keys_ok vm \<Longrightarrow> adopt_loop L xs vm = (b, vm') \<Longrightarrow> keys_ok vm'"
proof (induction xs arbitrary: vm)
  case (Cons x xs)
  show ?case
  proof (cases "find_view vm (vw_id x) = None")
    case True
    then have "adopt_loop L xs (put_view (fixup_focus x) (vw_id x) (set_owner (vw_id x) L vm)) = (b, vm')" using Cons.prems(2) by simp
    then show ?thesis by (rule Cons.IH[rotated]) (use Cons.prems(1) in simp)
  qed (use Cons.prems in simp)
qed simp

lemma restore_popouts_keys: "keys_ok vm \<Longrightarrow> restore_popouts ps ns vm = Some vm' \<Longrightarrow> keys_ok vm'"
proof (induction ps ns vm rule: restore_popouts.induct)
  case (3 L wid w ps n ns vm)
  obtain tabs active vm1 where a: "adopt_tabs L (rw_tabs w) (rw_active w) vm = (Some (tabs, active), vm1)"
    "find_window vm L = None" "rw_tabs w \<noteq> []" "restore_popouts ps ns (insert_window_entry L (window_new wid n (rw_attrs w) tabs active) vm1) = Some vm'"
    using "3.prems"(2) by (auto split: if_splits option.splits prod.splits)
  have "keys_ok vm1" using restore_keys[OF "3.prems"(1)] a(1) by (auto simp: adopt_tabs_Some)
  then show ?case by (intro "3.IH"[OF _ a(3) a(1)[symmetric] refl refl _ a(4)]) (use a(2) in auto)
qed auto

lemma layout_init_inv: "layout_init vm \<Longrightarrow> vm_inv vm"
proof (induction rule: layout_init.induct)
  case (init_new nv ns)
  have "keys_ok (vm_blank :: ('a, 'b) view_manager)" by (simp add: keys_ok_def vm_blank_def)
  then show ?case by (simp add: vm_inv_def vm_new_own vm_new_trees) (simp add: vm_new_def)
next
  case (init_restored nv ns main popouts vm)
  have b: "keys_ok (vm_blank :: ('a, 'b) view_manager)" by (simp add: keys_ok_def vm_blank_def)
  have "keys_ok vm"
  proof (cases "rw_tabs main = []")
    case True
    then have "restore_popouts popouts (resolve_saved (map (\<lambda>(_, _, p). rw_number p) popouts) [MAIN_WINDOW_NUMBER])
      (insert_window_entry MAIN_WINDOW_LABEL (window_new_main (rw_attrs main) [nv] nv) (set_owner nv MAIN_WINDOW_LABEL (make_view nv ns vm_blank))) = Some vm"
      using init_restored(1) by (simp add: from_restored_def)
    then show ?thesis by (rule restore_popouts_keys[rotated]) (simp add: b)
  next
    case False
    then obtain tabs active vm0 where a: "adopt_loop MAIN_WINDOW_LABEL (rw_tabs main) (vm_blank :: ('a, 'b) view_manager) = (True, vm0)"
      "restore_popouts popouts (resolve_saved (map (\<lambda>(_, _, p). rw_number p) popouts) [MAIN_WINDOW_NUMBER])
        (insert_window_entry MAIN_WINDOW_LABEL (window_new_main (rw_attrs main) tabs active) vm0) = Some vm"
      using init_restored(1) by (auto simp: from_restored_def Let_def adopt_tabs_Some split: option.splits prod.splits)
    show ?thesis by (rule restore_popouts_keys[OF _ a(2)]) (use restore_keys[OF b a(1)] in simp)
  qed
  then show ?case using from_restored_own[OF init_restored(1)] from_restored_trees[OF init_restored] by (simp add: vm_inv_def)
qed

interpretation layout_sys: step_invariant layout_init "layout_step mt io" vm_inv for mt io
  by unfold_locales (auto intro: layout_init_inv run_op_inv elim!: layout_stepE)

abbreviation layout_reachable :: "('f::linorder, 'f) metric \<Rightarrow> ('f \<Rightarrow> bool) \<Rightarrow> ('f, 'j) view_manager \<Rightarrow> bool" where
  "layout_reachable mt io \<equiv> reachable layout_init (layout_step mt io)"

lemma layout_reach_run:
  "\<lbrakk>layout_reachable mt io vm; fresh_for ids vm; op_pre op vm\<rbrakk> \<Longrightarrow> layout_reachable mt io (snd (run_op mt io ids op vm))"
  by (rule reach_step) (auto intro: layout_run)

section \<open>Numbers\<close>

lemma alist_inj:
  assumes "distinct (map fst al)" "\<And>k x k' x'. \<lbrakk>map_of al k = Some x; map_of al k' = Some x'; f x = f x'\<rbrakk> \<Longrightarrow> k = k'"
  shows "distinct (map (\<lambda>(_, x). f x) al)"
proof -
  have "inj_on (\<lambda>(_, x). f x) (set al)"
    using assms by (auto simp: inj_on_def map_of_is_SomeI) (metis map_of_is_SomeI option.inject)+
  then show ?thesis using assms(1) by (simp add: distinct_map)
qed

lemma held_distinct: "distinct (held_numbers vm)" if own: "vm_own vm" and keys: "keys_ok vm"
proof -
  have n: "numbers_ok (find_window vm) (closing_map vm)" by (rule own_okD(3)[OF own[unfolded vm_own_def]])
  then have inj: "\<And>L L' k. held (find_window vm) (closing_map vm) L = Some k \<Longrightarrow> held (find_window vm) (closing_map vm) L' = Some k \<Longrightarrow> L = L'"
    by (auto simp: numbers_ok_def held_ok_def)
  have w: "held (find_window vm) (closing_map vm) L = Some (wt_number w)" if "find_window vm L = Some w" for L w using that by (simp add: held_def)
  have c: "held (find_window vm) (closing_map vm) L = Some (co_number c)" "find_window vm L = None" if "closing_map vm L = Some c" for L c
    using that n by (auto simp: held_def numbers_ok_def split: option.split)
  have dw: "distinct (map (\<lambda>(_, x). wt_number x) (vm_windows vm))"
    by (rule alist_inj) (use keys in \<open>simp add: keys_ok_def\<close>, metis w inj)
  have dc: "distinct (map (\<lambda>(_, x). co_number x) (vm_closing vm))"
    by (rule alist_inj) (use keys in \<open>simp add: keys_ok_def\<close>, metis c(1) inj)
  have "wt_number w \<noteq> co_number x" if "(L, w) \<in> set (vm_windows vm)" "(L', x) \<in> set (vm_closing vm)" for L w L' x
  proof
    assume e: "wt_number w = co_number x"
    have "find_window vm L = Some w" "closing_map vm L' = Some x" using that keys by (auto simp: keys_ok_def)
    then show False using w[of L w] c[of L' x] inj[of L "wt_number w" L'] e by auto
  qed
  then show ?thesis using dw dc by (auto simp: held_numbers_def)
qed

text \<open>An example: a layout with one window beside the main one.\<close>

definition demo_inset :: "rat \<Rightarrow> bool" where
  "demo_inset r \<longleftrightarrow> 0 \<le> r \<and> r \<le> 64"

definition demo_ids :: "uuid \<Rightarrow> fresh_ids" where
  "demo_ids n = \<lparr>fi_view = n, fi_slot = n + 1, fi_split = n + 2, fi_win = lit ''w''\<rparr>"

definition demo_popout :: window_label where
  "demo_popout = lit ''popout-1''"

definition demo_layout :: "(rat, nat) view_manager" where
  "demo_layout = snd (run_op rat_metric demo_inset (demo_ids 10) (LoCreateWindow demo_popout) (vm_new 1 2))"

section \<open>Properties\<close>

text \<open>C11. In every state the layout authority can reach, the main window is there with number one; no two windows,
  live or closing, hold the same number, and no other window holds one; a label is never that of a live and of a
  closing window; every window has at least one tab, no tab twice, and its active tab among them; the table of
  owners says exactly which tab is in which window, so that a tab is in one window only; and every tab is a view
  that exists.\<close>

theorem layout_ownership:
  assumes "layout_reachable mt io vm"
  shows "(\<exists>w. find_window vm MAIN_WINDOW_LABEL = Some w \<and> wt_number w = MAIN_WINDOW_NUMBER) \<and> distinct (held_numbers vm) \<and>
    dom (find_window vm) \<inter> dom (map_of (vm_closing vm)) = {} \<and>
    (\<forall>L w. find_window vm L = Some w \<longrightarrow> wt_tabs w \<noteq> [] \<and> distinct (wt_tabs w) \<and> wt_active w \<in> set (wt_tabs w) \<and>
       (L \<noteq> MAIN_WINDOW_LABEL \<longrightarrow> MAIN_WINDOW_NUMBER < wt_number w)) \<and>
    (\<forall>v L. owner_of v vm = Some L \<longleftrightarrow> (\<exists>w. find_window vm L = Some w \<and> v \<in> set (wt_tabs w))) \<and>
    (\<forall>v L. owner_of v vm = Some L \<longrightarrow> find_view vm v \<noteq> None)"
proof -
  have inv: "vm_inv vm" by (rule layout_sys.inv_reachable[OF assms])
  then have own: "vm_own vm" and keys: "keys_ok vm" by (auto simp: vm_inv_def)
  have n: "numbers_ok (find_window vm) (closing_map vm)" by (rule own_okD(3)[OF own[unfolded vm_own_def]])
  have num: "if L = MAIN_WINDOW_LABEL then wt_number w = MAIN_WINDOW_NUMBER else MAIN_WINDOW_NUMBER < wt_number w" if "find_window vm L = Some w" for L w
  proof -
    have "held (find_window vm) (closing_map vm) L = Some (wt_number w)" using that by (simp add: held_def)
    then show ?thesis using n unfolding numbers_ok_def held_ok_def by blast
  qed
  show ?thesis
  proof (intro conjI allI impI)
    show "\<exists>w. find_window vm MAIN_WINDOW_LABEL = Some w \<and> wt_number w = MAIN_WINDOW_NUMBER" using vm_ownD(4)[OF own] num by force
    show "distinct (held_numbers vm)" by (rule held_distinct[OF own keys])
    show "dom (find_window vm) \<inter> dom (map_of (vm_closing vm)) = {}" using n by (simp add: numbers_ok_def)
    fix L w assume w: "find_window vm L = Some w"
    show "distinct (wt_tabs w)" "wt_active w \<in> set (wt_tabs w)" "wt_tabs w \<noteq> []" using vm_ownD(2)[OF own w] by (auto simp: window_ok_def)
    show "MAIN_WINDOW_NUMBER < wt_number w" if "L \<noteq> MAIN_WINDOW_LABEL" using num[OF w] that by simp
  next
    fix v L
    show "owner_of v vm = Some L \<longleftrightarrow> (\<exists>w. find_window vm L = Some w \<and> v \<in> set (wt_tabs w))" unfolding owner_of_def by (rule vm_ownD(1)[OF own])
    show "find_view vm v \<noteq> None" if "owner_of v vm = Some L" using vm_ownD(3)[OF own] that by (simp add: owner_of_def)
  qed
qed

text \<open>C12. In every state the layout authority can reach, a view carries its own identifier, no two of its slots and no
  two of its splits share an identifier, and its focus is one of its slots; no two views share a slot or a split; a
  content kept aside because this version cannot read it belongs to a slot that exists and reads as empty.\<close>

theorem layout_views_sound:
  assumes "layout_reachable mt io vm"
  shows "(\<forall>v x. find_view vm v = Some x \<longrightarrow> vw_id x = v \<and> tree_ok (vw_layout x) \<and>
       (\<exists>s. vw_focused x = Some s \<and> contains_slot (vw_layout x) s)) \<and>
    (\<forall>v x u y. find_view vm v = Some x \<longrightarrow> find_view vm u = Some y \<longrightarrow> u \<noteq> v \<longrightarrow>
       set (slot_ids (vw_layout x)) \<inter> set (slot_ids (vw_layout y)) = {} \<and> set (split_ids (vw_layout x)) \<inter> set (split_ids (vw_layout y)) = {}) \<and>
    (\<forall>v s raw. unknown_content v s vm = Some raw \<longrightarrow> view_slot_content v s vm = Inr Empty)"
proof -
  have ok: "views_ok (find_view vm) (unknown_map vm)" using layout_sys.inv_reachable[OF assms] by (simp add: vm_inv_def vm_views_ok_def)
  have "view_slot_content v s vm = Inr Empty" if raw: "unknown_content v s vm = Some raw" for v s raw
  proof -
    obtain l where l: "unknown_map vm v = Some l" "map_of l s = Some raw" using raw by (auto simp: unknown_content_def split: option.splits)
    obtain x where x: "find_view vm v = Some x" "raw_ok x l" using views_okD(3)[OF ok l(1)] by blast
    have "s \<in> fst ` set l" using map_of_SomeD[OF l(2)] by force
    then have "find_slot (vw_layout x) s = Some Empty" using x(2) unfolding raw_ok_def by blast
    then show ?thesis using x(1) by (simp add: view_slot_content_def)
  qed
  moreover have "vw_id x = v \<and> tree_ok (vw_layout x) \<and> (\<exists>s. vw_focused x = Some s \<and> contains_slot (vw_layout x) s)" if "find_view vm v = Some x" for v x
    using views_okD(1)[OF ok that] unfolding view_shape_def contains_iff by blast
  ultimately show ?thesis using views_okD(2)[OF ok] unfolding apart_def by blast
qed

text \<open>C39. An operation of the layout authority that answers an error has changed nothing at all, whatever the state
  it was called in.\<close>

theorem layout_errors_inert:
  "\<not> fst (run_op mt io ids op vm) \<Longrightarrow> snd (run_op mt io ids op vm) = vm"
  by (rule run_op_error)

text \<open>The version number tells every change of the layout: an operation either counts it up by one, or leaves
  it and with it the views, their owners, the contents kept aside and the tabs, active tab, number and lasting
  identifier of every window.\<close>

theorem layout_version_counts:
  "(vm_version (snd (run_op mt io ids op vm)) = vm_version vm \<and> layout_face (snd (run_op mt io ids op vm)) = layout_face vm) \<or>
   vm_version (snd (run_op mt io ids op vm)) = vm_version vm + 1"
  using run_op_counted[of vm mt io ids op] by (simp only: counted_def)

text \<open>C40. Closing a tab: the view is gone and the version counted up; when other tabs remain, the window keeps them in
  order and its active tab, or, if that is the one closed, makes its right neighbour active, or else the left one;
  the last tab of another window takes the window with it, and its number stays held while the system window
  closes; the last tab of the main window is replaced by a new one with a single empty slot. No other view is
  touched.\<close>

theorem close_tab_exact:
  assumes reach: "layout_reachable mt io vm" and fresh: "fresh_for ids vm" and w: "find_window vm L = Some w" "wt_tabs w = xs @ v # ys"
    and c: "close_tab (fi_view ids) (fi_slot ids) L v vm = (r, vm')"
  shows "vm_version vm' = vm_version vm + 1 \<and> find_view vm' v = None \<and> owner_of v vm' = None \<and>
    (xs @ ys \<noteq> [] \<longrightarrow> r = Inr CtStayed \<and> find_window vm' L = Some (w\<lparr>wt_tabs := xs @ ys,
       wt_active := if wt_active w \<noteq> v then wt_active w else if ys \<noteq> [] then hd ys else last xs\<rparr>)) \<and>
    (xs @ ys = [] \<longrightarrow> L \<noteq> MAIN_WINDOW_LABEL \<longrightarrow> r = Inr CtWindowClosed \<and> find_window vm' L = None \<and>
       map_of (vm_closing vm') L = Some \<lparr>co_window_id = wt_window_id w, co_number = wt_number w\<rparr>) \<and>
    (xs @ ys = [] \<longrightarrow> L = MAIN_WINDOW_LABEL \<longrightarrow> r = Inr CtStayed \<and>
       find_window vm' L = Some (w\<lparr>wt_tabs := [fi_view ids], wt_active := fi_view ids\<rparr>) \<and>
       find_view vm' (fi_view ids) = Some \<lparr>vw_id = fi_view ids, vw_name = TabAuto, vw_layout = new_empty_slot (fi_slot ids), vw_focused = Some (fi_slot ids)\<rparr>) \<and>
    (\<forall>u. u \<notin> {v, fi_view ids} \<longrightarrow> find_view vm' u = find_view vm u)"
proof -
  have inv: "vm_inv vm" by (rule layout_sys.inv_reachable[OF reach])
  then have own: "vm_own vm" by (auto simp: vm_inv_def)
  have nv: "find_view vm (fi_view ids) = None" using fresh by (auto simp: fresh_for_def)
  have wok: "window_ok w" by (rule vm_ownD(2)[OF own w(1)])
  have v: "v \<in> set (wt_tabs w)" "v \<notin> set xs" "v \<notin> set ys" using w(2) wok by (auto simp: window_ok_def)
  have o: "owner_map vm v = Some L" using vm_ownD(1)[OF own] w(1) v(1) by blast
  have ne: "fi_view ids \<noteq> v" using vm_ownD(3)[OF own o] nv by auto
  let ?p = "pull_docked_tab (fi_view ids) (fi_slot ids) L v None vm"
  have r: "r = Inr (if pd_emptied (fst ?p) = None then CtStayed else CtWindowClosed)" and vm': "vm' = bump_version (remove_view v (snd ?p))"
    using c close_tab_pull[OF w(1) v(1) ne, of "fi_slot ids"] by (auto simp: case_prod_beta Let_def)
  have rm: "remove1 v (wt_tabs w) = xs @ ys" using w(2) v by (simp add: remove1_append)
  have others: "find_view vm' u = find_view vm u" if "u \<notin> {v, fi_view ids}" for u
    using pull_docked_own(4)[OF own o nv, of u "fi_slot ids" None] that by (simp add: vm' bump_version_def remove_view_def alist_maps)
  have gone: "find_view vm' v = None" "owner_of v vm' = None" "vm_version vm' = vm_version vm + 1"
    by (simp_all add: vm' bump_version_def remove_view_def alist_maps owner_of_def)
  have stay: "r = Inr CtStayed \<and> find_window vm' L = Some (w\<lparr>wt_tabs := xs @ ys,
       wt_active := if wt_active w \<noteq> v then wt_active w else if ys \<noteq> [] then hd ys else last xs\<rparr>)" if "xs @ ys \<noteq> []"
  proof -
    have "heir_of w v None = (if wt_active w \<noteq> v then wt_active w else if ys \<noteq> [] then hd ys else last xs)"
      using that succession_split[OF v(2), of ys] w(2) by (cases ys) (auto simp: heir_of_def)
    then show ?thesis using pull_docked_stay[OF w(1) v(1) wok, of "fi_view ids" "fi_slot ids" None] that
      by (simp add: r vm' rm bump_version_def remove_view_def alist_maps)
  qed
  have last: "wt_tabs w = [v] \<and> wt_active w = v" if "xs @ ys = []" using only_tab[OF wok v(1)] rm that by simp
  have pop: "r = Inr CtWindowClosed \<and> find_window vm' L = None \<and> map_of (vm_closing vm') L = Some \<lparr>co_window_id = wt_window_id w, co_number = wt_number w\<rparr>"
    if "xs @ ys = []" "L \<noteq> MAIN_WINDOW_LABEL"
    using last[OF that(1)] pull_docked_popout[OF w(1) _ _ that(2), of v "fi_view ids" "fi_slot ids" None]
    by (simp add: r vm' bump_version_def remove_view_def alist_maps)
  have main: "r = Inr CtStayed \<and> find_window vm' L = Some (w\<lparr>wt_tabs := [fi_view ids], wt_active := fi_view ids\<rparr>) \<and>
       find_view vm' (fi_view ids) = Some \<lparr>vw_id = fi_view ids, vw_name = TabAuto, vw_layout = new_empty_slot (fi_slot ids), vw_focused = Some (fi_slot ids)\<rparr>"
    if "xs @ ys = []" "L = MAIN_WINDOW_LABEL"
    using last[OF that(1)] pull_docked_main[OF w(1)[unfolded that(2)], of v "fi_view ids" "fi_slot ids" None] ne that(2)
    by (simp add: r vm' bump_version_def remove_view_def alist_maps)
  show ?thesis using gone stay pop main others by blast
qed

text \<open>The slot a new agent is put into: it is the one asked for, or the first free one of the view when none was
  asked for; it exists, it reads as empty and no content is kept aside for it, so nothing is overwritten; without a
  free slot the answer is an error, and an occupied slot that was asked for is refused.\<close>

theorem spawn_slot_exact:
  assumes "layout_reachable mt io vm" and x: "find_view vm v = Some x"
  shows "(\<forall>s. resolve_spawn_slot v slot vm = Inr s \<longrightarrow>
       find_slot (vw_layout x) s = Some Empty \<and> unknown_content v s vm = None \<and> slot \<in> {None, Some s}) \<and>
    (resolve_spawn_slot v None vm = Inl SpNoEmptySlot \<longleftrightarrow>
       (\<forall>s \<in> set (slot_ids (vw_layout x)). find_slot (vw_layout x) s \<noteq> Some Empty \<or> unknown_content v s vm \<noteq> None)) \<and>
    (\<forall>s. resolve_spawn_slot v (Some s) vm = Inl (SpSlotOccupied s) \<longleftrightarrow>
       s \<in> set (slot_ids (vw_layout x)) \<and> (find_slot (vw_layout x) s \<noteq> Some Empty \<or> unknown_content v s vm \<noteq> None))"
proof -
  have id: "vw_id x = v" using layout_sys.inv_reachable[OF assms(1)] shape_parts(2)[OF _ x] by (simp add: vm_inv_def)
  have e: "content_is_empty c \<longleftrightarrow> c = Empty" for c by (cases c) auto
  have T: "free_in x s vm = Some True \<longleftrightarrow> find_slot (vw_layout x) s = Some Empty \<and> unknown_content v s vm = None" for s
    by (auto simp: free_in_def id e split: option.splits)
  have F: "free_in x s vm = Some False \<longleftrightarrow> s \<in> slots_of x \<and> (find_slot (vw_layout x) s \<noteq> Some Empty \<or> unknown_content v s vm \<noteq> None)" for s
    using find_slot_None[of "vw_layout x" s] by (cases "find_slot (vw_layout x) s") (auto simp: free_in_def id e)
  show ?thesis
  proof (intro conjI allI impI)
    show "find_slot (vw_layout x) s = Some Empty" "unknown_content v s vm = None" "slot \<in> {None, Some s}"
      if "resolve_spawn_slot v slot vm = Inr s" for s
      using that x T by (auto simp: resolve_spawn_slot_def find_Some_iff split: option.splits bool.splits)
    show "resolve_spawn_slot v None vm = Inl SpNoEmptySlot \<longleftrightarrow>
       (\<forall>s \<in> set (slot_ids (vw_layout x)). find_slot (vw_layout x) s \<noteq> Some Empty \<or> unknown_content v s vm \<noteq> None)"
    proof -
      have "resolve_spawn_slot v None vm = Inl SpNoEmptySlot \<longleftrightarrow> find (\<lambda>s. free_in x s vm = Some True) (slot_ids (vw_layout x)) = None"
        using x by (simp add: resolve_spawn_slot_def split: option.split)
      then show ?thesis unfolding find_None_iff T by auto
    qed
    show "resolve_spawn_slot v (Some s) vm = Inl (SpSlotOccupied s) \<longleftrightarrow>
       s \<in> set (slot_ids (vw_layout x)) \<and> (find_slot (vw_layout x) s \<noteq> Some Empty \<or> unknown_content v s vm \<noteq> None)" for s
      unfolding F[symmetric] using x by (auto simp: resolve_spawn_slot_def split: option.splits bool.splits)
  qed
qed

section \<open>An example\<close>

lemma demo_labels: "demo_popout \<noteq> MAIN_WINDOW_LABEL" "MAIN_WINDOW_LABEL \<noteq> demo_popout"
  by (simp_all add: demo_popout_def MAIN_WINDOW_LABEL_def)

lemma demo_eq: "demo_layout = \<lparr>
    vm_views = [(1, \<lparr>vw_id = 1, vw_name = TabAuto, vw_layout = Slot 2 Empty, vw_focused = Some 2\<rparr>),
      (10, \<lparr>vw_id = 10, vw_name = TabAuto, vw_layout = Slot 11 Empty, vw_focused = Some 11\<rparr>)],
    vm_owner = [(1, MAIN_WINDOW_LABEL), (10, demo_popout)],
    vm_windows = [(MAIN_WINDOW_LABEL, window_new_main attrs_default [1] 1), (demo_popout, window_new_popout (lit ''w'') 2 10)],
    vm_version = 1, vm_attrs_rev = 0, vm_unknown = [], vm_closed_labels = [], vm_closing = [], vm_agent_names = []\<rparr>"
  by (simp add: demo_layout_def outcome_parts create_window_def vm_new_def vm_blank_def make_view_def put_view_def set_owner_def insert_window_entry_def
      insert_new_popout_def held_numbers_def bump_version_def demo_ids_def new_empty_slot_def demo_labels window_new_main_def window_new_def
      smallest_free_def MAIN_WINDOW_NUMBER_def Let_def flip: numeral_2_eq_2)

lemma demo_reach: "layout_reachable rat_metric demo_inset demo_layout"
  unfolding demo_layout_def
proof (rule layout_reach_run)
  show "layout_reachable rat_metric demo_inset (vm_new 1 2 :: (rat, nat) view_manager)" by (rule reach_init) (rule init_new)
  show "fresh_for (demo_ids 10) (vm_new 1 2 :: (rat, nat) view_manager)"
    by (simp add: fresh_for_def new_ids_def vm_new_def vm_blank_def make_view_def put_view_def set_owner_def insert_window_entry_def demo_ids_def
        new_empty_slot_def Let_def)
qed (simp add: vm_new_def vm_blank_def make_view_def put_view_def set_owner_def insert_window_entry_def Let_def)

lemma demo_fresh: "fresh_for (demo_ids 20) demo_layout"
  by (simp add: fresh_for_def new_ids_def demo_eq demo_ids_def)

lemma demo_finds:
  "find_view demo_layout 10 = Some \<lparr>vw_id = 10, vw_name = TabAuto, vw_layout = Slot 11 Empty, vw_focused = Some 11\<rparr>"
  "find_window demo_layout demo_popout = Some (window_new_popout (lit ''w'') 2 10)"
  "find_window demo_layout MAIN_WINDOW_LABEL = Some (window_new_main attrs_default [1] 1)"
  by (simp_all add: demo_eq demo_labels)

theorem layout_ownership_witness:
  "layout_reachable rat_metric demo_inset demo_layout \<and> distinct (held_numbers demo_layout) \<and> held_numbers demo_layout = [1, 2] \<and>
   owner_of 10 demo_layout = Some demo_popout"
  using layout_ownership[OF demo_reach] demo_reach
  by (simp add: demo_eq held_numbers_def owner_of_def window_new_main_def window_new_popout_def window_new_def MAIN_WINDOW_NUMBER_def)

theorem layout_views_sound_witness:
  "layout_reachable rat_metric demo_inset demo_layout \<and> vw_focused (the (find_view demo_layout 10)) = Some 11 \<and>
   tree_ok (vw_layout (the (find_view demo_layout 10)))"
proof -
  have "tree_ok (vw_layout (the (find_view demo_layout 10)))" using layout_views_sound[OF demo_reach] demo_finds(1) by (metis option.sel)
  then show ?thesis using demo_reach by (simp add: demo_finds)
qed

theorem layout_errors_inert_witness:
  "\<not> fst (run_op rat_metric demo_inset (demo_ids 20) (LoCloseWindow MAIN_WINDOW_LABEL) demo_layout) \<and>
   snd (run_op rat_metric demo_inset (demo_ids 20) (LoCloseWindow MAIN_WINDOW_LABEL) demo_layout) = demo_layout"
  using layout_errors_inert[of rat_metric demo_inset "demo_ids 20" "LoCloseWindow MAIN_WINDOW_LABEL" demo_layout]
  by (simp add: close_window_def remove_window_def)

theorem close_tab_exact_witness:
  "fst (close_tab 20 21 demo_popout 10 demo_layout) = Inr CtWindowClosed \<and> find_window (snd (close_tab 20 21 demo_popout 10 demo_layout)) demo_popout = None \<and>
   vm_version (snd (close_tab 20 21 demo_popout 10 demo_layout)) = 2"
proof -
  have w: "wt_tabs (window_new_popout (lit ''w'') 2 10) = [] @ 10 # []" by (simp add: window_new_popout_def window_new_def)
  have c: "close_tab (fi_view (demo_ids 20)) (fi_slot (demo_ids 20)) demo_popout 10 demo_layout =
    (fst (close_tab 20 21 demo_popout 10 demo_layout), snd (close_tab 20 21 demo_popout 10 demo_layout))" by (simp add: demo_ids_def)
  show ?thesis using close_tab_exact[OF demo_reach demo_fresh demo_finds(2) w c] by (simp add: demo_labels) (simp add: demo_eq)
qed

theorem spawn_slot_exact_witness:
  "find_view demo_layout 10 \<noteq> None \<and> resolve_spawn_slot 10 None demo_layout = Inr 11 \<and> unknown_content 10 11 demo_layout = None"
proof -
  have r: "resolve_spawn_slot 10 None demo_layout = Inr 11"
    by (simp add: resolve_spawn_slot_def demo_eq free_in_def unknown_content_def)
  show ?thesis using spawn_slot_exact[OF demo_reach demo_finds(1), of None] r by (simp add: demo_finds)
qed

end
