(* ===== verification/View_Docking.thy ===== *)
theory View_Docking
  imports View_Props
begin

text \<open>
  What docking a tab does exactly: where in a tree, a tab bar or a window of its own the tab ends up, and that no slot, no
  content and no content kept aside is lost. The places are described here by themselves: a path into the tree of the
  target, a split of the tab bar.
\<close>

section \<open>Places\<close>

text \<open>The subtree at the end of a path, and the tree with another one put there; a step is right (or down) if it is true.\<close>

fun subtree_at :: "bool list \<Rightarrow> 'r layout_node \<Rightarrow> 'r layout_node option" where
  "subtree_at [] t = Some t"
| "subtree_at (right # p) (Split i d r a b) = subtree_at p (if right then b else a)"
| "subtree_at (right # p) (Slot i c) = None"

fun put_at :: "bool list \<Rightarrow> 'r layout_node \<Rightarrow> 'r layout_node \<Rightarrow> 'r layout_node" where
  "put_at [] new t = new"
| "put_at (right # p) new (Split i d r a b) = (if right then Split i d r a (put_at p new b) else Split i d r (put_at p new a) b)"
| "put_at (right # p) new (Slot i c) = Slot i c"

text \<open>\<open>new\<close> beside \<open>old\<close> with the share \<open>share\<close> of the place of \<open>old\<close>; the ratio of a split is that of its first child.\<close>

fun beside :: "('f, 'r) metric \<Rightarrow> uuid \<Rightarrow> dock_side \<Rightarrow> 'r \<Rightarrow> 'r layout_node \<Rightarrow> 'r layout_node \<Rightarrow> 'r layout_node" where
  "beside mt i DockLeft share new old = Split i LeftRight share new old"
| "beside mt i DockRight share new old = Split i LeftRight (mt_rest mt share) old new"
| "beside mt i DockTop share new old = Split i TopBottom share new old"
| "beside mt i DockBottom share new old = Split i TopBottom (mt_rest mt share) old new"

definition seam_place :: "('f, 'r) metric \<Rightarrow> uuid \<Rightarrow> dock_anchor \<Rightarrow> dock_side \<Rightarrow> 'r \<Rightarrow> 'r layout_node \<Rightarrow> 'r layout_node
    \<Rightarrow> 'r layout_node \<Rightarrow> bool" where
  "seam_place mt i anchor side share new old res \<longleftrightarrow> (\<exists>p n.
     subtree_at p old = Some n \<and> (case anchor of AnchorOuter \<Rightarrow> p = [] | AnchorSlot s \<Rightarrow> \<exists>c. n = Slot s c) \<and>
     res = put_at p (beside mt i side share new n) old)"

lemma node_mut_path:
  "slot_node_mut s f t = Some t' \<Longrightarrow> \<exists>p c. subtree_at p t = Some (Slot s c) \<and> t' = put_at p (f (Slot s c)) t"
proof (induction t arbitrary: t')
  case (Slot i c)
  then show ?case by (auto intro: exI[of _ "[]"] split: if_splits)
next
  case (Split i d r a b)
  show ?case
  proof (cases "slot_node_mut s f a")
    case None
    then obtain b' where b: "slot_node_mut s f b = Some b'" "t' = Split i d r a b'" using Split.prems by auto
    from Split.IH(2)[OF b(1)] obtain p c where "subtree_at p b = Some (Slot s c)" "b' = put_at p (f (Slot s c)) b" by blast
    then show ?thesis by (intro exI[of _ "True # p"] exI[of _ c]) (simp add: b)
  next
    case (Some a')
    from Split.IH(1)[OF Some] obtain p c where "subtree_at p a = Some (Slot s c)" "a' = put_at p (f (Slot s c)) a" by blast
    then show ?thesis using Split.prems Some by (intro exI[of _ "False # p"] exI[of _ c]) auto
  qed
qed

lemma docked_place:
  assumes "docked_tree mt i old anchor side new share = Inr t'"
  shows "seam_place mt i anchor side share new old t'"
proof -
  have w: "dock_wrap mt i side new share = beside mt i side share new"
    by (rule ext, cases side) (simp_all add: dock_wrap_def)
  show ?thesis
  proof (cases anchor)
    case (AnchorSlot s)
    then have "slot_node_mut s (beside mt i side share new) old = Some t'"
      using assms by (auto simp: docked_tree_def Let_def w split: option.splits if_splits)
    then show ?thesis using node_mut_path AnchorSlot by (fastforce simp: seam_place_def)
  next
    case AnchorOuter
    then have "t' = beside mt i side share new old" using assms by (auto simp: docked_tree_def Let_def w split: if_splits)
    then show ?thesis using AnchorOuter by (auto simp: seam_place_def intro: exI[of _ "[]"])
  qed
qed

text \<open>A tab bar with \<open>v\<close> moved: right of the tab asked for, or at the index asked for, or at the end.\<close>

definition tab_place :: "nat option \<Rightarrow> view_id option \<Rightarrow> view_id \<Rightarrow> view_id list \<Rightarrow> view_id list \<Rightarrow> bool" where
  "tab_place index after v old new \<longleftrightarrow> (\<exists>us ws. new = us @ v # ws \<and> us @ ws = filter (\<lambda>t. t \<noteq> v) old \<and>
     (case after of
        Some a \<Rightarrow> us \<noteq> [] \<and> last us = a
      | None \<Rightarrow> length us = (case index of None \<Rightarrow> length (us @ ws) | Some i \<Rightarrow> min i (length (us @ ws)))))"

lemma list_position_nth: "x \<in> set xs \<Longrightarrow> \<exists>n. list_position x xs = Some n \<and> n < length xs \<and> xs ! n = x"
  by (induction xs) (auto 0 3)

lemma bar_place:
  assumes plan: "dock_plan_for mt i v (TabBar W index after) T vm = Inr (PlanTabBar T tabs)" and w: "find_window vm T = Some w"
    and after: "\<And>a. after = Some a \<Longrightarrow> a \<noteq> v \<and> a \<in> set (wt_tabs w)"
  shows "tab_place index after v (wt_tabs w) tabs"
proof -
  let ?rest = "filter (\<lambda>t. t \<noteq> v) (wt_tabs w)"
  have split: "tab_place index after v (wt_tabs w) (insert_nth n v ?rest)"
    if "n \<le> length ?rest" and "case after of Some a \<Rightarrow> take n ?rest \<noteq> [] \<and> last (take n ?rest) = a
        | None \<Rightarrow> n = (case index of None \<Rightarrow> length ?rest | Some i \<Rightarrow> min i (length ?rest))" for n
    unfolding tab_place_def insert_nth_def
  proof (intro exI conjI)
    show "take n ?rest @ v # drop n ?rest = take n ?rest @ v # drop n ?rest" ..
    show "take n ?rest @ drop n ?rest = ?rest" by (rule append_take_drop_id)
    show "case after of Some a \<Rightarrow> take n ?rest \<noteq> [] \<and> last (take n ?rest) = a
        | None \<Rightarrow> length (take n ?rest) = (case index of None \<Rightarrow> length (take n ?rest @ drop n ?rest) | Some i \<Rightarrow> min i (length (take n ?rest @ drop n ?rest)))"
      using that unfolding append_take_drop_id length_take by (cases after) (simp_all only: option.case min_absorb2 simp_thms)
  qed
  show ?thesis
  proof (cases after)
    case None
    have "tabs = insert_nth (case index of None \<Rightarrow> length ?rest | Some i \<Rightarrow> min i (length ?rest)) v ?rest"
      using plan w None by (cases index) (simp_all add: Let_def)
    moreover have "tab_place index after v (wt_tabs w) (insert_nth (case index of None \<Rightarrow> length ?rest | Some i \<Rightarrow> min i (length ?rest)) v ?rest)"
      by (rule split) (simp_all add: None split: option.split)
    ultimately show ?thesis by (simp only:)
  next
    case (Some a)
    have "a \<in> set ?rest" using after[OF Some] by simp
    from list_position_nth[OF this] obtain n where n: "list_position a ?rest = Some n" "n < length ?rest" "?rest ! n = a" by (elim exE conjE)
    have "tabs = insert_nth (Suc n) v ?rest" using plan w Some n(1) by (simp add: Let_def)
    moreover have "last (take (Suc n) ?rest) = a" "take (Suc n) ?rest \<noteq> []" using n(2,3) by (auto simp: take_Suc_conv_app_nth)
    ultimately have "tab_place index after v (wt_tabs w) (insert_nth (Suc n) v ?rest)" using n(2) Some by (intro split) (simp_all only: option.case Suc_leI simp_thms)
    with \<open>tabs = _\<close> show ?thesis by (simp only:)
  qed
qed

section \<open>Effects of docking\<close>

lemma map_window_find: "find_window (map_window L f vm) K = (if K = L then map_option f (find_window vm L) else find_window vm K)"
  by (simp add: map_window_def alist_maps split: option.split)

lemma plain_dock_effect:
  assumes own: "vm_own vm" and L: "owner_map vm v = Some L" and nv: "find_view vm nv = None"
    and vm': "vm' = snd (apply_tab_bar nv ns v focus mv L T tabs vm) \<or> vm' = snd (apply_new_window nv ns nwin v mv L T vm)"
  shows "u \<noteq> nv \<Longrightarrow> find_view vm' u = find_view vm u" "vm_unknown vm' = vm_unknown vm" "owner_map vm' v = Some T"
    "u \<noteq> nv \<Longrightarrow> u \<noteq> v \<Longrightarrow> owner_map vm' u = owner_map vm u" "K \<noteq> L \<Longrightarrow> K \<noteq> T \<Longrightarrow> find_window vm' K = find_window vm K"
proof -
  note P = pull_docked_own[OF own L nv, where ns = ns and s = "successor_in mv L"]
  have "(K \<noteq> L \<longrightarrow> K \<noteq> T \<longrightarrow> find_window vm' K = find_window vm K) \<and> (u \<noteq> nv \<longrightarrow> find_view vm' u = find_view vm u) \<and> vm_unknown vm' = vm_unknown vm \<and> owner_map vm' v = Some T \<and>
      (u \<noteq> nv \<longrightarrow> u \<noteq> v \<longrightarrow> owner_map vm' u = owner_map vm u)"
    using vm' P(2)[of K] P(4)[of u] P(5) P(6)[of u]
    by (auto simp: map_window_find apply_tab_bar_def apply_new_window_def case_prod_beta Let_def set_owner_def insert_new_popout_def insert_window_entry_def alist_maps)
  then show "u \<noteq> nv \<Longrightarrow> find_view vm' u = find_view vm u" "vm_unknown vm' = vm_unknown vm" "owner_map vm' v = Some T"
    "u \<noteq> nv \<Longrightarrow> u \<noteq> v \<Longrightarrow> owner_map vm' u = owner_map vm u" "K \<noteq> L \<Longrightarrow> K \<noteq> T \<Longrightarrow> find_window vm' K = find_window vm K" by blast+
qed

lemma seam_effect:
  assumes own: "vm_own vm" and L: "owner_map vm v = Some L" and nv: "find_view vm nv = None" and x: "find_view vm t = Some x" and tv: "t \<noteq> v"
    and vm': "vm' = snd (apply_seam nv ns v focus mv L t T layout vm)"
  shows "u \<noteq> nv \<Longrightarrow> u \<noteq> v \<Longrightarrow> u \<noteq> t \<Longrightarrow> find_view vm' u = find_view vm u" "\<exists>y. find_view vm' t = Some y \<and> vw_layout y = layout \<and> vw_name y = vw_name x \<and>
       vw_focused y = (if focus = Reveal then Some (first_slot_id (vw_layout (the (find_view vm v)))) else vw_focused x)"
    "find_view vm' v = None" "owner_map vm' v = None" "K \<noteq> L \<Longrightarrow> K \<noteq> T \<Longrightarrow> find_window vm' K = find_window vm K"
    "focus = Reveal \<Longrightarrow> find_window vm' T = Some w' \<Longrightarrow> wt_active w' = t"
    "unknown_map vm' = (unknown_map (move_unknown v t vm))(v := None)" "u \<noteq> nv \<Longrightarrow> u \<noteq> v \<Longrightarrow> owner_map vm' u = owner_map vm u"
proof -
  have own1: "vm_own (move_unknown v t vm)" by (rule vm_own_frame[OF own]) simp_all
  note P = pull_docked_own[OF own1, where ns = ns and s = "successor_in mv L", simplified, OF L nv]
  have tn: "t \<noteq> nv" using x nv by auto
  show "u \<noteq> nv \<Longrightarrow> u \<noteq> v \<Longrightarrow> u \<noteq> t \<Longrightarrow> find_view vm' u = find_view vm u" "find_view vm' v = None" "\<exists>y. find_view vm' t = Some y \<and> vw_layout y = layout \<and> vw_name y = vw_name x \<and>
       vw_focused y = (if focus = Reveal then Some (first_slot_id (vw_layout (the (find_view vm v)))) else vw_focused x)"
    "owner_map vm' v = None" "K \<noteq> L \<Longrightarrow> K \<noteq> T \<Longrightarrow> find_window vm' K = find_window vm K"
    "focus = Reveal \<Longrightarrow> find_window vm' T = Some w' \<Longrightarrow> wt_active w' = t"
    "unknown_map vm' = (unknown_map (move_unknown v t vm))(v := None)" "u \<noteq> nv \<Longrightarrow> u \<noteq> v \<Longrightarrow> owner_map vm' u = owner_map vm u"
    using P(2)[of K] P(4)[of u] P(4)[OF tn] P(5) P(6)[of u] tn tv x
    by (auto simp: map_window_find vm' apply_seam_def Let_def case_prod_beta remove_view_def put_view_def activate_def alist_maps)
qed

lemma moved_content:
  assumes ok: "vm_views_ok vm" and tv: "t \<noteq> v" and y: "find_view vm v = Some y" "s \<in> slots_of y"
    and vm': "unknown_map vm' = (unknown_map (move_unknown v t vm))(v := None)"
  shows "unknown_content t s vm' = unknown_content v s vm"
proof -
  have none: "map_of l s = None" if l: "unknown_map vm t = Some l" for l
  proof (rule ccontr)
    assume "map_of l s \<noteq> None"
    then have "s \<in> fst ` set l" by (simp add: map_of_eq_None_iff)
    moreover obtain x where x: "find_view vm t = Some x" "raw_ok x l" using views_okD(3)[OF ok[unfolded vm_views_ok_def] l] by blast
    ultimately have "find_slot (vw_layout x) s = Some Empty" unfolding raw_ok_def by blast
    then have "s \<in> slots_of x" using find_slot_None[of "vw_layout x" s] by (metis option.distinct(1))
    then show False using views_okD(2)[OF ok[unfolded vm_views_ok_def] x(1) y(1)] tv y(2) by (auto simp: apart_def)
  qed
  show ?thesis
  proof (cases "unknown_map vm v")
    case None
    then show ?thesis using none tv by (simp add: unknown_content_def vm' move_unknown_map split: option.split)
  next
    case (Some l)
    have d: "distinct (map fst l)" using views_okD(3)[OF ok[unfolded vm_views_ok_def] Some] by (auto simp: raw_ok_def)
    have "map_of (map_extend l (case unknown_map vm t of None \<Rightarrow> [] | Some k \<Rightarrow> k)) s = map_of l s"
      using none by (cases "unknown_map vm t") (auto simp: map_extend_map[OF d] map_add_def split: option.split)
    then show ?thesis using Some tv by (simp add: unknown_content_def vm' move_unknown_map)
  qed
qed



lemma other_content:
  assumes ok: "vm_views_ok vm" and tv: "t \<noteq> v" and y: "find_view vm v = Some y" and k: "u \<noteq> v" "u \<noteq> t \<or> s \<notin> slots_of y"
    and vm': "unknown_map vm' = (unknown_map (move_unknown v t vm))(v := None)"
  shows "unknown_content u s vm' = unknown_content u s vm"
proof (cases "unknown_map vm v")
  case None
  then show ?thesis using k(1) by (simp add: unknown_content_def vm' move_unknown_map)
next
  case (Some l)
  have l: "raw_ok y l" using views_okD(3)[OF ok[unfolded vm_views_ok_def] Some] y by auto
  show ?thesis
  proof (cases "u = t")
    case True
    then have "s \<notin> slots_of y" using k(2) by simp
    moreover have "fst ` set l \<subseteq> slots_of y"
      using l find_slot_None[of "vw_layout y"] unfolding raw_ok_def by (metis option.distinct(1) subsetI)
    ultimately have none: "map_of l s = None" by (metis map_of_eq_None_iff subsetD)
    have d: "distinct (map fst l)" using l by (simp add: raw_ok_def)
    have "map_of (map_extend l m) s = map_of m s" for m using none by (simp add: map_extend_map[OF d] map_add_def)
    then show ?thesis using Some True tv by (simp add: unknown_content_def vm' move_unknown_map split: option.split)
  next
    case False
    then show ?thesis using Some k(1) by (simp add: unknown_content_def vm' move_unknown_map)
  qed
qed

section \<open>What docking promises\<close>

text \<open>The view that holds the tab after it was docked.\<close>

definition dock_holder :: "'f dock_to \<Rightarrow> view_id \<Rightarrow> view_id" where
  "dock_holder dest v = (case dest of Seam t anchor side share \<Rightarrow> t | _ \<Rightarrow> v)"

text \<open>The tab \<open>v\<close> is where \<open>dest\<close> asks for, in the window \<open>W\<close>.\<close>

fun dock_placed :: "('f, 'f) metric \<Rightarrow> uuid \<Rightarrow> view_id \<Rightarrow> 'f dock_to \<Rightarrow> focus_policy \<Rightarrow> window_label
    \<Rightarrow> ('f, 'j) view_manager \<Rightarrow> ('f, 'j) view_manager \<Rightarrow> bool" where
  "dock_placed mt nsplit v (Seam t anchor side share) focus W vm vm' \<longleftrightarrow>
     owner_of t vm = Some W \<and> find_view vm' v = None \<and> owner_of v vm' = None \<and>
     (\<exists>x z y. find_view vm v = Some x \<and> find_view vm t = Some z \<and> find_view vm' t = Some y \<and>
        seam_place mt nsplit anchor side share (vw_layout x) (vw_layout z) (vw_layout y) \<and> vw_name y = vw_name z \<and>
        vw_focused y = (if focus = Reveal then Some (first_slot_id (vw_layout x)) else vw_focused z)) \<and>
     (\<exists>w. find_window vm' W = Some w \<and> (focus = Reveal \<longrightarrow> wt_active w = t))"
| "dock_placed mt nsplit v (TabBar window index after) focus W vm vm' \<longleftrightarrow>
     W = window \<and> find_view vm' v = find_view vm v \<and>
     (\<exists>w tabs. find_window vm window = Some w \<and> tab_place index after v (wt_tabs w) tabs \<and>
        find_window vm' window = Some (w\<lparr>wt_tabs := tabs, wt_active := if focus = Reveal then v else wt_active w\<rparr>))"
| "dock_placed mt nsplit v (NewWindow label) focus W vm vm' \<longleftrightarrow>
     W = label \<and> find_view vm' v = find_view vm v \<and> find_window vm label = None \<and>
     (\<exists>w. find_window vm' label = Some w \<and> wt_tabs w = [v] \<and> wt_active w = v)"

text \<open>Nothing of the tab \<open>v\<close>, now held by \<open>h\<close>, is lost, and nothing else has changed but the view \<open>nv\<close> the main window may be
  refilled with.\<close>

definition dock_keeps :: "view_id \<Rightarrow> view_id \<Rightarrow> view_id \<Rightarrow> ('f, 'j) view_manager \<Rightarrow> ('f, 'j) view_manager \<Rightarrow> bool" where
  "dock_keeps v h nv vm vm' \<longleftrightarrow> (\<exists>x y. find_view vm v = Some x \<and> find_view vm' h = Some y \<and>
     (\<forall>s \<in> set (slot_ids (vw_layout x)). find_slot (vw_layout y) s = find_slot (vw_layout x) s \<and>
        unknown_content h s vm' = unknown_content v s vm) \<and>
     (\<forall>z. find_view vm h = Some z \<longrightarrow> (\<forall>s \<in> set (slot_ids (vw_layout z)). find_slot (vw_layout y) s = find_slot (vw_layout z) s)) \<and>
     (\<forall>u s. u \<noteq> v \<longrightarrow> u \<noteq> h \<or> s \<notin> set (slot_ids (vw_layout x)) \<longrightarrow> unknown_content u s vm' = unknown_content u s vm) \<and>
     (\<forall>u. u \<notin> {v, h, nv} \<longrightarrow> find_view vm' u = find_view vm u \<and> owner_of u vm' = owner_of u vm))"

lemma seam_keeps:
  assumes ok: "vm_views_ok vm" and own: "vm_own vm" and new: "find_view vm nv = None" "new_ids ns np (find_view vm)" and L: "owner_map vm v = Some L"
    and x: "find_view vm v = Some x" and z: "find_view vm t = Some z" "t \<noteq> v"
    and d: "docked_tree mt np (vw_layout z) anchor side (vw_layout x) share = Inr layout"
    and vm': "vm' = snd (apply_seam nv ns v focus mv L t T layout vm)"
  shows "dock_keeps v t nv vm vm'"
proof -
  note E = seam_effect[OF own L new(1) z vm']
  obtain y where y: "find_view vm' t = Some y" "vw_layout y = layout" using E(2) by blast
  have disj: "slots_of x \<inter> slots_of z = {}" using docked_laws(1)[OF d shape_parts(4)[OF ok z(1)]] .
  have f: "find_slot layout k = (case find_slot (vw_layout z) k of Some c \<Rightarrow> Some c | None \<Rightarrow> find_slot (vw_layout x) k)" for k
    by (rule docked_view(4)[OF ok new(2) z(1) x z(2) d])
  have "find_slot layout s = find_slot (vw_layout x) s" if "s \<in> slots_of x" for s
  proof -
    have "find_slot (vw_layout z) s = None" using that disj by (auto simp: find_slot_None)
    then show ?thesis by (simp add: f)
  qed
  moreover have "find_slot layout s = find_slot (vw_layout z) s" if "s \<in> slots_of z" for s
    using that find_slot_None[of "vw_layout z" s] by (auto simp: f)
  moreover have un: "unknown_map vm' = (unknown_map (move_unknown v t vm))(v := None)" by (rule E)
  ultimately show ?thesis
    unfolding dock_keeps_def using x y z(1) moved_content[OF ok z(2) x _ un] other_content[OF ok z(2) x _ _ un] E(1) E(8)
    by (intro exI[of _ x] exI[of _ y]) (auto simp: owner_of_def)
qed

lemma seam_placed:
  assumes own: "vm_own vm" "vm_own vm'" and new: "find_view vm nv = None" and L: "owner_map vm v = Some L" and T: "owner_map vm t = Some T"
    and x: "find_view vm v = Some x" and z: "find_view vm t = Some z" "t \<noteq> v"
    and d: "docked_tree mt np (vw_layout z) anchor side (vw_layout x) share = Inr layout"
    and vm': "vm' = snd (apply_seam nv ns v focus mv L t T layout vm)"
  shows "dock_placed mt np v (Seam t anchor side share) focus T vm vm' \<and> owner_map vm' t = Some T \<and>
    (\<forall>K. K \<noteq> L \<longrightarrow> K \<noteq> T \<longrightarrow> find_window vm' K = find_window vm K)"
proof -
  note E = seam_effect[OF own(1) L new z vm']
  have "t \<noteq> nv" using z new by auto
  then have T': "owner_map vm' t = Some T" using E(8)[of t] T z(2) by simp
  then obtain w where "find_window vm' T = Some w" using vm_ownD(1)[OF own(2)] by blast
  then show ?thesis using T T' E(2,3,4,5,6) docked_place[OF d] x z(1) by (auto simp: owner_of_def)
qed

lemma plain_keeps:
  assumes own: "vm_own vm" and L: "owner_map vm v = Some L" and nv: "find_view vm nv = None" and x: "find_view vm v = Some x"
    and vm': "vm' = snd (apply_tab_bar nv ns v focus mv L T tabs vm) \<or> vm' = snd (apply_new_window nv ns nwin v mv L T vm)"
  shows "dock_keeps v v nv vm vm'"
proof -
  note E = plain_dock_effect[OF own L nv vm']
  have "v \<noteq> nv" using x nv by auto
  then show ?thesis using x E(1)[of v] E(1,2,4) by (auto simp: dock_keeps_def owner_of_def unknown_content_def)
qed

lemma bar_placed:
  assumes own: "vm_own vm" and L: "owner_map vm v = Some L" and nv: "find_view vm nv = None" and x: "find_view vm v = Some x"
    and w: "find_window vm T = Some w" and place: "tab_place index after v (wt_tabs w) tabs"
    and vm': "vm' = snd (apply_tab_bar nv ns v focus mv L T tabs vm)"
  shows "dock_placed mt np v (TabBar T index after) focus T vm vm'"
proof -
  have "v \<noteq> nv" using x nv by auto
  then have "find_view vm' v = find_view vm v" using plain_dock_effect(1)[OF own L nv disjI1[OF vm']] by simp
  moreover have "find_window vm' T = Some (w\<lparr>wt_tabs := tabs, wt_active := if focus = Reveal then v else wt_active w\<rparr>)"
    using w pull_docked_own(2)[OF own L nv, of T ns "successor_in mv L"]
    by (auto simp: vm' apply_tab_bar_def case_prod_beta Let_def map_window_find set_owner_def)
  ultimately show ?thesis using w place by auto
qed

lemma new_window_placed:
  assumes own: "vm_own vm" and L: "owner_map vm v = Some L" and nv: "find_view vm nv = None" and x: "find_view vm v = Some x"
    and none: "find_window vm T = None" and vm': "vm' = snd (apply_new_window nv ns nwin v mv L T vm)"
  shows "dock_placed mt np v (NewWindow T) focus T vm vm'"
proof -
  have "v \<noteq> nv" using x nv by auto
  then have "find_view vm' v = find_view vm v" using plain_dock_effect(1)[OF own L nv disjI2[OF vm']] by simp
  moreover have "\<exists>w. find_window vm' T = Some w \<and> wt_tabs w = [v] \<and> wt_active w = v"
    by (simp add: vm' apply_new_window_def case_prod_beta Let_def insert_new_popout_def insert_window_entry_def alist_maps
        window_new_popout_def window_new_def)
  ultimately show ?thesis using none by auto
qed

lemma docking_bump [simp]:
  "dock_keeps v h nv vm (bump_version vm') = dock_keeps v h nv vm vm'"
  "dock_placed mt np v dest focus W vm (bump_version vm') = dock_placed mt np v dest focus W vm vm'"
  "vm_owner (bump_version vm') = vm_owner vm'" "owner_of u (bump_version vm') = owner_of u vm'" "find_window (bump_version vm') = find_window vm'"
  by (cases dest; simp add: dock_keeps_def bump_version_def owner_of_def unknown_content_def)+

lemma docked_bar:
  assumes own: "vm_own vm" and L: "owner_map vm v = Some L" and nv: "find_view vm nv = None" and x: "find_view vm v = Some x"
    and T: "dock_target v (TabBar win index after) vm = Inr T"
    and plan: "dock_plan_for mt np v (TabBar win index after) T vm = Inr (PlanTabBar T tabs)"
    and vm': "vm' = vm \<and> tabs = wt_tabs (the (find_window vm T)) \<and> (focus \<noteq> Reveal \<or> wt_active (the (find_window vm T)) = v) \<or>
      vm' = bump_version (snd (apply_tab_bar nv ns v focus mv L T tabs vm))"
  shows "dock_placed mt np v (TabBar win index after) focus T vm vm' \<and> owner_of v vm' = Some T \<and> dock_keeps v v nv vm vm' \<and>
    (\<forall>K. K \<noteq> L \<longrightarrow> K \<noteq> T \<longrightarrow> find_window vm' K = find_window vm K)"
proof -
  have win: "T = win" using T by (auto split: if_splits option.splits)
  obtain w where w: "find_window vm T = Some w" using T by (auto split: if_splits option.splits)
  have after: "a \<noteq> v \<and> a \<in> set (wt_tabs w)" if "after = Some a" for a using T w that by (auto split: if_splits)
  have place: "tab_place index after v (wt_tabs w) tabs" by (rule bar_place[OF plan w after])
  show ?thesis
    using vm'
  proof
    assume s: "vm' = vm \<and> tabs = wt_tabs (the (find_window vm T)) \<and> (focus \<noteq> Reveal \<or> wt_active (the (find_window vm T)) = v)"
    then have tabs: "tabs = wt_tabs w" and act: "focus = Reveal \<Longrightarrow> wt_active w = v" using w by auto
    then have "v \<in> set (wt_tabs w)" using place unfolding tab_place_def by auto
    then have o: "owner_map vm v = Some T" using vm_ownD(1)[OF own] w by blast
    have "w = w\<lparr>wt_tabs := tabs, wt_active := if focus = Reveal then v else wt_active w\<rparr>" using tabs act by simp
    then have "dock_placed mt np v (TabBar win index after) focus T vm vm" using w win place by auto
    moreover have "dock_keeps v v nv vm vm" using x by (auto simp: dock_keeps_def)
    ultimately show ?thesis using s o by (simp add: owner_of_def)
  next
    assume v2: "vm' = bump_version (snd (apply_tab_bar nv ns v focus mv L T tabs vm))"
    note E = plain_dock_effect[OF own L nv disjI1[OF refl], where ns = ns and focus = focus and mv = mv and T = T and tabs = tabs]
    show ?thesis unfolding v2 docking_bump
      using bar_placed[OF own L nv x w place refl] plain_keeps[OF own L nv x disjI1[OF refl]] E(3) E(5) win by (simp add: owner_of_def)
  qed
qed

section \<open>An example\<close>

text \<open>The tab of the window beside the main one is docked at the right of the main tab.\<close>

definition demo_dock :: "(rat dock_error + docked) \<times> (rat, nat) view_manager" where
  "demo_dock = dock rat_metric (demo_ids 20) 10 (Seam 1 AnchorOuter DockRight (1 / 2)) Reveal \<lparr>dm_successor = None, dm_successor_window = None\<rparr> demo_layout"

lemma demo_dock_eq: "fst demo_dock = Inr \<lparr>dk_window = MAIN_WINDOW_LABEL, dk_slot_ids = [11], dk_source_window = demo_popout, dk_emptied = Some demo_popout, dk_main_refilled = None\<rparr>"
proof -
  have t: "docked_tree rat_metric 22 (Slot 2 Empty) AnchorOuter DockRight (Slot 11 Empty) (1 / 2) = Inr (Split 22 LeftRight (1 / 2) (Slot 2 Empty) (Slot 11 Empty))"
    by (simp add: docked_tree_def dock_wrap_def compute_def has_area_def unit_rect_def rat_metric_def Let_def)
  have m: "mt_finite rat_metric (1 / 2)" "mt_share_ok rat_metric (1 / 2)" by (simp_all add: rat_metric_def)
  show ?thesis
    by (simp add: demo_dock_def dock_def check_dock_def tab_window_def demo_eq demo_labels t m apply_seam_def pull_docked_tab_def pull_tab_def move_unknown_def
        succession_def demo_ids_def window_new_main_def window_new_popout_def window_new_def Let_def)
qed

section \<open>The property\<close>

text \<open>C13. Docking moves a tab whole to the place asked for. When it succeeds, the answer names the slots of the tab, the window
  it came from and the one it is in now. Asked to a seam, that is the window of the target; the tab is no view of its own any
  more, and its tree stands in the target's, unchanged, beside the anchor (the whole tree or the slot named), on the side and
  with the share asked for, with nothing else of the target's tree changed. Asked to a tab bar, it is the window named, and the
  tab stands right after the tab named, or else at the index asked for or at the end, the others in their order. Asked to a window
  of its own, it is a new one of that label with this one tab. The tab is active there if that was asked for. Every slot of the
  tab and of the target keeps its content; the contents kept aside for the tab's slots come along, and those of the target's
  slots and of every other view stay; every other view keeps its window, tree and focus, and every window but the two is
  untouched.\<close>
theorem dock_moves_tab:
  assumes reach: "layout_reachable mt io vm" and fresh: "fresh_for ids vm" and x: "find_view vm v = Some x"
    and d: "dock mt ids v dest focus mv vm = (Inr d, vm')"
  shows "dk_slot_ids d = slot_ids (vw_layout x) \<and> owner_of v vm = Some (dk_source_window d) \<and>
    dock_placed mt (fi_split ids) v dest focus (dk_window d) vm vm' \<and>
    owner_of (dock_holder dest v) vm' = Some (dk_window d) \<and>
    dock_keeps v (dock_holder dest v) (fi_view ids) vm vm' \<and>
    (\<forall>K. K \<notin> {dk_source_window d, dk_window d} \<longrightarrow> find_window vm' K = find_window vm K)"
proof -
  have inv: "vm_inv vm" by (rule layout_sys.inv_reachable[OF reach])
  then have own: "vm_own vm" and ok: "vm_views_ok vm" by (auto simp: vm_inv_def)
  have nv: "find_view vm (fi_view ids) = None" and new: "new_ids (fi_slot ids) (fi_split ids) (find_view vm)" using fresh by (auto simp: fresh_for_def)
  obtain L T plan where c: "check_dock mt (fi_split ids) v dest vm = Inr (L, plan)" and L: "owner_map vm v = Some L" and T: "dock_target v dest vm = Inr T"
    and plan: "dock_plan_for mt (fi_split ids) v dest T vm = Inr plan"
    using d by (auto simp: dock_def check_dock_def tab_window_owner[OF own] split: option.splits sum.splits)
  have dd: "dk_slot_ids d = slot_ids (vw_layout x)" "dk_source_window d = L"
    using d x by (auto simp: dock_def c case_prod_beta Let_def split: dock_plan.splits if_splits)
  show ?thesis
  proof (cases dest)
    case (Seam t anchor side share)
    have t: "owner_map vm t = Some T" "t \<noteq> v" using T Seam by (auto simp: tab_window_owner[OF own] split: option.splits if_splits dock_anchor.splits)
    obtain z where z: "find_view vm t = Some z" using vm_ownD(3)[OF own t(1)] by auto
    obtain layout where p: "plan = PlanSeam t T layout" and dt: "docked_tree mt (fi_split ids) (vw_layout z) anchor side (vw_layout x) share = Inr layout"
      using plan Seam x z by (auto split: if_splits sum.splits dock_tree_error.splits)
    let ?vm1 = "snd (apply_seam (fi_view ids) (fi_slot ids) v focus mv L t T layout vm)"
    have vm': "vm' = bump_version ?vm1" and W: "dk_window d = T" using d by (auto simp: dock_def c p case_prod_beta Let_def)
    have "vm_own (snd (dock mt ids v dest focus mv vm))" by (rule dock_own[OF own nv]) (simp add: Seam)
    then have "vm_own vm'" by (simp only: d snd_conv)
    then have "vm_own ?vm1" by (simp add: vm')
    then show ?thesis
      using seam_placed[OF own _ nv L t(1) x z t(2) dt refl, of "fi_slot ids" focus mv] seam_keeps[OF ok own nv new L x z t(2) dt refl] dd L
      by (simp add: vm' W Seam dock_holder_def owner_of_def del: dock_placed.simps)
  next
    case (TabBar win index after)
    then obtain tabs where p: "plan = PlanTabBar T tabs" using plan by (auto simp: Let_def)
    have W: "dk_window d = T" using d by (auto simp: dock_def c p case_prod_beta Let_def split: if_splits)
    have "vm' = vm \<and> tabs = wt_tabs (the (find_window vm T)) \<and> (focus \<noteq> Reveal \<or> wt_active (the (find_window vm T)) = v) \<or>
        vm' = bump_version (snd (apply_tab_bar (fi_view ids) (fi_slot ids) v focus mv L T tabs vm))"
      using d by (auto simp: dock_def c p case_prod_beta Let_def split: if_splits)
    from docked_bar[OF own L nv x T[unfolded TabBar] plan[unfolded TabBar p] this] show ?thesis
      using dd L by (simp add: W TabBar dock_holder_def owner_of_def del: dock_placed.simps)
  next
    case (NewWindow label)
    then have p: "plan = PlanNewWindow T" and l: "T = label" "find_window vm T = None" using plan T by (auto split: if_splits)
    have W: "dk_window d = T" and vm': "vm' = bump_version (snd (apply_new_window (fi_view ids) (fi_slot ids) (fi_win ids) v mv L T vm))"
      using d by (auto simp: dock_def c p case_prod_beta Let_def)
    note E = plain_dock_effect[OF own L nv disjI2[OF refl], where ns = "fi_slot ids" and nwin = "fi_win ids" and mv = mv and T = T]
    show ?thesis
      using new_window_placed[OF own L nv x l(2) refl] plain_keeps[OF own L nv x disjI2[OF refl]] E(3) E(5) dd L l(1)
      by (simp add: vm' W NewWindow dock_holder_def owner_of_def del: dock_placed.simps)
  qed
qed

theorem dock_moves_tab_witness:
  "owner_of 10 demo_layout = Some demo_popout \<and> find_view (snd demo_dock) 10 = None \<and> owner_of 1 (snd demo_dock) = Some MAIN_WINDOW_LABEL \<and>
   seam_place rat_metric 22 AnchorOuter DockRight (1 / 2) (Slot 11 Empty) (Slot 2 Empty) (vw_layout (the (find_view (snd demo_dock) 1)))"
proof -
  have d: "dock rat_metric (demo_ids 20) 10 (Seam 1 AnchorOuter DockRight (1 / 2)) Reveal \<lparr>dm_successor = None, dm_successor_window = None\<rparr> demo_layout =
    (Inr \<lparr>dk_window = MAIN_WINDOW_LABEL, dk_slot_ids = [11], dk_source_window = demo_popout, dk_emptied = Some demo_popout, dk_main_refilled = None\<rparr>, snd demo_dock)"
    using demo_dock_eq unfolding demo_dock_def by (metis prod.collapse)
  have f: "find_view demo_layout 1 = Some \<lparr>vw_id = 1, vw_name = TabAuto, vw_layout = Slot 2 Empty, vw_focused = Some 2\<rparr>" "fi_split (demo_ids 20) = 22"
    by (simp_all add: demo_eq demo_ids_def)
  show ?thesis using dock_moves_tab[OF demo_reach demo_fresh demo_finds(1) d] by (auto simp: dock_holder_def f demo_finds(1))
qed

end
