(* ===== verification/Turn_Facts.thy ===== *)
theory Turn_Facts
  imports Busy_Policy
begin

text \<open>
  The facts the idle gate reads: the table of observed turns, \<^verbatim>\<open>crates/engram-dashboard-agent/src/turn.rs\<close>, the
  table of pending inputs, \<^verbatim>\<open>crates/engram-dashboard-agent/src/inputs_pending.rs\<close>, and the adapter that joins
  them for the messaging service, \<^verbatim>\<open>ManagerTurnFacts\<close> of \<^verbatim>\<open>crates/engram-dashboard-daemon/src/messaging_host.rs\<close>.

  Both tables hold one entry per agent, with the mark of the incarnation (the epoch) as a value; signals carry
  the sequence number of the output line they were read from, because two threads apply them.
\<close>

section \<open>Observed turns\<close>

datatype turn_end_kind = EndClean | EndFailed | EndOther

datatype turn_signal = SigProgress | SigFailed | SigEnded turn_end_kind

record turn_observation =
  ob_in_turn :: bool
  ob_last_signal :: instant
  ob_last_end_failed :: bool

record turn_entry =
  te_epoch :: u32
  te_in_turn :: bool
  te_last_signal :: instant
  te_last_seq :: u64
  te_last_end_seq :: "u64 option"
  te_error_seq :: "u64 option"
  te_last_end_failed :: bool

type_synonym turn_table = "(peer_id \<times> turn_entry) list"

definition turn_entry_fresh :: "u32 \<Rightarrow> instant \<Rightarrow> turn_entry" where
  "turn_entry_fresh epoch seen = \<lparr>te_epoch = epoch, te_in_turn = False, te_last_signal = seen, te_last_seq = 0,
     te_last_end_seq = None, te_error_seq = None, te_last_end_failed = False\<rparr>"

definition turn_register_at :: "peer_id \<Rightarrow> u32 \<Rightarrow> instant \<Rightarrow> turn_table \<Rightarrow> turn_table" where
  "turn_register_at i epoch seen t = AList.update i (turn_entry_fresh epoch seen) t"

text \<open>The cursor of the turn itself moves with every newest signal; that of the stall only with an end.\<close>

definition note_signal :: "bool \<Rightarrow> u64 \<Rightarrow> instant \<Rightarrow> turn_entry \<Rightarrow> turn_entry" where
  "note_signal newest seq seen e =
     (if newest then e\<lparr>te_last_signal := max seen (te_last_signal e), te_last_seq := seq\<rparr> else e)"

definition observe_entry :: "u64 \<Rightarrow> turn_signal \<Rightarrow> instant \<Rightarrow> turn_entry \<Rightarrow> turn_entry" where
  "observe_entry seq signal seen e = (
     let newest = te_last_seq e \<le> seq;
         before_last_end = (case te_last_end_seq e of None \<Rightarrow> False | Some end_seq \<Rightarrow> seq < end_seq)
     in case signal of
          SigProgress \<Rightarrow> if \<not> newest then e else note_signal newest seq seen (e\<lparr>te_in_turn := True\<rparr>)
        | SigFailed \<Rightarrow>
            if before_last_end then e
            else note_signal newest seq seen
              (e\<lparr>te_error_seq := Some (case te_error_seq e of None \<Rightarrow> seq | Some kept \<Rightarrow> min kept seq)\<rparr>)
        | SigEnded kind \<Rightarrow>
            if before_last_end then e
            else let kept = (case te_error_seq e of None \<Rightarrow> False | Some err \<Rightarrow> err < seq);
                     failed = (case kind of
                         EndFailed \<Rightarrow> True
                       | EndClean \<Rightarrow> kept
                       | EndOther \<Rightarrow> kept \<or> te_last_end_failed e);
                     e1 = e\<lparr>te_last_end_failed := failed\<rparr>;
                     e2 = (if kept then e1\<lparr>te_error_seq := None\<rparr> else e1);
                     e3 = e2\<lparr>te_last_end_seq := Some seq\<rparr>;
                     e4 = (if newest then e3\<lparr>te_in_turn := False\<rparr> else e3)
                 in note_signal newest seq seen e4)"

definition observe_at :: "peer_id \<Rightarrow> u32 \<Rightarrow> u64 \<Rightarrow> turn_signal \<Rightarrow> instant \<Rightarrow> turn_table \<Rightarrow> turn_table" where
  "observe_at i epoch seq signal seen t = (case map_of t i of
     Some cur \<Rightarrow> if te_epoch cur \<noteq> epoch then t else AList.update i (observe_entry seq signal seen cur) t
   | None \<Rightarrow> AList.update i (observe_entry seq signal seen (turn_entry_fresh epoch seen)) t)"

definition turn_get :: "peer_id \<Rightarrow> u32 \<Rightarrow> turn_table \<Rightarrow> turn_observation option" where
  "turn_get i epoch t = (case map_of t i of
     None \<Rightarrow> None
   | Some e \<Rightarrow>
       if te_epoch e = epoch
       then Some \<lparr>ob_in_turn = te_in_turn e, ob_last_signal = te_last_signal e, ob_last_end_failed = te_last_end_failed e\<rparr>
       else None)"

definition is_in_turn :: "peer_id \<Rightarrow> u32 \<Rightarrow> turn_table \<Rightarrow> bool" where
  "is_in_turn i epoch t = (case turn_get i epoch t of None \<Rightarrow> False | Some ob \<Rightarrow> ob_in_turn ob)"

definition turns_in_progress :: "turn_table \<Rightarrow> (incarnation \<times> instant) list" where
  "turns_in_progress t = map (\<lambda>(i, e). ((i, te_epoch e), te_last_signal e)) (filter (\<lambda>(_, e). te_in_turn e) t)"

definition turn_forget :: "peer_id \<Rightarrow> u32 \<Rightarrow> turn_table \<Rightarrow> turn_table" where
  "turn_forget i epoch t = (case map_of t i of
     None \<Rightarrow> t
   | Some e \<Rightarrow> if te_epoch e = epoch then AList.delete i t else t)"

section \<open>Pending inputs\<close>

record pending_entry =
  pe_epoch :: u32
  pe_pending :: bool
  pe_last_seq :: u64

type_synonym pending_inputs = "(peer_id \<times> pending_entry) list"

definition inputs_register :: "peer_id \<Rightarrow> u32 \<Rightarrow> pending_inputs \<Rightarrow> pending_inputs" where
  "inputs_register i epoch t = AList.update i \<lparr>pe_epoch = epoch, pe_pending = False, pe_last_seq = 0\<rparr> t"

definition inputs_set :: "peer_id \<Rightarrow> u32 \<Rightarrow> u64 \<Rightarrow> bool \<Rightarrow> pending_inputs \<Rightarrow> pending_inputs" where
  "inputs_set i epoch seq pending t = (case map_of t i of
     None \<Rightarrow> t
   | Some e \<Rightarrow>
       if pe_epoch e \<noteq> epoch \<or> seq < pe_last_seq e then t
       else AList.update i (e\<lparr>pe_pending := pending, pe_last_seq := seq\<rparr>) t)"

definition inputs_get :: "peer_id \<Rightarrow> u32 \<Rightarrow> pending_inputs \<Rightarrow> bool option" where
  "inputs_get i epoch t = (case map_of t i of
     None \<Rightarrow> None
   | Some e \<Rightarrow> if pe_epoch e = epoch then Some (pe_pending e) else None)"

definition inputs_forget :: "peer_id \<Rightarrow> u32 \<Rightarrow> pending_inputs \<Rightarrow> pending_inputs" where
  "inputs_forget i epoch t = (case map_of t i of
     None \<Rightarrow> t
   | Some e \<Rightarrow> if pe_epoch e = epoch then AList.delete i t else t)"

section \<open>The adapter of the daemon\<close>

text \<open>\<open>now\<close> is the clock at the query; the gate reads it only of an agent in a turn.\<close>

definition manager_turn_fact :: "instant \<Rightarrow> pending_inputs \<Rightarrow> turn_table \<Rightarrow> turn_facts" where
  "manager_turn_fact now pt tt key = (
     let pending = inputs_get (fst key) (snd key) pt
     in case turn_get (fst key) (snd key) tt of
          Some ob \<Rightarrow> Some \<lparr>tf_in_turn = ob_in_turn ob, tf_last_signal = ob_last_signal ob,
                         tf_inputs_pending = (case pending of None \<Rightarrow> False | Some b \<Rightarrow> b),
                         tf_last_end_failed = ob_last_end_failed ob\<rparr>
        | None \<Rightarrow>
            if pending = Some True
            then Some \<lparr>tf_in_turn = False, tf_last_signal = now, tf_inputs_pending = True, tf_last_end_failed = False\<rparr>
            else None)"

section \<open>Signals applied out of order\<close>

definition observe_all :: "(u64 \<times> turn_signal \<times> instant) list \<Rightarrow> turn_entry \<Rightarrow> turn_entry" where
  "observe_all sigs e = fold (\<lambda>(seq, signal, seen). observe_entry seq signal seen) sigs e"

text \<open>The stall as the output lines tell it, read in the order they were emitted: an error waits for the end of
  its turn; a clean end clears the stall unless an error came before it.\<close>

fun stall_of :: "turn_signal list \<Rightarrow> bool \<times> bool \<Rightarrow> bool \<times> bool" where
  "stall_of [] acc = acc"
| "stall_of (SigProgress # sigs) acc = stall_of sigs acc"
| "stall_of (SigFailed # sigs) (_, stalled) = stall_of sigs (True, stalled)"
| "stall_of (SigEnded kind # sigs) (failed, stalled) =
     stall_of sigs (False, failed \<or> kind = EndFailed \<or> kind = EndOther \<and> stalled)"


text \<open>Whether the agent is in a turn, and when it was last heard, read from the signals that were the newest of all when they
  were applied: a failure among them says nothing of the turn, but it does move the cursor.\<close>

definition is_failure :: "u64 \<times> turn_signal \<times> instant \<Rightarrow> bool" where
  "is_failure x \<longleftrightarrow> fst (snd x) = SigFailed"

fun current_signals :: "u64 \<Rightarrow> (u64 \<times> turn_signal \<times> instant) list \<Rightarrow> (u64 \<times> turn_signal \<times> instant) list" where
  "current_signals cursor [] = []"
| "current_signals cursor (x # sigs) =
     (if cursor \<le> fst x then x # current_signals (fst x) sigs else current_signals cursor sigs)"

definition turn_open :: "(u64 \<times> turn_signal \<times> instant) list \<Rightarrow> bool" where
  "turn_open sigs = (let said = filter (\<lambda>x. \<not> is_failure x) sigs in said \<noteq> [] \<and> fst (snd (last said)) = SigProgress)"

definition last_heard :: "(u64 \<times> turn_signal \<times> instant) list \<Rightarrow> instant \<Rightarrow> instant" where
  "last_heard sigs at0 = fold max (map (\<lambda>x. snd (snd x)) sigs) at0"

text \<open>A failure applied before a progress or an end that was emitted before it.\<close>

fun failure_overtakes :: "(u64 \<times> turn_signal \<times> instant) list \<Rightarrow> bool" where
  "failure_overtakes [] = False"
| "failure_overtakes (x # sigs) \<longleftrightarrow>
     is_failure x \<and> (\<exists>y \<in> set sigs. \<not> is_failure y \<and> fst y < fst x) \<or> failure_overtakes sigs"

datatype turn_op = TurnRegister peer_id u32 instant | TurnObserve peer_id u32 u64 turn_signal instant | TurnForget peer_id u32

fun turn_do :: "turn_op \<Rightarrow> turn_table \<Rightarrow> turn_table" where
  "turn_do (TurnRegister i epoch seen) t = turn_register_at i epoch seen t"
| "turn_do (TurnObserve i epoch seq signal seen) t = observe_at i epoch seq signal seen t"
| "turn_do (TurnForget i epoch) t = turn_forget i epoch t"

text \<open>The signals of one incarnation, and the operations that leave its place to it.\<close>

fun own_signal :: "peer_id \<Rightarrow> u32 \<Rightarrow> turn_op \<Rightarrow> (u64 \<times> turn_signal \<times> instant) option" where
  "own_signal i epoch (TurnObserve j ep seq signal seen) = (if j = i \<and> ep = epoch then Some (seq, signal, seen) else None)"
| "own_signal i epoch op = None"

fun leaves_place :: "peer_id \<Rightarrow> u32 \<Rightarrow> turn_op \<Rightarrow> bool" where
  "leaves_place i epoch (TurnRegister j ep seen) \<longleftrightarrow> j \<noteq> i"
| "leaves_place i epoch (TurnForget j ep) \<longleftrightarrow> (j, ep) \<noteq> (i, epoch)"
| "leaves_place i epoch (TurnObserve j ep seq signal seen) \<longleftrightarrow> True"

definition own_signals :: "peer_id \<Rightarrow> u32 \<Rightarrow> turn_op list \<Rightarrow> (u64 \<times> turn_signal \<times> instant) list" where
  "own_signals i epoch ops = List.map_filter (own_signal i epoch) ops"

definition is_progress :: "u64 \<times> turn_signal \<times> instant \<Rightarrow> bool" where
  "is_progress x \<longleftrightarrow> fst (snd x) = SigProgress"

lemma observe_all_snoc: "observe_all (sigs @ [x]) e = (case x of (seq, signal, seen) \<Rightarrow> observe_entry seq signal seen (observe_all sigs e))"
  by (simp add: observe_all_def split: prod.splits)

lemma observe_all_Nil [simp]: "observe_all [] e = e"
  by (simp add: observe_all_def)

lemma note_signal_simps [simp]:
  "te_epoch (note_signal newest seq seen e) = te_epoch e"
  "te_in_turn (note_signal newest seq seen e) = te_in_turn e"
  "te_last_end_seq (note_signal newest seq seen e) = te_last_end_seq e"
  "te_error_seq (note_signal newest seq seen e) = te_error_seq e"
  "te_last_end_failed (note_signal newest seq seen e) = te_last_end_failed e"
  "te_last_seq (note_signal newest seq seen e) = (if newest then seq else te_last_seq e)"
  by (simp_all add: note_signal_def)

lemma observe_entry_epoch [simp]: "te_epoch (observe_entry seq signal seen e) = te_epoch e"
  by (cases signal) (simp_all add: observe_entry_def Let_def)

text \<open>An end is never newer than the newest signal, so the cursor of the turn is the newest signal of all.\<close>

definition cursors_ok :: "turn_entry \<Rightarrow> bool" where
  "cursors_ok e \<longleftrightarrow> (\<forall>s. te_last_end_seq e = Some s \<longrightarrow> s \<le> te_last_seq e)"

lemma observe_entry_cursor:
  assumes "cursors_ok e"
  shows "te_last_seq (observe_entry seq signal seen e) = max seq (te_last_seq e)" "cursors_ok (observe_entry seq signal seen e)"
  using assms by (cases signal; force simp: observe_entry_def cursors_ok_def Let_def max_def split: option.splits)+

lemma observe_entry_turn:
  assumes "cursors_ok e"
  shows "te_in_turn (observe_entry seq signal seen e) =
    (if te_last_seq e \<le> seq then (case signal of SigProgress \<Rightarrow> True | SigFailed \<Rightarrow> te_in_turn e | SigEnded _ \<Rightarrow> False) else te_in_turn e)"
  using assms by (cases signal) (auto simp: observe_entry_def cursors_ok_def Let_def split: option.splits)

lemma observe_all_cursor:
  "cursors_ok (observe_all sigs (turn_entry_fresh epoch seen)) \<and>
   (\<forall>x \<in> set sigs. fst x \<le> te_last_seq (observe_all sigs (turn_entry_fresh epoch seen)))"
proof (induction sigs rule: rev_induct)
  case Nil
  then show ?case by (simp add: cursors_ok_def turn_entry_fresh_def)
next
  case (snoc x sigs)
  then show ?case
    by (cases x) (auto simp: observe_all_snoc observe_entry_cursor le_max_iff_disj)
qed

lemma observe_all_bound: "\<forall>x \<in> set sigs. fst x \<le> s \<Longrightarrow> te_last_seq (observe_all sigs (turn_entry_fresh epoch seen)) \<le> s"
proof (induction sigs rule: rev_induct)
  case (snoc x sigs)
  have "cursors_ok (observe_all sigs (turn_entry_fresh epoch seen))" using observe_all_cursor by blast
  with snoc show ?case by (cases x) (simp add: observe_all_snoc observe_entry_cursor)
qed (simp add: turn_entry_fresh_def)

text \<open>Whatever the order of application, the newest signal decides whether the incarnation is in a turn, unless it is a failure.\<close>

lemma newest_decides:
  assumes "distinct (map fst sigs)" "(s, sg, seen) \<in> set sigs" "\<forall>x \<in> set sigs. fst x \<le> s"
  shows "sg = SigProgress \<Longrightarrow> te_in_turn (observe_all sigs (turn_entry_fresh epoch at0))"
    and "sg = SigEnded k \<Longrightarrow> \<not> te_in_turn (observe_all sigs (turn_entry_fresh epoch at0))"
proof -
  have "(sg = SigProgress \<longrightarrow> te_in_turn (observe_all sigs (turn_entry_fresh epoch at0))) \<and>
      (sg = SigEnded k \<longrightarrow> \<not> te_in_turn (observe_all sigs (turn_entry_fresh epoch at0)))"
    using assms
  proof (induction sigs rule: rev_induct)
    case (snoc x sigs)
    obtain s' sg' seen' where x: "x = (s', sg', seen')" by (cases x)
    let ?e = "observe_all sigs (turn_entry_fresh epoch at0)"
    have ok: "cursors_ok ?e" using observe_all_cursor by blast
    show ?case
    proof (cases "s' = s")
      case True
      then have "x = (s, sg, seen)" using snoc.prems(1,2) by (auto simp: x image_iff)
      moreover have "te_last_seq ?e \<le> s"
        using snoc.prems(3) by (auto intro: observe_all_bound)
      ultimately show ?thesis by (auto simp: observe_all_snoc observe_entry_turn[OF ok])
    next
      case False
      then have mem: "(s, sg, seen) \<in> set sigs" and less: "s' < s" using snoc.prems by (auto simp: x)
      have "s \<le> te_last_seq ?e" using observe_all_cursor[of sigs epoch at0] mem by force
      then have "\<not> te_last_seq ?e \<le> s'" using less by auto
      then have "te_in_turn (observe_all (sigs @ [x]) (turn_entry_fresh epoch at0)) = te_in_turn ?e"
        by (simp add: observe_all_snoc x observe_entry_turn[OF ok])
      then show ?thesis using snoc.IH snoc.prems mem by auto
    qed
  qed simp
  then show "sg = SigProgress \<Longrightarrow> te_in_turn (observe_all sigs (turn_entry_fresh epoch at0))"
    "sg = SigEnded k \<Longrightarrow> \<not> te_in_turn (observe_all sigs (turn_entry_fresh epoch at0))" by auto
qed


lemma observe_entry_heard:
  assumes "cursors_ok e"
  shows "te_last_signal (observe_entry seq signal seen e) = (if te_last_seq e \<le> seq then max seen (te_last_signal e) else te_last_signal e)"
  using assms by (cases signal) (auto simp: observe_entry_def cursors_ok_def note_signal_def Let_def split: option.splits)

lemma current_signals_snoc:
  "current_signals cursor (sigs @ [x]) = current_signals cursor sigs @ (if fold max (map fst sigs) cursor \<le> fst x then [x] else [])"
  by (induction sigs arbitrary: cursor) (auto simp: max_def)

lemma observe_all_exact:
  fixes epoch :: u32 and at0 :: instant
  defines "e \<equiv> \<lambda>sigs. observe_all sigs (turn_entry_fresh epoch at0)"
  shows "te_last_seq (e sigs) = fold max (map fst sigs) 0 \<and> te_in_turn (e sigs) = turn_open (current_signals 0 sigs) \<and>
    te_last_signal (e sigs) = last_heard (current_signals 0 sigs) at0"
proof (induction sigs rule: rev_induct)
  case Nil
  then show ?case by (simp add: e_def turn_entry_fresh_def turn_open_def last_heard_def)
next
  case (snoc x sigs)
  obtain s sg seen where x: "x = (s, sg, seen)" by (cases x)
  have ok: "cursors_ok (e sigs)" unfolding e_def using observe_all_cursor by blast
  have e: "e (sigs @ [x]) = observe_entry s sg seen (e sigs)" by (simp add: e_def observe_all_snoc x)
  show ?case
    using snoc unfolding e observe_entry_cursor(1)[OF ok] observe_entry_turn[OF ok] observe_entry_heard[OF ok]
    by (cases sg) (simp_all add: x current_signals_snoc turn_open_def last_heard_def is_failure_def Let_def max.commute)
qed

lemma failure_overtakes_snoc:
  "failure_overtakes (sigs @ [x]) \<longleftrightarrow> failure_overtakes sigs \<or> \<not> is_failure x \<and> (\<exists>y \<in> set sigs. is_failure y \<and> fst x < fst y)"
  by (induction sigs) auto

lemma fold_max_le: "fold max xs c \<le> (s :: 'a :: linorder) \<longleftrightarrow> c \<le> s \<and> (\<forall>x \<in> set xs. x \<le> s)"
  by (induction xs arbitrary: c) auto

text \<open>Unless a failure overtakes it, the newest progress or end is among the newest when it is applied, and the last of them.\<close>

lemma turn_open_current:
  assumes "\<not> failure_overtakes sigs" "y \<in> set sigs" "\<not> is_failure y" "\<forall>z \<in> set sigs. \<not> is_failure z \<longrightarrow> z \<noteq> y \<longrightarrow> fst z < fst y"
  shows "turn_open (current_signals 0 sigs) \<longleftrightarrow> fst (snd y) = SigProgress"
  using assms
proof (induction sigs rule: rev_induct)
  case (snoc x sigs)
  show ?case
  proof (cases "x = y")
    case True
    then have "\<forall>z \<in> set sigs. fst z \<le> fst y"
      using snoc.prems by (force simp: failure_overtakes_snoc not_less)
    then show ?thesis using True snoc.prems(3) by (simp add: current_signals_snoc fold_max_le turn_open_def)
  next
    case False
    then have IH: "turn_open (current_signals 0 sigs) \<longleftrightarrow> fst (snd y) = SigProgress" and mem: "y \<in> set sigs"
      using snoc by (auto simp: failure_overtakes_snoc)
    show ?thesis
    proof (cases "is_failure x")
      case True
      then show ?thesis using IH by (simp add: current_signals_snoc turn_open_def)
    next
      case nf: False
      then have "\<not> fst y \<le> fst x" using snoc.prems(4) False by auto
      then have "\<not> fold max (map fst sigs) 0 \<le> fst x" using mem by (auto simp: fold_max_le)
      then show ?thesis using IH by (simp add: current_signals_snoc)
    qed
  qed
qed simp

lemma turn_open_sorted:
  assumes "y \<in> set sigs" "\<not> is_failure y" "\<forall>z \<in> set sigs. \<not> is_failure z \<longrightarrow> z \<noteq> y \<longrightarrow> fst z < fst y"
  shows "turn_open (sort_key fst sigs) \<longleftrightarrow> fst (snd y) = SigProgress"
proof -
  let ?zs = "filter (\<lambda>x. \<not> is_failure x) (sort_key fst sigs)"
  have y: "y \<in> set ?zs" using assms by simp
  then obtain us z where zs: "?zs = us @ [z]" by (metis append_butlast_last_id empty_iff list.set(1))
  have "sorted (map fst ?zs)" by (simp add: filter_sort)
  then have "fst y \<le> fst z" using y unfolding zs by (auto simp: sorted_append)
  moreover have "z \<in> set ?zs" by (simp add: zs)
  ultimately have "z = y" using assms(3) by force
  then show ?thesis by (simp add: turn_open_def zs)
qed

lemma in_order_agrees:
  assumes "distinct (map fst sigs)" "\<not> failure_overtakes sigs"
  shows "turn_open (current_signals 0 sigs) = turn_open (sort_key fst sigs)"
proof (cases "\<exists>x \<in> set sigs. \<not> is_failure x")
  case True
  let ?ys = "{x \<in> set sigs. \<not> is_failure x}"
  have "finite ?ys" "?ys \<noteq> {}" using True by auto
  then have "Max (fst ` ?ys) \<in> fst ` ?ys" by (intro Max_in) auto
  then obtain y where y: "y \<in> ?ys" "fst y = Max (fst ` ?ys)" by auto
  have max: "fst z \<le> fst y" if "z \<in> ?ys" for z unfolding y(2) using that by (intro Max_ge) auto
  have "inj_on fst (set sigs)" using assms(1) by (simp add: distinct_map)
  then have "\<forall>z \<in> set sigs. \<not> is_failure z \<longrightarrow> z \<noteq> y \<longrightarrow> fst z < fst y" using y(1) max by (auto simp: inj_on_def order_less_le)
  then show ?thesis using turn_open_current[OF assms(2), of y] turn_open_sorted[of y sigs] y(1) by blast
next
  case False
  have "set (current_signals c sigs) \<subseteq> set sigs" for c by (induction sigs arbitrary: c) auto
  then have "filter (\<lambda>x. \<not> is_failure x) (current_signals 0 sigs) = []" using False by (auto simp: filter_empty_conv)
  moreover have "filter (\<lambda>x. \<not> is_failure x) (sort_key fst sigs) = []" using False by (auto simp: filter_empty_conv)
  ultimately show ?thesis unfolding turn_open_def Let_def by (simp only: simp_thms)
qed

text \<open>The stall is read from the failures and ends alone. The pump thread applies those in the order it emitted
  them; what other threads apply in between, and when, does not matter.\<close>

lemma stall_of_filter: "stall_of (filter (\<lambda>g. g \<noteq> SigProgress) gs) acc = stall_of gs acc"
  by (induction gs acc rule: stall_of.induct) auto

lemma stall_of_append: "stall_of (gs @ hs) acc = stall_of hs (stall_of gs acc)"
  by (induction gs acc rule: stall_of.induct) auto

definition stall_bound :: "u64 \<Rightarrow> turn_entry \<Rightarrow> bool" where
  "stall_bound s e \<longleftrightarrow> (\<forall>t. te_last_end_seq e = Some t \<longrightarrow> t < s) \<and> (\<forall>t. te_error_seq e = Some t \<longrightarrow> t < s)"

lemma observe_progress_stall:
  "te_error_seq (observe_entry seq SigProgress seen e) = te_error_seq e"
  "te_last_end_failed (observe_entry seq SigProgress seen e) = te_last_end_failed e"
  "te_last_end_seq (observe_entry seq SigProgress seen e) = te_last_end_seq e"
  by (simp_all add: observe_entry_def Let_def)

lemma observe_stall:
  assumes "stall_bound seq e" "sg \<noteq> SigProgress"
  shows "(te_error_seq (observe_entry seq sg seen e) \<noteq> None, te_last_end_failed (observe_entry seq sg seen e)) =
      stall_of [sg] (te_error_seq e \<noteq> None, te_last_end_failed e)"
    and "seq < s \<Longrightarrow> stall_bound s (observe_entry seq sg seen e)"
proof -
  have *: "\<not> (case te_last_end_seq e of None \<Rightarrow> False | Some t \<Rightarrow> seq < t)"
    using assms(1) by (auto simp: stall_bound_def split: option.splits)
  show "(te_error_seq (observe_entry seq sg seen e) \<noteq> None, te_last_end_failed (observe_entry seq sg seen e)) =
      stall_of [sg] (te_error_seq e \<noteq> None, te_last_end_failed e)"
  proof (cases sg)
    case (SigEnded k)
    then show ?thesis using assms(1) *
      by (cases k; cases "te_error_seq e") (simp_all add: observe_entry_def Let_def stall_bound_def)
  qed (use assms * in \<open>simp_all add: observe_entry_def Let_def\<close>)
  show "stall_bound s (observe_entry seq sg seen e)" if "seq < s"
    using assms that * by (cases sg)
      (auto simp: observe_entry_def Let_def stall_bound_def min_def split: option.splits if_splits intro: less_trans)
qed

lemma observe_all_stall:
  assumes "sorted_wrt (<) (map fst (filter (\<lambda>x. \<not> is_progress x) sigs))"
  shows "(te_error_seq (observe_all sigs (turn_entry_fresh epoch at0)) \<noteq> None,
      te_last_end_failed (observe_all sigs (turn_entry_fresh epoch at0))) =
    stall_of (map (\<lambda>x. fst (snd x)) (filter (\<lambda>x. \<not> is_progress x) sigs)) (False, False) \<and>
    (\<forall>s. (\<forall>x \<in> set sigs. \<not> is_progress x \<longrightarrow> fst x < s) \<longrightarrow> stall_bound s (observe_all sigs (turn_entry_fresh epoch at0)))"
  using assms
proof (induction sigs rule: rev_induct)
  case Nil
  then show ?case by (simp add: turn_entry_fresh_def stall_bound_def)
next
  case (snoc x sigs)
  obtain s sg seen where x: "x = (s, sg, seen)" by (cases x)
  let ?e = "observe_all sigs (turn_entry_fresh epoch at0)"
  have IH: "(te_error_seq ?e \<noteq> None, te_last_end_failed ?e) = stall_of (map (\<lambda>x. fst (snd x)) (filter (\<lambda>x. \<not> is_progress x) sigs)) (False, False)"
    "\<And>s. \<forall>x \<in> set sigs. \<not> is_progress x \<longrightarrow> fst x < s \<Longrightarrow> stall_bound s ?e"
    using snoc.IH snoc.prems by (simp_all add: sorted_wrt_append del: stall_of.simps)
  show ?case
  proof (cases "sg = SigProgress")
    case True
    then show ?thesis using IH
      by (auto simp: x is_progress_def observe_all_snoc observe_progress_stall stall_bound_def)
  next
    case False
    then have "\<forall>y \<in> set sigs. \<not> is_progress y \<longrightarrow> fst y < s"
      using snoc.prems by (auto simp: x is_progress_def sorted_wrt_append) blast
    then have "stall_bound s ?e" by (rule IH(2))
    note step = observe_stall[OF this False, where seen = seen]
    show ?thesis
      using step False IH(1) by (auto simp: x is_progress_def observe_all_snoc stall_of_append simp del: stall_of.simps)
  qed
qed

lemma emitted_order:
  assumes "sorted_wrt (<) (map fst (filter (\<lambda>x. \<not> is_progress x) sigs))"
  shows "stall_of (map (\<lambda>x. fst (snd x)) (sort_key fst sigs)) acc = stall_of (map (\<lambda>x. fst (snd x)) (filter (\<lambda>x. \<not> is_progress x) sigs)) acc"
proof -
  have "map (\<lambda>x. fst (snd x)) (filter (\<lambda>x. \<not> is_progress x) (sort_key fst sigs)) = map (\<lambda>x. fst (snd x)) (filter (\<lambda>x. \<not> is_progress x) sigs)"
    using assms by (simp add: filter_sort strict_sorted_imp_sorted sort_key_id_if_sorted)
  moreover have "filter (\<lambda>g. g \<noteq> SigProgress) (map (\<lambda>x. fst (snd x)) xs) = map (\<lambda>x. fst (snd x)) (filter (\<lambda>x. \<not> is_progress x) xs)"
    for xs :: "(u64 \<times> turn_signal \<times> instant) list"
    by (simp add: filter_map is_progress_def comp_def)
  ultimately show ?thesis by (metis stall_of_filter)
qed

section \<open>The tables\<close>

lemma turn_do_place:
  assumes "map_of t i = Some e" "te_epoch e = epoch" "leaves_place i epoch op"
  shows "map_of (turn_do op t) i = Some (case own_signal i epoch op of None \<Rightarrow> e | Some (seq, sg, seen) \<Rightarrow> observe_entry seq sg seen e)"
  using assms by (cases op)
    (auto simp: turn_register_at_def observe_at_def turn_forget_def update_conv' delete_conv' split: option.splits)

lemma turn_run_place:
  assumes "\<forall>op \<in> set ops. leaves_place i epoch op"
  shows "map_of (fold turn_do ops (turn_register_at i epoch at0 t)) i =
    Some (observe_all (own_signals i epoch ops) (turn_entry_fresh epoch at0))"
  using assms
proof (induction ops rule: rev_induct)
  case Nil
  then show ?case by (simp add: turn_register_at_def own_signals_def map_filter_simps update_conv')
next
  case (snoc op ops)
  have ep: "te_epoch (observe_all sigs (turn_entry_fresh epoch at0)) = epoch" for sigs
    by (induction sigs rule: rev_induct) (auto simp: observe_all_snoc turn_entry_fresh_def)
  show ?case using snoc turn_do_place[OF _ ep, of _ i "own_signals i epoch ops" op]
    by (cases "own_signal i epoch op")
      (auto simp: own_signals_def List.map_filter_def observe_all_snoc)
qed


lemma busy_from_tables:
  "policy_busy_reason (manager_turn_fact now pt tt) bp i epoch = (case turn_get i epoch tt of
     None \<Rightarrow> if inputs_get i epoch pt = Some True then Some InputsPending else None
   | Some ob \<Rightarrow>
       if ob_last_end_failed ob then Some HaltedAfterError
       else if ob_in_turn ob \<and> map_of (bp_stale bp) (i, epoch) \<noteq> Some (ob_last_signal ob) then Some InTurn
       else if inputs_get i epoch pt = Some True then Some InputsPending
       else None)"
  by (auto simp: policy_busy_reason_def manager_turn_fact_def Let_def split: option.splits)

section \<open>Properties\<close>

text \<open>C18. What the table says of a live incarnation, whatever happens to other agents and to other incarnations of the same
  agent (late signals and late clean-ups included), and in whatever order two threads apply its own signals. (1) In every order
  of application it is in a turn exactly if the last signal that was the newest of all when applied, failures aside, is a
  progress, and it was last heard at the latest time such a signal was seen or at its registration. (2) If the newest signal is a
  progress or an end, that signal decides whatever the order. (3) The turn is the one the output lines tell when read in the order
  they were emitted, unless a failure is applied before a progress or an end that was emitted before it; then it need not be, as
  \<^verbatim>\<open>failure_hides_progress\<close> shows. (4) The stall after an error is the one the output lines tell in the order they were emitted,
  provided failures and ends are applied in that order, as the one pump thread that emits them does.\<close>
theorem turn_facts_exact:
  assumes place: "\<forall>op \<in> set ops. leaves_place i epoch op"
    and own: "own_signals i epoch ops = sigs" "distinct (map fst sigs)"
  shows "\<exists>ob. turn_get i epoch (fold turn_do ops (turn_register_at i epoch at0 tt)) = Some ob \<and>
      ob_in_turn ob = turn_open (current_signals 0 sigs) \<and>
      ob_last_signal ob = last_heard (current_signals 0 sigs) at0 \<and>
      (\<forall>s sg seen. (s, sg, seen) \<in> set sigs \<longrightarrow> (\<forall>x \<in> set sigs. fst x \<le> s) \<longrightarrow> sg \<noteq> SigFailed \<longrightarrow> ob_in_turn ob = (sg = SigProgress)) \<and>
      (\<not> failure_overtakes sigs \<longrightarrow> ob_in_turn ob = turn_open (sort_key fst sigs)) \<and>
      (sorted_wrt (<) (map fst (filter (\<lambda>x. \<not> is_progress x) sigs)) \<longrightarrow>
        ob_last_end_failed ob = snd (stall_of (map (\<lambda>x. fst (snd x)) (sort_key fst sigs)) (False, False)))"
proof -
  let ?e = "observe_all sigs (turn_entry_fresh epoch at0)"
  have "te_epoch ?e = epoch" by (induction sigs rule: rev_induct) (auto simp: observe_all_snoc turn_entry_fresh_def)
  then have get: "turn_get i epoch (fold turn_do ops (turn_register_at i epoch at0 tt)) =
      Some \<lparr>ob_in_turn = te_in_turn ?e, ob_last_signal = te_last_signal ?e, ob_last_end_failed = te_last_end_failed ?e\<rparr>"
    using turn_run_place[OF place, of at0 tt] own by (simp add: turn_get_def)
  have stall: "te_last_end_failed ?e = snd (stall_of (map (\<lambda>x. fst (snd x)) (sort_key fst sigs)) (False, False))"
    if "sorted_wrt (<) (map fst (filter (\<lambda>x. \<not> is_progress x) sigs))"
    using observe_all_stall[OF that, of epoch at0] by (metis emitted_order[OF that] snd_conv)
  have decides: "te_in_turn ?e = (sg = SigProgress)"
    if "(s, sg, seen) \<in> set sigs" "\<forall>x \<in> set sigs. fst x \<le> s" "sg \<noteq> SigFailed" for s sg seen
    using newest_decides[OF own(2) that(1,2)] that(3) by (cases sg) auto
  show ?thesis
    unfolding get using observe_all_exact[of sigs epoch at0] in_order_agrees[OF own(2)] stall decides by auto
qed

text \<open>An input echo overtaken by the end of its turn, and a straggler of the previous incarnation.\<close>

theorem turn_facts_exact_witness:
  "\<exists>ob. turn_get 7 1 (fold turn_do [TurnObserve 7 1 0 SigProgress 10, TurnObserve 7 1 1 SigFailed 11, TurnObserve 7 9 40 SigProgress 12,
        TurnObserve 7 1 3 (SigEnded EndClean) 13, TurnObserve 7 1 2 SigProgress 14, TurnForget 7 9] (turn_register_at 7 1 5 [])) = Some ob \<and>
      \<not> ob_in_turn ob \<and> ob_last_signal ob = 13 \<and> ob_last_end_failed ob"
  using turn_facts_exact[of "[TurnObserve 7 1 0 SigProgress 10, TurnObserve 7 1 1 SigFailed 11, TurnObserve 7 9 40 SigProgress 12,
        TurnObserve 7 1 3 (SigEnded EndClean) 13, TurnObserve 7 1 2 SigProgress 14, TurnForget 7 9]" 7 1
      "[(0, SigProgress, 10), (1, SigFailed, 11), (3, SigEnded EndClean, 13), (2, SigProgress, 14)]" 5 "[]"]
  by (simp add: own_signals_def List.map_filter_def is_progress_def is_failure_def turn_open_def last_heard_def) blast

text \<open>A failure moves the cursor of the turn although it does not say whether the agent is in one: applied before the
  progress that was emitted just before it, it hides that progress, and the table calls the agent idle in its turn.\<close>

lemma failure_hides_progress:
  "te_in_turn (observe_all [(1, SigProgress, 10), (2, SigFailed, 11)] (turn_entry_fresh ep 0))"
  "\<not> te_in_turn (observe_all [(2, SigFailed, 11), (1, SigProgress, 10)] (turn_entry_fresh ep 0))"
  by (simp_all add: observe_all_def observe_entry_def turn_entry_fresh_def note_signal_def Let_def word_le_nat_alt)

end
