(* ===== verification/Queued_Input.thy ===== *)
theory Queued_Input
  imports Eg_Prelude
begin

text \<open>
  The list of inputs an agent has not been given yet, \<^verbatim>\<open>crates/engram-dashboard-agent/src/queued_input.rs\<close>, with its
  events from \<^verbatim>\<open>crates/engram-dashboard-agent/src/types.rs\<close>: the reducer that folds the events of one incarnation in
  ring order, the capped set of tombstones and the rows a listing shows.

  The abstract contract is a small machine per input, \<open>slot_step\<close>: the reducer runs one such machine for every
  identifier, as long as no tombstone had to make room.
\<close>

section \<open>Events\<close>

datatype drop_cause = Withdrawn | Interrupted | AgentEnded | DcRejected | DcUnknown

record delivered_copy =
  dc_id :: ustr
  dc_text :: ustr

datatype queued_input_event = QiQueued ustr ustr | QiCancelRequested ustr | QiCancelAnswered ustr bool | QiCancelFailed ustr
  | QiHandedOver ustr bool | QiDelivered ustr | QiDropped ustr drop_cause | QiAckUnavailable "delivered_copy list"

section \<open>The registry\<close>

definition TOMBSTONE_CAP :: nat where
  "TOMBSTONE_CAP = 1024"

datatype cancel_answer = Unanswered | NotRemoved

datatype row_phase = RowQueued | RowCancelling cancel_answer bool

record queued_row =
  qr_id :: ustr
  qr_text :: ustr
  qr_phase :: row_phase
  qr_sent :: bool

datatype input_verdict = VDelivered | VCancelled | VDiscarded drop_cause

definition resurrectable :: "input_verdict \<Rightarrow> bool" where
  "resurrectable v \<longleftrightarrow> v = VDiscarded DcUnknown"

fun of_drop :: "drop_cause \<Rightarrow> input_verdict" where
  "of_drop Withdrawn = VCancelled"
| "of_drop cause = VDiscarded cause"

record tombstones =
  tb_order :: "ustr list"
  tb_flags :: "(ustr \<times> bool) list"

definition tomb_insert :: "ustr \<Rightarrow> bool \<Rightarrow> tombstones \<Rightarrow> tombstones" where
  "tomb_insert i flag t = (
     if map_of (tb_flags t) i \<noteq> None then t
     else let t1 = (if TOMBSTONE_CAP \<le> length (tb_order t)
                    then (case tb_order t of
                            [] \<Rightarrow> t
                          | oldest # rest \<Rightarrow> t\<lparr>tb_order := rest, tb_flags := AList.delete oldest (tb_flags t)\<rparr>)
                    else t)
          in t1\<lparr>tb_order := tb_order t1 @ [i], tb_flags := AList.update i flag (tb_flags t1)\<rparr>)"

definition clear_resurrectable :: "ustr \<Rightarrow> tombstones \<Rightarrow> tombstones" where
  "clear_resurrectable i t = (if map_of (tb_flags t) i = None then t else t\<lparr>tb_flags := AList.update i False (tb_flags t)\<rparr>)"

record registry =
  rg_items :: "queued_row list"
  rg_tombs :: tombstones
  rg_ack_unavailable_seen :: bool
  rg_as_of_seq :: "u64 option"

definition registry_new :: registry where
  "registry_new = \<lparr>rg_items = [], rg_tombs = \<lparr>tb_order = [], tb_flags = []\<rparr>, rg_ack_unavailable_seen = False, rg_as_of_seq = None\<rparr>"

abbreviation tomb_of :: "registry \<Rightarrow> ustr \<Rightarrow> bool option" where
  "tomb_of r i \<equiv> map_of (tb_flags (rg_tombs r)) i"

definition find_row :: "ustr \<Rightarrow> registry \<Rightarrow> queued_row option" where
  "find_row i r = find (\<lambda>row. qr_id row = i) (rg_items r)"

text \<open>\<^verbatim>\<open>position\<close> followed by \<^verbatim>\<open>close\<close>, and \<^verbatim>\<open>position\<close> followed by a write to the row.\<close>

definition close_row :: "ustr \<Rightarrow> input_verdict \<Rightarrow> registry \<Rightarrow> (ustr \<times> input_verdict) list \<times> registry" where
  "close_row i v r =
     ([(i, v)], r\<lparr>rg_items := remove_first (\<lambda>row. qr_id row = i) (rg_items r),
                  rg_tombs := tomb_insert i (resurrectable v) (rg_tombs r)\<rparr>)"

definition write_row :: "ustr \<Rightarrow> (queued_row \<Rightarrow> queued_row) \<Rightarrow> registry \<Rightarrow> registry" where
  "write_row i f r = r\<lparr>rg_items := update_first (\<lambda>row. qr_id row = i) f (rg_items r)\<rparr>"

definition on_queued :: "ustr \<Rightarrow> ustr \<Rightarrow> registry \<Rightarrow> registry" where
  "on_queued i txt r = (
     if find_row i r \<noteq> None \<or> tomb_of r i \<noteq> None then r
     else r\<lparr>rg_items := rg_items r @ [\<lparr>qr_id = i, qr_text = txt, qr_phase = RowQueued, qr_sent = False\<rparr>]\<rparr>)"

definition on_handed_over :: "ustr \<Rightarrow> bool \<Rightarrow> registry \<Rightarrow> registry" where
  "on_handed_over i sent r = (if find_row i r = None then r else write_row i (\<lambda>row. row\<lparr>qr_sent := sent\<rparr>) r)"

definition on_cancel_requested :: "ustr \<Rightarrow> registry \<Rightarrow> registry" where
  "on_cancel_requested i r = (case find_row i r of
     None \<Rightarrow> r
   | Some row \<Rightarrow>
       if qr_phase row = RowQueued then write_row i (\<lambda>row. row\<lparr>qr_phase := RowCancelling Unanswered False\<rparr>) r else r)"

definition on_removed :: "ustr \<Rightarrow> registry \<Rightarrow> (ustr \<times> input_verdict) list \<times> registry" where
  "on_removed i r = (case find_row i r of
     None \<Rightarrow> ([], r)
   | Some row \<Rightarrow> (case qr_phase row of RowCancelling _ _ \<Rightarrow> close_row i VCancelled r | RowQueued \<Rightarrow> ([], r)))"

definition on_not_removed :: "ustr \<Rightarrow> registry \<Rightarrow> (ustr \<times> input_verdict) list \<times> registry" where
  "on_not_removed i r = (case find_row i r of
     None \<Rightarrow> ([], r)
   | Some row \<Rightarrow> (case qr_phase row of
         RowQueued \<Rightarrow> ([], r)
       | RowCancelling _ False \<Rightarrow> ([], write_row i (\<lambda>row. row\<lparr>qr_phase := RowCancelling NotRemoved False\<rparr>) r)
       | RowCancelling _ True \<Rightarrow> close_row i (VDiscarded DcUnknown) r))"

definition on_delivered :: "ustr \<Rightarrow> registry \<Rightarrow> (ustr \<times> input_verdict) list \<times> registry" where
  "on_delivered i r = (
     if find_row i r \<noteq> None then close_row i VDelivered r
     else case tomb_of r i of
            None \<Rightarrow> ([(i, VDelivered)], r\<lparr>rg_tombs := tomb_insert i False (rg_tombs r)\<rparr>)
          | Some True \<Rightarrow> ([(i, VDelivered)], r\<lparr>rg_tombs := clear_resurrectable i (rg_tombs r)\<rparr>)
          | Some False \<Rightarrow> ([], r))"

definition on_dropped :: "ustr \<Rightarrow> drop_cause \<Rightarrow> registry \<Rightarrow> (ustr \<times> input_verdict) list \<times> registry" where
  "on_dropped i cause r = (case find_row i r of
     Some row \<Rightarrow> (case (qr_phase row, cause) of
         (_, Withdrawn) \<Rightarrow> close_row i VCancelled r
       | (RowQueued, cause) \<Rightarrow> close_row i (VDiscarded cause) r
       | (RowCancelling NotRemoved False, DcUnknown) \<Rightarrow> close_row i (VDiscarded DcUnknown) r
       | (RowCancelling Unanswered False, DcUnknown) \<Rightarrow>
           ([], write_row i (\<lambda>row. row\<lparr>qr_phase := RowCancelling Unanswered True\<rparr>) r)
       | (RowCancelling _ True, DcUnknown) \<Rightarrow> ([], r)
       | (RowCancelling _ _, cause) \<Rightarrow> close_row i (VDiscarded cause) r)
   | None \<Rightarrow> (case tomb_of r i of
         None \<Rightarrow> ([(i, of_drop cause)], r\<lparr>rg_tombs := tomb_insert i (resurrectable (of_drop cause)) (rg_tombs r)\<rparr>)
       | Some _ \<Rightarrow>
           if cause = DcRejected
           then ([(i, VDiscarded DcRejected)], r\<lparr>rg_tombs := clear_resurrectable i (rg_tombs r)\<rparr>)
           else ([], r)))"

text \<open>\<^verbatim>\<open>while !items.is_empty() { close(0, ..) }\<close> and the loop over the copies.\<close>

fun close_all :: "queued_row list \<Rightarrow> tombstones \<Rightarrow> (ustr \<times> input_verdict) list \<times> tombstones" where
  "close_all [] t = ([], t)"
| "close_all (row # rows) t = (
     let (closed, t') = close_all rows (tomb_insert (qr_id row) (resurrectable VDelivered) t)
     in ((qr_id row, VDelivered) # closed, t'))"

fun deliver_copies :: "delivered_copy list \<Rightarrow> registry \<Rightarrow> (ustr \<times> input_verdict) list \<times> registry" where
  "deliver_copies [] r = ([], r)"
| "deliver_copies (copy # copies) r = (
     let (closed, r1) = on_delivered (dc_id copy) r; (closed', r2) = deliver_copies copies r1
     in (closed @ closed', r2))"

definition on_ack_unavailable :: "delivered_copy list \<Rightarrow> registry \<Rightarrow> (ustr \<times> input_verdict) list \<times> registry" where
  "on_ack_unavailable copies r = (
     let (closed, tombs) = close_all (rg_items r) (rg_tombs r);
         (closed', r') = deliver_copies copies (r\<lparr>rg_ack_unavailable_seen := True, rg_items := [], rg_tombs := tombs\<rparr>)
     in (closed @ closed', r'))"

fun reduce_event :: "queued_input_event \<Rightarrow> registry \<Rightarrow> (ustr \<times> input_verdict) list \<times> registry" where
  "reduce_event (QiQueued i txt) r = ([], on_queued i txt r)"
| "reduce_event (QiCancelRequested i) r = ([], on_cancel_requested i r)"
| "reduce_event (QiCancelAnswered i removed) r = (if removed then on_removed i r else on_not_removed i r)"
| "reduce_event (QiCancelFailed i) r = on_not_removed i r"
| "reduce_event (QiHandedOver i sent) r = ([], on_handed_over i sent r)"
| "reduce_event (QiDelivered i) r = on_delivered i r"
| "reduce_event (QiDropped i cause) r = on_dropped i cause r"
| "reduce_event (QiAckUnavailable copies) r = on_ack_unavailable copies r"

definition reduce :: "u64 \<Rightarrow> queued_input_event \<Rightarrow> registry \<Rightarrow> (ustr \<times> input_verdict) list \<times> registry" where
  "reduce seq ev r = reduce_event ev (r\<lparr>rg_as_of_seq := Some seq\<rparr>)"

definition open_copies :: "registry \<Rightarrow> delivered_copy list" where
  "open_copies r = map (\<lambda>row. \<lparr>dc_id = qr_id row, dc_text = qr_text row\<rparr>) (rg_items r)"

definition registry_is_empty :: "registry \<Rightarrow> bool" where
  "registry_is_empty r \<longleftrightarrow> rg_items r = []"

definition queued_snapshot :: "registry \<Rightarrow> queued_row list \<times> u64 option" where
  "queued_snapshot r = (rg_items r, rg_as_of_seq r)"

section \<open>The listing\<close>

datatype listed_state = LsQueued | LsSent | LsUnconfirmed | LsCancelling cancel_answer bool

record listed_row =
  lr_id :: ustr
  lr_text :: ustr
  lr_state :: listed_state

definition overlay_unconfirmed :: "queued_row list \<Rightarrow> ustr list \<Rightarrow> listed_row list" where
  "overlay_unconfirmed rows unconfirmed = map (\<lambda>row.
     \<lparr>lr_id = qr_id row, lr_text = qr_text row,
      lr_state = (case qr_phase row of
          RowQueued \<Rightarrow> if qr_sent row then LsSent else if qr_id row \<in> set unconfirmed then LsUnconfirmed else LsQueued
        | RowCancelling answer vendor_closed \<Rightarrow> LsCancelling answer vendor_closed)\<rparr>) rows"

section \<open>One input\<close>

text \<open>What is known of one identifier, and what an event makes of it.\<close>

datatype slot_state = SlUnknown | SlItem ustr row_phase bool | SlTomb bool

definition slot_of :: "registry \<Rightarrow> ustr \<Rightarrow> slot_state" where
  "slot_of r i = (case find_row i r of
     Some row \<Rightarrow> SlItem (qr_text row) (qr_phase row) (qr_sent row)
   | None \<Rightarrow> (case tomb_of r i of Some flag \<Rightarrow> SlTomb flag | None \<Rightarrow> SlUnknown))"

text \<open>A receipt beats everything but a receipt; a drop closes an open input, except that an unexplained closing by
  the vendor waits for the answer to a cancel request that is still out.\<close>

fun slot_receipt :: "slot_state \<Rightarrow> input_verdict list \<times> slot_state" where
  "slot_receipt (SlTomb False) = ([], SlTomb False)"
| "slot_receipt sl = ([VDelivered], SlTomb False)"

fun vendor_closed_of :: "row_phase \<Rightarrow> bool" where
  "vendor_closed_of RowQueued = False"
| "vendor_closed_of (RowCancelling _ vendor_closed) = vendor_closed"

fun slot_drop :: "drop_cause \<Rightarrow> slot_state \<Rightarrow> input_verdict list \<times> slot_state" where
  "slot_drop cause SlUnknown = ([of_drop cause], SlTomb (cause = DcUnknown))"
| "slot_drop cause (SlTomb flag) = (if cause = DcRejected then ([VDiscarded DcRejected], SlTomb False) else ([], SlTomb flag))"
| "slot_drop cause (SlItem txt phase sent) = (
     if cause = DcUnknown \<and> phase = RowCancelling Unanswered False then ([], SlItem txt (RowCancelling Unanswered True) sent)
     else if cause = DcUnknown \<and> vendor_closed_of phase then ([], SlItem txt phase sent)
     else ([of_drop cause], SlTomb (cause = DcUnknown)))"

fun slot_answer :: "bool \<Rightarrow> slot_state \<Rightarrow> input_verdict list \<times> slot_state" where
  "slot_answer removed (SlItem txt (RowCancelling answer vendor_closed) sent) = (
     if removed then ([VCancelled], SlTomb False)
     else if vendor_closed then ([VDiscarded DcUnknown], SlTomb True)
     else ([], SlItem txt (RowCancelling NotRemoved False) sent))"
| "slot_answer removed sl = ([], sl)"

fun slot_is_item :: "slot_state \<Rightarrow> bool" where
  "slot_is_item (SlItem _ _ _) = True"
| "slot_is_item sl = False"

fun slot_step :: "ustr \<Rightarrow> queued_input_event \<Rightarrow> slot_state \<Rightarrow> input_verdict list \<times> slot_state" where
  "slot_step i (QiQueued j txt) sl = ([], if j = i \<and> sl = SlUnknown then SlItem txt RowQueued False else sl)"
| "slot_step i (QiCancelRequested j) sl = ([], if j = i then (case sl of
     SlItem txt RowQueued sent \<Rightarrow> SlItem txt (RowCancelling Unanswered False) sent | _ \<Rightarrow> sl) else sl)"
| "slot_step i (QiCancelAnswered j removed) sl = (if j = i then slot_answer removed sl else ([], sl))"
| "slot_step i (QiCancelFailed j) sl = (if j = i then slot_answer False sl else ([], sl))"
| "slot_step i (QiHandedOver j sent) sl = ([], if j = i then (case sl of SlItem txt phase _ \<Rightarrow> SlItem txt phase sent | _ \<Rightarrow> sl) else sl)"
| "slot_step i (QiDelivered j) sl = (if j = i then slot_receipt sl else ([], sl))"
| "slot_step i (QiDropped j cause) sl = (if j = i then slot_drop cause sl else ([], sl))"
| "slot_step i (QiAckUnavailable copies) sl = (
     if slot_is_item sl \<or> i \<in> set (map dc_id copies) then slot_receipt sl else ([], sl))"


section \<open>The registry is one machine per input\<close>

definition tombs_ok :: "tombstones \<Rightarrow> bool" where
  "tombs_ok t \<longleftrightarrow> distinct (tb_order t) \<and> length (tb_order t) \<le> TOMBSTONE_CAP \<and> dom (map_of (tb_flags t)) = set (tb_order t)"

definition registry_ok :: "registry \<Rightarrow> bool" where
  "registry_ok r \<longleftrightarrow> distinct (map qr_id (rg_items r)) \<and> tombs_ok (rg_tombs r) \<and>
     qr_id ` set (rg_items r) \<inter> set (tb_order (rg_tombs r)) = {}"

lemma cap_pos: "0 < TOMBSTONE_CAP"
  by (simp add: TOMBSTONE_CAP_def)

lemma tomb_known_iff: "tombs_ok t \<Longrightarrow> map_of (tb_flags t) i = None \<longleftrightarrow> i \<notin> set (tb_order t)"
  by (metis domIff tombs_ok_def)

lemma tomb_insert_ok:
  assumes "tombs_ok t"
  shows "tombs_ok (tomb_insert i flag t)" "set (tb_order (tomb_insert i flag t)) \<subseteq> insert i (set (tb_order t))"
proof -
  have "tombs_ok (tomb_insert i flag t) \<and> set (tb_order (tomb_insert i flag t)) \<subseteq> insert i (set (tb_order t))"
  proof (cases "map_of (tb_flags t) i = None")
    case True
    then show ?thesis using assms cap_pos tomb_known_iff[OF assms, of i]
      by (cases "tb_order t") (auto simp: tomb_insert_def Let_def tombs_ok_def update_conv' delete_conv' dom_def)
  qed (use assms in \<open>auto simp: tomb_insert_def\<close>)
  then show "tombs_ok (tomb_insert i flag t)" "set (tb_order (tomb_insert i flag t)) \<subseteq> insert i (set (tb_order t))" by auto
qed

text \<open>As long as there is room, nothing makes way for a new tombstone.\<close>

lemma tomb_insert_room:
  assumes "tombs_ok t" "length (tb_order t) < TOMBSTONE_CAP"
  shows "map_of (tb_flags (tomb_insert i flag t)) = (if map_of (tb_flags t) i = None then (map_of (tb_flags t))(i \<mapsto> flag) else map_of (tb_flags t))"
    and "set (tb_order (tomb_insert i flag t)) = insert i (set (tb_order t))"
  using assms tomb_known_iff[OF assms(1), of i] by (auto simp: tomb_insert_def Let_def update_conv')

lemma clear_ok:
  assumes "tombs_ok t"
  shows "tombs_ok (clear_resurrectable i t)" "tb_order (clear_resurrectable i t) = tb_order t"
    "map_of (tb_flags (clear_resurrectable i t)) = (if map_of (tb_flags t) i = None then map_of (tb_flags t) else (map_of (tb_flags t))(i \<mapsto> False))"
  using assms by (auto simp: clear_resurrectable_def tombs_ok_def update_conv' dom_def)


lemma find_row_Some: "find_row i r = Some row \<Longrightarrow> row \<in> set (rg_items r) \<and> qr_id row = i"
  by (auto simp: find_row_def find_Some_iff)

lemma find_row_None: "find_row i r = None \<longleftrightarrow> i \<notin> qr_id ` set (rg_items r)"
  by (auto simp: find_row_def find_None_iff)

lemma find_after_remove:
  "distinct (map f xs) \<Longrightarrow> find (\<lambda>x. f x = j) (remove_first (\<lambda>x. f x = i) xs) = (if j = i then None else find (\<lambda>x. f x = j) xs)"
  by (induction xs) (auto simp: find_None_iff image_iff)

lemma distinct_after_remove: "distinct (map f xs) \<Longrightarrow> distinct (map f (remove_first P xs))"
  using subseq_map[OF subseq_remove_first, of f P xs] by (induction rule: list_emb.induct) (auto dest: list_emb_set)

lemma ids_after_remove: "distinct (map f xs) \<Longrightarrow> f ` set (remove_first (\<lambda>x. f x = i) xs) = f ` set xs - {i}"
  by (induction xs) (auto simp: image_iff)

lemma find_after_update:
  "(\<And>x. f (g x) = f x) \<Longrightarrow> find (\<lambda>x. f x = j) (update_first (\<lambda>x. f x = i) g xs) =
     (if j = i then map_option g (find (\<lambda>x. f x = i) xs) else find (\<lambda>x. f x = j) xs)"
  by (induction xs) auto

definition known_ids :: "registry \<Rightarrow> ustr set" where
  "known_ids r = qr_id ` set (rg_items r) \<union> set (tb_order (rg_tombs r))"

text \<open>An operation on the input \<open>i\<close> runs its machine and leaves every other input alone.\<close>

definition runs_slot :: "ustr \<Rightarrow> (slot_state \<Rightarrow> input_verdict list \<times> slot_state) \<Rightarrow> registry \<Rightarrow> (ustr \<times> input_verdict) list \<times> registry \<Rightarrow> bool" where
  "runs_slot i step r res \<longleftrightarrow> registry_ok (snd res) \<and> known_ids (snd res) \<subseteq> insert i (known_ids r) \<and>
     (card (insert i (known_ids r)) \<le> TOMBSTONE_CAP \<longrightarrow>
        (\<forall>j. slot_of (snd res) j = (if j = i then snd (step (slot_of r i)) else slot_of r j)) \<and>
        fst res = map (Pair i) (fst (step (slot_of r i))))"

lemma room_for:
  assumes "registry_ok r" "card (insert i (known_ids r)) \<le> TOMBSTONE_CAP" "tomb_of r i = None"
  shows "length (tb_order (rg_tombs r)) < TOMBSTONE_CAP"
proof -
  have ok: "tombs_ok (rg_tombs r)" using assms(1) by (simp add: registry_ok_def)
  have "set (tb_order (rg_tombs r)) \<subset> insert i (known_ids r)"
    using tomb_known_iff[OF ok, of i] assms(3) by (auto simp: known_ids_def)
  then have "card (set (tb_order (rg_tombs r))) < card (insert i (known_ids r))"
    by (intro psubset_card_mono) (auto simp: known_ids_def)
  then show ?thesis using assms(2) ok by (simp add: tombs_ok_def distinct_card)
qed

lemma runs_slot_same: "registry_ok r \<Longrightarrow> step (slot_of r i) = ([], slot_of r i) \<Longrightarrow> runs_slot i step r ([], r)"
  by (auto simp: runs_slot_def)

lemma runs_close:
  assumes ok: "registry_ok r" and row: "find_row i r = Some row" and step: "step (slot_of r i) = ([v], SlTomb (resurrectable v))"
  shows "runs_slot i step r (close_row i v r)"
proof -
  let ?r = "snd (close_row i v r)"
  have tombs: "tombs_ok (rg_tombs r)" and new: "tomb_of r i = None" and i: "i \<in> known_ids r"
    using ok find_row_Some[OF row] tomb_known_iff[of "rg_tombs r" i] by (auto simp: registry_ok_def known_ids_def)
  have "registry_ok ?r"
    using ok tomb_insert_ok[OF tombs, of i "resurrectable v"]
    by (auto simp: registry_ok_def close_row_def ids_after_remove distinct_after_remove)
  moreover have "known_ids ?r \<subseteq> insert i (known_ids r)"
    using ok tomb_insert_ok(2)[OF tombs, of i "resurrectable v"] i
    by (auto simp: registry_ok_def close_row_def known_ids_def ids_after_remove)
  moreover have "slot_of ?r j = (if j = i then SlTomb (resurrectable v) else slot_of r j)"
    if "card (insert i (known_ids r)) \<le> TOMBSTONE_CAP" for j
    using ok tomb_insert_room(1)[OF tombs room_for[OF ok that new], of i "resurrectable v"] new
    by (auto simp: slot_of_def find_row_def close_row_def find_after_remove registry_ok_def split: option.splits)
  ultimately show ?thesis using step by (auto simp: runs_slot_def close_row_def)
qed

lemma runs_write:
  assumes ok: "registry_ok r" and f: "\<And>row. qr_id (f row) = qr_id row"
    and step: "\<And>row. find_row i r = Some row \<Longrightarrow> step (slot_of r i) = ([], SlItem (qr_text (f row)) (qr_phase (f row)) (qr_sent (f row)))"
    and row: "find_row i r \<noteq> None"
  shows "runs_slot i step r ([], write_row i f r)"
proof -
  have ids: "map qr_id (rg_items (write_row i f r)) = map qr_id (rg_items r)"
    by (simp add: write_row_def map_update_first f)
  then have same: "qr_id ` set (rg_items (write_row i f r)) = qr_id ` set (rg_items r)" by (metis set_map)
  have "slot_of (write_row i f r) j = (if j = i then snd (step (slot_of r i)) else slot_of r j)" for j
    using row step by (auto simp: slot_of_def find_row_def write_row_def find_after_update f split: option.splits)
  then show ?thesis using ok row step same ids by (auto simp: runs_slot_def registry_ok_def known_ids_def write_row_def)
qed

lemma runs_bury:
  assumes ok: "registry_ok r" and new: "find_row i r = None" "tomb_of r i = None" and step: "step SlUnknown = ([v], SlTomb flag)"
  shows "runs_slot i step r ([(i, v)], r\<lparr>rg_tombs := tomb_insert i flag (rg_tombs r)\<rparr>)"
proof -
  have tombs: "tombs_ok (rg_tombs r)" using ok by (simp add: registry_ok_def)
  have "slot_of (r\<lparr>rg_tombs := tomb_insert i flag (rg_tombs r)\<rparr>) j = (if j = i then SlTomb flag else slot_of r j)"
    if "card (insert i (known_ids r)) \<le> TOMBSTONE_CAP" for j
    using tomb_insert_room(1)[OF tombs room_for[OF ok that new(2)], of i flag] new by (auto simp: slot_of_def find_row_def split: option.splits)
  moreover have "slot_of r i = SlUnknown" using new by (simp add: slot_of_def)
  moreover have "registry_ok (r\<lparr>rg_tombs := tomb_insert i flag (rg_tombs r)\<rparr>)"
    using ok new(1) tomb_insert_ok[OF tombs, of i flag] unfolding registry_ok_def find_row_None by fastforce
  ultimately show ?thesis using step tomb_insert_ok(2)[OF tombs, of i flag]
    by (auto simp: runs_slot_def known_ids_def)
qed

lemma runs_clear:
  assumes ok: "registry_ok r" and tomb: "find_row i r = None" "tomb_of r i = Some flag" and step: "step (SlTomb flag) = ([v], SlTomb False)"
  shows "runs_slot i step r ([(i, v)], r\<lparr>rg_tombs := clear_resurrectable i (rg_tombs r)\<rparr>)"
proof -
  have tombs: "tombs_ok (rg_tombs r)" using ok by (simp add: registry_ok_def)
  have "slot_of (r\<lparr>rg_tombs := clear_resurrectable i (rg_tombs r)\<rparr>) j = (if j = i then SlTomb False else slot_of r j)" for j
    using clear_ok[OF tombs, of i] tomb by (auto simp: slot_of_def find_row_def split: option.splits)
  moreover have "slot_of r i = SlTomb flag" using tomb by (simp add: slot_of_def)
  ultimately show ?thesis using ok step clear_ok[OF tombs, of i]
    by (auto simp: runs_slot_def registry_ok_def known_ids_def)
qed

lemma runs_delivered: "registry_ok r \<Longrightarrow> runs_slot i slot_receipt r (on_delivered i r)"
  by (auto simp: on_delivered_def resurrectable_def slot_of_def split: option.splits bool.splits
      intro!: runs_close runs_bury runs_clear runs_slot_same)


lemma runs_answer: "registry_ok r \<Longrightarrow> runs_slot i (slot_answer removed) r (if removed then on_removed i r else on_not_removed i r)"
  by (auto simp: on_removed_def on_not_removed_def resurrectable_def slot_of_def split: option.splits row_phase.splits bool.splits
      intro!: runs_close runs_write runs_slot_same)

lemma runs_dropped:
  assumes "registry_ok r"
  shows "runs_slot i (slot_drop cause) r (on_dropped i cause r)"
proof (cases "find_row i r")
  case None
  then show ?thesis using assms
    by (cases cause; cases "tomb_of r i")
      (auto simp: on_dropped_def resurrectable_def slot_of_def intro!: runs_bury runs_clear runs_slot_same)
next
  case (Some row)
  then show ?thesis using assms
    by (cases "qr_phase row"; cases cause)
      (auto simp: on_dropped_def resurrectable_def slot_of_def split: cancel_answer.splits bool.splits
        intro!: runs_close runs_write runs_slot_same)
qed

lemma find_snoc: "find P (xs @ [x]) = (case find P xs of Some y \<Rightarrow> Some y | None \<Rightarrow> if P x then Some x else None)"
  by (induction xs) auto

lemma runs_queued:
  assumes ok: "registry_ok r"
  shows "runs_slot i (\<lambda>sl. ([], if sl = SlUnknown then SlItem txt RowQueued False else sl)) r ([], on_queued i txt r)"
proof (cases "find_row i r = None \<and> tomb_of r i = None")
  case True
  have tombs: "tombs_ok (rg_tombs r)" using ok by (simp add: registry_ok_def)
  let ?r = "on_queued i txt r"
  have "rg_items ?r = rg_items r @ [\<lparr>qr_id = i, qr_text = txt, qr_phase = RowQueued, qr_sent = False\<rparr>]" "rg_tombs ?r = rg_tombs r"
    using True by (simp_all add: on_queued_def)
  note parts = this
  have "registry_ok ?r" "known_ids ?r = insert i (known_ids r)"
    using ok True tomb_known_iff[OF tombs, of i] by (auto simp: registry_ok_def known_ids_def parts find_row_None)
  moreover have "slot_of ?r j = (if j = i then SlItem txt RowQueued False else slot_of r j)" for j
    using True by (auto simp: slot_of_def find_row_def parts find_snoc split: option.splits)
  ultimately show ?thesis using True by (simp add: runs_slot_def slot_of_def)
next
  case False
  then have "on_queued i txt r = r" by (auto simp: on_queued_def)
  moreover have "slot_of r i \<noteq> SlUnknown" using False by (auto simp: slot_of_def split: option.splits)
  ultimately show ?thesis using ok by (simp add: runs_slot_same)
qed

lemma runs_requested:
  "registry_ok r \<Longrightarrow> runs_slot i (\<lambda>sl. ([], case sl of SlItem txt RowQueued sent \<Rightarrow> SlItem txt (RowCancelling Unanswered False) sent | _ \<Rightarrow> sl)) r
     ([], on_cancel_requested i r)"
  by (auto simp: on_cancel_requested_def slot_of_def split: option.splits row_phase.splits intro!: runs_write runs_slot_same)

lemma runs_handed_over:
  "registry_ok r \<Longrightarrow> runs_slot i (\<lambda>sl. ([], case sl of SlItem txt phase _ \<Rightarrow> SlItem txt phase sent | _ \<Rightarrow> sl)) r ([], on_handed_over i sent r)"
  by (auto simp: on_handed_over_def slot_of_def split: option.splits intro!: runs_write runs_slot_same)


fun event_ids :: "queued_input_event \<Rightarrow> ustr set" where
  "event_ids (QiQueued i _) = {i}"
| "event_ids (QiCancelRequested i) = {i}"
| "event_ids (QiCancelAnswered i _) = {i}"
| "event_ids (QiCancelFailed i) = {i}"
| "event_ids (QiHandedOver i _) = {i}"
| "event_ids (QiDelivered i) = {i}"
| "event_ids (QiDropped i _) = {i}"
| "event_ids (QiAckUnavailable copies) = dc_id ` set copies"

definition verdicts_of :: "ustr \<Rightarrow> (ustr \<times> input_verdict) list \<Rightarrow> input_verdict list" where
  "verdicts_of j closed = map snd (filter (\<lambda>x. fst x = j) closed)"

lemma verdicts_simps [simp]:
  "verdicts_of j [] = []" "verdicts_of j (xs @ ys) = verdicts_of j xs @ verdicts_of j ys"
  "verdicts_of j (x # xs) = (if fst x = j then snd x # verdicts_of j xs else verdicts_of j xs)"
  "verdicts_of j (map (Pair i) vs) = (if j = i then vs else [])"
  by (auto simp: verdicts_of_def filter_map comp_def)

text \<open>A sequence of operations runs one machine per input.\<close>

definition runs_slots :: "ustr set \<Rightarrow> (ustr \<Rightarrow> slot_state \<Rightarrow> input_verdict list \<times> slot_state) \<Rightarrow> registry \<Rightarrow> (ustr \<times> input_verdict) list \<times> registry \<Rightarrow> bool" where
  "runs_slots ids step r res \<longleftrightarrow> registry_ok (snd res) \<and> known_ids (snd res) \<subseteq> ids \<union> known_ids r \<and>
     (card (ids \<union> known_ids r) \<le> TOMBSTONE_CAP \<longrightarrow>
        (\<forall>j. slot_of (snd res) j = snd (step j (slot_of r j)) \<and> verdicts_of j (fst res) = fst (step j (slot_of r j))))"

lemma runs_one:
  assumes "runs_slot i f r res" "\<And>j sl. step j sl = (if j = i then f sl else ([], sl))"
  shows "runs_slots {i} step r res"
  using assms by (auto simp: runs_slot_def runs_slots_def)

lemma runs_seq:
  assumes "runs_slots A f r (c1, r1)" "runs_slots B g r1 (c2, r2)" "finite A" "finite B"
    and "\<And>j sl. step j sl = (fst (f j sl) @ fst (g j (snd (f j sl))), snd (g j (snd (f j sl))))"
  shows "runs_slots (A \<union> B) step r (c1 @ c2, r2)"
proof -
  have fin: "finite (known_ids r)" by (simp add: known_ids_def)
  have "card (A \<union> known_ids r) \<le> card (A \<union> B \<union> known_ids r)" "card (B \<union> known_ids r1) \<le> card (A \<union> B \<union> known_ids r)"
    using assms(1,3,4) fin by (auto intro!: card_mono simp: runs_slots_def)
  then show ?thesis using assms(1,2,5) by (auto simp: runs_slots_def)
qed

lemma runs_none: "registry_ok r \<Longrightarrow> (\<And>j. step j (slot_of r j) = ([], slot_of r j)) \<Longrightarrow> runs_slots {} step r ([], r)"
  by (simp add: runs_slots_def)

lemma runs_copies:
  "registry_ok r \<Longrightarrow> runs_slots (dc_id ` set copies) (\<lambda>j sl. if j \<in> dc_id ` set copies then slot_receipt sl else ([], sl)) r (deliver_copies copies r)"
proof (induction copies arbitrary: r)
  case Nil
  then show ?case by (simp add: runs_none)
next
  case (Cons copy copies)
  obtain c1 r1 where one: "on_delivered (dc_id copy) r = (c1, r1)" by fastforce
  obtain c2 r2 where rest: "deliver_copies copies r1 = (c2, r2)" by fastforce
  have "runs_slot (dc_id copy) slot_receipt r (c1, r1)" using runs_delivered[OF Cons.prems] one by metis
  then have first: "runs_slots {dc_id copy} (\<lambda>j sl. if j = dc_id copy then slot_receipt sl else ([], sl)) r (c1, r1)"
    by (rule runs_one) simp
  then have "registry_ok r1" by (simp add: runs_slots_def)
  from Cons.IH[OF this] rest
  have second: "runs_slots (dc_id ` set copies) (\<lambda>j sl. if j \<in> dc_id ` set copies then slot_receipt sl else ([], sl)) r1 (c2, r2)" by simp
  have idem: "slot_receipt (snd (slot_receipt sl)) = ([], snd (slot_receipt sl))" for sl
    by (cases sl rule: slot_receipt.cases) auto
  have "runs_slots ({dc_id copy} \<union> dc_id ` set copies)
      (\<lambda>j sl. if j \<in> dc_id ` set (copy # copies) then slot_receipt sl else ([], sl)) r (c1 @ c2, r2)"
    by (rule runs_seq[OF first second]) (simp_all add: idem)
  then show ?case by (simp add: one rest)
qed

lemma close_all_row:
  assumes "registry_ok r" "rg_items r = row # rows"
  shows "close_row (qr_id row) VDelivered r =
    ([(qr_id row, VDelivered)], r\<lparr>rg_items := rows, rg_tombs := tomb_insert (qr_id row) (resurrectable VDelivered) (rg_tombs r)\<rparr>)"
  using assms by (simp add: close_row_def)

definition slot_close :: "slot_state \<Rightarrow> input_verdict list \<times> slot_state" where
  "slot_close sl = (if slot_is_item sl then slot_receipt sl else ([], sl))"

lemma slot_close_idem: "slot_close (snd (slot_close sl)) = ([], snd (slot_close sl))"
  by (cases sl) (auto simp: slot_close_def)

lemma runs_close_all:
  "registry_ok r \<Longrightarrow> close_all (rg_items r) (rg_tombs r) = (closed, t) \<Longrightarrow>
   runs_slots {} (\<lambda>j. slot_close) r (closed, r\<lparr>rg_items := [], rg_tombs := t\<rparr>)"
proof (induction "rg_items r" arbitrary: r closed t)
  case Nil
  have same: "r\<lparr>rg_items := [], rg_tombs := t\<rparr> = r" "closed = []" using Nil by (cases r; auto)+
  show ?case unfolding same by (rule runs_none) (use Nil in \<open>auto simp: slot_of_def find_row_def slot_close_def split: option.splits\<close>)
next
  case (Cons row rows)
  have items: "rg_items r = row # rows" using Cons.hyps(2) by simp
  let ?r1 = "r\<lparr>rg_items := rows, rg_tombs := tomb_insert (qr_id row) (resurrectable VDelivered) (rg_tombs r)\<rparr>"
  obtain closed' where rest: "close_all (rg_items ?r1) (rg_tombs ?r1) = (closed', t)" "closed = (qr_id row, VDelivered) # closed'"
    using Cons.prems(2) by (auto simp: items split: prod.splits)
  have "find_row (qr_id row) r = Some row" by (simp add: find_row_def items)
  then have "runs_slot (qr_id row) slot_close r (close_row (qr_id row) VDelivered r)"
    by (rule runs_close[OF Cons.prems(1)]) (simp add: slot_of_def find_row_def items resurrectable_def slot_close_def)
  then have first: "runs_slots {qr_id row} (\<lambda>j sl. if j = qr_id row then slot_close sl else ([], sl)) r ([(qr_id row, VDelivered)], ?r1)"
    unfolding close_all_row[OF Cons.prems(1) items] by (rule runs_one) simp
  have "runs_slots {} (\<lambda>j. slot_close) ?r1 (closed', ?r1\<lparr>rg_items := [], rg_tombs := t\<rparr>)"
    by (rule Cons.hyps(1)) (use first rest in \<open>auto simp: runs_slots_def\<close>)
  then have second: "runs_slots {} (\<lambda>j. slot_close) ?r1 (closed', r\<lparr>rg_items := [], rg_tombs := t\<rparr>)" by simp
  have "runs_slots ({qr_id row} \<union> {}) (\<lambda>j. slot_close) r ([(qr_id row, VDelivered)] @ closed', r\<lparr>rg_items := [], rg_tombs := t\<rparr>)"
    by (rule runs_seq[OF first second]) (simp_all add: slot_close_idem)
  then have "runs_slots {qr_id row} (\<lambda>j. slot_close) r (closed, r\<lparr>rg_items := [], rg_tombs := t\<rparr>)"
    by (simp add: rest)
  moreover have "{qr_id row} \<union> known_ids r = known_ids r" by (auto simp: known_ids_def items)
  ultimately show ?case by (simp add: runs_slots_def)
qed


lemma runs_event:
  assumes ok: "registry_ok r"
  shows "runs_slots (event_ids ev) (\<lambda>j. slot_step j ev) r (reduce_event ev r)"
proof (cases ev)
  case (QiQueued i body)
  then show ?thesis using runs_one[OF runs_queued[OF ok]] by simp
next
  case (QiCancelRequested i)
  then show ?thesis using runs_one[OF runs_requested[OF ok]] by simp
next
  case (QiCancelAnswered i removed)
  then show ?thesis using runs_one[OF runs_answer[OF ok]] by simp
next
  case (QiCancelFailed i)
  then show ?thesis using runs_one[OF runs_answer[OF ok, of i False]] by simp
next
  case (QiHandedOver i sent)
  then show ?thesis using runs_one[OF runs_handed_over[OF ok]] by simp
next
  case (QiDelivered i)
  then show ?thesis using runs_one[OF runs_delivered[OF ok]] by simp
next
  case (QiDropped i cause)
  then show ?thesis using runs_one[OF runs_dropped[OF ok]] by simp
next
  case (QiAckUnavailable copies)
  obtain closed t where all: "close_all (rg_items r) (rg_tombs r) = (closed, t)" by fastforce
  let ?r1 = "r\<lparr>rg_ack_unavailable_seen := True, rg_items := [], rg_tombs := t\<rparr>"
  obtain c2 r2 where rest: "deliver_copies copies ?r1 = (c2, r2)" by fastforce
  have "runs_slots {} (\<lambda>j. slot_close) r (closed, r\<lparr>rg_items := [], rg_tombs := t\<rparr>)" by (rule runs_close_all[OF ok all])
  then have first: "runs_slots {} (\<lambda>j. slot_close) r (closed, ?r1)"
    by (simp add: runs_slots_def registry_ok_def known_ids_def slot_of_def find_row_def)
  then have "registry_ok ?r1" by (simp add: runs_slots_def)
  note second = runs_copies[OF this, of copies, unfolded rest]
  have both: "slot_step j ev sl =
      (fst (slot_close sl) @ fst (if j \<in> dc_id ` set copies then slot_receipt (snd (slot_close sl)) else ([], snd (slot_close sl))),
       snd (if j \<in> dc_id ` set copies then slot_receipt (snd (slot_close sl)) else ([], snd (slot_close sl))))" for j sl
    by (cases sl) (auto simp: QiAckUnavailable slot_close_def)
  have "runs_slots ({} \<union> dc_id ` set copies) (\<lambda>j. slot_step j ev) r (closed @ c2, r2)"
    by (rule runs_seq[OF first second _ _ both]) simp_all
  then show ?thesis by (simp add: QiAckUnavailable on_ack_unavailable_def all rest)
qed


definition registry_run :: "(u64 \<times> queued_input_event) list \<Rightarrow> (ustr \<times> input_verdict) list \<times> registry" where
  "registry_run evs = fold (\<lambda>(seq, ev) (closed, r). let (closed', r') = reduce seq ev r in (closed @ closed', r')) evs ([], registry_new)"

text \<open>The machine of one input over a whole sequence of events, with the verdicts it announces.\<close>

definition slot_run :: "ustr \<Rightarrow> queued_input_event list \<Rightarrow> input_verdict list \<times> slot_state" where
  "slot_run i evs = fold (\<lambda>ev (vs, sl). let (vs', sl') = slot_step i ev sl in (vs @ vs', sl')) evs ([], SlUnknown)"

lemma registry_ok_new: "registry_ok registry_new"
  by (simp add: registry_ok_def registry_new_def tombs_ok_def)

lemma stamp_same [simp]: "registry_ok (r\<lparr>rg_as_of_seq := s\<rparr>) = registry_ok r" "known_ids (r\<lparr>rg_as_of_seq := s\<rparr>) = known_ids r"
  "slot_of (r\<lparr>rg_as_of_seq := s\<rparr>) = slot_of r"
  by (auto simp: registry_ok_def known_ids_def slot_of_def find_row_def fun_eq_iff split: option.splits)

lemma registry_run_snoc: "registry_run (evs @ [(seq, ev)]) = (let (closed, r) = registry_run evs; (closed', r') = reduce seq ev r in (closed @ closed', r'))"
  by (simp add: registry_run_def split: prod.splits)

lemma slot_run_snoc: "slot_run i (evs @ [ev]) = (let (vs, sl) = slot_run i evs; (vs', sl') = slot_step i ev sl in (vs @ vs', sl'))"
  by (simp add: slot_run_def split: prod.splits)

lemma registry_run_slots: "runs_slots (\<Union>ev \<in> snd ` set evs. event_ids ev) (\<lambda>j sl. slot_run j (map snd evs)) registry_new (registry_run evs)"
proof (induction evs rule: rev_induct)
  case Nil
  have "slot_of registry_new j = SlUnknown" for j by (simp add: slot_of_def registry_new_def find_row_def)
  then show ?case by (auto simp: registry_run_def slot_run_def intro!: runs_none registry_ok_new)
next
  case (snoc x evs)
  obtain seq ev where x: "x = (seq, ev)" by (cases x)
  obtain c1 r1 where run: "registry_run evs = (c1, r1)" by fastforce
  obtain c2 r2 where step: "reduce seq ev r1 = (c2, r2)" by fastforce
  have first: "runs_slots (\<Union>ev \<in> snd ` set evs. event_ids ev) (\<lambda>j sl. slot_run j (map snd evs)) registry_new (c1, r1)"
    using snoc run by simp
  then have "registry_ok r1" by (simp add: runs_slots_def)
  then have second: "runs_slots (event_ids ev) (\<lambda>j. slot_step j ev) r1 (c2, r2)"
    using runs_event[of "r1\<lparr>rg_as_of_seq := Some seq\<rparr>" ev] step by (simp add: reduce_def runs_slots_def)
  have fin: "finite (event_ids e)" for e by (cases e) simp_all
  have "runs_slots ((\<Union>ev \<in> snd ` set evs. event_ids ev) \<union> event_ids ev) (\<lambda>j sl. slot_run j (map snd (evs @ [x]))) registry_new (c1 @ c2, r2)"
    by (rule runs_seq[OF first second]) (auto simp: fin x slot_run_snoc Let_def split: prod.splits)
  then show ?case by (simp add: x registry_run_snoc run step Un_commute)
qed

section \<open>Properties\<close>

text \<open>C17. The pending inputs of an incarnation are one small machine per input. Whatever events come, in whatever order,
  no identifier is listed twice, none is both open and closed, and the closed ones are capped; and as long as the
  incarnation has seen no more identifiers than the cap, the state of every input and the verdicts announced for it are
  those its own machine gives on the events, untouched by every other input.\<close>
theorem queued_input_per_id:
  "registry_ok (snd (registry_run evs)) \<and>
   (card (\<Union>ev \<in> snd ` set evs. event_ids ev) \<le> TOMBSTONE_CAP \<longrightarrow>
     slot_of (snd (registry_run evs)) i = snd (slot_run i (map snd evs)) \<and>
     verdicts_of i (fst (registry_run evs)) = fst (slot_run i (map snd evs)))"
proof -
  have "known_ids registry_new = {}" by (simp add: known_ids_def registry_new_def)
  then show ?thesis using registry_run_slots[of evs] by (simp add: runs_slots_def)
qed


text \<open>A cancel that the vendor answers after it closed the input, and a receipt that comes twice.\<close>

definition demo_events :: "(u64 \<times> queued_input_event) list" where
  "demo_events = [(1, QiQueued [97] [104]), (2, QiQueued [98] [105]), (3, QiCancelRequested [97]), (4, QiDropped [97] DcUnknown),
     (5, QiCancelAnswered [97] True), (6, QiDelivered [98]), (7, QiDelivered [98])]"

theorem queued_input_per_id_witness:
  "registry_ok (snd (registry_run demo_events)) \<and>
   slot_of (snd (registry_run demo_events)) [97] = SlTomb False \<and> verdicts_of [97] (fst (registry_run demo_events)) = [VCancelled] \<and>
   slot_of (snd (registry_run demo_events)) [98] = SlTomb False \<and> verdicts_of [98] (fst (registry_run demo_events)) = [VDelivered]"
proof -
  have few: "card (\<Union>ev \<in> snd ` set demo_events. event_ids ev) \<le> TOMBSTONE_CAP"
    by (simp add: demo_events_def TOMBSTONE_CAP_def card_insert_if)
  show ?thesis
    using queued_input_per_id[of demo_events "[97]"] queued_input_per_id[of demo_events "[98]"] few
    by (simp add: demo_events_def slot_run_def)
qed

end
