(* ===== verification/Output_Core.thy ===== *)
theory Output_Core
  imports Turn_Facts Queued_Input
begin

text \<open>
  The output side of one agent, \<^verbatim>\<open>crates/engram-dashboard-agent/src/output_core.rs\<close>, with the event and status types of
  \<^verbatim>\<open>crates/engram-dashboard-agent/src/types.rs\<close>: the replay ring, the doors output enters through, the registry of
  pending inputs it feeds, the terminal transition and the subscriptions.

  Every function here is one lock section or one atomic access; what a call does outside the lock is a list of tasks
  of its thread, in the order the code has them. Subscribers are identifiers, and whether a send to one succeeds is an
  argument. The classifier of the backend is an argument. Notifications to the status sink and log lines have no
  effect on the state; they are kept as tasks only where the order with the tables matters.
\<close>

type_synonym sink_id = "128 word"

section \<open>Output events\<close>

datatype turn_outcome = ToCompleted | ToFailed "ustr option" | ToInterrupted | ToUnknown

datatype tool_category = TcRead | TcSearch | TcList | TcEdit | TcCommand | TcWeb | TcAgent | TcMcp | TcOther

datatype tool_outcome = TrCompleted | TrFailed | TrDeclined | TrRefused

datatype output_event = TerminalBytes "8 word list" | TextDelta ustr "ustr option" "ustr option"
  | ToolCall ustr ustr "ustr option" "ustr option" "ustr option" tool_category | ToolResult ustr tool_outcome
  | Usage u64 u64 "ustr option" | MessageDone "ustr option" "ustr option" | TurnEnd "ustr option" turn_outcome
  | ErrorLine ustr | Structured ustr ustr | QueuedInputLine queued_input_event

datatype agent_status = Running | Exiting | Exited "int option" | FailedWith ustr | Killed

fun status_is_live :: "agent_status \<Rightarrow> bool" where
  "status_is_live Running = True"
| "status_is_live Exiting = True"
| "status_is_live _ = False"

datatype terminal_reason = TrmExited "int option" | TrmKilled | TrmInterrupted | TrmStreamClosed | TrmCancelled | TrmError ustr

fun status_of_reason :: "terminal_reason \<Rightarrow> agent_status" where
  "status_of_reason (TrmExited code) = Exited code"
| "status_of_reason TrmKilled = Killed"
| "status_of_reason TrmInterrupted = Killed"
| "status_of_reason TrmStreamClosed = Exited None"
| "status_of_reason TrmCancelled = Killed"
| "status_of_reason (TrmError s) = FailedWith s"

definition opt_len :: "ustr option \<Rightarrow> nat" where
  "opt_len s = (case s of None \<Rightarrow> 0 | Some t \<Rightarrow> utf8_len t)"

fun list_event_cost :: "queued_input_event \<Rightarrow> nat" where
  "list_event_cost (QiQueued i body) = utf8_len i + utf8_len body"
| "list_event_cost (QiAckUnavailable copies) = sum_list (map (\<lambda>c. utf8_len (dc_id c) + utf8_len (dc_text c)) copies)"
| "list_event_cost (QiCancelRequested i) = utf8_len i"
| "list_event_cost (QiCancelAnswered i _) = utf8_len i"
| "list_event_cost (QiCancelFailed i) = utf8_len i"
| "list_event_cost (QiHandedOver i _) = utf8_len i"
| "list_event_cost (QiDelivered i) = utf8_len i"
| "list_event_cost (QiDropped i _) = utf8_len i"

fun estimate_cost_bytes :: "output_event \<Rightarrow> nat" where
  "estimate_cost_bytes (TerminalBytes v) = length v"
| "estimate_cost_bytes (TextDelta body turn_id message_id) = utf8_len body + opt_len turn_id + opt_len message_id"
| "estimate_cost_bytes (ToolCall name args_json i turn_id message_id _) =
     utf8_len name + utf8_len args_json + opt_len i + opt_len turn_id + opt_len message_id"
| "estimate_cost_bytes (ToolResult i _) = utf8_len i"
| "estimate_cost_bytes (Usage _ _ turn_id) = opt_len turn_id"
| "estimate_cost_bytes (MessageDone turn_id message_id) = opt_len turn_id + opt_len message_id"
| "estimate_cost_bytes (TurnEnd turn_id result) =
     opt_len turn_id + (case result of ToFailed detail \<Rightarrow> opt_len detail | _ \<Rightarrow> 0)"
| "estimate_cost_bytes (ErrorLine s) = utf8_len s"
| "estimate_cost_bytes (Structured kind json) = utf8_len kind + utf8_len json"
| "estimate_cost_bytes (QueuedInputLine ev) = list_event_cost ev"

section \<open>The replay ring\<close>

record stored_output =
  so_seq :: u64
  so_event :: output_event
  so_cost :: nat

definition REPLAY_MAX_BYTES :: nat where
  "REPLAY_MAX_BYTES = 2 * 1024 * 1024"

definition REPLAY_MAX_EVENTS :: nat where
  "REPLAY_MAX_EVENTS = 4096"

record ring =
  rn_items :: "stored_output list"
  rn_total_bytes :: nat
  rn_max_bytes :: nat
  rn_max_events :: nat

definition replay_ring_new :: ring where
  "replay_ring_new = \<lparr>rn_items = [], rn_total_bytes = 0, rn_max_bytes = REPLAY_MAX_BYTES, rn_max_events = REPLAY_MAX_EVENTS\<rparr>"

fun evict_loop :: "nat \<Rightarrow> nat \<Rightarrow> stored_output list \<Rightarrow> nat \<Rightarrow> stored_output list \<times> nat" where
  "evict_loop max_bytes max_events (oldest # next_oldest # items) total_bytes = (
     if max_bytes < total_bytes \<or> max_events < length (oldest # next_oldest # items)
     then evict_loop max_bytes max_events (next_oldest # items) (total_bytes - so_cost oldest)
     else (oldest # next_oldest # items, total_bytes))"
| "evict_loop max_bytes max_events items total_bytes = (items, total_bytes)"

definition ring_push :: "stored_output \<Rightarrow> ring \<Rightarrow> ring" where
  "ring_push item rn = (
     let (items, total_bytes) = evict_loop (rn_max_bytes rn) (rn_max_events rn) (rn_items rn @ [item]) (rn_total_bytes rn + so_cost item)
     in rn\<lparr>rn_items := items, rn_total_bytes := total_bytes\<rparr>)"

text \<open>\<^verbatim>\<open>terminal_tail\<close>: the loop walks the items from the newest; the parts are joined oldest first.\<close>

fun tail_loop :: "nat \<Rightarrow> nat \<Rightarrow> stored_output list \<Rightarrow> 8 word list list" where
  "tail_loop max_bytes seen [] = []"
| "tail_loop max_bytes seen (item # items) = (
     if max_bytes \<le> seen then []
     else case so_event item of
            TerminalBytes bytes \<Rightarrow>
              let n = min (length bytes) (max_bytes - seen)
              in drop (length bytes - n) bytes # tail_loop max_bytes (seen + n) items
          | _ \<Rightarrow> tail_loop max_bytes seen items)"

definition ring_terminal_tail :: "nat \<Rightarrow> ring \<Rightarrow> 8 word list" where
  "ring_terminal_tail max_bytes rn = concat (rev (tail_loop max_bytes 0 (rev (rn_items rn))))"

section \<open>The core\<close>

record output_core =
  oc_id :: peer_id
  oc_epoch :: u32
  oc_seq :: u64
  oc_status :: agent_status
  oc_finalized :: bool
  oc_subscribers :: "sink_id list"
  oc_replay :: ring
  oc_diagnostics :: ustr
  oc_registry :: registry
  oc_has_inputs :: bool
  oc_sealed :: bool

text \<open>\<open>queued\<close> says whether \<^verbatim>\<open>with_queued\<close> plugged in the table of pending inputs.\<close>

definition output_core_new :: "peer_id \<Rightarrow> u32 \<Rightarrow> bool \<Rightarrow> output_core" where
  "output_core_new i epoch queued = \<lparr>oc_id = i, oc_epoch = epoch, oc_seq = 0, oc_status = Running, oc_finalized = False,
     oc_subscribers = [], oc_replay = replay_ring_new, oc_diagnostics = [], oc_registry = registry_new, oc_has_inputs = queued,
     oc_sealed = False\<rparr>"

type_synonym line = "u64 \<times> output_event"

text \<open>A number is issued and the line pushed in one section of the replay lock.\<close>

definition push_line :: "output_event \<Rightarrow> output_core \<Rightarrow> line \<times> output_core" where
  "push_line ev oc = (
     let seq = oc_seq oc
     in ((seq, ev), oc\<lparr>oc_seq := seq + 1,
           oc_replay := ring_push \<lparr>so_seq = seq, so_event = ev, so_cost = estimate_cost_bytes ev\<rparr> (oc_replay oc)\<rparr>))"

fun push_lines :: "output_event list \<Rightarrow> output_core \<Rightarrow> line list \<times> output_core" where
  "push_lines [] oc = ([], oc)"
| "push_lines (ev # evs) oc = (let (l, oc1) = push_line ev oc; (ls, oc2) = push_lines evs oc1 in (l # ls, oc2))"

definition core_seed :: "output_event list \<Rightarrow> output_core \<Rightarrow> output_core" where
  "core_seed evs oc = snd (push_lines evs oc)"

text \<open>The lines one list event becomes: the copy of a receipt that cannot be told apart is filled from the registry
  before the reduction.\<close>

definition fill_copy :: "queued_input_event \<Rightarrow> registry \<Rightarrow> queued_input_event" where
  "fill_copy op r = (case op of QiAckUnavailable _ \<Rightarrow> QiAckUnavailable (open_copies r) | _ \<Rightarrow> op)"

fun push_list_events :: "queued_input_event list \<Rightarrow> output_core \<Rightarrow> line list \<times> output_core" where
  "push_list_events [] oc = ([], oc)"
| "push_list_events (op # ops) oc = (
     let op1 = fill_copy op (oc_registry oc);
         r1 = snd (reduce (oc_seq oc) op1 (oc_registry oc));
         (l, oc1) = push_line (QueuedInputLine op1) (oc\<lparr>oc_registry := r1\<rparr>);
         (ls, oc2) = push_list_events ops oc1
     in (l # ls, oc2))"

record list_step =
  ls_numbered :: "line list"
  ls_classify_at :: "nat option"
  ls_drained_at :: "u64 option"

definition rewritten :: "queued_input_event \<Rightarrow> output_core \<Rightarrow> queued_input_event list \<times> nat option" where
  "rewritten op oc = (case op of
     QiQueued i body \<Rightarrow>
       if oc_sealed oc then ([QiDropped i AgentEnded], None)
       else if rg_ack_unavailable_seen (oc_registry oc) then ([op, QiAckUnavailable []], Some 0)
       else ([op], Some 0)
   | _ \<Rightarrow> ([op], Some 0))"

definition record_list_event :: "queued_input_event \<Rightarrow> output_core \<Rightarrow> pending_inputs \<Rightarrow> list_step \<times> output_core \<times> pending_inputs" where
  "record_list_event op oc pt = (
     let was_empty = registry_is_empty (oc_registry oc);
         (events, classify_at) = rewritten op oc;
         (numbered, oc1) = push_list_events events oc;
         now_empty = registry_is_empty (oc_registry oc1);
         last_seq = fst (List.last numbered);
         pt1 = (if was_empty \<and> \<not> now_empty \<and> oc_has_inputs oc then inputs_set (oc_id oc) (oc_epoch oc) last_seq True pt else pt)
     in (\<lparr>ls_numbered = numbered, ls_classify_at = classify_at,
          ls_drained_at = (if \<not> was_empty \<and> now_empty then Some last_seq else None)\<rparr>, oc1, pt1))"

definition synthesize_ended_and_seal :: "output_core \<Rightarrow> line list \<times> output_core" where
  "synthesize_ended_and_seal oc = (
     let (numbered, oc1) = push_list_events (map (\<lambda>row. QiDropped (qr_id row) AgentEnded) (rg_items (oc_registry oc))) oc
     in (numbered, oc1\<lparr>oc_sealed := True\<rparr>))"

definition set_exiting :: "output_core \<Rightarrow> output_core" where
  "set_exiting oc = (if status_is_live (oc_status oc) then oc\<lparr>oc_status := Exiting\<rparr> else oc)"

definition classified_input_busy :: "output_core \<Rightarrow> pending_inputs \<Rightarrow> turn_table \<Rightarrow> bool" where
  "classified_input_busy oc pt tt \<longleftrightarrow>
     oc_has_inputs oc \<and> inputs_get (oc_id oc) (oc_epoch oc) pt = Some True \<or> is_in_turn (oc_id oc) (oc_epoch oc) tt"

definition DIAGNOSTIC_CAP_BYTES :: nat where
  "DIAGNOSTIC_CAP_BYTES = 8 * 1024"

text \<open>\<^verbatim>\<open>ceil_char_boundary\<close> followed by \<^verbatim>\<open>drain\<close>: whole characters go from the front until at least \<open>n\<close> bytes are gone.\<close>

fun drop_bytes_up :: "nat \<Rightarrow> ustr \<Rightarrow> ustr" where
  "drop_bytes_up n [] = []"
| "drop_bytes_up n (c # s) = (if n = 0 then c # s else drop_bytes_up (n - utf8_char_len c) s)"

definition push_diagnostic :: "ustr \<Rightarrow> output_core \<Rightarrow> output_core" where
  "push_diagnostic l oc = (
     let buf = oc_diagnostics oc @ l @ [10]
     in oc\<lparr>oc_diagnostics := (if DIAGNOSTIC_CAP_BYTES < utf8_len buf then drop_bytes_up (utf8_len buf - DIAGNOSTIC_CAP_BYTES) buf else buf)\<rparr>)"

section \<open>Subscriptions\<close>

datatype replay_kind = FromOldest | Truncated | Resumed

record subscribe_outcome =
  sb_kind :: replay_kind
  sb_sink :: sink_id
  sb_oldest_seq :: u64
  sb_latest_seq :: u64
  sb_replay_from :: u64
  sb_replayed :: nat

definition saturating_succ :: "u64 \<Rightarrow> u64" where
  "saturating_succ s = (if s = - 1 then s else s + 1)"

text \<open>The branch and the tail that is replayed; \<^verbatim>\<open>partition_point\<close> on the ascending numbers is \<open>dropWhile\<close>.\<close>

definition replay_tail :: "u64 option \<Rightarrow> bool \<Rightarrow> stored_output list \<Rightarrow> replay_kind \<times> stored_output list" where
  "replay_tail after_seq epoch_matches items = (
     if \<not> epoch_matches then (FromOldest, items)
     else case after_seq of
            None \<Rightarrow> (FromOldest, items)
          | Some s \<Rightarrow> (case items of
                [] \<Rightarrow> (Resumed, [])
              | oldest # _ \<Rightarrow>
                  if s < so_seq oldest then (Truncated, items)
                  else (Resumed, dropWhile (\<lambda>c. so_seq c \<le> s) items)))"

definition subscribe_from :: "sink_id \<Rightarrow> u64 option \<Rightarrow> bool \<Rightarrow> output_core \<Rightarrow> (subscribe_outcome \<times> line list) \<times> output_core" where
  "subscribe_from sink after_seq epoch_matches oc = (
     let items = rn_items (oc_replay oc);
         oldest = (case items of [] \<Rightarrow> 0 | c # _ \<Rightarrow> so_seq c);
         latest = (if items = [] then 0 else so_seq (List.last items));
         (kind, to_send) = replay_tail after_seq epoch_matches items;
         replay_from = (case to_send of
             c # _ \<Rightarrow> so_seq c
           | [] \<Rightarrow> if items = [] then oc_seq oc
                   else (case after_seq of Some s \<Rightarrow> saturating_succ s | None \<Rightarrow> saturating_succ latest))
     in ((\<lparr>sb_kind = kind, sb_sink = sink, sb_oldest_seq = oldest, sb_latest_seq = latest, sb_replay_from = replay_from,
           sb_replayed = length to_send\<rparr>, map (\<lambda>c. (so_seq c, so_event c)) to_send),
         oc\<lparr>oc_subscribers := oc_subscribers oc @ [sink]\<rparr>))"

definition unsubscribe :: "sink_id \<Rightarrow> output_core \<Rightarrow> output_core" where
  "unsubscribe sink oc = oc\<lparr>oc_subscribers := filter (\<lambda>k. k \<noteq> sink) (oc_subscribers oc)\<rparr>"

text \<open>\<^verbatim>\<open>subscribe\<close>: registration and the replay of the whole ring.\<close>

definition subscribe_all :: "sink_id \<Rightarrow> output_core \<Rightarrow> line list \<times> output_core" where
  "subscribe_all sink oc = (map (\<lambda>c. (so_seq c, so_event c)) (rn_items (oc_replay oc)), oc\<lparr>oc_subscribers := oc_subscribers oc @ [sink]\<rparr>)"

text \<open>\<^verbatim>\<open>snapshot\<close>: console bytes only.\<close>

definition core_snapshot :: "output_core \<Rightarrow> (u64 \<times> 8 word list) list" where
  "core_snapshot oc = List.map_filter (\<lambda>c. case so_event c of TerminalBytes bytes \<Rightarrow> Some (so_seq c, bytes) | _ \<Rightarrow> None) (rn_items (oc_replay oc))"

section \<open>Threads\<close>

text \<open>What a call does after its lock section, one access at a time.\<close>

datatype task = TObserve u64 turn_signal | TRecheck | TForgetTurn | TTurnEnded | TDrained u64 | TDrainBell
  | TFanOut "line list" | TSend "(sink_id \<times> line list) list" "sink_id list" | TReap "sink_id list"
  | TSeal | TStatus terminal_reason | TForgetInputs | TStatusChanged agent_status | THook terminal_reason | TExiting

definition signal_tasks :: "(output_event \<Rightarrow> turn_signal option) \<Rightarrow> line \<Rightarrow> task list" where
  "signal_tasks classify l = (case classify (snd l) of
     None \<Rightarrow> []
   | Some sg \<Rightarrow> [TObserve (fst l) sg, TRecheck] @ (case sg of SigEnded _ \<Rightarrow> [TTurnEnded] | _ \<Rightarrow> []))"

definition list_step_tasks :: "(output_event \<Rightarrow> turn_signal option) \<Rightarrow> bool \<Rightarrow> output_core \<Rightarrow> list_step \<Rightarrow> task list" where
  "list_step_tasks classify observe_turn oc st =
     (case ls_classify_at st of Some n \<Rightarrow> if observe_turn then signal_tasks classify (ls_numbered st ! n) else [] | None \<Rightarrow> []) @
     (case ls_drained_at st of Some seq \<Rightarrow> if oc_has_inputs oc then [TDrained seq, TDrainBell] else [] | None \<Rightarrow> []) @
     [TFanOut (ls_numbered st)]"

definition finish_tasks :: "output_core \<Rightarrow> terminal_reason \<Rightarrow> task list" where
  "finish_tasks oc reason = [TSeal, TStatus reason, TForgetTurn] @ (if oc_has_inputs oc then [TForgetInputs] else []) @
     [TStatusChanged (status_of_reason reason), THook reason]"

datatype cancel_request = Recorded | AlreadyCancelling | NotListed

end
