(* ===== verification/Output_System.thy ===== *)
theory Output_System
  imports Output_Core
begin

text \<open>
  One output core among its threads: the pump and the injecting threads that emit, the thread that ends the agent, the
  subscribers, and the two tables it shares with every other agent. A step is one lock section or one atomic access;
  threads interleave between them.

  \<open>os_log\<close> (every line that stood in the ring), \<open>os_got\<close> (what was handed to a subscriber), \<open>os_from\<close> (the number a
  subscription was promised to start at), \<open>os_failed\<close> (subscribers a send to which failed) and \<open>os_left\<close> (subscribers
  that unsubscribed) are history.
\<close>

record output_sys =
  os_core :: output_core
  os_turns :: turn_table
  os_inputs :: pending_inputs
  os_threads :: "task list list"
  os_log :: "line list"
  os_got :: "(sink_id \<times> u64) list"
  os_from :: "(sink_id \<times> u64) list"
  os_failed :: "sink_id list"
  os_left :: "sink_id list"

section \<open>Calls\<close>

definition emit_list_event :: "(output_event \<Rightarrow> turn_signal option) \<Rightarrow> bool \<Rightarrow> queued_input_event \<Rightarrow> output_sys \<Rightarrow> output_sys" where
  "emit_list_event classify observe_turn op s = (
     let (st, oc, pt) = record_list_event op (os_core s) (os_inputs s)
     in s\<lparr>os_core := oc, os_inputs := pt, os_log := os_log s @ ls_numbered st,
          os_threads := os_threads s @ [list_step_tasks classify observe_turn (os_core s) st]\<rparr>)"

definition emit_inner :: "(output_event \<Rightarrow> turn_signal option) \<Rightarrow> bool \<Rightarrow> output_event \<Rightarrow> output_sys \<Rightarrow> output_sys" where
  "emit_inner classify observe_turn ev s = (case ev of
     QueuedInputLine op \<Rightarrow> emit_list_event classify observe_turn op s
   | _ \<Rightarrow>
       let (l, oc) = push_line ev (os_core s)
       in s\<lparr>os_core := oc, os_log := os_log s @ [l],
            os_threads := os_threads s @ [(if observe_turn then signal_tasks classify l else []) @ [TFanOut [l]]]\<rparr>)"

definition emit_batch :: "output_event list \<Rightarrow> output_sys \<Rightarrow> output_sys" where
  "emit_batch evs s = (
     let (ls, oc) = push_lines evs (os_core s)
     in s\<lparr>os_core := oc, os_log := os_log s @ ls, os_threads := os_threads s @ [[TFanOut ls]]\<rparr>)"

definition emit_cancel_request :: "(output_event \<Rightarrow> turn_signal option) \<Rightarrow> ustr \<Rightarrow> output_sys \<Rightarrow> cancel_request \<times> output_sys" where
  "emit_cancel_request classify i s = (case find_row i (oc_registry (os_core s)) of
     None \<Rightarrow> (NotListed, s)
   | Some row \<Rightarrow> (case qr_phase row of
         RowCancelling _ _ \<Rightarrow> (AlreadyCancelling, s)
       | RowQueued \<Rightarrow> (Recorded, emit_list_event classify True (QiCancelRequested i) s)))"

definition core_finish :: "terminal_reason \<Rightarrow> output_sys \<Rightarrow> output_sys" where
  "core_finish reason s = (
     if oc_finalized (os_core s) then s
     else s\<lparr>os_core := (os_core s)\<lparr>oc_finalized := True\<rparr>, os_threads := os_threads s @ [finish_tasks (os_core s) reason]\<rparr>)"

definition enter_exiting :: "output_sys \<Rightarrow> output_sys" where
  "enter_exiting s = (if oc_finalized (os_core s) then s else s\<lparr>os_threads := os_threads s @ [[TExiting]]\<rparr>)"

text \<open>A subscription holds the lock of the subscribers until its replay is sent, so no fan-out reads them in between. The
  answers of the sends of a replay are ignored by the code; a later send finds the subscriber gone.\<close>

definition sys_subscribe :: "sink_id \<Rightarrow> u64 option \<Rightarrow> bool \<Rightarrow> output_sys \<Rightarrow> output_sys" where
  "sys_subscribe sink after_seq epoch_matches s = (
     let ((result, sent), oc) = subscribe_from sink after_seq epoch_matches (os_core s)
     in s\<lparr>os_core := oc, os_got := os_got s @ map (\<lambda>l. (sink, fst l)) sent, os_from := os_from s @ [(sink, sb_replay_from result)]\<rparr>)"

definition sys_unsubscribe :: "sink_id \<Rightarrow> output_sys \<Rightarrow> output_sys" where
  "sys_unsubscribe sink s = s\<lparr>os_core := unsubscribe sink (os_core s), os_left := os_left s @ [sink]\<rparr>"

text \<open>One task of a thread: what it does, and the tasks it leaves in its place. \<open>ok\<close> is the answer of the subscriber.\<close>

fun run_task :: "instant \<Rightarrow> bool \<Rightarrow> task \<Rightarrow> output_sys \<Rightarrow> task list \<times> output_sys" where
  "run_task now ok (TObserve seq sg) s =
     ([], s\<lparr>os_turns := observe_at (oc_id (os_core s)) (oc_epoch (os_core s)) seq sg now (os_turns s)\<rparr>)"
| "run_task now ok TRecheck s = (if oc_finalized (os_core s) then [TForgetTurn] else [], s)"
| "run_task now ok TForgetTurn s = ([], s\<lparr>os_turns := turn_forget (oc_id (os_core s)) (oc_epoch (os_core s)) (os_turns s)\<rparr>)"
| "run_task now ok TTurnEnded s = ([], s)"
| "run_task now ok (TDrained seq) s =
     ([], s\<lparr>os_inputs := inputs_set (oc_id (os_core s)) (oc_epoch (os_core s)) seq False (os_inputs s)\<rparr>)"
| "run_task now ok TDrainBell s = ([], s)"
| "run_task now ok (TFanOut lines) s = (if lines = [] then [] else [TSend (map (\<lambda>k. (k, lines)) (oc_subscribers (os_core s))) []], s)"
| "run_task now ok (TSend [] dead) s = (if dead = [] then [] else [TReap dead], s)"
| "run_task now ok (TSend ((k, []) # work) dead) s = ([TSend work dead], s)"
| "run_task now ok (TSend ((k, l # ls) # work) dead) s = (
     if ok then ([TSend ((k, ls) # work) dead], s\<lparr>os_got := os_got s @ [(k, fst l)]\<rparr>)
     else ([TSend work (dead @ [k])], s\<lparr>os_failed := os_failed s @ [k]\<rparr>))"
| "run_task now ok (TReap dead) s =
     ([], s\<lparr>os_core := (os_core s)\<lparr>oc_subscribers := filter (\<lambda>k. k \<notin> set dead) (oc_subscribers (os_core s))\<rparr>\<rparr>)"
| "run_task now ok TSeal s = (
     let (ls, oc) = synthesize_ended_and_seal (os_core s)
     in ([TFanOut ls], s\<lparr>os_core := oc, os_log := os_log s @ ls\<rparr>))"
| "run_task now ok (TStatus reason) s = ([], s\<lparr>os_core := (os_core s)\<lparr>oc_status := status_of_reason reason\<rparr>\<rparr>)"
| "run_task now ok TForgetInputs s = ([], s\<lparr>os_inputs := inputs_forget (oc_id (os_core s)) (oc_epoch (os_core s)) (os_inputs s)\<rparr>)"
| "run_task now ok (TStatusChanged st) s = ([], s)"
| "run_task now ok (THook reason) s = ([], s)"
| "run_task now ok TExiting s =
     (if status_is_live (oc_status (os_core s)) then [TStatusChanged Exiting] else [], s\<lparr>os_core := set_exiting (os_core s)\<rparr>)"

definition run_thread :: "instant \<Rightarrow> bool \<Rightarrow> nat \<Rightarrow> output_sys \<Rightarrow> output_sys" where
  "run_thread now ok n s = (case os_threads s ! n of
     [] \<Rightarrow> s
   | t # ts \<Rightarrow> let (more_tasks, s1) = run_task now ok t s in s1\<lparr>os_threads := (os_threads s1)[n := more_tasks @ ts]\<rparr>)"

section \<open>The system\<close>

fun is_list_line :: "output_event \<Rightarrow> bool" where
  "is_list_line (QueuedInputLine _) = True"
| "is_list_line _ = False"

text \<open>What the rest of the program does to the shared tables: never under the mark of this incarnation, which is drawn
  fresh for it.\<close>

fun foreign_turn :: "peer_id \<Rightarrow> u32 \<Rightarrow> turn_op \<Rightarrow> bool" where
  "foreign_turn i epoch (TurnRegister j ep _) \<longleftrightarrow> (j, ep) \<noteq> (i, epoch)"
| "foreign_turn i epoch (TurnObserve j ep _ _ _) \<longleftrightarrow> (j, ep) \<noteq> (i, epoch)"
| "foreign_turn i epoch (TurnForget j ep) \<longleftrightarrow> (j, ep) \<noteq> (i, epoch)"

datatype inputs_op = InRegister peer_id u32 | InSet peer_id u32 u64 bool | InForget peer_id u32

fun inputs_do :: "inputs_op \<Rightarrow> pending_inputs \<Rightarrow> pending_inputs" where
  "inputs_do (InRegister j ep) pt = inputs_register j ep pt"
| "inputs_do (InSet j ep seq b) pt = inputs_set j ep seq b pt"
| "inputs_do (InForget j ep) pt = inputs_forget j ep pt"

fun foreign_inputs :: "peer_id \<Rightarrow> u32 \<Rightarrow> inputs_op \<Rightarrow> bool" where
  "foreign_inputs i epoch (InRegister j ep) \<longleftrightarrow> (j, ep) \<noteq> (i, epoch)"
| "foreign_inputs i epoch (InSet j ep _ _) \<longleftrightarrow> (j, ep) \<noteq> (i, epoch)"
| "foreign_inputs i epoch (InForget j ep) \<longleftrightarrow> (j, ep) \<noteq> (i, epoch)"

datatype core_op = OpEmit bool output_event | OpBatch "output_event list" | OpCancel ustr | OpFinish terminal_reason
  | OpExiting | OpSubscribe sink_id "u64 option" bool | OpUnsubscribe sink_id | OpThread instant bool nat
  | OpTurns turn_op | OpInputs inputs_op | OpDiagnostic ustr

fun core_do :: "(output_event \<Rightarrow> turn_signal option) \<Rightarrow> core_op \<Rightarrow> output_sys \<Rightarrow> output_sys" where
  "core_do classify (OpEmit observe_turn ev) s = emit_inner classify observe_turn ev s"
| "core_do classify (OpBatch evs) s = emit_batch evs s"
| "core_do classify (OpCancel i) s = snd (emit_cancel_request classify i s)"
| "core_do classify (OpFinish reason) s = core_finish reason s"
| "core_do classify OpExiting s = enter_exiting s"
| "core_do classify (OpSubscribe k after_seq epoch_matches) s = sys_subscribe k after_seq epoch_matches s"
| "core_do classify (OpUnsubscribe k) s = sys_unsubscribe k s"
| "core_do classify (OpThread now ok n) s = run_thread now ok n s"
| "core_do classify (OpTurns op) s = s\<lparr>os_turns := turn_do op (os_turns s)\<rparr>"
| "core_do classify (OpInputs op) s = s\<lparr>os_inputs := inputs_do op (os_inputs s)\<rparr>"
| "core_do classify (OpDiagnostic l) s = s\<lparr>os_core := push_diagnostic l (os_core s)\<rparr>"

fun core_pre :: "core_op \<Rightarrow> output_sys \<Rightarrow> bool" where
  "core_pre (OpBatch evs) s \<longleftrightarrow> list_all (\<lambda>ev. \<not> is_list_line ev) evs"
| "core_pre (OpSubscribe k _ _) s \<longleftrightarrow> k \<notin> fst ` set (os_from s)"
| "core_pre (OpThread _ _ n) s \<longleftrightarrow> n < length (os_threads s)"
| "core_pre (OpTurns op) s \<longleftrightarrow> foreign_turn (oc_id (os_core s)) (oc_epoch (os_core s)) op"
| "core_pre (OpInputs op) s \<longleftrightarrow> foreign_inputs (oc_id (os_core s)) (oc_epoch (os_core s)) op"
| "core_pre _ s \<longleftrightarrow> True"

text \<open>\<^verbatim>\<open>spawn_session\<close> of \<^verbatim>\<open>manager.rs\<close> builds the core with the table of pending inputs, seeds its ring and registers the
  incarnation in both tables before anybody can see it.\<close>

definition core_start :: "peer_id \<Rightarrow> u32 \<Rightarrow> output_event list \<Rightarrow> instant \<Rightarrow> turn_table \<Rightarrow> pending_inputs \<Rightarrow> output_sys" where
  "core_start i epoch seeds now tt pt = (
     let oc = output_core_new i epoch True
     in \<lparr>os_core = core_seed seeds oc, os_turns = turn_register_at i epoch now tt, os_inputs = inputs_register i epoch pt,
         os_threads = [], os_log = fst (push_lines seeds oc), os_got = [], os_from = [], os_failed = [], os_left = []\<rparr>)"

inductive core_init :: "output_sys \<Rightarrow> bool" where
  "list_all (\<lambda>ev. \<not> is_list_line ev) seeds \<Longrightarrow> length seeds < 2 ^ 64 \<Longrightarrow> core_init (core_start i epoch seeds now tt pt)"

text \<open>The counter of output lines is 64 bits wide; a step that would wrap it is left out.\<close>

inductive core_step :: "(output_event \<Rightarrow> turn_signal option) \<Rightarrow> output_sys \<Rightarrow> output_sys \<Rightarrow> bool"
  for classify where
  "core_pre op s \<Longrightarrow> length (os_log (core_do classify op s)) < 2 ^ 64 \<Longrightarrow> core_step classify s (core_do classify op s)"

inductive_cases core_stepE: "core_step classify s s'"

section \<open>The ring holds the newest lines\<close>

definition stored :: "line \<Rightarrow> stored_output" where
  "stored l = \<lparr>so_seq = fst l, so_event = snd l, so_cost = estimate_cost_bytes (snd l)\<rparr>"

definition list_lines :: "line list \<Rightarrow> (u64 \<times> queued_input_event) list" where
  "list_lines ls = List.map_filter (\<lambda>l. case snd l of QueuedInputLine op \<Rightarrow> Some (fst l, op) | _ \<Rightarrow> None) ls"

definition replay_ring_ok :: "line list \<Rightarrow> ring \<Rightarrow> bool" where
  "replay_ring_ok ls rn \<longleftrightarrow> (\<exists>d. rn_items rn = map stored (drop d ls)) \<and> (ls \<noteq> [] \<longrightarrow> rn_items rn \<noteq> []) \<and>
     rn_total_bytes rn = sum_list (map so_cost (rn_items rn)) \<and>
     (length (rn_items rn) \<le> 1 \<or> rn_total_bytes rn \<le> REPLAY_MAX_BYTES \<and> length (rn_items rn) \<le> REPLAY_MAX_EVENTS) \<and>
     rn_max_bytes rn = REPLAY_MAX_BYTES \<and> rn_max_events rn = REPLAY_MAX_EVENTS"

definition log_ok :: "line list \<Rightarrow> output_core \<Rightarrow> bool" where
  "log_ok ls oc \<longleftrightarrow> oc_seq oc = of_nat (length ls) \<and> map fst ls = map of_nat [0..<length ls] \<and> replay_ring_ok ls (oc_replay oc) \<and>
     oc_registry oc = snd (registry_run (list_lines ls))"

lemma evict_loop_laws:
  "evict_loop mb me items total_bytes = (items', total') \<Longrightarrow> total_bytes = sum_list (map so_cost items) \<Longrightarrow>
   (\<exists>d. items' = drop d items) \<and> (items \<noteq> [] \<longrightarrow> items' \<noteq> []) \<and> total' = sum_list (map so_cost items') \<and>
   (length items' \<le> 1 \<or> total' \<le> mb \<and> length items' \<le> me)"
proof (induction mb me items total_bytes rule: evict_loop.induct)
  case (1 mb me a b items tb)
  show ?case
  proof (cases "mb < tb \<or> me < length (a # b # items)")
    case True
    then have "(\<exists>d. items' = drop d (b # items)) \<and> items' \<noteq> [] \<and> total' = sum_list (map so_cost items') \<and>
        (length items' \<le> 1 \<or> total' \<le> mb \<and> length items' \<le> me)" using 1 by auto
    moreover have "\<exists>d'. items' = drop d' (a # b # items)" if "items' = drop d (b # items)" for d
      using that by (intro exI[of _ "Suc d"]) simp
    ultimately show ?thesis by blast
  qed (use 1 in \<open>auto intro: exI[of _ 0]\<close>)
qed (auto intro: exI[of _ 0])

lemma ring_push_ok:
  assumes "replay_ring_ok ls rn"
  shows "replay_ring_ok (ls @ [l]) (ring_push (stored l) rn)"
proof -
  obtain d where d: "rn_items rn = map stored (drop d ls)" using assms by (auto simp: replay_ring_ok_def)
  have all: "rn_items rn @ [stored l] = map stored (drop (min d (length ls)) (ls @ [l]))"
    by (cases "d \<le> length ls") (simp_all add: d min_def)
  obtain items' total' where ev: "evict_loop (rn_max_bytes rn) (rn_max_events rn) (rn_items rn @ [stored l])
      (rn_total_bytes rn + so_cost (stored l)) = (items', total')" by fastforce
  have "(\<exists>d'. items' = drop d' (rn_items rn @ [stored l])) \<and> items' \<noteq> [] \<and> total' = sum_list (map so_cost items') \<and>
      (length items' \<le> 1 \<or> total' \<le> rn_max_bytes rn \<and> length items' \<le> rn_max_events rn)"
    using evict_loop_laws[OF ev] assms by (auto simp: replay_ring_ok_def)
  moreover have "\<exists>d''. items' = map stored (drop d'' (ls @ [l]))" if "items' = drop d' (rn_items rn @ [stored l])" for d'
    using that unfolding all by (metis drop_drop drop_map)
  ultimately show ?thesis using assms ev by (auto simp: replay_ring_ok_def ring_push_def)
qed


lemma list_lines_simps [simp]:
  "list_lines [] = []" "list_lines (xs @ ys) = list_lines xs @ list_lines ys"
  "list_lines [(q, QueuedInputLine op)] = [(q, op)]" "\<not> is_list_line ev \<Longrightarrow> list_lines [(q, ev)] = []"
  by (auto simp: list_lines_def List.map_filter_def split: output_event.splits)

definition quiet_core :: "output_core \<Rightarrow> output_core \<Rightarrow> bool" where
  "quiet_core oc oc' \<longleftrightarrow> oc_id oc' = oc_id oc \<and> oc_epoch oc' = oc_epoch oc \<and> oc_status oc' = oc_status oc \<and>
     oc_finalized oc' = oc_finalized oc \<and> oc_subscribers oc' = oc_subscribers oc \<and> oc_has_inputs oc' = oc_has_inputs oc"

lemma quiet_core_refl [simp]: "quiet_core oc oc"
  by (simp add: quiet_core_def)

lemma push_line_laws:
  assumes "push_line ev oc = (l, oc')" "log_ok ls oc" "\<not> is_list_line ev"
  shows "log_ok (ls @ [l]) oc'" "quiet_core oc oc'" "oc_sealed oc' = oc_sealed oc" "oc_registry oc' = oc_registry oc" "fst l = oc_seq oc" "snd l = ev"
  using assms ring_push_ok[of ls "oc_replay oc" l]
  by (auto simp: push_line_def Let_def log_ok_def quiet_core_def stored_def)

lemma push_lines_laws:
  "push_lines evs oc = (ls', oc') \<Longrightarrow> log_ok ls oc \<Longrightarrow> list_all (\<lambda>ev. \<not> is_list_line ev) evs \<Longrightarrow>
   log_ok (ls @ ls') oc' \<and> quiet_core oc oc' \<and> oc_sealed oc' = oc_sealed oc \<and> oc_registry oc' = oc_registry oc"
proof (induction evs arbitrary: oc oc' ls ls')
  case (Cons ev evs)
  obtain l oc1 where one: "push_line ev oc = (l, oc1)" by fastforce
  obtain ls2 oc2 where rest: "push_lines evs oc1 = (ls2, oc2)" by fastforce
  note step = push_line_laws[OF one Cons.prems(2)]
  have "log_ok ((ls @ [l]) @ ls2) oc2 \<and> quiet_core oc1 oc2 \<and> oc_sealed oc2 = oc_sealed oc1 \<and> oc_registry oc2 = oc_registry oc1"
    using Cons.prems step by (intro Cons.IH[OF rest]) auto
  then show ?case using Cons.prems step by (auto simp: one rest quiet_core_def)
qed simp

lemma push_list_laws:
  "push_list_events ops oc = (ls', oc') \<Longrightarrow> log_ok ls oc \<Longrightarrow>
   log_ok (ls @ ls') oc' \<and> quiet_core oc oc' \<and> oc_sealed oc' = oc_sealed oc \<and> length ls' = length ops \<and>
   (\<forall>l \<in> set ls'. is_list_line (snd l))"
proof (induction ops arbitrary: oc oc' ls ls')
  case (Cons op ops)
  let ?op = "fill_copy op (oc_registry oc)"
  let ?r = "snd (reduce (oc_seq oc) ?op (oc_registry oc))"
  obtain l oc1 where one: "push_line (QueuedInputLine ?op) (oc\<lparr>oc_registry := ?r\<rparr>) = (l, oc1)" by fastforce
  obtain ls2 oc2 where rest: "push_list_events ops oc1 = (ls2, oc2)" by fastforce
  have l: "l = (oc_seq oc, QueuedInputLine ?op)" using one by (auto simp: push_line_def Let_def)
  have "log_ok (ls @ [l]) oc1"
    using Cons.prems(2) one ring_push_ok[of ls "oc_replay oc" l]
    by (auto simp: l push_line_def Let_def log_ok_def stored_def registry_run_snoc split: prod.splits)
  moreover have "quiet_core oc oc1" "oc_sealed oc1 = oc_sealed oc" using one by (auto simp: push_line_def Let_def quiet_core_def)
  ultimately show ?case using Cons.IH[OF rest, of "ls @ [l]"] Cons.prems by (auto simp: Let_def one rest l quiet_core_def)
qed simp

lemma push_list_quiet: "push_list_events ops oc = (ls, oc') \<Longrightarrow> quiet_core oc oc'"
proof (induction ops arbitrary: oc oc' ls)
  case (Cons op ops)
  let ?op = "fill_copy op (oc_registry oc)"
  obtain l oc1 where one: "push_line (QueuedInputLine ?op) (oc\<lparr>oc_registry := snd (reduce (oc_seq oc) ?op (oc_registry oc))\<rparr>) = (l, oc1)" by fastforce
  obtain ls2 oc2 where rest: "push_list_events ops oc1 = (ls2, oc2)" by fastforce
  have "quiet_core oc oc1" using one by (auto simp: push_line_def Let_def quiet_core_def)
  then show ?case using Cons.IH[OF rest] Cons.prems by (auto simp: Let_def one rest quiet_core_def)
qed simp

lemma log_ok_other:
  "log_ok ls oc \<Longrightarrow> oc_seq oc' = oc_seq oc \<Longrightarrow> oc_replay oc' = oc_replay oc \<Longrightarrow> oc_registry oc' = oc_registry oc \<Longrightarrow> log_ok ls oc'"
  by (simp add: log_ok_def)

lemma record_list_laws:
  assumes "record_list_event op oc pt = (st, oc', pt')" "log_ok ls oc"
  shows "log_ok (ls @ ls_numbered st) oc'" "quiet_core oc oc'" "oc_sealed oc' = oc_sealed oc" "ls_numbered st \<noteq> []"
proof -
  obtain events at0 where rw: "rewritten op oc = (events, at0)" by fastforce
  obtain numbered oc1 where push: "push_list_events events oc = (numbered, oc1)" by fastforce
  have "events \<noteq> []" using rw by (auto simp: rewritten_def split: queued_input_event.splits if_splits)
  then show "log_ok (ls @ ls_numbered st) oc'" "quiet_core oc oc'" "oc_sealed oc' = oc_sealed oc" "ls_numbered st \<noteq> []"
    using assms(1) push_list_laws[OF push assms(2)] by (auto simp: record_list_event_def rw push Let_def)
qed

lemma seal_laws:
  assumes "synthesize_ended_and_seal oc = (ls', oc')" "log_ok ls oc"
  shows "log_ok (ls @ ls') oc'" "quiet_core oc oc'" "oc_sealed oc'"
proof -
  obtain oc1 where push: "push_list_events (map (\<lambda>row. QiDropped (qr_id row) AgentEnded) (rg_items (oc_registry oc))) oc = (ls', oc1)" "oc' = oc1\<lparr>oc_sealed := True\<rparr>"
    using assms(1) by (auto simp: synthesize_ended_and_seal_def split: prod.splits)
  show "log_ok (ls @ ls') oc'" "quiet_core oc oc'" "oc_sealed oc'"
    using push_list_laws[OF push(1) assms(2)] by (auto simp: push(2) quiet_core_def intro: log_ok_other)
qed


section \<open>Open inputs at the end\<close>

lemma reduce_keeps_empty:
  assumes "rg_items r = []" "\<And>i body. ev \<noteq> QiQueued i body"
  shows "rg_items (snd (reduce q ev r)) = []"
proof -
  have del: "rg_items (snd (on_delivered i r)) = []" if "rg_items r = []" for i r
    using that by (auto simp: on_delivered_def find_row_def split: option.splits bool.splits)
  have copies: "rg_items (snd (deliver_copies cs r)) = []" if "rg_items r = []" for cs r
    using that by (induction cs arbitrary: r) (auto simp: del split: prod.splits, metis del snd_conv)
  show ?thesis
  proof (cases ev)
    case (QiAckUnavailable cs)
    then show ?thesis using assms(1) by (simp add: reduce_def on_ack_unavailable_def copies split_def)
  qed (use assms in \<open>auto simp: reduce_def del on_cancel_requested_def on_removed_def on_not_removed_def on_handed_over_def
      on_dropped_def find_row_def split: option.splits\<close>)
qed

lemma drop_open_item:
  assumes "rg_items r = row # rows"
  shows "rg_items (snd (reduce q (QiDropped (qr_id row) AgentEnded) r)) = rows"
  using assms by (cases "qr_phase row") (auto simp: reduce_def on_dropped_def find_row_def close_row_def split: cancel_answer.splits bool.splits)

lemma drop_all_items:
  "rg_items (oc_registry oc) = rows \<Longrightarrow> push_list_events (map (\<lambda>row. QiDropped (qr_id row) AgentEnded) rows) oc = (ls, oc') \<Longrightarrow>
   rg_items (oc_registry oc') = []"
proof (induction rows arbitrary: oc ls)
  case (Cons row rows)
  let ?op = "QiDropped (qr_id row) AgentEnded"
  let ?r = "snd (reduce (oc_seq oc) ?op (oc_registry oc))"
  obtain l oc1 where one: "push_line (QueuedInputLine ?op) (oc\<lparr>oc_registry := ?r\<rparr>) = (l, oc1)" by fastforce
  have "oc_registry oc1 = ?r" using one by (auto simp: push_line_def Let_def)
  then have "rg_items (oc_registry oc1) = rows" using drop_open_item[OF Cons.prems(1)] by simp
  then show ?case using Cons.IH Cons.prems(2) one by (auto simp: Let_def fill_copy_def split: prod.splits)
qed simp

lemma push_keeps_empty:
  "rg_items (oc_registry oc) = [] \<Longrightarrow> (\<forall>op \<in> set ops. \<forall>i body. op \<noteq> QiQueued i body) \<Longrightarrow> push_list_events ops oc = (ls, oc') \<Longrightarrow>
   rg_items (oc_registry oc') = []"
proof (induction ops arbitrary: oc ls)
  case (Cons op ops)
  let ?op = "fill_copy op (oc_registry oc)"
  let ?r = "snd (reduce (oc_seq oc) ?op (oc_registry oc))"
  obtain l oc1 where one: "push_line (QueuedInputLine ?op) (oc\<lparr>oc_registry := ?r\<rparr>) = (l, oc1)" by fastforce
  have "?op \<noteq> QiQueued i body" for i body using Cons.prems(2) by (auto simp: fill_copy_def split: queued_input_event.splits)
  then have "rg_items ?r = []" using reduce_keeps_empty[OF Cons.prems(1)] by blast
  moreover have "oc_registry oc1 = ?r" using one by (auto simp: push_line_def Let_def)
  moreover obtain ls2 where "push_list_events ops oc1 = (ls2, oc')"
    using Cons.prems(3) by (auto simp: Let_def one split: prod.splits)
  ultimately show ?case using Cons.IH[of oc1 ls2] Cons.prems(2) by simp
qed simp

lemma sealed_stays_empty:
  assumes "record_list_event op oc pt = (st, oc', pt')" "oc_sealed oc" "rg_items (oc_registry oc) = []"
  shows "rg_items (oc_registry oc') = []" "pt' = pt"
proof -
  obtain events at0 where rw: "rewritten op oc = (events, at0)" by fastforce
  obtain numbered oc1 where push: "push_list_events events oc = (numbered, oc1)" by fastforce
  have "\<forall>op \<in> set events. \<forall>i body. op \<noteq> QiQueued i body"
    using rw assms(2) by (auto simp: rewritten_def split: queued_input_event.splits)
  then have "rg_items (oc_registry oc1) = []" using push_keeps_empty[OF assms(3) _ push] by blast
  then show "rg_items (oc_registry oc') = []" "pt' = pt"
    using assms by (auto simp: record_list_event_def rw push Let_def registry_is_empty_def)
qed


section \<open>Threads and tables\<close>

definition pend :: "output_sys \<Rightarrow> task set" where
  "pend s = (\<Union>ts \<in> set (os_threads s). set ts)"

text \<open>Every signal a thread has yet to apply is followed by the check whether the agent has ended.\<close>

fun checked :: "task list \<Rightarrow> bool" where
  "checked [] = True"
| "checked (TObserve _ _ # ts) = (TRecheck \<in> set ts \<and> checked ts)"
| "checked (_ # ts) = checked ts"

lemma checked_append: "checked ts \<Longrightarrow> checked us \<Longrightarrow> checked (ts @ us)"
  by (induction ts rule: checked.induct) auto

lemma checked_tasks [simp]:
  "checked (signal_tasks classify l)" "checked (list_step_tasks classify b oc st)" "checked (finish_tasks oc reason)"
proof -
  show sig: "checked (signal_tasks classify l)" for l
    by (auto simp: signal_tasks_def split: option.splits turn_signal.splits)
  show "checked (list_step_tasks classify b oc st)"
    by (auto simp: list_step_tasks_def sig split: option.splits intro!: checked_append)
  show "checked (finish_tasks oc reason)" by (simp add: finish_tasks_def)
qed

lemma run_task_frame:
  "run_task now ok t s = (more_tasks, s1) \<Longrightarrow> os_threads s1 = os_threads s \<and> os_from s1 = os_from s \<and> checked more_tasks"
  by (cases "(now, ok, t, s)" rule: run_task.cases) (auto split: prod.splits if_splits)

text \<open>The threads after one of them has run a task.\<close>

lemma run_thread_cases:
  assumes "n < length (os_threads s)"
  obtains (idle) "run_thread now ok n s = s"
  | (task) t ts more_tasks s1 where "os_threads s ! n = t # ts" "run_task now ok t s = (more_tasks, s1)"
      "run_thread now ok n s = s1\<lparr>os_threads := (os_threads s)[n := more_tasks @ ts]\<rparr>"
proof (cases "os_threads s ! n")
  case Nil
  then show ?thesis by (simp add: run_thread_def idle)
next
  case (Cons t ts)
  obtain more_tasks s1 where run: "run_task now ok t s = (more_tasks, s1)" by fastforce
  show ?thesis using task[OF Cons run] run_task_frame[OF run] by (simp add: run_thread_def Cons run)
qed

lemma pend_thread:
  assumes "n < length (os_threads s)" "os_threads s ! n = t # ts"
  shows "pend s = insert t (set ts \<union> (\<Union>m \<in> {..<length (os_threads s)} - {n}. set (os_threads s ! m)))"
    and "pend (s1\<lparr>os_threads := (os_threads s)[n := us]\<rparr>) = set us \<union> (\<Union>m \<in> {..<length (os_threads s)} - {n}. set (os_threads s ! m))"
proof -
  have split: "(\<Union>ts \<in> set xs. set ts) = set (xs ! n) \<union> (\<Union>m \<in> {..<length xs} - {n}. set (xs ! m))" if "n < length xs" for xs :: "task list list"
    using that by (auto simp: set_conv_nth)
  show "pend s = insert t (set ts \<union> (\<Union>m \<in> {..<length (os_threads s)} - {n}. set (os_threads s ! m)))"
    using assms split[of "os_threads s"] by (auto simp: pend_def)
  show "pend (s1\<lparr>os_threads := (os_threads s)[n := us]\<rparr>) = set us \<union> (\<Union>m \<in> {..<length (os_threads s)} - {n}. set (os_threads s ! m))"
    using assms split[of "(os_threads s)[n := us]"] by (auto simp: pend_def)
qed

lemma pend_after:
  assumes "n < length (os_threads s)" "os_threads s ! n = t # ts"
  shows "x \<in> pend s \<Longrightarrow> x = t \<or> x \<in> pend (s1\<lparr>os_threads := (os_threads s)[n := us @ ts]\<rparr>)"
    and "x \<in> pend (s1\<lparr>os_threads := (os_threads s)[n := us @ ts]\<rparr>) \<Longrightarrow> x \<in> set us \<or> x \<in> pend s"
    and "set us \<subseteq> pend (s1\<lparr>os_threads := (os_threads s)[n := us @ ts]\<rparr>)"
    and "set ts \<subseteq> pend (s1\<lparr>os_threads := (os_threads s)[n := us @ ts]\<rparr>)"
    and "t \<in> pend s"
  unfolding pend_thread(1)[OF assms] pend_thread(2)[OF assms] by auto

lemma pend_more [simp]: "pend (s\<lparr>os_threads := os_threads s @ [ts]\<rparr>) = pend s \<union> set ts"
  by (auto simp: pend_def)

lemma pend_same: "os_threads s' = os_threads s \<Longrightarrow> pend s' = pend s"
  by (simp add: pend_def)

lemma pend_grow: "os_threads s' = os_threads s @ [ts] \<Longrightarrow> pend s' = pend s \<union> set ts"
  by (auto simp: pend_def)

section \<open>Tables\<close>

lemma map_of_update_if: "map_of (AList.update k v al) j = (if j = k then Some v else map_of al j)"
  by (simp add: update_conv')

lemma map_of_delete_if: "map_of (AList.delete k al) j = (if j = k then None else map_of al j)"
  by (simp add: delete_conv')

lemmas table_ifs = map_of_update_if map_of_delete_if

text \<open>The entry of this incarnation in the table of pending inputs.\<close>

definition entry_of :: "peer_id \<Rightarrow> u32 \<Rightarrow> pending_inputs \<Rightarrow> pending_entry option" where
  "entry_of i epoch pt = (case map_of pt i of None \<Rightarrow> None | Some e \<Rightarrow> if pe_epoch e = epoch then Some e else None)"

lemma inputs_get_entry: "inputs_get i epoch pt = map_option pe_pending (entry_of i epoch pt)"
  by (simp add: inputs_get_def entry_of_def split: option.splits)

lemma turn_get_other:
  assumes "(j, ep) \<noteq> (i, epoch)"
  shows "turn_get i epoch (turn_register_at j ep seen tt) \<in> {None, turn_get i epoch tt}"
    "turn_get i epoch (observe_at j ep seq sg seen tt) \<in> {None, turn_get i epoch tt}"
    "turn_get i epoch (turn_forget j ep tt) \<in> {None, turn_get i epoch tt}"
proof -
  show "turn_get i epoch (turn_register_at j ep seen tt) \<in> {None, turn_get i epoch tt}"
    using assms by (cases "j = i") (simp_all add: turn_get_def turn_register_at_def table_ifs turn_entry_fresh_def)
  show "turn_get i epoch (observe_at j ep seq sg seen tt) \<in> {None, turn_get i epoch tt}"
    using assms by (cases "map_of tt j"; cases "j = i") (simp_all add: turn_get_def observe_at_def table_ifs turn_entry_fresh_def)
  show "turn_get i epoch (turn_forget j ep tt) \<in> {None, turn_get i epoch tt}"
    using assms by (cases "map_of tt j"; cases "j = i") (simp_all add: turn_get_def turn_forget_def table_ifs)
qed

lemma turn_foreign: "foreign_turn i epoch op \<Longrightarrow> turn_get i epoch (turn_do op tt) \<in> {None, turn_get i epoch tt}"
  by (cases op) (use turn_get_other in auto)

lemma entry_of_other:
  assumes "(j, ep) \<noteq> (i, epoch)"
  shows "entry_of i epoch (inputs_register j ep pt) \<in> {None, entry_of i epoch pt}"
    "entry_of i epoch (inputs_set j ep seq b pt) = entry_of i epoch pt"
    "entry_of i epoch (inputs_forget j ep pt) \<in> {None, entry_of i epoch pt}"
proof -
  show "entry_of i epoch (inputs_register j ep pt) \<in> {None, entry_of i epoch pt}"
    using assms by (cases "j = i") (simp_all add: entry_of_def inputs_register_def table_ifs)
  show "entry_of i epoch (inputs_set j ep seq b pt) = entry_of i epoch pt"
    using assms by (cases "map_of pt j"; cases "j = i") (simp_all add: entry_of_def inputs_set_def table_ifs)
  show "entry_of i epoch (inputs_forget j ep pt) \<in> {None, entry_of i epoch pt}"
    using assms by (cases "map_of pt j"; cases "j = i") (simp_all add: entry_of_def inputs_forget_def table_ifs)
qed

lemma inputs_foreign: "foreign_inputs i epoch op \<Longrightarrow> entry_of i epoch (inputs_do op pt) \<in> {None, entry_of i epoch pt}"
  by (cases op) (use entry_of_other in auto)

lemma entry_of_set: "entry_of i epoch (inputs_set i epoch seq b pt) = (case entry_of i epoch pt of
     None \<Rightarrow> None
   | Some e \<Rightarrow> Some (if seq < pe_last_seq e then e else e\<lparr>pe_pending := b, pe_last_seq := seq\<rparr>))"
  by (cases "map_of pt i") (simp_all add: entry_of_def inputs_set_def table_ifs)

lemma entry_of_register: "entry_of i epoch (inputs_register i epoch pt) = Some \<lparr>pe_epoch = epoch, pe_pending = False, pe_last_seq = 0\<rparr>"
  by (simp add: entry_of_def inputs_register_def table_ifs)

lemma forget_own [simp]: "turn_get i epoch (turn_forget i epoch tt) = None" "entry_of i epoch (inputs_forget i epoch pt) = None"
  by (cases "map_of tt i"; simp add: turn_get_def turn_forget_def table_ifs)
    (cases "map_of pt i"; simp add: entry_of_def inputs_forget_def table_ifs)

lemma status_terminal [simp]: "\<not> status_is_live (status_of_reason reason)"
  by (cases reason) auto

end
