(* ===== verification/Output_Props.thy ===== *)
theory Output_Props
  imports Output_System
begin

text \<open>
  What every reachable state of an output core keeps: the ring is the newest part of all lines, the flag of pending
  inputs follows the registry, an ended incarnation leaves nothing in the shared tables, and a subscriber is owed or
  has got every line from the number it was promised.
\<close>

section \<open>What an emission does\<close>

text \<open>The flag of pending inputs across an emission: raised under the lock when the registry fills, and left to a task
  that carries the number of the line when it empties.\<close>

definition flag_step :: "output_sys \<Rightarrow> line list \<Rightarrow> task list \<Rightarrow> output_sys \<Rightarrow> bool" where
  "flag_step s ls ts s' \<longleftrightarrow> (
     let was_empty = rg_items (oc_registry (os_core s)) = []; now_empty = rg_items (oc_registry (os_core s')) = [];
         seq = fst (List.last ls)
     in if was_empty \<and> \<not> now_empty
        then ls \<noteq> [] \<and> \<not> oc_sealed (os_core s) \<and> (\<forall>q. TDrained q \<notin> set ts) \<and>
             os_inputs s' = inputs_set (oc_id (os_core s)) (oc_epoch (os_core s)) seq True (os_inputs s)
        else if \<not> was_empty \<and> now_empty
        then ls \<noteq> [] \<and> os_inputs s' = os_inputs s \<and> (\<forall>q. TDrained q \<in> set ts \<longleftrightarrow> q = seq)
        else os_inputs s' = os_inputs s \<and> (\<forall>q. TDrained q \<notin> set ts))"

definition emission :: "output_sys \<Rightarrow> line list \<Rightarrow> task list \<Rightarrow> output_sys \<Rightarrow> bool" where
  "emission s ls ts s' \<longleftrightarrow>
     quiet_core (os_core s) (os_core s') \<and> oc_sealed (os_core s') = oc_sealed (os_core s) \<and> os_turns s' = os_turns s \<and>
     os_got s' = os_got s \<and> os_from s' = os_from s \<and> os_failed s' = os_failed s \<and> os_left s' = os_left s \<and>
     os_log s' = os_log s @ ls \<and> log_ok (os_log s @ ls) (os_core s') \<and> os_threads s' = os_threads s @ [ts] \<and>
     TFanOut ls \<in> set ts \<and> checked ts \<and> (\<forall>w d. TSend w d \<notin> set ts) \<and> (\<forall>d. TReap d \<notin> set ts) \<and> TSeal \<notin> set ts \<and> flag_step s ls ts s'"

fun is_signal_task :: "task \<Rightarrow> bool" where
  "is_signal_task (TObserve _ _) = True"
| "is_signal_task TRecheck = True"
| "is_signal_task TTurnEnded = True"
| "is_signal_task _ = False"

lemma signal_tasks_kind: "x \<in> set (signal_tasks classify l) \<Longrightarrow> is_signal_task x"
  by (auto simp: signal_tasks_def split: option.splits turn_signal.splits)

lemma emission_plain:
  assumes "log_ok (os_log s @ ls) oc" "quiet_core (os_core s) oc" "oc_sealed oc = oc_sealed (os_core s)" "oc_registry oc = oc_registry (os_core s)"
    and "list_all is_signal_task ts" "checked ts"
  shows "emission s ls (ts @ [TFanOut ls]) (s\<lparr>os_core := oc, os_log := os_log s @ ls, os_threads := os_threads s @ [ts @ [TFanOut ls]]\<rparr>)"
  using assms by (auto simp: emission_def flag_step_def Let_def list_all_iff intro!: checked_append)

lemma list_tasks_kind:
  "x \<in> set (list_step_tasks classify b oc st) \<Longrightarrow>
     is_signal_task x \<or> x = TFanOut (ls_numbered st) \<or> x = TDrainBell \<or> oc_has_inputs oc \<and> (\<exists>q. ls_drained_at st = Some q \<and> x = TDrained q)"
  by (auto simp: list_step_tasks_def dest: signal_tasks_kind split: option.splits if_splits)

lemma list_tasks_members:
  "TFanOut (ls_numbered st) \<in> set (list_step_tasks classify b oc st)"
  "TSend w d \<notin> set (list_step_tasks classify b oc st)" "TReap d \<notin> set (list_step_tasks classify b oc st)"
  "TSeal \<notin> set (list_step_tasks classify b oc st)"
  "oc_has_inputs oc \<Longrightarrow> TDrained q \<in> set (list_step_tasks classify b oc st) \<longleftrightarrow> ls_drained_at st = Some q"
proof -
  show "oc_has_inputs oc \<Longrightarrow> TDrained q \<in> set (list_step_tasks classify b oc st) \<longleftrightarrow> ls_drained_at st = Some q"
    using list_tasks_kind[of "TDrained q" classify b oc st] by (auto simp: list_step_tasks_def)
qed (auto dest: list_tasks_kind, simp add: list_step_tasks_def)

lemma emission_list:
  assumes "log_ok (os_log s) (os_core s)" "oc_has_inputs (os_core s)"
    and "oc_sealed (os_core s) \<Longrightarrow> rg_items (oc_registry (os_core s)) = []"
    and "record_list_event op (os_core s) (os_inputs s) = (st, oc, pt)"
  shows "emission s (ls_numbered st) (list_step_tasks classify b (os_core s) st) (emit_list_event classify b op s)"
proof -
  let ?r = "oc_registry (os_core s)" let ?q = "fst (List.last (ls_numbered st))"
  note laws = record_list_laws[OF assms(4,1)]
  have drained: "ls_drained_at st = (if rg_items ?r \<noteq> [] \<and> rg_items (oc_registry oc) = [] then Some ?q else None)"
    and pt: "pt = (if rg_items ?r = [] \<and> rg_items (oc_registry oc) \<noteq> []
        then inputs_set (oc_id (os_core s)) (oc_epoch (os_core s)) ?q True (os_inputs s) else os_inputs s)"
    using assms(2,4) by (auto simp: record_list_event_def Let_def registry_is_empty_def split: prod.splits)
  have "\<not> oc_sealed (os_core s)" if "rg_items ?r = []" "rg_items (oc_registry oc) \<noteq> []"
    using sealed_stays_empty[OF assms(4)] that by blast
  then show ?thesis using laws assms(2)
    by (auto simp add: emission_def flag_step_def Let_def emit_list_event_def assms(4) drained pt list_tasks_members)
qed

lemma emit_emission:
  assumes "log_ok (os_log s) (os_core s)" "oc_has_inputs (os_core s)"
    and "oc_sealed (os_core s) \<Longrightarrow> rg_items (oc_registry (os_core s)) = []"
  shows "\<exists>ls ts. emission s ls ts (emit_inner classify b ev s)"
proof (cases "is_list_line ev")
  case True
  then obtain op where op: "ev = QueuedInputLine op" by (cases ev) auto
  obtain st oc pt where "record_list_event op (os_core s) (os_inputs s) = (st, oc, pt)" by (cases "record_list_event op (os_core s) (os_inputs s)") auto
  from emission_list[OF assms this, of classify b] show ?thesis by (auto simp: op emit_inner_def)
next
  case False
  obtain l oc where push: "push_line ev (os_core s) = (l, oc)" by fastforce
  note laws = push_line_laws[OF push assms(1) False]
  let ?ts = "if b then signal_tasks classify l else []"
  have "emit_inner classify b ev s = s\<lparr>os_core := oc, os_log := os_log s @ [l], os_threads := os_threads s @ [?ts @ [TFanOut [l]]]\<rparr>"
    using False push by (cases ev) (auto simp: emit_inner_def)
  moreover have "list_all is_signal_task ?ts" "checked ?ts" using signal_tasks_kind[of _ classify l] by (auto simp: list_all_iff)
  ultimately show ?thesis using emission_plain[OF laws(1-4)] by metis
qed

lemma batch_emission:
  assumes "log_ok (os_log s) (os_core s)" "list_all (\<lambda>ev. \<not> is_list_line ev) evs"
  shows "\<exists>ls ts. emission s ls ts (emit_batch evs s)"
proof -
  obtain ls oc where push: "push_lines evs (os_core s) = (ls, oc)" by fastforce
  show ?thesis using emission_plain[of s ls oc "[]"] push_lines_laws[OF push assms] by (auto simp: emit_batch_def push)
qed

text \<open>Every operation is an emission, a task of a thread, or one of the small ones.\<close>

lemma cancel_emission:
  assumes "log_ok (os_log s) (os_core s)" "oc_has_inputs (os_core s)"
    and "oc_sealed (os_core s) \<Longrightarrow> rg_items (oc_registry (os_core s)) = []"
  shows "snd (emit_cancel_request classify i s) = s \<or> (\<exists>ls ts. emission s ls ts (snd (emit_cancel_request classify i s)))"
proof -
  have "snd (emit_cancel_request classify i s) \<in> {s, emit_inner classify True (QueuedInputLine (QiCancelRequested i)) s}"
    by (simp add: emit_cancel_request_def emit_inner_def split: option.splits row_phase.splits)
  then show ?thesis using emit_emission[OF assms] by auto
qed


section \<open>The core and its threads\<close>

lemma sys_subscribe_frame [simp]:
  "os_threads (sys_subscribe k a m s) = os_threads s" "os_inputs (sys_subscribe k a m s) = os_inputs s"
  "os_turns (sys_subscribe k a m s) = os_turns s" "os_log (sys_subscribe k a m s) = os_log s"
  "os_failed (sys_subscribe k a m s) = os_failed s" "os_left (sys_subscribe k a m s) = os_left s"
  "os_core (sys_subscribe k a m s) = (os_core s)\<lparr>oc_subscribers := oc_subscribers (os_core s) @ [k]\<rparr>"
  by (simp_all add: sys_subscribe_def subscribe_from_def Let_def split_def)

definition core_ok :: "output_sys \<Rightarrow> bool" where
  "core_ok s \<longleftrightarrow> log_ok (os_log s) (os_core s) \<and> length (os_log s) < 2 ^ 64 \<and> oc_has_inputs (os_core s) \<and>
     (oc_sealed (os_core s) \<longrightarrow> rg_items (oc_registry (os_core s)) = []) \<and>
     (oc_sealed (os_core s) \<or> TSeal \<in> pend s \<longrightarrow> oc_finalized (os_core s)) \<and> list_all checked (os_threads s)"

lemma emission_cases:
  assumes "core_ok s" "core_pre op s"
  obtains (emission) ls ts where "emission s ls ts (core_do classify op s)"
  | (finish) reason where "op = OpFinish reason"
  | (exiting) "op = OpExiting"
  | (subscribe) k after_seq epoch_matches where "op = OpSubscribe k after_seq epoch_matches" "k \<notin> fst ` set (os_from s)"
  | (unsubscribe) k where "op = OpUnsubscribe k"
  | (thread) now ok n t ts us s1 where "op = OpThread now ok n" "n < length (os_threads s)" "os_threads s ! n = t # ts"
      "run_task now ok t s = (us, s1)" "core_do classify op s = s1\<lparr>os_threads := (os_threads s)[n := us @ ts]\<rparr>"
  | (turns) top where "op = OpTurns top" "foreign_turn (oc_id (os_core s)) (oc_epoch (os_core s)) top"
  | (inputs) iop where "op = OpInputs iop" "foreign_inputs (oc_id (os_core s)) (oc_epoch (os_core s)) iop"
  | (diagnostic) l where "op = OpDiagnostic l"
  | (same) "core_do classify op s = s"
proof -
  have ok: "log_ok (os_log s) (os_core s)" "oc_has_inputs (os_core s)" "oc_sealed (os_core s) \<Longrightarrow> rg_items (oc_registry (os_core s)) = []"
    using assms(1) by (auto simp: core_ok_def)
  show ?thesis
  proof (cases op)
    case (OpEmit b ev)
    then show ?thesis using emit_emission[OF ok, of classify b ev] emission by auto
  next
    case (OpBatch evs)
    then show ?thesis using batch_emission[OF ok(1), of evs] assms(2) emission by auto
  next
    case (OpCancel i)
    then show ?thesis using cancel_emission[OF ok, of classify i] emission same by (metis core_do.simps(3))
  next
    case (OpThread now ok n)
    then have n: "n < length (os_threads s)" using assms(2) by simp
    then show ?thesis
    proof (cases rule: run_thread_cases[of n s now ok])
      case idle
      then show ?thesis using OpThread same by simp
    next
      case (task t ts us s1)
      show ?thesis using thread[OF OpThread n task(1,2)] task(3) OpThread by simp
    qed
  qed (use assms(2) finish exiting subscribe unsubscribe turns inputs diagnostic in auto)
qed

lemma run_task_core:
  assumes "run_task now ok t s = (us, s1)" "log_ok (os_log s) (os_core s)"
  shows "log_ok (os_log s1) (os_core s1)" "oc_id (os_core s1) = oc_id (os_core s)" "oc_epoch (os_core s1) = oc_epoch (os_core s)"
    "oc_has_inputs (os_core s1) = oc_has_inputs (os_core s)" "oc_finalized (os_core s1) = oc_finalized (os_core s)"
    "TSeal \<notin> set us"
proof -
  have "log_ok (os_log s1) (os_core s1) \<and> oc_id (os_core s1) = oc_id (os_core s) \<and> oc_epoch (os_core s1) = oc_epoch (os_core s) \<and>
    oc_has_inputs (os_core s1) = oc_has_inputs (os_core s) \<and> oc_finalized (os_core s1) = oc_finalized (os_core s) \<and> TSeal \<notin> set us"
  proof (cases "t = TSeal")
    case True
    obtain ls oc where seal: "synthesize_ended_and_seal (os_core s) = (ls, oc)" by fastforce
    show ?thesis using seal_laws[OF seal assms(2)] assms(1) by (auto simp: True seal quiet_core_def)
  next
    case False
    with assms show ?thesis
      by (cases "(now, ok, t, s)" rule: run_task.cases) (auto simp: set_exiting_def intro: log_ok_other split: if_splits)
  qed
  then show "log_ok (os_log s1) (os_core s1)" "oc_id (os_core s1) = oc_id (os_core s)" "oc_epoch (os_core s1) = oc_epoch (os_core s)"
    "oc_has_inputs (os_core s1) = oc_has_inputs (os_core s)" "oc_finalized (os_core s1) = oc_finalized (os_core s)"
    "TSeal \<notin> set us" by auto
qed

lemma run_task_seal:
  assumes "run_task now ok t s = (us, s1)"
  shows "if t = TSeal then oc_sealed (os_core s1) \<and> rg_items (oc_registry (os_core s1)) = []
         else oc_sealed (os_core s1) = oc_sealed (os_core s) \<and> oc_registry (os_core s1) = oc_registry (os_core s)"
proof (cases "t = TSeal")
  case True
  obtain ls oc where push: "push_list_events (map (\<lambda>row. QiDropped (qr_id row) AgentEnded) (rg_items (oc_registry (os_core s)))) (os_core s) = (ls, oc)"
    by fastforce
  show ?thesis using assms drop_all_items[OF refl push] by (auto simp: True synthesize_ended_and_seal_def push)
next
  case False
  with assms show ?thesis
    by (cases "(now, ok, t, s)" rule: run_task.cases) (auto simp: set_exiting_def split: if_splits)
qed

lemma checked_split: "checked (t # ts) \<Longrightarrow> checked ts"
  by (cases t) auto

lemma core_ok_thread:
  assumes "core_ok s" "n < length (os_threads s)" "os_threads s ! n = t # ts" "run_task now ok t s = (us, s1)"
    and "length (os_log s1) < 2 ^ 64"
  shows "core_ok (s1\<lparr>os_threads := (os_threads s)[n := us @ ts]\<rparr>)"
proof -
  let ?s = "s1\<lparr>os_threads := (os_threads s)[n := us @ ts]\<rparr>"
  have "log_ok (os_log s) (os_core s)" using assms(1) by (simp add: core_ok_def)
  note run = run_task_core[OF assms(4) this] run_task_seal[OF assms(4)]
  note pend = pend_after(1-4)[OF assms(2,3), where us = us and ?s1.0 = s1] pend_after(5)[OF assms(2,3)]
  have "checked (t # ts)" using assms(1-3) by (auto simp: core_ok_def list_all_length)
  then have "checked (us @ ts)" using run_task_frame[OF assms(4)] by (auto intro: checked_append dest: checked_split)
  then have "list_all checked ((os_threads s)[n := us @ ts])"
    using assms(1,2) by (auto simp: core_ok_def list_all_length nth_list_update)
  moreover have "oc_finalized (os_core s)" if "oc_sealed (os_core s1) \<or> TSeal \<in> pend ?s"
    using that run(6,7) pend(2)[of TSeal] pend(5) assms(1) by (auto simp: core_ok_def split: if_splits)
  ultimately show ?thesis using assms(1,5) run by (auto simp: core_ok_def split: if_splits)
qed

lemma core_ok_step:
  assumes "core_ok s" "core_pre op s" "length (os_log (core_do classify op s)) < 2 ^ 64"
  shows "core_ok (core_do classify op s)"
using assms(1,2) proof (cases rule: emission_cases[where classify = classify])
  case (emission ls ts)
  then have "rg_items (oc_registry (os_core (core_do classify op s))) = []" if "oc_sealed (os_core s)"
    using that assms(1) by (auto simp: emission_def flag_step_def core_ok_def Let_def split: if_splits)
  then show ?thesis using emission assms(1,3) by (auto simp: emission_def core_ok_def quiet_core_def pend_def)
next
  case (thread now ok n t ts us s1)
  show ?thesis using core_ok_thread[OF assms(1) thread(2-4)] assms(3) unfolding thread(5) by simp
next
  case (finish reason)
  then show ?thesis using assms by (auto simp: core_ok_def core_finish_def intro: log_ok_other)
next
  case exiting
  then show ?thesis using assms by (auto simp: core_ok_def enter_exiting_def)
next
  case (diagnostic l)
  then show ?thesis using assms by (auto simp: core_ok_def push_diagnostic_def Let_def pend_def intro: log_ok_other)
qed (use assms in \<open>auto simp: core_ok_def pend_def sys_subscribe_def sys_unsubscribe_def unsubscribe_def subscribe_from_def Let_def
    intro: log_ok_other split: prod.splits\<close>)


section \<open>The end of an incarnation\<close>

definition own_turn :: "output_sys \<Rightarrow> turn_observation option" where
  "own_turn s = turn_get (oc_id (os_core s)) (oc_epoch (os_core s)) (os_turns s)"

definition own_inputs :: "output_sys \<Rightarrow> pending_entry option" where
  "own_inputs s = entry_of (oc_id (os_core s)) (oc_epoch (os_core s)) (os_inputs s)"

definition end_ok :: "output_sys \<Rightarrow> bool" where
  "end_ok s \<longleftrightarrow> (oc_finalized (os_core s) \<longrightarrow>
     (own_turn s \<noteq> None \<longrightarrow> TForgetTurn \<in> pend s \<or> TRecheck \<in> pend s) \<and>
     (own_inputs s \<noteq> None \<longrightarrow> TForgetInputs \<in> pend s) \<and>
     (\<not> oc_sealed (os_core s) \<longrightarrow> TSeal \<in> pend s) \<and>
     (status_is_live (oc_status (os_core s)) \<longrightarrow> (\<exists>reason. TStatus reason \<in> pend s)))"

lemma own_inputs_emission:
  assumes "emission s ls ts s'"
  shows "own_inputs s' \<noteq> None \<longleftrightarrow> own_inputs s \<noteq> None" "own_turn s' = own_turn s"
  using assms by (auto simp: emission_def flag_step_def quiet_core_def own_inputs_def own_turn_def entry_of_set Let_def split: if_splits option.splits)

lemma end_ok_emission:
  assumes "end_ok s" "emission s ls ts s'"
  shows "end_ok s'"
proof -
  have "oc_finalized (os_core s') = oc_finalized (os_core s)" "oc_sealed (os_core s') = oc_sealed (os_core s)"
    "oc_status (os_core s') = oc_status (os_core s)" "pend s \<subseteq> pend s'"
    using assms(2) by (auto simp: emission_def quiet_core_def pend_def)
  with assms(1) show ?thesis unfolding end_ok_def own_inputs_emission[OF assms(2)] by auto
qed

lemma run_task_end:
  assumes "run_task now ok t s = (us, s1)" "oc_finalized (os_core s)"
  shows "own_turn s1 \<noteq> None \<Longrightarrow> (\<exists>q sg. t = TObserve q sg) \<or> t = TRecheck \<and> TForgetTurn \<in> set us \<or> own_turn s \<noteq> None \<and> t \<noteq> TForgetTurn"
    "own_inputs s1 \<noteq> None \<Longrightarrow> own_inputs s \<noteq> None \<and> t \<noteq> TForgetInputs"
    "status_is_live (oc_status (os_core s1)) \<Longrightarrow> status_is_live (oc_status (os_core s)) \<and> (\<forall>reason. t \<noteq> TStatus reason)"
proof -
  have "(own_turn s1 \<noteq> None \<longrightarrow> (\<exists>q sg. t = TObserve q sg) \<or> t = TRecheck \<and> TForgetTurn \<in> set us \<or> own_turn s \<noteq> None \<and> t \<noteq> TForgetTurn) \<and>
    (own_inputs s1 \<noteq> None \<longrightarrow> own_inputs s \<noteq> None \<and> t \<noteq> TForgetInputs) \<and>
    (status_is_live (oc_status (os_core s1)) \<longrightarrow> status_is_live (oc_status (os_core s)) \<and> (\<forall>reason. t \<noteq> TStatus reason))"
  proof (cases "t = TSeal")
    case True
    obtain ls oc where push: "push_list_events (map (\<lambda>row. QiDropped (qr_id row) AgentEnded) (rg_items (oc_registry (os_core s)))) (os_core s) = (ls, oc)"
      by fastforce
    have "quiet_core (os_core s) oc" by (rule push_list_quiet[OF push])
    then show ?thesis using assms(1) by (auto simp: True synthesize_ended_and_seal_def push quiet_core_def own_turn_def own_inputs_def)
  next
    case False
    with assms show ?thesis
      by (cases "(now, ok, t, s)" rule: run_task.cases)
        (auto simp: own_turn_def own_inputs_def entry_of_set set_exiting_def split: if_splits option.splits)
  qed
  then show "own_turn s1 \<noteq> None \<Longrightarrow> (\<exists>q sg. t = TObserve q sg) \<or> t = TRecheck \<and> TForgetTurn \<in> set us \<or> own_turn s \<noteq> None \<and> t \<noteq> TForgetTurn"
    "own_inputs s1 \<noteq> None \<Longrightarrow> own_inputs s \<noteq> None \<and> t \<noteq> TForgetInputs"
    "status_is_live (oc_status (os_core s1)) \<Longrightarrow> status_is_live (oc_status (os_core s)) \<and> (\<forall>reason. t \<noteq> TStatus reason)" by auto
qed

lemma run_task_recheck: "run_task now ok TRecheck s = (us, s1) \<Longrightarrow> oc_finalized (os_core s) \<Longrightarrow> TForgetTurn \<in> set us"
  by auto

lemma end_ok_thread:
  assumes "core_ok s" "end_ok s" "n < length (os_threads s)" "os_threads s ! n = t # ts" "run_task now ok t s = (us, s1)"
  shows "end_ok (s1\<lparr>os_threads := (os_threads s)[n := us @ ts]\<rparr>)"
proof -
  let ?s = "s1\<lparr>os_threads := (os_threads s)[n := us @ ts]\<rparr>"
  have log: "log_ok (os_log s) (os_core s)" using assms(1) by (simp add: core_ok_def)
  note run = run_task_core[OF assms(5) log] run_task_seal[OF assms(5)]
  note kept = pend_after(1)[OF assms(3,4), where us = us and ?s1.0 = s1]
  note added = pend_after(3)[OF assms(3,4), where us = us and ?s1.0 = s1] pend_after(4)[OF assms(3,4), where us = us and ?s1.0 = s1]
  have own: "own_turn ?s = own_turn s1" "own_inputs ?s = own_inputs s1" by (simp_all add: own_turn_def own_inputs_def)
  show ?thesis
  proof (cases "oc_finalized (os_core s)")
    case True
    note ends = run_task_end[OF assms(5) True]
    have "checked (t # ts)" using assms(1,3,4) by (auto simp: core_ok_def list_all_length)
    then have "TForgetTurn \<in> pend ?s \<or> TRecheck \<in> pend ?s" if "own_turn s1 \<noteq> None"
      using ends(1)[OF that] kept[of TForgetTurn] kept[of TRecheck] added assms(2) True
        run_task_recheck[of now ok s us s1, OF _ True] assms(5) by (auto simp: end_ok_def)
    moreover have "TForgetInputs \<in> pend ?s" if "own_inputs s1 \<noteq> None"
      using ends(2)[OF that] kept[of TForgetInputs] assms(2) True by (auto simp: end_ok_def)
    moreover have "TSeal \<in> pend ?s" if "\<not> oc_sealed (os_core s1)"
      using that run(7) kept[of TSeal] assms(2) True by (auto simp: end_ok_def split: if_splits)
    moreover have "\<exists>reason. TStatus reason \<in> pend ?s" if live: "status_is_live (oc_status (os_core s1))"
    proof -
      obtain reason where "TStatus reason \<in> pend s" "t \<noteq> TStatus reason" using ends(3)[OF live] assms(2) True by (auto simp: end_ok_def)
      then show ?thesis using kept by metis
    qed
    ultimately show ?thesis unfolding end_ok_def own by auto
  qed (use run(5) in \<open>simp add: end_ok_def\<close>)
qed

lemma end_ok_step:
  assumes "core_ok s" "end_ok s" "core_pre op s"
  shows "end_ok (core_do classify op s)"
  using assms(1,3) proof (cases rule: emission_cases[where classify = classify])
  case (emission ls ts)
  then show ?thesis using end_ok_emission assms(2) by blast
next
  case (thread now ok n t ts us s1)
  show ?thesis unfolding thread(5) by (rule end_ok_thread[OF assms(1,2) thread(2-4)])
next
  case (finish reason)
  have "oc_has_inputs (os_core s)" "oc_sealed (os_core s) \<Longrightarrow> oc_finalized (os_core s)" using assms(1) by (auto simp: core_ok_def)
  then show ?thesis using finish assms(2)
    by (cases "oc_finalized (os_core s)") (auto simp: end_ok_def core_finish_def finish_tasks_def pend_def)
next
  case exiting
  then show ?thesis using assms(2) by (auto simp: end_ok_def enter_exiting_def)
next
  case (subscribe k after_seq epoch_matches)
  then show ?thesis using assms(2)
    by (simp add: end_ok_def own_turn_def own_inputs_def pend_def sys_subscribe_def subscribe_from_def Let_def split: prod.splits)
next
  case (unsubscribe k)
  then show ?thesis using assms(2) by (simp add: end_ok_def own_turn_def own_inputs_def pend_def sys_unsubscribe_def unsubscribe_def)
next
  case (turns top)
  then show ?thesis using assms(2) turn_foreign[OF turns(2), of "os_turns s"] by (auto simp: end_ok_def own_turn_def own_inputs_def pend_def)
next
  case (inputs iop)
  then show ?thesis using assms(2) inputs_foreign[OF inputs(2), of "os_inputs s"] by (auto simp: end_ok_def own_turn_def own_inputs_def pend_def)
next
  case (diagnostic l)
  then show ?thesis using assms(2) by (simp add: end_ok_def own_turn_def own_inputs_def pend_def push_diagnostic_def Let_def)
qed (use assms in simp)


section \<open>The flag of pending inputs\<close>

text \<open>The flag is up while an input is open. When it is up over an empty registry, the task that lowers it is on its
  way, with the number of the line that emptied the registry.\<close>

definition flag_ok :: "output_sys \<Rightarrow> bool" where
  "flag_ok s \<longleftrightarrow> (\<forall>q. TDrained q \<in> pend s \<longrightarrow> unat q < length (os_log s)) \<and>
     (case own_inputs s of None \<Rightarrow> True | Some e \<Rightarrow>
        unat (pe_last_seq e) \<le> length (os_log s) \<and>
        (rg_items (oc_registry (os_core s)) \<noteq> [] \<longrightarrow> pe_pending e \<and> (\<forall>q. TDrained q \<in> pend s \<longrightarrow> q < pe_last_seq e)) \<and>
        (pe_pending e \<and> rg_items (oc_registry (os_core s)) = [] \<and> \<not> oc_sealed (os_core s) \<longrightarrow>
          (\<exists>q. TDrained q \<in> pend s \<and> pe_last_seq e \<le> q)))"

lemma log_seq:
  assumes "log_ok ls oc" "length ls < 2 ^ 64" "n < length ls"
  shows "unat (fst (ls ! n)) = n"
proof -
  have "map fst ls ! n = map of_nat [0..<length ls] ! n" using assms(1) by (simp add: log_ok_def)
  then have "fst (ls ! n) = of_nat n" using assms(3) by simp
  then show ?thesis using assms(2,3) by (simp add: unat_of_nat take_bit_eq_mod)
qed

lemma log_last_seq:
  assumes "log_ok (log0 @ ls) oc" "length (log0 @ ls) < 2 ^ 64" "ls \<noteq> []"
  shows "unat (fst (List.last ls)) = length log0 + length ls - 1"
proof -
  have "(log0 @ ls) ! (length log0 + length ls - 1) = List.last ls" using assms(3) by (cases ls rule: rev_cases) (auto simp: nth_append)
  then show ?thesis using log_seq[OF assms(1,2), of "length log0 + length ls - 1"] assms(3) by (cases ls) auto
qed

lemma flag_ok_emission:
  assumes "core_ok s" "flag_ok s" "emission s ls ts s'" "length (os_log s') < 2 ^ 64"
  shows "flag_ok s'"
proof -
  let ?q = "fst (List.last ls)" let ?r = "rg_items (oc_registry (os_core s))" let ?r' = "rg_items (oc_registry (os_core s'))"
  have log: "os_log s' = os_log s @ ls" "log_ok (os_log s @ ls) (os_core s')" and sealed: "oc_sealed (os_core s') = oc_sealed (os_core s)"
    and pend: "pend s' = pend s \<union> set ts" and step: "flag_step s ls ts s'"
    and own: "own_inputs s' = entry_of (oc_id (os_core s)) (oc_epoch (os_core s)) (os_inputs s')"
    using assms(3) pend_grow[of s' s ts] by (auto simp: emission_def own_inputs_def quiet_core_def)
  have q: "unat ?q = length (os_log s) + length ls - 1" if "ls \<noteq> []" using log_last_seq[OF log(2)] assms(4) log(1) that by simp
  have old: "unat d < length (os_log s)" if "TDrained d \<in> pend s" for d using assms(2) that by (simp add: flag_ok_def)
  consider (fill) "?r = []" "?r' \<noteq> []" | (empty) "?r \<noteq> []" "?r' = []" | (same) "?r = [] \<longleftrightarrow> ?r' = []" by blast
  then show ?thesis
  proof cases
    case fill
    then have flag: "ls \<noteq> []" "\<forall>q. TDrained q \<notin> set ts" "os_inputs s' = inputs_set (oc_id (os_core s)) (oc_epoch (os_core s)) ?q True (os_inputs s)"
      using step by (auto simp: flag_step_def Let_def)
    have le: "length (os_log s) \<le> unat ?q" "unat ?q < length (os_log s')" using q[OF flag(1)] flag(1) log(1) by (cases ls; simp)+
    have drained: "d < ?q \<and> unat d < length (os_log s')" if "TDrained d \<in> pend s'" for d
      using that old[of d] flag(2) le by (auto simp: pend word_less_nat_alt)
    show ?thesis
    proof (cases "own_inputs s")
      case None
      then have "own_inputs s' = None" unfolding own flag(3) by (simp add: entry_of_set own_inputs_def)
      then show ?thesis using drained by (simp add: flag_ok_def)
    next
      case (Some e)
      have "\<not> ?q < pe_last_seq e" using assms(2) le(1) Some by (simp add: flag_ok_def word_less_nat_alt)
      then have "own_inputs s' = Some (e\<lparr>pe_pending := True, pe_last_seq := ?q\<rparr>)"
        unfolding own flag(3) using Some by (simp add: entry_of_set own_inputs_def)
      then show ?thesis using drained le fill by (simp add: flag_ok_def)
    qed
  next
    case empty
    then have flag: "ls \<noteq> []" "\<forall>q. TDrained q \<in> set ts \<longleftrightarrow> q = ?q" "os_inputs s' = os_inputs s"
      using step by (auto simp: flag_step_def Let_def)
    have le: "length (os_log s) \<le> unat ?q" "unat ?q < length (os_log s')" using q[OF flag(1)] flag(1) log(1) by (cases ls; simp)+
    have drained: "unat d < length (os_log s')" if "TDrained d \<in> pend s'" for d
      using that old[of d] flag(2) le log(1) by (auto simp: pend)
    have same: "own_inputs s' = own_inputs s" unfolding own flag(3) by (simp add: own_inputs_def)
    have "TDrained ?q \<in> pend s'" using flag(2) by (auto simp: pend)
    then show ?thesis using drained le empty assms(2) log(1) unfolding flag_ok_def same
      by (auto simp: word_le_nat_alt split: option.splits intro!: exI[of _ ?q])
  next
    case same
    then have flag: "\<forall>q. TDrained q \<notin> set ts" "os_inputs s' = os_inputs s" using step by (auto simp: flag_step_def Let_def)
    have "own_inputs s' = own_inputs s" "TDrained d \<in> pend s' \<longleftrightarrow> TDrained d \<in> pend s" for d
      unfolding own flag(2) using flag(1) by (auto simp: pend own_inputs_def)
    then show ?thesis using assms(2) same log(1) sealed unfolding flag_ok_def by (auto split: option.splits)
  qed
qed


lemma run_task_flag:
  assumes "run_task now ok t s = (us, s1)"
  shows "TDrained q \<notin> set us"
    and "own_inputs s1 = (case t of
      TDrained q \<Rightarrow> map_option (\<lambda>e. if q < pe_last_seq e then e else e\<lparr>pe_pending := False, pe_last_seq := q\<rparr>) (own_inputs s)
    | TForgetInputs \<Rightarrow> None
    | _ \<Rightarrow> own_inputs s)"
    and "length (os_log s) \<le> length (os_log s1)"
proof -
  have "TDrained q \<notin> set us \<and> own_inputs s1 = (case t of
      TDrained q \<Rightarrow> map_option (\<lambda>e. if q < pe_last_seq e then e else e\<lparr>pe_pending := False, pe_last_seq := q\<rparr>) (own_inputs s)
    | TForgetInputs \<Rightarrow> None
    | _ \<Rightarrow> own_inputs s) \<and> length (os_log s) \<le> length (os_log s1)"
  proof (cases "t = TSeal")
    case True
    obtain ls oc where push: "push_list_events (map (\<lambda>row. QiDropped (qr_id row) AgentEnded) (rg_items (oc_registry (os_core s)))) (os_core s) = (ls, oc)"
      by fastforce
    show ?thesis using assms push_list_quiet[OF push] by (auto simp: True synthesize_ended_and_seal_def push quiet_core_def own_inputs_def)
  next
    case False
    with assms show ?thesis
      by (cases "(now, ok, t, s)" rule: run_task.cases)
        (auto simp: own_inputs_def entry_of_set set_exiting_def split: if_splits option.splits)
  qed
  then show "TDrained q \<notin> set us" "own_inputs s1 = (case t of
      TDrained q \<Rightarrow> map_option (\<lambda>e. if q < pe_last_seq e then e else e\<lparr>pe_pending := False, pe_last_seq := q\<rparr>) (own_inputs s)
    | TForgetInputs \<Rightarrow> None
    | _ \<Rightarrow> own_inputs s)" "length (os_log s) \<le> length (os_log s1)" by auto
qed

lemma flag_ok_thread:
  assumes "flag_ok s" "n < length (os_threads s)" "os_threads s ! n = t # ts" "run_task now ok t s = (us, s1)"
  shows "flag_ok (s1\<lparr>os_threads := (os_threads s)[n := us @ ts]\<rparr>)"
proof -
  let ?s = "s1\<lparr>os_threads := (os_threads s)[n := us @ ts]\<rparr>"
  note flag = run_task_flag[OF assms(4)] run_task_seal[OF assms(4)]
  have own: "own_inputs ?s = own_inputs s1" by (simp add: own_inputs_def)
  have sub: "TDrained d \<in> pend s" if "TDrained d \<in> pend ?s" for d
    using pend_after(2)[OF assms(2,3), where us = us and ?s1.0 = s1 and x = "TDrained d"] that flag(1) by blast
  have sup: "t = TDrained d \<or> TDrained d \<in> pend ?s" if "TDrained d \<in> pend s" for d
    using pend_after(1)[OF assms(2,3), where us = us and ?s1.0 = s1 and x = "TDrained d"] that by blast
  have drained: "unat d < length (os_log s1)" if "TDrained d \<in> pend ?s" for d
    using assms(1) sub[OF that] flag(3) unfolding flag_ok_def by (meson order_less_le_trans)
  show ?thesis
  proof (cases "own_inputs s1")
    case None
    then show ?thesis using drained by (simp add: flag_ok_def own)
  next
    case (Some e)
    then obtain e0 where e0: "own_inputs s = Some e0" using flag(2) by (auto split: task.splits)
    have kept: "unat (pe_last_seq e0) \<le> length (os_log s1)" using assms(1) flag(3) by (auto simp: flag_ok_def e0 intro: order_trans)
    have live: "unat d < length (os_log s1)" if "TDrained d \<in> pend s" for d
      using assms(1) that flag(3) unfolding flag_ok_def by (meson order_less_le_trans)
    show ?thesis
    proof (cases "\<exists>d. t = TDrained d")
      case True
      then obtain d where d: "t = TDrained d" by blast
      have "TDrained d \<in> pend s" using pend_after(5)[OF assms(2,3)] by (simp add: d)
      moreover have e: "e = (if d < pe_last_seq e0 then e0 else e0\<lparr>pe_pending := False, pe_last_seq := d\<rparr>)"
        using Some flag(2) by (simp add: d e0)
      ultimately show ?thesis using drained kept live[of d] flag(4) assms(1) sub sup Some
        by (cases "d < pe_last_seq e0") (force simp: flag_ok_def own e0 d)+
    next
      case False
      have "e = e0" using Some flag(2) False by (auto simp: e0 split: task.splits)
      then show ?thesis using drained kept flag(4) assms(1) sub sup Some False
        by (auto simp: flag_ok_def own e0 split: if_splits)
    qed
  qed
qed

lemma flag_ok_frame:
  assumes "flag_ok s" "os_threads s' = os_threads s" "os_inputs s' = os_inputs s" "os_log s' = os_log s"
    and "oc_id (os_core s') = oc_id (os_core s)" "oc_epoch (os_core s') = oc_epoch (os_core s)"
    and "oc_registry (os_core s') = oc_registry (os_core s)" "oc_sealed (os_core s') = oc_sealed (os_core s)"
  shows "flag_ok s'"
proof -
  have "own_inputs s' = own_inputs s" "pend s' = pend s" using assms(2-) by (simp_all add: own_inputs_def pend_def)
  then show ?thesis using assms by (cases "own_inputs s") (simp_all add: flag_ok_def)
qed

lemma flag_ok_step:
  assumes "core_ok s" "flag_ok s" "core_pre op s" "length (os_log (core_do classify op s)) < 2 ^ 64"
  shows "flag_ok (core_do classify op s)"
  using assms(1,3) proof (cases rule: emission_cases[where classify = classify])
  case (emission ls ts)
  then show ?thesis using flag_ok_emission[OF assms(1,2) emission assms(4)] by simp
next
  case (thread now ok n t ts us s1)
  show ?thesis unfolding thread(5) by (rule flag_ok_thread[OF assms(2) thread(2-4)])
next
  case (finish reason)
  then show ?thesis using assms(2) by (auto simp: flag_ok_def own_inputs_def core_finish_def finish_tasks_def pend_def split: option.splits)
next
  case exiting
  then show ?thesis using assms(2) by (auto simp: flag_ok_def own_inputs_def enter_exiting_def pend_def split: option.splits)
next
  case (subscribe k after_seq epoch_matches)
  show ?thesis unfolding subscribe(1) by (rule flag_ok_frame[OF assms(2)]) (simp_all add: sys_subscribe_frame)
next
  case (unsubscribe k)
  show ?thesis unfolding unsubscribe(1) by (rule flag_ok_frame[OF assms(2)]) (simp_all add: sys_unsubscribe_def unsubscribe_def)
next
  case (turns top)
  show ?thesis unfolding turns(1) by (rule flag_ok_frame[OF assms(2)]) simp_all
next
  case (inputs iop)
  then show ?thesis using assms(2) inputs_foreign[OF inputs(2), of "os_inputs s"]
    by (auto simp: flag_ok_def own_inputs_def pend_def split: option.splits)
next
  case (diagnostic l)
  show ?thesis unfolding diagnostic by (rule flag_ok_frame[OF assms(2)]) (simp_all add: push_diagnostic_def Let_def)
qed (use assms in simp)

end
