(* ===== verification/Output_Subs.thy ===== *)
theory Output_Subs
  imports Output_Props
begin

text \<open>
  What a subscriber gets: the replay of a subscription is exactly the retained part of the output it asked for, and every
  later line reaches every subscriber that neither failed nor left, whatever the order of the threads.
\<close>

section \<open>The replay of a subscription\<close>

lemma log_sorted:
  assumes "log_ok ls oc" "length ls < 2 ^ 64" "i < length ls" "j < length ls"
  shows "fst (ls ! i) \<le> fst (ls ! j) \<longleftrightarrow> i \<le> j"
  using log_seq[OF assms(1,2)] assms(3,4) by (simp add: word_le_nat_alt)

lemma stored_simps [simp]: "so_seq (stored l) = fst l" "so_event (stored l) = snd l"
  by (simp_all add: stored_def)

lemma sent_stored [simp]: "map (\<lambda>c. (so_seq c, so_event c)) (map stored ls) = ls"
  by (induction ls) simp_all

lemma dropWhile_none: "(\<And>x. x \<in> set xs \<Longrightarrow> \<not> p x) \<Longrightarrow> dropWhile p xs = xs"
  by (cases xs) auto

lemma drop_le_prefix:
  assumes "log_ok ls oc" "length ls < 2 ^ 64" "d < length ls" "fst (ls ! d) \<le> s"
  shows "dropWhile (\<lambda>l. fst l \<le> s) (drop d ls) = filter (\<lambda>l. s < fst l) ls"
proof -
  let ?p = "\<lambda>l::line. fst l \<le> s"
  have mono: "?p (ls ! i)" if "i \<le> j" "j < length ls" "?p (ls ! j)" for i j
    using log_sorted[OF assms(1,2), of i j] that by auto
  have tw: "takeWhile ?p ls @ dropWhile ?p ls = ls" by simp
  let ?n = "length (takeWhile ?p ls)"
  have late: "\<not> ?p (ls ! j)" if "?n \<le> j" "j < length ls" for j
    using mono[of ?n j] nth_length_takeWhile[of ?p ls] that by fastforce
  have drop_n: "dropWhile ?p ls = drop ?n ls" by (simp add: dropWhile_eq_drop)
  have after: "s < fst l" if mem: "l \<in> set (drop ?n ls)" for l
  proof -
    obtain i where "i < length (drop ?n ls)" "l = drop ?n ls ! i" using mem unfolding in_set_conv_nth by blast
    then show ?thesis using late[of "?n + i"] by (simp add: not_le)
  qed
  have "filter (\<lambda>l. s < fst l) (drop ?n ls) = drop ?n ls" by (rule filter_True) (use after in blast)
  moreover have "filter (\<lambda>l. s < fst l) (takeWhile ?p ls) = []" by (auto simp: filter_empty_conv not_less dest: set_takeWhileD)
  moreover have "filter (\<lambda>l. s < fst l) ls = filter (\<lambda>l. s < fst l) (takeWhile ?p ls) @ filter (\<lambda>l. s < fst l) (dropWhile ?p ls)"
    by (metis filter_append tw)
  ultimately have all: "filter (\<lambda>l. s < fst l) ls = drop ?n ls" unfolding drop_n by simp
  have "d < ?n" using late[of d] assms(3,4) by (meson not_le)
  then have "drop d (takeWhile ?p ls @ dropWhile ?p ls) = drop d (takeWhile ?p ls) @ dropWhile ?p ls" by (simp del: takeWhile_dropWhile_id)
  then have "drop d ls = drop d (takeWhile ?p ls) @ drop ?n ls" unfolding tw unfolding drop_n .
  moreover have "dropWhile ?p (drop d (takeWhile ?p ls) @ drop ?n ls) = dropWhile ?p (drop ?n ls)"
    by (rule dropWhile_append2) (blast dest: in_set_dropD set_takeWhileD)
  moreover have "dropWhile ?p (drop ?n ls) = drop ?n ls" by (rule dropWhile_none) (metis after leD)
  ultimately show ?thesis unfolding all by (rule trans[OF arg_cong[where f = "dropWhile ?p"] trans])
qed

text \<open>The branches of \<^verbatim>\<open>subscribe_from\<close> over the ring of a reachable core.\<close>

lemma ring_window:
  assumes "log_ok ls oc"
  obtains d where "rn_items (oc_replay oc) = map stored (drop d ls)" "ls \<noteq> [] \<Longrightarrow> d < length ls"
proof -
  obtain d where d: "rn_items (oc_replay oc) = map stored (drop d ls)" using assms by (auto simp: log_ok_def replay_ring_ok_def)
  have "ls \<noteq> [] \<Longrightarrow> d < length ls" using assms d by (auto simp: log_ok_def replay_ring_ok_def)
  with d that show ?thesis by blast
qed

lemma subscribe_tail:
  assumes "log_ok ls oc" "length ls < 2 ^ 64" "rn_items (oc_replay oc) = map stored (drop d ls)" "ls \<noteq> [] \<Longrightarrow> d < length ls"
  shows "snd (replay_tail after_seq m (rn_items (oc_replay oc))) =
     map stored (case after_seq of
       Some s \<Rightarrow> if m \<and> ls \<noteq> [] \<and> fst (ls ! d) \<le> s then filter (\<lambda>l. s < fst l) ls else drop d ls
     | None \<Rightarrow> drop d ls)"
proof (cases "ls = []")
  case True
  then show ?thesis by (auto simp: replay_tail_def assms(3) split: option.splits)
next
  case False
  then have d: "d < length ls" "drop d ls = ls ! d # drop (Suc d) ls" using assms(4) by (simp_all add: Cons_nth_drop_Suc)
  have dw: "dropWhile (\<lambda>c. so_seq c \<le> s) (map stored xs) = map stored (dropWhile (\<lambda>l. fst l \<le> s) xs)" for s xs
    by (induction xs) auto
  show ?thesis
  proof (cases after_seq)
    case (Some s)
    show ?thesis
    proof (cases "m \<and> fst (ls ! d) \<le> s")
      case True
      then have "m" "\<not> s < fst (ls ! d)" by auto
      then have "snd (replay_tail after_seq m (rn_items (oc_replay oc))) = dropWhile (\<lambda>c. so_seq c \<le> s) (map stored (drop d ls))"
        by (simp add: replay_tail_def assms(3) Some d(2) del: dropWhile.simps)
      then show ?thesis using drop_le_prefix[OF assms(1,2) d(1), of s] True False by (simp add: Some dw)
    next
      case False
      then show ?thesis by (auto simp: replay_tail_def assms(3) Some d(2) not_less)
    qed
  qed (simp add: replay_tail_def assms(3))
qed

lemma saturating_succ_less: "saturating_succ s \<le> q \<Longrightarrow> q \<noteq> - 1 \<Longrightarrow> s < q"
proof (cases "s = - 1")
  case False
  then show "saturating_succ s \<le> q \<Longrightarrow> s < q" using word_less_Suc(1)[of s] by (simp add: saturating_succ_def)
qed (auto simp: saturating_succ_def dest: word_order.extremum_uniqueI)

text \<open>Every retained or future line from the promised number on is in the replay.\<close>

lemma replay_covers:
  assumes "log_ok ls oc" "length ls < 2 ^ 64" "subscribe_from k after_seq m oc = ((out, sent), oc')"
    and "l \<in> set ls" "sb_replay_from out \<le> fst l"
  shows "l \<in> set sent"
proof -
  obtain d where d: "rn_items (oc_replay oc) = map stored (drop d ls)" "ls \<noteq> [] \<Longrightarrow> d < length ls"
    using ring_window[OF assms(1)] by blast
  have ne: "ls \<noteq> []" using assms(4) by auto
  obtain j where j: "j < length ls" "l = ls ! j" using assms(4) by (auto simp: in_set_conv_nth)
  note tail = subscribe_tail[OF assms(1,2) d, of after_seq m]
  let ?tail = "snd (replay_tail after_seq m (rn_items (oc_replay oc)))"
  have sent: "sent = map (\<lambda>c. (so_seq c, so_event c)) ?tail"
    and from_tail: "?tail \<noteq> [] \<Longrightarrow> sb_replay_from out = so_seq (hd ?tail)"
    and from_empty: "?tail = [] \<Longrightarrow> rn_items (oc_replay oc) \<noteq> [] \<Longrightarrow>
      sb_replay_from out = (case after_seq of Some s \<Rightarrow> saturating_succ s | None \<Rightarrow> saturating_succ (so_seq (List.last (rn_items (oc_replay oc)))))"
    using assms(3) by (auto simp: subscribe_from_def Let_def split_def hd_Cons_tl split: list.splits)
  have nonempty: "rn_items (oc_replay oc) \<noteq> []" using d ne by simp
  show ?thesis
  proof (cases "\<exists>s. after_seq = Some s \<and> m \<and> fst (ls ! d) \<le> s")
    case True
    then obtain s where s: "after_seq = Some s" "m" "fst (ls ! d) \<le> s" by blast
    then have t: "?tail = map stored (filter (\<lambda>l. s < fst l) ls)" using tail ne by simp
    have "s < fst l"
    proof (cases "?tail = []")
      case True
      then have "saturating_succ s \<le> fst l" using from_empty[OF True nonempty] assms(5) s(1) by simp
      moreover have "fst l \<noteq> - 1" using log_seq[OF assms(1,2) j(1)] assms(2) j
        by (auto simp: word_unat_eq_iff unsigned_minus_1_eq_mask mask_eq_exp_minus_1)
      ultimately show ?thesis by (rule saturating_succ_less)
    next
      case False
      then have "hd ?tail \<in> set ?tail" by simp
      then have "s < so_seq (hd ?tail)" unfolding t by auto
      then show ?thesis using from_tail[OF False] assms(5) by simp
    qed
    then show ?thesis using assms(4) by (simp add: sent t)
  next
    case False
    then have t: "?tail = map stored (drop d ls)" using tail by (auto split: option.splits)
    have "hd (drop d ls) = ls ! d" using d ne by (simp add: hd_drop_conv_nth)
    then have "fst (ls ! d) \<le> fst l" using from_tail assms(5) t d ne by (simp add: hd_map)
    then have "d \<le> j" using log_sorted[OF assms(1,2), of d j] j d ne by simp
    then have "l \<in> set (drop d ls)" using j by (auto simp: in_set_conv_nth intro!: exI[of _ "j - d"])
    then show ?thesis by (simp add: sent t)
  qed
qed


lemma subscribe_kind:
  assumes "log_ok ls oc" "length ls < 2 ^ 64" "rn_items (oc_replay oc) = map stored (drop d ls)" "ls \<noteq> [] \<Longrightarrow> d < length ls"
    and "subscribe_from k (Some q) m oc = ((out, sent), oc')"
  shows "sent = (if sb_kind out = Resumed then filter (\<lambda>l. q < fst l) ls else map (\<lambda>c. (so_seq c, so_event c)) (rn_items (oc_replay oc)))"
    "sb_kind out = FromOldest \<longleftrightarrow> \<not> m" "sb_kind out = Truncated \<longleftrightarrow> m \<and> ls \<noteq> [] \<and> q < sb_oldest_seq out"
proof -
  let ?res = "replay_tail (Some q) m (rn_items (oc_replay oc))"
  note tail = subscribe_tail[OF assms(1-4), of "Some q" m]
  have out: "sent = map (\<lambda>c. (so_seq c, so_event c)) (snd ?res)" "sb_kind out = fst ?res"
    "sb_oldest_seq out = (case rn_items (oc_replay oc) of [] \<Rightarrow> 0 | c # _ \<Rightarrow> so_seq c)"
    using assms(5) by (auto simp: subscribe_from_def Let_def split_def)
  have "sent = (if sb_kind out = Resumed then filter (\<lambda>l. q < fst l) ls else map (\<lambda>c. (so_seq c, so_event c)) (rn_items (oc_replay oc))) \<and>
    (sb_kind out = FromOldest \<longleftrightarrow> \<not> m) \<and> (sb_kind out = Truncated \<longleftrightarrow> m \<and> ls \<noteq> [] \<and> q < sb_oldest_seq out)"
  proof (cases "ls = []")
    case True
    then show ?thesis unfolding out by (simp add: replay_tail_def assms(3))
  next
    case False
    then have items: "rn_items (oc_replay oc) = stored (ls ! d) # map stored (drop (Suc d) ls)"
      using assms(3,4) by (simp add: Cons_nth_drop_Suc[symmetric])
    have sent: "sent = (if m \<and> fst (ls ! d) \<le> q then filter (\<lambda>l. q < fst l) ls else drop d ls)"
    proof -
      have "snd ?res = map stored (if m \<and> fst (ls ! d) \<le> q then filter (\<lambda>l. q < fst l) ls else drop d ls)" using tail False by simp
      then show ?thesis unfolding out(1) by (simp only: sent_stored)
    qed
    have kind: "sb_kind out = (if \<not> m then FromOldest else if q < fst (ls ! d) then Truncated else Resumed)"
      unfolding out(2) by (simp add: replay_tail_def items)
    have oldest: "sb_oldest_seq out = fst (ls ! d)" unfolding out(3) by (simp add: items)
    have whole: "map (\<lambda>c. (so_seq c, so_event c)) (rn_items (oc_replay oc)) = drop d ls" by (simp only: assms(3) sent_stored)
    show ?thesis unfolding whole sent kind oldest using False by (auto simp: not_le)
  qed
  then show "sent = (if sb_kind out = Resumed then filter (\<lambda>l. q < fst l) ls else map (\<lambda>c. (so_seq c, so_event c)) (rn_items (oc_replay oc)))"
    "sb_kind out = FromOldest \<longleftrightarrow> \<not> m" "sb_kind out = Truncated \<longleftrightarrow> m \<and> ls \<noteq> [] \<and> q < sb_oldest_seq out" by blast+
qed

section \<open>No line is skipped\<close>

fun owed_in :: "sink_id \<Rightarrow> line \<Rightarrow> (sink_id \<times> line list) list \<Rightarrow> bool" where
  "owed_in k l [] = False"
| "owed_in k l ((j, ls) # work) \<longleftrightarrow> j = k \<and> l \<in> set ls \<or> owed_in k l work"

lemma owed_in_map [simp]: "owed_in k l (map (\<lambda>k. (k, ls)) ks) \<longleftrightarrow> k \<in> set ks \<and> l \<in> set ls"
  by (induction ks) auto

definition owes :: "sink_id \<Rightarrow> line \<Rightarrow> output_sys \<Rightarrow> bool" where
  "owes k l s \<longleftrightarrow> (\<exists>ls. TFanOut ls \<in> pend s \<and> l \<in> set ls) \<or>
     (\<exists>work dead. TSend work dead \<in> pend s \<and> owed_in k l work)"

definition subscribed :: "sink_id \<Rightarrow> u64 \<Rightarrow> output_sys \<Rightarrow> bool" where
  "subscribed k n s \<longleftrightarrow> (k, n) \<in> set (os_from s) \<and> k \<notin> set (os_failed s) \<and> k \<notin> set (os_left s)"

definition dead_ok :: "output_sys \<Rightarrow> bool" where
  "dead_ok s \<longleftrightarrow> (\<forall>w d. TSend w d \<in> pend s \<longrightarrow> set d \<subseteq> set (os_failed s)) \<and> (\<forall>d. TReap d \<in> pend s \<longrightarrow> set d \<subseteq> set (os_failed s))"

definition sub_ok :: "output_sys \<Rightarrow> bool" where
  "sub_ok s \<longleftrightarrow> dead_ok s \<and> (\<forall>k n. subscribed k n s \<longrightarrow> k \<in> set (oc_subscribers (os_core s)) \<and>
     (\<forall>l \<in> set (os_log s). n \<le> fst l \<longrightarrow> (k, fst l) \<in> set (os_got s) \<or> owes k l s))"

lemma owes_mono: "owes k l s \<Longrightarrow> pend s \<subseteq> pend s' \<Longrightarrow> owes k l s'"
  unfolding owes_def by blast

lemma sub_ok_more:
  assumes "sub_ok s" "\<And>k n. subscribed k n s' \<Longrightarrow> subscribed k n s" "os_log s' = os_log s"
    and "set (os_got s) \<subseteq> set (os_got s')" "pend s \<subseteq> pend s'" "dead_ok s'"
    and "\<And>k. k \<in> set (oc_subscribers (os_core s)) \<Longrightarrow> k \<notin> set (os_left s') \<Longrightarrow> k \<in> set (oc_subscribers (os_core s'))"
  shows "sub_ok s'"
  unfolding sub_ok_def
proof (intro conjI allI impI ballI)
  fix k n
  assume sub: "subscribed k n s'"
  have "k \<in> set (oc_subscribers (os_core s))" using assms(1) assms(2)[OF sub] by (simp add: sub_ok_def)
  then show "k \<in> set (oc_subscribers (os_core s'))" using assms(7) sub by (simp add: subscribed_def)
  fix l assume "l \<in> set (os_log s')" "n \<le> fst l"
  then have "(k, fst l) \<in> set (os_got s) \<or> owes k l s" using assms(1) assms(2)[OF sub] assms(3) by (auto simp: sub_ok_def)
  then show "(k, fst l) \<in> set (os_got s') \<or> owes k l s'" using assms(4) owes_mono[OF _ assms(5)] by blast
qed (rule assms(6))

lemma sub_ok_emission:
  assumes "sub_ok s" "emission s ls ts s'"
  shows "sub_ok s'"
proof -
  have em: "os_log s' = os_log s @ ls" "TFanOut ls \<in> pend s'" "pend s \<subseteq> pend s'" "os_got s' = os_got s" "os_from s' = os_from s"
    "os_failed s' = os_failed s" "os_left s' = os_left s" "oc_subscribers (os_core s') = oc_subscribers (os_core s)"
    using assms(2) by (auto simp: emission_def pend_def quiet_core_def)
  have dead: "dead_ok s'" using assms by (auto simp: emission_def sub_ok_def dead_ok_def pend_def)
  show ?thesis unfolding sub_ok_def
  proof (intro conjI allI impI ballI)
    fix k n
    assume "subscribed k n s'"
    then have sub: "subscribed k n s" by (simp add: subscribed_def em)
    then show "k \<in> set (oc_subscribers (os_core s'))" using assms(1) by (simp add: sub_ok_def em(8))
    fix l assume l: "l \<in> set (os_log s')" "n \<le> fst l"
    show "(k, fst l) \<in> set (os_got s') \<or> owes k l s'"
    proof (cases "l \<in> set ls")
      case True
      then show ?thesis using em(2) by (auto simp: owes_def)
    next
      case False
      then have "(k, fst l) \<in> set (os_got s) \<or> owes k l s" using l sub assms(1) by (auto simp: sub_ok_def em(1))
      then show ?thesis using owes_mono[of k l s s'] em(3,4) by metis
    qed
  qed (rule dead)
qed

text \<open>What a task gives a subscriber stays with it: got, or owed by what the task leaves behind.\<close>

lemma run_task_sub:
  assumes "run_task now ok t s = (us, s1)"
  shows "set (os_failed s) \<subseteq> set (os_failed s1)" "os_from s1 = os_from s" "os_left s1 = os_left s" "set (os_got s) \<subseteq> set (os_got s1)"
    and "k \<in> set (oc_subscribers (os_core s)) \<Longrightarrow> (\<And>d. t = TReap d \<Longrightarrow> k \<notin> set d) \<Longrightarrow> k \<in> set (oc_subscribers (os_core s1))"
    and "(\<And>w d. t = TSend w d \<Longrightarrow> set d \<subseteq> set (os_failed s)) \<Longrightarrow> TSend w d \<in> set us \<or> TReap d \<in> set us \<Longrightarrow> set d \<subseteq> set (os_failed s1)"
    and "l \<in> set (os_log s1) \<Longrightarrow> l \<in> set (os_log s) \<or> (\<exists>ls. TFanOut ls \<in> set us \<and> l \<in> set ls)"
proof -
  have "set (os_failed s) \<subseteq> set (os_failed s1) \<and> os_from s1 = os_from s \<and> os_left s1 = os_left s \<and> set (os_got s) \<subseteq> set (os_got s1) \<and>
    (k \<in> set (oc_subscribers (os_core s)) \<longrightarrow> (\<forall>d. t = TReap d \<longrightarrow> k \<notin> set d) \<longrightarrow> k \<in> set (oc_subscribers (os_core s1))) \<and>
    ((\<forall>w d. t = TSend w d \<longrightarrow> set d \<subseteq> set (os_failed s)) \<longrightarrow> TSend w d \<in> set us \<or> TReap d \<in> set us \<longrightarrow> set d \<subseteq> set (os_failed s1)) \<and>
    (l \<in> set (os_log s1) \<longrightarrow> l \<in> set (os_log s) \<or> (\<exists>ls. TFanOut ls \<in> set us \<and> l \<in> set ls))"
  proof (cases "t = TSeal")
    case True
    obtain ls oc where push: "push_list_events (map (\<lambda>row. QiDropped (qr_id row) AgentEnded) (rg_items (oc_registry (os_core s)))) (os_core s) = (ls, oc)"
      by fastforce
    show ?thesis using assms push_list_quiet[OF push] by (auto simp: True synthesize_ended_and_seal_def push quiet_core_def)
  next
    case False
    with assms show ?thesis
      by (cases "(now, ok, t, s)" rule: run_task.cases) (auto simp: set_exiting_def split: if_splits)
  qed
  then show "set (os_failed s) \<subseteq> set (os_failed s1)" "os_from s1 = os_from s" "os_left s1 = os_left s" "set (os_got s) \<subseteq> set (os_got s1)"
    "k \<in> set (oc_subscribers (os_core s)) \<Longrightarrow> (\<And>d. t = TReap d \<Longrightarrow> k \<notin> set d) \<Longrightarrow> k \<in> set (oc_subscribers (os_core s1))"
    "(\<And>w d. t = TSend w d \<Longrightarrow> set d \<subseteq> set (os_failed s)) \<Longrightarrow> TSend w d \<in> set us \<or> TReap d \<in> set us \<Longrightarrow> set d \<subseteq> set (os_failed s1)"
    "l \<in> set (os_log s1) \<Longrightarrow> l \<in> set (os_log s) \<or> (\<exists>ls. TFanOut ls \<in> set us \<and> l \<in> set ls)" by blast+
qed


lemma run_task_owes:
  assumes "run_task now ok t s = (us, s1)" "k \<in> set (oc_subscribers (os_core s))"
    and "(\<exists>ls. t = TFanOut ls \<and> l \<in> set ls) \<or> (\<exists>work dead. t = TSend work dead \<and> owed_in k l work)"
  shows "(k, fst l) \<in> set (os_got s1) \<or> k \<in> set (os_failed s1) \<or> (\<exists>work dead. TSend work dead \<in> set us \<and> owed_in k l work)"
  using assms by (cases "(now, ok, t, s)" rule: run_task.cases) (auto split: if_splits)

lemma sub_ok_thread:
  assumes "sub_ok s" "n < length (os_threads s)" "os_threads s ! n = t # ts" "run_task now ok t s = (us, s1)"
  shows "sub_ok (s1\<lparr>os_threads := (os_threads s)[n := us @ ts]\<rparr>)"
proof -
  let ?s = "s1\<lparr>os_threads := (os_threads s)[n := us @ ts]\<rparr>"
  note task = run_task_sub[OF assms(4)]
  note kept = pend_after(1)[OF assms(2,3), where us = us and ?s1.0 = s1]
  note fresh = pend_after(2)[OF assms(2,3), where us = us and ?s1.0 = s1]
  note left_behind = pend_after(3)[OF assms(2,3), where us = us and ?s1.0 = s1]
  have t: "t \<in> pend s" by (rule pend_after(5)[OF assms(2,3)])
  have dead: "dead_ok s" using assms(1) by (simp add: sub_ok_def)
  have send_t: "set d \<subseteq> set (os_failed s)" if "t = TSend w d" for w d using dead t that by (auto simp: dead_ok_def)
  have send_us: "TSend w d \<in> set us \<or> TReap d \<in> set us \<Longrightarrow> set d \<subseteq> set (os_failed s1)" for w d
    by (rule task(6)) (use send_t in auto)
  have dead': "dead_ok ?s" unfolding dead_ok_def
  proof (intro conjI allI impI)
    show "set d \<subseteq> set (os_failed ?s)" if "TSend w d \<in> pend ?s" for w d
      using fresh[OF that] send_us[of w d] task(1) dead by (auto simp: dead_ok_def)
    show "set d \<subseteq> set (os_failed ?s)" if "TReap d \<in> pend ?s" for d
      using fresh[OF that] send_us[of _ d] task(1) dead unfolding dead_ok_def by fastforce
  qed
  show ?thesis unfolding sub_ok_def
  proof (intro conjI allI impI ballI)
    fix k m
    assume sub': "subscribed k m ?s"
    then have sub: "subscribed k m s" using task(1-3) by (auto simp: subscribed_def)
    then have k: "k \<in> set (oc_subscribers (os_core s))" using assms(1) by (simp add: sub_ok_def)
    have "k \<notin> set d" if "t = TReap d" for d using dead t that sub by (auto simp: dead_ok_def subscribed_def)
    then show "k \<in> set (oc_subscribers (os_core ?s))" using task(5)[OF k] by simp
    fix l assume l: "l \<in> set (os_log ?s)" "m \<le> fst l"
    show "(k, fst l) \<in> set (os_got ?s) \<or> owes k l ?s"
    proof (cases "l \<in> set (os_log s)")
      case False
      then show ?thesis using task(7)[of l] l(1) left_behind by (fastforce simp: owes_def)
    next
      case True
      then consider "(k, fst l) \<in> set (os_got s)" | "owes k l s" using assms(1) sub l(2) by (auto simp: sub_ok_def)
      then show ?thesis
      proof cases
        case 1
        then show ?thesis using task(4) by auto
      next
        case 2
        show ?thesis
        proof (cases "(\<exists>ls. t = TFanOut ls \<and> l \<in> set ls) \<or> (\<exists>work dead. t = TSend work dead \<and> owed_in k l work)")
          case True
          from run_task_owes[OF assms(4) k True] show ?thesis using sub' left_behind unfolding owes_def subscribed_def by auto
        next
          case False
          then show ?thesis using 2 kept unfolding owes_def by metis
        qed
      qed
    qed
  qed (rule dead')
qed

lemma sub_ok_subscribe:
  assumes "core_ok s" "sub_ok s" "k \<notin> fst ` set (os_from s)"
  shows "sub_ok (sys_subscribe k after_seq m s)"
proof -
  let ?s = "sys_subscribe k after_seq m s"
  obtain out sent oc where res: "subscribe_from k after_seq m (os_core s) = ((out, sent), oc)" by (metis surj_pair)
  have got: "os_got ?s = os_got s @ map (\<lambda>l. (k, fst l)) sent" "os_from ?s = os_from s @ [(k, sb_replay_from out)]"
    by (simp_all add: sys_subscribe_def res)
  have pend: "pend ?s = pend s" by (simp add: pend_def)
  show ?thesis unfolding sub_ok_def
  proof (intro conjI allI impI ballI)
    show "dead_ok ?s" using assms(2) by (simp add: sub_ok_def dead_ok_def pend)
    fix j n
    assume sub: "subscribed j n ?s"
    show "j \<in> set (oc_subscribers (os_core ?s))" using sub assms(2) by (auto simp: subscribed_def sub_ok_def got)
    fix l assume l: "l \<in> set (os_log ?s)" "n \<le> fst l"
    show "(j, fst l) \<in> set (os_got ?s) \<or> owes j l ?s"
    proof (cases "(j, n) \<in> set (os_from s)")
      case True
      then show ?thesis using sub assms(2) l by (auto simp: subscribed_def sub_ok_def got owes_def pend)
    next
      case False
      then have "j = k" "n = sb_replay_from out" using sub by (auto simp: subscribed_def got)
      moreover have "log_ok (os_log s) (os_core s)" "length (os_log s) < 2 ^ 64" using assms(1) by (auto simp: core_ok_def)
      ultimately show ?thesis using replay_covers[OF _ _ res, of "os_log s" l] l by (simp add: got)
    qed
  qed
qed

lemma sub_ok_step:
  assumes "core_ok s" "sub_ok s" "core_pre op s"
  shows "sub_ok (core_do classify op s)"
  using assms(1,3) proof (cases rule: emission_cases[where classify = classify])
  case (emission ls ts)
  then show ?thesis using sub_ok_emission assms(2) by blast
next
  case (thread now ok n t ts us s1)
  show ?thesis unfolding thread(5) by (rule sub_ok_thread[OF assms(2) thread(2-4)])
next
  case (subscribe k after_seq m)
  then show ?thesis using sub_ok_subscribe[OF assms(1,2)] by simp
next
  case (unsubscribe k)
  show ?thesis unfolding unsubscribe
    by (rule sub_ok_more[OF assms(2)]) (use assms(2) in \<open>auto simp: sys_unsubscribe_def unsubscribe_def subscribed_def sub_ok_def dead_ok_def pend_def split: if_splits\<close>)
next
  case (finish reason)
  show ?thesis unfolding finish
    by (rule sub_ok_more[OF assms(2)]) (use assms(2) in \<open>auto simp: core_finish_def finish_tasks_def subscribed_def sub_ok_def dead_ok_def pend_def split: if_splits\<close>)
next
  case exiting
  show ?thesis unfolding exiting
    by (rule sub_ok_more[OF assms(2)]) (use assms(2) in \<open>auto simp: enter_exiting_def subscribed_def sub_ok_def dead_ok_def pend_def split: if_splits\<close>)
next
  case (turns top)
  show ?thesis unfolding turns(1)
    by (rule sub_ok_more[OF assms(2)]) (use assms(2) in \<open>auto simp: subscribed_def sub_ok_def dead_ok_def pend_def split: if_splits\<close>)
next
  case (inputs iop)
  show ?thesis unfolding inputs(1)
    by (rule sub_ok_more[OF assms(2)]) (use assms(2) in \<open>auto simp: subscribed_def sub_ok_def dead_ok_def pend_def split: if_splits\<close>)
next
  case (diagnostic l)
  show ?thesis unfolding diagnostic
    by (rule sub_ok_more[OF assms(2)]) (use assms(2) in \<open>auto simp: push_diagnostic_def Let_def subscribed_def sub_ok_def dead_ok_def pend_def split: if_splits\<close>)
qed (use assms in simp)

end
