(* ===== verification/Output_Facts.thy ===== *)
theory Output_Facts
  imports Output_Subs
begin

text \<open>
  The facts about an output core among its threads: the invariant of its reachable states, the termination of its
  threads and what both mean for a reader of the output, for the messaging service and for the end of the agent.
\<close>

section \<open>The invariant\<close>

definition sys_ok :: "output_sys \<Rightarrow> bool" where
  "sys_ok s \<longleftrightarrow> core_ok s \<and> end_ok s \<and> flag_ok s \<and> sub_ok s"

lemma push_lines_length: "length (fst (push_lines evs oc)) = length evs"
  by (induction evs arbitrary: oc) (auto simp: Let_def split: prod.splits, metis fst_conv)

lemma core_start_ok:
  assumes "list_all (\<lambda>ev. \<not> is_list_line ev) seeds" "length seeds < 2 ^ 64"
  shows "sys_ok (core_start i epoch seeds now tt pt)"
proof -
  let ?oc = "output_core_new i epoch True"
  obtain ls oc where push: "push_lines seeds ?oc = (ls, oc)" by fastforce
  have "log_ok [] ?oc"
    by (simp add: log_ok_def output_core_new_def replay_ring_ok_def replay_ring_new_def registry_run_def)
  note laws = push_lines_laws[OF push this assms(1)]
  have len: "length ls < 2 ^ 64" using push_lines_length[of seeds ?oc] assms(2) by (simp add: push)
  have new: "rg_items (oc_registry ?oc) = []" "\<not> oc_sealed ?oc" "\<not> oc_finalized ?oc" "oc_has_inputs ?oc" "oc_id ?oc = i" "oc_epoch ?oc = epoch"
    by (simp_all add: output_core_new_def registry_new_def)
  have core: "core_ok (core_start i epoch seeds now tt pt)"
    using laws len new by (auto simp: core_start_def core_seed_def push core_ok_def quiet_core_def pend_def)
  have flag: "flag_ok (core_start i epoch seeds now tt pt)"
    using laws new by (auto simp: core_start_def core_seed_def push flag_ok_def quiet_core_def pend_def own_inputs_def entry_of_register)
  show ?thesis using core flag laws new
    by (auto simp: sys_ok_def end_ok_def sub_ok_def dead_ok_def core_start_def core_seed_def push quiet_core_def pend_def subscribed_def)
qed

interpretation out: step_invariant core_init "core_step classify" sys_ok for classify
proof unfold_locales
  show "core_init s \<Longrightarrow> sys_ok s" for s by (induction rule: core_init.induct) (rule core_start_ok)
next
  fix s t
  assume ok: "sys_ok s" and step: "core_step classify s t"
  from step obtain op where op: "t = core_do classify op s" "core_pre op s" "length (os_log t) < 2 ^ 64" by (auto elim: core_stepE)
  then show "sys_ok t"
    using ok core_ok_step[of s op classify] end_ok_step[of s op classify] flag_ok_step[of s op classify] sub_ok_step[of s op classify]
    by (simp add: sys_ok_def)
qed

section \<open>Threads run out of tasks\<close>

fun weight :: "nat \<Rightarrow> nat \<Rightarrow> task \<Rightarrow> nat" where
  "weight subs open_rows (TFanOut ls) = 4 + subs * (length ls + 1)"
| "weight subs open_rows (TSend work dead) = 2 + sum_list (map (\<lambda>(k, ls). length ls + 1) work)"
| "weight subs open_rows TSeal = 5 + subs * (open_rows + 1)"
| "weight subs open_rows TRecheck = 2"
| "weight subs open_rows TExiting = 2"
| "weight subs open_rows _ = 1"

definition load :: "output_sys \<Rightarrow> nat" where
  "load s = sum_list (map (\<lambda>ts. sum_list (map (weight (length (oc_subscribers (os_core s))) (length (rg_items (oc_registry (os_core s))))) ts)) (os_threads s))"

lemma weight_mono: "a \<le> c \<Longrightarrow> b \<le> d \<Longrightarrow> weight a b t \<le> weight c d t"
  by (cases t) (auto intro!: add_mono mult_le_mono)

lemma weights_mono: "a \<le> c \<Longrightarrow> b \<le> d \<Longrightarrow> sum_list (map (weight a b) ts) \<le> sum_list (map (weight c d) ts)"
  by (induction ts) (auto intro: add_mono weight_mono)

lemma fan_weight: "sum_list (map (\<lambda>(k, ls). Suc (length ls)) (map (\<lambda>k. (k, lines)) ks)) = length ks + length ks * length lines"
  by (induction ks) (auto simp: comp_def)

lemma push_list_length: "push_list_events ops oc = (ls, oc') \<Longrightarrow> length ls = length ops"
  by (induction ops arbitrary: oc ls oc') (auto simp: Let_def split: prod.splits)

lemma run_task_load:
  assumes "run_task now ok t s = (us, s1)"
  defines "m \<equiv> length (oc_subscribers (os_core s))" and "m1 \<equiv> length (oc_subscribers (os_core s1))"
  defines "r \<equiv> length (rg_items (oc_registry (os_core s)))" and "r1 \<equiv> length (rg_items (oc_registry (os_core s1)))"
  shows "m1 \<le> m" "r1 \<le> r" "sum_list (map (weight m1 r1) us) < weight m r t"
    "length (os_log s1) + r1 \<le> length (os_log s) + r"
proof -
  have "m1 \<le> m \<and> r1 \<le> r \<and> sum_list (map (weight m1 r1) us) < weight m r t \<and> length (os_log s1) + r1 \<le> length (os_log s) + r"
  proof (cases "t = TSeal")
    case True
    obtain ls oc where push: "push_list_events (map (\<lambda>row. QiDropped (qr_id row) AgentEnded) (rg_items (oc_registry (os_core s)))) (os_core s) = (ls, oc)"
      by fastforce
    have "length ls = r" using push_list_length[OF push] by (simp add: r_def)
    then show ?thesis using assms(1) push_list_quiet[OF push] drop_all_items[OF refl push]
      by (auto simp: True synthesize_ended_and_seal_def push quiet_core_def m_def m1_def r_def r1_def)
  next
    case False
    with assms(1) show ?thesis unfolding m_def m1_def r_def r1_def
      by (cases "(now, ok, t, s)" rule: run_task.cases) (auto simp: set_exiting_def fan_weight simp del: map_map split: if_splits)
  qed
  then show "m1 \<le> m" "r1 \<le> r" "sum_list (map (weight m1 r1) us) < weight m r t" "length (os_log s1) + r1 \<le> length (os_log s) + r" by auto
qed

lemma run_thread_load:
  assumes "n < length (os_threads s)" "os_threads s ! n = t # ts" "run_task now ok t s = (us, s1)"
  shows "load (s1\<lparr>os_threads := (os_threads s)[n := us @ ts]\<rparr>) < load s"
proof -
  let ?w = "weight (length (oc_subscribers (os_core s))) (length (rg_items (oc_registry (os_core s))))"
  let ?w1 = "weight (length (oc_subscribers (os_core s1))) (length (rg_items (oc_registry (os_core s1))))"
  note l = run_task_load[OF assms(3)]
  have split: "os_threads s = take n (os_threads s) @ (t # ts) # drop (Suc n) (os_threads s)"
    using assms(1,2) by (metis id_take_nth_drop)
  have all: "sum_list (map (\<lambda>ts. sum_list (map ?w1 ts)) xss) \<le> sum_list (map (\<lambda>ts. sum_list (map ?w ts)) xss)" for xss
    by (induction xss) (auto intro!: add_mono weights_mono l)
  have one: "sum_list (map ?w1 ts) \<le> sum_list (map ?w ts)" by (intro weights_mono l)
  have "load s = sum_list (map (\<lambda>ts. sum_list (map ?w ts)) (take n (os_threads s))) + (?w t + sum_list (map ?w ts)) +
      sum_list (map (\<lambda>ts. sum_list (map ?w ts)) (drop (Suc n) (os_threads s)))"
    unfolding load_def by (subst split) simp
  moreover have "load (s1\<lparr>os_threads := (os_threads s)[n := us @ ts]\<rparr>) =
      sum_list (map (\<lambda>ts. sum_list (map ?w1 ts)) (take n (os_threads s))) + (sum_list (map ?w1 us) + sum_list (map ?w1 ts)) +
      sum_list (map (\<lambda>ts. sum_list (map ?w1 ts)) (drop (Suc n) (os_threads s)))"
    using assms(1) by (simp add: load_def upd_conv_take_nth_drop)
  ultimately show ?thesis using all[of "take n (os_threads s)"] all[of "drop (Suc n) (os_threads s)"] one l(3) by linarith
qed

lemma run_task_finalized:
  assumes "run_task now ok t s = (us, s1)"
  shows "oc_finalized (os_core s1) = oc_finalized (os_core s)"
proof (cases "t = TSeal")
  case True
  obtain ls oc where push: "push_list_events (map (\<lambda>row. QiDropped (qr_id row) AgentEnded) (rg_items (oc_registry (os_core s)))) (os_core s) = (ls, oc)"
    by fastforce
  show ?thesis using assms push_list_quiet[OF push] by (auto simp: True synthesize_ended_and_seal_def push quiet_core_def)
next
  case False
  with assms show ?thesis
    by (cases "(now, ok, t, s)" rule: run_task.cases) (auto simp: set_exiting_def split: if_splits)
qed

text \<open>A step of the threads alone: a thread that has a task left runs its next task. No call comes in from outside.\<close>

inductive thread_step :: "output_sys \<Rightarrow> output_sys \<Rightarrow> bool" where
  "n < length (os_threads s) \<Longrightarrow> os_threads s ! n \<noteq> [] \<Longrightarrow> length (os_log (run_thread now ok n s)) < 2 ^ 64 \<Longrightarrow>
   thread_step s (run_thread now ok n s)"

inductive_cases thread_stepE: "thread_step s s'"

definition room :: "output_sys \<Rightarrow> nat" where
  "room s = length (os_log s) + length (rg_items (oc_registry (os_core s)))"

lemma run_thread_nth:
  assumes "os_threads s ! n = t # ts" "run_task now ok t s = (us, s1)"
  shows "run_thread now ok n s = s1\<lparr>os_threads := (os_threads s)[n := us @ ts]\<rparr>"
  using run_task_frame[OF assms(2)] by (simp add: run_thread_def assms)

lemma run_thread_progress:
  fixes now :: instant and ok :: bool
  assumes "n < length (os_threads s)" "os_threads s ! n \<noteq> []"
  defines "s' \<equiv> run_thread now ok n s"
  shows "load s' < load s" "room s' \<le> room s" "oc_finalized (os_core s') = oc_finalized (os_core s)"
proof -
  obtain t ts where n: "os_threads s ! n = t # ts" using assms(2) by (metis list.exhaust)
  obtain us s1 where run: "run_task now ok t s = (us, s1)" by fastforce
  note do = run_thread_nth[OF n run]
  show "load s' < load s" unfolding s'_def do by (rule run_thread_load[OF assms(1) n run])
  show "room s' \<le> room s" unfolding s'_def do using run_task_load(4)[OF run] by (simp add: room_def)
  show "oc_finalized (os_core s') = oc_finalized (os_core s)" unfolding s'_def do by (simp add: run_task_finalized[OF run])
qed

lemma thread_step_progress:
  assumes "thread_step s s'"
  shows "load s' < load s" "room s' \<le> room s" "oc_finalized (os_core s') = oc_finalized (os_core s)"
  using assms by (auto elim!: thread_stepE simp: run_thread_progress)

lemma thread_steps_progress:
  "(thread_step ^^ k) s s' \<Longrightarrow> k + load s' \<le> load s \<and> room s' \<le> room s \<and> oc_finalized (os_core s') = oc_finalized (os_core s)"
proof (induction k arbitrary: s')
  case (Suc k)
  then obtain t where t: "(thread_step ^^ k) s t" "thread_step t s'" by (auto elim: relpowp_Suc_E)
  show ?case using Suc.IH[OF t(1)] thread_step_progress[OF t(2)] by linarith
qed simp

lemma thread_step_core: "thread_step s s' \<Longrightarrow> core_step classify s s'"
  using core_step.intros[of "OpThread now ok n" s classify for now ok n] by (auto elim!: thread_stepE)

lemma thread_steps_core: "thread_step\<^sup>*\<^sup>* s s' \<Longrightarrow> (core_step classify)\<^sup>*\<^sup>* s s'"
  by (induction rule: rtranclp_induct) (auto intro: rtranclp.rtrancl_into_rtrancl thread_step_core)

lemma busy_thread_steps:
  assumes "room s < 2 ^ 64" "ts \<in> set (os_threads s)" "ts \<noteq> []"
  shows "\<exists>s'. thread_step s s'"
proof -
  obtain n where n: "n < length (os_threads s)" "os_threads s ! n \<noteq> []" using assms(2,3) by (metis in_set_conv_nth)
  have "length (os_log (run_thread 0 True n s)) < 2 ^ 64"
    using run_thread_progress(2)[OF n, of 0 True] assms(1) by (simp add: room_def)
  then show ?thesis using thread_step.intros[OF n] by blast
qed

lemma threads_run_out: "\<exists>s'. thread_step\<^sup>*\<^sup>* s s' \<and> (\<nexists>s''. thread_step s' s'')"
proof (induction "load s" arbitrary: s rule: less_induct)
  case less
  show ?case
  proof (cases "\<exists>t. thread_step s t")
    case True
    then obtain t where t: "thread_step s t" by blast
    show ?thesis using less[OF thread_step_progress(1)[OF t]] t by (meson converse_rtranclp_into_rtranclp)
  qed blast
qed


section \<open>A run\<close>

text \<open>A subscriber, a text line, an input that waits in the queue of the agent and the end of the agent, with every task of
  every thread.\<close>

fun demo_classify :: "output_event \<Rightarrow> turn_signal option" where
  "demo_classify (TextDelta _ _ _) = Some SigProgress"
| "demo_classify _ = None"

fun play_ok :: "(output_event \<Rightarrow> turn_signal option) \<Rightarrow> core_op list \<Rightarrow> output_sys \<Rightarrow> bool" where
  "play_ok classify [] s = True"
| "play_ok classify (op # ops) s \<longleftrightarrow> core_pre op s \<and> length (os_log (core_do classify op s)) < 2 ^ 64 \<and> play_ok classify ops (core_do classify op s)"

lemma play_reachable:
  "play_ok classify ops s \<Longrightarrow> reachable core_init (core_step classify) s \<Longrightarrow>
   reachable core_init (core_step classify) (fold (core_do classify) ops s)"
proof (induction ops arbitrary: s)
  case (Cons op ops)
  then have "core_step classify s (core_do classify op s)" by (auto intro: core_step.intros)
  with Cons show ?case by (auto intro: reach_step)
qed simp

lemmas demo_eval = core_start_def core_seed_def output_core_new_def replay_ring_new_def REPLAY_MAX_BYTES_def REPLAY_MAX_EVENTS_def
  registry_new_def push_line_def ring_push_def Let_def turn_register_at_def inputs_register_def turn_entry_fresh_def
  sys_subscribe_def subscribe_from_def replay_tail_def emit_inner_def emit_list_event_def record_list_event_def rewritten_def
  fill_copy_def reduce_def on_queued_def find_row_def registry_is_empty_def list_step_tasks_def signal_tasks_def inputs_set_def
  run_thread_def observe_at_def observe_entry_def note_signal_def opt_len_def utf8_len_def utf8_char_len_def
  core_finish_def finish_tasks_def synthesize_ended_and_seal_def on_dropped_def close_row_def turn_forget_def inputs_forget_def
  saturating_succ_def
definition demo_start :: output_sys where
  "demo_start = core_start 1 5 [ErrorLine [104]] 0 [] []"

lemma demo_start_reachable: "reachable core_init (core_step demo_classify) demo_start"
  unfolding demo_start_def by (rule reach_init) (rule core_init.intros, simp_all)

definition demo_live_ops :: "core_op list" where
  "demo_live_ops = [OpSubscribe 7 (Some 0) True, OpEmit True (TextDelta [104] None None), OpEmit True (QueuedInputLine (QiQueued [1] [2])),
     OpThread 3 True 1, OpThread 3 True 0, OpThread 3 True 1, OpThread 3 True 1, OpThread 3 True 1,
     OpThread 3 True 0, OpThread 3 True 0, OpThread 3 True 0, OpThread 3 True 0, OpThread 3 True 0]"

definition demo_live :: output_sys where
  "demo_live = fold (core_do demo_classify) demo_live_ops demo_start"

definition demo_end_ops :: "core_op list" where
  "demo_end_ops = [OpFinish TrmKilled, OpThread 4 True 2, OpThread 4 True 2, OpThread 4 True 2, OpThread 4 True 2,
     OpThread 4 True 2, OpThread 4 True 2, OpThread 4 True 2, OpThread 4 True 2, OpThread 4 True 2, OpThread 4 True 2]"

definition demo_end :: output_sys where
  "demo_end = fold (core_do demo_classify) demo_end_ops demo_live"

lemma demo_live_reachable: "reachable core_init (core_step demo_classify) demo_live"
proof -
  have "play_ok demo_classify demo_live_ops demo_start" by (simp add: demo_live_ops_def demo_start_def demo_eval)
  then show ?thesis unfolding demo_live_def using demo_start_reachable by (rule play_reachable)
qed

lemma demo_end_reachable: "reachable core_init (core_step demo_classify) demo_end"
proof -
  have "play_ok demo_classify demo_end_ops demo_live"
    by (simp add: demo_end_ops_def demo_live_def demo_live_ops_def demo_start_def demo_eval)
  then show ?thesis unfolding demo_end_def using demo_live_reachable by (rule play_reachable)
qed

lemma demo_end_idle: "\<forall>ts \<in> set (os_threads demo_end). ts = []"
  by (simp add: demo_end_def demo_end_ops_def demo_live_def demo_live_ops_def demo_start_def demo_eval)

lemma demo_live_idle: "\<forall>ts \<in> set (os_threads demo_live). ts = []"
  by (simp add: demo_live_def demo_live_ops_def demo_start_def demo_eval)

section \<open>What a reachable core promises\<close>

lemma idle_pend: "\<forall>ts \<in> set (os_threads s). ts = [] \<Longrightarrow> pend s = {}"
  by (simp add: pend_def)

text \<open>C19. The replay ring is a window on the output. In every reachable state the lines the core numbered are numbered
  from zero without a hole; the ring holds the newest of them, at least one when there is any, and at most 2 MiB and 4096
  events unless it holds a single line; and the registry of pending inputs is what the list lines, read in the order of
  their numbers, make of an empty one.\<close>
theorem ring_window_exact:
  assumes "reachable core_init (core_step classify) s"
  shows "map fst (os_log s) = map of_nat [0..<length (os_log s)] \<and> oc_seq (os_core s) = of_nat (length (os_log s)) \<and>
    (\<exists>d. rn_items (oc_replay (os_core s)) = map stored (drop d (os_log s))) \<and>
    (os_log s \<noteq> [] \<longrightarrow> rn_items (oc_replay (os_core s)) \<noteq> []) \<and>
    (length (rn_items (oc_replay (os_core s))) \<le> 1 \<or>
      sum_list (map so_cost (rn_items (oc_replay (os_core s)))) \<le> REPLAY_MAX_BYTES \<and>
      length (rn_items (oc_replay (os_core s))) \<le> REPLAY_MAX_EVENTS) \<and>
    oc_registry (os_core s) = snd (registry_run (list_lines (os_log s)))"
proof -
  have "log_ok (os_log s) (os_core s)" using out.inv_reachable[OF assms] by (simp add: sys_ok_def core_ok_def)
  then show ?thesis by (auto simp: log_ok_def replay_ring_ok_def)
qed

theorem ring_window_exact_witness:
  "length (os_log demo_live) = 3 \<and> oc_seq (os_core demo_live) = of_nat (length (os_log demo_live))"
  using ring_window_exact[OF demo_live_reachable] by (simp add: demo_live_def demo_live_ops_def demo_start_def demo_eval)

text \<open>C21. A subscriber that resumes after line \<open>s\<close> of the same incarnation gets exactly the lines after \<open>s\<close>, all of them
  and no other, unless the answer is not \<open>Resumed\<close>: then it gets the whole ring. The answer is \<open>Truncated\<close> exactly when
  \<open>s\<close> is older than the oldest retained line. Whatever the answer, every line from the promised number on is in the
  replay.\<close>
theorem resume_exact:
  assumes "reachable core_init (core_step classify) s"
    and "subscribe_from k (Some q) m (os_core s) = ((out, sent), oc)"
  shows "sent = (if sb_kind out = Resumed then filter (\<lambda>l. q < fst l) (os_log s)
                 else map (\<lambda>c. (so_seq c, so_event c)) (rn_items (oc_replay (os_core s)))) \<and>
    (sb_kind out = FromOldest \<longleftrightarrow> \<not> m) \<and>
    (sb_kind out = Truncated \<longleftrightarrow> m \<and> os_log s \<noteq> [] \<and> q < sb_oldest_seq out) \<and>
    (\<forall>l \<in> set (os_log s). sb_replay_from out \<le> fst l \<longrightarrow> l \<in> set sent)"
proof -
  have ok: "log_ok (os_log s) (os_core s)" "length (os_log s) < 2 ^ 64"
    using out.inv_reachable[OF assms(1)] by (simp_all add: sys_ok_def core_ok_def)
  obtain d where d: "rn_items (oc_replay (os_core s)) = map stored (drop d (os_log s))" "os_log s \<noteq> [] \<Longrightarrow> d < length (os_log s)"
    using ring_window[OF ok(1)] by blast
  show ?thesis using subscribe_kind[OF ok d assms(2)] replay_covers[OF ok assms(2)] by blast
qed

theorem resume_exact_witness:
  "snd (fst (subscribe_from 9 (Some 1) True (os_core demo_live))) = filter (\<lambda>l. 1 < fst l) (os_log demo_live) \<and>
   map fst (filter (\<lambda>l. 1 < fst l) (os_log demo_live)) = [2]"
proof -
  let ?res = "subscribe_from 9 (Some 1) True (os_core demo_live)"
  have "sb_kind (fst (fst ?res)) = Resumed" "map fst (filter (\<lambda>l. 1 < fst l) (os_log demo_live)) = [2]"
    by (simp_all add: demo_live_def demo_live_ops_def demo_start_def demo_eval)
  then show ?thesis using resume_exact[OF demo_live_reachable, of 9 1 True "fst (fst ?res)" "snd (fst ?res)" "snd ?res"] by simp
qed

text \<open>C16. The flag of pending inputs never hides an open input: while the registry holds one, the entry of the incarnation in
  the shared table says so. And when every thread has done its tasks, the flag says exactly whether an input is open,
  whatever the order in which the threads wrote it.\<close>
theorem pending_flag_exact:
  assumes "reachable core_init (core_step classify) s"
    and "inputs_get (oc_id (os_core s)) (oc_epoch (os_core s)) (os_inputs s) = Some flag"
  shows "(rg_items (oc_registry (os_core s)) \<noteq> [] \<longrightarrow> flag) \<and>
    ((\<forall>ts \<in> set (os_threads s). ts = []) \<longrightarrow> flag = (rg_items (oc_registry (os_core s)) \<noteq> []))"
proof -
  have ok: "core_ok s" "end_ok s" "flag_ok s" using out.inv_reachable[OF assms(1)] by (simp_all add: sys_ok_def)
  obtain e where e: "own_inputs s = Some e" "flag = pe_pending e" using assms(2) by (auto simp: inputs_get_entry own_inputs_def)
  have "\<not> oc_sealed (os_core s)" if "\<forall>ts \<in> set (os_threads s). ts = []"
    using idle_pend[OF that] ok(1,2) e(1) by (auto simp: core_ok_def end_ok_def)
  then show ?thesis using ok(3) idle_pend[of s] by (auto simp: flag_ok_def e)
qed

theorem pending_flag_exact_witness:
  "inputs_get 1 5 (os_inputs demo_live) = Some True \<and> rg_items (oc_registry (os_core demo_live)) \<noteq> []"
proof -
  have at: "oc_id (os_core demo_live) = 1" "oc_epoch (os_core demo_live) = 5" "inputs_get 1 5 (os_inputs demo_live) = Some True"
    by (simp_all add: demo_live_def demo_live_ops_def demo_start_def demo_eval inputs_get_def)
  then show ?thesis using pending_flag_exact[OF demo_live_reachable, of True] demo_live_idle by simp
qed

text \<open>C14. The end of an agent leaves nothing behind. Once the core has finished and its threads have done their tasks, the
  incarnation has no entry in the two shared tables, so the idle gate of the messaging service knows nothing of it; no
  input is open, none can be opened, and the status is terminal.\<close>
theorem finished_leaves_nothing:
  assumes "reachable core_init (core_step classify) s" "oc_finalized (os_core s)" "\<forall>ts \<in> set (os_threads s). ts = []"
  shows "turn_get (oc_id (os_core s)) (oc_epoch (os_core s)) (os_turns s) = None \<and>
    inputs_get (oc_id (os_core s)) (oc_epoch (os_core s)) (os_inputs s) = None \<and>
    manager_turn_fact now (os_inputs s) (os_turns s) (oc_id (os_core s), oc_epoch (os_core s)) = None \<and>
    rg_items (oc_registry (os_core s)) = [] \<and> oc_sealed (os_core s) \<and> \<not> status_is_live (oc_status (os_core s))"
proof -
  have ok: "core_ok s" "end_ok s" using out.inv_reachable[OF assms(1)] by (simp_all add: sys_ok_def)
  have "own_turn s = None" "own_inputs s = None" "oc_sealed (os_core s)" "\<not> status_is_live (oc_status (os_core s))"
    using ok(2) assms(2) idle_pend[OF assms(3)] by (auto simp: end_ok_def)
  then show ?thesis using ok(1) by (simp add: core_ok_def own_turn_def own_inputs_def inputs_get_entry manager_turn_fact_def)
qed

theorem finished_leaves_nothing_witness:
  "manager_turn_fact 9 (os_inputs demo_end) (os_turns demo_end) (oc_id (os_core demo_end), oc_epoch (os_core demo_end)) = None \<and>
   length (os_log demo_end) = 4"
proof -
  have "oc_finalized (os_core demo_end)" "length (os_log demo_end) = 4" by (simp_all add: demo_end_def demo_end_ops_def demo_live_def demo_live_ops_def demo_start_def demo_eval)
  then show ?thesis using finished_leaves_nothing[OF demo_end_reachable _ demo_end_idle, of 9] by simp
qed

text \<open>C15. No line is skipped. A subscriber to which no send failed and that has not left is still subscribed, and every line
  from the number its subscription promised on was handed to it or is still owed to it by a thread; when the threads have
  done their tasks, every one was handed to it.\<close>
theorem subscriber_no_gap:
  assumes "reachable core_init (core_step classify) s" "(k, n) \<in> set (os_from s)" "k \<notin> set (os_failed s)" "k \<notin> set (os_left s)"
  shows "k \<in> set (oc_subscribers (os_core s)) \<and>
    (\<forall>l \<in> set (os_log s). n \<le> fst l \<longrightarrow> (k, fst l) \<in> set (os_got s) \<or> owes k l s) \<and>
    ((\<forall>ts \<in> set (os_threads s). ts = []) \<longrightarrow> (\<forall>l \<in> set (os_log s). n \<le> fst l \<longrightarrow> (k, fst l) \<in> set (os_got s)))"
proof -
  have "sub_ok s" using out.inv_reachable[OF assms(1)] by (simp add: sys_ok_def)
  then have "k \<in> set (oc_subscribers (os_core s)) \<and>
      (\<forall>l \<in> set (os_log s). n \<le> fst l \<longrightarrow> (k, fst l) \<in> set (os_got s) \<or> owes k l s)"
    using assms(2-4) unfolding sub_ok_def subscribed_def by blast
  moreover have "\<not> owes k l s" if "\<forall>ts \<in> set (os_threads s). ts = []" for l
    using idle_pend[OF that] by (simp add: owes_def)
  ultimately show ?thesis by blast
qed

theorem subscriber_no_gap_witness: "(7, 2) \<in> set (os_got demo_live) \<and> 7 \<in> set (oc_subscribers (os_core demo_live))"
proof -
  have "(7, 1) \<in> set (os_from demo_live)" "7 \<notin> set (os_failed demo_live)" "7 \<notin> set (os_left demo_live)"
    "(2, QueuedInputLine (QiQueued [1] [2])) \<in> set (os_log demo_live)"
    by (simp_all add: demo_live_def demo_live_ops_def demo_start_def demo_eval)
  then show ?thesis using subscriber_no_gap[OF demo_live_reachable, of 7 1] demo_live_idle by fastforce
qed

text \<open>C22. Every call's work comes to an end, by the threads alone. From every reachable state in which the 64-bit counter of
  lines has room for one more line per open input, take any run in which the threads only run the tasks they hold and nothing is
  called from outside, in any order, with sends that succeed or fail. The run has at most \<^verbatim>\<open>load s\<close> steps; wherever it is, a
  thread can go on exactly if one has a task left; it never leaves the reachable states nor changes whether the core is finished.
  So it can be completed, and a completed run has no task left.\<close>
theorem threads_finish:
  assumes "reachable core_init (core_step classify) s"
    and "length (os_log s) + length (rg_items (oc_registry (os_core s))) < 2 ^ 64"
  shows "(\<forall>k s'. (thread_step ^^ k) s s' \<longrightarrow> k \<le> load s \<and> reachable core_init (core_step classify) s' \<and>
      ((\<nexists>s''. thread_step s' s'') \<longleftrightarrow> (\<forall>ts \<in> set (os_threads s'). ts = [])) \<and>
      oc_finalized (os_core s') = oc_finalized (os_core s)) \<and>
    (\<exists>s'. thread_step\<^sup>*\<^sup>* s s' \<and> (\<forall>ts \<in> set (os_threads s'). ts = []))"
proof (intro conjI)
  have idle: "(\<nexists>s''. thread_step s' s'') \<longleftrightarrow> (\<forall>ts \<in> set (os_threads s'). ts = [])" if run: "(thread_step ^^ k) s s'" for k s'
  proof -
    have "room s' < 2 ^ 64" using thread_steps_progress[OF run] assms(2) by (simp add: room_def)
    then show ?thesis using busy_thread_steps[of s'] by (fastforce elim: thread_stepE)
  qed
  show "\<forall>k s'. (thread_step ^^ k) s s' \<longrightarrow> k \<le> load s \<and> reachable core_init (core_step classify) s' \<and>
      ((\<nexists>s''. thread_step s' s'') \<longleftrightarrow> (\<forall>ts \<in> set (os_threads s'). ts = [])) \<and>
      oc_finalized (os_core s') = oc_finalized (os_core s)"
    using idle thread_steps_progress reachable_star[OF thread_steps_core assms(1)] relpowp_imp_rtranclp
    by (metis add_leD1)
  show "\<exists>s'. thread_step\<^sup>*\<^sup>* s s' \<and> (\<forall>ts \<in> set (os_threads s'). ts = [])"
    using threads_run_out[of s] idle by (metis rtranclp_imp_relpowp)
qed

theorem threads_finish_witness:
  "\<exists>s'. thread_step\<^sup>*\<^sup>* (core_finish TrmKilled demo_live) s' \<and> pend s' = {} \<and> oc_finalized (os_core s')"
proof -
  let ?s = "core_finish TrmKilled demo_live"
  have "core_step demo_classify demo_live ?s"
    using core_step.intros[of "OpFinish TrmKilled" demo_live demo_classify] by (simp add: demo_live_def demo_live_ops_def demo_start_def demo_eval)
  then have reach: "reachable core_init (core_step demo_classify) ?s" using demo_live_reachable by (rule reach_step[rotated])
  have len: "length (os_log ?s) + length (rg_items (oc_registry (os_core ?s))) < 2 ^ 64" and fin: "oc_finalized (os_core ?s)"
    by (simp_all add: demo_live_def demo_live_ops_def demo_start_def demo_eval)
  obtain s' where s': "thread_step\<^sup>*\<^sup>* ?s s'" "\<forall>ts \<in> set (os_threads s'). ts = []" using threads_finish[OF reach len] by blast
  moreover obtain k where "(thread_step ^^ k) ?s s'" using s'(1) by (metis rtranclp_imp_relpowp)
  ultimately show ?thesis using threads_finish[OF reach len] fin idle_pend by metis
qed

end
