(* ===== verification/Wire_Frame.thy ===== *)
theory Wire_Frame
  imports Eg_Prelude
begin

text \<open>
  The binary frames of the output path: the codec \<^verbatim>\<open>crates/engram-dashboard-protocol/src/codec.rs\<close>, the placeholder frame
  \<^verbatim>\<open>placeholder.rs\<close>, and the replay boundary marker the desktop shell sends its windows,
  \<^verbatim>\<open>src-tauri/src/daemon_client/replay_flight.rs\<close>, with the reader of the windows, \<^verbatim>\<open>src/api/wsFrame.ts\<close>.

  A frame is a list of bytes; numbers are big-endian at their width. An agent identifier is its 16 bytes read as a
  number. The windows read the generation of a marker as a bigint, at its 64 bits, and turn the number of the first
  replayed line into a JavaScript number: \<open>js_number\<close> is that conversion.
\<close>

section \<open>Big-endian numbers\<close>

type_synonym byte = "8 word"

text \<open>\<^verbatim>\<open>to_be_bytes\<close> and \<^verbatim>\<open>from_be_bytes\<close> for a number of \<open>n\<close> bytes.\<close>

fun be_nat :: "nat \<Rightarrow> nat \<Rightarrow> byte list" where
  "be_nat 0 k = []"
| "be_nat (Suc n) k = be_nat n (k div 256) @ [of_nat k]"

definition nat_be :: "byte list \<Rightarrow> nat" where
  "nat_be bs = foldl (\<lambda>k b. k * 256 + unat b) 0 bs"

definition to_be :: "'a::len word \<Rightarrow> byte list" where
  "to_be w = be_nat (LENGTH('a) div 8) (unat w)"

definition from_be :: "byte list \<Rightarrow> 'a::len word" where
  "from_be bs = of_nat (nat_be bs)"

lemma length_be_nat [simp]: "length (be_nat n k) = n"
  by (induction n arbitrary: k) auto

lemma length_to_be [simp]: "length (to_be (w :: 'a::len word)) = LENGTH('a) div 8"
  by (simp add: to_be_def)

lemma nat_be_snoc: "nat_be (bs @ [b]) = nat_be bs * 256 + unat b"
  by (simp add: nat_be_def)

lemma nat_be_nat: "nat_be (be_nat n k) = k mod 256 ^ n"
proof (induction n arbitrary: k)
  case (Suc n)
  have "nat_be (be_nat (Suc n) k) = (k div 256) mod 256 ^ n * 256 + k mod 256"
    using Suc by (simp add: nat_be_snoc unat_of_nat take_bit_eq_mod)
  also have "\<dots> = k mod 256 ^ Suc n" by (simp add: mod_mult2_eq)
  finally show ?case .
qed (simp add: nat_be_def)

lemma from_to_be:
  assumes "LENGTH('a) = 8 * n"
  shows "from_be (to_be (w :: 'a::len word)) = w"
proof -
  have "(256::nat) ^ n = 2 ^ LENGTH('a)" using power_mult[of "2::nat" 8 n] by (simp add: assms)
  moreover have "unat w < 2 ^ LENGTH('a)" by (rule unat_bound)
  ultimately show ?thesis by (simp add: from_be_def to_be_def nat_be_nat assms)
qed

lemma from_to_be_widths [simp]:
  "from_be (to_be (w32 :: 32 word)) = w32" "from_be (to_be (w64 :: 64 word)) = w64" "from_be (to_be (w128 :: 128 word)) = w128"
  using from_to_be[where 'a = 32, of 4] from_to_be[where 'a = 64, of 8] from_to_be[where 'a = 128, of 16] by simp_all

section \<open>Output frames\<close>

definition FRAME_TAG_TERMINAL_BYTES :: byte where
  "FRAME_TAG_TERMINAL_BYTES = 0"

definition FRAME_TAG_STRUCTURED_EVENT :: byte where
  "FRAME_TAG_STRUCTURED_EVENT = 1"

definition FRAME_HEADER_LEN :: nat where
  "FRAME_HEADER_LEN = 1 + 16 + 4 + 8"

datatype codec_error = TooShort nat | UnknownTag byte

record frame_header =
  fh_tag :: byte
  fh_agent_id :: peer_id
  fh_epoch :: u32
  fh_seq :: u64

definition encode_frame :: "byte \<Rightarrow> peer_id \<Rightarrow> u32 \<Rightarrow> u64 \<Rightarrow> byte list \<Rightarrow> byte list" where
  "encode_frame tag agent_id epoch seq payload = [tag] @ to_be agent_id @ to_be epoch @ to_be seq @ payload"

definition encode_terminal_frame :: "peer_id \<Rightarrow> u32 \<Rightarrow> u64 \<Rightarrow> byte list \<Rightarrow> byte list" where
  "encode_terminal_frame agent_id epoch seq payload = encode_frame FRAME_TAG_TERMINAL_BYTES agent_id epoch seq payload"

definition encode_structured_frame :: "peer_id \<Rightarrow> u32 \<Rightarrow> u64 \<Rightarrow> byte list \<Rightarrow> byte list" where
  "encode_structured_frame agent_id epoch seq payload = encode_frame FRAME_TAG_STRUCTURED_EVENT agent_id epoch seq payload"

definition slice :: "nat \<Rightarrow> nat \<Rightarrow> byte list \<Rightarrow> byte list" where
  "slice i j bs = take (j - i) (drop i bs)"

definition peek_frame_header :: "byte list \<Rightarrow> codec_error + frame_header" where
  "peek_frame_header buf = (
     if length buf < FRAME_HEADER_LEN then Inl (TooShort (length buf))
     else Inr \<lparr>fh_tag = buf ! 0, fh_agent_id = from_be (slice 1 17 buf), fh_epoch = from_be (slice 17 21 buf),
               fh_seq = from_be (slice 21 29 buf)\<rparr>)"

definition decode_frame :: "byte list \<Rightarrow> codec_error + (frame_header \<times> byte list)" where
  "decode_frame buf = (case peek_frame_header buf of
     Inl e \<Rightarrow> Inl e
   | Inr header \<Rightarrow>
       if fh_tag header \<noteq> FRAME_TAG_TERMINAL_BYTES \<and> fh_tag header \<noteq> FRAME_TAG_STRUCTURED_EVENT then Inl (UnknownTag (fh_tag header))
       else Inr (header, drop FRAME_HEADER_LEN buf))"

text \<open>The payload of a placeholder, in UTF-8: an error event with a fixed wording.\<close>

definition PLACEHOLDER_ERROR_PAYLOAD :: "byte list" where
  "PLACEHOLDER_ERROR_PAYLOAD = map of_nat [123, 34, 116, 121, 112, 101, 34, 58, 34, 69, 114, 114, 111, 114, 34, 44, 34, 109, 101, 115,
     115, 97, 103, 101, 34, 58, 34, 236, 157, 180, 32, 236, 182, 156, 235, 160, 165, 32, 236, 130, 172, 234, 177, 180, 236, 157, 132,
     32, 236, 139, 163, 236, 167, 128, 32, 235, 170, 187, 237, 150, 136, 236, 138, 181, 235, 139, 136, 235, 139, 164, 34, 125]"

definition placeholder_error_frame :: "peer_id \<Rightarrow> u32 \<Rightarrow> u64 \<Rightarrow> byte list" where
  "placeholder_error_frame agent_id epoch seq = encode_structured_frame agent_id epoch seq PLACEHOLDER_ERROR_PAYLOAD"

section \<open>The replay boundary marker\<close>

definition MARKER_TAG :: byte where
  "MARKER_TAG = 255"

definition MARKER_FRAME_LEN :: nat where
  "MARKER_FRAME_LEN = 1 + 16 + 4 + 8 + 1 + 8"

record marker =
  mk_generation :: u64
  mk_truncated :: bool
  mk_failed :: bool
  mk_continues :: bool
  mk_replay_from :: u64

definition marker_flags :: "marker \<Rightarrow> byte" where
  "marker_flags m = or (or (if mk_truncated m then 1 else 0) (if mk_failed m then 2 else 0))
     (if mk_continues m \<and> \<not> mk_failed m then 4 else 0)"

definition encode_marker_frame :: "peer_id \<Rightarrow> u32 \<Rightarrow> marker \<Rightarrow> byte list" where
  "encode_marker_frame agent_id epoch m =
     [MARKER_TAG] @ to_be agent_id @ to_be epoch @ to_be (mk_generation m) @ [marker_flags m] @ to_be (mk_replay_from m)"

text \<open>\<^verbatim>\<open>decodeReplayMarker\<close> of the windows reads the fields at fixed places; these are the 64-bit values that
  \<^verbatim>\<open>getBigUint64\<close> hands out.\<close>

definition decode_replay_marker :: "byte list \<Rightarrow> (peer_id \<times> u32 \<times> marker) option" where
  "decode_replay_marker buf = (
     if length buf < MARKER_FRAME_LEN then None
     else if buf ! 0 \<noteq> MARKER_TAG then None
     else Some (from_be (slice 1 17 buf), from_be (slice 17 21 buf),
       \<lparr>mk_generation = from_be (slice 21 29 buf), mk_truncated = and (buf ! 29) 1 \<noteq> 0, mk_failed = and (buf ! 29) 2 \<noteq> 0,
        mk_continues = and (buf ! 29) 4 \<noteq> 0, mk_replay_from = from_be (slice 30 38 buf)\<rparr>))"

text \<open>What it returns: \<^verbatim>\<open>Number\<close> of a bigint is the nearest number of 53 significant bits, the even one of two.\<close>

fun js_unit :: "nat \<Rightarrow> nat" where
  "js_unit k = (if k < 2 ^ 53 then 1 else 2 * js_unit (k div 2))"

declare js_unit.simps [simp del]

definition js_number :: "nat \<Rightarrow> nat" where
  "js_number k = (
     let unit = js_unit k; q = k div unit; r = k mod unit
     in (if 2 * r < unit \<or> 2 * r = unit \<and> even q then q else q + 1) * unit)"

record window_marker =
  wm_agent_id :: peer_id
  wm_epoch :: u32
  wm_gen :: u64
  wm_truncated :: bool
  wm_failed :: bool
  wm_continues_conversation :: bool
  wm_replay_from :: nat

definition decode_window_marker :: "byte list \<Rightarrow> window_marker option" where
  "decode_window_marker buf = map_option (\<lambda>(agent_id, epoch, m).
     \<lparr>wm_agent_id = agent_id, wm_epoch = epoch, wm_gen = mk_generation m, wm_truncated = mk_truncated m, wm_failed = mk_failed m,
      wm_continues_conversation = mk_continues m, wm_replay_from = js_number (unat (mk_replay_from m))\<rparr>) (decode_replay_marker buf)"

section \<open>Fields\<close>

lemma slice_append: "length xs = i \<Longrightarrow> length ys = j - i \<Longrightarrow> slice i j (xs @ ys @ zs) = ys"
  by (simp add: slice_def)

lemma frame_fields:
  "slice 1 17 ([t] @ to_be (a :: 128 word) @ to_be (e :: 32 word) @ to_be (n :: 64 word) @ rest) = to_be a"
  "slice 17 21 ([t] @ to_be (a :: 128 word) @ to_be (e :: 32 word) @ to_be (n :: 64 word) @ rest) = to_be e"
  "slice 21 29 ([t] @ to_be (a :: 128 word) @ to_be (e :: 32 word) @ to_be (n :: 64 word) @ rest) = to_be n"
  "drop 29 ([t] @ to_be (a :: 128 word) @ to_be (e :: 32 word) @ to_be (n :: 64 word) @ rest) = rest"
  by (simp_all add: slice_def)

lemma peek_encode:
  "peek_frame_header (encode_frame tag a e n payload) = Inr \<lparr>fh_tag = tag, fh_agent_id = a, fh_epoch = e, fh_seq = n\<rparr>"
  unfolding encode_frame_def peek_frame_header_def FRAME_HEADER_LEN_def frame_fields from_to_be_widths by simp

lemma decode_encode:
  assumes "t = FRAME_TAG_TERMINAL_BYTES \<or> t = FRAME_TAG_STRUCTURED_EVENT"
  shows "decode_frame (encode_frame t a e n p) = Inr (\<lparr>fh_tag = t, fh_agent_id = a, fh_epoch = e, fh_seq = n\<rparr>, p)"
    "decode_replay_marker (encode_frame t a e n p) = None"
proof -
  have tail: "drop FRAME_HEADER_LEN (encode_frame t a e n p) = p"
    unfolding encode_frame_def FRAME_HEADER_LEN_def using frame_fields(4) by simp
  show "decode_frame (encode_frame t a e n p) = Inr (\<lparr>fh_tag = t, fh_agent_id = a, fh_epoch = e, fh_seq = n\<rparr>, p)"
    using assms by (auto simp: decode_frame_def peek_encode tail)
  show "decode_replay_marker (encode_frame t a e n p) = None"
    using assms by (auto simp: decode_replay_marker_def encode_frame_def MARKER_TAG_def FRAME_TAG_TERMINAL_BYTES_def FRAME_TAG_STRUCTURED_EVENT_def)
qed

lemma length_marker: "length (encode_marker_frame a e m) = MARKER_FRAME_LEN"
  by (simp add: encode_marker_frame_def MARKER_FRAME_LEN_def)

lemma decode_marker:
  "decode_replay_marker (encode_marker_frame a e m) = Some (a, e, m\<lparr>mk_continues := mk_continues m \<and> \<not> mk_failed m\<rparr>)"
proof -
  have flags: "(and (marker_flags m) 1 \<noteq> 0) = mk_truncated m" "(and (marker_flags m) 2 \<noteq> 0) = mk_failed m"
    "(and (marker_flags m) 4 \<noteq> 0) = (mk_continues m \<and> \<not> mk_failed m)"
    by (simp_all add: marker_flags_def)
  have byte29: "encode_marker_frame a e m ! 29 = marker_flags m" and from30: "slice 30 38 (encode_marker_frame a e m) = to_be (mk_replay_from m)"
    by (simp_all add: encode_marker_frame_def nth_append slice_def)
  have head: "encode_marker_frame a e m ! 0 = MARKER_TAG" by (simp add: encode_marker_frame_def)
  have fields: "slice 1 17 (encode_marker_frame a e m) = to_be a" "slice 17 21 (encode_marker_frame a e m) = to_be e"
    "slice 21 29 (encode_marker_frame a e m) = to_be (mk_generation m)"
    unfolding encode_marker_frame_def by (rule frame_fields)+
  show ?thesis unfolding decode_replay_marker_def length_marker head byte29 from30 fields flags by simp
qed

text \<open>A frame the decoder accepts is no marker.\<close>

lemma frame_no_marker: "decode_frame bytes = Inr x \<Longrightarrow> decode_replay_marker bytes = None"
  by (auto simp: decode_frame_def peek_frame_header_def decode_replay_marker_def MARKER_TAG_def FRAME_TAG_TERMINAL_BYTES_def
      FRAME_TAG_STRUCTURED_EVENT_def split: if_splits sum.splits)

lemma js_number_exact: "k \<le> 2 ^ 53 \<Longrightarrow> js_number k = k"
  by (cases "k = 2 ^ 53") (simp_all add: js_number_def js_unit.simps[of k] js_unit.simps[of 9007199254740992] js_unit.simps[of 4503599627370496] Let_def)

text \<open>C26. What an encoder wrote the decoder reads back, header and payload, for both tags and any payload, and the placeholder
  is such a frame. A replay marker is a frame of fixed length that the decoder refuses as an unknown tag. The windows read from it
  the agent, the epoch, the generation and the flags that were sent, with one exception: a failure marker never says that the
  conversation continues, whatever its record holds; the number of the first replayed line they read as the nearest JavaScript
  number, which is the number sent up to \<open>2 ^ 53\<close>. No bytes at all are read both as a frame and as a marker.\<close>
theorem frame_roundtrip:
  "decode_frame (encode_terminal_frame a e n payload) =
     Inr (\<lparr>fh_tag = FRAME_TAG_TERMINAL_BYTES, fh_agent_id = a, fh_epoch = e, fh_seq = n\<rparr>, payload) \<and>
   decode_frame (encode_structured_frame a e n payload) =
     Inr (\<lparr>fh_tag = FRAME_TAG_STRUCTURED_EVENT, fh_agent_id = a, fh_epoch = e, fh_seq = n\<rparr>, payload) \<and>
   decode_frame (placeholder_error_frame a e n) =
     Inr (\<lparr>fh_tag = FRAME_TAG_STRUCTURED_EVENT, fh_agent_id = a, fh_epoch = e, fh_seq = n\<rparr>, PLACEHOLDER_ERROR_PAYLOAD) \<and>
   length (encode_marker_frame a e m) = MARKER_FRAME_LEN \<and>
   decode_frame (encode_marker_frame a e m) = Inl (UnknownTag MARKER_TAG) \<and>
   decode_window_marker (encode_marker_frame a e m) =
     Some \<lparr>wm_agent_id = a, wm_epoch = e, wm_gen = mk_generation m, wm_truncated = mk_truncated m, wm_failed = mk_failed m,
       wm_continues_conversation = (mk_continues m \<and> \<not> mk_failed m), wm_replay_from = js_number (unat (mk_replay_from m))\<rparr> \<and>
   (unat (mk_replay_from m) \<le> 2 ^ 53 \<longrightarrow> js_number (unat (mk_replay_from m)) = unat (mk_replay_from m)) \<and>
   (decode_window_marker bytes = None \<or> (\<exists>err. decode_frame bytes = Inl err))"
proof -
  have "encode_marker_frame a e m = encode_frame MARKER_TAG a e (mk_generation m) ([marker_flags m] @ to_be (mk_replay_from m))"
    by (simp add: encode_marker_frame_def encode_frame_def)
  then have "decode_frame (encode_marker_frame a e m) = Inl (UnknownTag MARKER_TAG)"
    by (simp add: decode_frame_def peek_encode MARKER_TAG_def FRAME_TAG_TERMINAL_BYTES_def FRAME_TAG_STRUCTURED_EVENT_def)
  moreover have "decode_window_marker bytes = None \<or> (\<exists>err. decode_frame bytes = Inl err)"
    using frame_no_marker[of bytes] by (cases "decode_frame bytes") (auto simp: decode_window_marker_def)
  ultimately show ?thesis
    by (simp add: encode_terminal_frame_def encode_structured_frame_def placeholder_error_frame_def decode_encode
        decode_window_marker_def decode_marker length_marker js_number_exact)
qed

text \<open>A marker of a large generation and a line number that fits.\<close>

theorem frame_roundtrip_witness:
  "map_option (\<lambda>w. (wm_gen w, wm_failed w, wm_continues_conversation w, wm_replay_from w)) (decode_window_marker (encode_marker_frame 7 3
     \<lparr>mk_generation = 18446744073709551615, mk_truncated = True, mk_failed = False, mk_continues = True, mk_replay_from = 9007199254740991\<rparr>)) =
   Some (18446744073709551615, False, True, 9007199254740991)"
  using frame_roundtrip[of 7 3 0 "[]" "\<lparr>mk_generation = 18446744073709551615, mk_truncated = True, mk_failed = False, mk_continues = True,
    mk_replay_from = 9007199254740991\<rparr>" "[]"] by simp

text \<open>One more is read as its even neighbour.\<close>

lemma js_number_rounds: "js_number (2 ^ 53 + 1) = 2 ^ 53"
  by (simp add: js_number_def js_unit.simps[of 9007199254740993] js_unit.simps[of 4503599627370496] Let_def)

end
