(* ===== verification/Replay_Flight.thy ===== *)
theory Replay_Flight
  imports Wire_Frame
begin

text \<open>
  The replay side of the daemon client in the desktop shell: the single-flight bookkeeping of replays,
  \<^verbatim>\<open>src-tauri/src/daemon_client/replay_flight.rs\<close>, the incarnation guard of \<^verbatim>\<open>protocol_state.rs\<close>, the replay events
  \<^verbatim>\<open>replay_events.rs\<close> and the relay of output frames \<^verbatim>\<open>frame_relay.rs\<close>.

  Which windows show an agent is an argument (\<open>targets\<close>); what is handed to windows is returned as a list of pairs of
  windows and bytes. Log lines are left out.
\<close>

section \<open>Single flight\<close>

record in_flight =
  if_generation :: u64
  if_acked :: bool
  if_truncated :: bool
  if_continues :: bool
  if_replay_from :: u64
  if_failed :: bool
  if_deadline :: instant

record agent_flight =
  af_gen_counter :: u64
  af_in_flight :: "in_flight option"
  af_next_gen :: "u64 option"

record flight_set =
  fs_agents :: "(peer_id \<times> agent_flight) list"
  fs_deadline :: duration

definition in_flight_fresh :: "u64 \<Rightarrow> instant \<Rightarrow> duration \<Rightarrow> in_flight" where
  "in_flight_fresh generation now deadline = \<lparr>if_generation = generation, if_acked = False, if_truncated = False, if_continues = False,
     if_replay_from = 0, if_failed = False, if_deadline = now + deadline\<rparr>"

definition agent_flight_default :: agent_flight where
  "agent_flight_default = \<lparr>af_gen_counter = 0, af_in_flight = None, af_next_gen = None\<rparr>"

definition flight_set_new :: "duration \<Rightarrow> flight_set" where
  "flight_set_new deadline = \<lparr>fs_agents = [], fs_deadline = deadline\<rparr>"

definition flight_of :: "flight_set \<Rightarrow> peer_id \<Rightarrow> agent_flight" where
  "flight_of fs a = (case map_of (fs_agents fs) a of None \<Rightarrow> agent_flight_default | Some f \<Rightarrow> f)"

definition put_flight :: "peer_id \<Rightarrow> agent_flight \<Rightarrow> flight_set \<Rightarrow> flight_set" where
  "put_flight a f fs = fs\<lparr>fs_agents := AList.update a f (fs_agents fs)\<rparr>"

text \<open>The generation of a request, and whether its \<^verbatim>\<open>Subscribe\<close> goes out now.\<close>

definition request_replay :: "peer_id \<Rightarrow> instant \<Rightarrow> flight_set \<Rightarrow> (u64 \<times> bool) \<times> flight_set" where
  "request_replay a now fs = (
     let f = flight_of fs a
     in case af_in_flight f of
          None \<Rightarrow>
            let generation = af_gen_counter f + 1
            in ((generation, True), put_flight a (f\<lparr>af_gen_counter := generation,
                  af_in_flight := Some (in_flight_fresh generation now (fs_deadline fs))\<rparr>) fs)
        | Some _ \<Rightarrow> (case af_next_gen f of
              Some g \<Rightarrow> ((g, False), fs)
            | None \<Rightarrow>
                let generation = af_gen_counter f + 1
                in ((generation, False), put_flight a (f\<lparr>af_gen_counter := generation, af_next_gen := Some generation\<rparr>) fs)))"

definition map_in_flight :: "peer_id \<Rightarrow> (in_flight \<Rightarrow> in_flight) \<Rightarrow> flight_set \<Rightarrow> flight_set" where
  "map_in_flight a h fs = (case map_of (fs_agents fs) a of
     None \<Rightarrow> fs
   | Some f \<Rightarrow> (case af_in_flight f of None \<Rightarrow> fs | Some fl \<Rightarrow> put_flight a (f\<lparr>af_in_flight := Some (h fl)\<rparr>) fs))"

definition on_ack :: "peer_id \<Rightarrow> bool \<Rightarrow> bool \<Rightarrow> u64 \<Rightarrow> instant \<Rightarrow> flight_set \<Rightarrow> flight_set" where
  "on_ack a truncated continues replay_from now fs = map_in_flight a (\<lambda>fl. fl\<lparr>if_acked := True, if_truncated := truncated,
     if_continues := continues, if_replay_from := replay_from, if_deadline := now + fs_deadline fs\<rparr>) fs"

definition note_progress :: "peer_id \<Rightarrow> instant \<Rightarrow> flight_set \<Rightarrow> flight_set" where
  "note_progress a now fs = map_in_flight a (\<lambda>fl. fl\<lparr>if_deadline := now + fs_deadline fs\<rparr>) fs"

definition advance_next :: "instant \<Rightarrow> duration \<Rightarrow> agent_flight \<Rightarrow> bool \<times> agent_flight" where
  "advance_next now deadline f = (case af_next_gen f of
     Some g \<Rightarrow> (True, f\<lparr>af_next_gen := None, af_in_flight := Some (in_flight_fresh g now deadline)\<rparr>)
   | None \<Rightarrow> (False, f))"

definition on_complete :: "peer_id \<Rightarrow> instant \<Rightarrow> flight_set \<Rightarrow> (marker \<times> bool) option \<times> flight_set" where
  "on_complete a now fs = (case map_of (fs_agents fs) a of
     None \<Rightarrow> (None, fs)
   | Some f \<Rightarrow> (case af_in_flight f of
       None \<Rightarrow> (None, fs)
     | Some fl \<Rightarrow>
         if \<not> if_acked fl then (None, fs)
         else let (send_next, f1) = advance_next now (fs_deadline fs) (f\<lparr>af_in_flight := None\<rparr>)
              in (Some (\<lparr>mk_generation = if_generation fl, mk_truncated = if_truncated fl, mk_failed = False,
                         mk_continues = if_continues fl, mk_replay_from = if_replay_from fl\<rparr>, send_next), put_flight a f1 fs)))"

definition failure_marker :: "in_flight \<Rightarrow> marker" where
  "failure_marker fl = \<lparr>mk_generation = if_generation fl, mk_truncated = if_truncated fl, mk_failed = True, mk_continues = False,
     mk_replay_from = if_replay_from fl\<rparr>"

definition is_due :: "instant \<Rightarrow> agent_flight \<Rightarrow> bool" where
  "is_due now f = (case af_in_flight f of None \<Rightarrow> False | Some fl \<Rightarrow> \<not> if_failed fl \<and> if_deadline fl \<le> now)"

definition check_deadlines :: "instant \<Rightarrow> flight_set \<Rightarrow> (peer_id \<times> marker) list \<times> flight_set" where
  "check_deadlines now fs =
     (map (\<lambda>(a, f). (a, failure_marker (the (af_in_flight f)))) (filter (\<lambda>(a, f). is_due now f) (fs_agents fs)),
      fs\<lparr>fs_agents := map (\<lambda>(a, f). (a, if is_due now f
           then f\<lparr>af_in_flight := map_option (\<lambda>fl. fl\<lparr>if_failed := True\<rparr>) (af_in_flight f)\<rparr> else f)) (fs_agents fs)\<rparr>)"

definition awaits_deadline :: "flight_set \<Rightarrow> bool" where
  "awaits_deadline fs \<longleftrightarrow> list_ex (\<lambda>(_, f). case af_in_flight f of None \<Rightarrow> False | Some fl \<Rightarrow> \<not> if_failed fl) (fs_agents fs)"

definition on_refused :: "peer_id \<Rightarrow> instant \<Rightarrow> flight_set \<Rightarrow> (marker option \<times> bool) option \<times> flight_set" where
  "on_refused a now fs = (case map_of (fs_agents fs) a of
     None \<Rightarrow> (None, fs)
   | Some f \<Rightarrow> (case af_in_flight f of
       None \<Rightarrow> (None, fs)
     | Some fl \<Rightarrow>
         if if_acked fl then (None, fs)
         else let marker = (if if_failed fl then None else Some (failure_marker fl));
                  (send_next, f1) = advance_next now (fs_deadline fs) (f\<lparr>af_in_flight := None\<rparr>)
              in (Some (marker, send_next), put_flight a f1 fs)))"

definition flights_down :: "flight_set \<Rightarrow> flight_set" where
  "flights_down fs = fs\<lparr>fs_agents := map (\<lambda>(a, f). (a, f\<lparr>af_in_flight := None, af_next_gen := None\<rparr>)) (fs_agents fs)\<rparr>"

section \<open>The incarnation guard\<close>

text \<open>The last known mark of an agent; an entry without a mark has not seen an acknowledgement yet.\<close>

type_synonym subs = "(peer_id \<times> u32 option) list"

datatype epoch_decision = EdDeliver | DropEpochMismatch

definition decide_epoch :: "u32 option \<Rightarrow> u32 \<Rightarrow> epoch_decision" where
  "decide_epoch st frame_epoch = (case st of
     Some cur \<Rightarrow> if frame_epoch \<noteq> cur then DropEpochMismatch else EdDeliver
   | None \<Rightarrow> EdDeliver)"

definition apply_subscribe_ack :: "u32 option \<Rightarrow> u32 \<Rightarrow> bool \<times> u32 option" where
  "apply_subscribe_ack st current_epoch =
     ((case st of Some prev \<Rightarrow> current_epoch \<noteq> prev | None \<Rightarrow> False), Some current_epoch)"

definition known_epoch :: "subs \<Rightarrow> peer_id \<Rightarrow> u32 option" where
  "known_epoch ss a = (case map_of ss a of None \<Rightarrow> None | Some st \<Rightarrow> st)"

definition sub_entry :: "peer_id \<Rightarrow> subs \<Rightarrow> subs" where
  "sub_entry a ss = (case map_of ss a of None \<Rightarrow> AList.update a None ss | Some _ \<Rightarrow> ss)"

section \<open>Replay events\<close>

datatype daemon_event = EvSubscribeAck peer_id u32 u64 bool bool | EvReplayComplete peer_id u32 | EvSubscribeFailed peer_id | EvOther

text \<open>A \<^verbatim>\<open>Subscribe\<close> to write: the agent and the mark known of it; replays always ask for everything.\<close>

type_synonym subscribe_cmd = "peer_id \<times> u32 option"

datatype replay_follow_up = NotHandled | Handled "subscribe_cmd option"

definition plan_subscribe_refusal :: "peer_id \<Rightarrow> instant \<Rightarrow> subs \<Rightarrow> flight_set \<Rightarrow> (byte list option \<times> subscribe_cmd option) \<times> flight_set" where
  "plan_subscribe_refusal a now ss fs = (
     let epoch = known_epoch ss a
     in case on_refused a now fs of
          (None, fs1) \<Rightarrow> ((None, None), fs1)
        | (Some (m, send_next), fs1) \<Rightarrow>
            ((map_option (encode_marker_frame a (case epoch of None \<Rightarrow> 0 | Some ep \<Rightarrow> ep)) m,
              if send_next then Some (a, epoch) else None), fs1))"

fun apply_replay_event :: "(peer_id \<Rightarrow> 'w list) \<Rightarrow> instant \<Rightarrow> daemon_event \<Rightarrow> subs \<Rightarrow> flight_set
    \<Rightarrow> replay_follow_up \<times> ('w list \<times> byte list) list \<times> subs \<times> flight_set" where
  "apply_replay_event targets now (EvSubscribeAck a current_epoch replay_from truncated continues) ss fs =
     (Handled None, [],
      AList.update a (snd (apply_subscribe_ack (case map_of ss a of None \<Rightarrow> None | Some st \<Rightarrow> st) current_epoch)) ss,
      on_ack a truncated continues replay_from now fs)"
| "apply_replay_event targets now (EvReplayComplete a epoch) ss fs = (case on_complete a now fs of
     (None, fs1) \<Rightarrow> (Handled None, [], ss, fs1)
   | (Some (m, send_next), fs1) \<Rightarrow>
       (Handled (if send_next then Some (a, known_epoch ss a) else None), [(targets a, encode_marker_frame a epoch m)], ss, fs1))"
| "apply_replay_event targets now (EvSubscribeFailed a) ss fs = (
     let ((frame, next_subscribe), fs1) = plan_subscribe_refusal a now ss fs
     in (Handled next_subscribe, (case frame of None \<Rightarrow> [] | Some bytes \<Rightarrow> [(targets a, bytes)]), ss, fs1))"
| "apply_replay_event targets now EvOther ss fs = (NotHandled, [], ss, fs)"

section \<open>The relay of output frames\<close>

datatype frame_relay = RelayContinue | RelayDisconnect

definition UNKNOWN_TAG_CAP :: nat where
  "UNKNOWN_TAG_CAP = 4096"

definition first_sighting :: "peer_id \<Rightarrow> byte \<Rightarrow> (peer_id \<times> byte) list \<Rightarrow> bool \<times> (peer_id \<times> byte) list" where
  "first_sighting a tag warned = (
     let warned1 = (if UNKNOWN_TAG_CAP \<le> length warned \<and> (a, tag) \<notin> set warned then [] else warned)
     in ((a, tag) \<notin> set warned1, List.insert (a, tag) warned1))"

definition relay_frame :: "(peer_id \<Rightarrow> 'w list) \<Rightarrow> instant \<Rightarrow> peer_id \<times> u32 \<times> byte list \<Rightarrow> subs \<Rightarrow> flight_set
    \<Rightarrow> ('w list \<times> byte list) list \<times> subs \<times> flight_set" where
  "relay_frame targets now fr ss fs = (
     let (a, epoch, bytes) = fr;
         fs1 = note_progress a now fs;
         ss1 = sub_entry a ss
     in if decide_epoch (known_epoch ss1 a) epoch = DropEpochMismatch then ([], ss1, fs1)
        else ([(targets a, bytes)], ss1, fs1))"

definition relay_binary_frame :: "(peer_id \<Rightarrow> 'w list) \<Rightarrow> instant \<Rightarrow> byte list \<Rightarrow> (peer_id \<times> byte) list \<Rightarrow> subs \<Rightarrow> flight_set
    \<Rightarrow> frame_relay \<times> ('w list \<times> byte list) list \<times> (peer_id \<times> byte) list \<times> subs \<times> flight_set" where
  "relay_binary_frame targets now bytes warned ss fs = (case decode_frame bytes of
     Inr (header, _) \<Rightarrow>
       let (sent, ss1, fs1) = relay_frame targets now (fh_agent_id header, fh_epoch header, bytes) ss fs
       in (RelayContinue, sent, warned, ss1, fs1)
   | Inl (UnknownTag tag) \<Rightarrow> (case peek_frame_header bytes of
         Inl _ \<Rightarrow> (RelayDisconnect, [], warned, ss, fs)
       | Inr header \<Rightarrow>
           let (_, warned1) = first_sighting (fh_agent_id header) tag warned;
               (sent, ss1, fs1) = relay_frame targets now (fh_agent_id header, fh_epoch header,
                 placeholder_error_frame (fh_agent_id header) (fh_epoch header) (fh_seq header)) ss fs
           in (RelayContinue, sent, warned1, ss1, fs1))
   | Inl (TooShort _) \<Rightarrow> (RelayDisconnect, [], warned, ss, fs))"

end
