(* ===== verification/Replay_System.thy ===== *)
theory Replay_System
  imports Replay_Flight
begin

text \<open>
  The daemon client against a daemon: the replay part of the connection actor, \<^verbatim>\<open>src-tauri/src/daemon_client/connection.rs\<close>,
  the two directions of one connection, and the daemon's answers to a \<^verbatim>\<open>Subscribe\<close>, \<^verbatim>\<open>handle_subscribe\<close> of
  \<^verbatim>\<open>crates/engram-dashboard-daemon/src/connection_core.rs\<close>.

  Neither a \<^verbatim>\<open>Subscribe\<close> nor an answer carries a generation on the wire. Here both carry one as history, that of the
  request the \<^verbatim>\<open>Subscribe\<close> was written for; no definition of the program reads it. \<open>rw_sent\<close> (every frame handed to windows),
  \<open>rw_served\<close> (replays the daemon completed, with the number they start from), \<open>rw_requested\<close> and \<open>rw_lost\<close> (generations
  given up with a connection, or because no window shows the agent) are history too.
\<close>

datatype daemon_answer = AnAck u32 u64 bool bool | AnComplete u32 | AnRefused

record replay_world =
  rw_flight :: flight_set
  rw_subs :: subs
  rw_wire :: "(peer_id \<times> u64) list"
  rw_answers :: "(peer_id \<times> u64 \<times> daemon_answer) list"
  rw_sent :: "(nat list \<times> byte list) list"
  rw_served :: "(peer_id \<times> u64 \<times> u64) list"
  rw_requested :: "(peer_id \<times> u64) list"
  rw_lost :: "(peer_id \<times> u64) list"

section \<open>The connection actor\<close>

definition gen_of :: "agent_flight \<Rightarrow> u64 list" where
  "gen_of f = (case af_in_flight f of None \<Rightarrow> [] | Some fl \<Rightarrow> [if_generation fl])"

definition next_of :: "agent_flight \<Rightarrow> u64 list" where
  "next_of f = (case af_next_gen f of None \<Rightarrow> [] | Some g \<Rightarrow> [g])"

text \<open>The answer of the peer to a command: taken into its queue, not written, or no open peer at all.\<close>

datatype peer_answer = PeerQueued | PeerRefused | PeerGone

text \<open>\<^verbatim>\<open>drop_connection\<close>, \<^verbatim>\<open>LinkDown\<close>: the flights are cleared and nothing of the connection is relayed any more.\<close>

definition drv_drop :: "replay_world \<Rightarrow> replay_world" where
  "drv_drop w = w\<lparr>rw_flight := flights_down (rw_flight w), rw_wire := [], rw_answers := [],
     rw_lost := rw_lost w @ concat (map (\<lambda>(a, f). map (Pair a) (gen_of f @ next_of f)) (fs_agents (rw_flight w)))\<rparr>"

definition drv_write_subscribe :: "bool \<Rightarrow> peer_id \<Rightarrow> replay_world \<Rightarrow> replay_world" where
  "drv_write_subscribe written a w = (
     if written then w\<lparr>rw_wire := rw_wire w @ map (Pair a) (gen_of (flight_of (rw_flight w) a))\<rparr> else drv_drop w)"

text \<open>\<^verbatim>\<open>Driver::request_replay\<close>: the generation, or \<open>None\<close> for the error.\<close>

definition drv_request :: "(peer_id \<Rightarrow> nat list) \<Rightarrow> peer_answer \<Rightarrow> instant \<Rightarrow> peer_id \<Rightarrow> replay_world \<Rightarrow> u64 option \<times> replay_world" where
  "drv_request targets peer now a w = (
     if peer = PeerGone \<or> targets a = [] then (None, w)
     else
       let ((g, send_now), fs) = request_replay a now (rw_flight w);
           w1 = w\<lparr>rw_flight := fs, rw_requested := rw_requested w @ [(a, g)]\<rparr>
       in if send_now then (if peer = PeerQueued then Some g else None, drv_write_subscribe (peer = PeerQueued) a w1) else (Some g, w1))"

definition drv_follow_up :: "(peer_id \<Rightarrow> nat list) \<Rightarrow> peer_answer \<Rightarrow> instant \<Rightarrow> peer_id \<Rightarrow> replay_world \<Rightarrow> replay_world" where
  "drv_follow_up targets peer now a w = (
     if targets a = []
     then w\<lparr>rw_flight := snd (on_refused a now (rw_flight w)),
            rw_lost := rw_lost w @ map (Pair a) (gen_of (flight_of (rw_flight w) a))\<rparr>
     else if peer = PeerGone then w
     else drv_write_subscribe (peer = PeerQueued) a w)"

definition drv_event :: "(peer_id \<Rightarrow> nat list) \<Rightarrow> peer_answer \<Rightarrow> instant \<Rightarrow> daemon_event \<Rightarrow> replay_world \<Rightarrow> replay_world" where
  "drv_event targets peer now ev w = (
     let (follow_up, sent, ss, fs) = apply_replay_event targets now ev (rw_subs w) (rw_flight w);
         w1 = w\<lparr>rw_flight := fs, rw_subs := ss, rw_sent := rw_sent w @ sent\<rparr>
     in case follow_up of
          Handled (Some (a, _)) \<Rightarrow> drv_follow_up targets peer now a w1
        | _ \<Rightarrow> w1)"

definition drv_frame :: "(peer_id \<Rightarrow> nat list) \<Rightarrow> instant \<Rightarrow> byte list \<Rightarrow> (peer_id \<times> byte) list \<Rightarrow> replay_world \<Rightarrow> replay_world" where
  "drv_frame targets now bytes warned w = (
     let (relayed, sent, _, ss, fs) = relay_binary_frame targets now bytes warned (rw_subs w) (rw_flight w);
         w1 = w\<lparr>rw_flight := fs, rw_subs := ss, rw_sent := rw_sent w @ sent\<rparr>
     in case relayed of RelayContinue \<Rightarrow> w1 | RelayDisconnect \<Rightarrow> drv_drop w1)"

definition drv_sweep :: "(peer_id \<Rightarrow> nat list) \<Rightarrow> instant \<Rightarrow> replay_world \<Rightarrow> replay_world" where
  "drv_sweep targets now w = (
     let (due, fs) = check_deadlines now (rw_flight w)
     in w\<lparr>rw_flight := fs, rw_sent := rw_sent w @ map (\<lambda>(a, m).
            (targets a, encode_marker_frame a (case known_epoch (rw_subs w) a of None \<Rightarrow> 0 | Some ep \<Rightarrow> ep) m)) due\<rparr>)"

section \<open>The daemon\<close>

text \<open>What \<^verbatim>\<open>handle_subscribe\<close> puts into the queue of its connection for the next \<^verbatim>\<open>Subscribe\<close>: a refusal, or an
  acknowledgement, the replay (its frames are not events) and the completion, each if the queue takes it. A completion the queue does not take
  ends the connection at the daemon; that end is a later \<open>RwDown\<close>.\<close>

datatype served = Refuse | Serve u32 u64 bool bool bool bool

fun daemon_serve :: "served \<Rightarrow> replay_world \<Rightarrow> replay_world" where
  "daemon_serve how w = (case rw_wire w of
     [] \<Rightarrow> w
   | (a, g) # rest \<Rightarrow> (case how of
         Refuse \<Rightarrow> w\<lparr>rw_wire := rest, rw_answers := rw_answers w @ [(a, g, AnRefused)]\<rparr>
       | Serve epoch replay_from truncated continues ack_taken complete_taken \<Rightarrow>
           w\<lparr>rw_wire := rest,
             rw_answers := rw_answers w @ (if ack_taken then [(a, g, AnAck epoch replay_from truncated continues)] else []) @
               (if complete_taken then [(a, g, AnComplete epoch)] else []),
             rw_served := rw_served w @ (if complete_taken then [(a, g, replay_from)] else [])\<rparr>))"

fun answer_event :: "peer_id \<Rightarrow> daemon_answer \<Rightarrow> daemon_event" where
  "answer_event a (AnAck epoch replay_from truncated continues) = EvSubscribeAck a epoch replay_from truncated continues"
| "answer_event a (AnComplete epoch) = EvReplayComplete a epoch"
| "answer_event a AnRefused = EvSubscribeFailed a"

definition drv_answer :: "(peer_id \<Rightarrow> nat list) \<Rightarrow> peer_answer \<Rightarrow> instant \<Rightarrow> replay_world \<Rightarrow> replay_world" where
  "drv_answer targets peer now w = (case rw_answers w of
     [] \<Rightarrow> w
   | (a, g, ans) # rest \<Rightarrow> drv_event targets peer now (answer_event a ans) (w\<lparr>rw_answers := rest\<rparr>))"

section \<open>The system\<close>

datatype replay_op = RwRequest "peer_id \<Rightarrow> nat list" peer_answer instant peer_id | RwServe served | RwAnswer "peer_id \<Rightarrow> nat list" peer_answer instant
  | RwFrame "peer_id \<Rightarrow> nat list" instant "byte list" "(peer_id \<times> byte) list" | RwSweep "peer_id \<Rightarrow> nat list" instant | RwDown

fun replay_do :: "replay_op \<Rightarrow> replay_world \<Rightarrow> replay_world" where
  "replay_do (RwRequest targets peer now a) w = snd (drv_request targets peer now a w)"
| "replay_do (RwServe how) w = daemon_serve how w"
| "replay_do (RwAnswer targets peer now) w = drv_answer targets peer now w"
| "replay_do (RwFrame targets now bytes warned) w = drv_frame targets now bytes warned w"
| "replay_do (RwSweep targets now) w = drv_sweep targets now w"
| "replay_do RwDown w = drv_drop w"

text \<open>The counter of generations is 64 bits wide; a request that would wrap it is left out.\<close>

fun replay_pre :: "replay_op \<Rightarrow> replay_world \<Rightarrow> bool" where
  "replay_pre (RwRequest targets peer now a) w \<longleftrightarrow> Suc (unat (af_gen_counter (flight_of (rw_flight w) a))) < 2 ^ 64"
| "replay_pre op w \<longleftrightarrow> True"

definition replay_start :: "duration \<Rightarrow> subs \<Rightarrow> replay_world" where
  "replay_start deadline ss = \<lparr>rw_flight = flight_set_new deadline, rw_subs = ss, rw_wire = [], rw_answers = [], rw_sent = [],
     rw_served = [], rw_requested = [], rw_lost = []\<rparr>"

inductive replay_init :: "replay_world \<Rightarrow> bool" where
  "replay_init (replay_start deadline ss)"

inductive replay_step :: "replay_world \<Rightarrow> replay_world \<Rightarrow> bool" where
  "replay_pre op w \<Longrightarrow> replay_step w (replay_do op w)"

inductive_cases replay_stepE: "replay_step w w'"

section \<open>One agent\<close>

text \<open>The windows read a frame as a marker or not at all.\<close>

definition seen_marks :: "peer_id \<Rightarrow> (nat list \<times> byte list) list \<Rightarrow> marker list" where
  "seen_marks a sent = List.map_filter (\<lambda>(_, bytes). case decode_replay_marker bytes of
     Some (b, _, m) \<Rightarrow> if b = a then Some m else None | None \<Rightarrow> None) sent"

definition of_agent :: "peer_id \<Rightarrow> (peer_id \<times> 'b) list \<Rightarrow> 'b list" where
  "of_agent a xs = map snd (filter (\<lambda>x. fst x = a) xs)"

lemma of_agent_simps [simp]:
  "of_agent a [] = []" "of_agent a (x # xs) = (if fst x = a then snd x # of_agent a xs else of_agent a xs)"
  "of_agent a (xs @ ys) = of_agent a xs @ of_agent a ys" "of_agent a (map (Pair a) zs) = zs"
  "b \<noteq> a \<Longrightarrow> of_agent a (map (Pair b) zs) = []"
  by (auto simp: of_agent_def filter_False comp_def)

lemma set_of_agent: "x \<in> set (of_agent a xs) \<longleftrightarrow> (a, x) \<in> set xs"
  by (force simp: of_agent_def)

text \<open>Which answers can be on their way for a flight: all of its own generation, in wire order, none that was seen
  already.\<close>

inductive answers_ok :: "in_flight \<Rightarrow> (u64 \<times> u64) set \<Rightarrow> (u64 \<times> daemon_answer) list \<Rightarrow> bool" where
  "answers_ok fl S []"
| "\<not> if_acked fl \<Longrightarrow> answers_ok fl S [(if_generation fl, AnRefused)]"
| "\<not> if_acked fl \<Longrightarrow> answers_ok fl S [(if_generation fl, AnAck e rf t c)]"
| "\<not> if_acked fl \<Longrightarrow> (if_generation fl, rf) \<in> S \<Longrightarrow> answers_ok fl S [(if_generation fl, AnAck e rf t c), (if_generation fl, AnComplete e')]"
| "if_acked fl \<longrightarrow> (if_generation fl, if_replay_from fl) \<in> S \<Longrightarrow> answers_ok fl S [(if_generation fl, AnComplete e)]"

inductive_simps answers_ok_simps [simp]: "answers_ok fl S []" "answers_ok fl S (x # xs)"

definition flight_ok :: "agent_flight \<Rightarrow> in_flight \<Rightarrow> u64 list \<Rightarrow> (u64 \<times> daemon_answer) list \<Rightarrow> (u64 \<times> u64) set \<Rightarrow> marker list \<Rightarrow> bool" where
  "flight_ok f fl ws ans S M \<longleftrightarrow>
     if_generation fl \<le> af_gen_counter f \<and>
     (\<forall>h \<in> set (next_of f). if_generation fl < h \<and> h \<le> af_gen_counter f) \<and>
     (\<forall>x \<in> S. fst x \<le> if_generation fl) \<and>
     (\<forall>m \<in> set M. mk_generation m \<le> if_generation fl \<and> (mk_generation m = if_generation fl \<longrightarrow> mk_failed m \<and> if_failed fl)) \<and>
     (if_failed fl \<longrightarrow> if_generation fl \<in> mk_generation ` set M) \<and>
     (ws = [if_generation fl] \<and> ans = [] \<and> \<not> if_acked fl \<and> if_generation fl \<notin> fst ` S \<or> ws = [] \<and> answers_ok fl S ans)"

definition agent_ok :: "agent_flight \<Rightarrow> u64 list \<Rightarrow> (u64 \<times> daemon_answer) list \<Rightarrow> (u64 \<times> u64) set \<Rightarrow> marker list \<Rightarrow> u64 set \<Rightarrow> u64 set \<Rightarrow> bool" where
  "agent_ok f ws ans S M R L \<longleftrightarrow>
     (case af_in_flight f of None \<Rightarrow> ws = [] \<and> ans = [] \<and> af_next_gen f = None | Some fl \<Rightarrow> flight_ok f fl ws ans S M) \<and>
     (\<forall>x \<in> S. fst x \<le> af_gen_counter f) \<and>
     (\<forall>m \<in> set M. mk_generation m \<le> af_gen_counter f \<and> (\<not> mk_failed m \<longrightarrow> (mk_generation m, mk_replay_from m) \<in> S)) \<and>
     distinct (map mk_generation (filter (\<lambda>m. \<not> mk_failed m) M)) \<and> distinct (map mk_generation (filter mk_failed M)) \<and>
     (\<forall>h \<in> R. h \<le> af_gen_counter f \<and> h \<in> mk_generation ` set M \<union> L \<union> set (gen_of f @ next_of f))"

lemma agent_ok_idle:
  assumes "agent_ok f ws ans S M R L" "af_in_flight f = None"
  shows "ws = []" "ans = []" "af_next_gen f = None"
  using assms by (simp_all add: agent_ok_def)

lemma agent_ok_start: "agent_ok agent_flight_default [] [] {} [] {} {}"
  by (simp add: agent_ok_def agent_flight_default_def)

text \<open>A request, the answers of the daemon, the resolution of a flight, the deadline, the end of the connection: what each does
  to one agent.\<close>

lemma failure_marker_fields [simp]:
  "mk_generation (failure_marker fl) = if_generation fl" "mk_failed (failure_marker fl)" "\<not> mk_continues (failure_marker fl)"
  by (simp_all add: failure_marker_def)

lemma agent_request_idle:
  assumes "agent_ok f ws ans S M R L" "af_in_flight f = None" "Suc (unat (af_gen_counter f)) < 2 ^ 64"
  defines "g \<equiv> af_gen_counter f + 1"
  shows "agent_ok (f\<lparr>af_gen_counter := g, af_in_flight := Some (in_flight_fresh g now d)\<rparr>) (ws @ [g]) ans S M (insert g R) L"
proof -
  note empty = agent_ok_idle[OF assms(1,2)]
  have g: "af_gen_counter f < g" using word_less_Suc(1)[of "af_gen_counter f"] unat_Suc_no_wrap(2)[of "af_gen_counter f"] assms(3) by (simp add: g_def)
  have up: "h < g" if "h \<le> af_gen_counter f" for h using that g by (rule order_le_less_trans)
  show ?thesis using assms(1) up empty
    by (auto simp: agent_ok_def flight_ok_def assms(2) in_flight_fresh_def gen_of_def next_of_def dest: up less_imp_le)
qed


lemma agent_request_next:
  assumes "agent_ok f ws ans S M R L" "af_in_flight f = Some fl" "af_next_gen f = None" "Suc (unat (af_gen_counter f)) < 2 ^ 64"
  defines "g \<equiv> af_gen_counter f + 1"
  shows "agent_ok (f\<lparr>af_gen_counter := g, af_next_gen := Some g\<rparr>) ws ans S M (insert g R) L"
proof -
  have g: "af_gen_counter f < g" using word_less_Suc(1)[of "af_gen_counter f"] unat_Suc_no_wrap(2)[of "af_gen_counter f"] assms(4) by (simp add: g_def)
  have up: "h < g" if "h \<le> af_gen_counter f" for h using that g by (rule order_le_less_trans)
  have upe: "h \<le> g" if "h \<le> af_gen_counter f" for h using up[OF that] by simp
  show ?thesis using assms(1) up g
    by (auto simp: agent_ok_def flight_ok_def assms(2,3) gen_of_def next_of_def intro: upe)
qed

lemma agent_request_merged:
  assumes "agent_ok f ws ans S M R L" "af_in_flight f = Some fl" "af_next_gen f = Some g"
  shows "agent_ok f ws ans S M (insert g R) L"
  using assms by (auto simp: agent_ok_def flight_ok_def gen_of_def next_of_def)

lemma agent_wire:
  assumes "agent_ok f (g # ws) ans S M R L"
  obtains fl where "af_in_flight f = Some fl" "if_generation fl = g" "ws = []" "ans = []" "\<not> if_acked fl" "g \<notin> fst ` S" "flight_ok f fl [g] [] S M"
  using assms by (auto simp: agent_ok_def flight_ok_def split: option.splits)

lemma agent_refuse:
  assumes "agent_ok f (g # ws) ans S M R L"
  shows "agent_ok f ws (ans @ [(g, AnRefused)]) S M R L"
  using assms by (rule agent_wire) (use assms in \<open>auto simp: agent_ok_def flight_ok_def\<close>)

lemma agent_serve:
  assumes "agent_ok f (g # ws) ans S M R L"
  shows "agent_ok f ws (ans @ (if ack then [(g, AnAck e rf t c)] else []) @ (if fin then [(g, AnComplete e)] else []))
     (S \<union> (if fin then {(g, rf)} else {})) M R L"
  using assms by (rule agent_wire) (use assms in \<open>auto simp: agent_ok_def flight_ok_def\<close>)

lemma agent_head:
  assumes "agent_ok f ws ((g, x) # ans) S M R L"
  obtains fl where "af_in_flight f = Some fl" "if_generation fl = g" "ws = []" "flight_ok f fl [] ((g, x) # ans) S M"
  using assms by (auto simp: agent_ok_def flight_ok_def split: option.splits)

lemma agent_acked:
  assumes "agent_ok f ws ((g, AnAck e rf t c) # ans) S M R L" "af_in_flight f = Some fl"
  shows "agent_ok (f\<lparr>af_in_flight := Some (fl\<lparr>if_acked := True, if_truncated := t, if_continues := c, if_replay_from := rf, if_deadline := d\<rparr>)\<rparr>)
     ws ans S M R L"
  using assms(1) by (rule agent_head) (use assms in \<open>auto simp: agent_ok_def flight_ok_def gen_of_def next_of_def\<close>)

lemma agent_drop_head:
  assumes "agent_ok f ws ((g, AnComplete e) # ans) S M R L"
  shows "agent_ok f ws ans S M R L"
  using assms by (rule agent_head) (use assms in \<open>auto simp: agent_ok_def flight_ok_def\<close>)

lemma agent_deadline:
  assumes "agent_ok f ws ans S M R L" "af_in_flight f = Some fl"
  shows "agent_ok (f\<lparr>af_in_flight := Some (fl\<lparr>if_deadline := d\<rparr>)\<rparr>) ws ans S M R L"
proof -
  have "answers_ok (fl\<lparr>if_deadline := d\<rparr>) S ans" if "answers_ok fl S ans"
    using that by cases (auto intro: answers_ok.intros)
  then show ?thesis using assms by (auto simp: agent_ok_def flight_ok_def gen_of_def next_of_def)
qed

lemma agent_due:
  assumes "agent_ok f ws ans S M R L" "af_in_flight f = Some fl" "\<not> if_failed fl"
  shows "agent_ok (f\<lparr>af_in_flight := Some (fl\<lparr>if_failed := True\<rparr>)\<rparr>) ws ans S (M @ [failure_marker fl]) R L"
proof -
  have "answers_ok (fl\<lparr>if_failed := True\<rparr>) S ans" if "answers_ok fl S ans"
    using that by cases (auto intro: answers_ok.intros)
  then show ?thesis using assms by (auto simp: agent_ok_def flight_ok_def gen_of_def next_of_def failure_marker_def)
qed

lemma agent_down: "agent_ok f ws ans S M R L \<Longrightarrow> agent_ok (f\<lparr>af_in_flight := None, af_next_gen := None\<rparr>) [] [] S M R (L \<union> set (gen_of f @ next_of f))"
  by (auto simp: agent_ok_def gen_of_def next_of_def)

lemma agent_release:
  assumes "agent_ok f [] ans S M R L" "af_in_flight f = Some fl" "advance_next now d (f\<lparr>af_in_flight := None\<rparr>) = (sn, f1)"
    and "if_generation fl \<in> mk_generation ` set (M @ ms)"
    and "ms = [] \<or> ms = [m] \<and> mk_generation m = if_generation fl \<and>
          (if mk_failed m then \<not> if_failed fl else (if_generation fl, mk_replay_from m) \<in> S)"
  shows "agent_ok f1 (if sn then gen_of f1 else []) [] S (M @ ms) R L" "sn \<Longrightarrow> af_next_gen f1 = None" "sn \<longleftrightarrow> af_in_flight f1 \<noteq> None"
proof -
  have fl: "flight_ok f fl [] ans S M" using assms(1,2) by (simp add: agent_ok_def)
  show "sn \<Longrightarrow> af_next_gen f1 = None" "sn \<longleftrightarrow> af_in_flight f1 \<noteq> None"
    using assms(3) by (auto simp: advance_next_def split: option.splits)
  have seen_marks: "distinct (map mk_generation (filter (\<lambda>m. \<not> mk_failed m) (M @ ms)))" "distinct (map mk_generation (filter mk_failed (M @ ms)))"
    using assms(1,5) fl by (auto simp: agent_ok_def flight_ok_def)
  have below: "mk_generation m' \<le> if_generation fl" if "m' \<in> set (M @ ms)" for m' using that fl assms(5) by (auto simp: flight_ok_def)
  have cnt: "mk_generation m' \<le> af_gen_counter f" if "m' \<in> set (M @ ms)" for m'
    using below[OF that] fl by (auto simp: flight_ok_def intro: order_trans)
  show "agent_ok f1 (if sn then gen_of f1 else []) [] S (M @ ms) R L"
  proof (cases "af_next_gen f")
    case None
    then have "f1 = f\<lparr>af_in_flight := None\<rparr>" "\<not> sn" using assms(3) by (auto simp: advance_next_def)
    then show ?thesis using assms(1,2,4,5) seen_marks cnt fl None
      by (auto simp: agent_ok_def flight_ok_def gen_of_def next_of_def)
  next
    case (Some h)
    then have f1: "f1 = f\<lparr>af_next_gen := None, af_in_flight := Some (in_flight_fresh h now d)\<rparr>" "sn" using assms(3) by (auto simp: advance_next_def)
    have h: "if_generation fl < h" "h \<le> af_gen_counter f" using fl by (auto simp: flight_ok_def next_of_def Some)
    have "fst x < h" if "x \<in> S" for x using that fl h(1) by (auto simp: flight_ok_def intro: order_le_less_trans)
    moreover have "mk_generation m' < h" if "m' \<in> set (M @ ms)" for m' using below[OF that] h(1) by simp
    ultimately have new: "flight_ok f1 (in_flight_fresh h now d) [h] [] S (M @ ms)"
      using h(2) by (force simp: flight_ok_def f1 in_flight_fresh_def next_of_def)
    then show ?thesis using assms(1,2,4,5) seen_marks cnt f1 Some
      by (auto simp: agent_ok_def gen_of_def next_of_def in_flight_fresh_def)
  qed
qed

lemma agent_unshown:
  assumes "agent_ok f [g] [] S M R L" "af_next_gen f = None"
  shows "agent_ok (f\<lparr>af_in_flight := None\<rparr>) [] [] S M R (insert g L)"
  using assms by (auto simp: agent_ok_def flight_ok_def gen_of_def next_of_def split: option.splits)

section \<open>The tables read by agent\<close>

lemma flight_of_put [simp]: "flight_of (put_flight a f fs) b = (if b = a then f else flight_of fs b)"
  by (simp add: flight_of_def put_flight_def update_conv)

lemma put_flight_frame [simp]: "fs_deadline (put_flight a f fs) = fs_deadline fs"
  "distinct (map fst (fs_agents (put_flight a f fs))) = distinct (map fst (fs_agents fs))"
  by (auto simp: put_flight_def update_keys distinct_update dest: distinct_update)

lemma flight_of_map_in_flight [simp]:
  "flight_of (map_in_flight a h fs) b = (if b = a then (flight_of fs a)\<lparr>af_in_flight := map_option h (af_in_flight (flight_of fs a))\<rparr> else flight_of fs b)"
  by (auto simp: map_in_flight_def flight_of_def put_flight_def update_conv agent_flight_default_def split: option.splits)

lemma map_in_flight_keys [simp]:
  "distinct (map fst (fs_agents (map_in_flight a h fs))) = distinct (map fst (fs_agents fs))"
  by (auto simp: map_in_flight_def split: option.splits)

lemma on_complete_flight:
  "on_complete a now fs = (case af_in_flight (flight_of fs a) of
     None \<Rightarrow> (None, fs)
   | Some fl \<Rightarrow> if \<not> if_acked fl then (None, fs)
       else let (send_next, f1) = advance_next now (fs_deadline fs) ((flight_of fs a)\<lparr>af_in_flight := None\<rparr>)
            in (Some (\<lparr>mk_generation = if_generation fl, mk_truncated = if_truncated fl, mk_failed = False,
                       mk_continues = if_continues fl, mk_replay_from = if_replay_from fl\<rparr>, send_next), put_flight a f1 fs))"
  by (simp add: on_complete_def flight_of_def agent_flight_default_def split: option.split)

lemma on_refused_flight:
  "on_refused a now fs = (case af_in_flight (flight_of fs a) of
     None \<Rightarrow> (None, fs)
   | Some fl \<Rightarrow> if if_acked fl then (None, fs)
       else let (send_next, f1) = advance_next now (fs_deadline fs) ((flight_of fs a)\<lparr>af_in_flight := None\<rparr>)
            in (Some (if if_failed fl then None else Some (failure_marker fl), send_next), put_flight a f1 fs))"
  by (simp add: on_refused_def flight_of_def agent_flight_default_def Let_def split: option.split)

lemma flight_of_mapped:
  "h agent_flight_default = agent_flight_default \<Longrightarrow>
   flight_of (fs\<lparr>fs_agents := map (\<lambda>(a, f). (a, h f)) (fs_agents fs)\<rparr>) b = h (flight_of fs b)"
  by (simp add: flight_of_def map_of_map split: option.split)

lemma flight_of_down [simp]: "flight_of (flights_down fs) b = (flight_of fs b)\<lparr>af_in_flight := None, af_next_gen := None\<rparr>"
  unfolding flights_down_def by (subst flight_of_mapped) (simp_all add: agent_flight_default_def)

lemma flights_down_keys [simp]: "distinct (map fst (fs_agents (flights_down fs))) = distinct (map fst (fs_agents fs))"
  by (simp add: flights_down_def case_prod_beta comp_def)

lemma flight_of_deadlines:
  "flight_of (snd (check_deadlines now fs)) b = (let f = flight_of fs b in if is_due now f
     then f\<lparr>af_in_flight := map_option (\<lambda>fl. fl\<lparr>if_failed := True\<rparr>) (af_in_flight f)\<rparr> else f)"
  unfolding check_deadlines_def snd_conv Let_def
  by (subst flight_of_mapped) (simp_all add: agent_flight_default_def is_due_def)

lemma check_deadlines_keys [simp]: "distinct (map fst (fs_agents (snd (check_deadlines now fs)))) = distinct (map fst (fs_agents fs))"
  by (simp add: check_deadlines_def case_prod_beta comp_def)

lemma entry_key: "(a, f) \<in> set xs \<Longrightarrow> a \<in> fst ` set xs"
  by force

text \<open>Per agent there is one entry, so what is collected over the table is what one flight gives.\<close>

lemma of_agent_collect:
  assumes "distinct (map fst fs)"
  shows "of_agent a (concat (map (\<lambda>(b, f). map (Pair b) (h f)) fs)) = (case map_of fs a of None \<Rightarrow> [] | Some f \<Rightarrow> h f)"
  using assms
proof (induction fs)
  case (Cons x fs)
  then show ?case by (cases x) (auto simp: map_of_eq_None_iff split: option.splits dest: entry_key)
qed simp

lemma of_agent_lost:
  "distinct (map fst (fs_agents fs)) \<Longrightarrow>
   of_agent a (concat (map (\<lambda>(b, f). map (Pair b) (gen_of f @ next_of f)) (fs_agents fs))) = gen_of (flight_of fs a) @ next_of (flight_of fs a)"
  by (simp add: of_agent_collect flight_of_def gen_of_def next_of_def agent_flight_default_def del: map_append split: option.split)

lemma seen_marks_simps [simp]: "seen_marks a [] = []" "seen_marks a (xs @ ys) = seen_marks a xs @ seen_marks a ys"
  by (simp_all add: seen_marks_def map_filter_def)

lemma marks_one:
  "decode_replay_marker bytes = None \<Longrightarrow> seen_marks a [(ws, bytes)] = []"
  "mk_failed m \<longrightarrow> \<not> mk_continues m \<Longrightarrow> seen_marks a [(ws, encode_marker_frame b e m)] = (if b = a then [m] else [])"
  by (auto simp: seen_marks_def map_filter_def decode_marker)

lemma marks_due:
  assumes "distinct (map fst (fs_agents fs))"
  shows "seen_marks b (map (\<lambda>(a, m). (tg a, encode_marker_frame a (ep a) m)) (fst (check_deadlines now fs))) =
     (let f = flight_of fs b in if is_due now f then [failure_marker (the (af_in_flight f))] else [])"
proof -
  have one: "seen_marks b ((tg a, encode_marker_frame a e (failure_marker fl)) # xs) = (if a = b then [failure_marker fl] else []) @ seen_marks b xs"
    for a e fl xs using marks_one(2)[of "failure_marker fl" b "tg a" a e] seen_marks_simps(2)[of b "[(tg a, encode_marker_frame a e (failure_marker fl))]" xs]
    by (auto simp: failure_marker_def)
  have "seen_marks b (map (\<lambda>(a, m). (tg a, encode_marker_frame a (ep a) m))
      (map (\<lambda>(a, f). (a, failure_marker (the (af_in_flight f)))) (filter (\<lambda>(a, f). is_due now f) xs))) =
      (case map_of xs b of None \<Rightarrow> [] | Some f \<Rightarrow> if is_due now f then [failure_marker (the (af_in_flight f))] else [])"
    if "distinct (map fst xs)" for xs using that
  proof (induction xs)
    case (Cons x xs)
    then show ?case by (cases x) (auto simp: one map_of_eq_None_iff split: option.splits dest: entry_key)
  qed simp
  from this[OF assms] show ?thesis
    by (simp add: check_deadlines_def flight_of_def agent_flight_default_def is_due_def split: option.split)
qed

section \<open>The invariant of the system\<close>

definition view_ok :: "replay_world \<Rightarrow> peer_id \<Rightarrow> bool" where
  "view_ok w a \<longleftrightarrow> agent_ok (flight_of (rw_flight w) a) (of_agent a (rw_wire w)) (of_agent a (rw_answers w)) (set (of_agent a (rw_served w)))
     (seen_marks a (rw_sent w)) (set (of_agent a (rw_requested w))) (set (of_agent a (rw_lost w)))"

definition replay_inv :: "replay_world \<Rightarrow> bool" where
  "replay_inv w \<longleftrightarrow> distinct (map fst (fs_agents (rw_flight w))) \<and> (\<forall>a. view_ok w a)"

lemma inv_start: "replay_inv (replay_start deadline ss)"
  using agent_ok_start by (simp add: replay_inv_def view_ok_def replay_start_def flight_set_new_def flight_of_def)

lemma inv_drop:
  assumes "replay_inv w"
  shows "replay_inv (drv_drop w)"
  unfolding replay_inv_def view_ok_def
proof (intro conjI allI)
  fix a
  have keys: "distinct (map fst (fs_agents (rw_flight w)))" using assms by (simp add: replay_inv_def)
  show "distinct (map fst (fs_agents (rw_flight (drv_drop w))))" using keys by (simp add: drv_drop_def)
  have "view_ok w a" using assms by (simp add: replay_inv_def)
  from agent_down[OF this[unfolded view_ok_def]] show "agent_ok (flight_of (rw_flight (drv_drop w)) a) (of_agent a (rw_wire (drv_drop w)))
      (of_agent a (rw_answers (drv_drop w))) (set (of_agent a (rw_served (drv_drop w)))) (seen_marks a (rw_sent (drv_drop w)))
      (set (of_agent a (rw_requested (drv_drop w)))) (set (of_agent a (rw_lost (drv_drop w))))"
    using keys by (simp add: drv_drop_def of_agent_lost del: set_append map_append) (simp add: Un_assoc)
qed

lemma agent_unwritten:
  assumes "agent_ok f [g] [] S M R L"
  shows "agent_ok f [] [] S M R L"
  using assms by (auto simp: agent_ok_def flight_ok_def split: option.splits)

text \<open>A \<^verbatim>\<open>Subscribe\<close> to write: with it on the wire the agent is as before; if it cannot be written, the connection goes.\<close>

lemma inv_write:
  assumes keys: "distinct (map fst (fs_agents (rw_flight w)))"
    and others: "\<And>b. b \<noteq> a \<Longrightarrow> view_ok w b"
    and empty: "of_agent a (rw_wire w) = []" "of_agent a (rw_answers w) = []" "af_in_flight (flight_of (rw_flight w) a) \<noteq> None"
    and this_agent: "agent_ok (flight_of (rw_flight w) a) (gen_of (flight_of (rw_flight w) a)) [] (set (of_agent a (rw_served w)))
       (seen_marks a (rw_sent w)) (set (of_agent a (rw_requested w))) (set (of_agent a (rw_lost w)))"
  shows "replay_inv (drv_write_subscribe written a w)" "replay_inv w"
proof -
  obtain g where g: "gen_of (flight_of (rw_flight w) a) = [g]" using empty(3) by (auto simp: gen_of_def)
  have here: "view_ok w a" unfolding view_ok_def empty(1,2) using agent_unwritten this_agent[unfolded g] by blast
  with others have all: "view_ok w b" for b by (cases "b = a") auto
  then show inv: "replay_inv w" using keys by (simp add: replay_inv_def)
  let ?w = "w\<lparr>rw_wire := rw_wire w @ map (Pair a) (gen_of (flight_of (rw_flight w) a))\<rparr>"
  have "view_ok ?w b" for b
  proof (cases "b = a")
    case True then show ?thesis using this_agent by (simp add: view_ok_def empty)
  next
    case False then show ?thesis using all[of b] by (simp add: view_ok_def g)
  qed
  then have "replay_inv ?w" using keys by (simp add: replay_inv_def)
  then show "replay_inv (drv_write_subscribe written a w)" using inv_drop[OF inv] by (simp add: drv_write_subscribe_def)
qed

lemma inv_view: "replay_inv w \<Longrightarrow> view_ok w b"
  by (simp add: replay_inv_def)

lemma inv_request:
  assumes "replay_inv w" "replay_pre (RwRequest targets peer now a) w"
  shows "replay_inv (snd (drv_request targets peer now a w))"
proof (cases "peer = PeerGone \<or> targets a = []")
  case True then show ?thesis using assms(1) by (simp add: drv_request_def)
next
  case False
  let ?f = "flight_of (rw_flight w) a" and ?d = "fs_deadline (rw_flight w)"
  have room: "Suc (unat (af_gen_counter ?f)) < 2 ^ 64" using assms(2) by simp
  have keys: "distinct (map fst (fs_agents (rw_flight w)))" using assms(1) by (simp add: replay_inv_def)
  note here = inv_view[OF assms(1), of a, unfolded view_ok_def]
  show ?thesis
  proof (cases "af_in_flight ?f")
    case None
    define f1 where "f1 = ?f\<lparr>af_gen_counter := af_gen_counter ?f + 1, af_in_flight := Some (in_flight_fresh (af_gen_counter ?f + 1) now ?d)\<rparr>"
    define w1 where "w1 = w\<lparr>rw_flight := put_flight a f1 (rw_flight w), rw_requested := rw_requested w @ [(a, af_gen_counter ?f + 1)]\<rparr>"
    have w': "snd (drv_request targets peer now a w) = drv_write_subscribe (peer = PeerQueued) a w1"
      using False None by (simp add: drv_request_def request_replay_def w1_def f1_def Let_def)
    have gen: "gen_of f1 = [af_gen_counter ?f + 1]" by (simp add: gen_of_def f1_def in_flight_fresh_def)
    show ?thesis unfolding w'
    proof (rule inv_write(1))
      show "agent_ok (flight_of (rw_flight w1) a) (gen_of (flight_of (rw_flight w1) a)) [] (set (of_agent a (rw_served w1)))
         (seen_marks a (rw_sent w1)) (set (of_agent a (rw_requested w1))) (set (of_agent a (rw_lost w1)))"
        using agent_request_idle[OF here None room, where now=now and d="?d"] agent_ok_idle[OF here None] gen
        by (simp add: w1_def f1_def)
    qed (use keys agent_ok_idle[OF here None] inv_view[OF assms(1)] in \<open>auto simp: w1_def f1_def view_ok_def\<close>)
  next
    case (Some fl)
    obtain w1 where w': "snd (drv_request targets peer now a w) = w1" by simp
    have "distinct (map fst (fs_agents (rw_flight w1)))"
      using w'[symmetric] keys False Some by (simp add: drv_request_def request_replay_def Let_def split: option.split)
    moreover have "view_ok w1 b" for b
    proof (cases "b = a")
      case True
      show ?thesis
      proof (cases "af_next_gen ?f")
        case None
        show ?thesis using agent_request_next[OF here Some None room] w'[symmetric] False Some None True
          by (simp add: drv_request_def request_replay_def view_ok_def Let_def)
      next
        case (Some g)
        show ?thesis using agent_request_merged[OF here \<open>af_in_flight ?f = Some fl\<close> Some] w'[symmetric] False \<open>af_in_flight ?f = Some fl\<close> Some True
          by (simp add: drv_request_def request_replay_def view_ok_def Let_def)
      qed
    next
      case other: False
      then show ?thesis using inv_view[OF assms(1), of b] w'[symmetric] False Some
        by (simp add: drv_request_def request_replay_def view_ok_def Let_def split: option.split)
    qed
    ultimately show ?thesis unfolding w' replay_inv_def by blast
  qed
qed

lemma inv_update:
  assumes "replay_inv w" "distinct (map fst (fs_agents (rw_flight w')))" "view_ok w' a" "\<And>b. b \<noteq> a \<Longrightarrow> view_ok w b \<Longrightarrow> view_ok w' b"
  shows "replay_inv w'"
  unfolding replay_inv_def
proof (intro conjI allI assms(2))
  fix b show "view_ok w' b" using assms(1,3,4) by (cases "b = a") (auto simp: replay_inv_def)
qed

lemma inv_serve:
  assumes "replay_inv w"
  shows "replay_inv (daemon_serve how w)"
proof (cases "rw_wire w")
  case (Cons x rest)
  obtain a g where x: "x = (a, g)" by (cases x)
  have keys: "distinct (map fst (fs_agents (rw_flight w)))" using assms by (simp add: replay_inv_def)
  note here = inv_view[OF assms, of a, unfolded view_ok_def Cons x]
  show ?thesis
  proof (rule inv_update[OF assms, where a=a])
    show "distinct (map fst (fs_agents (rw_flight (daemon_serve how w))))" using keys by (cases how) (simp_all add: Cons x)
    show "view_ok (daemon_serve how w) a"
    proof (cases how)
      case Refuse
      show ?thesis using agent_refuse[of _ g] here by (simp add: Refuse Cons x view_ok_def)
    next
      case (Serve epoch rf t c ack fin)
      have "agent_ok (flight_of (rw_flight w) a) (g # of_agent a rest) (of_agent a (rw_answers w)) (set (of_agent a (rw_served w)))
        (seen_marks a (rw_sent w)) (set (of_agent a (rw_requested w))) (set (of_agent a (rw_lost w)))" using here by simp
      from agent_serve[OF this, of ack epoch rf t c fin] show ?thesis
        by (cases ack; cases fin) (simp_all add: Serve Cons x view_ok_def)
    qed
    show "view_ok (daemon_serve how w) b" if "b \<noteq> a" "view_ok w b" for b
      using that by (cases how) (auto simp: Cons x view_ok_def)
  qed
qed (use assms in simp)

lemma agent_last:
  assumes "agent_ok f ws ((g, x) # ans) S M R L" "af_in_flight f = Some fl"
  shows "x = AnComplete e \<Longrightarrow> ans = [] \<and> (if_acked fl \<longrightarrow> (if_generation fl, if_replay_from fl) \<in> S)"
    "x = AnRefused \<Longrightarrow> ans = [] \<and> \<not> if_acked fl" "if_failed fl \<Longrightarrow> if_generation fl \<in> mk_generation ` set M"
  using assms(1) by (rule agent_head; use assms in \<open>auto simp: agent_ok_def flight_ok_def\<close>)+

lemma inv_follow_up:
  assumes keys: "distinct (map fst (fs_agents (rw_flight w)))"
    and others: "\<And>b. b \<noteq> a \<Longrightarrow> view_ok w b"
    and empty: "of_agent a (rw_wire w) = []" "of_agent a (rw_answers w) = []" "af_in_flight (flight_of (rw_flight w) a) \<noteq> None"
      "af_next_gen (flight_of (rw_flight w) a) = None"
    and this_agent: "agent_ok (flight_of (rw_flight w) a) (gen_of (flight_of (rw_flight w) a)) [] (set (of_agent a (rw_served w)))
       (seen_marks a (rw_sent w)) (set (of_agent a (rw_requested w))) (set (of_agent a (rw_lost w)))"
  shows "replay_inv (drv_follow_up targets peer now a w)"
proof (cases "targets a = []")
  case True
  obtain fl where fl: "af_in_flight (flight_of (rw_flight w) a) = Some fl" using empty(3) by auto
  have gen: "gen_of (flight_of (rw_flight w) a) = [if_generation fl]" by (simp add: gen_of_def fl)
  have fresh: "\<not> if_acked fl" using this_agent unfolding gen by (rule agent_wire) (simp add: fl)
  have refused: "snd (on_refused a now (rw_flight w)) = put_flight a ((flight_of (rw_flight w) a)\<lparr>af_in_flight := None\<rparr>) (rw_flight w)"
    by (simp add: on_refused_flight fl fresh advance_next_def empty(4) Let_def)
  have w': "drv_follow_up targets peer now a w = w\<lparr>rw_flight := put_flight a ((flight_of (rw_flight w) a)\<lparr>af_in_flight := None\<rparr>) (rw_flight w),
      rw_lost := rw_lost w @ [(a, if_generation fl)]\<rparr>"
    by (simp add: drv_follow_up_def True refused gen)
  show ?thesis
  proof (rule inv_update[OF inv_write(2), where a=a])
    show "view_ok (drv_follow_up targets peer now a w) a"
      using agent_unshown[OF this_agent[unfolded gen] empty(4)] by (simp add: w' view_ok_def empty)
    show "view_ok (drv_follow_up targets peer now a w) b" if "b \<noteq> a" "view_ok w b" for b using that by (simp add: w' view_ok_def)
  qed (use assms in \<open>simp_all add: w'\<close>)
next
  case False
  then show ?thesis using inv_write[OF assms(1-5,7)] by (simp add: drv_follow_up_def)
qed

text \<open>A resolution: the flight is released with at most one marker, and the merged request takes its place.\<close>

lemma inv_resolved:
  assumes "replay_inv w" and ans: "rw_answers w = (a, g, x) # rest" "of_agent a rest = []"
    and fl: "af_in_flight (flight_of (rw_flight w) a) = Some fl" "of_agent a (rw_wire w) = []"
    and next_one: "advance_next now d ((flight_of (rw_flight w) a)\<lparr>af_in_flight := None\<rparr>) = (sn, f1)"
    and sent: "seen_marks a sent = ms" "\<And>b. b \<noteq> a \<Longrightarrow> seen_marks b sent = []"
    and ms: "if_generation fl \<in> mk_generation ` set (seen_marks a (rw_sent w) @ ms)"
      "ms = [] \<or> ms = [m] \<and> mk_generation m = if_generation fl \<and>
          (if mk_failed m then \<not> if_failed fl else (if_generation fl, mk_replay_from m) \<in> set (of_agent a (rw_served w)))"
  defines "w1 \<equiv> w\<lparr>rw_answers := rest, rw_flight := put_flight a f1 (rw_flight w), rw_sent := rw_sent w @ sent\<rparr>"
  shows "replay_inv (if sn then drv_follow_up targets peer now a w1 else w1)"
proof -
  have keys: "distinct (map fst (fs_agents (rw_flight w1)))" using assms(1) by (simp add: replay_inv_def w1_def)
  note here = inv_view[OF assms(1), of a, unfolded view_ok_def fl(2)]
  note released = agent_release[OF here fl(1) next_one ms]
  have others: "view_ok w1 b" if "b \<noteq> a" for b using inv_view[OF assms(1), of b] that sent(2)[OF that] by (simp add: view_ok_def w1_def ans(1))
  show ?thesis
  proof (cases sn)
    case True
    have "replay_inv (drv_follow_up targets peer now a w1)"
    proof (rule inv_follow_up[OF keys others])
      show "agent_ok (flight_of (rw_flight w1) a) (gen_of (flight_of (rw_flight w1) a)) [] (set (of_agent a (rw_served w1)))
        (seen_marks a (rw_sent w1)) (set (of_agent a (rw_requested w1))) (set (of_agent a (rw_lost w1)))"
        using released(1) True by (simp add: w1_def sent(1))
    qed (use released(2,3) True in \<open>simp_all add: w1_def ans fl\<close>)
    then show ?thesis using True by simp
  next
    case False
    have "view_ok w1 a" using released(1) False by (simp add: view_ok_def w1_def sent(1) ans fl)
    then have "view_ok w1 b" for b using others by (cases "b = a") auto
    then show ?thesis using keys False by (simp add: replay_inv_def)
  qed
qed

lemma inv_answer_resolved:
  assumes "replay_inv w" "rw_answers w = (a, g, x) # rest" "x = AnComplete e \<or> x = AnRefused"
  shows "replay_inv (drv_answer targets peer now w)"
proof -
  note here = inv_view[OF assms(1), of a, unfolded view_ok_def assms(2)]
  have head: "agent_ok (flight_of (rw_flight w) a) (of_agent a (rw_wire w)) ((g, x) # of_agent a rest) (set (of_agent a (rw_served w)))
     (seen_marks a (rw_sent w)) (set (of_agent a (rw_requested w))) (set (of_agent a (rw_lost w)))" using here by simp
  obtain fl where fl: "af_in_flight (flight_of (rw_flight w) a) = Some fl" "if_generation fl = g" "of_agent a (rw_wire w) = []"
    using head by (rule agent_head)
  note last = agent_last[OF head fl(1)]
  obtain sn f1 where next_one: "advance_next now (fs_deadline (rw_flight w)) ((flight_of (rw_flight w) a)\<lparr>af_in_flight := None\<rparr>) = (sn, f1)"
    by (cases "advance_next now (fs_deadline (rw_flight w)) ((flight_of (rw_flight w) a)\<lparr>af_in_flight := None\<rparr>)")
  consider (waiting) "x = AnComplete e" "\<not> if_acked fl" | (complete) "x = AnComplete e" "if_acked fl" | (refused) "x = AnRefused" using assms(3) by auto
  then show ?thesis
  proof cases
    case waiting
    show ?thesis
    proof (rule inv_update[OF assms(1), where a=a])
      show "view_ok (drv_answer targets peer now w) a"
        using agent_drop_head[OF head[unfolded waiting(1)]]
        by (simp add: drv_answer_def drv_event_def assms(2) waiting on_complete_flight fl(1) view_ok_def)
    qed (use assms(1,2) in \<open>auto simp: drv_answer_def drv_event_def waiting on_complete_flight fl(1) view_ok_def replay_inv_def\<close>)
  next
    case complete
    let ?m = "\<lparr>mk_generation = if_generation fl, mk_truncated = if_truncated fl, mk_failed = False,
      mk_continues = if_continues fl, mk_replay_from = if_replay_from fl\<rparr>"
    have w': "drv_answer targets peer now w = (let w1 = w\<lparr>rw_answers := rest, rw_flight := put_flight a f1 (rw_flight w),
        rw_sent := rw_sent w @ [(targets a, encode_marker_frame a e ?m)]\<rparr> in if sn then drv_follow_up targets peer now a w1 else w1)"
      by (simp add: drv_answer_def drv_event_def assms(2) complete on_complete_flight fl(1) next_one)
    show ?thesis unfolding w' Let_def
      by (rule inv_resolved[OF assms(1,2) _ fl(1,3) next_one]) (use last(1)[OF complete(1)] complete(2) in \<open>auto simp: marks_one\<close>)
  next
    case refused
    have fresh: "\<not> if_acked fl" and empty: "of_agent a rest = []" using last(2)[OF refused] by auto
    let ?sent = "if if_failed fl then [] else [(targets a, encode_marker_frame a (case known_epoch (rw_subs w) a of None \<Rightarrow> 0 | Some ep \<Rightarrow> ep) (failure_marker fl))]"
    let ?ms = "if if_failed fl then [] else [failure_marker fl]"
    have w': "drv_answer targets peer now w = (let w1 = w\<lparr>rw_answers := rest, rw_flight := put_flight a f1 (rw_flight w),
        rw_sent := rw_sent w @ ?sent\<rparr> in if sn then drv_follow_up targets peer now a w1 else w1)"
      by (auto simp: drv_answer_def drv_event_def plan_subscribe_refusal_def assms(2) refused on_refused_flight fl(1) fresh next_one Let_def
          split: option.split)
    show ?thesis unfolding w' Let_def
      by (rule inv_resolved[OF assms(1,2) empty fl(1,3) next_one, where ms="?ms" and m="failure_marker fl"])
        (use last(3) in \<open>auto simp: marks_one(2)\<close>)
  qed
qed

lemma inv_answer:
  assumes "replay_inv w"
  shows "replay_inv (drv_answer targets peer now w)"
proof (cases "rw_answers w")
  case Nil then show ?thesis using assms by (simp add: drv_answer_def)
next
  case (Cons y rest)
  obtain a g x where y: "y = (a, g, x)" by (cases y) auto
  show ?thesis
  proof (cases x)
    case (AnAck ep rf t c)
    have head: "agent_ok (flight_of (rw_flight w) a) (of_agent a (rw_wire w)) ((g, AnAck ep rf t c) # of_agent a rest) (set (of_agent a (rw_served w)))
       (seen_marks a (rw_sent w)) (set (of_agent a (rw_requested w))) (set (of_agent a (rw_lost w)))"
      using inv_view[OF assms, of a, unfolded view_ok_def Cons y AnAck] by simp
    obtain fl where fl: "af_in_flight (flight_of (rw_flight w) a) = Some fl" using head by (rule agent_head)
    show ?thesis
    proof (rule inv_update[OF assms, where a=a])
      show "view_ok (drv_answer targets peer now w) a"
        using agent_acked[OF head fl] by (simp add: drv_answer_def drv_event_def Cons y AnAck view_ok_def on_ack_def fl)
    qed (use assms in \<open>auto simp: drv_answer_def drv_event_def Cons y AnAck view_ok_def on_ack_def replay_inv_def\<close>)
  next
    case (AnComplete ep) show ?thesis by (rule inv_answer_resolved[OF assms Cons[unfolded y]]) (simp add: AnComplete)
  next
    case AnRefused show ?thesis by (rule inv_answer_resolved[OF assms Cons[unfolded y]]) (simp add: AnRefused)
  qed
qed

text \<open>What the relay hands on is never a marker, whatever bytes the daemon sends.\<close>

lemma relay_flight:
  assumes "relay_binary_frame targets now bytes warned ss fs = (r, sent, warned', ss', fs')"
  shows "fs' = fs \<or> (\<exists>a. fs' = note_progress a now fs)" "seen_marks b sent = []"
proof -
  have placeholder: "decode_replay_marker (placeholder_error_frame a e n) = None" for a e n
    by (simp add: placeholder_error_frame_def encode_structured_frame_def decode_encode)
  show "fs' = fs \<or> (\<exists>a. fs' = note_progress a now fs)" "seen_marks b sent = []"
    using assms by (auto simp: relay_binary_frame_def relay_frame_def Let_def case_prod_beta marks_one(1)[OF frame_no_marker]
        marks_one(1)[OF placeholder] split: sum.splits codec_error.splits if_splits)
qed

lemma inv_frame:
  assumes "replay_inv w"
  shows "replay_inv (drv_frame targets now bytes warned w)"
proof -
  obtain r sent warned' ss' fs' where relay: "relay_binary_frame targets now bytes warned (rw_subs w) (rw_flight w) = (r, sent, warned', ss', fs')"
    by (cases "relay_binary_frame targets now bytes warned (rw_subs w) (rw_flight w)") auto
  let ?w = "w\<lparr>rw_flight := fs', rw_subs := ss', rw_sent := rw_sent w @ sent\<rparr>"
  have "replay_inv ?w"
  proof (cases "fs' = rw_flight w")
    case True
    then show ?thesis using assms relay_flight(2)[OF relay] by (simp add: replay_inv_def view_ok_def)
  next
    case False
    then obtain a where fs': "fs' = note_progress a now (rw_flight w)" using relay_flight(1)[OF relay] by auto
    show ?thesis
    proof (rule inv_update[OF assms, where a=a])
      show "view_ok ?w a"
      proof (cases "af_in_flight (flight_of (rw_flight w) a)")
        case None
        then have "flight_of fs' a = flight_of (rw_flight w) a" by (simp add: fs' note_progress_def)
        then show ?thesis using inv_view[OF assms, of a] relay_flight(2)[OF relay] by (simp add: view_ok_def)
      next
        case (Some fl)
        show ?thesis using agent_deadline[OF inv_view[OF assms, of a, unfolded view_ok_def] Some] relay_flight(2)[OF relay] Some
          by (simp add: view_ok_def fs' note_progress_def)
      qed
    qed (use assms relay_flight(2)[OF relay] in \<open>auto simp: view_ok_def fs' note_progress_def replay_inv_def\<close>)
  qed
  then show ?thesis using inv_drop by (simp add: drv_frame_def relay Let_def split: frame_relay.split)
qed

lemma inv_sweep:
  assumes "replay_inv w"
  shows "replay_inv (drv_sweep targets now w)"
  unfolding replay_inv_def
proof (intro conjI allI)
  have keys: "distinct (map fst (fs_agents (rw_flight w)))" using assms by (simp add: replay_inv_def)
  have w': "drv_sweep targets now w = w\<lparr>rw_flight := snd (check_deadlines now (rw_flight w)), rw_sent := rw_sent w @
     map (\<lambda>(a, m). (targets a, encode_marker_frame a (case known_epoch (rw_subs w) a of None \<Rightarrow> 0 | Some ep \<Rightarrow> ep) m)) (fst (check_deadlines now (rw_flight w)))\<rparr>"
    by (simp add: drv_sweep_def case_prod_beta)
  show "distinct (map fst (fs_agents (rw_flight (drv_sweep targets now w))))" using keys by (simp add: w')
  fix a
  let ?f = "flight_of (rw_flight w) a"
  have here: "view_ok w a" by (rule inv_view[OF assms])
  show "view_ok (drv_sweep targets now w) a"
  proof (cases "is_due now ?f")
    case True
    then obtain fl where fl: "af_in_flight ?f = Some fl" "\<not> if_failed fl" by (auto simp: is_due_def split: option.splits)
    show ?thesis using agent_due[OF here[unfolded view_ok_def] fl] True
      by (simp add: view_ok_def w' marks_due[OF keys] flight_of_deadlines Let_def fl(1))
  next
    case False
    then show ?thesis using here by (simp add: view_ok_def w' marks_due[OF keys] flight_of_deadlines Let_def)
  qed
qed

interpretation rp: step_invariant replay_init replay_step replay_inv
proof unfold_locales
  fix w assume "replay_init w" then show "replay_inv w" by (cases rule: replay_init.cases) (simp add: inv_start)
next
  fix w w' assume inv: "replay_inv w" and "replay_step w w'"
  from this(2) obtain op where op: "replay_pre op w" "w' = replay_do op w" by (rule replay_stepE)
  show "replay_inv w'" unfolding op(2)
  proof (cases op)
    case (RwRequest targets peer now a)
    then show "replay_inv (replay_do op w)" using inv_request[OF inv] op(1) by simp
  qed (use inv inv_serve inv_answer inv_frame inv_sweep inv_drop in simp_all)
qed

end
