(* ===== verification/Replay_Facts.thy ===== *)
theory Replay_Facts
  imports Replay_System
begin

text \<open>
  What the windows can rely on when they ask for a replay: the generation fence, the account of the requests, and the relay of
  output frames. A small run at the start shows the hypotheses met.
\<close>

section \<open>A run\<close>

fun replay_play_ok :: "replay_op list \<Rightarrow> replay_world \<Rightarrow> bool" where
  "replay_play_ok [] w = True"
| "replay_play_ok (op # ops) w \<longleftrightarrow> replay_pre op w \<and> replay_play_ok ops (replay_do op w)"

lemma replay_play: "replay_play_ok ops w \<Longrightarrow> replay_step\<^sup>*\<^sup>* w (fold replay_do ops w)"
proof (induction ops arbitrary: w)
  case (Cons op ops)
  then have "replay_step w (replay_do op w)" by (auto intro: replay_step.intros)
  moreover have "replay_step\<^sup>*\<^sup>* (replay_do op w) (fold replay_do (op # ops) w)" using Cons by simp
  ultimately show ?case by (rule converse_rtranclp_into_rtranclp)
qed simp

lemmas replay_eval = replay_start_def flight_set_new_def flight_of_def put_flight_def agent_flight_default_def in_flight_fresh_def
  drv_request_def request_replay_def drv_write_subscribe_def drv_follow_up_def gen_of_def next_of_def drv_answer_def drv_event_def
  on_ack_def map_in_flight_def on_complete_def on_refused_def advance_next_def drv_sweep_def check_deadlines_def is_due_def
  apply_subscribe_ack_def known_epoch_def Let_def failure_marker_def

text \<open>Agent 7, shown in window 1: a replay that runs out of time before the daemon serves it, a request merged behind it, then both
  served.\<close>

definition demo_windows :: "peer_id \<Rightarrow> nat list" where
  "demo_windows a = (if a = 7 then [1] else [])"

definition replay_demo_first :: "replay_op list" where
  "replay_demo_first = [RwRequest demo_windows PeerQueued 0 7, RwSweep demo_windows 12]"

definition replay_demo_rest :: "replay_op list" where
  "replay_demo_rest = [RwServe (Serve 3 0 False False True True), RwAnswer demo_windows PeerQueued 12, RwAnswer demo_windows PeerQueued 12,
     RwServe (Serve 3 5 False True True True), RwAnswer demo_windows PeerQueued 13, RwAnswer demo_windows PeerQueued 13]"

definition replay_demo :: replay_world where
  "replay_demo = fold replay_do replay_demo_first (replay_start 10 [])"

definition replay_demo_merged :: replay_world where
  "replay_demo_merged = snd (drv_request demo_windows PeerQueued 12 7 replay_demo)"

definition replay_demo_end :: replay_world where
  "replay_demo_end = fold replay_do replay_demo_rest replay_demo_merged"

lemma replay_demo_reachable: "reachable replay_init replay_step replay_demo"
proof -
  have "replay_play_ok replay_demo_first (replay_start 10 [])" by (simp add: replay_demo_first_def demo_windows_def replay_eval)
  from replay_play[OF this] show ?thesis unfolding replay_demo_def
    by (rule reachable_star) (rule reach_init, rule replay_init.intros)
qed

lemma replay_demo_request: "replay_pre (RwRequest demo_windows PeerQueued 12 7) replay_demo"
  "fst (drv_request demo_windows PeerQueued 12 7 replay_demo) = Some 2"
  by (simp_all add: replay_demo_def replay_demo_first_def demo_windows_def replay_eval)

lemma replay_demo_runs: "replay_step\<^sup>*\<^sup>* replay_demo_merged replay_demo_end"
  unfolding replay_demo_end_def
  by (rule replay_play) (simp add: replay_demo_rest_def)

definition replay_demo_marker :: marker where
  "replay_demo_marker = \<lparr>mk_generation = 2, mk_truncated = False, mk_failed = False, mk_continues = True, mk_replay_from = 5\<rparr>"

lemma replay_demo_sent: "(demo_windows 7, encode_marker_frame 7 3 replay_demo_marker) \<in> set (rw_sent replay_demo_end)"
  by (simp add: replay_demo_end_def replay_demo_rest_def replay_demo_merged_def replay_demo_def replay_demo_first_def demo_windows_def
      replay_eval replay_demo_marker_def)

lemma sent_marks:
  assumes "(ws, encode_marker_frame a e m) \<in> set sent" "mk_failed m \<longrightarrow> \<not> mk_continues m"
  shows "m \<in> set (seen_marks a sent)"
proof -
  obtain xs ys where sent: "sent = xs @ [(ws, encode_marker_frame a e m)] @ ys" using assms(1) by (auto simp: in_set_conv_decomp)
  show ?thesis unfolding sent seen_marks_simps(2) marks_one(2)[OF assms(2)] by simp
qed

lemma replay_demo_marked: "replay_demo_marker \<in> set (seen_marks 7 (rw_sent replay_demo_end))"
  by (rule sent_marks[OF replay_demo_sent]) (simp add: replay_demo_marker_def)

section \<open>What windows can rely on\<close>

lemmas view_facts = inv_view[unfolded view_ok_def agent_ok_def]

lemma request_above_served:
  assumes "replay_inv w" "replay_pre (RwRequest targets peer now a) w" "fst (drv_request targets peer now a w) = Some g"
    "x \<in> set (of_agent a (rw_served w))"
  shows "fst x < g"
proof -
  let ?f = "flight_of (rw_flight w) a"
  have room: "Suc (unat (af_gen_counter ?f)) < 2 ^ 64" using assms(2) by simp
  have up: "af_gen_counter ?f < af_gen_counter ?f + 1"
    using word_less_Suc(1)[of "af_gen_counter ?f"] unat_Suc_no_wrap(2)[of "af_gen_counter ?f"] room by simp
  note here = view_facts[OF assms(1), of a]
  have open_peer: "peer \<noteq> PeerGone" "targets a \<noteq> []" using assms(3) by (auto simp: drv_request_def split: if_splits)
  show ?thesis
  proof (cases "\<exists>fl h. af_in_flight ?f = Some fl \<and> af_next_gen ?f = Some h")
    case True
    then obtain fl h where fl: "af_in_flight ?f = Some fl" "af_next_gen ?f = Some h" by auto
    then have "fst x \<le> if_generation fl" "if_generation fl < h" using here assms(4) by (auto simp: flight_ok_def next_of_def)
    moreover have "g = h" using assms(3) fl open_peer by (simp add: drv_request_def request_replay_def)
    ultimately show ?thesis by auto
  next
    case False
    then have "g = af_gen_counter ?f + 1" using assms(3) open_peer
      by (auto simp: drv_request_def request_replay_def Let_def split: option.splits if_splits)
    moreover have "fst x \<le> af_gen_counter ?f" using here assms(4) by auto
    ultimately show ?thesis using up by (auto intro: order_le_less_trans)
  qed
qed

text \<open>C23. The generation fence. A window that asked for a replay and was given a generation waits for a success marker with at
  least that generation. Whatever happened before, and whatever requests, answers, frames, deadlines and connection losses come
  in between: such a marker stands for a replay that the daemon completed after the request, and says where that replay
  starts.\<close>
theorem replay_fence:
  assumes "reachable replay_init replay_step w" "replay_pre (RwRequest targets peer now a) w"
    and "drv_request targets peer now a w = (Some g, w1)" "replay_step\<^sup>*\<^sup>* w1 w2"
    and "m \<in> set (seen_marks a (rw_sent w2))" "\<not> mk_failed m" "g \<le> mk_generation m"
  shows "(a, mk_generation m, mk_replay_from m) \<in> set (rw_served w2) \<and> (a, mk_generation m, mk_replay_from m) \<notin> set (rw_served w)"
proof
  have w: "replay_inv w" by (rule rp.inv_reachable[OF assms(1)])
  have "replay_step w w1" using replay_step.intros[OF assms(2)] assms(3) by simp
  then have "replay_inv w2" using rp.inv_star assms(4) rp.inv_step[OF w] by blast
  from view_facts[OF this, of a] show "(a, mk_generation m, mk_replay_from m) \<in> set (rw_served w2)"
    using assms(5,6) by (auto simp: set_of_agent)
  show "(a, mk_generation m, mk_replay_from m) \<notin> set (rw_served w)"
    using request_above_served[OF w assms(2), of g "(mk_generation m, mk_replay_from m)"] assms(3,7) by (auto simp: set_of_agent)
qed

theorem replay_fence_witness:
  "reachable replay_init replay_step replay_demo \<and> fst (drv_request demo_windows PeerQueued 12 7 replay_demo) = Some 2 \<and>
   replay_step\<^sup>*\<^sup>* replay_demo_merged replay_demo_end \<and> replay_demo_marker \<in> set (seen_marks 7 (rw_sent replay_demo_end)) \<and>
   (7, 2, 5) \<in> set (rw_served replay_demo_end) \<and> (7, 2, 5) \<notin> set (rw_served replay_demo)"
proof -
  have request: "drv_request demo_windows PeerQueued 12 7 replay_demo = (Some 2, replay_demo_merged)"
    using replay_demo_request(2) by (simp add: replay_demo_merged_def prod_eq_iff)
  show ?thesis
    using replay_fence[OF replay_demo_reachable replay_demo_request(1) request replay_demo_runs replay_demo_marked]
      replay_demo_reachable replay_demo_request(2) replay_demo_runs replay_demo_marked by (simp add: replay_demo_marker_def)
qed

text \<open>C24. No replay request is forgotten, and none is answered twice: a generation that was handed out is marked to the windows,
  or is the one in flight or the one merged behind it, or was given up with a connection or because no window shows the agent;
  at most one success and one failure marker carry it; and after a sweep no request that is past its deadline is unmarked.\<close>
theorem replay_requests_accounted:
  assumes "reachable replay_init replay_step w" "(a, g) \<in> set (rw_requested w)"
  shows "(g \<in> mk_generation ` set (seen_marks a (rw_sent w)) \<or> (a, g) \<in> set (rw_lost w) \<or>
          map_option if_generation (af_in_flight (flight_of (rw_flight w) a)) = Some g \<or> af_next_gen (flight_of (rw_flight w) a) = Some g) \<and>
     distinct (map mk_generation (filter (\<lambda>m. \<not> mk_failed m) (seen_marks a (rw_sent w)))) \<and>
     distinct (map mk_generation (filter mk_failed (seen_marks a (rw_sent w)))) \<and>
     (\<forall>fl. af_in_flight (flight_of (rw_flight (drv_sweep targets now w)) a) = Some fl \<and> if_deadline fl \<le> now \<longrightarrow>
        if_generation fl \<in> mk_generation ` set (seen_marks a (rw_sent (drv_sweep targets now w))))"
proof (intro conjI allI impI)
  have inv: "replay_inv w" by (rule rp.inv_reachable[OF assms(1)])
  note here = view_facts[OF inv, of a]
  show "g \<in> mk_generation ` set (seen_marks a (rw_sent w)) \<or> (a, g) \<in> set (rw_lost w) \<or>
      map_option if_generation (af_in_flight (flight_of (rw_flight w) a)) = Some g \<or> af_next_gen (flight_of (rw_flight w) a) = Some g"
    using here assms(2) by (auto simp: set_of_agent[symmetric] gen_of_def next_of_def split: option.splits)
  show "distinct (map mk_generation (filter (\<lambda>m. \<not> mk_failed m) (seen_marks a (rw_sent w))))"
    "distinct (map mk_generation (filter mk_failed (seen_marks a (rw_sent w))))" using here by auto
  fix fl assume fl: "af_in_flight (flight_of (rw_flight (drv_sweep targets now w)) a) = Some fl \<and> if_deadline fl \<le> now"
  have "if_failed fl"
    using fl by (auto simp: drv_sweep_def case_prod_beta flight_of_deadlines Let_def is_due_def split: if_splits option.splits)
  then show "if_generation fl \<in> mk_generation ` set (seen_marks a (rw_sent (drv_sweep targets now w)))"
    using view_facts[OF inv_sweep[OF inv, of targets now], of a] fl by (auto simp: flight_ok_def)
qed

theorem replay_requests_accounted_witness:
  "reachable replay_init replay_step replay_demo \<and> (7, 1) \<in> set (rw_requested replay_demo) \<and>
   (1 \<in> mk_generation ` set (seen_marks 7 (rw_sent replay_demo)) \<or> (7, 1) \<in> set (rw_lost replay_demo) \<or>
    map_option if_generation (af_in_flight (flight_of (rw_flight replay_demo) 7)) = Some 1 \<or> af_next_gen (flight_of (rw_flight replay_demo) 7) = Some 1)"
proof -
  have asked: "(7, 1) \<in> set (rw_requested replay_demo)"
    by (simp add: replay_demo_def replay_demo_first_def demo_windows_def replay_eval)
  show ?thesis using replay_requests_accounted[OF replay_demo_reachable asked] replay_demo_reachable asked by blast
qed

section \<open>The relay\<close>

text \<open>C25. The relay makes no hole in the numbers a window receives. A frame that is long enough for a header never ends the
  connection: unless its incarnation is not the one acknowledged, exactly one frame is handed to the windows that show the
  agent, it can be decoded, and it has the agent, the incarnation and the number of the frame that came; it is that frame
  itself, or the error placeholder when the tag is not known. A shorter frame ends the connection, and nothing else does.\<close>
theorem relay_keeps_seq:
  "relay_binary_frame targets now bytes warned ss fs = (case peek_frame_header bytes of
     Inl e \<Rightarrow> (RelayDisconnect, [], warned, ss, fs)
   | Inr h \<Rightarrow>
       let a = fh_agent_id h;
           known = (case decode_frame bytes of Inl x \<Rightarrow> False | Inr y \<Rightarrow> True);
           frame = (if known then bytes else placeholder_error_frame a (fh_epoch h) (fh_seq h))
       in (RelayContinue, (if known_epoch ss a \<noteq> None \<and> known_epoch ss a \<noteq> Some (fh_epoch h) then [] else [(targets a, frame)]),
           (if known then warned else snd (first_sighting a (fh_tag h) warned)), sub_entry a ss, note_progress a now fs)) \<and>
   (case peek_frame_header bytes of
     Inl e \<Rightarrow> length bytes < FRAME_HEADER_LEN
   | Inr h \<Rightarrow> FRAME_HEADER_LEN \<le> length bytes \<and>
       peek_frame_header (placeholder_error_frame (fh_agent_id h) (fh_epoch h) (fh_seq h)) =
         Inr (h\<lparr>fh_tag := FRAME_TAG_STRUCTURED_EVENT\<rparr>) \<and>
       decode_frame (placeholder_error_frame (fh_agent_id h) (fh_epoch h) (fh_seq h)) =
         Inr (h\<lparr>fh_tag := FRAME_TAG_STRUCTURED_EVENT\<rparr>, PLACEHOLDER_ERROR_PAYLOAD))"
proof (cases "peek_frame_header bytes")
  case (Inl e)
  then have "length bytes < FRAME_HEADER_LEN" "decode_frame bytes = Inl (TooShort (length bytes))"
    by (auto simp: decode_frame_def peek_frame_header_def split: if_splits)
  then show ?thesis using Inl by (simp add: relay_binary_frame_def)
next
  case (Inr h)
  have entry: "known_epoch (sub_entry a ss) a = known_epoch ss a" for a
    by (auto simp: known_epoch_def sub_entry_def update_conv split: option.split)
  have decode: "decode_frame bytes = (if fh_tag h \<noteq> FRAME_TAG_TERMINAL_BYTES \<and> fh_tag h \<noteq> FRAME_TAG_STRUCTURED_EVENT
      then Inl (UnknownTag (fh_tag h)) else Inr (h, drop FRAME_HEADER_LEN bytes))" by (simp add: decode_frame_def Inr)
  have len: "FRAME_HEADER_LEN \<le> length bytes" using Inr by (auto simp: peek_frame_header_def split: if_splits)
  have placeholder: "decode_frame (placeholder_error_frame a e n) = Inr (\<lparr>fh_tag = FRAME_TAG_STRUCTURED_EVENT, fh_agent_id = a, fh_epoch = e, fh_seq = n\<rparr>,
      PLACEHOLDER_ERROR_PAYLOAD)" "peek_frame_header (placeholder_error_frame a e n) =
      Inr \<lparr>fh_tag = FRAME_TAG_STRUCTURED_EVENT, fh_agent_id = a, fh_epoch = e, fh_seq = n\<rparr>" for a e n
    by (simp_all add: placeholder_error_frame_def encode_structured_frame_def decode_encode peek_encode)
  have relay: "relay_frame targets now (a, e, b) ss fs = ((if known_epoch ss a \<noteq> None \<and> known_epoch ss a \<noteq> Some e then [] else [(targets a, b)]),
      sub_entry a ss, note_progress a now fs)" for a e b
    by (auto simp: relay_frame_def Let_def entry decide_epoch_def split: option.split)
  show ?thesis using Inr len
    by (cases h) (auto simp: relay_binary_frame_def decode relay placeholder Let_def case_prod_beta)
qed

end
