(* ===== verification/Spec2Isabelle.thy ===== *)
theory Spec2Isabelle
  imports Busy_Policy Service_Ledger Send_Contracts Peer_Bytes View_Docking Output_Facts Replay_Facts
begin

text \<open>
  \<^bold>\<open>engram-dashboard\<close>: a desktop dashboard for agent programs. A daemon runs the agents and passes messages between
  them; the desktop shell and the command-line client talk to the daemon over a transport of their own; the shell
  keeps the layout of tabs, windows and slots that shows the agents. This development models the parts that carry state
  and rules of their own: the \<^bold>\<open>messaging\<close> crate, the \<^bold>\<open>transport\<close> crate, the output side of an \<^bold>\<open>agent\<close>, the \<^bold>\<open>replay\<close> client
  of the shell and its \<^bold>\<open>layout\<close> authority.

  \<^bold>\<open>How the parts interact.\<close> The host of the daemon calls the entry points of the messaging service
  (\<^verbatim>\<open>handle_send\<close>, \<^verbatim>\<open>on_agent_idle\<close> and the other flush triggers, \<^verbatim>\<open>sweep\<close>, \<^verbatim>\<open>handle_profile_deleted\<close>), which keep one
  parking store and one ledger under one lock and reach back into the host through ports: inject a text into an agent,
  list the live agents, ring a doorbell. Client and daemon are joined by a peer of the transport: a handle that posts
  commands, a reader that brings frames, and a supervisor that owns the connection machine, the table of pending
  requests, the streams and the byte tally. The pump of an agent and the threads that inject input emit events into its
  output core, which keeps the replay ring, feeds the shared tables of observed turns and pending inputs and fans out to
  the subscribers; the idle gate of the messaging service reads these two tables through an adapter of the daemon. The connection actor of the shell
  relays the output frames to the windows and asks the daemon for replays on their behalf, one at a time per agent. The commands of the shell change the layout only through the
  \<^verbatim>\<open>ViewManager\<close>, which owns the trees, the windows and the ownership of tabs.

  \<^bold>\<open>Messaging\<close>, \<^verbatim>\<open>crates/engram-dashboard-messaging/src\<close>:
  \<^item> \<open>Mailbox\<close> (\<^verbatim>\<open>mailbox.rs\<close>): the parking store, the receipts of items in flight, a step system of its operations and
    its invariant (lane limits, admission order, exact receipts).
  \<^item> \<open>Ledger\<close> (\<^verbatim>\<open>ledger.rs\<close>): the ring of delivery records and the request contracts, provisional reservations
    included; slot bound, unique keys, deadlines that are owed until reported.
  \<^item> \<open>Group_Source\<close> (\<^verbatim>\<open>groups.rs\<close>), \<open>Busy_Policy\<close> (\<^verbatim>\<open>busy.rs\<close>), \<open>Envelope\<close> (\<^verbatim>\<open>envelope.rs\<close>): group addresses, the idle
    gate with its stale-turn sweep, the text that is injected.
  \<^item> \<open>Park_Payload\<close>, \<open>Addressing\<close>, \<open>Messaging_State\<close>, \<open>Drain_Path\<close>, \<open>Messaging_Service\<close> (all \<^verbatim>\<open>service.rs\<close>): the parked text,
    the resolution of recipients, the two passes of a send, the lock sections of a drain, and the entry points as whole
    runs against a host that is a parameter.
  \<^item> \<open>Service_System\<close>: threads that interleave at lock sections, refined to the store's own steps; \<open>Send_Outcome\<close>: what a
    send promises its caller; \<open>Send_Contracts\<close>: the verdict on every row from the state at entry, and what a send does to the
    contract its reply answers; \<open>Service_Ledger\<close>: the ledger inside the service.

  \<^bold>\<open>Transport\<close>, \<^verbatim>\<open>crates/engram-dashboard-transport/src\<close>:
  \<^item> \<open>Mask_Reason\<close> (\<^verbatim>\<open>mask.rs\<close>), \<open>Conn_Policy\<close> (\<^verbatim>\<open>policy.rs\<close>), \<open>Conn_Machine\<close> (\<^verbatim>\<open>machine.rs\<close>): the connection state machine
    with its dial budget.
  \<^item> \<open>Pending_Table\<close> (\<^verbatim>\<open>pending.rs\<close>), \<open>Stream_Track\<close> (\<^verbatim>\<open>stream.rs\<close>), \<open>Byte_Budget\<close> (\<^verbatim>\<open>budget.rs\<close>): request slots, stream order
    with held pieces and resume windows, the tally of received bytes and its read gate.
  \<^item> \<open>Peer_Core\<close> (\<^verbatim>\<open>peer.rs\<close>, with the types of \<^verbatim>\<open>frame.rs\<close>, \<^verbatim>\<open>wire.rs\<close>, \<^verbatim>\<open>event.rs\<close>): the handle's entry points and every
    handler of the supervisor; \<open>Peer_System\<close>: handle, reader, receiver and supervisor as one step system, and that every
    request is answered once; \<open>Peer_Bytes\<close>: the tally over the whole peer, and that a served timer makes progress.

  \<^bold>\<open>Agent output\<close>, \<^verbatim>\<open>crates/engram-dashboard-agent/src\<close>:
  \<^item> \<open>Turn_Facts\<close> (\<^verbatim>\<open>turn.rs\<close>, \<^verbatim>\<open>inputs_pending.rs\<close>, the adapter of \<^verbatim>\<open>messaging_host.rs\<close>): the two shared tables; what the
    table of turns tells in every order in which two threads apply their signals, when that is what the lines tell in the order
    they were emitted, and the one order in which it is not.
  \<^item> \<open>Queued_Input\<close> (\<^verbatim>\<open>queued_input.rs\<close>): the reducer of list events with its tombstones, refined to one machine per input.
  \<^item> \<open>Output_Core\<close> (\<^verbatim>\<open>output_core.rs\<close>, \<^verbatim>\<open>types.rs\<close>): the ring, emission, the terminal transition, subscriptions, each lock
    section a function and the work outside the lock a list of tasks; \<open>Output_System\<close>: threads that interleave at lock
    sections; \<open>Output_Props\<close> and \<open>Output_Subs\<close>: the invariants; \<open>Output_Facts\<close>: what they mean for a reader of the output, for
    the messaging service and for the end of an agent, and that every run of the threads alone ends with no task left.

  \<^bold>\<open>Replay client\<close>, \<^verbatim>\<open>src-tauri/src/daemon_client\<close>:
  \<^item> \<open>Wire_Frame\<close> (\<^verbatim>\<open>codec.rs\<close> and \<^verbatim>\<open>placeholder.rs\<close> of \<^verbatim>\<open>crates/engram-dashboard-protocol\<close>, the marker of \<^verbatim>\<open>replay_flight.rs\<close>): output
    frames, placeholders and replay markers as bytes with the readers of both, the one of the windows (\<^verbatim>\<open>src/api/wsFrame.ts\<close>)
    included, as it is the other half of the marker.
  \<^item> \<open>Replay_Flight\<close> (\<^verbatim>\<open>replay_flight.rs\<close>, \<^verbatim>\<open>replay_events.rs\<close>, \<^verbatim>\<open>frame_relay.rs\<close>, the incarnation guard of \<^verbatim>\<open>protocol_state.rs\<close>): the
    single replay in flight per agent, the events of the daemon, the relay of frames.
  \<^item> \<open>Replay_System\<close> (the replay part of \<^verbatim>\<open>connection.rs\<close>): requests, answers of the daemon, frames, deadlines and lost connections as
    steps of one system, with its invariant; \<open>Replay_Facts\<close>: the generation fence the windows rely on, the account of the
    requests, and that the relay makes no hole in the numbers.

  \<^bold>\<open>Layout\<close>, \<^verbatim>\<open>src-tauri/src/layout\<close>:
  \<^item> \<open>Layout_Tree\<close> (\<^verbatim>\<open>tree.rs\<close>, \<^verbatim>\<open>types.rs\<close>), \<open>Layout_Geometry\<close> (\<^verbatim>\<open>geometry.rs\<close>, \<^verbatim>\<open>dock.rs\<close>), \<open>Window_Number\<close>
    (\<^verbatim>\<open>numbering.rs\<close>): slot trees, their rectangles, docking one tree into another, window numbers.
  \<^item> \<open>View_Model\<close> and \<open>View_Dock\<close> (\<^verbatim>\<open>manager.rs\<close>, \<^verbatim>\<open>tab_name.rs\<close>): the view manager with every operation that changes it.
  \<^item> \<open>View_Own\<close>, \<open>View_Adopt\<close>, \<open>View_Trees\<close>: which window owns which tab, what taking over a restored layout leaves, the
    trees of all views together; \<open>View_System\<close> makes one step function of all operations and shows that it keeps the
    invariant and that errors change nothing; \<open>View_Props\<close> states the properties over all reachable layouts, and
    \<open>View_Docking\<close> what docking does exactly: the place in a tree or a tab bar, and that nothing is lost.

  \<^bold>\<open>State and effects.\<close> \<open>Eg_Prelude\<close> holds the shared vocabulary: clock values are nanoseconds as natural numbers, text
  is a list of code points, hash maps are association lists with unique keys, machine integers keep their width where
  the code relies on it (admission numbers, generations, sequence numbers), a fallible operation returns a sum. A lock
  section is a function on the state under the lock; code outside the lock is a separate step, so interleavings are
  explicit. Identifiers and random draws are arguments. The locale \<open>step_invariant\<close> carries reachability and induction
  for all step systems; the other locales are the interfaces between components, each interpreted on the model itself.

  \<^bold>\<open>Parameters.\<close> The host behind the ports of the service, the classifier of turn signals of a backend, the answers
  of the subscribers of an output core, the routing of agents to windows, the message codec of the wire, the write half of a link, the receiver's
  line, the printing and parsing of identifiers, JSON values and floating-point arithmetic are arguments of the
  definitions. Floating point enters in two places: the back-off delay of the reconnect policy, a field of the policy,
  and the layout metric, a record of the boundary function and its tests, whose only assumed law is that a boundary lies
  between the two ends it divides.

  \<^bold>\<open>Fuel.\<close> \<^verbatim>\<open>drain_queue\<close> is called again from its own doorbell path; its model carries fuel, and \<open>entry_points_return\<close>
  shows that three is enough in every reachable state. All other loops are structural or end by a measure. The step systems leave out the
  steps that would wrap a 64-bit counter of lines, admissions or sequence numbers.

  \<^bold>\<open>Not modelled.\<close> Logging, metrics and test seams; the unwinding of a panicking thread; dialing, the handshake with the writes and
  deadlines of its own, the sleeping of the select loops, the websocket and the registry of peers (\<^verbatim>\<open>registry.rs\<close>, \<^verbatim>\<open>ws.rs\<close>, \<^verbatim>\<open>link.rs\<close>), which are
  asynchronous input and output around the modelled core; the pixel rounding of the layout and the reading order of
  slots (\<^verbatim>\<open>spatial.rs\<close>), which is rounding in floating point; the commands of the shell that only call the view manager;
  the agent backends and the manager of agent processes, the platform layer, the command bus, the network glue, the daemon and the command-line client,
  which are processes, files and operating system calls; the TypeScript frontend but the reader of replay markers.
\<close>

end
